(* ===== verification/Prelude.thy ===== *)
theory Prelude
  imports "HOL-Library.Word" "HOL-Library.Multiset"
begin

text \<open>
  Shared prelude. It fixes the names of the C integer types the sources use, the result type of
  a C function that may fail or not return, and the generic lemmas on words, lists and that
  result type on which the component theories rest.

  A C function that can only return is a HOL function. A function with loops whose termination
  depends on the state of the heap, or one that can dereference a bad pointer or violate an
  \<^verbatim>\<open>assert\<close>, is a value of type \<open>'a prog\<close>: \<^const>\<open>None\<close> is a run that does
  not return, \<open>Some (Inl e)\<close> a run that stops with the fault \<open>e\<close>, and \<open>Some (Inr x)\<close>
  a run that returns \<open>x\<close>. Loops over linked structures are
  \<^theory_text>\<open>partial_function (option)\<close> definitions over this type, so that a theorem which says
  that an operation equals \<open>ret x\<close> is a statement of total correctness.
\<close>

unbundle bit_operations_syntax

named_theorems prog_simps \<open>evaluation rules of the program monad\<close>
named_theorems tag_simps \<open>rewrite rules for tagged and marked machine words\<close>

section \<open>C integer types\<close>

type_synonym uint8_t = "8 word"
type_synonym uint16_t = "16 word"
type_synonym uint32_t = "32 word"
type_synonym uint64_t = "64 word"
type_synonym size_t = "64 word"
type_synonym addr = "64 word"

abbreviation NULL :: addr where "NULL \<equiv> 0"

text \<open>The value of a 32-bit register read as a C \<^verbatim>\<open>int\<close>.\<close>

definition as_int :: "uint32_t \<Rightarrow> int" where
  "as_int w = sint w"

section \<open>Programs that may fault or not return\<close>

datatype c_error =
    Null_Deref \<comment> \<open>a read or write through NULL or through an address that is not allocated\<close>
  | Out_Of_Bounds \<comment> \<open>an access outside the array it is made through\<close>
  | Assert_Failed \<comment> \<open>\<^verbatim>\<open>assert\<close> or \<^verbatim>\<open>ASSERT\<close> does not hold\<close>
  | Undefined_Behaviour \<comment> \<open>an operation the C standard leaves undefined\<close>
  | Exit_Failure \<comment> \<open>the code calls \<^verbatim>\<open>exit\<close> with a failure status\<close>

type_synonym 'a prog = "(c_error + 'a) option"

definition ret :: "'a \<Rightarrow> 'a prog" where
  "ret x = Some (Inr x)"

definition fail :: "c_error \<Rightarrow> 'a prog" where
  "fail e = Some (Inl e)"

definition pbind :: "'a prog \<Rightarrow> ('a \<Rightarrow> 'b prog) \<Rightarrow> 'b prog" where
  "pbind m f = Option.bind m (\<lambda>r. case r of Inl e \<Rightarrow> Some (Inl e) | Inr x \<Rightarrow> f x)"

definition passert :: "bool \<Rightarrow> unit prog" where
  "passert b = (if b then ret () else fail Assert_Failed)"

definition pguard :: "c_error \<Rightarrow> bool \<Rightarrow> unit prog" where
  "pguard e b = (if b then ret () else fail e)"

lemma pbind_ret [simp, prog_simps]: "pbind (ret x) f = f x"
  by (simp add: pbind_def ret_def)

lemma pbind_fail [simp, prog_simps]: "pbind (fail e) f = fail e"
  by (simp add: pbind_def fail_def)

lemma pbind_None [simp]: "pbind None f = None"
  by (simp add: pbind_def)

lemma ret_inject [simp]: "ret x = ret y \<longleftrightarrow> x = y"
  by (simp add: ret_def)

lemma fail_inject [simp]: "fail x = fail y \<longleftrightarrow> x = y"
  by (simp add: fail_def)

lemma ret_neq_fail [simp]: "ret x \<noteq> fail e" "fail e \<noteq> ret x"
  by (simp_all add: ret_def fail_def)

lemma ret_neq_None [simp]: "ret x \<noteq> None" "None \<noteq> ret x"
  by (simp_all add: ret_def)

lemma pbind_assoc: "pbind (pbind m f) g = pbind m (\<lambda>x. pbind (f x) g)"
  by (auto simp: pbind_def split: option.splits sum.splits Option.bind_splits)

lemma pbind_eq_ret: "pbind m f = ret y \<longleftrightarrow> (\<exists>x. m = ret x \<and> f x = ret y)"
  by (auto simp: pbind_def ret_def split: Option.bind_splits sum.splits)

lemma passert_True [simp, prog_simps]: "passert True = ret ()"
  by (simp add: passert_def)

lemma passert_False [simp, prog_simps]: "passert False = fail Assert_Failed"
  by (simp add: passert_def)

lemma passert_eq_ret [simp]: "passert b = ret u \<longleftrightarrow> b"
  by (simp add: passert_def)

lemma pguard_True [simp, prog_simps]: "pguard e True = ret ()"
  by (simp add: pguard_def)

lemma pguard_False [simp, prog_simps]: "pguard e False = fail e"
  by (simp add: pguard_def)

lemma pguard_eq_ret [simp]: "pguard e b = ret u \<longleftrightarrow> b"
  by (simp add: pguard_def)

lemma pbind_mono [partial_function_mono]:
  assumes B: "mono_option B" and C: "\<And>y. mono_option (\<lambda>f. C y f)"
  shows "mono_option (\<lambda>f. pbind (B f) (\<lambda>y. C y f))"
  unfolding pbind_def
proof (rule bind_mono [OF B])
  fix r
  show "mono_option (\<lambda>f. case r of Inl e \<Rightarrow> Some (Inl e) | Inr x \<Rightarrow> C x f)"
    using C by (cases r) (auto intro: monotoneI simp: flat_ord_def)
qed

lemma pbind_cong [fundef_cong]:
  "m = m' \<Longrightarrow> (\<And>x. m' = ret x \<Longrightarrow> f x = g x) \<Longrightarrow> pbind m f = pbind m' g"
  by (auto simp: pbind_def ret_def split: option.splits sum.splits Option.bind_splits)

section \<open>Words\<close>

lemma xor_drop_bit_eq_iff:
  fixes x y :: "'a::len word"
  assumes "0 < s" and "x XOR drop_bit s x = y XOR drop_bit s y"
  shows "x = y"
proof -
  define z where "z = x XOR y"
  have zz: "z = drop_bit s z"
  proof -
    have "z XOR drop_bit s z = (x XOR drop_bit s x) XOR (y XOR drop_bit s y)"
      by (simp add: z_def ac_simps)
    then have "z XOR drop_bit s z = 0"
      using assms(2) by simp
    then show ?thesis
      by (metis xor.assoc xor.right_neutral xor_self_eq)
  qed
  have "unat z = unat z div 2 ^ s"
    using zz by (metis unat_drop_bit_eq drop_bit_eq_div)
  then have "unat z = 0"
    using assms(1) by (metis div_less_dividend gr0I less_irrefl one_less_numeral_iff one_less_power semiring_norm(76))
  then have "z = 0" by (simp add: unat_eq_0)
  then show ?thesis unfolding z_def by (metis xor.assoc xor.right_neutral xor_self_eq xor.left_neutral)
qed

lemma xor_push_bit_eq_iff:
  fixes x y :: "'a::len word"
  assumes "0 < s" and "x XOR push_bit s x = y XOR push_bit s y"
  shows "x = y"
proof (rule bit_word_eqI)
  fix n assume "n < LENGTH('a)"
  then show "bit x n \<longleftrightarrow> bit y n"
  proof (induction n rule: less_induct)
    case (less n)
    have "bit (x XOR push_bit s x) n = bit (y XOR push_bit s y) n"
      using assms(2) by simp
    then show ?case
      using less assms(1) by (auto simp: bit_simps)
  qed
qed

lemma mult_odd_cancel:
  fixes m mi x y :: "'a::len word"
  assumes "m * mi = 1" and "x * m = y * m"
  shows "x = y"
proof -
  have "x * m * mi = y * m * mi" using assms(2) by simp
  then show ?thesis using assms(1) by (simp add: mult.assoc)
qed

lemma unat_bound: "unat (w :: 'a::len word) < 2 ^ LENGTH('a)"
  by (rule unsigned_less)

lemma unat_of_nat_small:
  "n < 2 ^ LENGTH('a::len) \<Longrightarrow> unat (of_nat n :: 'a word) = n"
  by (simp add: unat_of_nat take_bit_eq_mod)

lemma sint_low_half_diff:
  "sint (ucast (a - b :: 64 word) :: 32 word) = signed_take_bit 31 (uint a - uint b)"
proof -
  have 1: "uint (a - b) = take_bit 64 (uint a - uint b)"
    using uint_word_ariths(2) [of a b] by (simp add: take_bit_eq_mod)
  have 2: "sint (ucast (a - b) :: 32 word) = signed_take_bit 31 (uint (ucast (a - b) :: 32 word))"
    using sint_uint [of "ucast (a - b) :: 32 word"] by simp
  have 3: "uint (ucast (a - b) :: 32 word) = take_bit 32 (uint (a - b))"
    by (rule unsigned_ucast_eq [THEN trans]) simp
  show ?thesis
    unfolding 2 3 1 by (simp add: signed_take_bit_take_bit)
qed

lemma as_int_ucast_small:
  fixes w :: "64 word"
  assumes "unat w < 2 ^ 31"
  shows "as_int (ucast w) = int (unat w)"
proof -
  have w: "0 \<le> uint w" "uint w < 2 ^ 31"
    using assms of_nat_less_iff [of "unat w" "2 ^ 31", where ?'a = int] by simp_all
  have "sint (ucast (w - 0) :: 32 word) = signed_take_bit 31 (uint w - uint (0 :: 64 word))"
    by (rule sint_low_half_diff)
  also have "\<dots> = signed_take_bit 31 (uint w)" by simp
  also have "\<dots> = uint w"
    by (intro signed_take_bit_int_eq_self) (use w in linarith)+
  finally show ?thesis by (simp add: as_int_def)
qed

section \<open>Lists\<close>

lemma nth_list_update_if:
  "i < length xs \<Longrightarrow> xs[i := v] ! j = (if i = j then v else xs ! j)"
  by auto

lemma replicate_numeral_Cons [simp]:
  "replicate (numeral k) x = x # replicate (pred_numeral k) x"
  by (simp add: numeral_eq_Suc)

lemma all_less_two: "(\<forall>i < (2 :: nat). P i) \<longleftrightarrow> P 0 \<and> P 1"
  by (auto simp: numeral_2_eq_2 less_Suc_eq)

lemma mod_eq_window:
  fixes a b n :: nat
  assumes "a mod n = b mod n" and "a \<le> b" and "b < a + n"
  shows "a = b"
proof -
  from assms(1,2) obtain k where "b = a + n * k"
    by (metis mod_eq_nat1E)
  with assms(3) have "n * k < n * 1" by simp
  then have "k = 0" by (metis mult_less_cancel1 less_one)
  with \<open>b = a + n * k\<close> show ?thesis by simp
qed

text \<open>Sums over the threads of a system, when one thread or one summand changes.\<close>

lemma sum_list_update_add:
  fixes f :: "'a \<Rightarrow> 'b::comm_monoid_add"
  assumes "i < length xs"
  shows "sum_list (map f (xs[i := v])) + f (xs ! i) = sum_list (map f xs) + f v"
  using assms by (induction xs arbitrary: i) (auto simp: ac_simps split: nat.splits)

lemma sum_change_one:
  fixes f g :: "'a \<Rightarrow> 'b::comm_monoid_add"
  assumes "finite A" and "k \<in> A" and "\<And>i. i \<in> A \<Longrightarrow> i \<noteq> k \<Longrightarrow> g i = f i"
  shows "sum g A + f k = sum f A + g k"
proof -
  have "sum g (A - {k}) = sum f (A - {k})" using assms(3) by (intro sum.cong) auto
  then show ?thesis
    using assms(1,2) by (simp add: sum.remove ac_simps)
qed

definition tally :: "('a \<Rightarrow> bool) \<Rightarrow> 'a list \<Rightarrow> nat" where
  "tally P xs = sum_list (map (\<lambda>x. of_bool (P x)) xs)"

lemma tally_update:
  "i < length xs \<Longrightarrow> tally P (xs[i := v]) + of_bool (P (xs ! i)) = tally P xs + of_bool (P v)"
  unfolding tally_def by (rule sum_list_update_add)

lemma tally_pos: "i < length xs \<Longrightarrow> P (xs ! i) \<Longrightarrow> 0 < tally P xs"
  by (induction xs arbitrary: i) (auto simp: tally_def less_Suc_eq_0_disj)

lemma tally_zero: "tally P xs = 0 \<longleftrightarrow> (\<forall>x \<in> set xs. \<not> P x)"
  by (induction xs) (auto simp: tally_def)

lemma tally_ex: "0 < tally P xs \<Longrightarrow> \<exists>i < length xs. P (xs ! i)"
  using tally_zero [of P xs] by (auto simp: in_set_conv_nth)

lemma tally_same_two:
  assumes "i < length xs" and "j < length xs" and "i \<noteq> j" and "P (xs ! i)" and "P (xs ! j)"
  shows "tally P xs \<ge> 2"
proof (cases "\<exists>v. \<not> P v")
  case True
  then obtain v where v: "\<not> P v" by blast
  have "0 < tally P (xs[i := v])" using assms by (intro tally_pos [of j]) auto
  then show ?thesis using tally_update [OF assms(1), of P v] assms(4) v by simp
next
  case False
  then have "tally P xs = length xs" by (simp add: tally_def sum_list_triv)
  then show ?thesis using assms(1,2,3) by linarith
qed

end
