(* ===== verification/Common.thy ===== *)
theory Common
  imports Prelude
begin

text \<open>
  Model of \<^verbatim>\<open>src/src/runtime/common.h\<close> in the 64-bit build (\<^verbatim>\<open>NBD32\<close>
  undefined) with threads (\<^verbatim>\<open>NBD_SINGLE_THREADED\<close> undefined): the tag macros, the
  special values, and the read-modify-write primitives. A primitive that works on the word at an
  address is a function from the word's old content to the pair of the value it returns and the
  word's new content.
\<close>

section \<open>Constants and tags\<close>

definition CACHE_LINE_SIZE :: nat where "CACHE_LINE_SIZE = 64"
definition MAX_NUM_THREADS :: nat where "MAX_NUM_THREADS = 32"

definition MASK :: "nat \<Rightarrow> uint64_t" where
  "MASK n = push_bit n 1 - 1"

definition TAG1 :: uint64_t where "TAG1 = push_bit 63 1"
definition TAG2 :: uint64_t where "TAG2 = push_bit 62 1"

definition TAG_VALUE :: "uint64_t \<Rightarrow> uint64_t \<Rightarrow> uint64_t" where
  "TAG_VALUE v tag = v OR tag"

definition IS_TAGGED :: "uint64_t \<Rightarrow> uint64_t \<Rightarrow> uint64_t" where
  "IS_TAGGED v tag = v AND tag"

definition STRIP_TAG :: "uint64_t \<Rightarrow> uint64_t \<Rightarrow> uint64_t" where
  "STRIP_TAG v tag = v AND NOT tag"

definition DOES_NOT_EXIST :: uint64_t where "DOES_NOT_EXIST = 0"
definition ERROR_INVALID_OPTION :: uint64_t where "ERROR_INVALID_OPTION = - 1"
definition ERROR_INVALID_ARGUMENT :: uint64_t where "ERROR_INVALID_ARGUMENT = - 2"
definition ERROR_UNSUPPORTED_FEATURE :: uint64_t where "ERROR_UNSUPPORTED_FEATURE = - 3"
definition ERROR_TXN_NOT_RUNNING :: uint64_t where "ERROR_TXN_NOT_RUNNING = - 4"

section \<open>Read-modify-write primitives\<close>

definition SYNC_SWAP :: "'a \<Rightarrow> 'a \<Rightarrow> 'a \<times> 'a" where
  "SYNC_SWAP cur x = (cur, x)"

definition SYNC_CAS :: "'a \<Rightarrow> 'a \<Rightarrow> 'a \<Rightarrow> 'a \<times> 'a" where
  "SYNC_CAS cur old x = (cur, if cur = old then x else cur)"

text \<open>\<^verbatim>\<open>__sync_add_and_fetch\<close> returns the new value.\<close>

definition SYNC_ADD :: "'a::len word \<Rightarrow> 'a word \<Rightarrow> 'a word \<times> 'a word" where
  "SYNC_ADD cur n = (cur + n, cur + n)"

definition SYNC_FETCH_AND_OR :: "'a::len word \<Rightarrow> 'a word \<Rightarrow> 'a word \<times> 'a word" where
  "SYNC_FETCH_AND_OR cur x = (cur, cur OR x)"

lemma SYNC_CAS_same [simp]: "SYNC_CAS c c x = (c, x)"
  by (simp add: SYNC_CAS_def)

lemma SYNC_CAS_diff: "c \<noteq> old \<Longrightarrow> SYNC_CAS c old x = (c, c)"
  by (simp add: SYNC_CAS_def)

section \<open>Tag arithmetic\<close>

lemma TAG1_val: "TAG1 = 0x8000000000000000"
  by (simp add: TAG1_def)

lemma TAG2_val: "TAG2 = 0x4000000000000000"
  by (simp add: TAG2_def)

lemma MASK_eq_mask: "MASK n = mask n"
  by (simp add: MASK_def mask_eq_exp_minus_1)

lemma and_MASK: "x AND MASK n = take_bit n x"
  by (simp add: MASK_eq_mask take_bit_eq_mask)

lemma unat_and_MASK: "unat (x AND MASK n) = unat x mod 2 ^ n"
  by (metis and_MASK unsigned_take_bit_eq take_bit_eq_mod)

lemma STRIP_TAG_idem [simp]: "STRIP_TAG (STRIP_TAG v t) t = STRIP_TAG v t"
  by (simp add: STRIP_TAG_def and.assoc)

lemma STRIP_TAG_TAG_VALUE [tag_simps]:
  "IS_TAGGED v t = 0 \<Longrightarrow> STRIP_TAG (TAG_VALUE v t) t = v"
  by (auto simp: STRIP_TAG_def TAG_VALUE_def IS_TAGGED_def bit_eq_iff bit_simps)

lemma STRIP_TAG_untagged [tag_simps]:
  "IS_TAGGED v t = 0 \<Longrightarrow> STRIP_TAG v t = v"
  by (auto simp: STRIP_TAG_def IS_TAGGED_def bit_eq_iff bit_simps)

lemma IS_TAGGED_STRIP_TAG [simp]: "IS_TAGGED (STRIP_TAG v t) t = 0"
  by (auto simp: STRIP_TAG_def IS_TAGGED_def bit_eq_iff bit_simps)

lemma IS_TAGGED_TAG_VALUE [simp]: "IS_TAGGED (TAG_VALUE v t) t = t"
  by (auto simp: TAG_VALUE_def IS_TAGGED_def bit_eq_iff bit_simps)

lemma TAG_VALUE_idem [simp]: "TAG_VALUE (TAG_VALUE v t) t = TAG_VALUE v t"
  by (simp add: TAG_VALUE_def or.assoc)

lemma TAG_VALUE_inj:
  "IS_TAGGED v t = 0 \<Longrightarrow> IS_TAGGED w t = 0 \<Longrightarrow> TAG_VALUE v t = TAG_VALUE w t \<longleftrightarrow> v = w"
  by (metis STRIP_TAG_TAG_VALUE)

lemma IS_TAGGED_zero [simp]: "IS_TAGGED 0 t = 0"
  by (simp add: IS_TAGGED_def)

end
