(* ===== verification/Atomic_Var.thy ===== *)
theory Atomic_Var
  imports Common
begin

text \<open>
  Model of the \<^verbatim>\<open>ATOMIC_VAR_*\<close> and \<^verbatim>\<open>ATOMIC_FLAG_*\<close> macros of
  \<^verbatim>\<open>src/src/common/catomic.h\<close>: those of the GCC configuration, which the models of the
  containers use, and beside them those of the configurations for C11, for MSVC and for a compiler without atomics. An operation on an atomic object is a function from the object's
  content to the returned value and the new content.
\<close>

section \<open>catomic.h\<close>

definition ATOMIC_VAR_CAS :: "'a \<Rightarrow> 'a \<Rightarrow> 'a \<Rightarrow> bool \<times> 'a" where
  "ATOMIC_VAR_CAS cur oval nval = (if cur = oval then (True, nval) else (False, cur))"

definition ATOMIC_VAR_FAA :: "'a::len word \<Rightarrow> 'a word \<Rightarrow> 'a word \<times> 'a word" where
  "ATOMIC_VAR_FAA cur v = (cur, cur + v)"

definition ATOMIC_FLAG_TAS :: "bool \<Rightarrow> bool \<times> bool" where
  "ATOMIC_FLAG_TAS cur = (cur, True)"

definition ATOMIC_FLAG_CLR :: "bool \<Rightarrow> bool" where
  "ATOMIC_FLAG_CLR cur = False"

text \<open>The other configurations. \<^verbatim>\<open>_InterlockedCompareExchange\<close> takes the new value before the
  value to compare with.\<close>

definition interlocked_compare_exchange :: "'a \<Rightarrow> 'a \<Rightarrow> 'a \<Rightarrow> 'a \<times> 'a" where
  "interlocked_compare_exchange cur exchange comparand = (cur, if cur = comparand then exchange else cur)"

definition ATOMIC_VAR_CAS_std :: "'a \<Rightarrow> 'a \<Rightarrow> 'a \<Rightarrow> bool \<times> 'a" where
  "ATOMIC_VAR_CAS_std cur oval nval = (let stunt = oval in if cur = stunt then (True, nval) else (False, cur))"

definition ATOMIC_VAR_CAS_msvc :: "'a \<Rightarrow> 'a \<Rightarrow> 'a \<Rightarrow> bool \<times> 'a" where
  "ATOMIC_VAR_CAS_msvc cur oval nval = (let (r, c) = interlocked_compare_exchange cur oval nval in (r = oval, c))"

definition ATOMIC_VAR_CAS_none :: "'a \<Rightarrow> 'a \<Rightarrow> 'a \<Rightarrow> bool \<times> 'a" where
  "ATOMIC_VAR_CAS_none cur oval nval = (if oval = cur then (True, nval) else (False, cur))"

definition ATOMIC_VAR_FAA_none :: "'a::len word \<Rightarrow> 'a word \<Rightarrow> 'a word \<times> 'a word" where
  "ATOMIC_VAR_FAA_none cur v = (let oval = cur in (oval, cur + v))"

definition ATOMIC_FLAG_TAS_none :: "bool \<Rightarrow> bool \<times> bool" where
  "ATOMIC_FLAG_TAS_none cur = (let oval = cur in (oval, if \<not> oval then True else cur))"

lemma configurations_agree:
  "ATOMIC_VAR_CAS_std c e n = ATOMIC_VAR_CAS c e n" "ATOMIC_VAR_CAS_none c e n = ATOMIC_VAR_CAS c e n"
  "ATOMIC_VAR_FAA_none w v = ATOMIC_VAR_FAA w v" "ATOMIC_FLAG_TAS_none b = ATOMIC_FLAG_TAS b"
  by (auto simp: ATOMIC_VAR_CAS_std_def ATOMIC_VAR_CAS_none_def ATOMIC_VAR_CAS_def ATOMIC_VAR_FAA_none_def ATOMIC_VAR_FAA_def
    ATOMIC_FLAG_TAS_none_def ATOMIC_FLAG_TAS_def)

text \<open>The MSVC configuration passes its arguments in the other order: a compare-and-swap whose expected value matches
  reports success and leaves the object as it was.\<close>

lemma msvc_CAS_loses_update: "c \<noteq> n \<Longrightarrow> ATOMIC_VAR_CAS_msvc c c n = (True, c)"
  by (simp add: ATOMIC_VAR_CAS_msvc_def interlocked_compare_exchange_def)

lemma ATOMIC_VAR_CAS_same [simp]: "ATOMIC_VAR_CAS c c n = (True, n)"
  by (simp add: ATOMIC_VAR_CAS_def)

lemma ATOMIC_VAR_CAS_diff: "c \<noteq> e \<Longrightarrow> ATOMIC_VAR_CAS c e n = (False, c)"
  by (simp add: ATOMIC_VAR_CAS_def)

end
