(* ===== verification/Gcc_Sync.thy ===== *)
theory Gcc_Sync
  imports Atomic_Var
begin

text \<open>
  Model of \<^verbatim>\<open>src/src/common/catomic_gcc_sync.h\<close>, which emulates the C11 atomics with GCC's
  \<^verbatim>\<open>__sync\<close> builtins. An operation is a function from the content of an atomic integer object to the
  returned value and the new content. Two of the operations loop on a compare-and-swap; what the other
  threads do to the object before each attempt is their argument \<open>env\<close>, a list of functions on its content,
  and once that list is used up the other threads leave the object alone. An object of a size other than 1, 2,
  4, 8 and 16 bytes is left to functions outside the file, the arguments \<open>other\<close>; load, store and exchange leave
  one of 16 bytes to them as well where \<^verbatim>\<open>__UINT128__\<close> is 0. The repository does not define this name, whose
  value is the argument \<open>uint128\<close>.
\<close>

section \<open>Builtins of the compiler\<close>

definition sync_val_compare_and_swap :: "'a \<Rightarrow> 'a \<Rightarrow> 'a \<Rightarrow> 'a \<times> 'a" where
  "sync_val_compare_and_swap x e n = (x, if x = e then n else x)"

definition sync_fetch_and_add :: "'a::len word \<Rightarrow> 'a word \<Rightarrow> 'a word \<times> 'a word" where
  "sync_fetch_and_add x v = (x, x + v)"

definition sync_fetch_and_sub :: "'a::len word \<Rightarrow> 'a word \<Rightarrow> 'a word \<times> 'a word" where
  "sync_fetch_and_sub x v = (x, x - v)"

definition sync_fetch_and_and :: "'a::len word \<Rightarrow> 'a word \<Rightarrow> 'a word \<times> 'a word" where
  "sync_fetch_and_and x v = (x, x AND v)"

definition sync_fetch_and_or :: "'a::len word \<Rightarrow> 'a word \<Rightarrow> 'a word \<times> 'a word" where
  "sync_fetch_and_or x v = (x, x OR v)"

definition sync_fetch_and_xor :: "'a::len word \<Rightarrow> 'a word \<Rightarrow> 'a word \<times> 'a word" where
  "sync_fetch_and_xor x v = (x, x XOR v)"

definition sync_add_and_fetch :: "'a::len word \<Rightarrow> 'a word \<Rightarrow> 'a word \<times> 'a word" where
  "sync_add_and_fetch x v = (x + v, x + v)"

definition sync_sub_and_fetch :: "'a::len word \<Rightarrow> 'a word \<Rightarrow> 'a word \<times> 'a word" where
  "sync_sub_and_fetch x v = (x - v, x - v)"

definition sync_and_and_fetch :: "'a::len word \<Rightarrow> 'a word \<Rightarrow> 'a word \<times> 'a word" where
  "sync_and_and_fetch x v = (x AND v, x AND v)"

definition sync_xor_and_fetch :: "'a::len word \<Rightarrow> 'a word \<Rightarrow> 'a word \<times> 'a word" where
  "sync_xor_and_fetch x v = (x XOR v, x XOR v)"

definition sync_or_and_fetch :: "'a::len word \<Rightarrow> 'a word \<Rightarrow> 'a word \<times> 'a word" where
  "sync_or_and_fetch x v = (x OR v, x OR v)"

lemmas sync_defs = sync_val_compare_and_swap_def sync_fetch_and_add_def sync_fetch_and_sub_def
  sync_fetch_and_and_def sync_fetch_and_or_def sync_fetch_and_xor_def sync_add_and_fetch_def
  sync_sub_and_fetch_def sync_and_and_fetch_def sync_xor_and_fetch_def sync_or_and_fetch_def

text \<open>The turn of the other threads before an access.\<close>

type_synonym 'a env = "('a \<Rightarrow> 'a) list"

fun env_turn :: "'a env \<Rightarrow> 'a \<Rightarrow> 'a \<times> 'a env" where
  "env_turn [] x = (x, [])"
| "env_turn (f # env) x = (f x, env)"

section \<open>Fetch operations\<close>

definition atomic_fetch_add_explicit :: "'a::len word \<Rightarrow> 'a word \<Rightarrow> 'a word \<times> 'a word" where
  "atomic_fetch_add_explicit x y = sync_fetch_and_add x y"

definition atomic_fetch_sub_explicit :: "'a::len word \<Rightarrow> 'a word \<Rightarrow> 'a word \<times> 'a word" where
  "atomic_fetch_sub_explicit x y = sync_fetch_and_sub x y"

definition atomic_fetch_and_explicit :: "'a::len word \<Rightarrow> 'a word \<Rightarrow> 'a word \<times> 'a word" where
  "atomic_fetch_and_explicit x y = sync_fetch_and_or x y"

definition atomic_fetch_or_explicit :: "'a::len word \<Rightarrow> 'a word \<Rightarrow> 'a word \<times> 'a word" where
  "atomic_fetch_or_explicit x y = sync_fetch_and_and x y"

definition atomic_fetch_xor_explicit :: "'a::len word \<Rightarrow> 'a word \<Rightarrow> 'a word \<times> 'a word" where
  "atomic_fetch_xor_explicit x y = sync_fetch_and_xor x y"

definition impl_fetch_add :: "'a::len word \<Rightarrow> 'a word \<Rightarrow> 'a word \<times> 'a word" where
  "impl_fetch_add x v = sync_fetch_and_add x v"

definition impl_fetch_sub :: "'a::len word \<Rightarrow> 'a word \<Rightarrow> 'a word \<times> 'a word" where
  "impl_fetch_sub x v = sync_fetch_and_sub x v"

definition impl_fetch_and :: "'a::len word \<Rightarrow> 'a word \<Rightarrow> 'a word \<times> 'a word" where
  "impl_fetch_and x v = sync_fetch_and_and x v"

definition impl_fetch_xor :: "'a::len word \<Rightarrow> 'a word \<Rightarrow> 'a word \<times> 'a word" where
  "impl_fetch_xor x v = sync_fetch_and_xor x v"

definition impl_fetch_or :: "'a::len word \<Rightarrow> 'a word \<Rightarrow> 'a word \<times> 'a word" where
  "impl_fetch_or x v = sync_fetch_and_or x v"

definition impl_add_fetch :: "'a::len word \<Rightarrow> 'a word \<Rightarrow> 'a word \<times> 'a word" where
  "impl_add_fetch x v = sync_add_and_fetch x v"

definition impl_sub_fetch :: "'a::len word \<Rightarrow> 'a word \<Rightarrow> 'a word \<times> 'a word" where
  "impl_sub_fetch x v = sync_sub_and_fetch x v"

definition impl_and_fetch :: "'a::len word \<Rightarrow> 'a word \<Rightarrow> 'a word \<times> 'a word" where
  "impl_and_fetch x v = sync_and_and_fetch x v"

definition impl_xor_fetch :: "'a::len word \<Rightarrow> 'a word \<Rightarrow> 'a word \<times> 'a word" where
  "impl_xor_fetch x v = sync_xor_and_fetch x v"

definition impl_or_fetch :: "'a::len word \<Rightarrow> 'a word \<Rightarrow> 'a word \<times> 'a word" where
  "impl_or_fetch x v = sync_or_and_fetch x v"

section \<open>Load, exchange, store, compare and exchange\<close>

definition impl_load :: "'a::len word \<Rightarrow> 'a word \<times> 'a word" where
  "impl_load x = sync_val_compare_and_swap x 0 0"

partial_function (option) impl_exchange_loop :: "'a::len word \<Rightarrow> 'a word \<Rightarrow> 'a word env \<Rightarrow> 'a word \<Rightarrow> ('a word \<times> 'a word) prog" where
  "impl_exchange_loop v r env x =
     (let e = r;
          (x, env) = env_turn env x;
          (r, x) = sync_val_compare_and_swap x e v
      in if r \<noteq> e then impl_exchange_loop v r env x else ret (r, x))"

declare impl_exchange_loop.simps [code]

definition impl_exchange :: "'a::len word env \<Rightarrow> 'a word \<Rightarrow> 'a word \<Rightarrow> ('a word \<times> 'a word) prog" where
  "impl_exchange env x v = impl_exchange_loop v v env x"

definition impl_store :: "'a::len word env \<Rightarrow> 'a word \<Rightarrow> 'a word \<Rightarrow> 'a word prog" where
  "impl_store env x v = pbind (impl_exchange env x v) (\<lambda>(_, x). ret x)"

text \<open>The result, the content of the object and the content of the expected value.\<close>

definition impl_compare_exchange :: "'a::len word \<Rightarrow> 'a word \<Rightarrow> 'a word \<Rightarrow> bool \<times> 'a word \<times> 'a word" where
  "impl_compare_exchange x E D =
     (let v = E;
          (n, x) = sync_val_compare_and_swap x v D
      in if v \<noteq> n then (False, x, n) else (True, x, E))"

definition impl_CAS_local :: "'a::len word \<Rightarrow> 'a word \<Rightarrow> 'a word \<Rightarrow> bool \<times> 'a word \<times> 'a word" where
  "impl_CAS_local x e D =
     (let (v, x) = sync_val_compare_and_swap x e D;
          r = (v = e)
      in (r, x, if \<not> r then v else e))"

definition lock_free_size :: "nat \<Rightarrow> bool" where
  "lock_free_size n \<longleftrightarrow> n \<in> {16, 8, 4, 2, 1}"

definition atomic_compare_exchange_strong_explicit ::
    "('a word \<Rightarrow> 'a word \<Rightarrow> 'a word \<Rightarrow> bool \<times> 'a word \<times> 'a word) \<Rightarrow> 'a::len word \<Rightarrow> 'a word \<Rightarrow> 'a word \<Rightarrow> bool \<times> 'a word \<times> 'a word" where
  "atomic_compare_exchange_strong_explicit other x e d =
     (if LENGTH('a) mod 8 = 0 \<and> lock_free_size (LENGTH('a) div 8) then impl_CAS_local x e d else other x e d)"

definition impl_load_union :: "'a::len word \<Rightarrow> 'a word \<times> 'a word" where
  "impl_load_union x = sync_val_compare_and_swap x 0 0"

partial_function (option) impl_union_loop :: "'a::len word \<Rightarrow> 'a word \<Rightarrow> 'a word env \<Rightarrow> 'a word \<Rightarrow> ('a word \<times> 'a word) prog" where
  "impl_union_loop v r env x =
     (let e = r;
          (x, env) = env_turn env x;
          (r, x) = sync_val_compare_and_swap x e v
      in if r \<noteq> e then impl_union_loop v r env x else ret (r, x))"

declare impl_union_loop.simps [code]

definition impl_exchange_union :: "'a::len word env \<Rightarrow> 'a word \<Rightarrow> 'a word \<Rightarrow> ('a word \<times> 'a word) prog" where
  "impl_exchange_union env x v = impl_union_loop v v env x"

definition impl_store_union :: "'a::len word env \<Rightarrow> 'a word \<Rightarrow> 'a word \<Rightarrow> 'a word prog" where
  "impl_store_union env x v = pbind (impl_union_loop v v env x) (\<lambda>(_, x). ret x)"

text \<open>The value that was found is written to the local copy of the expected value only.\<close>

definition impl_compare_exchange_union :: "'a::len word \<Rightarrow> 'a word \<Rightarrow> 'a word \<Rightarrow> bool \<times> 'a word \<times> 'a word" where
  "impl_compare_exchange_union x e v =
     (let (R, x) = sync_val_compare_and_swap x e v
      in (e = R, x, e))"

definition chosen_size :: "bool \<Rightarrow> nat \<Rightarrow> bool" where
  "chosen_size uint128 n \<longleftrightarrow> uint128 \<and> n = 16 \<or> n = 8 \<or> n = 4 \<or> n = 2 \<or> n = 1"

definition atomic_load_explicit :: "bool \<Rightarrow> ('a word \<Rightarrow> 'a word \<times> 'a word) \<Rightarrow> 'a::len word \<Rightarrow> 'a word \<times> 'a word" where
  "atomic_load_explicit uint128 other x =
     (if LENGTH('a) mod 8 = 0 \<and> chosen_size uint128 (LENGTH('a) div 8) then impl_load_union x else other x)"

definition atomic_store_explicit ::
    "bool \<Rightarrow> ('a word env \<Rightarrow> 'a word \<Rightarrow> 'a word \<Rightarrow> 'a word prog) \<Rightarrow> 'a::len word env \<Rightarrow> 'a word \<Rightarrow> 'a word \<Rightarrow> 'a word prog" where
  "atomic_store_explicit uint128 other env x v =
     (if LENGTH('a) mod 8 = 0 \<and> chosen_size uint128 (LENGTH('a) div 8) then impl_store_union env x v else other env x v)"

definition atomic_exchange_explicit ::
    "bool \<Rightarrow> ('a word env \<Rightarrow> 'a word \<Rightarrow> 'a word \<Rightarrow> ('a word \<times> 'a word) prog) \<Rightarrow> 'a::len word env \<Rightarrow> 'a word \<Rightarrow> 'a word \<Rightarrow> ('a word \<times> 'a word) prog" where
  "atomic_exchange_explicit uint128 other env x v =
     (if LENGTH('a) mod 8 = 0 \<and> chosen_size uint128 (LENGTH('a) div 8) then impl_exchange_union env x v else other env x v)"

section \<open>What the operations do\<close>

lemma fetch_and_or_swapped:
  "atomic_fetch_and_explicit x y = (x, x OR y)" "atomic_fetch_or_explicit x y = (x, x AND y)"
  "impl_fetch_and x y = (x, x AND y)" "impl_fetch_or x y = (x, x OR y)"
  by (simp_all add: atomic_fetch_and_explicit_def atomic_fetch_or_explicit_def impl_fetch_and_def impl_fetch_or_def sync_defs)

lemma op_fetch_of_fetch_op:
  "impl_add_fetch x v = (fst (impl_fetch_add x v) + v, snd (impl_fetch_add x v))"
  "impl_sub_fetch x v = (fst (impl_fetch_sub x v) - v, snd (impl_fetch_sub x v))"
  "impl_and_fetch x v = (fst (impl_fetch_and x v) AND v, snd (impl_fetch_and x v))"
  "impl_xor_fetch x v = (fst (impl_fetch_xor x v) XOR v, snd (impl_fetch_xor x v))"
  "impl_or_fetch x v = (fst (impl_fetch_or x v) OR v, snd (impl_fetch_or x v))"
  by (simp_all add: impl_add_fetch_def impl_sub_fetch_def impl_and_fetch_def impl_xor_fetch_def impl_or_fetch_def
    impl_fetch_add_def impl_fetch_sub_def impl_fetch_and_def impl_fetch_xor_def impl_fetch_or_def sync_defs)

lemma load_returns_content [simp]: "impl_load x = (x, x)" "impl_load_union x = (x, x)"
  by (auto simp: impl_load_def impl_load_union_def sync_defs)

lemma CAS_local_eq: "impl_CAS_local x e d = impl_compare_exchange x e d"
  by (auto simp: impl_CAS_local_def impl_compare_exchange_def sync_defs)

lemma compare_exchange_union_stale:
  assumes "x \<noteq> e"
  shows "impl_compare_exchange x e d = (False, x, x)" "impl_compare_exchange_union x e d = (False, x, e)"
  using assms by (auto simp: impl_compare_exchange_def impl_compare_exchange_union_def sync_defs)

text \<open>The content of an object after some turns of the other threads.\<close>

primrec env_run :: "'a env \<Rightarrow> 'a \<Rightarrow> 'a" where
  "env_run [] x = x"
| "env_run (f # env) x = env_run env (f x)"

text \<open>A loop returns after at most one attempt more than the other threads interfere, and takes effect in one of its attempts.\<close>

lemma union_loop_ok: "\<exists>k \<le> length env. impl_union_loop v r env x = ret (env_run (take k env) x, v)"
proof (induction env arbitrary: r x)
  case Nil
  have "impl_union_loop v x [] x = ret (x, v)" for x
    by (subst impl_union_loop.simps) (simp add: sync_defs)
  then show ?case by (subst impl_union_loop.simps) (auto simp: sync_defs)
next
  case (Cons f env)
  obtain k where k: "k \<le> length env" "impl_union_loop v (f x) env (f x) = ret (env_run (take k env) (f x), v)" using Cons.IH by blast
  have "impl_union_loop v r (f # env) x = (if f x = r then ret (f x, v) else impl_union_loop v (f x) env (f x))"
    by (subst impl_union_loop.simps) (auto simp: sync_defs)
  then show ?case using k by (cases "f x = r") (auto intro: exI [of _ 1] exI [of _ "Suc k"])
qed

lemma exchange_loop_eq: "impl_exchange_loop v r env x = impl_union_loop v r env x"
proof (induction env arbitrary: r x)
  case Nil
  have "impl_union_loop v x [] x = ret (x, v)" "impl_exchange_loop v x [] x = ret (x, v)" for x
    by (subst impl_union_loop.simps impl_exchange_loop.simps, simp add: sync_defs)+
  then show ?case by (subst impl_union_loop.simps, subst impl_exchange_loop.simps) (auto simp: sync_defs)
next
  case (Cons f env)
  then show ?case by (subst impl_union_loop.simps, subst impl_exchange_loop.simps) (auto simp: sync_defs)
qed

section \<open>Properties\<close>

text \<open>C28: an exchange that is built from compare-and-swaps returns and is atomic. Whatever the other threads do to
  the object between its attempts, as often as the list says, \<^verbatim>\<open>atomic_exchange_explicit\<close> on an object
  of 1, 2, 4 or 8 bytes, and on one of 16 bytes if \<^verbatim>\<open>__UINT128__\<close> is set, returns; there is an instant, after
  some of the turns of the other threads, at which it reads the content of the object, which it returns, and
  replaces it by the new value; \<^verbatim>\<open>atomic_store_explicit\<close> replaces the content too, and both find it as
  \<^verbatim>\<open>atomic_load_explicit\<close> would. On an object of any other size, 16 bytes without \<^verbatim>\<open>__UINT128__\<close>
  included, they do what the functions outside the file do. The function \<^verbatim>\<open>__impl_exchange\<close> is atomic on
  integers of every width.\<close>

theorem sync_exchange_atomic:
  fixes x v :: "'a::len word"
  shows "\<exists>k \<le> length env. impl_exchange env x v = ret (env_run (take k env) x, v) \<and>
    (if LENGTH('a) \<in> {8, 16, 32, 64} \<or> uint128 \<and> LENGTH('a) = 128
     then atomic_exchange_explicit uint128 other env x v = ret (env_run (take k env) x, v) \<and>
       atomic_store_explicit uint128 other' env x v = ret v \<and>
       atomic_load_explicit uint128 other'' (env_run (take k env) x) = (env_run (take k env) x, env_run (take k env) x)
     else atomic_exchange_explicit uint128 other env x v = other env x v \<and>
       atomic_store_explicit uint128 other' env x v = other' env x v \<and> atomic_load_explicit uint128 other'' x = other'' x)"
proof -
  obtain k where k: "k \<le> length env" "impl_union_loop v v env x = ret (env_run (take k env) x, v)" using union_loop_ok by blast
  have "LENGTH('a) mod 8 = 0 \<and> chosen_size uint128 (LENGTH('a) div 8) \<longleftrightarrow> LENGTH('a) \<in> {8, 16, 32, 64} \<or> uint128 \<and> LENGTH('a) = 128"
    unfolding chosen_size_def by auto
  then show ?thesis using k
    by (intro exI [of _ k]) (simp add: atomic_exchange_explicit_def atomic_store_explicit_def atomic_load_explicit_def
      impl_exchange_union_def impl_store_union_def impl_exchange_def exchange_loop_eq)
qed

theorem sync_exchange_atomic_witness:
  "atomic_exchange_explicit False (\<lambda>_ _ _. fail Assert_Failed) [\<lambda>c. c + 1, \<lambda>c. c + 1] (7 :: 64 word) 3 = ret (9, 3) \<and>
   (\<exists>k \<le> 2. ret (9 :: 64 word, 3 :: 64 word) = ret (env_run (take k [\<lambda>c. c + 1, \<lambda>c. c + 1]) 7, 3)) \<and>
   atomic_exchange_explicit False (\<lambda>_ _ _. fail Assert_Failed) [\<lambda>c. c + 1] (7 :: 128 word) 3 = fail Assert_Failed"
proof -
  have "atomic_exchange_explicit False (\<lambda>_ _ _. fail Assert_Failed) [\<lambda>c. c + 1, \<lambda>c. c + 1] (7 :: 64 word) 3 = ret (9, 3)"
    by (simp add: atomic_exchange_explicit_def chosen_size_def impl_exchange_union_def impl_union_loop.simps sync_defs)
  then show ?thesis
    using sync_exchange_atomic [where ?'a = 64, of "[\<lambda>c. c + 1, \<lambda>c. c + 1]" 7 3 False "\<lambda>_ _ _. fail Assert_Failed"]
      sync_exchange_atomic [where ?'a = 128, of "[\<lambda>c. c + 1]" 7 3 False "\<lambda>_ _ _. fail Assert_Failed"] by auto
qed

end
