(* ===== verification/Murmur.thy ===== *)
theory Murmur
  imports Common
begin

text \<open>
  Model of \<^verbatim>\<open>src/src/datatype/murmur.h\<close>: MurmurHash2 over a byte array and its two
  specialisations for 4-byte and 8-byte integer keys, on 32-bit words that wrap around. The byte
  array version reads its input four bytes at a time as a little-endian word, as x86 does.
  The lemmas relate the specialisations to the general routine and show that every mixing step
  is a permutation of the 32-bit words.
\<close>

section \<open>The hash functions\<close>

definition murmur_m :: uint32_t where "murmur_m = 0x5bd1e995"
definition murmur_r :: nat where "murmur_r = 24"

definition murmur_mix :: "uint32_t \<Rightarrow> uint32_t" where
  "murmur_mix k =
     (let k = k * murmur_m;
          k = k XOR drop_bit murmur_r k;
          k = k * murmur_m
      in k)"

definition murmur_final :: "uint32_t \<Rightarrow> uint32_t" where
  "murmur_final h =
     (let h = h XOR drop_bit 13 h;
          h = h * murmur_m;
          h = h XOR drop_bit 15 h
      in h)"

text \<open>\<^verbatim>\<open>*(uint32_t *)data\<close> on a little-endian machine.\<close>

definition le_word32 :: "uint8_t \<Rightarrow> uint8_t \<Rightarrow> uint8_t \<Rightarrow> uint8_t \<Rightarrow> uint32_t" where
  "le_word32 b0 b1 b2 b3 =
     ucast b0 OR push_bit 8 (ucast b1) OR push_bit 16 (ucast b2) OR push_bit 24 (ucast b3)"

text \<open>The \<^verbatim>\<open>while(len >= 4)\<close> loop: the hash so far and the bytes left.\<close>

fun murmur_loop :: "uint32_t \<Rightarrow> uint8_t list \<Rightarrow> uint32_t \<times> uint8_t list" where
  "murmur_loop h (b0 # b1 # b2 # b3 # bs) =
     murmur_loop (h * murmur_m XOR murmur_mix (le_word32 b0 b1 b2 b3)) bs"
| "murmur_loop h bs = (h, bs)"

text \<open>The \<^verbatim>\<open>switch(len)\<close> with its fall-through cases.\<close>

definition murmur_tail :: "uint32_t \<Rightarrow> uint8_t list \<Rightarrow> uint32_t" where
  "murmur_tail h bs =
     (let len = length bs;
          h = (if len = 3 then h XOR push_bit 16 (ucast (bs ! 2)) else h);
          h = (if len = 3 \<or> len = 2 then h XOR push_bit 8 (ucast (bs ! 1)) else h)
      in if len = 3 \<or> len = 2 \<or> len = 1 then (h XOR ucast (bs ! 0)) * murmur_m else h)"

definition murmur32 :: "uint8_t list \<Rightarrow> uint32_t" where
  "murmur32 key =
     (let h = of_nat (length key);
          (h, rest) = murmur_loop h key
      in murmur_final (murmur_tail h rest))"

definition murmur32_8b :: "uint64_t \<Rightarrow> uint32_t" where
  "murmur32_8b key =
     (let h = 8;
          k1 = ucast (drop_bit 32 key);
          k2 = ucast key;
          k1 = murmur_mix k1;
          k2 = murmur_mix k2;
          h = h * murmur_m;
          h = h XOR k1;
          h = h * murmur_m;
          h = h XOR k2
      in murmur_final h)"

definition murmur32_4b :: "uint32_t \<Rightarrow> uint32_t" where
  "murmur32_4b key =
     (let h = 4;
          k = murmur_mix key;
          h = h * murmur_m;
          h = h XOR k
      in murmur_final h)"

section \<open>The mixing steps are permutations\<close>

lemma murmur_m_inverse: "murmur_m * 0xe59b19bd = 1"
  by (simp add: murmur_m_def)

lemma murmur_m_cancel [simp]: "x * murmur_m = y * murmur_m \<longleftrightarrow> x = y"
  using mult_odd_cancel [OF murmur_m_inverse] by auto

lemma murmur_mix_inject [simp]: "murmur_mix x = murmur_mix y \<longleftrightarrow> x = y"
  by (auto simp: murmur_mix_def Let_def murmur_r_def dest!: xor_drop_bit_eq_iff [rotated])

lemma murmur_final_inject [simp]: "murmur_final x = murmur_final y \<longleftrightarrow> x = y"
  by (auto simp: murmur_final_def Let_def dest!: xor_drop_bit_eq_iff [rotated])

lemma word_xor_cancel [simp]:
  "(h XOR a = h XOR b) \<longleftrightarrow> a = (b :: 'a::len word)"
  by (metis xor.assoc xor.left_neutral xor_self_eq)

lemma word_xor_cancel_right [simp]:
  "(a XOR h = b XOR h) \<longleftrightarrow> a = (b :: 'a::len word)"
  by (metis xor.commute word_xor_cancel)

section \<open>Little-endian bytes\<close>

definition le_bytes32 :: "uint32_t \<Rightarrow> uint8_t list" where
  "le_bytes32 w = [ucast w, ucast (drop_bit 8 w), ucast (drop_bit 16 w), ucast (drop_bit 24 w)]"

lemma le_word32_le_bytes32:
  "le_word32 (ucast w) (ucast (drop_bit 8 w)) (ucast (drop_bit 16 w)) (ucast (drop_bit 24 w)) = w"
proof (rule bit_word_eqI)
  fix n assume n: "n < LENGTH(32)"
  then consider "n < 8" | "8 \<le> n" "n < 16" | "16 \<le> n" "n < 24" | "24 \<le> n" "n < 32"
    by fastforce
  then show "bit (le_word32 (ucast w) (ucast (drop_bit 8 w)) (ucast (drop_bit 16 w)) (ucast (drop_bit 24 w))) n
    = bit w n"
    by cases (auto simp: le_word32_def bit_simps)
qed

lemma word64_eq_halves:
  fixes k k' :: uint64_t
  assumes "(ucast k :: uint32_t) = ucast k'"
    and "(ucast (drop_bit 32 k) :: uint32_t) = ucast (drop_bit 32 k')"
  shows "k = k'"
proof (rule bit_word_eqI)
  fix n assume n: "n < LENGTH(64)"
  show "bit k n = bit k' n"
  proof (cases "n < 32")
    case True
    have "bit (ucast k :: uint32_t) n = bit (ucast k' :: uint32_t) n" using assms(1) by simp
    with True show ?thesis by (simp add: bit_simps)
  next
    case False
    have "bit (ucast (drop_bit 32 k) :: uint32_t) (n - 32) = bit (ucast (drop_bit 32 k') :: uint32_t) (n - 32)"
      using assms(2) by simp
    moreover have "n - 32 < 32" using n by simp
    ultimately show ?thesis using False by (simp add: bit_simps)
  qed
qed

section \<open>Properties\<close>

text \<open>C35: the 4-byte and 8-byte specialisations of the hash agree with the general routine, the
  first on the key's four bytes and the second on its high half followed by its low half, and the
  4-byte hash is a permutation of the 32-bit words.\<close>

theorem murmur32_specialised:
  "murmur32_4b k = murmur32 (le_bytes32 k)
   \<and> murmur32_8b key = murmur32 (le_bytes32 (ucast (drop_bit 32 key)) @ le_bytes32 (ucast key))
   \<and> bij murmur32_4b"
proof (intro conjI)
  show "murmur32_4b k = murmur32 (le_bytes32 k)"
    by (simp add: murmur32_4b_def murmur32_def le_bytes32_def le_word32_le_bytes32 murmur_tail_def Let_def)
  show "murmur32_8b key = murmur32 (le_bytes32 (ucast (drop_bit 32 key)) @ le_bytes32 (ucast key))"
    by (simp add: murmur32_8b_def murmur32_def le_bytes32_def le_word32_le_bytes32 murmur_tail_def Let_def)
  have "inj murmur32_4b"
    by (auto simp: inj_def murmur32_4b_def Let_def)
  then show "bij murmur32_4b"
    by (simp add: bij_def finite_UNIV_inj_surj)
qed

end
