(* ===== verification/Map_Interface.thy ===== *)
theory Map_Interface
  imports Common Murmur
begin

text \<open>
  Model of \<^verbatim>\<open>src/src/map/map.h\<close>, \<^verbatim>\<open>src/src/map/map.c\<close> and
  \<^verbatim>\<open>src/src/datatype/datatype.h\<close>: the key types, the table of functions a map implementation
  provides, and the generic functions that call it. The state of an implementation is a type
  \<open>'s\<close> that its functions take and return.

  The contract of an implementation is the locale \<open>map_contract\<close>, over the finite map the state
  represents. It gives the meaning of the expectations \<^verbatim>\<open>CAS_EXPECT_WHATEVER\<close>,
  \<^verbatim>\<open>CAS_EXPECT_EXISTS\<close> and \<^verbatim>\<open>CAS_EXPECT_DOES_NOT_EXIST\<close>, and so of
  \<^verbatim>\<open>map_set\<close>, \<^verbatim>\<open>map_replace\<close> and \<^verbatim>\<open>map_add\<close>; the locale
  \<open>comparing_map\<close> adds what \<^verbatim>\<open>map_cas\<close> promises for a specific expected value.
\<close>

section \<open>Keys\<close>

type_synonym map_key_t = uint64_t
type_synonym map_val_t = uint64_t

record datatype_t =
  dt_cmp :: "map_key_t \<Rightarrow> map_key_t \<Rightarrow> int"
  dt_hash :: "map_key_t \<Rightarrow> uint32_t"
  dt_clone :: "map_key_t \<Rightarrow> map_key_t"

text \<open>The comparison all ordered maps use: integer keys are subtracted as 64-bit words and the
  difference is stored in an \<^verbatim>\<open>int\<close>.\<close>

definition key_diff :: "datatype_t option \<Rightarrow> map_key_t \<Rightarrow> map_key_t \<Rightarrow> int" where
  "key_diff kt item_key key =
     (case kt of None \<Rightarrow> as_int (ucast (item_key - key)) | Some dt \<Rightarrow> dt_cmp dt item_key key)"

definition key_clone :: "datatype_t option \<Rightarrow> map_key_t \<Rightarrow> map_key_t" where
  "key_clone kt key = (case kt of None \<Rightarrow> key | Some dt \<Rightarrow> dt_clone dt key)"

text \<open>A set of keys on which the comparison is the comparison of a rank.\<close>

definition key_order :: "datatype_t option \<Rightarrow> map_key_t set \<Rightarrow> (map_key_t \<Rightarrow> int) \<Rightarrow> bool" where
  "key_order kt K rank \<longleftrightarrow>
     (\<forall>a \<in> K. \<forall>b \<in> K. sgn (key_diff kt a b) = sgn (rank a - rank b)) \<and>
     (\<forall>a \<in> K. key_clone kt a \<in> K \<and> rank (key_clone kt a) = rank a)"

lemma key_orderD:
  assumes "key_order kt K rank" and "a \<in> K" and "b \<in> K"
  shows "key_diff kt a b = 0 \<longleftrightarrow> rank a = rank b" and "key_diff kt a b < 0 \<longleftrightarrow> rank a < rank b"
    and "0 \<le> key_diff kt a b \<longleftrightarrow> rank b \<le> rank a" and "0 < key_diff kt a b \<longleftrightarrow> rank b < rank a"
    and "key_clone kt a \<in> K" and "rank (key_clone kt a) = rank a"
proof -
  have s: "sgn (key_diff kt a b) = sgn (rank a - rank b)"
    and c: "key_clone kt a \<in> K \<and> rank (key_clone kt a) = rank a"
    using assms by (simp_all add: key_order_def)
  show "key_diff kt a b = 0 \<longleftrightarrow> rank a = rank b" "key_diff kt a b < 0 \<longleftrightarrow> rank a < rank b"
    "0 \<le> key_diff kt a b \<longleftrightarrow> rank b \<le> rank a" "0 < key_diff kt a b \<longleftrightarrow> rank b < rank a"
    using s by (auto simp: sgn_if split: if_splits)
  show "key_clone kt a \<in> K" "rank (key_clone kt a) = rank a" using c by auto
qed

text \<open>Integer keys that fit in 31 bits are ordered by their value.\<close>

definition small_keys :: "map_key_t set" where
  "small_keys = {k. unat k < 2 ^ 31}"

lemma key_diff_small:
  assumes "a \<in> small_keys" and "b \<in> small_keys"
  shows "key_diff None a b = uint a - uint b"
proof -
  have a: "0 \<le> uint a" "uint a < 2 ^ 31" and b: "0 \<le> uint b" "uint b < 2 ^ 31"
    using assms of_nat_less_iff [of "unat a" "2 ^ 31", where ?'a = int] of_nat_less_iff [of "unat b" "2 ^ 31", where ?'a = int]
    by (simp_all add: small_keys_def)
  have "sint (ucast (a - b) :: 32 word) = signed_take_bit 31 (uint a - uint b)"
    by (rule sint_low_half_diff)
  also have "\<dots> = uint a - uint b"
    by (intro signed_take_bit_int_eq_self) (use a b in linarith)+
  finally show ?thesis by (simp only: key_diff_def as_int_def option.case)
qed

lemma small_keys_order: "key_order None small_keys uint"
  by (simp add: key_order_def key_diff_small key_clone_def)

text \<open>Keys that differ by a multiple of \<open>2 ^ 32\<close> compare equal, because the difference is
  truncated.\<close>

lemma key_diff_alias: "key_diff None (k + 0x100000000) k = 0"
  by (simp add: key_diff_def as_int_def signed_eq_0_iff)

section \<open>The implementation table and the generic functions\<close>

definition CAS_EXPECT_DOES_NOT_EXIST :: map_val_t where "CAS_EXPECT_DOES_NOT_EXIST = 0"
definition CAS_EXPECT_EXISTS :: map_val_t where "CAS_EXPECT_EXISTS = - 1"
definition CAS_EXPECT_WHATEVER :: map_val_t where "CAS_EXPECT_WHATEVER = - 2"

lemmas cas_expect_defs = CAS_EXPECT_DOES_NOT_EXIST_def CAS_EXPECT_EXISTS_def CAS_EXPECT_WHATEVER_def

record 's map_impl =
  impl_cas :: "'s \<Rightarrow> map_key_t \<Rightarrow> map_val_t \<Rightarrow> map_val_t \<Rightarrow> (map_val_t \<times> 's) prog"
  impl_get :: "'s \<Rightarrow> map_key_t \<Rightarrow> (map_val_t \<times> 's) prog"
  impl_remove :: "'s \<Rightarrow> map_key_t \<Rightarrow> (map_val_t \<times> 's) prog"
  impl_count :: "'s \<Rightarrow> size_t prog"

definition map_get :: "'s map_impl \<Rightarrow> 's \<Rightarrow> map_key_t \<Rightarrow> (map_val_t \<times> 's) prog" where
  "map_get impl data key = impl_get impl data key"

definition map_set :: "'s map_impl \<Rightarrow> 's \<Rightarrow> map_key_t \<Rightarrow> map_val_t \<Rightarrow> (map_val_t \<times> 's) prog" where
  "map_set impl data key new_val = impl_cas impl data key CAS_EXPECT_WHATEVER new_val"

definition map_add :: "'s map_impl \<Rightarrow> 's \<Rightarrow> map_key_t \<Rightarrow> map_val_t \<Rightarrow> (map_val_t \<times> 's) prog" where
  "map_add impl data key new_val = impl_cas impl data key CAS_EXPECT_DOES_NOT_EXIST new_val"

definition map_cas :: "'s map_impl \<Rightarrow> 's \<Rightarrow> map_key_t \<Rightarrow> map_val_t \<Rightarrow> map_val_t \<Rightarrow> (map_val_t \<times> 's) prog" where
  "map_cas impl data key expected_val new_val = impl_cas impl data key expected_val new_val"

definition map_replace :: "'s map_impl \<Rightarrow> 's \<Rightarrow> map_key_t \<Rightarrow> map_val_t \<Rightarrow> (map_val_t \<times> 's) prog" where
  "map_replace impl data key new_val = impl_cas impl data key CAS_EXPECT_EXISTS new_val"

definition map_remove :: "'s map_impl \<Rightarrow> 's \<Rightarrow> map_key_t \<Rightarrow> (map_val_t \<times> 's) prog" where
  "map_remove impl data key = impl_remove impl data key"

definition map_count :: "'s map_impl \<Rightarrow> 's \<Rightarrow> size_t prog" where
  "map_count impl data = impl_count impl data"

section \<open>The contract\<close>

text \<open>What a lookup returns for a binding of the abstract map.\<close>

definition found_val :: "map_val_t option \<Rightarrow> map_val_t" where
  "found_val r = (case r of None \<Rightarrow> DOES_NOT_EXIST | Some v \<Rightarrow> v)"

lemma found_val_simps [simp]: "found_val None = 0" "found_val (Some v) = v"
  by (simp_all add: found_val_def DOES_NOT_EXIST_def)

text \<open>An expectation under which \<^verbatim>\<open>cas\<close> changes the map, given the present binding.\<close>

definition cas_applies :: "map_val_t \<Rightarrow> map_val_t option \<Rightarrow> bool" where
  "cas_applies e r = (case r of
      None \<Rightarrow> e = CAS_EXPECT_DOES_NOT_EXIST \<or> e = CAS_EXPECT_WHATEVER
    | Some v \<Rightarrow> e = CAS_EXPECT_EXISTS \<or> e = CAS_EXPECT_WHATEVER \<or> e = v \<and> e \<noteq> CAS_EXPECT_DOES_NOT_EXIST)"

text \<open>An expectation on which the contract of every implementation has a say: all but a specific
  value that the present binding does not have.\<close>

definition cas_specified :: "map_val_t \<Rightarrow> map_val_t option \<Rightarrow> bool" where
  "cas_specified e r \<longleftrightarrow> cas_applies e r \<or> r = None \<or> e = CAS_EXPECT_DOES_NOT_EXIST"

text \<open>The binding of every key that the implementation does not tell apart from \<open>k\<close> changes.\<close>

definition bind_key :: "(map_key_t \<Rightarrow> map_key_t \<Rightarrow> bool) \<Rightarrow> map_key_t \<Rightarrow> map_val_t option \<Rightarrow>
    (map_key_t \<Rightarrow> map_val_t option) \<Rightarrow> map_key_t \<Rightarrow> map_val_t option" where
  "bind_key same k r m = (\<lambda>k'. if same k k' then r else m k')"

lemma bind_key_hit [simp]: "same k k' \<Longrightarrow> bind_key same k r m k' = r"
  by (simp add: bind_key_def)

lemma bind_key_miss [simp]: "\<not> same k k' \<Longrightarrow> bind_key same k r m k' = m k'"
  by (simp add: bind_key_def)

text \<open>Sequences of operations on a map, and the results a map gives.\<close>

datatype map_op =
    Op_Get map_key_t
  | Op_Set map_key_t map_val_t
  | Op_Add map_key_t map_val_t
  | Op_Replace map_key_t map_val_t
  | Op_Remove map_key_t

primrec map_step :: "'s map_impl \<Rightarrow> map_op \<Rightarrow> 's \<Rightarrow> (map_val_t \<times> 's) prog" where
  "map_step impl (Op_Get k) s = map_get impl s k"
| "map_step impl (Op_Set k v) s = map_set impl s k v"
| "map_step impl (Op_Add k v) s = map_add impl s k v"
| "map_step impl (Op_Replace k v) s = map_replace impl s k v"
| "map_step impl (Op_Remove k) s = map_remove impl s k"

primrec map_run :: "'s map_impl \<Rightarrow> map_op list \<Rightarrow> 's \<Rightarrow> (map_val_t list \<times> 's) prog" where
  "map_run impl [] s = ret ([], s)"
| "map_run impl (op # ops) s =
     pbind (map_step impl op s) (\<lambda>(v, s). pbind (map_run impl ops s) (\<lambda>(vs, s). ret (v # vs, s)))"

primrec op_key :: "map_op \<Rightarrow> map_key_t" where
  "op_key (Op_Get k) = k" | "op_key (Op_Set k v) = k" | "op_key (Op_Add k v) = k" | "op_key (Op_Replace k v) = k"
| "op_key (Op_Remove k) = k"

primrec op_vals :: "map_op \<Rightarrow> map_val_t list" where
  "op_vals (Op_Get k) = []" | "op_vals (Op_Set k v) = [v]" | "op_vals (Op_Add k v) = [v]" | "op_vals (Op_Replace k v) = [v]"
| "op_vals (Op_Remove k) = []"

primrec op_effect :: "(map_key_t \<Rightarrow> map_key_t \<Rightarrow> bool) \<Rightarrow> map_op \<Rightarrow> (map_key_t \<Rightarrow> map_val_t option) \<Rightarrow> map_key_t \<Rightarrow> map_val_t option" where
  "op_effect same (Op_Get k) m = m"
| "op_effect same (Op_Set k v) m = bind_key same k (Some v) m"
| "op_effect same (Op_Add k v) m = (if m k = None then bind_key same k (Some v) m else m)"
| "op_effect same (Op_Replace k v) m = (if m k = None then m else bind_key same k (Some v) m)"
| "op_effect same (Op_Remove k) m = bind_key same k None m"

primrec map_results :: "(map_key_t \<Rightarrow> map_key_t \<Rightarrow> bool) \<Rightarrow> map_op list \<Rightarrow> (map_key_t \<Rightarrow> map_val_t option) \<Rightarrow> map_val_t list" where
  "map_results same [] m = []"
| "map_results same (op # ops) m = found_val (m (op_key op)) # map_results same ops (op_effect same op m)"

definition ops_ok :: "map_key_t set \<Rightarrow> map_val_t set \<Rightarrow> map_op list \<Rightarrow> bool" where
  "ops_ok keys vals ops \<longleftrightarrow> (\<forall>op \<in> set ops. op_key op \<in> keys \<and> set (op_vals op) \<subseteq> vals)"

lemma map_results_cong:
  assumes "ops_ok keys vals ops" and "\<And>k. k \<in> keys \<Longrightarrow> m k = m' k"
  shows "map_results same ops m = map_results same ops m'"
  using assms
proof (induction ops arbitrary: m m')
  case (Cons op ops)
  have k: "op_key op \<in> keys" using Cons.prems(1) by (simp add: ops_ok_def)
  have "op_effect same op m k' = op_effect same op m' k'" if "k' \<in> keys" for k'
    using Cons.prems(2) k that by (cases op) (auto simp: bind_key_def)
  then show ?case using Cons.IH [of "op_effect same op m" "op_effect same op m'"] Cons.prems k by (simp add: ops_ok_def)
qed simp

locale map_contract =
  fixes impl :: "'s map_impl"
    and inv :: "'s \<Rightarrow> bool"
    and abs :: "'s \<Rightarrow> map_key_t \<Rightarrow> map_val_t option"
    and room :: "'s \<Rightarrow> nat" \<comment> \<open>updates for which there is memory\<close>
    and keys :: "map_key_t set"
    and vals :: "map_val_t set"
    and exps :: "map_val_t set" \<comment> \<open>expectations the implementation tells apart\<close>
    and same :: "map_key_t \<Rightarrow> map_key_t \<Rightarrow> bool"
  assumes get_law: "inv s \<Longrightarrow> k \<in> keys \<Longrightarrow>
      \<exists>s'. impl_get impl s k = ret (found_val (abs s k), s') \<and> inv s' \<and>
        (\<forall>k' \<in> keys. abs s' k' = abs s k') \<and> room s \<le> room s'"
    and cas_law: "inv s \<Longrightarrow> k \<in> keys \<Longrightarrow> v \<in> vals \<Longrightarrow> 0 < room s \<Longrightarrow> e \<in> exps \<Longrightarrow> cas_specified e (abs s k) \<Longrightarrow>
      \<exists>s'. impl_cas impl s k e v = ret (found_val (abs s k), s') \<and> inv s' \<and> room s \<le> room s' + 1 \<and>
        (\<forall>k' \<in> keys. abs s' k' = (if cas_applies e (abs s k) then bind_key same k (Some v) (abs s) k' else abs s k'))"
    and remove_law: "inv s \<Longrightarrow> k \<in> keys \<Longrightarrow> 0 < room s \<Longrightarrow>
      \<exists>s'. impl_remove impl s k = ret (found_val (abs s k), s') \<and> inv s' \<and> room s \<le> room s' + 1 \<and>
        (\<forall>k' \<in> keys. abs s' k' = bind_key same k None (abs s) k')"
    and same_refl: "k \<in> keys \<Longrightarrow> same k k"
    and vals_nonzero: "v \<in> vals \<Longrightarrow> v \<noteq> 0"
    and exps_law: "{CAS_EXPECT_DOES_NOT_EXIST, CAS_EXPECT_EXISTS, CAS_EXPECT_WHATEVER} \<subseteq> exps"
begin

text \<open>What the generic functions do, for any implementation that keeps the contract.\<close>

lemma set_then_get:
  assumes "inv s" and "k \<in> keys" and "v \<in> vals" and "0 < room s"
  shows "\<exists>s1 s2. map_set impl s k v = ret (found_val (abs s k), s1) \<and> map_get impl s1 k = ret (v, s2) \<and>
    inv s2 \<and> (\<forall>k' \<in> keys. abs s2 k' = bind_key same k (Some v) (abs s) k')"
proof -
  have a: "cas_applies CAS_EXPECT_WHATEVER (abs s k)"
    by (simp add: cas_applies_def split: option.split)
  then obtain s1 where s1: "impl_cas impl s k CAS_EXPECT_WHATEVER v = ret (found_val (abs s k), s1)" "inv s1"
    "\<forall>k' \<in> keys. abs s1 k' = bind_key same k (Some v) (abs s) k'"
    using cas_law [OF assms, of CAS_EXPECT_WHATEVER] exps_law by (auto simp: cas_specified_def)
  moreover obtain s2 where "impl_get impl s1 k = ret (found_val (abs s1 k), s2)" "inv s2"
    "\<forall>k' \<in> keys. abs s2 k' = abs s1 k'"
    using get_law [OF s1(2) assms(2)] by blast
  ultimately show ?thesis
    using assms(2) same_refl by (auto simp: map_set_def map_get_def)
qed

lemma add_law:
  assumes "inv s" and "k \<in> keys" and "v \<in> vals" and "0 < room s"
  shows "\<exists>s'. map_add impl s k v = ret (found_val (abs s k), s') \<and> inv s' \<and>
    (\<forall>k' \<in> keys. abs s' k' = (if abs s k = None then bind_key same k (Some v) (abs s) k' else abs s k'))"
proof -
  have "cas_applies CAS_EXPECT_DOES_NOT_EXIST (abs s k) \<longleftrightarrow> abs s k = None"
    by (simp add: cas_applies_def cas_expect_defs split: option.split)
  then show ?thesis
    using cas_law [OF assms, of CAS_EXPECT_DOES_NOT_EXIST] exps_law by (auto simp: map_add_def cas_specified_def)
qed

lemma replace_law:
  assumes "inv s" and "k \<in> keys" and "v \<in> vals" and "0 < room s"
  shows "\<exists>s'. map_replace impl s k v = ret (found_val (abs s k), s') \<and> inv s' \<and>
    (\<forall>k' \<in> keys. abs s' k' = (if abs s k = None then abs s k' else bind_key same k (Some v) (abs s) k'))"
proof -
  have "cas_applies CAS_EXPECT_EXISTS (abs s k) \<longleftrightarrow> abs s k \<noteq> None"
    by (simp add: cas_applies_def cas_expect_defs split: option.split)
  then show ?thesis
    using cas_law [OF assms, of CAS_EXPECT_EXISTS] exps_law by (auto simp: map_replace_def cas_specified_def)
qed

lemma remove_then_get:
  assumes "inv s" and "k \<in> keys" and "0 < room s"
  shows "\<exists>s1 s2. map_remove impl s k = ret (found_val (abs s k), s1) \<and> map_get impl s1 k = ret (0, s2) \<and>
    inv s2 \<and> (\<forall>k' \<in> keys. abs s2 k' = bind_key same k None (abs s) k')"
proof -
  obtain s1 where s1: "impl_remove impl s k = ret (found_val (abs s k), s1)" "inv s1"
    "\<forall>k' \<in> keys. abs s1 k' = bind_key same k None (abs s) k'"
    using remove_law [OF assms] by blast
  moreover obtain s2 where "impl_get impl s1 k = ret (found_val (abs s1 k), s2)" "inv s2"
    "\<forall>k' \<in> keys. abs s2 k' = abs s1 k'"
    using get_law [OF s1(2) assms(2)] by blast
  ultimately show ?thesis
    using assms(2) same_refl by (auto simp: map_remove_def map_get_def)
qed

lemma step_spec:
  assumes "inv s" and "op_key op \<in> keys" and "set (op_vals op) \<subseteq> vals" and "0 < room s"
  shows "\<exists>s'. map_step impl op s = ret (found_val (abs s (op_key op)), s') \<and> inv s' \<and> room s \<le> room s' + 1 \<and>
    (\<forall>k' \<in> keys. abs s' k' = op_effect same op (abs s) k')"
proof -
  have C: "\<exists>s'. impl_cas impl s (op_key op) e v = ret (found_val (abs s (op_key op)), s') \<and> inv s' \<and> room s \<le> room s' + 1 \<and>
      (\<forall>k' \<in> keys. abs s' k' = (if cas_applies e (abs s (op_key op)) then bind_key same (op_key op) (Some v) (abs s) k' else abs s k'))"
    if "v \<in> vals" "e \<in> {CAS_EXPECT_DOES_NOT_EXIST, CAS_EXPECT_EXISTS, CAS_EXPECT_WHATEVER}" for e v
  proof (rule cas_law [OF assms(1,2) that(1) assms(4)])
    show "e \<in> exps" using that(2) exps_law by blast
    show "cas_specified e (abs s (op_key op))"
      using that(2) by (auto simp: cas_specified_def cas_applies_def split: option.split)
  qed
  have E: "cas_applies CAS_EXPECT_WHATEVER r" "cas_applies CAS_EXPECT_DOES_NOT_EXIST r \<longleftrightarrow> r = None"
    "cas_applies CAS_EXPECT_EXISTS r \<longleftrightarrow> r \<noteq> None" for r
    by (auto simp: cas_applies_def cas_expect_defs split: option.split)
  show ?thesis
  proof (cases op)
    case (Op_Get k)
    then show ?thesis using get_law [OF assms(1,2)] by (auto simp: map_get_def)
  next
    case (Op_Set k v)
    then show ?thesis using C [of v CAS_EXPECT_WHATEVER] assms(3) E(1) by (simp add: map_set_def)
  next
    case (Op_Add k v)
    then show ?thesis using C [of v CAS_EXPECT_DOES_NOT_EXIST] assms(3) E(2) by (auto simp: map_add_def split: if_splits)
  next
    case (Op_Replace k v)
    then show ?thesis using C [of v CAS_EXPECT_EXISTS] assms(3) E(3) by (auto simp: map_replace_def split: if_splits)
  next
    case (Op_Remove k)
    then show ?thesis using remove_law [OF assms(1,2,4)] by (simp add: map_remove_def)
  qed
qed

text \<open>Any sequence of operations gives the results of the abstract map.\<close>

lemma run_spec:
  assumes "inv s" and "ops_ok keys vals ops" and "length ops \<le> room s"
  shows "\<exists>s'. map_run impl ops s = ret (map_results same ops (abs s), s') \<and> inv s'"
  using assms
proof (induction ops arbitrary: s)
  case (Cons op ops)
  have o: "op_key op \<in> keys" "set (op_vals op) \<subseteq> vals" "ops_ok keys vals ops" using Cons.prems(2) by (auto simp: ops_ok_def)
  obtain s1 where s1: "map_step impl op s = ret (found_val (abs s (op_key op)), s1)" "inv s1" "room s \<le> room s1 + 1"
    "\<forall>k' \<in> keys. abs s1 k' = op_effect same op (abs s) k'"
    using step_spec [OF Cons.prems(1) o(1,2)] Cons.prems(3) by auto
  then obtain s2 where "map_run impl ops s1 = ret (map_results same ops (abs s1), s2)" "inv s2"
    using Cons.IH [OF s1(2) o(3)] Cons.prems(3) by auto
  then show ?case using s1 map_results_cong [OF o(3), of "abs s1" "op_effect same op (abs s)" same] by auto
qed simp

end

text \<open>An implementation that also compares a specific expected value with the binding.\<close>

locale comparing_map = map_contract +
  assumes cas_compares: "inv s \<Longrightarrow> k \<in> keys \<Longrightarrow> v \<in> vals \<Longrightarrow> 0 < room s \<Longrightarrow> e \<in> exps \<Longrightarrow> \<not> cas_specified e (abs s k) \<Longrightarrow>
      \<exists>s'. impl_cas impl s k e v = ret (found_val (abs s k), s') \<and> inv s' \<and> room s \<le> room s' + 1 \<and>
        (\<forall>k' \<in> keys. abs s' k' = abs s k')"
begin

lemma cas_total:
  assumes "inv s" and "k \<in> keys" and "v \<in> vals" and "0 < room s" and "e \<in> exps"
  shows "\<exists>s'. map_cas impl s k e v = ret (found_val (abs s k), s') \<and> inv s' \<and> room s \<le> room s' + 1 \<and>
    (\<forall>k' \<in> keys. abs s' k' = (if cas_applies e (abs s k) then bind_key same k (Some v) (abs s) k' else abs s k'))"
proof (cases "cas_specified e (abs s k)")
  case True
  then show ?thesis using cas_law [OF assms] by (simp add: map_cas_def)
next
  case False
  moreover from False have "\<not> cas_applies e (abs s k)" by (simp add: cas_specified_def)
  ultimately show ?thesis using cas_compares [OF assms] by (simp add: map_cas_def)
qed

end

end
