(* ===== verification/Marks.thy ===== *)
theory Marks
  imports Map_Interface
begin

text \<open>
  Links that carry a mark in bit 0, as \<^verbatim>\<open>src/src/map/list.c\<close> and
  \<^verbatim>\<open>src/src/map/skiplist.c\<close> define them with the same macros, and what the two ordered maps
  share: the interface to a set of keys on which the comparison is an order, and the values that can
  be stored.
\<close>

type_synonym markable_t = uint64_t

definition MARK_NODE :: "uint64_t \<Rightarrow> markable_t" where "MARK_NODE x = TAG_VALUE x 1"
definition HAS_MARK :: "markable_t \<Rightarrow> bool" where "HAS_MARK x \<longleftrightarrow> IS_TAGGED x 1 = 1"
definition GET_NODE :: "markable_t \<Rightarrow> addr" where "GET_NODE x = x"
definition STRIP_MARK :: "markable_t \<Rightarrow> addr" where "STRIP_MARK x = STRIP_TAG x 1"

lemma unmarked_IS_TAGGED: "\<not> HAS_MARK x \<longleftrightarrow> IS_TAGGED x 1 = 0"
  by (auto simp: HAS_MARK_def IS_TAGGED_def and_one_eq)

lemma STRIP_MARK_unmarked [simp]: "\<not> HAS_MARK x \<Longrightarrow> STRIP_MARK x = x"
  by (simp add: STRIP_MARK_def unmarked_IS_TAGGED STRIP_TAG_untagged)

lemma HAS_MARK_STRIP_MARK [simp]: "\<not> HAS_MARK (STRIP_MARK x)"
  by (simp add: STRIP_MARK_def unmarked_IS_TAGGED)

lemma HAS_MARK_MARK_NODE [simp]: "HAS_MARK (MARK_NODE x)"
  by (simp add: HAS_MARK_def MARK_NODE_def)

lemma STRIP_MARK_MARK_NODE [simp]: "\<not> HAS_MARK x \<Longrightarrow> STRIP_MARK (MARK_NODE x) = x"
  by (simp add: STRIP_MARK_def MARK_NODE_def unmarked_IS_TAGGED STRIP_TAG_TAG_VALUE)

lemma HAS_MARK_zero [simp]: "\<not> HAS_MARK 0"
  by (simp add: HAS_MARK_def)

definition positive_vals :: "map_val_t set" where
  "positive_vals = {v. 0 < sint v}"

locale ordered_keys =
  fixes kt :: "datatype_t option" and K :: "map_key_t set" and rank :: "map_key_t \<Rightarrow> int"
  assumes ord: "key_order kt K rank"

end
