(* ===== verification/Linked_List.thy ===== *)
theory Linked_List
  imports Marks
begin

text \<open>
  Model of \<^verbatim>\<open>src/src/map/list.c\<close> in the build that uses RCU
  (\<^verbatim>\<open>LIST_USE_HAZARD_POINTER\<close> undefined): a sorted linked list in which bit 0 of a node's
  \<^verbatim>\<open>next\<close> field marks the node as logically removed. Nodes live in a heap indexed by
  addresses. A function runs without interference, on any list that other threads may have left
  behind, so the list can hold marked nodes that are not unlinked yet.

  The memory \<^verbatim>\<open>nbd_malloc\<close> hands out is the list \<open>ll_pool\<close> of the addresses it will
  return in turn; when it is empty \<^verbatim>\<open>nbd_malloc\<close> exits. \<open>ll_deferred\<close> records the addresses
  passed to \<^verbatim>\<open>rcu_defer_free\<close>, \<open>ll_freed\<close> those passed to \<^verbatim>\<open>nbd_free\<close>.
\<close>

section \<open>Data\<close>

record node =
  nd_key :: map_key_t
  nd_val :: map_val_t
  nd_next :: markable_t

record list_t =
  ll_head :: addr
  ll_key_type :: "datatype_t option"
  ll_heap :: "addr \<Rightarrow> node option"
  ll_pool :: "addr list"
  ll_deferred :: "addr list"
  ll_freed :: "addr list"

definition ll_load :: "list_t \<Rightarrow> addr \<Rightarrow> node prog" where
  "ll_load s a = (case ll_heap s a of None \<Rightarrow> fail Null_Deref | Some nd \<Rightarrow> ret nd)"

definition ll_store :: "addr \<Rightarrow> node \<Rightarrow> list_t \<Rightarrow> list_t" where
  "ll_store a nd s = s\<lparr>ll_heap := (ll_heap s)(a \<mapsto> nd)\<rparr>"

text \<open>\<^verbatim>\<open>nbd_malloc\<close> exits the process when it gets no memory. The caller sets the
  \<^verbatim>\<open>next\<close> field, whose old content is given here as 0.\<close>

definition node_alloc :: "map_key_t \<Rightarrow> map_val_t \<Rightarrow> list_t \<Rightarrow> (addr \<times> list_t) prog" where
  "node_alloc key val s =
     (case ll_pool s of
        [] \<Rightarrow> fail Exit_Failure
      | item # pool \<Rightarrow>
          pbind (passert (\<not> HAS_MARK item)) (\<lambda>_.
          ret (item, ll_store item \<lparr>nd_key = key, nd_val = val, nd_next = 0\<rparr> (s\<lparr>ll_pool := pool\<rparr>))))"

definition ll_defer :: "addr \<Rightarrow> list_t \<Rightarrow> list_t" where
  "ll_defer a s = s\<lparr>ll_deferred := ll_deferred s @ [a]\<rparr>"

definition ll_nbd_free :: "addr \<Rightarrow> list_t \<Rightarrow> list_t" where
  "ll_nbd_free a s = s\<lparr>ll_heap := (ll_heap s)(a := None), ll_freed := ll_freed s @ [a]\<rparr>"

text \<open>A key that is a pointer has its own storage, outside the heap of nodes.\<close>

definition ll_free_key :: "map_key_t \<Rightarrow> list_t \<Rightarrow> list_t" where
  "ll_free_key k s = (if ll_key_type s = None then s else s\<lparr>ll_freed := ll_freed s @ [k]\<rparr>)"

definition ll_defer_node :: "addr \<Rightarrow> map_key_t \<Rightarrow> list_t \<Rightarrow> list_t" where
  "ll_defer_node a key s = ll_defer a (if ll_key_type s = None then s else ll_defer key s)"

section \<open>Operations\<close>

definition ll_alloc :: "datatype_t option \<Rightarrow> addr list \<Rightarrow> list_t prog" where
  "ll_alloc key_type pool =
     pbind (node_alloc 0 0 \<lparr>ll_head = 0, ll_key_type = key_type, ll_heap = (\<lambda>_. None), ll_pool = pool,
                            ll_deferred = [], ll_freed = []\<rparr>) (\<lambda>(head, s).
     ret (ll_store head \<lparr>nd_key = 0, nd_val = 0, nd_next = DOES_NOT_EXIST\<rparr> (s\<lparr>ll_head := head\<rparr>)))"

text \<open>The inner loop of \<^verbatim>\<open>find_pred\<close>, entered with the \<^verbatim>\<open>next\<close> field of \<open>item\<close>. The
  result \<^const>\<open>None\<close> says that the search has to start over.\<close>

partial_function (option) find_pred_marked ::
  "bool \<Rightarrow> addr \<Rightarrow> addr \<Rightarrow> markable_t \<Rightarrow> list_t \<Rightarrow> ((addr \<times> markable_t) option \<times> list_t) prog" where
  "find_pred_marked help_remove pred item next s =
     (if \<not> HAS_MARK next then ret (Some (item, next), s)
      else if \<not> help_remove then
        pbind (ll_load s item) (\<lambda>nd.
          let item = STRIP_MARK (nd_next nd)
          in if item = NULL then ret (Some (item, next), s)
             else pbind (ll_load s item) (\<lambda>nd. find_pred_marked help_remove pred item (nd_next nd) s))
      else
        pbind (ll_load s pred) (\<lambda>pn.
          case SYNC_CAS (nd_next pn) item (STRIP_MARK next) of (other, link) \<Rightarrow>
          (let s = ll_store pred (pn\<lparr>nd_next := link\<rparr>) s
          in if other = item then
               let item = STRIP_MARK next
               in pbind (if item \<noteq> NULL then pbind (ll_load s item) (\<lambda>nd. ret (nd_next nd)) else ret DOES_NOT_EXIST) (\<lambda>next.
                  pbind (ll_load s (GET_NODE other)) (\<lambda>on.
                  find_pred_marked help_remove pred item next (ll_defer_node (GET_NODE other) (nd_key on) s)))
             else if HAS_MARK other then ret (None, s)
             else let item = GET_NODE other
                  in pbind (if item \<noteq> NULL then pbind (ll_load s item) (\<lambda>nd. ret (nd_next nd)) else ret DOES_NOT_EXIST) (\<lambda>next.
                     find_pred_marked help_remove pred item next s))))"

text \<open>The outer loop. \<open>item_out\<close> says whether the caller passed a pointer for the item; the end of
  the list is reported through that pointer without a test. The result is the pair of the
  predecessor and the item, with the flag that the key was found.\<close>

partial_function (option) find_pred_loop ::
  "bool \<Rightarrow> bool \<Rightarrow> map_key_t \<Rightarrow> addr \<Rightarrow> addr \<Rightarrow> list_t \<Rightarrow> ((bool \<times> addr \<times> addr) \<times> list_t) prog" where
  "find_pred_loop item_out help_remove key pred item s =
     (if item = NULL then
        (if item_out then ret ((False, pred, NULL), s) else fail Null_Deref)
      else
        pbind (ll_load s item) (\<lambda>nd.
        pbind (find_pred_marked help_remove pred item (nd_next nd) s) (\<lambda>(r, s).
        case r of
          None \<Rightarrow> pbind (ll_load s (ll_head s)) (\<lambda>h.
                    find_pred_loop item_out help_remove key (ll_head s) (GET_NODE (nd_next h)) s)
        | Some (item, next) \<Rightarrow>
            if item = NULL then
              (if item_out then ret ((False, pred, NULL), s) else fail Null_Deref)
            else
              pbind (ll_load s item) (\<lambda>nd.
              let d = key_diff (ll_key_type s) (nd_key nd) key
              in if d \<ge> 0 then ret ((d = 0, pred, item), s)
                 else find_pred_loop item_out help_remove key item (GET_NODE next) s))))"

definition find_pred :: "bool \<Rightarrow> map_key_t \<Rightarrow> bool \<Rightarrow> list_t \<Rightarrow> ((bool \<times> addr \<times> addr) \<times> list_t) prog" where
  "find_pred item_out key help_remove s =
     pbind (ll_load s (ll_head s)) (\<lambda>h.
     find_pred_loop item_out help_remove key (ll_head s) (GET_NODE (nd_next h)) s)"

definition ll_lookup :: "list_t \<Rightarrow> map_key_t \<Rightarrow> (map_val_t \<times> list_t) prog" where
  "ll_lookup s key =
     pbind (find_pred True key False s) (\<lambda>((found, _, item), s).
     if found then
       pbind (ll_load s item) (\<lambda>nd.
       if nd_val nd \<noteq> DOES_NOT_EXIST then ret (nd_val nd, s) else ret (DOES_NOT_EXIST, s))
     else ret (DOES_NOT_EXIST, s))"

text \<open>The inner loop of \<^verbatim>\<open>ll_cas\<close>; \<^const>\<open>None\<close> is the \<^verbatim>\<open>break\<close> that retries.\<close>

partial_function (option) ll_cas_update ::
  "addr \<Rightarrow> map_val_t \<Rightarrow> map_val_t \<Rightarrow> map_val_t \<Rightarrow> list_t \<Rightarrow> (map_val_t option \<times> list_t) prog" where
  "ll_cas_update old_item expectation new_val old_item_val s =
     (if old_item_val = DOES_NOT_EXIST then ret (None, s)
      else if expectation = CAS_EXPECT_DOES_NOT_EXIST then ret (Some old_item_val, s)
      else pbind (ll_load s old_item) (\<lambda>nd.
        case SYNC_CAS (nd_val nd) old_item_val new_val of (ret_val, v) \<Rightarrow>
        (let s = ll_store old_item (nd\<lparr>nd_val := v\<rparr>) s
        in if ret_val = old_item_val then ret (Some ret_val, s)
           else ll_cas_update old_item expectation new_val ret_val s)))"

partial_function (option) ll_cas_loop ::
  "map_key_t \<Rightarrow> map_val_t \<Rightarrow> map_val_t \<Rightarrow> list_t \<Rightarrow> (map_val_t \<times> list_t) prog" where
  "ll_cas_loop key expectation new_val s =
     pbind (find_pred True key True s) (\<lambda>((found, pred, old_item), s).
     if \<not> found then
       if expectation \<noteq> CAS_EXPECT_DOES_NOT_EXIST \<and> expectation \<noteq> CAS_EXPECT_WHATEVER
       then ret (DOES_NOT_EXIST, s)
       else
         let new_key = key_clone (ll_key_type s) key
         in pbind (node_alloc new_key new_val s) (\<lambda>(new_item, s).
            let s = ll_store new_item \<lparr>nd_key = new_key, nd_val = new_val, nd_next = old_item\<rparr> s
            in pbind (ll_load s pred) (\<lambda>pn.
            case SYNC_CAS (nd_next pn) old_item new_item of (other, link) \<Rightarrow>
              (let s = ll_store pred (pn\<lparr>nd_next := link\<rparr>) s
              in if other = old_item then ret (DOES_NOT_EXIST, s)
                 else ll_cas_loop key expectation new_val (ll_nbd_free new_item (ll_free_key new_key s)))))
     else
       pbind (ll_load s old_item) (\<lambda>nd.
       pbind (ll_cas_update old_item expectation new_val (nd_val nd) s) (\<lambda>(r, s).
       case r of Some v \<Rightarrow> ret (v, s) | None \<Rightarrow> ll_cas_loop key expectation new_val s)))"

definition ll_cas :: "list_t \<Rightarrow> map_key_t \<Rightarrow> map_val_t \<Rightarrow> map_val_t \<Rightarrow> (map_val_t \<times> list_t) prog" where
  "ll_cas s key expectation new_val =
     pbind (passert (sint new_val > 0)) (\<lambda>_. ll_cas_loop key expectation new_val s)"

text \<open>The loop of \<^verbatim>\<open>ll_remove\<close> that marks the item, entered with the expected link. The
  result is the unmarked link, or \<^const>\<open>None\<close> if another thread has marked the item.\<close>

partial_function (option) ll_remove_mark :: "addr \<Rightarrow> markable_t \<Rightarrow> list_t \<Rightarrow> (markable_t option \<times> list_t) prog" where
  "ll_remove_mark item next s =
     pbind (ll_load s item) (\<lambda>nd.
     case SYNC_CAS (nd_next nd) next (MARK_NODE (STRIP_MARK next)) of (old_next, link) \<Rightarrow>
       (let s = ll_store item (nd\<lparr>nd_next := link\<rparr>) s
       in if HAS_MARK old_next then ret (None, s)
          else if next \<noteq> old_next then ll_remove_mark item old_next s
          else ret (Some next, s)))"

definition ll_remove :: "list_t \<Rightarrow> map_key_t \<Rightarrow> (map_val_t \<times> list_t) prog" where
  "ll_remove s key =
     pbind (find_pred True key True s) (\<lambda>((found, pred, item), s).
     if \<not> found then ret (DOES_NOT_EXIST, s)
     else
       pbind (ll_load s item) (\<lambda>nd.
       pbind (ll_remove_mark item (nd_next nd) s) (\<lambda>(r, s).
       case r of
         None \<Rightarrow> ret (DOES_NOT_EXIST, s)
       | Some next \<Rightarrow>
           pbind (ll_load s item) (\<lambda>nd.
           pbind (passert (HAS_MARK (nd_next nd))) (\<lambda>_.
           case SYNC_SWAP (nd_val nd) DOES_NOT_EXIST of (val, v) \<Rightarrow>
           (let s = ll_store item (nd\<lparr>nd_val := v\<rparr>) s
           in pbind (ll_load s pred) (\<lambda>pn.
              case SYNC_CAS (nd_next pn) item next of (other, link) \<Rightarrow>
              (let s = ll_store pred (pn\<lparr>nd_next := link\<rparr>) s
              in if other \<noteq> item then ret (val, s)
                 else ret (val, ll_defer_node item (nd_key nd) s)))))))))"

text \<open>The loops over all nodes.\<close>

partial_function (option) ll_count_loop :: "addr \<Rightarrow> size_t \<Rightarrow> list_t \<Rightarrow> size_t prog" where
  "ll_count_loop item cnt s =
     (if item = NULL then ret cnt
      else pbind (ll_load s item) (\<lambda>nd.
        ll_count_loop (STRIP_MARK (nd_next nd)) (if \<not> HAS_MARK (nd_next nd) then cnt + 1 else cnt) s))"

definition ll_count :: "list_t \<Rightarrow> size_t prog" where
  "ll_count s = pbind (ll_load s (ll_head s)) (\<lambda>h. ll_count_loop (STRIP_MARK (nd_next h)) 0 s)"

partial_function (option) ll_free_loop :: "addr \<Rightarrow> list_t \<Rightarrow> list_t prog" where
  "ll_free_loop item s =
     (if item = NULL then ret s
      else pbind (ll_load s item) (\<lambda>nd.
        ll_free_loop (STRIP_MARK (nd_next nd)) (ll_nbd_free item (ll_free_key (nd_key nd) s))))"

definition ll_free :: "list_t \<Rightarrow> list_t prog" where
  "ll_free s = pbind (ll_load s (ll_head s)) (\<lambda>h. ll_free_loop (STRIP_MARK (nd_next h)) s)"

section \<open>Iterators\<close>

text \<open>The iterator is the field \<^verbatim>\<open>pred\<close>.\<close>

definition ll_iter_begin :: "list_t \<Rightarrow> map_key_t \<Rightarrow> addr prog" where
  "ll_iter_begin s key =
     (if key \<noteq> DOES_NOT_EXIST
      then pbind (find_pred False key False s) (\<lambda>((_, pred, _), _). ret pred)
      else ret (ll_head s))"

partial_function (option) ll_iter_advance :: "addr \<Rightarrow> list_t \<Rightarrow> (addr \<times> markable_t) prog" where
  "ll_iter_advance pred s =
     pbind (ll_load s pred) (\<lambda>nd.
     let item = nd_next nd; pred = STRIP_MARK item
     in if pred = NULL then ret (NULL, item)
        else if HAS_MARK item then ll_iter_advance pred s
        else ret (pred, item))"

text \<open>The result is the value, the key if there is one, and the iterator.\<close>

definition ll_iter_next :: "addr \<Rightarrow> list_t \<Rightarrow> (map_val_t \<times> map_key_t option \<times> addr) prog" where
  "ll_iter_next pred s =
     (if pred = NULL then ret (DOES_NOT_EXIST, None, NULL)
      else pbind (ll_iter_advance pred s) (\<lambda>(pred, item).
        if pred = NULL then ret (DOES_NOT_EXIST, None, NULL)
        else pbind (ll_load s (GET_NODE item)) (\<lambda>nd. ret (nd_val nd, Some (nd_key nd), pred))))"

section \<open>The chain of nodes\<close>

record lnode =
  ln_addr :: addr
  ln_key :: map_key_t
  ln_val :: map_val_t
  ln_mark :: bool

abbreviation addrs :: "lnode list \<Rightarrow> addr list" where
  "addrs ns \<equiv> map ln_addr ns"

text \<open>The chain of nodes that starts at the link \<open>p\<close> and ends with the link \<open>q\<close>.\<close>

fun seg :: "(addr \<Rightarrow> node option) \<Rightarrow> addr \<Rightarrow> lnode list \<Rightarrow> addr \<Rightarrow> bool" where
  "seg h p [] q \<longleftrightarrow> p = q"
| "seg h p (n # ns) q \<longleftrightarrow>
     p = ln_addr n \<and> p \<noteq> NULL \<and> \<not> HAS_MARK p \<and>
     (\<exists>nd. h p = Some nd \<and> nd_key nd = ln_key n \<and> nd_val nd = ln_val n \<and>
        HAS_MARK (nd_next nd) = ln_mark n \<and> seg h (STRIP_MARK (nd_next nd)) ns q)"

lemma seg_append: "seg h p (xs @ ys) q \<longleftrightarrow> (\<exists>r. seg h p xs r \<and> seg h r ys q)"
  by (induction xs arbitrary: p) auto

lemma seg_frame:
  "seg h p ns q \<Longrightarrow> (\<And>a. a \<in> set (addrs ns) \<Longrightarrow> h' a = h a) \<Longrightarrow> seg h' p ns q"
  by (induction ns arbitrary: p) auto

lemma seg_member:
  "seg h p ns q \<Longrightarrow> n \<in> set ns \<Longrightarrow>
   \<exists>nd. h (ln_addr n) = Some nd \<and> nd_key nd = ln_key n \<and> nd_val nd = ln_val n \<and> HAS_MARK (nd_next nd) = ln_mark n"
  by (induction ns arbitrary: p) auto

definition link :: "lnode list \<Rightarrow> addr" where
  "link ns = (case ns of [] \<Rightarrow> NULL | n # _ \<Rightarrow> ln_addr n)"

lemma link_simps [simp]: "link [] = NULL" "link (n # ns) = ln_addr n"
  by (simp_all add: link_def)

lemma seg_link: "seg h p ns NULL \<Longrightarrow> p = link ns"
  by (cases ns) auto

lemma seg_NULL_iff: "seg h p ns NULL \<Longrightarrow> p = NULL \<longleftrightarrow> ns = []"
  by (cases ns) auto

lemma link_unmarked: "seg h p ns NULL \<Longrightarrow> \<not> HAS_MARK p"
  by (cases ns) auto

lemma seg_store: "a \<notin> set (addrs ns) \<Longrightarrow> seg (h(a := x)) p ns q = seg h p ns q"
  by (induction ns arbitrary: p) auto

lemma seg_drop_marked:
  assumes "seg h p ns NULL"
  shows "\<exists>p'. seg h p' (dropWhile ln_mark ns) NULL"
  using assms by (induction ns arbitrary: p) auto

text \<open>What a search for \<open>key\<close> does to the chain: marked nodes before the place of the key are
  dropped, the other nodes before it form the first component.\<close>

fun search :: "datatype_t option \<Rightarrow> map_key_t \<Rightarrow> lnode list \<Rightarrow> lnode list \<times> lnode list" where
  "search kt key [] = ([], [])"
| "search kt key (n # ns) =
     (if ln_mark n then search kt key ns
      else if key_diff kt (ln_key n) key \<ge> 0 then ([], n # ns)
      else (n # fst (search kt key ns), snd (search kt key ns)))"

lemma search_dropWhile: "search kt key (dropWhile ln_mark ns) = search kt key ns"
  by (induction ns) auto

lemma search_addrs: "set (fst (search kt key ns) @ snd (search kt key ns)) \<subseteq> set ns"
  by (induction ns) auto

lemma search_distinct:
  "distinct (addrs ns) \<Longrightarrow> distinct (addrs (fst (search kt key ns) @ snd (search kt key ns)))"
proof (induction ns)
  case (Cons n ns)
  then show ?case using search_addrs [of kt key ns] by auto
qed simp

lemma search_fst_live: "n \<in> set (fst (search kt key ns)) \<Longrightarrow> \<not> ln_mark n \<and> key_diff kt (ln_key n) key < 0"
  by (induction ns) (auto split: if_splits)

lemma search_snd_hd:
  "snd (search kt key ns) = n # ms \<Longrightarrow> \<not> ln_mark n \<and> key_diff kt (ln_key n) key \<ge> 0"
  by (induction ns) (auto split: if_splits)

definition found_in :: "datatype_t option \<Rightarrow> map_key_t \<Rightarrow> lnode list \<Rightarrow> bool" where
  "found_in kt key ns = (case ns of [] \<Rightarrow> False | n # _ \<Rightarrow> key_diff kt (ln_key n) key = 0)"

section \<open>The search\<close>

lemma ll_load_simp [simp]: "ll_heap s a = Some nd \<Longrightarrow> ll_load s a = ret nd"
  by (simp add: ll_load_def)

lemma ll_store_heap [simp]: "ll_heap (ll_store a nd s) = (ll_heap s)(a \<mapsto> nd)"
  by (simp add: ll_store_def)

lemma find_pred_marked_skip:
  assumes "seg (ll_heap s) p ns NULL" and "ns \<noteq> []" and "ll_heap s p = Some nd"
  shows "\<exists>nxt. find_pred_marked False pred p (nd_next nd) s = ret (Some (link (dropWhile ln_mark ns), nxt), s) \<and>
    (dropWhile ln_mark ns \<noteq> [] \<longrightarrow> (\<exists>nd'. ll_heap s (link (dropWhile ln_mark ns)) = Some nd' \<and> nxt = nd_next nd'))"
  using assms
proof (induction ns arbitrary: p nd)
  case (Cons n ns)
  show ?case
  proof (cases "ln_mark n")
    case False
    with Cons.prems show ?thesis by (subst find_pred_marked.simps) auto
  next
    case marked: True
    let ?q = "STRIP_MARK (nd_next nd)"
    have q: "seg (ll_heap s) ?q ns NULL" and m: "HAS_MARK (nd_next nd)"
      using Cons.prems marked by auto
    show ?thesis
    proof (cases "ns = []")
      case True
      then have "?q = NULL" using q by simp
      with True marked m Cons.prems(3) show ?thesis
        by (subst find_pred_marked.simps) (auto simp: Let_def)
    next
      case False
      then have ne: "?q \<noteq> NULL" using q seg_NULL_iff by metis
      obtain nd' where nd': "ll_heap s ?q = Some nd'" using q False by (cases ns) auto
      have "find_pred_marked False pred p (nd_next nd) s = find_pred_marked False pred ?q (nd_next nd') s"
        using ne nd' m Cons.prems(3) by (subst find_pred_marked.simps) (simp add: Let_def)
      then show ?thesis using Cons.IH [OF q False nd'] marked by simp
    qed
  qed
qed simp

lemma find_pred_marked_unlink:
  assumes "ll_heap s pred = Some pn" and "nd_next pn = p" and "seg (ll_heap s) p ns NULL"
    and "pred \<notin> set (addrs ns)" and "distinct (addrs ns)"
    and "nxt = (case ns of [] \<Rightarrow> 0 | n # _ \<Rightarrow> nd_next (the (ll_heap s (ln_addr n))))"
  shows "\<exists>D nxt'. find_pred_marked True pred p nxt s =
      ret (Some (link (dropWhile ln_mark ns), nxt'),
           s\<lparr>ll_heap := (ll_heap s)(pred \<mapsto> pn\<lparr>nd_next := link (dropWhile ln_mark ns)\<rparr>), ll_deferred := D\<rparr>) \<and>
    (dropWhile ln_mark ns \<noteq> [] \<longrightarrow> (\<exists>nd'. ll_heap s (link (dropWhile ln_mark ns)) = Some nd' \<and> nxt' = nd_next nd'))"
  using assms
proof (induction ns arbitrary: p pn nxt s)
  case Nil
  then have same: "s\<lparr>ll_heap := (ll_heap s)(pred \<mapsto> pn\<lparr>nd_next := NULL\<rparr>), ll_deferred := ll_deferred s\<rparr> = s"
    by (auto simp: fun_upd_idem)
  show ?case
    using Nil by (subst find_pred_marked.simps) (auto simp: same intro!: exI [of _ "ll_deferred s"])
next
  case (Cons n ns)
  obtain nd where nd: "ll_heap s p = Some nd" "HAS_MARK (nd_next nd) = ln_mark n" "p = ln_addr n" "nxt = nd_next nd"
    and q: "seg (ll_heap s) (STRIP_MARK (nd_next nd)) ns NULL"
    using Cons.prems by auto
  show ?case
  proof (cases "ln_mark n")
    case False
    have same: "s\<lparr>ll_heap := (ll_heap s)(pred \<mapsto> pn\<lparr>nd_next := ln_addr n\<rparr>), ll_deferred := ll_deferred s\<rparr> = s"
      using Cons.prems(1,2) nd(3) by (auto simp: fun_upd_idem)
    show ?thesis
      using False nd by (subst find_pred_marked.simps) (auto simp: same intro!: exI [of _ "ll_deferred s"])
  next
    case True
    let ?q = "STRIP_MARK (nd_next nd)"
    let ?s1 = "ll_defer_node p (nd_key nd) (ll_store pred (pn\<lparr>nd_next := ?q\<rparr>) s)"
    let ?nxt1 = "case ns of [] \<Rightarrow> 0 | n # _ \<Rightarrow> nd_next (the (ll_heap s (ln_addr n)))"
    have pp: "pred \<noteq> p" using Cons.prems(4) nd(3) by simp
    have fresh: "pred \<notin> set (addrs ns)" "distinct (addrs ns)" using Cons.prems(4,5) by simp_all
    have ld: "(if ?q \<noteq> NULL then pbind (ll_load (ll_store pred (pn\<lparr>nd_next := ?q\<rparr>) s) ?q) (\<lambda>nd. ret (nd_next nd))
        else ret DOES_NOT_EXIST) = ret ?nxt1"
      using q fresh by (cases ns) (auto simp: DOES_NOT_EXIST_def ll_load_def)
    have hp: "ll_heap ?s1 = (ll_heap s)(pred \<mapsto> pn\<lparr>nd_next := ?q\<rparr>)"
      by (simp add: ll_defer_node_def ll_defer_def)
    have step: "find_pred_marked True pred p nxt s = find_pred_marked True pred ?q ?nxt1 ?s1"
      using True nd Cons.prems(1,2) ld pp
      by (subst find_pred_marked.simps) (simp add: Let_def GET_NODE_def ll_load_def)
    have e1: "ll_heap ?s1 pred = Some (pn\<lparr>nd_next := ?q\<rparr>)" by (simp add: hp)
    have e2: "nd_next (pn\<lparr>nd_next := ?q\<rparr>) = ?q" by simp
    have e3: "seg (ll_heap ?s1) ?q ns NULL"
      using q fresh(1) by (simp add: hp seg_store)
    have e4: "?nxt1 = (case ns of [] \<Rightarrow> 0 | n # _ \<Rightarrow> nd_next (the (ll_heap ?s1 (ln_addr n))))"
      using fresh by (auto simp: hp split: list.split)
    obtain D nxt' where r: "find_pred_marked True pred ?q ?nxt1 ?s1 =
        ret (Some (link (dropWhile ln_mark ns), nxt'), ?s1\<lparr>ll_heap := (ll_heap ?s1)(pred \<mapsto>
          pn\<lparr>nd_next := ?q\<rparr>\<lparr>nd_next := link (dropWhile ln_mark ns)\<rparr>), ll_deferred := D\<rparr>)"
      "dropWhile ln_mark ns \<noteq> [] \<longrightarrow> (\<exists>nd'. ll_heap ?s1 (link (dropWhile ln_mark ns)) = Some nd' \<and> nxt' = nd_next nd')"
      using Cons.IH [OF e1 e2 e3 fresh e4] by blast
    have heap: "?s1\<lparr>ll_heap := (ll_heap ?s1)(pred \<mapsto>
          pn\<lparr>nd_next := ?q\<rparr>\<lparr>nd_next := link (dropWhile ln_mark ns)\<rparr>), ll_deferred := D\<rparr> =
        s\<lparr>ll_heap := (ll_heap s)(pred \<mapsto> pn\<lparr>nd_next := link (dropWhile ln_mark ns)\<rparr>), ll_deferred := D\<rparr>"
      unfolding hp by (simp add: ll_defer_node_def ll_defer_def ll_store_def)
    have "link (dropWhile ln_mark ns) \<noteq> pred" if "dropWhile ln_mark ns \<noteq> []"
    proof -
      have "link (dropWhile ln_mark ns) \<in> set (addrs (dropWhile ln_mark ns))"
        using that by (cases "dropWhile ln_mark ns") auto
      then show ?thesis using fresh(1) set_dropWhileD by fastforce
    qed
    with r(2) have last: "dropWhile ln_mark ns \<noteq> [] \<longrightarrow>
        (\<exists>nd'. ll_heap s (link (dropWhile ln_mark ns)) = Some nd' \<and> nxt' = nd_next nd')"
      unfolding hp by auto
    have dw: "dropWhile ln_mark (n # ns) = dropWhile ln_mark ns" using True by simp
    show ?thesis
      unfolding dw step r(1) heap using last by blast
  qed
qed

lemma seg_hd:
  assumes "seg h p (n # ns) q" and "\<not> ln_mark n"
  shows "\<exists>nd. h p = Some nd \<and> nd_key nd = ln_key n \<and> nd_val nd = ln_val n \<and>
    \<not> HAS_MARK (nd_next nd) \<and> seg h (nd_next nd) ns q \<and> p = ln_addr n \<and> p \<noteq> NULL"
  using assms by auto

lemma dropWhile_hd_unmarked: "dropWhile ln_mark ns = n # ms \<Longrightarrow> \<not> ln_mark n"
  by (metis dropWhile_eq_Cons_conv)

lemma find_pred_loop_skip:
  assumes "seg (ll_heap s) p ns NULL"
  shows "find_pred_loop out False key pred p s =
    (let (l, r) = search (ll_key_type s) key ns
     in if r = [] \<and> \<not> out then fail Null_Deref
        else ret ((found_in (ll_key_type s) key r, last (pred # addrs l), link r), s))"
  using assms
proof (induction ns arbitrary: p pred rule: length_induct)
  case (1 ns)
  show ?case
  proof (cases "ns = []")
    case True
    then show ?thesis
      using 1(2) by (subst find_pred_loop.simps) (simp add: found_in_def)
  next
    case False
    define ms0 where "ms0 = dropWhile ln_mark ns"
    have p: "p \<noteq> NULL" using 1(2) False seg_NULL_iff by metis
    obtain nd where nd: "ll_heap s p = Some nd" using 1(2) False by (cases ns) auto
    obtain nxt where nxt: "find_pred_marked False pred p (nd_next nd) s = ret (Some (link ms0, nxt), s)"
      "ms0 \<noteq> [] \<longrightarrow> (\<exists>nd'. ll_heap s (link ms0) = Some nd' \<and> nxt = nd_next nd')"
      using find_pred_marked_skip [OF 1(2) False nd] unfolding ms0_def by blast
    obtain p' where p': "seg (ll_heap s) p' ms0 NULL" using seg_drop_marked [OF 1(2)] unfolding ms0_def by blast
    have sr: "search (ll_key_type s) key ns = search (ll_key_type s) key ms0" by (simp add: ms0_def search_dropWhile)
    show ?thesis
    proof (cases ms0)
      case Nil
      then show ?thesis
        using p nd nxt unfolding sr by (subst find_pred_loop.simps) (simp add: found_in_def)
    next
      case (Cons n ms)
      have nl: "\<not> ln_mark n" using dropWhile_hd_unmarked [of ns n ms] Cons ms0_def by simp
      obtain nd' where nd': "ll_heap s (ln_addr n) = Some nd'" "nd_key nd' = ln_key n"
        "\<not> HAS_MARK (nd_next nd')" "seg (ll_heap s) (nd_next nd') ms NULL" "ln_addr n \<noteq> NULL"
        using seg_hd p' Cons nl by metis
      have len: "length ms < length ns"
        using Cons length_dropWhile_le [of ln_mark ns] by (simp add: ms0_def)
      note rec = 1(1) [rule_format, OF len nd'(4), of "ln_addr n"]
      have lk: "link ms0 = ln_addr n" "nxt = nd_next nd'" using Cons nxt(2) nd'(1) by auto
      show ?thesis
      proof (cases "key_diff (ll_key_type s) (ln_key n) key \<ge> 0")
        case True
        then show ?thesis
          using p nd nxt(1) nd' nl unfolding sr lk
          by (subst find_pred_loop.simps) (simp add: Cons found_in_def Let_def)
      next
        case False
        then have "find_pred_loop out False key pred p s = find_pred_loop out False key (ln_addr n) (nd_next nd') s"
          using p nd nxt(1) nd' unfolding lk
          by (subst find_pred_loop.simps) (simp add: GET_NODE_def Let_def)
        then show ?thesis
          unfolding sr rec using False nl by (simp add: Cons split: prod.split)
      qed
    qed
  qed
qed

lemma find_pred_loop_help:
  assumes "seg (ll_heap s) pred (pn # ns) NULL" and "\<not> ln_mark pn" and "distinct (addrs (pn # ns))"
    and "p = link ns"
  shows "\<exists>h D. find_pred_loop True True key pred p s =
      ret ((found_in (ll_key_type s) key (snd (search (ll_key_type s) key ns)),
            last (pred # addrs (fst (search (ll_key_type s) key ns))), link (snd (search (ll_key_type s) key ns))),
           s\<lparr>ll_heap := h, ll_deferred := D\<rparr>) \<and>
    seg h pred (pn # fst (search (ll_key_type s) key ns) @ snd (search (ll_key_type s) key ns)) NULL \<and>
    (\<forall>a. a \<notin> set (addrs (pn # ns)) \<longrightarrow> h a = ll_heap s a) \<and> dom h = dom (ll_heap s)"
  using assms
proof (induction ns arbitrary: p pn pred s rule: length_induct)
  case (1 ns)
  note IH = 1(1) [rule_format] and seg = 1(2) and live = 1(3) and dist = 1(4) and p = 1(5)
  obtain P where P: "ll_heap s pred = Some P" "nd_key P = ln_key pn" "nd_val P = ln_val pn"
    "\<not> HAS_MARK (nd_next P)" "seg (ll_heap s) (nd_next P) ns NULL" "pred = ln_addr pn" "pred \<noteq> NULL"
    using seg_hd [OF seg live] by blast
  have pe: "nd_next P = p" using P(5) p seg_link by metis
  show ?case
  proof (cases "ns = []")
    case True
    then show ?thesis
      using seg p by (subst find_pred_loop.simps)
        (auto simp: found_in_def intro!: exI [of _ "ll_heap s"] exI [of _ "ll_deferred s"])
  next
    case False
    define ms0 where "ms0 = dropWhile ln_mark ns"
    define h1 where "h1 = (ll_heap s)(pred \<mapsto> P\<lparr>nd_next := link ms0\<rparr>)"
    have pn: "p \<noteq> NULL" using P(5) pe False seg_NULL_iff by metis
    obtain nd where nd: "ll_heap s p = Some nd" "nd_next nd = (case ns of [] \<Rightarrow> 0 | n # _ \<Rightarrow> nd_next (the (ll_heap s (ln_addr n))))"
      using P(5) pe False by (cases ns) auto
    have fr: "pred \<notin> set (addrs ns)" "distinct (addrs ns)" using dist P(6) by simp_all
    obtain D nxt where nxt: "find_pred_marked True pred p (nd_next nd) s =
        ret (Some (link ms0, nxt), s\<lparr>ll_heap := h1, ll_deferred := D\<rparr>)"
      "ms0 \<noteq> [] \<longrightarrow> (\<exists>nd'. ll_heap s (link ms0) = Some nd' \<and> nxt = nd_next nd')"
      using find_pred_marked_unlink [OF P(1) pe _ fr nd(2)] P(5) pe unfolding ms0_def h1_def by blast
    have sub: "set ms0 \<subseteq> set ns" unfolding ms0_def using set_dropWhileD by fastforce
    have fr1: "pred \<notin> set (addrs ms0)" "distinct (addrs ms0)"
      using fr sub by (auto simp: ms0_def distinct_map intro: inj_on_subset)
    obtain p' where p': "seg (ll_heap s) p' ms0 NULL" using seg_drop_marked [OF P(5)] unfolding ms0_def by blast
    then have seg1: "seg h1 pred (pn # ms0) NULL"
      using P live fr1(1) seg_link [OF p'] link_unmarked [OF p'] seg by (simp add: h1_def seg_store)
    have sr: "search (ll_key_type s) key ns = search (ll_key_type s) key ms0" by (simp add: ms0_def search_dropWhile)
    have dom1: "dom h1 = dom (ll_heap s)" using P(1) by (auto simp: h1_def)
    have frame1: "h1 a = ll_heap s a" if "a \<noteq> pred" for a using that by (simp add: h1_def)
    show ?thesis
    proof (cases ms0)
      case Nil
      then show ?thesis
        using pn nd(1) nxt seg1 dom1 frame1 P(6) unfolding sr
        by (subst find_pred_loop.simps) (auto simp: found_in_def intro!: exI [of _ h1] exI [of _ D])
    next
      case (Cons n ms)
      let ?s1 = "s\<lparr>ll_heap := h1, ll_deferred := D\<rparr>"
      have nl: "\<not> ln_mark n" using dropWhile_hd_unmarked [of ns n ms] Cons ms0_def by simp
      have segn: "seg h1 (ln_addr n) (n # ms) NULL"
        using seg1 Cons live by auto
      obtain nd' where nd': "ll_heap s (ln_addr n) = Some nd'" "nd_key nd' = ln_key n"
        "\<not> HAS_MARK (nd_next nd')" "seg (ll_heap s) (nd_next nd') ms NULL" "ln_addr n \<noteq> NULL"
        using seg_hd p' Cons nl by metis
      have ne: "ln_addr n \<noteq> pred" using fr1(1) Cons by auto
      show ?thesis
      proof (cases "key_diff (ll_key_type s) (ln_key n) key \<ge> 0")
        case True
        have lk: "link ms0 = ln_addr n" using Cons by simp
        have "find_pred_loop True True key pred p s =
            ret ((found_in (ll_key_type s) key ms0, last (pred # addrs []), link ms0), ?s1)"
          using pn nd(1) nxt(1) nd' ne True unfolding lk
          by (subst find_pred_loop.simps) (simp add: found_in_def Let_def Cons frame1)
        moreover have "search (ll_key_type s) key ns = ([], ms0)" using sr Cons nl True by simp
        ultimately show ?thesis
          using seg1 dom1 frame1 P(6) by (intro exI [of _ h1] exI [of _ D]) (simp del: seg.simps)
      next
        case less: False
        have len: "length ms < length ns"
          using Cons length_dropWhile_le [of ln_mark ns] by (simp add: ms0_def)
        have dn: "distinct (addrs (n # ms))" using fr1(2) Cons by simp
        have step: "find_pred_loop True True key pred p s =
            find_pred_loop True True key (ln_addr n) (link ms) ?s1"
          using pn nd(1) nxt nd' ne less seg_link [OF nd'(4)] unfolding Cons
          by (subst find_pred_loop.simps) (simp add: GET_NODE_def Let_def frame1)
        obtain h D' where r: "find_pred_loop True True key (ln_addr n) (link ms) ?s1 =
            ret ((found_in (ll_key_type s) key (snd (search (ll_key_type s) key ms)),
                  last (ln_addr n # addrs (fst (search (ll_key_type s) key ms))), link (snd (search (ll_key_type s) key ms))),
                 ?s1\<lparr>ll_heap := h, ll_deferred := D'\<rparr>)"
          "seg h (ln_addr n) (n # fst (search (ll_key_type s) key ms) @ snd (search (ll_key_type s) key ms)) NULL"
          "\<forall>a. a \<notin> set (addrs (n # ms)) \<longrightarrow> h a = h1 a" "dom h = dom h1"
          using IH [OF len, of ?s1 "ln_addr n" n "link ms"] segn nl dn by auto
        have hp: "h pred = Some (P\<lparr>nd_next := ln_addr n\<rparr>)" using r(3) fr1(1) Cons by (simp add: h1_def)
        have un: "\<not> HAS_MARK (ln_addr n)" using segn by simp
        have "seg h pred (pn # n # fst (search (ll_key_type s) key ms) @ snd (search (ll_key_type s) key ms)) NULL"
          using r(2) hp P live un seg by simp
        moreover have "h a = ll_heap s a" if "a \<notin> set (addrs (pn # ns))" for a
        proof -
          have "a \<notin> set (addrs (n # ms))" "a \<noteq> pred" using that sub Cons P(6) by auto
          then show ?thesis using r(3) frame1 by simp
        qed
        moreover have "search (ll_key_type s) key ns =
            (n # fst (search (ll_key_type s) key ms), snd (search (ll_key_type s) key ms))"
          using sr Cons nl less by simp
        ultimately show ?thesis
          using step r(1,4) dom1 by auto
      qed
    qed
  qed
qed

section \<open>Invariant and abstraction\<close>

text \<open>The live nodes of a list are those that are not marked. They are sorted by the rank of their
  keys, and their values are positive.\<close>

definition live :: "lnode list \<Rightarrow> lnode list" where
  "live ns = filter (\<lambda>n. \<not> ln_mark n) ns"

definition live_ok :: "map_key_t set \<Rightarrow> (map_key_t \<Rightarrow> int) \<Rightarrow> lnode list \<Rightarrow> bool" where
  "live_ok K rank ns \<longleftrightarrow>
     sorted_wrt (<) (map (\<lambda>n. rank (ln_key n)) ns) \<and> (\<forall>n \<in> set ns. ln_key n \<in> K \<and> 0 < sint (ln_val n))"

definition pool_ok :: "addr list \<Rightarrow> (addr \<Rightarrow> node option) \<Rightarrow> bool" where
  "pool_ok pool h \<longleftrightarrow> distinct pool \<and> (\<forall>a \<in> set pool. a \<noteq> NULL \<and> \<not> HAS_MARK a \<and> h a = None)"

definition ll_chain :: "list_t \<Rightarrow> lnode list \<Rightarrow> bool" where
  "ll_chain s ns \<longleftrightarrow>
     (\<exists>hn. seg (ll_heap s) (ll_head s) (hn # ns) NULL \<and> \<not> ln_mark hn \<and> distinct (addrs (hn # ns)))"

definition ll_rep :: "datatype_t option \<Rightarrow> map_key_t set \<Rightarrow> (map_key_t \<Rightarrow> int) \<Rightarrow> list_t \<Rightarrow> lnode list \<Rightarrow> bool" where
  "ll_rep kt K rank s ns \<longleftrightarrow>
     ll_key_type s = kt \<and> ll_chain s ns \<and> live_ok K rank (live ns) \<and> pool_ok (ll_pool s) (ll_heap s)"

definition ll_inv :: "datatype_t option \<Rightarrow> map_key_t set \<Rightarrow> (map_key_t \<Rightarrow> int) \<Rightarrow> list_t \<Rightarrow> bool" where
  "ll_inv kt K rank s \<longleftrightarrow> (\<exists>ns. ll_rep kt K rank s ns)"

text \<open>The binding of a key in a sequence of live nodes.\<close>

definition lookup_in :: "(map_key_t \<Rightarrow> int) \<Rightarrow> lnode list \<Rightarrow> map_key_t \<Rightarrow> map_val_t option" where
  "lookup_in rank ns k = map_of (map (\<lambda>n. (rank (ln_key n), ln_val n)) ns) (rank k)"

lemma seg_unique: "seg h p ns NULL \<Longrightarrow> seg h p ms NULL \<Longrightarrow> ns = ms"
proof (induction ns arbitrary: p ms)
  case Nil
  then show ?case by (cases ms) auto
next
  case (Cons n ns)
  then show ?case by (cases ms) auto
qed

lemma ll_chain_unique: "ll_chain s ns \<Longrightarrow> ll_chain s ms \<Longrightarrow> ns = ms"
  unfolding ll_chain_def using seg_unique by blast

definition ll_nodes :: "list_t \<Rightarrow> lnode list" where
  "ll_nodes s = (THE ns. ll_chain s ns)"

lemma ll_nodes_eq: "ll_chain s ns \<Longrightarrow> ll_nodes s = ns"
  unfolding ll_nodes_def using ll_chain_unique by blast

definition ll_abs :: "(map_key_t \<Rightarrow> int) \<Rightarrow> list_t \<Rightarrow> map_key_t \<Rightarrow> map_val_t option" where
  "ll_abs rank s = lookup_in rank (live (ll_nodes s))"

section \<open>Changes of the chain\<close>

lemma seg_last:
  assumes "seg h p (xs @ [x]) q" and "\<not> ln_mark x"
  shows "\<exists>P. h (ln_addr x) = Some P \<and> nd_next P = q \<and> nd_key P = ln_key x \<and> nd_val P = ln_val x"
  using assms by (auto simp: seg_append)

lemma seg_relink:
  assumes "seg h p (xs @ [x]) q" and "\<not> ln_mark x" and "distinct (addrs (xs @ [x]))"
    and "h (ln_addr x) = Some P" and "\<not> HAS_MARK q'"
  shows "seg (h(ln_addr x \<mapsto> P\<lparr>nd_next := q'\<rparr>)) p (xs @ [x]) q'"
proof -
  obtain r where r: "seg h p xs r" "seg h r [x] q" using assms(1) unfolding seg_append by blast
  have "ln_addr x \<notin> set (addrs xs)" using assms(3) by auto
  then have "seg (h(ln_addr x \<mapsto> P\<lparr>nd_next := q'\<rparr>)) p xs r" using r(1) seg_store by blast
  moreover have "seg (h(ln_addr x \<mapsto> P\<lparr>nd_next := q'\<rparr>)) r [x] q'"
    using r(2) assms(2,4,5) by fastforce
  ultimately show ?thesis unfolding seg_append by blast
qed

lemma seg_insert:
  assumes seg: "seg h p ((xs @ [x]) @ ys) NULL" and x: "\<not> ln_mark x" and dist: "distinct (addrs ((xs @ [x]) @ ys))"
    and P: "h (ln_addr x) = Some P" and a: "a \<noteq> NULL" "\<not> HAS_MARK a" "h a = None"
  shows "seg (h(a \<mapsto> \<lparr>nd_key = k, nd_val = v, nd_next = link ys\<rparr>, ln_addr x \<mapsto> P\<lparr>nd_next := a\<rparr>)) p
    ((xs @ [x]) @ \<lparr>ln_addr = a, ln_key = k, ln_val = v, ln_mark = False\<rparr> # ys) NULL"
proof -
  let ?nd = "\<lparr>nd_key = k, nd_val = v, nd_next = link ys\<rparr>"
  let ?h1 = "h(a \<mapsto> ?nd)"
  have na: "a \<notin> set (addrs ((xs @ [x]) @ ys))"
  proof
    assume "a \<in> set (addrs ((xs @ [x]) @ ys))"
    moreover have "h b \<noteq> None" if "b \<in> set (addrs ns)" "seg h q ns NULL" for b q ns
      using that by (induction ns arbitrary: q) auto
    ultimately show False using seg a(3) by blast
  qed
  obtain r where r: "seg h p (xs @ [x]) r" "seg h r ys NULL" using seg by (auto simp: seg_append)
  have rl: "r = link ys" using seg_link r(2) by blast
  have s1: "seg ?h1 p (xs @ [x]) r" "seg ?h1 r ys NULL" using r na by (simp_all add: seg_store)
  have "seg (?h1(ln_addr x \<mapsto> P\<lparr>nd_next := a\<rparr>)) p (xs @ [x]) a"
    using seg_relink [OF s1(1) x _ _ a(2), of P] dist P na by auto
  moreover have "seg (?h1(ln_addr x \<mapsto> P\<lparr>nd_next := a\<rparr>)) r ys NULL"
    using s1(2) dist by (simp add: seg_store)
  moreover have "\<not> HAS_MARK (link ys)" using link_unmarked r(2) rl by blast
  moreover have "ln_addr x \<noteq> a" using na by auto
  ultimately show ?thesis
    using a rl by (auto simp: seg_append)
qed

lemma seg_unlink:
  assumes seg: "seg h p ((xs @ [x]) @ n # ys) NULL" and x: "\<not> ln_mark x" and n: "\<not> ln_mark n"
    and dist: "distinct (addrs ((xs @ [x]) @ n # ys))"
    and P: "h (ln_addr x) = Some P" and h': "h' = (h(ln_addr n := b))(ln_addr x \<mapsto> P\<lparr>nd_next := link ys\<rparr>)"
  shows "seg h' p ((xs @ [x]) @ ys) NULL"
proof -
  obtain r where r: "seg h p (xs @ [x]) r" "seg h r (n # ys) NULL" using seg unfolding seg_append by blast
  then obtain q where q: "seg h q ys NULL" by auto
  then have ql: "q = link ys" "\<not> HAS_MARK q" using seg_link link_unmarked by blast+
  have "ln_addr n \<notin> set (addrs (xs @ [x]))" "ln_addr n \<notin> set (addrs ys)" using dist by auto
  then have "seg (h(ln_addr n := b)) p (xs @ [x]) r" "seg (h(ln_addr n := b)) q ys NULL"
    using r(1) q seg_store by blast+
  moreover from this(1) have "seg h' p (xs @ [x]) q"
    using seg_relink [of "h(ln_addr n := b)" p xs x r P q] x dist P ql h' by auto
  moreover have "seg h' q ys NULL"
    using calculation(2) dist h' by (simp add: seg_store)
  ultimately show ?thesis by (auto simp: seg_append)
qed

lemma seg_update_val:
  assumes "seg h p (xs @ n # ys) q" and "distinct (addrs (xs @ n # ys))" and "h (ln_addr n) = Some nd"
  shows "seg (h(ln_addr n \<mapsto> nd\<lparr>nd_val := v\<rparr>)) p (xs @ n\<lparr>ln_val := v\<rparr> # ys) q"
proof -
  obtain r where "seg h p xs r" "seg h r (n # ys) q" using assms(1) by (auto simp: seg_append)
  moreover have "ln_addr n \<notin> set (addrs xs)" "ln_addr n \<notin> set (addrs ys)" using assms(2) by auto
  ultimately show ?thesis using assms(3) by (auto simp: seg_append seg_store)
qed

section \<open>Lookup in the live nodes\<close>

lemma live_simps [simp]:
  "live [] = []" "live (n # ns) = (if ln_mark n then live ns else n # live ns)" "live (xs @ ys) = live xs @ live ys"
  by (simp_all add: live_def)

lemma live_search: "live (fst (search kt key ns) @ snd (search kt key ns)) = live ns"
  by (induction ns) auto

lemma live_fst_search: "live (fst (search kt key ns)) = fst (search kt key ns)"
  using search_fst_live [of _ kt key ns] by (auto simp: live_def intro: filter_True)

lemma live_ok_append:
  "live_ok K rank (xs @ ys) \<longleftrightarrow> live_ok K rank xs \<and> live_ok K rank ys \<and>
     (\<forall>x \<in> set xs. \<forall>y \<in> set ys. rank (ln_key x) < rank (ln_key y))"
  by (auto simp: live_ok_def sorted_wrt_append)

lemma live_ok_Cons:
  "live_ok K rank (n # ys) \<longleftrightarrow> ln_key n \<in> K \<and> 0 < sint (ln_val n) \<and> live_ok K rank ys \<and>
     (\<forall>y \<in> set ys. rank (ln_key n) < rank (ln_key y))"
  by (auto simp: live_ok_def)

lemma lookup_in_append:
  "lookup_in rank (xs @ ys) k = (case lookup_in rank xs k of None \<Rightarrow> lookup_in rank ys k | Some v \<Rightarrow> Some v)"
  by (induction xs) (auto simp: lookup_in_def)

lemma lookup_in_Cons:
  "lookup_in rank (n # ys) k = (if rank (ln_key n) = rank k then Some (ln_val n) else lookup_in rank ys k)"
  by (simp add: lookup_in_def)

lemma lookup_in_Nil [simp]: "lookup_in rank [] k = None"
  by (simp add: lookup_in_def)

lemma lookup_in_None: "lookup_in rank ys k = None \<longleftrightarrow> (\<forall>y \<in> set ys. rank (ln_key y) \<noteq> rank k)"
  by (induction ys) (auto simp: lookup_in_Cons)

text \<open>The search splits the live nodes at the rank of the key.\<close>

lemma search_split:
  assumes ord: "key_order kt K rank" and key: "key \<in> K" and ok: "live_ok K rank (live ns)"
    and sp: "search kt key ns = (l, r)"
  shows "live ns = l @ live r" and "\<forall>x \<in> set l. rank (ln_key x) < rank key"
    and "\<forall>y \<in> set (live r). rank key \<le> rank (ln_key y)"
    and "found_in kt key r \<longleftrightarrow> (\<exists>n r'. r = n # r' \<and> \<not> ln_mark n \<and> ln_key n \<in> K \<and> rank (ln_key n) = rank key)"
    and "\<not> found_in kt key r \<Longrightarrow> \<forall>y \<in> set (live r). rank key < rank (ln_key y)"
proof -
  have lv: "live ns = l @ live r"
    using live_search [of kt key ns] live_fst_search [of kt key ns] sp by simp
  then show "live ns = l @ live r" .
  have inK: "ln_key x \<in> K" if "x \<in> set l \<or> x \<in> set (live r)" for x
    using ok lv that by (auto simp: live_ok_def)
  show "\<forall>x \<in> set l. rank (ln_key x) < rank key"
    using search_fst_live [of _ kt key ns] sp inK key_orderD(2) [OF ord _ key] by auto
  have hd: "\<not> ln_mark n \<and> ln_key n \<in> K \<and> rank key \<le> rank (ln_key n) \<and>
      (key_diff kt (ln_key n) key = 0 \<longleftrightarrow> rank (ln_key n) = rank key) \<and>
      (\<forall>y \<in> set (live r'). rank (ln_key n) < rank (ln_key y))" if "r = n # r'" for n r'
  proof -
    have "\<not> ln_mark n" "0 \<le> key_diff kt (ln_key n) key" using search_snd_hd [of kt key ns n r'] sp that by auto
    moreover from this have "ln_key n \<in> K" using inK that by auto
    moreover have "live_ok K rank (live r)" using ok lv by (simp add: live_ok_append)
    ultimately show ?thesis
      using key_orderD [OF ord _ key] that by (auto simp: live_ok_Cons)
  qed
  show "\<forall>y \<in> set (live r). rank key \<le> rank (ln_key y)"
    using hd by (cases r) fastforce+
  show "found_in kt key r \<longleftrightarrow> (\<exists>n r'. r = n # r' \<and> \<not> ln_mark n \<and> ln_key n \<in> K \<and> rank (ln_key n) = rank key)"
    using hd by (auto simp: found_in_def split: list.splits)
  show "\<forall>y \<in> set (live r). rank key < rank (ln_key y)" if "\<not> found_in kt key r"
    using hd that by (cases r) (fastforce simp: found_in_def)+
qed

lemma lookup_search:
  assumes ord: "key_order kt K rank" and key: "key \<in> K" and ok: "live_ok K rank (live ns)"
    and sp: "search kt key ns = (l, r)"
  shows "lookup_in rank (live ns) key = (if found_in kt key r then Some (ln_val (hd r)) else None)"
proof -
  note S = search_split [OF assms]
  have "lookup_in rank l key = None" using S(2) by (auto simp: lookup_in_None)
  moreover have "lookup_in rank (live r) key = None" if "\<not> found_in kt key r"
    using S(5) [OF that] by (auto simp: lookup_in_None)
  ultimately show ?thesis
    unfolding S(1) lookup_in_append using S(4)
    by (cases "found_in kt key r") (auto simp: lookup_in_Cons)
qed

section \<open>The operations\<close>

lemma pool_ok_cong: "dom h' = dom h \<Longrightarrow> pool_ok pool h' = pool_ok pool h"
  unfolding pool_ok_def by (metis domIff)

lemma find_pred_skip_spec:
  assumes "ll_rep kt K rank s ns" and "search kt key ns = (l, r)"
  shows "find_pred out key False s =
    (if r = [] \<and> \<not> out then fail Null_Deref
     else ret ((found_in kt key r, last (ll_head s # addrs l), link r), s))"
proof -
  obtain hn where hn: "seg (ll_heap s) (ll_head s) (hn # ns) NULL" "\<not> ln_mark hn" "ll_key_type s = kt"
    using assms(1) by (auto simp: ll_rep_def ll_chain_def)
  then obtain P where P: "ll_heap s (ll_head s) = Some P" "seg (ll_heap s) (nd_next P) ns NULL"
    using seg_hd by blast
  show ?thesis
    using find_pred_loop_skip [OF P(2), of out key "ll_head s"] P(1) assms(2) hn(3)
    by (simp add: find_pred_def GET_NODE_def)
qed

lemma find_pred_help_spec:
  assumes rep: "ll_rep kt K rank s ns" and sp: "search kt key ns = (l, r)"
  shows "\<exists>s' hn. find_pred True key True s = ret ((found_in kt key r, ln_addr (last (hn # l)), link r), s') \<and>
    seg (ll_heap s') (ll_head s) ((hn # l) @ r) NULL \<and> \<not> ln_mark hn \<and> distinct (addrs ((hn # l) @ r)) \<and>
    ll_head s' = ll_head s \<and> ll_pool s' = ll_pool s \<and> ll_rep kt K rank s' (l @ r)"
proof -
  obtain hn where hn: "seg (ll_heap s) (ll_head s) (hn # ns) NULL" "\<not> ln_mark hn" "distinct (addrs (hn # ns))"
    "ll_key_type s = kt"
    using rep by (auto simp: ll_rep_def ll_chain_def)
  then obtain P where P: "ll_heap s (ll_head s) = Some P" "seg (ll_heap s) (nd_next P) ns NULL" "ll_head s = ln_addr hn"
    using seg_hd by blast
  obtain h D where h: "find_pred_loop True True key (ll_head s) (link ns) s =
      ret ((found_in kt key r, last (ll_head s # addrs l), link r), s\<lparr>ll_heap := h, ll_deferred := D\<rparr>)"
    "seg h (ll_head s) (hn # l @ r) NULL" "dom h = dom (ll_heap s)"
    using find_pred_loop_help [OF hn(1,2,3) refl, of key] sp hn(4) by auto
  have dist: "distinct (addrs ((hn # l) @ r))"
    using search_distinct [of ns kt key] search_addrs [of kt key ns] sp hn(3) by auto
  have eq: "find_pred True key True s =
      ret ((found_in kt key r, ln_addr (last (hn # l)), link r), s\<lparr>ll_heap := h, ll_deferred := D\<rparr>)"
    using h(1) P seg_link [OF P(2)] by (simp add: find_pred_def GET_NODE_def last_map)
  have "ll_rep kt K rank (s\<lparr>ll_heap := h, ll_deferred := D\<rparr>) (l @ r)"
    using rep h dist hn(2) live_search [of kt key ns] sp pool_ok_cong [OF h(3)]
    unfolding ll_rep_def ll_chain_def by (auto simp del: seg.simps simp flip: live_simps(3))
  then show ?thesis
    using eq h(2) hn(2) dist by (intro exI [of _ "s\<lparr>ll_heap := h, ll_deferred := D\<rparr>"] exI [of _ hn]) (simp del: seg.simps)
qed

lemma ll_lookup_spec:
  assumes ord: "key_order kt K rank" and rep: "ll_rep kt K rank s ns" and key: "key \<in> K"
  shows "ll_lookup s key = ret (found_val (lookup_in rank (live ns) key), s)"
proof -
  obtain l r where sp: "search kt key ns = (l, r)" by force
  have ok: "live_ok K rank (live ns)" using rep by (simp add: ll_rep_def)
  note look = lookup_search [OF ord key ok sp] and S = search_split [OF ord key ok sp]
  show ?thesis
  proof (cases "found_in kt key r")
    case False
    then show ?thesis
      using find_pred_skip_spec [OF rep sp, of True] look by (simp add: ll_lookup_def DOES_NOT_EXIST_def)
  next
    case True
    then obtain n r' where n: "r = n # r'" using S(4) by blast
    have "n \<in> set ns" using search_addrs [of kt key ns] sp n by auto
    moreover obtain hn where "seg (ll_heap s) (ll_head s) (hn # ns) NULL"
      using rep by (auto simp: ll_rep_def ll_chain_def)
    ultimately obtain nd where "ll_heap s (ln_addr n) = Some nd" "nd_val nd = ln_val n"
      using seg_member by (metis list.set_intros(2))
    then show ?thesis
      using find_pred_skip_spec [OF rep sp, of True] look True n
      by (simp add: ll_lookup_def DOES_NOT_EXIST_def)
  qed
qed

lemma ll_cas_update_spec:
  assumes "ll_heap s a = Some nd" and "nd_val nd \<noteq> 0"
  shows "ll_cas_update a e v (nd_val nd) s =
    (if e = CAS_EXPECT_DOES_NOT_EXIST then ret (Some (nd_val nd), s)
     else ret (Some (nd_val nd), ll_store a (nd\<lparr>nd_val := v\<rparr>) s))"
  using assms by (subst ll_cas_update.simps) (simp add: DOES_NOT_EXIST_def Let_def)

lemma ll_remove_mark_spec:
  assumes "ll_heap s a = Some nd" and "\<not> HAS_MARK (nd_next nd)"
  shows "ll_remove_mark a (nd_next nd) s =
    ret (Some (nd_next nd), ll_store a (nd\<lparr>nd_next := MARK_NODE (nd_next nd)\<rparr>) s)"
  using assms by (subst ll_remove_mark.simps) (simp add: Let_def)

lemma lookup_in_replace:
  assumes "\<forall>x \<in> set l. rank (ln_key x) \<noteq> rank (ln_key n)" and "rank (ln_key n) = rank key"
  shows "lookup_in rank (l @ n # r) k' =
    (if rank key = rank k' then Some (ln_val n) else lookup_in rank (l @ r) k')"
  using assms lookup_in_None [of rank l k'] by (auto simp: lookup_in_append lookup_in_Cons split: option.split)

text \<open>What \<^verbatim>\<open>ll_cas\<close> does, on every branch. The condition under which it writes does not look
  at a specific expected value.\<close>

definition ll_cas_writes :: "map_val_t \<Rightarrow> map_val_t option \<Rightarrow> bool" where
  "ll_cas_writes e r = (case r of
      None \<Rightarrow> e = CAS_EXPECT_DOES_NOT_EXIST \<or> e = CAS_EXPECT_WHATEVER
    | Some _ \<Rightarrow> e \<noteq> CAS_EXPECT_DOES_NOT_EXIST)"

lemma ll_cas_insert:
  assumes ord: "key_order kt K rank" and rep: "ll_rep kt K rank s ns" and key: "key \<in> K" and v: "0 < sint v"
    and sp: "search kt key ns = (l, r)" and nf: "\<not> found_in kt key r" and pool: "ll_pool s = a # pool"
    and e: "e = CAS_EXPECT_DOES_NOT_EXIST \<or> e = CAS_EXPECT_WHATEVER"
  shows "\<exists>s'. ll_cas s key e v = ret (0, s') \<and> ll_pool s' = pool \<and>
    ll_rep kt K rank s' (l @ \<lparr>ln_addr = a, ln_key = key_clone kt key, ln_val = v, ln_mark = False\<rparr> # r)"
proof -
  let ?n = "\<lparr>ln_addr = a, ln_key = key_clone kt key, ln_val = v, ln_mark = False\<rparr>"
  obtain s1 hn where s1: "find_pred True key True s = ret ((False, ln_addr (last (hn # l)), link r), s1)"
    "seg (ll_heap s1) (ll_head s) ((hn # l) @ r) NULL" "\<not> ln_mark hn" "distinct (addrs ((hn # l) @ r))"
    "ll_head s1 = ll_head s" "ll_pool s1 = ll_pool s" "ll_rep kt K rank s1 (l @ r)"
    using find_pred_help_spec [OF rep sp] nf by auto
  have ok: "live_ok K rank (live ns)" using rep by (simp add: ll_rep_def)
  note S = search_split [OF ord key ok sp]
  let ?x = "last (hn # l)" and ?xs = "butlast (hn # l)"
  have split: "?xs @ [?x] = hn # l" by (simp del: last.simps butlast.simps)
  have xl: "\<not> ln_mark ?x" using s1(3) search_fst_live [of _ kt key ns] sp by auto
  have "seg (ll_heap s1) (ll_head s) ((?xs @ [?x]) @ r) NULL" using s1(2) by (simp only: split)
  then obtain q where q: "seg (ll_heap s1) (ll_head s) (?xs @ [?x]) q" "seg (ll_heap s1) q r NULL"
    unfolding seg_append by blast
  obtain P where P: "ll_heap s1 (ln_addr ?x) = Some P" "nd_next P = link r"
    using seg_last [OF q(1) xl] seg_link [OF q(2)] by blast
  have a: "a \<noteq> NULL" "\<not> HAS_MARK a" "ll_heap s1 a = None" and po: "pool_ok (a # pool) (ll_heap s1)"
    and kt: "ll_key_type s1 = kt"
    using s1(6,7) pool by (auto simp: ll_rep_def pool_ok_def)
  have xa: "ln_addr ?x \<noteq> a" using P(1) a(3) by auto
  let ?h = "(ll_heap s1)(a \<mapsto> \<lparr>nd_key = key_clone kt key, nd_val = v, nd_next = link r\<rparr>,
    ln_addr ?x \<mapsto> P\<lparr>nd_next := a\<rparr>)"
  let ?s' = "s1\<lparr>ll_pool := pool, ll_heap := ?h\<rparr>"
  have segh: "seg ?h (ll_head s) ((hn # l) @ ?n # r) NULL"
    using seg_insert [of "ll_heap s1" "ll_head s" ?xs ?x r P a "key_clone kt key" v] s1(2,4) xl P(1) a
    unfolding split by blast
  have na: "a \<notin> set (addrs ((hn # l) @ r))"
    using seg_member [OF s1(2)] a(3) by fastforce
  have "ll_cas s key e v = ret (0, ?s')"
    unfolding ll_cas_def using v e s1(1) P xa a(2) kt s1(6) pool
    by (subst ll_cas_loop.simps) (auto simp: node_alloc_def DOES_NOT_EXIST_def ll_store_def Let_def ll_load_def
        fun_upd_twist cong: if_cong)
  moreover have "ll_chain ?s' (l @ ?n # r)"
    using segh s1(3,4,5) na unfolding ll_chain_def by (auto simp del: seg.simps)
  moreover have "live_ok K rank (live (l @ ?n # r))"
    using ok S key_orderD(5,6) [OF ord key key] v S(5) [OF nf] live_fst_search [of kt key ns] sp
    by (simp add: live_ok_append live_ok_Cons)
  moreover have "pool_ok pool ?h" using po P(1) by (auto simp: pool_ok_def)
  ultimately show ?thesis using kt by (intro exI [of _ ?s']) (simp add: ll_rep_def)
qed

lemma ll_cas_present:
  assumes ord: "key_order kt K rank" and rep: "ll_rep kt K rank s ns" and key: "key \<in> K" and v: "0 < sint v"
    and sp: "search kt key ns = (l, n # r)" and f: "found_in kt key (n # r)"
  shows "\<exists>s'. ll_cas s key e v = ret (ln_val n, s') \<and> ll_pool s' = ll_pool s \<and>
    ll_rep kt K rank s' (l @ (if e = CAS_EXPECT_DOES_NOT_EXIST then n else n\<lparr>ln_val := v\<rparr>) # r)"
proof -
  obtain s1 hn where s1: "find_pred True key True s = ret ((True, ln_addr (last (hn # l)), ln_addr n), s1)"
    "seg (ll_heap s1) (ll_head s) ((hn # l) @ n # r) NULL" "\<not> ln_mark hn" "distinct (addrs ((hn # l) @ n # r))"
    "ll_head s1 = ll_head s" "ll_pool s1 = ll_pool s" "ll_rep kt K rank s1 (l @ n # r)"
    using find_pred_help_spec [OF rep sp] f by auto
  obtain nd where nd: "ll_heap s1 (ln_addr n) = Some nd" "nd_val nd = ln_val n"
    using seg_member [OF s1(2), of n] by auto
  have ok: "live_ok K rank (live (l @ n # r))" using s1(7) by (simp add: ll_rep_def)
  have un: "\<not> ln_mark n"
    using search_split(4) [OF ord key _ sp] rep f by (auto simp: ll_rep_def)
  have nz: "ln_val n \<noteq> 0" using ok un by (auto simp: live_ok_append live_ok_Cons)
  let ?s' = "if e = CAS_EXPECT_DOES_NOT_EXIST then s1 else ll_store (ln_addr n) (nd\<lparr>nd_val := v\<rparr>) s1"
  have cas: "ll_cas s key e v = ret (ln_val n, ?s')"
    unfolding ll_cas_def using v s1(1) nd nz ll_cas_update_spec [OF nd(1), of e v]
    by (subst ll_cas_loop.simps) simp
  show ?thesis
  proof (cases "e = CAS_EXPECT_DOES_NOT_EXIST")
    case True
    then show ?thesis using cas s1(6,7) by auto
  next
    case False
    let ?n = "n\<lparr>ln_val := v\<rparr>"
    have "seg (ll_heap ?s') (ll_head s) ((hn # l) @ ?n # r) NULL"
      using seg_update_val [OF s1(2,4) nd(1), of v] False by (simp del: seg.simps)
    then have "ll_chain ?s' (l @ ?n # r)"
      using s1(3,4,5) False unfolding ll_chain_def
      by (auto simp: ll_store_def simp del: seg.simps intro!: exI [of _ hn])
    moreover have "live_ok K rank (live (l @ ?n # r))"
      using ok un v by (auto simp: live_ok_append live_ok_Cons)
    moreover have "pool_ok (ll_pool s1) (ll_heap ?s')"
      using s1(7) nd(1) False pool_ok_cong [of "ll_heap ?s'" "ll_heap s1"] by (auto simp: ll_rep_def)
    moreover have "ll_key_type ?s' = kt" "ll_pool ?s' = ll_pool s1"
      using s1(7) by (auto simp: ll_rep_def ll_store_def)
    ultimately have "ll_rep kt K rank ?s' (l @ ?n # r)" by (simp only: ll_rep_def)
    then show ?thesis
      using cas s1(6) False by (intro exI [of _ ?s']) (simp add: ll_store_def)
  qed
qed

lemma ll_cas_spec:
  assumes ord: "key_order kt K rank" and rep: "ll_rep kt K rank s ns" and key: "key \<in> K" and v: "0 < sint v"
    and pool: "ll_pool s \<noteq> []"
  shows "\<exists>s' ns'. ll_cas s key e v = ret (found_val (lookup_in rank (live ns) key), s') \<and> ll_rep kt K rank s' ns' \<and>
    length (ll_pool s) \<le> length (ll_pool s') + 1 \<and>
    (\<forall>k'. lookup_in rank (live ns') k' =
      (if ll_cas_writes e (lookup_in rank (live ns) key) \<and> rank key = rank k' then Some v
       else lookup_in rank (live ns) k'))"
proof -
  obtain l r where sp: "search kt key ns = (l, r)" by force
  have ok: "live_ok K rank (live ns)" using rep by (simp add: ll_rep_def)
  note look = lookup_search [OF ord key ok sp] and S = search_split [OF ord key ok sp]
  have ll: "live l = l" using live_fst_search [of kt key ns] sp by simp
  show ?thesis
  proof (cases "found_in kt key r")
    case True
    then obtain n r' where n: "r = n # r'" "\<not> ln_mark n" "rank (ln_key n) = rank key" using S(4) by blast
    have lt: "\<forall>x \<in> set l. rank (ln_key x) \<noteq> rank (ln_key n)" using S(2) n(3) by auto
    obtain s' where s': "ll_cas s key e v = ret (ln_val n, s')" "ll_pool s' = ll_pool s"
      "ll_rep kt K rank s' (l @ (if e = CAS_EXPECT_DOES_NOT_EXIST then n else n\<lparr>ln_val := v\<rparr>) # r')"
      using ll_cas_present [OF ord rep key v] sp True n(1) by metis
    then show ?thesis
      using look True n S(1) ll lookup_in_replace [OF lt n(3)]
        lookup_in_replace [of l rank "n\<lparr>ln_val := v\<rparr>" key "live r'"] lt
      by (intro exI [of _ s'] exI conjI) (auto simp: ll_cas_writes_def)
  next
    case nf: False
    show ?thesis
    proof (cases "e = CAS_EXPECT_DOES_NOT_EXIST \<or> e = CAS_EXPECT_WHATEVER")
      case True
      obtain a pool where p: "ll_pool s = a # pool" using pool by (cases "ll_pool s") auto
      let ?n = "\<lparr>ln_addr = a, ln_key = key_clone kt key, ln_val = v, ln_mark = False\<rparr>"
      obtain s' where s': "ll_cas s key e v = ret (0, s')" "ll_pool s' = pool" "ll_rep kt K rank s' (l @ ?n # r)"
        using ll_cas_insert [OF ord rep key v sp nf p True] by blast
      have rk: "rank (ln_key ?n) = rank key" using key_orderD(6) [OF ord key key] by simp
      have "lookup_in rank (live (l @ ?n # r)) k' = (if rank key = rank k' then Some v else lookup_in rank (live ns) k')" for k'
        using lookup_in_replace [of l rank ?n key "live r" k'] S(1,2) rk ll by fastforce
      then show ?thesis
        using s' look nf p True by (intro exI [of _ s'] exI [of _ "l @ ?n # r"]) (auto simp: ll_cas_writes_def)
    next
      case False
      obtain s1 hn where s1: "find_pred True key True s = ret ((False, ln_addr (last (hn # l)), link r), s1)"
        "ll_pool s1 = ll_pool s" "ll_rep kt K rank s1 (l @ r)"
        using find_pred_help_spec [OF rep sp] nf by auto
      have "ll_cas s key e v = ret (0, s1)"
        unfolding ll_cas_def using v s1(1) False by (subst ll_cas_loop.simps) (simp add: DOES_NOT_EXIST_def)
      then show ?thesis
        using s1 look nf False S(1) ll by (intro exI [of _ s1] exI [of _ "l @ r"]) (simp add: ll_cas_writes_def)
    qed
  qed
qed

lemma ll_remove_spec:
  assumes ord: "key_order kt K rank" and rep: "ll_rep kt K rank s ns" and key: "key \<in> K"
  shows "\<exists>s' ns'. ll_remove s key = ret (found_val (lookup_in rank (live ns) key), s') \<and> ll_rep kt K rank s' ns' \<and>
    ll_pool s' = ll_pool s \<and>
    (\<forall>k'. lookup_in rank (live ns') k' = (if rank key = rank k' then None else lookup_in rank (live ns) k'))"
proof -
  obtain l r where sp: "search kt key ns = (l, r)" by force
  have ok: "live_ok K rank (live ns)" using rep by (simp add: ll_rep_def)
  note look = lookup_search [OF ord key ok sp] and S = search_split [OF ord key ok sp]
  have ll: "live l = l" using live_fst_search [of kt key ns] sp by simp
  obtain s1 hn where s1: "find_pred True key True s = ret ((found_in kt key r, ln_addr (last (hn # l)), link r), s1)"
    "seg (ll_heap s1) (ll_head s) ((hn # l) @ r) NULL" "\<not> ln_mark hn" "distinct (addrs ((hn # l) @ r))"
    "ll_head s1 = ll_head s" "ll_pool s1 = ll_pool s" "ll_rep kt K rank s1 (l @ r)"
    using find_pred_help_spec [OF rep sp] by blast
  show ?thesis
  proof (cases "found_in kt key r")
    case False
    have "ll_remove s key = ret (0, s1)" using s1(1) False by (simp add: ll_remove_def DOES_NOT_EXIST_def)
    moreover have "lookup_in rank (live ns) k' = None" if "rank key = rank k'" for k'
      using S(1,2) S(5) [OF False] that by (auto simp: lookup_in_None)
    ultimately show ?thesis
      using s1(6,7) look False S(1) ll by (intro exI [of _ s1] exI [of _ "l @ r"]) auto
  next
    case True
    then obtain n r' where n: "r = n # r'" "\<not> ln_mark n" "rank (ln_key n) = rank key" using S(4) by blast
    let ?x = "last (hn # l)" and ?xs = "butlast (hn # l)"
    have split: "?xs @ [?x] = hn # l" by (simp del: last.simps butlast.simps)
    have xl: "\<not> ln_mark ?x" using s1(3) search_fst_live [of _ kt key ns] sp by auto
    have seg1: "seg (ll_heap s1) (ll_head s) ((?xs @ [?x]) @ n # r') NULL" using s1(2) n(1) by (simp only: split)
    then obtain q where q: "seg (ll_heap s1) (ll_head s) (?xs @ [?x]) q" "seg (ll_heap s1) q (n # r') NULL"
      unfolding seg_append by blast
    obtain P where P: "ll_heap s1 (ln_addr ?x) = Some P" "nd_next P = ln_addr n"
      using seg_last [OF q(1) xl] q(2) by auto
    obtain nd where nd: "ll_heap s1 (ln_addr n) = Some nd" "nd_val nd = ln_val n" "\<not> HAS_MARK (nd_next nd)"
      "nd_next nd = link r'"
      using seg_hd [OF q(2) n(2)] seg_link by metis
    have dist: "distinct (addrs ((?xs @ [?x]) @ n # r'))" using s1(4) n(1) by (simp only: split)
    have xn: "ln_addr ?x \<noteq> ln_addr n" using dist by auto
    let ?nd = "nd\<lparr>nd_next := MARK_NODE (nd_next nd), nd_val := 0\<rparr>"
    define h where "h = (ll_heap s1)(ln_addr n \<mapsto> ?nd, ln_addr ?x \<mapsto> P\<lparr>nd_next := link r'\<rparr>)"
    let ?s' = "ll_defer_node (ln_addr n) (nd_key nd) (s1\<lparr>ll_heap := h\<rparr>)"
    have rm: "ll_remove s key = ret (ln_val n, ?s')"
      using s1(1) True n(1) nd P xn ll_remove_mark_spec [OF nd(1,3)]
      by (simp add: ll_remove_def Let_def DOES_NOT_EXIST_def SYNC_SWAP_def ll_store_def ll_load_def h_def fun_upd_twist)
    have "seg h (ll_head s) ((hn # l) @ r') NULL"
      using seg_unlink [OF seg1 xl n(2) dist P(1) h_def] by (simp only: split)
    moreover have heap: "ll_heap ?s' = h" "ll_head ?s' = ll_head s" "ll_pool ?s' = ll_pool s1" "ll_key_type ?s' = ll_key_type s1"
      using s1(5) by (simp_all add: ll_defer_node_def ll_defer_def)
    moreover have "distinct (addrs ((hn # l) @ r'))" using s1(4) n(1) by simp
    ultimately have "ll_chain ?s' (l @ r')"
      using s1(3) unfolding ll_chain_def heap by (intro exI [of _ hn]) (simp del: seg.simps)
    moreover have "live_ok K rank (live (l @ r'))"
      using s1(7) n by (simp add: ll_rep_def live_ok_append live_ok_Cons)
    moreover have "pool_ok (ll_pool s1) h"
      using s1(7) P(1) nd(1) by (auto simp: ll_rep_def pool_ok_def h_def)
    ultimately have rep': "ll_rep kt K rank ?s' (l @ r')"
      using s1(7) unfolding ll_rep_def heap by simp
    have "lookup_in rank (live (l @ r')) k' = (if rank key = rank k' then None else lookup_in rank (live ns) k')" for k'
    proof -
      have "\<forall>x \<in> set l. rank (ln_key x) \<noteq> rank (ln_key n)" using S(2) n(3) by auto
      moreover have "live_ok K rank (l @ live r)" using ok S(1) by simp
      then have "\<forall>y \<in> set (live r'). rank (ln_key y) \<noteq> rank (ln_key n)"
        using n by (fastforce simp: live_ok_append live_ok_Cons)
      ultimately show ?thesis
        using lookup_in_replace [of l rank n key "live r'" k'] n S(1) ll lookup_in_None [of rank "l @ live r'" k']
        by auto
    qed
    then show ?thesis
      using rm rep' heap(3) s1(6) look True n(1) by (intro exI [of _ ?s'] exI [of _ "l @ r'"]) auto
  qed
qed

section \<open>Allocation, counting, freeing, iteration\<close>

lemma ll_alloc_spec:
  assumes "pool_ok (a # pool) (\<lambda>_. None)"
  shows "\<exists>s. ll_alloc kt (a # pool) = ret s \<and> ll_rep kt K rank s [] \<and> ll_pool s = pool"
  using assms
  by (auto simp: ll_alloc_def node_alloc_def pool_ok_def ll_rep_def ll_chain_def ll_store_def live_ok_def
      DOES_NOT_EXIST_def intro!: exI [of _ "\<lparr>ln_addr = a, ln_key = 0, ln_val = 0, ln_mark = False\<rparr>"])

lemma ll_count_loop_spec:
  "seg (ll_heap s) p ns NULL \<Longrightarrow> ll_count_loop p c s = ret (c + of_nat (length (live ns)))"
proof (induction ns arbitrary: p c)
  case Nil
  then show ?case by (subst ll_count_loop.simps) simp
next
  case (Cons n ns)
  then obtain nd where nd: "ll_heap s p = Some nd" "p \<noteq> NULL" "HAS_MARK (nd_next nd) = ln_mark n"
    "seg (ll_heap s) (STRIP_MARK (nd_next nd)) ns NULL" by auto
  then show ?case using Cons.IH [OF nd(4)] by (subst ll_count_loop.simps) simp
qed

lemma ll_chain_head:
  assumes "ll_chain s ns"
  obtains P where "ll_heap s (ll_head s) = Some P" "\<not> HAS_MARK (nd_next P)" "seg (ll_heap s) (nd_next P) ns NULL"
    "ll_head s \<notin> set (addrs ns)" "distinct (addrs ns)" "ll_head s \<noteq> NULL"
proof -
  obtain hn where hn: "seg (ll_heap s) (ll_head s) (hn # ns) NULL" "\<not> ln_mark hn" "distinct (addrs (hn # ns))"
    using assms by (auto simp: ll_chain_def)
  from seg_hd [OF hn(1,2)] hn(3) show ?thesis using that by auto
qed

lemma ll_count_spec: "ll_chain s ns \<Longrightarrow> ll_count s = ret (of_nat (length (live ns)))"
  by (erule ll_chain_head) (simp add: ll_count_def ll_count_loop_spec)

text \<open>The calls of \<^verbatim>\<open>nbd_free\<close> for one node: its key, if keys are pointers, then the node.\<close>

definition frees_of :: "datatype_t option \<Rightarrow> lnode \<Rightarrow> addr list" where
  "frees_of kt n = (if kt = None then [] else [ln_key n]) @ [ln_addr n]"

lemma ll_free_loop_spec:
  assumes "seg (ll_heap s) p ns NULL" and "distinct (addrs ns)"
  shows "ll_free_loop p s = ret (s\<lparr>ll_heap := (\<lambda>a. if a \<in> set (addrs ns) then None else ll_heap s a),
    ll_freed := ll_freed s @ concat (map (frees_of (ll_key_type s)) ns)\<rparr>)"
  using assms
proof (induction ns arbitrary: p s)
  case Nil
  then show ?case by (subst ll_free_loop.simps) simp
next
  case (Cons n ns)
  then obtain nd where nd: "ll_heap s p = Some nd" "p \<noteq> NULL" "p = ln_addr n" "nd_key nd = ln_key n"
    "seg (ll_heap s) (STRIP_MARK (nd_next nd)) ns NULL" by auto
  let ?s1 = "ll_nbd_free p (ll_free_key (nd_key nd) s)"
  have s1: "?s1 = s\<lparr>ll_heap := (ll_heap s)(p := None), ll_freed := ll_freed s @ frees_of (ll_key_type s) n\<rparr>"
    using nd(3,4) by (simp add: ll_nbd_free_def ll_free_key_def frees_of_def)
  have "seg (ll_heap ?s1) (STRIP_MARK (nd_next nd)) ns NULL"
    unfolding s1 using nd(3,5) Cons.prems(2) by (simp add: seg_store)
  moreover have "distinct (addrs ns)" using Cons.prems(2) by simp
  ultimately have IH: "ll_free_loop (STRIP_MARK (nd_next nd)) ?s1 =
      ret (?s1\<lparr>ll_heap := (\<lambda>a. if a \<in> set (addrs ns) then None else ll_heap ?s1 a),
        ll_freed := ll_freed ?s1 @ concat (map (frees_of (ll_key_type ?s1)) ns)\<rparr>)"
    by (rule Cons.IH)
  have "ll_free_loop p s = ll_free_loop (STRIP_MARK (nd_next nd)) ?s1"
    using nd(1,2) by (subst ll_free_loop.simps) simp
  moreover have "(\<lambda>a. if a \<in> set (addrs ns) then None else ll_heap ?s1 a) =
      (\<lambda>a. if a \<in> set (addrs (n # ns)) then None else ll_heap s a)"
    unfolding s1 using nd(3) by auto
  ultimately show ?case using IH by (simp only:) (simp add: s1)
qed

lemma ll_free_spec:
  assumes "ll_chain s ns"
  shows "ll_free s = ret (s\<lparr>ll_heap := (\<lambda>a. if a \<in> set (addrs ns) then None else ll_heap s a),
    ll_freed := ll_freed s @ concat (map (frees_of (ll_key_type s)) ns)\<rparr>)"
  using assms by (rule ll_chain_head) (simp add: ll_free_def ll_free_loop_spec)

text \<open>A client that runs an iterator to its end.\<close>

partial_function (option) ll_iter_all :: "addr \<Rightarrow> list_t \<Rightarrow> (map_key_t \<times> map_val_t) list prog" where
  "ll_iter_all iter s =
     pbind (ll_iter_next iter s) (\<lambda>(val, k, iter).
     case k of
       None \<Rightarrow> ret []
     | Some key \<Rightarrow>
         if val = DOES_NOT_EXIST then ret []
         else pbind (ll_iter_all iter s) (\<lambda>rest. ret ((key, val) # rest)))"

lemma ll_iter_all_spec:
  assumes "ll_heap s p = Some P" and "p \<noteq> NULL" and "\<not> HAS_MARK (nd_next P)" and "seg (ll_heap s) (nd_next P) ns NULL"
    and "live ns = ns" and "\<forall>n \<in> set ns. ln_val n \<noteq> 0"
  shows "ll_iter_all p s = ret (map (\<lambda>n. (ln_key n, ln_val n)) ns)"
  using assms
proof (induction ns arbitrary: p P)
  case Nil
  then have "ll_iter_advance p s = ret (NULL, 0)" by (subst ll_iter_advance.simps) (simp add: Let_def)
  then show ?case
    using Nil by (subst ll_iter_all.simps) (simp add: ll_iter_next_def)
next
  case (Cons n ns)
  then have un: "\<not> ln_mark n" "live ns = ns"
    by (auto simp: live_def split: if_splits dest: filter_eq_ConsD)
  obtain nd where nd: "ll_heap s (ln_addr n) = Some nd" "nd_next P = ln_addr n" "ln_addr n \<noteq> NULL" "nd_key nd = ln_key n"
    "nd_val nd = ln_val n" "\<not> HAS_MARK (nd_next nd)" "seg (ll_heap s) (nd_next nd) ns NULL"
    using seg_hd [OF Cons.prems(4) un(1)] by auto
  have "ll_iter_advance p s = ret (ln_addr n, ln_addr n)"
    using Cons.prems(1,3) nd by (subst ll_iter_advance.simps) (simp add: Let_def)
  then have "ll_iter_next p s = ret (ln_val n, Some (ln_key n), ln_addr n)"
    using Cons.prems(2) nd by (simp add: ll_iter_next_def GET_NODE_def)
  then show ?case
    using Cons.IH [OF nd(1,3,6,7)] un(2) Cons.prems(6)
    by (subst ll_iter_all.simps) (simp add: DOES_NOT_EXIST_def)
qed

section \<open>The list keeps the contract of a map\<close>

definition ll_impl :: "list_t map_impl" where
  "ll_impl = \<lparr>impl_cas = ll_cas, impl_get = ll_lookup, impl_remove = ll_remove, impl_count = ll_count\<rparr>"

lemma ll_abs_eq: "ll_rep kt K rank s ns \<Longrightarrow> ll_abs rank s k = lookup_in rank (live ns) k"
  using ll_nodes_eq by (auto simp: ll_rep_def ll_abs_def)

sublocale ordered_keys \<subseteq> ll: map_contract ll_impl "ll_inv kt K rank" "ll_abs rank" "\<lambda>s. length (ll_pool s)" K
  positive_vals UNIV "\<lambda>a b. rank a = rank b"
proof unfold_locales
  fix s k assume s: "ll_inv kt K rank s" and k: "k \<in> K"
  then obtain ns where rep: "ll_rep kt K rank s ns" by (auto simp: ll_inv_def)
  show "\<exists>s'. impl_get ll_impl s k = ret (found_val (ll_abs rank s k), s') \<and> ll_inv kt K rank s' \<and>
      (\<forall>k' \<in> K. ll_abs rank s' k' = ll_abs rank s k') \<and> length (ll_pool s) \<le> length (ll_pool s')"
    using ll_lookup_spec [OF ord rep k] s by (simp add: ll_impl_def ll_abs_eq [OF rep])
  obtain s' ns' where s': "ll_remove s k = ret (found_val (lookup_in rank (live ns) k), s')" "ll_rep kt K rank s' ns'"
    "ll_pool s' = ll_pool s"
    "\<forall>k'. lookup_in rank (live ns') k' = (if rank k = rank k' then None else lookup_in rank (live ns) k')"
    using ll_remove_spec [OF ord rep k] by blast
  then show "\<exists>s'. impl_remove ll_impl s k = ret (found_val (ll_abs rank s k), s') \<and> ll_inv kt K rank s' \<and>
      length (ll_pool s) \<le> length (ll_pool s') + 1 \<and>
      (\<forall>k' \<in> K. ll_abs rank s' k' = bind_key (\<lambda>a b. rank a = rank b) k None (ll_abs rank s) k')"
    by (auto simp: ll_impl_def ll_inv_def bind_key_def ll_abs_eq [OF rep] ll_abs_eq [OF s'(2)] intro!: exI [of _ s'])
next
  fix s k v e assume s: "ll_inv kt K rank s" and k: "k \<in> K" and v: "v \<in> positive_vals" and room: "0 < length (ll_pool s)"
    and sp: "cas_specified e (ll_abs rank s k)"
  obtain ns where rep: "ll_rep kt K rank s ns" using s by (auto simp: ll_inv_def)
  obtain s' ns' where s': "ll_cas s k e v = ret (found_val (lookup_in rank (live ns) k), s')" "ll_rep kt K rank s' ns'"
    "length (ll_pool s) \<le> length (ll_pool s') + 1"
    "\<forall>k'. lookup_in rank (live ns') k' = (if ll_cas_writes e (lookup_in rank (live ns) k) \<and> rank k = rank k' then Some v
       else lookup_in rank (live ns) k')"
    using ll_cas_spec [OF ord rep k, of v e] v room by (auto simp: positive_vals_def)
  have "cas_applies e (lookup_in rank (live ns) k) = ll_cas_writes e (lookup_in rank (live ns) k)"
    using sp by (auto simp: ll_abs_eq [OF rep] cas_specified_def cas_applies_def ll_cas_writes_def cas_expect_defs
        split: option.splits)
  then show "\<exists>s'. impl_cas ll_impl s k e v = ret (found_val (ll_abs rank s k), s') \<and> ll_inv kt K rank s' \<and>
      length (ll_pool s) \<le> length (ll_pool s') + 1 \<and>
      (\<forall>k' \<in> K. ll_abs rank s' k' = (if cas_applies e (ll_abs rank s k)
        then bind_key (\<lambda>a b. rank a = rank b) k (Some v) (ll_abs rank s) k' else ll_abs rank s k'))"
    using s' by (auto simp: ll_impl_def ll_inv_def bind_key_def ll_abs_eq [OF rep] ll_abs_eq [OF s'(2)] intro!: exI [of _ s'])
qed (auto simp: positive_vals_def)

interpretation int_keys: ordered_keys None small_keys uint
  by unfold_locales (rule small_keys_order)

section \<open>Properties\<close>

text \<open>C4: the list implements a map. On any list that satisfies the invariant, marked nodes
  included, and for keys on which the comparison is an order: \<^verbatim>\<open>ll_lookup\<close> returns the
  binding of the key and changes nothing; \<^verbatim>\<open>ll_cas\<close> returns the old binding and, exactly
  when the key is absent and the expectation is \<^verbatim>\<open>DOES_NOT_EXIST\<close> or
  \<^verbatim>\<open>WHATEVER\<close>, or present and the expectation is not \<^verbatim>\<open>DOES_NOT_EXIST\<close>, binds the
  key to the new value and no other key; \<^verbatim>\<open>ll_remove\<close> returns the old binding and removes
  it and no other. Every call returns, and the invariant holds after it.\<close>

theorem ll_refines_map:
  assumes "key_order kt K rank" and "ll_inv kt K rank s" and "key \<in> K" and "0 < sint v" and "ll_pool s \<noteq> []"
  shows "ll_lookup s key = ret (found_val (ll_abs rank s key), s)
    \<and> (\<exists>s'. ll_cas s key e v = ret (found_val (ll_abs rank s key), s') \<and> ll_inv kt K rank s' \<and>
        ll_abs rank s' = (if ll_cas_writes e (ll_abs rank s key)
          then bind_key (\<lambda>a b. rank a = rank b) key (Some v) (ll_abs rank s) else ll_abs rank s))
    \<and> (\<exists>s'. ll_remove s key = ret (found_val (ll_abs rank s key), s') \<and> ll_inv kt K rank s' \<and>
        ll_abs rank s' = bind_key (\<lambda>a b. rank a = rank b) key None (ll_abs rank s))"
proof -
  obtain ns where rep: "ll_rep kt K rank s ns" using assms(2) by (auto simp: ll_inv_def)
  note ab = ll_abs_eq [OF rep]
  obtain s1 ns1 where s1: "ll_cas s key e v = ret (found_val (lookup_in rank (live ns) key), s1)" "ll_rep kt K rank s1 ns1"
    "\<forall>k'. lookup_in rank (live ns1) k' = (if ll_cas_writes e (lookup_in rank (live ns) key) \<and> rank key = rank k'
       then Some v else lookup_in rank (live ns) k')"
    using ll_cas_spec [OF assms(1) rep assms(3,4,5)] by blast
  obtain s2 ns2 where s2: "ll_remove s key = ret (found_val (lookup_in rank (live ns) key), s2)" "ll_rep kt K rank s2 ns2"
    "\<forall>k'. lookup_in rank (live ns2) k' = (if rank key = rank k' then None else lookup_in rank (live ns) k')"
    using ll_remove_spec [OF assms(1) rep assms(3)] by blast
  have "ll_abs rank s1 = (if ll_cas_writes e (ll_abs rank s key)
          then bind_key (\<lambda>a b. rank a = rank b) key (Some v) (ll_abs rank s) else ll_abs rank s)"
    using s1(3) by (auto simp: fun_eq_iff bind_key_def ab ll_abs_eq [OF s1(2)])
  moreover have "ll_abs rank s2 = bind_key (\<lambda>a b. rank a = rank b) key None (ll_abs rank s)"
    using s2(3) by (auto simp: fun_eq_iff bind_key_def ab ll_abs_eq [OF s2(2)])
  ultimately show ?thesis
    using ll_lookup_spec [OF assms(1) rep assms(3)] s1(1,2) s2(1,2) by (auto simp: ab ll_inv_def)
qed

text \<open>A list with integer keys below \<open>2 ^ 31\<close>, used through the generic interface:
  \<^verbatim>\<open>map_set\<close> followed by \<^verbatim>\<open>map_get\<close> gives the new value, \<^verbatim>\<open>map_add\<close> binds an absent
  key only, \<^verbatim>\<open>map_replace\<close> a present key only, and \<^verbatim>\<open>map_remove\<close> followed by
  \<^verbatim>\<open>map_get\<close> gives \<^verbatim>\<open>DOES_NOT_EXIST\<close>; other keys keep their bindings.\<close>

lemma ll_generic_map:
  assumes "ll_inv None small_keys uint s" and "k \<in> small_keys" and "0 < sint v" and "ll_pool s \<noteq> []"
  shows "(\<exists>s1 s2. map_set ll_impl s k v = ret (found_val (ll_abs uint s k), s1) \<and> map_get ll_impl s1 k = ret (v, s2) \<and>
        (\<forall>k' \<in> small_keys. ll_abs uint s2 k' = (if k' = k then Some v else ll_abs uint s k')))
    \<and> (\<exists>s1. map_add ll_impl s k v = ret (found_val (ll_abs uint s k), s1) \<and>
        (\<forall>k' \<in> small_keys. ll_abs uint s1 k' = (if k' = k \<and> ll_abs uint s k = None then Some v else ll_abs uint s k')))
    \<and> (\<exists>s1. map_replace ll_impl s k v = ret (found_val (ll_abs uint s k), s1) \<and>
        (\<forall>k' \<in> small_keys. ll_abs uint s1 k' = (if k' = k \<and> ll_abs uint s k \<noteq> None then Some v else ll_abs uint s k')))
    \<and> (\<exists>s1 s2. map_remove ll_impl s k = ret (found_val (ll_abs uint s k), s1) \<and> map_get ll_impl s1 k = ret (0, s2) \<and>
        (\<forall>k' \<in> small_keys. ll_abs uint s2 k' = (if k' = k then None else ll_abs uint s k')))"
proof -
  have v: "v \<in> positive_vals" and room: "0 < length (ll_pool s)" using assms(3,4) by (simp_all add: positive_vals_def)
  have same: "uint a = uint b \<longleftrightarrow> b = a" for a b :: map_key_t by (auto simp: word_uint_eq_iff)
  show ?thesis
  proof (intro conjI)
    show "\<exists>s1 s2. map_set ll_impl s k v = ret (found_val (ll_abs uint s k), s1) \<and> map_get ll_impl s1 k = ret (v, s2) \<and>
        (\<forall>k' \<in> small_keys. ll_abs uint s2 k' = (if k' = k then Some v else ll_abs uint s k'))"
      using int_keys.ll.set_then_get [OF assms(1,2) v room] by (fastforce simp: bind_key_def same)
    show "\<exists>s1. map_add ll_impl s k v = ret (found_val (ll_abs uint s k), s1) \<and>
        (\<forall>k' \<in> small_keys. ll_abs uint s1 k' = (if k' = k \<and> ll_abs uint s k = None then Some v else ll_abs uint s k'))"
      using int_keys.ll.add_law [OF assms(1,2) v room] by (fastforce simp: bind_key_def same)
    show "\<exists>s1. map_replace ll_impl s k v = ret (found_val (ll_abs uint s k), s1) \<and>
        (\<forall>k' \<in> small_keys. ll_abs uint s1 k' = (if k' = k \<and> ll_abs uint s k \<noteq> None then Some v else ll_abs uint s k'))"
      using int_keys.ll.replace_law [OF assms(1,2) v room] by (fastforce simp: bind_key_def same)
    show "\<exists>s1 s2. map_remove ll_impl s k = ret (found_val (ll_abs uint s k), s1) \<and> map_get ll_impl s1 k = ret (0, s2) \<and>
        (\<forall>k' \<in> small_keys. ll_abs uint s2 k' = (if k' = k then None else ll_abs uint s k'))"
      using int_keys.ll.remove_then_get [OF assms(1,2) room] by (fastforce simp: bind_key_def same)
  qed
qed

text \<open>\<^verbatim>\<open>ll_cas\<close> does not compare a specific expected value. If the key is bound to
  \<open>old\<close> and the caller expects another value, the call still overwrites the binding, and returns
  \<open>old\<close>, from which the caller concludes that nothing was changed.\<close>

lemma ll_cas_ignores_expected_value:
  assumes "key_order kt K rank" and "ll_inv kt K rank s" and "key \<in> K" and "0 < sint v" and "ll_pool s \<noteq> []"
    and "ll_abs rank s key = Some old" and "e \<noteq> old" and "e \<noteq> CAS_EXPECT_DOES_NOT_EXIST"
  shows "\<exists>s'. ll_cas s key e v = ret (old, s') \<and> ll_lookup s' key = ret (v, s')"
proof -
  obtain ns where rep: "ll_rep kt K rank s ns" using assms(2) by (auto simp: ll_inv_def)
  obtain s1 ns1 where s1: "ll_cas s key e v = ret (old, s1)" "ll_rep kt K rank s1 ns1"
    "lookup_in rank (live ns1) key = Some v"
    using ll_cas_spec [OF assms(1) rep assms(3,4,5), of e] assms(6,8)
    by (auto simp: ll_abs_eq [OF rep] ll_cas_writes_def)
  then show ?thesis using ll_lookup_spec [OF assms(1) s1(2) assms(3)] by auto
qed

text \<open>\<^verbatim>\<open>ll_count\<close> counts the nodes that are not marked, and on a list without marked
  nodes an iterator from the start visits every item once, in the order of the keys.\<close>

lemma ll_count_and_iterate:
  assumes "ll_rep kt K rank s ns" and "live ns = ns"
  shows "ll_count s = ret (of_nat (length ns))
    \<and> pbind (ll_iter_begin s DOES_NOT_EXIST) (\<lambda>it. ll_iter_all it s) = ret (map (\<lambda>n. (ln_key n, ln_val n)) ns)
    \<and> sorted_wrt (<) (map (\<lambda>n. rank (ln_key n)) ns)"
proof -
  have ch: "ll_chain s ns" and ok: "live_ok K rank ns" using assms by (simp_all add: ll_rep_def)
  have nz: "\<forall>n \<in> set ns. ln_val n \<noteq> 0" using ok by (auto simp: live_ok_def)
  show ?thesis
    using ch ll_count_spec [OF ch] assms(2) ok
    by (auto elim!: ll_chain_head simp: ll_iter_begin_def ll_iter_all_spec nz live_ok_def)
qed

text \<open>\<^verbatim>\<open>ll_iter_begin\<close> with a key greater than every key of the list dereferences NULL:
  it passes no item pointer to \<^verbatim>\<open>find_pred\<close>, which stores the end of the list through it
  without a test.\<close>

lemma ll_iter_begin_past_end:
  assumes "key_order kt K rank" and "ll_rep kt K rank s ns" and "key \<in> K" and "key \<noteq> 0"
    and "\<forall>n \<in> set (live ns). rank (ln_key n) < rank key"
  shows "ll_iter_begin s key = fail Null_Deref"
proof -
  obtain l r where sp: "search kt key ns = (l, r)" by force
  have ok: "live_ok K rank (live ns)" using assms(2) by (simp add: ll_rep_def)
  have "r = []"
  proof (rule ccontr)
    assume "r \<noteq> []"
    then obtain n r' where n: "r = n # r'" by (cases r) auto
    then have "\<not> ln_mark n" using search_snd_hd [of kt key ns n r'] sp by simp
    then have "n \<in> set (live ns)" "rank key \<le> rank (ln_key n)"
      using search_split(1,3) [OF assms(1,3) ok sp] n by auto
    then show False using assms(5) by force
  qed
  then show ?thesis
    using find_pred_skip_spec [OF assms(2) sp, of False] assms(4) by (simp add: ll_iter_begin_def DOES_NOT_EXIST_def)
qed

text \<open>\<^verbatim>\<open>ll_free\<close> passes every node of the list to \<^verbatim>\<open>nbd_free\<close>, in order and preceded by
  its key when keys are pointers, and leaves the head node allocated.\<close>

lemma ll_free_leaks_head:
  assumes "ll_rep kt K rank s ns"
  shows "\<exists>s'. ll_free s = ret s' \<and> ll_freed s' = ll_freed s @ concat (map (frees_of kt) ns) \<and>
    (\<forall>a \<in> set (addrs ns). ll_heap s' a = None) \<and> ll_heap s' (ll_head s) = ll_heap s (ll_head s) \<and>
    ll_heap s (ll_head s) \<noteq> None"
proof -
  have ch: "ll_chain s ns" and kt: "ll_key_type s = kt" using assms by (simp_all add: ll_rep_def)
  obtain P where "ll_heap s (ll_head s) = Some P" "ll_head s \<notin> set (addrs ns)" using ch by (rule ll_chain_head) auto
  then show ?thesis using ll_free_spec [OF ch] kt by auto
qed

text \<open>A list with the integer keys 1 and 2, used by the witnesses below.\<close>

definition ll_sample :: list_t where
  "ll_sample = \<lparr>ll_head = 16, ll_key_type = None,
     ll_heap = [16 \<mapsto> \<lparr>nd_key = 0, nd_val = 0, nd_next = 32\<rparr>, 32 \<mapsto> \<lparr>nd_key = 1, nd_val = 5, nd_next = 48\<rparr>,
                48 \<mapsto> \<lparr>nd_key = 2, nd_val = 6, nd_next = 0\<rparr>],
     ll_pool = [64], ll_deferred = [], ll_freed = []\<rparr>"

abbreviation ll_sample_nodes :: "lnode list" where
  "ll_sample_nodes \<equiv> [\<lparr>ln_addr = 32, ln_key = 1, ln_val = 5, ln_mark = False\<rparr>,
     \<lparr>ln_addr = 48, ln_key = 2, ln_val = 6, ln_mark = False\<rparr>]"

lemma ll_sample_rep: "ll_rep None small_keys uint ll_sample ll_sample_nodes"
  by (auto simp: ll_rep_def ll_chain_def ll_sample_def live_ok_def pool_ok_def small_keys_def HAS_MARK_def IS_TAGGED_def
      STRIP_MARK_def STRIP_TAG_def
      intro!: exI [of _ "\<lparr>ln_addr = 16, ln_key = 0, ln_val = 0, ln_mark = False\<rparr>"])

lemma ll_sample_inv: "ll_inv None small_keys uint ll_sample"
  using ll_sample_rep by (auto simp: ll_inv_def)

lemma ll_sample_abs: "ll_abs uint ll_sample 1 = Some 5" "ll_abs uint ll_sample 2 = Some 6"
  by (simp_all add: ll_abs_eq [OF ll_sample_rep] lookup_in_def)

text \<open>Two keys whose difference is a multiple of \<open>2 ^ 32\<close> are one key to the list: the lookup of
  \<open>2 ^ 32 + 1\<close> finds the item with key 1.\<close>

lemma ll_keys_alias: "ll_lookup ll_sample 0x100000001 = ret (5, ll_sample)"
proof -
  let ?K = "{1, 2, 0x100000001} :: map_key_t set" and ?rank = "\<lambda>k :: map_key_t. uint (ucast k :: 32 word)"
  have ord: "key_order None ?K ?rank"
    unfolding key_order_def key_diff_def key_clone_def as_int_def option.case sint_low_half_diff
    by (simp add: signed_take_bit_eq_take_bit_minus take_bit_eq_mod bit_iff_odd)
  have "ll_rep None ?K ?rank ll_sample ll_sample_nodes"
    using ll_sample_rep by (simp add: ll_rep_def live_ok_def)
  from ll_lookup_spec [OF ord this, of "0x100000001"] show ?thesis
    by (simp add: lookup_in_def)
qed

text \<open>\<^verbatim>\<open>ll_iter_next\<close> tests the mark on the link of the previous node, not on the node it
  returns: it delivers a node that has been removed and not unlinked yet, whose value is
  \<^verbatim>\<open>DOES_NOT_EXIST\<close>, so that the client stops before the live items behind it.\<close>

definition ll_marked_sample :: list_t where
  "ll_marked_sample = ll_sample\<lparr>ll_heap := [16 \<mapsto> \<lparr>nd_key = 0, nd_val = 0, nd_next = 32\<rparr>,
     32 \<mapsto> \<lparr>nd_key = 1, nd_val = 0, nd_next = 49\<rparr>, 48 \<mapsto> \<lparr>nd_key = 2, nd_val = 6, nd_next = 0\<rparr>]\<rparr>"

lemma ll_iter_returns_removed:
  "ll_iter_next (ll_head ll_marked_sample) ll_marked_sample = ret (0, Some 1, 32)"
  "ll_iter_all (ll_head ll_marked_sample) ll_marked_sample = ret []"
proof -
  have "ll_iter_advance 16 ll_marked_sample = ret (32, 32)"
    by (subst ll_iter_advance.simps)
      (simp add: ll_load_def ll_marked_sample_def Let_def HAS_MARK_def IS_TAGGED_def STRIP_MARK_def STRIP_TAG_def)
  then show nx: "ll_iter_next (ll_head ll_marked_sample) ll_marked_sample = ret (0, Some 1, 32)"
    by (simp add: ll_iter_next_def ll_marked_sample_def ll_sample_def GET_NODE_def ll_load_def)
  show "ll_iter_all (ll_head ll_marked_sample) ll_marked_sample = ret []"
    by (subst ll_iter_all.simps) (simp add: nx DOES_NOT_EXIST_def)
qed

theorem ll_refines_map_witness: "ll_lookup ll_sample 1 = ret (5, ll_sample)"
  using ll_refines_map [OF small_keys_order ll_sample_inv, of 1 7 0] ll_sample_abs
  by (simp add: small_keys_def ll_sample_def)

end
