(* ===== verification/Kiss_Random.thy ===== *)
theory Kiss_Random
  imports Murmur
begin

text \<open>
  Model of \<^verbatim>\<open>src/src/runtime/random.c\<close>: the per-thread KISS generator. The four
  thread-local words \<^verbatim>\<open>rx_\<close>, \<^verbatim>\<open>ry_\<close>, \<^verbatim>\<open>rz_\<close>, \<^verbatim>\<open>rc_\<close> are a
  record; the bytes read from \<^verbatim>\<open>/dev/urandom\<close> are an argument of the initialisation.
\<close>

record rnd_state =
  rnd_x :: uint32_t
  rnd_y :: uint32_t
  rnd_z :: uint32_t
  rnd_c :: uint32_t

definition read_u32 :: "uint8_t list \<Rightarrow> nat \<Rightarrow> uint32_t" where
  "read_u32 buf i = le_word32 (buf ! i) (buf ! (i + 1)) (buf ! (i + 2)) (buf ! (i + 3))"

text \<open>\<open>urandom\<close> is \<^const>\<open>None\<close> when the device cannot be opened, else the bytes
  \<^verbatim>\<open>read\<close> returned.\<close>

definition rnd_thread_init :: "uint8_t list option \<Rightarrow> rnd_state prog" where
  "rnd_thread_init urandom =
     (case urandom of
        None \<Rightarrow> fail Exit_Failure
      | Some buf \<Rightarrow>
          if length buf \<noteq> 16 then fail Exit_Failure
          else let x = read_u32 buf 0;
                   y = read_u32 buf 4;
                   z = read_u32 buf 8;
                   c = read_u32 buf 12
               in ret \<lparr>rnd_x = x, rnd_y = y, rnd_z = z, rnd_c = z\<rparr>)"

definition nbd_rand :: "rnd_state \<Rightarrow> uint64_t \<times> rnd_state" where
  "nbd_rand s =
     (let rx = 69069 * rnd_x s + 12345;
          ry = rnd_y s;
          ry = ry XOR push_bit 13 ry;
          ry = ry XOR drop_bit 17 ry;
          ry = ry XOR push_bit 5 ry;
          t = ucast (rnd_z s) * 698769069 + ucast (rnd_c s) :: uint64_t;
          r = ucast (rx + ry) + t
      in (r, \<lparr>rnd_x = rx, rnd_y = ry, rnd_z = ucast t, rnd_c = ucast (drop_bit 32 t)\<rparr>))"

section \<open>The three generators\<close>

definition xorshift_step :: "uint32_t \<Rightarrow> uint32_t" where
  "xorshift_step ry =
     (let ry = ry XOR push_bit 13 ry; ry = ry XOR drop_bit 17 ry in ry XOR push_bit 5 ry)"

lemma xorshift_step_inject: "xorshift_step a = xorshift_step b \<longleftrightarrow> a = b"
proof
  assume "xorshift_step a = xorshift_step b"
  then have "(a XOR push_bit 13 a) XOR drop_bit 17 (a XOR push_bit 13 a)
      = (b XOR push_bit 13 b) XOR drop_bit 17 (b XOR push_bit 13 b)"
    unfolding xorshift_step_def Let_def by (rule xor_push_bit_eq_iff [rotated]) simp
  then have "a XOR push_bit 13 a = b XOR push_bit 13 b"
    by (rule xor_drop_bit_eq_iff [rotated]) simp
  then show "a = b"
    by (rule xor_push_bit_eq_iff [rotated]) simp
qed simp

lemma xorshift_step_eq_0: "xorshift_step a = 0 \<longleftrightarrow> a = 0"
proof -
  have "xorshift_step 0 = 0" by (simp add: xorshift_step_def)
  then show ?thesis by (metis xorshift_step_inject)
qed

lemma nbd_rand_y: "rnd_y (snd (nbd_rand s)) = xorshift_step (rnd_y s)"
  by (simp add: nbd_rand_def xorshift_step_def Let_def)

lemma nbd_rand_x: "rnd_x (snd (nbd_rand s)) = 69069 * rnd_x s + 12345"
  by (simp add: nbd_rand_def Let_def)

lemma lcg_inject: "69069 * a + 12345 = 69069 * b + 12345 \<longleftrightarrow> a = (b :: uint32_t)"
proof -
  have "(69069 :: uint32_t) * 0xa5e2a705 = 1" by simp
  from mult_odd_cancel [OF this, of a b] show ?thesis by (auto simp: mult.commute)
qed

text \<open>The multiply-with-carry product and sum fit in 64 bits, so the stored words are the exact
  remainder and quotient.\<close>

lemma mwc_exact:
  fixes z c :: uint32_t
  shows "unat (ucast z * 698769069 + ucast c :: uint64_t) = unat z * 698769069 + unat c"
proof -
  have z: "unat z < 2 ^ 32" and c: "unat c < 2 ^ 32"
    using unat_bound [of z] unat_bound [of c] by simp_all
  have "unat (ucast z :: uint64_t) = unat z" "unat (ucast c :: uint64_t) = unat c"
    using z c by (simp_all add: unsigned_ucast_eq take_bit_nat_eq_self)
  moreover from z c have "unat z * 698769069 + unat c < 2 ^ 64" by simp
  ultimately show ?thesis
    by (simp add: unat_word_ariths)
qed

lemma mwc_split:
  fixes t :: uint64_t
  shows "unat (ucast t :: uint32_t) = unat t mod 2 ^ 32"
    and "unat (ucast (drop_bit 32 t) :: uint32_t) = unat t div 2 ^ 32"
proof -
  show "unat (ucast t :: uint32_t) = unat t mod 2 ^ 32"
    by (simp add: unsigned_ucast_eq take_bit_eq_mod)
  have "unat t div 2 ^ 32 < 2 ^ 32"
    using unat_bound [of t] by (simp add: less_mult_imp_div_less)
  moreover have "unat (drop_bit 32 t) = unat t div 2 ^ 32"
    by (metis unat_drop_bit_eq drop_bit_eq_div)
  ultimately show "unat (ucast (drop_bit 32 t) :: uint32_t) = unat t div 2 ^ 32"
    by (simp add: unsigned_ucast_eq take_bit_nat_eq_self del: unsigned_drop_bit_eq)
qed

lemma nbd_rand_mwc:
  "unat (rnd_z (snd (nbd_rand s))) = (unat (rnd_z s) * 698769069 + unat (rnd_c s)) mod 2 ^ 32"
  "unat (rnd_c (snd (nbd_rand s))) = (unat (rnd_z s) * 698769069 + unat (rnd_c s)) div 2 ^ 32"
  using mwc_split [of "ucast (rnd_z s) * 698769069 + ucast (rnd_c s)"] mwc_exact [of "rnd_z s" "rnd_c s"]
  unfolding nbd_rand_def Let_def snd_conv rnd_state.select_convs by metis+

text \<open>The states in which the carry is below the multiplier.\<close>

definition mwc_ok :: "rnd_state \<Rightarrow> bool" where
  "mwc_ok s \<longleftrightarrow> unat (rnd_c s) < 698769069"

lemma nbd_rand_mwc_ok: "mwc_ok s \<Longrightarrow> mwc_ok (snd (nbd_rand s))"
proof -
  assume c: "mwc_ok s"
  have "unat (rnd_z s) < 2 ^ 32"
    using unat_bound [of "rnd_z s"] by simp
  with c have "unat (rnd_z s) * 698769069 + unat (rnd_c s) < 698769069 * 2 ^ 32"
    by (simp add: mwc_ok_def)
  then show ?thesis by (simp add: mwc_ok_def nbd_rand_mwc less_mult_imp_div_less)
qed

lemma mwc_unique:
  fixes z c z' c' :: nat
  assumes "c < 698769069" and "c' < 698769069" and "z * 698769069 + c = z' * 698769069 + c'"
  shows "z = z' \<and> c = c'"
proof -
  have "(z * 698769069 + c) div 698769069 = z" "(z' * 698769069 + c') div 698769069 = z'"
    using assms(1,2) by simp_all
  with assms(3) show ?thesis by simp
qed

section \<open>Properties\<close>

text \<open>On the states whose carry is below the multiplier, which \<^verbatim>\<open>nbd_rand\<close> never
  leaves, the state transition of the generator is injective (no two seeds merge), and a nonzero
  shift register never becomes zero.\<close>

lemma nbd_rand_permutes:
  "inj_on (\<lambda>s. snd (nbd_rand s)) {s. mwc_ok s}
   \<and> (\<forall>s. mwc_ok s \<longrightarrow> mwc_ok (snd (nbd_rand s)))
   \<and> (\<forall>s. rnd_y s \<noteq> 0 \<longrightarrow> rnd_y (snd (nbd_rand s)) \<noteq> 0)"
proof (intro conjI allI impI)
  show "inj_on (\<lambda>s. snd (nbd_rand s)) {s. mwc_ok s}"
  proof (rule inj_onI)
    fix s s' :: rnd_state
    assume ok: "s \<in> {s. mwc_ok s}" "s' \<in> {s. mwc_ok s}" and eq: "snd (nbd_rand s) = snd (nbd_rand s')"
    have "rnd_x s = rnd_x s'" using eq by (metis nbd_rand_x lcg_inject)
    moreover have "rnd_y s = rnd_y s'" using eq by (metis nbd_rand_y xorshift_step_inject)
    moreover have "unat (rnd_z s) * 698769069 + unat (rnd_c s) = unat (rnd_z s') * 698769069 + unat (rnd_c s')"
      using eq by (metis nbd_rand_mwc mult_div_mod_eq)
    then have "rnd_z s = rnd_z s' \<and> rnd_c s = rnd_c s'"
      using ok mwc_unique by (simp add: mwc_ok_def word_unat_eq_iff)
    ultimately show "s = s'" by simp
  qed
qed (simp_all add: nbd_rand_mwc_ok nbd_rand_y xorshift_step_eq_0)

text \<open>The last four of the sixteen seed bytes are read and not used: the carry word is
  seeded with the same bytes as the multiply-with-carry word.\<close>

lemma rnd_thread_init_ignores_c:
  assumes "length hd12 = 12" and "length c1 = 4" and "length c2 = 4"
  shows "rnd_thread_init (Some (hd12 @ c1)) = rnd_thread_init (Some (hd12 @ c2))"
  using assms by (simp add: rnd_thread_init_def read_u32_def nth_append)

end
