(* ===== verification/Skiplist_Data.thy ===== *)
theory Skiplist_Data
  imports Marks Kiss_Random
begin

text \<open>
  What \<^verbatim>\<open>src/src/map/skiplist.c\<close> and \<^verbatim>\<open>src/src/map/unsafe_skiplist.c\<close> have in common:
  nodes with an array of links, the skip list with its random choice of the number of levels, and the
  shape of a skip list as a sorted sequence of nodes together with one chain of links per level.

  Nodes live in a heap indexed by addresses; \<open>sl_pool\<close> holds the addresses \<^verbatim>\<open>nbd_malloc\<close> will
  return in turn, \<open>sl_deferred\<close> and \<open>sl_freed\<close> record the calls of \<^verbatim>\<open>rcu_defer_free\<close> and
  \<^verbatim>\<open>nbd_free\<close>, and \<open>sl_rnd\<close> is the state of the thread's random generator.
\<close>

section \<open>Data\<close>

record sl_node =
  sn_key :: map_key_t
  sn_val :: map_val_t
  sn_num_levels :: nat
  sn_next :: "markable_t list"

record skiplist_t =
  sl_head :: addr
  sl_key_type :: "datatype_t option"
  sl_high_water :: nat
  sl_heap :: "addr \<Rightarrow> sl_node option"
  sl_pool :: "addr list"
  sl_deferred :: "addr list"
  sl_freed :: "addr list"
  sl_rnd :: rnd_state

definition MAX_LEVELS :: nat where "MAX_LEVELS = 24"

definition sl_load :: "skiplist_t \<Rightarrow> addr \<Rightarrow> sl_node prog" where
  "sl_load s a = (case sl_heap s a of None \<Rightarrow> fail Null_Deref | Some nd \<Rightarrow> ret nd)"

text \<open>\<^verbatim>\<open>a->next[level]\<close>.\<close>

definition sl_next :: "skiplist_t \<Rightarrow> addr \<Rightarrow> nat \<Rightarrow> markable_t prog" where
  "sl_next s a level = pbind (sl_load s a) (\<lambda>nd.
     if level < length (sn_next nd) then ret (sn_next nd ! level) else fail Out_Of_Bounds)"

definition sl_upd :: "addr \<Rightarrow> (sl_node \<Rightarrow> sl_node) \<Rightarrow> skiplist_t \<Rightarrow> skiplist_t" where
  "sl_upd a f s = s\<lparr>sl_heap := (sl_heap s)(a := map_option f (sl_heap s a))\<rparr>"

text \<open>\<^verbatim>\<open>a->next[level] = x\<close>, after the access has been found to be in range.\<close>

definition sl_set_next :: "addr \<Rightarrow> nat \<Rightarrow> markable_t \<Rightarrow> skiplist_t \<Rightarrow> skiplist_t" where
  "sl_set_next a level x s = sl_upd a (\<lambda>nd. nd\<lparr>sn_next := (sn_next nd)[level := x]\<rparr>) s"

definition sl_put_next :: "skiplist_t \<Rightarrow> addr \<Rightarrow> nat \<Rightarrow> markable_t \<Rightarrow> skiplist_t prog" where
  "sl_put_next s a level x = pbind (sl_next s a level) (\<lambda>_. ret (sl_set_next a level x s))"

text \<open>An array the caller may leave out by passing NULL.\<close>

definition out_put :: "addr list option \<Rightarrow> nat \<Rightarrow> addr \<Rightarrow> addr list option prog" where
  "out_put out i x = (case out of None \<Rightarrow> ret None
     | Some xs \<Rightarrow> if i < length xs then ret (Some (xs[i := x])) else fail Out_Of_Bounds)"

definition out_get :: "addr list option \<Rightarrow> nat \<Rightarrow> addr prog" where
  "out_get out i = (case out of None \<Rightarrow> fail Null_Deref
     | Some xs \<Rightarrow> if i < length xs then ret (xs ! i) else fail Out_Of_Bounds)"

definition sl_defer :: "addr \<Rightarrow> skiplist_t \<Rightarrow> skiplist_t" where
  "sl_defer a s = s\<lparr>sl_deferred := sl_deferred s @ [a]\<rparr>"

definition sl_nbd_free :: "addr \<Rightarrow> skiplist_t \<Rightarrow> skiplist_t" where
  "sl_nbd_free a s = s\<lparr>sl_heap := (sl_heap s)(a := None), sl_freed := sl_freed s @ [a]\<rparr>"

text \<open>A key that is a pointer has its own storage, outside the heap of nodes.\<close>

definition sl_free_key :: "map_key_t \<Rightarrow> skiplist_t \<Rightarrow> skiplist_t" where
  "sl_free_key k s = (if sl_key_type s = None then s else s\<lparr>sl_freed := sl_freed s @ [k]\<rparr>)"

definition sl_defer_key :: "map_key_t \<Rightarrow> skiplist_t \<Rightarrow> skiplist_t" where
  "sl_defer_key k s = (if sl_key_type s = None then s else sl_defer k s)"

section \<open>The number of levels of a new node\<close>

text \<open>\<^verbatim>\<open>__builtin_ctz\<close> takes an \<^verbatim>\<open>unsigned int\<close> and is undefined for 0.\<close>

definition builtin_ctz :: "uint32_t \<Rightarrow> nat prog" where
  "builtin_ctz x = (if x = 0 then fail Undefined_Behaviour else ret (length (takeWhile (\<lambda>i. \<not> bit x i) [0..<32])))"

text \<open>\<^verbatim>\<open>(int)(z / 1.5)\<close> is the integer part of two thirds of \<open>z\<close>: the quotient is exact when it is an
  integer, and otherwise farther from the next integer than the rounding error.\<close>

definition random_levels :: "skiplist_t \<Rightarrow> (nat \<times> skiplist_t) prog" where
  "random_levels s = (case nbd_rand (sl_rnd s) of (r, rnd) \<Rightarrow>
     (let s = s\<lparr>sl_rnd := rnd\<rparr>
      in pbind (builtin_ctz (ucast r)) (\<lambda>z.
         let levels = 2 * z div 3
         in if levels = 0 then ret (1, s)
            else
              let (levels, s) = (if levels > sl_high_water s
                                 then (sl_high_water s + 1, s\<lparr>sl_high_water := sl_high_water s + 1\<rparr>)
                                 else (levels, s));
                  levels = (if levels > MAX_LEVELS then MAX_LEVELS else levels)
              in ret (levels, s))))"

definition rand_ok :: "rnd_state \<Rightarrow> bool" where
  "rand_ok r \<longleftrightarrow> (ucast (fst (nbd_rand r)) :: uint32_t) \<noteq> 0"

text \<open>The bound on the random number of levels: a new node has between one level and as many as the
  skip list uses, and the skip list never uses more than twenty of its twenty-four.\<close>

lemma random_levels_ok:
  assumes "rand_ok (sl_rnd s)" and "1 \<le> sl_high_water s" and "sl_high_water s \<le> 20"
  shows "\<exists>n hw. random_levels s = ret (n, s\<lparr>sl_rnd := snd (nbd_rand (sl_rnd s)), sl_high_water := hw\<rparr>) \<and>
    1 \<le> n \<and> n \<le> hw \<and> sl_high_water s \<le> hw \<and> hw \<le> sl_high_water s + 1 \<and> hw \<le> 20"
proof -
  obtain r rnd where r: "nbd_rand (sl_rnd s) = (r, rnd)" by fastforce
  define z where "z = length (takeWhile (\<lambda>i. \<not> bit (ucast r :: uint32_t) i) [0..<32])"
  have z: "builtin_ctz (ucast r) = ret z" using assms(1) by (simp add: builtin_ctz_def rand_ok_def r z_def)
  have "z \<noteq> 32"
  proof
    assume "z = 32"
    then have "takeWhile (\<lambda>i. \<not> bit (ucast r :: uint32_t) i) [0..<32] = [0..<32]"
      unfolding z_def by (metis length_upt diff_zero takeWhile_eq_take take_all order_refl)
    then have "\<not> bit (ucast r :: uint32_t) i" if "i < 32" for i
      using that by (metis atLeastLessThan_iff set_upt set_takeWhileD zero_le)
    then have "(ucast r :: uint32_t) = 0" by (intro bit_word_eqI) auto
    then show False using assms(1) by (simp add: rand_ok_def r)
  qed
  moreover have "z \<le> 32" using length_takeWhile_le [of _ "[0..<32]"] by (simp add: z_def)
  ultimately have b: "2 * z div 3 \<le> 20" by simp
  have s: "s\<lparr>sl_rnd := rnd, sl_high_water := sl_high_water s\<rparr> = s\<lparr>sl_rnd := rnd\<rparr>" by simp
  show ?thesis
  proof (cases "2 * z div 3 = 0 \<or> 2 * z div 3 \<le> sl_high_water s")
    case True
    then show ?thesis
      using z b assms(2,3) r s
      by (intro exI [of _ "if 2 * z div 3 = 0 then 1 else 2 * z div 3"] exI [of _ "sl_high_water s"])
        (auto simp: random_levels_def MAX_LEVELS_def Let_def)
  next
    case False
    then show ?thesis
      using z b assms(2,3) r
      by (intro exI [of _ "sl_high_water s + 1"] exI [of _ "sl_high_water s + 1"])
        (auto simp: random_levels_def MAX_LEVELS_def Let_def)
  qed
qed

text \<open>How many of the next \<open>n\<close> random numbers can be used before one on which
  \<^verbatim>\<open>__builtin_ctz\<close> is undefined.\<close>

primrec rand_room :: "nat \<Rightarrow> rnd_state \<Rightarrow> nat" where
  "rand_room 0 r = 0"
| "rand_room (Suc n) r = (if rand_ok r then Suc (rand_room n (snd (nbd_rand r))) else 0)"

lemma rand_room_mono: "m \<le> n \<Longrightarrow> rand_room m r \<le> rand_room n r"
proof (induction m arbitrary: n r)
  case (Suc m)
  then show ?case by (cases n) auto
qed simp

definition sl_room :: "skiplist_t \<Rightarrow> nat" where
  "sl_room s = rand_room (length (sl_pool s)) (sl_rnd s)"

lemma sl_roomD:
  assumes "0 < sl_room s"
  shows "sl_pool s \<noteq> []" and "rand_ok (sl_rnd s)"
  using assms by (cases "length (sl_pool s)"; force simp: sl_room_def split: if_splits)+

lemma sl_room_step:
  assumes "length (sl_pool s) \<le> length (sl_pool s') + 1" and "sl_rnd s' = snd (nbd_rand (sl_rnd s))"
  shows "sl_room s \<le> sl_room s' + 1"
proof (cases "length (sl_pool s)")
  case (Suc n)
  then have "rand_room n (sl_rnd s') \<le> sl_room s'" using assms(1) by (simp add: sl_room_def rand_room_mono)
  then show ?thesis using Suc assms(2) by (simp add: sl_room_def)
qed (simp add: sl_room_def)

definition rnd_sample :: rnd_state where
  "rnd_sample = \<lparr>rnd_x = 123456789, rnd_y = 362436000, rnd_z = 521288629, rnd_c = 7654321\<rparr>"

lemma rand_ok_sample: "rand_ok rnd_sample"
  by (simp add: rand_ok_def nbd_rand_def rnd_sample_def Let_def)

definition sl_sample_data :: skiplist_t where
  "sl_sample_data = \<lparr>sl_head = 16, sl_key_type = None, sl_high_water = 1, sl_heap = (\<lambda>_. None), sl_pool = [],
    sl_deferred = [], sl_freed = [], sl_rnd = rnd_sample\<rparr>"

lemma rand_room_le: "rand_room n r \<le> n"
  by (induction n arbitrary: r) auto

lemma rand_room_sample: "rand_room 2 rnd_sample = 2"
proof -
  have "snd (nbd_rand rnd_sample) = \<lparr>rnd_x = 1526889226, rnd_y = 3135323351, rnd_z = 1712429826, rnd_c = 84810976\<rparr>"
    by (simp add: nbd_rand_def rnd_sample_def Let_def)
  moreover have "rand_ok \<lparr>rnd_x = 1526889226, rnd_y = 3135323351, rnd_z = 1712429826, rnd_c = 84810976\<rparr>"
    by (simp add: nbd_rand_def rand_ok_def Let_def)
  ultimately show ?thesis using rand_ok_sample by (simp add: numeral_2_eq_2)
qed

text \<open>The number of levels of a new node is bounded. When the next random number has a bit set in its
  low half, \<^verbatim>\<open>random_levels\<close> returns a number between one and the high water mark, which it raises
  by at most one and never above twenty of the twenty-four levels the head has; it changes nothing else
  but the state of the generator. When the low half is zero the call of \<^verbatim>\<open>__builtin_ctz\<close> is
  undefined.\<close>

lemma random_levels_bounds:
  assumes "1 \<le> sl_high_water s" and "sl_high_water s \<le> 20"
  shows "if rand_ok (sl_rnd s)
    then \<exists>n hw. random_levels s = ret (n, s\<lparr>sl_rnd := snd (nbd_rand (sl_rnd s)), sl_high_water := hw\<rparr>) \<and>
      1 \<le> n \<and> n \<le> hw \<and> sl_high_water s \<le> hw \<and> hw \<le> sl_high_water s + 1 \<and> hw \<le> 20
    else random_levels s = fail Undefined_Behaviour"
proof (cases "rand_ok (sl_rnd s)")
  case False
  then show ?thesis
    by (simp add: rand_ok_def random_levels_def builtin_ctz_def case_prod_unfold Let_def)
qed (use random_levels_ok assms in simp)

end
