(* ===== verification/Chains.thy ===== *)
theory Chains
  imports Prelude
begin

text \<open>
  Chains of links in memory: \<open>lseg N p as q\<close> says that following the links \<open>N\<close> from \<open>p\<close> visits the
  addresses \<open>as\<close> and ends at \<open>q\<close>. The skip lists have one such chain per level, and the allocator one
  for each of its lists and queues.
\<close>

primrec lseg :: "(addr \<Rightarrow> addr) \<Rightarrow> addr \<Rightarrow> addr list \<Rightarrow> addr \<Rightarrow> bool" where
  "lseg N p [] q \<longleftrightarrow> p = q"
| "lseg N p (a # as) q \<longleftrightarrow> p = a \<and> lseg N (N a) as q"

definition first :: "addr list \<Rightarrow> addr" where
  "first as = (case as of [] \<Rightarrow> NULL | a # _ \<Rightarrow> a)"

lemma first_simps [simp]: "first [] = NULL" "first (a # as) = a"
  by (simp_all add: first_def)

lemma lseg_append: "lseg N p (xs @ ys) q \<longleftrightarrow> (\<exists>r. lseg N p xs r \<and> lseg N r ys q)"
  by (induction xs arbitrary: p) auto

lemma lseg_first: "lseg N p as NULL \<Longrightarrow> p = first as"
  by (cases as) auto

lemma lseg_frame: "(\<And>a. a \<in> set as \<Longrightarrow> M a = N a) \<Longrightarrow> lseg M p as q = lseg N p as q"
  by (induction as arbitrary: p) auto

lemma lseg_unique: "lseg N p as NULL \<Longrightarrow> lseg N p bs NULL \<Longrightarrow> NULL \<notin> set as \<Longrightarrow> NULL \<notin> set bs \<Longrightarrow> as = bs"
proof (induction as arbitrary: p bs)
  case Nil
  then show ?case by (cases bs) auto
next
  case (Cons a as)
  then show ?case by (cases bs) auto
qed

lemma lseg_insert:
  assumes "lseg N (N c) (xs @ ys) NULL" and "distinct (c # xs @ ys)"
    and "M (last (c # xs)) = new" and "M new = first ys" and "\<And>a. a \<in> set (c # xs @ ys) \<Longrightarrow> a \<noteq> last (c # xs) \<Longrightarrow> M a = N a"
  shows "lseg M (M c) (xs @ new # ys) NULL"
  using assms
proof (induction xs arbitrary: c)
  case Nil
  have "lseg M (first ys) ys NULL = lseg N (first ys) ys NULL"
    by (rule lseg_frame) (use Nil in auto)
  moreover have "N c = first ys" using lseg_first Nil(1) by simp
  ultimately show ?case using Nil by simp
next
  case (Cons a xs)
  have "lseg M (M a) (xs @ new # ys) NULL" by (rule Cons.IH) (use Cons.prems in auto)
  moreover have "c \<noteq> last (a # xs)" using Cons.prems(2) last_in_set [of "a # xs"] by auto
  ultimately show ?case using Cons.prems by auto
qed

lemma lseg_bypass:
  assumes "lseg N (N c) xs m" and "lseg N q ys NULL" and "distinct (c # xs @ ys)"
    and "M (last (c # xs)) = q" and "\<And>a. a \<in> set (c # xs @ ys) \<Longrightarrow> a \<noteq> last (c # xs) \<Longrightarrow> M a = N a"
  shows "lseg M (M c) (xs @ ys) NULL"
  using assms
proof (induction xs arbitrary: c)
  case Nil
  have "lseg M q ys NULL = lseg N q ys NULL" by (rule lseg_frame) (use Nil in auto)
  then show ?case using Nil by simp
next
  case (Cons a xs)
  have "lseg M (M a) (xs @ ys) NULL" by (rule Cons.IH) (use Cons.prems in auto)
  moreover have "c \<noteq> last (a # xs)" using Cons.prems(3) last_in_set [of "a # xs"] by auto
  ultimately show ?case using Cons.prems by auto
qed

lemma lseg_from:
  assumes "lseg N (N c) (xs @ ys) q" and "p = c \<or> p \<in> set xs"
  shows "\<exists>zs. set zs \<subseteq> set xs \<and> lseg N (N p) (zs @ ys) q \<and> last (p # zs) = last (c # xs)"
proof (cases "p = c")
  case True
  then show ?thesis using assms(1) by auto
next
  case False
  then obtain as bs where "xs = as @ p # bs" using assms(2) by (metis split_list)
  then show ?thesis using assms(1) by (intro exI [of _ bs]) (auto simp: lseg_append)
qed

lemma lseg_last: "lseg N (N c) (xs @ ys) NULL \<Longrightarrow> N (last (c # xs)) = first ys"
proof (induction xs arbitrary: c)
  case Nil
  then show ?case using lseg_first by simp
qed auto

end
