(* ===== verification/Skiplist_Shape.thy ===== *)
theory Skiplist_Shape
  imports Skiplist_Data Chains
begin

text \<open>
  The shape of a skip list, for the proofs of \<open>Skiplist\<close> and \<open>Unsafe_Skiplist\<close>: the sorted
  sequence of its nodes, one chain of links per level, the predecessors and successors of a key, the
  map the nodes represent, and how all this changes when a node is linked in, bypassed or updated.
\<close>

section \<open>The shape of a skip list\<close>

type_synonym sl_heap_t = "addr \<Rightarrow> sl_node option"

definition height :: "sl_heap_t \<Rightarrow> addr \<Rightarrow> nat" where
  "height h a = (case h a of None \<Rightarrow> 0 | Some nd \<Rightarrow> length (sn_next nd))"

definition keyof :: "sl_heap_t \<Rightarrow> addr \<Rightarrow> map_key_t" where
  "keyof h a = (case h a of None \<Rightarrow> 0 | Some nd \<Rightarrow> sn_key nd)"

definition valof :: "sl_heap_t \<Rightarrow> addr \<Rightarrow> map_val_t" where
  "valof h a = (case h a of None \<Rightarrow> 0 | Some nd \<Rightarrow> sn_val nd)"

definition nxt :: "sl_heap_t \<Rightarrow> nat \<Rightarrow> addr \<Rightarrow> markable_t" where
  "nxt h l a = (case h a of None \<Rightarrow> NULL | Some nd \<Rightarrow> if l < length (sn_next nd) then sn_next nd ! l else NULL)"

lemmas node_defs = height_def keyof_def valof_def nxt_def

lemma height_pos: "l < height h a \<Longrightarrow> \<exists>nd. h a = Some nd"
  by (cases "h a") (simp_all add: height_def)

lemma sl_load_ok:
  assumes "l < height (sl_heap s) a"
  shows "\<exists>nd. sl_load s a = ret nd \<and> sl_heap s a = Some nd \<and> sn_key nd = keyof (sl_heap s) a \<and> sn_val nd = valof (sl_heap s) a"
  using height_pos [OF assms] by (auto simp: sl_load_def node_defs)

lemma sl_next_ok: "l < height (sl_heap s) a \<Longrightarrow> sl_next s a l = ret (nxt (sl_heap s) l a)"
  using height_pos [of l "sl_heap s" a] by (auto simp: sl_next_def sl_load_def node_defs)

lemma sl_put_next_ok: "l < height (sl_heap s) a \<Longrightarrow> sl_put_next s a l x = ret (sl_set_next a l x s)"
  by (simp add: sl_put_next_def sl_next_ok)

lemma sl_upd_sel [simp]:
  "sl_head (sl_upd a f s) = sl_head s" "sl_key_type (sl_upd a f s) = sl_key_type s" "sl_high_water (sl_upd a f s) = sl_high_water s"
  "sl_pool (sl_upd a f s) = sl_pool s" "sl_rnd (sl_upd a f s) = sl_rnd s" "sl_deferred (sl_upd a f s) = sl_deferred s"
  "sl_freed (sl_upd a f s) = sl_freed s"
  by (simp_all add: sl_upd_def)

lemma sl_set_next_sel [simp]:
  "sl_head (sl_set_next a l x s) = sl_head s" "sl_key_type (sl_set_next a l x s) = sl_key_type s"
  "sl_high_water (sl_set_next a l x s) = sl_high_water s" "sl_pool (sl_set_next a l x s) = sl_pool s"
  "sl_rnd (sl_set_next a l x s) = sl_rnd s" "sl_deferred (sl_set_next a l x s) = sl_deferred s"
  "sl_freed (sl_set_next a l x s) = sl_freed s"
  by (simp_all add: sl_set_next_def)

lemma sl_set_next_heap [simp]:
  "height (sl_heap (sl_set_next a l x s)) b = height (sl_heap s) b"
  "keyof (sl_heap (sl_set_next a l x s)) b = keyof (sl_heap s) b"
  "valof (sl_heap (sl_set_next a l x s)) b = valof (sl_heap s) b"
  "sl_heap (sl_set_next a l x s) b = None \<longleftrightarrow> sl_heap s b = None"
  by (auto simp: sl_set_next_def sl_upd_def node_defs split: option.splits)

lemma nxt_set_next: "l < height (sl_heap s) a \<Longrightarrow>
    nxt (sl_heap (sl_set_next a l x s)) l' b = (if b = a \<and> l' = l then x else nxt (sl_heap s) l' b)"
  by (auto simp: sl_set_next_def sl_upd_def node_defs split: option.splits)

lemma nxt_set_next_fun: "l < height (sl_heap s) a \<Longrightarrow> nxt (sl_heap (sl_set_next a l x s)) l = (nxt (sl_heap s) l)(a := x)"
  "l < height (sl_heap s) a \<Longrightarrow> l' \<noteq> l \<Longrightarrow> nxt (sl_heap (sl_set_next a l x s)) l' = nxt (sl_heap s) l'"
  by (auto simp: fun_eq_iff nxt_set_next)

section \<open>Representation\<close>

text \<open>The nodes of a skip list: those of level 0, in the order of their keys.\<close>

definition levelsof :: "sl_heap_t \<Rightarrow> addr \<Rightarrow> nat" where
  "levelsof h a = (case h a of None \<Rightarrow> 0 | Some nd \<Rightarrow> sn_num_levels nd)"

abbreviation at_level :: "sl_heap_t \<Rightarrow> nat \<Rightarrow> addr list \<Rightarrow> addr list" where
  "at_level h l as \<equiv> filter (\<lambda>a. l < height h a) as"

definition sl_shape :: "sl_heap_t \<Rightarrow> addr \<Rightarrow> addr list \<Rightarrow> bool" where
  "sl_shape h c as \<longleftrightarrow> (\<forall>l < MAX_LEVELS. lseg (nxt h l) (nxt h l c) (at_level h l as) NULL)"

definition sl_node_ok :: "map_key_t set \<Rightarrow> nat \<Rightarrow> sl_heap_t \<Rightarrow> addr \<Rightarrow> bool" where
  "sl_node_ok K hw h a \<longleftrightarrow> a \<noteq> NULL \<and> \<not> HAS_MARK a \<and> 0 < height h a \<and> height h a \<le> hw \<and> levelsof h a = height h a \<and>
     keyof h a \<in> K \<and> valof h a \<noteq> 0"

definition sl_pool_ok :: "addr list \<Rightarrow> sl_heap_t \<Rightarrow> bool" where
  "sl_pool_ok pool h \<longleftrightarrow> distinct pool \<and> (\<forall>a \<in> set pool. a \<noteq> NULL \<and> \<not> HAS_MARK a \<and> h a = None)"

definition sl_rep :: "datatype_t option \<Rightarrow> map_key_t set \<Rightarrow> (map_key_t \<Rightarrow> int) \<Rightarrow> skiplist_t \<Rightarrow> addr list \<Rightarrow> bool" where
  "sl_rep kt K rank s as \<longleftrightarrow>
     sl_key_type s = kt \<and> 1 \<le> sl_high_water s \<and> sl_high_water s \<le> 20 \<and> height (sl_heap s) (sl_head s) = MAX_LEVELS \<and>
     distinct (sl_head s # as) \<and> (\<forall>a \<in> set as. sl_node_ok K (sl_high_water s) (sl_heap s) a) \<and>
     sorted_wrt (\<lambda>a b. rank (keyof (sl_heap s) a) < rank (keyof (sl_heap s) b)) as \<and>
     sl_shape (sl_heap s) (sl_head s) as \<and> sl_pool_ok (sl_pool s) (sl_heap s)"

definition sl_inv :: "datatype_t option \<Rightarrow> map_key_t set \<Rightarrow> (map_key_t \<Rightarrow> int) \<Rightarrow> skiplist_t \<Rightarrow> bool" where
  "sl_inv kt K rank s \<longleftrightarrow> (\<exists>as. sl_rep kt K rank s as)"

lemma sl_repD:
  assumes "sl_rep kt K rank s as"
  shows "sl_key_type s = kt" "1 \<le> sl_high_water s" "sl_high_water s \<le> 20" "height (sl_heap s) (sl_head s) = 24"
    "distinct (sl_head s # as)" "\<And>a. a \<in> set as \<Longrightarrow> sl_node_ok K (sl_high_water s) (sl_heap s) a"
    "sorted_wrt (\<lambda>a b. rank (keyof (sl_heap s) a) < rank (keyof (sl_heap s) b)) as"
    "\<And>l. l < 24 \<Longrightarrow> lseg (nxt (sl_heap s) l) (nxt (sl_heap s) l (sl_head s)) (at_level (sl_heap s) l as) NULL"
    "sl_pool_ok (sl_pool s) (sl_heap s)"
  using assms by (auto simp: sl_rep_def sl_shape_def MAX_LEVELS_def)

text \<open>The map a skip list represents.\<close>

definition sl_assoc :: "(map_key_t \<Rightarrow> int) \<Rightarrow> sl_heap_t \<Rightarrow> addr list \<Rightarrow> int \<Rightarrow> map_val_t option" where
  "sl_assoc rank h as = map_of (map (\<lambda>a. (rank (keyof h a), valof h a)) as)"

definition sl_nodes :: "skiplist_t \<Rightarrow> addr list" where
  "sl_nodes s = (THE as. lseg (nxt (sl_heap s) 0) (nxt (sl_heap s) 0 (sl_head s)) as NULL \<and> NULL \<notin> set as)"

definition sl_abs :: "(map_key_t \<Rightarrow> int) \<Rightarrow> skiplist_t \<Rightarrow> map_key_t \<Rightarrow> map_val_t option" where
  "sl_abs rank s k = sl_assoc rank (sl_heap s) (sl_nodes s) (rank k)"

lemma sl_nodes_eq:
  assumes "sl_rep kt K rank s as"
  shows "sl_nodes s = as"
  unfolding sl_nodes_def
proof (rule the_equality)
  have "at_level (sl_heap s) 0 as = as"
    using sl_repD(6) [OF assms] by (auto simp: sl_node_ok_def intro!: filter_True)
  then show "lseg (nxt (sl_heap s) 0) (nxt (sl_heap s) 0 (sl_head s)) as NULL \<and> NULL \<notin> set as"
    using sl_repD(8) [OF assms, of 0] sl_repD(6) [OF assms] by (auto simp: sl_node_ok_def)
  then show "bs = as" if "lseg (nxt (sl_heap s) 0) (nxt (sl_heap s) 0 (sl_head s)) bs NULL \<and> NULL \<notin> set bs" for bs
    using lseg_unique that by blast
qed

lemma sl_abs_eq: "sl_rep kt K rank s as \<Longrightarrow> sl_abs rank s k = sl_assoc rank (sl_heap s) as (rank k)"
  by (simp add: sl_abs_def sl_nodes_eq)

lemma sl_assoc_Some:
  assumes "sorted_wrt (\<lambda>a b. rank (keyof h a) < rank (keyof h b)) as"
  shows "sl_assoc rank h as r = Some v \<longleftrightarrow> (\<exists>a \<in> set as. rank (keyof h a) = r \<and> valof h a = v)"
proof -
  have "distinct (map fst (map (\<lambda>a. (rank (keyof h a), valof h a)) as))"
    using assms by (induction as) auto
  then show ?thesis by (auto simp: sl_assoc_def)
qed

text \<open>How the map changes with the nodes; \<open>as'\<close> are the nodes of the new heap \<open>h'\<close>, and only the
  binding of the rank \<open>r\<close> is another.\<close>

lemma sl_assoc_change:
  assumes "sorted_wrt (\<lambda>a b. rank (keyof h a) < rank (keyof h b)) as"
    and "sorted_wrt (\<lambda>a b. rank (keyof h' a) < rank (keyof h' b)) as'"
    and "\<And>a. rank (keyof h a) \<noteq> r \<Longrightarrow> a \<in> set as \<Longrightarrow> a \<in> set as' \<and> keyof h' a = keyof h a \<and> valof h' a = valof h a"
    and "\<And>a. rank (keyof h' a) \<noteq> r \<Longrightarrow> a \<in> set as' \<Longrightarrow> a \<in> set as \<and> keyof h' a = keyof h a \<and> valof h' a = valof h a"
  shows "sl_assoc rank h' as' = (sl_assoc rank h as)(r := sl_assoc rank h' as' r)"
proof
  fix q
  have "sl_assoc rank h' as' q = Some v \<longleftrightarrow> sl_assoc rank h as q = Some v" if "q \<noteq> r" for v
    using assms(3,4) that unfolding sl_assoc_Some [OF assms(1)] sl_assoc_Some [OF assms(2)] by metis
  then show "sl_assoc rank h' as' q = ((sl_assoc rank h as)(r := sl_assoc rank h' as' r)) q"
    by (auto) (metis not_None_eq)
qed

text \<open>The nodes before and after a key.\<close>

definition before :: "(map_key_t \<Rightarrow> int) \<Rightarrow> sl_heap_t \<Rightarrow> map_key_t \<Rightarrow> addr list \<Rightarrow> addr list" where
  "before rank h k as = filter (\<lambda>a. rank (keyof h a) < rank k) as"

definition onward :: "(map_key_t \<Rightarrow> int) \<Rightarrow> sl_heap_t \<Rightarrow> map_key_t \<Rightarrow> addr list \<Rightarrow> addr list" where
  "onward rank h k as = filter (\<lambda>a. rank k \<le> rank (keyof h a)) as"

lemma before_onward:
  assumes "sorted_wrt (\<lambda>a b. rank (keyof h a) < rank (keyof h b)) as"
  shows "as = before rank h k as @ onward rank h k as"
  using assms
proof (induction as)
  case (Cons a as)
  show ?case
  proof (cases "rank (keyof h a) < rank k")
    case True
    then show ?thesis using Cons by (simp add: before_def onward_def)
  next
    case False
    then have "\<forall>b \<in> set as. rank k \<le> rank (keyof h b)" using Cons.prems by force
    then have "filter (\<lambda>a. rank (keyof h a) < rank k) as = []" "filter (\<lambda>a. rank k \<le> rank (keyof h a)) as = as"
      by (auto simp: filter_empty_conv filter_id_conv not_less)
    then show ?thesis using False by (simp add: before_def onward_def)
  qed
qed (simp add: before_def onward_def)

text \<open>The node with the key, NULL if there is none; predecessor and successor at a level.\<close>

definition hit :: "(map_key_t \<Rightarrow> int) \<Rightarrow> sl_heap_t \<Rightarrow> map_key_t \<Rightarrow> addr list \<Rightarrow> addr" where
  "hit rank h k as = first (filter (\<lambda>a. rank (keyof h a) = rank k) as)"

definition pred_at :: "(map_key_t \<Rightarrow> int) \<Rightarrow> skiplist_t \<Rightarrow> map_key_t \<Rightarrow> addr list \<Rightarrow> nat \<Rightarrow> addr" where
  "pred_at rank s k as l = last (sl_head s # at_level (sl_heap s) l (before rank (sl_heap s) k as))"

definition succ_at :: "(map_key_t \<Rightarrow> int) \<Rightarrow> skiplist_t \<Rightarrow> map_key_t \<Rightarrow> addr list \<Rightarrow> nat \<Rightarrow> addr" where
  "succ_at rank s k as l = first (at_level (sl_heap s) l (onward rank (sl_heap s) k as))"

text \<open>The arrays of predecessors and successors are filled up to a level.\<close>

definition fill :: "nat \<Rightarrow> (nat \<Rightarrow> addr) \<Rightarrow> addr list \<Rightarrow> addr list" where
  "fill m f xs = map f [0..<m] @ drop m xs"

lemma fill_Suc: "m < length xs \<Longrightarrow> fill m f (xs[m := f m]) = fill (Suc m) f xs"
  by (simp add: fill_def drop_update_swap Cons_nth_drop_Suc [symmetric])

lemma fill_nth: "i < m \<Longrightarrow> fill m f xs ! i = f i"
  by (simp add: fill_def nth_append)

lemma fill_length: "m \<le> length xs \<Longrightarrow> length (fill m f xs) = length xs"
  by (simp add: fill_def)

lemma fill_0 [simp]: "fill 0 f xs = xs"
  by (simp add: fill_def)

section \<open>The place of a key\<close>

lemma sl_level_from:
  assumes "key_order kt K rank" and "sl_rep kt K rank s as" and "k \<in> K" and "l < 24"
    and "p = sl_head s \<or> p \<in> set (before rank (sl_heap s) k as) \<and> l < height (sl_heap s) p"
  shows "\<exists>xs. lseg (nxt (sl_heap s) l) (nxt (sl_heap s) l p) (xs @ at_level (sl_heap s) l (onward rank (sl_heap s) k as)) NULL \<and>
      last (p # xs) = pred_at rank s k as l \<and> set xs \<subseteq> set (at_level (sl_heap s) l (before rank (sl_heap s) k as))"
    and "l < height (sl_heap s) p"
proof -
  let ?h = "sl_heap s"
  let ?b = "at_level ?h l (before rank ?h k as)" and ?a = "at_level ?h l (onward rank ?h k as)"
  note R = sl_repD [OF assms(2)]
  have "at_level ?h l as = ?b @ ?a"
    by (subst before_onward [OF R(7), of k]) (rule filter_append)
  then have L: "lseg (nxt ?h l) (nxt ?h l (sl_head s)) (?b @ ?a) NULL" using R(8) [OF assms(4)] by simp
  have p: "p = sl_head s \<or> p \<in> set ?b" using assms(5) by auto
  show "\<exists>xs. lseg (nxt ?h l) (nxt ?h l p) (xs @ ?a) NULL \<and> last (p # xs) = pred_at rank s k as l \<and> set xs \<subseteq> set ?b"
    using lseg_from [OF L p] unfolding pred_at_def by blast
  show "l < height ?h p" using assms(4,5) R(4) by auto
qed

lemma sl_side:
  assumes "key_order kt K rank" and "sl_rep kt K rank s as" and "k \<in> K"
  shows "a \<in> set (before rank (sl_heap s) k as) \<Longrightarrow> a \<noteq> NULL \<and> key_diff kt (keyof (sl_heap s) a) k < 0"
    and "a \<in> set (onward rank (sl_heap s) k as) \<Longrightarrow> a \<noteq> NULL \<and> 0 \<le> key_diff kt (keyof (sl_heap s) a) k"
    and "a \<in> set as \<Longrightarrow> key_diff kt (keyof (sl_heap s) a) k = 0 \<longleftrightarrow> rank (keyof (sl_heap s) a) = rank k"
proof -
  have ok: "a \<noteq> NULL \<and> keyof (sl_heap s) a \<in> K" if "a \<in> set as"
    using sl_repD(6) [OF assms(2) that] by (simp add: sl_node_ok_def)
  note O = key_orderD [OF assms(1) _ assms(3), of "keyof (sl_heap s) a"]
  show "a \<in> set (before rank (sl_heap s) k as) \<Longrightarrow> a \<noteq> NULL \<and> key_diff kt (keyof (sl_heap s) a) k < 0"
    using ok O(2) by (simp add: before_def)
  show "a \<in> set (onward rank (sl_heap s) k as) \<Longrightarrow> a \<noteq> NULL \<and> 0 \<le> key_diff kt (keyof (sl_heap s) a) k"
    using ok O(3) by (simp add: onward_def)
  show "a \<in> set as \<Longrightarrow> key_diff kt (keyof (sl_heap s) a) k = 0 \<longleftrightarrow> rank (keyof (sl_heap s) a) = rank k"
    using ok O(1) by simp
qed

lemma hit_unique:
  assumes "sorted_wrt (\<lambda>a b. rank (keyof h a) < rank (keyof h b)) as" and "a \<in> set as" and "rank (keyof h a) = rank k"
  shows "hit rank h k as = a" and "filter (\<lambda>a. rank (keyof h a) = rank k) as = [a]"
proof -
  have "filter (\<lambda>a. rank (keyof h a) = rank k) as = [a]"
    using assms
  proof (induction as)
    case (Cons b as)
    have "filter (\<lambda>a. rank (keyof h a) = rank k) as = []" if "rank (keyof h b) = rank k"
      using Cons.prems(1) that by (force simp: filter_empty_conv)
    then show ?case using Cons by force
  qed simp
  then show "filter (\<lambda>a. rank (keyof h a) = rank k) as = [a]" and "hit rank h k as = a" by (simp_all add: hit_def)
qed

lemma hit_None: "hit rank h k as = NULL \<longleftrightarrow> (\<forall>a \<in> set as. rank (keyof h a) \<noteq> rank k)" if "NULL \<notin> set as"
  using that by (auto simp: hit_def first_def filter_empty_conv split: list.splits dest: filter_eq_ConsD)

lemma hit_in:
  assumes "hit rank h k as \<noteq> NULL"
  shows "hit rank h k as \<in> set as" and "rank (keyof h (hit rank h k as)) = rank k"
proof -
  obtain b bs where "filter (\<lambda>a. rank (keyof h a) = rank k) as = b # bs" "hit rank h k as = b"
    using assms by (auto simp: hit_def first_def split: list.splits)
  then obtain us vs where "as = us @ b # vs" "rank (keyof h b) = rank k" "hit rank h k as = b"
    using filter_eq_ConsD [of _ as b bs] by blast
  then show "hit rank h k as \<in> set as" and "rank (keyof h (hit rank h k as)) = rank k" by simp_all
qed

lemma onward_hit:
  assumes "sorted_wrt (\<lambda>a b. rank (keyof h a) < rank (keyof h b)) as" and "NULL \<notin> set as"
  shows "hit rank h k as = (if onward rank h k as \<noteq> [] \<and> rank (keyof h (hd (onward rank h k as))) = rank k then hd (onward rank h k as) else NULL)"
proof (cases "hit rank h k as = NULL")
  case True
  then have n: "\<forall>a \<in> set as. rank (keyof h a) \<noteq> rank k" using hit_None [OF assms(2)] by simp
  have "hd (onward rank h k as) \<in> set as" if "onward rank h k as \<noteq> []"
    using hd_in_set [OF that] by (simp add: onward_def)
  then show ?thesis using True n by auto
next
  case False
  let ?a = "hit rank h k as"
  have a: "?a \<in> set as" "rank (keyof h ?a) = rank k" using hit_in [OF False] by simp_all
  then have mem: "?a \<in> set (onward rank h k as)" by (simp add: onward_def)
  then have ne: "onward rank h k as \<noteq> []" by auto
  have "rank (keyof h (hd (onward rank h k as))) = rank k"
  proof (cases "hd (onward rank h k as) = ?a")
    case False
    have "sorted_wrt (\<lambda>a b. rank (keyof h a) < rank (keyof h b)) (onward rank h k as)"
      using assms(1) by (simp add: onward_def sorted_wrt_filter)
    then have "rank (keyof h (hd (onward rank h k as))) < rank k"
      using mem ne False a(2) by (cases "onward rank h k as") auto
    moreover have "rank k \<le> rank (keyof h (hd (onward rank h k as)))" using hd_in_set [OF ne] by (simp add: onward_def)
    ultimately show ?thesis by simp
  qed (simp add: a)
  then show ?thesis
    using ne hit_unique(1) [OF assms(1), of "hd (onward rank h k as)"] hd_in_set [OF ne] by (simp add: onward_def)
qed

lemma at_level_0: "sl_rep kt K rank s as \<Longrightarrow> set bs \<subseteq> set as \<Longrightarrow> at_level (sl_heap s) 0 bs = bs"
  using sl_repD(6) by (fastforce simp: sl_node_ok_def filter_id_conv)

abbreviation fits :: "nat \<Rightarrow> addr list option \<Rightarrow> bool" where
  "fits n out \<equiv> case out of None \<Rightarrow> True | Some xs \<Rightarrow> n \<le> length xs"

lemma out_put_fill:
  assumes "case out of None \<Rightarrow> True | Some xs \<Rightarrow> n \<le> length xs" and "level < n"
  shows "\<exists>out'. out_put out level (f level) = ret out' \<and> (case out' of None \<Rightarrow> True | Some xs \<Rightarrow> n \<le> length xs) \<and>
    map_option (fill level f) out' = map_option (fill (Suc level) f) out"
  using assms by (cases out) (auto simp: out_put_def fill_Suc)

text \<open>What a level of the search gives: the predecessor of the key at the level, its successor, and a
  difference of keys that is 0 only if the successor has the key.\<close>

definition level_result :: "(map_key_t \<Rightarrow> int) \<Rightarrow> skiplist_t \<Rightarrow> map_key_t \<Rightarrow> addr list \<Rightarrow> nat \<Rightarrow> addr \<Rightarrow> addr \<Rightarrow> int \<Rightarrow> bool" where
  "level_result rank s k as l p item d \<longleftrightarrow> p = pred_at rank s k as l \<and> item = succ_at rank s k as l \<and>
     (d = 0 \<longrightarrow> item = NULL \<or> item = hit rank (sl_heap s) k as) \<and>
     (l = 0 \<longrightarrow> (if d = 0 then item else NULL) = hit rank (sl_heap s) k as)"

lemma level_resultI:
  assumes "key_order kt K rank" and "sl_rep kt K rank s as" and "k \<in> K"
    and "ys = at_level (sl_heap s) l (onward rank (sl_heap s) k as)"
    and "p = pred_at rank s k as l" and "if ys = [] then True else d = key_diff kt (keyof (sl_heap s) (hd ys)) k"
  shows "level_result rank s k as l p (first ys) d"
proof -
  let ?h = "sl_heap s"
  note R = sl_repD [OF assms(2)]
  have nn: "NULL \<notin> set as" using R(6) by (auto simp: sl_node_ok_def)
  have mem: "hd ys \<in> set as" if "ys \<noteq> []" using hd_in_set [OF that] by (auto simp: assms(4) onward_def)
  note S = sl_side(3) [OF assms(1-3)]
  have h: "hit rank ?h k as = hd ys" if "ys \<noteq> []" "d = 0"
    using assms(6) that S [OF mem [OF that(1)]] by (intro hit_unique(1) [OF R(7) mem [OF that(1)]]) simp
  moreover have "(if d = 0 then first ys else NULL) = hit rank ?h k as" if "l = 0"
  proof -
    have ab: "ys = onward rank ?h k as" using at_level_0 [OF assms(2), of "onward rank ?h k as"] that assms(4) by (simp add: onward_def)
    show ?thesis
    proof (cases ys)
      case Nil
      then show ?thesis using onward_hit [OF R(7) nn, of k] ab by simp
    next
      case (Cons a bs)
      then show ?thesis using onward_hit [OF R(7) nn, of k] ab S [of a] mem assms(6) by auto
    qed
  qed
  moreover have "ys = [] \<and> first ys = NULL \<or> ys \<noteq> [] \<and> first ys = hd ys" by (cases ys) simp_all
  moreover have "first ys = succ_at rank s k as l" by (simp add: succ_at_def assms(4))
  ultimately show ?thesis using assms(5) unfolding level_result_def by metis
qed

text \<open>The predecessor at a level is a place to start from at the level before.\<close>

lemma pred_at_start:
  "pred_at rank s k as l = sl_head s \<or> pred_at rank s k as l \<in> set (before rank (sl_heap s) k as) \<and> l < height (sl_heap s) (pred_at rank s k as l)"
proof (cases "at_level (sl_heap s) l (before rank (sl_heap s) k as) = []")
  case False
  note last_in_set [OF this]
  then show ?thesis using False by (simp add: pred_at_def)
qed (simp add: pred_at_def)


section \<open>Changes of a skip list\<close>

text \<open>The heap agrees on the nodes \<open>as\<close>, links apart.\<close>

definition same_nodes :: "addr set \<Rightarrow> sl_heap_t \<Rightarrow> sl_heap_t \<Rightarrow> bool" where
  "same_nodes A h h' \<longleftrightarrow> (\<forall>a \<in> A. height h' a = height h a \<and> keyof h' a = keyof h a \<and> valof h' a = valof h a \<and> levelsof h' a = levelsof h a)"

lemma same_nodesD:
  assumes "same_nodes A h h'" and "a \<in> A"
  shows "height h' a = height h a" "keyof h' a = keyof h a" "valof h' a = valof h a" "levelsof h' a = levelsof h a"
  using assms by (auto simp: same_nodes_def)

lemma same_nodes_level: "same_nodes A h h' \<Longrightarrow> set bs \<subseteq> A \<Longrightarrow> at_level h' l bs = at_level h l bs"
  by (auto simp: same_nodes_def intro!: filter_cong)

text \<open>A new node: at each of its levels the predecessor points to it and it points to the successor.\<close>

lemma sl_insert_rep:
  assumes "sl_rep kt K rank s as" and "hit rank (sl_heap s) k as = NULL"
    and "sl_head s' = sl_head s" "sl_key_type s' = sl_key_type s" "sl_high_water s' = sl_high_water s"
    and "same_nodes (set (sl_head s # as)) (sl_heap s) (sl_heap s')" and "new \<notin> set (sl_head s # as)"
    and "sl_node_ok K (sl_high_water s) (sl_heap s') new" and "rank (keyof (sl_heap s') new) = rank k"
    and "\<And>l a. l < 24 \<Longrightarrow> a \<in> set (sl_head s # as) \<Longrightarrow>
      nxt (sl_heap s') l a = (if l < height (sl_heap s') new \<and> a = pred_at rank s k as l then new else nxt (sl_heap s) l a)"
    and "\<And>l. l < height (sl_heap s') new \<Longrightarrow> nxt (sl_heap s') l new = succ_at rank s k as l"
    and "sl_pool_ok (sl_pool s') (sl_heap s')"
  shows "sl_rep kt K rank s' (before rank (sl_heap s) k as @ new # onward rank (sl_heap s) k as)"
    and "sl_abs rank s' k' = (if rank k = rank k' then Some (valof (sl_heap s') new) else sl_abs rank s k')"
proof -
  let ?h = "sl_heap s" and ?h' = "sl_heap s'" and ?b = "before rank (sl_heap s) k as" and ?o = "onward rank (sl_heap s) k as"
  note R = sl_repD [OF assms(1)] and D = same_nodesD [OF assms(6)]
  have as: "as = ?b @ ?o" by (rule before_onward [OF R(7)])
  have sub: "set ?b \<subseteq> set as" "set ?o \<subseteq> set as" by (auto simp: before_def onward_def)
  have un: "a \<in> set as \<longleftrightarrow> a \<in> set ?b \<or> a \<in> set ?o" for a by (auto simp: before_def onward_def)
  have nn: "NULL \<notin> set as" using R(6) by (auto simp: sl_node_ok_def)
  have lt: "rank (keyof ?h a) < rank k" if "a \<in> set ?b" for a using that by (simp add: before_def)
  have gt: "rank k < rank (keyof ?h a)" if "a \<in> set ?o" for a
    using that hit_None [OF nn, of rank ?h k] assms(2) by (fastforce simp: onward_def)
  have dist: "distinct (sl_head s # ?b @ ?o)" using R(5) by (subst (asm) as)
  have key: "keyof ?h' a = keyof ?h a" if "a \<in> set ?b \<or> a \<in> set ?o" for a using that sub D(2) by auto
  have sorted: "sorted_wrt (\<lambda>a b. rank (keyof ?h' a) < rank (keyof ?h' b)) (?b @ new # ?o)"
  proof -
    have "sorted_wrt (\<lambda>a b. rank (keyof ?h a) < rank (keyof ?h b)) (?b @ ?o)" using R(7) by (subst (asm) as)
    then have "sorted_wrt (\<lambda>a b. rank (keyof ?h' a) < rank (keyof ?h' b)) ?b" "sorted_wrt (\<lambda>a b. rank (keyof ?h' a) < rank (keyof ?h' b)) ?o"
      unfolding sorted_wrt_append using key by (auto elim!: sorted_wrt_mono_rel [rotated])
    moreover have "rank (keyof ?h' a) < rank k" if "a \<in> set ?b" for a using lt that key by simp
    moreover have "rank k < rank (keyof ?h' a)" if "a \<in> set ?o" for a using gt that key by simp
    ultimately show ?thesis using assms(9) by (force simp: sorted_wrt_append)
  qed
  have shape: "lseg (nxt ?h' l) (nxt ?h' l (sl_head s)) (at_level ?h' l (?b @ new # ?o)) NULL" if l: "l < 24" for l
  proof -
    have lv: "at_level ?h' l ?b = at_level ?h l ?b" "at_level ?h' l ?o = at_level ?h l ?o"
      using same_nodes_level [OF assms(6)] sub by (meson set_subset_Cons subset_trans)+
    have "at_level ?h l as = at_level ?h l ?b @ at_level ?h l ?o" by (subst as) (rule filter_append)
    then have L: "lseg (nxt ?h l) (nxt ?h l (sl_head s)) (at_level ?h l ?b @ at_level ?h l ?o) NULL" using R(8) [OF l] by simp
    have d: "distinct (sl_head s # at_level ?h l ?b @ at_level ?h l ?o)" using dist by auto
    have mem: "a \<in> set (sl_head s # as)" if "a \<in> set (sl_head s # at_level ?h l ?b @ at_level ?h l ?o)" for a
      using that sub by auto
    show ?thesis
    proof (cases "l < height ?h' new")
      case True
      have pm: "pred_at rank s k as l \<in> set (sl_head s # as)" using pred_at_start [of rank s k as l] sub by auto
      have "lseg (nxt ?h' l) (nxt ?h' l (sl_head s)) (at_level ?h l ?b @ new # at_level ?h l ?o) NULL"
        by (rule lseg_insert [OF L d])
          (use assms(10) [OF l pm] assms(10) [OF l mem] assms(11) [OF True] True in \<open>auto simp: pred_at_def succ_at_def\<close>)
      then show ?thesis using True lv by simp
    next
      case False
      have "lseg (nxt ?h' l) (nxt ?h' l (sl_head s)) (at_level ?h l ?b @ at_level ?h l ?o) NULL =
          lseg (nxt ?h l) (nxt ?h' l (sl_head s)) (at_level ?h l ?b @ at_level ?h l ?o) NULL"
        by (rule lseg_frame) (use assms(10) [OF l mem] False in auto)
      then show ?thesis using False lv L assms(10) [OF l, of "sl_head s"] by simp
    qed
  qed
  show rep: "sl_rep kt K rank s' (?b @ new # ?o)"
    unfolding sl_rep_def sl_shape_def MAX_LEVELS_def assms(3-5)
    using R(1-6) D(1) [of "sl_head s"] dist assms(7,8,12) sub sorted shape D
    by (auto simp: sl_node_ok_def)
  have "sl_assoc rank ?h' (?b @ new # ?o) = (sl_assoc rank ?h as)(rank k := sl_assoc rank ?h' (?b @ new # ?o) (rank k))"
    by (rule sl_assoc_change [OF R(7) sorted]) (use assms(9) D(2,3) un in auto)
  moreover have "sl_assoc rank ?h' (?b @ new # ?o) (rank k) = Some (valof ?h' new)"
    using assms(9) unfolding sl_assoc_Some [OF sorted] by auto
  ultimately show "sl_abs rank s' k' = (if rank k = rank k' then Some (valof ?h' new) else sl_abs rank s k')"
    by (simp add: sl_abs_eq [OF rep] sl_abs_eq [OF assms(1)])
qed

text \<open>A node taken out: at each of its levels the predecessor points to what followed it.\<close>

lemma sl_remove_rep:
  assumes "sl_rep kt K rank s as" and "m = hit rank (sl_heap s) k as" and "m \<noteq> NULL"
    and "sl_head s' = sl_head s" "sl_key_type s' = sl_key_type s" "sl_high_water s' = sl_high_water s"
    and "same_nodes (set (sl_head s # as) - {m}) (sl_heap s) (sl_heap s')"
    and "\<And>l a. l < 24 \<Longrightarrow> a \<in> set (sl_head s # as) \<Longrightarrow> a \<noteq> m \<Longrightarrow>
      nxt (sl_heap s') l a = (if l < height (sl_heap s) m \<and> a = pred_at rank s k as l then nxt (sl_heap s) l m else nxt (sl_heap s) l a)"
    and "sl_pool_ok (sl_pool s') (sl_heap s')"
  shows "sl_rep kt K rank s' (filter (\<lambda>a. a \<noteq> m) as)"
    and "sl_abs rank s' k' = (if rank k = rank k' then None else sl_abs rank s k')"
proof -
  let ?h = "sl_heap s" and ?h' = "sl_heap s'" and ?b = "before rank (sl_heap s) k as"
  let ?as = "filter (\<lambda>a. a \<noteq> m) as"
  note R = sl_repD [OF assms(1)] and D = same_nodesD [OF assms(7)]
  have m: "m \<in> set as" "rank (keyof ?h m) = rank k" using hit_in [of rank ?h k as] assms(2,3) by simp_all
  have nn: "NULL \<notin> set as" using R(6) by (auto simp: sl_node_ok_def)
  have "onward rank ?h k as \<noteq> [] \<and> hd (onward rank ?h k as) = m"
    using onward_hit [OF R(7) nn, of k] assms(2,3) by metis
  then obtain os where o: "onward rank ?h k as = m # os" by (metis list.collapse)
  have as: "as = ?b @ m # os" using before_onward [OF R(7), of k] o by simp
  have dist: "distinct (sl_head s # ?b @ m # os)" using R(5) by (subst (asm) as)
  have "filter (\<lambda>a. a \<noteq> m) ?b = ?b" "filter (\<lambda>a. a \<noteq> m) os = os" using dist by (auto simp: filter_id_conv)
  then have as': "?as = ?b @ os" by (subst as) simp
  have sets: "set as = set ?b \<union> insert m (set os)" by (subst as) simp
  have D': "height ?h' a = height ?h a" "keyof ?h' a = keyof ?h a" "valof ?h' a = valof ?h a" "levelsof ?h' a = levelsof ?h a"
    if "a \<in> set ?as" for a using D [of a] that by auto
  have sorted: "sorted_wrt (\<lambda>a b. rank (keyof ?h' a) < rank (keyof ?h' b)) ?as"
    by (rule sorted_wrt_mono_rel [OF _ sorted_wrt_filter [OF R(7)]]) (simp add: D')
  have shape: "lseg (nxt ?h' l) (nxt ?h' l (sl_head s)) (at_level ?h' l ?as) NULL" if l: "l < 24" for l
  proof -
    have lv: "at_level ?h' l ?as = at_level ?h l ?b @ at_level ?h l os"
      using filter_cong [OF refl, of ?as "\<lambda>a. l < height ?h' a" "\<lambda>a. l < height ?h a"] D'(1) as' by simp
    have "at_level ?h l as = at_level ?h l ?b @ at_level ?h l (m # os)" by (subst as) (rule filter_append)
    then have L: "lseg (nxt ?h l) (nxt ?h l (sl_head s)) (at_level ?h l ?b @ at_level ?h l (m # os)) NULL" using R(8) [OF l] by simp
    have d: "distinct (sl_head s # at_level ?h l ?b @ at_level ?h l os)" using dist by auto
    have in_as: "a \<in> set (sl_head s # as)" "a \<noteq> m" if "a \<in> set (sl_head s # at_level ?h l ?b @ at_level ?h l os)" for a
      using that dist sets by auto
    have N: "nxt ?h' l a = (if l < height ?h m \<and> a = pred_at rank s k as l then nxt ?h l m else nxt ?h l a)"
      if "a \<in> set (sl_head s # at_level ?h l ?b @ at_level ?h l os)" for a
      using assms(8) [OF l] in_as [OF that] by blast
    have pin: "pred_at rank s k as l \<in> set (sl_head s # at_level ?h l ?b @ at_level ?h l os)"
      using last_in_set [of "sl_head s # at_level ?h l ?b"] by (auto simp: pred_at_def)
    show ?thesis
    proof (cases "l < height ?h m")
      case True
      then obtain "lseg (nxt ?h l) (nxt ?h l (sl_head s)) (at_level ?h l ?b) m" "lseg (nxt ?h l) (nxt ?h l m) (at_level ?h l os) NULL"
        using L by (auto simp: lseg_append)
      then show ?thesis
        unfolding lv by (rule lseg_bypass [OF _ _ d]) (use N [OF pin] N True in \<open>auto simp: pred_at_def\<close>)
    next
      case False
      have "lseg (nxt ?h' l) (nxt ?h' l (sl_head s)) (at_level ?h l ?b @ at_level ?h l os) NULL =
          lseg (nxt ?h l) (nxt ?h' l (sl_head s)) (at_level ?h l ?b @ at_level ?h l os) NULL"
        by (rule lseg_frame) (use N False in auto)
      then show ?thesis using False lv L N [of "sl_head s"] by simp
    qed
  qed
  have hd: "sl_head s \<noteq> m" using dist by auto
  show rep: "sl_rep kt K rank s' ?as"
    unfolding sl_rep_def sl_shape_def MAX_LEVELS_def assms(4-6)
    using R(1-6) D(1) [of "sl_head s"] hd assms(9) sorted shape D'
    by (auto simp: sl_node_ok_def)
  have "sl_assoc rank ?h' ?as = (sl_assoc rank ?h as)(rank k := sl_assoc rank ?h' ?as (rank k))"
    by (rule sl_assoc_change [OF R(7) sorted]) (use m D' in auto)
  moreover have "sl_assoc rank ?h' ?as (rank k) = None"
  proof (rule ccontr)
    assume "sl_assoc rank ?h' ?as (rank k) \<noteq> None"
    then obtain a where a: "a \<in> set ?as" "rank (keyof ?h' a) = rank k" using sl_assoc_Some [OF sorted] by fastforce
    then have "hit rank ?h k as = a" using D'(2) by (intro hit_unique(1) [OF R(7)]) auto
    then show False using a(1) assms(2) by simp
  qed
  ultimately show "sl_abs rank s' k' = (if rank k = rank k' then None else sl_abs rank s k')"
    by (simp add: sl_abs_eq [OF rep] sl_abs_eq [OF assms(1)])
qed

lemma valof_upd: "sl_heap s m \<noteq> None \<Longrightarrow> valof (sl_heap (sl_upd m (\<lambda>nd. nd\<lparr>sn_val := v\<rparr>) s)) a = (if a = m then v else valof (sl_heap s) a)"
  "height (sl_heap (sl_upd m (\<lambda>nd. nd\<lparr>sn_val := v\<rparr>) s)) a = height (sl_heap s) a"
  "keyof (sl_heap (sl_upd m (\<lambda>nd. nd\<lparr>sn_val := v\<rparr>) s)) a = keyof (sl_heap s) a"
  "levelsof (sl_heap (sl_upd m (\<lambda>nd. nd\<lparr>sn_val := v\<rparr>) s)) a = levelsof (sl_heap s) a"
  "nxt (sl_heap (sl_upd m (\<lambda>nd. nd\<lparr>sn_val := v\<rparr>) s)) l a = nxt (sl_heap s) l a"
  "sl_heap (sl_upd m (\<lambda>nd. nd\<lparr>sn_val := v\<rparr>) s) a = None \<longleftrightarrow> sl_heap s a = None"
  by (auto simp: sl_upd_def node_defs levelsof_def split: option.splits)

text \<open>A new value for a node.\<close>

lemma sl_update_rep:
  assumes "sl_rep kt K rank s as" and "m = hit rank (sl_heap s) k as" and "m \<noteq> NULL" and "v \<noteq> 0"
    and "s' = sl_upd m (\<lambda>nd. nd\<lparr>sn_val := v\<rparr>) s"
  shows "sl_rep kt K rank s' as" and "sl_abs rank s' k' = (if rank k = rank k' then Some v else sl_abs rank s k')"
proof -
  let ?h = "sl_heap s" and ?h' = "sl_heap s'"
  note R = sl_repD [OF assms(1)]
  have m: "m \<in> set as" "rank (keyof ?h m) = rank k" using hit_in [of rank ?h k as] assms(2,3) by simp_all
  have "?h m \<noteq> None" using R(6) [OF m(1)] by (auto simp: sl_node_ok_def height_def split: option.splits)
  note V = valof_upd(1) [OF this, of v, folded assms(5)] valof_upd(2-) [of m v s, folded assms(5)]
  have sel: "sl_head s' = sl_head s" "sl_key_type s' = sl_key_type s" "sl_high_water s' = sl_high_water s" "sl_pool s' = sl_pool s"
    by (simp_all add: assms(5))
  have n: "nxt ?h' l = nxt ?h l" for l by (rule ext) (rule V(5))
  have sorted: "sorted_wrt (\<lambda>a b. rank (keyof ?h' a) < rank (keyof ?h' b)) as" using R(7) by (simp add: V)
  show rep: "sl_rep kt K rank s' as"
    using R(1-6,8,9) sorted assms(4) sel
    by (auto simp: sl_rep_def sl_shape_def MAX_LEVELS_def n V sl_node_ok_def sl_pool_ok_def)
  have "sl_assoc rank ?h' as = (sl_assoc rank ?h as)(rank k := sl_assoc rank ?h' as (rank k))"
  proof (rule sl_assoc_change [OF R(7) sorted])
    fix a
    show "rank (keyof ?h a) \<noteq> rank k \<Longrightarrow> a \<in> set as \<Longrightarrow> a \<in> set as \<and> keyof ?h' a = keyof ?h a \<and> valof ?h' a = valof ?h a"
      using m(2) V(1) [of a] V(3) [of a] by (cases "a = m") simp_all
    show "rank (keyof ?h' a) \<noteq> rank k \<Longrightarrow> a \<in> set as \<Longrightarrow> a \<in> set as \<and> keyof ?h' a = keyof ?h a \<and> valof ?h' a = valof ?h a"
      using m(2) V(1) [of a] V(3) [of a] by (cases "a = m") simp_all
  qed
  moreover have "sl_assoc rank ?h' as (rank k) = Some v"
    unfolding sl_assoc_Some [OF sorted] using m by (intro bexI [of _ m]) (simp_all add: V)
  ultimately show "sl_abs rank s' k' = (if rank k = rank k' then Some v else sl_abs rank s k')"
    by (simp add: sl_abs_eq [OF rep] sl_abs_eq [OF assms(1)])
qed

text \<open>Links set at several levels.\<close>

definition set_levels :: "(nat \<Rightarrow> addr) \<Rightarrow> (nat \<Rightarrow> markable_t) \<Rightarrow> nat list \<Rightarrow> skiplist_t \<Rightarrow> skiplist_t" where
  "set_levels A X ls s = fold (\<lambda>l. sl_set_next (A l) l (X l)) ls s"

lemma set_levels_simps [simp]:
  "set_levels A X [] s = s" "set_levels A X (l # ls) s = set_levels A X ls (sl_set_next (A l) l (X l) s)"
  by (simp_all add: set_levels_def)

lemma levelsof_set_next [simp]: "levelsof (sl_heap (sl_set_next a l x s)) b = levelsof (sl_heap s) b"
  by (auto simp: sl_set_next_def sl_upd_def levelsof_def split: option.splits)

lemma set_levels_sel [simp]:
  "sl_head (set_levels A X ls s) = sl_head s" "sl_key_type (set_levels A X ls s) = sl_key_type s"
  "sl_high_water (set_levels A X ls s) = sl_high_water s" "sl_pool (set_levels A X ls s) = sl_pool s"
  "sl_rnd (set_levels A X ls s) = sl_rnd s" "sl_deferred (set_levels A X ls s) = sl_deferred s" "sl_freed (set_levels A X ls s) = sl_freed s"
  "height (sl_heap (set_levels A X ls s)) b = height (sl_heap s) b" "keyof (sl_heap (set_levels A X ls s)) b = keyof (sl_heap s) b"
  "valof (sl_heap (set_levels A X ls s)) b = valof (sl_heap s) b" "levelsof (sl_heap (set_levels A X ls s)) b = levelsof (sl_heap s) b"
  "sl_heap (set_levels A X ls s) b = None \<longleftrightarrow> sl_heap s b = None"
  by (induction ls arbitrary: s) simp_all

lemma set_levels_nxt:
  assumes "\<And>l. l \<in> set ls \<Longrightarrow> l < height (sl_heap s) (A l)" and "distinct ls"
  shows "nxt (sl_heap (set_levels A X ls s)) l b = (if l \<in> set ls \<and> b = A l then X l else nxt (sl_heap s) l b)"
  using assms by (induction ls arbitrary: s) (auto simp: nxt_set_next)

lemma sl_hit_abs:
  assumes "sl_rep kt K rank s as" and "m = hit rank (sl_heap s) k as"
  shows "sl_abs rank s k = (if m = NULL then None else Some (valof (sl_heap s) m))"
    and "m \<noteq> NULL \<Longrightarrow> 0 < height (sl_heap s) m \<and> m \<in> set as \<and> valof (sl_heap s) m \<noteq> 0 \<and> height (sl_heap s) m \<le> sl_high_water s \<and>
      levelsof (sl_heap s) m = height (sl_heap s) m"
proof -
  note R = sl_repD [OF assms(1)]
  have nn: "NULL \<notin> set as" using R(6) by (auto simp: sl_node_ok_def)
  have m: "m \<in> set as" "rank (keyof (sl_heap s) m) = rank k" if "m \<noteq> NULL"
    using hit_in [of rank "sl_heap s" k as] assms(2) that by simp_all
  show "sl_abs rank s k = (if m = NULL then None else Some (valof (sl_heap s) m))"
  proof (cases "m = NULL")
    case True
    then have "\<forall>a \<in> set as. rank (keyof (sl_heap s) a) \<noteq> rank k" using hit_None [OF nn] assms(2) by metis
    then show ?thesis using True sl_assoc_Some [OF R(7), of "rank k"] by (auto simp: sl_abs_eq [OF assms(1)])
  next
    case False
    then show ?thesis using m sl_assoc_Some [OF R(7), of "rank k"] by (auto simp: sl_abs_eq [OF assms(1)])
  qed
  show "m \<noteq> NULL \<Longrightarrow> 0 < height (sl_heap s) m \<and> m \<in> set as \<and> valof (sl_heap s) m \<noteq> 0 \<and> height (sl_heap s) m \<le> sl_high_water s \<and>
      levelsof (sl_heap s) m = height (sl_heap s) m"
    using m R(6) [of m] by (auto simp: sl_node_ok_def)
qed

text \<open>The state of a skip list after the random choice of a number of levels.\<close>

lemma sl_rep_rnd:
  assumes "sl_rep kt K rank s as" and "sl_high_water s \<le> hw" and "hw \<le> 20"
  shows "sl_rep kt K rank (s\<lparr>sl_rnd := r, sl_high_water := hw\<rparr>) as" and "sl_abs rank (s\<lparr>sl_rnd := r, sl_high_water := hw\<rparr>) = sl_abs rank s"
  using assms by (auto simp: sl_rep_def sl_node_ok_def sl_abs_def sl_nodes_def fun_eq_iff)

text \<open>The new node before it is linked.\<close>

abbreviation fresh_node :: "nat \<Rightarrow> map_key_t \<Rightarrow> map_val_t \<Rightarrow> sl_node" where
  "fresh_node n k v \<equiv> \<lparr>sn_key = k, sn_val = v, sn_num_levels = n, sn_next = replicate n 0\<rparr>"

definition linked_in :: "(map_key_t \<Rightarrow> int) \<Rightarrow> skiplist_t \<Rightarrow> map_key_t \<Rightarrow> addr list \<Rightarrow> addr \<Rightarrow> nat \<Rightarrow> map_key_t \<Rightarrow> map_val_t \<Rightarrow> addr list \<Rightarrow>
    skiplist_t" where
  "linked_in rank s k as new n key v pool =
     set_levels (pred_at rank s k as) (\<lambda>_. new) [0..<n]
       (set_levels (\<lambda>_. new) (succ_at rank s k as) [0..<n]
          (s\<lparr>sl_pool := pool, sl_heap := (sl_heap s)(new \<mapsto> fresh_node n key v)\<rparr>))"

lemma pred_at_height:
  assumes "sl_rep kt K rank s as" and "l < 24"
  shows "pred_at rank s k as l \<in> set (sl_head s # as)" and "l < height (sl_heap s) (pred_at rank s k as l)"
  using pred_at_start [of rank s k as l] sl_repD(4) [OF assms(1)] assms(2) by (auto simp: before_def)

lemma linked_in_rep:
  assumes "sl_rep kt K rank s as" and "hit rank (sl_heap s) k as = NULL" and "sl_pool s = new # pool"
    and "0 < n" and "n \<le> sl_high_water s" and "key \<in> K" and "rank key = rank k" and "v \<noteq> 0"
  shows "sl_inv kt K rank (linked_in rank s k as new n key v pool)"
    and "sl_abs rank (linked_in rank s k as new n key v pool) k' = (if rank k = rank k' then Some v else sl_abs rank s k')"
proof -
  let ?h = "sl_heap s"
  define s1 where "s1 = s\<lparr>sl_pool := pool, sl_heap := ?h(new \<mapsto> fresh_node n key v)\<rparr>"
  define s2 where "s2 = set_levels (\<lambda>_. new) (succ_at rank s k as) [0..<n] s1"
  define s3 where "s3 = set_levels (pred_at rank s k as) (\<lambda>_. new) [0..<n] s2"
  have s3: "linked_in rank s k as new n key v pool = s3" by (simp add: linked_in_def s3_def s2_def s1_def)
  note R = sl_repD [OF assms(1)]
  have pool: "distinct (new # pool)" "\<And>a. a \<in> set (new # pool) \<Longrightarrow> a \<noteq> NULL \<and> \<not> HAS_MARK a \<and> ?h a = None"
    using R(9) assms(3) by (auto simp: sl_pool_ok_def)
  have new: "?h new = None" using pool(2) by simp
  have hp: "0 < height ?h a" if "a \<in> set (sl_head s # as)" for a using that R(4) R(6) by (auto simp: sl_node_ok_def)
  have nin: "new \<notin> set (sl_head s # as)" using hp [of new] new by (auto simp: height_def)
  have n24: "n \<le> 24" using assms(5) R(3) by simp
  have sel1: "height (sl_heap s1) a = (if a = new then n else height ?h a)" "keyof (sl_heap s1) a = (if a = new then key else keyof ?h a)"
    "valof (sl_heap s1) a = (if a = new then v else valof ?h a)" "levelsof (sl_heap s1) a = (if a = new then n else levelsof ?h a)" for a
    by (auto simp: s1_def node_defs levelsof_def)
  have nx1: "a \<noteq> new \<Longrightarrow> nxt (sl_heap s1) l a = nxt ?h l a" for a l by (simp add: s1_def nxt_def)
  have P: "pred_at rank s k as l \<in> set (sl_head s # as)" "l < height ?h (pred_at rank s k as l)" if "l < n" for l
    using pred_at_height [OF assms(1)] that n24 by (meson order_less_le_trans)+
  have nx2: "nxt (sl_heap s2) l a = (if l < n \<and> a = new then succ_at rank s k as l else nxt (sl_heap s1) l a)" for l a
    unfolding s2_def by (subst set_levels_nxt) (auto simp: sel1)
  have Pn: "pred_at rank s k as l \<noteq> new" if "l < n" for l using P(1) [OF that] nin by metis
  have h3: "l < height (sl_heap s2) (pred_at rank s k as l)" if "l \<in> set [0..<n]" for l
    using P(2) [of l] Pn [of l] that by (simp add: s2_def sel1)
  have nx3: "nxt (sl_heap s3) l a = (if l < n \<and> a = pred_at rank s k as l then new else nxt (sl_heap s2) l a)" for l a
    unfolding s3_def using set_levels_nxt [OF h3, of "[0..<n]" "\<lambda>_. new" l a] by simp
  have sel3: "height (sl_heap s3) a = (if a = new then n else height ?h a)" "keyof (sl_heap s3) a = (if a = new then key else keyof ?h a)"
    "valof (sl_heap s3) a = (if a = new then v else valof ?h a)" "levelsof (sl_heap s3) a = (if a = new then n else levelsof ?h a)" for a
    by (simp_all add: s3_def s2_def sel1)
  have st: "sl_head s3 = sl_head s" "sl_key_type s3 = sl_key_type s" "sl_high_water s3 = sl_high_water s" "sl_pool s3 = pool"
    by (simp_all add: s3_def s2_def s1_def)
  have I: "sl_rep kt K rank s3 (before rank ?h k as @ new # onward rank ?h k as) \<and>
    sl_abs rank s3 k' = (if rank k = rank k' then Some (valof (sl_heap s3) new) else sl_abs rank s k')"
  proof (intro conjI)
    have same: "same_nodes (set (sl_head s # as)) ?h (sl_heap s3)" unfolding same_nodes_def using nin by (auto simp: sel3)
    have ok: "sl_node_ok K (sl_high_water s) (sl_heap s3) new" using assms(4-8) pool(2) by (simp add: sl_node_ok_def sel3)
    have rk: "rank (keyof (sl_heap s3) new) = rank k" using assms(7) by (simp add: sel3)
    have A: "nxt (sl_heap s3) l a = (if l < height (sl_heap s3) new \<and> a = pred_at rank s k as l then new else nxt ?h l a)"
      if "l < 24" "a \<in> set (sl_head s # as)" for l a
    proof -
      have "a \<noteq> new" using that(2) nin by metis
      then show ?thesis by (simp add: nx3 nx2 nx1 sel3)
    qed
    have B: "nxt (sl_heap s3) l new = succ_at rank s k as l" if "l < height (sl_heap s3) new" for l
      using that Pn by (auto simp: nx3 nx2 sel3)
    have po: "sl_pool_ok (sl_pool s3) (sl_heap s3)"
      using pool unfolding st sl_pool_ok_def by (auto simp: s3_def s2_def s1_def)
    show "sl_rep kt K rank s3 (before rank ?h k as @ new # onward rank ?h k as)"
      by (rule sl_insert_rep(1) [OF assms(1,2) st(1-3) same nin ok rk A B po])
    show "sl_abs rank s3 k' = (if rank k = rank k' then Some (valof (sl_heap s3) new) else sl_abs rank s k')"
      by (rule sl_insert_rep(2) [OF assms(1,2) st(1-3) same nin ok rk A B po])
  qed
  then show "sl_inv kt K rank (linked_in rank s k as new n key v pool)" by (auto simp: s3 sl_inv_def)
  show "sl_abs rank (linked_in rank s k as new n key v pool) k' = (if rank k = rank k' then Some v else sl_abs rank s k')"
    using I by (simp add: s3 sel3)
qed

text \<open>The levels of a node that are still to be bypassed, and the bypass.\<close>

definition levels_below :: "nat \<Rightarrow> sl_heap_t \<Rightarrow> addr \<Rightarrow> nat list" where
  "levels_below level h m = rev (filter (\<lambda>l. l < height h m) [0..<level])"

lemma levels_below_Suc: "levels_below (Suc l) h m = (if l < height h m then l # levels_below l h m else levels_below l h m)"
  by (simp add: levels_below_def)

lemma level_hit:
  assumes "key_order kt K rank" and "sl_rep kt K rank s as" and "k \<in> K" and "m = hit rank (sl_heap s) k as" and "m \<noteq> NULL"
    and "ys = at_level (sl_heap s) l (onward rank (sl_heap s) k as)"
  shows "l < height (sl_heap s) m \<longleftrightarrow> ys \<noteq> [] \<and> key_diff kt (keyof (sl_heap s) (hd ys)) k = 0" and "l < height (sl_heap s) m \<Longrightarrow> hd ys = m"
proof -
  let ?h = "sl_heap s"
  note R = sl_repD [OF assms(2)]
  have nn: "NULL \<notin> set as" using R(6) by (auto simp: sl_node_ok_def)
  have m: "m \<in> set as" "rank (keyof ?h m) = rank k" using hit_in [of rank ?h k as] assms(4,5) by simp_all
  have "onward rank ?h k as \<noteq> [] \<and> hd (onward rank ?h k as) = m" using onward_hit [OF R(7) nn, of k] assms(4,5) by metis
  then obtain os where o: "onward rank ?h k as = m # os" by (metis list.collapse)
  have d: "key_diff kt (keyof ?h m) k = 0" using sl_side(3) [OF assms(1-3) m(1)] m(2) by simp
  show 1: "hd ys = m" if "l < height ?h m" using that by (simp add: assms(6) o)
  show "l < height ?h m \<longleftrightarrow> ys \<noteq> [] \<and> key_diff kt (keyof ?h (hd ys)) k = 0"
  proof
    assume "l < height ?h m"
    then show "ys \<noteq> [] \<and> key_diff kt (keyof ?h (hd ys)) k = 0" using 1 d by (auto simp: assms(6) o)
  next
    assume y: "ys \<noteq> [] \<and> key_diff kt (keyof ?h (hd ys)) k = 0"
    then have "hd ys \<in> set ys" by simp
    then have h: "hd ys \<in> set as" "l < height ?h (hd ys)" by (simp_all add: assms(6) onward_def)
    then have "hit rank ?h k as = hd ys" using y sl_side(3) [OF assms(1-3) h(1)] by (intro hit_unique(1) [OF R(7)]) auto
    then show "l < height ?h m" using h(2) assms(4) by simp
  qed
qed

lemma set_levels_below:
  assumes "sl_rep kt K rank s as" and "level \<le> 24"
  shows "nxt (sl_heap (set_levels (pred_at rank s k as) X (levels_below level (sl_heap s) m) s)) l a =
    (if l < level \<and> l < height (sl_heap s) m \<and> a = pred_at rank s k as l then X l else nxt (sl_heap s) l a)"
proof (subst set_levels_nxt)
  show "l < height (sl_heap s) (pred_at rank s k as l)" if "l \<in> set (levels_below level (sl_heap s) m)" for l
    using that pred_at_height(2) [OF assms(1), of l k] assms(2) by (simp add: levels_below_def)
qed (auto simp: levels_below_def)

lemma level_0: "sl_rep kt K rank s as \<Longrightarrow> lseg (nxt (sl_heap s) 0) (nxt (sl_heap s) 0 (sl_head s)) as NULL"
  using sl_repD(8) [of kt K rank s as 0] at_level_0 [of kt K rank s as as] by simp

lemma sl_next_head: "sl_rep kt K rank s as \<Longrightarrow> sl_next s (sl_head s) 0 = ret (first as)"
  using sl_next_ok [of 0 s "sl_head s"] sl_repD(4) [of kt K rank s as] lseg_first [OF level_0] by simp

lemma sl_card_abs:
  assumes "sl_rep kt K rank s as"
  shows "card (dom (sl_assoc rank (sl_heap s) (sl_nodes s))) = length as"
proof -
  have "distinct (map fst (map (\<lambda>a. (rank (keyof (sl_heap s) a), valof (sl_heap s) a)) as))"
    using sl_repD(7) [OF assms] by (induction as) auto
  from distinct_card [OF this] show ?thesis
    by (simp add: sl_nodes_eq [OF assms] sl_assoc_def dom_map_of_conv_image_fst image_image)
qed

text \<open>Keys that are ordered, and the arrays on the stack that an update works with.\<close>

locale level_keys = ordered_keys +
  fixes junk :: "addr list"
  assumes junk_size: "24 \<le> length junk"

end
