(* ===== verification/Unsafe_Skiplist.thy ===== *)
theory Unsafe_Skiplist
  imports Skiplist_Shape
begin

text \<open>
  Model of \<^verbatim>\<open>src/src/map/unsafe_skiplist.c\<close>, the skip list for one thread. The functions carry
  the suffix \<open>_seq\<close> where \<^verbatim>\<open>skiplist.c\<close> has a function of the same name.
\<close>

section \<open>Operations\<close>

definition random_levels_seq :: "skiplist_t \<Rightarrow> (nat \<times> skiplist_t) prog" where
  "random_levels_seq s = random_levels s" \<comment> \<open>the two files have the same function\<close>

definition node_alloc_seq :: "nat \<Rightarrow> map_key_t \<Rightarrow> map_val_t \<Rightarrow> skiplist_t \<Rightarrow> (addr \<times> skiplist_t) prog" where
  "node_alloc_seq num_levels key val s =
     pbind (passert (num_levels > 0 \<and> num_levels \<le> MAX_LEVELS)) (\<lambda>_.
     case sl_pool s of
       [] \<Rightarrow> fail Exit_Failure
     | item # pool \<Rightarrow> ret (item, s\<lparr>sl_pool := pool, sl_heap := (sl_heap s)(item \<mapsto>
         \<lparr>sn_key = key, sn_val = val, sn_num_levels = num_levels, sn_next = replicate num_levels 0\<rparr>)\<rparr>))"

definition sl_alloc_seq :: "datatype_t option \<Rightarrow> addr list \<Rightarrow> rnd_state \<Rightarrow> skiplist_t prog" where
  "sl_alloc_seq key_type pool rnd =
     pbind (node_alloc_seq MAX_LEVELS 0 0 \<lparr>sl_head = 0, sl_key_type = key_type, sl_high_water = 1, sl_heap = (\<lambda>_. None),
       sl_pool = pool, sl_deferred = [], sl_freed = [], sl_rnd = rnd\<rparr>) (\<lambda>(head, s).
     ret (sl_upd head (\<lambda>nd. nd\<lparr>sn_next := replicate MAX_LEVELS 0\<rparr>) (s\<lparr>sl_head := head\<rparr>)))"

partial_function (option) sl_free_loop_seq :: "addr \<Rightarrow> skiplist_t \<Rightarrow> skiplist_t prog" where
  "sl_free_loop_seq item s =
     (if item = NULL then ret s
      else pbind (sl_load s item) (\<lambda>nd.
           pbind (sl_next s item 0) (\<lambda>next.
           sl_free_loop_seq next (sl_nbd_free item (sl_free_key (sn_key nd) s)))))"

definition sl_free_seq :: "skiplist_t \<Rightarrow> skiplist_t prog" where
  "sl_free_seq s = pbind (sl_next s (sl_head s) 0) (\<lambda>item. sl_free_loop_seq item s)"

partial_function (option) sl_count_loop_seq :: "addr \<Rightarrow> size_t \<Rightarrow> skiplist_t \<Rightarrow> size_t prog" where
  "sl_count_loop_seq item cnt s =
     (if item = NULL then ret cnt
      else pbind (sl_next s item 0) (\<lambda>next. sl_count_loop_seq next (cnt + 1) s))"

definition sl_count_seq :: "skiplist_t \<Rightarrow> size_t prog" where
  "sl_count_seq s = pbind (sl_next s (sl_head s) 0) (\<lambda>item. sl_count_loop_seq item 0 s)"

text \<open>The loop of \<^verbatim>\<open>find_preds\<close> along one level; the result holds the last predecessor, the item
  after it and the last difference of keys.\<close>

partial_function (option) find_preds_walk_seq ::
  "bool \<Rightarrow> map_key_t \<Rightarrow> nat \<Rightarrow> addr \<Rightarrow> addr \<Rightarrow> int \<Rightarrow> skiplist_t \<Rightarrow> ((addr \<times> addr \<times> int) \<times> skiplist_t) prog" where
  "find_preds_walk_seq unlink key level pred item d s =
     (if item = NULL then ret ((pred, item, d), s)
      else
        pbind (sl_next s item level) (\<lambda>next.
        pbind (sl_load s item) (\<lambda>nd.
        let d = key_diff (sl_key_type s) (sn_key nd) key
        in if d \<ge> 0 then
             if d = 0 \<and> unlink then
               pbind (sl_put_next s pred level next) (\<lambda>s.
               let item = next
               in pbind (if item \<noteq> NULL then sl_next s item level else ret DOES_NOT_EXIST) (\<lambda>next.
                  ret ((pred, item, d), s)))
             else ret ((pred, item, d), s)
           else find_preds_walk_seq unlink key level item next d s)))"

text \<open>The loop over the levels; \<open>Suc level\<close> levels are left.\<close>

primrec find_preds_levels_seq :: "bool \<Rightarrow> nat \<Rightarrow> map_key_t \<Rightarrow> nat \<Rightarrow> addr \<Rightarrow> addr \<Rightarrow> int \<Rightarrow> addr list option \<Rightarrow> addr list option \<Rightarrow>
    skiplist_t \<Rightarrow> ((addr \<times> addr list option \<times> addr list option) \<times> skiplist_t) prog" where
  "find_preds_levels_seq unlink n key 0 pred item d preds succs s = ret ((if d = 0 then item else NULL, preds, succs), s)"
| "find_preds_levels_seq unlink n key (Suc level) pred item d preds succs s =
     pbind (sl_next s pred level) (\<lambda>next.
     if next = DOES_NOT_EXIST \<and> level \<ge> n then find_preds_levels_seq unlink n key level pred item d preds succs s
     else
       pbind (find_preds_walk_seq unlink key level pred next d s) (\<lambda>((pred, item, d), s).
       pbind (if level < n then out_put preds level pred else ret preds) (\<lambda>preds.
       pbind (if level < n then out_put succs level item else ret succs) (\<lambda>succs.
       find_preds_levels_seq unlink n key level pred item d preds succs s))))"

definition find_preds_seq :: "addr list option \<Rightarrow> addr list option \<Rightarrow> nat \<Rightarrow> skiplist_t \<Rightarrow> map_key_t \<Rightarrow> bool \<Rightarrow>
    ((addr \<times> addr list option \<times> addr list option) \<times> skiplist_t) prog" where
  "find_preds_seq preds succs n s key unlink =
     find_preds_levels_seq unlink n key (sl_high_water s) (sl_head s) NULL 0 preds succs s"

definition sl_lookup_seq :: "skiplist_t \<Rightarrow> map_key_t \<Rightarrow> (map_val_t \<times> skiplist_t) prog" where
  "sl_lookup_seq s key =
     pbind (find_preds_seq None None 0 s key False) (\<lambda>((item, _, _), s).
     if item \<noteq> NULL then pbind (sl_load s item) (\<lambda>nd. ret (sn_val nd, s)) else ret (DOES_NOT_EXIST, s))"

definition sl_min_key_seq :: "skiplist_t \<Rightarrow> map_key_t prog" where
  "sl_min_key_seq s =
     pbind (sl_next s (sl_head s) 0) (\<lambda>item.
     if item \<noteq> NULL then pbind (sl_load s item) (\<lambda>nd. ret (sn_key nd)) else ret DOES_NOT_EXIST)"

text \<open>The two loops of \<^verbatim>\<open>sl_cas\<close>, over the levels from \<open>level\<close> to \<open>level + n\<close>.\<close>

primrec sl_cas_set_nexts_seq :: "nat \<Rightarrow> nat \<Rightarrow> addr \<Rightarrow> addr list option \<Rightarrow> skiplist_t \<Rightarrow> skiplist_t prog" where
  "sl_cas_set_nexts_seq level 0 new_item nexts s = ret s"
| "sl_cas_set_nexts_seq level (Suc n) new_item nexts s =
     pbind (out_get nexts level) (\<lambda>x.
     pbind (sl_put_next s new_item level x) (\<lambda>s. sl_cas_set_nexts_seq (level + 1) n new_item nexts s))"

primrec sl_cas_link_seq :: "nat \<Rightarrow> nat \<Rightarrow> addr \<Rightarrow> addr list option \<Rightarrow> skiplist_t \<Rightarrow> skiplist_t prog" where
  "sl_cas_link_seq level 0 new_item preds s = ret s"
| "sl_cas_link_seq level (Suc n) new_item preds s =
     pbind (out_get preds level) (\<lambda>pred.
     pbind (sl_put_next s pred level new_item) (\<lambda>s. sl_cas_link_seq (level + 1) n new_item preds s))"

text \<open>The arrays \<^verbatim>\<open>preds\<close> and \<^verbatim>\<open>nexts\<close> are not initialised; \<open>junk\<close> is what they hold.\<close>

definition sl_cas_seq :: "addr list \<Rightarrow> skiplist_t \<Rightarrow> map_key_t \<Rightarrow> map_val_t \<Rightarrow> map_val_t \<Rightarrow> (map_val_t \<times> skiplist_t) prog" where
  "sl_cas_seq junk s key expectation new_val =
     pbind (passert (sint new_val > 0)) (\<lambda>_.
     pbind (random_levels_seq s) (\<lambda>(n, s).
     pbind (find_preds_seq (Some junk) (Some junk) n s key False) (\<lambda>((old_item, preds, nexts), s).
     if old_item \<noteq> NULL then
       pbind (sl_load s old_item) (\<lambda>nd.
       let old_val = sn_val nd
       in if expectation = CAS_EXPECT_DOES_NOT_EXIST \<or>
             expectation \<noteq> CAS_EXPECT_WHATEVER \<and> expectation \<noteq> CAS_EXPECT_EXISTS \<and> expectation \<noteq> old_val
          then ret (old_val, s)
          else ret (old_val, sl_upd old_item (\<lambda>nd. nd\<lparr>sn_val := new_val\<rparr>) s))
     else if expectation \<noteq> CAS_EXPECT_DOES_NOT_EXIST \<and> expectation \<noteq> CAS_EXPECT_WHATEVER then ret (DOES_NOT_EXIST, s)
     else
       let new_key = key_clone (sl_key_type s) key
       in pbind (node_alloc_seq n new_key new_val s) (\<lambda>(new_item, s).
          pbind (sl_load s new_item) (\<lambda>nd.
          pbind (sl_cas_set_nexts_seq 0 (sn_num_levels nd) new_item nexts s) (\<lambda>s.
          pbind (sl_cas_link_seq 0 (sn_num_levels nd) new_item preds s) (\<lambda>s.
          ret (DOES_NOT_EXIST, s))))))))"

definition sl_remove_seq :: "addr list \<Rightarrow> skiplist_t \<Rightarrow> map_key_t \<Rightarrow> (map_val_t \<times> skiplist_t) prog" where
  "sl_remove_seq junk s key =
     pbind (find_preds_seq (Some junk) None (sl_high_water s) s key False) (\<lambda>((item, _, _), s).
     if item = NULL then ret (DOES_NOT_EXIST, s)
     else
       pbind (sl_load s item) (\<lambda>nd.
       let val = sn_val nd
       in pbind (find_preds_seq None None 0 s key True) (\<lambda>(_, s).
          pbind (sl_load s item) (\<lambda>nd.
          ret (val, sl_nbd_free item (sl_free_key (sn_key nd) s))))))"

section \<open>Iterators\<close>

text \<open>The iterator is its field \<^verbatim>\<open>next\<close>.\<close>

definition sl_iter_begin_seq :: "skiplist_t \<Rightarrow> map_key_t \<Rightarrow> addr prog" where
  "sl_iter_begin_seq s key =
     (if key \<noteq> DOES_NOT_EXIST
      then pbind (find_preds_seq None (Some [0]) 1 s key False) (\<lambda>((_, _, succs), s). out_get succs 0)
      else sl_next s (sl_head s) 0)"

definition sl_iter_next_seq :: "addr \<Rightarrow> skiplist_t \<Rightarrow> (map_val_t \<times> map_key_t option \<times> addr) prog" where
  "sl_iter_next_seq item s =
     (if item = NULL then ret (DOES_NOT_EXIST, None, NULL)
      else
        pbind (sl_next s item 0) (\<lambda>next.
        pbind (sl_load s item) (\<lambda>nd. ret (sn_val nd, Some (sn_key nd), next))))"

lemmas sl_seq_code [code] = sl_free_loop_seq.simps sl_count_loop_seq.simps find_preds_walk_seq.simps

section \<open>Searching\<close>

text \<open>The walk along a level, from a link on: \<open>xs\<close> are the nodes before the key, \<open>ys\<close> the others.\<close>

lemma walk_seq_ok:
  assumes "lseg (nxt (sl_heap s) l) item (xs @ ys) NULL"
    and "\<And>a. a \<in> set xs \<or> ys \<noteq> [] \<and> a = hd ys \<Longrightarrow> l < height (sl_heap s) a \<and> a \<noteq> NULL"
    and "\<And>a. a \<in> set xs \<Longrightarrow> key_diff (sl_key_type s) (keyof (sl_heap s) a) key < 0"
    and "ys \<noteq> [] \<Longrightarrow> 0 \<le> key_diff (sl_key_type s) (keyof (sl_heap s) (hd ys)) key"
  shows "\<exists>e. find_preds_walk_seq False key l pred item d s = ret ((last (pred # xs), first ys, e), s) \<and>
    (if ys = [] then e < 0 \<or> e = d \<and> xs = [] else e = key_diff (sl_key_type s) (keyof (sl_heap s) (hd ys)) key)"
  using assms
proof (induction xs arbitrary: item pred d)
  case Nil
  then show ?case
  proof (cases ys)
    case Nil
    then show ?thesis using Nil.prems(1) by (subst find_preds_walk_seq.simps) simp
  next
    case (Cons a ys')
    then have a: "item = a" "l < height (sl_heap s) a" "a \<noteq> NULL" "0 \<le> key_diff (sl_key_type s) (keyof (sl_heap s) a) key"
      using Nil.prems by auto
    then show ?thesis
      using Cons sl_load_ok [OF a(2)] sl_next_ok [OF a(2)] by (subst find_preds_walk_seq.simps) (auto simp: Let_def)
  qed
next
  case (Cons a xs)
  have a: "item = a" "l < height (sl_heap s) a" "a \<noteq> NULL" "key_diff (sl_key_type s) (keyof (sl_heap s) a) key < 0"
    using Cons.prems by auto
  have step: "find_preds_walk_seq False key l pred item d s =
      find_preds_walk_seq False key l a (nxt (sl_heap s) l a) (key_diff (sl_key_type s) (keyof (sl_heap s) a) key) s"
    using a sl_load_ok [OF a(2)] sl_next_ok [OF a(2)] by (subst find_preds_walk_seq.simps) (auto simp: Let_def)
  show ?case
    unfolding step
    using Cons.IH [of "nxt (sl_heap s) l a" a "key_diff (sl_key_type s) (keyof (sl_heap s) a) key"] Cons.prems a by fastforce
qed

lemma level_seq_ok:
  assumes "key_order kt K rank" and "sl_rep kt K rank s as" and "k \<in> K" and "l < 24"
    and "p = sl_head s \<or> p \<in> set (before rank (sl_heap s) k as) \<and> l < height (sl_heap s) p"
  shows "\<exists>p' item e. find_preds_walk_seq False k l p (nxt (sl_heap s) l p) d s = ret ((p', item, e), s) \<and> level_result rank s k as l p' item e"
    and "nxt (sl_heap s) l p = NULL \<Longrightarrow> succ_at rank s k as l = NULL"
proof -
  let ?h = "sl_heap s"
  define ys where "ys = at_level ?h l (onward rank ?h k as)"
  have kt: "sl_key_type s = kt" using sl_repD(1) [OF assms(2)] .
  obtain xs where xs: "lseg (nxt ?h l) (nxt ?h l p) (xs @ ys) NULL" "last (p # xs) = pred_at rank s k as l"
    "set xs \<subseteq> set (at_level ?h l (before rank ?h k as))"
    using sl_level_from(1) [OF assms] unfolding ys_def by blast
  note S = sl_side [OF assms(1-3)]
  have A: "l < height ?h a \<and> a \<noteq> NULL \<and> key_diff (sl_key_type s) (keyof ?h a) k < 0" if "a \<in> set xs" for a
    using that xs(3) S(1) kt by auto
  have B: "l < height ?h a \<and> a \<noteq> NULL \<and> 0 \<le> key_diff (sl_key_type s) (keyof ?h a) k" if "a \<in> set ys" for a
    using that S(2) kt by (simp add: ys_def)
  have "\<exists>e. find_preds_walk_seq False k l p (nxt ?h l p) d s = ret ((last (p # xs), first ys, e), s) \<and>
    (if ys = [] then e < 0 \<or> e = d \<and> xs = [] else e = key_diff (sl_key_type s) (keyof ?h (hd ys)) k)"
    by (rule walk_seq_ok [OF xs(1)]) (use A B hd_in_set [of ys] in auto)
  then obtain e where e: "find_preds_walk_seq False k l p (nxt ?h l p) d s = ret ((last (p # xs), first ys, e), s)"
    "if ys = [] then True else e = key_diff kt (keyof ?h (hd ys)) k" using kt by (auto split: if_splits)
  then show "\<exists>p' item e. find_preds_walk_seq False k l p (nxt ?h l p) d s = ret ((p', item, e), s) \<and> level_result rank s k as l p' item e"
    using level_resultI [OF assms(1-3) ys_def xs(2) e(2)] by blast
  show "succ_at rank s k as l = NULL" if "nxt ?h l p = NULL"
  proof -
    have "first (xs @ ys) = NULL" using lseg_first [OF xs(1)] that by simp
    moreover have "a \<noteq> NULL" if "a \<in> set (xs @ ys)" for a using that A B by auto
    ultimately have "xs @ ys = []" by (cases "xs @ ys") auto
    then show ?thesis by (simp add: succ_at_def ys_def [symmetric])
  qed
qed

text \<open>The search returns the node with the key, and fills the arrays of predecessors and successors.\<close>

lemma levels_seq_ok:
  assumes "key_order kt K rank" and "sl_rep kt K rank s as" and "k \<in> K" and "level \<le> 24"
    and "p = sl_head s \<or> p \<in> set (before rank (sl_heap s) k as) \<and> level \<le> height (sl_heap s) p"
    and "d = 0 \<longrightarrow> item = NULL \<or> item = hit rank (sl_heap s) k as" and "fits n preds" and "fits n succs"
    and "level = 0 \<longrightarrow> (if d = 0 then item else NULL) = hit rank (sl_heap s) k as"
  shows "find_preds_levels_seq False n k level p item d preds succs s =
    ret ((hit rank (sl_heap s) k as, map_option (fill (min level n) (pred_at rank s k as)) preds,
      map_option (fill (min level n) (succ_at rank s k as)) succs), s)"
  using assms(4-9)
proof (induction level arbitrary: p item d preds succs)
  case 0
  then show ?case by (cases preds; cases succs) auto
next
  case (Suc l)
  let ?h = "sl_heap s"
  have l: "l < 24" and p: "p = sl_head s \<or> p \<in> set (before rank ?h k as) \<and> l < height ?h p" using Suc.prems by auto
  have nx: "sl_next s p l = ret (nxt ?h l p)" by (rule sl_next_ok) (rule sl_level_from(2) [OF assms(1-3) l p])
  note W = level_seq_ok [OF assms(1-3) l p]
  have R: "sorted_wrt (\<lambda>a b. rank (keyof ?h a) < rank (keyof ?h b)) as" "NULL \<notin> set as"
    using sl_repD(6,7) [OF assms(2)] by (auto simp: sl_node_ok_def)
  show ?case
  proof (cases "nxt ?h l p = NULL \<and> n \<le> l")
    case True
    have z: "hit rank ?h k as = NULL" if "l = 0"
      using W(2) True that at_level_0 [OF assms(2), of "onward rank ?h k as"] onward_hit [OF R, of k]
      by (cases "onward rank ?h k as") (auto simp: succ_at_def onward_def)
    have "find_preds_levels_seq False n k l p item d preds succs s =
      ret ((hit rank ?h k as, map_option (fill (min l n) (pred_at rank s k as)) preds,
        map_option (fill (min l n) (succ_at rank s k as)) succs), s)"
      by (rule Suc.IH) (use Suc.prems p z in auto)
    moreover have "min l n = n" "min (Suc l) n = n" using True by simp_all
    ultimately show ?thesis using nx True by (simp add: DOES_NOT_EXIST_def)
  next
    case False
    obtain p' item' e where w: "find_preds_walk_seq False k l p (nxt ?h l p) d s = ret ((p', item', e), s)"
      "level_result rank s k as l p' item' e"
      using W(1) by blast
    then have r: "p' = pred_at rank s k as l" "item' = succ_at rank s k as l" "e = 0 \<longrightarrow> item' = NULL \<or> item' = hit rank ?h k as"
      "l = 0 \<longrightarrow> (if e = 0 then item' else NULL) = hit rank ?h k as"
      by (auto simp: level_result_def)
    have st: "p' = sl_head s \<or> p' \<in> set (before rank ?h k as) \<and> l \<le> height ?h p'"
      using pred_at_start [of rank s k as l] r(1) by auto
    note IH = Suc.IH [OF _ st r(3) _ _ r(4)]
    show ?thesis
    proof (cases "l < n")
      case True
      obtain preds' where p1: "out_put preds l p' = ret preds'" "fits n preds'"
        "map_option (fill l (pred_at rank s k as)) preds' = map_option (fill (Suc l) (pred_at rank s k as)) preds"
        using out_put_fill [OF Suc.prems(4) True, of "pred_at rank s k as"] r(1) by auto
      obtain succs' where p2: "out_put succs l item' = ret succs'" "fits n succs'"
        "map_option (fill l (succ_at rank s k as)) succs' = map_option (fill (Suc l) (succ_at rank s k as)) succs"
        using out_put_fill [OF Suc.prems(5) True, of "succ_at rank s k as"] r(2) by auto
      show ?thesis using IH [OF _ p1(2) p2(2)] nx w(1) p1 p2 True l by (simp add: min_def)
    next
      case F: False
      then show ?thesis
        using IH [OF _ Suc.prems(4,5)] nx w(1) False l by (simp add: DOES_NOT_EXIST_def min_def)
    qed
  qed
qed

lemma find_preds_seq_ok:
  assumes "key_order kt K rank" and "sl_rep kt K rank s as" and "k \<in> K" and "n \<le> sl_high_water s" and "fits n preds" and "fits n succs"
  shows "find_preds_seq preds succs n s k False =
    ret ((hit rank (sl_heap s) k as, map_option (fill n (pred_at rank s k as)) preds, map_option (fill n (succ_at rank s k as)) succs), s)"
  unfolding find_preds_seq_def
  using levels_seq_ok [OF assms(1-3), of "sl_high_water s" "sl_head s" 0 NULL n preds succs] sl_repD(2,3) [OF assms(2)] assms(4-6)
  by (simp add: min_absorb2)

section \<open>Updates\<close>

lemma sl_lookup_seq_ok:
  assumes "key_order kt K rank" and "sl_rep kt K rank s as" and "k \<in> K"
  shows "sl_lookup_seq s k = ret (found_val (sl_abs rank s k), s)"
proof -
  define m where "m = hit rank (sl_heap s) k as"
  note H = sl_hit_abs [OF assms(2) m_def]
  have f: "find_preds_seq None None 0 s k False = ret ((m, None, None), s)"
    using find_preds_seq_ok [OF assms, of 0 None None] by (simp add: m_def)
  show ?thesis
  proof (cases "m = NULL")
    case False
    then obtain nd where "sl_load s m = ret nd" "sn_val nd = valof (sl_heap s) m" using sl_load_ok [of 0 s m] H(2) by auto
    then show ?thesis using f False H(1) by (simp add: sl_lookup_seq_def)
  qed (use f H(1) in \<open>simp add: sl_lookup_seq_def DOES_NOT_EXIST_def\<close>)
qed

lemma set_nexts_seq_ok:
  assumes "level + n \<le> height (sl_heap s) new" and "level + n \<le> length xs"
  shows "sl_cas_set_nexts_seq level n new (Some xs) s = ret (set_levels (\<lambda>_. new) ((!) xs) [level..<level + n] s)"
  using assms by (induction n arbitrary: level s) (simp_all add: out_get_def sl_put_next_ok upt_conv_Cons del: upt_Suc)

lemma link_seq_ok:
  assumes "\<And>l. level \<le> l \<Longrightarrow> l < level + n \<Longrightarrow> l < height (sl_heap s) (xs ! l)" and "level + n \<le> length xs"
  shows "sl_cas_link_seq level n new (Some xs) s = ret (set_levels ((!) xs) (\<lambda>_. new) [level..<level + n] s)"
  using assms by (induction n arbitrary: level s) (simp_all add: out_get_def sl_put_next_ok upt_conv_Cons del: upt_Suc)

text \<open>The effect of \<^verbatim>\<open>sl_cas\<close>: an expected value is compared.\<close>

lemma sl_cas_seq_ok:
  assumes "key_order kt K rank" and "sl_rep kt K rank s as" and "k \<in> K" and "0 < sint v" and "sl_pool s \<noteq> []" and "rand_ok (sl_rnd s)"
    and "24 \<le> length junk"
  shows "\<exists>s'. sl_cas_seq junk s k e v = ret (found_val (sl_abs rank s k), s') \<and> sl_inv kt K rank s' \<and>
    length (sl_pool s) \<le> length (sl_pool s') + 1 \<and> sl_rnd s' = snd (nbd_rand (sl_rnd s)) \<and>
    (\<forall>k'. sl_abs rank s' k' = (if cas_applies e (sl_abs rank s k) \<and> rank k = rank k' then Some v else sl_abs rank s k'))"
proof -
  have v0: "v \<noteq> 0" using assms(4) by auto
  obtain n hw where nl: "random_levels s = ret (n, s\<lparr>sl_rnd := snd (nbd_rand (sl_rnd s)), sl_high_water := hw\<rparr>)"
    "1 \<le> n" "n \<le> hw" "sl_high_water s \<le> hw" "hw \<le> 20"
    using random_levels_ok [OF assms(6)] sl_repD(2,3) [OF assms(2)] by blast
  define s1 where "s1 = s\<lparr>sl_rnd := snd (nbd_rand (sl_rnd s)), sl_high_water := hw\<rparr>"
  note rep1 = sl_rep_rnd [OF assms(2) nl(4,5), of "snd (nbd_rand (sl_rnd s))", folded s1_def]
  have s1: "sl_high_water s1 = hw" "sl_heap s1 = sl_heap s" "sl_pool s1 = sl_pool s" "sl_rnd s1 = snd (nbd_rand (sl_rnd s))"
    by (simp_all add: s1_def)
  define m where "m = hit rank (sl_heap s1) k as"
  note H = sl_hit_abs [OF rep1(1) m_def]
  let ?P = "fill n (pred_at rank s1 k as) junk" and ?N = "fill n (succ_at rank s1 k as) junk"
  have fp: "find_preds_seq (Some junk) (Some junk) n s1 k False = ret ((m, Some ?P, Some ?N), s1)"
    using find_preds_seq_ok [OF assms(1) rep1(1) assms(3), of n "Some junk" "Some junk"] nl assms(7) s1 by (simp add: m_def)
  have run: "sl_cas_seq junk s k e v = (if m \<noteq> NULL then
       pbind (sl_load s1 m) (\<lambda>nd.
       if e = CAS_EXPECT_DOES_NOT_EXIST \<or> e \<noteq> CAS_EXPECT_WHATEVER \<and> e \<noteq> CAS_EXPECT_EXISTS \<and> e \<noteq> sn_val nd
          then ret (sn_val nd, s1)
          else ret (sn_val nd, sl_upd m (\<lambda>nd. nd\<lparr>sn_val := v\<rparr>) s1))
     else if e \<noteq> CAS_EXPECT_DOES_NOT_EXIST \<and> e \<noteq> CAS_EXPECT_WHATEVER then ret (DOES_NOT_EXIST, s1)
     else pbind (node_alloc_seq n (key_clone (sl_key_type s1) k) v s1) (\<lambda>(new_item, s).
          pbind (sl_load s new_item) (\<lambda>nd.
          pbind (sl_cas_set_nexts_seq 0 (sn_num_levels nd) new_item (Some ?N) s) (\<lambda>s.
          pbind (sl_cas_link_seq 0 (sn_num_levels nd) new_item (Some ?P) s) (\<lambda>s.
          ret (DOES_NOT_EXIST, s))))))"
    using nl(1) assms(4) fp by (simp add: sl_cas_seq_def random_levels_seq_def s1_def [symmetric] Let_def)
  show ?thesis
  proof (cases "m = NULL")
    case False
    then have h: "0 < height (sl_heap s1) m" "sl_abs rank s1 k = Some (valof (sl_heap s1) m)" using H by auto
    obtain nd where nd: "sl_load s1 m = ret nd" "sn_val nd = valof (sl_heap s1) m" using sl_load_ok [OF h(1)] by blast
    define s2 where "s2 = (if cas_applies e (sl_abs rank s k) then sl_upd m (\<lambda>nd. nd\<lparr>sn_val := v\<rparr>) s1 else s1)"
    have "sl_cas_seq junk s k e v = ret (valof (sl_heap s1) m, s2)"
      using False fp nd h(2) rep1(2)
      by (auto simp: run s2_def cas_applies_def cas_expect_defs)
    moreover have "sl_rep kt K rank s2 as" "sl_abs rank s2 k' = (if cas_applies e (sl_abs rank s k) \<and> rank k = rank k' then Some v else sl_abs rank s1 k')" for k'
      using sl_update_rep [OF rep1(1) m_def False v0 refl] rep1(1) by (auto simp: s2_def)
    ultimately show ?thesis using h(2) rep1(2) s1 by (intro exI [of _ s2]) (auto simp: sl_inv_def s2_def)
  next
    case True
    then have none: "sl_abs rank s k = None" "sl_abs rank s1 k = None" using H(1) rep1(2) by simp_all
    show ?thesis
    proof (cases "cas_applies e None")
      case False
      then have "sl_cas_seq junk s k e v = ret (0, s1)"
        using True fp by (simp add: run cas_applies_def DOES_NOT_EXIST_def)
      then show ?thesis using False none rep1 s1 by (intro exI [of _ s1]) (auto simp: sl_inv_def)
    next
      case ap: True
      obtain new pool where pool: "sl_pool s1 = new # pool" using assms(5) s1(3) by (cases "sl_pool s") auto
      let ?key = "key_clone (sl_key_type s1) k"
      have key: "?key \<in> K" "rank ?key = rank k"
        using key_orderD(5,6) [OF assms(1,3,3)] sl_repD(1) [OF rep1(1)] by simp_all
      define s2 where "s2 = s1\<lparr>sl_pool := pool, sl_heap := (sl_heap s1)(new \<mapsto> fresh_node n ?key v)\<rparr>"
      define s3 where "s3 = set_levels (\<lambda>_. new) ((!) ?N) [0..<0 + n] s2"
      have al: "node_alloc_seq n ?key v s1 = ret (new, s2)"
        using pool nl by (simp add: node_alloc_seq_def MAX_LEVELS_def s2_def)
      have h2: "height (sl_heap s2) a = (if a = new then n else height (sl_heap s1) a)" for a by (simp add: s2_def height_def)
      have ld: "sl_load s2 new = ret (fresh_node n ?key v)" by (simp add: sl_load_def s2_def)
      have n24: "n \<le> length junk" using nl assms(7) by simp
      have c1: "sl_cas_set_nexts_seq 0 n new (Some ?N) s2 = ret s3"
        unfolding s3_def by (rule set_nexts_seq_ok) (use n24 in \<open>simp_all add: h2 fill_length\<close>)
      have nin: "new \<notin> set (sl_head s1 # as)"
        using sl_repD(4,6,9) [OF rep1(1)] pool by (fastforce simp: sl_pool_ok_def height_def sl_node_ok_def)
      have c2: "sl_cas_link_seq 0 n new (Some ?P) s3 = ret (set_levels ((!) ?P) (\<lambda>_. new) [0..<0 + n] s3)"
      proof (rule link_seq_ok)
        show "l < height (sl_heap s3) (?P ! l)" if "l < 0 + n" for l
        proof -
          have l24: "l < 24" using that nl by simp
          have "pred_at rank s1 k as l \<noteq> new" using pred_at_height(1) [OF rep1(1) l24, of k] nin by metis
          then show ?thesis using pred_at_height(2) [OF rep1(1) l24, of k] that by (simp add: fill_nth s3_def h2)
        qed
      qed (use n24 in \<open>simp add: fill_length\<close>)
      have eq: "set_levels ((!) ?P) (\<lambda>_. new) [0..<0 + n] s3 = linked_in rank s1 k as new n ?key v pool"
        unfolding linked_in_def s3_def s2_def set_levels_def
        by (intro arg_cong2 [where f = "\<lambda>x y. fold x [0..<n] y"] fold_cong) (simp_all add: fill_nth)
      have "sl_cas_seq junk s k e v = ret (0, linked_in rank s1 k as new n ?key v pool)"
        using True ap al ld c1 c2 eq by (auto simp: run cas_applies_def DOES_NOT_EXIST_def)
      moreover have "hit rank (sl_heap s1) k as = NULL" "0 < n" "n \<le> sl_high_water s1" using True nl s1 by (simp_all add: m_def)
      note linked_in_rep [OF rep1(1) this(1) pool this(2,3) key v0]
      moreover have "length (sl_pool s) = length pool + 1" using pool s1(3) by simp
      moreover have "sl_pool (linked_in rank s1 k as new n ?key v pool) = pool" "sl_rnd (linked_in rank s1 k as new n ?key v pool) = sl_rnd s1"
        by (simp_all add: linked_in_def)
      ultimately show ?thesis
        using ap none rep1(2) s1(4) by (intro exI [of _ "linked_in rank s1 k as new n ?key v pool"]) simp
    qed
  qed
qed

section \<open>Removal\<close>

text \<open>The walk that unlinks: the node with the key, if there is one at the level, is bypassed.\<close>

lemma walk_unlink_seq_ok:
  assumes "lseg (nxt (sl_heap s) l) item (xs @ ys) NULL" and "l < height (sl_heap s) pred"
    and "\<And>a. a \<in> set (xs @ ys) \<Longrightarrow> l < height (sl_heap s) a \<and> a \<noteq> NULL"
    and "\<And>a. a \<in> set xs \<Longrightarrow> key_diff (sl_key_type s) (keyof (sl_heap s) a) key < 0"
    and "ys \<noteq> [] \<Longrightarrow> 0 \<le> key_diff (sl_key_type s) (keyof (sl_heap s) (hd ys)) key"
  shows "\<exists>item' e. find_preds_walk_seq True key l pred item d s = ret ((last (pred # xs), item', e),
    if ys \<noteq> [] \<and> key_diff (sl_key_type s) (keyof (sl_heap s) (hd ys)) key = 0
    then sl_set_next (last (pred # xs)) l (nxt (sl_heap s) l (hd ys)) s else s)"
  using assms
proof (induction xs arbitrary: item pred d)
  case Nil
  then show ?case
  proof (cases ys)
    case Nil
    then show ?thesis using Nil.prems(1) by (subst find_preds_walk_seq.simps) simp
  next
    case (Cons a bs)
    then have a: "item = a" "l < height (sl_heap s) a" "a \<noteq> NULL" "0 \<le> key_diff (sl_key_type s) (keyof (sl_heap s) a) key"
      and bs: "lseg (nxt (sl_heap s) l) (nxt (sl_heap s) l a) bs NULL" "\<And>b. b \<in> set bs \<Longrightarrow> l < height (sl_heap s) b"
      using Nil.prems by auto
    obtain nd where nd: "sl_load s a = ret nd" "sn_key nd = keyof (sl_heap s) a" using sl_load_ok [OF a(2)] by blast
    have "nxt (sl_heap s) l a \<noteq> NULL \<Longrightarrow> l < height (sl_heap s) (nxt (sl_heap s) l a)"
      using lseg_first [OF bs(1)] bs(2) by (cases bs) auto
    then have "nxt (sl_heap s) l a \<noteq> NULL \<Longrightarrow> sl_next (sl_set_next pred l (nxt (sl_heap s) l a) s) (nxt (sl_heap s) l a) l =
        ret (nxt (sl_heap (sl_set_next pred l (nxt (sl_heap s) l a) s)) l (nxt (sl_heap s) l a))"
      by (intro sl_next_ok) simp
    then show ?thesis
      using Cons a nd sl_next_ok [OF a(2)] sl_put_next_ok [OF Nil.prems(2)]
      by (subst find_preds_walk_seq.simps) (auto simp: Let_def)
  qed
next
  case (Cons a xs)
  have a: "item = a" "l < height (sl_heap s) a" "a \<noteq> NULL" "key_diff (sl_key_type s) (keyof (sl_heap s) a) key < 0"
    using Cons.prems by auto
  have step: "find_preds_walk_seq True key l pred item d s =
      find_preds_walk_seq True key l a (nxt (sl_heap s) l a) (key_diff (sl_key_type s) (keyof (sl_heap s) a) key) s"
    using a sl_load_ok [OF a(2)] sl_next_ok [OF a(2)] by (subst find_preds_walk_seq.simps) (auto simp: Let_def)
  have lst: "last (pred # a # xs) = last (a # xs)" by simp
  show ?case
    unfolding step lst by (rule Cons.IH) (use Cons.prems a in auto)
qed

lemma levels_unlink_seq_ok:
  assumes "key_order kt K rank" and "sl_rep kt K rank s as" and "k \<in> K" and "m = hit rank (sl_heap s) k as" and "m \<noteq> NULL" and "level \<le> 24"
    and "p = sl_head s \<or> p \<in> set (before rank (sl_heap s) k as) \<and> level \<le> height (sl_heap s) p"
    and "sl_key_type t = kt" and "\<And>a. height (sl_heap t) a = height (sl_heap s) a" and "\<And>a. keyof (sl_heap t) a = keyof (sl_heap s) a"
    and "\<And>l. l < level \<Longrightarrow> nxt (sl_heap t) l = nxt (sl_heap s) l"
  shows "\<exists>r. find_preds_levels_seq True 0 k level p item d None None t =
    ret (r, set_levels (pred_at rank s k as) (\<lambda>l. nxt (sl_heap s) l m) (levels_below level (sl_heap s) m) t)"
  using assms(6-)
proof (induction level arbitrary: p item d t)
  case 0
  then show ?case by (simp add: levels_below_def)
next
  case (Suc l)
  let ?h = "sl_heap s"
  define ys where "ys = at_level ?h l (onward rank ?h k as)"
  have l: "l < 24" and p: "p = sl_head s \<or> p \<in> set (before rank ?h k as) \<and> l < height ?h p" using Suc.prems by auto
  obtain xs where xs: "lseg (nxt ?h l) (nxt ?h l p) (xs @ ys) NULL" "last (p # xs) = pred_at rank s k as l"
    "set xs \<subseteq> set (at_level ?h l (before rank ?h k as))"
    using sl_level_from(1) [OF assms(1-3) l p] unfolding ys_def by blast
  have hp: "l < height ?h p" by (rule sl_level_from(2) [OF assms(1-3) l p])
  note S = sl_side [OF assms(1-3)] and R = sl_repD [OF assms(2)]
  have A: "l < height ?h a \<and> a \<noteq> NULL \<and> key_diff kt (keyof ?h a) k < 0" if "a \<in> set xs" for a using that xs(3) S(1) by auto
  have B: "l < height ?h a \<and> a \<noteq> NULL \<and> 0 \<le> key_diff kt (keyof ?h a) k" if "a \<in> set ys" for a
    using that S(2) by (simp add: ys_def)
  have nt: "nxt (sl_heap t) l = nxt ?h l" using Suc.prems(6) by simp
  have nx: "sl_next t p l = ret (nxt ?h l p)" using sl_next_ok [of l t p] hp Suc.prems(4) nt by simp
  have m: "m \<in> set as" "rank (keyof ?h m) = rank k" using hit_in [of rank ?h k as] assms(4,5) by simp_all
  note top = level_hit [OF assms(1-5) ys_def]
  have st: "pred_at rank s k as l = sl_head s \<or> pred_at rank s k as l \<in> set (before rank ?h k as) \<and> l \<le> height ?h (pred_at rank s k as l)"
    using pred_at_start [of rank s k as l] by auto
  show ?case
  proof (cases "nxt ?h l p = NULL")
    case True
    have "first (xs @ ys) = NULL" using lseg_first [OF xs(1)] True by simp
    moreover have "a \<noteq> NULL" if "a \<in> set (xs @ ys)" for a using that A B by auto
    ultimately have "xs @ ys = []" by (cases "xs @ ys") auto
    then have nl: "\<not> l < height ?h m" using top(1) by simp
    have "\<exists>r. find_preds_levels_seq True 0 k l p item d None None t =
      ret (r, set_levels (pred_at rank s k as) (\<lambda>l. nxt ?h l m) (levels_below l ?h m) t)"
      by (rule Suc.IH) (use Suc.prems p in auto)
    then show ?thesis using nx True nl by (simp add: DOES_NOT_EXIST_def levels_below_Suc)
  next
    case False
    define t1 where "t1 = (if l < height ?h m then sl_set_next (pred_at rank s k as l) l (nxt ?h l m) t else t)"
    have "\<exists>item' e. find_preds_walk_seq True k l p (nxt ?h l p) d t = ret ((last (p # xs), item', e),
      if ys \<noteq> [] \<and> key_diff (sl_key_type t) (keyof (sl_heap t) (hd ys)) k = 0
      then sl_set_next (last (p # xs)) l (nxt (sl_heap t) l (hd ys)) t else t)"
      by (rule walk_unlink_seq_ok) (use xs(1) A B hp Suc.prems(3-5) nt in \<open>auto dest: hd_in_set\<close>)
    then obtain item' e where w: "find_preds_walk_seq True k l p (nxt ?h l p) d t = ret ((pred_at rank s k as l, item', e), t1)"
      using top xs(2) Suc.prems(3-5) nt by (auto simp: t1_def)
    have hpr: "l < height ?h (pred_at rank s k as l)" by (rule pred_at_height(2) [OF assms(2) l])
    have "\<exists>r. find_preds_levels_seq True 0 k l (pred_at rank s k as l) item' e None None t1 =
      ret (r, set_levels (pred_at rank s k as) (\<lambda>l. nxt ?h l m) (levels_below l ?h m) t1)"
      by (rule Suc.IH) (use Suc.prems st hpr in \<open>auto simp: t1_def nxt_set_next_fun\<close>)
    then show ?thesis using nx w False by (auto simp: DOES_NOT_EXIST_def levels_below_Suc t1_def)
  qed
qed

lemma sl_remove_seq_ok:
  assumes "key_order kt K rank" and "sl_rep kt K rank s as" and "k \<in> K" and "24 \<le> length junk"
  shows "\<exists>s'. sl_remove_seq junk s k = ret (found_val (sl_abs rank s k), s') \<and> sl_inv kt K rank s' \<and>
    sl_pool s' = sl_pool s \<and> sl_rnd s' = sl_rnd s \<and> (\<forall>k'. sl_abs rank s' k' = (if rank k = rank k' then None else sl_abs rank s k'))"
proof -
  let ?h = "sl_heap s"
  note R = sl_repD [OF assms(2)]
  define m where "m = hit rank ?h k as"
  note H = sl_hit_abs [OF assms(2) m_def]
  have fp: "find_preds_seq (Some junk) None (sl_high_water s) s k False =
      ret ((m, Some (fill (sl_high_water s) (pred_at rank s k as) junk), None), s)"
    using find_preds_seq_ok [OF assms(1-3), of "sl_high_water s" "Some junk" None] R(3) assms(4) by (simp add: m_def)
  show ?thesis
  proof (cases "m = NULL")
    case True
    have "sl_abs rank s k' = None" if "rank k = rank k'" for k'
      using True H(1) that by (simp add: sl_abs_def)
    then show ?thesis using True fp H(1) assms(2)
      by (intro exI [of _ s]) (auto simp: sl_remove_seq_def sl_inv_def DOES_NOT_EXIST_def)
  next
    case False
    then have h: "0 < height ?h m" "sl_abs rank s k = Some (valof ?h m)" "height ?h m \<le> sl_high_water s" "m \<in> set as" using H by auto
    define s1 where "s1 = set_levels (pred_at rank s k as) (\<lambda>l. nxt ?h l m) (levels_below (sl_high_water s) ?h m) s"
    define s2 where "s2 = sl_nbd_free m (sl_free_key (keyof ?h m) s1)"
    obtain r where un: "find_preds_seq None None 0 s k True = ret (r, s1)"
      using levels_unlink_seq_ok [OF assms(1-3) m_def False, of "sl_high_water s" "sl_head s" s NULL 0] R(1,3)
      by (auto simp: find_preds_seq_def s1_def)
    obtain nd where nd: "sl_load s m = ret nd" "sn_val nd = valof ?h m" using sl_load_ok [OF h(1)] by blast
    have "0 < height (sl_heap s1) m" using h(1) by (simp add: s1_def)
    then obtain nd1 where nd1: "sl_load s1 m = ret nd1" "sn_key nd1 = keyof ?h m" using sl_load_ok [of 0 s1 m] by (auto simp: s1_def)
    have run: "sl_remove_seq junk s k = ret (valof ?h m, s2)"
      using fp False nd un nd1 by (simp add: sl_remove_seq_def Let_def s2_def)
    have sel: "sl_head s2 = sl_head s" "sl_key_type s2 = sl_key_type s" "sl_high_water s2 = sl_high_water s" "sl_pool s2 = sl_pool s" "sl_rnd s2 = sl_rnd s"
      by (simp_all add: s2_def s1_def sl_nbd_free_def sl_free_key_def)
    have h2: "sl_heap s2 = (sl_heap s1)(m := None)" by (simp add: s2_def sl_nbd_free_def sl_free_key_def)
    have same: "same_nodes (set (sl_head s # as) - {m}) ?h (sl_heap s2)"
    proof -
      have "height (sl_heap s2) a = height (sl_heap s1) a" "keyof (sl_heap s2) a = keyof (sl_heap s1) a"
        "valof (sl_heap s2) a = valof (sl_heap s1) a" "levelsof (sl_heap s2) a = levelsof (sl_heap s1) a" if "a \<noteq> m" for a
        using that by (simp_all add: h2 node_defs levelsof_def)
      then show ?thesis by (auto simp: same_nodes_def s1_def)
    qed
    have nx: "nxt (sl_heap s2) l a = (if l < height ?h m \<and> a = pred_at rank s k as l then nxt ?h l m else nxt ?h l a)"
      if "a \<noteq> m" for l a
    proof -
      have "nxt (sl_heap s2) l a = nxt (sl_heap s1) l a" using that by (simp add: h2 nxt_def)
      then show ?thesis using set_levels_below [OF assms(2), of "sl_high_water s"] R(3) h(3) by (simp add: s1_def)
    qed
    have po: "sl_pool_ok (sl_pool s2) (sl_heap s2)"
      using R(9) unfolding sel sl_pool_ok_def by (auto simp: h2 s1_def)
    note rep = sl_remove_rep [OF assms(2) m_def False sel(1-3) same nx po]
    show ?thesis using run h(2) rep sel by (intro exI [of _ s2]) (auto simp: sl_inv_def)
  qed
qed

section \<open>Traversals\<close>

lemma sl_count_loop_seq_ok:
  assumes "lseg (nxt (sl_heap s) 0) item bs NULL" and "\<And>a. a \<in> set bs \<Longrightarrow> a \<noteq> NULL \<and> 0 < height (sl_heap s) a"
  shows "sl_count_loop_seq item c s = ret (c + of_nat (length bs))"
  using assms
proof (induction bs arbitrary: item c)
  case Nil
  then show ?case by (subst sl_count_loop_seq.simps) simp
next
  case (Cons b bs)
  have "sl_count_loop_seq item c s = sl_count_loop_seq (nxt (sl_heap s) 0 b) (c + 1) s"
    using Cons.prems sl_next_ok [of 0 s b] by (subst sl_count_loop_seq.simps) auto
  then show ?case using Cons.IH [of "nxt (sl_heap s) 0 b" "c + 1"] Cons.prems by (simp add: algebra_simps)
qed

lemma sl_count_seq_ok:
  assumes "sl_rep kt K rank s as"
  shows "sl_count_seq s = ret (of_nat (length as))"
  unfolding sl_count_seq_def sl_next_head [OF assms] pbind_ret
  using sl_count_loop_seq_ok [of s "first as" as 0] level_0 [OF assms] lseg_first [OF level_0 [OF assms]] sl_repD(6) [OF assms]
  by (simp add: sl_node_ok_def)

text \<open>A client that iterates for at most \<open>n\<close> bindings.\<close>

primrec sl_iter_run_seq :: "nat \<Rightarrow> addr \<Rightarrow> skiplist_t \<Rightarrow> (map_key_t \<times> map_val_t) list prog" where
  "sl_iter_run_seq 0 it s = ret []"
| "sl_iter_run_seq (Suc n) it s =
     pbind (sl_iter_next_seq it s) (\<lambda>(val, key, it). case key of
       None \<Rightarrow> ret []
     | Some k \<Rightarrow> pbind (sl_iter_run_seq n it s) (\<lambda>xs. ret ((k, val) # xs)))"

lemma sl_iter_run_seq_ok:
  assumes "lseg (nxt (sl_heap s) 0) it bs NULL" and "\<And>a. a \<in> set bs \<Longrightarrow> a \<noteq> NULL \<and> 0 < height (sl_heap s) a" and "length bs < n"
  shows "sl_iter_run_seq n it s = ret (map (\<lambda>a. (keyof (sl_heap s) a, valof (sl_heap s) a)) bs)"
  using assms
proof (induction n arbitrary: it bs)
  case (Suc n)
  show ?case
  proof (cases bs)
    case Nil
    then show ?thesis using Suc.prems by (simp add: sl_iter_next_seq_def)
  next
    case (Cons b cs)
    obtain nd where nd: "sl_load s b = ret nd" "sn_key nd = keyof (sl_heap s) b" "sn_val nd = valof (sl_heap s) b"
      using sl_load_ok [of 0 s b] Suc.prems(2) [of b] Cons by auto
    then have "sl_iter_next_seq it s = ret (valof (sl_heap s) b, Some (keyof (sl_heap s) b), nxt (sl_heap s) 0 b)"
      using Suc.prems Cons sl_next_ok [of 0 s b] by (simp add: sl_iter_next_seq_def)
    then show ?thesis using Suc.IH [of "nxt (sl_heap s) 0 b" cs] Suc.prems Cons by simp
  qed
qed simp

lemma sl_iter_begin_seq_ok:
  assumes "key_order kt K rank" and "sl_rep kt K rank s as" and "k = 0 \<or> k \<in> K"
  shows "sl_iter_begin_seq s k = ret (first (if k = 0 then as else onward rank (sl_heap s) k as))"
proof (cases "k = 0")
  case False
  then have "find_preds_seq None (Some [0]) 1 s k False = ret ((hit rank (sl_heap s) k as, None, Some [succ_at rank s k as 0]), s)"
    using find_preds_seq_ok [OF assms(1,2), of k 1 None "Some [0]"] assms(3) sl_repD(2) [OF assms(2)] by (simp add: fill_def)
  moreover have "succ_at rank s k as 0 = first (onward rank (sl_heap s) k as)"
    using at_level_0 [OF assms(2), of "onward rank (sl_heap s) k as"] by (simp add: succ_at_def onward_def)
  ultimately show ?thesis using False by (simp add: sl_iter_begin_seq_def DOES_NOT_EXIST_def out_get_def)
qed (use sl_next_head [OF assms(2)] in \<open>simp add: sl_iter_begin_seq_def DOES_NOT_EXIST_def\<close>)

text \<open>An iteration from a key on gives the bindings from that key on, in order.\<close>

lemma sl_iterate_seq_ok:
  assumes "key_order kt K rank" and "sl_rep kt K rank s as" and "k = 0 \<or> k \<in> K" and "length as < n"
  shows "pbind (sl_iter_begin_seq s k) (\<lambda>it. sl_iter_run_seq n it s) =
    ret (map (\<lambda>a. (keyof (sl_heap s) a, valof (sl_heap s) a)) (if k = 0 then as else onward rank (sl_heap s) k as))"
proof -
  let ?h = "sl_heap s" and ?bs = "if k = 0 then as else onward rank (sl_heap s) k as"
  have as: "as = before rank ?h k as @ onward rank ?h k as" by (rule before_onward [OF sl_repD(7) [OF assms(2)]])
  have L0: "lseg (nxt ?h 0) (nxt ?h 0 (sl_head s)) as NULL" by (rule level_0 [OF assms(2)])
  have "lseg (nxt ?h 0) (nxt ?h 0 (sl_head s)) (before rank ?h k as @ onward rank ?h k as) NULL"
    using L0 by (subst (asm) as)
  then obtain r where r: "lseg (nxt ?h 0) r (onward rank ?h k as) NULL" by (auto simp: lseg_append)
  have L: "lseg (nxt ?h 0) (first ?bs) ?bs NULL"
    using lseg_first [OF r] lseg_first [OF L0] r L0 by simp
  have "length (onward rank ?h k as) \<le> length as" by (simp add: onward_def)
  then have len: "length ?bs < n" using assms(4) by simp
  have sub: "set ?bs \<subseteq> set as" by (simp add: onward_def)
  have ok: "a \<noteq> NULL \<and> 0 < height ?h a" if "a \<in> set ?bs" for a
    using sl_repD(6) [OF assms(2), of a] sub that by (auto simp: sl_node_ok_def simp del: set_filter)
  have run: "sl_iter_run_seq n (first ?bs) s = ret (map (\<lambda>a. (keyof ?h a, valof ?h a)) ?bs)"
    by (rule sl_iter_run_seq_ok [OF L ok len])
  show ?thesis unfolding sl_iter_begin_seq_ok [OF assms(1-3)] pbind_ret run ..
qed

section \<open>The interface of a map\<close>

definition sl_impl_seq :: "addr list \<Rightarrow> skiplist_t map_impl" where
  "sl_impl_seq junk = \<lparr>impl_cas = sl_cas_seq junk, impl_get = sl_lookup_seq, impl_remove = sl_remove_seq junk, impl_count = sl_count_seq\<rparr>"

lemma sl_cas_seq_contract:
  assumes "key_order kt K rank" and "sl_inv kt K rank s" and "k \<in> K" and "v \<in> positive_vals" and "0 < sl_room s" and "24 \<le> length junk"
  shows "\<exists>s'. impl_cas (sl_impl_seq junk) s k e v = ret (found_val (sl_abs rank s k), s') \<and> sl_inv kt K rank s' \<and> sl_room s \<le> sl_room s' + 1 \<and>
    (\<forall>k' \<in> K. sl_abs rank s' k' = (if cas_applies e (sl_abs rank s k)
      then bind_key (\<lambda>a b. rank a = rank b) k (Some v) (sl_abs rank s) k' else sl_abs rank s k'))"
proof -
  obtain as where rep: "sl_rep kt K rank s as" using assms(2) by (auto simp: sl_inv_def)
  have v: "0 < sint v" using assms(4) by (simp add: positive_vals_def)
  note room = sl_roomD [OF assms(5)]
  obtain s' where "sl_cas_seq junk s k e v = ret (found_val (sl_abs rank s k), s')" "sl_inv kt K rank s'"
    "length (sl_pool s) \<le> length (sl_pool s') + 1" "sl_rnd s' = snd (nbd_rand (sl_rnd s))"
    "\<forall>k'. sl_abs rank s' k' = (if cas_applies e (sl_abs rank s k) \<and> rank k = rank k' then Some v else sl_abs rank s k')"
    using sl_cas_seq_ok [OF assms(1) rep assms(3) v room assms(6)] by blast
  then show ?thesis using sl_room_step [of s s'] by (intro exI [of _ s']) (auto simp: sl_impl_seq_def bind_key_def)
qed

sublocale level_keys \<subseteq> slq: comparing_map "sl_impl_seq junk" "sl_inv kt K rank" "sl_abs rank" sl_room K positive_vals UNIV
  "\<lambda>a b. rank a = rank b"
proof unfold_locales
  fix s k assume s: "sl_inv kt K rank s" and k: "k \<in> K"
  then obtain as where rep: "sl_rep kt K rank s as" by (auto simp: sl_inv_def)
  show "\<exists>s'. impl_get (sl_impl_seq junk) s k = ret (found_val (sl_abs rank s k), s') \<and> sl_inv kt K rank s' \<and>
      (\<forall>k' \<in> K. sl_abs rank s' k' = sl_abs rank s k') \<and> sl_room s \<le> sl_room s'"
    using sl_lookup_seq_ok [OF ord rep k] s by (simp add: sl_impl_seq_def)
  obtain s' where "sl_remove_seq junk s k = ret (found_val (sl_abs rank s k), s')" "sl_inv kt K rank s'"
    "sl_pool s' = sl_pool s" "sl_rnd s' = sl_rnd s" "\<forall>k'. sl_abs rank s' k' = (if rank k = rank k' then None else sl_abs rank s k')"
    using sl_remove_seq_ok [OF ord rep k junk_size] by blast
  then show "\<exists>s'. impl_remove (sl_impl_seq junk) s k = ret (found_val (sl_abs rank s k), s') \<and> sl_inv kt K rank s' \<and>
      sl_room s \<le> sl_room s' + 1 \<and> (\<forall>k' \<in> K. sl_abs rank s' k' = bind_key (\<lambda>a b. rank a = rank b) k None (sl_abs rank s) k')"
    by (intro exI [of _ s']) (auto simp: sl_impl_seq_def bind_key_def sl_room_def)
next
  fix s and k v e :: uint64_t
  assume a: "sl_inv kt K rank s" "k \<in> K" "v \<in> positive_vals" "0 < sl_room s"
  note C = sl_cas_seq_contract [OF ord a junk_size, of e]
  show "\<exists>s'. impl_cas (sl_impl_seq junk) s k e v = ret (found_val (sl_abs rank s k), s') \<and> sl_inv kt K rank s' \<and> sl_room s \<le> sl_room s' + 1 \<and>
      (\<forall>k' \<in> K. sl_abs rank s' k' = (if cas_applies e (sl_abs rank s k)
        then bind_key (\<lambda>a b. rank a = rank b) k (Some v) (sl_abs rank s) k' else sl_abs rank s k'))"
    using C .
  assume "\<not> cas_specified e (sl_abs rank s k)"
  then show "\<exists>s'. impl_cas (sl_impl_seq junk) s k e v = ret (found_val (sl_abs rank s k), s') \<and> sl_inv kt K rank s' \<and> sl_room s \<le> sl_room s' + 1 \<and>
      (\<forall>k' \<in> K. sl_abs rank s' k' = sl_abs rank s k')"
    using C by (simp add: cas_specified_def)
qed (auto simp: positive_vals_def)

interpretation int_levels: level_keys None small_keys uint "replicate 24 0"
  by unfold_locales (simp_all add: small_keys_order)

section \<open>An empty skip list\<close>

lemma sl_alloc_seq_ok:
  assumes "sl_pool_ok (head # pool) (\<lambda>_. None)"
  shows "\<exists>s. sl_alloc_seq kt (head # pool) rnd = ret s \<and> sl_rep kt K rank s [] \<and> sl_pool s = pool \<and> sl_rnd s = rnd"
proof -
  let ?nd = "\<lparr>sn_key = 0, sn_val = 0, sn_num_levels = MAX_LEVELS, sn_next = replicate MAX_LEVELS 0\<rparr>"
  define s where "s = \<lparr>sl_head = head, sl_key_type = kt, sl_high_water = 1, sl_heap = [head \<mapsto> ?nd], sl_pool = pool,
    sl_deferred = [], sl_freed = [], sl_rnd = rnd\<rparr>"
  have "MAX_LEVELS > 0" by (simp add: MAX_LEVELS_def)
  then have run: "sl_alloc_seq kt (head # pool) rnd = ret s"
    by (simp add: sl_alloc_seq_def node_alloc_seq_def s_def sl_upd_def)
  have hd: "sl_heap s head = Some ?nd" by (simp add: s_def)
  have "height (sl_heap s) head = MAX_LEVELS" "nxt (sl_heap s) l head = 0" for l
    unfolding height_def nxt_def hd by (simp_all add: nth_replicate)
  moreover have "sl_pool_ok pool (sl_heap s)" using assms by (auto simp: sl_pool_ok_def s_def)
  ultimately have "sl_rep kt K rank s []" by (simp add: sl_rep_def sl_shape_def s_def)
  then show ?thesis using run by (auto simp: s_def)
qed

lemma sl_abs_empty: "sl_rep kt K rank s [] \<Longrightarrow> sl_abs rank s k = None"
  by (simp add: sl_abs_eq sl_assoc_def)

definition sl_sample_seq :: skiplist_t where
  "sl_sample_seq = (case sl_alloc_seq None [16, 32, 48] rnd_sample of Some (Inr s) \<Rightarrow> s | _ \<Rightarrow> undefined)"

lemma sl_sample_seq_ok:
  "sl_rep None small_keys uint sl_sample_seq []" "sl_pool sl_sample_seq = [32, 48]" "sl_rnd sl_sample_seq = rnd_sample"
proof -
  have "sl_pool_ok [16, 32, 48] (\<lambda>_. None)" by (simp add: sl_pool_ok_def HAS_MARK_def IS_TAGGED_def)
  from sl_alloc_seq_ok [OF this] obtain s where s: "sl_alloc_seq None [16, 32, 48] rnd_sample = ret s"
    "sl_rep None small_keys uint s []" "sl_pool s = [32, 48]" "sl_rnd s = rnd_sample" by blast
  then have "sl_sample_seq = s" by (simp add: sl_sample_seq_def ret_def)
  then show "sl_rep None small_keys uint sl_sample_seq []" "sl_pool sl_sample_seq = [32, 48]" "sl_rnd sl_sample_seq = rnd_sample"
    using s by simp_all
qed

section \<open>Properties\<close>

text \<open>C7: the sequential skip list implements a map. For keys on which the comparison is an order, while
  memory lasts and the next random number has a bit set in its low half: \<^verbatim>\<open>sl_lookup\<close> returns the
  binding of the key; \<^verbatim>\<open>sl_cas\<close> returns the old binding and binds the key to the new value
  exactly when the expectation is met, a specific expected value being compared;
  \<^verbatim>\<open>sl_remove\<close> returns the old binding and removes it at every level; \<^verbatim>\<open>sl_count\<close> is
  the number of bindings. Every call returns, no other key is affected, and the invariant, with the
  chain of links at each of the twenty-four levels, holds after it.\<close>

theorem sl_seq_refines_map:
  assumes "key_order kt K rank" and "sl_inv kt K rank s" and "k \<in> K" and "0 < sint v" and "sl_pool s \<noteq> []" and "rand_ok (sl_rnd s)"
    and "24 \<le> length junk"
  shows "sl_lookup_seq s k = ret (found_val (sl_abs rank s k), s)
    \<and> (\<exists>s'. sl_cas_seq junk s k e v = ret (found_val (sl_abs rank s k), s') \<and> sl_inv kt K rank s' \<and>
        (\<forall>k'. sl_abs rank s' k' = (if cas_applies e (sl_abs rank s k) \<and> rank k = rank k' then Some v else sl_abs rank s k')))
    \<and> (\<exists>s'. sl_remove_seq junk s k = ret (found_val (sl_abs rank s k), s') \<and> sl_inv kt K rank s' \<and>
        (\<forall>k'. sl_abs rank s' k' = (if rank k = rank k' then None else sl_abs rank s k')))
    \<and> sl_count_seq s = ret (of_nat (card (dom (sl_assoc rank (sl_heap s) (sl_nodes s)))))"
proof -
  obtain as where rep: "sl_rep kt K rank s as" using assms(2) by (auto simp: sl_inv_def)
  show ?thesis
    using sl_lookup_seq_ok [OF assms(1) rep assms(3)] sl_cas_seq_ok [OF assms(1) rep assms(3-7), of e]
      sl_remove_seq_ok [OF assms(1) rep assms(3,7)] sl_count_seq_ok [OF rep] sl_card_abs [OF rep] by auto
qed

theorem sl_seq_refines_map_witness:
  "\<exists>s'. sl_cas_seq (replicate 24 0) sl_sample_seq 5 CAS_EXPECT_WHATEVER 9 = ret (0, s') \<and> sl_abs uint s' 5 = Some 9"
proof -
  have "sl_inv None small_keys uint sl_sample_seq" using sl_sample_seq_ok(1) by (auto simp: sl_inv_def)
  then show ?thesis
    using sl_seq_refines_map [OF small_keys_order, of sl_sample_seq 5 9 "replicate 24 0" CAS_EXPECT_WHATEVER] rand_ok_sample
      sl_sample_seq_ok(2,3) sl_abs_empty [OF sl_sample_seq_ok(1)]
    by (auto simp: small_keys_def cas_applies_def)
qed

text \<open>An iteration from a key on gives the bindings of the keys that are not smaller, in ascending
  order and each once, and an iteration from 0 on gives all of them; then it ends.\<close>

lemma sl_seq_iterates_in_order:
  assumes "key_order kt K rank" and "sl_rep kt K rank s as" and "k = 0 \<or> k \<in> K" and "length as < n"
  shows "\<exists>xs. pbind (sl_iter_begin_seq s k) (\<lambda>it. sl_iter_run_seq n it s) = ret xs \<and>
    sorted_wrt (\<lambda>x y. rank (fst x) < rank (fst y)) xs \<and>
    (\<forall>key \<in> K. \<forall>v. (\<exists>x \<in> set xs. rank (fst x) = rank key \<and> snd x = v) \<longleftrightarrow> sl_abs rank s key = Some v \<and> (k = 0 \<or> rank k \<le> rank key))"
proof -
  let ?h = "sl_heap s" and ?bs = "if k = 0 then as else onward rank (sl_heap s) k as"
  note R = sl_repD [OF assms(2)]
  have "sorted_wrt (\<lambda>a b. rank (keyof ?h a) < rank (keyof ?h b)) ?bs" using R(7) by (simp add: onward_def sorted_wrt_filter)
  then have "sorted_wrt (\<lambda>x y. rank (fst x) < rank (fst y)) (map (\<lambda>a. (keyof ?h a, valof ?h a)) ?bs)" by (simp add: sorted_wrt_map)
  moreover have "(\<exists>x \<in> set (map (\<lambda>a. (keyof ?h a, valof ?h a)) ?bs). rank (fst x) = rank key \<and> snd x = v) \<longleftrightarrow>
      sl_abs rank s key = Some v \<and> (k = 0 \<or> rank k \<le> rank key)" for key v
    using sl_assoc_Some [OF R(7), of "rank key" v] by (auto simp: sl_abs_eq [OF assms(2)] onward_def)
  ultimately show ?thesis using sl_iterate_seq_ok [OF assms] by blast
qed

end
