(* ===== verification/Skiplist.thy ===== *)
theory Skiplist
  imports Unsafe_Skiplist
begin

text \<open>
  Model of \<^verbatim>\<open>src/src/map/skiplist.c\<close>, the lock-free skip list. A node is removed logically by
  marking its links from the top level down; the search unlinks marked nodes it meets, or steps over
  them. The functions are written out for one thread, with the branches that lose a race kept as the
  code has them.
\<close>

section \<open>Data\<close>

datatype unlink_mode = FORCE_UNLINK | ASSIST_UNLINK | DONT_UNLINK

definition sl_node_alloc :: "nat \<Rightarrow> map_key_t \<Rightarrow> map_val_t \<Rightarrow> skiplist_t \<Rightarrow> (addr \<times> skiplist_t) prog" where
  "sl_node_alloc num_levels key val s =
     pbind (passert (num_levels \<le> MAX_LEVELS)) (\<lambda>_.
     case sl_pool s of
       [] \<Rightarrow> fail Exit_Failure
     | item # pool \<Rightarrow> ret (item, s\<lparr>sl_pool := pool, sl_heap := (sl_heap s)(item \<mapsto>
         \<lparr>sn_key = key, sn_val = val, sn_num_levels = num_levels, sn_next = replicate num_levels 0\<rparr>)\<rparr>))"

definition sl_alloc :: "datatype_t option \<Rightarrow> addr list \<Rightarrow> rnd_state \<Rightarrow> skiplist_t prog" where
  "sl_alloc key_type pool rnd =
     pbind (sl_node_alloc MAX_LEVELS 0 0 \<lparr>sl_head = 0, sl_key_type = key_type, sl_high_water = 1, sl_heap = (\<lambda>_. None),
       sl_pool = pool, sl_deferred = [], sl_freed = [], sl_rnd = rnd\<rparr>) (\<lambda>(head, s).
     ret (sl_upd head (\<lambda>nd. nd\<lparr>sn_next := replicate MAX_LEVELS 0\<rparr>) (s\<lparr>sl_head := head\<rparr>)))"

partial_function (option) sl_free_loop :: "addr \<Rightarrow> skiplist_t \<Rightarrow> skiplist_t prog" where
  "sl_free_loop item s =
     (if item = NULL then ret s
      else pbind (sl_load s item) (\<lambda>nd.
           pbind (sl_next s item 0) (\<lambda>next.
           sl_free_loop (STRIP_MARK next) (sl_nbd_free item (sl_free_key (sn_key nd) s)))))"

definition sl_free :: "skiplist_t \<Rightarrow> skiplist_t prog" where
  "sl_free s = pbind (sl_next s (sl_head s) 0) (\<lambda>item. sl_free_loop (GET_NODE item) s)"

partial_function (option) sl_count_loop :: "addr \<Rightarrow> size_t \<Rightarrow> skiplist_t \<Rightarrow> size_t prog" where
  "sl_count_loop item cnt s =
     (if item = NULL then ret cnt
      else pbind (sl_next s item 0) (\<lambda>next.
        sl_count_loop (STRIP_MARK next) (if \<not> HAS_MARK next then cnt + 1 else cnt) s))"

definition sl_count :: "skiplist_t \<Rightarrow> size_t prog" where
  "sl_count s = pbind (sl_next s (sl_head s) 0) (\<lambda>item. sl_count_loop (GET_NODE item) 0 s)"

section \<open>Searching\<close>

text \<open>The inner loop of \<^verbatim>\<open>find_preds\<close>, over marked items, entered with the link of \<open>item\<close>. The
  result \<^const>\<open>None\<close> says that the search has to start over.\<close>

partial_function (option) find_preds_marked ::
  "unlink_mode \<Rightarrow> nat \<Rightarrow> addr \<Rightarrow> addr \<Rightarrow> markable_t \<Rightarrow> skiplist_t \<Rightarrow> ((addr \<times> markable_t) option \<times> skiplist_t) prog" where
  "find_preds_marked unlink level pred item next s =
     (if \<not> HAS_MARK next then ret (Some (item, next), s)
      else if unlink = DONT_UNLINK then
        let item = STRIP_MARK next
        in if item = NULL then ret (Some (item, next), s)
           else pbind (sl_next s item level) (\<lambda>next. find_preds_marked unlink level pred item next s)
      else
        pbind (sl_next s pred level) (\<lambda>cur.
        case SYNC_CAS cur item (STRIP_MARK next) of (other, link) \<Rightarrow>
        (let s = sl_set_next pred level link s
         in if other = item then
              let item = STRIP_MARK next
              in pbind (if item \<noteq> NULL then sl_next s item level else ret DOES_NOT_EXIST) (\<lambda>next.
                 find_preds_marked unlink level pred item next s)
            else if HAS_MARK other then ret (None, s)
            else
              let item = GET_NODE other
              in pbind (if item \<noteq> NULL then sl_next s item level else ret DOES_NOT_EXIST) (\<lambda>next.
                 find_preds_marked unlink level pred item next s))))"

text \<open>The loop along one level.\<close>

partial_function (option) find_preds_walk ::
  "unlink_mode \<Rightarrow> map_key_t \<Rightarrow> nat \<Rightarrow> addr \<Rightarrow> addr \<Rightarrow> int \<Rightarrow> skiplist_t \<Rightarrow> ((addr \<times> addr \<times> int) option \<times> skiplist_t) prog" where
  "find_preds_walk unlink key level pred item d s =
     (if item = NULL then ret (Some (pred, item, d), s)
      else
        pbind (sl_next s item level) (\<lambda>next.
        pbind (find_preds_marked unlink level pred item next s) (\<lambda>(r, s). case r of
          None \<Rightarrow> ret (None, s)
        | Some (item, next) \<Rightarrow>
            if item = NULL then ret (Some (pred, item, d), s)
            else
              pbind (sl_load s item) (\<lambda>nd.
              let d = key_diff (sl_key_type s) (sn_key nd) key
              in if d > 0 then ret (Some (pred, item, d), s)
                 else if d = 0 \<and> unlink \<noteq> FORCE_UNLINK then ret (Some (pred, item, d), s)
                 else find_preds_walk unlink key level item (GET_NODE next) d s))))"

text \<open>The loop over the levels; \<open>Suc level\<close> levels are left. The item is \<^const>\<open>None\<close> when the search
  has to start over.\<close>

primrec find_preds_levels :: "unlink_mode \<Rightarrow> nat \<Rightarrow> map_key_t \<Rightarrow> nat \<Rightarrow> addr \<Rightarrow> addr \<Rightarrow> int \<Rightarrow> addr list option \<Rightarrow> addr list option \<Rightarrow>
    skiplist_t \<Rightarrow> ((addr option \<times> addr list option \<times> addr list option) \<times> skiplist_t) prog" where
  "find_preds_levels unlink n key 0 pred item d preds succs s = ret ((Some (if d = 0 then item else NULL), preds, succs), s)"
| "find_preds_levels unlink n key (Suc level) pred item d preds succs s =
     pbind (sl_next s pred level) (\<lambda>next.
     if next = DOES_NOT_EXIST \<and> level \<ge> n then find_preds_levels unlink n key level pred item d preds succs s
     else if HAS_MARK next then
       pbind (sl_load s pred) (\<lambda>nd.
       pbind (if level + 1 = sn_num_levels nd then ret True else pbind (sl_next s pred (level + 1)) (\<lambda>x. ret (HAS_MARK x))) (\<lambda>b.
       pbind (passert b) (\<lambda>_.
       ret ((None, preds, succs), s))))
     else
       pbind (find_preds_walk unlink key level pred (GET_NODE next) d s) (\<lambda>(r, s). case r of
         None \<Rightarrow> ret ((None, preds, succs), s)
       | Some (pred, item, d) \<Rightarrow>
           pbind (if level < n then out_put preds level pred else ret preds) (\<lambda>preds.
           pbind (if level < n then out_put succs level item else ret succs) (\<lambda>succs.
           find_preds_levels unlink n key level pred item d preds succs s))))"

partial_function (option) find_preds :: "addr list option \<Rightarrow> addr list option \<Rightarrow> nat \<Rightarrow> skiplist_t \<Rightarrow> map_key_t \<Rightarrow> unlink_mode \<Rightarrow>
    ((addr \<times> addr list option \<times> addr list option) \<times> skiplist_t) prog" where
  "find_preds preds succs n s key unlink =
     pbind (find_preds_levels unlink n key (sl_high_water s) (sl_head s) NULL 0 preds succs s) (\<lambda>((r, preds, succs), s).
     case r of Some item \<Rightarrow> ret ((item, preds, succs), s) | None \<Rightarrow> find_preds preds succs n s key unlink)"

definition sl_lookup :: "skiplist_t \<Rightarrow> map_key_t \<Rightarrow> (map_val_t \<times> skiplist_t) prog" where
  "sl_lookup s key =
     pbind (find_preds None None 0 s key DONT_UNLINK) (\<lambda>((item, _, _), s).
     if item \<noteq> NULL then
       pbind (sl_load s item) (\<lambda>nd.
       if sn_val nd \<noteq> DOES_NOT_EXIST then ret (sn_val nd, s) else ret (DOES_NOT_EXIST, s))
     else ret (DOES_NOT_EXIST, s))"

partial_function (option) sl_min_key_loop :: "addr \<Rightarrow> skiplist_t \<Rightarrow> map_key_t prog" where
  "sl_min_key_loop item s =
     (if item \<noteq> NULL then
        pbind (sl_next s item 0) (\<lambda>next.
        if \<not> HAS_MARK next then pbind (sl_load s item) (\<lambda>nd. ret (sn_key nd)) else sl_min_key_loop (STRIP_MARK next) s)
      else ret DOES_NOT_EXIST)"

definition sl_min_key :: "skiplist_t \<Rightarrow> map_key_t prog" where
  "sl_min_key s = pbind (sl_next s (sl_head s) 0) (\<lambda>item. sl_min_key_loop (GET_NODE item) s)"

section \<open>Updates\<close>

partial_function (option) update_item :: "addr \<Rightarrow> map_val_t \<Rightarrow> map_val_t \<Rightarrow> skiplist_t \<Rightarrow> (map_val_t \<times> skiplist_t) prog" where
  "update_item item expectation new_val s =
     pbind (sl_load s item) (\<lambda>nd.
     let old_val = sn_val nd
     in if old_val = DOES_NOT_EXIST then ret (DOES_NOT_EXIST, s)
        else if expectation = CAS_EXPECT_DOES_NOT_EXIST then ret (old_val, s)
        else case SYNC_CAS (sn_val nd) old_val new_val of (cur, v) \<Rightarrow>
          (let s = sl_upd item (\<lambda>nd. nd\<lparr>sn_val := v\<rparr>) s
           in if old_val = cur then ret (old_val, s) else update_item item expectation new_val s))"

text \<open>The loops of \<^verbatim>\<open>sl_cas\<close>: setting the links of the new item at \<open>n\<close> levels from \<open>level\<close> on;
  renewing them after a lost race, with the result that the new item has been marked; and linking the
  new item in at the levels from \<open>level\<close> on.\<close>

primrec sl_cas_set_nexts :: "nat \<Rightarrow> nat \<Rightarrow> addr \<Rightarrow> addr list option \<Rightarrow> skiplist_t \<Rightarrow> skiplist_t prog" where
  "sl_cas_set_nexts level 0 new_item nexts s = ret s"
| "sl_cas_set_nexts level (Suc n) new_item nexts s =
     pbind (out_get nexts level) (\<lambda>x.
     pbind (sl_put_next s new_item level x) (\<lambda>s. sl_cas_set_nexts (level + 1) n new_item nexts s))"

primrec sl_cas_renew :: "nat \<Rightarrow> nat \<Rightarrow> addr \<Rightarrow> addr list option \<Rightarrow> skiplist_t \<Rightarrow> (bool \<times> skiplist_t) prog" where
  "sl_cas_renew i 0 new_item nexts s = ret (False, s)"
| "sl_cas_renew i (Suc n) new_item nexts s =
     pbind (sl_next s new_item i) (\<lambda>old_next.
     pbind (out_get nexts i) (\<lambda>x.
     if x = old_next then sl_cas_renew (i + 1) n new_item nexts s
     else case SYNC_CAS old_next old_next x of (other, link) \<Rightarrow>
       (let s = sl_set_next new_item i link s
        in pbind (passert (other = old_next \<or> other = MARK_NODE old_next)) (\<lambda>_.
           if HAS_MARK other then ret (True, s) else sl_cas_renew (i + 1) n new_item nexts s))))"

partial_function (option) sl_cas_link :: "map_key_t \<Rightarrow> nat \<Rightarrow> addr \<Rightarrow> addr list option \<Rightarrow> addr list option \<Rightarrow> skiplist_t \<Rightarrow> skiplist_t prog" where
  "sl_cas_link key level new_item preds nexts s =
     pbind (sl_load s new_item) (\<lambda>nd.
     if level < sn_num_levels nd then
       pbind (out_get preds level) (\<lambda>pred.
       pbind (out_get nexts level) (\<lambda>next.
       pbind (sl_next s new_item level) (\<lambda>x.
       pbind (passert (x = next \<or> x = MARK_NODE next)) (\<lambda>_.
       pbind (sl_next s pred level) (\<lambda>cur.
       case SYNC_CAS cur next new_item of (other, link) \<Rightarrow>
       (let s = sl_set_next pred level link s
        in if other = next then sl_cas_link key (level + 1) new_item preds nexts s
           else
             pbind (find_preds preds nexts (sn_num_levels nd) s key ASSIST_UNLINK) (\<lambda>((_, preds, nexts), s).
             pbind (sl_cas_renew level (sn_num_levels nd - level) new_item nexts s) (\<lambda>(marked, s).
             if marked then pbind (find_preds None None 0 s key FORCE_UNLINK) (\<lambda>(_, s). ret s)
             else sl_cas_link key level new_item preds nexts s))))))))
     else
       pbind (sl_next s new_item (sn_num_levels nd - 1)) (\<lambda>x.
       if HAS_MARK x then pbind (find_preds None None 0 s key FORCE_UNLINK) (\<lambda>(_, s). ret s) else ret s))"

text \<open>The arrays \<^verbatim>\<open>preds\<close> and \<^verbatim>\<open>nexts\<close> are not initialised; \<open>junk\<close> is what they hold.\<close>

partial_function (option) sl_cas :: "addr list \<Rightarrow> skiplist_t \<Rightarrow> map_key_t \<Rightarrow> map_val_t \<Rightarrow> map_val_t \<Rightarrow> (map_val_t \<times> skiplist_t) prog" where
  "sl_cas junk s key expectation new_val =
     pbind (passert (sint new_val > 0)) (\<lambda>_.
     pbind (random_levels s) (\<lambda>(n, s).
     pbind (find_preds (Some junk) (Some junk) n s key ASSIST_UNLINK) (\<lambda>((old_item, preds, nexts), s).
     if old_item \<noteq> NULL then
       pbind (update_item old_item expectation new_val s) (\<lambda>(ret_val, s).
       if ret_val \<noteq> DOES_NOT_EXIST then ret (ret_val, s) else sl_cas junk s key expectation new_val)
     else if expectation \<noteq> CAS_EXPECT_DOES_NOT_EXIST \<and> expectation \<noteq> CAS_EXPECT_WHATEVER then ret (DOES_NOT_EXIST, s)
     else
       let new_key = key_clone (sl_key_type s) key
       in pbind (sl_node_alloc n new_key new_val s) (\<lambda>(new_item, s).
          pbind (out_get nexts 0) (\<lambda>next.
          pbind (sl_put_next s new_item 0 next) (\<lambda>s.
          pbind (sl_load s new_item) (\<lambda>nd.
          pbind (sl_cas_set_nexts 1 (sn_num_levels nd - 1) new_item nexts s) (\<lambda>s.
          pbind (out_get preds 0) (\<lambda>pred.
          pbind (sl_next s pred 0) (\<lambda>cur.
          case SYNC_CAS cur next new_item of (other, link) \<Rightarrow>
          (let s = sl_set_next pred 0 link s
           in if other \<noteq> next then
                sl_cas junk (sl_nbd_free new_item (sl_free_key new_key s)) key expectation new_val
              else
                pbind (passert (sn_num_levels nd \<le> MAX_LEVELS)) (\<lambda>_.
                pbind (sl_cas_link key 1 new_item preds nexts s) (\<lambda>s. ret (DOES_NOT_EXIST, s))))))))))))))"

text \<open>The loops of \<^verbatim>\<open>sl_remove\<close>: marking the item at one level, entered with the link that is
  expected, with the result that the link was marked already; and at all levels from the top down,
  with the result that the bottom level was marked already.\<close>

partial_function (option) sl_remove_mark :: "addr \<Rightarrow> nat \<Rightarrow> markable_t \<Rightarrow> skiplist_t \<Rightarrow> (bool \<times> skiplist_t) prog" where
  "sl_remove_mark item level old_next s =
     (let next = old_next
      in pbind (sl_next s item level) (\<lambda>cur.
         case SYNC_CAS cur next (MARK_NODE next) of (old_next, link) \<Rightarrow>
         (let s = sl_set_next item level link s
          in if HAS_MARK old_next then ret (True, s)
             else if next \<noteq> old_next then sl_remove_mark item level old_next s
             else ret (False, s))))"

primrec sl_remove_levels :: "addr \<Rightarrow> nat \<Rightarrow> skiplist_t \<Rightarrow> (bool \<times> skiplist_t) prog" where
  "sl_remove_levels item 0 s = ret (False, s)"
| "sl_remove_levels item (Suc level) s =
     pbind (sl_next s item level) (\<lambda>old_next.
     pbind (sl_remove_mark item level old_next s) (\<lambda>(marked, s).
     if marked \<and> level = 0 then ret (True, s) else sl_remove_levels item level s))"

definition sl_remove :: "addr list \<Rightarrow> skiplist_t \<Rightarrow> map_key_t \<Rightarrow> (map_val_t \<times> skiplist_t) prog" where
  "sl_remove junk s key =
     pbind (find_preds (Some junk) None (sl_high_water s) s key ASSIST_UNLINK) (\<lambda>((item, _, _), s).
     if item = NULL then ret (DOES_NOT_EXIST, s)
     else
       pbind (sl_load s item) (\<lambda>nd.
       pbind (sl_remove_levels item (sn_num_levels nd) s) (\<lambda>(marked, s).
       if marked then ret (DOES_NOT_EXIST, s)
       else
         pbind (sl_load s item) (\<lambda>nd.
         case SYNC_SWAP (sn_val nd) DOES_NOT_EXIST of (val, v) \<Rightarrow>
         (let s = sl_upd item (\<lambda>nd. nd\<lparr>sn_val := v\<rparr>) s
          in pbind (find_preds None None 0 s key FORCE_UNLINK) (\<lambda>(_, s).
             pbind (sl_load s item) (\<lambda>nd.
             ret (val, sl_defer item (sl_defer_key (sn_key nd) s)))))))))"

section \<open>Iterators\<close>

text \<open>The iterator is its field \<^verbatim>\<open>next\<close>.\<close>

definition sl_iter_begin :: "skiplist_t \<Rightarrow> map_key_t \<Rightarrow> (addr \<times> skiplist_t) prog" where
  "sl_iter_begin s key =
     (if key \<noteq> DOES_NOT_EXIST
      then pbind (find_preds None (Some [0]) 1 s key DONT_UNLINK) (\<lambda>((_, _, succs), s). pbind (out_get succs 0) (\<lambda>x. ret (x, s)))
      else pbind (sl_next s (sl_head s) 0) (\<lambda>x. ret (GET_NODE x, s)))"

partial_function (option) sl_iter_skip :: "addr \<Rightarrow> skiplist_t \<Rightarrow> addr prog" where
  "sl_iter_skip item s =
     (if item = NULL then ret item
      else pbind (sl_next s item 0) (\<lambda>next. if HAS_MARK next then sl_iter_skip (STRIP_MARK next) s else ret item))"

definition sl_iter_next :: "addr \<Rightarrow> skiplist_t \<Rightarrow> (map_val_t \<times> map_key_t option \<times> addr) prog" where
  "sl_iter_next item s =
     pbind (sl_iter_skip item s) (\<lambda>item.
     if item = NULL then ret (DOES_NOT_EXIST, None, NULL)
     else
       pbind (sl_next s item 0) (\<lambda>next.
       pbind (sl_load s item) (\<lambda>nd. ret (sn_val nd, Some (sn_key nd), STRIP_MARK next))))"

lemmas sl_code [code] = sl_free_loop.simps sl_count_loop.simps find_preds_marked.simps find_preds_walk.simps find_preds.simps
  sl_min_key_loop.simps update_item.simps sl_cas_link.simps sl_cas.simps sl_remove_mark.simps sl_iter_skip.simps

end
