(* ===== verification/Skiplist_Map.thy ===== *)
theory Skiplist_Map
  imports Skiplist
begin

text \<open>
  The lock-free skip list run by one thread. Where no link is marked the search is the search of the
  sequential skip list; \<^verbatim>\<open>sl_remove\<close> marks the links of a node and its forced search
  unlinks it at every level; \<^verbatim>\<open>sl_cas\<close> links a node in. The last sections show that the
  implementation keeps the contract of a map, and state the properties.
\<close>

section \<open>Searching without marks\<close>

lemma find_preds_marked_unmarked: "\<not> HAS_MARK next \<Longrightarrow> find_preds_marked u l pred item next s = ret (Some (item, next), s)"
  by (subst find_preds_marked.simps) simp

lemma lseg_unmarked: "lseg N p as NULL \<Longrightarrow> (\<And>a. a \<in> set as \<Longrightarrow> \<not> HAS_MARK a) \<Longrightarrow> \<not> HAS_MARK p"
  by (cases as) auto

lemma lseg_links_unmarked:
  "lseg N p as NULL \<Longrightarrow> (\<And>a. a \<in> set as \<Longrightarrow> \<not> HAS_MARK a) \<Longrightarrow> a \<in> set as \<Longrightarrow> \<not> HAS_MARK (N a)"
proof (induction as arbitrary: p)
  case (Cons b bs)
  then show ?case using lseg_unmarked [of N "N b" bs] by auto
qed simp

text \<open>On links without marks the search is that of the sequential skip list.\<close>

lemma walk_eq_seq:
  assumes "lseg (nxt (sl_heap s) l) item as NULL" and "\<And>a. a \<in> set as \<Longrightarrow> l < height (sl_heap s) a \<and> \<not> HAS_MARK a \<and> a \<noteq> NULL"
    and "u \<noteq> FORCE_UNLINK"
  shows "find_preds_walk u key l pred item d s = pbind (find_preds_walk_seq False key l pred item d s) (\<lambda>(r, s). ret (Some r, s))"
  using assms
proof (induction as arbitrary: item pred d)
  case Nil
  then show ?case by (subst find_preds_walk.simps, subst find_preds_walk_seq.simps) simp
next
  case (Cons a as)
  have a: "item = a" "l < height (sl_heap s) a" "a \<noteq> NULL" using Cons.prems by auto
  have um: "\<not> HAS_MARK (nxt (sl_heap s) l a)" using lseg_links_unmarked [OF Cons.prems(1), of a] Cons.prems(2) by simp
  obtain nd where nd: "sl_load s a = ret nd" using sl_load_ok [OF a(2)] by blast
  let ?d = "key_diff (sl_key_type s) (sn_key nd) key"
  have IH: "find_preds_walk u key l a (nxt (sl_heap s) l a) ?d s =
      pbind (find_preds_walk_seq False key l a (nxt (sl_heap s) l a) ?d s) (\<lambda>(r, s). ret (Some r, s))"
    by (rule Cons.IH) (use Cons.prems in auto)
  show ?case
    using a nd um IH sl_next_ok [OF a(2)] assms(3)
    by (subst find_preds_walk.simps, subst find_preds_walk_seq.simps)
      (auto simp: find_preds_marked_unmarked Let_def GET_NODE_def)
qed

lemma levels_eq_seq:
  assumes "key_order kt K rank" and "sl_rep kt K rank s as" and "k \<in> K" and "level \<le> 24"
    and "p = sl_head s \<or> p \<in> set (before rank (sl_heap s) k as) \<and> level \<le> height (sl_heap s) p" and "u \<noteq> FORCE_UNLINK"
  shows "find_preds_levels u n k level p item d preds succs s =
    pbind (find_preds_levels_seq False n k level p item d preds succs s) (\<lambda>((r, preds, succs), s). ret ((Some r, preds, succs), s))"
  using assms(4,5)
proof (induction level arbitrary: p item d preds succs)
  case (Suc l)
  let ?h = "sl_heap s"
  have l: "l < 24" and p: "p = sl_head s \<or> p \<in> set (before rank ?h k as) \<and> l < height ?h p" using Suc.prems by auto
  have nx: "sl_next s p l = ret (nxt ?h l p)" by (rule sl_next_ok) (rule sl_level_from(2) [OF assms(1-3) l p])
  obtain xs where xs: "lseg (nxt ?h l) (nxt ?h l p) (xs @ at_level ?h l (onward rank ?h k as)) NULL"
    "set xs \<subseteq> set (at_level ?h l (before rank ?h k as))"
    using sl_level_from(1) [OF assms(1-3) l p] by blast
  have ok: "l < height ?h a \<and> \<not> HAS_MARK a \<and> a \<noteq> NULL" if "a \<in> set (xs @ at_level ?h l (onward rank ?h k as))" for a
  proof -
    have "a \<in> set as \<and> l < height ?h a" using that xs(2) by (auto simp: before_def onward_def)
    then show ?thesis using sl_repD(6) [OF assms(2), of a] by (simp add: sl_node_ok_def)
  qed
  have um: "\<not> HAS_MARK (nxt ?h l p)" by (rule lseg_unmarked [OF xs(1)]) (drule ok, simp)
  have W: "find_preds_walk u k l p (nxt ?h l p) d s = pbind (find_preds_walk_seq False k l p (nxt ?h l p) d s) (\<lambda>(r, s). ret (Some r, s))" for d
    by (rule walk_eq_seq [OF xs(1) ok assms(6)])
  obtain p' item' e where w: "find_preds_walk_seq False k l p (nxt ?h l p) d s = ret ((p', item', e), s)" "level_result rank s k as l p' item' e"
    using level_seq_ok(1) [OF assms(1-3) l p] by blast
  have st: "p' = sl_head s \<or> p' \<in> set (before rank ?h k as) \<and> l \<le> height ?h p'"
    using pred_at_start [of rank s k as l] w(2) by (auto simp: level_result_def)
  have l24: "l \<le> 24" and p': "p = sl_head s \<or> p \<in> set (before rank ?h k as) \<and> l \<le> height ?h p" using l p by auto
  have walk: "find_preds_walk u k l p (nxt ?h l p) d s = ret (Some (p', item', e), s)" using W w(1) by simp
  show ?case
  proof (cases "nxt ?h l p = DOES_NOT_EXIST \<and> n \<le> l")
    case True
    then show ?thesis using Suc.IH [OF l24 p'] by (simp add: nx)
  next
    case False
    then have c: "(nxt ?h l p = DOES_NOT_EXIST \<and> n \<le> l) = False" by blast
    have u: "HAS_MARK (nxt ?h l p) = False" using um by simp
    show ?thesis
      by (simp only: find_preds_levels.simps find_preds_levels_seq.simps nx pbind_ret c u if_False GET_NODE_def walk w(1)
          prod.case option.case Suc.IH [OF l24 st] pbind_assoc)
  qed
qed simp

lemma find_preds_ok:
  assumes "key_order kt K rank" and "sl_rep kt K rank s as" and "k \<in> K" and "n \<le> sl_high_water s" and "fits n preds" and "fits n succs"
    and "u \<noteq> FORCE_UNLINK"
  shows "find_preds preds succs n s k u =
    ret ((hit rank (sl_heap s) k as, map_option (fill n (pred_at rank s k as)) preds, map_option (fill n (succ_at rank s k as)) succs), s)"
proof -
  have "find_preds_levels u n k (sl_high_water s) (sl_head s) NULL 0 preds succs s =
      pbind (find_preds_seq preds succs n s k False) (\<lambda>((r, preds, succs), s). ret ((Some r, preds, succs), s))"
    unfolding find_preds_seq_def
    using levels_eq_seq [OF assms(1-3), of "sl_high_water s" "sl_head s" u] sl_repD(3) [OF assms(2)] assms(7) by simp
  then show ?thesis using find_preds_seq_ok [OF assms(1-6)] by (subst find_preds.simps) simp
qed

section \<open>Unlinking a marked node\<close>

text \<open>The walk in the mode that unlinks: \<open>xs\<close> are the nodes before the key, \<open>zs\<close> those after it, and
  the node \<open>m\<close> with the key, which is marked, is between them if it has the level.\<close>

lemma walk_force_ok:
  assumes "lseg (nxt (sl_heap s) l) (nxt (sl_heap s) l pred) xs (if b then m else first zs)" and "l < height (sl_heap s) pred"
    and "\<And>a. a \<in> set xs \<Longrightarrow> l < height (sl_heap s) a \<and> a \<noteq> NULL \<and> \<not> HAS_MARK (nxt (sl_heap s) l a) \<and>
      key_diff (sl_key_type s) (keyof (sl_heap s) a) key < 0"
    and "b \<Longrightarrow> l < height (sl_heap s) m \<and> m \<noteq> NULL \<and> m \<noteq> last (pred # xs) \<and> nxt (sl_heap s) l m = MARK_NODE (first zs)"
    and "\<not> HAS_MARK (first zs)" and "zs \<noteq> [] \<Longrightarrow> l < height (sl_heap s) (hd zs) \<and> hd zs \<noteq> NULL \<and> hd zs \<noteq> last (pred # xs) \<and>
      \<not> HAS_MARK (nxt (sl_heap s) l (hd zs)) \<and> 0 < key_diff (sl_key_type s) (keyof (sl_heap s) (hd zs)) key"
  shows "\<exists>e. find_preds_walk FORCE_UNLINK key l pred (nxt (sl_heap s) l pred) d s =
    ret (Some (last (pred # xs), first zs, e), if b then sl_set_next (last (pred # xs)) l (first zs) s else s)"
  using assms
proof (induction xs arbitrary: pred d)
  case Nil
  let ?h = "sl_heap s"
  define s' where "s' = (if b then sl_set_next pred l (first zs) s else s)"
  have z: "zs = [] \<and> first zs = NULL \<or> zs \<noteq> [] \<and> first zs = hd zs" by (cases zs) simp_all
  have nz: "sl_next s' (first zs) l = ret (nxt ?h l (first zs))" "nxt (sl_heap s') l (first zs) = nxt ?h l (first zs)" if "zs \<noteq> []"
  proof -
    have "l < height (sl_heap s') (first zs)" using Nil.prems(6) that z by (auto simp: s'_def)
    moreover show "nxt (sl_heap s') l (first zs) = nxt ?h l (first zs)"
      using Nil.prems(2,6) that z by (auto simp: s'_def nxt_set_next)
    ultimately show "sl_next s' (first zs) l = ret (nxt ?h l (first zs))" using sl_next_ok [of l s' "first zs"] by simp
  qed
  have load: "\<exists>nd. sl_load s' (first zs) = ret nd \<and> sn_key nd = keyof ?h (first zs)" if "zs \<noteq> []"
    using sl_load_ok [of l s' "first zs"] Nil.prems(6) that z by (auto simp: s'_def)
  have kt: "sl_key_type s' = sl_key_type s" by (simp add: s'_def)
  show ?case
  proof (cases b)
    case True
    then have m: "nxt ?h l pred = m" "l < height ?h m" "m \<noteq> NULL" "nxt ?h l m = MARK_NODE (first zs)" using Nil.prems(1,4) by auto
    have um: "\<not> HAS_MARK (nxt ?h l (first zs))" if "zs \<noteq> []" using Nil.prems(6) [OF that] z that by auto
    have "find_preds_marked FORCE_UNLINK l pred m (MARK_NODE (first zs)) s =
        pbind (if first zs \<noteq> NULL then sl_next s' (first zs) l else ret 0) (\<lambda>next. find_preds_marked FORCE_UNLINK l pred (first zs) next s')"
      using m(1) sl_next_ok [OF Nil.prems(2)] Nil.prems(5) True
      by (subst find_preds_marked.simps) (simp add: Let_def s'_def DOES_NOT_EXIST_def)
    also have "\<dots> = ret (Some (first zs, if zs = [] then 0 else nxt ?h l (first zs)), s')"
      using z nz(1) um Nil.prems(6) by (auto simp: find_preds_marked_unmarked)
    finally have mk: "find_preds_marked FORCE_UNLINK l pred m (MARK_NODE (first zs)) s =
        ret (Some (first zs, if zs = [] then 0 else nxt ?h l (first zs)), s')" .
    show ?thesis
      using m mk z load Nil.prems(6) True sl_next_ok [OF m(2)]
      by (subst find_preds_walk.simps) (auto simp: Let_def kt, auto simp: s'_def)
  next
    case False
    then have s': "s' = s" and it: "nxt ?h l pred = first zs" using Nil.prems(1) by (auto simp: s'_def)
    have um: "\<not> HAS_MARK (nxt ?h l (first zs))" if "zs \<noteq> []" using Nil.prems(6) [OF that] z that by auto
    show ?thesis
      using s' it z load nz(1) um Nil.prems(6) False
      by (subst find_preds_walk.simps) (auto simp: Let_def find_preds_marked_unmarked)
  qed
next
  case (Cons a xs)
  have a: "nxt (sl_heap s) l pred = a" "l < height (sl_heap s) a" "a \<noteq> NULL" "\<not> HAS_MARK (nxt (sl_heap s) l a)"
    "key_diff (sl_key_type s) (keyof (sl_heap s) a) key < 0"
    using Cons.prems(1,3) by auto
  obtain nd where nd: "sl_load s a = ret nd" "sn_key nd = keyof (sl_heap s) a" using sl_load_ok [OF a(2)] by blast
  have step: "find_preds_walk FORCE_UNLINK key l pred (nxt (sl_heap s) l pred) d s =
      find_preds_walk FORCE_UNLINK key l a (nxt (sl_heap s) l a) (key_diff (sl_key_type s) (keyof (sl_heap s) a) key) s"
    using a nd sl_next_ok [OF a(2)]
    by (subst find_preds_walk.simps) (simp add: Let_def find_preds_marked_unmarked GET_NODE_def)
  have lst: "last (pred # a # xs) = last (a # xs)" by simp
  show ?case unfolding step lst
    by (rule Cons.IH) (use Cons.prems a in auto)
qed

text \<open>A level of a skip list around a node: before the key, the node if it has the level, after the key.\<close>

lemma level_around:
  assumes "key_order kt K rank" and "sl_rep kt K rank s as" and "k \<in> K" and "m = hit rank (sl_heap s) k as" and "m \<noteq> NULL" and "l < 24"
    and "p = sl_head s \<or> p \<in> set (before rank (sl_heap s) k as) \<and> l < height (sl_heap s) p"
  shows "\<exists>xs zs. lseg (nxt (sl_heap s) l) (nxt (sl_heap s) l p) xs (if l < height (sl_heap s) m then m else first zs) \<and>
      (l < height (sl_heap s) m \<longrightarrow> nxt (sl_heap s) l m = first zs) \<and> last (p # xs) = pred_at rank s k as l \<and> \<not> HAS_MARK (first zs) \<and>
      (\<forall>a \<in> set xs. a \<noteq> m \<and> a \<noteq> NULL \<and> l < height (sl_heap s) a \<and> \<not> HAS_MARK (nxt (sl_heap s) l a) \<and> key_diff kt (keyof (sl_heap s) a) k < 0) \<and>
      (zs \<noteq> [] \<longrightarrow> hd zs \<noteq> m \<and> hd zs \<noteq> NULL \<and> hd zs \<noteq> pred_at rank s k as l \<and> l < height (sl_heap s) (hd zs) \<and>
        \<not> HAS_MARK (nxt (sl_heap s) l (hd zs)) \<and> 0 < key_diff kt (keyof (sl_heap s) (hd zs)) k)"
    and "p \<noteq> m" and "pred_at rank s k as l \<noteq> m" and "\<not> HAS_MARK (nxt (sl_heap s) l p)"
    and "nxt (sl_heap s) l p = NULL \<Longrightarrow> \<not> l < height (sl_heap s) m"
proof -
  let ?h = "sl_heap s"
  note R = sl_repD [OF assms(2)] and S = sl_side [OF assms(1-3)]
  define ys where "ys = at_level ?h l (onward rank ?h k as)"
  have m: "m \<in> set as" "rank (keyof ?h m) = rank k" using hit_in [of rank ?h k as] assms(4,5) by simp_all
  have mh: "m \<noteq> sl_head s" using R(5) m(1) by auto
  have mb: "m \<notin> set (before rank ?h k as)" using m(2) by (simp add: before_def)
  show "p \<noteq> m" using assms(7) mh mb by auto
  show pm: "pred_at rank s k as l \<noteq> m" using pred_at_start [of rank s k as l] mh mb by auto
  obtain xs where xs: "lseg (nxt ?h l) (nxt ?h l p) (xs @ ys) NULL" "last (p # xs) = pred_at rank s k as l"
    "set xs \<subseteq> set (at_level ?h l (before rank ?h k as))"
    using sl_level_from(1) [OF assms(1-3,6,7)] unfolding ys_def by blast
  have ok: "l < height ?h a \<and> a \<noteq> NULL \<and> \<not> HAS_MARK a \<and> a \<in> set as" if "a \<in> set (xs @ ys)" for a
  proof -
    have "a \<in> set as \<and> l < height ?h a" using that xs(3) by (auto simp: before_def onward_def ys_def)
    then show ?thesis using R(6) [of a] by (simp add: sl_node_ok_def)
  qed
  show "\<not> HAS_MARK (nxt ?h l p)" by (rule lseg_unmarked [OF xs(1)]) (drule ok, simp)
  have um: "\<not> HAS_MARK (nxt ?h l a)" if "a \<in> set (xs @ ys)" for a
    by (rule lseg_links_unmarked [OF xs(1) _ that]) (drule ok, simp)
  note top = level_hit [OF assms(1-5) ys_def]
  show "\<not> l < height ?h m" if "nxt ?h l p = NULL"
  proof -
    have "first (xs @ ys) = NULL" using lseg_first [OF xs(1)] that by simp
    then have "xs @ ys = []" using ok by (cases "xs @ ys") auto
    then show ?thesis using top(1) by simp
  qed
  define zs where "zs = (if l < height ?h m then tl ys else ys)"
  have ys: "ys = (if l < height ?h m then m # zs else zs)" using top by (cases ys) (auto simp: zs_def)
  have L: "lseg (nxt ?h l) (nxt ?h l p) xs (first ys)" "lseg (nxt ?h l) (first ys) ys NULL"
  proof -
    obtain r where r: "lseg (nxt ?h l) (nxt ?h l p) xs r" "lseg (nxt ?h l) r ys NULL" using xs(1) unfolding lseg_append by blast
    then show "lseg (nxt ?h l) (nxt ?h l p) xs (first ys)" "lseg (nxt ?h l) (first ys) ys NULL" using lseg_first [OF r(2)] by simp_all
  qed
  have zs: "a \<noteq> m" if "a \<in> set zs" for a
  proof -
    have "distinct ys" using R(5) by (simp add: ys_def onward_def)
    moreover have "l < height ?h a" if "a \<in> set ys" for a using that by (simp add: ys_def)
    ultimately show ?thesis using that ys by (cases "l < height ?h m") auto
  qed
  have zpos: "0 < key_diff kt (keyof ?h a) k" if "a \<in> set zs" for a
  proof -
    have a: "a \<in> set ys" using that ys by (auto split: if_splits)
    then have "0 \<le> key_diff kt (keyof ?h a) k" "a \<in> set as" using S(2) [of a] ok [of a] by (auto simp: ys_def)
    moreover have "key_diff kt (keyof ?h a) k \<noteq> 0"
    proof
      assume "key_diff kt (keyof ?h a) k = 0"
      then have "hit rank ?h k as = a" using S(3) [of a] \<open>a \<in> set as\<close> by (intro hit_unique(1) [OF R(7)]) auto
      then show False using zs [OF that] assms(4) by simp
    qed
    ultimately show ?thesis by simp
  qed
  have zsub: "set zs \<subseteq> set ys" using ys by auto
  have zp: "a \<noteq> pred_at rank s k as l" if "a \<in> set zs" for a
  proof -
    have "a \<in> set (onward rank ?h k as)" using that zsub by (auto simp: ys_def)
    then have "a \<in> set as" "a \<notin> set (before rank ?h k as)" by (auto simp: onward_def before_def)
    then show ?thesis using pred_at_start [of rank s k as l] R(5) by auto
  qed
  have first: "zs = [] \<and> first zs = NULL \<or> zs \<noteq> [] \<and> first zs = hd zs \<and> hd zs \<in> set zs" by (cases zs) simp_all
  have xm: "a \<noteq> m \<and> key_diff kt (keyof ?h a) k < 0" if "a \<in> set xs" for a
    using that xs(3) mb S(1) [of a] by auto
  have fz: "\<not> HAS_MARK (first zs)" using first ok [of "first zs"] zsub by (cases zs) auto
  have "lseg (nxt ?h l) (nxt ?h l p) xs (if l < height ?h m then m else first zs)" using L(1) ys by auto
  moreover have "nxt ?h l m = first zs" if "l < height ?h m" using L(2) ys that lseg_first [of "nxt ?h l" "nxt ?h l m" zs] by auto
  moreover have "\<forall>a \<in> set xs. a \<noteq> m \<and> a \<noteq> NULL \<and> l < height ?h a \<and> \<not> HAS_MARK (nxt ?h l a) \<and> key_diff kt (keyof ?h a) k < 0"
    using xm ok um by auto
  moreover have "hd zs \<noteq> m \<and> hd zs \<noteq> NULL \<and> hd zs \<noteq> pred_at rank s k as l \<and> l < height ?h (hd zs) \<and> \<not> HAS_MARK (nxt ?h l (hd zs)) \<and>
      0 < key_diff kt (keyof ?h (hd zs)) k" if "zs \<noteq> []"
  proof -
    have hz: "hd zs \<in> set zs" by (rule hd_in_set [OF that])
    then have "hd zs \<in> set (xs @ ys)" using zsub by auto
    then show ?thesis using zs [OF hz] zp [OF hz] zpos [OF hz] ok um by blast
  qed
  ultimately show "\<exists>xs zs. lseg (nxt ?h l) (nxt ?h l p) xs (if l < height ?h m then m else first zs) \<and>
      (l < height ?h m \<longrightarrow> nxt ?h l m = first zs) \<and> last (p # xs) = pred_at rank s k as l \<and> \<not> HAS_MARK (first zs) \<and>
      (\<forall>a \<in> set xs. a \<noteq> m \<and> a \<noteq> NULL \<and> l < height ?h a \<and> \<not> HAS_MARK (nxt ?h l a) \<and> key_diff kt (keyof ?h a) k < 0) \<and>
      (zs \<noteq> [] \<longrightarrow> hd zs \<noteq> m \<and> hd zs \<noteq> NULL \<and> hd zs \<noteq> pred_at rank s k as l \<and> l < height ?h (hd zs) \<and>
        \<not> HAS_MARK (nxt ?h l (hd zs)) \<and> 0 < key_diff kt (keyof ?h (hd zs)) k)"
    using xs(2) fz by blast
qed

lemma levels_force_ok:
  assumes "key_order kt K rank" and "sl_rep kt K rank s as" and "k \<in> K" and "m = hit rank (sl_heap s) k as" and "m \<noteq> NULL" and "level \<le> 24"
    and "p = sl_head s \<or> p \<in> set (before rank (sl_heap s) k as) \<and> level \<le> height (sl_heap s) p"
    and "sl_key_type t = kt" and "\<And>a. height (sl_heap t) a = height (sl_heap s) a" and "\<And>a. keyof (sl_heap t) a = keyof (sl_heap s) a"
    and "\<And>l a. l < level \<Longrightarrow> nxt (sl_heap t) l a = (if a = m \<and> l < height (sl_heap s) m then MARK_NODE (nxt (sl_heap s) l m) else nxt (sl_heap s) l a)"
  shows "\<exists>r. find_preds_levels FORCE_UNLINK 0 k level p item d None None t =
    ret ((Some r, None, None), set_levels (pred_at rank s k as) (\<lambda>l. nxt (sl_heap s) l m) (levels_below level (sl_heap s) m) t)"
  using assms(6-)
proof (induction level arbitrary: p item d t)
  case 0
  then show ?case by (simp add: levels_below_def)
next
  case (Suc l)
  let ?h = "sl_heap s"
  have l: "l < 24" and p: "p = sl_head s \<or> p \<in> set (before rank ?h k as) \<and> l < height ?h p" using Suc.prems(1,2) by auto
  note A = level_around [OF assms(1-5) l p]
  have hp: "l < height ?h p" by (rule sl_level_from(2) [OF assms(1-3) l p])
  have N: "nxt (sl_heap t) l a = (if a = m \<and> l < height ?h m then MARK_NODE (nxt ?h l m) else nxt ?h l a)" for a using Suc.prems(6) [of l] by simp
  have np: "nxt (sl_heap t) l p = nxt ?h l p" using A(2) by (simp add: N)
  have nx: "sl_next t p l = ret (nxt ?h l p)" using sl_next_ok [of l t p] hp Suc.prems(4) np by simp
  have st: "pred_at rank s k as l = sl_head s \<or> pred_at rank s k as l \<in> set (before rank ?h k as) \<and> l \<le> height ?h (pred_at rank s k as l)"
    using pred_at_start [of rank s k as l] by auto
  show ?case
  proof (cases "nxt ?h l p = NULL")
    case True
    have "\<exists>r. find_preds_levels FORCE_UNLINK 0 k l p item d None None t =
      ret ((Some r, None, None), set_levels (pred_at rank s k as) (\<lambda>l. nxt ?h l m) (levels_below l ?h m) t)"
      by (rule Suc.IH) (use Suc.prems p in auto)
    then show ?thesis using nx True A(5) by (simp add: DOES_NOT_EXIST_def levels_below_Suc)
  next
    case False
    obtain xs zs where xs: "lseg (nxt ?h l) (nxt ?h l p) xs (if l < height ?h m then m else first zs)"
      "l < height ?h m \<Longrightarrow> nxt ?h l m = first zs" "last (p # xs) = pred_at rank s k as l" "\<not> HAS_MARK (first zs)"
      "\<And>a. a \<in> set xs \<Longrightarrow> a \<noteq> m \<and> a \<noteq> NULL \<and> l < height ?h a \<and> \<not> HAS_MARK (nxt ?h l a) \<and> key_diff kt (keyof ?h a) k < 0"
      "zs \<noteq> [] \<Longrightarrow> hd zs \<noteq> m \<and> hd zs \<noteq> NULL \<and> hd zs \<noteq> pred_at rank s k as l \<and> l < height ?h (hd zs) \<and>
        \<not> HAS_MARK (nxt ?h l (hd zs)) \<and> 0 < key_diff kt (keyof ?h (hd zs)) k"
      using A(1) by blast
    define t1 where "t1 = (if l < height ?h m then sl_set_next (pred_at rank s k as l) l (nxt ?h l m) t else t)"
    have seg: "lseg (nxt (sl_heap t) l) (nxt (sl_heap t) l p) xs (if l < height ?h m then m else first zs)"
      using xs(1) lseg_frame [of xs "nxt (sl_heap t) l" "nxt ?h l"] xs(5) np by (simp add: N)
    have "\<exists>e. find_preds_walk FORCE_UNLINK k l p (nxt (sl_heap t) l p) d t =
      ret (Some (last (p # xs), first zs, e), if l < height ?h m then sl_set_next (last (p # xs)) l (first zs) t else t)"
    proof (rule walk_force_ok [OF seg])
      show "l < height (sl_heap t) p" using hp Suc.prems(4) by simp
      show "l < height (sl_heap t) a \<and> a \<noteq> NULL \<and> \<not> HAS_MARK (nxt (sl_heap t) l a) \<and> key_diff (sl_key_type t) (keyof (sl_heap t) a) k < 0"
        if "a \<in> set xs" for a using xs(5) [OF that] Suc.prems(3-5) by (simp add: N)
      show "l < height (sl_heap t) m \<and> m \<noteq> NULL \<and> m \<noteq> last (p # xs) \<and> nxt (sl_heap t) l m = MARK_NODE (first zs)" if "l < height ?h m"
        using that xs(2,3) A(3) assms(5) Suc.prems(4) by (simp add: N)
      show "\<not> HAS_MARK (first zs)" by (rule xs(4))
      show "l < height (sl_heap t) (hd zs) \<and> hd zs \<noteq> NULL \<and> hd zs \<noteq> last (p # xs) \<and> \<not> HAS_MARK (nxt (sl_heap t) l (hd zs)) \<and>
          0 < key_diff (sl_key_type t) (keyof (sl_heap t) (hd zs)) k" if "zs \<noteq> []"
        using xs(6) [OF that] xs(3) Suc.prems(3-5) by (simp add: N)
    qed
    then obtain e where w: "find_preds_walk FORCE_UNLINK k l p (nxt ?h l p) d t = ret (Some (pred_at rank s k as l, first zs, e), t1)"
      using xs(2,3) np by (auto simp: t1_def)
    have hpr: "l < height (sl_heap t) (pred_at rank s k as l)" using pred_at_height(2) [OF assms(2) l] Suc.prems(4) by simp
    have "\<exists>r. find_preds_levels FORCE_UNLINK 0 k l (pred_at rank s k as l) (first zs) e None None t1 =
      ret ((Some r, None, None), set_levels (pred_at rank s k as) (\<lambda>l. nxt ?h l m) (levels_below l ?h m) t1)"
    proof (rule Suc.IH [OF _ st])
      show "nxt (sl_heap t1) l' a = (if a = m \<and> l' < height ?h m then MARK_NODE (nxt ?h l' m) else nxt ?h l' a)" if "l' < l" for l' a
      proof -
        have "nxt (sl_heap t1) l' a = nxt (sl_heap t) l' a" using that hpr by (simp add: t1_def nxt_set_next)
        then show ?thesis using Suc.prems(6) [of l' a] that by simp
      qed
    qed (use l Suc.prems(3-5) in \<open>auto simp: t1_def\<close>)
    then show ?thesis using nx w False A(4) by (auto simp: DOES_NOT_EXIST_def GET_NODE_def levels_below_Suc t1_def)
  qed
qed

text \<open>Marking all levels of a node.\<close>

lemma sl_remove_levels_ok:
  assumes "level \<le> height (sl_heap s) m" and "\<And>l. l < level \<Longrightarrow> \<not> HAS_MARK (nxt (sl_heap s) l m)"
  shows "sl_remove_levels m level s = ret (False, set_levels (\<lambda>_. m) (\<lambda>l. MARK_NODE (nxt (sl_heap s) l m)) (rev [0..<level]) s)"
  using assms
proof (induction level arbitrary: s)
  case (Suc l)
  let ?s1 = "sl_set_next m l (MARK_NODE (nxt (sl_heap s) l m)) s"
  have l: "l < height (sl_heap s) m" using Suc.prems(1) by simp
  have "sl_remove_mark m l (nxt (sl_heap s) l m) s = ret (False, ?s1)"
    using Suc.prems(2) [of l] sl_next_ok [OF l] by (subst sl_remove_mark.simps) (simp add: Let_def)
  moreover have "sl_remove_levels m l ?s1 = ret (False, set_levels (\<lambda>_. m) (\<lambda>l. MARK_NODE (nxt (sl_heap ?s1) l m)) (rev [0..<l]) ?s1)"
    by (rule Suc.IH) (use Suc.prems l in \<open>auto simp: nxt_set_next\<close>)
  moreover have "set_levels (\<lambda>_. m) (\<lambda>l. MARK_NODE (nxt (sl_heap ?s1) l m)) (rev [0..<l]) ?s1 =
      set_levels (\<lambda>_. m) (\<lambda>l. MARK_NODE (nxt (sl_heap s) l m)) (rev [0..<l]) ?s1"
    unfolding set_levels_def by (rule fold_cong) (use l in \<open>auto simp: nxt_set_next\<close>)
  ultimately show ?case using sl_next_ok [OF l] by simp
qed simp

section \<open>Operations\<close>

lemma sl_lookup_ok:
  assumes "key_order kt K rank" and "sl_rep kt K rank s as" and "k \<in> K"
  shows "sl_lookup s k = ret (found_val (sl_abs rank s k), s)"
proof -
  define m where "m = hit rank (sl_heap s) k as"
  note H = sl_hit_abs [OF assms(2) m_def]
  have f: "find_preds None None 0 s k DONT_UNLINK = ret ((m, None, None), s)"
    using find_preds_ok [OF assms, of 0 None None DONT_UNLINK] by (simp add: m_def)
  show ?thesis
  proof (cases "m = NULL")
    case False
    then obtain nd where "sl_load s m = ret nd" "sn_val nd = valof (sl_heap s) m" using sl_load_ok [of 0 s m] H(2) by auto
    then show ?thesis using f False H by (simp add: sl_lookup_def DOES_NOT_EXIST_def)
  qed (use f H(1) in \<open>simp add: sl_lookup_def DOES_NOT_EXIST_def\<close>)
qed

lemma sl_remove_ok:
  assumes "key_order kt K rank" and "sl_rep kt K rank s as" and "k \<in> K" and "24 \<le> length junk"
  shows "\<exists>s'. sl_remove junk s k = ret (found_val (sl_abs rank s k), s') \<and> sl_inv kt K rank s' \<and>
    sl_pool s' = sl_pool s \<and> sl_rnd s' = sl_rnd s \<and> (\<forall>k'. sl_abs rank s' k' = (if rank k = rank k' then None else sl_abs rank s k'))"
proof -
  let ?h = "sl_heap s"
  note R = sl_repD [OF assms(2)]
  define m where "m = hit rank ?h k as"
  note H = sl_hit_abs [OF assms(2) m_def]
  have fp: "find_preds (Some junk) None (sl_high_water s) s k ASSIST_UNLINK =
      ret ((m, Some (fill (sl_high_water s) (pred_at rank s k as) junk), None), s)"
    using find_preds_ok [OF assms(1-3), of "sl_high_water s" "Some junk" None ASSIST_UNLINK] R(3) assms(4) by (simp add: m_def)
  show ?thesis
  proof (cases "m = NULL")
    case True
    have "sl_abs rank s k' = None" if "rank k = rank k'" for k' using True H(1) that by (simp add: sl_abs_def)
    then show ?thesis using True fp H(1) assms(2)
      by (intro exI [of _ s]) (auto simp: sl_remove_def sl_inv_def DOES_NOT_EXIST_def)
  next
    case False
    then have h: "0 < height ?h m" "sl_abs rank s k = Some (valof ?h m)" "height ?h m \<le> sl_high_water s" "m \<in> set as" "levelsof ?h m = height ?h m"
      using H by auto
    have um: "\<not> HAS_MARK (nxt ?h l m)" if "l < height ?h m" for l
    proof -
      have l: "l < 24" using that h(3) R(3) by simp
      have "\<not> HAS_MARK a" if "a \<in> set (at_level ?h l as)" for a using that R(6) by (simp add: sl_node_ok_def)
      then show ?thesis using lseg_links_unmarked [OF R(8) [OF l]] h(4) that by simp
    qed
    define t1 where "t1 = set_levels (\<lambda>_. m) (\<lambda>l. MARK_NODE (nxt ?h l m)) (rev [0..<height ?h m]) s"
    define t2 where "t2 = sl_upd m (\<lambda>nd. nd\<lparr>sn_val := DOES_NOT_EXIST\<rparr>) t1"
    define t3 where "t3 = set_levels (pred_at rank s k as) (\<lambda>l. nxt ?h l m) (levels_below (sl_high_water s) ?h m) t2"
    define s' where "s' = sl_defer m (sl_defer_key (keyof ?h m) t3)"
    have m1: "sl_heap t1 m \<noteq> None" using h(1) by (auto simp: t1_def height_def split: option.splits)
    note V = valof_upd(1) [OF m1, of DOES_NOT_EXIST, folded t2_def] valof_upd(2-) [of m DOES_NOT_EXIST t1, folded t2_def]
    have t: "height (sl_heap t2) a = height ?h a" "keyof (sl_heap t2) a = keyof ?h a" "levelsof (sl_heap t2) a = levelsof ?h a"
      "a \<noteq> m \<Longrightarrow> valof (sl_heap t2) a = valof ?h a" "sl_heap t2 a = None \<longleftrightarrow> ?h a = None" for a
      by (simp_all add: V) (simp_all add: t1_def)
    have sel: "sl_head t2 = sl_head s" "sl_key_type t2 = sl_key_type s" "sl_high_water t2 = sl_high_water s" "sl_pool t2 = sl_pool s" "sl_rnd t2 = sl_rnd s"
      by (simp_all add: t2_def t1_def)
    have nx2: "nxt (sl_heap t2) l a = (if a = m \<and> l < height ?h m then MARK_NODE (nxt ?h l m) else nxt ?h l a)" for l a
      unfolding V(5) t1_def by (subst set_levels_nxt) auto
    have "24 \<ge> sl_high_water s" using R(3) by simp
    from levels_force_ok [OF assms(1-3) m_def False this, of "sl_head s" t2 NULL 0] obtain r
      where lv: "find_preds_levels FORCE_UNLINK 0 k (sl_high_water s) (sl_head s) NULL 0 None None t2 = ret ((Some r, None, None), t3)"
      using t nx2 sel(2) R(1) by (auto simp: t3_def)
    have un: "find_preds None None 0 t2 k FORCE_UNLINK = ret ((r, None, None), t3)"
      using lv sel(1,3) by (subst find_preds.simps) simp
    obtain nd where nd: "sl_load s m = ret nd" "sn_num_levels nd = height ?h m"
      using sl_load_ok [OF h(1)] h(5) by (auto simp: levelsof_def)
    have mark: "sl_remove_levels m (height ?h m) s = ret (False, t1)" unfolding t1_def by (rule sl_remove_levels_ok) (use um in auto)
    obtain nd1 where nd1: "sl_load t1 m = ret nd1" "sn_val nd1 = valof ?h m" using sl_load_ok [of 0 t1 m] h(1) by (auto simp: t1_def)
    obtain nd3 where nd3: "sl_load t3 m = ret nd3" "sn_key nd3 = keyof ?h m" using sl_load_ok [of 0 t3 m] h(1) t by (auto simp: t3_def)
    have run: "sl_remove junk s k = ret (valof ?h m, s')"
      using fp False nd mark nd1 un nd3 by (simp add: sl_remove_def SYNC_SWAP_def Let_def t2_def [symmetric] s'_def)
    have heap: "sl_heap s' = sl_heap t3" by (simp add: s'_def sl_defer_def sl_defer_key_def)
    have sel': "sl_head s' = sl_head s" "sl_key_type s' = sl_key_type s" "sl_high_water s' = sl_high_water s" "sl_pool s' = sl_pool s" "sl_rnd s' = sl_rnd s"
      by (simp_all add: s'_def sl_defer_def sl_defer_key_def t3_def sel)
    have same: "same_nodes (set (sl_head s # as) - {m}) ?h (sl_heap s')" unfolding same_nodes_def heap by (auto simp: t3_def t)
    have nx: "nxt (sl_heap s') l a = (if l < height ?h m \<and> a = pred_at rank s k as l then nxt ?h l m else nxt ?h l a)"
      if "a \<noteq> m" for l a
    proof -
      have "l < height (sl_heap t2) (pred_at rank s k as l)" if "l \<in> set (levels_below (sl_high_water s) ?h m)" for l
        using that pred_at_height(2) [OF assms(2), of l k] R(3) by (simp add: levels_below_def t)
      from set_levels_nxt [OF this, of "levels_below (sl_high_water s) ?h m" "\<lambda>l. nxt ?h l m" l a] show ?thesis
        using that h(3) by (auto simp: heap t3_def nx2 levels_below_def)
    qed
    have po: "sl_pool_ok (sl_pool s') (sl_heap s')" using R(9) unfolding sel' sl_pool_ok_def heap by (simp add: t3_def t)
    note rep = sl_remove_rep [OF assms(2) m_def False sel'(1-3) same nx po]
    show ?thesis using run h(2) rep sel' by (intro exI [of _ s']) (auto simp: sl_inv_def)
  qed
qed

lemma pred_succ:
  assumes "sl_rep kt K rank s as" and "l < 24"
  shows "nxt (sl_heap s) l (pred_at rank s k as l) = succ_at rank s k as l" and "\<not> HAS_MARK (succ_at rank s k as l)"
proof -
  let ?h = "sl_heap s"
  note R = sl_repD [OF assms(1)]
  have "at_level ?h l as = at_level ?h l (before rank ?h k as) @ at_level ?h l (onward rank ?h k as)"
    by (subst before_onward [OF R(7), of k]) (rule filter_append)
  then show "nxt ?h l (pred_at rank s k as l) = succ_at rank s k as l"
    using lseg_last [of "nxt ?h l" "sl_head s"] R(8) [OF assms(2)] by (simp add: pred_at_def succ_at_def)
  have "\<not> HAS_MARK a" if "a \<in> set (at_level ?h l (onward rank ?h k as))" for a
    using that R(6) [of a] by (simp add: onward_def sl_node_ok_def)
  then show "\<not> HAS_MARK (succ_at rank s k as l)" by (cases "at_level ?h l (onward rank ?h k as)") (auto simp: succ_at_def)
qed

lemma sl_cas_set_nexts_ok:
  assumes "level + n \<le> height (sl_heap s) new" and "level + n \<le> length xs"
  shows "sl_cas_set_nexts level n new (Some xs) s = ret (set_levels (\<lambda>_. new) ((!) xs) [level..<level + n] s)"
  using assms by (induction n arbitrary: level s) (simp_all add: out_get_def sl_put_next_ok upt_conv_Cons del: upt_Suc)

text \<open>Linking the new node in at the levels from \<open>level\<close> on, when no other thread interferes.\<close>

lemma sl_cas_link_ok:
  assumes "level \<le> n" and "0 < n" and "height (sl_heap s) new = n" and "levelsof (sl_heap s) new = n"
    and "n \<le> length ps" and "n \<le> length ns" and "\<And>l. l < n \<Longrightarrow> nxt (sl_heap s) l new = ns ! l \<and> \<not> HAS_MARK (ns ! l)"
    and "\<And>l. level \<le> l \<Longrightarrow> l < n \<Longrightarrow> l < height (sl_heap s) (ps ! l) \<and> nxt (sl_heap s) l (ps ! l) = ns ! l \<and> ps ! l \<noteq> new"
  shows "sl_cas_link key level new (Some ps) (Some ns) s = ret (set_levels ((!) ps) (\<lambda>_. new) [level..<n] s)"
  using assms
proof (induction "n - level" arbitrary: level s)
  case 0
  then have l: "level = n" by simp
  have "0 < height (sl_heap s) new" using "0.prems" by simp
  then obtain nd where nd: "sl_load s new = ret nd" "sn_num_levels nd = n"
    using sl_load_ok [of 0 s new] "0.prems"(4) by (auto simp: levelsof_def)
  have "n - 1 < n" using "0.prems"(2) by simp
  then show ?case
    using nd l "0.prems"(3,7) sl_next_ok [of "n - 1" s new] by (subst sl_cas_link.simps) simp
next
  case (Suc i)
  then have l: "level < n" by simp
  have "0 < height (sl_heap s) new" using Suc.prems by simp
  then obtain nd where nd: "sl_load s new = ret nd" "sn_num_levels nd = n"
    using sl_load_ok [of 0 s new] Suc.prems(4) by (auto simp: levelsof_def)
  have p: "level < height (sl_heap s) (ps ! level)" "nxt (sl_heap s) level (ps ! level) = ns ! level" "ps ! level \<noteq> new"
    using Suc.prems(8) [of level] l by auto
  let ?s1 = "sl_set_next (ps ! level) level new s"
  have "sl_cas_link key level new (Some ps) (Some ns) s = sl_cas_link key (Suc level) new (Some ps) (Some ns) ?s1"
    using nd l p Suc.prems(3,5-7) sl_next_ok [of level s new] sl_next_ok [OF p(1)]
    by (subst sl_cas_link.simps) (simp add: out_get_def Let_def)
  also have "\<dots> = ret (set_levels ((!) ps) (\<lambda>_. new) [Suc level..<n] ?s1)"
  proof (rule Suc.hyps(1))
    show "nxt (sl_heap ?s1) l new = ns ! l \<and> \<not> HAS_MARK (ns ! l)" if "l < n" for l
      using Suc.prems(7) [OF that] p by (simp add: nxt_set_next)
    show "l < height (sl_heap ?s1) (ps ! l) \<and> nxt (sl_heap ?s1) l (ps ! l) = ns ! l \<and> ps ! l \<noteq> new" if "Suc level \<le> l" "l < n" for l
      using Suc.prems(8) [of l] that p(1) by (simp add: nxt_set_next)
  qed (use Suc.hyps(2) Suc.prems l in simp_all)
  finally show ?case using l by (simp add: upt_conv_Cons)
qed

text \<open>When \<^verbatim>\<open>sl_cas\<close> writes: a specific expected value is not compared with the value found.\<close>

definition sl_cas_writes :: "map_val_t \<Rightarrow> map_val_t option \<Rightarrow> bool" where
  "sl_cas_writes e r = (case r of
      None \<Rightarrow> e = CAS_EXPECT_DOES_NOT_EXIST \<or> e = CAS_EXPECT_WHATEVER
    | Some _ \<Rightarrow> e \<noteq> CAS_EXPECT_DOES_NOT_EXIST)"

lemma update_item_ok:
  assumes "0 < height (sl_heap s) m" and "valof (sl_heap s) m \<noteq> 0"
  shows "update_item m e v s = ret (valof (sl_heap s) m, if e = CAS_EXPECT_DOES_NOT_EXIST then s else sl_upd m (\<lambda>nd. nd\<lparr>sn_val := v\<rparr>) s)"
proof -
  obtain nd where "sl_load s m = ret nd" "sn_val nd = valof (sl_heap s) m" using sl_load_ok [OF assms(1)] by blast
  then show ?thesis using assms(2) by (subst update_item.simps) (simp add: DOES_NOT_EXIST_def Let_def)
qed

text \<open>The run of \<^verbatim>\<open>sl_cas\<close> that links a new node in.\<close>

lemma sl_cas_inserts:
  assumes "sl_rep kt K rank s1 as" and "random_levels s = ret (n, s1)" and "sl_pool s1 = new # pool" and "0 < n" and "n \<le> 20"
    and "24 \<le> length junk" and "0 < sint v" and "sl_cas_writes e None" and "key = key_clone (sl_key_type s1) k"
    and "P = fill n (pred_at rank s1 k as) junk" and "N = fill n (succ_at rank s1 k as) junk"
    and "find_preds (Some junk) (Some junk) n s1 k ASSIST_UNLINK = ret ((NULL, Some P, Some N), s1)"
  shows "sl_cas junk s k e v = ret (0, linked_in rank s1 k as new n key v pool)"
proof -
  define s2 where "s2 = s1\<lparr>sl_pool := pool, sl_heap := (sl_heap s1)(new \<mapsto> fresh_node n key v)\<rparr>"
  define s2a where "s2a = sl_set_next new 0 (N ! 0) s2"
  define s3 where "s3 = set_levels (\<lambda>_. new) ((!) N) [0..<n] s2"
  define s3a where "s3a = sl_set_next (P ! 0) 0 new s3"
  define s4 where "s4 = set_levels ((!) P) (\<lambda>_. new) [0..<n] s3"
  have s4: "s4 = linked_in rank s1 k as new n key v pool"
    unfolding s4_def linked_in_def s3_def s2_def set_levels_def assms(10,11)
    by (intro arg_cong2 [where f = "\<lambda>x y. fold x [0..<n] y"] fold_cong) (simp_all add: fill_nth)
  have upt: "[0..<n] = 0 # [1..<n]" using assms(4) by (simp add: upt_conv_Cons)
  have s3': "s3 = set_levels (\<lambda>_. new) ((!) N) [1..<n] s2a" "s4 = set_levels ((!) P) (\<lambda>_. new) [1..<n] s3a"
    by (simp_all add: s3_def s4_def s2a_def s3a_def upt)
  have len: "n \<le> length P" "n \<le> length N" using assms(5,6) by (simp_all add: assms(10,11) fill_length)
  have PN: "P ! l = pred_at rank s1 k as l" "N ! l = succ_at rank s1 k as l" if "l < n" for l
    using that by (simp_all add: assms(10,11) fill_nth)
  have h2: "height (sl_heap s2) a = (if a = new then n else height (sl_heap s1) a)" "levelsof (sl_heap s2) new = n"
    "a \<noteq> new \<Longrightarrow> nxt (sl_heap s2) l a = nxt (sl_heap s1) l a" for a l
    by (simp_all add: s2_def node_defs levelsof_def)
  have h2a: "height (sl_heap s2a) a = height (sl_heap s2) a" "levelsof (sl_heap s2a) a = levelsof (sl_heap s2) a" for a
    by (simp_all add: s2a_def)
  have h3: "height (sl_heap s3) a = height (sl_heap s2) a" "levelsof (sl_heap s3) a = levelsof (sl_heap s2) a" for a
    by (simp_all add: s3_def)
  have n3: "nxt (sl_heap s3) l a = (if l < n \<and> a = new then N ! l else nxt (sl_heap s2) l a)" for l a
    unfolding s3_def by (subst set_levels_nxt) (auto simp: h2)
  note R = sl_repD [OF assms(1)]
  have nin: "new \<notin> set (sl_head s1 # as)"
    using R(4,6,9) assms(3) by (fastforce simp: sl_pool_ok_def height_def sl_node_ok_def)
  have pr: "P ! l \<noteq> new" "l < height (sl_heap s3) (P ! l)" "nxt (sl_heap s3) l (P ! l) = N ! l" "\<not> HAS_MARK (N ! l)" if l: "l < n" for l
  proof -
    have l24: "l < 24" using l assms(5) by simp
    show ne: "P ! l \<noteq> new" using pred_at_height(1) [OF assms(1) l24, of k] nin PN(1) [OF l] by metis
    show "l < height (sl_heap s3) (P ! l)" using ne pred_at_height(2) [OF assms(1) l24, of k] PN(1) [OF l] by (simp add: h3 h2)
    show "nxt (sl_heap s3) l (P ! l) = N ! l" using ne pred_succ(1) [OF assms(1) l24, of k] PN [OF l] by (simp add: n3 h2)
    show "\<not> HAS_MARK (N ! l)" using pred_succ(2) [OF assms(1) l24, of k] PN [OF l] by simp
  qed
  have al: "sl_node_alloc n key v s1 = ret (new, s2)"
    using assms(3,5) by (simp add: sl_node_alloc_def MAX_LEVELS_def s2_def)
  have put: "sl_put_next s2 new 0 (N ! 0) = ret s2a" using sl_put_next_ok [of 0 s2 new] assms(4) by (simp add: h2 s2a_def)
  have "0 < height (sl_heap s2a) new" and lv: "levelsof (sl_heap s2a) new = n" using assms(4) by (simp_all add: h2a h2)
  then obtain nd where "sl_load s2a new = ret nd" "sl_heap s2a new = Some nd" using sl_load_ok by blast
  then have nd: "sl_load s2a new = ret nd" "sn_num_levels nd = n" using lv by (simp_all add: levelsof_def)
  have set: "sl_cas_set_nexts (Suc 0) (n - Suc 0) new (Some N) s2a = ret s3"
    using sl_cas_set_nexts_ok [of 1 "n - 1" s2a new N] assms(4) len by (simp add: h2a h2 s3'(1))
  have nx: "sl_next s3 (P ! 0) 0 = ret (N ! 0)" using sl_next_ok [OF pr(2) [OF assms(4)]] pr(3) [OF assms(4)] by simp
  have link: "sl_cas_link k (Suc 0) new (Some P) (Some N) s3a = ret s4"
    unfolding s3'(2) One_nat_def
  proof (rule sl_cas_link_ok)
    show "nxt (sl_heap s3a) l new = N ! l \<and> \<not> HAS_MARK (N ! l)" if "l < n" for l
      using pr [OF that] pr [OF assms(4)] that by (auto simp: s3a_def nxt_set_next n3)
    show "l < height (sl_heap s3a) (P ! l) \<and> nxt (sl_heap s3a) l (P ! l) = N ! l \<and> P ! l \<noteq> new" if "Suc 0 \<le> l" "l < n" for l
      using pr [OF that(2)] pr [OF assms(4)] that by (simp add: s3a_def nxt_set_next)
  qed (use assms(4) len in \<open>simp_all add: s3a_def h3 h2\<close>)
  have og: "out_get (Some N) 0 = ret (N ! 0)" "out_get (Some P) 0 = ret (P ! 0)" using assms(4) len by (auto simp: out_get_def)
  have "e = CAS_EXPECT_DOES_NOT_EXIST \<or> e = CAS_EXPECT_WHATEVER" using assms(8) by (simp add: sl_cas_writes_def)
  then have ex: "(e \<noteq> CAS_EXPECT_DOES_NOT_EXIST \<and> e \<noteq> CAS_EXPECT_WHATEVER) = False" by blast
  have "n \<le> MAX_LEVELS" using assms(5) by (simp add: MAX_LEVELS_def)
  then have "sl_cas junk s k e v = ret (0, s4)"
    using assms(2,7,12) al og put nd set nx link assms(9)
    by (subst sl_cas.simps) (simp add: ex Let_def DOES_NOT_EXIST_def s3a_def)
  then show ?thesis by (simp add: s4)
qed

lemma sl_cas_ok:
  assumes "key_order kt K rank" and "sl_rep kt K rank s as" and "k \<in> K" and "0 < sint v" and "sl_pool s \<noteq> []" and "rand_ok (sl_rnd s)"
    and "24 \<le> length junk"
  shows "\<exists>s'. sl_cas junk s k e v = ret (found_val (sl_abs rank s k), s') \<and> sl_inv kt K rank s' \<and>
    length (sl_pool s) \<le> length (sl_pool s') + 1 \<and> sl_rnd s' = snd (nbd_rand (sl_rnd s)) \<and>
    (\<forall>k'. sl_abs rank s' k' = (if sl_cas_writes e (sl_abs rank s k) \<and> rank k = rank k' then Some v else sl_abs rank s k'))"
proof -
  have v0: "v \<noteq> 0" using assms(4) by auto
  obtain n hw where nl: "random_levels s = ret (n, s\<lparr>sl_rnd := snd (nbd_rand (sl_rnd s)), sl_high_water := hw\<rparr>)"
    "1 \<le> n" "n \<le> hw" "sl_high_water s \<le> hw" "hw \<le> 20"
    using random_levels_ok [OF assms(6)] sl_repD(2,3) [OF assms(2)] by blast
  define s1 where "s1 = s\<lparr>sl_rnd := snd (nbd_rand (sl_rnd s)), sl_high_water := hw\<rparr>"
  note rep1 = sl_rep_rnd [OF assms(2) nl(4,5), of "snd (nbd_rand (sl_rnd s))", folded s1_def]
  have s1: "sl_high_water s1 = hw" "sl_pool s1 = sl_pool s" "sl_rnd s1 = snd (nbd_rand (sl_rnd s))" by (simp_all add: s1_def)
  define m where "m = hit rank (sl_heap s1) k as"
  note H = sl_hit_abs [OF rep1(1) m_def]
  define P N where "P = fill n (pred_at rank s1 k as) junk" and "N = fill n (succ_at rank s1 k as) junk"
  have fp: "find_preds (Some junk) (Some junk) n s1 k ASSIST_UNLINK = ret ((m, Some P, Some N), s1)"
    using find_preds_ok [OF assms(1) rep1(1) assms(3), of n "Some junk" "Some junk" ASSIST_UNLINK] nl assms(7) s1 by (simp add: m_def P_def N_def)
  have v: "sint v > 0" using assms(4) .
  have rl: "random_levels s = ret (n, s1)" using nl(1) by (simp add: s1_def)
  show ?thesis
  proof (cases "m = NULL")
    case False
    then have h: "0 < height (sl_heap s1) m" "sl_abs rank s1 k = Some (valof (sl_heap s1) m)" "valof (sl_heap s1) m \<noteq> 0" using H by auto
    define s2 where "s2 = (if e = CAS_EXPECT_DOES_NOT_EXIST then s1 else sl_upd m (\<lambda>nd. nd\<lparr>sn_val := v\<rparr>) s1)"
    have "sl_cas junk s k e v = ret (valof (sl_heap s1) m, s2)"
      using False fp rl v h(3) update_item_ok [OF h(1,3), of e v] by (subst sl_cas.simps) (simp add: DOES_NOT_EXIST_def s2_def)
    moreover have "sl_rep kt K rank s2 as" "sl_abs rank s2 k' = (if e \<noteq> CAS_EXPECT_DOES_NOT_EXIST \<and> rank k = rank k' then Some v else sl_abs rank s1 k')" for k'
      using sl_update_rep [OF rep1(1) m_def False v0 refl] rep1(1) by (auto simp: s2_def)
    ultimately show ?thesis
      using h(2) rep1(2) s1 by (intro exI [of _ s2]) (auto simp: sl_inv_def s2_def sl_cas_writes_def)
  next
    case True
    then have none: "sl_abs rank s k = None" "sl_abs rank s1 k = None" using H(1) rep1(2) by simp_all
    show ?thesis
    proof (cases "sl_cas_writes e None")
      case False
      then have "sl_cas junk s k e v = ret (0, s1)"
        using True fp rl v by (subst sl_cas.simps) (simp add: sl_cas_writes_def DOES_NOT_EXIST_def)
      then show ?thesis using False none rep1 s1 by (intro exI [of _ s1]) (auto simp: sl_inv_def)
    next
      case ap: True
      obtain new pool where pool: "sl_pool s1 = new # pool" using assms(5) s1(2) by (cases "sl_pool s") auto
      define key where "key = key_clone (sl_key_type s1) k"
      have key: "key \<in> K" "rank key = rank k"
        using key_orderD(5,6) [OF assms(1,3,3)] sl_repD(1) [OF rep1(1)] by (simp_all add: key_def)
      define s4 where "s4 = linked_in rank s1 k as new n key v pool"
      have "sl_cas junk s k e v = ret (0, s4)"
        unfolding s4_def by (rule sl_cas_inserts [OF rep1(1) rl pool _ _ assms(7) v ap key_def P_def N_def]) (use nl fp True in auto)
      moreover have "hit rank (sl_heap s1) k as = NULL" "0 < n" "n \<le> sl_high_water s1" using True nl s1 by (simp_all add: m_def)
      note linked_in_rep [OF rep1(1) this(1) pool this(2,3) key v0, folded s4_def]
      moreover have "length (sl_pool s) = length pool + 1" using pool s1(2) by simp
      moreover have "sl_pool s4 = pool" "sl_rnd s4 = sl_rnd s1" by (simp_all add: s4_def linked_in_def)
      ultimately show ?thesis using ap none rep1(2) s1(3) by (intro exI [of _ s4]) simp
    qed
  qed
qed

section \<open>Traversals\<close>

lemma sl_count_loop_ok:
  assumes "lseg (nxt (sl_heap s) 0) item bs NULL" and "\<And>a. a \<in> set bs \<Longrightarrow> a \<noteq> NULL \<and> \<not> HAS_MARK a \<and> 0 < height (sl_heap s) a"
  shows "sl_count_loop item c s = ret (c + of_nat (length bs))"
  using assms
proof (induction bs arbitrary: item c)
  case Nil
  then show ?case by (subst sl_count_loop.simps) simp
next
  case (Cons b bs)
  have "lseg (nxt (sl_heap s) 0) (nxt (sl_heap s) 0 b) bs NULL" using Cons.prems(1) by simp
  then have "\<not> HAS_MARK (nxt (sl_heap s) 0 b)" by (rule lseg_unmarked) (simp add: Cons.prems(2))
  then have "sl_count_loop item c s = sl_count_loop (nxt (sl_heap s) 0 b) (c + 1) s"
    using Cons.prems sl_next_ok [of 0 s b] by (subst sl_count_loop.simps) auto
  then show ?case using Cons.IH [of "nxt (sl_heap s) 0 b" "c + 1"] Cons.prems by (simp add: algebra_simps)
qed

lemma sl_count_ok:
  assumes "sl_rep kt K rank s as"
  shows "sl_count s = ret (of_nat (length as))"
  unfolding sl_count_def sl_next_head [OF assms] pbind_ret
  using sl_count_loop_ok [of s "first as" as 0] level_0 [OF assms] lseg_first [OF level_0 [OF assms]] sl_repD(6) [OF assms]
  by (simp add: sl_node_ok_def GET_NODE_def)

lemma sl_min_key_ok:
  assumes "sl_rep kt K rank s as"
  shows "sl_min_key s = ret (case as of [] \<Rightarrow> 0 | a # _ \<Rightarrow> keyof (sl_heap s) a)"
proof (cases as)
  case Nil
  then show ?thesis using sl_next_head [OF assms] by (subst sl_min_key_def, subst sl_min_key_loop.simps) (simp add: GET_NODE_def DOES_NOT_EXIST_def)
next
  case (Cons a bs)
  have a: "a \<noteq> NULL" "0 < height (sl_heap s) a" using sl_repD(6) [OF assms, of a] Cons by (auto simp: sl_node_ok_def)
  have "lseg (nxt (sl_heap s) 0) (nxt (sl_heap s) 0 a) bs NULL" using level_0 [OF assms] Cons by simp
  then have "\<not> HAS_MARK (nxt (sl_heap s) 0 a)"
    by (rule lseg_unmarked) (use sl_repD(6) [OF assms] Cons in \<open>auto simp: sl_node_ok_def\<close>)
  then show ?thesis
    using sl_next_head [OF assms] a Cons sl_next_ok [OF a(2)] sl_load_ok [OF a(2)]
    by (subst sl_min_key_def, subst sl_min_key_loop.simps) (auto simp: GET_NODE_def)
qed

text \<open>A client that iterates for at most \<open>n\<close> bindings.\<close>

primrec sl_iter_run :: "nat \<Rightarrow> addr \<Rightarrow> skiplist_t \<Rightarrow> (map_key_t \<times> map_val_t) list prog" where
  "sl_iter_run 0 it s = ret []"
| "sl_iter_run (Suc n) it s =
     pbind (sl_iter_next it s) (\<lambda>(val, key, it). case key of
       None \<Rightarrow> ret []
     | Some k \<Rightarrow> pbind (sl_iter_run n it s) (\<lambda>xs. ret ((k, val) # xs)))"

lemma sl_iter_run_eq_seq:
  assumes "lseg (nxt (sl_heap s) 0) it bs NULL" and "\<And>a. a \<in> set bs \<Longrightarrow> a \<noteq> NULL \<and> \<not> HAS_MARK a \<and> 0 < height (sl_heap s) a"
  shows "sl_iter_run n it s = sl_iter_run_seq n it s"
  using assms
proof (induction n arbitrary: it bs)
  case (Suc n)
  show ?case
  proof (cases bs)
    case Nil
    then show ?thesis using Suc.prems by (subst sl_iter_run.simps, subst sl_iter_next_def, subst sl_iter_skip.simps) (simp add: sl_iter_next_seq_def)
  next
    case (Cons b cs)
    have "lseg (nxt (sl_heap s) 0) (nxt (sl_heap s) 0 b) cs NULL" using Suc.prems(1) Cons by simp
    then have un: "\<not> HAS_MARK (nxt (sl_heap s) 0 b)" by (rule lseg_unmarked) (simp add: Suc.prems(2) Cons)
    obtain nd where nd: "sl_load s b = ret nd" "sn_key nd = keyof (sl_heap s) b" "sn_val nd = valof (sl_heap s) b"
      using sl_load_ok [of 0 s b] Suc.prems(2) [of b] Cons by auto
    have "sl_iter_skip b s = ret b" using Suc.prems(2) [of b] Cons un sl_next_ok [of 0 s b] by (subst sl_iter_skip.simps) simp
    then have "sl_iter_next it s = sl_iter_next_seq it s"
      using nd un Suc.prems Cons sl_next_ok [of 0 s b] by (simp add: sl_iter_next_seq_def sl_iter_next_def)
    moreover have "sl_iter_next_seq it s = ret (valof (sl_heap s) b, Some (keyof (sl_heap s) b), nxt (sl_heap s) 0 b)"
      using nd Suc.prems Cons sl_next_ok [of 0 s b] by (simp add: sl_iter_next_seq_def)
    ultimately show ?thesis using Suc.IH [of "nxt (sl_heap s) 0 b" cs] Suc.prems Cons by simp
  qed
qed simp

lemma sl_iter_begin_ok:
  assumes "key_order kt K rank" and "sl_rep kt K rank s as" and "k = 0 \<or> k \<in> K"
  shows "sl_iter_begin s k = ret (first (if k = 0 then as else onward rank (sl_heap s) k as), s)"
proof (cases "k = 0")
  case False
  then have "find_preds None (Some [0]) 1 s k DONT_UNLINK = ret ((hit rank (sl_heap s) k as, None, Some [succ_at rank s k as 0]), s)"
    using find_preds_ok [OF assms(1,2), of k 1 None "Some [0]"] assms(3) sl_repD(2) [OF assms(2)] by (simp add: fill_def)
  moreover have "succ_at rank s k as 0 = first (onward rank (sl_heap s) k as)"
    using at_level_0 [OF assms(2), of "onward rank (sl_heap s) k as"] by (simp add: succ_at_def onward_def)
  ultimately show ?thesis using False by (simp add: sl_iter_begin_def DOES_NOT_EXIST_def out_get_def)
qed (use sl_next_head [OF assms(2)] in \<open>simp add: sl_iter_begin_def DOES_NOT_EXIST_def GET_NODE_def\<close>)

lemma sl_iterate_eq_seq:
  assumes "key_order kt K rank" and "sl_rep kt K rank s as" and "k = 0 \<or> k \<in> K"
  shows "pbind (sl_iter_begin s k) (\<lambda>(it, s). sl_iter_run n it s) = pbind (sl_iter_begin_seq s k) (\<lambda>it. sl_iter_run_seq n it s)"
proof -
  let ?h = "sl_heap s" and ?bs = "if k = 0 then as else onward rank (sl_heap s) k as"
  have as: "as = before rank ?h k as @ onward rank ?h k as" by (rule before_onward [OF sl_repD(7) [OF assms(2)]])
  have L0: "lseg (nxt ?h 0) (nxt ?h 0 (sl_head s)) as NULL" by (rule level_0 [OF assms(2)])
  have "lseg (nxt ?h 0) (nxt ?h 0 (sl_head s)) (before rank ?h k as @ onward rank ?h k as) NULL"
    using L0 by (subst (asm) as)
  then obtain r where r: "lseg (nxt ?h 0) r (onward rank ?h k as) NULL" by (auto simp: lseg_append)
  have L: "lseg (nxt ?h 0) (first ?bs) ?bs NULL"
    using lseg_first [OF r] lseg_first [OF L0] r L0 by simp
  have sub: "set ?bs \<subseteq> set as" by (simp add: onward_def)
  have ok: "a \<noteq> NULL \<and> \<not> HAS_MARK a \<and> 0 < height ?h a" if "a \<in> set ?bs" for a
    using sl_repD(6) [OF assms(2), of a] sub that by (auto simp: sl_node_ok_def simp del: set_filter)
  show ?thesis
    unfolding sl_iter_begin_ok [OF assms] sl_iter_begin_seq_ok [OF assms] using sl_iter_run_eq_seq [OF L ok] by simp
qed

section \<open>The interface of a map\<close>

definition sl_impl :: "addr list \<Rightarrow> skiplist_t map_impl" where
  "sl_impl junk = \<lparr>impl_cas = sl_cas junk, impl_get = sl_lookup, impl_remove = sl_remove junk, impl_count = sl_count\<rparr>"

lemma sl_cas_contract:
  assumes "key_order kt K rank" and "sl_inv kt K rank s" and "k \<in> K" and "v \<in> positive_vals" and "0 < sl_room s" and "24 \<le> length junk"
    and "cas_specified e (sl_abs rank s k)"
  shows "\<exists>s'. impl_cas (sl_impl junk) s k e v = ret (found_val (sl_abs rank s k), s') \<and> sl_inv kt K rank s' \<and> sl_room s \<le> sl_room s' + 1 \<and>
    (\<forall>k' \<in> K. sl_abs rank s' k' = (if cas_applies e (sl_abs rank s k)
      then bind_key (\<lambda>a b. rank a = rank b) k (Some v) (sl_abs rank s) k' else sl_abs rank s k'))"
proof -
  obtain as where rep: "sl_rep kt K rank s as" using assms(2) by (auto simp: sl_inv_def)
  have v: "0 < sint v" using assms(4) by (simp add: positive_vals_def)
  note room = sl_roomD [OF assms(5)]
  have ap: "sl_cas_writes e (sl_abs rank s k) = cas_applies e (sl_abs rank s k)"
    using assms(7) by (auto simp: cas_specified_def cas_applies_def sl_cas_writes_def cas_expect_defs split: option.splits)
  obtain s' where "sl_cas junk s k e v = ret (found_val (sl_abs rank s k), s')" "sl_inv kt K rank s'"
    "length (sl_pool s) \<le> length (sl_pool s') + 1" "sl_rnd s' = snd (nbd_rand (sl_rnd s))"
    "\<forall>k'. sl_abs rank s' k' = (if cas_applies e (sl_abs rank s k) \<and> rank k = rank k' then Some v else sl_abs rank s k')"
    using sl_cas_ok [OF assms(1) rep assms(3) v room assms(6), of e] unfolding ap by blast
  then show ?thesis using sl_room_step [of s s'] by (intro exI [of _ s']) (auto simp: sl_impl_def bind_key_def)
qed

sublocale level_keys \<subseteq> slf: map_contract "sl_impl junk" "sl_inv kt K rank" "sl_abs rank" sl_room K positive_vals UNIV
  "\<lambda>a b. rank a = rank b"
proof unfold_locales
  fix s k assume s: "sl_inv kt K rank s" and k: "k \<in> K"
  then obtain as where rep: "sl_rep kt K rank s as" by (auto simp: sl_inv_def)
  show "\<exists>s'. impl_get (sl_impl junk) s k = ret (found_val (sl_abs rank s k), s') \<and> sl_inv kt K rank s' \<and>
      (\<forall>k' \<in> K. sl_abs rank s' k' = sl_abs rank s k') \<and> sl_room s \<le> sl_room s'"
    using sl_lookup_ok [OF ord rep k] s by (simp add: sl_impl_def)
  obtain s' where "sl_remove junk s k = ret (found_val (sl_abs rank s k), s')" "sl_inv kt K rank s'"
    "sl_pool s' = sl_pool s" "sl_rnd s' = sl_rnd s" "\<forall>k'. sl_abs rank s' k' = (if rank k = rank k' then None else sl_abs rank s k')"
    using sl_remove_ok [OF ord rep k junk_size] by blast
  then show "\<exists>s'. impl_remove (sl_impl junk) s k = ret (found_val (sl_abs rank s k), s') \<and> sl_inv kt K rank s' \<and>
      sl_room s \<le> sl_room s' + 1 \<and> (\<forall>k' \<in> K. sl_abs rank s' k' = bind_key (\<lambda>a b. rank a = rank b) k None (sl_abs rank s) k')"
    by (intro exI [of _ s']) (auto simp: sl_impl_def bind_key_def sl_room_def)
qed (use sl_cas_contract [OF ord _ _ _ _ junk_size] in \<open>auto simp: positive_vals_def\<close>)

section \<open>An empty skip list\<close>

lemma sl_alloc_eq_seq: "sl_alloc kt pool rnd = sl_alloc_seq kt pool rnd"
  by (simp add: sl_alloc_def sl_alloc_seq_def sl_node_alloc_def node_alloc_seq_def MAX_LEVELS_def)

section \<open>Properties\<close>

text \<open>C6: the lock-free skip list, run by one thread, implements a map. For keys on which the comparison
  is an order, while memory lasts and the next random number has a bit set in its low half:
  \<^verbatim>\<open>sl_lookup\<close> returns the binding of the key; \<^verbatim>\<open>sl_cas\<close> returns the old binding and
  binds the key to the new value when the key is unbound and the expectation does not ask for a binding,
  or when it is bound and the expectation is not that it is not; \<^verbatim>\<open>sl_remove\<close> marks the node from
  the top level down, unlinks it at every level, returns the old binding and leaves the key unbound;
  \<^verbatim>\<open>sl_count\<close> is the number of bindings. Every call returns, no other key is affected, and the
  invariant holds after it: in particular no link stays marked.\<close>

theorem sl_refines_map:
  assumes "key_order kt K rank" and "sl_inv kt K rank s" and "k \<in> K" and "0 < sint v" and "sl_pool s \<noteq> []" and "rand_ok (sl_rnd s)"
    and "24 \<le> length junk"
  shows "sl_lookup s k = ret (found_val (sl_abs rank s k), s)
    \<and> (\<exists>s'. sl_cas junk s k e v = ret (found_val (sl_abs rank s k), s') \<and> sl_inv kt K rank s' \<and>
        (\<forall>k'. sl_abs rank s' k' = (if sl_cas_writes e (sl_abs rank s k) \<and> rank k = rank k' then Some v else sl_abs rank s k')))
    \<and> (\<exists>s'. sl_remove junk s k = ret (found_val (sl_abs rank s k), s') \<and> sl_inv kt K rank s' \<and>
        (\<forall>k'. sl_abs rank s' k' = (if rank k = rank k' then None else sl_abs rank s k')))
    \<and> sl_count s = ret (of_nat (card (dom (sl_assoc rank (sl_heap s) (sl_nodes s)))))"
proof -
  obtain as where rep: "sl_rep kt K rank s as" using assms(2) by (auto simp: sl_inv_def)
  show ?thesis
    using sl_lookup_ok [OF assms(1) rep assms(3)] sl_cas_ok [OF assms(1) rep assms(3-7), of e]
      sl_remove_ok [OF assms(1) rep assms(3,7)] sl_count_ok [OF rep] sl_card_abs [OF rep] by auto
qed

theorem sl_refines_map_witness:
  "\<exists>s'. sl_cas (replicate 24 0) sl_sample_seq 5 CAS_EXPECT_WHATEVER 9 = ret (0, s') \<and> sl_abs uint s' 5 = Some 9"
proof -
  have "sl_inv None small_keys uint sl_sample_seq" using sl_sample_seq_ok(1) by (auto simp: sl_inv_def)
  then show ?thesis
    using sl_refines_map [OF small_keys_order, of sl_sample_seq 5 9 "replicate 24 0" CAS_EXPECT_WHATEVER] rand_ok_sample
      sl_sample_seq_ok(2,3) sl_abs_empty [OF sl_sample_seq_ok(1)]
    by (auto simp: small_keys_def sl_cas_writes_def)
qed

text \<open>The lock-free skip list reads like the sequential one. On a state no other thread is changing,
  \<^verbatim>\<open>sl_lookup\<close>, \<^verbatim>\<open>sl_count\<close>, \<^verbatim>\<open>sl_min_key\<close> and an iteration from any key give what
  the functions of \<^verbatim>\<open>unsafe_skiplist.c\<close> give, which know nothing of marks.\<close>

lemma sl_reads_like_sequential:
  assumes "key_order kt K rank" and "sl_inv kt K rank s" and "k \<in> K"
  shows "sl_lookup s k = sl_lookup_seq s k \<and> sl_count s = sl_count_seq s \<and> sl_min_key s = sl_min_key_seq s \<and>
    pbind (sl_iter_begin s k) (\<lambda>(it, s). sl_iter_run n it s) = pbind (sl_iter_begin_seq s k) (\<lambda>it. sl_iter_run_seq n it s)"
proof -
  obtain as where rep: "sl_rep kt K rank s as" using assms(2) by (auto simp: sl_inv_def)
  have "sl_min_key s = sl_min_key_seq s"
  proof (cases as)
    case Nil
    then show ?thesis using sl_min_key_ok [OF rep] sl_next_head [OF rep] by (simp add: sl_min_key_seq_def DOES_NOT_EXIST_def)
  next
    case (Cons a bs)
    have "a \<noteq> NULL" "0 < height (sl_heap s) a" using sl_repD(6) [OF rep, of a] Cons by (auto simp: sl_node_ok_def)
    then show ?thesis using sl_min_key_ok [OF rep] sl_next_head [OF rep] Cons sl_load_ok [of 0 s a] by (auto simp: sl_min_key_seq_def)
  qed
  then show ?thesis
    using sl_lookup_ok [OF assms(1) rep assms(3)] sl_lookup_seq_ok [OF assms(1) rep assms(3)] sl_count_ok [OF rep] sl_count_seq_ok [OF rep]
      sl_iterate_eq_seq [OF assms(1) rep disjI2 [OF assms(3)], of n] by simp
qed

end
