(* ===== verification/Hashtable.thy ===== *)
theory Hashtable
  imports Map_Interface
begin

text \<open>
  Model of \<^verbatim>\<open>src/src/map/hashtable.c\<close>, a hash table with open addressing that grows by
  copying its entries, a chunk at a time, into a table linked behind it.

  The objects of type \<^verbatim>\<open>hti_t\<close> are kept in a store in the order of their allocation, and a
  pointer to one is its position in the store, NULL being \<^const>\<open>None\<close>; an object stays readable
  after it has been handed to \<^verbatim>\<open>rcu_defer_free\<close>, which the list \<open>ht_deferred\<close> records in order, together with the
  \<^verbatim>\<open>nbd_free\<close> of the table itself.
  A pointer to an entry is the pair of its table and its index. The functions are written out for
  one thread, with the branches that lose a race kept as the code has them.

  The proofs are in \<open>Hashtable_Table\<close> (one table), \<open>Hashtable_Chain\<close> (tables being copied),
  \<open>Hashtable_Ops\<close>, \<open>Hashtable_Update\<close>, \<open>Hashtable_Map\<close> and \<open>Hashtable_Props\<close>.
\<close>

section \<open>Data\<close>

record entry =
  ent_key :: map_key_t
  ent_val :: map_val_t

record hti =
  hti_table :: "entry list"
  hti_next :: "nat option"
  hti_count :: size_t
  hti_key_count :: size_t
  hti_copy_scan :: size_t
  hti_num_entries_copied :: size_t
  hti_probe :: int
  hti_ref_count :: int
  hti_scale :: nat

datatype ht_freed = Freed_Key addr | Freed_Table nat | Freed_Hti nat | Freed_Ht

text \<open>\<^verbatim>\<open>density\<close>, a \<^verbatim>\<open>double\<close> that is only printed, is kept as the numerator and
  the denominator of the quotient it approximates.\<close>

record hashtable_t =
  ht_store :: "hti list"
  ht_hti :: nat
  ht_key_type :: "datatype_t option"
  ht_hti_copies :: uint32_t
  ht_density :: "nat \<times> nat"
  ht_probe :: int
  ht_deferred :: "ht_freed list"

record ht_iter =
  it_hti :: nat
  it_idx :: int

definition GET_PTR :: "map_key_t \<Rightarrow> addr" where
  "GET_PTR x = x AND MASK 48"

definition COPIED_VALUE :: map_val_t where
  "COPIED_VALUE = TAG_VALUE DOES_NOT_EXIST TAG1"

definition TOMBSTONE :: map_val_t where
  "TOMBSTONE = STRIP_TAG (- 1) TAG1"

definition ENTRIES_PER_BUCKET :: nat where "ENTRIES_PER_BUCKET = CACHE_LINE_SIZE div 16"
definition ENTRIES_PER_COPY_CHUNK :: nat where "ENTRIES_PER_COPY_CHUNK = CACHE_LINE_SIZE div 16 * 2"
definition MIN_SCALE :: nat where "MIN_SCALE = 4"

text \<open>Accesses through pointers.\<close>

definition hti_at :: "hashtable_t \<Rightarrow> nat \<Rightarrow> hti prog" where
  "hti_at s p = (if p < length (ht_store s) then ret (ht_store s ! p) else fail Null_Deref)"

definition hti_ptr :: "nat option \<Rightarrow> nat prog" where
  "hti_ptr p = (case p of None \<Rightarrow> fail Null_Deref | Some q \<Rightarrow> ret q)"

definition ent_at :: "hti \<Rightarrow> nat \<Rightarrow> entry prog" where
  "ent_at t i = (if i < length (hti_table t) then ret (hti_table t ! i) else fail Out_Of_Bounds)"

definition upd_hti :: "nat \<Rightarrow> (hti \<Rightarrow> hti) \<Rightarrow> hashtable_t \<Rightarrow> hashtable_t" where
  "upd_hti p f s = s\<lparr>ht_store := (ht_store s)[p := f (ht_store s ! p)]\<rparr>"

definition put_key :: "nat \<Rightarrow> map_key_t \<Rightarrow> hti \<Rightarrow> hti" where
  "put_key i k t = t\<lparr>hti_table := (hti_table t)[i := (hti_table t ! i)\<lparr>ent_key := k\<rparr>]\<rparr>"

definition put_val :: "nat \<Rightarrow> map_val_t \<Rightarrow> hti \<Rightarrow> hti" where
  "put_val i v t = t\<lparr>hti_table := (hti_table t)[i := (hti_table t ! i)\<lparr>ent_val := v\<rparr>]\<rparr>"

definition add_count :: "size_t \<Rightarrow> hti \<Rightarrow> hti" where
  "add_count n t = t\<lparr>hti_count := snd (SYNC_ADD (hti_count t) n)\<rparr>"

definition add_key_count :: "size_t \<Rightarrow> hti \<Rightarrow> hti" where
  "add_key_count n t = t\<lparr>hti_key_count := snd (SYNC_ADD (hti_key_count t) n)\<rparr>"

definition add_copied :: "size_t \<Rightarrow> hti \<Rightarrow> hti" where
  "add_copied n t = t\<lparr>hti_num_entries_copied := snd (SYNC_ADD (hti_num_entries_copied t) n)\<rparr>"

definition ht_defer :: "ht_freed \<Rightarrow> hashtable_t \<Rightarrow> hashtable_t" where
  "ht_defer x s = s\<lparr>ht_deferred := ht_deferred s @ [x]\<rparr>"

section \<open>Searching one table\<close>

definition key_hash_of :: "datatype_t option \<Rightarrow> map_key_t \<Rightarrow> uint32_t" where
  "key_hash_of kt key = (case kt of None \<Rightarrow> murmur32_8b key | Some dt \<Rightarrow> dt_hash dt key)"

text \<open>The index of the next bucket. Shifting by a negative amount and leaving the range of
  \<^verbatim>\<open>int\<close> are undefined; neither happens for tables of up to \<open>2 ^ 30\<close> entries.\<close>

definition get_next_ndx :: "nat \<Rightarrow> uint32_t \<Rightarrow> nat \<Rightarrow> nat prog" where
  "get_next_ndx old_ndx key_hash scale =
     pbind (pguard Undefined_Behaviour (1 \<le> scale \<and> scale < 32)) (\<lambda>_.
     let incr = unat (drop_bit (32 - scale) key_hash);
         incr = (if incr < ENTRIES_PER_BUCKET then incr + ENTRIES_PER_BUCKET else incr)
     in pbind (pguard Undefined_Behaviour (old_ndx + incr < 2 ^ 31)) (\<lambda>_.
        ret (unat ((of_nat (old_ndx + incr) :: uint64_t) AND MASK scale))))"

text \<open>Whether the key of an entry is the key looked for: the comparison is with the pointer in the low
  48 bits when keys are pointers, after a quick comparison of 16 bits of the hash.\<close>

definition key_matches :: "datatype_t option \<Rightarrow> map_key_t \<Rightarrow> uint32_t \<Rightarrow> map_key_t \<Rightarrow> bool" where
  "key_matches kt key key_hash ekey = (case kt of
      None \<Rightarrow> ekey = key
    | Some dt \<Rightarrow> ucast (drop_bit 16 key_hash) = drop_bit 48 ekey \<and> dt_cmp dt (GET_PTR ekey) key = 0)"

text \<open>The loop over the entries of a bucket, from the indexed entry to the end of the cache line and
  round to its beginning; the result is the index of the entry and whether it is empty.\<close>

function hti_lookup_bucket :: "datatype_t option \<Rightarrow> hti \<Rightarrow> map_key_t \<Rightarrow> uint32_t \<Rightarrow> nat \<Rightarrow> nat \<Rightarrow> (nat \<times> bool) option prog" where
  "hti_lookup_bucket kt t key key_hash ndx j =
     (if j < ENTRIES_PER_BUCKET then
        let i = ndx div ENTRIES_PER_BUCKET * ENTRIES_PER_BUCKET + (ndx + j) mod ENTRIES_PER_BUCKET
        in pbind (ent_at t i) (\<lambda>ent.
           if ent_key ent = DOES_NOT_EXIST then ret (Some (i, True))
           else if key_matches kt key key_hash (ent_key ent) then ret (Some (i, False))
           else hti_lookup_bucket kt t key key_hash ndx (j + 1))
      else ret None)"
  by pat_completeness auto

termination hti_lookup_bucket
  by (relation "measure (\<lambda>(kt, t, key, key_hash, ndx, j). ENTRIES_PER_BUCKET - j)") auto

declare hti_lookup_bucket.simps [simp del]

primrec hti_lookup_probes :: "datatype_t option \<Rightarrow> hti \<Rightarrow> map_key_t \<Rightarrow> uint32_t \<Rightarrow> nat \<Rightarrow> nat \<Rightarrow> (nat \<times> bool) option prog" where
  "hti_lookup_probes kt t key key_hash 0 ndx = ret None"
| "hti_lookup_probes kt t key key_hash (Suc n) ndx =
     pbind (hti_lookup_bucket kt t key key_hash ndx 0) (\<lambda>r. case r of
       Some e \<Rightarrow> ret (Some e)
     | None \<Rightarrow> pbind (get_next_ndx ndx key_hash (hti_scale t)) (\<lambda>ndx.
         hti_lookup_probes kt t key key_hash n ndx))"

definition hti_lookup :: "datatype_t option \<Rightarrow> hti \<Rightarrow> map_key_t \<Rightarrow> uint32_t \<Rightarrow> (nat \<times> bool) option prog" where
  "hti_lookup kt t key key_hash =
     hti_lookup_probes kt t key key_hash (nat (hti_probe t)) (unat ((ucast key_hash :: uint64_t) AND MASK (hti_scale t)))"

section \<open>Allocation and growth\<close>

definition hti_alloc :: "nat \<Rightarrow> hashtable_t \<Rightarrow> (nat \<times> hashtable_t) prog" where
  "hti_alloc scale s =
     (let probe = int (scale * 3 div 2) + 2;
          quarter = as_int (ucast (push_bit (scale - 2) (1 :: uint64_t) div of_nat ENTRIES_PER_BUCKET));
          probe = (if probe > quarter \<and> quarter > 4 then quarter else probe);
          t = \<lparr>hti_table = replicate (2 ^ scale) \<lparr>ent_key = 0, ent_val = 0\<rparr>, hti_next = None, hti_count = 0,
               hti_key_count = 0, hti_copy_scan = 0, hti_num_entries_copied = 0, hti_probe = probe,
               hti_ref_count = 1, hti_scale = scale\<rparr>
      in pbind (passert (probe \<noteq> 0)) (\<lambda>_.
         pbind (passert (MIN_SCALE \<le> scale \<and> scale < 63)) (\<lambda>_.
         ret (length (ht_store s), s\<lparr>ht_store := ht_store s @ [t]\<rparr>))))"

partial_function (option) ht_count_loop :: "nat option \<Rightarrow> size_t \<Rightarrow> hashtable_t \<Rightarrow> size_t prog" where
  "ht_count_loop p n s = (case p of None \<Rightarrow> ret n
     | Some q \<Rightarrow> pbind (hti_at s q) (\<lambda>t. ht_count_loop (hti_next t) (n + hti_count t) s))"

definition ht_count :: "hashtable_t \<Rightarrow> size_t prog" where
  "ht_count s = ht_count_loop (Some (ht_hti s)) 0 s"

definition new_scale :: "hti \<Rightarrow> size_t \<Rightarrow> nat" where
  "new_scale t n = hti_scale t + of_bool (n > push_bit (hti_scale t - 1) 1 \<or>
     hti_key_count t > push_bit (hti_scale t - 2) 1 + push_bit (hti_scale t - 3) 1)"

definition hti_start_copy :: "nat \<Rightarrow> hashtable_t \<Rightarrow> hashtable_t prog" where
  "hti_start_copy p s =
     pbind (ht_count s) (\<lambda>n.
     pbind (hti_at s p) (\<lambda>t.
     pbind (hti_alloc (new_scale t n) s) (\<lambda>(next, s).
     case SYNC_CAS (hti_next t) None (Some next) of (old_next, link) \<Rightarrow>
       if old_next \<noteq> None then ret (ht_defer (Freed_Table next) s)
       else ret ((upd_hti p (\<lambda>t. t\<lparr>hti_next := link\<rparr>) s)
         \<lparr>ht_hti_copies := snd (SYNC_ADD (ht_hti_copies s) 1),
          ht_density := (unat (hti_key_count t) * 100, 2 ^ hti_scale t), ht_probe := hti_probe t\<rparr>))))"

section \<open>Copying an entry\<close>

partial_function (option) hti_copy_entry :: "nat \<Rightarrow> nat \<Rightarrow> uint32_t \<Rightarrow> nat option \<Rightarrow> hashtable_t \<Rightarrow> (bool \<times> hashtable_t) prog" where
  "hti_copy_entry ht1 i key_hash ht2 s =
     pbind (hti_at s ht1) (\<lambda>t1.
     pbind (passert (hti_next t1 \<noteq> None)) (\<lambda>_.
     pbind (passert (ht2 \<noteq> None)) (\<lambda>_.
     pbind (passert (i < 2 ^ hti_scale t1)) (\<lambda>_.
     pbind (ent_at t1 i) (\<lambda>ent.
     pbind (passert (key_hash = 0 \<or> ht_key_type s = None \<or> ucast (drop_bit 16 key_hash) = drop_bit 48 (ent_key ent))) (\<lambda>_.
     if ent_val ent = COPIED_VALUE \<or> ent_val ent = TAG_VALUE TOMBSTONE TAG1 then ret (False, s)
     else if ent_val ent = DOES_NOT_EXIST \<and> fst (SYNC_CAS (ent_val ent) DOES_NOT_EXIST COPIED_VALUE) = DOES_NOT_EXIST
       then ret (True, upd_hti ht1 (put_val i (snd (SYNC_CAS (ent_val ent) DOES_NOT_EXIST COPIED_VALUE))) s)
     else case SYNC_FETCH_AND_OR (ent_val ent) (TAG_VALUE 0 TAG1) of (val1, tagged) \<Rightarrow>
     (let s = upd_hti ht1 (put_val i tagged) s
      in if val1 = COPIED_VALUE \<or> val1 = TAG_VALUE TOMBSTONE TAG1 then ret (False, s)
         else if val1 = TOMBSTONE then ret (True, s)
         else
           let key = (case ht_key_type s of None \<Rightarrow> ent_key ent | Some _ \<Rightarrow> GET_PTR (ent_key ent));
               key_hash = (if key_hash = 0 then key_hash_of (ht_key_type s) key else key_hash)
           in pbind (hti_ptr ht2) (\<lambda>p2.
              pbind (hti_at s p2) (\<lambda>t2.
              pbind (hti_lookup (ht_key_type s) t2 key key_hash) (\<lambda>r. case r of
                None \<Rightarrow>
                  pbind (if hti_next t2 = None then hti_start_copy p2 s else ret s) (\<lambda>s.
                  pbind (hti_at s p2) (\<lambda>t2. hti_copy_entry ht1 i key_hash (hti_next t2) s))
              | Some (i2, emp) \<Rightarrow>
                  pbind (ent_at t2 i2) (\<lambda>ent2.
                  case SYNC_CAS (ent_key ent2) DOES_NOT_EXIST (ent_key ent) of (old_key, new_key) \<Rightarrow>
                  if emp \<and> old_key \<noteq> DOES_NOT_EXIST then hti_copy_entry ht1 i key_hash ht2 s
                  else
                    let s = (if emp then upd_hti p2 (\<lambda>t. add_key_count 1 (put_key i2 new_key t)) s else s)
                    in case SYNC_CAS (ent_val ent2) DOES_NOT_EXIST (STRIP_TAG val1 TAG1) of (old_val, new_val) \<Rightarrow>
                    (let s = upd_hti p2 (put_val i2 new_val) s
                     in if old_val = COPIED_VALUE then
                          pbind (hti_at s p2) (\<lambda>t2. hti_copy_entry ht1 i key_hash (hti_next t2) s)
                        else
                          let s = upd_hti ht1 (put_val i COPIED_VALUE) s
                          in if old_val = DOES_NOT_EXIST
                             then ret (True, upd_hti p2 (add_count 1) (upd_hti ht1 (add_count (- 1)) s))
                             else ret (False, s)))))))))))))"

section \<open>Operations on one table\<close>

partial_function (option) hti_cas :: "nat \<Rightarrow> map_key_t \<Rightarrow> uint32_t \<Rightarrow> map_val_t \<Rightarrow> map_val_t \<Rightarrow> hashtable_t \<Rightarrow>
    (map_val_t \<times> hashtable_t) prog" where
  "hti_cas p key key_hash expected new s =
     pbind (passert (IS_TAGGED new TAG1 = 0)) (\<lambda>_.
     pbind (passert (key \<noteq> 0)) (\<lambda>_.
     pbind (hti_at s p) (\<lambda>t.
     pbind (hti_lookup (ht_key_type s) t key key_hash) (\<lambda>r. case r of
       None \<Rightarrow> pbind (if hti_next t = None then hti_start_copy p s else ret s) (\<lambda>s. ret (COPIED_VALUE, s))
     | Some (i, emp) \<Rightarrow>
         if emp \<and> expected \<noteq> CAS_EXPECT_WHATEVER \<and> expected \<noteq> CAS_EXPECT_DOES_NOT_EXIST then ret (DOES_NOT_EXIST, s)
         else if emp \<and> new = DOES_NOT_EXIST then ret (DOES_NOT_EXIST, s)
         else
           pbind (ent_at t i) (\<lambda>ent.
           let new_key = (case ht_key_type s of None \<Rightarrow> key
                          | Some dt \<Rightarrow> push_bit 48 (ucast (drop_bit 16 key_hash)) OR dt_clone dt key)
           in case SYNC_CAS (ent_key ent) DOES_NOT_EXIST new_key of (old_key, ekey) \<Rightarrow>
           if emp \<and> old_key \<noteq> DOES_NOT_EXIST then
             hti_cas p key key_hash expected new
               (if ht_key_type s \<noteq> None then ht_defer (Freed_Key (GET_PTR new_key)) s else s)
           else
             let s = (if emp then upd_hti p (\<lambda>t. add_key_count 1 (put_key i ekey t)) s else s);
                 ev = ent_val ent
             in if IS_TAGGED ev TAG1 \<noteq> 0 then
                  if ev \<noteq> COPIED_VALUE \<and> ev \<noteq> TAG_VALUE TOMBSTONE TAG1 then
                    pbind (hti_copy_entry p i key_hash (hti_next t) s) (\<lambda>(did_copy, s).
                    ret (COPIED_VALUE, if did_copy then upd_hti p (add_copied 1) s else s))
                  else ret (COPIED_VALUE, s)
                else
                  let old_existed = (ev \<noteq> TOMBSTONE \<and> ev \<noteq> DOES_NOT_EXIST)
                  in if expected \<noteq> CAS_EXPECT_WHATEVER \<and> expected \<noteq> ev \<and>
                        expected \<noteq> (if old_existed then CAS_EXPECT_EXISTS else CAS_EXPECT_DOES_NOT_EXIST)
                     then ret (ev, s)
                     else if new = DOES_NOT_EXIST \<and> \<not> old_existed \<or> ev = new then ret (ev, s)
                     else case SYNC_CAS ev ev (if new = DOES_NOT_EXIST then TOMBSTONE else new) of (v, val) \<Rightarrow>
                       (let s = upd_hti p (put_val i val) s
                        in if v \<noteq> ev then hti_cas p key key_hash expected new s
                           else if old_existed \<and> new = DOES_NOT_EXIST then ret (ev, upd_hti p (add_count (- 1)) s)
                           else if \<not> old_existed \<and> new \<noteq> DOES_NOT_EXIST then ret (ev, upd_hti p (add_count 1) s)
                           else ret (ev, s)))))))"

partial_function (option) hti_get :: "nat \<Rightarrow> map_key_t \<Rightarrow> uint32_t \<Rightarrow> hashtable_t \<Rightarrow> (map_val_t \<times> hashtable_t) prog" where
  "hti_get p key key_hash s =
     pbind (hti_at s p) (\<lambda>t.
     pbind (hti_lookup (ht_key_type s) t key key_hash) (\<lambda>r. case r of
       None \<Rightarrow> (case hti_next t of Some q \<Rightarrow> hti_get q key key_hash s | None \<Rightarrow> ret (DOES_NOT_EXIST, s))
     | Some (i, emp) \<Rightarrow>
         if emp then ret (DOES_NOT_EXIST, s)
         else
           pbind (ent_at t i) (\<lambda>ent.
           if IS_TAGGED (ent_val ent) TAG1 \<noteq> 0 then
             pbind (if ent_val ent \<noteq> COPIED_VALUE \<and> ent_val ent \<noteq> TAG_VALUE TOMBSTONE TAG1 then
                      pbind (hti_copy_entry p i key_hash (hti_next t) s) (\<lambda>(did_copy, s).
                      ret (if did_copy then upd_hti p (add_copied 1) s else s))
                    else ret s) (\<lambda>s.
             pbind (hti_at s p) (\<lambda>t.
             pbind (hti_ptr (hti_next t)) (\<lambda>q. hti_get q key key_hash s)))
           else ret (if ent_val ent = TOMBSTONE then DOES_NOT_EXIST else ent_val ent, s))))"

definition ht_get :: "hashtable_t \<Rightarrow> map_key_t \<Rightarrow> (map_val_t \<times> hashtable_t) prog" where
  "ht_get s key = hti_get (ht_hti s) key (key_hash_of (ht_key_type s) key) s"

text \<open>The loop over the entries of a chunk; \<open>n\<close> entries are left.\<close>

primrec hti_copy_chunk :: "nat \<Rightarrow> nat \<Rightarrow> nat \<Rightarrow> size_t \<Rightarrow> hashtable_t \<Rightarrow> (size_t \<times> hashtable_t) prog" where
  "hti_copy_chunk p 0 i num_copied s = ret (num_copied, s)"
| "hti_copy_chunk p (Suc n) i num_copied s =
     pbind (hti_at s p) (\<lambda>t.
     pbind (hti_copy_entry p i 0 (hti_next t) s) (\<lambda>(copied, s).
     pbind (passert (i + 1 \<le> 2 ^ hti_scale t)) (\<lambda>_.
     hti_copy_chunk p n (i + 1) (num_copied + of_bool copied) s)))"

definition hti_help_copy :: "nat \<Rightarrow> hashtable_t \<Rightarrow> (bool \<times> hashtable_t) prog" where
  "hti_help_copy p s =
     pbind (hti_at s p) (\<lambda>t.
     let total_copied = hti_num_entries_copied t;
         x = hti_copy_scan t;
         sz = push_bit (hti_scale t) (1 :: size_t)
     in if total_copied \<noteq> sz then
          let panic = (x \<ge> push_bit (hti_scale t + 1) 1);
              s = (if panic then s else upd_hti p (\<lambda>t. t\<lparr>hti_copy_scan := x + of_nat ENTRIES_PER_COPY_CHUNK\<rparr>) s);
              start = (if panic then 0 else unat (x AND MASK (hti_scale t)));
              limit = (if panic then unat sz else ENTRIES_PER_COPY_CHUNK)
          in pbind (hti_copy_chunk p limit start 0 s) (\<lambda>(num_copied, s).
             if num_copied \<noteq> 0 then
               pbind (hti_at s p) (\<lambda>t.
               ret (fst (SYNC_ADD (hti_num_entries_copied t) num_copied) = sz, upd_hti p (add_copied num_copied) s))
             else ret (total_copied = sz, s))
        else ret (True, s))"

section \<open>Releasing tables\<close>

primrec hti_free_keys :: "datatype_t option \<Rightarrow> entry list \<Rightarrow> hashtable_t \<Rightarrow> hashtable_t prog" where
  "hti_free_keys kt [] s = ret s"
| "hti_free_keys kt (ent # es) s =
     (if ent_val ent = COPIED_VALUE then hti_free_keys kt es s
      else pbind (passert (IS_TAGGED (ent_val ent) TAG1 = 0 \<or> ent_val ent = TAG_VALUE TOMBSTONE TAG1)) (\<lambda>_.
        hti_free_keys kt es
          (if kt \<noteq> None \<and> ent_key ent \<noteq> DOES_NOT_EXIST then ht_defer (Freed_Key (GET_PTR (ent_key ent))) s else s)))"

definition hti_defer_free :: "nat \<Rightarrow> hashtable_t \<Rightarrow> hashtable_t prog" where
  "hti_defer_free p s =
     pbind (hti_at s p) (\<lambda>t.
     pbind (passert (hti_ref_count t = 0)) (\<lambda>_.
     pbind (hti_free_keys (ht_key_type s) (hti_table t) s) (\<lambda>s.
     ret (ht_defer (Freed_Hti p) (ht_defer (Freed_Table p) s)))))"

definition hti_release :: "nat \<Rightarrow> hashtable_t \<Rightarrow> hashtable_t prog" where
  "hti_release p s =
     pbind (hti_at s p) (\<lambda>t.
     pbind (passert (hti_ref_count t > 0)) (\<lambda>_.
     let s = upd_hti p (\<lambda>t. t\<lparr>hti_ref_count := hti_ref_count t - 1\<rparr>) s
     in if hti_ref_count t - 1 = 0 then hti_defer_free p s else ret s))"

section \<open>The operations of a hash table\<close>

partial_function (option) ht_cas_loop :: "nat \<Rightarrow> map_key_t \<Rightarrow> uint32_t \<Rightarrow> map_val_t \<Rightarrow> map_val_t \<Rightarrow> hashtable_t \<Rightarrow>
    (map_val_t \<times> hashtable_t) prog" where
  "ht_cas_loop p key key_hash expected_val new_val s =
     pbind (hti_cas p key key_hash expected_val new_val s) (\<lambda>(old_val, s).
     if old_val = COPIED_VALUE then
       pbind (hti_at s p) (\<lambda>t.
       pbind (passert (hti_next t \<noteq> None)) (\<lambda>_.
       pbind (hti_ptr (hti_next t)) (\<lambda>q. ht_cas_loop q key key_hash expected_val new_val s)))
     else ret (if old_val = TOMBSTONE then DOES_NOT_EXIST else old_val, s))"

definition ht_cas :: "hashtable_t \<Rightarrow> map_key_t \<Rightarrow> map_val_t \<Rightarrow> map_val_t \<Rightarrow> (map_val_t \<times> hashtable_t) prog" where
  "ht_cas s key expected_val new_val =
     pbind (passert (key \<noteq> DOES_NOT_EXIST)) (\<lambda>_.
     pbind (passert (IS_TAGGED new_val TAG1 = 0 \<and> new_val \<noteq> DOES_NOT_EXIST \<and> new_val \<noteq> TOMBSTONE)) (\<lambda>_.
     let p = ht_hti s
     in pbind (hti_at s p) (\<lambda>t.
        pbind (if hti_next t \<noteq> None then
                 pbind (hti_help_copy p s) (\<lambda>(finished, s).
                 if finished then
                   pbind (hti_at s p) (\<lambda>t.
                   pbind (passert (hti_next t \<noteq> None)) (\<lambda>_.
                   pbind (hti_ptr (hti_next t)) (\<lambda>q.
                   case SYNC_CAS (ht_hti s) p q of (old, cur) \<Rightarrow>
                     (let s = s\<lparr>ht_hti := cur\<rparr> in if old = p then hti_release p s else ret s))))
                 else ret s)
               else ret s) (\<lambda>s.
        ht_cas_loop p key (key_hash_of (ht_key_type s) key) expected_val new_val s))))"

definition ht_remove :: "hashtable_t \<Rightarrow> map_key_t \<Rightarrow> (map_val_t \<times> hashtable_t) prog" where
  "ht_remove s key =
     ht_cas_loop (ht_hti s) key (key_hash_of (ht_key_type s) key) CAS_EXPECT_WHATEVER DOES_NOT_EXIST s"

definition ht_alloc :: "datatype_t option \<Rightarrow> int \<Rightarrow> hashtable_t prog" where
  "ht_alloc key_type junk =
     pbind (hti_alloc MIN_SCALE \<lparr>ht_store = [], ht_hti = 0, ht_key_type = key_type, ht_hti_copies = 0,
       ht_density = (0, 1), ht_probe = junk, ht_deferred = []\<rparr>) (\<lambda>(p, s). ret (s\<lparr>ht_hti := p\<rparr>))"

partial_function (option) ht_free_loop :: "nat \<Rightarrow> hashtable_t \<Rightarrow> hashtable_t prog" where
  "ht_free_loop p s =
     pbind (hti_at s p) (\<lambda>t.
     pbind (passert (hti_ref_count t = 1)) (\<lambda>_.
     pbind (hti_release p s) (\<lambda>s. case hti_next t of None \<Rightarrow> ret s | Some q \<Rightarrow> ht_free_loop q s)))"

definition ht_free :: "hashtable_t \<Rightarrow> hashtable_t prog" where
  "ht_free s = pbind (ht_free_loop (ht_hti s) s) (\<lambda>s. ret (ht_defer Freed_Ht s))"

section \<open>Iterators\<close>

partial_function (option) ht_finish_copy :: "nat \<Rightarrow> hashtable_t \<Rightarrow> hashtable_t prog" where
  "ht_finish_copy p s = pbind (hti_help_copy p s) (\<lambda>(finished, s). if finished then ret s else ht_finish_copy p s)"

partial_function (option) ht_last_table :: "nat \<Rightarrow> hashtable_t \<Rightarrow> (nat \<times> hashtable_t) prog" where
  "ht_last_table p s =
     pbind (hti_at s p) (\<lambda>t.
     if hti_next t \<noteq> None then
       pbind (ht_finish_copy p s) (\<lambda>s.
       pbind (hti_at s p) (\<lambda>t.
       pbind (hti_ptr (hti_next t)) (\<lambda>q. ht_last_table q s)))
     else ret (p, s))"

partial_function (option) ht_iter_begin :: "hashtable_t \<Rightarrow> map_key_t \<Rightarrow> (ht_iter \<times> hashtable_t) prog" where
  "ht_iter_begin s key =
     pbind (ht_last_table (ht_hti s) s) (\<lambda>(p, s).
     pbind (hti_at s p) (\<lambda>t.
     if hti_ref_count t = 0 then ht_iter_begin s key
     else ret (\<lparr>it_hti = p, it_idx = - 1\<rparr>, upd_hti p (\<lambda>t. t\<lparr>hti_ref_count := hti_ref_count t + 1\<rparr>) s)))"

text \<open>The loop that advances to the next entry in use, \<^const>\<open>None\<close> being the end of the table.\<close>

partial_function (option) ht_iter_scan :: "ht_iter \<Rightarrow> hashtable_t \<Rightarrow> ((map_key_t \<times> entry) option \<times> ht_iter) prog" where
  "ht_iter_scan it s =
     pbind (hti_at s (it_hti it)) (\<lambda>t.
     let it = it\<lparr>it_idx := it_idx it + 1\<rparr>
     in if it_idx it = 2 ^ hti_scale t then ret (None, it)
        else pbind (ent_at t (nat (it_idx it))) (\<lambda>ent.
          let key = (case ht_key_type s of None \<Rightarrow> ent_key ent | Some _ \<Rightarrow> GET_PTR (ent_key ent))
          in if key = DOES_NOT_EXIST \<or> ent_val ent = DOES_NOT_EXIST \<or> ent_val ent = TOMBSTONE then ht_iter_scan it s
             else ret (Some (key, ent), it)))"

partial_function (option) ht_iter_next :: "ht_iter \<Rightarrow> hashtable_t \<Rightarrow>
    (map_val_t \<times> map_key_t option \<times> ht_iter \<times> hashtable_t) prog" where
  "ht_iter_next it s =
     pbind (ht_iter_scan it s) (\<lambda>(r, it). case r of
       None \<Rightarrow> ret (DOES_NOT_EXIST, None, it, s)
     | Some (key, ent) \<Rightarrow>
         if ent_val ent = COPIED_VALUE then
           pbind (hti_at s (it_hti it)) (\<lambda>t.
           pbind (hti_ptr (hti_next t)) (\<lambda>q.
           pbind (hti_get q (ent_key ent) (key_hash_of (ht_key_type s) key) s) (\<lambda>(val, s).
           if val = DOES_NOT_EXIST then ht_iter_next it s else ret (val, Some key, it, s))))
         else ret (ent_val ent, Some key, it, s))"

definition ht_iter_free :: "ht_iter \<Rightarrow> hashtable_t \<Rightarrow> hashtable_t prog" where
  "ht_iter_free it s = hti_release (it_hti it) s"

lemmas ht_code [code] =
  ht_count_loop.simps hti_copy_entry.simps hti_cas.simps hti_get.simps ht_cas_loop.simps ht_free_loop.simps
  ht_finish_copy.simps ht_last_table.simps ht_iter_begin.simps ht_iter_scan.simps ht_iter_next.simps

end
