(* ===== verification/Hashtable_Table.thy ===== *)
theory Hashtable_Table
  imports Hashtable
begin

text \<open>
  The single tables of \<^verbatim>\<open>src/src/map/hashtable.c\<close>: what the values in the entries mean, the
  sequence of entries that a search visits, the invariant of one table, and how it fares when
  a key is installed or a value changes. Keys are integers (\<^verbatim>\<open>key_type\<close> is NULL).
\<close>

section \<open>Values\<close>

definition tagged :: "map_val_t \<Rightarrow> bool" where
  "tagged v \<longleftrightarrow> IS_TAGGED v TAG1 \<noteq> 0"

definition plain :: "map_val_t \<Rightarrow> map_val_t" where
  "plain v = STRIP_TAG v TAG1"

text \<open>An entry whose copy is finished, and an entry that holds a binding.\<close>

definition sealed :: "map_val_t \<Rightarrow> bool" where
  "sealed v \<longleftrightarrow> v = COPIED_VALUE \<or> v = TAG_VALUE TOMBSTONE TAG1"

definition live :: "map_val_t \<Rightarrow> bool" where
  "live v \<longleftrightarrow> plain v \<noteq> DOES_NOT_EXIST \<and> plain v \<noteq> TOMBSTONE"

text \<open>The values an entry without a binding has before its key is ever bound in its table.\<close>

abbreviation virgin :: "map_val_t \<Rightarrow> bool" where
  "virgin v \<equiv> v = 0 \<or> v = COPIED_VALUE"

lemma bit_TAG1: "bit TAG1 n \<longleftrightarrow> n = 63"
  unfolding TAG1_def bit_push_bit_iff by auto

lemma IS_TAGGED_TAG1: "IS_TAGGED v TAG1 = (if bit v 63 then TAG1 else 0)"
  by (rule bit_word_eqI) (auto simp: IS_TAGGED_def bit_TAG1 bit_simps)

lemma tagged_bit: "tagged v \<longleftrightarrow> bit v 63"
  using bit_TAG1 [of 63] by (auto simp: tagged_def IS_TAGGED_TAG1)

lemma tagged_restore: "tagged v \<Longrightarrow> TAG_VALUE (plain v) TAG1 = v"
  by (rule bit_word_eqI) (auto simp: tagged_bit plain_def TAG_VALUE_def STRIP_TAG_def bit_TAG1 bit_simps)

lemma plain_untagged: "\<not> tagged v \<Longrightarrow> plain v = v"
  by (simp add: tagged_def plain_def STRIP_TAG_untagged)

lemma tagged_TAG_VALUE [simp]: "tagged (TAG_VALUE v TAG1)"
  by (simp add: tagged_bit TAG_VALUE_def bit_TAG1 bit_simps)

lemma plain_TAG_VALUE [simp]: "plain (TAG_VALUE v TAG1) = plain v"
  by (rule bit_word_eqI) (auto simp: plain_def TAG_VALUE_def STRIP_TAG_def bit_TAG1 bit_simps)

lemma live_TAG_VALUE [simp]: "live (TAG_VALUE v TAG1) = live v"
  by (simp add: live_def)

lemma TAG_VALUE_tagged: "tagged v \<Longrightarrow> TAG_VALUE v TAG1 = v"
  by (metis tagged_restore TAG_VALUE_idem)

lemma value_constants [simp]:
  "tagged COPIED_VALUE" "\<not> live COPIED_VALUE" "sealed COPIED_VALUE" "\<not> tagged 0" "\<not> live 0" "\<not> sealed 0"
  "\<not> tagged TOMBSTONE" "\<not> live TOMBSTONE" "\<not> sealed TOMBSTONE" "COPIED_VALUE \<noteq> 0" "COPIED_VALUE \<noteq> TOMBSTONE"
  "TOMBSTONE \<noteq> COPIED_VALUE" "TOMBSTONE \<noteq> 0"
  by (simp_all add: tagged_bit live_def plain_def sealed_def COPIED_VALUE_def TOMBSTONE_def TAG_VALUE_def
      STRIP_TAG_def TAG1_val DOES_NOT_EXIST_def bit_simps)

lemma TAG_VALUE_nonzero [simp]: "TAG_VALUE v TAG1 \<noteq> 0" "0 \<noteq> TAG_VALUE v TAG1"
  using tagged_TAG_VALUE [of v] value_constants(4) by (metis (no_types))+

lemma sealed_tagged: "sealed v \<Longrightarrow> tagged v"
  by (auto simp: sealed_def)

lemma sealed_not_live: "sealed v \<Longrightarrow> \<not> live v"
  by (auto simp: sealed_def)

lemma tagged_live_or_sealed: "tagged v \<Longrightarrow> \<not> live v \<Longrightarrow> sealed v"
  using tagged_restore [of v] by (auto simp: live_def sealed_def COPIED_VALUE_def)

lemma live_untagged: "\<not> tagged v \<Longrightarrow> live v \<longleftrightarrow> v \<noteq> 0 \<and> v \<noteq> TOMBSTONE"
  by (simp add: live_def plain_untagged DOES_NOT_EXIST_def)

lemma live_nonzero: "live v \<Longrightarrow> v \<noteq> 0 \<and> v \<noteq> COPIED_VALUE"
  by auto

lemma plain_nonzero: "live v \<Longrightarrow> plain v \<noteq> 0"
  by (simp add: live_def DOES_NOT_EXIST_def)

lemma plain_not_tagged [simp]: "\<not> tagged (plain v)"
  by (simp add: tagged_def plain_def)

lemma live_plain [simp]: "live (plain v) = live v"
  by (simp add: live_def plain_untagged)

section \<open>The search\<close>

abbreviation tkey :: "hti \<Rightarrow> nat \<Rightarrow> map_key_t" where "tkey t i \<equiv> ent_key (hti_table t ! i)"
abbreviation tval :: "hti \<Rightarrow> nat \<Rightarrow> map_val_t" where "tval t i \<equiv> ent_val (hti_table t ! i)"
abbreviation tsize :: "hti \<Rightarrow> nat" where "tsize t \<equiv> length (hti_table t)"

definition wf_table :: "hti \<Rightarrow> bool" where
  "wf_table t \<longleftrightarrow> 4 \<le> hti_scale t \<and> hti_scale t \<le> 30 \<and> tsize t = 2 ^ hti_scale t \<and> 0 < hti_probe t"

definition bucket :: "nat \<Rightarrow> nat list" where
  "bucket ndx = map (\<lambda>j. ndx div 4 * 4 + (ndx + j) mod 4) [0..<4]"

definition next_ndx :: "nat \<Rightarrow> uint32_t \<Rightarrow> nat \<Rightarrow> nat" where
  "next_ndx ndx h scale = (let incr = unat (drop_bit (32 - scale) h)
     in (ndx + (if incr < 4 then incr + 4 else incr)) mod 2 ^ scale)"

text \<open>The indices a search visits, in order.\<close>

primrec visits :: "nat \<Rightarrow> uint32_t \<Rightarrow> nat \<Rightarrow> nat \<Rightarrow> nat list" where
  "visits scale h 0 ndx = []"
| "visits scale h (Suc n) ndx = bucket ndx @ visits scale h n (next_ndx ndx h scale)"

definition key_visits :: "hti \<Rightarrow> map_key_t \<Rightarrow> nat list" where
  "key_visits t k = visits (hti_scale t) (murmur32_8b k) (nat (hti_probe t)) (unat (murmur32_8b k) mod 2 ^ hti_scale t)"

text \<open>The entry in which a key is, or would be put.\<close>

definition slot :: "hti \<Rightarrow> map_key_t \<Rightarrow> nat option" where
  "slot t k = find (\<lambda>i. tkey t i = 0 \<or> tkey t i = k) (key_visits t k)"

lemma find_append: "find P (xs @ ys) = (case find P xs of None \<Rightarrow> find P ys | Some x \<Rightarrow> Some x)"
  by (induction xs) auto

lemma ENTRIES_PER_BUCKET_val [simp]: "ENTRIES_PER_BUCKET = 4"
  by (simp add: ENTRIES_PER_BUCKET_def CACHE_LINE_SIZE_def)

lemma COPY_CHUNK_val [simp]: "ENTRIES_PER_COPY_CHUNK = 8"
  by (simp add: ENTRIES_PER_COPY_CHUNK_def CACHE_LINE_SIZE_def)

lemma bucket_bound:
  assumes "ndx < 2 ^ scale" and "2 \<le> scale" and "i \<in> set (bucket ndx)"
  shows "i < 2 ^ scale"
proof -
  have "(4 :: nat) dvd 2 ^ scale" using assms(2) le_imp_power_dvd [of 2 scale "2 :: nat"] by simp
  then obtain m where m: "(2 :: nat) ^ scale = 4 * m" by (auto simp: dvd_def)
  obtain j where "i = ndx div 4 * 4 + (ndx + j) mod 4" using assms(3) by (auto simp: bucket_def)
  moreover have "(ndx + j) mod 4 < 4" by simp
  moreover have "ndx div 4 < m" using assms(1) m by (simp add: less_mult_imp_div_less mult.commute)
  ultimately show ?thesis using m by linarith
qed

lemma get_next_ndx_eq:
  assumes "ndx < 2 ^ scale" and "4 \<le> scale" and "scale \<le> 30"
  shows "get_next_ndx ndx h scale = ret (next_ndx ndx h scale)" and "next_ndx ndx h scale < 2 ^ scale"
proof -
  let ?i = "unat (drop_bit (32 - scale) h)"
  define incr where "incr = (if ?i < 4 then ?i + 4 else ?i)"
  have "unat h < 2 ^ 32" using unat_bound [of h] by simp
  moreover have "(2 :: nat) ^ 32 = 2 ^ (32 - scale) * 2 ^ scale" using assms(3) by (simp flip: power_add)
  ultimately have "unat h div 2 ^ (32 - scale) < 2 ^ scale"
    by (simp only: less_mult_imp_div_less mult.commute)
  then have i: "?i < 2 ^ scale" by (simp only: unat_drop_bit_eq) (simp only: drop_bit_eq_div)
  have p4: "(16 :: nat) \<le> 2 ^ scale" using power_increasing [OF assms(2), of "2 :: nat"] by simp
  have p30: "(2 :: nat) ^ scale \<le> 2 ^ 30" using power_increasing [OF assms(3), of "2 :: nat"] by simp
  have incr: "incr < 2 ^ scale" using i p4 by (auto simp: incr_def)
  have sum: "ndx + incr < 2 ^ 31" using assms(1) incr p30 by simp
  have "unat ((of_nat (ndx + incr) :: uint64_t) AND MASK scale) = (ndx + incr) mod 2 ^ scale"
  proof -
    have "unat (of_nat (ndx + incr) :: uint64_t) = ndx + incr"
      by (rule unat_of_nat_small) (use sum in simp)
    then show ?thesis by (simp add: unat_and_MASK)
  qed
  then show "get_next_ndx ndx h scale = ret (next_ndx ndx h scale)"
    unfolding get_next_ndx_def next_ndx_def Let_def ENTRIES_PER_BUCKET_val incr_def [symmetric]
    using assms sum by simp
  show "next_ndx ndx h scale < 2 ^ scale" by (simp add: next_ndx_def Let_def)
qed

lemma lookup_bucket_eq:
  assumes "\<forall>i \<in> set (bucket ndx). i < tsize t" and "k \<noteq> 0"
  shows "hti_lookup_bucket None t k h ndx 0 =
    ret (map_option (\<lambda>i. (i, tkey t i = 0)) (find (\<lambda>i. tkey t i = 0 \<or> tkey t i = k) (bucket ndx)))"
proof -
  have "hti_lookup_bucket None t k h ndx j =
    ret (map_option (\<lambda>i. (i, tkey t i = 0))
      (find (\<lambda>i. tkey t i = 0 \<or> tkey t i = k) (map (\<lambda>j. ndx div 4 * 4 + (ndx + j) mod 4) [j..<4])))" if "j \<le> 4" for j
    using that
  proof (induction "4 - j" arbitrary: j)
    case 0
    then show ?case by (simp add: hti_lookup_bucket.simps)
  next
    case (Suc n)
    then have j: "j < 4" and IH: "hti_lookup_bucket None t k h ndx (Suc j) =
      ret (map_option (\<lambda>i. (i, tkey t i = 0))
      (find (\<lambda>i. tkey t i = 0 \<or> tkey t i = k) (map (\<lambda>j. ndx div 4 * 4 + (ndx + j) mod 4) [Suc j..<4])))"
      by simp_all
    have "ndx div 4 * 4 + (ndx + j) mod 4 \<in> set (bucket ndx)" using j by (auto simp: bucket_def)
    then have i: "ndx div 4 * 4 + (ndx + j) mod 4 < tsize t" using assms(1) by blast
    show ?case
      using j i assms(2) IH
      by (subst hti_lookup_bucket.simps)
        (auto simp: ent_at_def key_matches_def Let_def upt_conv_Cons DOES_NOT_EXIST_def)
  qed
  from this [of 0] show ?thesis by (simp add: bucket_def)
qed

lemma lookup_probes_eq:
  assumes "wf_table t" and "k \<noteq> 0" and "ndx < 2 ^ hti_scale t"
  shows "hti_lookup_probes None t k h n ndx =
    ret (map_option (\<lambda>i. (i, tkey t i = 0)) (find (\<lambda>i. tkey t i = 0 \<or> tkey t i = k) (visits (hti_scale t) h n ndx)))"
  using assms(3)
proof (induction n arbitrary: ndx)
  case 0
  then show ?case by simp
next
  case (Suc n)
  have sc: "4 \<le> hti_scale t" "hti_scale t \<le> 30" and sz: "tsize t = 2 ^ hti_scale t"
    using assms(1) by (auto simp: wf_table_def)
  have b: "\<forall>i \<in> set (bucket ndx). i < tsize t"
    using bucket_bound [OF Suc.prems] sc sz by simp
  show ?case
    using lookup_bucket_eq [OF b assms(2), of h] get_next_ndx_eq [OF Suc.prems sc] Suc.IH
    by (simp add: find_append split: option.split)
qed

lemma visits_bound:
  assumes "ndx < 2 ^ scale" and "4 \<le> scale" and "scale \<le> 30" and "i \<in> set (visits scale h n ndx)"
  shows "i < 2 ^ scale"
  using assms(1,4)
proof (induction n arbitrary: ndx)
  case (Suc n)
  then show ?case
    using bucket_bound [of ndx scale i] get_next_ndx_eq(2) [OF _ assms(2,3), of ndx h] assms(2) by auto
qed simp

lemma unat_ucast_hash: "unat ((ucast (h :: uint32_t) :: uint64_t) AND MASK n) = unat h mod 2 ^ n"
proof -
  have "unat (ucast h :: uint64_t) = unat h"
    using unat_bound [of h] by (simp add: unsigned_ucast_eq take_bit_nat_eq_self_iff take_bit_eq_mod)
  then show ?thesis by (simp add: unat_and_MASK)
qed

text \<open>What a search returns.\<close>

lemma hti_lookup_eq:
  assumes "wf_table t" and "k \<noteq> 0"
  shows "hti_lookup None t k (murmur32_8b k) = ret (map_option (\<lambda>i. (i, tkey t i = 0)) (slot t k))"
  using lookup_probes_eq [OF assms, of "unat (murmur32_8b k) mod 2 ^ hti_scale t"]
  by (simp add: hti_lookup_def slot_def key_visits_def unat_ucast_hash)

lemma slotD:
  assumes "wf_table t" and "slot t k = Some i"
  shows "i < tsize t" and "tkey t i = 0 \<or> tkey t i = k"
proof -
  have i: "i \<in> set (key_visits t k)" "tkey t i = 0 \<or> tkey t i = k"
    using assms(2) by (auto simp: slot_def find_Some_iff)
  then show "tkey t i = 0 \<or> tkey t i = k" by simp
  show "i < tsize t"
    using i(1) assms(1) visits_bound [of "unat (murmur32_8b k) mod 2 ^ hti_scale t" "hti_scale t" i]
    unfolding key_visits_def wf_table_def by simp
qed

lemma slot_exists:
  assumes "wf_table t" and "\<forall>i < tsize t. tkey t i = 0"
  shows "slot t k \<noteq> None"
proof -
  let ?n = "unat (murmur32_8b k) mod 2 ^ hti_scale t"
  obtain m where m: "nat (hti_probe t) = Suc m" using assms(1) by (cases "nat (hti_probe t)") (auto simp: wf_table_def)
  have "hd (bucket ?n) \<in> set (key_visits t k)"
    by (simp add: key_visits_def m bucket_def upt_rec)
  moreover have "\<forall>i \<in> set (key_visits t k). i < tsize t"
    using assms(1) visits_bound [of ?n "hti_scale t"] by (simp add: key_visits_def wf_table_def)
  ultimately show ?thesis using assms(2) by (auto simp: slot_def find_None_iff)
qed

section \<open>Changes to one table\<close>

lemma put_val_sel [simp]:
  "length (hti_table (put_val i v t)) = tsize t" "hti_scale (put_val i v t) = hti_scale t"
  "hti_probe (put_val i v t) = hti_probe t" "hti_next (put_val i v t) = hti_next t"
  "hti_count (put_val i v t) = hti_count t" "hti_key_count (put_val i v t) = hti_key_count t"
  "hti_copy_scan (put_val i v t) = hti_copy_scan t" "hti_ref_count (put_val i v t) = hti_ref_count t"
  "hti_num_entries_copied (put_val i v t) = hti_num_entries_copied t"
  by (simp_all add: put_val_def)

lemma put_val_nth_key [simp]:
  "ent_key (hti_table (put_val i v t) ! j) = tkey t j"
  by (cases "i < tsize t") (simp_all add: put_val_def nth_list_update not_less list_update_beyond)

lemma put_val_nth_val [simp]:
  "ent_val (hti_table (put_val i v t) ! j) = (if j = i \<and> i < tsize t then v else tval t j)"
  by (cases "i < tsize t") (simp_all add: put_val_def nth_list_update not_less list_update_beyond)

lemma put_key_sel [simp]:
  "length (hti_table (put_key i k t)) = tsize t" "hti_scale (put_key i k t) = hti_scale t"
  "hti_probe (put_key i k t) = hti_probe t" "hti_next (put_key i k t) = hti_next t"
  "hti_count (put_key i k t) = hti_count t" "hti_key_count (put_key i k t) = hti_key_count t"
  "hti_copy_scan (put_key i k t) = hti_copy_scan t" "hti_ref_count (put_key i k t) = hti_ref_count t"
  "hti_num_entries_copied (put_key i k t) = hti_num_entries_copied t"
  by (simp_all add: put_key_def)

lemma put_key_nth_key [simp]:
  "ent_key (hti_table (put_key i k t) ! j) = (if j = i \<and> i < tsize t then k else tkey t j)"
  by (cases "i < tsize t") (simp_all add: put_key_def nth_list_update not_less list_update_beyond)

lemma put_key_nth_val [simp]:
  "ent_val (hti_table (put_key i k t) ! j) = tval t j"
  by (cases "i < tsize t") (simp_all add: put_key_def nth_list_update not_less list_update_beyond)

lemma add_sel [simp]:
  "hti_table (add_count n t) = hti_table t" "hti_scale (add_count n t) = hti_scale t"
  "hti_probe (add_count n t) = hti_probe t" "hti_next (add_count n t) = hti_next t"
  "hti_count (add_count n t) = hti_count t + n" "hti_key_count (add_count n t) = hti_key_count t"
  "hti_copy_scan (add_count n t) = hti_copy_scan t" "hti_ref_count (add_count n t) = hti_ref_count t"
  "hti_num_entries_copied (add_count n t) = hti_num_entries_copied t"
  "hti_table (add_key_count n t) = hti_table t" "hti_scale (add_key_count n t) = hti_scale t"
  "hti_probe (add_key_count n t) = hti_probe t" "hti_next (add_key_count n t) = hti_next t"
  "hti_count (add_key_count n t) = hti_count t" "hti_key_count (add_key_count n t) = hti_key_count t + n"
  "hti_copy_scan (add_key_count n t) = hti_copy_scan t" "hti_ref_count (add_key_count n t) = hti_ref_count t"
  "hti_num_entries_copied (add_key_count n t) = hti_num_entries_copied t"
  "hti_table (add_copied n t) = hti_table t" "hti_scale (add_copied n t) = hti_scale t"
  "hti_probe (add_copied n t) = hti_probe t" "hti_next (add_copied n t) = hti_next t"
  "hti_count (add_copied n t) = hti_count t" "hti_key_count (add_copied n t) = hti_key_count t"
  "hti_copy_scan (add_copied n t) = hti_copy_scan t" "hti_ref_count (add_copied n t) = hti_ref_count t"
  "hti_num_entries_copied (add_copied n t) = hti_num_entries_copied t + n"
  by (simp_all add: add_count_def add_key_count_def add_copied_def SYNC_ADD_def)

lemma slot_cong:
  assumes "hti_scale t = hti_scale u" and "hti_probe t = hti_probe u" and "\<And>i. tkey t i = tkey u i"
  shows "slot t k = slot u k"
  by (simp add: slot_def key_visits_def assms)

lemma slot_put_val [simp]: "slot (put_val i v t) k = slot t k"
  by (rule slot_cong) simp_all

lemma find_narrow:
  assumes "find P xs = Some x" and "\<And>y. Q y \<Longrightarrow> P y" and "Q x"
  shows "find Q xs = Some x"
  using assms by (induction xs) (auto split: if_splits)

lemma slot_put_key_same:
  assumes "slot t k = Some i" and "tkey t i = 0"
  shows "slot (put_key i k t) k = Some i"
proof -
  have "(\<lambda>j. tkey (put_key i k t) j = 0 \<or> tkey (put_key i k t) j = k) = (\<lambda>j. tkey t j = 0 \<or> tkey t j = k)"
    using assms(2) by auto
  moreover have "key_visits (put_key i k t) k = key_visits t k" by (simp add: key_visits_def)
  ultimately show ?thesis using assms(1) by (simp only: slot_def)
qed

lemma slot_put_key_found:
  assumes "slot t k' = Some j" and "tkey t j = k'" and "k' \<noteq> 0" and "tkey t i = 0" and "k \<noteq> 0"
  shows "slot (put_key i k t) k' = Some j"
proof -
  have "find (\<lambda>x. tkey t x = 0 \<or> tkey t x = k') (key_visits t k') = Some j" using assms(1) by (simp add: slot_def)
  then have "find (\<lambda>x. tkey (put_key i k t) x = 0 \<or> tkey (put_key i k t) x = k') (key_visits t k') = Some j"
    by (rule find_narrow) (use assms in \<open>auto split: if_splits\<close>)
  then show ?thesis by (simp only: slot_def key_visits_def put_key_sel(2,3))
qed

lemma slot_put_key_None:
  assumes "slot t k' = None" and "tkey t i = 0" and "k \<noteq> 0"
  shows "slot (put_key i k t) k' = None"
  using assms by (auto simp: slot_def find_None_iff key_visits_def split: if_splits)

section \<open>The invariant of a table\<close>

definition tab_ok :: "hti \<Rightarrow> bool" where
  "tab_ok t \<longleftrightarrow> wf_table t
     \<and> (\<forall>i < tsize t. tkey t i \<noteq> 0 \<longrightarrow> slot t (tkey t i) = Some i)
     \<and> (\<forall>i < tsize t. tkey t i = 0 \<longrightarrow> virgin (tval t i))
     \<and> hti_count t = of_nat (tally (\<lambda>e. live (ent_val e)) (hti_table t))
     \<and> hti_key_count t = of_nat (tally (\<lambda>e. ent_key e \<noteq> 0) (hti_table t))"

lemma tab_okD:
  assumes "tab_ok t"
  shows "wf_table t" and "\<And>i. i < tsize t \<Longrightarrow> tkey t i \<noteq> 0 \<Longrightarrow> slot t (tkey t i) = Some i"
    and "\<And>i. i < tsize t \<Longrightarrow> tkey t i = 0 \<Longrightarrow> virgin (tval t i)"
  using assms by (auto simp: tab_ok_def)

lemma tab_ok_live: "tab_ok t \<Longrightarrow> i < tsize t \<Longrightarrow> live (tval t i) \<Longrightarrow> tkey t i \<noteq> 0"
  using tab_okD(3) live_nonzero by blast

lemma tab_ok_unique:
  "tab_ok t \<Longrightarrow> i < tsize t \<Longrightarrow> j < tsize t \<Longrightarrow> tkey t i = tkey t j \<Longrightarrow> tkey t i \<noteq> 0 \<Longrightarrow> i = j"
  using tab_okD(2) by (metis option.inject)

lemma word_of_nat_swap:
  assumes "n + b = m + c"
  shows "(of_nat n :: 'a::len word) = of_nat m + of_nat c - of_nat b"
proof -
  have "(of_nat (n + b) :: 'a word) = of_nat (m + c)" using assms by simp
  then show ?thesis by (simp add: algebra_simps)
qed

lemma tab_ok_put_val:
  assumes "tab_ok t" and "i < tsize t" and "tkey t i = 0 \<Longrightarrow> virgin v"
    and "d = of_bool (live v) - of_bool (live (tval t i))"
  shows "tab_ok (add_count d (put_val i v t))"
proof -
  have wf: "wf_table (add_count d (put_val i v t))" using assms(1) by (simp add: tab_ok_def wf_table_def)
  have tab: "hti_table (put_val i v t) = (hti_table t)[i := (hti_table t ! i)\<lparr>ent_val := v\<rparr>]" by (simp add: put_val_def)
  have 1: "tally (\<lambda>e. ent_key e \<noteq> 0) (hti_table (put_val i v t)) = tally (\<lambda>e. ent_key e \<noteq> 0) (hti_table t)"
    using tally_update [OF assms(2), of "\<lambda>e. ent_key e \<noteq> 0" "(hti_table t ! i)\<lparr>ent_val := v\<rparr>"] by (simp add: tab)
  have "tally (\<lambda>e. live (ent_val e)) (hti_table (put_val i v t)) + of_bool (live (tval t i)) =
      tally (\<lambda>e. live (ent_val e)) (hti_table t) + of_bool (live v)"
    using tally_update [OF assms(2), of "\<lambda>e. live (ent_val e)" "(hti_table t ! i)\<lparr>ent_val := v\<rparr>"] by (simp add: tab)
  from word_of_nat_swap [OF this, where ?'a = 64]
  have 2: "hti_count (add_count d (put_val i v t)) = of_nat (tally (\<lambda>e. live (ent_val e)) (hti_table (put_val i v t)))"
    using assms(1,4) by (simp add: tab_ok_def)
  have 3: "slot (add_count d (put_val i v t)) k = slot t k" for k
    using slot_cong [of "add_count d (put_val i v t)" "put_val i v t" k] by simp
  show ?thesis
    using wf 1 2 3 assms(1,3) by (simp add: tab_ok_def)
qed

lemma tab_ok_put_key:
  assumes "tab_ok t" and "slot t k = Some i" and "tkey t i = 0" and "k \<noteq> 0"
  shows "tab_ok (add_key_count 1 (put_key i k t))"
proof -
  have i: "i < tsize t" using slotD(1) [OF tab_okD(1) [OF assms(1)] assms(2)] .
  have wf: "wf_table (add_key_count 1 (put_key i k t))" using assms(1) by (simp add: tab_ok_def wf_table_def)
  have tab: "hti_table (put_key i k t) = (hti_table t)[i := (hti_table t ! i)\<lparr>ent_key := k\<rparr>]" by (simp add: put_key_def)
  have 1: "tally (\<lambda>e. live (ent_val e)) (hti_table (put_key i k t)) = tally (\<lambda>e. live (ent_val e)) (hti_table t)"
    using tally_update [OF i, of "\<lambda>e. live (ent_val e)" "(hti_table t ! i)\<lparr>ent_key := k\<rparr>"] by (simp add: tab)
  have "tally (\<lambda>e. ent_key e \<noteq> 0) (hti_table (put_key i k t)) = tally (\<lambda>e. ent_key e \<noteq> 0) (hti_table t) + 1"
    using tally_update [OF i, of "\<lambda>e. ent_key e \<noteq> 0" "(hti_table t ! i)\<lparr>ent_key := k\<rparr>"] assms(3,4) by (simp add: tab)
  then have 2: "hti_key_count t + 1 = of_nat (tally (\<lambda>e. ent_key e \<noteq> 0) (hti_table (put_key i k t)))"
    using assms(1) by (simp add: tab_ok_def)
  have 3: "slot (add_key_count 1 (put_key i k t)) k' = slot (put_key i k t) k'" for k'
    by (rule slot_cong) simp_all
  have 4: "slot (put_key i k t) (tkey (put_key i k t) j) = Some j" if "j < tsize t" "tkey (put_key i k t) j \<noteq> 0" for j
  proof (cases "j = i")
    case True
    then show ?thesis using slot_put_key_same [OF assms(2,3)] i by simp
  next
    case False
    then have kj: "tkey (put_key i k t) j = tkey t j" "tkey t j \<noteq> 0" using that by simp_all
    then show ?thesis
      using slot_put_key_found [OF tab_okD(2) [OF assms(1) that(1)] refl _ assms(3,4)] by simp
  qed
  show ?thesis
    using wf 1 2 3 4 assms(1,4) i by (simp add: tab_ok_def)
qed

text \<open>A key that a search of the table refers to the next table: there is no room for it, or its
  entry is marked. A key is \<open>cleared\<close> when, moreover, the copy of its entry is finished.\<close>

definition passed :: "hti \<Rightarrow> map_key_t \<Rightarrow> bool" where
  "passed t k = (case slot t k of None \<Rightarrow> True | Some i \<Rightarrow> tkey t i = k \<and> tagged (tval t i))"

definition cleared :: "hti \<Rightarrow> map_key_t \<Rightarrow> bool" where
  "cleared t k = (case slot t k of None \<Rightarrow> True | Some i \<Rightarrow> tkey t i = k \<and> sealed (tval t i))"

text \<open>The relation of a table to every later table of the chain.\<close>

definition linked :: "hti \<Rightarrow> hti \<Rightarrow> bool" where
  "linked t u \<longleftrightarrow> (\<forall>j < tsize u. tkey u j \<noteq> 0 \<longrightarrow> passed t (tkey u j) \<and>
     (\<forall>i < tsize t. tkey t i = tkey u j \<and> live (tval t i) \<longrightarrow> virgin (tval u j)))"

lemma cleared_passed: "cleared t k \<Longrightarrow> passed t k"
  by (auto simp: cleared_def passed_def sealed_tagged split: option.splits)

lemma passed_put_key:
  assumes "passed t k'" and "k' \<noteq> 0" and "tkey t i = 0" and "k \<noteq> 0"
  shows "passed (add_key_count n (put_key i k t)) k'"
proof -
  have s: "slot (add_key_count n (put_key i k t)) k' = slot (put_key i k t) k'" by (rule slot_cong) simp_all
  show ?thesis
  proof (cases "slot t k'")
    case None
    then show ?thesis using slot_put_key_None [OF None assms(3,4)] by (simp add: passed_def s)
  next
    case (Some j)
    then have j: "tkey t j = k'" "tagged (tval t j)" using assms(1) by (auto simp: passed_def)
    then have "j \<noteq> i" using assms(2,3) by auto
    then show ?thesis using slot_put_key_found [OF Some j(1) assms(2-4)] j by (simp add: passed_def s)
  qed
qed

lemma linked_put_key_left:
  assumes "linked t u" and "tab_ok t" and "tkey t i = 0" and "k \<noteq> 0" and "i < tsize t"
  shows "linked (add_key_count n (put_key i k t)) u"
  using assms passed_put_key [OF _ _ assms(3,4)] tab_okD(3) [OF assms(2,5)] live_nonzero
  unfolding linked_def by (auto split: if_splits)

lemma linked_put_key_right:
  assumes "linked t u" and "passed t k" and "virgin (tval u j)"
  shows "linked t (add_key_count n (put_key j k u))"
  using assms unfolding linked_def by (auto split: if_splits)

lemma passed_put_val:
  assumes "passed t k" and "tagged (tval t i) \<Longrightarrow> tagged v"
  shows "passed (add_count n (put_val i v t)) k"
proof -
  have "slot (add_count n (put_val i v t)) k = slot t k"
    using slot_cong [of "add_count n (put_val i v t)" "put_val i v t" k] by simp
  then show ?thesis using assms by (auto simp: passed_def split: option.splits)
qed

lemma linked_put_val_left:
  assumes "linked t u" and "tab_ok t" and "i < tsize t" and "tagged (tval t i) \<Longrightarrow> tagged v"
    and "live v \<Longrightarrow> live (tval t i) \<or> \<not> tagged (tval t i)"
  shows "linked (add_count n (put_val i v t)) u"
proof -
  have "virgin (tval u j)" if j: "j < tsize u" "tkey u j \<noteq> 0" "tkey t i = tkey u j" "live v" for j
  proof -
    have "slot t (tkey u j) = Some i" using tab_okD(2) [OF assms(2,3)] j by simp
    moreover have "passed t (tkey u j)" using assms(1) j by (simp add: linked_def)
    ultimately have "tagged (tval t i)" by (simp add: passed_def)
    then show ?thesis using assms(1,3,5) j unfolding linked_def by blast
  qed
  then show ?thesis
    using assms(1) passed_put_val [OF _ assms(4)] unfolding linked_def by (auto split: if_splits)
qed

lemma linked_put_val_right:
  assumes "linked t u" and "\<And>i. i < tsize t \<Longrightarrow> tkey u j \<noteq> 0 \<Longrightarrow> tkey t i = tkey u j \<Longrightarrow> live (tval t i) \<Longrightarrow> virgin v"
  shows "linked t (add_count n (put_val j v u))"
  using assms unfolding linked_def by (auto split: if_splits)

end
