(* ===== verification/Hashtable_Chain.thy ===== *)
theory Hashtable_Chain
  imports Hashtable_Table
begin

text \<open>
  The chain of tables of \<^verbatim>\<open>src/src/map/hashtable.c\<close> while entries are being copied: its
  invariant, the finite map it represents, how both fare under the single stores the code makes, and
  the correctness of \<^verbatim>\<open>hti_start_copy\<close> and \<^verbatim>\<open>hti_copy_entry\<close>.
\<close>

section \<open>The invariant of the chain and the map it represents\<close>

definition chain_ok :: "nat \<Rightarrow> hti list \<Rightarrow> bool" where
  "chain_ok b st \<longleftrightarrow>
     (\<forall>p. b \<le> p \<and> p < length st \<longrightarrow> tab_ok (st ! p) \<and> hti_next (st ! p) = (if Suc p < length st then Some (Suc p) else None) \<and>
        (\<forall>i < tsize (st ! p). tagged (tval (st ! p) i) \<longrightarrow> Suc p < length st)) \<and>
     (\<forall>p q. b \<le> p \<and> p < q \<and> q < length st \<longrightarrow> linked (st ! p) (st ! q))"

definition bindings :: "hti \<Rightarrow> (map_key_t \<times> map_val_t) list" where
  "bindings t = map (\<lambda>e. (ent_key e, plain (ent_val e))) (filter (\<lambda>e. live (ent_val e)) (hti_table t))"

definition chain_abs :: "nat \<Rightarrow> hti list \<Rightarrow> map_key_t \<Rightarrow> map_val_t option" where
  "chain_abs b st = map_of (concat (map bindings (drop b st)))"

definition live_at :: "nat \<Rightarrow> hti list \<Rightarrow> map_key_t \<Rightarrow> nat \<Rightarrow> nat \<Rightarrow> bool" where
  "live_at b st k p i \<longleftrightarrow> b \<le> p \<and> p < length st \<and> i < tsize (st ! p) \<and> tkey (st ! p) i = k \<and> live (tval (st ! p) i)"

lemma chain_okD:
  assumes "chain_ok b st" and "b \<le> p" and "p < length st"
  shows "tab_ok (st ! p)" and "hti_next (st ! p) = (if Suc p < length st then Some (Suc p) else None)"
    and "\<And>i. i < tsize (st ! p) \<Longrightarrow> tagged (tval (st ! p) i) \<Longrightarrow> Suc p < length st" and "wf_table (st ! p)"
    and "\<And>q. p < q \<Longrightarrow> q < length st \<Longrightarrow> linked (st ! p) (st ! q)"
  using assms by (auto simp: chain_ok_def tab_ok_def)

lemma chain_ok_mono: "chain_ok b st \<Longrightarrow> b \<le> c \<Longrightarrow> chain_ok c st"
  unfolding chain_ok_def by auto

lemma live_at_nonzero: "chain_ok b st \<Longrightarrow> live_at b st k p i \<Longrightarrow> k \<noteq> 0"
  using tab_ok_live chain_okD(1) unfolding live_at_def by blast

lemma live_at_later:
  assumes "chain_ok b st" and "live_at b st k p i" and "p < q" and "q < length st" and "j < tsize (st ! q)" and "tkey (st ! q) j = k"
  shows "virgin (tval (st ! q) j)"
proof -
  have "linked (st ! p) (st ! q)" using assms by (auto simp: live_at_def intro: chain_okD(5))
  then show ?thesis using assms live_at_nonzero [OF assms(1,2)] by (auto simp: linked_def live_at_def)
qed

lemma live_at_unique:
  assumes "chain_ok b st" and "live_at b st k p i" and "live_at b st k q j"
  shows "p = q \<and> i = j"
proof -
  have "\<not> p < q" "\<not> q < p"
    using live_at_later [OF assms(1,2), of q j] live_at_later [OF assms(1,3), of p i] assms(2,3) live_nonzero
    unfolding live_at_def by blast+
  then have "p = q" by simp
  then show ?thesis
    using assms live_at_nonzero [OF assms(1,2)] tab_ok_unique [of "st ! p" i j] chain_okD(1)
    by (auto simp: live_at_def)
qed

lemma chain_abs_Some:
  assumes "chain_ok b st"
  shows "chain_abs b st k = Some v \<longleftrightarrow> (\<exists>p i. live_at b st k p i \<and> v = plain (tval (st ! p) i))"
proof -
  let ?xs = "concat (map bindings (drop b st))"
  have mem: "(k, v) \<in> set ?xs \<longleftrightarrow> (\<exists>p i. live_at b st k p i \<and> v = plain (tval (st ! p) i))" for v
  proof -
    have "(k, v) \<in> set ?xs \<longleftrightarrow> (\<exists>p. b \<le> p \<and> p < length st \<and> (k, v) \<in> set (bindings (st ! p)))"
    proof -
      have "t \<in> set (drop b st) \<longleftrightarrow> (\<exists>p. b \<le> p \<and> p < length st \<and> st ! p = t)" for t
      proof
        assume "t \<in> set (drop b st)"
        then obtain n where "n < length st - b" "st ! (b + n) = t" by (auto simp: in_set_conv_nth)
        then show "\<exists>p. b \<le> p \<and> p < length st \<and> st ! p = t" by (intro exI [of _ "b + n"]) auto
      next
        assume "\<exists>p. b \<le> p \<and> p < length st \<and> st ! p = t"
        then obtain p where "b \<le> p" "p < length st" "st ! p = t" by blast
        then show "t \<in> set (drop b st)" by (auto simp: in_set_conv_nth intro!: exI [of _ "p - b"])
      qed
      then show ?thesis by auto
    qed
    moreover have "(k, v) \<in> set (bindings t) \<longleftrightarrow> (\<exists>i < tsize t. tkey t i = k \<and> live (tval t i) \<and> v = plain (tval t i))" for t
      by (auto simp: bindings_def image_iff in_set_conv_nth)
    ultimately show ?thesis unfolding live_at_def by blast
  qed
  have det: "v = w" if "(k, v) \<in> set ?xs" "(k, w) \<in> set ?xs" for v w
    using that live_at_unique [OF assms] unfolding mem by metis
  show ?thesis
  proof
    assume "chain_abs b st k = Some v"
    then show "\<exists>p i. live_at b st k p i \<and> v = plain (tval (st ! p) i)"
      using map_of_SomeD [of ?xs k v] mem by (simp add: chain_abs_def)
  next
    assume "\<exists>p i. live_at b st k p i \<and> v = plain (tval (st ! p) i)"
    then have v: "(k, v) \<in> set ?xs" by (simp only: mem)
    then obtain w where w: "map_of ?xs k = Some w" by (metis weak_map_of_SomeI)
    then show "chain_abs b st k = Some v" using det [OF v] map_of_SomeD [OF w] by (simp add: chain_abs_def)
  qed
qed

lemma chain_abs_None:
  assumes "chain_ok b st"
  shows "chain_abs b st k = None \<longleftrightarrow> (\<forall>p i. \<not> live_at b st k p i)"
  using chain_abs_Some [OF assms, of k] by (metis not_None_eq)

lemma chain_abs_eqI:
  assumes "chain_ok b st" and "chain_ok c st'"
    and "\<And>v. (\<exists>p i. live_at b st k p i \<and> v = plain (tval (st ! p) i)) \<longleftrightarrow> (\<exists>p i. live_at c st' k p i \<and> v = plain (tval (st' ! p) i))"
  shows "chain_abs c st' k = chain_abs b st k"
  using assms(3) chain_abs_Some [OF assms(1), of k] chain_abs_Some [OF assms(2), of k]
  by (metis not_None_eq)

lemma chain_abs_same:
  assumes "chain_ok b st" and "chain_ok c st'" and "\<And>p i. live_at c st' k p i \<longleftrightarrow> live_at b st k p i"
    and "\<And>p i. live_at b st k p i \<Longrightarrow> plain (tval (st' ! p) i) = plain (tval (st ! p) i)"
  shows "chain_abs c st' k = chain_abs b st k"
proof (rule chain_abs_eqI [OF assms(1,2)])
  show "(\<exists>p i. live_at b st k p i \<and> v = plain (tval (st ! p) i)) \<longleftrightarrow> (\<exists>p i. live_at c st' k p i \<and> v = plain (tval (st' ! p) i))" for v
    unfolding assms(3) using assms(4) by metis
qed

section \<open>Single stores\<close>

lemma chain_ok_update:
  assumes "chain_ok b st" and "b \<le> q" and "q < length st" and "tab_ok t" and "hti_next t = hti_next (st ! q)"
    and "\<And>i. i < tsize t \<Longrightarrow> tagged (tval t i) \<Longrightarrow> Suc q < length st"
    and "\<And>r. b \<le> r \<Longrightarrow> r < q \<Longrightarrow> linked (st ! r) t"
    and "\<And>r. q < r \<Longrightarrow> r < length st \<Longrightarrow> linked t (st ! r)"
  shows "chain_ok b (st[q := t])"
  using assms unfolding chain_ok_def by (auto simp: nth_list_update)

lemma chain_put_val:
  assumes "chain_ok b st" and "b \<le> q" and "q < length st" and "j < tsize (st ! q)"
    and "tkey (st ! q) j = 0 \<Longrightarrow> virgin v" and "tagged v \<Longrightarrow> Suc q < length st"
    and "tagged (tval (st ! q) j) \<Longrightarrow> tagged v"
    and "live v \<Longrightarrow> live (tval (st ! q) j) \<or> \<not> tagged (tval (st ! q) j)"
    and "\<And>r i. r < q \<Longrightarrow> live_at b st (tkey (st ! q) j) r i \<Longrightarrow> virgin v"
    and "d = of_bool (live v) - of_bool (live (tval (st ! q) j))"
  shows "chain_ok b (st[q := add_count d (put_val j v (st ! q))])"
proof (rule chain_ok_update [OF assms(1-3)])
  note q = chain_okD [OF assms(1-3)]
  show "tab_ok (add_count d (put_val j v (st ! q)))" by (rule tab_ok_put_val [OF q(1) assms(4,5,10)])
  show "hti_next (add_count d (put_val j v (st ! q))) = hti_next (st ! q)" by simp
  show "Suc q < length st" if "i < tsize (add_count d (put_val j v (st ! q)))" "tagged (tval (add_count d (put_val j v (st ! q))) i)" for i
    using that assms(6) q(3) [of i] by (simp split: if_splits)
  show "linked (st ! r) (add_count d (put_val j v (st ! q)))" if "b \<le> r" "r < q" for r
  proof (rule linked_put_val_right)
    show "linked (st ! r) (st ! q)" using that assms(1,3) chain_okD(5) [of b st r q] by simp
    show "virgin v" if "i < tsize (st ! r)" "tkey (st ! q) j \<noteq> 0" "tkey (st ! r) i = tkey (st ! q) j" "live (tval (st ! r) i)" for i
      using assms(9) [of r i] that \<open>b \<le> r\<close> \<open>r < q\<close> assms(3) by (simp add: live_at_def)
  qed
  show "linked (add_count d (put_val j v (st ! q))) (st ! r)" if "q < r" "r < length st" for r
    by (rule linked_put_val_left [OF q(5) [OF that] q(1) assms(4,7,8)])
qed

lemma chain_put_key:
  assumes "chain_ok b st" and "b \<le> q" and "q < length st" and "slot (st ! q) k = Some j" and "tkey (st ! q) j = 0" and "k \<noteq> 0"
    and "\<And>r. b \<le> r \<Longrightarrow> r < q \<Longrightarrow> passed (st ! r) k"
  shows "chain_ok b (st[q := add_key_count 1 (put_key j k (st ! q))])"
proof (rule chain_ok_update [OF assms(1-3)])
  note q = chain_okD [OF assms(1-3)]
  have j: "j < tsize (st ! q)" by (rule slotD(1) [OF q(4) assms(4)])
  show "tab_ok (add_key_count 1 (put_key j k (st ! q)))" by (rule tab_ok_put_key [OF q(1) assms(4-6)])
  show "Suc q < length st" if "i < tsize (add_key_count 1 (put_key j k (st ! q)))" "tagged (tval (add_key_count 1 (put_key j k (st ! q))) i)" for i
    using that q(3) [of i] by simp
  show "linked (st ! r) (add_key_count 1 (put_key j k (st ! q)))" if "b \<le> r" "r < q" for r
    using linked_put_key_right [of "st ! r" "st ! q" k j 1] that assms(1,3,7) chain_okD(5) [of b st r q] tab_okD(3) [OF q(1) j assms(5)] by simp
  show "linked (add_key_count 1 (put_key j k (st ! q))) (st ! r)" if "q < r" "r < length st" for r
    by (rule linked_put_key_left [OF q(5) [OF that] q(1) assms(5,6) j])
qed simp

lemma chain_abs_put_key:
  assumes "chain_ok b st" and "q < length st" and "b \<le> q" and "slot (st ! q) k = Some j" and "tkey (st ! q) j = 0"
    and "chain_ok b (st[q := add_key_count 1 (put_key j k (st ! q))])"
  shows "chain_abs b (st[q := add_key_count 1 (put_key j k (st ! q))]) = chain_abs b st"
proof
  fix k'
  have q: "tab_ok (st ! q)" "j < tsize (st ! q)"
    using chain_okD(1,4) [OF assms(1,3,2)] slotD(1) [OF _ assms(4)] by auto
  have "\<not> live (tval (st ! q) j)" using tab_okD(3) [OF q assms(5)] by auto
  then have "live_at b (st[q := add_key_count 1 (put_key j k (st ! q))]) k' p i \<longleftrightarrow> live_at b st k' p i" for p i
    using assms(2) by (cases "p = q") (auto simp: live_at_def)
  moreover have "tval (st[q := add_key_count 1 (put_key j k (st ! q))] ! p) i = tval (st ! p) i" for p i
    using assms(2) by (cases "p = q") auto
  ultimately show "chain_abs b (st[q := add_key_count 1 (put_key j k (st ! q))]) k' = chain_abs b st k'"
    by (intro chain_abs_same [OF assms(1,6)]) simp_all
qed

lemma chain_abs_put_val_same:
  assumes "chain_ok b st" and "q < length st" and "chain_ok b (st[q := add_count d (put_val j v (st ! q))])"
    and "plain v = plain (tval (st ! q) j) \<or> \<not> live v \<and> \<not> live (tval (st ! q) j)"
  shows "chain_abs b (st[q := add_count d (put_val j v (st ! q))]) = chain_abs b st"
proof
  fix k
  have v: "live v = live (tval (st ! q) j)" using assms(4) by (auto simp: live_def)
  have "live_at b (st[q := add_count d (put_val j v (st ! q))]) k p i \<longleftrightarrow> live_at b st k p i" for p i
    using assms(2) v by (cases "p = q") (auto simp: live_at_def)
  moreover have "plain (tval (st[q := add_count d (put_val j v (st ! q))] ! p) i) = plain (tval (st ! p) i)"
    if "live_at b st k p i" for p i
    using assms(2,4) v that by (cases "p = q") (auto simp: live_at_def)
  ultimately show "chain_abs b (st[q := add_count d (put_val j v (st ! q))]) k = chain_abs b st k"
    by (intro chain_abs_same [OF assms(1,3)])
qed

lemma chain_abs_put_val:
  assumes "chain_ok b st" and "b \<le> q" and "q < length st" and "j < tsize (st ! q)"
    and "chain_ok b (st[q := add_count d (put_val j v (st ! q))])" and "tkey (st ! q) j = k"
    and "\<And>p i. live_at b st k p i \<Longrightarrow> p = q \<and> i = j"
  shows "chain_abs b (st[q := add_count d (put_val j v (st ! q))]) = (chain_abs b st)(k := if live v then Some (plain v) else None)"
proof
  fix k'
  let ?st = "st[q := add_count d (put_val j v (st ! q))]"
  show "chain_abs b ?st k' = ((chain_abs b st)(k := if live v then Some (plain v) else None)) k'"
  proof (cases "k' = k")
    case False
    have "live_at b ?st k' p i \<longleftrightarrow> live_at b st k' p i" for p i
      using False assms(3,6) by (cases "p = q"; cases "i = j") (simp_all add: live_at_def)
    moreover have "tval (?st ! p) i = tval (st ! p) i" if "live_at b st k' p i" for p i
      using False assms(3,6) that by (cases "p = q"; cases "i = j") (simp_all add: live_at_def)
    ultimately have "chain_abs b ?st k' = chain_abs b st k'"
      by (intro chain_abs_same [OF assms(1,5)]) simp_all
    with False show ?thesis by simp
  next
    case True
    have iff: "live_at b ?st k p i \<longleftrightarrow> p = q \<and> i = j \<and> live v" for p i
    proof (cases "p = q")
      case True
      have "i = j" if "live_at b ?st k q i"
      proof (rule ccontr)
        assume "i \<noteq> j"
        with that have "live_at b st k q i" using assms(2,3) by (simp add: live_at_def)
        with assms(7) \<open>i \<noteq> j\<close> show False by blast
      qed
      moreover have "live_at b ?st k q j \<longleftrightarrow> live v" using assms(2,3,4,6) by (simp add: live_at_def)
      ultimately show ?thesis using True by blast
    next
      case False
      then have "live_at b ?st k p i \<longleftrightarrow> live_at b st k p i" by (simp add: live_at_def)
      with False assms(7) show ?thesis by blast
    qed
    have val: "tval (?st ! q) j = v" using assms(3,4) by simp
    show ?thesis
    proof (cases "live v")
      case True
      then have "live_at b ?st k q j \<and> plain v = plain (tval (?st ! q) j)" using iff [of q j] val by simp
      then have "chain_abs b ?st k = Some (plain v)" using chain_abs_Some [OF assms(5), of k "plain v"] by blast
      with True \<open>k' = k\<close> show ?thesis by simp
    next
      case False
      then have "chain_abs b ?st k = None"
        using chain_abs_None [OF assms(5), of k] iff by simp
      with False \<open>k' = k\<close> show ?thesis by simp
    qed
  qed
qed

section \<open>States\<close>

lemma upd_hti_sel [simp]:
  "ht_store (upd_hti p f s) = (ht_store s)[p := f (ht_store s ! p)]" "ht_hti (upd_hti p f s) = ht_hti s"
  "ht_key_type (upd_hti p f s) = ht_key_type s" "ht_deferred (upd_hti p f s) = ht_deferred s"
  by (simp_all add: upd_hti_def)

lemma upd_hti_fuse: "p < length (ht_store s) \<Longrightarrow> upd_hti p f (upd_hti p g s) = upd_hti p (\<lambda>t. f (g t)) s"
  by (simp add: upd_hti_def)

lemma upd_hti_commute:
  "p \<noteq> q \<Longrightarrow> upd_hti p f (upd_hti q g s) = upd_hti q g (upd_hti p f s)"
  by (simp add: upd_hti_def list_update_swap)

lemma upd_hti_same: "f (ht_store s ! p) = ht_store s ! p \<Longrightarrow> upd_hti p f s = s"
  by (simp add: upd_hti_def)

lemma put_val_same: "tval t i = v \<Longrightarrow> put_val i v t = t"
  by (cases "i < tsize t") (auto simp: put_val_def list_update_same_conv list_update_beyond)

lemma add_count_zero [simp]: "add_count 0 t = t"
  by (simp add: add_count_def SYNC_ADD_def)

lemma hti_at_ok [simp]: "p < length (ht_store s) \<Longrightarrow> hti_at s p = ret (ht_store s ! p)"
  by (simp add: hti_at_def)

lemma ent_at_ok [simp]: "i < tsize t \<Longrightarrow> ent_at t i = ret (hti_table t ! i)"
  by (simp add: ent_at_def)

lemma hti_ptr_Some [simp]: "hti_ptr (Some p) = ret p"
  by (simp add: hti_ptr_def)

text \<open>The part of the invariant that holds between any two stores, for the tables from \<open>b\<close> on.\<close>

definition core :: "nat \<Rightarrow> hashtable_t \<Rightarrow> bool" where
  "core b s \<longleftrightarrow> ht_key_type s = None \<and> b \<le> ht_hti s \<and> ht_hti s < length (ht_store s) \<and> chain_ok b (ht_store s)"

abbreviation ht_bound :: "nat \<Rightarrow> hashtable_t \<Rightarrow> map_key_t \<Rightarrow> map_val_t option" where
  "ht_bound b s \<equiv> chain_abs b (ht_store s)"

definition top_scale :: "hashtable_t \<Rightarrow> nat" where
  "top_scale s = hti_scale (last (ht_store s))"

text \<open>What an operation leaves as it was, except in the entries \<open>E\<close>.\<close>

definition tab_frame :: "nat set \<Rightarrow> hti \<Rightarrow> hti \<Rightarrow> bool" where
  "tab_frame E t u \<longleftrightarrow> hti_scale u = hti_scale t \<and> tsize u = tsize t \<and> hti_copy_scan u = hti_copy_scan t \<and>
     hti_num_entries_copied u = hti_num_entries_copied t \<and> hti_ref_count u = hti_ref_count t \<and>
     (\<forall>i < tsize t. tkey t i \<noteq> 0 \<longrightarrow> tkey u i = tkey t i) \<and>
     (\<forall>i < tsize t. i \<notin> E \<longrightarrow> tagged (tval u i) = tagged (tval t i) \<and> sealed (tval u i) = sealed (tval t i))"

definition fresh_table :: "hti \<Rightarrow> bool" where
  "fresh_table t \<longleftrightarrow> hti_copy_scan t = 0 \<and> hti_num_entries_copied t = 0 \<and> hti_ref_count t = 1 \<and>
     (\<forall>i < tsize t. \<not> tagged (tval t i))"

definition frame :: "(nat \<times> nat) set \<Rightarrow> hashtable_t \<Rightarrow> hashtable_t \<Rightarrow> bool" where
  "frame E s s' \<longleftrightarrow> ht_hti s' = ht_hti s \<and> ht_deferred s' = ht_deferred s \<and> length (ht_store s) \<le> length (ht_store s') \<and>
     (\<forall>r < length (ht_store s). tab_frame {i. (r, i) \<in> E} (ht_store s ! r) (ht_store s' ! r)) \<and>
     (\<forall>r < length (ht_store s'). length (ht_store s) \<le> r \<longrightarrow> fresh_table (ht_store s' ! r))"

lemma tab_frame_refl: "tab_frame E t t"
  by (simp add: tab_frame_def)

lemma tab_frame_trans: "tab_frame D t u \<Longrightarrow> tab_frame E u v \<Longrightarrow> D \<subseteq> F \<Longrightarrow> E \<subseteq> F \<Longrightarrow> tab_frame F t v"
  unfolding tab_frame_def by (simp add: subset_iff) metis

lemma fresh_table_frame: "fresh_table t \<Longrightarrow> tab_frame {} t u \<Longrightarrow> fresh_table u"
  unfolding tab_frame_def fresh_table_def by auto

lemma frame_refl: "frame E s s"
  by (simp add: frame_def tab_frame_refl)

lemma frame_trans:
  assumes "frame D s s'" and "frame E s' s''" and "D \<subseteq> F" and "E \<subseteq> F"
    and "\<And>r i. (r, i) \<in> E \<Longrightarrow> r < length (ht_store s)"
  shows "frame F s s''"
proof -
  have "tab_frame {i. (r, i) \<in> F} (ht_store s ! r) (ht_store s'' ! r)" if "r < length (ht_store s)" for r
    by (rule tab_frame_trans [of "{i. (r, i) \<in> D}" _ "ht_store s' ! r" "{i. (r, i) \<in> E}"])
      (use assms that in \<open>auto simp: frame_def\<close>)
  moreover have "fresh_table (ht_store s'' ! r)" if r: "r < length (ht_store s'')" "length (ht_store s) \<le> r" for r
  proof (cases "r < length (ht_store s')")
    case True
    have "{i. (r, i) \<in> E} = {}" using assms(5) r(2) by fastforce
    then have "tab_frame {} (ht_store s' ! r) (ht_store s'' ! r)" using assms(2) True by (auto simp: frame_def)
    then show ?thesis using assms(1) True r fresh_table_frame by (auto simp: frame_def)
  next
    case False
    then show ?thesis using assms(2) r by (auto simp: frame_def)
  qed
  ultimately show ?thesis using assms(1,2) by (auto simp: frame_def)
qed

lemma frame_upd:
  assumes "p < length (ht_store s) \<Longrightarrow> tab_frame {i. (p, i) \<in> E} (ht_store s ! p) (f (ht_store s ! p))"
  shows "frame E s (upd_hti p f s)"
proof -
  have "tab_frame {i. (r, i) \<in> E} (ht_store s ! r) (ht_store (upd_hti p f s) ! r)" if "r < length (ht_store s)" for r
    using assms that by (cases "r = p") (simp_all add: tab_frame_refl)
  then show ?thesis by (simp add: frame_def)
qed

section \<open>Counting and growing\<close>

lemma ht_count_loop_eq:
  assumes "chain_ok b (ht_store s)" and "b \<le> p" and "p < length (ht_store s)"
  shows "ht_count_loop (Some p) n s = ret (n + (\<Sum>t \<leftarrow> drop p (ht_store s). hti_count t))"
  using assms(2,3)
proof (induction "length (ht_store s) - p" arbitrary: p n)
  case 0
  then show ?case by simp
next
  case (Suc m)
  have d: "drop p (ht_store s) = ht_store s ! p # drop (Suc p) (ht_store s)"
    using Suc.prems(2) by (simp add: Cons_nth_drop_Suc)
  show ?case
  proof (cases "Suc p < length (ht_store s)")
    case True
    then have "ht_count_loop (Some (Suc p)) (n + hti_count (ht_store s ! p)) s =
      ret (n + hti_count (ht_store s ! p) + (\<Sum>t \<leftarrow> drop (Suc p) (ht_store s). hti_count t))"
      using Suc by simp
    then show ?thesis
      using True Suc.prems chain_okD(2) [OF assms(1) Suc.prems] d
      by (subst ht_count_loop.simps) (simp add: add.assoc)
  next
    case False
    then show ?thesis
      using Suc.prems chain_okD(2) [OF assms(1) Suc.prems] d
      by (subst ht_count_loop.simps) (simp add: ht_count_loop.simps [of None])
  qed
qed

lemma ht_count_eq:
  "core b s \<Longrightarrow> ht_count s = ret (\<Sum>t \<leftarrow> drop (ht_hti s) (ht_store s). hti_count t)"
  by (simp add: core_def ht_count_def ht_count_loop_eq [of b])

definition blank_table :: "hti \<Rightarrow> bool" where
  "blank_table t \<longleftrightarrow> tab_ok t \<and> fresh_table t \<and> hti_next t = None \<and> (\<forall>i < tsize t. hti_table t ! i = \<lparr>ent_key = 0, ent_val = 0\<rparr>)"

lemma hti_alloc_ok:
  assumes "4 \<le> scale" and "scale \<le> 30"
  shows "\<exists>t. hti_alloc scale s = ret (length (ht_store s), s\<lparr>ht_store := ht_store s @ [t]\<rparr>) \<and> blank_table t \<and> hti_scale t = scale"
proof -
  define probe where "probe = int (scale * 3 div 2) + 2"
  define quarter where "quarter = as_int (ucast (push_bit (scale - 2) (1 :: uint64_t) div of_nat ENTRIES_PER_BUCKET))"
  define pr where "pr = (if probe > quarter \<and> quarter > 4 then quarter else probe)"
  have pr: "0 < pr" by (simp add: pr_def probe_def)
  define t where "t = \<lparr>hti_table = replicate (2 ^ scale) \<lparr>ent_key = 0, ent_val = 0\<rparr>, hti_next = None, hti_count = 0,
     hti_key_count = 0, hti_copy_scan = 0, hti_num_entries_copied = 0, hti_probe = pr, hti_ref_count = 1, hti_scale = scale\<rparr>"
  have wf: "wf_table t" using assms pr by (simp add: wf_table_def t_def)
  have "tally (\<lambda>e. live (ent_val e)) (hti_table t) = 0" "tally (\<lambda>e. ent_key e \<noteq> 0) (hti_table t) = 0"
    by (auto simp: tally_zero t_def)
  then have "tab_ok t" using wf by (simp add: tab_ok_def t_def)
  then have "blank_table t" by (simp add: blank_table_def fresh_table_def t_def)
  moreover have "hti_alloc scale s = ret (length (ht_store s), s\<lparr>ht_store := ht_store s @ [t]\<rparr>)"
    unfolding hti_alloc_def Let_def probe_def [symmetric] quarter_def [symmetric] pr_def [symmetric] t_def [symmetric]
    using pr assms by (simp add: MIN_SCALE_def)
  ultimately show ?thesis by (auto simp: t_def)
qed

text \<open>A table with the same entries and another link.\<close>

lemma set_next_facts:
  "tab_ok (t\<lparr>hti_next := x\<rparr>) = tab_ok t" "slot (t\<lparr>hti_next := x\<rparr>) k = slot t k"
  "linked (t\<lparr>hti_next := x\<rparr>) u = linked t u" "linked u (t\<lparr>hti_next := x\<rparr>) = linked u t"
proof -
  show s: "slot (t\<lparr>hti_next := x\<rparr>) k = slot t k" for k by (rule slot_cong) simp_all
  show "tab_ok (t\<lparr>hti_next := x\<rparr>) = tab_ok t" by (simp add: tab_ok_def wf_table_def s)
  have "passed (t\<lparr>hti_next := x\<rparr>) k = passed t k" for k by (simp add: passed_def s split: option.split)
  then show "linked (t\<lparr>hti_next := x\<rparr>) u = linked t u" by (simp add: linked_def)
  show "linked u (t\<lparr>hti_next := x\<rparr>) = linked u t" by (simp add: linked_def)
qed

lemma blank_linked: "blank_table u \<Longrightarrow> linked t u"
  by (simp add: blank_table_def linked_def)

lemma chain_ok_append:
  assumes "chain_ok b st" and "Suc d = length st" and "b \<le> d" and "blank_table t"
  shows "chain_ok b (st[d := (st ! d)\<lparr>hti_next := Some (Suc d)\<rparr>] @ [t])"
proof -
  let ?u = "(st ! d)\<lparr>hti_next := Some (Suc d)\<rparr>"
  have nth: "(st[d := ?u] @ [t]) ! p = (if p = d then ?u else if p < d then st ! p else t)" if "p \<le> Suc d" for p
    using that assms(2) by (auto simp: nth_append)
  have tok: "tab_ok t" "hti_next t = None" "\<And>i. i < tsize t \<Longrightarrow> \<not> tagged (tval t i)"
    using assms(4) by (auto simp: blank_table_def)
  have d: "tab_ok (st ! d)" using chain_okD(1) [OF assms(1,3)] assms(2) by simp
  have below: "tab_ok (st ! p)" "hti_next (st ! p) = Some (Suc p)" if "b \<le> p" "p < d" for p
    using chain_okD(1,2) [OF assms(1) that(1)] that(2) assms(2) by auto
  have lk: "linked (st ! p) (st ! q)" if "b \<le> p" "p < q" "q \<le> d" for p q
    using chain_okD(5) [OF assms(1) that(1)] that(2,3) assms(2) by simp
  show ?thesis
    unfolding chain_ok_def
  proof (intro conjI allI impI; elim conjE)
    fix p assume p: "b \<le> p" "p < length (st[d := ?u] @ [t])"
    then have "p \<le> Suc d" using assms(2) by simp
    show "tab_ok ((st[d := ?u] @ [t]) ! p)"
      using p below(1) d tok(1) by (simp add: nth [OF \<open>p \<le> Suc d\<close>] set_next_facts)
    show "hti_next ((st[d := ?u] @ [t]) ! p) = (if Suc p < length (st[d := ?u] @ [t]) then Some (Suc p) else None)"
      unfolding nth [OF \<open>p \<le> Suc d\<close>] using p below(2) tok(2) assms(2) by auto
    show "Suc p < length (st[d := ?u] @ [t])"
      if "i < tsize ((st[d := ?u] @ [t]) ! p)" "tagged (tval ((st[d := ?u] @ [t]) ! p) i)" for i
      using that tok(3) assms(2) unfolding nth [OF \<open>p \<le> Suc d\<close>] by (auto split: if_splits)
  next
    fix p q assume pq: "b \<le> p" "p < q" "q < length (st[d := ?u] @ [t])"
    then have "p \<le> Suc d" "q \<le> Suc d" using assms(2) by auto
    then show "linked ((st[d := ?u] @ [t]) ! p) ((st[d := ?u] @ [t]) ! q)"
      using pq lk blank_linked [OF assms(4)] by (simp add: nth set_next_facts)
  qed
qed

lemma chain_abs_append:
  assumes "Suc d = length st" and "b \<le> d" and "blank_table t"
  shows "chain_abs b (st[d := (st ! d)\<lparr>hti_next := x\<rparr>] @ [t]) = chain_abs b st"
proof -
  have "bindings t = []"
    using assms(3) by (auto simp: bindings_def blank_table_def filter_empty_conv in_set_conv_nth)
  moreover have "map bindings (st[d := (st ! d)\<lparr>hti_next := x\<rparr>]) = map bindings st"
    by (metis (no_types, lifting) bindings_def list_update_id map_update hti.select_convs(1) hti.surjective hti.update_convs(2))
  then have "map bindings (drop b (st[d := (st ! d)\<lparr>hti_next := x\<rparr>])) = map bindings (drop b st)"
    by (metis drop_map)
  ultimately show ?thesis using assms by (simp add: chain_abs_def)
qed

lemma hti_start_copy_ok:
  assumes "core b s" and "Suc d = length (ht_store s)" and "hti_scale (ht_store s ! d) \<le> 29"
  shows "\<exists>s' t. hti_start_copy d s = ret s' \<and> ht_store s' = (ht_store s)[d := (ht_store s ! d)\<lparr>hti_next := Some (Suc d)\<rparr>] @ [t] \<and>
    blank_table t \<and> core b s' \<and> ht_bound b s' = ht_bound b s \<and> frame {} s s' \<and> top_scale s' \<le> top_scale s + 1"
proof -
  have b: "b \<le> d" using assms(1,2) by (simp add: core_def)
  have d: "d < length (ht_store s)" "chain_ok b (ht_store s)" using assms(1,2) by (simp_all add: core_def)
  have nx: "hti_next (ht_store s ! d) = None" and wf: "wf_table (ht_store s ! d)"
    using chain_okD(2,4) [OF d(2) b d(1)] assms(2) by simp_all
  obtain n where n: "ht_count s = ret n" using ht_count_eq [OF assms(1)] by simp
  have sc: "4 \<le> new_scale (ht_store s ! d) n" "new_scale (ht_store s ! d) n \<le> hti_scale (ht_store s ! d) + 1"
    using wf by (auto simp: new_scale_def wf_table_def of_bool_def)
  obtain t where t: "hti_alloc (new_scale (ht_store s ! d) n) s = ret (length (ht_store s), s\<lparr>ht_store := ht_store s @ [t]\<rparr>)"
    "blank_table t" "hti_scale t = new_scale (ht_store s ! d) n"
    using hti_alloc_ok [of "new_scale (ht_store s ! d) n" s] sc assms(3) by auto
  define s' where "s' = (upd_hti d (\<lambda>t. t\<lparr>hti_next := Some (Suc d)\<rparr>) (s\<lparr>ht_store := ht_store s @ [t]\<rparr>))
     \<lparr>ht_hti_copies := ht_hti_copies s + 1, ht_density := (unat (hti_key_count (ht_store s ! d)) * 100, 2 ^ hti_scale (ht_store s ! d)),
      ht_probe := hti_probe (ht_store s ! d)\<rparr>"
  have run: "hti_start_copy d s = ret s'"
    using n t(1) d nx assms(2) by (simp add: hti_start_copy_def s'_def SYNC_ADD_def upd_hti_def)
  have st: "ht_store s' = (ht_store s)[d := (ht_store s ! d)\<lparr>hti_next := Some (Suc d)\<rparr>] @ [t]"
    using d by (simp add: s'_def nth_append list_update_append1)
  have "core b s'"
    using assms(1) chain_ok_append [OF d(2) assms(2) b t(2)] st by (simp add: core_def s'_def)
  moreover have "ht_bound b s' = ht_bound b s"
    using chain_abs_append [OF assms(2) b t(2)] st by simp
  moreover have "frame {} s s'"
    using t(2) st assms(2) by (auto simp: frame_def s'_def nth_append nth_list_update tab_frame_def blank_table_def less_Suc_eq)
  moreover have "last (ht_store s) = ht_store s ! d"
    using assms(2) last_conv_nth [of "ht_store s"] by (cases "ht_store s") auto
  then have "top_scale s' \<le> top_scale s + 1"
    using st t(3) sc(2) by (simp add: top_scale_def)
  ultimately show ?thesis using run st t(2) by blast
qed

section \<open>Copying an entry\<close>

lemma top_scale_upd:
  assumes "hti_scale (f (ht_store s ! p)) = hti_scale (ht_store s ! p)"
  shows "top_scale (upd_hti p f s) = top_scale s"
proof (cases "ht_store s = []")
  case True
  then show ?thesis by (simp add: top_scale_def)
next
  case False
  then show ?thesis using assms by (auto simp: top_scale_def last_list_update last_conv_nth [OF False])
qed

text \<open>The state in which the entry \<open>(p, i)\<close>, of key \<open>k\<close> and marked value \<open>w\<close>, is to be copied to
  table \<open>d\<close> or behind.\<close>

definition copying :: "nat \<Rightarrow> hashtable_t \<Rightarrow> nat \<Rightarrow> nat \<Rightarrow> map_key_t \<Rightarrow> map_val_t \<Rightarrow> nat \<Rightarrow> bool" where
  "copying b s p i k w d \<longleftrightarrow> core b s \<and> p < d \<and> d < length (ht_store s) \<and> live_at b (ht_store s) k p i \<and>
     tval (ht_store s ! p) i = w \<and> tagged w \<and> (\<forall>r. p < r \<and> r < d \<longrightarrow> passed (ht_store s ! r) k)"

lemma copyingD:
  assumes "copying b s p i k w d"
  shows "core b s" and "chain_ok b (ht_store s)" and "b \<le> p" and "p < d" and "d < length (ht_store s)" and "p < length (ht_store s)"
    and "live_at b (ht_store s) k p i" and "i < tsize (ht_store s ! p)" and "tkey (ht_store s ! p) i = k"
    and "tval (ht_store s ! p) i = w" and "tagged w" and "live w" and "k \<noteq> 0" and "ht_key_type s = None"
    and "slot (ht_store s ! p) k = Some i" and "hti_next (ht_store s ! p) = Some (Suc p)"
    and "\<And>r. b \<le> r \<Longrightarrow> r < d \<Longrightarrow> passed (ht_store s ! r) k"
    and "chain_abs b (ht_store s) k = Some (plain w)"
proof -
  note a = assms [unfolded copying_def]
  show "core b s" "p < d" "d < length (ht_store s)" "live_at b (ht_store s) k p i" "tval (ht_store s ! p) i = w" "tagged w"
    using a by auto
  then show c: "chain_ok b (ht_store s)" "b \<le> p" "p < length (ht_store s)" "i < tsize (ht_store s ! p)"
    "tkey (ht_store s ! p) i = k" "live w" "ht_key_type s = None"
    by (auto simp: core_def live_at_def)
  show "k \<noteq> 0" by (rule live_at_nonzero [OF c(1)]) (use a in blast)
  note P = chain_okD [OF c(1-3)]
  show sl: "slot (ht_store s ! p) k = Some i" using tab_okD(2) [OF P(1) c(4)] c(5) \<open>k \<noteq> 0\<close> by simp
  show "hti_next (ht_store s ! p) = Some (Suc p)" using P(2) a by simp
  show "passed (ht_store s ! r) k" if r: "b \<le> r" "r < d" for r
  proof -
    consider "r < p" | "r = p" | "p < r" by linarith
    then show ?thesis
    proof cases
      case 1
      then have "linked (ht_store s ! r) (ht_store s ! p)" using chain_okD(5) [OF c(1) r(1)] c(3) by simp
      then show ?thesis using c(4,5) \<open>k \<noteq> 0\<close> by (auto simp: linked_def)
    next
      case 2
      then show ?thesis using sl a c(5) by (simp add: passed_def)
    next
      case 3
      then show ?thesis using a r by blast
    qed
  qed
  show "chain_abs b (ht_store s) k = Some (plain w)" unfolding chain_abs_Some [OF c(1)] using a by blast
qed

lemma or_TAG1: "w OR TAG_VALUE 0 TAG1 = TAG_VALUE w TAG1"
  by (simp add: TAG_VALUE_def)

lemma live_tagged_not: "live w \<Longrightarrow> tagged w \<Longrightarrow> w \<noteq> COPIED_VALUE \<and> w \<noteq> TAG_VALUE TOMBSTONE TAG1 \<and> w \<noteq> 0 \<and> w \<noteq> TOMBSTONE"
  by auto

lemma copy_step:
  assumes "copying b s p i k w d" and "h = 0 \<or> h = murmur32_8b k"
  shows "hti_copy_entry p i h (Some d) s = (case slot (ht_store s ! d) k of
      None \<Rightarrow> pbind (if hti_next (ht_store s ! d) = None then hti_start_copy d s else ret s) (\<lambda>s.
        pbind (hti_at s d) (\<lambda>t2. hti_copy_entry p i (murmur32_8b k) (hti_next t2) s))
    | Some j \<Rightarrow>
        let s1 = (if tkey (ht_store s ! d) j = 0 then upd_hti d (\<lambda>t. add_key_count 1 (put_key j k t)) s else s)
        in if tval (ht_store s ! d) j = COPIED_VALUE
           then pbind (hti_at s1 d) (\<lambda>t2. hti_copy_entry p i (murmur32_8b k) (hti_next t2) s1)
           else if tval (ht_store s ! d) j = 0
           then ret (True, upd_hti d (add_count 1) (upd_hti p (add_count (- 1)) (upd_hti p (put_val i COPIED_VALUE)
             (upd_hti d (put_val j (plain w)) s1))))
           else ret (False, upd_hti p (put_val i COPIED_VALUE) s1))"
proof -
  note c = copyingD [OF assms(1)]
  note P = chain_okD [OF c(2,3,6)]
  have bd: "b \<le> d" using c(3,4) by simp
  note D = chain_okD [OF c(2) bd c(5)]
  have sz: "i < 2 ^ hti_scale (ht_store s ! p)" using P(4) c(8) by (simp add: wf_table_def)
  have same: "upd_hti p (put_val i (TAG_VALUE w TAG1)) s = s"
    by (rule upd_hti_same) (simp add: put_val_same c(10) TAG_VALUE_tagged [OF c(11)])
  note w = live_tagged_not [OF c(12,11)]
  have hash: "key_hash_of None k = murmur32_8b k" by (simp add: key_hash_of_def)
  have h: "h = 0 \<or> h = murmur32_8b k \<and> murmur32_8b k \<noteq> 0" using assms(2) by auto
  have w0: "w \<noteq> DOES_NOT_EXIST" using w by (simp add: DOES_NOT_EXIST_def)
  note L = hti_lookup_eq [OF D(4) c(13)]
  show ?thesis
  proof (cases "slot (ht_store s ! d) k")
    case None
    show ?thesis
      apply (subst hti_copy_entry.simps)
      using h c w w0 sz L None
      by (elim disjE conjE) (simp_all add: SYNC_FETCH_AND_OR_def or_TAG1 same Let_def hash)
  next
    case (Some j)
    have j: "j < tsize (ht_store s ! d)" "tkey (ht_store s ! d) j = 0 \<or> tkey (ht_store s ! d) j = k"
      using slotD [OF D(4) Some] by auto
    have upd: "tval (ht_store s ! d) j = v \<Longrightarrow> upd_hti d (put_val j v) s = s"
      "tval (ht_store s ! d) j = v \<Longrightarrow> upd_hti d (put_val j v) (upd_hti d (\<lambda>t. add_key_count 1 (put_key j k t)) s) =
        upd_hti d (\<lambda>t. add_key_count 1 (put_key j k t)) s" for v
      by (rule upd_hti_same, rule put_val_same; use c(5) in simp)+
    show ?thesis
      apply (subst hti_copy_entry.simps)
      using h c w w0 sz L Some j
      by (elim disjE conjE) (simp_all add: SYNC_FETCH_AND_OR_def or_TAG1 same SYNC_CAS_def DOES_NOT_EXIST_def plain_def Let_def hash upd)
  qed
qed

lemma copying_install:
  assumes "copying b s p i k w d" and "slot (ht_store s ! d) k = Some j"
    and "s1 = (if tkey (ht_store s ! d) j = 0 then upd_hti d (\<lambda>t. add_key_count 1 (put_key j k t)) s else s)"
  shows "copying b s1 p i k w d" and "ht_bound b s1 = ht_bound b s" and "frame {} s s1"
    and "slot (ht_store s1 ! d) k = Some j" and "tkey (ht_store s1 ! d) j = k" and "tval (ht_store s1 ! d) j = tval (ht_store s ! d) j"
    and "\<forall>r. r \<noteq> d \<longrightarrow> ht_store s1 ! r = ht_store s ! r" and "length (ht_store s1) = length (ht_store s)"
    and "top_scale s1 = top_scale s"
proof -
  note c = copyingD [OF assms(1)]
  have bd: "b \<le> d" using c(3,4) by simp
  note D = chain_okD [OF c(2) bd c(5)]
  have j: "j < tsize (ht_store s ! d)" using slotD(1) [OF D(4) assms(2)] .
  have "copying b s1 p i k w d \<and> ht_bound b s1 = ht_bound b s \<and> frame {} s s1 \<and> slot (ht_store s1 ! d) k = Some j \<and>
    tkey (ht_store s1 ! d) j = k \<and> tval (ht_store s1 ! d) j = tval (ht_store s ! d) j \<and>
    (\<forall>r. r \<noteq> d \<longrightarrow> ht_store s1 ! r = ht_store s ! r) \<and> length (ht_store s1) = length (ht_store s) \<and> top_scale s1 = top_scale s"
  proof (cases "tkey (ht_store s ! d) j = 0")
    case False
    then show ?thesis using assms slotD(2) [OF D(4) assms(2)] by (simp add: frame_refl)
  next
    case True
    let ?t = "add_key_count 1 (put_key j k (ht_store s ! d))"
    have s1: "s1 = upd_hti d (\<lambda>t. add_key_count 1 (put_key j k t)) s" using True assms(3) by simp
    have ok: "chain_ok b ((ht_store s)[d := ?t])"
      by (rule chain_put_key [OF c(2) bd c(5) assms(2) True c(13) c(17)])
    have core: "core b s1" using c(1) ok by (simp add: s1 core_def)
    moreover have "live_at b (ht_store s1) k p i" using c(4,7) by (simp add: s1 live_at_def)
    moreover have "\<forall>r. r \<noteq> d \<longrightarrow> ht_store s1 ! r = ht_store s ! r" by (simp add: s1)
    ultimately have cp: "copying b s1 p i k w d"
      using assms(1) c(4) by (simp add: copying_def s1)
    have sl: "slot ?t k = Some j"
      using slot_cong [of ?t "put_key j k (ht_store s ! d)" k] slot_put_key_same [OF assms(2) True] by simp
    have fr: "frame {} s s1" unfolding s1 by (rule frame_upd) (use True in \<open>simp add: tab_frame_def\<close>)
    have ab: "ht_bound b s1 = ht_bound b s"
      using chain_abs_put_key [OF c(2) c(5) bd assms(2) True ok] by (simp add: s1)
    have "top_scale s1 = top_scale s" unfolding s1 by (rule top_scale_upd) simp
    then show ?thesis using cp sl fr ab c(5) j by (simp add: s1)
  qed
  then show "copying b s1 p i k w d" "ht_bound b s1 = ht_bound b s" "frame {} s s1" "slot (ht_store s1 ! d) k = Some j"
    "tkey (ht_store s1 ! d) j = k" "tval (ht_store s1 ! d) j = tval (ht_store s ! d) j"
    "\<forall>r. r \<noteq> d \<longrightarrow> ht_store s1 ! r = ht_store s ! r" "length (ht_store s1) = length (ht_store s)" "top_scale s1 = top_scale s"
    by auto
qed

text \<open>What a copy leaves: the invariant, the map, and the entry marked as copied.\<close>

definition copied :: "nat \<Rightarrow> hashtable_t \<Rightarrow> nat \<Rightarrow> nat \<Rightarrow> hashtable_t \<Rightarrow> bool" where
  "copied b s p i s' \<longleftrightarrow> core b s' \<and> ht_bound b s' = ht_bound b s \<and> frame {(p, i)} s s' \<and>
     sealed (tval (ht_store s' ! p) i) \<and> tkey (ht_store s' ! p) i = tkey (ht_store s ! p) i \<and>
     (\<forall>r < p. ht_store s' ! r = ht_store s ! r) \<and> top_scale s' \<le> top_scale s + 1"

lemma copying_finish:
  assumes "copying b s p i k w d" and "j < tsize (ht_store s ! d)" and "tkey (ht_store s ! d) j = k" and "tval (ht_store s ! d) j = 0"
    and "s' = upd_hti d (add_count 1) (upd_hti p (add_count (- 1)) (upd_hti p (put_val i COPIED_VALUE) (upd_hti d (put_val j (plain w)) s)))"
  shows "copied b s p i s'" and "top_scale s' = top_scale s"
proof -
  note c = copyingD [OF assms(1)]
  have bd: "b \<le> d" and pd: "p \<noteq> d" using c(3,4) by auto
  define sa where "sa = upd_hti p (\<lambda>t. add_count (- 1) (put_val i COPIED_VALUE t)) s"
  have s': "s' = upd_hti d (\<lambda>t. add_count 1 (put_val j (plain w) t)) sa"
    using c(5,6) pd unfolding assms(5) sa_def
    by (simp add: upd_hti_commute [of p d] upd_hti_fuse)
  let ?ta = "add_count (- 1) (put_val i COPIED_VALUE (ht_store s ! p))"
  have oka: "chain_ok b ((ht_store s)[p := ?ta])"
    by (rule chain_put_val [OF c(2,3,6,8)]) (use c in auto)
  have aba: "chain_abs b ((ht_store s)[p := ?ta]) = (ht_bound b s)(k := None)"
    using chain_abs_put_val [OF c(2,3,6,8) oka c(9)] live_at_unique [OF c(2) _ c(7)] by simp
  have da: "ht_store sa ! d = ht_store s ! d" and la: "length (ht_store sa) = length (ht_store s)"
    and sta: "ht_store sa = (ht_store s)[p := ?ta]"
    using pd by (simp_all add: sa_def)
  have nolive: "\<not> live_at b (ht_store sa) k r x" for r x
    using chain_abs_None [OF oka, of k] aba by (simp add: sta)
  let ?tb = "add_count 1 (put_val j (plain w) (ht_store sa ! d))"
  have dj: "d < length (ht_store sa)" "j < tsize (ht_store sa ! d)" "tkey (ht_store sa ! d) j = k"
    using assms(2,3) c(5) by (simp_all add: da la)
  have oksa: "chain_ok b (ht_store sa)" using oka by (simp add: sta)
  have okb: "chain_ok b ((ht_store sa)[d := ?tb])"
    by (rule chain_put_val [OF oksa bd dj(1,2)]) (use c assms(4) nolive dj(3) in \<open>auto simp: da\<close>)
  have "chain_abs b ((ht_store sa)[d := ?tb]) = (chain_abs b (ht_store sa))(k := Some (plain w))"
    using chain_abs_put_val [OF oksa bd dj(1,2) okb dj(3)] nolive c(12) by (simp add: plain_untagged)
  then have ab: "ht_bound b s' = ht_bound b s"
    using aba c(18) by (auto simp: s' sta)
  have fr: "frame {(p, i)} s s'"
  proof (rule frame_trans)
    show "frame {(p, i)} s sa" unfolding sa_def by (rule frame_upd) (simp add: tab_frame_def)
    have "tab_frame {} (ht_store sa ! d) ?tb"
      using assms(4) sealed_tagged [of "plain w"] by (auto simp: tab_frame_def da)
    then show "frame {} sa s'" unfolding s' by (intro frame_upd) simp
  qed (use c(6) in auto)
  have core: "core b s'" using c(1) okb by (simp add: s' core_def sa_def)
  show top: "top_scale s' = top_scale s"
    unfolding s' sa_def by (simp add: top_scale_upd)
  have "tval (ht_store s' ! p) i = COPIED_VALUE" "tkey (ht_store s' ! p) i = tkey (ht_store s ! p) i"
    "\<forall>r < p. ht_store s' ! r = ht_store s ! r"
    using c pd by (auto simp: s' sa_def)
  then show "copied b s p i s'" using core ab fr top by (simp add: copied_def)
qed

lemma copying_next:
  assumes "copying b s p i k w d" and "passed (ht_store s ! d) k" and "Suc d < length (ht_store s)"
  shows "copying b s p i k w (Suc d)"
  using assms unfolding copying_def by (auto simp: less_Suc_eq)

lemma copied_from:
  assumes "copied b s1 p i s'" and "ht_bound b s1 = ht_bound b s" and "frame {} s s1" and "p < length (ht_store s)"
    and "tkey (ht_store s1 ! p) i = tkey (ht_store s ! p) i" and "\<forall>r < p. ht_store s1 ! r = ht_store s ! r"
    and "top_scale s' \<le> top_scale s + 1"
  shows "copied b s p i s'"
proof -
  have "frame {(p, i)} s s'"
    by (rule frame_trans [OF assms(3)]) (use assms(1,4) in \<open>auto simp: copied_def\<close>)
  then show ?thesis using assms by (simp add: copied_def)
qed

text \<open>The recursion of \<^verbatim>\<open>hti_copy_entry\<close> along the chain ends: a table that was just allocated
  has room.\<close>

lemma copying_fresh:
  assumes "copying b s p i k w d" and "h = 0 \<or> h = murmur32_8b k" and "blank_table (ht_store s ! d)"
  shows "\<exists>s'. hti_copy_entry p i h (Some d) s = ret (True, s') \<and> copied b s p i s' \<and> top_scale s' = top_scale s"
proof -
  note c = copyingD [OF assms(1)]
  have bd: "b \<le> d" using c(3,4) by simp
  note D = chain_okD [OF c(2) bd c(5)]
  have blank: "hti_table (ht_store s ! d) ! x = \<lparr>ent_key = 0, ent_val = 0\<rparr>" if "x < tsize (ht_store s ! d)" for x
    using assms(3) that by (simp add: blank_table_def)
  obtain j where j: "slot (ht_store s ! d) k = Some j" using slot_exists [OF D(4), of k] blank by auto
  have jl: "j < tsize (ht_store s ! d)" using slotD(1) [OF D(4) j] .
  have bj: "tkey (ht_store s ! d) j = 0" "tval (ht_store s ! d) j = 0" using blank [OF jl] by simp_all
  define s1 where "s1 = upd_hti d (\<lambda>t. add_key_count 1 (put_key j k t)) s"
  have s1: "s1 = (if tkey (ht_store s ! d) j = 0 then upd_hti d (\<lambda>t. add_key_count 1 (put_key j k t)) s else s)"
    using bj by (simp add: s1_def)
  note I = copying_install [OF assms(1) j s1]
  define s' where "s' = upd_hti d (add_count 1) (upd_hti p (add_count (- 1)) (upd_hti p (put_val i COPIED_VALUE) (upd_hti d (put_val j (plain w)) s1)))"
  have jl1: "j < tsize (ht_store s1 ! d)" using slotD(1) [OF _ I(4)] chain_okD(4) [OF copyingD(2) [OF I(1)] bd] c(5) I(8) by simp
  have F: "copied b s1 p i s'" "top_scale s' = top_scale s1"
    using copying_finish [OF I(1) jl1 I(5) _ s'_def] I(6) bj by simp_all
  have "hti_copy_entry p i h (Some d) s = ret (True, s')"
    using copy_step [OF assms(1,2)] j bj by (simp add: Let_def s1_def [symmetric] s'_def)
  moreover have "copied b s p i s'"
    by (rule copied_from [OF F(1) I(2,3) c(6)]) (use I(7,9) F(2) c(4) in auto)
  ultimately show ?thesis using F(2) I(9) by auto
qed

lemma copy_in_progress:
  assumes "copying b s p i k w d" and "h = 0 \<or> h = murmur32_8b k" and "top_scale s \<le> 29"
  shows "\<exists>s'. hti_copy_entry p i h (Some d) s = ret (True, s') \<and> copied b s p i s'"
  using assms
proof (induction "length (ht_store s) - d" arbitrary: d s h rule: less_induct)
  case less
  note c = copyingD [OF less.prems(1)]
  have bd: "b \<le> d" using c(3,4) by simp
  note D = chain_okD [OF c(2) bd c(5)]
  note step = copy_step [OF less.prems(1,2)]
  show ?case
  proof (cases "slot (ht_store s ! d) k")
    case None
    then have pass: "passed (ht_store s ! d) k" by (simp add: passed_def)
    show ?thesis
    proof (cases "Suc d < length (ht_store s)")
      case True
      have "\<exists>s'. hti_copy_entry p i (murmur32_8b k) (Some (Suc d)) s = ret (True, s') \<and> copied b s p i s'"
        by (rule less.hyps [OF _ copying_next [OF less.prems(1) pass True]]) (use True less.prems(3) in auto)
      then show ?thesis using step None D(2) True c(5) by simp
    next
      case False
      then have last: "Suc d = length (ht_store s)" using c(5) by simp
      then have "last (ht_store s) = ht_store s ! d"
        using last_conv_nth [of "ht_store s"] by (cases "ht_store s") auto
      then have sc: "hti_scale (ht_store s ! d) \<le> 29" using less.prems(3) by (simp add: top_scale_def)
      obtain s1 t where s1: "hti_start_copy d s = ret s1" "ht_store s1 = (ht_store s)[d := (ht_store s ! d)\<lparr>hti_next := Some (Suc d)\<rparr>] @ [t]"
        "blank_table t" "core b s1" "ht_bound b s1 = ht_bound b s" "frame {} s s1" "top_scale s1 \<le> top_scale s + 1"
        using hti_start_copy_ok [OF c(1) last sc] by blast
      have nth: "ht_store s1 ! Suc d = t" "ht_store s1 ! d = (ht_store s ! d)\<lparr>hti_next := Some (Suc d)\<rparr>"
        "\<And>r. r < d \<Longrightarrow> ht_store s1 ! r = ht_store s ! r" "length (ht_store s1) = Suc (Suc d)"
        using s1(2) last by (auto simp: nth_append)
      have "live_at b (ht_store s1) k p i" using c(4,7) nth by (simp add: live_at_def)
      moreover have "passed (ht_store s1 ! r) k" if "p < r" "r < Suc d" for r
        using that c(3,17) nth(2,3) pass None by (cases "r = d") (auto simp: passed_def set_next_facts)
      ultimately have cp: "copying b s1 p i k w (Suc d)"
        using s1(4) c(4,10,11) nth by (simp add: copying_def)
      obtain s' where s': "hti_copy_entry p i (murmur32_8b k) (Some (Suc d)) s1 = ret (True, s')" "copied b s1 p i s'"
        "top_scale s' = top_scale s1"
        using copying_fresh [OF cp, of "murmur32_8b k"] nth(1) s1(3) by auto
      have "copied b s p i s'"
        by (rule copied_from [OF s'(2) s1(5,6) c(6)]) (use nth(3) c(4) s'(3) s1(7) in auto)
      moreover have "hti_copy_entry p i h (Some d) s = ret (True, s')"
        using step None D(2) last s1(1) s'(1) nth(2,4) by simp
      ultimately show ?thesis by blast
    qed
  next
    case (Some j)
    define s1 where "s1 = (if tkey (ht_store s ! d) j = 0 then upd_hti d (\<lambda>t. add_key_count 1 (put_key j k t)) s else s)"
    note I = copying_install [OF less.prems(1) Some s1_def]
    have jl: "j < tsize (ht_store s ! d)" using slotD(1) [OF D(4) Some] .
    have jl1: "j < tsize (ht_store s1 ! d)" using jl c(5) by (simp add: s1_def)
    have lift: "copied b s p i s'" if "copied b s1 p i s'" for s'
      by (rule copied_from [OF that I(2,3) c(6)]) (use that I(7,9) c(4) in \<open>auto simp: copied_def\<close>)
    have "virgin (tval (ht_store s ! d) j)"
      using tab_okD(3) [OF D(1) jl] live_at_later [OF c(2,7,4,5) jl] slotD(2) [OF D(4) Some] by blast
    then show ?thesis
    proof
      assume v: "tval (ht_store s ! d) j = 0"
      then show ?thesis
        using step Some copying_finish(1) [OF I(1) jl1 I(5) _ refl] I(6) lift
        by (simp add: Let_def s1_def [symmetric])
    next
      assume v: "tval (ht_store s ! d) j = COPIED_VALUE"
      then have lt: "Suc d < length (ht_store s)" using D(3) [OF jl] by simp
      have pass: "passed (ht_store s1 ! d) k" using I(4,5,6) v by (simp add: passed_def)
      have lt1: "Suc d < length (ht_store s1)" using lt I(8) by simp
      have nx: "hti_next (ht_store s1 ! d) = Some (Suc d)"
        using chain_okD(2) [OF copyingD(2) [OF I(1)] bd] lt1 by simp
      obtain s' where s': "hti_copy_entry p i (murmur32_8b k) (Some (Suc d)) s1 = ret (True, s')" "copied b s1 p i s'"
        using less.hyps [OF _ copying_next [OF I(1) pass lt1], of "murmur32_8b k"] lt I(8,9) less.prems(3) diff_less_mono2 [of d "Suc d"] by auto
      then show ?thesis
        using step Some v nx lt1 lift by (simp add: Let_def s1_def [symmetric])
    qed
  qed
qed
text \<open>\<^verbatim>\<open>hti_copy_entry\<close> on any entry of a table behind which another is linked.\<close>

lemma copied_put_val:
  assumes "core b s" and "b \<le> p" and "Suc p < length (ht_store s)" and "i < tsize (ht_store s ! p)" and "sealed v"
    and "\<not> live (tval (ht_store s ! p) i)" and "tkey (ht_store s ! p) i = 0 \<Longrightarrow> v = COPIED_VALUE"
    and "\<And>r x. r < p \<Longrightarrow> live_at b (ht_store s) (tkey (ht_store s ! p) i) r x \<Longrightarrow> v = COPIED_VALUE"
  shows "copied b s p i (upd_hti p (put_val i v) s)"
proof -
  have p: "chain_ok b (ht_store s)" "p < length (ht_store s)" using assms(1,3) by (auto simp: core_def)
  have t: "add_count 0 (put_val i v (ht_store s ! p)) = put_val i v (ht_store s ! p)" by simp
  have ok: "chain_ok b ((ht_store s)[p := add_count 0 (put_val i v (ht_store s ! p))])"
    by (rule chain_put_val [OF p(1) assms(2) p(2) assms(4)])
      (use assms sealed_tagged [OF assms(5)] sealed_not_live [OF assms(5)] in auto)
  have "frame {(p, i)} s (upd_hti p (put_val i v) s)" by (rule frame_upd) (simp add: tab_frame_def)
  moreover have "ht_bound b (upd_hti p (put_val i v) s) = ht_bound b s"
    using chain_abs_put_val_same [OF p ok] assms(6) sealed_not_live [OF assms(5)] by simp
  moreover have "core b (upd_hti p (put_val i v) s)" using assms(1) ok by (simp add: core_def)
  moreover have "top_scale (upd_hti p (put_val i v) s) = top_scale s" by (rule top_scale_upd) simp
  ultimately show ?thesis using assms(4,5) p by (simp add: copied_def)
qed

lemma copy_tags_first:
  assumes "core b s" and "b \<le> p" and "Suc p < length (ht_store s)" and "i < tsize (ht_store s ! p)"
    and "live (tval (ht_store s ! p) i)" and "\<not> tagged (tval (ht_store s ! p) i)"
    and "s1 = upd_hti p (put_val i (TAG_VALUE (tval (ht_store s ! p) i) TAG1)) s"
  shows "hti_copy_entry p i 0 (Some (Suc p)) s = hti_copy_entry p i 0 (Some (Suc p)) s1"
    and "copying b s1 p i (tkey (ht_store s ! p) i) (TAG_VALUE (tval (ht_store s ! p) i) TAG1) (Suc p)"
    and "ht_bound b s1 = ht_bound b s" and "frame {(p, i)} s s1" and "top_scale s1 = top_scale s"
proof -
  let ?v = "tval (ht_store s ! p) i"
  let ?w = "TAG_VALUE ?v TAG1"
  have p: "chain_ok b (ht_store s)" "p < length (ht_store s)" using assms(1,3) by (auto simp: core_def)
  note P = chain_okD [OF p(1) assms(2) p(2)]
  have la: "live_at b (ht_store s) (tkey (ht_store s ! p) i) p i" using assms p by (simp add: live_at_def)
  have key: "tkey (ht_store s ! p) i \<noteq> 0" by (rule live_at_nonzero [OF p(1) la])
  have ok: "chain_ok b ((ht_store s)[p := add_count 0 (put_val i ?w (ht_store s ! p))])"
    by (rule chain_put_val [OF p(1) assms(2) p(2) assms(4)])
      (use assms(3,5) key live_at_unique [OF p(1) _ la] in auto)
  show "ht_bound b s1 = ht_bound b s" using chain_abs_put_val_same [OF p ok] by (simp add: assms(7))
  show "frame {(p, i)} s s1" unfolding assms(7) by (rule frame_upd) (simp add: tab_frame_def)
  show "top_scale s1 = top_scale s" unfolding assms(7) by (rule top_scale_upd) simp
  have "core b s1" using assms(1) ok by (simp add: core_def assms(7))
  then show "copying b s1 p i (tkey (ht_store s ! p) i) ?w (Suc p)"
    using assms(2-5) p by (auto simp: copying_def assms(7) live_at_def)
  have sz: "i < 2 ^ hti_scale (ht_store s ! p)" using P(4) assms(4) by (simp add: wf_table_def)
  have nx: "hti_next (ht_store s ! p) = Some (Suc p)" using P(2) assms(3) by simp
  have v: "?v \<noteq> COPIED_VALUE" "?v \<noteq> TAG_VALUE TOMBSTONE TAG1" "?v \<noteq> DOES_NOT_EXIST" "?v \<noteq> TOMBSTONE"
    using assms(5,6) by (auto simp: DOES_NOT_EXIST_def)
  have w: "?w \<noteq> COPIED_VALUE" "?w \<noteq> TAG_VALUE TOMBSTONE TAG1" "?w \<noteq> DOES_NOT_EXIST" "?w \<noteq> TOMBSTONE"
    using live_tagged_not [of ?w] assms(5) by (auto simp: DOES_NOT_EXIST_def)
  have strip: "STRIP_TAG ?w TAG1 = STRIP_TAG ?v TAG1" using plain_TAG_VALUE [of ?v] by (simp only: plain_def)
  have same: "upd_hti p (put_val i ?w) s1 = s1"
    by (rule upd_hti_same, rule put_val_same) (use p(2) assms(4) in \<open>simp add: assms(7)\<close>)
  have s1: "ht_store s1 ! p = put_val i ?w (ht_store s ! p)" "p < length (ht_store s1)" "ht_key_type s1 = None"
    using p(2) assms(1) by (simp_all add: assms(7) core_def)
  have kt: "ht_key_type s = None" using assms(1) by (simp add: core_def)
  show "hti_copy_entry p i 0 (Some (Suc p)) s = hti_copy_entry p i 0 (Some (Suc p)) s1"
    apply (rule trans [OF hti_copy_entry.simps], rule sym, rule trans [OF hti_copy_entry.simps])
    using p(2) nx sz assms(4) v w
    apply (simp add: SYNC_FETCH_AND_OR_def or_TAG1 s1 kt assms(7) [symmetric] same del: upd_hti_sel)
    unfolding strip by (rule refl)
qed


lemma hti_copy_entry_ok:
  assumes "core b s" and "b \<le> p" and "Suc p < length (ht_store s)" and "i < tsize (ht_store s ! p)" and "top_scale s \<le> 29"
  shows "\<exists>s'. hti_copy_entry p i 0 (Some (Suc p)) s = ret (\<not> sealed (tval (ht_store s ! p) i), s') \<and> copied b s p i s'"
proof -
  let ?v = "tval (ht_store s ! p) i"
  have p: "chain_ok b (ht_store s)" "p < length (ht_store s)" using assms(1,3) by (auto simp: core_def)
  note P = chain_okD [OF p(1) assms(2) p(2)]
  have sz: "i < 2 ^ hti_scale (ht_store s ! p)" using P(4) assms(4) by (simp add: wf_table_def)
  have nx: "hti_next (ht_store s ! p) = Some (Suc p)" using P(2) assms(3) by simp
  have key: "tkey (ht_store s ! p) i = 0 \<Longrightarrow> virgin ?v" using tab_okD(3) [OF P(1) assms(4)] .
  consider "sealed ?v" | "?v = 0" | "?v = TOMBSTONE" | "live ?v" "tagged ?v" | "live ?v" "\<not> tagged ?v"
    using tagged_live_or_sealed live_untagged by blast
  then show ?thesis
  proof cases
    case 1
    then have "hti_copy_entry p i 0 (Some (Suc p)) s = ret (False, s)"
      using p(2) nx sz assms(4) by (subst hti_copy_entry.simps) (auto simp: sealed_def)
    moreover have "copied b s p i s" using assms(1) 1 by (simp add: copied_def frame_refl)
    ultimately show ?thesis using 1 by auto
  next
    case 2
    then have "hti_copy_entry p i 0 (Some (Suc p)) s = ret (True, upd_hti p (put_val i COPIED_VALUE) s)"
      using p(2) nx sz assms(4) by (subst hti_copy_entry.simps) (simp add: SYNC_CAS_def DOES_NOT_EXIST_def)
    moreover have "copied b s p i (upd_hti p (put_val i COPIED_VALUE) s)"
      by (rule copied_put_val [OF assms(1-4)]) (use 2 in auto)
    ultimately show ?thesis using 2 by simp
  next
    case 3
    have "hti_copy_entry p i 0 (Some (Suc p)) s = ret (True, upd_hti p (put_val i (TAG_VALUE TOMBSTONE TAG1)) s)"
      using p(2) nx sz assms(4) 3 sealed_def [of TOMBSTONE]
      by (subst hti_copy_entry.simps) (simp add: SYNC_FETCH_AND_OR_def or_TAG1 DOES_NOT_EXIST_def)
    moreover have "copied b s p i (upd_hti p (put_val i (TAG_VALUE TOMBSTONE TAG1)) s)"
    proof (rule copied_put_val [OF assms(1-4)])
      show "TAG_VALUE TOMBSTONE TAG1 = COPIED_VALUE" if "tkey (ht_store s ! p) i = 0" using key that 3 by simp
      show "TAG_VALUE TOMBSTONE TAG1 = COPIED_VALUE" if "r < p" "live_at b (ht_store s) (tkey (ht_store s ! p) i) r x" for r x
        using live_at_later [OF p(1) that(2,1) p(2) assms(4)] 3 by simp
    qed (use 3 in \<open>auto simp: sealed_def\<close>)
    ultimately show ?thesis using 3 by simp
  next
    case 4
    then have "copying b s p i (tkey (ht_store s ! p) i) ?v (Suc p)"
      using assms(1-4) by (auto simp: copying_def live_at_def)
    from copy_in_progress [OF this _ assms(5), of 0] show ?thesis using 4 sealed_not_live by auto
  next
    case 5
    define s1 where "s1 = upd_hti p (put_val i (TAG_VALUE ?v TAG1)) s"
    note T = copy_tags_first [OF assms(1-4) 5 s1_def]
    obtain s' where s': "hti_copy_entry p i 0 (Some (Suc p)) s1 = ret (True, s')" "copied b s1 p i s'"
      using copy_in_progress [OF T(2), of 0] T(5) assms(5) by auto
    have "frame {(p, i)} s s'"
      by (rule frame_trans [OF T(4)]) (use s'(2) p(2) in \<open>auto simp: copied_def\<close>)
    moreover have "tkey (ht_store s1 ! p) i = tkey (ht_store s ! p) i" "\<forall>r < p. ht_store s1 ! r = ht_store s ! r"
      using p(2) by (simp_all add: s1_def)
    ultimately have "copied b s p i s'" using s'(2) T(3,5) by (simp add: copied_def)
    then show ?thesis using T(1) s'(1) 5 sealed_not_live by auto
  qed
qed

end
