(* ===== verification/Hashtable_Ops.thy ===== *)
theory Hashtable_Ops
  imports Hashtable_Chain
begin

text \<open>
  The operations of \<^verbatim>\<open>src/src/map/hashtable.c\<close> on a chain of tables in any stage of copying:
  \<^verbatim>\<open>hti_help_copy\<close>, \<^verbatim>\<open>hti_get\<close>, \<^verbatim>\<open>hti_cas\<close> and what is built on them.
\<close>

section \<open>Progress of a copy\<close>

definition nsealed :: "hti \<Rightarrow> nat" where
  "nsealed t = card {i. i < tsize t \<and> sealed (tval t i)}"

text \<open>An entry whose copy has begun and is not finished.\<close>

definition pending :: "hti \<Rightarrow> nat \<Rightarrow> bool" where
  "pending t i \<longleftrightarrow> tagged (tval t i) \<and> \<not> sealed (tval t i)"

text \<open>The counters of a table: \<^verbatim>\<open>num_entries_copied\<close> is the number of entries whose copy is finished,
  and the second pass of \<^verbatim>\<open>copy_scan\<close> leaves only such entries behind it.\<close>

definition prog_ok :: "hti \<Rightarrow> bool" where
  "prog_ok t \<longleftrightarrow> hti_num_entries_copied t = of_nat (nsealed t) \<and> 8 dvd unat (hti_copy_scan t) \<and>
     unat (hti_copy_scan t) \<le> 2 * tsize t \<and> (\<forall>i < tsize t. i + tsize t < unat (hti_copy_scan t) \<longrightarrow> sealed (tval t i))"

text \<open>How a table may change in an operation that leaves no copy half done.\<close>

definition tab_settled :: "hti \<Rightarrow> hti \<Rightarrow> bool" where
  "tab_settled t u \<longleftrightarrow> hti_ref_count u = hti_ref_count t \<and> tsize u = tsize t \<and> hti_scale u = hti_scale t \<and>
     (\<forall>i < tsize t. tkey t i \<noteq> 0 \<longrightarrow> tkey u i = tkey t i) \<and>
     (prog_ok t \<longrightarrow> prog_ok u) \<and> (\<forall>i < tsize t. pending u i \<longrightarrow> pending t i) \<and>
     (\<forall>i < tsize t. sealed (tval t i) \<longrightarrow> sealed (tval u i))"

definition settled :: "nat \<Rightarrow> hashtable_t \<Rightarrow> hashtable_t \<Rightarrow> bool" where
  "settled b s s' \<longleftrightarrow> core b s' \<and> ht_hti s' = ht_hti s \<and> ht_deferred s' = ht_deferred s \<and>
     length (ht_store s) \<le> length (ht_store s') \<and>
     (\<forall>r < length (ht_store s). tab_settled (ht_store s ! r) (ht_store s' ! r)) \<and>
     (\<forall>r < length (ht_store s'). length (ht_store s) \<le> r \<longrightarrow>
        prog_ok (ht_store s' ! r) \<and> hti_ref_count (ht_store s' ! r) = 1 \<and> (\<forall>i < tsize (ht_store s' ! r). \<not> pending (ht_store s' ! r) i))"

lemma tab_settled_refl: "tab_settled t t"
  by (simp add: tab_settled_def)

lemma tab_settled_trans: "tab_settled t u \<Longrightarrow> tab_settled u v \<Longrightarrow> tab_settled t v"
  unfolding tab_settled_def by auto

lemma settled_refl: "core b s \<Longrightarrow> settled b s s"
  by (simp add: settled_def tab_settled_refl)

lemma settled_trans:
  assumes "settled b s s'" and "settled b s' s''"
  shows "settled b s s''"
proof -
  have "tab_settled (ht_store s ! r) (ht_store s'' ! r)" if "r < length (ht_store s)" for r
    by (rule tab_settled_trans [of _ "ht_store s' ! r"]) (use assms that in \<open>auto simp: settled_def\<close>)
  moreover have "prog_ok (ht_store s'' ! r) \<and> hti_ref_count (ht_store s'' ! r) = 1 \<and> (\<forall>i < tsize (ht_store s'' ! r). \<not> pending (ht_store s'' ! r) i)"
    if r: "r < length (ht_store s'')" "length (ht_store s) \<le> r" for r
  proof (cases "r < length (ht_store s')")
    case True
    then have "tab_settled (ht_store s' ! r) (ht_store s'' ! r)" using assms(2) by (simp add: settled_def)
    then show ?thesis using assms(1) r True by (auto simp: settled_def tab_settled_def)
  qed (use assms(2) r in \<open>auto simp: settled_def\<close>)
  ultimately show ?thesis using assms by (auto simp: settled_def)
qed

lemma nsealed_cong:
  assumes "tsize u = tsize t" and "\<And>i. i < tsize t \<Longrightarrow> sealed (tval u i) = sealed (tval t i)"
  shows "nsealed u = nsealed t"
  unfolding nsealed_def using assms by (metis (mono_tags, lifting))

lemma prog_ok_frame: "prog_ok t \<Longrightarrow> tab_frame {} t u \<Longrightarrow> prog_ok u"
  using nsealed_cong [of u t] unfolding prog_ok_def tab_frame_def by auto

lemma tab_frame_settled: "tab_frame {} t u \<Longrightarrow> tab_settled t u"
  using prog_ok_frame [of t u] by (auto simp: tab_settled_def tab_frame_def pending_def)

lemma fresh_prog_ok:
  assumes "fresh_table t"
  shows "prog_ok t"
proof -
  have "nsealed t = 0" using assms sealed_tagged by (auto simp: nsealed_def fresh_table_def)
  then show ?thesis using assms by (simp add: prog_ok_def fresh_table_def)
qed

lemma frame_settled:
  assumes "frame {} s s'" and "core b s'"
  shows "settled b s s'"
  using assms tab_frame_settled fresh_prog_ok unfolding settled_def frame_def
  by (auto simp: fresh_table_def pending_def)

text \<open>One entry is sealed and the counter follows.\<close>

lemma nsealed_one:
  assumes "tab_frame {i} t u" and "i < tsize t" and "sealed (tval u i)"
  shows "nsealed u = nsealed t + of_bool (\<not> sealed (tval t i))"
proof -
  let ?A = "{x. x < tsize t \<and> x \<noteq> i \<and> sealed (tval t x)}"
  have "{x. x < tsize u \<and> sealed (tval u x)} = insert i ?A"
    using assms by (auto simp: tab_frame_def)
  moreover have "{x. x < tsize t \<and> sealed (tval t x)} = (if sealed (tval t i) then insert i ?A else ?A)"
    using assms(2) by auto
  ultimately show ?thesis by (simp add: nsealed_def)
qed

text \<open>Stores to the counters of a table concern neither the chain nor the map.\<close>

lemma core_upd_counters:
  assumes "core b s" and "p < length (ht_store s)" and "u = f (ht_store s ! p)" and "hti_table u = hti_table (ht_store s ! p)"
    and "hti_scale u = hti_scale (ht_store s ! p)" and "hti_probe u = hti_probe (ht_store s ! p)" and "hti_next u = hti_next (ht_store s ! p)"
    and "hti_count u = hti_count (ht_store s ! p)" and "hti_key_count u = hti_key_count (ht_store s ! p)"
  shows "core b (upd_hti p f s)" and "ht_bound b (upd_hti p f s) = ht_bound b s"
proof -
  have sl: "slot u k = slot (ht_store s ! p) k" for k by (rule slot_cong) (simp_all add: assms(4-6))
  have ps: "passed u k = passed (ht_store s ! p) k" for k by (simp add: passed_def sl assms(4) split: option.split)
  have f: "tab_ok u = tab_ok (ht_store s ! p)" "linked u y = linked (ht_store s ! p) y" "linked y u = linked y (ht_store s ! p)" for y
    by (simp_all add: tab_ok_def wf_table_def sl linked_def ps assms(4-9))
  have cs: "chain_ok b (ht_store s)" using assms(1) by (simp add: core_def)
  have "chain_ok b ((ht_store s)[p := u])"
  proof (cases "b \<le> p")
    case True
    show ?thesis
      by (rule chain_ok_update [OF cs True assms(2)])
        (use chain_okD [OF cs True assms(2)] chain_okD(5) [OF cs] assms(2) in \<open>auto simp: f assms(4,7)\<close>)
  next
    case False
    then show ?thesis using cs by (auto simp: chain_ok_def)
  qed
  then show "core b (upd_hti p f s)" using assms(1,3) by (simp add: core_def)
  have "bindings u = bindings (ht_store s ! p)" by (simp add: bindings_def assms(4))
  then have "map bindings ((ht_store s)[p := u]) = map bindings (ht_store s)"
    by (metis list_update_id map_update)
  then have "map bindings (drop b ((ht_store s)[p := u])) = map bindings (drop b (ht_store s))"
    by (metis drop_map)
  then show "ht_bound b (upd_hti p f s) = ht_bound b s" using assms(3) by (simp add: chain_abs_def)
qed

lemma core_upd_copied:
  assumes "core b s" and "p < length (ht_store s)" and "s1 = upd_hti p (add_copied n) s"
  shows "core b s1" and "ht_bound b s1 = ht_bound b s"
  using core_upd_counters [OF assms(1,2) refl, of "add_copied n"] assms(3) by simp_all

lemma settled_copied:
  assumes "copied b s p i s'" and "p < length (ht_store s)" and "i < tsize (ht_store s ! p)" and "pending (ht_store s ! p) i"
  shows "settled b s (upd_hti p (add_copied 1) s')" and "ht_bound b (upd_hti p (add_copied 1) s') = ht_bound b s"
    and "core b (upd_hti p (add_copied 1) s')"
proof -
  let ?t = "ht_store s ! p" and ?u = "ht_store s' ! p"
  note c = assms(1) [unfolded copied_def frame_def]
  have len: "p < length (ht_store s')" using c assms(2) by simp
  have fr: "tab_frame {i} ?t ?u" using c assms(2) by auto
  have n: "nsealed ?u = nsealed ?t + 1"
    using nsealed_one [OF fr assms(3)] c assms(4) by (simp add: pending_def)
  have "core b s'" using c by simp
  note U = core_upd_copied [OF this len refl, of 1]
  show core: "core b (upd_hti p (add_copied 1) s')" by (rule U(1))
  show "ht_bound b (upd_hti p (add_copied 1) s') = ht_bound b s" using U(2) c by simp
  have pr: "prog_ok (add_copied 1 ?u)" if "prog_ok ?t"
  proof -
    have "nsealed (add_copied 1 ?u) = nsealed ?u" by (simp add: nsealed_def)
    then show ?thesis using that fr n c unfolding prog_ok_def tab_frame_def by (auto simp: add.commute)
  qed
  have pe: "pending (add_copied 1 ?u) x \<Longrightarrow> pending ?t x" if "x < tsize ?t" for x
    using that fr c by (cases "x = i") (auto simp: pending_def tab_frame_def)
  have se: "sealed (tval ?u x)" if "x < tsize ?t" "sealed (tval ?t x)" for x
    using that fr c by (cases "x = i") (auto simp: tab_frame_def)
  have tp: "tab_settled ?t (add_copied 1 ?u)"
    using fr pr pe se by (auto simp: tab_settled_def tab_frame_def c)
  have "tab_settled (ht_store s ! r) (ht_store (upd_hti p (add_copied 1) s') ! r)" if "r < length (ht_store s)" for r
  proof (cases "r = p")
    case True
    then show ?thesis using tp len by simp
  next
    case False
    then have "tab_frame {} (ht_store s ! r) (ht_store s' ! r)" using c that by auto
    then show ?thesis using False tab_frame_settled by simp
  qed
  moreover have "let u = ht_store (upd_hti p (add_copied 1) s') ! r in prog_ok u \<and> hti_ref_count u = 1 \<and> (\<forall>x < tsize u. \<not> pending u x)"
    if "r < length (ht_store s')" "length (ht_store s) \<le> r" for r
  proof -
    have "ht_store (upd_hti p (add_copied 1) s') ! r = ht_store s' ! r" "fresh_table (ht_store s' ! r)"
      using assms(2) that c by auto
    then show ?thesis using fresh_prog_ok by (simp add: fresh_table_def pending_def del: upd_hti_sel)
  qed
  ultimately show "settled b s (upd_hti p (add_copied 1) s')"
    using core c by (simp add: settled_def Let_def)
qed

section \<open>Helping with a copy\<close>

lemma frame_tab: "frame E s s' \<Longrightarrow> r < length (ht_store s) \<Longrightarrow> tab_frame {i. (r, i) \<in> E} (ht_store s ! r) (ht_store s' ! r)"
  by (simp add: frame_def)

lemma hti_copy_chunk_ok:
  assumes "core b s" and "b \<le> p" and "Suc p < length (ht_store s)" and "i + n \<le> tsize (ht_store s ! p)" and "top_scale s + n \<le> 30"
  shows "\<exists>s' c. hti_copy_chunk p n i m s = ret (m + of_nat c, s') \<and> core b s' \<and> ht_bound b s' = ht_bound b s \<and>
    frame ({p} \<times> {i..<i + n}) s s' \<and> (\<forall>x \<in> {i..<i + n}. sealed (tval (ht_store s' ! p) x)) \<and>
    nsealed (ht_store s' ! p) = nsealed (ht_store s ! p) + c \<and> top_scale s' \<le> top_scale s + n"
  using assms
proof (induction n arbitrary: i m s)
  case 0
  then show ?case by (intro exI [of _ s] exI [of _ 0]) (simp add: frame_refl)
next
  case (Suc n)
  let ?t = "ht_store s ! p"
  have p: "p < length (ht_store s)" "chain_ok b (ht_store s)" using Suc.prems(1,3) by (auto simp: core_def)
  note P = chain_okD [OF p(2) Suc.prems(2) p(1)]
  have i: "i < tsize ?t" using Suc.prems(4) by simp
  obtain s1 where s1: "hti_copy_entry p i 0 (Some (Suc p)) s = ret (\<not> sealed (tval ?t i), s1)" "copied b s p i s1"
    using hti_copy_entry_ok [OF Suc.prems(1-3) i] Suc.prems(5) by auto
  note c1 = s1(2) [unfolded copied_def]
  have fr1: "tab_frame {i} ?t (ht_store s1 ! p)" using c1 p(1) by (auto simp: frame_def)
  have sz1: "tsize (ht_store s1 ! p) = tsize ?t" using fr1 by (simp add: tab_frame_def)
  have n1: "nsealed (ht_store s1 ! p) = nsealed ?t + of_bool (\<not> sealed (tval ?t i))"
    by (rule nsealed_one [OF fr1 i]) (use c1 in blast)
  have len1: "Suc p < length (ht_store s1)" using c1 Suc.prems(3) by (simp add: frame_def)
  obtain s' c where s': "hti_copy_chunk p n (Suc i) (m + of_bool (\<not> sealed (tval ?t i))) s1 =
      ret (m + of_bool (\<not> sealed (tval ?t i)) + of_nat c, s')" "core b s'" "ht_bound b s' = ht_bound b s1"
    "frame ({p} \<times> {Suc i..<Suc i + n}) s1 s'" "\<forall>x \<in> {Suc i..<Suc i + n}. sealed (tval (ht_store s' ! p) x)"
    "nsealed (ht_store s' ! p) = nsealed (ht_store s1 ! p) + c" "top_scale s' \<le> top_scale s1 + n"
    using Suc.IH [of s1 "Suc i" "m + of_bool (\<not> sealed (tval ?t i))"] c1 Suc.prems(2,4,5) len1 sz1 by auto
  have "tab_frame {x. (p, x) \<in> {p} \<times> {Suc i..<Suc i + n}} (ht_store s1 ! p) (ht_store s' ! p)"
    using frame_tab [OF s'(4), of p] len1 by simp
  then have "sealed (tval (ht_store s' ! p) i)" using c1 i sz1 by (auto simp: tab_frame_def)
  then have sealed: "\<forall>x \<in> {i..<i + Suc n}. sealed (tval (ht_store s' ! p) x)"
    using s'(5) by (metis add_Suc_right add_Suc_shift atLeastLessThan_iff le_neq_implies_less Suc_leI)
  have "frame ({p} \<times> {i..<i + Suc n}) s s'"
    by (rule frame_trans [OF _ s'(4)]) (use c1 p(1) in auto)
  moreover have "hti_copy_chunk p (Suc n) i m s = ret (m + of_nat (of_bool (\<not> sealed (tval ?t i)) + c), s')"
    using s1(1) s'(1) p(1) P(2,4) Suc.prems(3,4) by (simp add: wf_table_def add.assoc)
  ultimately show ?case
    using s' c1 n1 sealed by (intro exI [of _ s'] exI [of _ "of_bool (\<not> sealed (tval ?t i)) + c"]) simp
qed

text \<open>What a call of \<^verbatim>\<open>hti_help_copy\<close> achieves.\<close>

definition all_sealed :: "hti \<Rightarrow> bool" where
  "all_sealed t \<longleftrightarrow> (\<forall>i < tsize t. sealed (tval t i))"

lemma nsealed_full: "nsealed t = tsize t \<longleftrightarrow> all_sealed t"
proof
  have fin: "finite {i. i < tsize t}" by simp
  assume "nsealed t = tsize t"
  then have "card {i. i < tsize t \<and> sealed (tval t i)} = card {i. i < tsize t}" by (simp add: nsealed_def)
  then have "{i. i < tsize t \<and> sealed (tval t i)} = {i. i < tsize t}"
    by (intro card_subset_eq [OF fin]) auto
  then show "all_sealed t" by (auto simp: all_sealed_def)
next
  assume "all_sealed t"
  then have "{i. i < tsize t \<and> sealed (tval t i)} = {i. i < tsize t}" by (auto simp: all_sealed_def)
  then show "nsealed t = tsize t" by (simp add: nsealed_def)
qed

lemma nsealed_le: "nsealed t \<le> tsize t"
  using card_mono [of "{i. i < tsize t}" "{i. i < tsize t \<and> sealed (tval t i)}"] by (simp add: nsealed_def subset_iff)

lemma wf_size:
  assumes "wf_table t"
  shows "16 \<le> tsize t" and "tsize t \<le> 2 ^ 30" and "8 dvd tsize t" and "unat (push_bit (hti_scale t) (1 :: uint64_t)) = tsize t"
    and "unat (push_bit (hti_scale t + 1) (1 :: uint64_t)) = 2 * tsize t"
proof -
  have sc: "4 \<le> hti_scale t" "hti_scale t \<le> 30" and sz: "tsize t = 2 ^ hti_scale t" using assms by (auto simp: wf_table_def)
  show "16 \<le> tsize t" using power_increasing [OF sc(1), of "2 :: nat"] sz by simp
  show "tsize t \<le> 2 ^ 30" using power_increasing [OF sc(2), of "2 :: nat"] sz by simp
  have "(2 :: nat) ^ 3 dvd 2 ^ hti_scale t" by (rule le_imp_power_dvd) (use sc in simp)
  then show "8 dvd tsize t" using sz by simp
  have pw: "unat (push_bit n (1 :: uint64_t)) = 2 ^ n" if "n \<le> 31" for n
  proof -
    have "push_bit n (1 :: uint64_t) = of_nat (2 ^ n)" by (simp add: push_bit_eq_mult)
    moreover have "(2 :: nat) ^ n < 2 ^ 64" by (rule power_strict_increasing) (use that in simp_all)
    ultimately show ?thesis by (simp only:) (rule unat_of_nat_small, simp)
  qed
  show "unat (push_bit (hti_scale t) (1 :: uint64_t)) = tsize t" using pw sc(2) sz by simp
  show "unat (push_bit (hti_scale t + 1) (1 :: uint64_t)) = 2 * tsize t" using pw [of "hti_scale t + 1"] sc(2) sz by simp
qed

text \<open>The tables other than \<open>p\<close> change as the stores of a copy change them; table \<open>p\<close> loses pending
  entries only.\<close>

definition helped :: "nat \<Rightarrow> hashtable_t \<Rightarrow> nat \<Rightarrow> hashtable_t \<Rightarrow> bool" where
  "helped b s p s' \<longleftrightarrow> settled b s s' \<and> ht_bound b s' = ht_bound b s \<and> top_scale s' \<le> top_scale s + 8 \<and>
     hti_copy_scan (ht_store s' ! p) = (if all_sealed (ht_store s ! p) then hti_copy_scan (ht_store s ! p)
       else hti_copy_scan (ht_store s ! p) + 8)"

lemma word_eq_push_bit:
  assumes "wf_table t" and "n \<le> tsize t"
  shows "(of_nat n :: uint64_t) = push_bit (hti_scale t) 1 \<longleftrightarrow> n = tsize t"
proof -
  have "n < 2 ^ 64" using wf_size(2) [OF assms(1)] assms(2) by simp
  then have "unat (of_nat n :: uint64_t) = n" by (intro unat_of_nat_small) simp
  then show ?thesis using wf_size(4) [OF assms(1)] by (metis word_unat_eq_iff)
qed

lemma core_upd_scan:
  assumes "core b s" and "p < length (ht_store s)" and "s1 = upd_hti p (\<lambda>t. t\<lparr>hti_copy_scan := x\<rparr>) s"
  shows "core b s1" and "ht_bound b s1 = ht_bound b s"
  using core_upd_counters [OF assms(1,2) refl, of "\<lambda>t. t\<lparr>hti_copy_scan := x\<rparr>"] assms(3) by simp_all

text \<open>The counters after a chunk: every entry the second pass has left behind is sealed.\<close>

lemma prog_ok_chunk:
  assumes "prog_ok t" and "wf_table t" and "\<not> all_sealed t"
    and "x = hti_copy_scan t" and "start = unat (x AND MASK (hti_scale t))"
  shows "unat x < 2 * tsize t" and "start + 8 \<le> tsize t" and "unat (x + 8) = unat x + 8"
    and "8 dvd unat (x + 8)" and "unat (x + 8) \<le> 2 * tsize t"
    and "\<And>i. i < tsize t \<Longrightarrow> i + tsize t < unat (x + 8) \<Longrightarrow> \<not> sealed (tval t i) \<Longrightarrow> i \<in> {start..<start + 8}"
proof -
  note sz = wf_size [OF assms(2)]
  have x: "8 dvd unat x" "unat x \<le> 2 * tsize t" and behind: "\<And>i. i < tsize t \<Longrightarrow> i + tsize t < unat x \<Longrightarrow> sealed (tval t i)"
    using assms(1,4) by (auto simp: prog_ok_def)
  obtain i where "i < tsize t" "\<not> sealed (tval t i)" using assms(3) unfolding all_sealed_def by blast
  then have "unat x \<noteq> 2 * tsize t" using behind [of i] by linarith
  then show lt: "unat x < 2 * tsize t" using x(2) by simp
  have start: "start = unat x mod tsize t" using assms(2,5) by (simp add: unat_and_MASK wf_table_def)
  obtain m where m: "tsize t = 8 * m" using sz(3) by (auto simp: dvd_def)
  obtain y where y: "unat x = 8 * y" using x(1) by (auto simp: dvd_def)
  have st: "start = 8 * (y mod m)" unfolding start m y by (rule mult_mod_right [symmetric])
  have "0 < m" using m sz(1) by simp
  then have "y mod m < m" by simp
  then show "start + 8 \<le> tsize t" using st m by simp
  have "unat x + 8 < 2 ^ 64" using lt sz(2) by simp
  then show u: "unat (x + 8) = unat x + 8" by (simp add: unat_word_ariths)
  show "8 dvd unat (x + 8)" unfolding u using x(1) by (simp only: dvd_add_triv_right_iff)
  have y2: "y < 2 * m" using lt m y by linarith
  then show "unat (x + 8) \<le> 2 * tsize t" unfolding u using m y by linarith
  show "i \<in> {start..<start + 8}" if i: "i < tsize t" "i + tsize t < unat (x + 8)" "\<not> sealed (tval t i)" for i
  proof -
    have ge: "unat x \<le> i + tsize t" using behind [OF i(1)] i(3) by (meson not_le)
    have "m \<le> y"
    proof (rule ccontr)
      assume "\<not> m \<le> y"
      then have "unat x + 8 \<le> tsize t" using m y by simp
      then show False using i(2) by (simp add: u)
    qed
    then have "y mod m = y - m" using y2 le_mod_geq [of m y] mod_less [of "y - m" m] by linarith
    then have "start + tsize t = unat x" using st m y \<open>m \<le> y\<close> by simp
    then show ?thesis using ge i(2) u by simp
  qed
qed

lemma hti_help_copy_ok:
  assumes "core b s" and "b \<le> p" and "Suc p < length (ht_store s)" and "prog_ok (ht_store s ! p)" and "top_scale s \<le> 22"
  shows "\<exists>s'. hti_help_copy p s = ret (all_sealed (ht_store s' ! p), s') \<and> helped b s p s'"
proof -
  let ?t = "ht_store s ! p"
  have p: "p < length (ht_store s)" "chain_ok b (ht_store s)" using assms(1,3) by (auto simp: core_def)
  have wf: "wf_table ?t" using chain_okD(4) [OF p(2) assms(2) p(1)] .
  note sz = wf_size [OF wf]
  have num: "hti_num_entries_copied ?t = of_nat (nsealed ?t)" using assms(4) by (simp add: prog_ok_def)
  have tot: "hti_num_entries_copied ?t = push_bit (hti_scale ?t) 1 \<longleftrightarrow> all_sealed ?t"
    using word_eq_push_bit [OF wf nsealed_le] nsealed_full num by simp
  show ?thesis
  proof (cases "all_sealed ?t")
    case True
    then have "hti_help_copy p s = ret (True, s)" using p(1) tot by (simp add: hti_help_copy_def Let_def)
    then show ?thesis using True settled_refl [OF assms(1)] by (intro exI [of _ s]) (simp add: helped_def)
  next
    case False
    define x where "x = hti_copy_scan ?t"
    define start where "start = unat (x AND MASK (hti_scale ?t))"
    note K = prog_ok_chunk [OF assms(4) wf False x_def start_def]
    define s1 where "s1 = upd_hti p (\<lambda>t. t\<lparr>hti_copy_scan := x + 8\<rparr>) s"
    note S = core_upd_scan [OF assms(1) p(1) s1_def]
    have t1: "ht_store s1 ! p = ?t\<lparr>hti_copy_scan := x + 8\<rparr>" using p(1) by (simp add: s1_def)
    have len1: "length (ht_store s1) = length (ht_store s)" by (simp add: s1_def)
    have top1: "top_scale s1 = top_scale s" unfolding s1_def by (rule top_scale_upd) simp
    have n1: "nsealed (ht_store s1 ! p) = nsealed ?t" by (simp add: t1 nsealed_def)
    obtain s2 c where s2: "hti_copy_chunk p 8 start 0 s1 = ret (0 + of_nat c, s2)" "core b s2" "ht_bound b s2 = ht_bound b s1"
      "frame ({p} \<times> {start..<start + 8}) s1 s2" "\<forall>i \<in> {start..<start + 8}. sealed (tval (ht_store s2 ! p) i)"
      "nsealed (ht_store s2 ! p) = nsealed (ht_store s1 ! p) + c" "top_scale s2 \<le> top_scale s1 + 8"
      using hti_copy_chunk_ok [of b s1 p start 8 0] S(1) assms(2,3,5) K(2) len1 top1 t1 by auto
    have fr: "tab_frame {start..<start + 8} (?t\<lparr>hti_copy_scan := x + 8\<rparr>) (ht_store s2 ! p)"
    proof -
      have "{i. (p, i) \<in> {p} \<times> {start..<start + 8}} = {start..<start + 8}" by auto
      then show ?thesis using frame_tab [OF s2(4), of p] p(1) len1 t1 by (simp del: mem_Sigma_iff)
    qed
    have p2: "p < length (ht_store s2)" using s2(4) p(1) len1 by (simp add: frame_def)
    have f: "tsize (ht_store s2 ! p) = tsize ?t" "hti_scale (ht_store s2 ! p) = hti_scale ?t" "hti_copy_scan (ht_store s2 ! p) = x + 8"
      "hti_num_entries_copied (ht_store s2 ! p) = of_nat (nsealed ?t)" "hti_ref_count (ht_store s2 ! p) = hti_ref_count ?t"
      using fr num by (auto simp: tab_frame_def)
    have out: "sealed (tval (ht_store s2 ! p) i) = sealed (tval ?t i)" "tagged (tval (ht_store s2 ! p) i) = tagged (tval ?t i)"
      if "i < tsize ?t" "i \<notin> {start..<start + 8}" for i
      using fr that unfolding tab_frame_def by auto
    have ns: "nsealed (ht_store s2 ! p) = nsealed ?t + c" using s2(6) n1 by simp
    define s' where "s' = upd_hti p (add_copied (of_nat c)) s2"
    have u: "ht_store s' ! p = add_copied (of_nat c) (ht_store s2 ! p)" using p2 by (simp add: s'_def)
    have nu: "nsealed (ht_store s' ! p) = nsealed ?t + c" using ns by (simp add: u nsealed_def)
    have "c < 2 ^ 64" using ns nsealed_le [of "ht_store s2 ! p"] f(1) sz(2) by simp
    then have c0: "(of_nat c :: size_t) = 0 \<longleftrightarrow> c = 0"
      using unat_of_nat_small [of c, where ?'a = 64] by (cases "c = 0") (auto dest: arg_cong [of _ _ unat])
    have full: "(of_nat (nsealed ?t) + of_nat c :: size_t) = push_bit (hti_scale ?t) 1 \<longleftrightarrow> all_sealed (ht_store s' ! p)"
    proof -
      have "nsealed ?t + c \<le> tsize ?t" using ns nsealed_le [of "ht_store s2 ! p"] f(1) by simp
      then have "(of_nat (nsealed ?t + c) :: size_t) = push_bit (hti_scale ?t) 1 \<longleftrightarrow> nsealed ?t + c = tsize ?t"
        by (rule word_eq_push_bit [OF wf])
      then show ?thesis using nsealed_full [of "ht_store s' ! p"] nu f(1) by (simp add: u)
    qed
    have s'0: "c = 0 \<Longrightarrow> s' = s2"
      unfolding s'_def by (rule upd_hti_same) (simp add: add_copied_def SYNC_ADD_def)
    have run: "hti_help_copy p s = ret (all_sealed (ht_store s' ! p), s')"
    proof -
      have "\<not> x \<ge> push_bit (hti_scale ?t + 1) 1" using K(1) sz(5) by (simp add: word_le_nat_alt)
      then have "hti_help_copy p s = pbind (hti_copy_chunk p 8 start 0 s1) (\<lambda>(num_copied, s).
             if num_copied \<noteq> 0 then
               pbind (hti_at s p) (\<lambda>t.
               ret (fst (SYNC_ADD (hti_num_entries_copied t) num_copied) = push_bit (hti_scale ?t) 1, upd_hti p (add_copied num_copied) s))
             else ret (hti_num_entries_copied ?t = push_bit (hti_scale ?t) 1, s))"
        using p(1) tot False by (simp add: hti_help_copy_def Let_def x_def s1_def start_def del: push_bit_of_1)
      also have "\<dots> = ret (all_sealed (ht_store s' ! p), s')"
      proof (cases "c = 0")
        case True
        then have "hti_num_entries_copied ?t = push_bit (hti_scale ?t) 1 \<longleftrightarrow> all_sealed (ht_store s' ! p)"
          using full num by simp
        then show ?thesis using True s'0 by (simp add: s2(1))
      next
        case False
        then show ?thesis using c0 full p2 f(4) by (simp add: s2(1) s'_def [symmetric] SYNC_ADD_def)
      qed
      finally show ?thesis .
    qed
    have cs: "core b s'" "ht_bound b s' = ht_bound b s2"
      using core_upd_copied [OF s2(2) p2 s'_def] by auto
    have prog: "prog_ok (ht_store s' ! p)"
      unfolding prog_ok_def
    proof (intro conjI allI impI)
      show "hti_num_entries_copied (ht_store s' ! p) = of_nat (nsealed (ht_store s' ! p))" using nu f(4) by (simp add: u)
      show "8 dvd unat (hti_copy_scan (ht_store s' ! p))" "unat (hti_copy_scan (ht_store s' ! p)) \<le> 2 * tsize (ht_store s' ! p)"
        using K(4,5) f(1,3) by (simp_all add: u)
      show "sealed (tval (ht_store s' ! p) i)" if "i < tsize (ht_store s' ! p)" "i + tsize (ht_store s' ! p) < unat (hti_copy_scan (ht_store s' ! p))" for i
      proof -
        have i: "i < tsize ?t" "i + tsize ?t < unat (x + 8)" using that f(1,3) by (simp_all add: u)
        have "sealed (tval (ht_store s2 ! p) i)" using K(6) [OF i] out(1) [OF i(1)] s2(5) by blast
        then show ?thesis by (simp add: u)
      qed
    qed
    have pend: "pending ?t i" if "i < tsize ?t" "pending (ht_store s' ! p) i" for i
      using that out [of i] s2(5) by (auto simp: pending_def u)
    have keys: "\<forall>i < tsize ?t. tkey ?t i \<noteq> 0 \<longrightarrow> tkey (ht_store s' ! p) i = tkey ?t i"
      using fr by (simp add: tab_frame_def u)
    have keep: "sealed (tval (ht_store s' ! p) i)" if "i < tsize ?t" "sealed (tval ?t i)" for i
      using that out(1) [of i] s2(5) unfolding u by (cases "i \<in> {start..<start + 8}") auto
    have tp: "tab_settled ?t (ht_store s' ! p)"
      using f prog pend keys keep by (simp add: tab_settled_def u)
    have "tab_settled (ht_store s ! r) (ht_store s' ! r)" if r: "r < length (ht_store s)" for r
    proof (cases "r = p")
      case False
      then have "tab_frame {} (ht_store s1 ! r) (ht_store s2 ! r)"
        using frame_tab [OF s2(4), of r] r len1 by simp
      then show ?thesis using False tab_frame_settled by (simp add: s'_def s1_def)
    qed (use tp in simp)
    moreover have "let v = ht_store s' ! r in prog_ok v \<and> hti_ref_count v = 1 \<and> (\<forall>i < tsize v. \<not> pending v i)"
      if r: "r < length (ht_store s')" "length (ht_store s) \<le> r" for r
    proof -
      have "ht_store s' ! r = ht_store s2 ! r" "fresh_table (ht_store s2 ! r)"
        using r p(1) s2(4) len1 by (auto simp: s'_def frame_def)
      then show ?thesis using fresh_prog_ok by (simp add: fresh_table_def pending_def)
    qed
    moreover have "ht_hti s' = ht_hti s" "ht_deferred s' = ht_deferred s" "length (ht_store s) \<le> length (ht_store s')"
      using s2(4) by (simp_all add: s'_def frame_def s1_def)
    ultimately have "settled b s s'" using cs(1) by (simp add: settled_def Let_def)
    moreover have "top_scale s' = top_scale s2" unfolding s'_def by (rule top_scale_upd) simp
    moreover have "hti_copy_scan (ht_store s' ! p) = x + 8" using f(3) by (simp add: u)
    ultimately have "helped b s p s'"
      using cs(2) s2(3,7) S(2) top1 False by (simp add: helped_def x_def)
    then show ?thesis using run by blast
  qed
qed

section \<open>Where the search for a key stands\<close>

definition cleared_below :: "nat \<Rightarrow> hashtable_t \<Rightarrow> nat \<Rightarrow> map_key_t \<Rightarrow> bool" where
  "cleared_below b s p k \<longleftrightarrow> (\<forall>r. b \<le> r \<and> r < p \<longrightarrow> cleared (ht_store s ! r) k)"

definition quiet_for :: "nat \<Rightarrow> hashtable_t \<Rightarrow> map_key_t \<Rightarrow> bool" where
  "quiet_for b s k \<longleftrightarrow> (\<forall>r i. b \<le> r \<and> r < length (ht_store s) \<and> i < tsize (ht_store s ! r) \<and> tkey (ht_store s ! r) i = k \<longrightarrow>
     \<not> pending (ht_store s ! r) i)"

lemma cleared_below_Suc:
  "cleared_below b s p k \<Longrightarrow> cleared (ht_store s ! p) k \<Longrightarrow> cleared_below b s (Suc p) k"
  by (auto simp: cleared_below_def less_Suc_eq)

lemma live_not_below:
  assumes "chain_ok b (ht_store s)" and "cleared_below b s p k" and "live_at b (ht_store s) k r x"
  shows "p \<le> r"
proof (rule ccontr)
  assume "\<not> p \<le> r"
  then have cl: "cleared (ht_store s ! r) k" using assms(2,3) by (simp add: cleared_below_def live_at_def)
  have "k \<noteq> 0" by (rule live_at_nonzero [OF assms(1,3)])
  then have "slot (ht_store s ! r) k = Some x"
    using assms(3) tab_okD(2) [OF chain_okD(1) [OF assms(1)]] by (auto simp: live_at_def)
  then have "sealed (tval (ht_store s ! r) x)" using cl by (simp add: cleared_def)
  then show False using assms(3) sealed_not_live by (auto simp: live_at_def)
qed

text \<open>A key whose entry in table \<open>p\<close> is not marked, or has room in table \<open>p\<close>, is in no later table.\<close>

lemma live_at_here:
  assumes "chain_ok b (ht_store s)" and "b \<le> p" and "p < length (ht_store s)" and "cleared_below b s p k" and "k \<noteq> 0"
    and "slot (ht_store s ! p) k = Some i" and "tkey (ht_store s ! p) i = 0 \<or> \<not> tagged (tval (ht_store s ! p) i)"
    and "live_at b (ht_store s) k r x"
  shows "r = p \<and> x = i"
proof -
  have "p \<le> r" by (rule live_not_below [OF assms(1,4,8)])
  moreover have "\<not> p < r"
  proof
    assume "p < r"
    then have "linked (ht_store s ! p) (ht_store s ! r)"
      using chain_okD(5) [OF assms(1-3)] assms(8) by (simp add: live_at_def)
    then have "passed (ht_store s ! p) k" using assms(5,8) by (auto simp: linked_def live_at_def)
    then show False using assms(5-7) by (auto simp: passed_def)
  qed
  ultimately have "r = p" by simp
  moreover have "slot (ht_store s ! p) k = Some x"
    using assms(5,8) tab_okD(2) [OF chain_okD(1) [OF assms(1-3)]] \<open>r = p\<close> by (auto simp: live_at_def)
  ultimately show ?thesis using assms(6) by simp
qed

lemma bound_here:
  assumes "core b s" and "b \<le> p" and "p < length (ht_store s)" and "cleared_below b s p k" and "k \<noteq> 0"
  shows "slot (ht_store s ! p) k = None \<Longrightarrow> Suc p = length (ht_store s) \<Longrightarrow> ht_bound b s k = None"
    and "slot (ht_store s ! p) k = Some i \<Longrightarrow> tkey (ht_store s ! p) i = 0 \<Longrightarrow> ht_bound b s k = None"
    and "slot (ht_store s ! p) k = Some i \<Longrightarrow> tkey (ht_store s ! p) i = k \<Longrightarrow> \<not> tagged (tval (ht_store s ! p) i) \<Longrightarrow>
      ht_bound b s k = (if live (tval (ht_store s ! p) i) then Some (tval (ht_store s ! p) i) else None)"
proof -
  have c: "chain_ok b (ht_store s)" using assms(1) by (simp add: core_def)
  note P = chain_okD [OF c assms(2,3)]
  show "ht_bound b s k = None" if n: "slot (ht_store s ! p) k = None" "Suc p = length (ht_store s)"
    unfolding chain_abs_None [OF c]
  proof (intro allI notI)
    fix r x assume la: "live_at b (ht_store s) k r x"
    then have "r = p" using live_not_below [OF c assms(4) la] n(2) by (simp add: live_at_def)
    then show False using la n(1) tab_okD(2) [OF P(1)] assms(5) by (auto simp: live_at_def)
  qed
  show "ht_bound b s k = None" if n: "slot (ht_store s ! p) k = Some i" "tkey (ht_store s ! p) i = 0"
    unfolding chain_abs_None [OF c]
    using live_at_here [OF c assms(2-5) n(1)] n(2) assms(5) by (metis live_at_def)
  show "ht_bound b s k = (if live (tval (ht_store s ! p) i) then Some (tval (ht_store s ! p) i) else None)"
    if n: "slot (ht_store s ! p) k = Some i" "tkey (ht_store s ! p) i = k" "\<not> tagged (tval (ht_store s ! p) i)"
  proof (cases "live (tval (ht_store s ! p) i)")
    case True
    then have "live_at b (ht_store s) k p i" using n assms(2,3) slotD(1) [OF P(4) n(1)] by (simp add: live_at_def)
    then have "ht_bound b s k = Some (plain (tval (ht_store s ! p) i))" unfolding chain_abs_Some [OF c] by blast
    then show ?thesis using True n(3) by (simp add: plain_untagged)
  next
    case False
    then have "ht_bound b s k = None"
      unfolding chain_abs_None [OF c] using live_at_here [OF c assms(2-5) n(1)] n(3) by (metis live_at_def)
    then show ?thesis using False by simp
  qed
qed

section \<open>Lookup\<close>

lemma hti_get_quiet:
  assumes "core b s" and "b \<le> p" and "p < length (ht_store s)" and "cleared_below b s p k" and "k \<noteq> 0" and "quiet_for b s k"
  shows "hti_get p k (murmur32_8b k) s = ret (found_val (ht_bound b s k), s)"
  using assms(2-4)
proof (induction "length (ht_store s) - p" arbitrary: p)
  case 0
  then show ?case by simp
next
  case (Suc n)
  let ?t = "ht_store s ! p"
  have c: "chain_ok b (ht_store s)" "ht_key_type s = None" using assms(1) by (simp_all add: core_def)
  note P = chain_okD [OF c(1) Suc.prems(1,2)]
  note L = hti_lookup_eq [OF P(4) assms(5)]
  note B = bound_here [OF assms(1) Suc.prems assms(5)]
  have IH: "hti_get (Suc p) k (murmur32_8b k) s = ret (found_val (ht_bound b s k), s)"
    if "Suc p < length (ht_store s)" "cleared ?t k"
    using Suc.hyps that cleared_below_Suc [OF Suc.prems(3)] Suc.prems(1) by simp
  show ?case
  proof (cases "slot ?t k")
    case None
    then have "cleared ?t k" by (simp add: cleared_def)
    then show ?thesis
      using None L P(2) Suc.prems(2) IH B(1) c(2)
      by (subst hti_get.simps) (auto simp: DOES_NOT_EXIST_def split: if_splits)
  next
    case (Some i)
    have i: "i < tsize ?t" "tkey ?t i = 0 \<or> tkey ?t i = k" using slotD [OF P(4) Some] by auto
    show ?thesis
    proof (cases "tkey ?t i = 0")
      case True
      then show ?thesis
        using Some L Suc.prems(2) B(2) c(2) by (subst hti_get.simps) (simp add: DOES_NOT_EXIST_def)
    next
      case False
      then have k: "tkey ?t i = k" using i(2) by simp
      show ?thesis
      proof (cases "tagged (tval ?t i)")
        case True
        have se: "sealed (tval ?t i)"
          using True assms(6) i(1) k Suc.prems(1,2) by (auto simp: quiet_for_def pending_def)
        then have "cleared ?t k" using Some k by (simp add: cleared_def)
        then show ?thesis
          using Some L Suc.prems(2) c(2) k assms(5) i(1) True se P(2) P(3) [OF i(1) True] IH
          by (subst hti_get.simps) (auto simp: tagged_def sealed_def)
      next
        case un: False
        have "(if tval ?t i = TOMBSTONE then 0 else tval ?t i) = found_val (ht_bound b s k)"
          using B(3) [OF Some k un] live_untagged [OF un] by (simp split: if_splits)
        then show ?thesis
          using Some L Suc.prems(2) c(2) k assms(5) i(1) un
          by (subst hti_get.simps) (auto simp: tagged_def DOES_NOT_EXIST_def split: if_splits)
      qed
    qed
  qed
qed

text \<open>After the copy of a pending entry is finished, no entry of its key is pending.\<close>

lemma settled_quiet_for:
  assumes "settled b s s'" and "live_at b (ht_store s) k p i" and "chain_ok b (ht_store s)" and "sealed (tval (ht_store s' ! p) i)"
  shows "quiet_for b s' k"
proof (unfold quiet_for_def, intro allI impI; elim conjE)
  fix r x assume r: "b \<le> r" "r < length (ht_store s')" "x < tsize (ht_store s' ! r)" "tkey (ht_store s' ! r) x = k"
  show "\<not> pending (ht_store s' ! r) x"
  proof (cases "r < length (ht_store s)")
    case False
    then show ?thesis using assms(1) r by (auto simp: settled_def)
  next
    case True
    then have ts: "tab_settled (ht_store s ! r) (ht_store s' ! r)" using assms(1) by (simp add: settled_def)
    then have sz: "x < tsize (ht_store s ! r)" using r(3) by (simp add: tab_settled_def)
    show ?thesis
    proof
      assume pe: "pending (ht_store s' ! r) x"
      then have pe0: "pending (ht_store s ! r) x" using ts sz by (auto simp: tab_settled_def)
      then have lv: "live (tval (ht_store s ! r) x)" using tagged_live_or_sealed by (auto simp: pending_def)
      then have "tkey (ht_store s ! r) x \<noteq> 0" using tab_ok_live [OF chain_okD(1) [OF assms(3) r(1) True] sz] by simp
      then have "tkey (ht_store s ! r) x = k" using ts sz r(4) by (auto simp: tab_settled_def)
      then have "live_at b (ht_store s) k r x" using r(1) True sz lv by (simp add: live_at_def)
      then have "r = p \<and> x = i" using live_at_unique [OF assms(3)] assms(2) by blast
      then show False using pe assms(4) by (auto simp: pending_def)
    qed
  qed
qed

text \<open>A thread that finds an entry half copied finishes the copy itself.\<close>

lemma finish_pending:
  assumes "core b s" and "b \<le> p" and "p < length (ht_store s)" and "slot (ht_store s ! p) k = Some i" and "tkey (ht_store s ! p) i = k"
    and "k \<noteq> 0" and "pending (ht_store s ! p) i" and "top_scale s \<le> 29" and "cleared_below b s p k"
  shows "\<exists>s1. hti_copy_entry p i (murmur32_8b k) (hti_next (ht_store s ! p)) s = ret (True, s1) \<and>
    (let s2 = upd_hti p (add_copied 1) s1 in settled b s s2 \<and> ht_bound b s2 = ht_bound b s \<and> quiet_for b s2 k \<and>
       cleared_below b s2 (Suc p) k \<and> top_scale s2 \<le> top_scale s + 1 \<and> Suc p < length (ht_store s2) \<and>
       hti_next (ht_store s2 ! p) = Some (Suc p))"
proof -
  have c: "chain_ok b (ht_store s)" using assms(1) by (simp add: core_def)
  note P = chain_okD [OF c assms(2,3)]
  have i: "i < tsize (ht_store s ! p)" using slotD(1) [OF P(4) assms(4)] .
  have v: "tagged (tval (ht_store s ! p) i)" "live (tval (ht_store s ! p) i)"
    using assms(7) tagged_live_or_sealed by (auto simp: pending_def)
  have lt: "Suc p < length (ht_store s)" using P(3) [OF i v(1)] .
  have la: "live_at b (ht_store s) k p i" using assms(2,3,5) i v by (simp add: live_at_def)
  have "copying b s p i k (tval (ht_store s ! p) i) (Suc p)"
    using assms(1) lt la v by (auto simp: copying_def)
  then obtain s1 where s1: "hti_copy_entry p i (murmur32_8b k) (Some (Suc p)) s = ret (True, s1)" "copied b s p i s1"
    using copy_in_progress assms(8) by blast
  define s2 where "s2 = upd_hti p (add_copied 1) s1"
  note S = settled_copied [OF s1(2) assms(3) i assms(7), folded s2_def]
  note c1 = s1(2) [unfolded copied_def]
  have len1: "length (ht_store s) \<le> length (ht_store s1)" using c1 by (simp add: frame_def)
  have p2: "ht_store s2 ! p = add_copied 1 (ht_store s1 ! p)" using assms(3) len1 by (simp add: s2_def)
  have se: "sealed (tval (ht_store s2 ! p) i)" using c1 by (simp add: p2)
  have q: "quiet_for b s2 k" by (rule settled_quiet_for [OF S(1) la c se])
  have lt2: "Suc p < length (ht_store s2)" using lt len1 by (simp add: s2_def)
  have c2: "chain_ok b (ht_store s2)" using S(3) by (simp add: core_def)
  note P2 = chain_okD [OF c2 assms(2)]
  have key2: "tkey (ht_store s2 ! p) i = k" using c1 assms(5) by (simp add: p2)
  have "tab_settled (ht_store s ! p) (ht_store s2 ! p)" using S(1) assms(3) by (simp add: settled_def)
  then have "i < tsize (ht_store s2 ! p)" using i by (simp add: tab_settled_def)
  then have "slot (ht_store s2 ! p) k = Some i"
    using tab_okD(2) [OF P2(1), of i] lt2 key2 assms(6) by simp
  then have "cleared (ht_store s2 ! p) k" using key2 se by (simp add: cleared_def)
  moreover have "cleared_below b s2 p k"
    using assms(9) c1 by (simp add: cleared_below_def s2_def)
  ultimately have "cleared_below b s2 (Suc p) k" by (simp add: cleared_below_Suc)
  moreover have "top_scale s2 = top_scale s1" unfolding s2_def by (rule top_scale_upd) simp
  moreover have "hti_next (ht_store s2 ! p) = Some (Suc p)" using P2(2) lt2 by simp
  ultimately show ?thesis
    using s1(1) S q lt2 c1 P(2) lt by (intro exI [of _ s1]) (simp add: s2_def [symmetric] Let_def)
qed

lemma hti_get_ok:
  assumes "core b s" and "b \<le> p" and "p < length (ht_store s)" and "cleared_below b s p k" and "k \<noteq> 0" and "top_scale s \<le> 29"
  shows "\<exists>s'. hti_get p k (murmur32_8b k) s = ret (found_val (ht_bound b s k), s') \<and> settled b s s' \<and>
    ht_bound b s' = ht_bound b s \<and> top_scale s' \<le> top_scale s + 1 \<and> quiet_for b s' k"
  using assms(2-4)
proof (induction "length (ht_store s) - p" arbitrary: p)
  case 0
  then show ?case by simp
next
  case (Suc n)
  let ?t = "ht_store s ! p"
  have c: "chain_ok b (ht_store s)" "ht_key_type s = None" using assms(1) by (simp_all add: core_def)
  note P = chain_okD [OF c(1) Suc.prems(1,2)]
  note L = hti_lookup_eq [OF P(4) assms(5)]
  show ?case
  proof (cases "quiet_for b s k")
    case True
    then show ?thesis using hti_get_quiet [OF assms(1) Suc.prems assms(5) True] settled_refl [OF assms(1)] by auto
  next
    case False
    then obtain q j where q: "b \<le> q" "q < length (ht_store s)" "j < tsize (ht_store s ! q)" "tkey (ht_store s ! q) j = k" "pending (ht_store s ! q) j"
      by (auto simp: quiet_for_def)
    then have "live (tval (ht_store s ! q) j)" using tagged_live_or_sealed by (auto simp: pending_def)
    then have la: "live_at b (ht_store s) k q j" using q by (simp add: live_at_def)
    have "p \<le> q" by (rule live_not_below [OF c(1) Suc.prems(3) la])
    show ?thesis
    proof (cases "q = p")
      case True
      have sl: "slot ?t k = Some j" using tab_okD(2) [OF P(1)] q True assms(5) by auto
      obtain s1 s2 where s1: "hti_copy_entry p j (murmur32_8b k) (hti_next ?t) s = ret (True, s1)"
        and s2: "s2 = upd_hti p (add_copied 1) s1" "settled b s s2" "ht_bound b s2 = ht_bound b s" "quiet_for b s2 k"
        "cleared_below b s2 (Suc p) k" "top_scale s2 \<le> top_scale s + 1" "Suc p < length (ht_store s2)"
        "hti_next (ht_store s2 ! p) = Some (Suc p)"
        using finish_pending [OF assms(1) Suc.prems(1,2) sl _ assms(5) _ assms(6) Suc.prems(3)] q True by (auto simp: Let_def)
      have "core b s2" using s2(2) by (simp add: settled_def)
      then have "hti_get (Suc p) k (murmur32_8b k) s2 = ret (found_val (ht_bound b s2 k), s2)"
        using hti_get_quiet [OF _ _ s2(7,5) assms(5) s2(4)] Suc.prems(1) by simp
      moreover have "hti_get p k (murmur32_8b k) s = hti_get (Suc p) k (murmur32_8b k) s2"
        using L sl Suc.prems(2) c(2) q True assms(5) s1 s2(7,8)
        by (subst hti_get.simps) (auto simp: pending_def tagged_def sealed_def s2(1) [symmetric])
      ultimately show ?thesis using s2 by auto
    next
      case False
      then have lt: "p < q" "Suc p < length (ht_store s)" using \<open>p \<le> q\<close> q(2) by auto
      have "linked ?t (ht_store s ! q)" using P(5) [OF lt(1) q(2)] .
      then have pass: "passed ?t k" using q assms(5) by (auto simp: linked_def)
      have cl: "cleared ?t k"
      proof (cases "slot ?t k")
        case (Some i)
        then have i: "tkey ?t i = k" "tagged (tval ?t i)" "i < tsize ?t" using pass slotD(1) [OF P(4) Some] by (auto simp: passed_def)
        have "\<not> live (tval ?t i)"
          using live_at_unique [OF c(1) la, of p i] i Suc.prems(1,2) False by (auto simp: live_at_def)
        then show ?thesis using i Some tagged_live_or_sealed by (simp add: cleared_def)
      qed (simp add: cleared_def)
      then have IH: "\<exists>s'. hti_get (Suc p) k (murmur32_8b k) s = ret (found_val (ht_bound b s k), s') \<and> settled b s s' \<and>
          ht_bound b s' = ht_bound b s \<and> top_scale s' \<le> top_scale s + 1 \<and> quiet_for b s' k"
        using Suc.hyps(1) [of "Suc p"] Suc.hyps(2) Suc.prems lt cleared_below_Suc [OF Suc.prems(3)] by simp
      have "hti_get p k (murmur32_8b k) s = hti_get (Suc p) k (murmur32_8b k) s"
      proof (cases "slot ?t k")
        case None
        then show ?thesis using L Suc.prems(2) c(2) P(2) lt by (subst hti_get.simps) simp
      next
        case (Some i)
        then have "tkey ?t i = k" "sealed (tval ?t i)" "i < tsize ?t" using cl slotD(1) [OF P(4) Some] by (auto simp: cleared_def)
        then show ?thesis using Some L Suc.prems(2) c(2) P(2) lt assms(5) sealed_tagged [of "tval ?t i"]
          by (subst hti_get.simps) (auto simp: tagged_def sealed_def)
      qed
      then show ?thesis using IH by simp
    qed
  qed
qed

end
