(* ===== verification/Hashtable_Update.thy ===== *)
theory Hashtable_Update
  imports Hashtable_Ops
begin

text \<open>
  The updates of \<^verbatim>\<open>src/src/map/hashtable.c\<close>: \<^verbatim>\<open>hti_cas\<close> on one table and the loops of
  \<^verbatim>\<open>ht_cas\<close> and \<^verbatim>\<open>ht_remove\<close> along the chain.
\<close>

section \<open>One table\<close>

text \<open>What an update does to the binding of its key; the new value \<^verbatim>\<open>DOES_NOT_EXIST\<close> removes it.\<close>

definition cas_result :: "map_val_t \<Rightarrow> map_val_t \<Rightarrow> map_val_t option \<Rightarrow> map_val_t option" where
  "cas_result e new r = (if cas_applies e r then if new = 0 then None else Some new else r)"

lemma hti_cas_unfold:
  assumes "core b s" and "b \<le> p" and "p < length (ht_store s)" and "k \<noteq> 0" and "\<not> tagged new" and "new \<noteq> TOMBSTONE"
    and "t = ht_store s ! p"
  shows "hti_cas p k (murmur32_8b k) e new s = (case slot t k of
      None \<Rightarrow> pbind (if hti_next t = None then hti_start_copy p s else ret s) (\<lambda>s. ret (COPIED_VALUE, s))
    | Some i \<Rightarrow>
        if tkey t i = 0 \<and> (e \<noteq> CAS_EXPECT_WHATEVER \<and> e \<noteq> CAS_EXPECT_DOES_NOT_EXIST \<or> new = 0) then ret (0, s)
        else let s1 = (if tkey t i = 0 then upd_hti p (\<lambda>t. add_key_count 1 (put_key i k t)) s else s); v = tval t i
          in if tagged v then
               if sealed v then ret (COPIED_VALUE, s1)
               else pbind (hti_copy_entry p i (murmur32_8b k) (hti_next t) s1) (\<lambda>(did_copy, s).
                    ret (COPIED_VALUE, if did_copy then upd_hti p (add_copied 1) s else s))
             else if e \<noteq> CAS_EXPECT_WHATEVER \<and> e \<noteq> v \<and> e \<noteq> (if live v then CAS_EXPECT_EXISTS else CAS_EXPECT_DOES_NOT_EXIST) \<or>
                 new = 0 \<and> \<not> live v \<or> v = new then ret (v, s1)
             else ret (v, upd_hti p (\<lambda>t. add_count (of_bool (new \<noteq> 0) - of_bool (live v))
               (put_val i (if new = 0 then TOMBSTONE else new) t)) s1))"
proof -
  have c: "chain_ok b (ht_store s)" "ht_key_type s = None" using assms(1) by (simp_all add: core_def)
  note P = chain_okD [OF c(1) assms(2,3)]
  have L: "hti_lookup None t k (murmur32_8b k) = ret (map_option (\<lambda>i. (i, tkey t i = 0)) (slot t k))"
    using hti_lookup_eq [OF P(4) assms(4)] by (simp add: assms(7))
  have at: "hti_at s p = ret t" using assms(3,7) by simp
  have new: "IS_TAGGED new TAG1 = 0" using assms(5) by (simp add: tagged_def)
  show ?thesis
  proof (cases "slot t k")
    case None
    then show ?thesis using at L c(2) assms(4) new by (subst hti_cas.simps) simp
  next
    case (Some i)
    have i: "i < tsize t" "tkey t i = 0 \<or> tkey t i = k" using slotD [OF P(4)] Some by (auto simp: assms(7))
    define s1 where "s1 = (if tkey t i = 0 then upd_hti p (\<lambda>t. add_key_count 1 (put_key i k t)) s else s)"
    have len: "p < length (ht_store s1)" using assms(3) by (simp add: s1_def)
    show ?thesis
    proof (cases "tkey t i = 0 \<and> (e \<noteq> CAS_EXPECT_WHATEVER \<and> e \<noteq> CAS_EXPECT_DOES_NOT_EXIST \<or> new = 0)")
      case True
      then show ?thesis
        using at L Some c(2) assms(4) new i(1) by (subst hti_cas.simps) (auto simp: DOES_NOT_EXIST_def)
    next
      case False
      have cas: "SYNC_CAS (tkey t i) DOES_NOT_EXIST k = (tkey t i, if tkey t i = 0 then k else tkey t i)"
        by (simp add: SYNC_CAS_def DOES_NOT_EXIST_def)
      have g: "\<not> (tkey t i = 0 \<and> e \<noteq> CAS_EXPECT_WHATEVER \<and> e \<noteq> CAS_EXPECT_DOES_NOT_EXIST)"
        "\<not> (tkey t i = 0 \<and> new = DOES_NOT_EXIST)" "\<not> (tkey t i = 0 \<and> tkey t i \<noteq> DOES_NOT_EXIST)" using False by (auto simp: DOES_NOT_EXIST_def)
      have s1: "(if tkey t i = 0 then upd_hti p (\<lambda>u. add_key_count 1 (put_key i (if tkey t i = 0 then k else tkey t i) u)) s else s) = s1"
        by (simp add: s1_def)
      have nz: "(k \<noteq> 0) = True" using assms(4) by simp
      have body: "hti_cas p k (murmur32_8b k) e new s =
        (let s = s1; ev = tval t i
             in if IS_TAGGED ev TAG1 \<noteq> 0 then
                  if ev \<noteq> COPIED_VALUE \<and> ev \<noteq> TAG_VALUE TOMBSTONE TAG1 then
                    pbind (hti_copy_entry p i (murmur32_8b k) (hti_next t) s) (\<lambda>(did_copy, s).
                    ret (COPIED_VALUE, if did_copy then upd_hti p (add_copied 1) s else s))
                  else ret (COPIED_VALUE, s)
                else
                  let old_existed = (ev \<noteq> TOMBSTONE \<and> ev \<noteq> DOES_NOT_EXIST)
                  in if e \<noteq> CAS_EXPECT_WHATEVER \<and> e \<noteq> ev \<and>
                        e \<noteq> (if old_existed then CAS_EXPECT_EXISTS else CAS_EXPECT_DOES_NOT_EXIST)
                     then ret (ev, s)
                     else if new = DOES_NOT_EXIST \<and> \<not> old_existed \<or> ev = new then ret (ev, s)
                     else (let s = upd_hti p (put_val i (if new = DOES_NOT_EXIST then TOMBSTONE else new)) s
                        in if old_existed \<and> new = DOES_NOT_EXIST then ret (ev, upd_hti p (add_count (- 1)) s)
                           else if \<not> old_existed \<and> new \<noteq> DOES_NOT_EXIST then ret (ev, upd_hti p (add_count 1) s)
                           else ret (ev, s)))"
        by (subst hti_cas.simps)
          (simp only: at new L c(2) Some nz passert_True pbind_ret option.map option.case prod.case if_not_P [OF g(1)]
            if_not_P [OF g(2)] if_not_P [OF g(3)] ent_at_ok [OF i(1)] Let_def cas s1 SYNC_CAS_same simp_thms if_False)
      have lv: "\<not> tagged (tval t i) \<Longrightarrow> (tval t i \<noteq> TOMBSTONE \<and> tval t i \<noteq> DOES_NOT_EXIST) = live (tval t i)"
        using live_untagged [of "tval t i"] by (auto simp: DOES_NOT_EXIST_def)
      have z: "(x = DOES_NOT_EXIST) = (x = 0)" for x by (simp add: DOES_NOT_EXIST_def)
      show ?thesis
      proof (cases "tagged (tval t i)")
        case True
        then have tg: "IS_TAGGED (tval t i) TAG1 \<noteq> 0" by (simp add: tagged_def)
        show ?thesis
          unfolding body option.case Some if_not_P [OF False] s1_def [symmetric] Let_def if_P [OF tg] if_P [OF True]
          by (simp add: sealed_def)
      next
        case un: False
        then have tg: "\<not> IS_TAGGED (tval t i) TAG1 \<noteq> 0" by (simp add: tagged_def)
        note l = lv [OF un, unfolded z]
        show ?thesis
          unfolding body option.case Some if_not_P [OF False] s1_def [symmetric] Let_def if_not_P [OF tg] if_not_P [OF un] z l
          using len by (auto simp: upd_hti_fuse)
      qed
    qed
  qed
qed

text \<open>The store of a value in an entry that is not marked.\<close>

lemma write_here:
  assumes "core b s" and "b \<le> p" and "p < length (ht_store s)" and "cleared_below b s p k" and "k \<noteq> 0"
    and "slot (ht_store s ! p) k = Some i" and "tkey (ht_store s ! p) i = k" and "\<not> tagged (tval (ht_store s ! p) i)" and "\<not> tagged v"
    and "d = of_bool (live v) - of_bool (live (tval (ht_store s ! p) i))"
    and "s' = upd_hti p (\<lambda>t. add_count d (put_val i v t)) s"
  shows "settled b s s'" and "ht_bound b s' = (ht_bound b s)(k := if live v then Some v else None)" and "top_scale s' = top_scale s"
proof -
  have c: "chain_ok b (ht_store s)" using assms(1) by (simp add: core_def)
  note P = chain_okD [OF c assms(2,3)]
  have i: "i < tsize (ht_store s ! p)" using slotD(1) [OF P(4) assms(6)] .
  have here: "r = p \<and> x = i" if "live_at b (ht_store s) k r x" for r x
    by (rule live_at_here [OF c assms(2-6) _ that]) (use assms(8) in simp)
  have ok: "chain_ok b ((ht_store s)[p := add_count d (put_val i v (ht_store s ! p))])"
    by (rule chain_put_val [OF c assms(2,3) i]) (use assms(5,7-10) here in auto)
  have "core b s'" using assms(1) ok by (simp add: core_def assms(11))
  moreover have "frame {} s s'"
    unfolding assms(11)
    by (rule frame_upd) (use assms(8,9) sealed_tagged in \<open>auto simp: tab_frame_def\<close>)
  ultimately show "settled b s s'" by (simp add: frame_settled)
  show "ht_bound b s' = (ht_bound b s)(k := if live v then Some v else None)"
    using chain_abs_put_val [OF c assms(2,3) i ok assms(7) here] assms(9) by (simp add: assms(11) plain_untagged)
  show "top_scale s' = top_scale s" unfolding assms(11) by (rule top_scale_upd) simp
qed

text \<open>The store of a key in an empty entry.\<close>

lemma install_here:
  assumes "core b s" and "b \<le> p" and "p < length (ht_store s)" and "cleared_below b s p k" and "k \<noteq> 0"
    and "slot (ht_store s ! p) k = Some i" and "tkey (ht_store s ! p) i = 0"
    and "s1 = upd_hti p (\<lambda>t. add_key_count 1 (put_key i k t)) s"
  shows "settled b s s1" and "ht_bound b s1 = ht_bound b s" and "cleared_below b s1 p k" and "slot (ht_store s1 ! p) k = Some i"
    and "tkey (ht_store s1 ! p) i = k" and "tval (ht_store s1 ! p) i = tval (ht_store s ! p) i" and "top_scale s1 = top_scale s"
    and "quiet_for b s k \<Longrightarrow> quiet_for b s1 k" and "length (ht_store s1) = length (ht_store s)"
proof -
  have c: "chain_ok b (ht_store s)" using assms(1) by (simp add: core_def)
  note P = chain_okD [OF c assms(2,3)]
  have i: "i < tsize (ht_store s ! p)" using slotD(1) [OF P(4) assms(6)] .
  let ?u = "add_key_count 1 (put_key i k (ht_store s ! p))"
  have t1: "ht_store s1 ! p = ?u" "\<And>r. r \<noteq> p \<Longrightarrow> ht_store s1 ! r = ht_store s ! r" using assms(3) by (simp_all add: assms(8))
  have ok: "chain_ok b ((ht_store s)[p := ?u])"
    by (rule chain_put_key [OF c assms(2,3,6,7,5)]) (use assms(4) cleared_passed in \<open>auto simp: cleared_below_def\<close>)
  have "core b s1" using assms(1) ok by (simp add: core_def assms(8))
  moreover have "frame {} s s1"
    unfolding assms(8) by (rule frame_upd) (use assms(7) in \<open>simp add: tab_frame_def\<close>)
  ultimately show "settled b s s1" by (simp add: frame_settled)
  show "ht_bound b s1 = ht_bound b s" using chain_abs_put_key [OF c assms(3,2,6,7) ok] by (simp add: assms(8))
  show "cleared_below b s1 p k" using assms(4) t1(2) by (simp add: cleared_below_def)
  show "slot (ht_store s1 ! p) k = Some i"
    using slot_cong [of ?u "put_key i k (ht_store s ! p)" k] slot_put_key_same [OF assms(6,7)] t1(1) by simp
  show "tkey (ht_store s1 ! p) i = k" "tval (ht_store s1 ! p) i = tval (ht_store s ! p) i" using i by (simp_all add: t1(1))
  show "top_scale s1 = top_scale s" unfolding assms(8) by (rule top_scale_upd) simp
  show "length (ht_store s1) = length (ht_store s)" by (simp add: assms(8))
  show "quiet_for b s1 k" if q: "quiet_for b s k"
    unfolding quiet_for_def
  proof (intro allI impI; elim conjE)
    fix r x assume r: "b \<le> r" "r < length (ht_store s1)" "x < tsize (ht_store s1 ! r)" "tkey (ht_store s1 ! r) x = k"
    show "\<not> pending (ht_store s1 ! r) x"
    proof (cases "r = p \<and> x = i")
      case True
      then show ?thesis using tab_okD(3) [OF P(1) i assms(7)] by (auto simp: pending_def t1(1))
    next
      case False
      then show ?thesis using q r t1(2) [of r] by (cases "r = p") (auto simp: quiet_for_def pending_def t1(1) assms(8))
    qed
  qed
qed

text \<open>The outcome of a call that is not referred to the next table.\<close>

definition cas_final :: "nat \<Rightarrow> hashtable_t \<Rightarrow> map_key_t \<Rightarrow> map_val_t \<Rightarrow> map_val_t \<Rightarrow> map_val_t \<Rightarrow> hashtable_t \<Rightarrow> bool" where
  "cas_final b s k e new ev s' \<longleftrightarrow> ev \<noteq> COPIED_VALUE \<and> (if ev = TOMBSTONE then 0 else ev) = found_val (ht_bound b s k) \<and>
     settled b s s' \<and> ht_bound b s' = (ht_bound b s)(k := cas_result e new (ht_bound b s k))"

lemma cas_writes_here:
  assumes "core b s" and "b \<le> p" and "p < length (ht_store s)" and "cleared_below b s p k" and "k \<noteq> 0"
    and "slot (ht_store s ! p) k = Some i" and "tkey (ht_store s ! p) i = k" and "\<not> tagged v" and "tval (ht_store s ! p) i = v"
    and "\<not> tagged new" and "new \<noteq> TOMBSTONE" and "e \<noteq> TOMBSTONE"
    and "s' = (if e \<noteq> CAS_EXPECT_WHATEVER \<and> e \<noteq> v \<and> e \<noteq> (if live v then CAS_EXPECT_EXISTS else CAS_EXPECT_DOES_NOT_EXIST) \<or>
        new = 0 \<and> \<not> live v \<or> v = new then s
      else upd_hti p (\<lambda>t. add_count (of_bool (new \<noteq> 0) - of_bool (live v)) (put_val i (if new = 0 then TOMBSTONE else new) t)) s)"
  shows "cas_final b s k e new v s'" and "top_scale s' = top_scale s"
proof -
  have un: "\<not> tagged (tval (ht_store s ! p) i)" using assms(8,9) by simp
  note B = bound_here(3) [OF assms(1-5,6,7) un, unfolded assms(9)]
  have vv: "v \<noteq> COPIED_VALUE" using assms(8) by auto
  have fv: "(if v = TOMBSTONE then 0 else v) = found_val (ht_bound b s k)"
    using B live_untagged [OF assms(8)] by (simp split: if_splits)
  have nl: "live new \<longleftrightarrow> new \<noteq> 0" using live_untagged [OF assms(10)] assms(11) by simp
  let ?miss = "e \<noteq> CAS_EXPECT_WHATEVER \<and> e \<noteq> v \<and> e \<noteq> (if live v then CAS_EXPECT_EXISTS else CAS_EXPECT_DOES_NOT_EXIST)"
  have ap: "cas_applies e (ht_bound b s k) \<longleftrightarrow> \<not> ?miss"
    using B live_untagged [OF assms(8)] assms(12) by (auto simp: cas_applies_def cas_expect_defs)
  have res: "(ht_bound b s)(k := cas_result e new (ht_bound b s k)) = ht_bound b s" if "?miss \<or> new = 0 \<and> \<not> live v \<or> v = new"
    using that B ap nl by (auto simp: cas_result_def fun_eq_iff)
  define w where "w = (if new = 0 then TOMBSTONE else new)"
  have w: "\<not> tagged w" "of_bool (live w) = (of_bool (new \<noteq> 0) :: size_t)" "live w \<longleftrightarrow> new \<noteq> 0"
    using assms(10) nl by (auto simp: w_def)
  show "cas_final b s k e new v s'" "top_scale s' = top_scale s"
  proof (atomize (full), cases "?miss \<or> new = 0 \<and> \<not> live v \<or> v = new")
    case True
    then have "s' = s" unfolding assms(13) by (rule if_P)
    then show "cas_final b s k e new v s' \<and> top_scale s' = top_scale s"
      using res [OF True] vv fv settled_refl [OF assms(1)] by (simp add: cas_final_def)
  next
    case False
    have d: "of_bool (new \<noteq> 0) - of_bool (live v) = (of_bool (live w) - of_bool (live (tval (ht_store s ! p) i)) :: size_t)"
      by (simp add: w assms(9))
    have s': "s' = upd_hti p (\<lambda>t. add_count (of_bool (new \<noteq> 0) - of_bool (live v)) (put_val i w t)) s"
      unfolding assms(13) w_def by (rule if_not_P [OF False])
    note W = write_here [OF assms(1-7) un w(1) d s']
    have "(ht_bound b s)(k := if live w then Some w else None) = (ht_bound b s)(k := cas_result e new (ht_bound b s k))"
      using False ap w(3) by (auto simp: cas_result_def w_def)
    then show "cas_final b s k e new v s' \<and> top_scale s' = top_scale s" using W vv fv by (simp add: cas_final_def)
  qed
qed

section \<open>The loop along the chain\<close>

definition cas_done :: "nat \<Rightarrow> hashtable_t \<Rightarrow> map_key_t \<Rightarrow> map_val_t \<Rightarrow> map_val_t \<Rightarrow> hashtable_t \<Rightarrow> bool" where
  "cas_done b s k e new s' \<longleftrightarrow> settled b s s' \<and> ht_bound b s' = (ht_bound b s)(k := cas_result e new (ht_bound b s k))"

lemma cas_loop_final:
  assumes "hti_cas p k (murmur32_8b k) e new s = ret (ev, s')" and "cas_final b s k e new ev s'"
  shows "ht_cas_loop p k (murmur32_8b k) e new s = ret (found_val (ht_bound b s k), s')" and "cas_done b s k e new s'"
proof -
  show "ht_cas_loop p k (murmur32_8b k) e new s = ret (found_val (ht_bound b s k), s')"
    using assms by (subst ht_cas_loop.simps) (auto simp: cas_final_def DOES_NOT_EXIST_def split: if_splits)
  show "cas_done b s k e new s'" using assms(2) by (simp add: cas_final_def cas_done_def)
qed

lemma cas_loop_next:
  assumes "hti_cas p k (murmur32_8b k) e new s = ret (COPIED_VALUE, s1)" and "core b s1" and "b \<le> p" and "Suc p < length (ht_store s1)"
  shows "ht_cas_loop p k (murmur32_8b k) e new s = ht_cas_loop (Suc p) k (murmur32_8b k) e new s1"
proof -
  have "hti_next (ht_store s1 ! p) = Some (Suc p)"
    using chain_okD(2) [of b "ht_store s1" p] assms(2-4) by (simp add: core_def)
  then show ?thesis using assms by (subst ht_cas_loop.simps) simp
qed

lemma cas_final_from:
  assumes "cas_final b s1 k e new ev s'" and "settled b s s1" and "ht_bound b s1 = ht_bound b s"
  shows "cas_final b s k e new ev s'"
  using assms settled_trans [OF assms(2)] by (simp add: cas_final_def)

lemma cas_done_from:
  assumes "cas_done b s1 k e new s'" and "settled b s s1" and "ht_bound b s1 = ht_bound b s"
  shows "cas_done b s k e new s'"
  using assms settled_trans [OF assms(2)] by (simp add: cas_done_def)

text \<open>The guards on an empty entry.\<close>

lemma cas_refused:
  assumes "core b s" and "b \<le> p" and "p < length (ht_store s)" and "cleared_below b s p k" and "k \<noteq> 0"
    and "slot (ht_store s ! p) k = Some i" and "tkey (ht_store s ! p) i = 0"
    and "e \<noteq> CAS_EXPECT_WHATEVER \<and> e \<noteq> CAS_EXPECT_DOES_NOT_EXIST \<or> new = 0"
  shows "cas_final b s k e new 0 s"
proof -
  have "ht_bound b s k = None" by (rule bound_here(2) [OF assms(1-7)])
  moreover from this have "(ht_bound b s)(k := cas_result e new (ht_bound b s k)) = ht_bound b s"
    using assms(8) by (auto simp: cas_result_def cas_applies_def fun_eq_iff)
  ultimately show ?thesis using settled_refl [OF assms(1)] by (simp add: cas_final_def)
qed

text \<open>The value parameters for which the code is written.\<close>

definition cas_args :: "map_key_t \<Rightarrow> map_val_t \<Rightarrow> map_val_t \<Rightarrow> bool" where
  "cas_args k e new \<longleftrightarrow> k \<noteq> 0 \<and> \<not> tagged new \<and> new \<noteq> TOMBSTONE \<and> e \<noteq> TOMBSTONE"

lemma cas_here:
  assumes "core b s" and "b \<le> p" and "p < length (ht_store s)" and "cleared_below b s p k" and "cas_args k e new"
    and "slot (ht_store s ! p) k = Some i" and "\<not> tagged (tval (ht_store s ! p) i)"
  shows "\<exists>ev s'. hti_cas p k (murmur32_8b k) e new s = ret (ev, s') \<and> cas_final b s k e new ev s' \<and> top_scale s' = top_scale s"
proof -
  have a: "k \<noteq> 0" "\<not> tagged new" "new \<noteq> TOMBSTONE" "e \<noteq> TOMBSTONE" using assms(5) by (auto simp: cas_args_def)
  have c: "chain_ok b (ht_store s)" using assms(1) by (simp add: core_def)
  note P = chain_okD [OF c assms(2,3)]
  have i: "i < tsize (ht_store s ! p)" "tkey (ht_store s ! p) i = 0 \<or> tkey (ht_store s ! p) i = k"
    using slotD [OF P(4) assms(6)] by auto
  note U = hti_cas_unfold [OF assms(1-3) a(1-3) refl, of e, unfolded assms(6) option.case]
  show ?thesis
  proof (cases "tkey (ht_store s ! p) i = 0")
    case False
    then have k: "tkey (ht_store s ! p) i = k" using i(2) by simp
    note W = cas_writes_here [OF assms(1-4) a(1) assms(6) k assms(7) refl a(2-4) refl]
    show ?thesis using U k a(1) assms(7) W by (auto simp: Let_def split: if_splits)
  next
    case True
    show ?thesis
    proof (cases "e \<noteq> CAS_EXPECT_WHATEVER \<and> e \<noteq> CAS_EXPECT_DOES_NOT_EXIST \<or> new = 0")
      case g: True
      then show ?thesis using U True cas_refused [OF assms(1-4) a(1) assms(6) True g] by auto
    next
      case g: False
      define s1 where "s1 = upd_hti p (\<lambda>t. add_key_count 1 (put_key i k t)) s"
      note I = install_here [OF assms(1-4) a(1) assms(6) True s1_def]
      have v: "tval (ht_store s ! p) i = 0" using tab_okD(3) [OF P(1) i(1) True] assms(7) by auto
      have un: "\<not> tagged (0 :: map_val_t)" by simp
      have c1: "core b s1" using I(1) by (simp add: settled_def)
      have p1: "p < length (ht_store s1)" using I(9) assms(3) by simp
      have v1: "tval (ht_store s1 ! p) i = 0" using I(6) v by simp
      note W = cas_writes_here [OF c1 assms(2) p1 I(3) a(1) I(4,5) un v1 a(2-4) refl]
      have "hti_cas p k (murmur32_8b k) e new s =
        ret (0, if e \<noteq> CAS_EXPECT_WHATEVER \<and> e \<noteq> 0 \<and> e \<noteq> (if live (0 :: map_val_t) then CAS_EXPECT_EXISTS else CAS_EXPECT_DOES_NOT_EXIST) \<or>
          new = 0 \<and> \<not> live (0 :: map_val_t) \<or> 0 = new then s1
        else upd_hti p (\<lambda>t. add_count (of_bool (new \<noteq> 0) - of_bool (live (0 :: map_val_t))) (put_val i (if new = 0 then TOMBSTONE else new) t)) s1)"
        using U True g v by (simp add: Let_def s1_def [symmetric])
      then show ?thesis using cas_final_from [OF W(1) I(1,2)] W(2) I(7) by auto
    qed
  qed
qed

text \<open>A key that table \<open>p\<close> refers to the next table, its own copy being finished.\<close>

lemma cas_onwards:
  assumes "core b s" and "b \<le> p" and "p < length (ht_store s)" and "cleared_below b s p k" and "cas_args k e new"
    and "slot (ht_store s ! p) k = Some i" and "sealed (tval (ht_store s ! p) i)"
  shows "(\<exists>s'. hti_cas p k (murmur32_8b k) e new s = ret (0, s') \<and> cas_final b s k e new 0 s' \<and> top_scale s' = top_scale s) \<or>
    (\<exists>s1. hti_cas p k (murmur32_8b k) e new s = ret (COPIED_VALUE, s1) \<and> settled b s s1 \<and> ht_bound b s1 = ht_bound b s \<and>
      cleared_below b s1 (Suc p) k \<and> top_scale s1 = top_scale s \<and> length (ht_store s1) = length (ht_store s) \<and>
      (quiet_for b s k \<longrightarrow> quiet_for b s1 k))"
proof -
  have a: "k \<noteq> 0" "\<not> tagged new" "new \<noteq> TOMBSTONE" using assms(5) by (auto simp: cas_args_def)
  have c: "chain_ok b (ht_store s)" using assms(1) by (simp add: core_def)
  note P = chain_okD [OF c assms(2,3)]
  have i: "i < tsize (ht_store s ! p)" "tkey (ht_store s ! p) i = 0 \<or> tkey (ht_store s ! p) i = k"
    using slotD [OF P(4) assms(6)] by auto
  note U = hti_cas_unfold [OF assms(1-3) a refl, of e, unfolded assms(6) option.case]
  have tg: "tagged (tval (ht_store s ! p) i)" by (rule sealed_tagged [OF assms(7)])
  show ?thesis
  proof (cases "tkey (ht_store s ! p) i = 0")
    case False
    then have k: "tkey (ht_store s ! p) i = k" using i(2) by simp
    then have "cleared (ht_store s ! p) k" using assms(6,7) by (simp add: cleared_def)
    then show ?thesis
      using U k a(1) tg assms(7) settled_refl [OF assms(1)] cleared_below_Suc [OF assms(4)] by (auto simp: Let_def)
  next
    case True
    show ?thesis
    proof (cases "e \<noteq> CAS_EXPECT_WHATEVER \<and> e \<noteq> CAS_EXPECT_DOES_NOT_EXIST \<or> new = 0")
      case g: True
      then show ?thesis using U True cas_refused [OF assms(1-4) a(1) assms(6) True g] by auto
    next
      case g: False
      define s1 where "s1 = upd_hti p (\<lambda>t. add_key_count 1 (put_key i k t)) s"
      note I = install_here [OF assms(1-4) a(1) assms(6) True s1_def]
      have "cleared (ht_store s1 ! p) k" using I(4-6) assms(7) by (simp add: cleared_def)
      then have "cleared_below b s1 (Suc p) k" using cleared_below_Suc [OF I(3)] by simp
      moreover have "hti_cas p k (murmur32_8b k) e new s = ret (COPIED_VALUE, s1)"
        using U True g tg assms(7) by (simp add: Let_def s1_def [symmetric])
      ultimately show ?thesis using I by blast
    qed
  qed
qed

lemma cas_loop_quiet:
  assumes "core b s" and "b \<le> p" and "p < length (ht_store s)" and "cleared_below b s p k" and "cas_args k e new"
    and "quiet_for b s k" and "top_scale s \<le> 29"
  shows "\<exists>s'. ht_cas_loop p k (murmur32_8b k) e new s = ret (found_val (ht_bound b s k), s') \<and> cas_done b s k e new s' \<and>
    top_scale s' \<le> top_scale s + 1"
  using assms
proof (induction "length (ht_store s) - p" arbitrary: p s rule: less_induct)
  case less
  let ?t = "ht_store s ! p"
  have a: "k \<noteq> 0" "\<not> tagged new" "new \<noteq> TOMBSTONE" using less.prems(5) by (auto simp: cas_args_def)
  have c: "chain_ok b (ht_store s)" using less.prems(1) by (simp add: core_def)
  note P = chain_okD [OF c less.prems(2,3)]
  note U = hti_cas_unfold [OF less.prems(1-3) a refl, of e]
  show ?case
  proof (cases "slot ?t k")
    case None
    then have cl: "cleared_below b s (Suc p) k" using cleared_below_Suc [OF less.prems(4)] by (simp add: cleared_def)
    show ?thesis
    proof (cases "Suc p < length (ht_store s)")
      case True
      have "hti_cas p k (murmur32_8b k) e new s = ret (COPIED_VALUE, s)" using U None P(2) True by simp
      moreover have "\<exists>s'. ht_cas_loop (Suc p) k (murmur32_8b k) e new s = ret (found_val (ht_bound b s k), s') \<and>
          cas_done b s k e new s' \<and> top_scale s' \<le> top_scale s + 1"
        using less.hyps [of s "Suc p"] less.prems True cl by simp
      ultimately show ?thesis using cas_loop_next [OF _ less.prems(1,2) True] by simp
    next
      case False
      then have last: "Suc p = length (ht_store s)" using less.prems(3) by simp
      then have "last (ht_store s) = ?t" using last_conv_nth [of "ht_store s"] by (cases "ht_store s") auto
      then have sc: "hti_scale ?t \<le> 29" using less.prems(7) by (simp add: top_scale_def)
      obtain s1 t where s1: "hti_start_copy p s = ret s1" "ht_store s1 = (ht_store s)[p := ?t\<lparr>hti_next := Some (Suc p)\<rparr>] @ [t]"
        "blank_table t" "core b s1" "ht_bound b s1 = ht_bound b s" "frame {} s s1" "top_scale s1 \<le> top_scale s + 1"
        using hti_start_copy_ok [OF less.prems(1) last sc] by blast
      have nth: "ht_store s1 ! Suc p = t" "ht_store s1 ! p = ?t\<lparr>hti_next := Some (Suc p)\<rparr>"
        "\<And>r. r < p \<Longrightarrow> ht_store s1 ! r = ht_store s ! r" "length (ht_store s1) = Suc (Suc p)"
        using s1(2) last by (auto simp: nth_append)
      have cl1: "cleared_below b s1 (Suc p) k"
        unfolding cleared_below_def
      proof (intro allI impI)
        fix r assume r: "b \<le> r \<and> r < Suc p"
        show "cleared (ht_store s1 ! r) k"
          using cl r nth(2) nth(3) [of r] None by (cases "r = p") (auto simp: cleared_below_def cleared_def set_next_facts(2))
      qed
      have blank: "hti_table t ! x = \<lparr>ent_key = 0, ent_val = 0\<rparr>" if "x < tsize t" for x
        using s1(3) that by (simp add: blank_table_def)
      have wf: "wf_table t" using s1(3) by (simp add: blank_table_def tab_ok_def)
      obtain j where j: "slot t k = Some j" using slot_exists [OF wf, of k] blank by auto
      have "\<not> tagged (tval t j)" using blank [OF slotD(1) [OF wf j]] by simp
      then obtain ev s' where s': "hti_cas (Suc p) k (murmur32_8b k) e new s1 = ret (ev, s')" "cas_final b s1 k e new ev s'"
        "top_scale s' = top_scale s1"
        using cas_here [OF s1(4) _ _ cl1 less.prems(5), of j] nth(1,4) j less.prems(2) by auto
      have "hti_cas p k (murmur32_8b k) e new s = ret (COPIED_VALUE, s1)" using U None P(2) last s1(1) by simp
      then have "ht_cas_loop p k (murmur32_8b k) e new s = ret (found_val (ht_bound b s1 k), s')"
        using cas_loop_next [OF _ s1(4) less.prems(2)] cas_loop_final(1) [OF s'(1,2)] nth(4) by simp
      moreover have "cas_done b s k e new s'"
        by (rule cas_done_from [OF cas_loop_final(2) [OF s'(1,2)] frame_settled [OF s1(6,4)] s1(5)])
      ultimately show ?thesis using s1(5,7) s'(3) by auto
    qed
  next
    case (Some i)
    have i: "i < tsize ?t" "tkey ?t i = 0 \<or> tkey ?t i = k" using slotD [OF P(4) Some] by auto
    show ?thesis
    proof (cases "tagged (tval ?t i)")
      case False
      then obtain ev s' where "hti_cas p k (murmur32_8b k) e new s = ret (ev, s')" "cas_final b s k e new ev s'" "top_scale s' = top_scale s"
        using cas_here [OF less.prems(1-5) Some] by blast
      then show ?thesis using cas_loop_final by auto
    next
      case True
      have se: "sealed (tval ?t i)"
      proof (cases "tkey ?t i = 0")
        case z: True
        then show ?thesis using tab_okD(3) [OF P(1) i(1) z] True by auto
      next
        case False
        then show ?thesis using i less.prems(2,3,6) True by (auto simp: quiet_for_def pending_def)
      qed
      have lt: "Suc p < length (ht_store s)" using P(3) [OF i(1) True] .
      from cas_onwards [OF less.prems(1-5) Some se] show ?thesis
      proof (elim disjE exE conjE)
        fix s' assume "hti_cas p k (murmur32_8b k) e new s = ret (0, s')" "cas_final b s k e new 0 s'" "top_scale s' = top_scale s"
        then show ?thesis using cas_loop_final by auto
      next
        fix s1 assume s1: "hti_cas p k (murmur32_8b k) e new s = ret (COPIED_VALUE, s1)" "settled b s s1" "ht_bound b s1 = ht_bound b s"
          "cleared_below b s1 (Suc p) k" "top_scale s1 = top_scale s" "length (ht_store s1) = length (ht_store s)"
          "quiet_for b s k \<longrightarrow> quiet_for b s1 k"
        have c1: "core b s1" using s1(2) by (simp add: settled_def)
        obtain s' where "ht_cas_loop (Suc p) k (murmur32_8b k) e new s1 = ret (found_val (ht_bound b s1 k), s')"
          "cas_done b s1 k e new s'" "top_scale s' \<le> top_scale s1 + 1"
          using less.hyps [of s1 "Suc p"] c1 less.prems lt s1 diff_less_mono2 [of p "Suc p" "length (ht_store s)"] by auto
        then show ?thesis
          using cas_loop_next [OF s1(1) c1 less.prems(2)] lt s1(3,5,6) cas_done_from [OF _ s1(2,3)] by auto
      qed
    qed
  qed
qed

lemma cas_loop_ok:
  assumes "core b s" and "b \<le> p" and "p < length (ht_store s)" and "cleared_below b s p k" and "cas_args k e new" and "top_scale s \<le> 28"
  shows "\<exists>s'. ht_cas_loop p k (murmur32_8b k) e new s = ret (found_val (ht_bound b s k), s') \<and> cas_done b s k e new s' \<and>
    top_scale s' \<le> top_scale s + 2"
  using assms(2-4)
proof (induction "length (ht_store s) - p" arbitrary: p)
  case 0
  then show ?case by simp
next
  case (Suc n)
  let ?t = "ht_store s ! p"
  have a: "k \<noteq> 0" "\<not> tagged new" "new \<noteq> TOMBSTONE" using assms(5) by (auto simp: cas_args_def)
  have c: "chain_ok b (ht_store s)" using assms(1) by (simp add: core_def)
  note P = chain_okD [OF c Suc.prems(1,2)]
  note U = hti_cas_unfold [OF assms(1) Suc.prems(1,2) a refl, of e]
  show ?case
  proof (cases "quiet_for b s k")
    case True
    then show ?thesis using cas_loop_quiet [OF assms(1) Suc.prems assms(5) True] assms(6) by fastforce
  next
    case False
    then obtain q j where q: "b \<le> q" "q < length (ht_store s)" "j < tsize (ht_store s ! q)" "tkey (ht_store s ! q) j = k" "pending (ht_store s ! q) j"
      by (auto simp: quiet_for_def)
    then have "live (tval (ht_store s ! q) j)" using tagged_live_or_sealed by (auto simp: pending_def)
    then have la: "live_at b (ht_store s) k q j" using q by (simp add: live_at_def)
    have "p \<le> q" by (rule live_not_below [OF c Suc.prems(3) la])
    show ?thesis
    proof (cases "q = p")
      case True
      have sl: "slot ?t k = Some j" using tab_okD(2) [OF P(1)] q True a(1) by auto
      have t29: "top_scale s \<le> 29" using assms(6) by simp
      obtain s1 s2 where s1: "hti_copy_entry p j (murmur32_8b k) (hti_next ?t) s = ret (True, s1)"
        and s2: "s2 = upd_hti p (add_copied 1) s1" "settled b s s2" "ht_bound b s2 = ht_bound b s" "quiet_for b s2 k"
        "cleared_below b s2 (Suc p) k" "top_scale s2 \<le> top_scale s + 1" "Suc p < length (ht_store s2)"
        using finish_pending [OF assms(1) Suc.prems(1,2) sl _ a(1) _ t29 Suc.prems(3)] q True by (auto simp: Let_def)
      have c2: "core b s2" using s2(2) by (simp add: settled_def)
      obtain s' where s': "ht_cas_loop (Suc p) k (murmur32_8b k) e new s2 = ret (found_val (ht_bound b s2 k), s')"
        "cas_done b s2 k e new s'" "top_scale s' \<le> top_scale s2 + 1"
        using cas_loop_quiet [OF c2 _ s2(7,5) assms(5) s2(4)] Suc.prems(1) s2(6) assms(6) by auto
      have "hti_cas p k (murmur32_8b k) e new s = ret (COPIED_VALUE, s2)"
        using U sl q True a(1) s1 by (auto simp: pending_def Let_def s2(1))
      then show ?thesis
        using cas_loop_next [OF _ c2 Suc.prems(1) s2(7)] s' s2(3,6) cas_done_from [OF s'(2) s2(2,3)] by auto
    next
      case False
      then have lt: "p < q" "Suc p < length (ht_store s)" using \<open>p \<le> q\<close> q(2) by auto
      have "linked ?t (ht_store s ! q)" using P(5) [OF lt(1) q(2)] .
      then have pass: "passed ?t k" using q a(1) by (auto simp: linked_def)
      have cl: "cleared ?t k"
      proof (cases "slot ?t k")
        case (Some i)
        then have i: "tkey ?t i = k" "tagged (tval ?t i)" "i < tsize ?t" using pass slotD(1) [OF P(4) Some] by (auto simp: passed_def)
        have "\<not> live (tval ?t i)"
          using live_at_unique [OF c la, of p i] i Suc.prems(1,2) False by (auto simp: live_at_def)
        then show ?thesis using i Some tagged_live_or_sealed by (simp add: cleared_def)
      qed (simp add: cleared_def)
      have "hti_cas p k (murmur32_8b k) e new s = ret (COPIED_VALUE, s)"
      proof (cases "slot ?t k")
        case None
        then show ?thesis using U P(2) lt(2) by simp
      next
        case (Some i)
        then have i: "tkey ?t i = k" "sealed (tval ?t i)" using cl by (auto simp: cleared_def)
        then show ?thesis using U Some a(1) sealed_tagged [OF i(2)] by (simp add: Let_def)
      qed
      moreover have "\<exists>s'. ht_cas_loop (Suc p) k (murmur32_8b k) e new s = ret (found_val (ht_bound b s k), s') \<and> cas_done b s k e new s' \<and>
          top_scale s' \<le> top_scale s + 2"
        using Suc.hyps(1) [of "Suc p"] Suc.hyps(2) Suc.prems lt cleared_below_Suc [OF Suc.prems(3) cl] by simp
      ultimately show ?thesis using cas_loop_next [OF _ assms(1) Suc.prems(1) lt(2)] by simp
    qed
  qed
qed

end
