(* ===== verification/Hashtable_Map.thy ===== *)
theory Hashtable_Map
  imports Hashtable_Update
begin

text \<open>
  The hash table as a map: the invariant of the operations of \<^verbatim>\<open>src/src/map/hashtable.c\<close>, the
  map a state represents, and the interpretation of the map contract.
\<close>

section \<open>The invariant\<close>

definition inv_from :: "nat \<Rightarrow> hashtable_t \<Rightarrow> bool" where
  "inv_from b s \<longleftrightarrow> (\<forall>r. b \<le> r \<and> r < length (ht_store s) \<longrightarrow> prog_ok (ht_store s ! r) \<and> 1 \<le> hti_ref_count (ht_store s ! r))"

definition quiet_from :: "nat \<Rightarrow> hashtable_t \<Rightarrow> bool" where
  "quiet_from b s \<longleftrightarrow> (\<forall>r i. b \<le> r \<and> r < length (ht_store s) \<and> i < tsize (ht_store s ! r) \<longrightarrow> \<not> pending (ht_store s ! r) i)"

definition ht_inv :: "hashtable_t \<Rightarrow> bool" where
  "ht_inv s \<longleftrightarrow> core (ht_hti s) s \<and> inv_from (ht_hti s) s"

text \<open>No copy of an entry is half done.\<close>

definition ht_quiet :: "hashtable_t \<Rightarrow> bool" where
  "ht_quiet s \<longleftrightarrow> quiet_from (ht_hti s) s"

definition ht_abs :: "hashtable_t \<Rightarrow> map_key_t \<Rightarrow> map_val_t option" where
  "ht_abs s = ht_bound (ht_hti s) s"

lemma settled_inv_from:
  assumes "settled b s s'" and "inv_from c s"
  shows "inv_from c s'"
  unfolding inv_from_def
proof (intro allI impI; elim conjE)
  fix r assume r: "c \<le> r" "r < length (ht_store s')"
  show "prog_ok (ht_store s' ! r) \<and> 1 \<le> hti_ref_count (ht_store s' ! r)"
    using assms r by (cases "r < length (ht_store s)") (auto simp: settled_def tab_settled_def inv_from_def)
qed

lemma settled_quiet_from:
  assumes "settled b s s'" and "quiet_from c s"
  shows "quiet_from c s'"
  unfolding quiet_from_def
proof (intro allI impI; elim conjE)
  fix r i assume r: "c \<le> r" "r < length (ht_store s')" "i < tsize (ht_store s' ! r)"
  show "\<not> pending (ht_store s' ! r) i"
  proof (cases "r < length (ht_store s)")
    case True
    then have "tab_settled (ht_store s ! r) (ht_store s' ! r)" using assms(1) by (simp add: settled_def)
    then show ?thesis using assms(2) r True by (auto simp: quiet_from_def tab_settled_def)
  next
    case False
    then show ?thesis using assms(1) r by (auto simp: settled_def)
  qed
qed

lemma settled_ht_inv:
  assumes "settled (ht_hti s) s s'" and "ht_inv s"
  shows "ht_inv s'" and "ht_quiet s \<Longrightarrow> ht_quiet s'" and "ht_hti s' = ht_hti s"
proof -
  show h: "ht_hti s' = ht_hti s" using assms(1) by (simp add: settled_def)
  show "ht_inv s'" using assms settled_inv_from [OF assms(1)] h by (simp add: ht_inv_def settled_def)
  show "ht_quiet s'" if "ht_quiet s" using that settled_quiet_from [OF assms(1)] h by (simp add: ht_quiet_def)
qed

lemma ht_inv_base: "ht_inv s \<Longrightarrow> ht_hti s < length (ht_store s)" "ht_inv s \<Longrightarrow> ht_key_type s = None" "cleared_below (ht_hti s) s (ht_hti s) k"
  by (auto simp: ht_inv_def core_def cleared_below_def)

section \<open>Operations\<close>

lemma ht_get_ok:
  assumes "ht_inv s" and "k \<noteq> 0" and "top_scale s \<le> 29"
  shows "\<exists>s'. ht_get s k = ret (found_val (ht_abs s k), s') \<and> ht_inv s' \<and> ht_abs s' = ht_abs s \<and> (ht_quiet s \<longrightarrow> ht_quiet s')"
proof -
  have c: "core (ht_hti s) s" using assms(1) by (simp add: ht_inv_def)
  obtain s' where s': "hti_get (ht_hti s) k (murmur32_8b k) s = ret (found_val (ht_bound (ht_hti s) s k), s')"
    "settled (ht_hti s) s s'" "ht_bound (ht_hti s) s' = ht_bound (ht_hti s) s"
    using hti_get_ok [OF c order_refl ht_inv_base(1) [OF assms(1)] ht_inv_base(3) assms(2,3)] by blast
  show ?thesis
    using s' settled_ht_inv [OF s'(2) assms(1)] ht_inv_base(2) [OF assms(1)]
    by (auto simp: ht_get_def ht_abs_def key_hash_of_def)
qed

lemma ht_get_quiet:
  assumes "ht_inv s" and "ht_quiet s" and "k \<noteq> 0"
  shows "ht_get s k = ret (found_val (ht_abs s k), s)"
proof -
  have c: "core (ht_hti s) s" using assms(1) by (simp add: ht_inv_def)
  have q: "quiet_for (ht_hti s) s k" using assms(2) by (auto simp: ht_quiet_def quiet_from_def quiet_for_def)
  show ?thesis
    using hti_get_quiet [OF c order_refl ht_inv_base(1) [OF assms(1)] ht_inv_base(3) assms(3) q] ht_inv_base(2) [OF assms(1)]
    by (simp add: ht_get_def ht_abs_def key_hash_of_def)
qed

lemma ht_remove_ok:
  assumes "ht_inv s" and "k \<noteq> 0" and "top_scale s \<le> 28"
  shows "\<exists>s'. ht_remove s k = ret (found_val (ht_abs s k), s') \<and> ht_inv s' \<and> ht_abs s' = (ht_abs s)(k := None) \<and>
    top_scale s' \<le> top_scale s + 2 \<and> (ht_quiet s \<longrightarrow> ht_quiet s')"
proof -
  have c: "core (ht_hti s) s" using assms(1) by (simp add: ht_inv_def)
  have a: "cas_args k CAS_EXPECT_WHATEVER 0"
    using assms(2) by (simp add: cas_args_def CAS_EXPECT_WHATEVER_def TOMBSTONE_def STRIP_TAG_def TAG1_val)
  obtain s' where s': "ht_cas_loop (ht_hti s) k (murmur32_8b k) CAS_EXPECT_WHATEVER 0 s = ret (found_val (ht_bound (ht_hti s) s k), s')"
    "cas_done (ht_hti s) s k CAS_EXPECT_WHATEVER 0 s'" "top_scale s' \<le> top_scale s + 2"
    using cas_loop_ok [OF c order_refl ht_inv_base(1) [OF assms(1)] ht_inv_base(3) a assms(3)] by blast
  have "cas_result CAS_EXPECT_WHATEVER 0 r = None" for r
    by (simp add: cas_result_def cas_applies_def split: option.split)
  then have d: "settled (ht_hti s) s s'" "ht_bound (ht_hti s) s' = (ht_bound (ht_hti s) s)(k := None)"
    using s'(2) by (simp_all add: cas_done_def)
  show ?thesis
    using s'(1,3) d(2) settled_ht_inv [OF d(1) assms(1)] ht_inv_base(2) [OF assms(1)]
    by (auto simp: ht_remove_def ht_abs_def key_hash_of_def DOES_NOT_EXIST_def)
qed

text \<open>Releasing a table whose entries are all copied.\<close>

lemma hti_free_keys_None:
  "\<forall>e \<in> set es. tagged (ent_val e) \<longrightarrow> sealed (ent_val e) \<Longrightarrow> hti_free_keys None es s = ret s"
  by (induction es) (auto simp: tagged_def sealed_def)

definition drop_ref :: "nat \<Rightarrow> hashtable_t \<Rightarrow> hashtable_t" where
  "drop_ref p s = (upd_hti p (\<lambda>t. t\<lparr>hti_ref_count := hti_ref_count t - 1\<rparr>) s)
     \<lparr>ht_deferred := ht_deferred s @ (if hti_ref_count (ht_store s ! p) = 1 then [Freed_Table p, Freed_Hti p] else [])\<rparr>"

lemma drop_ref_sel [simp]:
  "ht_store (drop_ref p s) = (ht_store s)[p := (ht_store s ! p)\<lparr>hti_ref_count := hti_ref_count (ht_store s ! p) - 1\<rparr>]"
  "ht_hti (drop_ref p s) = ht_hti s" "ht_key_type (drop_ref p s) = ht_key_type s"
  by (simp_all add: drop_ref_def)

lemma hti_release_ok:
  assumes "p < length (ht_store s)" and "0 < hti_ref_count (ht_store s ! p)" and "ht_key_type s = None"
    and "\<forall>i < tsize (ht_store s ! p). \<not> pending (ht_store s ! p) i"
  shows "hti_release p s = ret (drop_ref p s)"
proof -
  have e: "\<forall>e \<in> set (hti_table (ht_store s ! p)). tagged (ent_val e) \<longrightarrow> sealed (ent_val e)"
    using assms(4) by (auto simp: in_set_conv_nth pending_def)
  define s1 where "s1 = upd_hti p (\<lambda>t. t\<lparr>hti_ref_count := hti_ref_count t - 1\<rparr>) s"
  have f: "hti_free_keys None (hti_table (ht_store s ! p)) s1 = ret s1" by (rule hti_free_keys_None [OF e])
  have s1: "p < length (ht_store s1)" "ht_key_type s1 = None" "ht_deferred s1 = ht_deferred s"
    "ht_store s1 ! p = (ht_store s ! p)\<lparr>hti_ref_count := hti_ref_count (ht_store s ! p) - 1\<rparr>"
    using assms(1,3) by (simp_all add: s1_def)
  show ?thesis
  proof (cases "hti_ref_count (ht_store s ! p) = 1")
    case True
    then show ?thesis
      using assms(1,2) s1 f
      by (simp add: hti_release_def hti_defer_free_def Let_def s1_def [symmetric] drop_ref_def ht_defer_def)
  next
    case False
    have "s1\<lparr>ht_deferred := ht_deferred s\<rparr> = s1" using s1(3) by (metis hashtable_t.surjective hashtable_t.update_convs(7) hashtable_t.select_convs(7))
    then show ?thesis
      using False assms(1,2) by (simp add: hti_release_def Let_def s1_def [symmetric] drop_ref_def)
  qed
qed

lemma drop_ref_core:
  assumes "core b s" and "p < length (ht_store s)"
  shows "core b (drop_ref p s)" and "ht_bound b (drop_ref p s) = ht_bound b s" and "top_scale (drop_ref p s) = top_scale s"
proof -
  let ?f = "\<lambda>t. t\<lparr>hti_ref_count := hti_ref_count t - 1\<rparr>"
  note U = core_upd_counters [OF assms refl, of ?f, simplified]
  show "core b (drop_ref p s)" using U(1) by (simp add: core_def)
  show "ht_bound b (drop_ref p s) = ht_bound b s" using U(2) by simp
  have "top_scale (upd_hti p ?f s) = top_scale s" by (rule top_scale_upd) simp
  then show "top_scale (drop_ref p s) = top_scale s" by (simp add: top_scale_def)
qed

lemma bound_skip:
  assumes "chain_ok p st" and "Suc p < length st" and "all_sealed (st ! p)"
  shows "chain_abs (Suc p) st = chain_abs p st"
proof
  fix k
  have "live_at (Suc p) st k r i \<longleftrightarrow> live_at p st k r i" for r i
    using assms(3) sealed_not_live by (cases "r = p") (auto simp: live_at_def all_sealed_def)
  then show "chain_abs (Suc p) st k = chain_abs p st k"
    by (intro chain_abs_same [OF assms(1) chain_ok_mono [OF assms(1)]]) simp_all
qed

lemma all_sealed_settled:
  assumes "all_sealed (ht_store s ! p)" and "settled b s s'" and "p < length (ht_store s)"
  shows "all_sealed (ht_store s' ! p)"
proof -
  have "tab_settled (ht_store s ! p) (ht_store s' ! p)" using assms(2,3) by (simp add: settled_def)
  then show ?thesis using assms(1) by (simp add: all_sealed_def tab_settled_def)
qed

text \<open>The state in which \<^verbatim>\<open>ht_cas\<close> enters its loop: a finished table is unlinked and released.\<close>

lemma ht_cas_enters:
  assumes "ht_inv s" and "k \<noteq> 0" and "\<not> tagged v" and "v \<noteq> 0" and "v \<noteq> TOMBSTONE" and "top_scale s \<le> 22"
  shows "\<exists>s1. ht_cas s k e v = ht_cas_loop (ht_hti s) k (murmur32_8b k) e v s1 \<and> core (ht_hti s) s1 \<and>
    ht_bound (ht_hti s) s1 = ht_abs s \<and> inv_from (ht_hti s1) s1 \<and> top_scale s1 \<le> top_scale s + 8 \<and>
    (ht_quiet s \<longrightarrow> quiet_from (ht_hti s) s1) \<and>
    (ht_hti s1 = ht_hti s \<or> ht_hti s1 = Suc (ht_hti s) \<and> Suc (ht_hti s) < length (ht_store s1) \<and> all_sealed (ht_store s1 ! ht_hti s))"
proof -
  let ?p = "ht_hti s"
  let ?t = "ht_store s ! ?p"
  have c: "core ?p s" "chain_ok ?p (ht_store s)" "inv_from ?p s" using assms(1) by (simp_all add: ht_inv_def core_def)
  have p: "?p < length (ht_store s)" "ht_key_type s = None" using ht_inv_base(1,2) [OF assms(1)] by auto
  have v: "IS_TAGGED v TAG1 = 0" using assms(3) by (simp add: tagged_def)
  note P = chain_okD [OF c(2) order_refl p(1)]
  show ?thesis
  proof (cases "Suc ?p < length (ht_store s)")
    case False
    then have "hti_next ?t = None" using P(2) by simp
    then have "ht_cas s k e v = ht_cas_loop ?p k (murmur32_8b k) e v s"
      using p assms(2,4,5) v by (simp add: ht_cas_def key_hash_of_def DOES_NOT_EXIST_def)
    then show ?thesis using c by (intro exI [of _ s]) (simp add: ht_abs_def ht_quiet_def)
  next
    case True
    then have nx: "hti_next ?t = Some (Suc ?p)" using P(2) by simp
    have prog: "prog_ok ?t" using c(3) p(1) by (simp add: inv_from_def)
    obtain s1 where s1: "hti_help_copy ?p s = ret (all_sealed (ht_store s1 ! ?p), s1)" "helped ?p s ?p s1"
      using hti_help_copy_ok [OF c(1) order_refl True prog assms(6)] by blast
    have h: "settled ?p s s1" "ht_bound ?p s1 = ht_bound ?p s" "top_scale s1 \<le> top_scale s + 8" using s1(2) by (auto simp: helped_def)
    have c1: "core ?p s1" "ht_hti s1 = ?p" "ht_key_type s1 = None" "Suc ?p < length (ht_store s1)"
      using h(1) True by (auto simp: settled_def core_def)
    have i1: "inv_from ?p s1" using settled_inv_from [OF h(1) c(3)] .
    have q1: "ht_quiet s \<longrightarrow> quiet_from ?p s1" using settled_quiet_from [OF h(1)] by (simp add: ht_quiet_def)
    show ?thesis
    proof (cases "all_sealed (ht_store s1 ! ?p)")
      case False
      then have "ht_cas s k e v = ht_cas_loop ?p k (murmur32_8b k) e v s1"
        using p assms(2,4,5) v nx s1(1) c1(3) by (simp add: ht_cas_def key_hash_of_def DOES_NOT_EXIST_def)
      then show ?thesis using c1 h i1 q1 by (intro exI [of _ s1]) (simp add: ht_abs_def)
    next
      case True
      define s2 where "s2 = s1\<lparr>ht_hti := Suc ?p\<rparr>"
      define s3 where "s3 = drop_ref ?p s2"
      have nx1: "hti_next (ht_store s1 ! ?p) = Some (Suc ?p)"
        using chain_okD(2) [of ?p "ht_store s1" ?p] c1(1,4) by (simp add: core_def)
      have rel: "hti_release ?p s2 = ret s3"
        unfolding s3_def
        by (rule hti_release_ok) (use c1 i1 True in \<open>auto simp: s2_def inv_from_def all_sealed_def pending_def\<close>)
      have kt2: "ht_key_type s2 = None" using c1(3) by (simp add: s2_def)
      have core2: "core ?p s2" using c1 by (simp add: s2_def core_def)
      have p2: "?p < length (ht_store s2)" using c1(4) by (simp add: s2_def)
      note D = drop_ref_core [OF core2 p2, folded s3_def]
      have "ht_cas s k e v = ht_cas_loop ?p k (murmur32_8b k) e v s3"
        using p assms(2,4,5) v nx nx1 s1(1) True c1 rel kt2
        by (simp add: ht_cas_def key_hash_of_def DOES_NOT_EXIST_def s2_def [symmetric] s3_def Let_def)
      moreover have "ht_bound ?p s3 = ht_abs s" "top_scale s3 \<le> top_scale s + 8" "ht_hti s3 = Suc ?p" "length (ht_store s3) = length (ht_store s1)"
        using D h by (simp_all add: s2_def s3_def ht_abs_def top_scale_def)
      moreover have "inv_from (Suc ?p) s3" using i1 by (simp add: inv_from_def s3_def s2_def)
      moreover have "quiet_from ?p s3" if "quiet_from ?p s1"
        unfolding quiet_from_def
      proof (intro allI impI; elim conjE)
        fix r i assume r: "?p \<le> r" "r < length (ht_store s3)" "i < tsize (ht_store s3 ! r)"
        have "hti_table (ht_store s3 ! r) = hti_table (ht_store s1 ! r)"
          using c1(4) by (cases "r = ?p") (simp_all add: s3_def s2_def)
        then show "\<not> pending (ht_store s3 ! r) i" using that r by (simp add: quiet_from_def pending_def s3_def s2_def)
      qed
      moreover have "all_sealed (ht_store s3 ! ?p)" using True c1(4) by (simp add: s3_def s2_def all_sealed_def)
      ultimately show ?thesis using D(1) c1(4) q1 by (intro exI [of _ s3]) simp
    qed
  qed
qed

lemma ht_cas_ok:
  assumes "ht_inv s" and "k \<noteq> 0" and "\<not> tagged v" and "v \<noteq> 0" and "v \<noteq> TOMBSTONE" and "e \<noteq> TOMBSTONE" and "top_scale s \<le> 20"
  shows "\<exists>s'. ht_cas s k e v = ret (found_val (ht_abs s k), s') \<and> ht_inv s' \<and>
    ht_abs s' = (ht_abs s)(k := cas_result e v (ht_abs s k)) \<and> top_scale s' \<le> top_scale s + 10 \<and> (ht_quiet s \<longrightarrow> ht_quiet s')"
proof -
  let ?p = "ht_hti s"
  have top22: "top_scale s \<le> 22" using assms(7) by simp
  obtain s1 where s1: "ht_cas s k e v = ht_cas_loop ?p k (murmur32_8b k) e v s1" "core ?p s1" "ht_bound ?p s1 = ht_abs s"
    "inv_from (ht_hti s1) s1" "top_scale s1 \<le> top_scale s + 8" "ht_quiet s \<longrightarrow> quiet_from ?p s1"
    "ht_hti s1 = ?p \<or> ht_hti s1 = Suc ?p \<and> Suc ?p < length (ht_store s1) \<and> all_sealed (ht_store s1 ! ?p)"
    using ht_cas_enters [OF assms(1-5) top22] by blast
  have a: "cas_args k e v" using assms(2-6) by (simp add: cas_args_def)
  have p1: "?p < length (ht_store s1)" using s1(2) by (simp add: core_def)
  have cb: "cleared_below ?p s1 ?p k" by (auto simp: cleared_below_def)
  have top28: "top_scale s1 \<le> 28" using s1(5) assms(7) by simp
  obtain s' where s': "ht_cas_loop ?p k (murmur32_8b k) e v s1 = ret (found_val (ht_bound ?p s1 k), s')"
    "settled ?p s1 s'" "ht_bound ?p s' = (ht_bound ?p s1)(k := cas_result e v (ht_bound ?p s1 k))" "top_scale s' \<le> top_scale s1 + 2"
    using cas_loop_ok [OF s1(2) order_refl p1 cb a top28] by (auto simp: cas_done_def)
  have c': "core ?p s'" "ht_hti s' = ht_hti s1" using s'(2) by (auto simp: settled_def)
  then have ck: "chain_ok ?p (ht_store s')" by (simp add: core_def)
  have le: "?p \<le> ht_hti s1" using s1(7) by auto
  have "inv_from (ht_hti s') s'" using settled_inv_from [OF s'(2) s1(4)] c'(2) by simp
  moreover have "core (ht_hti s') s'" using c' chain_ok_mono [OF ck] le by (simp add: core_def)
  moreover have "ht_abs s' = ht_bound ?p s'"
    using s1(7)
  proof
    assume "ht_hti s1 = Suc ?p \<and> Suc ?p < length (ht_store s1) \<and> all_sealed (ht_store s1 ! ?p)"
    moreover from this have "all_sealed (ht_store s' ! ?p)" using all_sealed_settled [OF _ s'(2) p1] by simp
    moreover have "length (ht_store s1) \<le> length (ht_store s')" using s'(2) by (simp add: settled_def)
    ultimately show ?thesis using bound_skip [OF ck] c'(2) by (simp add: ht_abs_def)
  qed (use c'(2) in \<open>simp add: ht_abs_def\<close>)
  moreover have "ht_quiet s \<longrightarrow> ht_quiet s'"
    using s1(6) settled_quiet_from [OF s'(2)] le c'(2) by (auto simp: ht_quiet_def quiet_from_def)
  ultimately show ?thesis using s1(1,3,5) s' by (auto simp: ht_inv_def)
qed

lemma ht_alloc_ok: "\<exists>s. ht_alloc None junk = ret s \<and> ht_inv s \<and> ht_quiet s \<and> ht_abs s = Map.empty \<and> top_scale s = 4 \<and>
    ht_hti s = 0 \<and> length (ht_store s) = 1 \<and> hti_ref_count (ht_store s ! 0) = 1 \<and> ht_deferred s = []"
proof -
  define s0 where "s0 = \<lparr>ht_store = [], ht_hti = 0, ht_key_type = None, ht_hti_copies = 0, ht_density = (0, 1), ht_probe = junk, ht_deferred = []\<rparr>"
  obtain t where t: "hti_alloc 4 s0 = ret (0, s0\<lparr>ht_store := [t]\<rparr>)" "blank_table t" "hti_scale t = 4"
    using hti_alloc_ok [of 4 s0] by (auto simp: s0_def)
  define s where "s = s0\<lparr>ht_store := [t], ht_hti := 0\<rparr>"
  have run: "ht_alloc None junk = ret s" using t(1) by (simp add: ht_alloc_def MIN_SCALE_def s_def s0_def)
  have st: "ht_store s = [t]" "ht_hti s = 0" "ht_key_type s = None" "ht_deferred s = []" by (simp_all add: s_def s0_def)
  have b: "tab_ok t" "fresh_table t" "hti_next t = None" "\<And>i. i < tsize t \<Longrightarrow> tval t i = 0" using t(2) by (auto simp: blank_table_def)
  have "chain_ok 0 [t]" using b by (auto simp: chain_ok_def)
  moreover have "prog_ok t" "hti_ref_count t = 1" using fresh_prog_ok [OF b(2)] b(2) by (auto simp: fresh_table_def)
  moreover have "bindings t = []" using b(4) by (auto simp: bindings_def filter_empty_conv in_set_conv_nth)
  ultimately show ?thesis
    using run st b(4) t(3)
    by (intro exI [of _ s]) (auto simp: ht_inv_def core_def inv_from_def ht_quiet_def quiet_from_def pending_def ht_abs_def
        chain_abs_def top_scale_def)
qed

section \<open>The interface of a map\<close>

definition ht_impl :: "hashtable_t map_impl" where
  "ht_impl = \<lparr>impl_cas = ht_cas, impl_get = ht_get, impl_remove = ht_remove, impl_count = ht_count\<rparr>"

text \<open>Values that can be stored: untagged, and neither of the two values that mean an absent binding.\<close>

definition ht_vals :: "map_val_t set" where
  "ht_vals = {v. \<not> tagged v \<and> v \<noteq> DOES_NOT_EXIST \<and> v \<noteq> TOMBSTONE}"

abbreviation ht_stable :: "hashtable_t \<Rightarrow> bool" where
  "ht_stable s \<equiv> ht_inv s \<and> ht_quiet s"

text \<open>An update may start copies and so raise the scale of the newest table, by ten at most; the model
  follows the code up to \<open>2 ^ 30\<close> entries.\<close>

definition ht_room :: "hashtable_t \<Rightarrow> nat" where
  "ht_room s = (30 - top_scale s) div 10"

lemma ht_room_pos: "0 < ht_room s \<longleftrightarrow> top_scale s \<le> 20"
  by (auto simp: ht_room_def)

lemma ht_room_step: "top_scale s' \<le> top_scale s + 10 \<Longrightarrow> ht_room s \<le> ht_room s' + 1"
  by (simp add: ht_room_def)

lemma fun_upd_bind_key: "(m(k := cas_result e v (m k))) k' =
    (if cas_applies e (m k) then bind_key (=) k (if v = 0 then None else Some v) m k' else m k')"
  by (simp add: cas_result_def bind_key_def)

lemma ht_cas_contract:
  assumes "ht_stable s" and "k \<noteq> 0" and "v \<in> ht_vals" and "0 < ht_room s" and "e \<noteq> TOMBSTONE"
  shows "\<exists>s'. impl_cas ht_impl s k e v = ret (found_val (ht_abs s k), s') \<and> ht_stable s' \<and> ht_room s \<le> ht_room s' + 1 \<and>
    (\<forall>k' \<in> K. ht_abs s' k' = (if cas_applies e (ht_abs s k) then bind_key (=) k (Some v) (ht_abs s) k' else ht_abs s k'))"
proof -
  have v: "\<not> tagged v" "v \<noteq> 0" "v \<noteq> TOMBSTONE" using assms(3) by (simp_all add: ht_vals_def DOES_NOT_EXIST_def)
  have top: "top_scale s \<le> 20" using assms(4) by (simp add: ht_room_pos)
  obtain s' where "ht_cas s k e v = ret (found_val (ht_abs s k), s')" "ht_inv s'"
    "ht_abs s' = (ht_abs s)(k := cas_result e v (ht_abs s k))" "top_scale s' \<le> top_scale s + 10" "ht_quiet s'"
    using ht_cas_ok [OF _ assms(2) v assms(5) top] assms(1) by blast
  then show ?thesis
    using v(2) ht_room_step [of s' s] by (intro exI [of _ s']) (simp add: ht_impl_def fun_upd_bind_key [of "ht_abs s"] del: fun_upd_apply)
qed

interpretation htm: comparing_map ht_impl ht_stable ht_abs ht_room "{k. k \<noteq> 0}" ht_vals "{e. e \<noteq> TOMBSTONE}" "(=)"
proof unfold_locales
  fix s and k :: map_key_t assume s: "ht_stable s" and k: "k \<in> {k. k \<noteq> 0}"
  show "\<exists>s'. impl_get ht_impl s k = ret (found_val (ht_abs s k), s') \<and> ht_stable s' \<and>
      (\<forall>k' \<in> {k. k \<noteq> 0}. ht_abs s' k' = ht_abs s k') \<and> ht_room s \<le> ht_room s'"
    using ht_get_quiet [of s k] s k by (simp add: ht_impl_def)
  assume "0 < ht_room s"
  then have top: "top_scale s \<le> 28" by (simp add: ht_room_pos)
  obtain s' where "ht_remove s k = ret (found_val (ht_abs s k), s')" "ht_inv s'" "ht_abs s' = (ht_abs s)(k := None)"
    "top_scale s' \<le> top_scale s + 2" "ht_quiet s'"
    using ht_remove_ok [OF _ _ top] s k by blast
  then show "\<exists>s'. impl_remove ht_impl s k = ret (found_val (ht_abs s k), s') \<and> ht_stable s' \<and> ht_room s \<le> ht_room s' + 1 \<and>
      (\<forall>k' \<in> {k. k \<noteq> 0}. ht_abs s' k' = bind_key (=) k None (ht_abs s) k')"
    using ht_room_step [of s' s] by (intro exI [of _ s']) (simp add: ht_impl_def bind_key_def)
next
  fix s and k v e :: uint64_t
  assume a: "ht_stable s" "k \<in> {k. k \<noteq> 0}" "v \<in> ht_vals" "0 < ht_room s" "e \<in> {e. e \<noteq> TOMBSTONE}"
  note C = ht_cas_contract [OF a(1) _ a(3,4), of k e "{k. k \<noteq> 0}"]
  show "\<exists>s'. impl_cas ht_impl s k e v = ret (found_val (ht_abs s k), s') \<and> ht_stable s' \<and> ht_room s \<le> ht_room s' + 1 \<and>
      (\<forall>k' \<in> {k. k \<noteq> 0}. ht_abs s' k' = (if cas_applies e (ht_abs s k) then bind_key (=) k (Some v) (ht_abs s) k' else ht_abs s k'))"
    using C a(2,5) by simp
  assume "\<not> cas_specified e (ht_abs s k)"
  then show "\<exists>s'. impl_cas ht_impl s k e v = ret (found_val (ht_abs s k), s') \<and> ht_stable s' \<and> ht_room s \<le> ht_room s' + 1 \<and>
      (\<forall>k' \<in> {k. k \<noteq> 0}. ht_abs s' k' = ht_abs s k')"
    using C a(2,5) by (simp add: cas_specified_def)
qed (auto simp: ht_vals_def DOES_NOT_EXIST_def cas_expect_defs TOMBSTONE_def STRIP_TAG_def TAG1_val)

section \<open>The number of bindings\<close>

lemma length_bindings: "length (bindings t) = tally (\<lambda>e. live (ent_val e)) (hti_table t)"
proof -
  have "length (filter P xs) = tally P xs" for P and xs :: "entry list" by (induction xs) (auto simp: tally_def)
  then show ?thesis by (simp add: bindings_def)
qed

lemma distinct_filter_keys:
  assumes "\<And>i j. i < length xs \<Longrightarrow> j < length xs \<Longrightarrow> P (xs ! i) \<Longrightarrow> P (xs ! j) \<Longrightarrow> f (xs ! i) = f (xs ! j) \<Longrightarrow> i = j"
  shows "distinct (map f (filter P xs))"
  using assms
proof (induction xs)
  case (Cons x xs)
  have "distinct (map f (filter P xs))"
    by (rule Cons.IH) (use Cons.prems [of "Suc _" "Suc _"] in auto)
  moreover have "f x \<notin> f ` set (filter P xs)" if "P x"
  proof
    assume "f x \<in> f ` set (filter P xs)"
    then obtain j where "j < length xs" "P (xs ! j)" "f x = f (xs ! j)" by (auto simp: in_set_conv_nth)
    then show False using Cons.prems [of 0 "Suc j"] that by simp
  qed
  ultimately show ?case by simp
qed simp

lemma distinct_bindings:
  assumes "tab_ok t"
  shows "distinct (map fst (bindings t))"
  using distinct_filter_keys [of "hti_table t" "\<lambda>e. live (ent_val e)" ent_key] tab_ok_unique [OF assms] tab_ok_live [OF assms]
  by (simp add: bindings_def comp_def)

lemma bindings_keys: "fst ` set (bindings t) = {k. \<exists>i < tsize t. tkey t i = k \<and> live (tval t i)}"
  by (force simp: bindings_def image_iff in_set_conv_nth)

lemma distinct_chain:
  assumes "chain_ok b st" and "b \<le> length st"
  shows "distinct (map fst (concat (map bindings (drop b st))))"
  using assms(2,1)
proof (induction rule: inc_induct)
  case (step n)
  have n: "n < length st" using step.hyps by simp
  have "fst ` set (bindings (st ! n)) \<inter> fst ` set (concat (map bindings (drop (Suc n) st))) = {}"
  proof (rule equals0I)
    fix k assume "k \<in> fst ` set (bindings (st ! n)) \<inter> fst ` set (concat (map bindings (drop (Suc n) st)))"
    then have "k \<in> fst ` set (bindings (st ! n))" "k \<in> (\<Union>t \<in> set (drop (Suc n) st). fst ` set (bindings t))"
      by (simp_all add: image_UN)
    then obtain i t where i: "i < tsize (st ! n)" "tkey (st ! n) i = k" "live (tval (st ! n) i)"
      and t: "t \<in> set (drop (Suc n) st)" "k \<in> fst ` set (bindings t)" unfolding bindings_keys by blast
    obtain m where "m < length st - Suc n" "t = st ! Suc (n + m)" using t(1) by (auto simp: in_set_conv_nth)
    then obtain q where q: "n < q" "q < length st" "t = st ! q" by (intro that [of "Suc (n + m)"]) auto
    then obtain j where "j < tsize (st ! q)" "tkey (st ! q) j = k" "live (tval (st ! q) j)"
      using t(2) by (auto simp: bindings_keys)
    then show False
      using live_at_unique [OF step.prems, of k n i q j] i n q by (simp add: live_at_def)
  qed
  moreover have "distinct (map fst (concat (map bindings (drop (Suc n) st))))"
    by (rule step.IH) (rule chain_ok_mono [OF step.prems], simp)
  ultimately show ?case
    using distinct_bindings chain_okD(1) [OF step.prems _ n]
    by (simp add: Cons_nth_drop_Suc [OF n, symmetric] image_Un)
qed simp

lemma ht_count_ok:
  assumes "ht_inv s"
  shows "ht_count s = ret (of_nat (card (dom (ht_abs s))))"
proof -
  let ?st = "drop (ht_hti s) (ht_store s)"
  let ?xs = "concat (map bindings ?st)"
  have c: "core (ht_hti s) s" "chain_ok (ht_hti s) (ht_store s)" "ht_hti s < length (ht_store s)"
    using assms by (simp_all add: ht_inv_def core_def)
  have ok: "\<forall>t \<in> set ?st. tab_ok t"
    using chain_okD(1) [OF c(2)] by (auto simp: in_set_conv_nth)
  have "(\<Sum>t \<leftarrow> ts. hti_count t) = of_nat (length (concat (map bindings ts)))" if "\<forall>t \<in> set ts. tab_ok t" for ts
    using that by (induction ts) (simp_all add: tab_ok_def length_bindings)
  then have "(\<Sum>t \<leftarrow> ?st. hti_count t) = of_nat (length ?xs)" using ok by blast
  moreover have "card (dom (ht_abs s)) = length ?xs"
    using distinct_card [OF distinct_chain [OF c(2)]] c(3)
    by (simp add: ht_abs_def chain_abs_def dom_map_of_conv_image_fst)
  ultimately show ?thesis using ht_count_eq [OF c(1)] by simp
qed

end
