(* ===== verification/Map_Table.thy ===== *)
theory Map_Table
  imports Linked_List Skiplist_Map Hashtable_Map
begin

text \<open>
  The rest of \<^verbatim>\<open>src/src/map/map.c\<close>: allocation, release and iteration through the table of functions, and
  the tables \<^verbatim>\<open>MAP_IMPL_LL\<close>, \<^verbatim>\<open>MAP_IMPL_SL\<close> and \<^verbatim>\<open>MAP_IMPL_HT\<close> of the headers of the
  three maps. A table extends the record of the functions that \<open>Map_Interface\<close> has.
\<close>

section \<open>Tables and entry points\<close>

record ('s, 'i) map_impl_t = "'s map_impl" +
  impl_alloc :: "datatype_t option \<Rightarrow> 's prog"
  impl_free :: "'s \<Rightarrow> 's prog"
  impl_iter_begin :: "'s \<Rightarrow> map_key_t \<Rightarrow> ('i \<times> 's) prog"
  impl_iter_next :: "'i \<Rightarrow> 's \<Rightarrow> (map_val_t \<times> map_key_t option \<times> 'i \<times> 's) prog"
  impl_iter_free :: "'i \<Rightarrow> 's \<Rightarrow> 's prog"

record ('s, 'i) map_t =
  mp_impl :: "('s, 'i) map_impl_t"
  mp_data :: 's

record ('s, 'i) map_iter_t =
  mi_impl :: "('s, 'i) map_impl_t"
  mi_state :: 'i

definition map_alloc :: "('s, 'i) map_impl_t \<Rightarrow> datatype_t option \<Rightarrow> ('s, 'i) map_t prog" where
  "map_alloc map_impl key_type = pbind (impl_alloc map_impl key_type) (\<lambda>data. ret \<lparr>mp_impl = map_impl, mp_data = data\<rparr>)"

definition map_free :: "('s, 'i) map_t \<Rightarrow> ('s, 'i) map_t prog" where
  "map_free m = pbind (impl_free (mp_impl m) (mp_data m)) (\<lambda>data. ret (m\<lparr>mp_data := data\<rparr>))"

definition map_iter_begin :: "('s, 'i) map_t \<Rightarrow> map_key_t \<Rightarrow> (('s, 'i) map_iter_t \<times> ('s, 'i) map_t) prog" where
  "map_iter_begin m key =
     pbind (impl_iter_begin (mp_impl m) (mp_data m) key) (\<lambda>(state, data).
     ret (\<lparr>mi_impl = mp_impl m, mi_state = state\<rparr>, m\<lparr>mp_data := data\<rparr>))"

definition map_iter_next :: "('s, 'i) map_iter_t \<Rightarrow> ('s, 'i) map_t \<Rightarrow> (map_val_t \<times> map_key_t option \<times> ('s, 'i) map_iter_t \<times> ('s, 'i) map_t) prog" where
  "map_iter_next iter m =
     pbind (impl_iter_next (mi_impl iter) (mi_state iter) (mp_data m)) (\<lambda>(val, key, state, data).
     ret (val, key, iter\<lparr>mi_state := state\<rparr>, m\<lparr>mp_data := data\<rparr>))"

definition map_iter_free :: "('s, 'i) map_iter_t \<Rightarrow> ('s, 'i) map_t \<Rightarrow> ('s, 'i) map_t prog" where
  "map_iter_free iter m = pbind (impl_iter_free (mi_impl iter) (mi_state iter) (mp_data m)) (\<lambda>data. ret (m\<lparr>mp_data := data\<rparr>))"

section \<open>The tables of the three maps\<close>

text \<open>The iterators of the list and of the skip list only read the map, and freeing one frees its own block.\<close>

definition MAP_IMPL_LL :: "addr list \<Rightarrow> (list_t, addr) map_impl_t" where
  "MAP_IMPL_LL pool = map_impl.extend ll_impl (map_impl_t.fields (\<lambda>key_type. ll_alloc key_type pool) ll_free
     (\<lambda>s key. pbind (ll_iter_begin s key) (\<lambda>it. ret (it, s)))
     (\<lambda>it s. pbind (ll_iter_next it s) (\<lambda>(val, key, it). ret (val, key, it, s))) (\<lambda>it s. ret s))"

definition MAP_IMPL_SL :: "addr list \<Rightarrow> addr list \<Rightarrow> rnd_state \<Rightarrow> (skiplist_t, addr) map_impl_t" where
  "MAP_IMPL_SL junk pool rnd = map_impl.extend (sl_impl junk) (map_impl_t.fields (\<lambda>key_type. sl_alloc key_type pool rnd) sl_free
     sl_iter_begin (\<lambda>it s. pbind (sl_iter_next it s) (\<lambda>(val, key, it). ret (val, key, it, s))) (\<lambda>it s. ret s))"

definition MAP_IMPL_HT :: "int \<Rightarrow> (hashtable_t, ht_iter) map_impl_t" where
  "MAP_IMPL_HT junk = map_impl.extend ht_impl (map_impl_t.fields (\<lambda>key_type. ht_alloc key_type junk) ht_free ht_iter_begin ht_iter_next ht_iter_free)"

lemma map_tables_truncate: "map_impl.truncate (MAP_IMPL_LL pool) = ll_impl" "map_impl.truncate (MAP_IMPL_SL junk pool rnd) = sl_impl junk"
  "map_impl.truncate (MAP_IMPL_HT junk') = ht_impl"
  by (simp_all add: MAP_IMPL_LL_def MAP_IMPL_SL_def MAP_IMPL_HT_def map_impl.defs map_impl_t.defs)

section \<open>Iteration through the table\<close>

text \<open>A client that takes at most \<open>n\<close> items from an iterator.\<close>

primrec map_iter_run :: "nat \<Rightarrow> ('s, 'i) map_iter_t \<Rightarrow> ('s, 'i) map_t \<Rightarrow> (map_key_t \<times> map_val_t) list prog" where
  "map_iter_run 0 it m = ret []"
| "map_iter_run (Suc n) it m =
     pbind (map_iter_next it m) (\<lambda>(val, key, it, m). case key of
       None \<Rightarrow> ret []
     | Some k \<Rightarrow> pbind (map_iter_run n it m) (\<lambda>xs. ret ((k, val) # xs)))"

definition map_items :: "nat \<Rightarrow> ('s, 'i) map_t \<Rightarrow> map_key_t \<Rightarrow> (map_key_t \<times> map_val_t) list prog" where
  "map_items n m key = pbind (map_iter_begin m key) (\<lambda>(it, m). map_iter_run n it m)"

lemma impl_sl_iter [simp]:
  "impl_iter_begin (MAP_IMPL_SL junk pool rnd) = sl_iter_begin"
  "impl_iter_next (MAP_IMPL_SL junk pool rnd) = (\<lambda>it s. pbind (sl_iter_next it s) (\<lambda>(val, key, it). ret (val, key, it, s)))"
  by (simp_all add: MAP_IMPL_SL_def map_impl.defs map_impl_t.defs)

lemma map_iter_run_sl:
  "mi_impl it = MAP_IMPL_SL junk pool rnd \<Longrightarrow> map_iter_run n it m = sl_iter_run n (mi_state it) (mp_data m)"
proof (induction n arbitrary: it m)
  case (Suc n)
  have "map_iter_run n (it\<lparr>mi_state := i\<rparr>) (m\<lparr>mp_data := mp_data m\<rparr>) = sl_iter_run n i (mp_data m)" for i
    using Suc.IH [of "it\<lparr>mi_state := i\<rparr>" m] Suc.prems by simp
  then show ?case using Suc.prems
    by (auto simp: map_iter_next_def pbind_assoc intro!: pbind_cong split: option.splits)
qed simp

text \<open>Iterating over a skip list through \<^verbatim>\<open>map.c\<close> gives the items that the sequential skip list would give.\<close>

lemma map_items_sl:
  assumes "mp_impl m = MAP_IMPL_SL junk pool rnd"
  shows "map_items n m k = pbind (sl_iter_begin (mp_data m) k) (\<lambda>(it, s). sl_iter_run n it s)"
  using assms by (auto simp: map_items_def map_iter_begin_def pbind_assoc map_iter_run_sl intro!: pbind_cong)

end
