(* ===== verification/Rcu.thy ===== *)
theory Rcu
  imports Common
begin

text \<open>
  Model of \<^verbatim>\<open>src/src/runtime/rcu.c\<close>: deferred freeing of memory. Every thread has a queue of
  addresses to be freed. The head position of the queue is passed from thread to thread around a
  ring, by each thread's \<^verbatim>\<open>rcu_update\<close>; when it is back at its owner, every thread has called
  \<^verbatim>\<open>rcu_update\<close> since, and the owner frees the queue up to that position.

  The file's static variables are the record \<open>rcu_state\<close>. The thread index is an argument of the
  functions. \<open>rcu_freed\<close> records the addresses passed to \<^verbatim>\<open>nbd_free\<close>. The array of a queue has
  \<open>2 ^ scale\<close> entries and is only indexed modulo that number.
\<close>

section \<open>Data and operations\<close>

definition RCU_POST_THRESHOLD :: uint64_t where "RCU_POST_THRESHOLD = 10"
definition RCU_QUEUE_SCALE :: nat where "RCU_QUEUE_SCALE = 20"

record fifo_t =
  rf_head :: uint32_t
  rf_tail :: uint32_t
  rf_scale :: nat
  rf_x :: "nat \<Rightarrow> addr"

record rcu_state =
  rcu_arr :: "nat \<Rightarrow> nat \<Rightarrow> uint64_t"
  rcu_last_posted :: "nat \<Rightarrow> nat \<Rightarrow> uint64_t"
  rcu_pending :: "nat \<Rightarrow> fifo_t option"
  rcu_num_threads :: nat
  rcu_freed :: "addr list"

definition rcu_static_init :: rcu_state where
  "rcu_static_init = \<lparr>rcu_arr = (\<lambda>_ _. 0), rcu_last_posted = (\<lambda>_ _. 0), rcu_pending = (\<lambda>_. None),
     rcu_num_threads = 0, rcu_freed = []\<rparr>"

definition MOD_SCALE :: "uint32_t \<Rightarrow> nat \<Rightarrow> nat" where
  "MOD_SCALE x b = unat (ucast x AND MASK b)"

text \<open>\<open>junk\<close> is what the fresh memory holds.\<close>

definition fifo_alloc :: "(nat \<Rightarrow> addr) \<Rightarrow> nat \<Rightarrow> fifo_t" where
  "fifo_alloc junk scale = \<lparr>rf_head = 0, rf_tail = 0, rf_scale = scale, rf_x = junk\<rparr>"

definition rcu_thread_init :: "(nat \<Rightarrow> addr) \<Rightarrow> nat \<Rightarrow> rcu_state \<Rightarrow> rcu_state" where
  "rcu_thread_init junk thread_index s =
     (if rcu_pending s thread_index = None
      then s\<lparr>rcu_pending := (rcu_pending s)(thread_index \<mapsto> fifo_alloc junk RCU_QUEUE_SCALE),
             rcu_num_threads := rcu_num_threads s + 1\<rparr>
      else s)"

abbreviation upd2 :: "nat \<Rightarrow> nat \<Rightarrow> 'a \<Rightarrow> (nat \<Rightarrow> nat \<Rightarrow> 'a) \<Rightarrow> nat \<Rightarrow> nat \<Rightarrow> 'a" where
  "upd2 i j v f \<equiv> f(i := (f i)(j := v))"

text \<open>One iteration of the first loop of \<^verbatim>\<open>rcu_update\<close>.\<close>

definition rcu_post_one :: "nat \<Rightarrow> nat \<Rightarrow> nat \<Rightarrow> rcu_state \<Rightarrow> rcu_state" where
  "rcu_post_one thread_index next_thread_index i s =
     (if i = thread_index then s
      else if rcu_arr s thread_index i = rcu_last_posted s thread_index i then s
      else let x = rcu_arr s thread_index i
           in s\<lparr>rcu_last_posted := upd2 thread_index i x (rcu_last_posted s),
                rcu_arr := upd2 next_thread_index i x (rcu_arr s)\<rparr>)"

text \<open>The second loop frees the queue up to the posted position.\<close>

partial_function (option) rcu_free_loop :: "nat \<Rightarrow> rcu_state \<Rightarrow> rcu_state prog" where
  "rcu_free_loop thread_index s =
     (case rcu_pending s thread_index of
        None \<Rightarrow> fail Null_Deref
      | Some q \<Rightarrow>
          if ucast (rf_tail q) = rcu_arr s thread_index thread_index then ret s
          else let i = MOD_SCALE (rf_tail q) (rf_scale q)
               in rcu_free_loop thread_index
                    (s\<lparr>rcu_freed := rcu_freed s @ [rf_x q i],
                       rcu_pending := (rcu_pending s)(thread_index \<mapsto> q\<lparr>rf_tail := rf_tail q + 1\<rparr>)\<rparr>))"

declare rcu_free_loop.simps [code]

definition rcu_update :: "nat \<Rightarrow> rcu_state \<Rightarrow> rcu_state prog" where
  "rcu_update thread_index s =
     (if rcu_num_threads s = 0 then fail Undefined_Behaviour
      else let next_thread_index = (thread_index + 1) mod rcu_num_threads s
           in rcu_free_loop thread_index
                (fold (rcu_post_one thread_index next_thread_index) [0 ..< rcu_num_threads s] s))"

definition rcu_defer_free :: "nat \<Rightarrow> addr \<Rightarrow> rcu_state \<Rightarrow> rcu_state prog" where
  "rcu_defer_free thread_index x s =
     pbind (passert (x \<noteq> NULL)) (\<lambda>_.
     case rcu_pending s thread_index of
       None \<Rightarrow> fail Null_Deref
     | Some q \<Rightarrow>
         pbind (passert (MOD_SCALE (rf_head q + 1) (rf_scale q) \<noteq> MOD_SCALE (rf_tail q) (rf_scale q))) (\<lambda>_.
         let i = MOD_SCALE (rf_head q) (rf_scale q);
             q = q\<lparr>rf_x := (rf_x q)(i := x), rf_head := rf_head q + 1\<rparr>;
             s = s\<lparr>rcu_pending := (rcu_pending s)(thread_index \<mapsto> q)\<rparr>
         in if ucast (rf_head q) - rcu_last_posted s thread_index thread_index \<ge> RCU_POST_THRESHOLD
            then if rcu_num_threads s = 0 then fail Undefined_Behaviour
                 else let next_thread_index = (thread_index + 1) mod rcu_num_threads s
                      in ret (s\<lparr>rcu_arr := upd2 next_thread_index thread_index (ucast (rf_head q)) (rcu_arr s),
                                rcu_last_posted := upd2 thread_index thread_index (ucast (rf_head q)) (rcu_last_posted s)\<rparr>)
            else ret s))"

section \<open>Runs\<close>

text \<open>A run of \<open>n\<close> registered threads, one call at a time. The ghost fields hold, for every thread,
  the addresses it has deferred and those it has freed, and for every deferred address the threads
  that have called \<^verbatim>\<open>rcu_update\<close> since.\<close>

record rcu_run =
  rr_state :: rcu_state
  rr_deferred :: "nat \<Rightarrow> addr list"
  rr_released :: "nat \<Rightarrow> addr list"
  rr_seen :: "nat \<Rightarrow> nat \<Rightarrow> nat set"

definition rr_init :: "(nat \<Rightarrow> addr) \<Rightarrow> nat \<Rightarrow> rcu_run" where
  "rr_init junk n = \<lparr>rr_state = fold (rcu_thread_init junk) [0 ..< n] rcu_static_init,
     rr_deferred = (\<lambda>_. []), rr_released = (\<lambda>_. []), rr_seen = (\<lambda>_ _. {})\<rparr>"

inductive rcu_step :: "nat \<Rightarrow> rcu_run \<Rightarrow> rcu_run \<Rightarrow> bool" for n where
  update: "t < n \<Longrightarrow> rcu_update t (rr_state r) = ret s' \<Longrightarrow>
    rcu_step n r (r\<lparr>rr_state := s',
      rr_released := (rr_released r)(t := rr_released r t @ drop (length (rcu_freed (rr_state r))) (rcu_freed s')),
      rr_seen := (\<lambda>u k. if k < length (rr_deferred r u) then insert t (rr_seen r u k) else rr_seen r u k)\<rparr>)"
| defer_free: "t < n \<Longrightarrow> rcu_defer_free t x (rr_state r) = ret s' \<Longrightarrow>
    rcu_step n r (r\<lparr>rr_state := s', rr_deferred := (rr_deferred r)(t := rr_deferred r t @ [x])\<rparr>)"

inductive rcu_reachable :: "(nat \<Rightarrow> addr) \<Rightarrow> nat \<Rightarrow> rcu_run \<Rightarrow> bool" for junk n where
  init: "rcu_reachable junk n (rr_init junk n)"
| step: "rcu_reachable junk n r \<Longrightarrow> rcu_step n r r' \<Longrightarrow> rcu_reachable junk n r'"

section \<open>Positions on the ring\<close>

text \<open>The number of steps from thread \<open>t\<close> to thread \<open>j\<close>, at least one; the threads strictly
  between them.\<close>

definition ring_dist :: "nat \<Rightarrow> nat \<Rightarrow> nat \<Rightarrow> nat" where
  "ring_dist n t j = (if t < j then j - t else n + j - t)"

definition between :: "nat \<Rightarrow> nat \<Rightarrow> nat \<Rightarrow> nat set" where
  "between n t j = {u. u < n \<and> u \<noteq> t \<and> ring_dist n t u < ring_dist n t j}"

lemma ring_next:
  assumes "t < n" and "u < n" and "u \<noteq> t"
  shows "ring_dist n t ((u + 1) mod n) = ring_dist n t u + 1"
  using assms by (cases "u + 1 = n") (auto simp: ring_dist_def)

lemma between_next:
  assumes "t < n" and "u < n" and "u \<noteq> t"
  shows "between n t ((u + 1) mod n) = insert u (between n t u)"
proof -
  have inj: "v = u" if "v < n" "v \<noteq> t" "ring_dist n t v = ring_dist n t u" for v
    using that assms by (auto simp: ring_dist_def split: if_splits)
  show ?thesis
    unfolding between_def ring_next [OF assms] using assms inj by (auto simp: less_Suc_eq)
qed

lemma between_first: "t < n \<Longrightarrow> between n t ((t + 1) mod n) = {}"
  by (cases "t + 1 = n") (auto simp: between_def ring_dist_def)

lemma between_self: "t < n \<Longrightarrow> between n t t = {u. u < n \<and> u \<noteq> t}"
  by (auto simp: between_def ring_dist_def)

lemma ring_next_neq:
  fixes t n :: nat
  shows "t < n \<Longrightarrow> (t + 1) mod n = t \<longleftrightarrow> n = 1"
  by (cases "t + 1 = n") auto

section \<open>The loops\<close>

lemma unat_ucast_32_64: "unat (ucast (w :: 32 word) :: 64 word) = unat w"
  using unat_bound [of w] by (simp add: unsigned_ucast_eq take_bit_nat_eq_self)

lemma MOD_SCALE_eq: "MOD_SCALE x b = unat x mod 2 ^ b"
  by (simp add: MOD_SCALE_def unat_and_MASK unat_ucast_32_64)

lemma rcu_post_fold:
  assumes nx: "nx \<noteq> t" and last: "\<forall>i < m. rcu_arr s nx i = rcu_last_posted s t i"
  shows "fold (rcu_post_one t nx) [0 ..< m] s =
    s\<lparr>rcu_arr := (\<lambda>a b. if a = nx \<and> b < m \<and> b \<noteq> t then rcu_arr s t b else rcu_arr s a b),
      rcu_last_posted := (\<lambda>a b. if a = t \<and> b < m \<and> b \<noteq> t then rcu_arr s t b else rcu_last_posted s a b)\<rparr>"
  using last
proof (induction m)
  case (Suc m)
  then show ?case
    using nx by (auto simp: rcu_post_one_def Let_def fun_eq_iff less_Suc_eq)
qed simp

lemma rcu_post_single: "fold (rcu_post_one 0 0) [0 ..< 1] s = s"
  by (simp add: rcu_post_one_def)

lemma rcu_free_loop_spec:
  assumes "rcu_pending s t = Some q" and "unat (rf_tail q) + m = unat (rcu_arr s t t)" and "unat (rcu_arr s t t) < 2 ^ 32"
  shows "rcu_free_loop t s = ret (s\<lparr>
    rcu_freed := rcu_freed s @ map (\<lambda>k. rf_x q (k mod 2 ^ rf_scale q)) [unat (rf_tail q) ..< unat (rf_tail q) + m],
    rcu_pending := (rcu_pending s)(t \<mapsto> q\<lparr>rf_tail := of_nat (unat (rf_tail q) + m)\<rparr>)\<rparr>)"
  using assms
proof (induction m arbitrary: s q)
  case 0
  then have "ucast (rf_tail q) = rcu_arr s t t"
    by (simp add: word_unat_eq_iff unat_ucast_32_64)
  moreover have "q\<lparr>rf_tail := of_nat (unat (rf_tail q) + 0)\<rparr> = q" by simp
  then have "(rcu_pending s)(t \<mapsto> q\<lparr>rf_tail := of_nat (unat (rf_tail q) + 0)\<rparr>) = rcu_pending s"
    using 0(1) by (simp only: fun_upd_idem)
  ultimately show ?case
    using 0(1) by (subst rcu_free_loop.simps) (simp only: option.case if_True, simp)
next
  case (Suc m)
  let ?q = "q\<lparr>rf_tail := rf_tail q + 1\<rparr>"
  let ?s = "s\<lparr>rcu_freed := rcu_freed s @ [rf_x q (unat (rf_tail q) mod 2 ^ rf_scale q)],
    rcu_pending := (rcu_pending s)(t \<mapsto> ?q)\<rparr>"
  have ne: "ucast (rf_tail q) \<noteq> rcu_arr s t t"
    using Suc.prems(2) unat_ucast_32_64 [of "rf_tail q"] by auto
  have tl: "unat (rf_tail q + 1) = unat (rf_tail q) + 1"
    using Suc.prems(2,3) by (simp add: unat_word_ariths)
  have "rcu_free_loop t s = rcu_free_loop t ?s"
    using Suc.prems(1) ne by (subst rcu_free_loop.simps) (simp add: Let_def MOD_SCALE_eq)
  also have "\<dots> = ret (?s\<lparr>
      rcu_freed := rcu_freed ?s @ map (\<lambda>k. rf_x ?q (k mod 2 ^ rf_scale ?q)) [unat (rf_tail ?q) ..< unat (rf_tail ?q) + m],
      rcu_pending := (rcu_pending ?s)(t \<mapsto> ?q\<lparr>rf_tail := of_nat (unat (rf_tail ?q) + m)\<rparr>)\<rparr>)"
    using Suc.prems tl by (intro Suc.IH) simp_all
  also have "[unat (rf_tail q) ..< unat (rf_tail q) + Suc m] = unat (rf_tail q) # [unat (rf_tail q) + 1 ..< unat (rf_tail q) + 1 + m]"
    by (simp add: upt_conv_Cons)
  ultimately show ?case
    using tl by (simp add: upt_conv_Cons del: upt_Suc) (simp only: fun_upd_def)
qed

section \<open>Invariant\<close>

definition queue_ok :: "rcu_run \<Rightarrow> nat \<Rightarrow> bool" where
  "queue_ok r t \<longleftrightarrow>
     (\<exists>q. rcu_pending (rr_state r) t = Some q \<and> rf_scale q = RCU_QUEUE_SCALE \<and>
        unat (rf_head q) = length (rr_deferred r t) \<and> unat (rf_tail q) = length (rr_released r t) \<and>
        rr_released r t = take (length (rr_released r t)) (rr_deferred r t) \<and>
        length (rr_deferred r t) < length (rr_released r t) + 2 ^ RCU_QUEUE_SCALE \<and>
        (\<forall>k. length (rr_released r t) \<le> k \<and> k < length (rr_deferred r t) \<longrightarrow>
          rf_x q (k mod 2 ^ RCU_QUEUE_SCALE) = rr_deferred r t ! k))"

definition ring_ok :: "nat \<Rightarrow> rcu_run \<Rightarrow> nat \<Rightarrow> bool" where
  "ring_ok n r t \<longleftrightarrow>
     (\<forall>j < n. unat (rcu_arr (rr_state r) j t) \<le> length (rr_deferred r t)) \<and>
     (\<forall>j < n. j \<noteq> t \<longrightarrow> unat (rcu_arr (rr_state r) ((j + 1) mod n) t) \<le> unat (rcu_arr (rr_state r) j t)) \<and>
     length (rr_released r t) \<le> unat (rcu_arr (rr_state r) t t) \<and>
     (\<forall>j < n. rcu_arr (rr_state r) ((j + 1) mod n) t = rcu_last_posted (rr_state r) j t) \<and>
     (\<forall>j < n. \<forall>k < unat (rcu_arr (rr_state r) j t). between n t j \<subseteq> rr_seen r t k)"

definition rcu_inv :: "nat \<Rightarrow> rcu_run \<Rightarrow> bool" where
  "rcu_inv n r \<longleftrightarrow> rcu_num_threads (rr_state r) = n \<and> (\<forall>t < n. queue_ok r t \<and> ring_ok n r t)"

lemma rcu_invD:
  assumes "rcu_inv n r" and "t < n"
  obtains q where "rcu_pending (rr_state r) t = Some q" "rf_scale q = RCU_QUEUE_SCALE"
    "unat (rf_head q) = length (rr_deferred r t)" "unat (rf_tail q) = length (rr_released r t)"
    "rr_released r t = take (length (rr_released r t)) (rr_deferred r t)"
    "length (rr_deferred r t) < length (rr_released r t) + 2 ^ RCU_QUEUE_SCALE"
    "\<And>k. length (rr_released r t) \<le> k \<Longrightarrow> k < length (rr_deferred r t) \<Longrightarrow>
       rf_x q (k mod 2 ^ RCU_QUEUE_SCALE) = rr_deferred r t ! k"
    "length (rr_released r t) \<le> length (rr_deferred r t)" "length (rr_deferred r t) < 2 ^ 32"
proof -
  obtain q where q: "rcu_pending (rr_state r) t = Some q" "rf_scale q = RCU_QUEUE_SCALE"
    "unat (rf_head q) = length (rr_deferred r t)" "unat (rf_tail q) = length (rr_released r t)"
    "rr_released r t = take (length (rr_released r t)) (rr_deferred r t)"
    "length (rr_deferred r t) < length (rr_released r t) + 2 ^ RCU_QUEUE_SCALE"
    "\<forall>k. length (rr_released r t) \<le> k \<and> k < length (rr_deferred r t) \<longrightarrow>
       rf_x q (k mod 2 ^ RCU_QUEUE_SCALE) = rr_deferred r t ! k"
    using assms unfolding rcu_inv_def queue_ok_def by blast
  have "length (rr_released r t) \<le> length (rr_deferred r t)" using q(5) by (metis length_take min.cobounded1)
  moreover have "length (rr_deferred r t) < 2 ^ 32" using q(3) unat_bound [of "rf_head q"] by simp
  ultimately show ?thesis using that q by blast
qed

text \<open>The state after \<^verbatim>\<open>rcu_update\<close>: the thread has passed on what it knows, and its own queue
  is freed up to the position that came round.\<close>

definition posted :: "nat \<Rightarrow> nat \<Rightarrow> rcu_state \<Rightarrow> rcu_state" where
  "posted n t s = (if n = 1 then s else
     s\<lparr>rcu_arr := (\<lambda>a b. if a = (t + 1) mod n \<and> b < n \<and> b \<noteq> t then rcu_arr s t b else rcu_arr s a b),
       rcu_last_posted := (\<lambda>a b. if a = t \<and> b < n \<and> b \<noteq> t then rcu_arr s t b else rcu_last_posted s a b)\<rparr>)"

lemma posted_own: "t < n \<Longrightarrow> rcu_arr (posted n t s) t t = rcu_arr s t t"
  "rcu_pending (posted n t s) = rcu_pending s" "rcu_freed (posted n t s) = rcu_freed s"
  "rcu_num_threads (posted n t s) = rcu_num_threads s"
  by (simp_all add: posted_def)

lemma rcu_update_spec:
  assumes inv: "rcu_inv n r" and t: "t < n" and q: "rcu_pending (rr_state r) t = Some q"
  shows "rcu_update t (rr_state r) = ret ((posted n t (rr_state r))\<lparr>
      rcu_freed := rcu_freed (rr_state r) @
        drop (length (rr_released r t)) (take (unat (rcu_arr (rr_state r) t t)) (rr_deferred r t)),
      rcu_pending := (rcu_pending (rr_state r))(t \<mapsto> q\<lparr>rf_tail := of_nat (unat (rcu_arr (rr_state r) t t))\<rparr>)\<rparr>)"
proof -
  let ?s = "rr_state r" and ?G = "unat (rcu_arr (rr_state r) t t)" and ?T = "length (rr_released r t)"
  obtain q' where q': "rcu_pending ?s t = Some q'" "rf_scale q' = RCU_QUEUE_SCALE" "unat (rf_tail q') = ?T"
    "\<And>k. ?T \<le> k \<Longrightarrow> k < length (rr_deferred r t) \<Longrightarrow> rf_x q' (k mod 2 ^ RCU_QUEUE_SCALE) = rr_deferred r t ! k"
    "length (rr_deferred r t) < 2 ^ 32"
    by (rule rcu_invD [OF inv t]) blast
  have ring: "ring_ok n r t" and nt: "rcu_num_threads ?s = n" and rings: "\<forall>i < n. ring_ok n r i"
    using inv t by (simp_all add: rcu_inv_def)
  have G: "?T \<le> ?G" "?G \<le> length (rr_deferred r t)" using ring t by (simp_all add: ring_ok_def)
  have post: "fold (rcu_post_one t ((t + 1) mod n)) [0 ..< n] ?s = posted n t ?s"
  proof (cases "n = 1")
    case True
    then show ?thesis using t rcu_post_single by (simp add: posted_def)
  next
    case False
    have "\<forall>i < n. rcu_arr ?s ((t + 1) mod n) i = rcu_last_posted ?s t i"
      using rings t by (simp add: ring_ok_def)
    then show ?thesis
      using rcu_post_fold [of "(t + 1) mod n" t n ?s] ring_next_neq [OF t] False by (simp add: posted_def)
  qed
  have "map (\<lambda>k. rf_x q (k mod 2 ^ rf_scale q)) [?T ..< ?G] = map (\<lambda>k. rr_deferred r t ! k) [?T ..< ?G]"
    using q q' G by (intro map_cong) auto
  also have "\<dots> = drop ?T (take ?G (rr_deferred r t))"
    using G by (intro nth_equalityI) auto
  finally have fr: "map (\<lambda>k. rf_x q (k mod 2 ^ rf_scale q)) [?T ..< ?G] = drop ?T (take ?G (rr_deferred r t))" .
  have "unat (rf_tail q) + (?G - ?T) = ?G" "?G < 2 ^ 32" "unat (rf_tail q) = ?T"
    using q q' G by simp_all
  then show ?thesis
    using rcu_free_loop_spec [of "posted n t ?s" t q "?G - ?T"] q nt post fr t
    by (simp add: rcu_update_def Let_def posted_own)
qed

text \<open>The ghost effect of an update.\<close>

definition after_update :: "nat \<Rightarrow> rcu_state \<Rightarrow> rcu_run \<Rightarrow> rcu_run" where
  "after_update t s' r = r\<lparr>rr_state := s',
      rr_released := (rr_released r)(t := rr_released r t @ drop (length (rcu_freed (rr_state r))) (rcu_freed s')),
      rr_seen := (\<lambda>u k. if k < length (rr_deferred r u) then insert t (rr_seen r u k) else rr_seen r u k)\<rparr>"

lemma next_inj:
  fixes j t n :: nat
  assumes "j < n" and "t < n"
  shows "(j + 1) mod n = (t + 1) mod n \<longleftrightarrow> j = t"
  using assms by (cases "j + 1 = n"; cases "t + 1 = n") auto

lemma update_released:
  assumes inv: "rcu_inv n r" and t: "t < n" and u: "rcu_update t (rr_state r) = ret s'"
  shows "rr_released (after_update t s' r) =
    (rr_released r)(t := take (unat (rcu_arr (rr_state r) t t)) (rr_deferred r t))"
proof -
  let ?G = "unat (rcu_arr (rr_state r) t t)" and ?T = "length (rr_released r t)"
  obtain q where q: "rcu_pending (rr_state r) t = Some q" "rr_released r t = take ?T (rr_deferred r t)"
    by (rule rcu_invD [OF inv t]) blast
  have "?T \<le> ?G" using inv t by (simp add: rcu_inv_def ring_ok_def)
  then have "take ?G (rr_deferred r t) = take ?T (rr_deferred r t) @ drop ?T (take ?G (rr_deferred r t))"
    by (metis append_take_drop_id min.absorb1 take_take)
  with q(2) u rcu_update_spec [OF inv t q(1)] show ?thesis by (auto simp: after_update_def)
qed

lemma update_arr:
  assumes inv: "rcu_inv n r" and t: "t < n" and u: "rcu_update t (rr_state r) = ret s'"
  shows "rcu_arr s' = rcu_arr (posted n t (rr_state r))" and "rcu_last_posted s' = rcu_last_posted (posted n t (rr_state r))"
    and "rcu_num_threads s' = n"
proof -
  obtain q where q: "rcu_pending (rr_state r) t = Some q" by (rule rcu_invD [OF inv t]) blast
  have "rcu_num_threads (rr_state r) = n" using inv by (simp add: rcu_inv_def)
  with u rcu_update_spec [OF inv t q] show "rcu_arr s' = rcu_arr (posted n t (rr_state r))"
    "rcu_last_posted s' = rcu_last_posted (posted n t (rr_state r))" "rcu_num_threads s' = n"
    by (auto simp: posted_own)
qed

lemma queue_ok_update:
  assumes inv: "rcu_inv n r" and t: "t < n" and u: "rcu_update t (rr_state r) = ret s'" and v: "v < n"
  shows "queue_ok (after_update t s' r) v"
proof -
  let ?s = "rr_state r" and ?G = "unat (rcu_arr (rr_state r) t t)"
  obtain q where q: "rcu_pending ?s t = Some q" "rf_scale q = RCU_QUEUE_SCALE"
    "unat (rf_head q) = length (rr_deferred r t)"
    "length (rr_deferred r t) < length (rr_released r t) + 2 ^ RCU_QUEUE_SCALE"
    "\<And>k. length (rr_released r t) \<le> k \<Longrightarrow> k < length (rr_deferred r t) \<Longrightarrow>
       rf_x q (k mod 2 ^ RCU_QUEUE_SCALE) = rr_deferred r t ! k"
    "length (rr_deferred r t) < 2 ^ 32"
    by (rule rcu_invD [OF inv t]) blast
  have pend: "rcu_pending s' = (rcu_pending ?s)(t \<mapsto> q\<lparr>rf_tail := of_nat ?G\<rparr>)"
    using u rcu_update_spec [OF inv t q(1)] by auto
  have G: "length (rr_released r t) \<le> ?G" "?G \<le> length (rr_deferred r t)"
    using inv t by (simp_all add: rcu_inv_def ring_ok_def)
  have rel: "rr_released (after_update t s' r) = (rr_released r)(t := take ?G (rr_deferred r t))"
    by (rule update_released [OF inv t u])
  have same: "rr_state (after_update t s' r) = s'" "rr_deferred (after_update t s' r) = rr_deferred r"
    by (simp_all add: after_update_def)
  show ?thesis
  proof (cases "v = t")
    case True
    have "unat (of_nat ?G :: 32 word) = ?G" using G q(6) by (intro unat_of_nat_small) simp
    then show ?thesis
      unfolding queue_ok_def rel same pend True using q G by auto
  next
    case False
    have "queue_ok r v" using inv v by (simp add: rcu_inv_def)
    then show ?thesis unfolding queue_ok_def rel same pend using False by simp
  qed
qed

lemma ring_ok_update:
  assumes inv: "rcu_inv n r" and t: "t < n" and u: "rcu_update t (rr_state r) = ret s'" and v: "v < n"
  shows "ring_ok n (after_update t s' r) v"
proof -
  let ?s = "rr_state r" and ?nx = "(t + 1) mod n"
  have ok: "ring_ok n r v" using inv v by (simp add: rcu_inv_def)
  have rel: "rr_released (after_update t s' r) = (rr_released r)(t := take (unat (rcu_arr ?s t t)) (rr_deferred r t))"
    by (rule update_released [OF inv t u])
  note arr = update_arr [OF inv t u]
  have same: "rr_state (after_update t s' r) = s'" "rr_deferred (after_update t s' r) = rr_deferred r"
    by (simp_all add: after_update_def)
  have seen: "rr_seen r v k \<subseteq> rr_seen (after_update t s' r) v k" for k by (auto simp: after_update_def)
  show ?thesis
  proof (cases "v = t \<or> n = 1")
    case True
    then have col: "rcu_arr s' j v = rcu_arr ?s j v" "rcu_last_posted s' j v = rcu_last_posted ?s j v" for j
      unfolding arr by (auto simp: posted_def)
    have vt: "v = t" using True t v by auto
    then have "length (rr_released (after_update t s' r) v) \<le> unat (rcu_arr s' v v)"
      unfolding rel col by simp
    moreover have "between n v j \<subseteq> rr_seen (after_update t s' r) v k" if "j < n" "k < unat (rcu_arr ?s j v)" for j k
      using ok that seen [of k] unfolding ring_ok_def by blast
    ultimately show ?thesis
      using ok unfolding ring_ok_def same col by blast
  next
    case False
    have col: "rcu_arr s' j v = (if j = ?nx then rcu_arr ?s t v else rcu_arr ?s j v)" for j
      unfolding arr using False v by (auto simp: posted_def)
    have lst: "rcu_last_posted s' j v = (if j = t then rcu_arr ?s t v else rcu_last_posted ?s j v)" for j
      unfolding arr using False v by (auto simp: posted_def)
    have nt: "?nx \<noteq> t" using ring_next_neq [OF t] False by simp
    have up: "unat (rcu_arr ?s ?nx v) \<le> unat (rcu_arr ?s t v)"
      using ok t False unfolding ring_ok_def by blast
    have le: "unat (rcu_arr s' j v) \<le> length (rr_deferred r v)" if "j < n" for j
      using ok that t by (simp add: ring_ok_def col)
    have mono: "unat (rcu_arr s' ((j + 1) mod n) v) \<le> unat (rcu_arr s' j v)" if "j < n" "j \<noteq> v" for j
    proof (cases "j = t")
      case True
      then show ?thesis using nt by (simp add: col)
    next
      case False
      then have "unat (rcu_arr s' ((j + 1) mod n) v) \<le> unat (rcu_arr ?s j v)"
        using ok that next_inj [OF that(1) t] False unfolding ring_ok_def col by auto
      also have "\<dots> \<le> unat (rcu_arr s' j v)" using up by (simp add: col)
      finally show ?thesis .
    qed
    have own: "length (rr_released (after_update t s' r) v) \<le> unat (rcu_arr s' v v)"
    proof -
      have "length (rr_released r v) \<le> unat (rcu_arr ?s v v)" using ok by (simp add: ring_ok_def)
      also have "\<dots> \<le> unat (rcu_arr s' v v)" using up by (auto simp: col)
      finally show ?thesis unfolding rel using False by simp
    qed
    have link: "rcu_arr s' ((j + 1) mod n) v = rcu_last_posted s' j v" if "j < n" for j
      using ok that next_inj [OF that t] by (simp add: ring_ok_def col lst)
    have sn: "between n v j \<subseteq> rr_seen (after_update t s' r) v k" if "j < n" "k < unat (rcu_arr s' j v)" for j k
    proof (cases "j = ?nx")
      case True
      then have k: "k < unat (rcu_arr ?s t v)" using that by (simp add: col)
      then have "between n v t \<subseteq> rr_seen r v k" "k < length (rr_deferred r v)"
        using ok t by (auto simp: ring_ok_def dest: order.strict_trans2)
      then show ?thesis
        using between_next [OF v t] False True by (auto simp: after_update_def)
    next
      case other: False
      then have "between n v j \<subseteq> rr_seen r v k" using ok that by (simp add: ring_ok_def col)
      then show ?thesis using seen by blast
    qed
    show ?thesis
      unfolding ring_ok_def same using le mono own link sn by blast
  qed
qed

lemma rcu_inv_update:
  assumes "rcu_inv n r" and "t < n" and "rcu_update t (rr_state r) = ret s'"
  shows "rcu_inv n (after_update t s' r)"
  using queue_ok_update [OF assms] ring_ok_update [OF assms] update_arr(3) [OF assms]
  by (simp add: rcu_inv_def after_update_def)

text \<open>\<^verbatim>\<open>rcu_defer_free\<close> appends to the queue, and may post the new head position.\<close>

lemma MOD_SCALE_window:
  fixes T H :: nat
  assumes "T \<le> H" and "H < T + 2 ^ b" and "H + 1 < 2 ^ 32" and "unat h = H" and "unat w = T"
  shows "MOD_SCALE (h + 1) b = MOD_SCALE w b \<longleftrightarrow> H + 1 = T + 2 ^ b"
proof -
  have "unat (h + 1) = H + 1" using assms(3,4) by (simp add: unat_word_ariths)
  then have eq: "MOD_SCALE (h + 1) b = MOD_SCALE w b \<longleftrightarrow> (H + 1) mod 2 ^ b = T mod 2 ^ b"
    using assms(5) by (simp add: MOD_SCALE_eq)
  show ?thesis
  proof
    assume "MOD_SCALE (h + 1) b = MOD_SCALE w b"
    then show "H + 1 = T + 2 ^ b"
      using eq mod_eq_window [of T "2 ^ b" "H + 1"] assms(1,2) by force
  qed (use eq in simp)
qed

lemma rcu_defer_free_spec:
  assumes inv: "rcu_inv n r" and t: "t < n" and x: "x \<noteq> NULL" and nw: "length (rr_deferred r t) + 1 < 2 ^ 32"
    and q: "rcu_pending (rr_state r) t = Some q"
  shows "rcu_defer_free t x (rr_state r) =
    (if length (rr_deferred r t) + 1 = length (rr_released r t) + 2 ^ RCU_QUEUE_SCALE then fail Assert_Failed
     else let q' = q\<lparr>rf_x := (rf_x q)(length (rr_deferred r t) mod 2 ^ RCU_QUEUE_SCALE := x), rf_head := rf_head q + 1\<rparr>;
              s = (rr_state r)\<lparr>rcu_pending := (rcu_pending (rr_state r))(t \<mapsto> q')\<rparr>
          in if ucast (rf_head q + 1) - rcu_last_posted (rr_state r) t t \<ge> RCU_POST_THRESHOLD
             then ret (s\<lparr>rcu_arr := upd2 ((t + 1) mod n) t (ucast (rf_head q + 1)) (rcu_arr s),
                         rcu_last_posted := upd2 t t (ucast (rf_head q + 1)) (rcu_last_posted s)\<rparr>)
             else ret s)"
proof -
  obtain q' where q': "rcu_pending (rr_state r) t = Some q'" "rf_scale q' = RCU_QUEUE_SCALE"
    "unat (rf_head q') = length (rr_deferred r t)" "unat (rf_tail q') = length (rr_released r t)"
    "length (rr_deferred r t) < length (rr_released r t) + 2 ^ RCU_QUEUE_SCALE"
    "length (rr_released r t) \<le> length (rr_deferred r t)"
    by (rule rcu_invD [OF inv t]) blast
  have "MOD_SCALE (rf_head q + 1) RCU_QUEUE_SCALE = MOD_SCALE (rf_tail q) RCU_QUEUE_SCALE \<longleftrightarrow>
      length (rr_deferred r t) + 1 = length (rr_released r t) + 2 ^ RCU_QUEUE_SCALE"
    using q q' nw by (intro MOD_SCALE_window) simp_all
  moreover have "rcu_num_threads (rr_state r) = n" "n \<noteq> 0" using inv t by (auto simp: rcu_inv_def)
  ultimately show ?thesis
    using q q' x by (simp add: rcu_defer_free_def Let_def MOD_SCALE_eq)
qed

lemma rcu_inv_defer:
  assumes inv: "rcu_inv n r" and t: "t < n" and d: "rcu_defer_free t x (rr_state r) = ret s'"
    and nw: "length (rr_deferred r t) + 1 < 2 ^ 32"
  shows "rcu_inv n (r\<lparr>rr_state := s', rr_deferred := (rr_deferred r)(t := rr_deferred r t @ [x])\<rparr>)" (is "rcu_inv n ?r'")
proof -
  let ?s = "rr_state r" and ?H = "length (rr_deferred r t)" and ?T = "length (rr_released r t)"
  let ?N = "2 ^ RCU_QUEUE_SCALE :: nat"
  obtain q where q: "rcu_pending ?s t = Some q" "rf_scale q = RCU_QUEUE_SCALE"
    "unat (rf_head q) = ?H" "unat (rf_tail q) = ?T" "rr_released r t = take ?T (rr_deferred r t)" "?H < ?T + ?N"
    "\<And>k. ?T \<le> k \<Longrightarrow> k < ?H \<Longrightarrow> rf_x q (k mod ?N) = rr_deferred r t ! k" "?T \<le> ?H"
    by (rule rcu_invD [OF inv t]) blast
  have x: "x \<noteq> NULL" using d by (auto simp: rcu_defer_free_def)
  note spec = rcu_defer_free_spec [OF inv t x nw q(1)]
  have room: "?H + 1 < ?T + ?N" using d spec q(6) by (auto split: if_splits)
  let ?q = "q\<lparr>rf_x := (rf_x q)(?H mod ?N := x), rf_head := rf_head q + 1\<rparr>"
  have pend: "rcu_pending s' = (rcu_pending ?s)(t \<mapsto> ?q)" and nt: "rcu_num_threads s' = n"
    using d spec room inv by (auto simp: Let_def rcu_inv_def split: if_splits)
  have hd: "unat (rf_head q + 1) = ?H + 1" using nw q(3) by (simp add: unat_word_ariths)
  have uh: "unat (ucast (rf_head q + 1) :: 64 word) = ?H + 1" by (simp add: unat_ucast_32_64 hd)
  have apart: "k mod ?N \<noteq> ?H mod ?N" if "?T \<le> k" "k < ?H" for k
    using that mod_eq_window [of k ?N ?H] q(6) by linarith
  have "queue_ok ?r' v" if v: "v < n" for v
  proof (cases "v = t")
    case True
    have "rf_x ?q (k mod ?N) = (rr_deferred r t @ [x]) ! k" if "?T \<le> k" "k < ?H + 1" for k
      using that q(7) apart by (cases "k = ?H") (auto simp: nth_append)
    then show ?thesis
      unfolding queue_ok_def True using q hd room by (auto simp: pend)
  next
    case False
    moreover have "queue_ok r v" using inv v by (simp add: rcu_inv_def)
    ultimately show ?thesis by (simp add: queue_ok_def pend)
  qed
  moreover have "ring_ok n ?r' v" if v: "v < n" for v
  proof -
    have ok: "ring_ok n r v" using inv v by (simp add: rcu_inv_def)
    have arr: "rcu_arr s' j v = rcu_arr ?s j v \<or> v = t \<and> j = (t + 1) mod n \<and> unat (rcu_arr s' j v) = ?H + 1" for j
      using d spec room uh by (auto simp: Let_def split: if_splits)
    have lst: "rcu_arr s' ((j + 1) mod n) v = rcu_last_posted s' j v" if "j < n" for j
      using d spec room ok that next_inj [OF that t] unfolding ring_ok_def by (auto simp: Let_def split: if_splits)
    have le: "unat (rcu_arr s' j v) \<le> length (rr_deferred ?r' v)" if "j < n" for j
    proof -
      have "unat (rcu_arr ?s j v) \<le> length (rr_deferred r v)" using ok that by (simp add: ring_ok_def)
      then show ?thesis using arr [of j] by auto
    qed
    have up: "unat (rcu_arr ?s j v) \<le> unat (rcu_arr s' j v)" if "j < n" for j
    proof -
      have "unat (rcu_arr ?s j v) \<le> length (rr_deferred r v)" using ok that by (simp add: ring_ok_def)
      then show ?thesis using arr [of j] by auto
    qed
    have mono: "unat (rcu_arr s' ((j + 1) mod n) v) \<le> unat (rcu_arr s' j v)" if "j < n" "j \<noteq> v" for j
    proof -
      have "rcu_arr s' ((j + 1) mod n) v = rcu_arr ?s ((j + 1) mod n) v"
        using arr [of "(j + 1) mod n"] next_inj [OF that(1) t] that(2) by auto
      moreover have "unat (rcu_arr ?s ((j + 1) mod n) v) \<le> unat (rcu_arr ?s j v)"
        using ok that unfolding ring_ok_def by blast
      ultimately show ?thesis using up [OF that(1)] by simp
    qed
    have own: "length (rr_released r v) \<le> unat (rcu_arr s' v v)"
      using ok up [OF v] by (simp add: ring_ok_def)
    have sn: "between n v j \<subseteq> rr_seen r v k" if "j < n" "k < unat (rcu_arr s' j v)" for j k
    proof (cases "v = t \<and> j = (t + 1) mod n")
      case True
      then show ?thesis using between_first [OF t] by simp
    next
      case False
      then have "rcu_arr s' j v = rcu_arr ?s j v" using arr [of j] by auto
      then show ?thesis using ok that unfolding ring_ok_def by simp
    qed
    show ?thesis unfolding ring_ok_def using le mono own lst sn by simp
  qed
  ultimately show ?thesis using nt by (simp add: rcu_inv_def)
qed

section \<open>Reachable states\<close>

lemma rcu_init_fold:
  "fold (rcu_thread_init junk) [0 ..< n] rcu_static_init =
    rcu_static_init\<lparr>rcu_pending := (\<lambda>t. if t < n then Some (fifo_alloc junk RCU_QUEUE_SCALE) else None), rcu_num_threads := n\<rparr>"
proof (induction n)
  case 0
  then show ?case by (simp add: rcu_static_init_def)
next
  case (Suc n)
  then show ?case by (auto simp: rcu_thread_init_def rcu_static_init_def fun_eq_iff less_Suc_eq)
qed

lemma rcu_inv_init: "rcu_inv n (rr_init junk n)"
  unfolding rcu_inv_def rr_init_def rcu_init_fold
  by (auto simp: queue_ok_def ring_ok_def rcu_static_init_def fifo_alloc_def)

lemma rcu_inv_reachable:
  assumes "rcu_reachable junk n r" and "\<forall>t < n. length (rr_deferred r t) < 2 ^ 32"
  shows "rcu_inv n r"
  using assms
proof (induction rule: rcu_reachable.induct)
  case init
  then show ?case by (simp add: rcu_inv_init)
next
  case (step r r')
  from step.hyps(2) show ?case
  proof cases
    case (update t s')
    then have "\<forall>t < n. length (rr_deferred r t) < 2 ^ 32" using step.prems by simp
    then have "rcu_inv n (after_update t s' r)" using step.IH update rcu_inv_update by blast
    then show ?thesis using update by (simp add: after_update_def)
  next
    case (defer_free t x s')
    have le: "length (rr_deferred r u) < 2 ^ 32" if "u < n" for u
      using step.prems defer_free(1) that by (cases "u = t") (auto simp: Suc_lessD)
    have "length (rr_deferred r t) + 1 < 2 ^ 32" using step.prems defer_free(1,2) by auto
    then show ?thesis using step.IH le defer_free rcu_inv_defer by blast
  qed
qed

text \<open>A sequence of calls of \<^verbatim>\<open>rcu_update\<close> by the given threads.\<close>

fun rcu_updates :: "nat list \<Rightarrow> rcu_state \<Rightarrow> rcu_state prog" where
  "rcu_updates [] s = ret s"
| "rcu_updates (t # ts) s = pbind (rcu_update t s) (rcu_updates ts)"

lemma rcu_updates_append: "rcu_updates (xs @ ys) s = pbind (rcu_updates xs s) (rcu_updates ys)"
proof (induction xs arbitrary: s)
  case (Cons t xs)
  then have "rcu_updates (xs @ ys) = (\<lambda>s. pbind (rcu_updates xs s) (rcu_updates ys))" by (rule ext)
  then show ?case by (simp add: pbind_assoc)
qed simp

lemma rcu_update_returns:
  assumes "rcu_inv n r" and "t < n"
  shows "\<exists>s'. rcu_update t (rr_state r) = ret s'"
  by (rule rcu_invD [OF assms]) (use rcu_update_spec [OF assms] in blast)

text \<open>What a thread has released, \<^verbatim>\<open>nbd_free\<close> has been called for.\<close>

definition released_freed :: "nat \<Rightarrow> rcu_run \<Rightarrow> bool" where
  "released_freed n r \<longleftrightarrow> (\<forall>t < n. set (rr_released r t) \<subseteq> set (rcu_freed (rr_state r)))"

lemma released_freed_update:
  assumes "rcu_inv n r" and "t < n" and "rcu_update t (rr_state r) = ret s'" and "released_freed n r"
  shows "released_freed n (after_update t s' r)"
proof -
  obtain q where "rcu_pending (rr_state r) t = Some q" by (rule rcu_invD [OF assms(1,2)]) blast
  then obtain xs where "rcu_freed s' = rcu_freed (rr_state r) @ xs" using rcu_update_spec [OF assms(1,2)] assms(3) by auto
  then show ?thesis using assms(4) by (auto simp: released_freed_def after_update_def)
qed

lemma rcu_defer_free_freed: "rcu_defer_free t x s = ret s' \<Longrightarrow> rcu_freed s' = rcu_freed s"
  by (auto simp: rcu_defer_free_def Let_def pbind_eq_ret passert_def split: option.splits if_splits)

lemma released_freed_reachable:
  assumes "rcu_reachable junk n r" and "\<forall>t < n. length (rr_deferred r t) < 2 ^ 32"
  shows "released_freed n r"
  using assms
proof (induction rule: rcu_reachable.induct)
  case init
  then show ?case by (simp add: released_freed_def rr_init_def)
next
  case (step r r')
  have "length (rr_deferred r u) \<le> length (rr_deferred r' u)" for u using step.hyps(2) by cases auto
  then have small: "\<forall>t < n. length (rr_deferred r t) < 2 ^ 32" using step.prems le_less_trans by blast
  from step.hyps(2) show ?case
  proof cases
    case (update t s')
    then show ?thesis
      using released_freed_update [OF rcu_inv_reachable [OF step.hyps(1) small] update(2,3) step.IH [OF small]] by (simp add: after_update_def)
  next
    case (defer_free t x s')
    then show ?thesis using step.IH [OF small] rcu_defer_free_freed [OF defer_free(3)] by (simp add: released_freed_def)
  qed
qed

lemma ring_round:
  assumes inv: "rcu_inv n r" and t: "t < n" and m: "m \<le> n - 1"
  shows "\<exists>r'. rcu_updates (map (\<lambda>i. (t + 1 + i) mod n) [0 ..< m]) (rr_state r) = ret (rr_state r') \<and> rcu_inv n r' \<and>
    rcu_arr (rr_state r') ((t + 1 + m) mod n) t = rcu_arr (rr_state r) ((t + 1) mod n) t \<and> rr_deferred r' = rr_deferred r \<and>
    (released_freed n r \<longrightarrow> released_freed n r')"
  using m
proof (induction m)
  case 0
  then show ?case using inv by (intro exI [of _ r]) simp
next
  case (Suc m)
  then obtain r1 where r1: "rcu_updates (map (\<lambda>i. (t + 1 + i) mod n) [0 ..< m]) (rr_state r) = ret (rr_state r1)"
    "rcu_inv n r1" "rcu_arr (rr_state r1) ((t + 1 + m) mod n) t = rcu_arr (rr_state r) ((t + 1) mod n) t"
    "rr_deferred r1 = rr_deferred r" "released_freed n r \<longrightarrow> released_freed n r1" by auto
  let ?u = "(t + 1 + m) mod n"
  have u: "?u < n" "?u \<noteq> t" and n1: "n \<noteq> 1"
  proof -
    show "?u < n" "n \<noteq> 1" using t Suc.prems by auto
    show "?u \<noteq> t"
    proof
      assume "?u = t"
      then have "t mod n = (t + 1 + m) mod n" using t by simp
      then show False using mod_eq_window [of t n "t + 1 + m"] Suc.prems t by linarith
    qed
  qed
  obtain s' where s': "rcu_update ?u (rr_state r1) = ret s'" using rcu_update_returns [OF r1(2) u(1)] by blast
  have nx: "(t + 1 + Suc m) mod n = (?u + 1) mod n" by (simp add: mod_Suc_eq)
  have "rcu_arr s' ((?u + 1) mod n) t = rcu_arr (rr_state r1) ?u t"
    using update_arr(1) [OF r1(2) u(1) s'] n1 t u by (simp add: posted_def)
  then have "rcu_arr (rr_state (after_update ?u s' r1)) ((t + 1 + Suc m) mod n) t = rcu_arr (rr_state r) ((t + 1) mod n) t"
    unfolding nx using r1(3) by (simp add: after_update_def)
  moreover have "rcu_updates (map (\<lambda>i. (t + 1 + i) mod n) [0 ..< Suc m]) (rr_state r) = ret (rr_state (after_update ?u s' r1))"
    using r1(1) s' by (simp add: rcu_updates_append after_update_def)
  moreover have "rr_deferred (after_update ?u s' r1) = rr_deferred r" using r1(4) by (simp add: after_update_def)
  ultimately show ?case using rcu_inv_update [OF r1(2) u(1) s'] released_freed_update [OF r1(2) u(1) s'] r1(5) by blast
qed

section \<open>What has been freed has been seen\<close>

lemma rcu_seen_bound: "rcu_reachable junk n r \<Longrightarrow> length (rr_deferred r t) \<le> k \<Longrightarrow> rr_seen r t k = {}"
proof (induction arbitrary: t k rule: rcu_reachable.induct)
  case init
  then show ?case by (simp add: rr_init_def)
next
  case (step r r')
  from step.hyps(2) show ?case by cases (use step in \<open>auto split: if_splits\<close>)
qed

lemma rcu_released_own:
  assumes "rcu_reachable junk n r" and "\<forall>t < n. length (rr_deferred r t) < 2 ^ 32" and "t < n" and "k < length (rr_released r t)"
  shows "t \<in> rr_seen r t k"
  using assms
proof (induction arbitrary: k rule: rcu_reachable.induct)
  case init
  then show ?case by (simp add: rr_init_def)
next
  case (step r r')
  have inv: "rcu_inv n r'" using rcu_inv_reachable [OF rcu_reachable.step [OF step.hyps]] step.prems(1) by blast
  have le: "length (rr_released r' t) \<le> length (rr_deferred r' t)" using rcu_invD [OF inv step.prems(2)] by blast
  from step.hyps(2) show ?case
  proof cases
    case (update u s')
    then show ?thesis using step.IH [of k] step.prems le by (cases "u = t") auto
  next
    case (defer_free u x s')
    moreover have "\<forall>t < n. length (rr_deferred r t) < 2 ^ 32"
    proof (intro allI impI)
      fix v assume "v < n"
      then show "length (rr_deferred r v) < 2 ^ 32" using step.prems(1) defer_free by (cases "v = u") (auto dest: spec [of _ v])
    qed
    ultimately show ?thesis using step.IH [of k] step.prems by auto
  qed
qed

lemma rcu_released_seen:
  assumes "rcu_reachable junk n r" and "\<forall>t < n. length (rr_deferred r t) < 2 ^ 32" and "t < n" and "k < length (rr_released r t)"
  shows "rr_released r t ! k = rr_deferred r t ! k" and "k < length (rr_deferred r t)" and "u < n \<Longrightarrow> u \<in> rr_seen r t k"
proof -
  have inv: "rcu_inv n r" by (rule rcu_inv_reachable [OF assms(1,2)])
  then have q: "rr_released r t = take (length (rr_released r t)) (rr_deferred r t)" and ok: "ring_ok n r t" using assms(3) unfolding rcu_inv_def queue_ok_def by blast+
  show "rr_released r t ! k = rr_deferred r t ! k" using q assms(4) by (metis nth_take)
  show "k < length (rr_deferred r t)" using q assms(4) by (metis length_take min_less_iff_conj)
  assume u: "u < n"
  have "k < unat (rcu_arr (rr_state r) t t)" using ok assms(4) unfolding ring_ok_def by linarith
  then have "{u. u < n \<and> u \<noteq> t} \<subseteq> rr_seen r t k" using ok assms(3) between_self [OF assms(3)] unfolding ring_ok_def by blast
  then show "u \<in> rr_seen r t k" using rcu_released_own [OF assms] u by (cases "u = t") auto
qed

lemma rcu_defer_free_outcome:
  assumes inv: "rcu_inv n r" and t: "t < n" and x: "x \<noteq> NULL" and nw: "length (rr_deferred r t) < 2 ^ 32 - 1"
  shows "if length (rr_deferred r t) - length (rr_released r t) = 2 ^ 20 - 1
       then rcu_defer_free t x (rr_state r) = fail Assert_Failed
       else \<exists>s'. rcu_defer_free t x (rr_state r) = ret s'"
proof -
  obtain q where q: "rcu_pending (rr_state r) t = Some q" "length (rr_released r t) \<le> length (rr_deferred r t)"
    by (rule rcu_invD [OF inv t]) blast
  have iff: "length (rr_deferred r t) + 1 = length (rr_released r t) + 2 ^ RCU_QUEUE_SCALE \<longleftrightarrow>
      length (rr_deferred r t) - length (rr_released r t) = 2 ^ 20 - 1"
    using q(2) by (auto simp: RCU_QUEUE_SCALE_def)
  have "length (rr_deferred r t) + 1 < 2 ^ 32" using nw by simp
  from rcu_defer_free_spec [OF inv t x this q(1)] show ?thesis unfolding iff by (auto simp: Let_def)
qed

section \<open>Properties\<close>

text \<open>C13: grace period. In every run of \<open>n\<close> threads, an address that \<^verbatim>\<open>rcu_update\<close> has freed
  was deferred before, every other thread has called \<^verbatim>\<open>rcu_update\<close> between the deferral and
  the free, and each thread's addresses are freed in the order in which they were deferred, each
  once. (Fewer than \<open>2 ^ 32\<close> deferrals per thread.)\<close>

theorem rcu_grace_period:
  assumes "rcu_reachable junk n r" and "\<forall>t < n. length (rr_deferred r t) < 2 ^ 32" and "t < n"
  shows "rr_released r t = take (length (rr_released r t)) (rr_deferred r t)
    \<and> (\<forall>k < length (rr_released r t). {u. u < n \<and> u \<noteq> t} \<subseteq> rr_seen r t k)"
proof -
  have "rcu_inv n r" by (rule rcu_inv_reachable [OF assms(1,2)])
  then have "rr_released r t = take (length (rr_released r t)) (rr_deferred r t)" using assms(3) unfolding rcu_inv_def queue_ok_def by blast
  then show ?thesis using rcu_released_seen(3) [OF assms] by blast
qed

text \<open>C29: neither call gets stuck. In every state of a run of \<open>n\<close> threads in which each thread has deferred
  fewer than \<open>2 ^ 32 - 1\<close> addresses so far, \<^verbatim>\<open>rcu_update\<close> returns, and
  \<^verbatim>\<open>rcu_defer_free\<close> of a non-NULL address returns unless the thread's queue holds
  \<open>2 ^ 20 - 1\<close> addresses, in which case its assertion fails.\<close>

theorem rcu_calls_return:
  assumes "rcu_reachable junk n r" and "\<forall>t < n. length (rr_deferred r t) < 2 ^ 32 - 1" and "t < n" and "x \<noteq> NULL"
  shows "(\<exists>s'. rcu_update t (rr_state r) = ret s')
    \<and> (if length (rr_deferred r t) - length (rr_released r t) = 2 ^ 20 - 1
       then rcu_defer_free t x (rr_state r) = fail Assert_Failed
       else \<exists>s'. rcu_defer_free t x (rr_state r) = ret s')"
proof -
  have inv: "rcu_inv n r"
    using assms(2) by (intro rcu_inv_reachable [OF assms(1)]) auto
  show ?thesis using rcu_update_returns [OF inv assms(3)] rcu_defer_free_outcome [OF inv assms(3,4)] assms(2,3) by simp
qed

text \<open>C27: reclamation makes progress. From any state of a run of \<open>n\<close> threads in which each thread has
  deferred fewer than \<open>2 ^ 32\<close> addresses so far: if the threads call \<^verbatim>\<open>rcu_update\<close> once each in ring
  order, starting behind \<open>t\<close> and ending with \<open>t\<close>, all the calls return, and every address that \<open>t\<close>
  had deferred up to the position it last posted has been freed; its queue's tail is at that position.\<close>

theorem rcu_round_reclaims:
  assumes "rcu_reachable junk n r" and "\<forall>t < n. length (rr_deferred r t) < 2 ^ 32" and "t < n"
  shows "\<exists>s' q. rcu_updates (map (\<lambda>i. (t + 1 + i) mod n) [0 ..< n]) (rr_state r) = ret s' \<and>
    set (take (unat (rcu_last_posted (rr_state r) t t)) (rr_deferred r t)) \<subseteq> set (rcu_freed s') \<and>
    rcu_pending s' t = Some q \<and> unat (rf_tail q) = unat (rcu_last_posted (rr_state r) t t)"
proof -
  have inv: "rcu_inv n r" by (rule rcu_inv_reachable [OF assms(1,2)])
  obtain r1 where r1: "rcu_updates (map (\<lambda>i. (t + 1 + i) mod n) [0 ..< n - 1]) (rr_state r) = ret (rr_state r1)"
    "rcu_inv n r1" "rcu_arr (rr_state r1) ((t + 1 + (n - 1)) mod n) t = rcu_arr (rr_state r) ((t + 1) mod n) t"
    "rr_deferred r1 = rr_deferred r" "released_freed n r1"
    using ring_round [OF inv assms(3), of "n - 1"] released_freed_reachable [OF assms(1,2)] by blast
  have bk: "(t + 1 + (n - 1)) mod n = t" using assms(3) by simp
  have "[0 ..< n] = [0 ..< n - 1] @ [n - 1]"
    using assms(3) upt_Suc_append [of 0 "n - 1"] by simp
  then have seq: "rcu_updates (map (\<lambda>i. (t + 1 + i) mod n) [0 ..< n]) (rr_state r) = rcu_update t (rr_state r1)"
    using r1(1) bk by (simp only: map_append list.map rcu_updates_append) (simp add: pbind_def ret_def split: Option.bind_splits sum.splits)
  obtain q where q: "rcu_pending (rr_state r1) t = Some q" "length (rr_deferred r1 t) < 2 ^ 32"
    by (rule rcu_invD [OF r1(2) assms(3)]) blast
  have le: "unat (rcu_arr (rr_state r1) t t) \<le> length (rr_deferred r1 t)"
    using r1(2) assms(3) by (simp add: rcu_inv_def ring_ok_def)
  have "rcu_arr (rr_state r) ((t + 1) mod n) t = rcu_last_posted (rr_state r) t t"
    using inv assms(3) unfolding rcu_inv_def ring_ok_def by blast
  then have post: "rcu_arr (rr_state r1) t t = rcu_last_posted (rr_state r) t t" using r1(3) bk by simp
  have "unat (of_nat (unat (rcu_arr (rr_state r1) t t)) :: 32 word) = unat (rcu_arr (rr_state r1) t t)"
    using le q(2) by (intro unat_of_nat_small) simp
  moreover obtain s' where s': "rcu_update t (rr_state r1) = ret s'" using rcu_update_returns [OF r1(2) assms(3)] by blast
  moreover have "set (take (unat (rcu_last_posted (rr_state r) t t)) (rr_deferred r t)) \<subseteq> set (rcu_freed s')"
    using released_freed_update [OF r1(2) assms(3) s' r1(5), unfolded released_freed_def update_released [OF r1(2) assms(3) s'], rule_format, OF assms(3)] post r1(4)
    by (simp add: after_update_def)
  ultimately show ?thesis
    using seq rcu_update_spec [OF r1(2) assms(3) q(1)] post by auto
qed

theorem rcu_grace_period_witness:
  "\<exists>r. rcu_reachable (\<lambda>_. 0) 2 r \<and> rr_released r 0 = take (length (rr_released r 0)) (rr_deferred r 0) \<and>
     length (rr_deferred r 0) = 1"
proof -
  let ?r = "rr_init (\<lambda>_. 0) 2"
  obtain s' where s': "rcu_defer_free 0 8 (rr_state ?r) = ret s'"
    using rcu_defer_free_spec [OF rcu_inv_init, of 0 2 8 "\<lambda>_. 0"]
    by (auto simp: rr_init_def rcu_init_fold RCU_QUEUE_SCALE_def Let_def split: if_splits)
  let ?r' = "?r\<lparr>rr_state := s', rr_deferred := (rr_deferred ?r)(0 := rr_deferred ?r 0 @ [8])\<rparr>"
  have reach: "rcu_reachable (\<lambda>_. 0) 2 ?r'"
    using rcu_reachable.step [OF rcu_reachable.init rcu_step.defer_free [OF _ s']] by simp
  have len: "\<forall>t < 2. length (rr_deferred ?r' t) < 2 ^ 32" by (simp add: rr_init_def)
  show ?thesis
    using rcu_grace_period [OF reach len, of 0] reach by (intro exI [of _ ?r']) (simp add: rr_init_def)
qed

text \<open>A thread that defers addresses one after the other.\<close>

primrec rr_defers :: "nat \<Rightarrow> addr list \<Rightarrow> rcu_run \<Rightarrow> rcu_run prog" where
  "rr_defers t [] r = ret r"
| "rr_defers t (x # xs) r = pbind (rcu_defer_free t x (rr_state r)) (\<lambda>s'.
     rr_defers t xs (r\<lparr>rr_state := s', rr_deferred := (rr_deferred r)(t := rr_deferred r t @ [x])\<rparr>))"

lemma rr_defers_reachable:
  "rcu_reachable junk n r \<Longrightarrow> t < n \<Longrightarrow> rr_defers t xs r = ret r' \<Longrightarrow> rcu_reachable junk n r'"
proof (induction xs arbitrary: r)
  case (Cons x xs)
  then obtain s' where s': "rcu_defer_free t x (rr_state r) = ret s'"
    "rr_defers t xs (r\<lparr>rr_state := s', rr_deferred := (rr_deferred r)(t := rr_deferred r t @ [x])\<rparr>) = ret r'" by (auto simp: pbind_eq_ret)
  show ?case by (rule Cons.IH [OF rcu_reachable.step [OF Cons.prems(1) rcu_step.defer_free [OF Cons.prems(2) s'(1)]] Cons.prems(2) s'(2)])
qed simp

lemma rcu_ten:
  "case rr_defers 0 [8, 16, 24, 32, 40, 48, 56, 64, 72, 80] (rr_init (\<lambda>_. 0) 2) of
     Some (Inr r) \<Rightarrow> rcu_last_posted (rr_state r) 0 0 = 10 \<and> length (rr_deferred r 0) = 10 \<and> rr_deferred r 1 = [] \<and> 48 \<in> set (take 10 (rr_deferred r 0)) | _ \<Rightarrow> False"
  by code_simp

text \<open>A queue that fills up.\<close>

lemma rcu_fill:
  assumes "k \<le> 2 ^ 20 - 1"
  shows "\<exists>r. rcu_reachable junk 2 r \<and> length (rr_deferred r 0) = k \<and> rr_deferred r 1 = [] \<and> rr_released r 0 = []"
  using assms
proof (induction k)
  case 0
  show ?case by (intro exI [of _ "rr_init junk 2"]) (simp add: rcu_reachable.init, simp add: rr_init_def)
next
  case (Suc k)
  then obtain r where r: "rcu_reachable junk 2 r" "length (rr_deferred r 0) = k" "rr_deferred r 1 = []" "rr_released r 0 = []" by auto
  have small: "\<forall>t < 2. length (rr_deferred r t) < 2 ^ 32" using r(2,3) Suc.prems by (auto simp: less_2_cases_iff)
  obtain s' where s': "rcu_defer_free 0 8 (rr_state r) = ret s'"
    using rcu_defer_free_outcome [OF rcu_inv_reachable [OF r(1) small], of 0 8] r(2,4) Suc.prems by (auto split: if_splits)
  show ?case
    using rcu_reachable.step [OF r(1) rcu_step.defer_free [OF _ s']] r
    by (intro exI [of _ "r\<lparr>rr_state := s', rr_deferred := (rr_deferred r)(0 := rr_deferred r 0 @ [8])\<rparr>"]) simp
qed

theorem rcu_calls_return_witness:
  "\<exists>r r' s s'. rcu_reachable (\<lambda>_. 0) 2 r \<and> rcu_update 1 (rr_state r) = ret s \<and> rcu_defer_free 0 8 (rr_state r) = ret s' \<and>
     rcu_reachable (\<lambda>_. 0) 2 r' \<and> rcu_defer_free 0 8 (rr_state r') = fail Assert_Failed"
proof -
  obtain r where r: "rcu_reachable (\<lambda>_. 0) 2 r" "length (rr_deferred r 0) = 5" "rr_deferred r 1 = []" "rr_released r 0 = []" using rcu_fill [of 5] by auto
  obtain r' where r': "rcu_reachable (\<lambda>_. 0) 2 r'" "length (rr_deferred r' 0) = 2 ^ 20 - 1" "rr_deferred r' 1 = []" "rr_released r' 0 = []"
    using rcu_fill [of "2 ^ 20 - 1"] by auto
  have "\<forall>t < 2. length (rr_deferred r t) < 2 ^ 32 - 1" "\<forall>t < 2. length (rr_deferred r' t) < 2 ^ 32 - 1" using r r' by (auto simp: less_2_cases_iff)
  then show ?thesis
    using rcu_calls_return [OF r(1), of 1 8] rcu_calls_return [OF r(1), of 0 8] rcu_calls_return [OF r'(1), of 0 8] r r' by (auto split: if_splits)
qed

theorem rcu_round_reclaims_witness:
  "\<exists>r s' q. rcu_reachable (\<lambda>_. 0) 2 r \<and> rcu_last_posted (rr_state r) 0 0 = 10 \<and>
     rcu_updates (map (\<lambda>i. (0 + 1 + i) mod 2) [0 ..< 2]) (rr_state r) = ret s' \<and> 48 \<in> set (rcu_freed s') \<and> rcu_pending s' 0 = Some q \<and> unat (rf_tail q) = 10"
proof -
  obtain r where r: "rr_defers 0 [8, 16, 24, 32, 40, 48, 56, 64, 72, 80] (rr_init (\<lambda>_. 0) 2) = ret r" "rcu_last_posted (rr_state r) 0 0 = 10"
    "length (rr_deferred r 0) = 10" "rr_deferred r 1 = []" "48 \<in> set (take 10 (rr_deferred r 0))"
    using rcu_ten by (auto simp: ret_def split: option.splits sum.splits)
  have reach: "rcu_reachable (\<lambda>_. 0) 2 r" by (rule rr_defers_reachable [OF rcu_reachable.init _ r(1)]) simp
  have "\<forall>t < 2. length (rr_deferred r t) < 2 ^ 32" using r(3,4) by (auto simp: less_2_cases_iff)
  from rcu_round_reclaims [OF reach this, of 0] show ?thesis using reach r(2,5) by (auto simp del: take_all_iff)
qed

end
