(* ===== verification/Lwt.thy ===== *)
theory Lwt
  imports Common Rcu Kiss_Random
begin

text \<open>
  Model of the lightweight tracing of \<^verbatim>\<open>src/src/runtime/lwt.c\<close> and
  \<^verbatim>\<open>src/src/runtime/lwt.h\<close>, and of the start-up of a thread in
  \<^verbatim>\<open>src/src/runtime/runtime.c\<close>. \<open>lwt_sys\<close> holds the variables \<^verbatim>\<open>halt_\<close>,
  \<^verbatim>\<open>TraceBuffer\<close>, \<^verbatim>\<open>TraceLevel\<close> and \<^verbatim>\<open>TraceSpec\<close>. A buffer is
  a ring of \<open>2 ^ 20\<close> records; \<open>junk\<close> is what its memory holds when it is allocated. What
  \<^verbatim>\<open>lwt_dump\<close> writes is a list of lines, before the values are formatted.
\<close>

section \<open>Data\<close>

definition LWT_BUFFER_SCALE :: nat where "LWT_BUFFER_SCALE = 20"
definition LWT_BUFFER_SIZE :: nat where "LWT_BUFFER_SIZE = 2 ^ LWT_BUFFER_SCALE"
definition LWT_BUFFER_MASK :: uint64_t where "LWT_BUFFER_MASK = of_nat LWT_BUFFER_SIZE - 1"

record lwt_record =
  lr_timestamp :: uint64_t
  lr_format :: uint64_t
  lr_value1 :: size_t
  lr_value2 :: size_t

record lwt_buffer =
  lb_head :: uint32_t
  lb_x :: "nat \<Rightarrow> lwt_record"

record lwt_sys =
  lwt_halted :: bool
  lwt_buffers :: "nat \<Rightarrow> lwt_buffer option"
  lwt_level :: "nat \<Rightarrow> uint8_t"
  lwt_spec :: "uint8_t list"

definition lwt_static_init :: lwt_sys where
  "lwt_static_init = \<lparr>lwt_halted = False, lwt_buffers = (\<lambda>_. None), lwt_level = (\<lambda>_. 0), lwt_spec = []\<rparr>"

text \<open>The slot of a buffer that the next record goes to.\<close>

definition lb_slot :: "lwt_buffer \<Rightarrow> nat" where
  "lb_slot b = unat (ucast (lb_head b) AND LWT_BUFFER_MASK)"

text \<open>The index of a \<^verbatim>\<open>char\<close> converted to \<^verbatim>\<open>unsigned\<close>.\<close>

definition char_index :: "uint8_t \<Rightarrow> nat" where
  "char_index c = unat (scast c :: uint32_t)"

section \<open>Operations\<close>

definition lwt_thread_init :: "(nat \<Rightarrow> lwt_record) \<Rightarrow> nat \<Rightarrow> lwt_sys \<Rightarrow> lwt_sys" where
  "lwt_thread_init junk thread_index s =
     (if lwt_buffers s thread_index = None
      then s\<lparr>lwt_buffers := (lwt_buffers s)(thread_index \<mapsto> \<lparr>lb_head = 0, lb_x = junk\<rparr>)\<rparr> else s)"

text \<open>The loop of \<^verbatim>\<open>lwt_set_trace_level\<close>; \<open>flags\<close> are the characters before the terminating zero.\<close>

fun lwt_set_levels :: "uint8_t list \<Rightarrow> (nat \<Rightarrow> uint8_t) \<Rightarrow> (nat \<Rightarrow> uint8_t) prog" where
  "lwt_set_levels (c # d # flags) l =
     pbind (pguard Out_Of_Bounds (char_index c < 256)) (\<lambda>_. lwt_set_levels flags (l(char_index c := d)))"
| "lwt_set_levels _ l = ret l"

definition lwt_set_trace_level :: "uint8_t list \<Rightarrow> lwt_sys \<Rightarrow> lwt_sys prog" where
  "lwt_set_trace_level flags s =
     pbind (passert (even (length flags))) (\<lambda>_.
     pbind (lwt_set_levels flags (\<lambda>_. 0)) (\<lambda>l. ret (s\<lparr>lwt_spec := flags, lwt_level := l\<rparr>)))"

text \<open>What \<^verbatim>\<open>dump_record\<close> prints of a record: the time, the thread, the flag and the level, the format string
  and the values to be formatted.\<close>

datatype dump_line = Line uint64_t nat uint64_t uint64_t addr size_t size_t

definition dump_record :: "lwt_sys \<Rightarrow> nat \<Rightarrow> uint64_t \<Rightarrow> lwt_record \<Rightarrow> dump_line list" where
  "dump_record s thread_id offset r =
     (let flag = drop_bit 56 (lr_format r);
          level = drop_bit 48 (lr_format r) AND 0xFF
      in if sint (lwt_level s (unat flag)) \<ge> uint level
         then [Line (drop_bit 5 (lr_timestamp r - offset)) thread_id flag level (lr_format r AND MASK 48) (lr_value1 r) (lr_value2 r)]
         else [])"

definition dump_buffer :: "lwt_sys \<Rightarrow> nat \<Rightarrow> uint64_t \<Rightarrow> dump_line list prog" where
  "dump_buffer s thread_index offset = (case lwt_buffers s thread_index of
      None \<Rightarrow> fail Assert_Failed
    | Some tb \<Rightarrow>
        let dump = \<lambda>i. dump_record s (thread_index + 1) offset (lb_x tb i)
        in ret ((if unat (lb_head tb) > LWT_BUFFER_SIZE then concat (map dump [lb_slot tb ..< LWT_BUFFER_SIZE]) else []) @
                concat (map dump [0 ..< lb_slot tb])))"

definition lwt_halt :: "lwt_sys \<Rightarrow> lwt_sys" where
  "lwt_halt s = s\<lparr>lwt_halted := True\<rparr>"

text \<open>The loop of \<^verbatim>\<open>lwt_dump\<close> that finds the oldest time stamp.\<close>

primrec dump_offset :: "lwt_sys \<Rightarrow> nat list \<Rightarrow> uint64_t \<Rightarrow> uint64_t" where
  "dump_offset s [] offset = offset"
| "dump_offset s (i # is) offset = dump_offset s is (case lwt_buffers s i of
      None \<Rightarrow> offset
    | Some tb \<Rightarrow>
        if lb_head tb = 0 then offset
        else
          let offset = min offset (lr_timestamp (lb_x tb 0))
          in if unat (lb_head tb) > LWT_BUFFER_SIZE then min offset (lr_timestamp (lb_x tb (lb_slot tb))) else offset)"

primrec dump_buffers :: "lwt_sys \<Rightarrow> nat list \<Rightarrow> uint64_t \<Rightarrow> dump_line list prog" where
  "dump_buffers s [] offset = ret []"
| "dump_buffers s (i # is) offset =
     (if lwt_buffers s i = None then dump_buffers s is offset
      else pbind (dump_buffer s i offset) (\<lambda>ls. pbind (dump_buffers s is offset) (\<lambda>ls'. ret (ls @ ls'))))"

text \<open>The lines written to the file, when there is a record to be written; \<open>opened\<close> tells whether
  \<^verbatim>\<open>fopen\<close> succeeds.\<close>

definition lwt_dump :: "bool \<Rightarrow> lwt_sys \<Rightarrow> (dump_line list option \<times> lwt_sys) prog" where
  "lwt_dump opened s =
     (let s = s\<lparr>lwt_halted := True\<rparr>;
          offset = dump_offset s [0 ..< MAX_NUM_THREADS] (- 1)
      in if offset \<noteq> - 1 then
           pbind (passert opened) (\<lambda>_.
           pbind (dump_buffers s [0 ..< MAX_NUM_THREADS] offset) (\<lambda>ls. ret (Some ls, s)))
         else ret (None, s))"

text \<open>\<open>timestamp\<close> is the processor's time stamp counter. A halted system spins for ever.\<close>

definition lwt_trace_i :: "uint64_t \<Rightarrow> nat \<Rightarrow> uint64_t \<Rightarrow> size_t \<Rightarrow> size_t \<Rightarrow> lwt_sys \<Rightarrow> lwt_sys prog" where
  "lwt_trace_i timestamp thread_index format value1 value2 s =
     (if lwt_halted s then None
      else case lwt_buffers s thread_index of
        None \<Rightarrow> ret s
      | Some tb \<Rightarrow>
          let temp = \<lparr>lr_timestamp = timestamp, lr_format = format, lr_value1 = value1, lr_value2 = value2\<rparr>
          in ret (s\<lparr>lwt_buffers := (lwt_buffers s)(thread_index \<mapsto>
               tb\<lparr>lb_x := (lb_x tb)(lb_slot tb := temp), lb_head := lb_head tb + 1\<rparr>)\<rparr>))"

definition lwt_trace :: "uint64_t \<Rightarrow> nat \<Rightarrow> uint8_t \<Rightarrow> uint8_t \<Rightarrow> addr \<Rightarrow> size_t \<Rightarrow> size_t \<Rightarrow> lwt_sys \<Rightarrow> lwt_sys prog" where
  "lwt_trace timestamp thread_index flag0 flag1 format value1 value2 s =
     pbind (pguard Out_Of_Bounds (char_index flag0 < 256)) (\<lambda>_.
     if sint (lwt_level s (char_index flag0)) \<ge> sint flag1 then
       lwt_trace_i timestamp thread_index (format OR push_bit 56 (scast flag0) OR push_bit 48 (scast flag1)) value1 value2 s
     else ret s)"

section \<open>Start-up\<close>

text \<open>Model of \<^verbatim>\<open>src/src/runtime/runtime.c\<close>, in a build with assertions. A thread is identified by a number,
  \<open>rt_thread_id\<close> is its thread-local \<^verbatim>\<open>ThreadId\<close>; \<open>urandom\<close> is what reading \<^verbatim>\<open>/dev/urandom\<close> gives, and
  \<open>lwt_junk\<close> and \<open>rcu_junk\<close> what newly allocated memory holds.\<close>

record runtime_state =
  rt_thread_id :: "nat \<Rightarrow> nat"
  rt_max_thread_id :: nat
  rt_rnd :: "nat \<Rightarrow> rnd_state option"
  rt_lwt :: lwt_sys
  rt_rcu :: rcu_state

definition nbd_thread_init :: "uint8_t list option \<Rightarrow> (nat \<Rightarrow> lwt_record) \<Rightarrow> (nat \<Rightarrow> addr) \<Rightarrow> nat \<Rightarrow> runtime_state \<Rightarrow> runtime_state prog" where
  "nbd_thread_init urandom lwt_junk rcu_junk thread s =
     pbind (if rt_thread_id s thread = 0 then
              let n = rt_max_thread_id s + 1
              in pbind (passert (n \<le> MAX_NUM_THREADS)) (\<lambda>_.
                 pbind (rnd_thread_init urandom) (\<lambda>rnd.
                 ret (s\<lparr>rt_max_thread_id := n, rt_thread_id := (rt_thread_id s)(thread := n), rt_rnd := (rt_rnd s)(thread \<mapsto> rnd)\<rparr>)))
            else ret s) (\<lambda>s.
     let i = rt_thread_id s thread - 1
     in ret (s\<lparr>rt_lwt := lwt_thread_init lwt_junk i (rt_lwt s), rt_rcu := rcu_thread_init rcu_junk i (rt_rcu s)\<rparr>))"

definition runtime_static_init :: runtime_state where
  "runtime_static_init = \<lparr>rt_thread_id = (\<lambda>_. 0), rt_max_thread_id = 0, rt_rnd = (\<lambda>_. None), rt_lwt = lwt_static_init, rt_rcu = rcu_static_init\<rparr>"

section \<open>What a dump shows\<close>

text \<open>A thread that traces the records of a list.\<close>

primrec lwt_run :: "nat \<Rightarrow> lwt_record list \<Rightarrow> lwt_sys \<Rightarrow> lwt_sys prog" where
  "lwt_run i [] s = ret s"
| "lwt_run i (r # rs) s = pbind (lwt_trace_i (lr_timestamp r) i (lr_format r) (lr_value1 r) (lr_value2 r) s) (lwt_run i rs)"

lemma lwt_size: "LWT_BUFFER_SIZE = 1048576"
  by (simp add: LWT_BUFFER_SIZE_def LWT_BUFFER_SCALE_def)

lemma lb_slot_mod: "lb_slot b = unat (lb_head b) mod LWT_BUFFER_SIZE"
proof -
  have m: "LWT_BUFFER_MASK = MASK 20" by (simp add: LWT_BUFFER_MASK_def lwt_size MASK_def)
  have "lb_slot b = unat (ucast (lb_head b) :: uint64_t) mod 2 ^ 20" unfolding lb_slot_def m by (rule unat_and_MASK)
  moreover have "unat (ucast (lb_head b) :: uint64_t) = unat (lb_head b)"
    using unat_bound [of "lb_head b"] by (simp add: unsigned_ucast_eq take_bit_nat_eq_self)
  ultimately show ?thesis by (simp add: lwt_size)
qed

text \<open>A buffer that has been given the records of a list holds the last ones of them.\<close>

definition holds :: "lwt_buffer \<Rightarrow> lwt_record list \<Rightarrow> bool" where
  "holds b rs \<longleftrightarrow> unat (lb_head b) = length rs \<and>
     (\<forall>j < length rs. length rs \<le> j + LWT_BUFFER_SIZE \<longrightarrow> lb_x b (j mod LWT_BUFFER_SIZE) = rs ! j)"

lemma holds_snoc:
  assumes "holds b rs" and "length rs + 1 < 2 ^ 32"
  shows "holds (b\<lparr>lb_x := (lb_x b)(lb_slot b := r), lb_head := lb_head b + 1\<rparr>) (rs @ [r])"
proof -
  let ?S = LWT_BUFFER_SIZE
  have n: "unat (lb_head b) = length rs" using assms(1) by (simp add: holds_def)
  have "unat (lb_head b + 1) = length rs + 1" using n assms(2) by (simp add: unat_word_ariths)
  moreover have "j mod ?S \<noteq> length rs mod ?S" if "j < length rs" "length rs + 1 \<le> j + ?S" for j
    using mod_eq_window [of j ?S "length rs"] that by auto
  ultimately show ?thesis using assms(1) n by (auto simp: holds_def lb_slot_mod nth_append less_Suc_eq)
qed

lemma lwt_run_ok:
  assumes "lwt_buffers s i = Some b" and "\<not> lwt_halted s" and "holds b rs" and "length rs + length rs' < 2 ^ 32"
  shows "\<exists>b'. lwt_run i rs' s = ret (s\<lparr>lwt_buffers := (lwt_buffers s)(i \<mapsto> b')\<rparr>) \<and> holds b' (rs @ rs')"
  using assms
proof (induction rs' arbitrary: s b rs)
  case Nil
  then have "s\<lparr>lwt_buffers := (lwt_buffers s)(i \<mapsto> b)\<rparr> = s" by (simp add: fun_upd_idem)
  then show ?case using Nil.prems(3) by (metis append_Nil2 lwt_run.simps(1))
next
  case (Cons r rs')
  define b1 where "b1 = b\<lparr>lb_x := (lb_x b)(lb_slot b := r), lb_head := lb_head b + 1\<rparr>"
  define s1 where "s1 = s\<lparr>lwt_buffers := (lwt_buffers s)(i \<mapsto> b1)\<rparr>"
  have step: "lwt_trace_i (lr_timestamp r) i (lr_format r) (lr_value1 r) (lr_value2 r) s = ret s1"
    using Cons.prems(1,2) by (cases r) (simp add: lwt_trace_i_def s1_def b1_def)
  have room: "length (rs @ [r]) + length rs' < 2 ^ 32" using Cons.prems(4) by simp
  have "holds b1 (rs @ [r])" unfolding b1_def by (rule holds_snoc [OF Cons.prems(3)]) (use Cons.prems(4) in simp)
  moreover have "lwt_buffers s1 i = Some b1" "\<not> lwt_halted s1" using Cons.prems(2) by (simp_all add: s1_def)
  ultimately obtain b' where b': "lwt_run i rs' s1 = ret (s1\<lparr>lwt_buffers := (lwt_buffers s1)(i \<mapsto> b')\<rparr>)" "holds b' ((rs @ [r]) @ rs')"
    using Cons.IH [of s1 b1 "rs @ [r]"] room by blast
  have "s1\<lparr>lwt_buffers := (lwt_buffers s1)(i \<mapsto> b')\<rparr> = s\<lparr>lwt_buffers := (lwt_buffers s)(i \<mapsto> b')\<rparr>" by (simp add: s1_def)
  then have "lwt_run i (r # rs') s = ret (s\<lparr>lwt_buffers := (lwt_buffers s)(i \<mapsto> b')\<rparr>)" using step b'(1) by simp
  moreover have "holds b' (rs @ r # rs')" using b'(2) by simp
  ultimately show ?case by blast
qed

lemma ring_order:
  assumes "holds b rs" and "length rs > LWT_BUFFER_SIZE"
  shows "map (lb_x b) ([lb_slot b ..< LWT_BUFFER_SIZE] @ [0 ..< lb_slot b]) = drop (length rs - LWT_BUFFER_SIZE) rs"
proof (rule nth_equalityI)
  let ?S = LWT_BUFFER_SIZE and ?n = "length rs" and ?h = "lb_slot b"
  have S: "0 < ?S" by (simp add: lwt_size)
  have h: "?h = ?n mod ?S" "?h < ?S" using assms(1) S by (simp_all add: lb_slot_mod holds_def)
  show "length (map (lb_x b) ([?h ..< ?S] @ [0 ..< ?h])) = length (drop (?n - ?S) rs)" using h(2) assms(2) by simp
  fix p assume "p < length (map (lb_x b) ([?h ..< ?S] @ [0 ..< ?h]))"
  then have p: "p < ?S" using h(2) by simp
  have "([?h ..< ?S] @ [0 ..< ?h]) ! p = (?h + p) mod ?S"
    using p h(2) by (auto simp: nth_append mod_if)
  moreover have "(?h + p) mod ?S = (?n - ?S + p) mod ?S"
  proof -
    have "(?n - ?S + p) mod ?S = (?n - ?S + p + ?S) mod ?S" by simp
    also have "?n - ?S + p + ?S = ?n + p" using assms(2) by simp
    finally show ?thesis using h(1) by (simp add: mod_add_left_eq)
  qed
  moreover have "lb_x b ((?n - ?S + p) mod ?S) = rs ! (?n - ?S + p)" using assms p by (simp add: holds_def)
  ultimately have "lb_x b (([?h ..< ?S] @ [0 ..< ?h]) ! p) = rs ! (?n - ?S + p)" by simp
  moreover have "p < length ([?h ..< ?S] @ [0 ..< ?h])" using p h(2) by simp
  ultimately show "map (lb_x b) ([?h ..< ?S] @ [0 ..< ?h]) ! p = drop (?n - ?S) rs ! p"
    using p assms(2) by (simp only: nth_map) simp
qed

lemma dump_buffer_ok:
  assumes "lwt_buffers s i = Some b" and "holds b rs"
  shows "dump_buffer s i offset = ret (if length rs = LWT_BUFFER_SIZE then []
    else concat (map (dump_record s (i + 1) offset) (drop (length rs - LWT_BUFFER_SIZE) rs)))"
proof -
  let ?S = LWT_BUFFER_SIZE and ?d = "dump_record s (i + 1) offset"
  have n: "unat (lb_head b) = length rs" using assms(2) by (simp add: holds_def)
  have run: "dump_buffer s i offset = ret ((if length rs > ?S then concat (map ?d (map (lb_x b) [lb_slot b ..< ?S])) else []) @
      concat (map ?d (map (lb_x b) [0 ..< lb_slot b])))"
    using assms(1) n by (simp add: dump_buffer_def comp_def Let_def)
  consider "length rs > ?S" | "length rs = ?S" | "length rs < ?S" by linarith
  then show ?thesis
  proof cases
    case 1
    then show ?thesis 
      unfolding run ring_order [OF assms(2) 1, symmetric] by (simp only: if_True if_False map_append concat_append) simp
  next
    case 2
    then show ?thesis using run n by (simp add: lb_slot_mod)
  next
    case 3
    then have "lb_slot b = length rs" using n by (simp add: lb_slot_mod)
    moreover have "map (lb_x b) [0 ..< length rs] = rs" using assms(2) 3 by (intro nth_equalityI) (auto simp: holds_def)
    ultimately show ?thesis using run 3 by simp
  qed
qed

lemma nbd_thread_init_ok:
  assumes "rt_thread_id s thread = 0" and "rt_max_thread_id s < MAX_NUM_THREADS" and "rnd_thread_init urandom = ret rnd"
  shows "\<exists>s'. nbd_thread_init urandom j1 j2 thread s = ret s' \<and> rt_thread_id s' = (rt_thread_id s)(thread := rt_max_thread_id s + 1) \<and>
    rt_max_thread_id s' = rt_max_thread_id s + 1 \<and> lwt_buffers (rt_lwt s') (rt_max_thread_id s) \<noteq> None \<and>
    rcu_pending (rt_rcu s') (rt_max_thread_id s) \<noteq> None"
  using assms by (simp add: nbd_thread_init_def Let_def lwt_thread_init_def rcu_thread_init_def)

section \<open>Properties\<close>

text \<open>C36: what a dump shows of a trace. After a thread has traced any number of records below \<open>2 ^ 32\<close>, the dump
  of its buffer shows the last \<open>2 ^ 20\<close> of them in the order in which they were traced, each if its category
  is enabled at its level. When exactly \<open>2 ^ 20\<close> records have been traced it shows none of them: the test for
  a full buffer compares with \<^verbatim>\<open>>\<close>, and the number of records modulo the size is 0.\<close>

theorem lwt_dump_shows_last_records:
  assumes "\<not> lwt_halted s" and "lwt_buffers s i = None" and "length rs < 2 ^ 32"
  shows "\<exists>s'. lwt_run i rs (lwt_thread_init junk i s) = ret s' \<and>
    dump_buffer s' i offset = ret (if length rs = LWT_BUFFER_SIZE then []
      else concat (map (dump_record s' (i + 1) offset) (drop (length rs - LWT_BUFFER_SIZE) rs)))"
proof -
  define b where "b = \<lparr>lb_head = 0, lb_x = junk\<rparr>"
  have b: "lwt_buffers (lwt_thread_init junk i s) i = Some b" "\<not> lwt_halted (lwt_thread_init junk i s)" "holds b []"
    using assms(1,2) by (simp_all add: lwt_thread_init_def b_def holds_def)
  obtain b' where "lwt_run i rs (lwt_thread_init junk i s) = ret ((lwt_thread_init junk i s)\<lparr>lwt_buffers := (lwt_buffers (lwt_thread_init junk i s))(i \<mapsto> b')\<rparr>)" "holds b' rs"
    using lwt_run_ok [OF b, of rs] assms(3) by auto
  then show ?thesis using dump_buffer_ok [of _ i b' rs offset] by (intro exI [of _ "(lwt_thread_init junk i s)\<lparr>lwt_buffers := (lwt_buffers (lwt_thread_init junk i s))(i \<mapsto> b')\<rparr>"]) simp
qed

definition lwt_sample :: lwt_record where
  "lwt_sample = \<lparr>lr_timestamp = 64, lr_format = 0x7831000000001000, lr_value1 = 5, lr_value2 = 6\<rparr>"

theorem lwt_dump_shows_last_records_witness:
  "\<exists>s s'. lwt_set_trace_level [0x78, 0x32] lwt_static_init = ret s \<and> lwt_run 0 [lwt_sample] (lwt_thread_init (\<lambda>_. lwt_sample) 0 s) = ret s' \<and>
    dump_buffer s' 0 0 = ret [Line 2 1 0x78 0x31 0x1000 5 6]"
proof -
  define s where "s = lwt_static_init\<lparr>lwt_spec := [0x78, 0x32], lwt_level := (\<lambda>_. 0)(0x78 := 0x32)\<rparr>"
  have s: "lwt_set_trace_level [0x78, 0x32] lwt_static_init = ret s"
    by (simp add: lwt_set_trace_level_def char_index_def s_def)
  obtain s' where s': "lwt_run 0 [lwt_sample] (lwt_thread_init (\<lambda>_. lwt_sample) 0 s) = ret s'"
    "dump_buffer s' 0 0 = ret (concat (map (dump_record s' (0 + 1) 0) [lwt_sample]))"
    using lwt_dump_shows_last_records [of s 0 "[lwt_sample]" "\<lambda>_. lwt_sample" 0] by (auto simp: s_def lwt_static_init_def lwt_size)
  have "lwt_level s' = lwt_level s" using s'(1) by (auto simp: lwt_trace_i_def lwt_thread_init_def Let_def s_def lwt_static_init_def)
  then have "dump_record s' 1 0 lwt_sample = [Line 2 1 0x78 0x31 0x1000 5 6]"
    by (simp add: dump_record_def lwt_sample_def s_def Let_def MASK_def)
  then show ?thesis using s s' by auto
qed

end
