(* ===== verification/Buffer_Spec.thy ===== *)
theory Buffer_Spec
  imports Prelude
begin

text \<open>
  The contract of the bounded containers \<^verbatim>\<open>cfifo\<close> and \<^verbatim>\<open>clifo\<close>: a capacity, the
  sequence of stored values, and what \<^verbatim>\<open>push\<close> and \<^verbatim>\<open>pop\<close> do to it. The two
  containers differ in the end at which \<^verbatim>\<open>push\<close> inserts (\<open>ins\<close>). \<open>budget\<close> bounds
  the number of further pushes before a counter of the implementation wraps around.
  A pop of an empty container returns \<^const>\<open>NULL\<close>.
\<close>

text \<open>Client code: push a sequence of values, stopping at the first failure; pop a number of
  values.\<close>

fun push_all :: "('s \<Rightarrow> addr \<Rightarrow> (int \<times> 's) prog) \<Rightarrow> 's \<Rightarrow> addr list \<Rightarrow> (bool \<times> 's) prog" where
  "push_all push s [] = ret (True, s)"
| "push_all push s (v # vs) =
     pbind (push s v) (\<lambda>(r, s'). if r = 0 then push_all push s' vs else ret (False, s'))"

fun pop_n :: "('s \<Rightarrow> (addr \<times> 's) prog) \<Rightarrow> 's \<Rightarrow> nat \<Rightarrow> (addr list \<times> 's) prog" where
  "pop_n pop s 0 = ret ([], s)"
| "pop_n pop s (Suc n) =
     pbind (pop s) (\<lambda>(v, s'). pbind (pop_n pop s' n) (\<lambda>(vs, s''). ret (v # vs, s'')))"

locale bounded_buffer =
  fixes push :: "'s \<Rightarrow> addr \<Rightarrow> (int \<times> 's) prog"
    and pop :: "'s \<Rightarrow> (addr \<times> 's) prog"
    and contents :: "'s \<Rightarrow> addr list"
    and capacity :: "'s \<Rightarrow> nat"
    and budget :: "'s \<Rightarrow> nat"
    and inv :: "'s \<Rightarrow> bool"
    and ins :: "addr \<Rightarrow> addr list \<Rightarrow> addr list"
  assumes contents_bound: "inv s \<Longrightarrow> length (contents s) \<le> capacity s"
    and push_full: "inv s \<Longrightarrow> 0 < budget s \<Longrightarrow> length (contents s) = capacity s \<Longrightarrow> push s v = ret (- 1, s)"
    and push_room: "inv s \<Longrightarrow> 0 < budget s \<Longrightarrow> length (contents s) < capacity s \<Longrightarrow>
      \<exists>s'. push s v = ret (0, s') \<and> inv s' \<and> contents s' = ins v (contents s) \<and>
        capacity s' = capacity s \<and> budget s \<le> budget s' + 1"
    and pop_empty: "inv s \<Longrightarrow> contents s = [] \<Longrightarrow> pop s = ret (NULL, s)"
    and pop_Cons: "inv s \<Longrightarrow> contents s = v # vs \<Longrightarrow>
      \<exists>s'. pop s = ret (v, s') \<and> inv s' \<and> contents s' = vs \<and>
        capacity s' = capacity s \<and> budget s' = budget s"
    and ins_mset: "mset (ins v xs) = add_mset v (mset xs)"
begin

lemma length_ins [simp]: "length (ins v xs) = Suc (length xs)"
  by (metis ins_mset size_add_mset size_mset)

lemma push_all_room:
  assumes "inv s" and "length xs \<le> budget s" and "length (contents s) + length xs \<le> capacity s"
  shows "\<exists>s'. push_all push s xs = ret (True, s') \<and> inv s' \<and> contents s' = fold ins xs (contents s) \<and>
    capacity s' = capacity s"
  using assms
proof (induction xs arbitrary: s)
  case Nil
  then show ?case by simp
next
  case (Cons v xs)
  then obtain s1 where s1: "push s v = ret (0, s1)" "inv s1" "contents s1 = ins v (contents s)"
    "capacity s1 = capacity s" "budget s \<le> budget s1 + 1"
    using push_room [of s v] by auto
  moreover have "length xs \<le> budget s1" "length (contents s1) + length xs \<le> capacity s1"
    using Cons.prems s1 by simp_all
  ultimately show ?case
    using Cons.IH [of s1] by auto
qed

lemma pop_n_takes:
  assumes "inv s" and "n \<le> length (contents s)"
  shows "\<exists>s'. pop_n pop s n = ret (take n (contents s), s') \<and> inv s' \<and>
    contents s' = drop n (contents s) \<and> capacity s' = capacity s"
  using assms
proof (induction n arbitrary: s)
  case 0
  then show ?case by simp
next
  case (Suc n)
  then obtain v vs where vs: "contents s = v # vs" by (cases "contents s") auto
  then obtain s1 where s1: "pop s = ret (v, s1)" "inv s1" "contents s1 = vs" "capacity s1 = capacity s"
    using pop_Cons [OF Suc.prems(1)] by blast
  then show ?case
    using Suc.IH [of s1] Suc.prems vs by auto
qed

text \<open>Filling an empty container and draining it gives the values back in the order \<open>ins\<close>
  defines, and leaves it empty.\<close>

lemma fill_drain:
  assumes "inv s" and "contents s = []" and "length xs \<le> budget s" and "length xs \<le> capacity s"
  shows "\<exists>s1 s2. push_all push s xs = ret (True, s1) \<and> pop_n pop s1 (length xs) = ret (fold ins xs [], s2) \<and>
    inv s2 \<and> contents s2 = []"
proof -
  obtain s1 where s1: "push_all push s xs = ret (True, s1)" "inv s1" "contents s1 = fold ins xs []"
    using push_all_room [of s xs] assms by auto
  have len: "length (fold ins ys zs) = length ys + length zs" for ys zs
    by (induction ys arbitrary: zs) auto
  show ?thesis
    using pop_n_takes [of s1 "length xs"] s1 len [of xs "[]"] by auto
qed

end

end
