(* ===== verification/Cfifo.thy ===== *)
theory Cfifo
  imports Atomic_Var Buffer_Spec
begin

text \<open>
  Model of \<^verbatim>\<open>src/src/fifo/cfifo.c\<close>: a ring buffer of \<open>size + 1\<close> slots with free-running
  counters \<^verbatim>\<open>head\<close>, \<^verbatim>\<open>tail\<close> and \<^verbatim>\<open>sentinel\<close>. The first part runs each
  function without interference; \<open>Cfifo_Concurrent\<close> interleaves the functions' atomic accesses.
\<close>

record cfifo =
  cf_head :: size_t
  cf_tail :: size_t
  cf_sentinel :: size_t
  cf_used :: size_t
  cf_bound :: size_t
  cf_buffer :: "addr list"

text \<open>\<open>malloc_ok\<close> says whether \<^verbatim>\<open>malloc\<close> succeeds, \<open>junk\<close> what the storage holds.\<close>

definition cfifo_alloc :: "bool \<Rightarrow> addr list \<Rightarrow> size_t \<Rightarrow> cfifo option" where
  "cfifo_alloc malloc_ok junk sz =
     (let sz = sz + 1
      in if \<not> malloc_ok then None
         else Some \<lparr>cf_head = 0, cf_tail = 0, cf_sentinel = 0, cf_used = 0, cf_bound = sz,
                    cf_buffer = take (unat sz) (junk @ replicate (unat sz) 0)\<rparr>)"

definition cfifo_size :: "cfifo \<Rightarrow> size_t" where
  "cfifo_size fifo = cf_used fifo"

text \<open>Reads and writes of the buffer; \<^verbatim>\<open>x % size\<close> with \<^verbatim>\<open>size = 0\<close> is undefined.\<close>

definition cfifo_index :: "cfifo \<Rightarrow> size_t \<Rightarrow> nat prog" where
  "cfifo_index fifo x =
     (if cf_bound fifo = 0 then fail Undefined_Behaviour
      else let i = unat (x mod cf_bound fifo)
           in if i < length (cf_buffer fifo) then ret i else fail Out_Of_Bounds)"

text \<open>The second loop of \<^verbatim>\<open>cfifo_push\<close>; its \<^verbatim>\<open>tick\<close> counter has no effect.\<close>

partial_function (option) cfifo_publish :: "cfifo \<Rightarrow> size_t \<Rightarrow> cfifo prog" where
  "cfifo_publish fifo tail =
     (case ATOMIC_VAR_CAS (cf_sentinel fifo) tail (tail + 1) of (ok, s) \<Rightarrow>
        (if ok then ret (fifo\<lparr>cf_sentinel := s\<rparr>)
         else cfifo_publish (fifo\<lparr>cf_sentinel := s\<rparr>) tail))"

partial_function (option) cfifo_push :: "cfifo \<Rightarrow> addr \<Rightarrow> (int \<times> cfifo) prog" where
  "cfifo_push fifo value =
     (let sz = cf_bound fifo; tail = cf_tail fifo; head = cf_head fifo
      in if sz = 0 then fail Undefined_Behaviour
         else if (tail + 1) mod sz = head mod sz then ret (- 1, fifo)
         else case ATOMIC_VAR_CAS (cf_tail fifo) tail (tail + 1) of (ok, t) \<Rightarrow>
           (if \<not> ok then cfifo_push (fifo\<lparr>cf_tail := t\<rparr>) value
            else let fifo = fifo\<lparr>cf_tail := t\<rparr>
                 in pbind (cfifo_index fifo tail) (\<lambda>i.
                    let fifo = fifo\<lparr>cf_buffer := (cf_buffer fifo)[i := value]\<rparr>
                    in pbind (cfifo_publish fifo tail) (\<lambda>fifo.
                       ret (0, fifo\<lparr>cf_used := snd (ATOMIC_VAR_FAA (cf_used fifo) 1)\<rparr>)))))"

partial_function (option) cfifo_pop :: "cfifo \<Rightarrow> (addr \<times> cfifo) prog" where
  "cfifo_pop fifo =
     (let sz = cf_bound fifo; sentinel = cf_sentinel fifo; head = cf_head fifo
      in if sz = 0 then fail Undefined_Behaviour
         else if head mod sz = sentinel mod sz then ret (NULL, fifo)
         else pbind (cfifo_index fifo head) (\<lambda>i.
           let value = cf_buffer fifo ! i
           in case ATOMIC_VAR_CAS (cf_head fifo) head (head + 1) of (ok, h) \<Rightarrow>
             (if \<not> ok then cfifo_pop (fifo\<lparr>cf_head := h\<rparr>)
              else let fifo = fifo\<lparr>cf_head := h\<rparr>
                   in ret (value, fifo\<lparr>cf_used := snd (ATOMIC_VAR_FAA (cf_used fifo) (- 1))\<rparr>))))"

section \<open>Invariant and contents\<close>

text \<open>Between calls: \<^verbatim>\<open>sentinel\<close> has caught up with \<^verbatim>\<open>tail\<close>, and the window from
  \<^verbatim>\<open>head\<close> to \<^verbatim>\<open>tail\<close> is shorter than the buffer.\<close>

definition cfifo_inv :: "cfifo \<Rightarrow> bool" where
  "cfifo_inv f \<longleftrightarrow>
     0 < cf_bound f \<and> length (cf_buffer f) = unat (cf_bound f) \<and>
     cf_sentinel f = cf_tail f \<and> unat (cf_head f) \<le> unat (cf_tail f) \<and>
     unat (cf_tail f) < unat (cf_head f) + unat (cf_bound f) \<and>
     cf_used f = cf_tail f - cf_head f"

definition cfifo_contents :: "cfifo \<Rightarrow> addr list" where
  "cfifo_contents f =
     map (\<lambda>i. cf_buffer f ! (i mod unat (cf_bound f))) [unat (cf_head f) ..< unat (cf_tail f)]"

definition cfifo_capacity :: "cfifo \<Rightarrow> nat" where
  "cfifo_capacity f = unat (cf_bound f) - 1"

definition cfifo_budget :: "cfifo \<Rightarrow> nat" where
  "cfifo_budget f = 2 ^ 64 - 1 - unat (cf_tail f)"

lemma unat_succ:
  fixes x :: "64 word"
  assumes "unat x < 2 ^ 64 - 1"
  shows "unat (x + 1) = unat x + 1"
  using assms by (simp add: unat_word_ariths)

lemma length_cfifo_contents [simp]:
  "length (cfifo_contents f) = unat (cf_tail f) - unat (cf_head f)"
  by (simp add: cfifo_contents_def)

lemma cfifo_index_ok [simp]:
  "0 < cf_bound f \<Longrightarrow> length (cf_buffer f) = unat (cf_bound f) \<Longrightarrow>
   cfifo_index f x = ret (unat x mod unat (cf_bound f))"
  by (auto simp: cfifo_index_def unat_mod Let_def word_gt_0 unat_gt_0)

lemma cfifo_publish_ok [simp]:
  "cf_sentinel f = t \<Longrightarrow> cfifo_publish f t = ret (f\<lparr>cf_sentinel := t + 1\<rparr>)"
  by (subst cfifo_publish.simps) simp

lemma mod_window_iff:
  fixes h t n :: nat
  assumes "h \<le> t" and "t < h + n"
  shows "(t + 1) mod n = h mod n \<longleftrightarrow> t + 1 = h + n"
    and "h mod n = t mod n \<longleftrightarrow> h = t"
proof -
  show "h mod n = t mod n \<longleftrightarrow> h = t"
    using assms mod_eq_window [of h n t] by auto
  show "(t + 1) mod n = h mod n \<longleftrightarrow> t + 1 = h + n"
  proof
    assume eq: "(t + 1) mod n = h mod n"
    show "t + 1 = h + n"
    proof (rule ccontr)
      assume "t + 1 \<noteq> h + n"
      with assms have "t + 1 < h + n" by simp
      with assms eq have "h = t + 1" using mod_eq_window [of h n "t + 1"] by simp
      with assms show False by simp
    qed
  qed simp
qed

lemma cfifo_full_check:
  assumes "cfifo_inv f" and "0 < cfifo_budget f"
  shows "(cf_tail f + 1) mod cf_bound f = cf_head f mod cf_bound f \<longleftrightarrow>
    length (cfifo_contents f) = cfifo_capacity f"
proof -
  let ?n = "unat (cf_bound f)" and ?h = "unat (cf_head f)" and ?t = "unat (cf_tail f)"
  have n: "0 < ?n" "?h \<le> ?t" "?t < ?h + ?n"
    using assms(1) by (simp_all add: cfifo_inv_def word_gt_0 unat_gt_0)
  have "unat (cf_tail f + 1) = ?t + 1"
    using assms(2) by (intro unat_succ) (simp add: cfifo_budget_def)
  then have "(cf_tail f + 1) mod cf_bound f = cf_head f mod cf_bound f \<longleftrightarrow> (?t + 1) mod ?n = ?h mod ?n"
    by (simp add: word_unat_eq_iff unat_mod)
  with mod_window_iff(1) [OF n(2,3)] n show ?thesis
    by (simp add: cfifo_capacity_def) linarith
qed

lemma cfifo_empty_check:
  assumes "cfifo_inv f"
  shows "cf_head f mod cf_bound f = cf_sentinel f mod cf_bound f \<longleftrightarrow> cfifo_contents f = []"
proof -
  have "unat (cf_head f) \<le> unat (cf_tail f)" "unat (cf_tail f) < unat (cf_head f) + unat (cf_bound f)"
    using assms by (simp_all add: cfifo_inv_def)
  from mod_window_iff(2) [OF this] this assms show ?thesis
    by (auto simp: word_unat_eq_iff unat_mod cfifo_inv_def cfifo_contents_def)
qed

lemma cfifo_push_full:
  assumes "cfifo_inv f" and "0 < cfifo_budget f" and "length (cfifo_contents f) = cfifo_capacity f"
  shows "cfifo_push f v = ret (- 1, f)"
  using assms cfifo_full_check [OF assms(1,2)]
  by (subst cfifo_push.simps) (simp add: cfifo_inv_def Let_def word_gt_0)

lemma cfifo_push_eq:
  assumes "cfifo_inv f" and "0 < cfifo_budget f" and "length (cfifo_contents f) < cfifo_capacity f"
  shows "cfifo_push f v = ret (0, f\<lparr>cf_tail := cf_tail f + 1,
    cf_buffer := (cf_buffer f)[unat (cf_tail f) mod unat (cf_bound f) := v],
    cf_sentinel := cf_tail f + 1, cf_used := cf_used f + 1\<rparr>)"
  using assms cfifo_full_check [OF assms(1,2)]
  by (subst cfifo_push.simps) (simp add: cfifo_inv_def ATOMIC_VAR_FAA_def Let_def word_gt_0)

lemma cfifo_push_room:
  assumes inv: "cfifo_inv f" and b: "0 < cfifo_budget f" and r: "length (cfifo_contents f) < cfifo_capacity f"
  shows "\<exists>f'. cfifo_push f v = ret (0, f') \<and> cfifo_inv f' \<and>
    cfifo_contents f' = cfifo_contents f @ [v] \<and> cfifo_capacity f' = cfifo_capacity f \<and>
    cfifo_budget f \<le> cfifo_budget f' + 1"
proof -
  let ?n = "unat (cf_bound f)" and ?h = "unat (cf_head f)" and ?t = "unat (cf_tail f)"
  let ?f' = "f\<lparr>cf_tail := cf_tail f + 1, cf_buffer := (cf_buffer f)[?t mod ?n := v],
    cf_sentinel := cf_tail f + 1, cf_used := cf_used f + 1\<rparr>"
  have t: "unat (cf_tail f + 1) = ?t + 1"
    using b by (intro unat_succ) (simp add: cfifo_budget_def)
  have n: "0 < ?n" "?h \<le> ?t" "?t + 1 < ?h + ?n" "length (cf_buffer f) = ?n"
    using inv r by (auto simp: cfifo_inv_def word_gt_0 unat_gt_0 cfifo_capacity_def)
  have "cfifo_inv ?f'"
    using inv n t by (simp add: cfifo_inv_def)
  moreover have "cfifo_contents ?f' = cfifo_contents f @ [v]"
  proof -
    have "(cf_buffer f)[?t mod ?n := v] ! (i mod ?n) = cf_buffer f ! (i mod ?n)"
      if "i \<in> set [?h ..< ?t]" for i
    proof -
      have "i mod ?n \<noteq> ?t mod ?n" using that n mod_eq_window [of i ?n ?t] by auto
      then show ?thesis by simp
    qed
    then show ?thesis using n by (simp add: cfifo_contents_def t cong: map_cong)
  qed
  moreover have "cfifo_capacity ?f' = cfifo_capacity f" "cfifo_budget f \<le> cfifo_budget ?f' + 1"
    by (simp_all add: cfifo_capacity_def cfifo_budget_def t)
  ultimately show ?thesis using cfifo_push_eq [OF assms] by blast
qed

lemma cfifo_pop_empty:
  assumes "cfifo_inv f" and "cfifo_contents f = []"
  shows "cfifo_pop f = ret (NULL, f)"
  using assms cfifo_empty_check [OF assms(1)]
  by (subst cfifo_pop.simps) (simp add: cfifo_inv_def Let_def word_gt_0)

lemma cfifo_pop_Cons:
  assumes inv: "cfifo_inv f" and c: "cfifo_contents f = v # vs"
  shows "\<exists>f'. cfifo_pop f = ret (v, f') \<and> cfifo_inv f' \<and> cfifo_contents f' = vs \<and>
    cfifo_capacity f' = cfifo_capacity f \<and> cfifo_budget f' = cfifo_budget f"
proof -
  let ?n = "unat (cf_bound f)" and ?h = "unat (cf_head f)" and ?t = "unat (cf_tail f)"
  let ?f' = "f\<lparr>cf_head := cf_head f + 1, cf_used := cf_used f - 1\<rparr>"
  have "length (cfifo_contents f) = Suc (length vs)" using c by simp
  then have ht: "?h < ?t" by simp
  then have h: "unat (cf_head f + 1) = ?h + 1"
    using unat_bound [of "cf_tail f"] by (intro unat_succ) simp
  have up: "[?h ..< ?t] = ?h # [?h + 1 ..< ?t]" using ht by (simp add: upt_conv_Cons)
  with c have v: "v = cf_buffer f ! (?h mod ?n)" and vs: "cfifo_contents ?f' = vs"
    by (simp_all add: cfifo_contents_def h)
  have "cfifo_inv ?f'"
    using inv ht h by (simp add: cfifo_inv_def)
  moreover have "cfifo_pop f = ret (v, ?f')"
    using inv c cfifo_empty_check [OF inv] v
    by (subst cfifo_pop.simps) (simp add: cfifo_inv_def ATOMIC_VAR_FAA_def Let_def word_gt_0)
  ultimately show ?thesis
    using vs by (auto simp: cfifo_capacity_def cfifo_budget_def)
qed

interpretation cfq: bounded_buffer cfifo_push cfifo_pop cfifo_contents cfifo_capacity cfifo_budget
  cfifo_inv "\<lambda>v vs. vs @ [v]"
proof unfold_locales
  fix s assume "cfifo_inv s"
  then show "length (cfifo_contents s) \<le> cfifo_capacity s"
    by (auto simp: cfifo_inv_def cfifo_capacity_def)
qed (fact cfifo_push_full cfifo_push_room cfifo_pop_empty cfifo_pop_Cons | simp)+

lemma cfifo_alloc_inv:
  assumes "sz \<noteq> - 1"
  shows "\<exists>f. cfifo_alloc True junk sz = Some f \<and> cfifo_inv f \<and> cfifo_contents f = [] \<and>
    cfifo_capacity f = unat sz \<and> cfifo_budget f = 2 ^ 64 - 1"
proof -
  have "sz + 1 \<noteq> 0" using assms by (metis add_eq_0_iff2)
  moreover from this have "unat (sz + 1) = unat sz + 1"
    by (metis add.commute unatSuc Suc_eq_plus1)
  ultimately show ?thesis
    by (simp add: cfifo_alloc_def cfifo_inv_def cfifo_contents_def cfifo_capacity_def cfifo_budget_def word_gt_0)
qed

lemma cfifo_size_eq:
  "cfifo_inv f \<Longrightarrow> unat (cfifo_size f) = length (cfifo_contents f)"
  by (auto simp: cfifo_inv_def cfifo_size_def unat_sub word_le_nat_alt)

lemma fold_snoc: "fold (\<lambda>v vs. vs @ [v]) xs ys = ys @ xs"
  by (induction xs arbitrary: ys) auto

text \<open>\<^verbatim>\<open>cfifo_alloc(SIZE_MAX)\<close> wraps around to a buffer of size 0, and every push then
  divides by zero.\<close>

lemma cfifo_max_size_wraps:
  "\<exists>f. cfifo_alloc True junk (- 1) = Some f \<and> cfifo_push f v = fail Undefined_Behaviour"
proof -
  let ?f = "\<lparr>cf_head = 0, cf_tail = 0, cf_sentinel = 0, cf_used = 0, cf_bound = 0, cf_buffer = []\<rparr>"
  have "cfifo_push ?f v = fail Undefined_Behaviour"
    by (subst cfifo_push.simps) (simp add: Let_def)
  then show ?thesis by (simp add: cfifo_alloc_def)
qed

section \<open>Properties\<close>

text \<open>C33: without interference \<^verbatim>\<open>cfifo_push\<close> and \<^verbatim>\<open>cfifo_pop\<close> implement a bounded
  queue. A push into a full queue returns -1 and changes nothing; any other push returns 0 and
  appends the value. A pop of an empty queue returns NULL and changes nothing; any other pop
  returns and removes the oldest value. \<^verbatim>\<open>cfifo_size\<close> is the number of stored values.\<close>

theorem cfifo_refines_queue:
  assumes "cfifo_inv f" and "0 < cfifo_budget f"
  shows "(if length (cfifo_contents f) = cfifo_capacity f then cfifo_push f v = ret (- 1, f)
      else \<exists>f'. cfifo_push f v = ret (0, f') \<and> cfifo_inv f' \<and> cfifo_contents f' = cfifo_contents f @ [v])
    \<and> (case cfifo_contents f of
        [] \<Rightarrow> cfifo_pop f = ret (NULL, f)
      | x # xs \<Rightarrow> \<exists>f'. cfifo_pop f = ret (x, f') \<and> cfifo_inv f' \<and> cfifo_contents f' = xs)
    \<and> unat (cfifo_size f) = length (cfifo_contents f)"
proof (intro conjI)
  show "if length (cfifo_contents f) = cfifo_capacity f then cfifo_push f v = ret (- 1, f)
      else \<exists>f'. cfifo_push f v = ret (0, f') \<and> cfifo_inv f' \<and> cfifo_contents f' = cfifo_contents f @ [v]"
    using cfifo_push_full [OF assms] cfifo_push_room [OF assms] cfq.contents_bound [OF assms(1)]
    by (metis order_le_less)
  show "case cfifo_contents f of
        [] \<Rightarrow> cfifo_pop f = ret (NULL, f)
      | x # xs \<Rightarrow> \<exists>f'. cfifo_pop f = ret (x, f') \<and> cfifo_inv f' \<and> cfifo_contents f' = xs"
    using cfifo_pop_empty [OF assms(1)] cfifo_pop_Cons [OF assms(1)] by (auto split: list.split)
  show "unat (cfifo_size f) = length (cfifo_contents f)"
    by (rule cfifo_size_eq [OF assms(1)])
qed

text \<open>A queue made by \<^verbatim>\<open>cfifo_alloc(size)\<close> accepts any \<^verbatim>\<open>size\<close> values and gives
  them back in the order in which they were pushed, after which it is empty.\<close>

lemma cfifo_order:
  assumes "sz \<noteq> - 1" and "length xs \<le> unat sz"
  shows "\<exists>f f1 f2. cfifo_alloc True junk sz = Some f \<and> push_all cfifo_push f xs = ret (True, f1) \<and>
    pop_n cfifo_pop f1 (length xs) = ret (xs, f2) \<and> cfifo_size f2 = 0 \<and> cfifo_pop f2 = ret (NULL, f2)"
proof -
  obtain f where f: "cfifo_alloc True junk sz = Some f" "cfifo_inv f" "cfifo_contents f = []"
    "cfifo_capacity f = unat sz" "cfifo_budget f = 2 ^ 64 - 1"
    using cfifo_alloc_inv [OF assms(1)] by blast
  moreover have "length xs \<le> cfifo_budget f"
    using f(5) assms(2) unat_bound [of sz] by simp
  ultimately obtain f1 f2 where "push_all cfifo_push f xs = ret (True, f1)"
    "pop_n cfifo_pop f1 (length xs) = ret (xs, f2)" "cfifo_inv f2" "cfifo_contents f2 = []"
    using cfq.fill_drain [of f xs] assms(2) by (auto simp: fold_snoc)
  then show ?thesis
    using f(1) cfifo_size_eq [of f2] by (auto simp: cfifo_pop_empty unat_eq_0)
qed

theorem cfifo_refines_queue_witness:
  "let f = \<lparr>cf_head = 1, cf_tail = 2, cf_sentinel = 2, cf_used = 1, cf_bound = 3, cf_buffer = [7, 8, 9]\<rparr>
   in cfifo_inv f \<and> 0 < cfifo_budget f \<and> (\<exists>f'. cfifo_push f 5 = ret (0, f') \<and> cfifo_contents f' = [8, 5])"
proof -
  let ?f = "\<lparr>cf_head = 1, cf_tail = 2, cf_sentinel = 2, cf_used = 1, cf_bound = 3, cf_buffer = [7, 8, 9]\<rparr>"
  have c: "cfifo_contents ?f = [8]" by (simp add: cfifo_contents_def upt_rec)
  have i: "cfifo_inv ?f" by (simp add: cfifo_inv_def)
  have b: "0 < cfifo_budget ?f" by (simp add: cfifo_budget_def)
  show ?thesis
    using cfifo_refines_queue [OF i b, of 5] i b c by (auto simp: cfifo_capacity_def Let_def)
qed

end
