(* ===== verification/Cfifo_Concurrent.thy ===== *)
theory Cfifo_Concurrent
  imports Cfifo
begin

text \<open>
  The functions of \<^verbatim>\<open>src/src/fifo/cfifo.c\<close> run by several threads. Each thread has a
  program counter that names its next access to the shared record and holds its local variables;
  one event is one such access by one thread, so that any interleaving of the atomic accesses is a
  list of events. The ghost lists \<open>pushed\<close> and \<open>popped\<close> record the values in the order of the
  successful compare-and-swaps of \<^verbatim>\<open>tail\<close> and \<^verbatim>\<open>head\<close>.

  With any number of producers and one consumer the queue is first-in first-out and loses
  nothing. With two consumers it is not: \<^verbatim>\<open>cfifo_pop\<close> reads \<^verbatim>\<open>sentinel\<close> before
  \<^verbatim>\<open>head\<close>, and a consumer that is overtaken between the two reads takes a slot that no
  producer has written.
\<close>

section \<open>Threads and events\<close>

datatype cf_pc =
    CF_Idle
  | Push_Load_Tail addr \<comment> \<open>\<^verbatim>\<open>tail = ATOMIC_VAR_LOAD(&fifo->tail)\<close>\<close>
  | Push_Load_Head addr size_t \<comment> \<open>\<^verbatim>\<open>head = ATOMIC_VAR_LOAD(&fifo->head)\<close> and the full test\<close>
  | Push_CAS addr size_t
  | Push_Write addr size_t
  | Push_Sentinel addr size_t
  | Push_Used
  | Push_Return int
  | Pop_Load_Sentinel
  | Pop_Load_Head size_t \<comment> \<open>load \<^verbatim>\<open>head\<close> and the empty test\<close>
  | Pop_Read size_t
  | Pop_CAS size_t addr
  | Pop_Used addr
  | Pop_Return addr

record cf_sys =
  cf_shared :: cfifo
  cf_pcs :: "nat \<Rightarrow> cf_pc"
  pushed :: "addr list"
  popped :: "addr list"

abbreviation cf_goto :: "nat \<Rightarrow> cf_pc \<Rightarrow> cf_sys \<Rightarrow> cf_sys" where
  "cf_goto i p s \<equiv> s\<lparr>cf_pcs := (cf_pcs s)(i := p)\<rparr>"

text \<open>The next access of thread \<open>i\<close>. The buffer has at least one slot.\<close>

definition cf_exec :: "nat \<Rightarrow> cf_sys \<Rightarrow> cf_sys" where
  "cf_exec i s =
     (let f = cf_shared s; sz = cf_bound f in
      case cf_pcs s i of
        CF_Idle \<Rightarrow> s
      | Push_Load_Tail v \<Rightarrow> cf_goto i (Push_Load_Head v (cf_tail f)) s
      | Push_Load_Head v t \<Rightarrow>
          if (t + 1) mod sz = cf_head f mod sz then cf_goto i (Push_Return (- 1)) s
          else cf_goto i (Push_CAS v t) s
      | Push_CAS v t \<Rightarrow>
          (case ATOMIC_VAR_CAS (cf_tail f) t (t + 1) of (ok, t') \<Rightarrow>
             if ok then cf_goto i (Push_Write v t) (s\<lparr>cf_shared := f\<lparr>cf_tail := t'\<rparr>, pushed := pushed s @ [v]\<rparr>)
             else cf_goto i (Push_Load_Tail v) s)
      | Push_Write v t \<Rightarrow>
          cf_goto i (Push_Sentinel v t)
            (s\<lparr>cf_shared := f\<lparr>cf_buffer := (cf_buffer f)[unat (t mod sz) := v]\<rparr>\<rparr>)
      | Push_Sentinel v t \<Rightarrow>
          (case ATOMIC_VAR_CAS (cf_sentinel f) t (t + 1) of (ok, s') \<Rightarrow>
             if ok then cf_goto i Push_Used (s\<lparr>cf_shared := f\<lparr>cf_sentinel := s'\<rparr>\<rparr>)
             else s)
      | Push_Used \<Rightarrow>
          cf_goto i (Push_Return 0) (s\<lparr>cf_shared := f\<lparr>cf_used := snd (ATOMIC_VAR_FAA (cf_used f) 1)\<rparr>\<rparr>)
      | Push_Return r \<Rightarrow> cf_goto i CF_Idle s
      | Pop_Load_Sentinel \<Rightarrow> cf_goto i (Pop_Load_Head (cf_sentinel f)) s
      | Pop_Load_Head sn \<Rightarrow>
          if cf_head f mod sz = sn mod sz then cf_goto i (Pop_Return NULL) s
          else cf_goto i (Pop_Read (cf_head f)) s
      | Pop_Read h \<Rightarrow> cf_goto i (Pop_CAS h (cf_buffer f ! unat (h mod sz))) s
      | Pop_CAS h v \<Rightarrow>
          (case ATOMIC_VAR_CAS (cf_head f) h (h + 1) of (ok, h') \<Rightarrow>
             if ok then cf_goto i (Pop_Used v) (s\<lparr>cf_shared := f\<lparr>cf_head := h'\<rparr>, popped := popped s @ [v]\<rparr>)
             else cf_goto i Pop_Load_Sentinel s)
      | Pop_Used v \<Rightarrow>
          cf_goto i (Pop_Return v) (s\<lparr>cf_shared := f\<lparr>cf_used := snd (ATOMIC_VAR_FAA (cf_used f) (- 1))\<rparr>\<rparr>)
      | Pop_Return v \<Rightarrow> cf_goto i CF_Idle s)"

definition cf_init :: "cfifo \<Rightarrow> cf_sys" where
  "cf_init f = \<lparr>cf_shared = f, cf_pcs = (\<lambda>_. CF_Idle), pushed = [], popped = []\<rparr>"

text \<open>A thread of \<open>C\<close> is a consumer; every thread may push.\<close>

inductive cf_step :: "nat set \<Rightarrow> cf_sys \<Rightarrow> cf_sys \<Rightarrow> bool" for C where
  call_push: "cf_pcs s i = CF_Idle \<Longrightarrow> cf_step C s (cf_goto i (Push_Load_Tail v) s)"
| call_pop: "cf_pcs s i = CF_Idle \<Longrightarrow> i \<in> C \<Longrightarrow> cf_step C s (cf_goto i Pop_Load_Sentinel s)"
| exec: "cf_step C s (cf_exec i s)"

inductive cf_reachable :: "nat set \<Rightarrow> cfifo \<Rightarrow> cf_sys \<Rightarrow> bool" for C f where
  init: "cf_reachable C f (cf_init f)"
| step: "cf_reachable C f s \<Longrightarrow> cf_step C s t \<Longrightarrow> cf_reachable C f t"

section \<open>Invariant with one consumer\<close>

fun push_slot :: "cf_pc \<Rightarrow> size_t option" where
  "push_slot (Push_Write v t) = Some t"
| "push_slot (Push_Sentinel v t) = Some t"
| "push_slot _ = None"

fun is_pop :: "cf_pc \<Rightarrow> bool" where
  "is_pop Pop_Load_Sentinel = True"
| "is_pop (Pop_Load_Head sn) = True"
| "is_pop (Pop_Read h) = True"
| "is_pop (Pop_CAS h v) = True"
| "is_pop _ = False"

text \<open>What the local variables of a thread say about the shared counters.\<close>

fun pc_ok :: "cf_sys \<Rightarrow> cf_pc \<Rightarrow> bool" where
  "pc_ok s (Push_Load_Head v t) = (unat t \<le> unat (cf_tail (cf_shared s)))"
| "pc_ok s (Push_CAS v t) =
     (unat t \<le> unat (cf_tail (cf_shared s)) \<and>
      (t = cf_tail (cf_shared s) \<longrightarrow>
       unat t + 1 < unat (cf_head (cf_shared s)) + unat (cf_bound (cf_shared s))))"
| "pc_ok s (Push_Write v t) =
     (unat (cf_sentinel (cf_shared s)) \<le> unat t \<and> unat t < length (pushed s) \<and> pushed s ! unat t = v)"
| "pc_ok s (Push_Sentinel v t) =
     (unat (cf_sentinel (cf_shared s)) \<le> unat t \<and> unat t < length (pushed s) \<and> pushed s ! unat t = v \<and>
      cf_buffer (cf_shared s) ! (unat t mod unat (cf_bound (cf_shared s))) = v)"
| "pc_ok s (Pop_Load_Head sn) =
     (unat (cf_head (cf_shared s)) \<le> unat sn \<and> unat sn \<le> unat (cf_sentinel (cf_shared s)))"
| "pc_ok s (Pop_Read h) =
     (h = cf_head (cf_shared s) \<and> unat h < unat (cf_sentinel (cf_shared s)))"
| "pc_ok s (Pop_CAS h v) =
     (h = cf_head (cf_shared s) \<and> unat h < unat (cf_sentinel (cf_shared s)) \<and> v = pushed s ! unat h)"
| "pc_ok s _ = True"

definition cf_counters_ok :: "cf_sys \<Rightarrow> bool" where
  "cf_counters_ok s \<longleftrightarrow>
     (let f = cf_shared s in
      0 < cf_bound f \<and> length (cf_buffer f) = unat (cf_bound f) \<and>
      unat (cf_tail f) = length (pushed s) \<and> unat (cf_head f) = length (popped s) \<and>
      unat (cf_head f) \<le> unat (cf_sentinel f) \<and> unat (cf_sentinel f) \<le> unat (cf_tail f) \<and>
      unat (cf_tail f) < unat (cf_head f) + unat (cf_bound f))"

definition cf_data_ok :: "cf_sys \<Rightarrow> bool" where
  "cf_data_ok s \<longleftrightarrow>
     (\<forall>i. length (popped s) \<le> i \<and> i < unat (cf_sentinel (cf_shared s)) \<longrightarrow>
        cf_buffer (cf_shared s) ! (i mod unat (cf_bound (cf_shared s))) = pushed s ! i) \<and>
     popped s = take (length (popped s)) (pushed s)"

text \<open>Every slot between \<^verbatim>\<open>sentinel\<close> and \<^verbatim>\<open>tail\<close> belongs to exactly one producer.\<close>

definition cf_owners_ok :: "cf_sys \<Rightarrow> bool" where
  "cf_owners_ok s \<longleftrightarrow>
     (\<forall>i j t. push_slot (cf_pcs s i) = Some t \<and> push_slot (cf_pcs s j) = Some t \<longrightarrow> i = j) \<and>
     (\<forall>t. unat (cf_sentinel (cf_shared s)) \<le> unat t \<and> unat t < unat (cf_tail (cf_shared s)) \<longrightarrow>
        (\<exists>i. push_slot (cf_pcs s i) = Some t))"

definition cf_inv :: "nat \<Rightarrow> cf_sys \<Rightarrow> bool" where
  "cf_inv c s \<longleftrightarrow>
     cf_counters_ok s \<and> cf_data_ok s \<and> cf_owners_ok s \<and>
     (\<forall>i. pc_ok s (cf_pcs s i)) \<and> (\<forall>i. is_pop (cf_pcs s i) \<longrightarrow> i = c)"

lemma pc_ok_goto [simp]: "pc_ok (cf_goto i p s) q = pc_ok s q"
  by (cases q) simp_all

lemma cf_inv_goto:
  assumes "cf_inv c s" and "pc_ok s p" and "is_pop p \<longrightarrow> i = c"
    and "push_slot p = push_slot (cf_pcs s i)"
  shows "cf_inv c (cf_goto i p s)"
proof -
  have "push_slot (((cf_pcs s)(i := p)) j) = push_slot (cf_pcs s j)" for j
    using assms(4) by simp
  then show ?thesis
    using assms by (simp add: cf_inv_def cf_counters_ok_def cf_data_ok_def cf_owners_ok_def)
qed

lemma cf_invD:
  assumes "cf_inv c s"
  shows "0 < unat (cf_bound (cf_shared s))"
    and "length (cf_buffer (cf_shared s)) = unat (cf_bound (cf_shared s))"
    and "unat (cf_tail (cf_shared s)) = length (pushed s)"
    and "unat (cf_head (cf_shared s)) = length (popped s)"
    and "length (popped s) \<le> unat (cf_sentinel (cf_shared s))"
    and "unat (cf_sentinel (cf_shared s)) \<le> length (pushed s)"
    and "length (pushed s) < length (popped s) + unat (cf_bound (cf_shared s))"
  using assms by (auto simp: cf_inv_def cf_counters_ok_def Let_def word_gt_0 unat_gt_0)

text \<open>The compare-and-swap of \<^verbatim>\<open>tail\<close> succeeds.\<close>

lemma cf_inv_push_cas:
  assumes inv: "cf_inv c s" and pc: "cf_pcs s i = Push_CAS v t" and t: "t = cf_tail (cf_shared s)"
    and nw: "length (pushed s) + 1 < 2 ^ 64"
  shows "cf_inv c (cf_goto i (Push_Write v t)
    (s\<lparr>cf_shared := (cf_shared s)\<lparr>cf_tail := t + 1\<rparr>, pushed := pushed s @ [v]\<rparr>))" (is "cf_inv c ?s'")
proof -
  let ?T = "length (pushed s)"
  note D = cf_invD [OF inv]
  have T: "unat t = ?T" and T1: "unat (t + 1) = ?T + 1"
    using D(3) nw t unat_succ [of t] by simp_all
  have room: "?T + 1 < length (popped s) + unat (cf_bound (cf_shared s))"
    using inv pc t D by (auto simp: cf_inv_def dest!: spec [of _ i])
  have slot: "unat t' < ?T" if "push_slot (cf_pcs s j) = Some t'" for j t'
  proof -
    have "pc_ok s (cf_pcs s j)" using inv by (simp add: cf_inv_def)
    with that show ?thesis by (cases "cf_pcs s j") auto
  qed
  have others: "pc_ok ?s' (cf_pcs s j)" for j
  proof -
    have "pc_ok s (cf_pcs s j)" using inv by (simp add: cf_inv_def)
    then show ?thesis
      using T T1 D t by (cases "cf_pcs s j") (auto simp: nth_append)
  qed
  have "cf_counters_ok ?s'"
    using inv T1 room D by (simp add: cf_inv_def cf_counters_ok_def Let_def)
  moreover have "cf_data_ok ?s'"
    using inv D by (auto simp: cf_inv_def cf_data_ok_def nth_append)
  moreover have "cf_owners_ok ?s'"
  proof -
    have fresh: "push_slot (cf_pcs s j) \<noteq> Some t" for j using slot [of j t] T by auto
    have own: "cf_owners_ok s" using inv by (simp add: cf_inv_def)
    have "\<exists>j. push_slot (cf_pcs ?s' j) = Some t'"
      if lo: "unat (cf_sentinel (cf_shared s)) \<le> unat t'" and hi: "unat t' < ?T + 1" for t'
    proof (cases "t' = t")
      case False
      then have "unat t' < unat (cf_tail (cf_shared s))"
        using hi T D(3) by (metis word_unat_eq_iff less_antisym Suc_eq_plus1)
      then obtain j where "push_slot (cf_pcs s j) = Some t'"
        using own lo by (auto simp: cf_owners_ok_def)
      then show ?thesis using pc by (auto intro!: exI [of _ j])
    qed (auto intro!: exI [of _ i])
    then show ?thesis
      using own fresh T1 by (auto simp: cf_owners_ok_def)
  qed
  moreover have "pc_ok ?s' (Push_Write v t)"
    using T D by simp
  ultimately show ?thesis
    using inv others by (auto simp: cf_inv_def)
qed

text \<open>The owner of a slot writes it.\<close>

lemma cf_inv_push_write:
  assumes inv: "cf_inv c s" and pc: "cf_pcs s i = Push_Write v t"
  shows "cf_inv c (cf_goto i (Push_Sentinel v t)
    (s\<lparr>cf_shared := (cf_shared s)\<lparr>cf_buffer := (cf_buffer (cf_shared s))[unat (t mod cf_bound (cf_shared s)) := v]\<rparr>\<rparr>))"
    (is "cf_inv c ?s'")
proof -
  let ?f = "cf_shared s" and ?n = "unat (cf_bound (cf_shared s))" and ?H = "length (popped s)"
  note D = cf_invD [OF inv]
  have mine: "unat (cf_sentinel ?f) \<le> unat t" "unat t < length (pushed s)" "pushed s ! unat t = v"
    using inv pc by (auto simp: cf_inv_def dest!: spec [of _ i])
  have idx: "unat (t mod cf_bound ?f) = unat t mod ?n" "unat t mod ?n < ?n"
    using D(1) by (simp_all add: unat_mod)
  have apart: "x mod ?n \<noteq> unat t mod ?n" if "?H \<le> x" "x < length (pushed s)" "x \<noteq> unat t" for x
    using that mine D mod_eq_window [of x ?n "unat t"] mod_eq_window [of "unat t" ?n x] by linarith
  have keep: "cf_buffer (cf_shared ?s') ! (x mod ?n) = cf_buffer ?f ! (x mod ?n)"
    if "?H \<le> x" "x < length (pushed s)" "x \<noteq> unat t" for x
    using apart [OF that] by (simp add: idx)
  have hit: "cf_buffer (cf_shared ?s') ! (unat t mod ?n) = v"
    using idx D(2) by simp
  have own: "cf_owners_ok s" using inv by (simp add: cf_inv_def)
  have same: "push_slot (cf_pcs ?s' j) = push_slot (cf_pcs s j)" for j
    using pc by simp
  have others: "pc_ok ?s' (cf_pcs s j)" if "j \<noteq> i" for j
  proof -
    have ok: "pc_ok s (cf_pcs s j)" using inv by (simp add: cf_inv_def)
    show ?thesis
    proof (cases "cf_pcs s j")
      case (Push_Sentinel w t')
      then have "t' \<noteq> t" using own pc that by (auto simp: cf_owners_ok_def)
      then have "unat t' \<noteq> unat t" by (simp add: word_unat_eq_iff)
      then have "cf_buffer (cf_shared ?s') ! (unat t' mod ?n) = w"
        using ok Push_Sentinel D keep [of "unat t'"] by simp
      then show ?thesis using ok Push_Sentinel by simp
    qed (use ok in auto)
  qed
  have "cf_counters_ok ?s'" using inv by (simp add: cf_inv_def cf_counters_ok_def Let_def)
  moreover have "cf_data_ok ?s'"
    using inv mine D keep unfolding cf_inv_def cf_data_ok_def by auto
  moreover have "cf_owners_ok ?s'"
    using own same by (simp add: cf_owners_ok_def)
  moreover have "pc_ok ?s' (Push_Sentinel v t)" using mine hit by simp
  ultimately show ?thesis using inv others by (auto simp: cf_inv_def)
qed

text \<open>The owner of the slot at \<^verbatim>\<open>sentinel\<close> publishes it.\<close>

lemma cf_inv_publish:
  assumes inv: "cf_inv c s" and pc: "cf_pcs s i = Push_Sentinel v t" and t: "t = cf_sentinel (cf_shared s)"
  shows "cf_inv c (cf_goto i Push_Used (s\<lparr>cf_shared := (cf_shared s)\<lparr>cf_sentinel := t + 1\<rparr>\<rparr>))"
    (is "cf_inv c ?s'")
proof -
  let ?f = "cf_shared s" and ?n = "unat (cf_bound (cf_shared s))"
  note D = cf_invD [OF inv]
  have mine: "unat t < length (pushed s)" "pushed s ! unat t = v" "cf_buffer ?f ! (unat t mod ?n) = v"
    using inv pc by (auto simp: cf_inv_def dest!: spec [of _ i])
  have t1: "unat (t + 1) = unat t + 1"
    using mine(1) D(3) unat_bound [of "cf_tail ?f"] by (intro unat_succ) simp
  have own: "cf_owners_ok s" using inv by (simp add: cf_inv_def)
  have other_slot: "unat t' \<noteq> unat t" if "j \<noteq> i" "push_slot (cf_pcs s j) = Some t'" for j t'
  proof -
    have "t' \<noteq> t" using that own pc by (auto simp: cf_owners_ok_def)
    then show ?thesis by (simp add: word_unat_eq_iff)
  qed
  have others: "pc_ok ?s' (cf_pcs s j)" if "j \<noteq> i" for j
  proof -
    have "pc_ok s (cf_pcs s j)" using inv by (simp add: cf_inv_def)
    then show ?thesis using t1 t other_slot [OF that] by (cases "cf_pcs s j") fastforce+
  qed
  have "cf_counters_ok ?s'"
    using inv t1 mine D t by (simp add: cf_inv_def cf_counters_ok_def Let_def)
  moreover have "cf_data_ok ?s'"
    using inv mine t t1 unfolding cf_inv_def cf_data_ok_def by (auto simp: less_Suc_eq)
  moreover have "cf_owners_ok ?s'"
  proof -
    have "\<exists>j. push_slot (cf_pcs ?s' j) = Some t'"
      if lo: "unat t + 1 \<le> unat t'" and hi: "unat t' < unat (cf_tail ?f)" for t'
    proof -
      have "unat (cf_sentinel ?f) \<le> unat t'" using lo t by simp
      then obtain j where "push_slot (cf_pcs s j) = Some t'"
        using own hi by (auto simp: cf_owners_ok_def)
      moreover from this have "j \<noteq> i" using pc lo by auto
      ultimately show ?thesis by (auto intro!: exI [of _ j])
    qed
    then show ?thesis using own t1 by (auto simp: cf_owners_ok_def)
  qed
  ultimately show ?thesis using inv others by (auto simp: cf_inv_def)
qed

text \<open>The consumer takes the slot at \<^verbatim>\<open>head\<close>.\<close>

lemma cf_inv_pop_cas:
  assumes inv: "cf_inv c s" and pc: "cf_pcs s i = Pop_CAS h v" and h: "h = cf_head (cf_shared s)"
  shows "cf_inv c (cf_goto i (Pop_Used v)
    (s\<lparr>cf_shared := (cf_shared s)\<lparr>cf_head := h + 1\<rparr>, popped := popped s @ [v]\<rparr>))" (is "cf_inv c ?s'")
proof -
  let ?f = "cf_shared s"
  note D = cf_invD [OF inv]
  have mine: "unat h < unat (cf_sentinel ?f)" "v = pushed s ! unat h"
    using inv pc by (auto simp: cf_inv_def dest!: spec [of _ i])
  have h1: "unat (h + 1) = unat h + 1"
    using mine(1) unat_bound [of "cf_sentinel ?f"] by (intro unat_succ) simp
  have others: "pc_ok ?s' (cf_pcs s j)" if "j \<noteq> i" for j
  proof -
    have "pc_ok s (cf_pcs s j)" and "is_pop (cf_pcs s j) \<longrightarrow> j = c" and "i = c"
      using inv pc by (auto simp: cf_inv_def dest!: spec [of _ i])
    then show ?thesis using that h1 h by (cases "cf_pcs s j") auto
  qed
  have "cf_counters_ok ?s'"
    using inv h1 mine D h by (simp add: cf_inv_def cf_counters_ok_def Let_def)
  moreover have "cf_data_ok ?s'"
    using inv mine D h unfolding cf_inv_def cf_data_ok_def by (auto simp: take_Suc_conv_app_nth)
  moreover have "cf_owners_ok ?s'"
  proof -
    have "push_slot (cf_pcs ?s' j) = push_slot (cf_pcs s j)" for j using pc by simp
    then show ?thesis using inv by (simp add: cf_inv_def cf_owners_ok_def)
  qed
  ultimately show ?thesis using inv others by (auto simp: cf_inv_def)
qed

text \<open>The counter \<^verbatim>\<open>used\<close> takes no part in the protocol.\<close>

lemma cf_inv_used: "cf_inv c (s\<lparr>cf_shared := (cf_shared s)\<lparr>cf_used := u\<rparr>\<rparr>) = cf_inv c s"
proof -
  have "pc_ok (s\<lparr>cf_shared := (cf_shared s)\<lparr>cf_used := u\<rparr>\<rparr>) p = pc_ok s p" for p
    by (cases p) simp_all
  then show ?thesis
    by (simp add: cf_inv_def cf_counters_ok_def cf_data_ok_def cf_owners_ok_def Let_def)
qed

lemma cf_inv_goto_used:
  assumes "cf_inv c s" and "push_slot (cf_pcs s i) = None" and "push_slot p = None"
    and "\<not> is_pop p" and "\<forall>s. pc_ok s p"
  shows "cf_inv c (s\<lparr>cf_shared := (cf_shared s)\<lparr>cf_used := u\<rparr>, cf_pcs := (cf_pcs s)(i := p)\<rparr>)"
  using assms cf_inv_goto [of c "s\<lparr>cf_shared := (cf_shared s)\<lparr>cf_used := u\<rparr>\<rparr>" p i]
  by (simp add: cf_inv_used)

text \<open>The full test and the empty test of a thread that has just read the second counter.\<close>

lemma cf_inv_full_test:
  assumes inv: "cf_inv c s" and ok: "pc_ok s (Push_Load_Head v t)"
    and nw: "length (pushed s) + 1 < 2 ^ 64"
    and test: "(t + 1) mod cf_bound (cf_shared s) \<noteq> cf_head (cf_shared s) mod cf_bound (cf_shared s)"
  shows "pc_ok s (Push_CAS v t)"
proof -
  let ?n = "unat (cf_bound (cf_shared s))"
  note D = cf_invD [OF inv]
  have "unat t + 1 < length (popped s) + ?n" if t: "t = cf_tail (cf_shared s)"
  proof -
    have t1: "unat (t + 1) = length (pushed s) + 1"
      using D(3) nw t unat_succ [of t] by simp
    have "(length (pushed s) + 1) mod ?n \<noteq> length (popped s) mod ?n"
      using test t1 D(4) by (simp add: word_unat_eq_iff unat_mod)
    then show ?thesis
      using mod_window_iff(1) [of "length (popped s)" "length (pushed s)" ?n] D t by simp
  qed
  then show ?thesis using ok D by simp
qed

lemma cf_inv_empty_test:
  assumes inv: "cf_inv c s" and ok: "pc_ok s (Pop_Load_Head sn)"
  shows "cf_head (cf_shared s) mod cf_bound (cf_shared s) = sn mod cf_bound (cf_shared s)
    \<longleftrightarrow> sn = cf_head (cf_shared s)"
proof -
  let ?n = "unat (cf_bound (cf_shared s))" and ?h = "cf_head (cf_shared s)"
  have "unat ?h \<le> unat sn" "unat sn < unat ?h + ?n"
    using cf_invD [OF inv] ok by auto
  then show ?thesis
    using mod_window_iff(2) [of "unat ?h" "unat sn" ?n] by (auto simp: word_unat_eq_iff unat_mod)
qed

lemma cf_inv_read:
  assumes inv: "cf_inv c s" and ok: "pc_ok s (Pop_Read h)"
  shows "pc_ok s (Pop_CAS h (cf_buffer (cf_shared s) ! unat (h mod cf_bound (cf_shared s))))"
  using assms cf_invD [OF inv] by (auto simp: cf_inv_def cf_data_ok_def unat_mod)

section \<open>Every step preserves the invariant\<close>

lemma cf_inv_exec:
  assumes inv: "cf_inv c s" and nw: "length (pushed (cf_exec i s)) < 2 ^ 64 - 1"
  shows "cf_inv c (cf_exec i s)"
proof -
  have ok: "pc_ok s (cf_pcs s i)" and pop: "is_pop (cf_pcs s i) \<Longrightarrow> i = c"
    using inv by (simp_all add: cf_inv_def)
  note D = cf_invD [OF inv]
  show ?thesis
  proof (cases "cf_pcs s i")
    case (Push_Load_Head v t)
    moreover have "length (pushed s) + 1 < 2 ^ 64"
      using nw Push_Load_Head by (simp add: cf_exec_def Let_def split: if_splits)
    ultimately show ?thesis
      using ok cf_inv_full_test [OF inv, of v t] cf_inv_goto [OF inv, of "Push_Return (-1)" i]
        cf_inv_goto [OF inv, of "Push_CAS v t" i]
      by (auto simp add: cf_exec_def Let_def simp del: pc_ok.simps(1,2))
  next
    case (Push_CAS v t)
    show ?thesis
    proof (cases "cf_tail (cf_shared s) = t")
      case True
      then show ?thesis
        using nw Push_CAS cf_inv_push_cas [OF inv Push_CAS] by (simp add: cf_exec_def Let_def)
    next
      case False
      then show ?thesis
        using Push_CAS cf_inv_goto [OF inv, of "Push_Load_Tail v" i]
        by (simp add: cf_exec_def Let_def ATOMIC_VAR_CAS_diff)
    qed
  next
    case (Push_Write v t)
    then show ?thesis using cf_inv_push_write [OF inv Push_Write] by (simp add: cf_exec_def Let_def)
  next
    case (Push_Sentinel v t)
    then show ?thesis
      using inv cf_inv_publish [OF inv Push_Sentinel]
      by (cases "cf_sentinel (cf_shared s) = t") (simp_all add: cf_exec_def Let_def ATOMIC_VAR_CAS_diff)
  next
    case (Pop_Load_Head sn)
    have "unat (cf_head (cf_shared s)) < unat (cf_sentinel (cf_shared s))"
      if "sn \<noteq> cf_head (cf_shared s)"
      using that ok Pop_Load_Head by (auto simp: word_unat_eq_iff)
    then show ?thesis
      using Pop_Load_Head ok pop cf_inv_empty_test [OF inv, of sn]
        cf_inv_goto [OF inv, of "Pop_Return NULL" i] cf_inv_goto [OF inv, of "Pop_Read (cf_head (cf_shared s))" i]
      by (simp add: cf_exec_def Let_def)
  next
    case (Pop_Read h)
    then show ?thesis
      using ok pop cf_inv_read [OF inv, of h] by (simp add: cf_exec_def Let_def cf_inv_goto [OF inv] del: pc_ok.simps)
  next
    case (Pop_CAS h v)
    then show ?thesis
      using ok cf_inv_pop_cas [OF inv Pop_CAS] by (simp add: cf_exec_def Let_def)
  qed (use inv pop D(4,5) in \<open>simp_all add: cf_exec_def Let_def cf_inv_goto cf_inv_goto_used\<close>)
qed

lemma pushed_mono: "cf_step C s t \<Longrightarrow> length (pushed s) \<le> length (pushed t)"
  by (auto elim!: cf_step.cases simp: cf_exec_def Let_def ATOMIC_VAR_CAS_def split: cf_pc.splits)

lemma cf_inv_step:
  assumes "cf_step {c} s t" and "cf_inv c s" and "length (pushed t) < 2 ^ 64 - 1"
  shows "cf_inv c t"
  using assms
proof (cases rule: cf_step.cases)
  case (call_push i v)
  then show ?thesis using assms(2) by (simp add: cf_inv_goto)
next
  case (call_pop i)
  then show ?thesis using assms(2) by (simp add: cf_inv_goto)
next
  case (exec i)
  then show ?thesis using assms cf_inv_exec by simp
qed

lemma cf_inv_init:
  assumes "cfifo_inv f" and "cf_tail f = 0"
  shows "cf_inv c (cf_init f)"
  using assms
  by (auto simp: cf_inv_def cf_init_def cfifo_inv_def cf_counters_ok_def cf_data_ok_def cf_owners_ok_def)

lemma cf_inv_reachable:
  assumes "cf_reachable {c} f s" and "cfifo_inv f" and "cf_tail f = 0"
    and "length (pushed s) < 2 ^ 64 - 1"
  shows "cf_inv c s"
  using assms
proof (induction rule: cf_reachable.induct)
  case init
  then show ?case by (simp add: cf_inv_init)
next
  case (step s t)
  then show ?case using pushed_mono [of "{c}" s t] cf_inv_step [of c s t] by simp
qed

lemma cf_bound_step: "cf_step C s t \<Longrightarrow> cf_bound (cf_shared t) = cf_bound (cf_shared s)"
  by (auto elim!: cf_step.cases simp: cf_exec_def Let_def ATOMIC_VAR_CAS_def split: cf_pc.splits)

lemma cf_bound_reachable: "cf_reachable C f s \<Longrightarrow> cf_bound (cf_shared s) = cf_bound f"
  by (induction rule: cf_reachable.induct) (simp_all add: cf_init_def cf_bound_step)

section \<open>Concrete runs\<close>

datatype cf_event = Call_Push nat addr | Call_Pop nat | Exec nat

fun cf_event_ok :: "nat set \<Rightarrow> cf_sys \<Rightarrow> cf_event \<Rightarrow> bool" where
  "cf_event_ok C s (Call_Push i v) \<longleftrightarrow> cf_pcs s i = CF_Idle"
| "cf_event_ok C s (Call_Pop i) \<longleftrightarrow> cf_pcs s i = CF_Idle \<and> i \<in> C"
| "cf_event_ok C s (Exec i) \<longleftrightarrow> True"

fun cf_apply :: "cf_event \<Rightarrow> cf_sys \<Rightarrow> cf_sys" where
  "cf_apply (Call_Push i v) s = cf_goto i (Push_Load_Tail v) s"
| "cf_apply (Call_Pop i) s = cf_goto i Pop_Load_Sentinel s"
| "cf_apply (Exec i) s = cf_exec i s"

fun cf_run :: "nat set \<Rightarrow> cf_sys \<Rightarrow> cf_event list \<Rightarrow> cf_sys option" where
  "cf_run C s [] = Some s"
| "cf_run C s (e # es) = (if cf_event_ok C s e then cf_run C (cf_apply e s) es else None)"

lemma cf_step_apply: "cf_event_ok C s e \<Longrightarrow> cf_step C s (cf_apply e s)"
  by (cases e) (auto intro: cf_step.intros)

lemma cf_run_reachable:
  "cf_reachable C f s \<Longrightarrow> cf_run C s es = Some t \<Longrightarrow> cf_reachable C f t"
  by (induction es arbitrary: s) (auto split: if_splits intro: cf_reachable.step cf_step_apply)

text \<open>A whole uninterrupted push takes seven events after its call, a whole pop six.\<close>

definition whole_push :: "nat \<Rightarrow> addr \<Rightarrow> cf_event list" where
  "whole_push i v = [Call_Push i v, Exec i, Exec i, Exec i, Exec i, Exec i, Exec i, Exec i]"

definition whole_pop :: "nat \<Rightarrow> cf_event list" where
  "whole_pop i = [Call_Pop i, Exec i, Exec i, Exec i, Exec i, Exec i, Exec i]"

lemmas cf_eval = whole_push_def whole_pop_def cf_exec_def cf_init_def
  ATOMIC_VAR_CAS_def ATOMIC_VAR_FAA_def Let_def

section \<open>Properties\<close>

text \<open>C3: with any number of producers and one consumer \<open>c\<close>, under every interleaving of the
  atomic accesses and as long as fewer than \<open>2 ^ 64 - 1\<close> values have been accepted: the
  values that \<^verbatim>\<open>cfifo_pop\<close> has taken are exactly the first values accepted by
  \<^verbatim>\<open>cfifo_push\<close>, in the same order; the queue never holds more than \<^verbatim>\<open>size\<close>
  values; if \<^verbatim>\<open>sentinel\<close> is behind \<^verbatim>\<open>tail\<close>, exactly one producer owns the slot at
  \<^verbatim>\<open>sentinel\<close> and is able to publish it; and when no producer is between its
  compare-and-swap and its publication, the buffer holds exactly the accepted values not yet
  taken.\<close>

theorem cfifo_single_consumer_fifo:
  assumes "cfifo_alloc True junk sz = Some f" and "sz \<noteq> - 1"
    and "cf_reachable {c} f s" and "length (pushed s) < 2 ^ 64 - 1"
  shows "popped s = take (length (popped s)) (pushed s)
    \<and> length (pushed s) \<le> length (popped s) + unat sz
    \<and> (cf_sentinel (cf_shared s) \<noteq> cf_tail (cf_shared s) \<longrightarrow>
        (\<exists>!i. push_slot (cf_pcs s i) = Some (cf_sentinel (cf_shared s))))
    \<and> ((\<forall>i. push_slot (cf_pcs s i) = None) \<longrightarrow>
        cfifo_contents (cf_shared s) = drop (length (popped s)) (pushed s))"
proof -
  have f: "cfifo_inv f" "cf_tail f = 0" "unat (cf_bound f) = unat sz + 1"
    using assms(1,2) cfifo_alloc_inv [OF assms(2), of junk]
    by (auto simp: cfifo_alloc_def Let_def cfifo_capacity_def cfifo_inv_def word_gt_0 unat_gt_0
          simp flip: unat_gt_0 dest!: sym [of "_ - 1"])
  have inv: "cf_inv c s" by (rule cf_inv_reachable [OF assms(3) f(1,2) assms(4)])
  note D = cf_invD [OF inv]
  have b: "cf_bound (cf_shared s) = cf_bound f" by (rule cf_bound_reachable [OF assms(3)])
  have own: "cf_owners_ok s" and data: "cf_data_ok s" using inv by (simp_all add: cf_inv_def)
  have lt: "unat (cf_sentinel (cf_shared s)) < unat (cf_tail (cf_shared s))"
    if "cf_sentinel (cf_shared s) \<noteq> cf_tail (cf_shared s)"
    using that D by (simp add: word_unat_eq_iff)
  have "cfifo_contents (cf_shared s) = drop (length (popped s)) (pushed s)"
    if none: "\<forall>i. push_slot (cf_pcs s i) = None"
  proof -
    have "cf_sentinel (cf_shared s) = cf_tail (cf_shared s)"
      using own none lt by (auto simp: cf_owners_ok_def)
    then show ?thesis
      using data D by (intro nth_equalityI) (auto simp: cf_data_ok_def cfifo_contents_def)
  qed
  moreover have "\<exists>!i. push_slot (cf_pcs s i) = Some (cf_sentinel (cf_shared s))"
    if "cf_sentinel (cf_shared s) \<noteq> cf_tail (cf_shared s)"
    using own lt [OF that] by (auto simp: cf_owners_ok_def)
  ultimately show ?thesis
    using data D(7) b f(3) by (simp add: cf_data_ok_def)
qed

text \<open>C40: two consumers are not safe. \<^verbatim>\<open>cfifo_pop\<close> reads \<^verbatim>\<open>sentinel\<close> before
  \<^verbatim>\<open>head\<close>; there is a run in which one value is pushed and taken by consumer 2 between
  the two reads of consumer 1, which then takes the next slot, whose content no producer wrote, and
  moves \<^verbatim>\<open>head\<close> past \<^verbatim>\<open>tail\<close>.\<close>

theorem cfifo_two_consumers_overrun:
  "\<exists>f s. cfifo_alloc True [7, 7] 1 = Some f \<and> cf_reachable {1, 2} f s \<and> pushed s = [5] \<and>
     popped s = [5, 7] \<and> cf_tail (cf_shared s) < cf_head (cf_shared s)"
proof -
  define f where "f = \<lparr>cf_head = 0, cf_tail = 0, cf_sentinel = 0, cf_used = 0, cf_bound = 2, cf_buffer = [7, 7]\<rparr>"
  let ?es = "Call_Pop 1 # Exec 1 # whole_push 0 5 @ whole_pop 2 @ [Exec 1, Exec 1, Exec 1]"
  have f: "cfifo_alloc True [7, 7] 1 = Some f" by (simp add: f_def cfifo_alloc_def Let_def)
  have "\<exists>s. cf_run {1, 2} (cf_init f) ?es = Some s \<and> pushed s = [5] \<and> popped s = [5, 7] \<and>
      cf_tail (cf_shared s) < cf_head (cf_shared s)"
    unfolding f_def by (simp add: cf_eval)
  then show ?thesis
    using f cf_run_reachable [OF cf_reachable.init] by blast
qed

text \<open>\<^verbatim>\<open>cfifo_push\<close> can report a full queue that was never full. It reads
  \<^verbatim>\<open>tail\<close> before \<^verbatim>\<open>head\<close>; there is a run of a queue of capacity 2 in which a single
  other value is pushed and popped and the push of thread 1 still returns -1.\<close>

lemma cfifo_spurious_full:
  "\<exists>f s. cfifo_alloc True [] 2 = Some f \<and> cf_reachable {2} f s \<and> pushed s = [5] \<and>
     popped s = [5] \<and> cf_pcs s 1 = Push_Return (- 1)"
proof -
  define f where "f = \<lparr>cf_head = 0, cf_tail = 0, cf_sentinel = 0, cf_used = 0, cf_bound = 3, cf_buffer = [0, 0, 0]\<rparr>"
  let ?es = "Call_Push 1 6 # Exec 1 # whole_push 0 5 @ whole_pop 2 @ [Exec 1]"
  have f: "cfifo_alloc True [] 2 = Some f" by (simp add: f_def cfifo_alloc_def Let_def)
  have "\<exists>s. cf_run {2} (cf_init f) ?es = Some s \<and> pushed s = [5] \<and> popped s = [5] \<and>
      cf_pcs s 1 = Push_Return (- 1)"
    unfolding f_def by (simp add: cf_eval)
  then show ?thesis
    using f cf_run_reachable [OF cf_reachable.init] by blast
qed

theorem cfifo_single_consumer_fifo_witness:
  "\<exists>f s. cfifo_alloc True [] 2 = Some f \<and> cf_reachable {1} f s \<and> pushed s = [5, 6] \<and> popped s = [5] \<and>
     cfifo_contents (cf_shared s) = [6] \<and> popped s = take (length (popped s)) (pushed s)"
proof -
  define f where "f = \<lparr>cf_head = 0, cf_tail = 0, cf_sentinel = 0, cf_used = 0, cf_bound = 3, cf_buffer = [0, 0, 0]\<rparr>"
  let ?es = "whole_push 0 5 @ whole_push 3 6 @ whole_pop 1"
  have f: "cfifo_alloc True [] 2 = Some f" by (simp add: f_def cfifo_alloc_def Let_def)
  have "\<exists>s. cf_run {1} (cf_init f) ?es = Some s \<and> pushed s = [5, 6] \<and> popped s = [5] \<and>
      (\<forall>i. push_slot (cf_pcs s i) = None)"
    unfolding f_def by (simp add: cf_eval)
  then obtain s where s: "cf_reachable {1} f s" "pushed s = [5, 6]" "popped s = [5]"
      "\<forall>i. push_slot (cf_pcs s i) = None"
    using cf_run_reachable [OF cf_reachable.init] by blast
  then show ?thesis
    using f cfifo_single_consumer_fifo [OF f _ s(1)] by auto
qed

end
