(* ===== verification/Clifo.thy ===== *)
theory Clifo
  imports Atomic_Var Buffer_Spec
begin

text \<open>
  Model of \<^verbatim>\<open>src/src/lifo/clifo.c\<close>: an array stack whose top index is moved by
  compare-and-swap and whose slots carry a three-state lock, so that a push and a pop which have
  reserved the same slot hand the value over. This theory runs the functions without interference
  and shows that they implement a bounded stack of \<open>size - 1\<close> values;
  \<open>Clifo_Concurrent\<close> interleaves their atomic accesses.
\<close>

datatype nst = NST_EMPTY | NST_BUSY | NST_FULL

datatype nst_type = NST_PUSH | NST_POP

record clifo_node =
  cl_value :: addr
  cl_lock :: nst

record clifo =
  cl_head :: size_t
  cl_bound :: size_t
  cl_buffer :: "clifo_node list"

section \<open>Slot locks\<close>

definition nst_expected :: "nst_type \<Rightarrow> nst" where
  "nst_expected ty = (if ty = NST_PUSH then NST_EMPTY else NST_FULL)"

text \<open>\<^verbatim>\<open>NST_PP_LOCK\<close> spins until the compare-and-swap succeeds.\<close>

partial_function (option) NST_PP_LOCK :: "nst \<Rightarrow> nst_type \<Rightarrow> nst prog" where
  "NST_PP_LOCK lk ty =
     (case ATOMIC_VAR_CAS lk (nst_expected ty) NST_BUSY of (ok, lk') \<Rightarrow>
        (if ok then ret lk' else NST_PP_LOCK lk' ty))"

definition NST_PP_UNLOCK :: "nst_type \<Rightarrow> nst" where
  "NST_PP_UNLOCK ty = (if ty = NST_PUSH then NST_FULL else NST_EMPTY)"

section \<open>Operations\<close>

text \<open>\<open>malloc_ok\<close> says whether \<^verbatim>\<open>malloc\<close> succeeds, \<open>junk\<close> what the values of the
  slots are before the first push.\<close>

definition clifo_alloc :: "bool \<Rightarrow> (nat \<Rightarrow> addr) \<Rightarrow> size_t \<Rightarrow> clifo option" where
  "clifo_alloc malloc_ok junk sz =
     (if \<not> malloc_ok then None
      else Some \<lparr>cl_head = 0, cl_bound = sz,
                 cl_buffer = map (\<lambda>i. \<lparr>cl_value = junk i, cl_lock = NST_EMPTY\<rparr>) [0 ..< unat sz]\<rparr>)"

definition clifo_size :: "clifo \<Rightarrow> size_t" where
  "clifo_size lifo = cl_head lifo"

definition cl_slot :: "clifo \<Rightarrow> size_t \<Rightarrow> nat prog" where
  "cl_slot lifo x = (if unat x < length (cl_buffer lifo) then ret (unat x) else fail Out_Of_Bounds)"

partial_function (option) clifo_push :: "clifo \<Rightarrow> addr \<Rightarrow> (int \<times> clifo) prog" where
  "clifo_push lifo value =
     (let sz = cl_bound lifo; head = cl_head lifo
      in if head = sz - 1 then ret (- 1, lifo)
         else case ATOMIC_VAR_CAS (cl_head lifo) head (head + 1) of (ok, h) \<Rightarrow>
           (if \<not> ok then clifo_push (lifo\<lparr>cl_head := h\<rparr>) value
            else let lifo = lifo\<lparr>cl_head := h\<rparr>
                 in pbind (cl_slot lifo head) (\<lambda>i.
                    pbind (NST_PP_LOCK (cl_lock (cl_buffer lifo ! i)) NST_PUSH) (\<lambda>lk.
                    let buf = (cl_buffer lifo)[i := \<lparr>cl_value = cl_value (cl_buffer lifo ! i), cl_lock = lk\<rparr>];
                        buf = buf[i := (buf ! i)\<lparr>cl_value := value\<rparr>];
                        buf = buf[i := (buf ! i)\<lparr>cl_lock := NST_PP_UNLOCK NST_PUSH\<rparr>]
                    in ret (0, lifo\<lparr>cl_buffer := buf\<rparr>)))))"

partial_function (option) clifo_pop :: "clifo \<Rightarrow> (addr \<times> clifo) prog" where
  "clifo_pop lifo =
     (let head = cl_head lifo
      in if head = 0 then ret (NULL, lifo)
         else let next = head - 1
         in case ATOMIC_VAR_CAS (cl_head lifo) head next of (ok, h) \<Rightarrow>
           (if \<not> ok then clifo_pop (lifo\<lparr>cl_head := h\<rparr>)
            else let lifo = lifo\<lparr>cl_head := h\<rparr>
                 in pbind (cl_slot lifo next) (\<lambda>i.
                    pbind (NST_PP_LOCK (cl_lock (cl_buffer lifo ! i)) NST_POP) (\<lambda>lk.
                    let buf = (cl_buffer lifo)[i := (cl_buffer lifo ! i)\<lparr>cl_lock := lk\<rparr>];
                        value = cl_value (buf ! i);
                        buf = buf[i := (buf ! i)\<lparr>cl_lock := NST_PP_UNLOCK NST_POP\<rparr>]
                    in ret (value, lifo\<lparr>cl_buffer := buf\<rparr>)))))"

section \<open>Invariant and contents\<close>

definition clifo_inv :: "clifo \<Rightarrow> bool" where
  "clifo_inv l \<longleftrightarrow>
     length (cl_buffer l) = unat (cl_bound l) \<and> unat (cl_head l) < unat (cl_bound l) \<and>
     (\<forall>i < unat (cl_bound l).
        cl_lock (cl_buffer l ! i) = (if i < unat (cl_head l) then NST_FULL else NST_EMPTY))"

definition clifo_contents :: "clifo \<Rightarrow> addr list" where
  "clifo_contents l = rev (map cl_value (take (unat (cl_head l)) (cl_buffer l)))"

definition clifo_capacity :: "clifo \<Rightarrow> nat" where
  "clifo_capacity l = unat (cl_bound l) - 1"

lemma NST_PP_LOCK_ok [simp]: "NST_PP_LOCK (nst_expected ty) ty = ret NST_BUSY"
  by (subst NST_PP_LOCK.simps) simp

lemma nst_expected_simps [simp]:
  "nst_expected NST_PUSH = NST_EMPTY" "nst_expected NST_POP = NST_FULL"
  by (simp_all add: nst_expected_def)

lemmas NST_PP_LOCK_push [simp] = NST_PP_LOCK_ok [of NST_PUSH, simplified]
lemmas NST_PP_LOCK_pop [simp] = NST_PP_LOCK_ok [of NST_POP, simplified]

lemma length_clifo_contents: "clifo_inv l \<Longrightarrow> length (clifo_contents l) = unat (cl_head l)"
  by (simp add: clifo_contents_def clifo_inv_def)

lemma clifo_full_check:
  assumes "clifo_inv l"
  shows "cl_head l = cl_bound l - 1 \<longleftrightarrow> length (clifo_contents l) = clifo_capacity l"
proof -
  have "unat (cl_bound l - 1) = unat (cl_bound l) - 1"
    using assms by (intro unat_minus_one) (auto simp: clifo_inv_def)
  then show ?thesis
    using assms by (simp add: word_unat_eq_iff length_clifo_contents clifo_capacity_def)
qed

lemma clifo_push_full:
  assumes "clifo_inv l" and "length (clifo_contents l) = clifo_capacity l"
  shows "clifo_push l v = ret (- 1, l)"
  using assms by (subst clifo_push.simps) (simp add: clifo_full_check Let_def)

lemma clifo_push_room:
  assumes inv: "clifo_inv l" and r: "length (clifo_contents l) < clifo_capacity l"
  shows "\<exists>l'. clifo_push l v = ret (0, l') \<and> clifo_inv l' \<and> clifo_contents l' = v # clifo_contents l \<and>
    clifo_capacity l' = clifo_capacity l"
proof -
  let ?h = "unat (cl_head l)"
  let ?l' = "l\<lparr>cl_head := cl_head l + 1, cl_buffer := (cl_buffer l)[?h := \<lparr>cl_value = v, cl_lock = NST_FULL\<rparr>]\<rparr>"
  have h: "?h + 1 < unat (cl_bound l)" "?h < length (cl_buffer l)"
    using inv r by (auto simp: length_clifo_contents clifo_capacity_def clifo_inv_def)
  have h1: "unat (cl_head l + 1) = ?h + 1"
    using h(1) unat_bound [of "cl_bound l"] by (simp add: unat_word_ariths)
  have lk: "cl_lock (cl_buffer l ! ?h) = NST_EMPTY"
    using inv h by (simp add: clifo_inv_def)
  have "clifo_push l v = ret (0, ?l')"
    using r h(2) lk by (subst clifo_push.simps)
      (simp add: clifo_full_check [OF inv] Let_def cl_slot_def NST_PP_UNLOCK_def)
  moreover have "clifo_inv ?l'"
    using inv h h1 by (auto simp: clifo_inv_def nth_list_update_if)
  moreover have "clifo_contents ?l' = v # clifo_contents l"
    using h by (simp add: clifo_contents_def h1 take_Suc_conv_app_nth)
  ultimately show ?thesis by (auto simp: clifo_capacity_def)
qed

lemma clifo_pop_empty:
  assumes "clifo_inv l" and "clifo_contents l = []"
  shows "clifo_pop l = ret (NULL, l)"
proof -
  have "cl_head l = 0"
    using length_clifo_contents [OF assms(1)] assms(2) by (simp add: unat_eq_0)
  then show ?thesis by (subst clifo_pop.simps) simp
qed

lemma clifo_pop_Cons:
  assumes inv: "clifo_inv l" and c: "clifo_contents l = v # vs"
  shows "\<exists>l'. clifo_pop l = ret (v, l') \<and> clifo_inv l' \<and> clifo_contents l' = vs \<and>
    clifo_capacity l' = clifo_capacity l"
proof -
  let ?n = "unat (cl_head l) - 1"
  let ?l' = "l\<lparr>cl_head := cl_head l - 1, cl_buffer := (cl_buffer l)[?n := (cl_buffer l ! ?n)\<lparr>cl_lock := NST_EMPTY\<rparr>]\<rparr>"
  have hd: "unat (cl_head l) = Suc (length vs)"
    using length_clifo_contents [OF inv] c by simp
  then have nz: "cl_head l \<noteq> 0" by auto
  then have n: "unat (cl_head l - 1) = ?n" by (simp add: unat_minus_one)
  have b: "?n < length (cl_buffer l)" "?n < unat (cl_bound l)" and lk: "cl_lock (cl_buffer l ! ?n) = NST_FULL"
    using inv hd by (auto simp: clifo_inv_def)
  have "take (Suc ?n) (cl_buffer l) = take ?n (cl_buffer l) @ [cl_buffer l ! ?n]"
    using b by (simp add: take_Suc_conv_app_nth)
  with c hd have v: "v = cl_value (cl_buffer l ! ?n)" and vs: "clifo_contents ?l' = vs"
    by (simp_all add: clifo_contents_def n)
  have "clifo_pop l = ret (v, ?l')"
    using nz n b lk v by (subst clifo_pop.simps) (simp add: Let_def cl_slot_def NST_PP_UNLOCK_def)
  moreover have "clifo_inv ?l'"
    using inv n b hd by (auto simp: clifo_inv_def nth_list_update_if less_Suc_eq)
  ultimately show ?thesis using vs by (auto simp: clifo_capacity_def)
qed

text \<open>No counter of the stack runs freely, so the number of pushes is not limited.\<close>

interpretation cls: bounded_buffer clifo_push clifo_pop clifo_contents clifo_capacity "\<lambda>_. 2 ^ 64"
  clifo_inv Cons
proof unfold_locales
  fix s assume "clifo_inv s"
  then show "length (clifo_contents s) \<le> clifo_capacity s"
    by (auto simp: length_clifo_contents clifo_capacity_def clifo_inv_def)
qed (use clifo_push_full clifo_push_room clifo_pop_empty clifo_pop_Cons in force)+

lemma clifo_alloc_inv:
  assumes "0 < sz"
  shows "\<exists>l. clifo_alloc True junk sz = Some l \<and> clifo_inv l \<and> clifo_contents l = [] \<and>
    clifo_capacity l = unat sz - 1"
  using assms by (simp add: clifo_alloc_def clifo_inv_def clifo_contents_def clifo_capacity_def
      word_gt_0 unat_gt_0)

text \<open>\<^verbatim>\<open>clifo_alloc(0)\<close> makes a stack whose bound test compares with \<open>0 - 1\<close>, the largest
  \<^verbatim>\<open>size_t\<close>, so that the first push writes outside the empty array.\<close>

lemma clifo_zero_size_overrun:
  "\<exists>l. clifo_alloc True junk 0 = Some l \<and> clifo_push l v = fail Out_Of_Bounds"
proof -
  let ?l = "\<lparr>cl_head = 0, cl_bound = 0, cl_buffer = []\<rparr>"
  have "clifo_push ?l v = fail Out_Of_Bounds"
    by (subst clifo_push.simps) (simp add: Let_def cl_slot_def)
  then show ?thesis by (simp add: clifo_alloc_def)
qed

section \<open>Properties\<close>

text \<open>C34: without interference \<^verbatim>\<open>clifo_push\<close> and \<^verbatim>\<open>clifo_pop\<close> return and implement a
  bounded stack: a push into a full stack returns -1 and changes nothing, any other push returns
  0 and puts the value on top; a pop of an empty stack returns NULL and changes nothing, any other
  pop returns and removes the top. \<^verbatim>\<open>clifo_size\<close> is the number of stored values.\<close>

theorem clifo_refines_stack:
  assumes "clifo_inv l"
  shows "(if length (clifo_contents l) = clifo_capacity l then clifo_push l v = ret (- 1, l)
      else \<exists>l'. clifo_push l v = ret (0, l') \<and> clifo_inv l' \<and> clifo_contents l' = v # clifo_contents l)
    \<and> (case clifo_contents l of
        [] \<Rightarrow> clifo_pop l = ret (NULL, l)
      | x # xs \<Rightarrow> \<exists>l'. clifo_pop l = ret (x, l') \<and> clifo_inv l' \<and> clifo_contents l' = xs)
    \<and> unat (clifo_size l) = length (clifo_contents l)"
proof (intro conjI)
  show "if length (clifo_contents l) = clifo_capacity l then clifo_push l v = ret (- 1, l)
      else \<exists>l'. clifo_push l v = ret (0, l') \<and> clifo_inv l' \<and> clifo_contents l' = v # clifo_contents l"
    using clifo_push_full [OF assms] clifo_push_room [OF assms] cls.contents_bound [OF assms]
    by (metis order_le_less)
  show "case clifo_contents l of
        [] \<Rightarrow> clifo_pop l = ret (NULL, l)
      | x # xs \<Rightarrow> \<exists>l'. clifo_pop l = ret (x, l') \<and> clifo_inv l' \<and> clifo_contents l' = xs"
    using clifo_pop_empty [OF assms] clifo_pop_Cons [OF assms] by (auto split: list.split)
qed (simp add: clifo_size_def length_clifo_contents [OF assms])

text \<open>A stack made by \<^verbatim>\<open>clifo_alloc(size)\<close> holds \<open>size - 1\<close> values, one fewer than
  its size, and gives values back in the reverse of the order in which they were pushed.\<close>

lemma clifo_reverses:
  assumes "0 < sz" and "length xs \<le> unat sz - 1"
  shows "\<exists>l l1 l2. clifo_alloc True junk sz = Some l \<and> push_all clifo_push l xs = ret (True, l1) \<and>
    (length xs = unat sz - 1 \<longrightarrow> clifo_push l1 v = ret (- 1, l1)) \<and>
    pop_n clifo_pop l1 (length xs) = ret (rev xs, l2) \<and> clifo_pop l2 = ret (NULL, l2)"
proof -
  obtain l where l: "clifo_alloc True junk sz = Some l" "clifo_inv l" "clifo_contents l = []"
    "clifo_capacity l = unat sz - 1"
    using clifo_alloc_inv [OF assms(1)] by blast
  have fold: "fold Cons ys zs = rev ys @ zs" for ys zs :: "addr list"
    by (induction ys arbitrary: zs) auto
  have bud: "length xs \<le> 2 ^ 64" using assms(2) unat_bound [of sz] by simp
  obtain l1 where l1: "push_all clifo_push l xs = ret (True, l1)" "clifo_inv l1"
    "clifo_contents l1 = rev xs" "clifo_capacity l1 = clifo_capacity l"
    using cls.push_all_room [OF l(2) bud] assms(2) l by (auto simp: fold)
  obtain l2 where l2: "pop_n clifo_pop l1 (length xs) = ret (rev xs, l2)" "clifo_inv l2" "clifo_contents l2 = []"
    using cls.pop_n_takes [OF l1(2), of "length xs"] l1(3) by auto
  have "length xs = unat sz - 1 \<longrightarrow> clifo_push l1 v = ret (- 1, l1)"
    using clifo_push_full [OF l1(2)] l1 l by simp
  then show ?thesis using l(1) l1(1) l2 clifo_pop_empty [OF l2(2,3)] by blast
qed

theorem clifo_refines_stack_witness:
  "\<exists>l l'. clifo_alloc True (\<lambda>_. 9) 3 = Some l \<and> clifo_push l 5 = ret (0, l') \<and> clifo_contents l' = [5]"
proof -
  obtain l where l: "clifo_alloc True (\<lambda>_. 9) 3 = Some l" "clifo_inv l" "clifo_contents l = []" "clifo_capacity l = 2"
    using clifo_alloc_inv [of 3 "\<lambda>_. 9"] by auto
  then show ?thesis using clifo_refines_stack [OF l(2), of 5] by auto
qed

end
