(* ===== verification/Clifo_Concurrent.thy ===== *)
theory Clifo_Concurrent
  imports Clifo
begin

text \<open>
  The functions of \<^verbatim>\<open>src/src/lifo/clifo.c\<close> run by any number of threads: each thread has a
  program counter that names its next atomic access and holds its local variables, and one step
  is one such access by one thread. The ghost multisets \<open>accepted\<close> and \<open>delivered\<close> record the
  values of the pushes whose compare-and-swap of \<^verbatim>\<open>head\<close> succeeded and the values of the pops
  that have released their slot.

  The invariant balances, for every slot, the threads that have reserved it: the pushes and the
  pops on their way to a slot differ by what the slot holds and by whether it is below
  \<^verbatim>\<open>head\<close>. Mutual exclusion, conservation of the values and absence of deadlock follow.
\<close>

section \<open>Threads and steps\<close>

datatype cl_pc =
    CL_Idle
  | LPush_Load addr
  | LPush_CAS addr size_t
  | LPush_Lock addr size_t
  | LPush_Write addr size_t
  | LPush_Unlock addr size_t
  | LPush_Return int
  | LPop_Load
  | LPop_CAS size_t
  | LPop_Lock size_t
  | LPop_Read size_t
  | LPop_Unlock size_t addr
  | LPop_Return addr

record cl_sys =
  cl_shared :: clifo
  cl_pcs :: "cl_pc list"
  accepted :: "addr multiset"
  delivered :: "addr multiset"

abbreviation cl_goto :: "nat \<Rightarrow> cl_pc \<Rightarrow> cl_sys \<Rightarrow> cl_sys" where
  "cl_goto i p s \<equiv> s\<lparr>cl_pcs := (cl_pcs s)[i := p]\<rparr>"

abbreviation node_at :: "clifo \<Rightarrow> size_t \<Rightarrow> clifo_node" where
  "node_at l x \<equiv> cl_buffer l ! unat x"

definition cl_store :: "size_t \<Rightarrow> clifo_node \<Rightarrow> clifo \<Rightarrow> clifo" where
  "cl_store x nd l = l\<lparr>cl_buffer := (cl_buffer l)[unat x := nd]\<rparr>"

text \<open>The next atomic access of thread \<open>i\<close>.\<close>

definition cl_exec :: "nat \<Rightarrow> cl_sys \<Rightarrow> cl_sys" where
  "cl_exec i s =
     (let l = cl_shared s in
      case cl_pcs s ! i of
        CL_Idle \<Rightarrow> s
      | LPush_Load v \<Rightarrow>
          if cl_head l = cl_bound l - 1 then cl_goto i (LPush_Return (- 1)) s
          else cl_goto i (LPush_CAS v (cl_head l)) s
      | LPush_CAS v h \<Rightarrow>
          (case ATOMIC_VAR_CAS (cl_head l) h (h + 1) of (ok, h') \<Rightarrow>
             if ok then cl_goto i (LPush_Lock v h)
               (s\<lparr>cl_shared := l\<lparr>cl_head := h'\<rparr>, accepted := add_mset v (accepted s)\<rparr>)
             else cl_goto i (LPush_Load v) s)
      | LPush_Lock v x \<Rightarrow>
          (case ATOMIC_VAR_CAS (cl_lock (node_at l x)) (nst_expected NST_PUSH) NST_BUSY of (ok, lk) \<Rightarrow>
             if ok then cl_goto i (LPush_Write v x) (s\<lparr>cl_shared := cl_store x ((node_at l x)\<lparr>cl_lock := lk\<rparr>) l\<rparr>)
             else s)
      | LPush_Write v x \<Rightarrow>
          cl_goto i (LPush_Unlock v x) (s\<lparr>cl_shared := cl_store x ((node_at l x)\<lparr>cl_value := v\<rparr>) l\<rparr>)
      | LPush_Unlock v x \<Rightarrow>
          cl_goto i (LPush_Return 0)
            (s\<lparr>cl_shared := cl_store x ((node_at l x)\<lparr>cl_lock := NST_PP_UNLOCK NST_PUSH\<rparr>) l\<rparr>)
      | LPush_Return r \<Rightarrow> cl_goto i CL_Idle s
      | LPop_Load \<Rightarrow>
          if cl_head l = 0 then cl_goto i (LPop_Return NULL) s
          else cl_goto i (LPop_CAS (cl_head l)) s
      | LPop_CAS h \<Rightarrow>
          (case ATOMIC_VAR_CAS (cl_head l) h (h - 1) of (ok, h') \<Rightarrow>
             if ok then cl_goto i (LPop_Lock (h - 1)) (s\<lparr>cl_shared := l\<lparr>cl_head := h'\<rparr>\<rparr>)
             else cl_goto i LPop_Load s)
      | LPop_Lock x \<Rightarrow>
          (case ATOMIC_VAR_CAS (cl_lock (node_at l x)) (nst_expected NST_POP) NST_BUSY of (ok, lk) \<Rightarrow>
             if ok then cl_goto i (LPop_Read x) (s\<lparr>cl_shared := cl_store x ((node_at l x)\<lparr>cl_lock := lk\<rparr>) l\<rparr>)
             else s)
      | LPop_Read x \<Rightarrow> cl_goto i (LPop_Unlock x (cl_value (node_at l x))) s
      | LPop_Unlock x v \<Rightarrow>
          cl_goto i (LPop_Return v)
            (s\<lparr>cl_shared := cl_store x ((node_at l x)\<lparr>cl_lock := NST_PP_UNLOCK NST_POP\<rparr>) l,
               delivered := add_mset v (delivered s)\<rparr>)
      | LPop_Return v \<Rightarrow> cl_goto i CL_Idle s)"

definition cl_init :: "clifo \<Rightarrow> nat \<Rightarrow> cl_sys" where
  "cl_init l n = \<lparr>cl_shared = l, cl_pcs = replicate n CL_Idle, accepted = {#}, delivered = {#}\<rparr>"

inductive cl_step :: "cl_sys \<Rightarrow> cl_sys \<Rightarrow> bool" where
  call_push: "i < length (cl_pcs s) \<Longrightarrow> cl_pcs s ! i = CL_Idle \<Longrightarrow> cl_step s (cl_goto i (LPush_Load v) s)"
| call_pop: "i < length (cl_pcs s) \<Longrightarrow> cl_pcs s ! i = CL_Idle \<Longrightarrow> cl_step s (cl_goto i LPop_Load s)"
| exec: "i < length (cl_pcs s) \<Longrightarrow> cl_step s (cl_exec i s)"

inductive cl_reachable :: "clifo \<Rightarrow> nat \<Rightarrow> cl_sys \<Rightarrow> bool" for l n where
  init: "cl_reachable l n (cl_init l n)"
| step: "cl_reachable l n s \<Longrightarrow> cl_step s t \<Longrightarrow> cl_reachable l n t"

section \<open>Invariant\<close>

text \<open>The threads that have reserved slot \<open>k\<close> for a push or a pop, and those that hold its lock.\<close>

fun push_at :: "nat \<Rightarrow> cl_pc \<Rightarrow> bool" where
  "push_at k (LPush_Lock v x) \<longleftrightarrow> unat x = k"
| "push_at k (LPush_Write v x) \<longleftrightarrow> unat x = k"
| "push_at k (LPush_Unlock v x) \<longleftrightarrow> unat x = k"
| "push_at k _ \<longleftrightarrow> False"

fun pop_at :: "nat \<Rightarrow> cl_pc \<Rightarrow> bool" where
  "pop_at k (LPop_Lock x) \<longleftrightarrow> unat x = k"
| "pop_at k (LPop_Read x) \<longleftrightarrow> unat x = k"
| "pop_at k (LPop_Unlock x v) \<longleftrightarrow> unat x = k"
| "pop_at k _ \<longleftrightarrow> False"

fun hold_push :: "nat \<Rightarrow> cl_pc \<Rightarrow> bool" where
  "hold_push k (LPush_Write v x) \<longleftrightarrow> unat x = k"
| "hold_push k (LPush_Unlock v x) \<longleftrightarrow> unat x = k"
| "hold_push k _ \<longleftrightarrow> False"

fun hold_pop :: "nat \<Rightarrow> cl_pc \<Rightarrow> bool" where
  "hold_pop k (LPop_Read x) \<longleftrightarrow> unat x = k"
| "hold_pop k (LPop_Unlock x v) \<longleftrightarrow> unat x = k"
| "hold_pop k _ \<longleftrightarrow> False"

fun pending :: "cl_pc \<Rightarrow> addr multiset" where
  "pending (LPush_Lock v x) = {#v#}"
| "pending (LPush_Write v x) = {#v#}"
| "pending (LPush_Unlock v x) = {#v#}"
| "pending _ = {#}"

fun cl_pc_ok :: "clifo \<Rightarrow> cl_pc \<Rightarrow> bool" where
  "cl_pc_ok l (LPush_CAS v h) \<longleftrightarrow> h \<noteq> cl_bound l - 1"
| "cl_pc_ok l (LPush_Lock v x) \<longleftrightarrow> unat x < unat (cl_bound l)"
| "cl_pc_ok l (LPush_Write v x) \<longleftrightarrow> unat x < unat (cl_bound l)"
| "cl_pc_ok l (LPush_Unlock v x) \<longleftrightarrow> unat x < unat (cl_bound l) \<and> cl_value (node_at l x) = v"
| "cl_pc_ok l (LPop_CAS h) \<longleftrightarrow> h \<noteq> 0"
| "cl_pc_ok l (LPop_Lock x) \<longleftrightarrow> unat x < unat (cl_bound l)"
| "cl_pc_ok l (LPop_Read x) \<longleftrightarrow> unat x < unat (cl_bound l)"
| "cl_pc_ok l (LPop_Unlock x v) \<longleftrightarrow> unat x < unat (cl_bound l) \<and> cl_value (node_at l x) = v"
| "cl_pc_ok l _ \<longleftrightarrow> True"

abbreviation lock_at :: "cl_sys \<Rightarrow> nat \<Rightarrow> nst" where
  "lock_at s k \<equiv> cl_lock (cl_buffer (cl_shared s) ! k)"

definition locks_ok :: "cl_sys \<Rightarrow> nat \<Rightarrow> bool" where
  "locks_ok s k \<longleftrightarrow>
     tally (hold_push k) (cl_pcs s) + tally (hold_pop k) (cl_pcs s) = of_bool (lock_at s k = NST_BUSY)"

definition balance_ok :: "cl_sys \<Rightarrow> nat \<Rightarrow> bool" where
  "balance_ok s k \<longleftrightarrow>
     of_bool (lock_at s k = NST_FULL) + tally (hold_pop k) (cl_pcs s) + tally (push_at k) (cl_pcs s)
     = of_bool (k < unat (cl_head (cl_shared s))) + tally (pop_at k) (cl_pcs s)"

definition slot_value :: "cl_sys \<Rightarrow> nat \<Rightarrow> addr multiset" where
  "slot_value s k =
     (if lock_at s k = NST_FULL \<or> 0 < tally (hold_pop k) (cl_pcs s)
      then {#cl_value (cl_buffer (cl_shared s) ! k)#} else {#})"

definition cl_inv :: "cl_sys \<Rightarrow> bool" where
  "cl_inv s \<longleftrightarrow>
     (let l = cl_shared s; n = unat (cl_bound l) in
      length (cl_buffer l) = n \<and> unat (cl_head l) < n \<and>
      (\<forall>k < n. locks_ok s k) \<and> (\<forall>k < n. balance_ok s k) \<and>
      (\<forall>i < length (cl_pcs s). cl_pc_ok l (cl_pcs s ! i)) \<and>
      accepted s = delivered s + (\<Sum>k < n. slot_value s k) + sum_list (map pending (cl_pcs s)))"

lemma cl_invD:
  assumes "cl_inv s"
  shows "length (cl_buffer (cl_shared s)) = unat (cl_bound (cl_shared s))"
    and "unat (cl_head (cl_shared s)) < unat (cl_bound (cl_shared s))"
    and "\<And>k. k < unat (cl_bound (cl_shared s)) \<Longrightarrow> locks_ok s k"
    and "\<And>k. k < unat (cl_bound (cl_shared s)) \<Longrightarrow> balance_ok s k"
    and "\<And>i. i < length (cl_pcs s) \<Longrightarrow> cl_pc_ok (cl_shared s) (cl_pcs s ! i)"
    and "accepted s = delivered s + (\<Sum>k < unat (cl_bound (cl_shared s)). slot_value s k)
      + sum_list (map pending (cl_pcs s))"
  using assms by (simp_all add: cl_inv_def Let_def)

lemma tally_update_same:
  "i < length xs \<Longrightarrow> P v = P (xs ! i) \<Longrightarrow> tally P (xs[i := v]) = tally P xs"
  using tally_update [of i xs P v] by simp

lemma pending_update:
  "i < length xs \<Longrightarrow> sum_list (map pending (xs[i := v])) + pending (xs ! i) = sum_list (map pending xs) + pending v"
  by (rule sum_list_update_add)

lemma cl_pc_ok_head [simp]: "cl_pc_ok (l\<lparr>cl_head := h\<rparr>) p = cl_pc_ok l p"
  by (cases p) simp_all

text \<open>A step that changes only the thread's control point and leaves its reservations as they are.\<close>

lemma cl_inv_goto:
  assumes inv: "cl_inv s" and i: "i < length (cl_pcs s)" and ok: "cl_pc_ok (cl_shared s) p"
    and same: "\<And>k. push_at k p = push_at k (cl_pcs s ! i)" "\<And>k. pop_at k p = pop_at k (cl_pcs s ! i)"
      "\<And>k. hold_push k p = hold_push k (cl_pcs s ! i)" "\<And>k. hold_pop k p = hold_pop k (cl_pcs s ! i)"
      "pending p = pending (cl_pcs s ! i)"
  shows "cl_inv (cl_goto i p s)"
proof -
  have T: "tally (push_at k) ((cl_pcs s)[i := p]) = tally (push_at k) (cl_pcs s)"
    "tally (pop_at k) ((cl_pcs s)[i := p]) = tally (pop_at k) (cl_pcs s)"
    "tally (hold_push k) ((cl_pcs s)[i := p]) = tally (hold_push k) (cl_pcs s)"
    "tally (hold_pop k) ((cl_pcs s)[i := p]) = tally (hold_pop k) (cl_pcs s)" for k
    using i same by (simp_all add: tally_update_same)
  have "sum_list (map pending ((cl_pcs s)[i := p])) = sum_list (map pending (cl_pcs s))"
    using pending_update [OF i, of p] same(5) by simp
  moreover have "locks_ok (cl_goto i p s) k = locks_ok s k" "balance_ok (cl_goto i p s) k = balance_ok s k"
    "slot_value (cl_goto i p s) k = slot_value s k" for k
    by (simp_all add: locks_ok_def balance_ok_def slot_value_def T)
  ultimately show ?thesis
    using inv ok by (simp add: cl_inv_def Let_def nth_list_update i)
qed

text \<open>The compare-and-swap of \<^verbatim>\<open>head\<close> in a push reserves the slot at the old top; in a pop,
  the slot below it.\<close>

lemma cl_inv_push_cas:
  assumes inv: "cl_inv s" and i: "i < length (cl_pcs s)" and pc: "cl_pcs s ! i = LPush_CAS v h"
    and h: "h = cl_head (cl_shared s)"
  shows "cl_inv (cl_goto i (LPush_Lock v h)
    (s\<lparr>cl_shared := (cl_shared s)\<lparr>cl_head := h + 1\<rparr>, accepted := add_mset v (accepted s)\<rparr>))" (is "cl_inv ?s'")
proof -
  let ?l = "cl_shared s" and ?n = "unat (cl_bound (cl_shared s))"
  note D = cl_invD [OF inv]
  have "unat (cl_bound ?l - 1) = ?n - 1" using D(2) by (intro unat_minus_one) auto
  moreover have "h \<noteq> cl_bound ?l - 1" using D(5) [OF i] pc by simp
  ultimately have room: "unat h + 1 < ?n" using D(2) h by (simp add: word_unat_eq_iff)
  then have h1: "unat (h + 1) = unat h + 1"
    using unat_bound [of "cl_bound ?l"] by (simp add: unat_word_ariths)
  note T = tally_update [OF i, of "push_at k" "LPush_Lock v h" for k]
    tally_update_same [OF i, of "pop_at k" "LPush_Lock v h" for k]
    tally_update_same [OF i, of "hold_push k" "LPush_Lock v h" for k]
    tally_update_same [OF i, of "hold_pop k" "LPush_Lock v h" for k]
  have "locks_ok ?s' k" if "k < ?n" for k
    using D(3) [OF that] T pc by (simp add: locks_ok_def)
  moreover have "balance_ok ?s' k" if "k < ?n" for k
    using D(4) [OF that] T(1) [of k] T(2,4) pc h h1 by (simp add: balance_ok_def)
  moreover have "slot_value ?s' k = slot_value s k" for k
    using T(4) pc by (simp add: slot_value_def)
  moreover have "cl_pc_ok (cl_shared ?s') (cl_pcs ?s' ! j)" if "j < length (cl_pcs s)" for j
    using D(5) [OF that] room i by (simp add: nth_list_update)
  ultimately show ?thesis
    using D(1,2,6) room h1 pending_update [OF i, of "LPush_Lock v h"] pc
    by (simp add: cl_inv_def Let_def add.assoc)
qed

lemma cl_inv_pop_cas:
  assumes inv: "cl_inv s" and i: "i < length (cl_pcs s)" and pc: "cl_pcs s ! i = LPop_CAS h"
    and h: "h = cl_head (cl_shared s)"
  shows "cl_inv (cl_goto i (LPop_Lock (h - 1)) (s\<lparr>cl_shared := (cl_shared s)\<lparr>cl_head := h - 1\<rparr>\<rparr>))"
    (is "cl_inv ?s'")
proof -
  let ?l = "cl_shared s" and ?n = "unat (cl_bound (cl_shared s))" and ?p = "LPop_Lock (h - 1)"
  note D = cl_invD [OF inv]
  have nz: "h \<noteq> 0" using D(5) [OF i] pc by simp
  then have h1: "unat (h - 1) = unat h - 1" "0 < unat h"
    by (simp_all add: unat_minus_one unat_gt_0)
  note T = tally_update [OF i, of "pop_at k" ?p for k] tally_update_same [OF i, of "push_at k" ?p for k]
    tally_update_same [OF i, of "hold_push k" ?p for k] tally_update_same [OF i, of "hold_pop k" ?p for k]
  have "locks_ok ?s' k" if "k < ?n" for k
    using D(3) [OF that] T pc by (simp add: locks_ok_def)
  moreover have "balance_ok ?s' k" if "k < ?n" for k
    using D(4) [OF that] T(1) [of k] T(2,4) pc h h1 by (auto simp: balance_ok_def)
  moreover have "slot_value ?s' k = slot_value s k" for k
    using T(4) pc by (simp add: slot_value_def)
  moreover have "cl_pc_ok (cl_shared ?s') (cl_pcs ?s' ! j)" if "j < length (cl_pcs s)" for j
    using D(5) [OF that] D(2) h h1 i by (auto simp: nth_list_update)
  ultimately show ?thesis
    using D(1,2,6) h h1 pending_update [OF i, of ?p] pc
    by (simp add: cl_inv_def Let_def)
qed

text \<open>A step of a thread that works on slot \<open>x\<close>: it is enough to look at that slot.\<close>

lemma cl_inv_slot:
  assumes inv: "cl_inv s" and i: "i < length (cl_pcs s)" and x: "unat x < unat (cl_bound (cl_shared s))"
    and only: "\<And>k q. k \<noteq> unat x \<Longrightarrow> q \<in> {p, cl_pcs s ! i} \<Longrightarrow>
      \<not> push_at k q \<and> \<not> pop_at k q \<and> \<not> hold_push k q \<and> \<not> hold_pop k q"
    and s': "s' = cl_goto i p (s\<lparr>cl_shared := cl_store x nd (cl_shared s), delivered := d\<rparr>)"
    and lk: "locks_ok s' (unat x)" and bal: "balance_ok s' (unat x)"
    and ok: "cl_pc_ok (cl_shared s') p"
    and others: "\<And>j. j < length (cl_pcs s) \<Longrightarrow> j \<noteq> i \<Longrightarrow> cl_pc_ok (cl_shared s') (cl_pcs s ! j)"
    and val: "delivered s + slot_value s (unat x) + pending (cl_pcs s ! i) = d + slot_value s' (unat x) + pending p"
  shows "cl_inv s'"
proof -
  let ?n = "unat (cl_bound (cl_shared s))"
  note D = cl_invD [OF inv]
  have T: "tally (push_at k) ((cl_pcs s)[i := p]) = tally (push_at k) (cl_pcs s)"
    "tally (pop_at k) ((cl_pcs s)[i := p]) = tally (pop_at k) (cl_pcs s)"
    "tally (hold_push k) ((cl_pcs s)[i := p]) = tally (hold_push k) (cl_pcs s)"
    "tally (hold_pop k) ((cl_pcs s)[i := p]) = tally (hold_pop k) (cl_pcs s)" if "k \<noteq> unat x" for k
    using i only [OF that, of p] only [OF that, of "cl_pcs s ! i"] by (simp_all add: tally_update_same)
  have far: "locks_ok s' k = locks_ok s k" "balance_ok s' k = balance_ok s k" "slot_value s' k = slot_value s k"
    if "k \<noteq> unat x" for k
    using that by (simp_all add: s' locks_ok_def balance_ok_def slot_value_def T cl_store_def)
  have locks: "\<forall>k < ?n. locks_ok s' k" and bals: "\<forall>k < ?n. balance_ok s' k"
    using D(3,4) far lk bal by metis+
  have sums: "(\<Sum>k < ?n. slot_value s' k) + slot_value s (unat x) = (\<Sum>k < ?n. slot_value s k) + slot_value s' (unat x)"
    using x far(3) by (intro sum_change_one) auto
  have pend: "sum_list (map pending (cl_pcs s')) + pending (cl_pcs s ! i) = sum_list (map pending (cl_pcs s)) + pending p"
    using pending_update [OF i, of p] s' by simp
  have "accepted s + (slot_value s (unat x) + pending (cl_pcs s ! i)) =
    d + (\<Sum>k < ?n. slot_value s' k) + sum_list (map pending (cl_pcs s')) + (slot_value s (unat x) + pending (cl_pcs s ! i))"
  proof -
    have "accepted s + (slot_value s (unat x) + pending (cl_pcs s ! i)) =
      (delivered s + slot_value s (unat x) + pending (cl_pcs s ! i)) + (\<Sum>k < ?n. slot_value s k)
      + sum_list (map pending (cl_pcs s))"
      using D(6) by (simp add: ac_simps)
    also have "\<dots> = d + ((\<Sum>k < ?n. slot_value s k) + slot_value s' (unat x)) + (sum_list (map pending (cl_pcs s)) + pending p)"
      using val by (simp add: ac_simps)
    finally show ?thesis
      unfolding sums [symmetric] pend [symmetric] by (simp only: ac_simps)
  qed
  then have "accepted s = d + (\<Sum>k < ?n. slot_value s' k) + sum_list (map pending (cl_pcs s'))"
    by simp
  moreover have "cl_pc_ok (cl_shared s') (cl_pcs s' ! j)" if "j < length (cl_pcs s)" for j
    using that ok others s' i by (simp add: nth_list_update)
  moreover have "length (cl_pcs s') = length (cl_pcs s)" "accepted s' = accepted s" "delivered s' = d"
    "cl_bound (cl_shared s') = cl_bound (cl_shared s)" "cl_head (cl_shared s') = cl_head (cl_shared s)"
    "length (cl_buffer (cl_shared s')) = length (cl_buffer (cl_shared s))"
    by (simp_all add: s' cl_store_def)
  ultimately show ?thesis
    using D(1,2) locks bals by (simp add: cl_inv_def Let_def)
qed

text \<open>The holder of a slot is alone there, so what the other threads know of the slot's value
  survives the holder's step.\<close>

lemma cl_others_ok:
  assumes inv: "cl_inv s" and i: "i < length (cl_pcs s)" and x: "unat x < unat (cl_bound (cl_shared s))"
    and keep: "cl_value nd = cl_value (node_at (cl_shared s) x) \<or> hold_push (unat x) (cl_pcs s ! i)"
    and j: "j < length (cl_pcs s)" "j \<noteq> i"
  shows "cl_pc_ok (cl_store x nd (cl_shared s)) (cl_pcs s ! j)"
proof -
  note D = cl_invD [OF inv]
  have ok: "cl_pc_ok (cl_shared s) (cl_pcs s ! j)" using D(5) [OF j(1)] .
  have alone: "\<not> hold_push (unat x) (cl_pcs s ! j) \<and> \<not> hold_pop (unat x) (cl_pcs s ! j)"
    if "hold_push (unat x) (cl_pcs s ! i)"
  proof -
    have "tally (hold_push (unat x)) (cl_pcs s) + tally (hold_pop (unat x)) (cl_pcs s) \<le> 1"
      using D(3) [OF x] by (simp add: locks_ok_def)
    then show ?thesis
      using that tally_same_two [OF i j(1), of "hold_push (unat x)"] j(2)
        tally_pos [OF i, of "hold_push (unat x)"] tally_pos [OF j(1), of "hold_pop (unat x)"] by force
  qed
  have "cl_value (node_at (cl_store x nd (cl_shared s)) y) = cl_value (node_at (cl_shared s) y)"
    if "hold_push (unat y) (cl_pcs s ! j) \<or> hold_pop (unat y) (cl_pcs s ! j)" for y
    using keep alone that x D(1) by (auto simp: cl_store_def nth_list_update)
  then show ?thesis using ok by (cases "cl_pcs s ! j") (auto simp: cl_store_def)
qed

lemma cl_holder_push:
  assumes "cl_inv s" and i: "i < length (cl_pcs s)" and k: "k < unat (cl_bound (cl_shared s))"
    and "hold_push k (cl_pcs s ! i)"
  shows "lock_at s k = NST_BUSY" "tally (hold_push k) (cl_pcs s) = 1" "tally (hold_pop k) (cl_pcs s) = 0"
  using cl_invD(3) [OF assms(1) k] tally_pos [OF i, of "hold_push k"] assms(4)
  by (auto simp: locks_ok_def of_bool_def split: if_splits)

lemma cl_holder_pop:
  assumes "cl_inv s" and i: "i < length (cl_pcs s)" and k: "k < unat (cl_bound (cl_shared s))"
    and "hold_pop k (cl_pcs s ! i)"
  shows "lock_at s k = NST_BUSY" "tally (hold_pop k) (cl_pcs s) = 1" "tally (hold_push k) (cl_pcs s) = 0"
  using cl_invD(3) [OF assms(1) k] tally_pos [OF i, of "hold_pop k"] assms(4)
  by (auto simp: locks_ok_def of_bool_def split: if_splits)

lemma cl_inv_push_lock:
  assumes inv: "cl_inv s" and i: "i < length (cl_pcs s)" and pc: "cl_pcs s ! i = LPush_Lock v x"
    and lk: "cl_lock (node_at (cl_shared s) x) = NST_EMPTY"
  shows "cl_inv (cl_goto i (LPush_Write v x)
    (s\<lparr>cl_shared := cl_store x ((node_at (cl_shared s) x)\<lparr>cl_lock := NST_BUSY\<rparr>) (cl_shared s)\<rparr>))"
    (is "cl_inv ?s'")
proof (rule cl_inv_slot [OF inv i, where x = x and p = "LPush_Write v x" and d = "delivered s"])
  note D = cl_invD [OF inv]
  show x: "unat x < unat (cl_bound (cl_shared s))" using D(5) [OF i] pc by simp
  note T = tally_update [OF i, of "push_at (unat x)" "LPush_Write v x"]
    tally_update [OF i, of "pop_at (unat x)" "LPush_Write v x"]
    tally_update [OF i, of "hold_push (unat x)" "LPush_Write v x"]
    tally_update [OF i, of "hold_pop (unat x)" "LPush_Write v x"]
  show "locks_ok ?s' (unat x)"
    using D(1) D(3) [OF x] T pc lk x by (simp add: locks_ok_def cl_store_def)
  show "balance_ok ?s' (unat x)"
    using D(1) D(4) [OF x] T pc lk x by (simp add: balance_ok_def cl_store_def)
  show "delivered s + slot_value s (unat x) + pending (cl_pcs s ! i) =
      delivered s + slot_value ?s' (unat x) + pending (LPush_Write v x)"
    using D(1) D(3) [OF x] T pc lk x by (simp add: slot_value_def cl_store_def locks_ok_def)
  show "cl_pc_ok (cl_shared ?s') (cl_pcs s ! j)" if "j < length (cl_pcs s)" "j \<noteq> i" for j
    using cl_others_ok [OF inv i x _ that] by simp
qed (use pc cl_invD(5) [OF inv i] in \<open>auto simp: cl_store_def\<close>)

lemma cl_inv_pop_lock:
  assumes inv: "cl_inv s" and i: "i < length (cl_pcs s)" and pc: "cl_pcs s ! i = LPop_Lock x"
    and lk: "cl_lock (node_at (cl_shared s) x) = NST_FULL"
  shows "cl_inv (cl_goto i (LPop_Read x)
    (s\<lparr>cl_shared := cl_store x ((node_at (cl_shared s) x)\<lparr>cl_lock := NST_BUSY\<rparr>) (cl_shared s)\<rparr>))"
    (is "cl_inv ?s'")
proof (rule cl_inv_slot [OF inv i, where x = x and p = "LPop_Read x" and d = "delivered s"])
  note D = cl_invD [OF inv]
  show x: "unat x < unat (cl_bound (cl_shared s))" using D(5) [OF i] pc by simp
  note T = tally_update [OF i, of "push_at (unat x)" "LPop_Read x"]
    tally_update [OF i, of "pop_at (unat x)" "LPop_Read x"]
    tally_update [OF i, of "hold_push (unat x)" "LPop_Read x"]
    tally_update [OF i, of "hold_pop (unat x)" "LPop_Read x"]
  show "locks_ok ?s' (unat x)"
    using D(1) D(3) [OF x] T pc lk x by (auto simp: locks_ok_def cl_store_def NST_PP_UNLOCK_def split: if_splits)
  show "balance_ok ?s' (unat x)"
    using D(1) D(3,4) [OF x] T pc lk x
    by (auto simp: balance_ok_def locks_ok_def cl_store_def NST_PP_UNLOCK_def split: if_splits)
  show "delivered s + slot_value s (unat x) + pending (cl_pcs s ! i) =
      delivered s + slot_value ?s' (unat x) + pending (LPop_Read x)"
    using D(1) D(3) [OF x] D(5) [OF i] T pc lk x
    by (auto simp: slot_value_def cl_store_def locks_ok_def NST_PP_UNLOCK_def split: if_splits)
  show "cl_pc_ok (cl_shared ?s') (cl_pcs s ! j)" if "j < length (cl_pcs s)" "j \<noteq> i" for j
    using cl_others_ok [OF inv i x _ that] pc by simp
qed (use pc cl_invD(1) [OF inv] cl_invD(5) [OF inv i] in \<open>auto simp: cl_store_def\<close>)

lemma cl_inv_push_write:
  assumes inv: "cl_inv s" and i: "i < length (cl_pcs s)" and pc: "cl_pcs s ! i = LPush_Write v x"
  shows "cl_inv (cl_goto i (LPush_Unlock v x)
    (s\<lparr>cl_shared := cl_store x ((node_at (cl_shared s) x)\<lparr>cl_value := v\<rparr>) (cl_shared s)\<rparr>))"
    (is "cl_inv ?s'")
proof (rule cl_inv_slot [OF inv i, where x = x and p = "LPush_Unlock v x" and d = "delivered s"])
  note D = cl_invD [OF inv]
  show x: "unat x < unat (cl_bound (cl_shared s))" using D(5) [OF i] pc by simp
  note T = tally_update [OF i, of "push_at (unat x)" "LPush_Unlock v x"]
    tally_update [OF i, of "pop_at (unat x)" "LPush_Unlock v x"]
    tally_update [OF i, of "hold_push (unat x)" "LPush_Unlock v x"]
    tally_update [OF i, of "hold_pop (unat x)" "LPush_Unlock v x"]
  note P = cl_holder_push [OF inv i x]
  show "locks_ok ?s' (unat x)"
    using D(1) D(3) [OF x] T pc P x by (auto simp: locks_ok_def cl_store_def NST_PP_UNLOCK_def split: if_splits)
  show "balance_ok ?s' (unat x)"
    using D(1) D(3,4) [OF x] T pc P x
    by (auto simp: balance_ok_def locks_ok_def cl_store_def NST_PP_UNLOCK_def split: if_splits)
  show "delivered s + slot_value s (unat x) + pending (cl_pcs s ! i) =
      delivered s + slot_value ?s' (unat x) + pending (LPush_Unlock v x)"
    using D(1) D(3) [OF x] D(5) [OF i] T pc P x
    by (auto simp: slot_value_def cl_store_def locks_ok_def NST_PP_UNLOCK_def split: if_splits)
  show "cl_pc_ok (cl_shared ?s') (cl_pcs s ! j)" if "j < length (cl_pcs s)" "j \<noteq> i" for j
    using cl_others_ok [OF inv i x _ that] pc by simp
qed (use pc cl_invD(1) [OF inv] cl_invD(5) [OF inv i] in \<open>auto simp: cl_store_def\<close>)

lemma cl_inv_push_unlock:
  assumes inv: "cl_inv s" and i: "i < length (cl_pcs s)" and pc: "cl_pcs s ! i = LPush_Unlock v x"
  shows "cl_inv (cl_goto i (LPush_Return 0)
    (s\<lparr>cl_shared := cl_store x ((node_at (cl_shared s) x)\<lparr>cl_lock := NST_PP_UNLOCK NST_PUSH\<rparr>) (cl_shared s)\<rparr>))"
    (is "cl_inv ?s'")
proof (rule cl_inv_slot [OF inv i, where x = x and p = "LPush_Return 0" and d = "delivered s"])
  note D = cl_invD [OF inv]
  show x: "unat x < unat (cl_bound (cl_shared s))" using D(5) [OF i] pc by simp
  note T = tally_update [OF i, of "push_at (unat x)" "LPush_Return 0"]
    tally_update [OF i, of "pop_at (unat x)" "LPush_Return 0"]
    tally_update [OF i, of "hold_push (unat x)" "LPush_Return 0"]
    tally_update [OF i, of "hold_pop (unat x)" "LPush_Return 0"]
  note P = cl_holder_push [OF inv i x]
  show "locks_ok ?s' (unat x)"
    using D(1) D(3) [OF x] T pc P x by (auto simp: locks_ok_def cl_store_def NST_PP_UNLOCK_def split: if_splits)
  show "balance_ok ?s' (unat x)"
    using D(1) D(3,4) [OF x] T pc P x
    by (auto simp: balance_ok_def locks_ok_def cl_store_def NST_PP_UNLOCK_def split: if_splits)
  show "delivered s + slot_value s (unat x) + pending (cl_pcs s ! i) =
      delivered s + slot_value ?s' (unat x) + pending (LPush_Return 0)"
    using D(1) D(3) [OF x] D(5) [OF i] T pc P x
    by (auto simp: slot_value_def cl_store_def locks_ok_def NST_PP_UNLOCK_def split: if_splits)
  show "cl_pc_ok (cl_shared ?s') (cl_pcs s ! j)" if "j < length (cl_pcs s)" "j \<noteq> i" for j
    using cl_others_ok [OF inv i x _ that] pc by simp
qed (use pc cl_invD(1) [OF inv] cl_invD(5) [OF inv i] in \<open>auto simp: cl_store_def\<close>)

lemma cl_inv_pop_unlock:
  assumes inv: "cl_inv s" and i: "i < length (cl_pcs s)" and pc: "cl_pcs s ! i = LPop_Unlock x v"
  shows "cl_inv (cl_goto i (LPop_Return v)
    (s\<lparr>cl_shared := cl_store x ((node_at (cl_shared s) x)\<lparr>cl_lock := NST_PP_UNLOCK NST_POP\<rparr>) (cl_shared s),
       delivered := add_mset v (delivered s)\<rparr>))"
    (is "cl_inv ?s'")
proof (rule cl_inv_slot [OF inv i, where x = x and p = "LPop_Return v" and d = "add_mset v (delivered s)"])
  note D = cl_invD [OF inv]
  show x: "unat x < unat (cl_bound (cl_shared s))" using D(5) [OF i] pc by simp
  note T = tally_update [OF i, of "push_at (unat x)" "LPop_Return v"]
    tally_update [OF i, of "pop_at (unat x)" "LPop_Return v"]
    tally_update [OF i, of "hold_push (unat x)" "LPop_Return v"]
    tally_update [OF i, of "hold_pop (unat x)" "LPop_Return v"]
  note P = cl_holder_pop [OF inv i x]
  show "locks_ok ?s' (unat x)"
    using D(1) D(3) [OF x] T pc P x by (auto simp: locks_ok_def cl_store_def NST_PP_UNLOCK_def split: if_splits)
  show "balance_ok ?s' (unat x)"
    using D(1) D(3,4) [OF x] T pc P x
    by (auto simp: balance_ok_def locks_ok_def cl_store_def NST_PP_UNLOCK_def split: if_splits)
  show "delivered s + slot_value s (unat x) + pending (cl_pcs s ! i) =
      add_mset v (delivered s) + slot_value ?s' (unat x) + pending (LPop_Return v)"
    using D(1) D(3) [OF x] D(5) [OF i] T pc P x
    by (auto simp: slot_value_def cl_store_def locks_ok_def NST_PP_UNLOCK_def split: if_splits)
  show "cl_pc_ok (cl_shared ?s') (cl_pcs s ! j)" if "j < length (cl_pcs s)" "j \<noteq> i" for j
    using cl_others_ok [OF inv i x _ that] pc by simp
qed (use pc cl_invD(1) [OF inv] cl_invD(5) [OF inv i] in \<open>auto simp: cl_store_def\<close>)

section \<open>Every step preserves the invariant\<close>

lemma cl_inv_exec:
  assumes inv: "cl_inv s" and i: "i < length (cl_pcs s)"
  shows "cl_inv (cl_exec i s)"
proof -
  have ok: "cl_pc_ok (cl_shared s) (cl_pcs s ! i)" using cl_invD(5) [OF inv i] .
  show ?thesis
  proof (cases "cl_pcs s ! i")
    case (LPush_CAS v h)
    then show ?thesis
      using cl_inv_push_cas [OF inv i LPush_CAS] cl_inv_goto [OF inv i, of "LPush_Load v"]
      by (cases "cl_head (cl_shared s) = h") (simp_all add: cl_exec_def Let_def ATOMIC_VAR_CAS_diff)
  next
    case (LPush_Lock v x)
    then show ?thesis
      using inv cl_inv_push_lock [OF inv i LPush_Lock]
      by (cases "cl_lock (node_at (cl_shared s) x) = NST_EMPTY")
        (simp_all add: cl_exec_def Let_def ATOMIC_VAR_CAS_diff)
  next
    case (LPush_Write v x)
    then show ?thesis using cl_inv_push_write [OF inv i] by (simp add: cl_exec_def Let_def)
  next
    case (LPush_Unlock v x)
    then show ?thesis using cl_inv_push_unlock [OF inv i] by (simp add: cl_exec_def Let_def)
  next
    case (LPop_CAS h)
    then show ?thesis
      using cl_inv_pop_cas [OF inv i LPop_CAS] cl_inv_goto [OF inv i, of LPop_Load]
      by (cases "cl_head (cl_shared s) = h") (simp_all add: cl_exec_def Let_def ATOMIC_VAR_CAS_diff)
  next
    case (LPop_Lock x)
    then show ?thesis
      using inv cl_inv_pop_lock [OF inv i LPop_Lock]
      by (cases "cl_lock (node_at (cl_shared s) x) = NST_FULL")
        (simp_all add: cl_exec_def Let_def ATOMIC_VAR_CAS_diff)
  next
    case (LPop_Unlock x v)
    then show ?thesis using cl_inv_pop_unlock [OF inv i] by (simp add: cl_exec_def Let_def)
  qed (use inv ok in \<open>auto simp: cl_exec_def Let_def intro!: cl_inv_goto [OF inv i]\<close>)
qed

lemma cl_inv_step: "cl_step s t \<Longrightarrow> cl_inv s \<Longrightarrow> cl_inv t"
  by (auto elim!: cl_step.cases intro: cl_inv_exec cl_inv_goto)

lemma cl_inv_init:
  assumes "clifo_inv l" and "cl_head l = 0"
  shows "cl_inv (cl_init l n)"
proof -
  have z: "tally P (replicate n CL_Idle) = 0" if "\<not> P CL_Idle" for P
    using that by (simp add: tally_zero)
  have "sum_list (map pending (replicate n CL_Idle)) = {#}" by (induction n) simp_all
  moreover have "slot_value (cl_init l n) k = {#}" if "k < unat (cl_bound l)" for k
    using that assms z by (simp add: slot_value_def cl_init_def clifo_inv_def)
  ultimately show ?thesis
    using assms z by (auto simp: cl_inv_def cl_init_def clifo_inv_def locks_ok_def balance_ok_def)
qed

lemma cl_inv_reachable:
  assumes "cl_reachable l n s" and "clifo_inv l" and "cl_head l = 0"
  shows "cl_inv s"
  using assms by (induction rule: cl_reachable.induct) (auto intro: cl_inv_init cl_inv_step)

lemma cl_bound_reachable: "cl_reachable l n s \<Longrightarrow> cl_bound (cl_shared s) = cl_bound l"
proof (induction rule: cl_reachable.induct)
  case (step s t)
  from step.hyps(2) have "cl_bound (cl_shared t) = cl_bound (cl_shared s)"
    by (auto elim!: cl_step.cases simp: cl_exec_def cl_store_def Let_def ATOMIC_VAR_CAS_def split: cl_pc.splits)
  then show ?case using step.IH by simp
qed (simp add: cl_init_def)

text \<open>When no thread has reserved a slot, the stack is as the sequential functions leave it.\<close>

lemma cl_quiescent:
  assumes inv: "cl_inv s" and idle: "\<forall>p \<in> set (cl_pcs s). \<forall>k. \<not> push_at k p \<and> \<not> pop_at k p"
  shows "clifo_inv (cl_shared s) \<and> accepted s = delivered s + mset (clifo_contents (cl_shared s))"
proof -
  let ?l = "cl_shared s" and ?n = "unat (cl_bound (cl_shared s))"
  note D = cl_invD [OF inv]
  have holds: "hold_push k p \<Longrightarrow> push_at k p" "hold_pop k p \<Longrightarrow> pop_at k p" for k p
    by (cases p; simp)+
  have none: "tally (push_at k) (cl_pcs s) = 0" "tally (pop_at k) (cl_pcs s) = 0"
    "tally (hold_push k) (cl_pcs s) = 0" "tally (hold_pop k) (cl_pcs s) = 0" for k
    using idle holds unfolding tally_zero by blast+
  have lock: "lock_at s k = (if k < unat (cl_head ?l) then NST_FULL else NST_EMPTY)" if "k < ?n" for k
    using D(3,4) [OF that] none by (cases "lock_at s k") (auto simp: locks_ok_def balance_ok_def of_bool_def split: if_splits)
  then have i: "clifo_inv ?l" using D(1,2) by (simp add: clifo_inv_def)
  have "pending p = {#}" if "p \<in> set (cl_pcs s)" for p
    using idle that by (cases p) auto
  then have pend: "sum_list (map pending (cl_pcs s)) = {#}"
    by (simp cong: map_cong)
  have "(\<Sum>k < ?n. slot_value s k) = (\<Sum>k < unat (cl_head ?l). {#cl_value (cl_buffer ?l ! k)#})"
    using D(2) lock none(4) by (intro sum.mono_neutral_cong_right) (auto simp: slot_value_def)
  also have "\<dots> = mset (map cl_value (take (unat (cl_head ?l)) (cl_buffer ?l)))"
  proof -
    have "(\<Sum>k < m. {#cl_value (cl_buffer ?l ! k)#}) = mset (map cl_value (take m (cl_buffer ?l)))"
      if "m \<le> length (cl_buffer ?l)" for m
      using that by (induction m) (simp_all add: take_Suc_conv_app_nth)
    then show ?thesis using D(1,2) by simp
  qed
  finally show ?thesis using i D(6) pend by (simp add: clifo_contents_def)
qed

text \<open>A thread can move when its next access is not a lock in the wrong state.\<close>

fun cl_blocked :: "clifo \<Rightarrow> cl_pc \<Rightarrow> bool" where
  "cl_blocked l (LPush_Lock v x) \<longleftrightarrow> cl_lock (node_at l x) \<noteq> NST_EMPTY"
| "cl_blocked l (LPop_Lock x) \<longleftrightarrow> cl_lock (node_at l x) \<noteq> NST_FULL"
| "cl_blocked l _ \<longleftrightarrow> False"

lemma cl_not_stuck:
  assumes inv: "cl_inv s" and i: "i < length (cl_pcs s)" and k: "k < unat (cl_bound (cl_shared s))"
    and at: "push_at k (cl_pcs s ! i) \<or> pop_at k (cl_pcs s ! i)"
  shows "\<exists>j < length (cl_pcs s). (push_at k (cl_pcs s ! j) \<or> pop_at k (cl_pcs s ! j)) \<and>
    \<not> cl_blocked (cl_shared s) (cl_pcs s ! j)"
proof -
  let ?l = "cl_shared s"
  note L = cl_invD(3) [OF inv k, unfolded locks_ok_def] and B = cl_invD(4) [OF inv k, unfolded balance_ok_def]
  have holds: "(push_at k p \<or> pop_at k p) \<and> \<not> cl_blocked ?l p" if "hold_push k p \<or> hold_pop k p" for p
    using that by (cases p) auto
  have free: "\<not> cl_blocked ?l p" if "push_at k p" "lock_at s k = NST_EMPTY" for p
    using that by (cases p) auto
  have filled: "\<not> cl_blocked ?l p" if "pop_at k p" "lock_at s k = NST_FULL" for p
    using that by (cases p) auto
  have one: "0 < tally (push_at k) (cl_pcs s) \<or> 0 < tally (pop_at k) (cl_pcs s)"
    using at tally_pos [OF i, of "push_at k"] tally_pos [OF i, of "pop_at k"] by metis
  show ?thesis
  proof (cases "lock_at s k")
    case NST_EMPTY
    then have "0 < tally (push_at k) (cl_pcs s)" using one L B by auto
    then show ?thesis using tally_ex free NST_EMPTY by metis
  next
    case NST_BUSY
    then have "0 < tally (hold_push k) (cl_pcs s) \<or> 0 < tally (hold_pop k) (cl_pcs s)"
      using L by auto
    then show ?thesis using tally_ex holds by metis
  next
    case NST_FULL
    then have "0 < tally (pop_at k) (cl_pcs s)" using one L B by (auto simp: of_bool_def split: if_splits)
    then show ?thesis using tally_ex filled NST_FULL by metis
  qed
qed

section \<open>Properties\<close>

text \<open>C18: under every interleaving of the atomic accesses of any number of threads, the stack
  neither loses, duplicates nor invents a value: the values of the pushes that were granted a slot
  are those already returned by pops, those held in slots, and those of the pushes still on their
  way to their slot. In particular, when no operation is under way, the slots below
  \<^verbatim>\<open>head\<close> are full, the others are empty, and the stored values are exactly the accepted
  values not yet delivered.\<close>

theorem clifo_conserves_values:
  assumes "clifo_alloc True junk sz = Some l" and "0 < sz" and "cl_reachable l n s"
  shows "accepted s = delivered s + (\<Sum>k < unat sz. slot_value s k) + sum_list (map pending (cl_pcs s))
    \<and> ((\<forall>p \<in> set (cl_pcs s). \<forall>k. \<not> push_at k p \<and> \<not> pop_at k p) \<longrightarrow>
        clifo_inv (cl_shared s) \<and> accepted s = delivered s + mset (clifo_contents (cl_shared s)))"
proof -
  have l: "clifo_inv l" "cl_head l = 0" "cl_bound l = sz"
    using assms(1) clifo_alloc_inv [OF assms(2), of junk] by (auto simp: clifo_alloc_def)
  have inv: "cl_inv s" by (rule cl_inv_reachable [OF assms(3) l(1,2)])
  have b: "cl_bound (cl_shared s) = sz" using cl_bound_reachable [OF assms(3)] l(3) by simp
  have "clifo_inv (cl_shared s) \<and> accepted s = delivered s + mset (clifo_contents (cl_shared s))"
    if "\<forall>p \<in> set (cl_pcs s). \<forall>k. \<not> push_at k p \<and> \<not> pop_at k p"
    using cl_quiescent [OF inv that] by blast
  then show ?thesis using cl_invD(6) [OF inv] b by simp
qed

text \<open>C19: the spin locks of the slots never deadlock and exclude each other: under every
  interleaving, at most one thread is between the lock and the unlock of a slot, and whenever some
  thread has reserved a slot, one of the threads that have reserved that slot is able to take its
  next step.\<close>

theorem clifo_slot_progress:
  assumes "clifo_alloc True junk sz = Some l" and "0 < sz" and "cl_reachable l n s" and "k < unat sz"
  shows "tally (hold_push k) (cl_pcs s) + tally (hold_pop k) (cl_pcs s) \<le> 1
    \<and> (\<forall>i < length (cl_pcs s). push_at k (cl_pcs s ! i) \<or> pop_at k (cl_pcs s ! i) \<longrightarrow>
        (\<exists>j < length (cl_pcs s). (push_at k (cl_pcs s ! j) \<or> pop_at k (cl_pcs s ! j)) \<and>
          \<not> cl_blocked (cl_shared s) (cl_pcs s ! j)))"
proof -
  have l: "clifo_inv l" "cl_head l = 0" "cl_bound l = sz"
    using assms(1) clifo_alloc_inv [OF assms(2), of junk] by (auto simp: clifo_alloc_def)
  have inv: "cl_inv s" by (rule cl_inv_reachable [OF assms(3) l(1,2)])
  have k: "k < unat (cl_bound (cl_shared s))"
    using cl_bound_reachable [OF assms(3)] l(3) assms(4) by simp
  show ?thesis
    using cl_invD(3) [OF inv k] cl_not_stuck [OF inv _ k] by (auto simp: locks_ok_def)
qed

theorem clifo_conserves_values_witness:
  "\<exists>l s. clifo_alloc True (\<lambda>_. 9) 3 = Some l \<and> cl_reachable l 2 s \<and> accepted s = {#5#} \<and>
     clifo_contents (cl_shared s) = [5] \<and> accepted s = delivered s + mset (clifo_contents (cl_shared s))"
proof -
  define l where "l = \<lparr>cl_head = 0, cl_bound = 3, cl_buffer = replicate 3 \<lparr>cl_value = 9, cl_lock = NST_EMPTY\<rparr>\<rparr>"
  have l: "clifo_alloc True (\<lambda>_. 9) 3 = Some l" by (simp add: clifo_alloc_def l_def upt_rec)
  define s where "s = (cl_exec 0 ^^ 5) (cl_goto 0 (LPush_Load 5) (cl_init l 2))"
  have iter: "cl_reachable l 2 t \<Longrightarrow> length (cl_pcs t) = 2 \<Longrightarrow> cl_reachable l 2 ((cl_exec 0 ^^ m) t)" for m t
  proof (induction m arbitrary: t)
    case (Suc m)
    have "length (cl_pcs (cl_exec 0 t)) = 2"
      using Suc.prems(2) by (auto simp: cl_exec_def Let_def ATOMIC_VAR_CAS_def split: cl_pc.splits)
    then show ?case
      using Suc.IH [of "cl_exec 0 t"] Suc.prems by (simp add: funpow_swap1 cl_reachable.step cl_step.exec)
  qed simp
  have "cl_reachable l 2 (cl_goto 0 (LPush_Load 5) (cl_init l 2))"
    by (rule cl_reachable.step [OF cl_reachable.init cl_step.call_push]) (simp_all add: cl_init_def)
  then have r: "cl_reachable l 2 s"
    unfolding s_def by (rule iter) (simp add: cl_init_def)
  have s: "accepted s = {#5#}" "delivered s = {#}" "clifo_contents (cl_shared s) = [5]"
    "cl_pcs s = [LPush_Return 0, CL_Idle]"
    by (simp_all add: s_def l_def cl_init_def cl_exec_def cl_store_def Let_def ATOMIC_VAR_CAS_def
        NST_PP_UNLOCK_def clifo_contents_def eval_nat_numeral)
  show ?thesis
    using l r s clifo_conserves_values [OF l _ r] by auto
qed

theorem clifo_slot_progress_witness:
  "\<exists>l s. clifo_alloc True (\<lambda>_. 9) 3 = Some l \<and> cl_reachable l 2 s \<and>
     tally (hold_push 1) (cl_pcs s) + tally (hold_pop 1) (cl_pcs s) \<le> 1"
proof -
  obtain l where l: "clifo_alloc True (\<lambda>_. 9) 3 = Some l" by (auto simp: clifo_alloc_def)
  show ?thesis
    using l cl_reachable.init [of l 2] clifo_slot_progress [OF l _ cl_reachable.init, of 1 2] by auto
qed

end
