(* ===== verification/Cmpool.thy ===== *)
theory Cmpool
  imports Atomic_Var
begin

text \<open>
  Model of \<^verbatim>\<open>src/src/manager/cmpool.c\<close>: a pool of equal blocks inside a region of memory the
  caller provides. The region starts with a header, then an index with one entry per block, then
  the blocks. The file does not compile as it stands (a declaration inside a condition, and the
  names \<^verbatim>\<open>blockbase\<close>, \<^verbatim>\<open>max_id\<close> and \<^verbatim>\<open>ATOMIC_CAS\<close> that are not declared); the
  model reads them as \<^verbatim>\<open>head->blockbase\<close>, \<^verbatim>\<open>max_idx\<close> and \<^verbatim>\<open>ATOMIC_VAR_CAS\<close>.

  Functions run without interference. The header and the index are one record; the addresses of
  the blocks are machine words.
\<close>

section \<open>Data\<close>

datatype mp_state = MP_EMPTY | MP_USED \<comment> \<open>\<^verbatim>\<open>NST_EMPTY\<close>, \<^verbatim>\<open>NST_USED\<close>\<close>

record cmpool_node =
  mp_offset :: uint64_t
  mp_nstate :: mp_state
  mp_refcount :: int

record cmpool_head =
  mp_magic :: uint32_t
  mp_blksz :: size_t
  mp_latestidx :: int
  mp_blockbase :: uint64_t
  mp_blknum :: size_t
  mp_index :: "cmpool_node list"

record cmpool =
  mp_mbase :: addr
  mp_msize :: size_t
  mp_head :: cmpool_head

definition CMPOOL_MAGIC :: uint32_t where
  "CMPOOL_MAGIC = push_bit 24 109 OR push_bit 16 112 OR push_bit 8 108 OR 0"

text \<open>\<^verbatim>\<open>sizeof(cmpool_head_s)\<close> and \<^verbatim>\<open>sizeof(cmpool_node_s)\<close> on a 64-bit target.\<close>

definition sizeof_head :: size_t where "sizeof_head = 40"
definition sizeof_node :: size_t where "sizeof_node = 16"

section \<open>Operations\<close>

text \<open>\<open>old\<close> is what the region holds before the call. A write of an index entry outside the
  region is out of bounds.\<close>

definition cmpool_init :: "addr \<Rightarrow> cmpool_head \<Rightarrow> size_t \<Rightarrow> size_t \<Rightarrow> cmpool prog" where
  "cmpool_init mbase old msize blksz =
     (if mp_magic old \<noteq> CMPOOL_MAGIC then
        if blksz + sizeof_node = 0 then fail Undefined_Behaviour
        else let blknum = (msize - sizeof_head) div (blksz + sizeof_node);
                 blockbase = sizeof_head + blknum * sizeof_node;
                 index = map (\<lambda>i. \<lparr>mp_offset = blockbase + of_nat i * blksz, mp_nstate = MP_EMPTY, mp_refcount = 0\<rparr>)
                           [0 ..< unat blknum]
             in if unat msize < unat sizeof_head + unat blknum * unat sizeof_node then fail Out_Of_Bounds
                else ret \<lparr>mp_mbase = mbase, mp_msize = msize, mp_head =
                       \<lparr>mp_magic = snd (ATOMIC_VAR_CAS (mp_magic old) (mp_magic old) CMPOOL_MAGIC), mp_blksz = blksz,
                        mp_latestidx = 0, mp_blockbase = blockbase, mp_blknum = blknum, mp_index = index\<rparr>\<rparr>
      else ret \<lparr>mp_mbase = mbase, mp_msize = msize, mp_head = old\<rparr>)"

definition mp_max_idx :: "cmpool_head \<Rightarrow> int" where
  "mp_max_idx h = as_int (ucast (mp_blknum h))"

text \<open>The compare-and-swap of a node's state, for an index in range.\<close>

definition mp_cas_state :: "cmpool_head \<Rightarrow> int \<Rightarrow> mp_state \<Rightarrow> mp_state \<Rightarrow> bool \<times> cmpool_head" where
  "mp_cas_state h idx old new =
     (let nd = mp_index h ! nat idx
      in case ATOMIC_VAR_CAS (mp_nstate nd) old new of (ok, st) \<Rightarrow>
           (ok, h\<lparr>mp_index := (mp_index h)[nat idx := nd\<lparr>mp_nstate := st\<rparr>]\<rparr>))"

text \<open>The scan of \<^verbatim>\<open>regbufidx\<close> from \<open>idx\<close> on; \<open>n\<close> entries are left.\<close>

fun regbufidx_scan :: "nat \<Rightarrow> int \<Rightarrow> cmpool_head \<Rightarrow> int \<times> cmpool_head" where
  "regbufidx_scan 0 idx h = (- 1, h)"
| "regbufidx_scan (Suc n) idx h =
     (case mp_cas_state h idx MP_EMPTY MP_USED of (ok, h') \<Rightarrow>
        if ok then (idx, h'\<lparr>mp_latestidx := idx\<rparr>) else regbufidx_scan n (idx + 1) h')"

definition regbufidx :: "cmpool_head \<Rightarrow> int \<times> cmpool_head" where
  "regbufidx h =
     (let idx = mp_latestidx h + 1; max_idx = mp_max_idx h;
          (ok, h') = (if idx < max_idx then mp_cas_state h idx MP_EMPTY MP_USED else (False, h))
      in if ok then (idx, h'\<lparr>mp_latestidx := idx\<rparr>)
         else regbufidx_scan (nat max_idx) 0 h')"

definition unregbufidx :: "cmpool_head \<Rightarrow> int \<Rightarrow> cmpool_head" where
  "unregbufidx h idx =
     (if idx \<ge> 0 \<and> idx < mp_max_idx h then snd (mp_cas_state h idx MP_USED MP_EMPTY) else h)"

definition getbufaddr :: "addr \<Rightarrow> cmpool_head \<Rightarrow> int \<Rightarrow> addr" where
  "getbufaddr pbuf h idx =
     (if idx \<ge> 0 \<and> idx < mp_max_idx h then pbuf + mp_offset (mp_index h ! nat idx) else NULL)"

definition getbufidx :: "addr \<Rightarrow> cmpool_head \<Rightarrow> addr \<Rightarrow> int" where
  "getbufidx pbuf h ptr = as_int (ucast ((ptr - pbuf - mp_blockbase h) div mp_blksz h))"

definition cmpool_alloc :: "cmpool \<Rightarrow> addr \<times> cmpool" where
  "cmpool_alloc p =
     (case regbufidx (mp_head p) of (idx, h) \<Rightarrow> (getbufaddr (mp_mbase p) h idx, p\<lparr>mp_head := h\<rparr>))"

definition cmpool_free :: "cmpool \<Rightarrow> addr \<Rightarrow> cmpool prog" where
  "cmpool_free p ptr =
     (if mp_blksz (mp_head p) = 0 then fail Undefined_Behaviour
      else ret (p\<lparr>mp_head := unregbufidx (mp_head p) (getbufidx (mp_mbase p) (mp_head p) ptr)\<rparr>))"

section \<open>Invariant\<close>

text \<open>The pool has room for its index and its blocks, does not wrap around the address space, and
  has fewer than \<open>2 ^ 31\<close> blocks, which are the largest indices the \<^verbatim>\<open>int\<close> variables hold.\<close>

definition cmpool_inv :: "cmpool \<Rightarrow> bool" where
  "cmpool_inv p \<longleftrightarrow>
     (let h = mp_head p; n = unat (mp_blknum h); b = unat (mp_blksz h) in
      0 < b \<and> n < 2 ^ 31 \<and> length (mp_index h) = n \<and>
      - 1 \<le> mp_latestidx h \<and> mp_latestidx h < 2 ^ 31 \<and>
      unat (mp_blockbase h) = 40 + n * 16 \<and> 40 + n * 16 + n * b \<le> unat (mp_msize p) \<and>
      0 < unat (mp_mbase p) \<and> unat (mp_mbase p) + unat (mp_msize p) < 2 ^ 64 \<and>
      (\<forall>i < n. unat (mp_offset (mp_index h ! i)) = 40 + n * 16 + i * b))"

definition block_addr :: "cmpool \<Rightarrow> nat \<Rightarrow> nat" where
  "block_addr p i = unat (mp_mbase p) + 40 + unat (mp_blknum (mp_head p)) * 16 + i * unat (mp_blksz (mp_head p))"

definition used_blocks :: "cmpool \<Rightarrow> nat set" where
  "used_blocks p = {i. i < length (mp_index (mp_head p)) \<and> mp_nstate (mp_index (mp_head p) ! i) = MP_USED}"

lemma mp_max_idx_eq: "cmpool_inv p \<Longrightarrow> mp_max_idx (mp_head p) = int (unat (mp_blknum (mp_head p)))"
  by (simp add: mp_max_idx_def cmpool_inv_def Let_def as_int_ucast_small)

lemma cmpool_invD:
  assumes "cmpool_inv p"
  shows "0 < unat (mp_blksz (mp_head p))" and "length (mp_index (mp_head p)) = unat (mp_blknum (mp_head p))"
    and "mp_latestidx (mp_head p) \<ge> - 1"
    and "\<And>i. i < length (mp_index (mp_head p)) \<Longrightarrow> unat (mp_mbase p + mp_offset (mp_index (mp_head p) ! i)) = block_addr p i"
    and "\<And>i. i < length (mp_index (mp_head p)) \<Longrightarrow> block_addr p i + unat (mp_blksz (mp_head p)) \<le> unat (mp_mbase p) + unat (mp_msize p)"
proof -
  let ?h = "mp_head p"
  let ?n = "unat (mp_blknum ?h)" and ?b = "unat (mp_blksz ?h)"
  show "0 < ?b" "length (mp_index ?h) = ?n" "mp_latestidx ?h \<ge> - 1"
    using assms by (simp_all add: cmpool_inv_def Let_def)
  fix i assume i: "i < length (mp_index ?h)"
  then have "Suc i * ?b \<le> ?n * ?b" using assms by (intro mult_le_mono1) (simp add: cmpool_inv_def Let_def)
  then show le: "block_addr p i + ?b \<le> unat (mp_mbase p) + unat (mp_msize p)"
    using assms by (simp add: cmpool_inv_def Let_def block_addr_def)
  have off: "unat (mp_offset (mp_index ?h ! i)) = 40 + ?n * 16 + i * ?b"
    using assms i by (simp add: cmpool_inv_def Let_def)
  have "unat (mp_mbase p) + unat (mp_offset (mp_index ?h ! i)) < 2 ^ 64"
    using le off assms by (simp add: cmpool_inv_def Let_def block_addr_def)
  then have "unat (mp_mbase p + mp_offset (mp_index ?h ! i)) = unat (mp_mbase p) + unat (mp_offset (mp_index ?h ! i))"
    by (simp add: unat_word_ariths)
  then show "unat (mp_mbase p + mp_offset (mp_index ?h ! i)) = block_addr p i"
    using off by (simp add: block_addr_def)
qed

text \<open>Changing the state of a block, or the index tried next, keeps the layout.\<close>

lemma cmpool_inv_update:
  assumes "cmpool_inv p" and "- 1 \<le> l" and "l < 2 ^ 31" and "i < length (mp_index (mp_head p))"
  shows "cmpool_inv (p\<lparr>mp_head := (mp_head p)\<lparr>mp_index := (mp_index (mp_head p))[i := (mp_index (mp_head p) ! i)\<lparr>mp_nstate := st\<rparr>],
    mp_latestidx := l\<rparr>\<rparr>)"
  using assms by (auto simp: cmpool_inv_def Let_def nth_list_update)

lemma mp_cas_state_eq:
  "i < length (mp_index h) \<Longrightarrow> mp_cas_state h (int i) old new =
    (if mp_nstate (mp_index h ! i) = old
     then (True, h\<lparr>mp_index := (mp_index h)[i := (mp_index h ! i)\<lparr>mp_nstate := new\<rparr>]\<rparr>) else (False, h))"
  by (simp add: mp_cas_state_def ATOMIC_VAR_CAS_def Let_def)

lemma regbufidx_scan_spec:
  assumes "i + n = length (mp_index h)"
  shows "(\<exists>j. i \<le> j \<and> j < length (mp_index h) \<and> mp_nstate (mp_index h ! j) = MP_EMPTY \<and>
      regbufidx_scan n (int i) h =
        (int j, h\<lparr>mp_index := (mp_index h)[j := (mp_index h ! j)\<lparr>mp_nstate := MP_USED\<rparr>], mp_latestidx := int j\<rparr>))
    \<or> (\<forall>j. i \<le> j \<and> j < length (mp_index h) \<longrightarrow> mp_nstate (mp_index h ! j) \<noteq> MP_EMPTY) \<and>
      regbufidx_scan n (int i) h = (- 1, h)"
  using assms
proof (induction n arbitrary: i)
  case 0
  then show ?case by auto
next
  case (Suc n)
  then have i: "i < length (mp_index h)" by simp
  show ?case
  proof (cases "mp_nstate (mp_index h ! i) = MP_EMPTY")
    case True
    then show ?thesis using i by (auto simp: mp_cas_state_eq)
  next
    case False
    have step: "regbufidx_scan (Suc n) (int i) h = regbufidx_scan n (int (Suc i)) h"
      using False i by (simp add: mp_cas_state_eq add.commute)
    have later: "i \<le> j \<and> mp_nstate (mp_index h ! j) = MP_EMPTY \<longleftrightarrow> Suc i \<le> j \<and> mp_nstate (mp_index h ! j) = MP_EMPTY" for j
      using False by (metis Suc_leD le_antisym not_less_eq_eq)
    show ?thesis
      unfolding step using Suc.IH [of "Suc i"] Suc.prems later by (metis Suc_leD add_Suc_shift)
  qed
qed

lemma regbufidx_spec:
  assumes inv: "cmpool_inv p" and h: "h = mp_head p"
  shows "(\<exists>j < length (mp_index h). mp_nstate (mp_index h ! j) = MP_EMPTY \<and>
      regbufidx h = (int j, h\<lparr>mp_index := (mp_index h)[j := (mp_index h ! j)\<lparr>mp_nstate := MP_USED\<rparr>], mp_latestidx := int j\<rparr>))
    \<or> (\<forall>j < length (mp_index h). mp_nstate (mp_index h ! j) \<noteq> MP_EMPTY) \<and> regbufidx h = (- 1, h)"
proof -
  have max: "mp_max_idx h = int (length (mp_index h))" and l: "- 1 \<le> mp_latestidx h"
    using mp_max_idx_eq [OF inv] cmpool_invD(2,3) [OF inv] h by simp_all
  define i where "i = nat (mp_latestidx h + 1)"
  have i: "mp_latestidx h + 1 = int i" using l by (simp add: i_def)
  have scan: "regbufidx_scan (nat (int (length (mp_index h)))) 0 h = regbufidx_scan (length (mp_index h)) (int 0) h" by simp
  show ?thesis
  proof (cases "i < length (mp_index h) \<and> mp_nstate (mp_index h ! i) = MP_EMPTY")
    case True
    then have "regbufidx h = (int i, h\<lparr>mp_index := (mp_index h)[i := (mp_index h ! i)\<lparr>mp_nstate := MP_USED\<rparr>], mp_latestidx := int i\<rparr>)"
      by (simp add: regbufidx_def max i mp_cas_state_eq Let_def)
    with True show ?thesis by auto
  next
    case False
    then have "regbufidx h = regbufidx_scan (length (mp_index h)) (int 0) h"
      by (auto simp: regbufidx_def max i mp_cas_state_eq Let_def)
    then show ?thesis
      using regbufidx_scan_spec [of 0 "length (mp_index h)" h] by auto
  qed
qed

lemma getbufidx_block:
  assumes inv: "cmpool_inv p" and i: "i < length (mp_index (mp_head p))" and a: "unat a = block_addr p i"
  shows "getbufidx (mp_mbase p) (mp_head p) a = int i"
proof -
  let ?h = "mp_head p"
  have b: "0 < unat (mp_blksz ?h)" and bb: "unat (mp_blockbase ?h) = 40 + unat (mp_blknum ?h) * 16"
    and n: "unat (mp_blknum ?h) < 2 ^ 31" "length (mp_index ?h) = unat (mp_blknum ?h)"
    using inv by (simp_all add: cmpool_inv_def Let_def)
  have "mp_mbase p \<le> a" by (simp add: word_le_nat_alt a block_addr_def)
  then have 1: "unat (a - mp_mbase p) = 40 + unat (mp_blknum ?h) * 16 + i * unat (mp_blksz ?h)"
    by (simp add: unat_sub a block_addr_def)
  then have "mp_blockbase ?h \<le> a - mp_mbase p" by (simp add: word_le_nat_alt bb)
  then have "unat (a - mp_mbase p - mp_blockbase ?h) = i * unat (mp_blksz ?h)"
    by (simp add: unat_sub 1 bb)
  then have "unat ((a - mp_mbase p - mp_blockbase ?h) div mp_blksz ?h) = i"
    using b by (simp add: unat_div)
  moreover have "i < 2 ^ 31" using i n by simp
  ultimately show ?thesis by (simp add: getbufidx_def as_int_ucast_small)
qed

section \<open>Properties\<close>

text \<open>On a fresh region of at least the header's size, \<^verbatim>\<open>cmpool_init\<close> lays out
  \<open>(msize - 40) / (blksz + 16)\<close> blocks, all free, after the header and the index; index and
  blocks lie inside the region.\<close>

lemma cmpool_init_correct:
  assumes "mp_magic old \<noteq> CMPOOL_MAGIC" and "0 < blksz" and "unat blksz + 16 < 2 ^ 64" and "40 \<le> unat msize"
    and "(unat msize - 40) div (unat blksz + 16) < 2 ^ 31" and "0 < mbase" and "unat mbase + unat msize < 2 ^ 64"
  shows "\<exists>p. cmpool_init mbase old msize blksz = ret p \<and> cmpool_inv p \<and> used_blocks p = {} \<and>
    length (mp_index (mp_head p)) = (unat msize - 40) div (unat blksz + 16)"
proof -
  let ?n = "(unat msize - 40) div (unat blksz + 16)"
  let ?w = "(msize - sizeof_head) div (blksz + sizeof_node)"
  have bs: "unat (blksz + sizeof_node) = unat blksz + 16"
    using assms(3) by (simp add: unat_word_ariths sizeof_node_def)
  have ms: "unat (msize - sizeof_head) = unat msize - 40"
    using assms(4) by (simp add: unat_sub word_le_nat_alt sizeof_head_def)
  have w: "unat ?w = ?n" by (simp add: unat_div bs ms)
  have nz: "blksz + sizeof_node \<noteq> 0" using bs by (metis add_is_0 unat_0 zero_neq_numeral)
  have "?n * (unat blksz + 16) \<le> unat msize - 40" by (rule div_times_less_eq_dividend)
  then have fit: "40 + ?n * 16 + ?n * unat blksz \<le> unat msize"
    using assms(4) by (simp add: algebra_simps)
  have m64: "unat msize < 2 ^ 64" using unat_bound [of msize] by simp
  have bb: "unat (sizeof_head + ?w * sizeof_node) = 40 + ?n * 16"
    using fit m64 w by (simp add: unat_word_ariths sizeof_head_def sizeof_node_def)
  have off: "unat (sizeof_head + ?w * sizeof_node + of_nat i * blksz) = 40 + ?n * 16 + i * unat blksz" if "i < ?n" for i
  proof -
    have le: "i * unat blksz \<le> ?n * unat blksz" using that by simp
    have "i < 2 ^ 64" using that assms(5) by simp
    moreover have "i * unat blksz < 2 ^ 64" "40 + ?n * 16 + i * unat blksz < 2 ^ 64"
      using le fit m64 by linarith+
    ultimately have "unat (of_nat i * blksz) = i * unat blksz"
      by (simp add: unat_word_ariths unat_of_nat_small)
    then show ?thesis using bb \<open>40 + ?n * 16 + i * unat blksz < 2 ^ 64\<close> by (subst unat_word_ariths) simp
  qed
  show ?thesis
    using assms(1,2,5,6,7) nz fit bb off w
    by (auto simp: cmpool_init_def Let_def cmpool_inv_def used_blocks_def sizeof_head_def [THEN arg_cong [of _ _ unat]]
        sizeof_node_def [THEN arg_cong [of _ _ unat]] unat_gt_0 word_gt_0)
qed

text \<open>C31: \<^verbatim>\<open>cmpool_alloc\<close> returns NULL exactly when every block is in use; otherwise it
  returns the start of a block that was free and is in use afterwards, and the states of the other
  blocks do not change. Blocks do not overlap and lie inside the region.\<close>

theorem cmpool_alloc_correct:
  assumes "cmpool_inv p" and "cmpool_alloc p = (a, p')"
  shows "cmpool_inv p'
    \<and> (a = NULL \<longleftrightarrow> used_blocks p = {..<length (mp_index (mp_head p))})
    \<and> (a = NULL \<longrightarrow> p' = p)
    \<and> (a \<noteq> NULL \<longrightarrow> (\<exists>i < length (mp_index (mp_head p)). i \<notin> used_blocks p \<and> unat a = block_addr p i \<and>
        used_blocks p' = insert i (used_blocks p)))
    \<and> (\<forall>i j. i < j \<and> j < length (mp_index (mp_head p)) \<longrightarrow>
        block_addr p i + unat (mp_blksz (mp_head p)) \<le> block_addr p j \<and>
        block_addr p j + unat (mp_blksz (mp_head p)) \<le> unat (mp_mbase p) + unat (mp_msize p))"
proof -
  let ?h = "mp_head p"
  note D = cmpool_invD [OF assms(1)]
  have max: "mp_max_idx ?h = int (length (mp_index ?h))" using mp_max_idx_eq [OF assms(1)] D(2) by simp
  have apart: "block_addr p i + unat (mp_blksz ?h) \<le> block_addr p j" if "i < j" for i j
  proof -
    have "Suc i * unat (mp_blksz ?h) \<le> j * unat (mp_blksz ?h)" using that by (intro mult_le_mono1) simp
    then show ?thesis by (simp add: block_addr_def)
  qed
  have layout: "\<forall>i j. i < j \<and> j < length (mp_index ?h) \<longrightarrow>
      block_addr p i + unat (mp_blksz ?h) \<le> block_addr p j \<and>
      block_addr p j + unat (mp_blksz ?h) \<le> unat (mp_mbase p) + unat (mp_msize p)"
    using apart D(5) by simp
  from regbufidx_spec [OF assms(1) refl] consider
    (got) j where "j < length (mp_index ?h)" "mp_nstate (mp_index ?h ! j) = MP_EMPTY"
      "regbufidx ?h = (int j, ?h\<lparr>mp_index := (mp_index ?h)[j := (mp_index ?h ! j)\<lparr>mp_nstate := MP_USED\<rparr>], mp_latestidx := int j\<rparr>)"
    | (full) "\<forall>j < length (mp_index ?h). mp_nstate (mp_index ?h ! j) \<noteq> MP_EMPTY" "regbufidx ?h = (- 1, ?h)"
    by blast
  then show ?thesis
  proof cases
    case got
    let ?h' = "?h\<lparr>mp_index := (mp_index ?h)[j := (mp_index ?h ! j)\<lparr>mp_nstate := MP_USED\<rparr>], mp_latestidx := int j\<rparr>"
    have "mp_max_idx ?h' = int (length (mp_index ?h))" using max by (simp add: mp_max_idx_def)
    then have a: "a = mp_mbase p + mp_offset (mp_index ?h ! j)" and p': "p' = p\<lparr>mp_head := ?h'\<rparr>"
      using assms(2) got by (auto simp: cmpool_alloc_def getbufaddr_def)
    have ua: "unat a = block_addr p j" using D(4) [OF got(1)] a by simp
    then have nz: "a \<noteq> NULL" by (auto simp: block_addr_def)
    have jn: "int j < 2 ^ 31" using got(1) D(2) assms(1) by (simp add: cmpool_inv_def Let_def)
    have inv: "cmpool_inv p'"
      unfolding p' using cmpool_inv_update [OF assms(1) _ jn got(1)] by simp
    have used: "j \<notin> used_blocks p" "used_blocks p' = insert j (used_blocks p)"
      using got(1,2) by (auto simp: used_blocks_def p' nth_list_update split: if_splits)
    have "used_blocks p \<noteq> {..<length (mp_index ?h)}" using used(1) got(1) by blast
    then have "a = NULL \<longleftrightarrow> used_blocks p = {..<length (mp_index ?h)}" "a = NULL \<longrightarrow> p' = p" using nz by simp_all
    moreover have "a \<noteq> NULL \<longrightarrow> (\<exists>i < length (mp_index ?h). i \<notin> used_blocks p \<and> unat a = block_addr p i \<and>
        used_blocks p' = insert i (used_blocks p))"
      using used ua got(1) by blast
    ultimately show ?thesis using inv layout by (intro conjI)
  next
    case full
    then have "a = NULL" "p' = p" using assms(2) by (auto simp: cmpool_alloc_def getbufaddr_def)
    moreover have "mp_nstate (mp_index ?h ! j) = MP_USED" if "j < length (mp_index ?h)" for j
      using full(1) that by (cases "mp_nstate (mp_index ?h ! j)") auto
    then have "used_blocks p = {..<length (mp_index ?h)}" by (auto simp: used_blocks_def)
    ultimately show ?thesis using assms(1) layout by blast
  qed
qed

text \<open>C32: \<^verbatim>\<open>cmpool_free\<close> of the start of a block makes exactly that block free, whether or not
  it was in use.\<close>

theorem cmpool_free_correct:
  assumes "cmpool_inv p" and "i < length (mp_index (mp_head p))" and "unat a = block_addr p i"
  shows "\<exists>p'. cmpool_free p a = ret p' \<and> cmpool_inv p' \<and> used_blocks p' = used_blocks p - {i}"
proof -
  let ?h = "mp_head p"
  note D = cmpool_invD [OF assms(1)]
  have idx: "getbufidx (mp_mbase p) ?h a = int i" by (rule getbufidx_block [OF assms])
  have max: "mp_max_idx ?h = int (length (mp_index ?h))" using mp_max_idx_eq [OF assms(1)] D(2) by simp
  let ?h' = "?h\<lparr>mp_index := (mp_index ?h)[i := (mp_index ?h ! i)\<lparr>mp_nstate := MP_EMPTY\<rparr>]\<rparr>"
  have "cmpool_free p a = ret (p\<lparr>mp_head := unregbufidx ?h (int i)\<rparr>)"
    using D(1) idx by (auto simp: cmpool_free_def)
  moreover have "unregbufidx ?h (int i) = ?h'"
  proof (cases "mp_nstate (mp_index ?h ! i)")
    case MP_EMPTY
    then have "(mp_index ?h)[i := (mp_index ?h ! i)\<lparr>mp_nstate := MP_EMPTY\<rparr>] = mp_index ?h"
      by (simp flip: MP_EMPTY)
    then show ?thesis using MP_EMPTY assms(2) by (simp add: unregbufidx_def max mp_cas_state_eq)
  qed (use assms(2) in \<open>simp add: unregbufidx_def max mp_cas_state_eq\<close>)
  moreover have "cmpool_inv (p\<lparr>mp_head := ?h'\<rparr>)"
    using cmpool_inv_update [OF assms(1) D(3) _ assms(2), of MP_EMPTY] assms(1) by (simp add: cmpool_inv_def Let_def)
  moreover have "used_blocks (p\<lparr>mp_head := ?h'\<rparr>) = used_blocks p - {i}"
    using assms(2) by (auto simp: used_blocks_def nth_list_update split: if_splits)
  ultimately show ?thesis by auto
qed

text \<open>A pool of two blocks of 8 bytes at address 1000, with block 1 in use.\<close>

definition cmpool_sample :: cmpool where
  "cmpool_sample = \<lparr>mp_mbase = 1000, mp_msize = 88, mp_head =
     \<lparr>mp_magic = CMPOOL_MAGIC, mp_blksz = 8, mp_latestidx = 1, mp_blockbase = 72, mp_blknum = 2,
      mp_index = [\<lparr>mp_offset = 72, mp_nstate = MP_EMPTY, mp_refcount = 0\<rparr>,
                  \<lparr>mp_offset = 80, mp_nstate = MP_USED, mp_refcount = 0\<rparr>]\<rparr>\<rparr>"

lemma cmpool_sample_inv: "cmpool_inv cmpool_sample"
  by (simp add: cmpool_inv_def cmpool_sample_def Let_def all_less_two)

theorem cmpool_alloc_correct_witness:
  "\<exists>a p'. cmpool_alloc cmpool_sample = (a, p') \<and> cmpool_inv p' \<and>
     (a = NULL \<longleftrightarrow> used_blocks cmpool_sample = {..<length (mp_index (mp_head cmpool_sample))})"
  using cmpool_alloc_correct [OF cmpool_sample_inv] by (metis surj_pair)

theorem cmpool_free_correct_witness:
  "\<exists>p'. cmpool_free cmpool_sample 1080 = ret p' \<and> used_blocks p' = used_blocks cmpool_sample - {1}"
  using cmpool_free_correct [OF cmpool_sample_inv, of 1 1080] by (auto simp: cmpool_sample_def block_addr_def)

end
