(* ===== verification/Linearizability.thy ===== *)
theory Linearizability
  imports Main
begin

text \<open>
  Linearizability of concurrent histories. A history is the sequence of the calls and returns of numbered
  operations. A sequential specification gives the result and the new abstract state of an operation. A
  linearization of a history is a sequence of operations, with results, that the specification allows,
  which has every operation that has returned, with the result it returned, may have operations that have
  been called and have not returned, and keeps the order of operations of which one returned before the
  other was called.
\<close>

section \<open>Histories and linearizations\<close>

datatype ('op, 'r) lin_event = Call nat 'op | Return nat 'r

type_synonym ('op, 'r) lin_entry = "nat \<times> 'op \<times> 'r"

definition precedes :: "('op, 'r) lin_event list \<Rightarrow> nat \<Rightarrow> nat \<Rightarrow> bool" where
  "precedes h a b \<longleftrightarrow> (\<exists>h1 h2 v c. h = h1 @ h2 \<and> Return a v \<in> set h1 \<and> Call b c \<in> set h2)"

definition pending :: "('op, 'r) lin_event list \<Rightarrow> nat \<Rightarrow> bool" where
  "pending h i \<longleftrightarrow> (\<forall>v. Return i v \<notin> set h)"

fun replay :: "('op \<Rightarrow> 's \<Rightarrow> 'r \<times> 's) \<Rightarrow> ('op, 'r) lin_entry list \<Rightarrow> 's \<Rightarrow> 's" where
  "replay spec [] m = m"
| "replay spec ((i, c, r) # es) m = replay spec es (snd (spec c m))"

fun legal :: "('op \<Rightarrow> 's \<Rightarrow> 'r \<times> 's) \<Rightarrow> ('op, 'r) lin_entry list \<Rightarrow> 's \<Rightarrow> bool" where
  "legal spec [] m \<longleftrightarrow> True"
| "legal spec ((i, c, r) # es) m \<longleftrightarrow> fst (spec c m) = r \<and> legal spec es (snd (spec c m))"

definition linearization :: "('op \<Rightarrow> 's \<Rightarrow> 'r \<times> 's) \<Rightarrow> 's \<Rightarrow> ('op, 'r) lin_event list \<Rightarrow> ('op, 'r) lin_entry list \<Rightarrow> bool" where
  "linearization spec m h L \<longleftrightarrow>
     legal spec L m \<and> distinct (map fst L) \<and>
     (\<forall>i c r. (i, c, r) \<in> set L \<longrightarrow> Call i c \<in> set h) \<and>
     (\<forall>i r. Return i r \<in> set h \<longrightarrow> (\<exists>c. (i, c, r) \<in> set L)) \<and>
     sorted_wrt (\<lambda>x y. \<not> precedes h (fst y) (fst x)) L"

section \<open>Histories\<close>

lemma precedes_Nil [simp]: "\<not> precedes [] a b"
  by (simp add: precedes_def)

lemma precedes_Return [simp]: "precedes (h @ [Return j v]) a b \<longleftrightarrow> precedes h a b"
proof
  assume "precedes (h @ [Return j v]) a b"
  then obtain h1 h2 w c where s: "h @ [Return j v] = h1 @ h2" "Return a w \<in> set h1" "Call b c \<in> set h2"
    by (auto simp: precedes_def)
  then obtain h2' where "h2 = h2' @ [Return j v]" "h = h1 @ h2'"
    by (cases h2 rule: rev_cases) auto
  then show "precedes h a b" using s by (auto simp: precedes_def)
next
  assume "precedes h a b"
  then show "precedes (h @ [Return j v]) a b" unfolding precedes_def by (metis append.assoc Un_iff set_append)
qed

lemma precedes_Call: "precedes (h @ [Call j c]) a b \<longleftrightarrow> precedes h a b \<or> b = j \<and> \<not> pending h a"
proof
  assume "precedes (h @ [Call j c]) a b"
  then obtain h1 h2 w d where s: "h @ [Call j c] = h1 @ h2" "Return a w \<in> set h1" "Call b d \<in> set h2"
    by (auto simp: precedes_def)
  then obtain h2' where h2: "h2 = h2' @ [Call j c]" "h = h1 @ h2'"
    by (cases h2 rule: rev_cases) auto
  then show "precedes h a b \<or> b = j \<and> \<not> pending h a" using s by (auto simp: precedes_def pending_def)
next
  assume "precedes h a b \<or> b = j \<and> \<not> pending h a"
  then show "precedes (h @ [Call j c]) a b"
  proof
    assume "precedes h a b"
    then show ?thesis unfolding precedes_def by (metis append.assoc Un_iff set_append)
  next
    assume "b = j \<and> \<not> pending h a"
    then obtain v where "b = j" "Return a v \<in> set h" by (auto simp: pending_def)
    then show ?thesis unfolding precedes_def by (intro exI [of _ h] exI [of _ "[Call j c]"]) auto
  qed
qed

lemma pending_not_precedes: "pending h a \<Longrightarrow> \<not> precedes h a b"
  by (auto simp: precedes_def pending_def)

lemma pending_snoc [simp]:
  "pending (h @ [Call j c]) i = pending h i" "pending (h @ [Return j v]) i \<longleftrightarrow> pending h i \<and> i \<noteq> j"
  by (auto simp: pending_def)

section \<open>Legal sequences\<close>

lemma replay_append [simp]: "replay spec (A @ B) m = replay spec B (replay spec A m)"
  by (induction spec A m rule: replay.induct) simp_all

lemma legal_append [simp]: "legal spec (A @ B) m \<longleftrightarrow> legal spec A m \<and> legal spec B (replay spec A m)"
  by (induction spec A m rule: legal.induct) simp_all

section \<open>Extending a linearization\<close>

lemma linearizationD:
  assumes "linearization spec m h L"
  shows "legal spec L m" and "distinct (map fst L)" and "(i, c, r) \<in> set L \<Longrightarrow> Call i c \<in> set h"
    and "Return i r \<in> set h \<Longrightarrow> \<exists>c. (i, c, r) \<in> set L" and "sorted_wrt (\<lambda>x y. \<not> precedes h (fst y) (fst x)) L"
  using assms by (auto simp: linearization_def)

lemma linearization_Nil: "linearization spec m [] []"
  by (simp add: linearization_def)

lemma linearization_Call:
  assumes "linearization spec m h L" and "\<And>c. Call j c \<notin> set h"
  shows "linearization spec m (h @ [Call j d]) L"
proof -
  have "fst x \<noteq> j" if "x \<in> set L" for x using assms that by (cases x) (auto dest: linearizationD(3))
  then have "sorted_wrt (\<lambda>x y. \<not> precedes (h @ [Call j d]) (fst y) (fst x)) L"
    using linearizationD(5) [OF assms(1)] by (rule_tac sorted_wrt_mono_rel) (auto simp: precedes_Call)
  then show ?thesis using assms(1) by (auto simp: linearization_def)
qed

lemma linearization_Return:
  assumes "linearization spec m h L" and "(j, c, v) \<in> set L"
  shows "linearization spec m (h @ [Return j v]) L"
  using assms by (auto simp: linearization_def)

lemma linearization_insert:
  assumes lin: "linearization spec m h (A @ B)" and call: "Call i c \<in> set h" and new: "pending h i" "i \<notin> fst ` set (A @ B)"
    and late: "\<forall>e \<in> set B. \<not> precedes h (fst e) i" and leg: "legal spec (A @ (i, c, r) # B) m"
  shows "linearization spec m h (A @ (i, c, r) # B)"
  unfolding linearization_def
proof (intro conjI)
  show "distinct (map fst (A @ (i, c, r) # B))" using linearizationD(2) [OF lin] new(2) by auto
  show "sorted_wrt (\<lambda>x y. \<not> precedes h (fst y) (fst x)) (A @ (i, c, r) # B)"
    using linearizationD(5) [OF lin] late pending_not_precedes [OF new(1)] by (auto simp: sorted_wrt_append)
  show "\<forall>i' c' r'. (i', c', r') \<in> set (A @ (i, c, r) # B) \<longrightarrow> Call i' c' \<in> set h"
    using linearizationD(3) [OF lin] call by auto
  show "\<forall>i' r'. Return i' r' \<in> set h \<longrightarrow> (\<exists>c'. (i', c', r') \<in> set (A @ (i, c, r) # B))"
    using linearizationD(4) [OF lin] by fastforce
qed (rule leg)

lemma linearization_snoc:
  assumes "linearization spec m h L" and "Call i c \<in> set h" and "pending h i" and "i \<notin> fst ` set L" and "fst (spec c (replay spec L m)) = r"
  shows "linearization spec m h (L @ [(i, c, r)])"
  using linearization_insert [of spec m h L "[]" i c r] assms linearizationD(1) [OF assms(1)] by simp

text \<open>The result of an operation that has not returned may be revised.\<close>

lemma linearization_revise:
  assumes lin: "linearization spec m h (A @ (j, c, r) # B)" and pend: "pending h j" and leg: "legal spec (A @ (j, c, r') # B) m"
  shows "linearization spec m h (A @ (j, c, r') # B)"
  unfolding linearization_def
proof (intro conjI)
  show "distinct (map fst (A @ (j, c, r') # B))" using linearizationD(2) [OF lin] by simp
  show "sorted_wrt (\<lambda>x y. \<not> precedes h (fst y) (fst x)) (A @ (j, c, r') # B)"
    using linearizationD(5) [OF lin] by (auto simp: sorted_wrt_append)
  show "\<forall>i' c' r''. (i', c', r'') \<in> set (A @ (j, c, r') # B) \<longrightarrow> Call i' c' \<in> set h"
    using linearizationD(3) [OF lin] by auto
  show "\<forall>i' r''. Return i' r'' \<in> set h \<longrightarrow> (\<exists>c'. (i', c', r'') \<in> set (A @ (j, c, r') # B))"
    using linearizationD(4) [OF lin] pend by (fastforce simp: pending_def)
qed (rule leg)

section \<open>Operations that take effect in the past\<close>

text \<open>There is a moment, after \<open>i\<close> was called, at which the abstract state satisfied \<open>Q\<close>.\<close>

definition sometime :: "('op \<Rightarrow> 's \<Rightarrow> 'r \<times> 's) \<Rightarrow> 's \<Rightarrow> ('op, 'r) lin_event list \<Rightarrow> ('op, 'r) lin_entry list \<Rightarrow> nat \<Rightarrow> ('s \<Rightarrow> bool) \<Rightarrow> bool" where
  "sometime spec m h L i Q \<longleftrightarrow> (\<exists>A B. L = A @ B \<and> Q (replay spec A m) \<and> (\<forall>e \<in> set B. \<not> precedes h (fst e) i))"

text \<open>The entry of \<open>j\<close> and all later ones are of operations that did not return before \<open>i\<close> was called.\<close>

definition awaits :: "('op, 'r) lin_event list \<Rightarrow> ('op, 'r) lin_entry list \<Rightarrow> nat \<Rightarrow> nat \<Rightarrow> bool" where
  "awaits h L j i \<longleftrightarrow> (\<forall>e \<in> set (dropWhile (\<lambda>e. fst e \<noteq> j) L). \<not> precedes h (fst e) i)"

lemma sometime_now: "Q (replay spec L m) \<Longrightarrow> sometime spec m h L i Q"
  unfolding sometime_def by (intro exI [of _ L] exI [of _ "[]"]) simp

lemma sometime_mono:
  assumes "sometime spec m h L i Q" and "\<And>b. Q b \<Longrightarrow> Q' b"
  shows "sometime spec m h L i Q'"
  using assms unfolding sometime_def by blast

lemma sometime_snoc:
  assumes "sometime spec m h L i Q" and "\<not> precedes h (fst e) i"
  shows "sometime spec m h (L @ [e]) i Q"
proof -
  obtain A B where "L = A @ B" "Q (replay spec A m)" "\<forall>e \<in> set B. \<not> precedes h (fst e) i"
    using assms(1) by (auto simp: sometime_def)
  then show ?thesis unfolding sometime_def using assms(2) by (intro exI [of _ A] exI [of _ "B @ [e]"]) auto
qed

lemma sometime_replace:
  assumes "sometime spec m h (A @ X @ B) i Q" and eff: "replay spec X' (replay spec A m) = replay spec X (replay spec A m)"
    and new: "\<forall>e \<in> set X'. \<not> precedes h (fst e) i" and X: "length X \<le> 1"
  shows "sometime spec m h (A @ X' @ B) i Q"
proof -
  obtain C D where s: "A @ X @ B = C @ D" "Q (replay spec C m)" "\<forall>e \<in> set D. \<not> precedes h (fst e) i"
    using assms(1) by (auto simp: sometime_def)
  show ?thesis
  proof (cases "length C \<le> length A")
    case True
    then obtain A' where A: "A = C @ A'" and D: "D = A' @ X @ B" using s(1) by (auto simp: append_eq_append_conv2)
    then show ?thesis unfolding sometime_def using s new
      by (intro exI [of _ C] exI [of _ "A' @ X' @ B"]) auto
  next
    case False
    then have "length (A @ X) \<le> length C" using X by simp
    then obtain B' where B: "C = A @ X @ B'" "B = B' @ D" using s(1) by (auto simp: append_eq_append_conv2)
    then show ?thesis unfolding sometime_def using s eff
      by (intro exI [of _ "A @ X' @ B'"] exI [of _ D]) auto
  qed
qed

lemma sometime_insert:
  assumes "sometime spec m h (A @ B) i Q" and "snd (spec c (replay spec A m)) = replay spec A m" and "\<not> precedes h j i"
  shows "sometime spec m h (A @ (j, c, r) # B) i Q"
  using sometime_replace [of spec m h A "[]" B i Q "[(j, c, r)]"] assms by simp

lemma sometime_Return [simp]: "sometime spec m (h @ [Return j v]) L i Q \<longleftrightarrow> sometime spec m h L i Q"
  by (simp add: sometime_def)

lemma sometime_Call [simp]: "i \<noteq> j \<Longrightarrow> sometime spec m (h @ [Call j c]) L i Q \<longleftrightarrow> sometime spec m h L i Q"
  by (simp add: sometime_def precedes_Call)

lemma awaits_Return [simp]: "awaits (h @ [Return k v]) L j i \<longleftrightarrow> awaits h L j i"
  by (simp add: awaits_def)

lemma awaits_Call [simp]: "i \<noteq> k \<Longrightarrow> awaits (h @ [Call k c]) L j i \<longleftrightarrow> awaits h L j i"
  by (simp add: awaits_def precedes_Call)

lemma dropWhile_insert:
  "fst e \<noteq> j \<Longrightarrow> set (dropWhile (\<lambda>e. fst e \<noteq> j) (A @ e # B)) \<subseteq> insert e (set (dropWhile (\<lambda>e. fst e \<noteq> j) (A @ B)))"
  by (induction A) (auto simp: dropWhile_append)

lemma awaits_insert:
  assumes "awaits h (A @ B) j i" and "fst e \<noteq> j" and "\<not> precedes h (fst e) i"
  shows "awaits h (A @ e # B) j i"
  using assms dropWhile_insert [of e j A B] by (auto simp: awaits_def)

lemma awaits_snoc:
  assumes "awaits h L j i" and "fst e \<noteq> j" and "\<not> precedes h (fst e) i"
  shows "awaits h (L @ [e]) j i"
  using awaits_insert [of h L "[]" j i e] assms by simp

lemma awaits_revise:
  assumes "awaits h (A @ e # B) j i" and "fst e' = fst e"
  shows "awaits h (A @ e' # B) j i"
proof -
  have "map fst (dropWhile (\<lambda>e. fst e \<noteq> j) (A @ e' # B)) = map fst (dropWhile (\<lambda>e. fst e \<noteq> j) (A @ e # B))"
    using assms(2) by (induction A) auto
  then have eq: "fst ` set (dropWhile (\<lambda>e. fst e \<noteq> j) (A @ e' # B)) = fst ` set (dropWhile (\<lambda>e. fst e \<noteq> j) (A @ e # B))"
    unfolding set_map [symmetric] by simp
  have "\<forall>n \<in> fst ` set (dropWhile (\<lambda>e. fst e \<noteq> j) (A @ e # B)). \<not> precedes h n i"
    using assms(1) by (auto simp: awaits_def)
  then show ?thesis unfolding awaits_def eq [symmetric] by blast
qed

lemma awaits_new:
  assumes "j \<notin> fst ` set L" and "\<not> precedes h j i"
  shows "awaits h (L @ [(j, c, r)]) j i"
proof -
  have "dropWhile (\<lambda>e. fst e \<noteq> j) (L @ [(j, c, r)]) = [(j, c, r)]" using assms(1) by (induction L) auto
  then show ?thesis using assms(2) by (simp add: awaits_def)
qed

lemma awaits_split:
  assumes "awaits h (A @ (j, c, r) # B) j i" and "distinct (map fst (A @ (j, c, r) # B))"
  shows "\<forall>e \<in> set ((j, c, r) # B). \<not> precedes h (fst e) i"
proof -
  have "dropWhile (\<lambda>e. fst e \<noteq> j) (A @ (j, c, r) # B) = (j, c, r) # B" using assms(2) by (induction A) auto
  then show ?thesis using assms(1) by (simp add: awaits_def)
qed

text \<open>An operation that has no effect in the state at that moment can take effect there.\<close>

lemma linearization_sometime:
  assumes lin: "linearization spec m h L" and call: "Call i c \<in> set h" and new: "pending h i" "i \<notin> fst ` set L"
    and some: "sometime spec m h L i (\<lambda>s. spec c s = (r, s))"
  shows "\<exists>A B. L = A @ B \<and> snd (spec c (replay spec A m)) = replay spec A m \<and> linearization spec m h (A @ (i, c, r) # B)"
proof -
  obtain A B where s: "L = A @ B" "spec c (replay spec A m) = (r, replay spec A m)" "\<forall>e \<in> set B. \<not> precedes h (fst e) i"
    using some by (auto simp: sometime_def)
  have "legal spec (A @ (i, c, r) # B) m" using linearizationD(1) [OF lin] s(1,2) by simp
  then show ?thesis using linearization_insert [of spec m h A B i c r] lin call new s by auto
qed

end
