(* ===== verification/Linked_List_Concurrent.thy ===== *)
theory Linked_List_Concurrent
  imports Linked_List Linearizability
begin

text \<open>
  The functions \<^verbatim>\<open>ll_lookup\<close>, \<^verbatim>\<open>ll_cas\<close> and \<^verbatim>\<open>ll_remove\<close> of
  \<^verbatim>\<open>src/src/map/list.c\<close> run by any number of threads at once. Each thread has a program counter that
  names its next access to the list and holds its local variables; one step is one such access by one
  thread. The keys of nodes do not change, and reading one is not a step of its own; neither are the calls
  of \<^verbatim>\<open>nbd_malloc\<close>, \<^verbatim>\<open>nbd_free\<close> and \<^verbatim>\<open>rcu_defer_free\<close>, which do not access
  the list. A node that has been handed to \<^verbatim>\<open>rcu_defer_free\<close> stays readable, and its address is not
  handed out again, while the threads run.
\<close>

section \<open>Threads and steps\<close>

datatype ll_op =
    LL_Lookup map_key_t
  | LL_Cas map_key_t map_val_t map_val_t
  | LL_Remove map_key_t

primrec ll_op_key :: "ll_op \<Rightarrow> map_key_t" where
  "ll_op_key (LL_Lookup k) = k" | "ll_op_key (LL_Cas k e v) = k" | "ll_op_key (LL_Remove k) = k"

text \<open>The argument \<^verbatim>\<open>help_remove\<close> that the operation passes to \<^verbatim>\<open>find_pred\<close>.\<close>

primrec help_remove :: "ll_op \<Rightarrow> bool" where
  "help_remove (LL_Lookup k) = False" | "help_remove (LL_Cas k e v) = True" | "help_remove (LL_Remove k) = True"

datatype lc_pc =
    LC_Idle
  | Find_Head ll_op
  | Find_Next ll_op addr addr \<comment> \<open>\<^verbatim>\<open>next = item->next\<close> with \<^verbatim>\<open>pred\<close> and \<^verbatim>\<open>item\<close>\<close>
  | Find_Skip ll_op addr addr \<comment> \<open>\<^verbatim>\<open>item = STRIP_MARK(item->next)\<close>\<close>
  | Find_Unlink ll_op addr addr markable_t
  | Find_Defer ll_op addr addr addr \<comment> \<open>after the item that is the last argument was unlinked\<close>
  | Lookup_Val ll_op addr
  | Cas_Alloc ll_op addr addr
  | Cas_Insert ll_op addr addr addr
  | Cas_Free ll_op addr
  | Cas_Val ll_op addr
  | Cas_Update ll_op addr map_val_t
  | Rem_Next ll_op addr addr
  | Rem_Mark ll_op addr addr markable_t
  | Rem_Assert ll_op addr addr markable_t
  | Rem_Swap ll_op addr addr markable_t
  | Rem_Unlink ll_op addr addr markable_t map_val_t
  | Rem_Defer ll_op addr map_val_t
  | LC_Return ll_op map_val_t

record lc_sys =
  lc_list :: list_t
  lc_pcs :: "nat \<Rightarrow> lc_pc"
  lc_ids :: "nat \<Rightarrow> nat" \<comment> \<open>the number of the operation a thread executes\<close>
  lc_hist :: "(ll_op, map_val_t) lin_event list"

text \<open>What an operation does when \<^verbatim>\<open>find_pred\<close> returns.\<close>

fun find_result :: "ll_op \<Rightarrow> bool \<Rightarrow> addr \<Rightarrow> addr \<Rightarrow> lc_pc" where
  "find_result (LL_Lookup k) found pred item =
     (if found then Lookup_Val (LL_Lookup k) item else LC_Return (LL_Lookup k) DOES_NOT_EXIST)"
| "find_result (LL_Cas k e v) found pred item =
     (if \<not> found then
        if e \<noteq> CAS_EXPECT_DOES_NOT_EXIST \<and> e \<noteq> CAS_EXPECT_WHATEVER then LC_Return (LL_Cas k e v) DOES_NOT_EXIST
        else Cas_Alloc (LL_Cas k e v) pred item
      else Cas_Val (LL_Cas k e v) item)"
| "find_result (LL_Remove k) found pred item =
     (if \<not> found then LC_Return (LL_Remove k) DOES_NOT_EXIST else Rem_Next (LL_Remove k) pred item)"

text \<open>The test of the outer loop of \<^verbatim>\<open>find_pred\<close>, and what follows the reading of a link: the test
  of the inner loop and the comparison of the key.\<close>

definition find_loop :: "ll_op \<Rightarrow> addr \<Rightarrow> addr \<Rightarrow> lc_pc" where
  "find_loop op pred item = (if item = NULL then find_result op False pred NULL else Find_Next op pred item)"

definition find_visit :: "list_t \<Rightarrow> ll_op \<Rightarrow> addr \<Rightarrow> addr \<Rightarrow> markable_t \<Rightarrow> lc_pc prog" where
  "find_visit s op pred item nxt =
     (if HAS_MARK nxt then
        ret (if \<not> help_remove op then Find_Skip op pred item else Find_Unlink op pred item nxt)
      else if item = NULL then ret (find_result op False pred NULL)
      else pbind (ll_load s item) (\<lambda>nd.
        let d = key_diff (ll_key_type s) (nd_key nd) (ll_op_key op)
        in ret (if d \<ge> 0 then find_result op (d = 0) pred item else find_loop op item (GET_NODE nxt))))"

text \<open>The inner loop of \<^verbatim>\<open>ll_cas\<close>.\<close>

fun cas_check :: "ll_op \<Rightarrow> addr \<Rightarrow> map_val_t \<Rightarrow> lc_pc" where
  "cas_check (LL_Cas k e v) item old_val =
     (if old_val = DOES_NOT_EXIST then Find_Head (LL_Cas k e v)
      else if e = CAS_EXPECT_DOES_NOT_EXIST then LC_Return (LL_Cas k e v) old_val
      else Cas_Update (LL_Cas k e v) item old_val)"
| "cas_check op item old_val = LC_Idle"

primrec ll_op_val :: "ll_op \<Rightarrow> map_val_t" where
  "ll_op_val (LL_Lookup k) = 0" | "ll_op_val (LL_Cas k e v) = v" | "ll_op_val (LL_Remove k) = 0"

text \<open>The next access of a thread that is at a program counter: the list it leaves and where it goes.\<close>

fun lc_access :: "lc_pc \<Rightarrow> list_t \<Rightarrow> (lc_pc \<times> list_t) prog" where
  "lc_access (Find_Head op) s =
     pbind (ll_load s (ll_head s)) (\<lambda>h. ret (find_loop op (ll_head s) (GET_NODE (nd_next h)), s))"
| "lc_access (Find_Next op pred item) s =
     pbind (ll_load s item) (\<lambda>nd. pbind (find_visit s op pred item (nd_next nd)) (\<lambda>p. ret (p, s)))"
| "lc_access (Find_Skip op pred item) s =
     pbind (ll_load s item) (\<lambda>nd.
       let item = STRIP_MARK (nd_next nd)
       in ret (if item = NULL then find_result op False pred NULL else Find_Next op pred item, s))"
| "lc_access (Find_Unlink op pred item nxt) s =
     pbind (ll_load s pred) (\<lambda>pn.
       case SYNC_CAS (nd_next pn) item (STRIP_MARK nxt) of (other, lk) \<Rightarrow>
       (let s = ll_store pred (pn\<lparr>nd_next := lk\<rparr>) s
        in ret (if other = item then Find_Defer op pred (STRIP_MARK nxt) other
                else if HAS_MARK other then Find_Head op
                else find_loop op pred (GET_NODE other), s)))"
| "lc_access (Find_Defer op pred item other) s =
     pbind (if item \<noteq> NULL then pbind (ll_load s item) (\<lambda>nd. ret (nd_next nd)) else ret DOES_NOT_EXIST) (\<lambda>nxt.
     pbind (ll_load s (GET_NODE other)) (\<lambda>on.
     let s = ll_defer_node (GET_NODE other) (nd_key on) s
     in pbind (find_visit s op pred item nxt) (\<lambda>p. ret (p, s))))"
| "lc_access (Lookup_Val op item) s =
     pbind (ll_load s item) (\<lambda>nd. ret (LC_Return op (if nd_val nd \<noteq> DOES_NOT_EXIST then nd_val nd else DOES_NOT_EXIST), s))"
| "lc_access (Cas_Alloc op pred old_item) s =
     (let new_key = key_clone (ll_key_type s) (ll_op_key op)
      in pbind (node_alloc new_key (ll_op_val op) s) (\<lambda>(new_item, s).
         ret (Cas_Insert op pred old_item new_item,
              ll_store new_item \<lparr>nd_key = new_key, nd_val = ll_op_val op, nd_next = old_item\<rparr> s)))"
| "lc_access (Cas_Insert op pred old_item new_item) s =
     pbind (ll_load s pred) (\<lambda>pn.
       case SYNC_CAS (nd_next pn) old_item new_item of (other, lk) \<Rightarrow>
       (let s = ll_store pred (pn\<lparr>nd_next := lk\<rparr>) s
        in ret (if other = old_item then LC_Return op DOES_NOT_EXIST else Cas_Free op new_item, s)))"
| "lc_access (Cas_Free op new_item) s =
     pbind (ll_load s new_item) (\<lambda>nd. ret (Find_Head op, ll_nbd_free new_item (ll_free_key (nd_key nd) s)))"
| "lc_access (Cas_Val op item) s = pbind (ll_load s item) (\<lambda>nd. ret (cas_check op item (nd_val nd), s))"
| "lc_access (Cas_Update op item old_val) s =
     pbind (ll_load s item) (\<lambda>nd.
       case SYNC_CAS (nd_val nd) old_val (ll_op_val op) of (ret_val, v) \<Rightarrow>
       (let s = ll_store item (nd\<lparr>nd_val := v\<rparr>) s
        in ret (if ret_val = old_val then LC_Return op ret_val else cas_check op item ret_val, s)))"
| "lc_access (Rem_Next op pred item) s = pbind (ll_load s item) (\<lambda>nd. ret (Rem_Mark op pred item (nd_next nd), s))"
| "lc_access (Rem_Mark op pred item nxt) s =
     pbind (ll_load s item) (\<lambda>nd.
       case SYNC_CAS (nd_next nd) nxt (MARK_NODE (STRIP_MARK nxt)) of (old_next, lk) \<Rightarrow>
       (let s = ll_store item (nd\<lparr>nd_next := lk\<rparr>) s
        in ret (if HAS_MARK old_next then LC_Return op DOES_NOT_EXIST
                else if nxt \<noteq> old_next then Rem_Mark op pred item old_next
                else Rem_Assert op pred item nxt, s)))"
| "lc_access (Rem_Assert op pred item nxt) s =
     pbind (ll_load s item) (\<lambda>nd. pbind (passert (HAS_MARK (nd_next nd))) (\<lambda>_. ret (Rem_Swap op pred item nxt, s)))"
| "lc_access (Rem_Swap op pred item nxt) s =
     pbind (ll_load s item) (\<lambda>nd.
       case SYNC_SWAP (nd_val nd) DOES_NOT_EXIST of (val, v) \<Rightarrow>
       ret (Rem_Unlink op pred item nxt val, ll_store item (nd\<lparr>nd_val := v\<rparr>) s))"
| "lc_access (Rem_Unlink op pred item nxt val) s =
     pbind (ll_load s pred) (\<lambda>pn.
       case SYNC_CAS (nd_next pn) item nxt of (other, lk) \<Rightarrow>
       (let s = ll_store pred (pn\<lparr>nd_next := lk\<rparr>) s
        in ret (if other \<noteq> item then LC_Return op val else Rem_Defer op item val, s)))"
| "lc_access (Rem_Defer op item val) s =
     pbind (ll_load s item) (\<lambda>nd. ret (LC_Return op val, ll_defer_node item (nd_key nd) s))"
| "lc_access (LC_Return op val) s = ret (LC_Idle, s)"
| "lc_access LC_Idle s = ret (LC_Idle, s)"

text \<open>A step of thread \<open>t\<close>. A return is recorded in the history.\<close>

definition lc_exec :: "nat \<Rightarrow> lc_sys \<Rightarrow> lc_sys prog" where
  "lc_exec t s =
     pbind (lc_access (lc_pcs s t) (lc_list s)) (\<lambda>(p, l).
     ret (s\<lparr>lc_list := l, lc_pcs := (lc_pcs s)(t := p),
            lc_hist := (case lc_pcs s t of LC_Return op v \<Rightarrow> lc_hist s @ [Return (lc_ids s t) v] | _ \<Rightarrow> lc_hist s)\<rparr>))"

definition lc_call :: "nat \<Rightarrow> ll_op \<Rightarrow> lc_sys \<Rightarrow> lc_sys" where
  "lc_call t op s =
     s\<lparr>lc_pcs := (lc_pcs s)(t := Find_Head op), lc_ids := (lc_ids s)(t := length (lc_hist s)),
       lc_hist := lc_hist s @ [Call (length (lc_hist s)) op]\<rparr>"

text \<open>\<^verbatim>\<open>ll_cas\<close> asserts that the new value is positive.\<close>

definition ll_op_ok :: "map_key_t set \<Rightarrow> ll_op \<Rightarrow> bool" where
  "ll_op_ok K op \<longleftrightarrow> ll_op_key op \<in> K \<and> (case op of LL_Cas k e v \<Rightarrow> 0 < sint v | _ \<Rightarrow> True)"

definition lc_init :: "list_t \<Rightarrow> lc_sys" where
  "lc_init l = \<lparr>lc_list = l, lc_pcs = (\<lambda>_. LC_Idle), lc_ids = (\<lambda>_. 0), lc_hist = []\<rparr>"

inductive lc_step :: "map_key_t set \<Rightarrow> lc_sys \<Rightarrow> lc_sys \<Rightarrow> bool" for K where
  call: "lc_pcs s t = LC_Idle \<Longrightarrow> ll_op_ok K op \<Longrightarrow> lc_step K s (lc_call t op s)"
| exec: "lc_exec t s = ret s' \<Longrightarrow> lc_step K s s'"

inductive lc_reachable :: "map_key_t set \<Rightarrow> list_t \<Rightarrow> lc_sys \<Rightarrow> bool" for K l where
  init: "lc_reachable K l (lc_init l)"
| step: "lc_reachable K l s \<Longrightarrow> lc_step K s s' \<Longrightarrow> lc_reachable K l s'"

text \<open>The sequential specification: a map from the ranks of the keys to values.\<close>

primrec ll_spec :: "(map_key_t \<Rightarrow> int) \<Rightarrow> ll_op \<Rightarrow> (int \<Rightarrow> map_val_t option) \<Rightarrow> map_val_t \<times> (int \<Rightarrow> map_val_t option)" where
  "ll_spec rank (LL_Lookup k) m = (found_val (m (rank k)), m)"
| "ll_spec rank (LL_Cas k e v) m =
     (found_val (m (rank k)),
      if (case m (rank k) of None \<Rightarrow> e = CAS_EXPECT_DOES_NOT_EXIST \<or> e = CAS_EXPECT_WHATEVER
          | Some _ \<Rightarrow> e \<noteq> CAS_EXPECT_DOES_NOT_EXIST) then m(rank k \<mapsto> v) else m)"
| "ll_spec rank (LL_Remove k) m = (found_val (m (rank k)), m(rank k := None))"

section \<open>Schedules\<close>

text \<open>A sequence of calls and accesses, one after the other.\<close>

datatype lc_event = Invoke nat ll_op | Access nat

fun lc_run :: "lc_event list \<Rightarrow> lc_sys \<Rightarrow> lc_sys prog" where
  "lc_run [] s = ret s"
| "lc_run (Invoke t op # es) s = (if lc_pcs s t = LC_Idle then lc_run es (lc_call t op s) else fail Assert_Failed)"
| "lc_run (Access t # es) s = pbind (lc_exec t s) (lc_run es)"

primrec event_ok :: "map_key_t set \<Rightarrow> lc_event \<Rightarrow> bool" where
  "event_ok K (Invoke t op) \<longleftrightarrow> ll_op_ok K op" | "event_ok K (Access t) \<longleftrightarrow> True"

lemma lc_run_reachable:
  assumes "lc_reachable K l s" and "list_all (event_ok K) es" and "lc_run es s = ret s'"
  shows "lc_reachable K l s'"
  using assms
proof (induction es s rule: lc_run.induct)
  case (2 t op es s)
  then show ?case by (auto intro: lc_reachable.step lc_step.call split: if_splits)
next
  case (3 t es s)
  then obtain s1 where "lc_exec t s = ret s1" "lc_run es s1 = ret s'" by (auto simp: pbind_eq_ret)
  then show ?case using 3 by (auto intro: lc_reachable.step lc_step.exec)
qed simp

end
