(* ===== verification/Linked_List_Views.thy ===== *)
theory Linked_List_Views
  imports Linked_List_Concurrent
begin

text \<open>
  What a state of the concurrent list looks like to the threads: the nodes that have been linked, the paths
  along their links, a linearization of the history so far, and what a thread can rely on when another thread
  links, unlinks, marks or updates a node.
\<close>

section \<open>Paths along links\<close>

abbreviation node_next :: "(addr \<Rightarrow> node option) \<Rightarrow> addr \<Rightarrow> markable_t" where "node_next h a \<equiv> nd_next (the (h a))"
abbreviation node_key :: "(addr \<Rightarrow> node option) \<Rightarrow> addr \<Rightarrow> map_key_t" where "node_key h a \<equiv> nd_key (the (h a))"
abbreviation node_val :: "(addr \<Rightarrow> node option) \<Rightarrow> addr \<Rightarrow> map_val_t" where "node_val h a \<equiv> nd_val (the (h a))"
abbreviation marked :: "(addr \<Rightarrow> node option) \<Rightarrow> addr \<Rightarrow> bool" where "marked h a \<equiv> HAS_MARK (node_next h a)"

definition edge :: "(addr \<Rightarrow> node option) \<Rightarrow> addr \<Rightarrow> addr \<Rightarrow> bool" where
  "edge h a b \<longleftrightarrow> (\<exists>nd. h a = Some nd \<and> b = STRIP_MARK (nd_next nd) \<and> b \<noteq> NULL)"

abbreviation reach :: "(addr \<Rightarrow> node option) \<Rightarrow> addr \<Rightarrow> addr \<Rightarrow> bool" where "reach h \<equiv> (edge h)\<^sup>*\<^sup>*"

lemma edge_fun: "edge h a b \<Longrightarrow> edge h a c \<Longrightarrow> b = c"
  by (auto simp: edge_def)

lemma reach_linear:
  assumes "reach h a x" and "reach h a y"
  shows "reach h x y \<or> reach h y x"
  using assms
proof (induction rule: converse_rtranclp_induct)
  case (step a b)
  from step.prems show ?case
  proof (cases rule: converse_rtranclpE)
    case base
    then show ?thesis using step.hyps by (meson converse_rtranclp_into_rtranclp)
  next
    case (step c)
    then show ?thesis using edge_fun [OF step(1)] \<open>edge h a b\<close> \<open>reach h b y \<Longrightarrow> reach h x y \<or> reach h y x\<close> by metis
  qed
qed auto

lemma reach_first:
  assumes "reach h a b" and "a \<noteq> b"
  shows "\<exists>c. edge h a c \<and> reach h c b"
  using assms by (metis converse_rtranclpE)

text \<open>The nodes that have been linked into the list, removed ones included: links lead to greater keys, and every
  node that is not marked is on the path from the head.\<close>

definition heap_ok :: "map_key_t set \<Rightarrow> (map_key_t \<Rightarrow> int) \<Rightarrow> (addr \<Rightarrow> node option) \<Rightarrow> addr \<Rightarrow> addr set \<Rightarrow> bool" where
  "heap_ok K rank h r0 P \<longleftrightarrow>
     r0 \<in> P \<and> \<not> marked h r0 \<and>
     (\<forall>x \<in> P. h x \<noteq> None \<and> x \<noteq> NULL \<and> \<not> HAS_MARK x) \<and>
     (\<forall>x \<in> P. x \<noteq> r0 \<longrightarrow> node_key h x \<in> K) \<and>
     (\<forall>x \<in> P. \<forall>y. edge h x y \<longrightarrow> y \<in> P \<and> y \<noteq> r0 \<and> (x = r0 \<or> rank (node_key h x) < rank (node_key h y))) \<and>
     (\<forall>x \<in> P. \<not> marked h x \<longrightarrow> reach h r0 x) \<and>
     (\<forall>x \<in> P. x \<noteq> r0 \<and> \<not> marked h x \<longrightarrow> node_val h x \<noteq> 0)"

lemma heap_okD:
  assumes "heap_ok K rank h r0 P"
  shows "r0 \<in> P" and "\<not> marked h r0" and "x \<in> P \<Longrightarrow> \<exists>nd. h x = Some nd" and "x \<in> P \<Longrightarrow> x \<noteq> NULL" and "x \<in> P \<Longrightarrow> \<not> HAS_MARK x"
    and "x \<in> P \<Longrightarrow> x \<noteq> r0 \<Longrightarrow> node_key h x \<in> K" and "x \<in> P \<Longrightarrow> edge h x y \<Longrightarrow> y \<in> P" and "x \<in> P \<Longrightarrow> edge h x y \<Longrightarrow> y \<noteq> r0"
    and "x \<in> P \<Longrightarrow> edge h x y \<Longrightarrow> x \<noteq> r0 \<Longrightarrow> rank (node_key h x) < rank (node_key h y)"
    and "x \<in> P \<Longrightarrow> \<not> marked h x \<Longrightarrow> reach h r0 x" and "x \<in> P \<Longrightarrow> x \<noteq> r0 \<Longrightarrow> \<not> marked h x \<Longrightarrow> node_val h x \<noteq> 0"
  using assms unfolding heap_ok_def by blast+

lemma heap_ok_next:
  assumes "heap_ok K rank h r0 P" and "x \<in> P" and "STRIP_MARK (node_next h x) \<noteq> NULL"
  shows "edge h x (STRIP_MARK (node_next h x))"
  using heap_okD(3) [OF assms(1,2)] assms(3) by (auto simp: edge_def)

lemma reach_pub:
  assumes "heap_ok K rank h r0 P" and "reach h x y" and "x \<in> P"
  shows "y \<in> P" and "x \<noteq> y \<Longrightarrow> y \<noteq> r0 \<and> (x = r0 \<or> rank (node_key h x) < rank (node_key h y))"
proof -
  have "y \<in> P \<and> (x \<noteq> y \<longrightarrow> y \<noteq> r0 \<and> (x = r0 \<or> rank (node_key h x) < rank (node_key h y)))"
    using assms(2,3)
  proof (induction rule: rtranclp_induct)
    case (step y z)
    then show ?case using heap_okD(7,8,9) [OF assms(1), of y z] by (metis less_trans)
  qed simp
  then show "y \<in> P" "x \<noteq> y \<Longrightarrow> y \<noteq> r0 \<and> (x = r0 \<or> rank (node_key h x) < rank (node_key h y))" by auto
qed

text \<open>The node that holds the binding of a key.\<close>

definition live_node :: "(map_key_t \<Rightarrow> int) \<Rightarrow> (addr \<Rightarrow> node option) \<Rightarrow> addr \<Rightarrow> addr set \<Rightarrow> int \<Rightarrow> addr \<Rightarrow> bool" where
  "live_node rank h r0 P q n \<longleftrightarrow> n \<in> P \<and> n \<noteq> r0 \<and> \<not> marked h n \<and> rank (node_key h n) = q"

lemma live_node_unique:
  assumes "heap_ok K rank h r0 P" and "live_node rank h r0 P q x" and "live_node rank h r0 P q y"
  shows "x = y"
proof -
  have "reach h x y \<or> reach h y x"
    using assms by (intro reach_linear [of h r0]) (auto simp: live_node_def intro: heap_okD)
  then show ?thesis using reach_pub(2) [OF assms(1), of x y] reach_pub(2) [OF assms(1), of y x] assms(2,3) by (auto simp: live_node_def)
qed

text \<open>A path passes the place of a key only at its node.\<close>

lemma reach_before:
  assumes ok: "heap_ok K rank h r0 P" and n: "live_node rank h r0 P q n" and p: "pred \<in> P" "\<not> marked h pred"
    and b: "pred = r0 \<or> rank (node_key h pred) < q"
  shows "reach h pred n" and "pred \<noteq> n"
proof -
  have nd: "n \<in> P" "n \<noteq> r0" "rank (node_key h n) = q" "reach h r0 n" using n heap_okD(10) [OF ok] by (auto simp: live_node_def)
  show ne: "pred \<noteq> n" using b nd by auto
  have "reach h pred n \<or> reach h n pred" using reach_linear [OF heap_okD(10) [OF ok p] nd(4)] by auto
  then show "reach h pred n" using reach_pub(2) [OF ok, of n pred] nd b ne by auto
qed

section \<open>Changes of the heap\<close>

lemma edge_upd: "edge (h(a \<mapsto> nd)) x y \<longleftrightarrow> (if x = a then y = STRIP_MARK (nd_next nd) \<and> y \<noteq> NULL else edge h x y)"
  by (auto simp: edge_def)

lemma edge_same: "h a = Some nd \<Longrightarrow> STRIP_MARK (nd_next nd') = STRIP_MARK (nd_next nd) \<Longrightarrow> edge (h(a \<mapsto> nd')) = edge h"
  by (intro ext) (auto simp: edge_def)

text \<open>A new node is linked in behind \<open>pred\<close>.\<close>

lemma reach_insert:
  assumes "h pred = Some pn" and "h new = Some nn" and "nd_next nn = nd_next pn" and "\<not> HAS_MARK new" and "new \<noteq> NULL" and "new \<noteq> pred"
    and "reach h x y"
  shows "reach (h(pred \<mapsto> pn\<lparr>nd_next := new\<rparr>)) x y"
  using assms(7)
proof (induction rule: rtranclp_induct)
  case (step y z)
  let ?h = "h(pred \<mapsto> pn\<lparr>nd_next := new\<rparr>)"
  have "reach ?h y z"
  proof (cases "y = pred")
    case True
    then have "edge ?h y new" "edge ?h new z" using step(2) assms(1-6) by (auto simp: edge_def)
    then show ?thesis by (meson r_into_rtranclp rtranclp_trans)
  next
    case False
    then have "edge ?h y z" using step(2) by (auto simp: edge_def)
    then show ?thesis by blast
  qed
  then show ?case using step.IH by (meson rtranclp_trans)
qed simp

text \<open>A marked node is unlinked.\<close>

lemma reach_unlink:
  assumes "h pred = Some pn" and "h item = Some nd" and "nd_next pn = item" and "\<not> HAS_MARK item" and "item \<noteq> NULL" and "item \<noteq> pred"
    and "reach h x y" and "y \<noteq> item"
  shows "reach (h(pred \<mapsto> pn\<lparr>nd_next := STRIP_MARK (nd_next nd)\<rparr>)) x y"
  using assms(7)
proof (induction rule: converse_rtranclp_induct)
  case (step x z)
  let ?h = "h(pred \<mapsto> pn\<lparr>nd_next := STRIP_MARK (nd_next nd)\<rparr>)"
  show ?case
  proof (cases "x = pred")
    case True
    then have z: "z = item" using step(1) assms(1-5) by (auto simp: edge_def)
    then obtain w where w: "edge ?h item w" "reach ?h w y" using reach_first [OF step.IH] assms(8) by metis
    then have "edge ?h x w" using True assms(2,6) by (auto simp: edge_def)
    then show ?thesis using w(2) by (meson converse_rtranclp_into_rtranclp)
  next
    case False
    then have "edge ?h x z" using step(1) by (auto simp: edge_def)
    then show ?thesis using step.IH by (meson converse_rtranclp_into_rtranclp)
  qed
qed simp

text \<open>A change outside the list.\<close>

lemma edge_outside: "a \<notin> P \<Longrightarrow> x \<in> P \<Longrightarrow> edge (h(a := r)) x y \<longleftrightarrow> edge h x y"
  by (auto simp: edge_def)

lemma reach_outside:
  assumes "heap_ok K rank h r0 P" and "a \<notin> P" and "reach h x y" and "x \<in> P"
  shows "reach (h(a := r)) x y"
  using assms(3,4)
proof (induction rule: converse_rtranclp_induct)
  case (step x z)
  then have "z \<in> P" using heap_okD(7) [OF assms(1)] by blast
  then show ?case using step edge_outside [OF assms(2), of x h r z] by (meson converse_rtranclp_into_rtranclp)
qed simp

lemma heap_ok_outside:
  assumes "heap_ok K rank h r0 P" and "a \<notin> P"
  shows "heap_ok K rank (h(a := r)) r0 P"
proof -
  have eq: "(h(a := r)) x = h x" if "x \<in> P" for x using that assms(2) by auto
  show ?thesis
    unfolding heap_ok_def
  proof (intro conjI ballI impI allI)
    fix x assume x: "x \<in> P"
    show "reach (h(a := r)) r0 x" if "\<not> marked (h(a := r)) x"
      using reach_outside [OF assms, of r0 x] heap_okD(1,10) [OF assms(1)] x that eq by metis
    fix y assume e: "edge (h(a := r)) x y"
    then have "edge h x y" using edge_outside [OF assms(2) x] by simp
    then show "y \<in> P" "y \<noteq> r0" "x = r0 \<or> rank (node_key (h(a := r)) x) < rank (node_key (h(a := r)) y)"
      using heap_okD(7,8,9) [OF assms(1) x] eq [OF x] eq [of y] by auto
  qed (use assms(1) eq in \<open>auto simp: heap_ok_def\<close>)
qed

lemma heap_ok_same_edges:
  assumes ok: "heap_ok K rank h r0 P" and a: "a \<in> P" "h a = Some nd" and nd': "nd_key nd' = nd_key nd" "STRIP_MARK (nd_next nd') = STRIP_MARK (nd_next nd)"
    and m: "HAS_MARK (nd_next nd) \<longrightarrow> HAS_MARK (nd_next nd')" "a = r0 \<longrightarrow> \<not> HAS_MARK (nd_next nd')"
    and v: "HAS_MARK (nd_next nd') \<or> nd_val nd' \<noteq> 0 \<or> a = r0"
  shows "heap_ok K rank (h(a \<mapsto> nd')) r0 P"
proof -
  let ?h = "h(a \<mapsto> nd')"
  have e: "edge ?h = edge h" using edge_same a(2) nd'(2) by blast
  have k: "node_key ?h x = node_key h x" for x using a nd' by simp
  show ?thesis
    using ok m v a unfolding heap_ok_def e k by (auto simp: a)
qed

lemma heap_ok_insert:
  assumes ok: "heap_ok K rank h r0 P" and pred: "pred \<in> P" "h pred = Some pn" "nd_next pn = old" "\<not> HAS_MARK old"
    and new: "new \<notin> P" "h new = Some nn" "nd_next nn = old" "\<not> HAS_MARK new" "new \<noteq> NULL" "nd_key nn \<in> K" "nd_val nn \<noteq> 0"
    and lo: "pred = r0 \<or> rank (nd_key pn) < rank (nd_key nn)"
    and hi: "old = NULL \<or> old \<in> P \<and> old \<noteq> r0 \<and> rank (nd_key nn) < rank (node_key h old)"
  shows "heap_ok K rank (h(pred \<mapsto> pn\<lparr>nd_next := new\<rparr>)) r0 (insert new P)"
proof -
  let ?h = "h(pred \<mapsto> pn\<lparr>nd_next := new\<rparr>)"
  have np: "new \<noteq> pred" using pred(1) new(1) by auto
  have k: "node_key ?h x = node_key h x" for x using pred by simp
  have v: "node_val ?h x = node_val h x" for x using pred by simp
  have m: "marked ?h x = marked h x" for x using pred new by simp
  have r: "reach ?h x y" if "reach h x y" for x y using reach_insert [OF pred(2) new(2) _ new(4,5) np that] pred(3) new(3) by simp
  have r0P: "r0 \<in> P" "r0 \<noteq> new" using heap_okD(1) [OF ok] new(1) by auto
  show ?thesis
    unfolding heap_ok_def k v m
  proof (intro conjI ballI impI allI)
    fix x assume x: "x \<in> insert new P"
    show "?h x \<noteq> None" "x \<noteq> NULL" "\<not> HAS_MARK x" using x heap_okD(3,4,5) [OF ok] new by auto
    show "node_key h x \<in> K" if "x \<noteq> r0" using x that heap_okD(6) [OF ok] new(2,6) by auto
    show "reach ?h r0 x" if "\<not> marked h x"
    proof (cases "x = new")
      case True
      have "reach ?h r0 pred" using r heap_okD(10) [OF ok pred(1)] pred(2-4) by simp
      moreover have "edge ?h pred new" using new(4,5) by (simp add: edge_def)
      ultimately show ?thesis using True by (meson rtranclp.rtrancl_into_rtrancl)
    next
      case False
      then show ?thesis using r heap_okD(10) [OF ok] x that by auto
    qed
    show "node_val h x \<noteq> 0" if "x \<noteq> r0 \<and> \<not> marked h x" using x that heap_okD(11) [OF ok] new(2,7) by auto
    fix y assume e: "edge ?h x y"
    consider "x = pred" "y = new" | "x = new" "y = old" "old \<noteq> NULL" | "x \<in> P" "x \<noteq> pred" "edge h x y"
      using e x new(2,3,4) pred(4) np by (auto simp: edge_upd edge_def split: if_splits)
    then have "y \<in> insert new P \<and> y \<noteq> r0 \<and> (x = r0 \<or> rank (node_key h x) < rank (node_key h y))"
      using lo hi pred(1,2) new(1,2) r0P heap_okD(7,8,9) [OF ok, of x y] by cases auto
    then show "y \<in> insert new P" "y \<noteq> r0" "x = r0 \<or> rank (node_key h x) < rank (node_key h y)" by blast+
  qed (use heap_okD(1,2) [OF ok] in auto)
qed

lemma heap_ok_unlink:
  assumes ok: "heap_ok K rank h r0 P" and pred: "pred \<in> P" "h pred = Some pn" "nd_next pn = item"
    and item: "item \<in> P" "item \<noteq> r0" "h item = Some nd" "HAS_MARK (nd_next nd)"
  shows "heap_ok K rank (h(pred \<mapsto> pn\<lparr>nd_next := STRIP_MARK (nd_next nd)\<rparr>)) r0 P"
proof -
  let ?h = "h(pred \<mapsto> pn\<lparr>nd_next := STRIP_MARK (nd_next nd)\<rparr>)"
  note i = heap_okD(4,5) [OF ok item(1)]
  have np: "item \<noteq> pred" using pred item i by auto
  have k: "node_key ?h x = node_key h x" for x using pred by simp
  have v: "node_val ?h x = node_val h x" for x using pred by simp
  have m: "marked ?h x = marked h x" for x using pred i by simp
  have ep: "edge h pred item" using pred i by (auto simp: edge_def)
  have r: "reach ?h x y" if "reach h x y" "y \<noteq> item" for x y
    using reach_unlink [OF pred(2) item(3) pred(3) i(2,1) np that] .
  show ?thesis
    unfolding heap_ok_def k v m
  proof (intro conjI ballI impI allI)
    fix x assume x: "x \<in> P"
    show "?h x \<noteq> None" "x \<noteq> NULL" "\<not> HAS_MARK x" using heap_okD(3,4,5) [OF ok x] by auto
    show "node_key h x \<in> K" if "x \<noteq> r0" using heap_okD(6) [OF ok x that] .
    show "reach ?h r0 x" if "\<not> marked h x" using r [OF heap_okD(10) [OF ok x that]] that item(3,4) by fastforce
    show "node_val h x \<noteq> 0" if "x \<noteq> r0 \<and> \<not> marked h x" using heap_okD(11) [OF ok x] that by auto
    fix y assume e: "edge ?h x y"
    show "y \<in> P" "y \<noteq> r0" "x = r0 \<or> rank (node_key h x) < rank (node_key h y)"
    proof -
      consider "x = pred" "edge h item y" | "x \<noteq> pred" "edge h x y"
        using e item(3) by (auto simp: edge_upd edge_def split: if_splits)
      then have "y \<in> P \<and> y \<noteq> r0 \<and> (x = r0 \<or> rank (node_key h x) < rank (node_key h y))"
      proof cases
        case 1
        then show ?thesis using heap_okD(7,8,9) [OF ok item(1), of y] heap_okD(9) [OF ok pred(1) ep] item(2) by force
      next
        case 2
        then show ?thesis using heap_okD(7,8,9) [OF ok x, of y] by auto
      qed
      then show "y \<in> P" "y \<noteq> r0" "x = r0 \<or> rank (node_key h x) < rank (node_key h y)" by blast+
    qed
  qed (use heap_okD(1,2) [OF ok] in auto)
qed

section \<open>Views\<close>

text \<open>What the invariant is about: the nodes, those of them that have been linked, a linearization of the history,
  and for a node that has been marked the number of the operation that removes it.\<close>

record lc_view =
  v_heap :: "addr \<Rightarrow> node option"
  v_head :: addr
  v_pub :: "addr set"
  v_lin :: "(ll_op, map_val_t) lin_entry list"
  v_rem :: "addr \<Rightarrow> nat"
  v_hist :: "(ll_op, map_val_t) lin_event list"

abbreviation no_bindings :: "int \<Rightarrow> map_val_t option" where "no_bindings \<equiv> \<lambda>_. None"

abbreviation v_live :: "(map_key_t \<Rightarrow> int) \<Rightarrow> lc_view \<Rightarrow> int \<Rightarrow> addr \<Rightarrow> bool" where
  "v_live rank V q n \<equiv> live_node rank (v_heap V) (v_head V) (v_pub V) q n"

text \<open>A node that is marked and whose value has not been taken out yet.\<close>

definition doomed :: "lc_view \<Rightarrow> addr \<Rightarrow> bool" where
  "doomed V x \<longleftrightarrow> x \<in> v_pub V \<and> marked (v_heap V) x \<and> node_val (v_heap V) x \<noteq> 0"

definition view_ok :: "map_key_t set \<Rightarrow> (map_key_t \<Rightarrow> int) \<Rightarrow> lc_view \<Rightarrow> bool" where
  "view_ok K rank V \<longleftrightarrow>
     heap_ok K rank (v_heap V) (v_head V) (v_pub V) \<and>
     linearization (ll_spec rank) no_bindings (v_hist V) (v_lin V) \<and>
     (\<forall>q v. replay (ll_spec rank) (v_lin V) no_bindings q = Some v \<longleftrightarrow> (\<exists>n. v_live rank V q n \<and> node_val (v_heap V) n = v)) \<and>
     (\<forall>x. doomed V x \<longrightarrow> pending (v_hist V) (v_rem V x) \<and>
        (\<exists>k. (v_rem V x, LL_Remove k, node_val (v_heap V) x) \<in> set (v_lin V) \<and> rank k = rank (node_key (v_heap V) x))) \<and>
     inj_on (v_rem V) {x. doomed V x}"

lemma view_okD:
  assumes "view_ok K rank V"
  shows "heap_ok K rank (v_heap V) (v_head V) (v_pub V)" and "linearization (ll_spec rank) no_bindings (v_hist V) (v_lin V)"
    and "replay (ll_spec rank) (v_lin V) no_bindings q = Some v \<longleftrightarrow> (\<exists>n. v_live rank V q n \<and> node_val (v_heap V) n = v)"
    and "doomed V x \<Longrightarrow> pending (v_hist V) (v_rem V x)"
    and "doomed V x \<Longrightarrow> \<exists>k. (v_rem V x, LL_Remove k, node_val (v_heap V) x) \<in> set (v_lin V) \<and> rank k = rank (node_key (v_heap V) x)"
    and "inj_on (v_rem V) {x. doomed V x}"
  using assms unfolding view_ok_def by blast+

text \<open>At some moment since operation \<open>i\<close> was called the key was not bound.\<close>

definition misses :: "(map_key_t \<Rightarrow> int) \<Rightarrow> lc_view \<Rightarrow> nat \<Rightarrow> int \<Rightarrow> bool" where
  "misses rank V i q \<longleftrightarrow> sometime (ll_spec rank) no_bindings (v_hist V) (v_lin V) i (\<lambda>m. m q = None)"

text \<open>A search for a key that is at \<open>x\<close> will meet the key's node, or the key was not bound at some moment.\<close>

definition seeks :: "(map_key_t \<Rightarrow> int) \<Rightarrow> lc_view \<Rightarrow> nat \<Rightarrow> int \<Rightarrow> addr \<Rightarrow> bool" where
  "seeks rank V i q x \<longleftrightarrow> x \<in> v_pub V \<and> (misses rank V i q \<or> (\<exists>n. v_live rank V q n \<and> reach (v_heap V) x n))"

text \<open>A node with the key, which was not marked at some moment since operation \<open>i\<close> was called.\<close>

definition held :: "(map_key_t \<Rightarrow> int) \<Rightarrow> lc_view \<Rightarrow> nat \<Rightarrow> int \<Rightarrow> addr \<Rightarrow> bool" where
  "held rank V i q n \<longleftrightarrow> n \<in> v_pub V \<and> n \<noteq> v_head V \<and> rank (node_key (v_heap V) n) = q \<and>
     (marked (v_heap V) n \<longrightarrow> misses rank V i q \<and> (doomed V n \<longrightarrow> awaits (v_hist V) (v_lin V) (v_rem V n) i))"

text \<open>What an operation can rely on when another one takes a step.\<close>

definition rely :: "(map_key_t \<Rightarrow> int) \<Rightarrow> nat \<Rightarrow> lc_view \<Rightarrow> lc_view \<Rightarrow> bool" where
  "rely rank i V V' \<longleftrightarrow>
     v_head V' = v_head V \<and> v_pub V \<subseteq> v_pub V' \<and>
     (\<forall>x \<in> v_pub V. node_key (v_heap V') x = node_key (v_heap V) x) \<and>
     (\<forall>x \<in> v_pub V. marked (v_heap V) x \<longrightarrow> node_next (v_heap V') x = node_next (v_heap V) x) \<and>
     (\<forall>q. misses rank V i q \<longrightarrow> misses rank V' i q) \<and>
     (\<forall>q x. seeks rank V i q x \<longrightarrow> seeks rank V' i q x) \<and>
     (\<forall>q n. held rank V i q n \<longrightarrow> held rank V' i q n) \<and>
     (i \<notin> fst ` set (v_lin V) \<longrightarrow> i \<notin> fst ` set (v_lin V'))"

lemma relyI:
  assumes "v_head V' = v_head V" and "v_pub V \<subseteq> v_pub V'" and "\<And>x. x \<in> v_pub V \<Longrightarrow> node_key (v_heap V') x = node_key (v_heap V) x"
    and "\<And>x. x \<in> v_pub V \<Longrightarrow> marked (v_heap V) x \<Longrightarrow> node_next (v_heap V') x = node_next (v_heap V) x"
    and "\<And>q. misses rank V i q \<Longrightarrow> misses rank V' i q"
    and "\<And>q x n. x \<in> v_pub V \<Longrightarrow> v_live rank V q n \<Longrightarrow> reach (v_heap V) x n \<Longrightarrow> misses rank V' i q \<or> (v_live rank V' q n \<and> reach (v_heap V') x n)"
    and "\<And>n. n \<in> v_pub V \<Longrightarrow> n \<noteq> v_head V \<Longrightarrow> marked (v_heap V') n \<Longrightarrow> held rank V i (rank (node_key (v_heap V) n)) n \<Longrightarrow>
      misses rank V' i (rank (node_key (v_heap V) n)) \<and> (doomed V' n \<longrightarrow> awaits (v_hist V') (v_lin V') (v_rem V' n) i)"
    and "i \<notin> fst ` set (v_lin V) \<Longrightarrow> i \<notin> fst ` set (v_lin V')"
  shows "rely rank i V V'"
proof -
  have s: "seeks rank V' i q x" if "seeks rank V i q x" for q x
    using that assms(2,5,6) unfolding seeks_def by blast
  have h: "held rank V' i q n" if "held rank V i q n" for q n
    using that assms(1,2,3) assms(7) [of n] unfolding held_def by auto
  show ?thesis unfolding rely_def using assms(1-5,8) s h by blast
qed

lemma rely_refl [simp]: "rely rank i V V"
  by (simp add: rely_def)

text \<open>A doomed node's removal is in the linearization.\<close>

lemma doomed_entry:
  assumes ok: "view_ok K rank V" and d: "doomed V n"
  obtains A k B where "v_lin V = A @ (v_rem V n, LL_Remove k, node_val (v_heap V) n) # B" "rank k = rank (node_key (v_heap V) n)"
    "replay (ll_spec rank) A no_bindings (rank k) = Some (node_val (v_heap V) n)"
proof -
  obtain k where k: "(v_rem V n, LL_Remove k, node_val (v_heap V) n) \<in> set (v_lin V)" "rank k = rank (node_key (v_heap V) n)"
    using view_okD(5) [OF assms] by auto
  obtain A B where L: "v_lin V = A @ (v_rem V n, LL_Remove k, node_val (v_heap V) n) # B" using split_list [OF k(1)] by auto
  have "found_val (replay (ll_spec rank) A no_bindings (rank k)) = node_val (v_heap V) n"
    using linearizationD(1) [OF view_okD(2) [OF ok]] L by simp
  then have "replay (ll_spec rank) A no_bindings (rank k) = Some (node_val (v_heap V) n)"
    using d by (cases "replay (ll_spec rank) A no_bindings (rank k)") (auto simp: doomed_def)
  then show thesis using that L k(2) by blast
qed

lemma doomed_in_lin: "view_ok K rank V \<Longrightarrow> doomed V n \<Longrightarrow> v_rem V n \<in> fst ` set (v_lin V)"
  by (elim doomed_entry) auto

text \<open>A key that has no node is not bound.\<close>

lemma not_live_None:
  assumes "view_ok K rank V" and "\<And>n. \<not> v_live rank V q n"
  shows "replay (ll_spec rank) (v_lin V) no_bindings q = None"
  using view_okD(3) [OF assms(1), of q] assms(2) by (cases "replay (ll_spec rank) (v_lin V) no_bindings q") auto

lemma live_Some:
  assumes "view_ok K rank V" and "v_live rank V q n"
  shows "replay (ll_spec rank) (v_lin V) no_bindings q = Some (node_val (v_heap V) n)"
  using view_okD(3) [OF assms(1)] assms(2) by blast

section \<open>Steps of the view\<close>

text \<open>An operation that changes nothing takes effect at some moment since it was called.\<close>

lemma view_read:
  assumes ok: "view_ok K rank V" and j: "Call j c \<in> set (v_hist V)" "pending (v_hist V) j" "j \<notin> fst ` set (v_lin V)"
    and some: "sometime (ll_spec rank) no_bindings (v_hist V) (v_lin V) j (\<lambda>m. ll_spec rank c m = (r, m))"
  shows "\<exists>L. (j, c, r) \<in> set L \<and> set (v_lin V) \<subseteq> set L \<and> view_ok K rank (V\<lparr>v_lin := L\<rparr>) \<and> (\<forall>i. i \<noteq> j \<longrightarrow> rely rank i V (V\<lparr>v_lin := L\<rparr>))"
proof -
  obtain A B where L: "v_lin V = A @ B" "snd (ll_spec rank c (replay (ll_spec rank) A no_bindings)) = replay (ll_spec rank) A no_bindings"
    "linearization (ll_spec rank) no_bindings (v_hist V) (A @ (j, c, r) # B)"
    using linearization_sometime [OF view_okD(2) [OF ok] j some] by blast
  let ?L = "A @ (j, c, r) # B" and ?V = "V\<lparr>v_lin := A @ (j, c, r) # B\<rparr>"
  have eff: "replay (ll_spec rank) ?L no_bindings = replay (ll_spec rank) (v_lin V) no_bindings" using L(1,2) by simp
  have sub: "set (v_lin V) \<subseteq> set ?L" using L(1) by auto
  have d: "doomed ?V = doomed V" by (intro ext) (simp add: doomed_def)
  have np: "\<not> precedes (v_hist V) j i" for i using pending_not_precedes [OF j(2)] .
  have "view_ok K rank ?V"
    unfolding view_ok_def d using ok L(3) eff sub unfolding view_ok_def by (simp add: subset_iff) blast
  moreover have "rely rank i V ?V" if i: "i \<noteq> j" for i
  proof (rule relyI)
    show m: "misses rank ?V i q" if "misses rank V i q" for q
      using that sometime_insert [of "ll_spec rank" no_bindings "v_hist V" A B i _ c j r] L(1,2) np by (simp add: misses_def)
    show "misses rank ?V i (rank (node_key (v_heap V) n)) \<and> (doomed ?V n \<longrightarrow> awaits (v_hist ?V) (v_lin ?V) (v_rem ?V n) i)"
      if "marked (v_heap ?V) n" "held rank V i (rank (node_key (v_heap V) n)) n" for n
      using that m d awaits_insert [of "v_hist V" A B "v_rem V n" i "(j, c, r)"] L(1) np doomed_in_lin [OF ok, of n] j(3)
      by (auto simp: held_def)
    show "i \<notin> fst ` set (v_lin V) \<Longrightarrow> i \<notin> fst ` set (v_lin ?V)" using L(1) i by auto
  qed auto
  ultimately show ?thesis using sub by (intro exI [of _ ?L]) auto
qed

text \<open>Steps that append an operation to the linearization.\<close>

lemma misses_snoc:
  assumes "misses rank V i q" and "pending (v_hist V) j" and "v_hist V' = v_hist V" and "v_lin V' = v_lin V @ [(j, c, r)]"
  shows "misses rank V' i q"
  using assms sometime_snoc [of "ll_spec rank" no_bindings "v_hist V" "v_lin V" i _ "(j, c, r)"] pending_not_precedes [OF assms(2)]
  by (simp add: misses_def)

lemma held_snoc:
  assumes "view_ok K rank V" and "held rank V i q n" and "marked (v_heap V) n" and "pending (v_hist V) j" and "j \<notin> fst ` set (v_lin V)"
    and "v_hist V' = v_hist V" and "v_lin V' = v_lin V @ [(j, c, r)]" and "v_rem V' n = v_rem V n" and "doomed V' n \<longrightarrow> doomed V n"
  shows "misses rank V' i q \<and> (doomed V' n \<longrightarrow> awaits (v_hist V') (v_lin V') (v_rem V' n) i)"
proof -
  have m: "misses rank V i q" and a: "doomed V n \<longrightarrow> awaits (v_hist V) (v_lin V) (v_rem V n) i" using assms(2,3) by (auto simp: held_def)
  have "awaits (v_hist V') (v_lin V') (v_rem V' n) i" if "doomed V' n"
    using a that assms(5-9) doomed_in_lin [OF assms(1), of n] pending_not_precedes [OF assms(4), of i]
      awaits_snoc [of "v_hist V" "v_lin V" "v_rem V n" i "(j, c, r)"] by auto
  then show ?thesis using misses_snoc [OF m assms(4,6,7)] by blast
qed

text \<open>A compare-and-swap replaces the value of a node that is not marked.\<close>

lemma view_update_live:
  assumes ok: "view_ok K rank V" and n: "v_live rank V (rank k) n" "v_heap V n = Some nd" and e: "e \<noteq> CAS_EXPECT_DOES_NOT_EXIST" and v: "v \<noteq> 0"
    and j: "Call j (LL_Cas k e v) \<in> set (v_hist V)" "pending (v_hist V) j" "j \<notin> fst ` set (v_lin V)"
    and V': "V' = V\<lparr>v_heap := (v_heap V)(n \<mapsto> nd\<lparr>nd_val := v\<rparr>), v_lin := v_lin V @ [(j, LL_Cas k e v, nd_val nd)]\<rparr>"
  shows "view_ok K rank V'" and "i \<noteq> j \<Longrightarrow> rely rank i V V'"
proof -
  let ?h = "(v_heap V)(n \<mapsto> nd\<lparr>nd_val := v\<rparr>)" and ?R = "replay (ll_spec rank) (v_lin V) no_bindings"
  have np: "n \<in> v_pub V" "n \<noteq> v_head V" "\<not> marked (v_heap V) n" "rank (node_key (v_heap V) n) = rank k" using n(1) by (auto simp: live_node_def)
  have sel: "node_key ?h x = node_key (v_heap V) x" "node_next ?h x = node_next (v_heap V) x" "node_val ?h x = (if x = n then v else node_val (v_heap V) x)" for x
    using n(2) by auto
  have ed: "edge ?h = edge (v_heap V)" using edge_same n(2) by simp
  have lv: "v_live rank V' q x = v_live rank V q x" for q x unfolding live_node_def V' by (simp add: n(2))
  have dm: "doomed V' x \<longleftrightarrow> doomed V x" for x using np(3) n(2) unfolding doomed_def V' by auto
  have now: "?R (rank k) = Some (nd_val nd)" using live_Some [OF ok n(1)] n(2) by simp
  have eff: "replay (ll_spec rank) (v_lin V') no_bindings = ?R(rank k \<mapsto> v)" using now e V' by simp
  show "view_ok K rank V'"
    unfolding view_ok_def
  proof (intro conjI allI impI)
    show "heap_ok K rank (v_heap V') (v_head V') (v_pub V')"
      using heap_ok_same_edges [OF view_okD(1) [OF ok] np(1) n(2), of "nd\<lparr>nd_val := v\<rparr>"] heap_okD(2) [OF view_okD(1) [OF ok]] v np(2) V' by simp
    show "linearization (ll_spec rank) no_bindings (v_hist V') (v_lin V')"
      using linearization_snoc [OF view_okD(2) [OF ok] j] now V' by simp
    show "(replay (ll_spec rank) (v_lin V') no_bindings q = Some w) = (\<exists>m. v_live rank V' q m \<and> node_val (v_heap V') m = w)" for q w
    proof (cases "q = rank k")
      case True
      then have "v_live rank V q m \<longleftrightarrow> m = n" for m using live_node_unique [OF view_okD(1) [OF ok], of q m n] n(1) by metis
      then show ?thesis using True unfolding eff lv by (auto simp: V')
    next
      case False
      then have "m \<noteq> n" if "v_live rank V q m" for m using that np(4) by (auto simp: live_node_def)
      then show ?thesis using False view_okD(3) [OF ok, of q w] unfolding eff lv by (auto simp: V')
    qed
    show "inj_on (v_rem V') {x. doomed V' x}" using view_okD(6) [OF ok] unfolding dm by (simp add: V')
    fix x assume "doomed V' x"
    then have x: "doomed V x" "x \<noteq> n" using dm np(3) by (auto simp: doomed_def)
    show "pending (v_hist V') (v_rem V' x)" using view_okD(4) [OF ok x(1)] V' by simp
    show "\<exists>k. (v_rem V' x, LL_Remove k, node_val (v_heap V') x) \<in> set (v_lin V') \<and> rank k = rank (node_key (v_heap V') x)"
      using view_okD(5) [OF ok x(1)] x(2) V' by auto
  qed
  assume i: "i \<noteq> j"
  show "rely rank i V V'"
  proof (rule relyI)
    show "misses rank V' i q" if "misses rank V i q" for q using misses_snoc [OF that j(2)] V' by simp
    show "misses rank V' i q \<or> v_live rank V' q m \<and> reach (v_heap V') x m" if "v_live rank V q m" "reach (v_heap V) x m" for q x m
      using that lv ed by (simp add: V')
    show "misses rank V' i (rank (node_key (v_heap V) m)) \<and> (doomed V' m \<longrightarrow> awaits (v_hist V') (v_lin V') (v_rem V' m) i)"
      if "marked (v_heap V') m" "held rank V i (rank (node_key (v_heap V) m)) m" for m
      by (rule held_snoc [OF ok that(2) _ j(2,3)]) (use that(1) dm V' np(3) n(2) in \<open>auto split: if_splits\<close>)
  qed (use i V' n(2) in auto)
qed

text \<open>A compare-and-swap replaces the value of a node that is marked: the update takes effect before the removal.\<close>

lemma view_update_doomed:
  assumes ok: "view_ok K rank V" and n: "doomed V n" "v_heap V n = Some nd" "rank (nd_key nd) = rank k" and e: "e \<noteq> CAS_EXPECT_DOES_NOT_EXIST" and v: "v \<noteq> 0"
    and j: "Call j (LL_Cas k e v) \<in> set (v_hist V)" "pending (v_hist V) j" "j \<notin> fst ` set (v_lin V)" and aw: "awaits (v_hist V) (v_lin V) (v_rem V n) j"
  shows "\<exists>L. let V' = V\<lparr>v_heap := (v_heap V)(n \<mapsto> nd\<lparr>nd_val := v\<rparr>), v_lin := L\<rparr> in
    view_ok K rank V' \<and> (\<forall>i. i \<noteq> j \<longrightarrow> rely rank i V V') \<and> (j, LL_Cas k e v, nd_val nd) \<in> set L \<and>
    (\<forall>i c r. i \<noteq> v_rem V n \<longrightarrow> (i, c, r) \<in> set (v_lin V) \<longrightarrow> (i, c, r) \<in> set L) \<and>
    (\<forall>c. (v_rem V n, c, nd_val nd) \<in> set (v_lin V) \<longrightarrow> (v_rem V n, c, v) \<in> set L)"
proof -
  obtain A k' B where L: "v_lin V = A @ (v_rem V n, LL_Remove k', nd_val nd) # B" "rank k' = rank k"
    "replay (ll_spec rank) A no_bindings (rank k) = Some (nd_val nd)"
    using doomed_entry [OF ok n(1)] n(2,3) by (metis option.sel)
  let ?U = "(j, LL_Cas k e v, nd_val nd)" and ?R = "(v_rem V n, LL_Remove k', v)"
  define L' where "L' = A @ ?U # ?R # B"
  define V' where "V' = V\<lparr>v_heap := (v_heap V)(n \<mapsto> nd\<lparr>nd_val := v\<rparr>), v_lin := L'\<rparr>"
  let ?h = "(v_heap V)(n \<mapsto> nd\<lparr>nd_val := v\<rparr>)"
  have dis: "distinct (map fst (v_lin V))" using linearizationD(2) [OF view_okD(2) [OF ok]] .
  have late: "\<forall>e \<in> set ((v_rem V n, LL_Remove k', nd_val nd) # B). \<not> precedes (v_hist V) (fst e) j"
    using awaits_split aw dis L(1) by metis
  have pj: "\<not> precedes (v_hist V) j i" and pr: "\<not> precedes (v_hist V) (v_rem V n) i" for i
    using pending_not_precedes [OF j(2)] pending_not_precedes [OF view_okD(4) [OF ok n(1)]] by auto
  have np: "n \<in> v_pub V" "n \<noteq> v_head V" "marked (v_heap V) n"
    using n(1) heap_okD(2) [OF view_okD(1) [OF ok]] by (auto simp: doomed_def)
  have legB: "legal (ll_spec rank) B ((replay (ll_spec rank) A no_bindings)(rank k := None))" and legA: "legal (ll_spec rank) A no_bindings"
    using linearizationD(1) [OF view_okD(2) [OF ok]] L by simp_all
  have lin1: "linearization (ll_spec rank) no_bindings (v_hist V) (A @ (v_rem V n, LL_Remove k', v) # B)" if "nd_val nd = v" using view_okD(2) [OF ok] L(1) that by simp
  have lin: "linearization (ll_spec rank) no_bindings (v_hist V) L'"
    unfolding linearization_def
  proof (intro conjI)
    show "legal (ll_spec rank) L' no_bindings" using legA legB L(2,3) e by (simp add: L'_def)
    show "distinct (map fst L')" using dis j(3) L(1) by (auto simp: L'_def)
    show "sorted_wrt (\<lambda>x y. \<not> precedes (v_hist V) (fst y) (fst x)) L'"
      using linearizationD(5) [OF view_okD(2) [OF ok]] late pj L(1) by (auto simp: L'_def sorted_wrt_append)
    show "\<forall>i c r. (i, c, r) \<in> set L' \<longrightarrow> Call i c \<in> set (v_hist V)"
      using linearizationD(3) [OF view_okD(2) [OF ok]] j(1) L(1) by (auto simp: L'_def)
    show "\<forall>i r. Return i r \<in> set (v_hist V) \<longrightarrow> (\<exists>c. (i, c, r) \<in> set L')"
      using linearizationD(4) [OF view_okD(2) [OF ok]] view_okD(4) [OF ok n(1)] L(1) by (fastforce simp: L'_def pending_def)
  qed
  have eff: "replay (ll_spec rank) L' no_bindings = replay (ll_spec rank) (v_lin V) no_bindings" using L e by (simp add: L'_def)
  have ed: "edge ?h = edge (v_heap V)" using edge_same n(2) by simp
  have lv: "v_live rank V' q x = v_live rank V q x" for q x unfolding live_node_def V'_def by (simp add: n(2))
  have dm: "doomed V' x \<longleftrightarrow> doomed V x" for x using n v unfolding doomed_def V'_def by auto
  have keep: "(i, c, r) \<in> set L'" if "i \<noteq> v_rem V n" "(i, c, r) \<in> set (v_lin V)" for i c r using that L(1) by (auto simp: L'_def)
  have own: "(v_rem V n, c, v) \<in> set L'" if "(v_rem V n, c, nd_val nd) \<in> set (v_lin V)" for c
  proof -
    have "c = LL_Remove k'" using that dis L(1) by (auto simp: image_iff)
    then show ?thesis by (simp add: L'_def)
  qed
  have "view_ok K rank V'"
    unfolding view_ok_def
  proof (intro conjI allI impI)
    show "heap_ok K rank (v_heap V') (v_head V') (v_pub V')"
      using heap_ok_same_edges [OF view_okD(1) [OF ok] np(1) n(2), of "nd\<lparr>nd_val := v\<rparr>"] v np(2) V'_def by simp
    show "linearization (ll_spec rank) no_bindings (v_hist V') (v_lin V')" using lin V'_def by simp
    show "(replay (ll_spec rank) (v_lin V') no_bindings q = Some w) = (\<exists>m. v_live rank V' q m \<and> node_val (v_heap V') m = w)" for q w
    proof -
      have "m \<noteq> n" if "v_live rank V q m" for m using that np(3) by (auto simp: live_node_def)
      then show ?thesis using view_okD(3) [OF ok, of q w] unfolding lv by (auto simp: V'_def eff)
    qed
    show "inj_on (v_rem V') {x. doomed V' x}" using view_okD(6) [OF ok] unfolding dm by (simp add: V'_def)
    fix x assume "doomed V' x"
    then have x: "doomed V x" using dm by simp
    show "pending (v_hist V') (v_rem V' x)" using view_okD(4) [OF ok x] V'_def by simp
    show "\<exists>k. (v_rem V' x, LL_Remove k, node_val (v_heap V') x) \<in> set (v_lin V') \<and> rank k = rank (node_key (v_heap V') x)"
    proof (cases "x = n")
      case True
      then show ?thesis using L(2) n(3) by (auto simp: V'_def L'_def)
    next
      case False
      then have "v_rem V x \<noteq> v_rem V n" using view_okD(6) [OF ok] x n(1) by (auto dest: inj_onD)
      then show ?thesis using view_okD(5) [OF ok x] keep False by (auto simp: V'_def)
    qed
  qed
  moreover have "rely rank i V V'" if i: "i \<noteq> j" for i
  proof (rule relyI)
    show m: "misses rank V' i q" if "misses rank V i q" for q
      using that sometime_replace [of "ll_spec rank" no_bindings "v_hist V" A "[(v_rem V n, LL_Remove k', nd_val nd)]" B i _ "[?U, ?R]"] L e pj pr
      by (simp add: misses_def V'_def L'_def)
    show "misses rank V' i q \<or> v_live rank V' q m \<and> reach (v_heap V') x m" if "v_live rank V q m" "reach (v_heap V) x m" for q x m
      using that lv ed by (simp add: V'_def)
    show "misses rank V' i (rank (node_key (v_heap V) m)) \<and> (doomed V' m \<longrightarrow> awaits (v_hist V') (v_lin V') (v_rem V' m) i)"
      if h: "marked (v_heap V') m" "held rank V i (rank (node_key (v_heap V) m)) m" for m
    proof -
      have "marked (v_heap V) m" using h(1) n(2) by (auto simp: V'_def split: if_splits)
      then have mm: "misses rank V i (rank (node_key (v_heap V) m))" and a: "doomed V m \<longrightarrow> awaits (v_hist V) (v_lin V) (v_rem V m) i"
        using h(2) by (auto simp: held_def)
      have "awaits (v_hist V) L' (v_rem V m) i" if "doomed V m"
      proof -
        have "awaits (v_hist V) (A @ ?R # B) (v_rem V m) i" using awaits_revise [of "v_hist V" A "(v_rem V n, LL_Remove k', nd_val nd)" B "v_rem V m" i ?R] a that L(1) by simp
        then show ?thesis unfolding L'_def using awaits_insert [of "v_hist V" A "?R # B" "v_rem V m" i ?U] doomed_in_lin [OF ok that] j(3) pj by auto
      qed
      then show ?thesis using m [OF mm] dm by (simp add: V'_def)
    qed
    show "i \<notin> fst ` set (v_lin V')" if "i \<notin> fst ` set (v_lin V)" using that i L(1) by (auto simp: V'_def L'_def)
  qed (use n(2) in \<open>auto simp: V'_def\<close>)
  ultimately show ?thesis using keep own by (intro exI [of _ L']) (simp add: V'_def Let_def, simp add: L'_def)
qed

text \<open>A node is marked.\<close>

lemma view_mark:
  assumes ok: "view_ok K rank V" and n: "v_live rank V (rank k) n" "v_heap V n = Some nd"
    and j: "Call j (LL_Remove k) \<in> set (v_hist V)" "pending (v_hist V) j" "j \<notin> fst ` set (v_lin V)"
    and V': "V' = V\<lparr>v_heap := (v_heap V)(n \<mapsto> nd\<lparr>nd_next := MARK_NODE (nd_next nd)\<rparr>), v_lin := v_lin V @ [(j, LL_Remove k, nd_val nd)], v_rem := (v_rem V)(n := j)\<rparr>"
  shows "view_ok K rank V'" and "i \<noteq> j \<Longrightarrow> rely rank i V V'"
proof -
  let ?h = "(v_heap V)(n \<mapsto> nd\<lparr>nd_next := MARK_NODE (nd_next nd)\<rparr>)" and ?R = "replay (ll_spec rank) (v_lin V) no_bindings"
  have np: "n \<in> v_pub V" "n \<noteq> v_head V" "\<not> HAS_MARK (nd_next nd)" "rank (nd_key nd) = rank k" using n by (auto simp: live_node_def)
  have ed: "edge ?h = edge (v_heap V)" using edge_same n(2) np(3) by simp
  have lv: "v_live rank V' q x \<longleftrightarrow> v_live rank V q x \<and> x \<noteq> n" for q x unfolding live_node_def V' by (auto simp: n(2))
  have dm: "doomed V' x \<longleftrightarrow> doomed V x \<or> x = n" for x
    using np heap_okD(11) [OF view_okD(1) [OF ok] np(1,2)] n(2) unfolding doomed_def V' by auto
  have nd: "\<not> doomed V n" using np(3) n(2) by (simp add: doomed_def)
  have now: "?R (rank k) = Some (nd_val nd)" using live_Some [OF ok n(1)] n(2) by simp
  have eff: "replay (ll_spec rank) (v_lin V') no_bindings = ?R(rank k := None)" using V' by simp
  have rem: "v_rem V x \<noteq> j" if "doomed V x" for x using doomed_in_lin [OF ok that] j(3) by auto
  show "view_ok K rank V'"
    unfolding view_ok_def
  proof (intro conjI allI impI)
    show "heap_ok K rank (v_heap V') (v_head V') (v_pub V')"
      using heap_ok_same_edges [OF view_okD(1) [OF ok] np(1) n(2), of "nd\<lparr>nd_next := MARK_NODE (nd_next nd)\<rparr>"] np(2,3) V' by simp
    show "linearization (ll_spec rank) no_bindings (v_hist V') (v_lin V')"
      using linearization_snoc [OF view_okD(2) [OF ok] j] now V' by simp
    show "(replay (ll_spec rank) (v_lin V') no_bindings q = Some w) = (\<exists>m. v_live rank V' q m \<and> node_val (v_heap V') m = w)" for q w
    proof (cases "q = rank k")
      case True
      then have "v_live rank V q m \<longleftrightarrow> m = n" for m using live_node_unique [OF view_okD(1) [OF ok], of q m n] n(1) by metis
      then show ?thesis using True unfolding eff lv by auto
    next
      case False
      then have "m \<noteq> n" if "v_live rank V q m" for m using that np(4) n(2) by (auto simp: live_node_def)
      then show ?thesis using False view_okD(3) [OF ok, of q w] unfolding eff lv by (auto simp: V')
    qed
    show "inj_on (v_rem V') {x. doomed V' x}"
      using view_okD(6) [OF ok] rem nd unfolding dm by (auto simp: V' inj_on_def)
    fix x assume "doomed V' x"
    then have x: "x = n \<or> doomed V x" using dm by auto
    show "pending (v_hist V') (v_rem V' x)" using x view_okD(4) [OF ok, of x] j(2) V' by auto
    show "\<exists>k. (v_rem V' x, LL_Remove k, node_val (v_heap V') x) \<in> set (v_lin V') \<and> rank k = rank (node_key (v_heap V') x)"
    proof (cases "x = n")
      case True
      then show ?thesis using np(4) V' by auto
    next
      case False
      then show ?thesis using x view_okD(5) [OF ok, of x] V' by auto
    qed
  qed
  assume i: "i \<noteq> j"
  have miss: "misses rank V' i (rank k)" unfolding misses_def by (rule sometime_now) (simp add: eff)
  show "rely rank i V V'"
  proof (rule relyI)
    show "misses rank V' i q" if "misses rank V i q" for q using misses_snoc [OF that j(2)] V' by simp
    show "misses rank V' i q \<or> v_live rank V' q m \<and> reach (v_heap V') x m" if "v_live rank V q m" "reach (v_heap V) x m" for q x m
      using that lv ed miss np(4) n(2) by (cases "m = n") (auto simp: V' live_node_def)
    show "misses rank V' i (rank (node_key (v_heap V) m)) \<and> (doomed V' m \<longrightarrow> awaits (v_hist V') (v_lin V') (v_rem V' m) i)"
      if h: "marked (v_heap V') m" "held rank V i (rank (node_key (v_heap V) m)) m" for m
    proof (cases "m = n")
      case True
      then show ?thesis using miss np(4) n(2) awaits_new [OF j(3) pending_not_precedes [OF j(2)]] by (simp add: V')
    next
      case False
      show ?thesis by (rule held_snoc [OF ok h(2) _ j(2,3)]) (use h(1) dm V' False in auto)
    qed
  qed (use i V' n(2) np(3) in auto)
qed

text \<open>The remover takes the value out of a marked node.\<close>

lemma view_swap:
  assumes ok: "view_ok K rank V" and n: "n \<in> v_pub V" "v_heap V n = Some nd" "HAS_MARK (nd_next nd)"
    and V': "V' = V\<lparr>v_heap := (v_heap V)(n \<mapsto> nd\<lparr>nd_val := 0\<rparr>)\<rparr>"
  shows "view_ok K rank V'" and "rely rank i V V'"
proof -
  let ?h = "(v_heap V)(n \<mapsto> nd\<lparr>nd_val := 0\<rparr>)"
  have nh: "n \<noteq> v_head V" using heap_okD(2) [OF view_okD(1) [OF ok]] n by auto
  have ed: "edge ?h = edge (v_heap V)" using edge_same n(2) by simp
  have lv: "v_live rank V' q x = v_live rank V q x" for q x unfolding live_node_def V' by (simp add: n(2))
  have dm: "doomed V' x \<longleftrightarrow> doomed V x \<and> x \<noteq> n" for x using n unfolding doomed_def V' by auto
  show "view_ok K rank V'"
    unfolding view_ok_def
  proof (intro conjI allI impI)
    show "heap_ok K rank (v_heap V') (v_head V') (v_pub V')"
      using heap_ok_same_edges [OF view_okD(1) [OF ok] n(1,2), of "nd\<lparr>nd_val := 0\<rparr>"] n(3) nh V' by simp
    show "linearization (ll_spec rank) no_bindings (v_hist V') (v_lin V')" using view_okD(2) [OF ok] V' by simp
    show "(replay (ll_spec rank) (v_lin V') no_bindings q = Some w) = (\<exists>m. v_live rank V' q m \<and> node_val (v_heap V') m = w)" for q w
    proof -
      have "m \<noteq> n" if "v_live rank V q m" for m using that n(2,3) by (auto simp: live_node_def)
      then show ?thesis using view_okD(3) [OF ok, of q w] unfolding lv by (auto simp: V')
    qed
    show "inj_on (v_rem V') {x. doomed V' x}" using view_okD(6) [OF ok] unfolding dm by (auto simp: V' inj_on_def)
    fix x assume "doomed V' x"
    then have x: "doomed V x" "x \<noteq> n" using dm by auto
    show "pending (v_hist V') (v_rem V' x)" using view_okD(4) [OF ok x(1)] V' by simp
    show "\<exists>k. (v_rem V' x, LL_Remove k, node_val (v_heap V') x) \<in> set (v_lin V') \<and> rank k = rank (node_key (v_heap V') x)"
      using view_okD(5) [OF ok x(1)] x(2) V' by auto
  qed
  show "rely rank i V V'"
  proof (rule relyI)
    show "misses rank V' i q \<or> v_live rank V' q m \<and> reach (v_heap V') x m" if "v_live rank V q m" "reach (v_heap V) x m" for q x m
      using that lv ed by (simp add: V')
    show "misses rank V' i (rank (node_key (v_heap V) m)) \<and> (doomed V' m \<longrightarrow> awaits (v_hist V') (v_lin V') (v_rem V' m) i)"
      if h: "marked (v_heap V') m" "held rank V i (rank (node_key (v_heap V) m)) m" for m
    proof -
      have "marked (v_heap V) m" using h(1) n(2) by (auto simp: V' split: if_splits)
      then show ?thesis using h(2) dm by (auto simp: held_def misses_def V')
    qed
  qed (use V' n(2) in \<open>auto simp: misses_def\<close>)
qed

text \<open>A new node is linked in.\<close>

lemma view_insert:
  assumes ok: "view_ok K rank V" and pred: "pred \<in> v_pub V" "v_heap V pred = Some pn" "nd_next pn = old" "\<not> HAS_MARK old"
    and new: "new \<notin> v_pub V" "v_heap V new = Some nn" "nd_next nn = old" "\<not> HAS_MARK new" "new \<noteq> NULL" "nd_key nn \<in> K" "nd_val nn = v" "v \<noteq> 0"
    and key: "rank (nd_key nn) = rank k" and e: "e = CAS_EXPECT_DOES_NOT_EXIST \<or> e = CAS_EXPECT_WHATEVER"
    and lo: "pred = v_head V \<or> rank (nd_key pn) < rank k"
    and hi: "old = NULL \<or> old \<in> v_pub V \<and> old \<noteq> v_head V \<and> rank k < rank (node_key (v_heap V) old)"
    and j: "Call j (LL_Cas k e v) \<in> set (v_hist V)" "pending (v_hist V) j" "j \<notin> fst ` set (v_lin V)"
    and V': "V' = V\<lparr>v_heap := (v_heap V)(pred \<mapsto> pn\<lparr>nd_next := new\<rparr>), v_pub := insert new (v_pub V), v_lin := v_lin V @ [(j, LL_Cas k e v, DOES_NOT_EXIST)]\<rparr>"
  shows "view_ok K rank V'" and "i \<noteq> j \<Longrightarrow> rely rank i V V'"
proof -
  define h where "h = (v_heap V)(pred \<mapsto> pn\<lparr>nd_next := new\<rparr>)"
  have V'h: "v_heap V' = h" "v_head V' = v_head V" "v_pub V' = insert new (v_pub V)" "v_rem V' = v_rem V" "v_hist V' = v_hist V"
    using V' by (simp_all add: h_def)
  let ?R = "replay (ll_spec rank) (v_lin V) no_bindings"
  note hok = view_okD(1) [OF ok]
  have np: "new \<noteq> pred" using pred(1) new(1) by auto
  have nh: "new \<noteq> v_head V" using heap_okD(1) [OF hok] new(1) by auto
  have absent: "\<not> v_live rank V (rank k) n" for n
  proof
    assume n: "v_live rank V (rank k) n"
    have r: "reach (v_heap V) pred n" "pred \<noteq> n" using reach_before [OF hok n pred(1)] pred(2-4) lo by auto
    then obtain c where c: "edge (v_heap V) pred c" "reach (v_heap V) c n" using reach_first by metis
    then have "c = old" "old \<noteq> NULL" using pred(2,3,4) by (auto simp: edge_def)
    then show False using hi c(2) reach_pub(2) [OF hok c(2)] n by (cases "old = n") (auto simp: live_node_def)
  qed
  have now: "?R (rank k) = None" by (rule not_live_None [OF ok absent])
  have eff: "replay (ll_spec rank) (v_lin V') no_bindings = ?R(rank k \<mapsto> v)" using now e V' by auto
  have sel: "node_key h x = node_key (v_heap V) x" "marked h x = marked (v_heap V) x" "node_val h x = node_val (v_heap V) x" for x
    using pred new(4) by (simp_all add: h_def)
  have lv: "v_live rank V' q x \<longleftrightarrow> v_live rank V q x \<or> x = new \<and> q = rank k" for q x
    unfolding live_node_def V'h sel using new nh key pred(4) by auto
  have dm: "doomed V' x \<longleftrightarrow> doomed V x" for x
    unfolding doomed_def V'h sel using new pred(4) by auto
  show "view_ok K rank V'"
    unfolding view_ok_def
  proof (intro conjI allI impI)
    show "heap_ok K rank (v_heap V') (v_head V') (v_pub V')"
      using heap_ok_insert [OF hok pred new(1-6)] new(7,8) lo hi key V' by simp
    show "linearization (ll_spec rank) no_bindings (v_hist V') (v_lin V')"
      using linearization_snoc [OF view_okD(2) [OF ok] j] now V' by (simp add: DOES_NOT_EXIST_def)
    show "(replay (ll_spec rank) (v_lin V') no_bindings q = Some w) = (\<exists>m. v_live rank V' q m \<and> node_val (v_heap V') m = w)" for q w
    proof (cases "q = rank k")
      case True
      then have "v_live rank V' q m \<longleftrightarrow> m = new" for m using lv absent by auto
      then show ?thesis using True new(2,7) np unfolding eff V'h sel by auto
    next
      case False
      then have "v_live rank V' q m \<and> node_val (v_heap V') m = w \<longleftrightarrow> v_live rank V q m \<and> node_val (v_heap V) m = w" for m
        using lv sel V'h(1) by auto
      then show ?thesis using False view_okD(3) [OF ok, of q w] unfolding eff by auto
    qed
    show "inj_on (v_rem V') {x. doomed V' x}" using view_okD(6) [OF ok] unfolding dm by (simp add: V')
    fix x assume "doomed V' x"
    then have x: "doomed V x" using dm by auto
    show "pending (v_hist V') (v_rem V' x)" using view_okD(4) [OF ok x] V' by simp
    show "\<exists>k. (v_rem V' x, LL_Remove k, node_val (v_heap V') x) \<in> set (v_lin V') \<and> rank k = rank (node_key (v_heap V') x)"
      using view_okD(5) [OF ok x] unfolding V'h sel by (auto simp: V')
  qed
  assume i: "i \<noteq> j"
  show "rely rank i V V'"
  proof (rule relyI)
    show "misses rank V' i q" if "misses rank V i q" for q using misses_snoc [OF that j(2)] V' by simp
    show "misses rank V' i q \<or> v_live rank V' q m \<and> reach (v_heap V') x m" if "v_live rank V q m" "reach (v_heap V) x m" for q x m
      using that lv reach_insert [OF pred(2) new(2) _ new(4,5) np that(2)] pred(3) new(3) by (simp add: V')
    show "misses rank V' i (rank (node_key (v_heap V) m)) \<and> (doomed V' m \<longrightarrow> awaits (v_hist V') (v_lin V') (v_rem V' m) i)"
      if "marked (v_heap V') m" "held rank V i (rank (node_key (v_heap V) m)) m" for m
      by (rule held_snoc [OF ok that(2) _ j(2,3)]) (use that(1) dm V' V'h sel in auto)
    show "node_next (v_heap V') x = node_next (v_heap V) x" if "marked (v_heap V) x" for x using that pred(2-4) V' by (auto simp: h_def)
  qed (use i V' V'h sel in auto)
qed

text \<open>A marked node is unlinked.\<close>

lemma view_unlink:
  assumes ok: "view_ok K rank V" and pred: "pred \<in> v_pub V" "v_heap V pred = Some pn" "nd_next pn = item"
    and item: "item \<in> v_pub V" "item \<noteq> v_head V" "v_heap V item = Some nd" "HAS_MARK (nd_next nd)"
    and V': "V' = V\<lparr>v_heap := (v_heap V)(pred \<mapsto> pn\<lparr>nd_next := STRIP_MARK (nd_next nd)\<rparr>)\<rparr>"
  shows "view_ok K rank V'" and "rely rank i V V'"
proof -
  define h where "h = (v_heap V)(pred \<mapsto> pn\<lparr>nd_next := STRIP_MARK (nd_next nd)\<rparr>)"
  have V'h: "v_heap V' = h" "v_head V' = v_head V" "v_pub V' = v_pub V" "v_lin V' = v_lin V" "v_rem V' = v_rem V" "v_hist V' = v_hist V"
    using V' by (simp_all add: h_def)
  note hok = view_okD(1) [OF ok]
  note im = heap_okD(4,5) [OF hok item(1)]
  have np: "item \<noteq> pred" using pred item im by auto
  have sel: "node_key h x = node_key (v_heap V) x" "marked h x = marked (v_heap V) x" "node_val h x = node_val (v_heap V) x" for x
    using pred im by (simp_all add: h_def)
  have lv: "v_live rank V' q x \<longleftrightarrow> v_live rank V q x" for q x unfolding live_node_def V'h sel ..
  have dm: "doomed V' x \<longleftrightarrow> doomed V x" for x unfolding doomed_def V'h sel ..
  have ms: "misses rank V' i q \<longleftrightarrow> misses rank V i q" for i q by (simp add: misses_def V')
  show "view_ok K rank V'"
    unfolding view_ok_def lv dm
    using ok heap_ok_unlink [OF hok pred item, folded h_def] unfolding V'h sel view_ok_def by blast
  show "rely rank i V V'"
  proof (rule relyI)
    show "misses rank V' i q \<or> v_live rank V' q m \<and> reach (v_heap V') x m" if "v_live rank V q m" "reach (v_heap V) x m" for q x m
    proof -
      have "m \<noteq> item" using that(1) item(3,4) by (auto simp: live_node_def)
      then show ?thesis using that lv reach_unlink [OF pred(2) item(3) pred(3) im(2,1) np that(2), folded h_def] V'h by simp
    qed
    show "misses rank V' i (rank (node_key (v_heap V) m)) \<and> (doomed V' m \<longrightarrow> awaits (v_hist V') (v_lin V') (v_rem V' m) i)"
      if "marked (v_heap V') m" "held rank V i (rank (node_key (v_heap V) m)) m" for m
      using that dm ms unfolding held_def V'h sel by auto
    show "node_next (v_heap V') x = node_next (v_heap V) x" if "marked (v_heap V) x" for x using that pred(2,3) im V' by auto
  qed (use V'h sel ms in auto)
qed

text \<open>Memory outside the list changes.\<close>

lemma view_outside:
  assumes ok: "view_ok K rank V" and a: "a \<notin> v_pub V" and V': "V' = V\<lparr>v_heap := (v_heap V)(a := r)\<rparr>"
  shows "view_ok K rank V'" and "rely rank i V V'"
proof -
  note hok = view_okD(1) [OF ok]
  define h where "h = (v_heap V)(a := r)"
  have V'h: "v_heap V' = h" "v_head V' = v_head V" "v_pub V' = v_pub V" "v_lin V' = v_lin V" "v_rem V' = v_rem V" "v_hist V' = v_hist V"
    using V' by (simp_all add: h_def)
  have eq: "x \<in> v_pub V \<Longrightarrow> h x = v_heap V x" for x using a by (auto simp: h_def)
  have lv: "v_live rank V' q x \<longleftrightarrow> v_live rank V q x" for q x unfolding live_node_def V'h using eq by auto
  have dm: "doomed V' x \<longleftrightarrow> doomed V x" for x unfolding doomed_def V'h using eq by auto
  have ms: "misses rank V' i q \<longleftrightarrow> misses rank V i q" for i q by (simp add: misses_def V')
  show "view_ok K rank V'"
    unfolding view_ok_def lv dm
  proof (intro conjI allI impI)
    show "heap_ok K rank (v_heap V') (v_head V') (v_pub V')" using heap_ok_outside [OF hok a, of r] V'h by (simp add: h_def)
    show "(replay (ll_spec rank) (v_lin V') no_bindings q = Some w) = (\<exists>m. v_live rank V q m \<and> node_val (v_heap V') m = w)" for q w
      using view_okD(3) [OF ok, of q w] eq by (auto simp: V'h live_node_def)
    fix x assume x: "doomed V x"
    show "\<exists>k. (v_rem V' x, LL_Remove k, node_val (v_heap V') x) \<in> set (v_lin V') \<and> rank k = rank (node_key (v_heap V') x)"
      using view_okD(5) [OF ok x] x eq [of x] V'h by (auto simp: doomed_def)
  qed (use view_okD(2,4,6) [OF ok] V'h in auto)
  show "rely rank i V V'"
  proof (rule relyI)
    show "misses rank V' i q \<or> v_live rank V' q m \<and> reach (v_heap V') x m" if "x \<in> v_pub V" "v_live rank V q m" "reach (v_heap V) x m" for q x m
      using that lv reach_outside [OF hok a that(3,1), of r] V'h by (simp add: h_def)
    show "misses rank V' i (rank (node_key (v_heap V) m)) \<and> (doomed V' m \<longrightarrow> awaits (v_hist V') (v_lin V') (v_rem V' m) i)"
      if "m \<in> v_pub V" "marked (v_heap V') m" "held rank V i (rank (node_key (v_heap V) m)) m" for m
      using that dm ms eq [of m] unfolding held_def V'h by auto
  qed (use V'h eq ms in auto)
qed

text \<open>Calls and returns.\<close>

lemma view_call:
  assumes ok: "view_ok K rank V" and j: "\<And>c. Call j c \<notin> set (v_hist V)" and V': "V' = V\<lparr>v_hist := v_hist V @ [Call j c]\<rparr>"
  shows "view_ok K rank V'" and "i \<noteq> j \<Longrightarrow> rely rank i V V'"
proof -
  have dm: "doomed V' x \<longleftrightarrow> doomed V x" for x by (simp add: doomed_def V')
  show "view_ok K rank V'"
    using ok linearization_Call [OF view_okD(2) [OF ok] j] unfolding view_ok_def dm by (simp add: V')
  assume i: "i \<noteq> j"
  show "rely rank i V V'"
    by (rule relyI) (use i dm in \<open>auto simp: V' misses_def held_def\<close>)
qed

lemma view_return:
  assumes ok: "view_ok K rank V" and j: "(j, c, v) \<in> set (v_lin V)" and fin: "\<And>x. doomed V x \<Longrightarrow> v_rem V x \<noteq> j"
    and V': "V' = V\<lparr>v_hist := v_hist V @ [Return j v]\<rparr>"
  shows "view_ok K rank V'" and "rely rank i V V'"
proof -
  have dm: "doomed V' x \<longleftrightarrow> doomed V x" for x by (simp add: doomed_def V')
  show "view_ok K rank V'"
    using ok linearization_Return [OF view_okD(2) [OF ok] j] fin unfolding view_ok_def dm by (simp add: V')
  show "rely rank i V V'"
    by (rule relyI) (use dm in \<open>auto simp: V' misses_def held_def\<close>)
qed

end
