(* ===== verification/Linked_List_Steps.thy ===== *)
theory Linked_List_Steps
  imports Linked_List_Views
begin

text \<open>
  The invariant of the concurrent list, with an assertion for every program counter, and that every access of
  every thread keeps it.
\<close>

section \<open>The invariant\<close>

fun pc_op :: "lc_pc \<Rightarrow> ll_op option" where
  "pc_op LC_Idle = None" | "pc_op (Find_Head op) = Some op" | "pc_op (Find_Next op p x) = Some op" | "pc_op (Find_Skip op p x) = Some op"
| "pc_op (Find_Unlink op p x n) = Some op" | "pc_op (Find_Defer op p x a) = Some op" | "pc_op (Lookup_Val op x) = Some op"
| "pc_op (Cas_Alloc op p x) = Some op" | "pc_op (Cas_Insert op p x a) = Some op" | "pc_op (Cas_Free op a) = Some op"
| "pc_op (Cas_Val op x) = Some op" | "pc_op (Cas_Update op x v) = Some op" | "pc_op (Rem_Next op p x) = Some op"
| "pc_op (Rem_Mark op p x n) = Some op" | "pc_op (Rem_Assert op p x n) = Some op" | "pc_op (Rem_Swap op p x n) = Some op"
| "pc_op (Rem_Unlink op p x n v) = Some op" | "pc_op (Rem_Defer op x v) = Some op" | "pc_op (LC_Return op v) = Some op"

text \<open>The node that a thread has allocated and not linked, and the node that it has marked and not emptied.\<close>

fun own_node :: "lc_pc \<Rightarrow> addr option" where
  "own_node (Cas_Insert op p x a) = Some a" | "own_node (Cas_Free op a) = Some a" | "own_node _ = None"

fun removing :: "lc_pc \<Rightarrow> addr option" where
  "removing (Rem_Assert op p x n) = Some x" | "removing (Rem_Swap op p x n) = Some x" | "removing _ = None"

definition low :: "(map_key_t \<Rightarrow> int) \<Rightarrow> lc_view \<Rightarrow> int \<Rightarrow> addr \<Rightarrow> bool" where
  "low rank V q x \<longleftrightarrow> x \<in> v_pub V \<and> (x = v_head V \<or> rank (node_key (v_heap V) x) < q)"

definition high :: "(map_key_t \<Rightarrow> int) \<Rightarrow> lc_view \<Rightarrow> int \<Rightarrow> addr \<Rightarrow> bool" where
  "high rank V q x \<longleftrightarrow> x = NULL \<or> x \<in> v_pub V \<and> x \<noteq> v_head V \<and> q < rank (node_key (v_heap V) x)"

definition unlin :: "lc_view \<Rightarrow> nat \<Rightarrow> bool" where
  "unlin V i \<longleftrightarrow> i \<notin> fst ` set (v_lin V)"

definition inserts :: "ll_op \<Rightarrow> bool" where
  "inserts op \<longleftrightarrow> (\<exists>k e v. op = LL_Cas k e v \<and> (e = CAS_EXPECT_DOES_NOT_EXIST \<or> e = CAS_EXPECT_WHATEVER))"

definition emptying :: "lc_view \<Rightarrow> nat \<Rightarrow> ll_op \<Rightarrow> addr \<Rightarrow> bool" where
  "emptying V i op x \<longleftrightarrow> doomed V x \<and> v_rem V x = i \<and> (i, op, node_val (v_heap V) x) \<in> set (v_lin V)"

definition frozen :: "lc_view \<Rightarrow> addr \<Rightarrow> markable_t \<Rightarrow> bool" where
  "frozen V x n \<longleftrightarrow> x \<in> v_pub V \<and> x \<noteq> v_head V \<and> \<not> HAS_MARK n \<and> node_next (v_heap V) x = MARK_NODE n"

text \<open>What the local variables of a thread that executes operation \<open>i\<close> say about the list.\<close>

fun pc_ok :: "map_key_t set \<Rightarrow> (map_key_t \<Rightarrow> int) \<Rightarrow> lc_view \<Rightarrow> nat \<Rightarrow> lc_pc \<Rightarrow> bool" where
  "pc_ok K rank V i LC_Idle \<longleftrightarrow> True"
| "pc_ok K rank V i (Find_Head op) \<longleftrightarrow> unlin V i"
| "pc_ok K rank V i (Find_Next op p x) \<longleftrightarrow> unlin V i \<and> low rank V (rank (ll_op_key op)) p \<and> seeks rank V i (rank (ll_op_key op)) p \<and>
     seeks rank V i (rank (ll_op_key op)) x \<and> x \<noteq> v_head V"
| "pc_ok K rank V i (Find_Skip op p x) \<longleftrightarrow> unlin V i \<and> low rank V (rank (ll_op_key op)) p \<and> seeks rank V i (rank (ll_op_key op)) p \<and>
     seeks rank V i (rank (ll_op_key op)) x \<and> x \<noteq> v_head V \<and> marked (v_heap V) x"
| "pc_ok K rank V i (Find_Unlink op p x n) \<longleftrightarrow> unlin V i \<and> low rank V (rank (ll_op_key op)) p \<and> seeks rank V i (rank (ll_op_key op)) p \<and>
     x \<in> v_pub V \<and> x \<noteq> v_head V \<and> HAS_MARK n \<and> node_next (v_heap V) x = n"
| "pc_ok K rank V i (Find_Defer op p x a) \<longleftrightarrow> unlin V i \<and> low rank V (rank (ll_op_key op)) p \<and> seeks rank V i (rank (ll_op_key op)) p \<and>
     a \<in> v_pub V \<and> (if x = NULL then misses rank V i (rank (ll_op_key op)) else seeks rank V i (rank (ll_op_key op)) x \<and> x \<noteq> v_head V)"
| "pc_ok K rank V i (Lookup_Val op x) \<longleftrightarrow> unlin V i \<and> held rank V i (rank (ll_op_key op)) x \<and> (\<exists>k. op = LL_Lookup k)"
| "pc_ok K rank V i (Cas_Alloc op p x) \<longleftrightarrow> unlin V i \<and> low rank V (rank (ll_op_key op)) p \<and> high rank V (rank (ll_op_key op)) x \<and> inserts op"
| "pc_ok K rank V i (Cas_Insert op p x a) \<longleftrightarrow> unlin V i \<and> low rank V (rank (ll_op_key op)) p \<and> high rank V (rank (ll_op_key op)) x \<and> inserts op \<and>
     (\<exists>nd. v_heap V a = Some nd \<and> nd_next nd = x \<and> nd_val nd = ll_op_val op \<and> nd_key nd \<in> K \<and> rank (nd_key nd) = rank (ll_op_key op))"
| "pc_ok K rank V i (Cas_Free op a) \<longleftrightarrow> unlin V i"
| "pc_ok K rank V i (Cas_Val op x) \<longleftrightarrow> unlin V i \<and> held rank V i (rank (ll_op_key op)) x \<and> (\<exists>k e v. op = LL_Cas k e v)"
| "pc_ok K rank V i (Cas_Update op x old) \<longleftrightarrow> unlin V i \<and> held rank V i (rank (ll_op_key op)) x \<and> old \<noteq> 0 \<and>
     (\<exists>k e v. op = LL_Cas k e v \<and> e \<noteq> CAS_EXPECT_DOES_NOT_EXIST)"
| "pc_ok K rank V i (Rem_Next op p x) \<longleftrightarrow> unlin V i \<and> p \<in> v_pub V \<and> held rank V i (rank (ll_op_key op)) x \<and> (\<exists>k. op = LL_Remove k)"
| "pc_ok K rank V i (Rem_Mark op p x n) \<longleftrightarrow> unlin V i \<and> p \<in> v_pub V \<and> held rank V i (rank (ll_op_key op)) x \<and> (\<exists>k. op = LL_Remove k)"
| "pc_ok K rank V i (Rem_Assert op p x n) \<longleftrightarrow> p \<in> v_pub V \<and> frozen V x n \<and> emptying V i op x"
| "pc_ok K rank V i (Rem_Swap op p x n) \<longleftrightarrow> p \<in> v_pub V \<and> frozen V x n \<and> emptying V i op x"
| "pc_ok K rank V i (Rem_Unlink op p x n v) \<longleftrightarrow> p \<in> v_pub V \<and> frozen V x n \<and> (i, op, v) \<in> set (v_lin V)"
| "pc_ok K rank V i (Rem_Defer op x v) \<longleftrightarrow> x \<in> v_pub V \<and> (i, op, v) \<in> set (v_lin V)"
| "pc_ok K rank V i (LC_Return op v) \<longleftrightarrow> (i, op, v) \<in> set (v_lin V)"

lemma relyD:
  assumes "rely rank i V V'"
  shows "v_head V' = v_head V" and "x \<in> v_pub V \<Longrightarrow> x \<in> v_pub V'" and "x \<in> v_pub V \<Longrightarrow> node_key (v_heap V') x = node_key (v_heap V) x"
    and "x \<in> v_pub V \<Longrightarrow> marked (v_heap V) x \<Longrightarrow> node_next (v_heap V') x = node_next (v_heap V) x"
    and "misses rank V i q \<Longrightarrow> misses rank V' i q" and "seeks rank V i q x \<Longrightarrow> seeks rank V' i q x" and "held rank V i q x \<Longrightarrow> held rank V' i q x"
    and "unlin V i \<Longrightarrow> unlin V' i" and "low rank V q x \<Longrightarrow> low rank V' q x" and "high rank V q x \<Longrightarrow> high rank V' q x" and "frozen V x n \<Longrightarrow> frozen V' x n"
  using assms unfolding rely_def low_def high_def unlin_def frozen_def by (auto 4 3)

lemma pc_ok_rely:
  assumes r: "rely rank i V V'" and ok: "pc_ok K rank V i pc" and priv: "\<And>a. own_node pc = Some a \<Longrightarrow> v_heap V' a = v_heap V a"
    and lin: "\<And>op v. removing pc = None \<Longrightarrow> (i, op, v) \<in> set (v_lin V) \<Longrightarrow> (i, op, v) \<in> set (v_lin V')"
    and rem: "\<And>x op. removing pc = Some x \<Longrightarrow> emptying V i op x \<Longrightarrow> emptying V' i op x"
  shows "pc_ok K rank V' i pc"
proof -
  have "seeks rank V i q x \<Longrightarrow> x \<in> v_pub V" for q x by (simp add: seeks_def)
  then show ?thesis using ok priv lin rem relyD [OF r] by (cases pc) (auto split: if_splits)
qed

abbreviation pool_fresh :: "list_t \<Rightarrow> bool" where
  "pool_fresh l \<equiv> pool_ok (ll_pool l) (ll_heap l)"

definition lc_inv :: "map_key_t set \<Rightarrow> (map_key_t \<Rightarrow> int) \<Rightarrow> lc_sys \<Rightarrow> lc_view \<Rightarrow> bool" where
  "lc_inv K rank s V \<longleftrightarrow>
     view_ok K rank V \<and> v_heap V = ll_heap (lc_list s) \<and> v_head V = ll_head (lc_list s) \<and> v_hist V = lc_hist s \<and>
     key_order (ll_key_type (lc_list s)) K rank \<and> pool_fresh (lc_list s) \<and>
     (\<forall>i c. Call i c \<in> set (lc_hist s) \<longrightarrow> i < length (lc_hist s)) \<and>
     (\<forall>t op. pc_op (lc_pcs s t) = Some op \<longrightarrow> Call (lc_ids s t) op \<in> set (lc_hist s) \<and> pending (lc_hist s) (lc_ids s t) \<and> ll_op_ok K op) \<and>
     (\<forall>t u. lc_pcs s t \<noteq> LC_Idle \<longrightarrow> lc_pcs s u \<noteq> LC_Idle \<longrightarrow> lc_ids s t = lc_ids s u \<longrightarrow> t = u) \<and>
     (\<forall>t a. own_node (lc_pcs s t) = Some a \<longrightarrow> a \<notin> v_pub V \<and> v_heap V a \<noteq> None \<and> a \<noteq> NULL \<and> \<not> HAS_MARK a) \<and>
     (\<forall>t u a. own_node (lc_pcs s t) = Some a \<longrightarrow> own_node (lc_pcs s u) = Some a \<longrightarrow> t = u) \<and>
     (\<forall>x. doomed V x \<longrightarrow> (\<exists>t. removing (lc_pcs s t) = Some x \<and> lc_ids s t = v_rem V x)) \<and>
     (\<forall>t. pc_ok K rank V (lc_ids s t) (lc_pcs s t))"

lemma lc_invD:
  assumes "lc_inv K rank s V"
  shows "view_ok K rank V" and "v_heap V = ll_heap (lc_list s)" and "v_head V = ll_head (lc_list s)" and "v_hist V = lc_hist s"
    and "key_order (ll_key_type (lc_list s)) K rank" and "pool_fresh (lc_list s)" and "Call i c \<in> set (lc_hist s) \<Longrightarrow> i < length (lc_hist s)"
    and "pc_op (lc_pcs s t) = Some op \<Longrightarrow> Call (lc_ids s t) op \<in> set (lc_hist s)" and "pc_op (lc_pcs s t) = Some op \<Longrightarrow> pending (lc_hist s) (lc_ids s t)"
    and "pc_op (lc_pcs s t) = Some op \<Longrightarrow> ll_op_ok K op"
    and "lc_pcs s t \<noteq> LC_Idle \<Longrightarrow> lc_pcs s u \<noteq> LC_Idle \<Longrightarrow> lc_ids s t = lc_ids s u \<Longrightarrow> t = u"
    and "own_node (lc_pcs s t) = Some a \<Longrightarrow> a \<notin> v_pub V \<and> v_heap V a \<noteq> None \<and> a \<noteq> NULL \<and> \<not> HAS_MARK a"
    and "own_node (lc_pcs s t) = Some a \<Longrightarrow> own_node (lc_pcs s u) = Some a \<Longrightarrow> t = u"
    and "doomed V x \<Longrightarrow> \<exists>t. removing (lc_pcs s t) = Some x \<and> lc_ids s t = v_rem V x"
    and "pc_ok K rank V (lc_ids s t) (lc_pcs s t)"
  using assms unfolding lc_inv_def by blast+

lemma pc_op_Idle [simp]: "pc_op pc = None \<longleftrightarrow> pc = LC_Idle"
  by (cases pc) auto

text \<open>A step of thread \<open>t\<close> to the program counter \<open>p\<close> that leaves the list \<open>l\<close>.\<close>

abbreviation lc_goto :: "nat \<Rightarrow> lc_pc \<Rightarrow> list_t \<Rightarrow> lc_sys \<Rightarrow> lc_sys" where
  "lc_goto t p l s \<equiv> s\<lparr>lc_list := l, lc_pcs := (lc_pcs s)(t := p)\<rparr>"

lemma lc_inv_goto:
  assumes inv: "lc_inv K rank s V" and V': "view_ok K rank V'" "v_heap V' = ll_heap l" "v_head V' = ll_head l" "v_hist V' = v_hist V"
    and l: "ll_key_type l = ll_key_type (lc_list s)" "pool_fresh l"
    and op: "pc_op p = pc_op (lc_pcs s t)" "lc_pcs s t \<noteq> LC_Idle"
    and others: "\<And>u. u \<noteq> t \<Longrightarrow> lc_pcs s u \<noteq> LC_Idle \<Longrightarrow> pc_ok K rank V' (lc_ids s u) (lc_pcs s u)"
    and priv: "\<And>a. own_node p = Some a \<Longrightarrow> a \<notin> v_pub V' \<and> v_heap V' a \<noteq> None \<and> a \<noteq> NULL \<and> \<not> HAS_MARK a"
      "\<And>a u. own_node p = Some a \<Longrightarrow> u \<noteq> t \<Longrightarrow> own_node (lc_pcs s u) \<noteq> Some a"
      "\<And>a u. u \<noteq> t \<Longrightarrow> own_node (lc_pcs s u) = Some a \<Longrightarrow> a \<notin> v_pub V' \<and> v_heap V' a \<noteq> None"
    and rem: "\<And>x. doomed V' x \<Longrightarrow> removing p = Some x \<and> lc_ids s t = v_rem V' x \<or> (\<exists>u. u \<noteq> t \<and> removing (lc_pcs s u) = Some x \<and> lc_ids s u = v_rem V' x)"
    and me: "pc_ok K rank V' (lc_ids s t) p"
  shows "lc_inv K rank (lc_goto t p l s) V'"
proof -
  note D = lc_invD [OF inv]
  have pne: "p \<noteq> LC_Idle" using op pc_op_Idle by metis
  let ?pc = "\<lambda>u. if u = t then p else lc_pcs s u"
  have sl: "lc_list (lc_goto t p l s) = l" "lc_pcs (lc_goto t p l s) = ?pc" "lc_ids (lc_goto t p l s) = lc_ids s" "lc_hist (lc_goto t p l s) = lc_hist s"
    by (auto simp: fun_upd_def)
  have pop: "pc_op (?pc u) = pc_op (lc_pcs s u)" "?pc u = LC_Idle \<longleftrightarrow> lc_pcs s u = LC_Idle" for u using op pne by auto
  show ?thesis
    unfolding lc_inv_def sl pop
  proof (intro conjI allI impI)
    show "pc_ok K rank V' (lc_ids s u) (?pc u)" for u using me others [of u] by (cases "lc_pcs s u = LC_Idle") auto
    show "\<exists>u. removing (?pc u) = Some x \<and> lc_ids s u = v_rem V' x" if "doomed V' x" for x using rem [OF that] by auto
    fix u a assume a: "own_node (?pc u) = Some a"
    show "a \<notin> v_pub V'" "v_heap V' a \<noteq> None" "a \<noteq> NULL" "\<not> HAS_MARK a"
      using a priv(1) [of a] priv(3) [of u a] D(12) [of u a] by (cases "u = t"; simp)+
    show "u = w" if "own_node (?pc w) = Some a" for w
      using that a priv(2) [of a w] priv(2) [of a u] D(13) [of u a w] by (cases "u = t"; cases "w = t"; simp)
  next
    show "v_hist V' = lc_hist s" using V'(4) D(4) by simp
    show "key_order (ll_key_type l) K rank" using l(1) D(5) by simp
    show "u = w" if "lc_pcs s u \<noteq> LC_Idle" "lc_pcs s w \<noteq> LC_Idle" "lc_ids s u = lc_ids s w" for u w using D(11) that by blast
  qed (use V' l(2) D(7-10) in auto)
qed

section \<open>The search\<close>

lemma seeks_head:
  assumes "view_ok K rank V"
  shows "seeks rank V i q (v_head V)"
proof (cases "\<exists>n. v_live rank V q n")
  case True
  then show ?thesis using heap_okD(1,10) [OF view_okD(1) [OF assms]] by (auto simp: seeks_def live_node_def)
next
  case False
  then have "misses rank V i q" unfolding misses_def by (intro sometime_now not_live_None [OF assms]) auto
  then show ?thesis using heap_okD(1) [OF view_okD(1) [OF assms]] by (simp add: seeks_def)
qed

lemma seeks_next:
  assumes ok: "view_ok K rank V" and s: "seeks rank V i q x" and x: "x = v_head V \<or> marked (v_heap V) x \<or> rank (node_key (v_heap V) x) \<noteq> q"
  shows "STRIP_MARK (node_next (v_heap V) x) = NULL \<Longrightarrow> misses rank V i q"
    and "STRIP_MARK (node_next (v_heap V) x) \<noteq> NULL \<Longrightarrow> seeks rank V i q (STRIP_MARK (node_next (v_heap V) x)) \<and> STRIP_MARK (node_next (v_heap V) x) \<noteq> v_head V"
proof -
  note hok = view_okD(1) [OF ok]
  have xp: "x \<in> v_pub V" using s by (simp add: seeks_def)
  have nx: "\<not> v_live rank V q x" using x by (auto simp: live_node_def)
  have step: "edge (v_heap V) x (STRIP_MARK (node_next (v_heap V) x)) \<and> reach (v_heap V) (STRIP_MARK (node_next (v_heap V) x)) n"
    if n: "v_live rank V q n" "reach (v_heap V) x n" for n
  proof -
    obtain c where c: "edge (v_heap V) x c" "reach (v_heap V) c n" using reach_first [OF n(2)] n(1) nx by blast
    then have "c = STRIP_MARK (node_next (v_heap V) x)" by (auto simp: edge_def)
    then show ?thesis using c by simp
  qed
  show "misses rank V i q" if "STRIP_MARK (node_next (v_heap V) x) = NULL" using step s that by (auto simp: seeks_def edge_def)
  assume "STRIP_MARK (node_next (v_heap V) x) \<noteq> NULL"
  then have e: "edge (v_heap V) x (STRIP_MARK (node_next (v_heap V) x))" by (rule heap_ok_next [OF hok xp])
  then show "seeks rank V i q (STRIP_MARK (node_next (v_heap V) x)) \<and> STRIP_MARK (node_next (v_heap V) x) \<noteq> v_head V"
    using step s heap_okD(7,8) [OF hok xp e] unfolding seeks_def by blast
qed

lemma seeks_past:
  assumes ok: "view_ok K rank V" and s: "seeks rank V i q x" and x: "x \<noteq> v_head V" "q < rank (node_key (v_heap V) x)"
  shows "misses rank V i q"
proof (rule ccontr)
  assume "\<not> misses rank V i q"
  then obtain n where n: "v_live rank V q n" "reach (v_heap V) x n" and xp: "x \<in> v_pub V" using s by (auto simp: seeks_def)
  then show False using reach_pub(2) [OF view_okD(1) [OF ok] n(2) xp] x by (cases "x = n") (auto simp: live_node_def)
qed

lemma seeks_hit: "seeks rank V i q x \<Longrightarrow> x \<noteq> v_head V \<Longrightarrow> \<not> marked (v_heap V) x \<Longrightarrow> rank (node_key (v_heap V) x) = q \<Longrightarrow> held rank V i q x"
  by (simp add: held_def seeks_def)

text \<open>What the value of a node that an operation has found says about the map.\<close>

lemma held_read:
  assumes ok: "view_ok K rank V" and h: "held rank V i q n"
  shows "sometime (ll_spec rank) no_bindings (v_hist V) (v_lin V) i (\<lambda>m. m q = (if node_val (v_heap V) n = 0 then None else Some (node_val (v_heap V) n)))"
proof (cases "marked (v_heap V) n")
  case False
  then have "v_live rank V q n" using h by (auto simp: held_def live_node_def)
  then have "replay (ll_spec rank) (v_lin V) no_bindings q = Some (node_val (v_heap V) n)" "node_val (v_heap V) n \<noteq> 0"
    using live_Some [OF ok] heap_okD(11) [OF view_okD(1) [OF ok]] by (auto simp: live_node_def)
  then show ?thesis by (intro sometime_now) simp
next
  case True
  show ?thesis
  proof (cases "node_val (v_heap V) n = 0")
    case zero: True
    then show ?thesis using h True by (simp add: held_def misses_def)
  next
    case nonzero: False
    then have d: "doomed V n" and a: "awaits (v_hist V) (v_lin V) (v_rem V n) i" using h True by (auto simp: held_def doomed_def)
    obtain A k B where L: "v_lin V = A @ (v_rem V n, LL_Remove k, node_val (v_heap V) n) # B" "rank k = q"
      "replay (ll_spec rank) A no_bindings q = Some (node_val (v_heap V) n)"
      using doomed_entry [OF ok d] h by (auto simp: held_def)
    have "\<forall>e \<in> set ((v_rem V n, LL_Remove k, node_val (v_heap V) n) # B). \<not> precedes (v_hist V) (fst e) i"
      using awaits_split a linearizationD(2) [OF view_okD(2) [OF ok]] L(1) by metis
    then show ?thesis unfolding sometime_def using L nonzero by (intro exI [of _ A] exI) auto
  qed
qed

section \<open>Steps that leave the nodes as they are\<close>

definition same_list :: "list_t \<Rightarrow> list_t \<Rightarrow> bool" where
  "same_list l l' \<longleftrightarrow> ll_heap l' = ll_heap l \<and> ll_head l' = ll_head l \<and> ll_key_type l' = ll_key_type l \<and> ll_pool l' = ll_pool l"

lemma same_list_refl [simp]: "same_list l l"
  by (simp add: same_list_def)

lemma same_list_defer [simp]: "same_list l (ll_defer_node a k l)"
  by (simp add: same_list_def ll_defer_node_def ll_defer_def)

lemma same_list_store [simp]: "ll_heap l a = Some nd \<Longrightarrow> same_list l (ll_store a nd l)"
  by (auto simp: same_list_def ll_store_def)

lemma same_list_pool: "same_list l l' \<Longrightarrow> pool_fresh l \<Longrightarrow> pool_fresh l'"
  by (simp add: same_list_def pool_ok_def)

lemma step_same:
  assumes inv: "lc_inv K rank s V" and op: "pc_op (lc_pcs s t) = Some op" "pc_op p = Some op" and l: "same_list (lc_list s) l"
    and own: "own_node p = None \<or> own_node p = own_node (lc_pcs s t)" and rem: "removing p = removing (lc_pcs s t)"
    and me: "pc_ok K rank V (lc_ids s t) p"
  shows "lc_inv K rank (lc_goto t p l s) V"
proof (rule lc_inv_goto [OF inv])
  note D = lc_invD [OF inv]
  show "view_ok K rank V" "v_heap V = ll_heap l" "v_head V = ll_head l" "ll_key_type l = ll_key_type (lc_list s)" "pool_fresh l"
    using D(1-3,6) l same_list_pool by (auto simp: same_list_def)
  show "pc_op p = pc_op (lc_pcs s t)" "lc_pcs s t \<noteq> LC_Idle" using op by auto
  show "pc_ok K rank V (lc_ids s u) (lc_pcs s u)" for u using D(15) .
  show "a \<notin> v_pub V \<and> v_heap V a \<noteq> None \<and> a \<noteq> NULL \<and> \<not> HAS_MARK a" if "own_node p = Some a" for a using that own D(12) [of t a] by auto
  show "own_node (lc_pcs s u) \<noteq> Some a" if "own_node p = Some a" "u \<noteq> t" for a u using that own D(13) [of t a u] by auto
  show "a \<notin> v_pub V \<and> v_heap V a \<noteq> None" if "own_node (lc_pcs s u) = Some a" for a u using that D(12) by auto
  show "removing p = Some x \<and> lc_ids s t = v_rem V x \<or> (\<exists>u. u \<noteq> t \<and> removing (lc_pcs s u) = Some x \<and> lc_ids s u = v_rem V x)" if "doomed V x" for x
    using D(14) [OF that] rem by metis
qed (rule refl, rule me)

lemma unlin_removing:
  assumes "lc_inv K rank s V" and "unlin V (lc_ids s t)"
  shows "removing (lc_pcs s t) = None"
  using lc_invD(15) [OF assms(1), of t] assms(2) by (cases "lc_pcs s t") (auto simp: emptying_def unlin_def image_iff)

lemma doomed_others:
  assumes "lc_inv K rank s V" and "removing (lc_pcs s t) = None" and "doomed V x"
  shows "\<exists>u. u \<noteq> t \<and> removing (lc_pcs s u) = Some x \<and> lc_ids s u = v_rem V x"
proof -
  obtain u where u: "removing (lc_pcs s u) = Some x" "lc_ids s u = v_rem V x" using lc_invD(14) [OF assms(1,3)] by blast
  then have "u \<noteq> t" using assms(2) by auto
  then show ?thesis using u by blast
qed

text \<open>The other threads when operation \<open>i\<close> of thread \<open>t\<close> takes a step.\<close>

lemma others_rely:
  assumes inv: "lc_inv K rank s V" and r: "\<And>i. i \<noteq> lc_ids s t \<Longrightarrow> rely rank i V V'" and t: "lc_pcs s t \<noteq> LC_Idle"
    and own: "\<And>a. a \<notin> v_pub V \<Longrightarrow> v_heap V a \<noteq> None \<Longrightarrow> own_node (lc_pcs s t) \<noteq> Some a \<Longrightarrow> v_heap V' a = v_heap V a"
    and lin: "\<And>i c v. i \<noteq> lc_ids s t \<Longrightarrow> (\<And>x. doomed V x \<Longrightarrow> v_rem V x \<noteq> i) \<Longrightarrow> (i, c, v) \<in> set (v_lin V) \<Longrightarrow> (i, c, v) \<in> set (v_lin V')"
    and rem: "\<And>i x op. i \<noteq> lc_ids s t \<Longrightarrow> emptying V i op x \<Longrightarrow> emptying V' i op x"
    and u: "u \<noteq> t" "lc_pcs s u \<noteq> LC_Idle"
  shows "pc_ok K rank V' (lc_ids s u) (lc_pcs s u)"
proof -
  note D = lc_invD [OF inv]
  have ne: "lc_ids s u \<noteq> lc_ids s t" using D(11) [OF u(2) t] u(1) by auto
  have fin: "v_rem V x \<noteq> lc_ids s u" if nr: "removing (lc_pcs s u) = None" and dx: "doomed V x" for x
  proof
    assume e: "v_rem V x = lc_ids s u"
    obtain w where w: "removing (lc_pcs s w) = Some x" "lc_ids s w = v_rem V x" using D(14) [OF dx] by blast
    moreover have "lc_pcs s w \<noteq> LC_Idle" using w(1) by auto
    ultimately show False using D(11) [of w u] u(2) e nr by auto
  qed
  show ?thesis
  proof (rule pc_ok_rely [OF r [OF ne] D(15)])
    show "v_heap V' a = v_heap V a" if "own_node (lc_pcs s u) = Some a" for a
      using own D(12) [OF that] D(13) [of u a t] that u(1) by blast
  qed (use lin rem ne fin in blast)+
qed

lemma step_read:
  assumes inv: "lc_inv K rank s V" and op: "pc_op (lc_pcs s t) = Some op" and un: "unlin V (lc_ids s t)"
    and some: "sometime (ll_spec rank) no_bindings (v_hist V) (v_lin V) (lc_ids s t) (\<lambda>m. ll_spec rank op m = (r, m))" and l: "same_list (lc_list s) l"
  shows "\<exists>V'. lc_inv K rank (lc_goto t (LC_Return op r) l s) V'"
proof -
  note D = lc_invD [OF inv]
  obtain L where L: "(lc_ids s t, op, r) \<in> set L" "set (v_lin V) \<subseteq> set L" "view_ok K rank (V\<lparr>v_lin := L\<rparr>)"
    "\<And>i. i \<noteq> lc_ids s t \<Longrightarrow> rely rank i V (V\<lparr>v_lin := L\<rparr>)"
    using view_read [OF D(1) _ _ _ some] D(4,8,9) op un by (auto simp: unlin_def)
  have dm: "doomed (V\<lparr>v_lin := L\<rparr>) x = doomed V x" for x by (simp add: doomed_def)
  have "lc_inv K rank (lc_goto t (LC_Return op r) l s) (V\<lparr>v_lin := L\<rparr>)"
  proof (rule lc_inv_goto [OF inv L(3)])
    show "v_heap (V\<lparr>v_lin := L\<rparr>) = ll_heap l" "v_head (V\<lparr>v_lin := L\<rparr>) = ll_head l" "v_hist (V\<lparr>v_lin := L\<rparr>) = v_hist V"
      "ll_key_type l = ll_key_type (lc_list s)" "pool_fresh l"
      using D(2,3,6) l same_list_pool by (auto simp: same_list_def)
    show ne: "pc_op (LC_Return op r) = pc_op (lc_pcs s t)" "lc_pcs s t \<noteq> LC_Idle" using op by auto
    show "pc_ok K rank (V\<lparr>v_lin := L\<rparr>) (lc_ids s u) (lc_pcs s u)" if "u \<noteq> t" "lc_pcs s u \<noteq> LC_Idle" for u
      by (rule others_rely [OF inv L(4) ne(2) _ _ _ that]) (use L(2) dm in \<open>auto simp: emptying_def\<close>)
    show "a \<notin> v_pub (V\<lparr>v_lin := L\<rparr>) \<and> v_heap (V\<lparr>v_lin := L\<rparr>) a \<noteq> None" if "own_node (lc_pcs s u) = Some a" for a u using that D(12) by auto
    show "removing (LC_Return op r) = Some x \<and> lc_ids s t = v_rem (V\<lparr>v_lin := L\<rparr>) x \<or>
        (\<exists>u. u \<noteq> t \<and> removing (lc_pcs s u) = Some x \<and> lc_ids s u = v_rem (V\<lparr>v_lin := L\<rparr>) x)" if "doomed (V\<lparr>v_lin := L\<rparr>) x" for x
      using doomed_others [OF inv unlin_removing [OF inv un], of x] that dm by simp
    show "pc_ok K rank (V\<lparr>v_lin := L\<rparr>) (lc_ids s t) (LC_Return op r)" using L(1) by simp
  qed auto
  then show ?thesis by blast
qed

section \<open>The outcome of a search\<close>

lemma find_miss:
  assumes inv: "lc_inv K rank s V" and op: "pc_op (lc_pcs s t) = Some op" and un: "unlin V (lc_ids s t)" and l: "same_list (lc_list s) l"
    and m: "misses rank V (lc_ids s t) (rank (ll_op_key op))" and p: "low rank V (rank (ll_op_key op)) p" "high rank V (rank (ll_op_key op)) x"
  shows "\<exists>V'. lc_inv K rank (lc_goto t (find_result op False p x) l s) V'"
proof -
  have rd: "sometime (ll_spec rank) no_bindings (v_hist V) (v_lin V) (lc_ids s t) (\<lambda>b. ll_spec rank op b = (r, b))"
    if "\<And>b. b (rank (ll_op_key op)) = None \<Longrightarrow> ll_spec rank op b = (r, b)" for r
    using m that unfolding misses_def sometime_def by blast
  show ?thesis
  proof (cases op)
    case (LL_Lookup k)
    then show ?thesis using step_read [OF inv op un rd l, of 0] by (simp add: DOES_NOT_EXIST_def)
  next
    case (LL_Remove k)
    then show ?thesis using step_read [OF inv op un rd l, of 0] by (simp add: DOES_NOT_EXIST_def fun_upd_idem)
  next
    case (LL_Cas k e v)
    show ?thesis
    proof (cases "e = CAS_EXPECT_DOES_NOT_EXIST \<or> e = CAS_EXPECT_WHATEVER")
      case True
      then have "pc_ok K rank V (lc_ids s t) (Cas_Alloc op p x)" using un p LL_Cas by (auto simp: inserts_def)
      then show ?thesis using step_same [OF inv op _ l, of "Cas_Alloc op p x"] unlin_removing [OF inv un] LL_Cas True by auto
    next
      case False
      then show ?thesis using step_read [OF inv op un rd l, of 0] LL_Cas by (simp add: DOES_NOT_EXIST_def)
    qed
  qed
qed

lemma find_hit:
  assumes inv: "lc_inv K rank s V" and op: "pc_op (lc_pcs s t) = Some op" and un: "unlin V (lc_ids s t)" and l: "same_list (lc_list s) l"
    and h: "held rank V (lc_ids s t) (rank (ll_op_key op)) x" and p: "low rank V (rank (ll_op_key op)) p"
  shows "\<exists>V'. lc_inv K rank (lc_goto t (find_result op True p x) l s) V'"
proof -
  have "pc_ok K rank V (lc_ids s t) (find_result op True p x)" "pc_op (find_result op True p x) = Some op"
    "own_node (find_result op True p x) = None" "removing (find_result op True p x) = None"
    using un h p by (cases op; simp add: low_def)+
  then show ?thesis using step_same [OF inv op _ l] unlin_removing [OF inv un] by metis
qed

lemma find_loop_ok:
  assumes inv: "lc_inv K rank s V" and op: "pc_op (lc_pcs s t) = Some op" and un: "unlin V (lc_ids s t)" and l: "same_list (lc_list s) l"
    and p: "low rank V (rank (ll_op_key op)) p" "seeks rank V (lc_ids s t) (rank (ll_op_key op)) p"
    and y: "y = STRIP_MARK (node_next (v_heap V) p)"
  shows "\<exists>V'. lc_inv K rank (lc_goto t (find_loop op p y) l s) V'"
proof -
  have x: "p = v_head V \<or> marked (v_heap V) p \<or> rank (node_key (v_heap V) p) \<noteq> rank (ll_op_key op)" using p(1) by (auto simp: low_def)
  note nx = seeks_next [OF lc_invD(1) [OF inv] p(2) x, folded y]
  show ?thesis
  proof (cases "y = NULL")
    case True
    then show ?thesis using find_miss [OF inv op un l nx(1) p(1)] by (simp add: find_loop_def high_def)
  next
    case False
    then have "pc_ok K rank V (lc_ids s t) (Find_Next op p y)" using un p nx(2) by simp
    then show ?thesis using step_same [OF inv op _ l, of "Find_Next op p y"] unlin_removing [OF inv un] False by (auto simp: find_loop_def)
  qed
qed

lemma find_visit_ok:
  assumes inv: "lc_inv K rank s V" and op: "pc_op (lc_pcs s t) = Some op" and un: "unlin V (lc_ids s t)" and l: "same_list (lc_list s) l"
    and p: "low rank V (rank (ll_op_key op)) p" "seeks rank V (lc_ids s t) (rank (ll_op_key op)) p"
    and x: "x = NULL \<and> nxt = 0 \<and> misses rank V (lc_ids s t) (rank (ll_op_key op)) \<or>
      x \<noteq> NULL \<and> seeks rank V (lc_ids s t) (rank (ll_op_key op)) x \<and> x \<noteq> v_head V \<and> nxt = node_next (v_heap V) x"
  shows "\<exists>pc V'. find_visit l op p x nxt = ret pc \<and> lc_inv K rank (lc_goto t pc l s) V'"
proof -
  note D = lc_invD [OF inv]
  let ?q = "rank (ll_op_key op)"
  consider "x = NULL" "nxt = 0" "misses rank V (lc_ids s t) ?q"
    | "HAS_MARK nxt" "x \<noteq> NULL" "seeks rank V (lc_ids s t) ?q x" "x \<noteq> v_head V" "nxt = node_next (v_heap V) x"
    | "\<not> HAS_MARK nxt" "x \<noteq> NULL" "seeks rank V (lc_ids s t) ?q x" "x \<noteq> v_head V" "nxt = node_next (v_heap V) x"
    using x by blast
  then show ?thesis
  proof cases
    case 1
    then show ?thesis using find_miss [OF inv op un l 1(3) p(1)] by (simp add: find_visit_def high_def)
  next
    case 2
    let ?pc = "if \<not> help_remove op then Find_Skip op p x else Find_Unlink op p x nxt"
    have "pc_ok K rank V (lc_ids s t) ?pc" using un p 2 by (auto simp: seeks_def)
    then show ?thesis using step_same [OF inv op _ l, of ?pc] unlin_removing [OF inv un] 2(1) by (auto simp: find_visit_def)
  next
    case 3
    have xp: "x \<in> v_pub V" using 3(3) by (simp add: seeks_def)
    obtain nd where nd: "v_heap V x = Some nd" using heap_okD(3) [OF view_okD(1) [OF D(1)] xp] by blast
    have k: "nd_key nd \<in> K" "ll_op_key op \<in> K" using heap_okD(6) [OF view_okD(1) [OF D(1)] xp 3(4)] nd D(10) [OF op] by (auto simp: ll_op_ok_def)
    let ?d = "key_diff (ll_key_type l) (nd_key nd) (ll_op_key op)"
    have kt: "ll_key_type l = ll_key_type (lc_list s)" "ll_heap l x = Some nd" using l nd D(2) by (auto simp: same_list_def)
    note d = key_orderD [OF D(5) k, folded kt(1)]
    have run: "find_visit l op p x nxt = ret (if ?d \<ge> 0 then find_result op (?d = 0) p x else find_loop op x nxt)"
      using 3(1,2) kt(2) by (simp add: find_visit_def Let_def GET_NODE_def)
    consider "?d = 0" | "?d > 0" | "?d < 0" by linarith
    then show ?thesis
    proof cases
      case 1
      then have "held rank V (lc_ids s t) ?q x" using seeks_hit [OF 3(3,4)] 3(1,5) d(1) nd by simp
      then show ?thesis using find_hit [OF inv op un l _ p(1)] run 1 by auto
    next
      case 2
      then have q: "?q < rank (node_key (v_heap V) x)" using d(4) nd by simp
      then show ?thesis using find_miss [OF inv op un l seeks_past [OF D(1) 3(3,4) q] p(1), of x] xp 3(4) run 2 by (auto simp: high_def)
    next
      case neg: 3
      then have lx: "low rank V ?q x" using d(2) nd xp by (simp add: low_def)
      have "nxt = STRIP_MARK (node_next (v_heap V) x)" using 3(1,5) by simp
      then show ?thesis using find_loop_ok [OF inv op un l lx 3(3)] run neg by auto
    qed
  qed
qed

section \<open>The steps\<close>

text \<open>The access of a thread succeeds and keeps the invariant.\<close>

definition access_ok :: "map_key_t set \<Rightarrow> (map_key_t \<Rightarrow> int) \<Rightarrow> lc_sys \<Rightarrow> nat \<Rightarrow> bool" where
  "access_ok K rank s t \<longleftrightarrow> (\<exists>p l V. lc_access (lc_pcs s t) (lc_list s) = ret (p, l) \<and> lc_inv K rank (lc_goto t p l s) V)"

lemma pub_load:
  assumes "lc_inv K rank s V" and "x \<in> v_pub V"
  obtains nd where "v_heap V x = Some nd" "ll_heap (lc_list s) x = Some nd"
  using heap_okD(3) [OF view_okD(1) [OF lc_invD(1) [OF assms(1)]] assms(2)] lc_invD(2) [OF assms(1)] by auto

lemma cas_same [simp]: "pn\<lparr>nd_next := nd_next pn\<rparr> = pn" "pn\<lparr>nd_val := nd_val pn\<rparr> = pn"
  by simp_all

lemma access_find_head:
  assumes inv: "lc_inv K rank s V" and pc: "lc_pcs s t = Find_Head op"
  shows "access_ok K rank s t"
proof -
  note D = lc_invD [OF inv]
  have un: "unlin V (lc_ids s t)" using D(15) [of t] pc by simp
  have h: "v_head V \<in> v_pub V" "\<not> marked (v_heap V) (v_head V)" using heap_okD(1,2) [OF view_okD(1) [OF D(1)]] .
  obtain nd where nd: "v_heap V (v_head V) = Some nd" "ll_heap (lc_list s) (v_head V) = Some nd" using pub_load [OF inv h(1)] .
  have "\<exists>V'. lc_inv K rank (lc_goto t (find_loop op (v_head V) (nd_next nd)) (lc_list s) s) V'"
    by (rule find_loop_ok [OF inv _ un _ _ seeks_head [OF D(1)]]) (use pc h nd in \<open>auto simp: low_def\<close>)
  then show ?thesis using pc nd D(3) by (auto simp: access_ok_def GET_NODE_def)
qed

lemma access_find_next:
  assumes inv: "lc_inv K rank s V" and pc: "lc_pcs s t = Find_Next op p x"
  shows "access_ok K rank s t"
proof -
  note D = lc_invD [OF inv]
  have T: "unlin V (lc_ids s t)" "low rank V (rank (ll_op_key op)) p" "seeks rank V (lc_ids s t) (rank (ll_op_key op)) p"
    "seeks rank V (lc_ids s t) (rank (ll_op_key op)) x" "x \<noteq> v_head V"
    using D(15) [of t] pc by auto
  have xp: "x \<in> v_pub V" using T(4) by (simp add: seeks_def)
  obtain nd where nd: "v_heap V x = Some nd" "ll_heap (lc_list s) x = Some nd" using pub_load [OF inv xp] .
  have "x \<noteq> NULL" using heap_okD(4) [OF view_okD(1) [OF D(1)] xp] .
  then show ?thesis using find_visit_ok [OF inv _ T(1) same_list_refl T(2,3), of x "nd_next nd"] pc nd T(4,5) by (auto simp: access_ok_def)
qed

lemma access_find_skip:
  assumes inv: "lc_inv K rank s V" and pc: "lc_pcs s t = Find_Skip op p x"
  shows "access_ok K rank s t"
proof -
  note D = lc_invD [OF inv]
  have T: "unlin V (lc_ids s t)" "low rank V (rank (ll_op_key op)) p" "seeks rank V (lc_ids s t) (rank (ll_op_key op)) p"
    "seeks rank V (lc_ids s t) (rank (ll_op_key op)) x" "x \<noteq> v_head V" "marked (v_heap V) x"
    using D(15) [of t] pc by auto
  have xp: "x \<in> v_pub V" using T(4) by (simp add: seeks_def)
  obtain nd where nd: "v_heap V x = Some nd" "ll_heap (lc_list s) x = Some nd" using pub_load [OF inv xp] .
  let ?y = "STRIP_MARK (nd_next nd)"
  have y: "?y = NULL \<Longrightarrow> misses rank V (lc_ids s t) (rank (ll_op_key op))"
    "?y \<noteq> NULL \<Longrightarrow> seeks rank V (lc_ids s t) (rank (ll_op_key op)) ?y \<and> ?y \<noteq> v_head V"
    using seeks_next [OF D(1) T(4)] T(6) nd by auto
  have op: "pc_op (lc_pcs s t) = Some op" using pc by simp
  show ?thesis
  proof (cases "?y = NULL")
    case True
    then show ?thesis using find_miss [OF inv op T(1) same_list_refl y(1) T(2), of NULL] pc nd by (auto simp: access_ok_def high_def)
  next
    case False
    then have "pc_ok K rank V (lc_ids s t) (Find_Next op p ?y)" using T y(2) by simp
    then show ?thesis using step_same [OF inv op _ same_list_refl, of "Find_Next op p ?y"] pc nd False by (auto simp: access_ok_def Let_def)
  qed
qed

text \<open>Unlinking, in \<^verbatim>\<open>find_pred\<close> and in \<^verbatim>\<open>ll_remove\<close>.\<close>

lemma step_unlink:
  assumes inv: "lc_inv K rank s V" and op: "pc_op (lc_pcs s t) = Some op" "pc_op pc = Some op" and rem: "removing (lc_pcs s t) = None"
    and p: "p \<in> v_pub V" "v_heap V p = Some pn" "nd_next pn = x" and x: "x \<in> v_pub V" "x \<noteq> v_head V" "v_heap V x = Some nd" "HAS_MARK (nd_next nd)"
    and V': "V' = V\<lparr>v_heap := (v_heap V)(p \<mapsto> pn\<lparr>nd_next := STRIP_MARK (nd_next nd)\<rparr>)\<rparr>" and own: "own_node pc = None" "removing pc = None"
    and me: "view_ok K rank V' \<Longrightarrow> rely rank (lc_ids s t) V V' \<Longrightarrow> pc_ok K rank V' (lc_ids s t) pc"
  shows "lc_inv K rank (lc_goto t pc (ll_store p (pn\<lparr>nd_next := STRIP_MARK (nd_next nd)\<rparr>) (lc_list s)) s) V'"
proof -
  note D = lc_invD [OF inv]
  note U = view_unlink [OF D(1) p x V']
  have np: "own_node (lc_pcs s u) \<noteq> Some p" for u using D(12) [of u p] p(1) by auto
  have dm: "doomed V' y = doomed V y" for y using p(2,3) heap_okD(5) [OF view_okD(1) [OF D(1)] x(1)] by (simp add: doomed_def V')
  show ?thesis
  proof (rule lc_inv_goto [OF inv U(1)])
    show "v_heap V' = ll_heap (ll_store p (pn\<lparr>nd_next := STRIP_MARK (nd_next nd)\<rparr>) (lc_list s))" using D(2) V' by simp
    show "v_head V' = ll_head (ll_store p (pn\<lparr>nd_next := STRIP_MARK (nd_next nd)\<rparr>) (lc_list s))" using D(3) V' by (simp add: ll_store_def)
    show "pool_fresh (ll_store p (pn\<lparr>nd_next := STRIP_MARK (nd_next nd)\<rparr>) (lc_list s))"
      using D(2,6) p(2) by (auto simp: pool_ok_def ll_store_def)
    show "pc_ok K rank V' (lc_ids s u) (lc_pcs s u)" if "u \<noteq> t" "lc_pcs s u \<noteq> LC_Idle" for u
      by (rule others_rely [OF inv U(2) _ _ _ _ that]) (use op p(1,2) dm in \<open>auto simp: V' emptying_def\<close>)
    show "a \<notin> v_pub V' \<and> v_heap V' a \<noteq> None" if "own_node (lc_pcs s u) = Some a" for a u using that D(12) V' by auto
    show "removing pc = Some y \<and> lc_ids s t = v_rem V' y \<or> (\<exists>u. u \<noteq> t \<and> removing (lc_pcs s u) = Some y \<and> lc_ids s u = v_rem V' y)" if "doomed V' y" for y
      using doomed_others [OF inv rem, of y] that dm by (simp add: V')
    show "pc_ok K rank V' (lc_ids s t) pc" by (rule me [OF U])
  qed (use op own V' in \<open>auto simp: ll_store_def\<close>)
qed

lemma access_find_unlink:
  assumes inv: "lc_inv K rank s V" and pc: "lc_pcs s t = Find_Unlink op p x n"
  shows "access_ok K rank s t"
proof -
  note D = lc_invD [OF inv]
  let ?q = "rank (ll_op_key op)"
  have T: "unlin V (lc_ids s t)" "low rank V ?q p" "seeks rank V (lc_ids s t) ?q p" "x \<in> v_pub V" "x \<noteq> v_head V" "HAS_MARK n" "node_next (v_heap V) x = n"
    using D(15) [of t] pc by auto
  have pp: "p \<in> v_pub V" using T(2) by (simp add: low_def)
  obtain pn where pn: "v_heap V p = Some pn" "ll_heap (lc_list s) p = Some pn" using pub_load [OF inv pp] .
  obtain nd where nd: "v_heap V x = Some nd" "ll_heap (lc_list s) x = Some nd" using pub_load [OF inv T(4)] .
  have op: "pc_op (lc_pcs s t) = Some op" using pc by simp
  show ?thesis
  proof (cases "nd_next pn = x")
    case True
    define V' where "V' = V\<lparr>v_heap := (v_heap V)(p \<mapsto> pn\<lparr>nd_next := STRIP_MARK n\<rparr>)\<rparr>"
    have me: "pc_ok K rank V' (lc_ids s t) (Find_Defer op p (STRIP_MARK n) x)" if ok: "view_ok K rank V'" and r: "rely rank (lc_ids s t) V V'"
    proof -
      have l: "low rank V' ?q p" and sk: "seeks rank V' (lc_ids s t) ?q p" using relyD(6,9) [OF r] T by auto
      have nx: "STRIP_MARK (node_next (v_heap V') p) = STRIP_MARK n" by (simp add: V'_def)
      have "p = v_head V' \<or> marked (v_heap V') p \<or> rank (node_key (v_heap V') p) \<noteq> ?q" using l by (auto simp: low_def)
      note sn = seeks_next [OF ok sk this, unfolded nx]
      show ?thesis using l sk sn relyD(8) [OF r T(1)] T(4) by (simp add: V'_def)
    qed
    have "lc_inv K rank (lc_goto t (Find_Defer op p (STRIP_MARK n) x) (ll_store p (pn\<lparr>nd_next := STRIP_MARK (nd_next nd)\<rparr>) (lc_list s)) s) V'"
      by (rule step_unlink [OF inv op _ _ pp pn(1) True T(4,5) nd(1)]) (use T(6,7) nd me V'_def pc in auto)
    then show ?thesis using pc pn nd T(7) True by (auto simp: access_ok_def Let_def)
  next
    case False
    have acc: "lc_access (lc_pcs s t) (lc_list s) = ret (if HAS_MARK (nd_next pn) then Find_Head op else find_loop op p (nd_next pn), ll_store p pn (lc_list s))"
      using pc pn False by (simp add: SYNC_CAS_diff Let_def GET_NODE_def)
    have l: "same_list (lc_list s) (ll_store p pn (lc_list s))" using pn by simp
    show ?thesis
    proof (cases "HAS_MARK (nd_next pn)")
      case True
      then show ?thesis using step_same [OF inv op _ l, of "Find_Head op"] acc T(1) pc by (auto simp: access_ok_def)
    next
      case False
      then have "\<exists>V'. lc_inv K rank (lc_goto t (find_loop op p (nd_next pn)) (ll_store p pn (lc_list s)) s) V'"
        using find_loop_ok [OF inv op T(1) l T(2,3)] pn by simp
      then show ?thesis using acc False by (auto simp: access_ok_def)
    qed
  qed
qed

lemma access_find_defer:
  assumes inv: "lc_inv K rank s V" and pc: "lc_pcs s t = Find_Defer op p x a"
  shows "access_ok K rank s t"
proof -
  note D = lc_invD [OF inv]
  let ?q = "rank (ll_op_key op)"
  have T: "unlin V (lc_ids s t)" "low rank V ?q p" "seeks rank V (lc_ids s t) ?q p" "a \<in> v_pub V"
    "if x = NULL then misses rank V (lc_ids s t) ?q else seeks rank V (lc_ids s t) ?q x \<and> x \<noteq> v_head V"
    using D(15) [of t] pc by auto
  obtain an where an: "v_heap V a = Some an" "ll_heap (lc_list s) a = Some an" using pub_load [OF inv T(4)] .
  let ?l = "ll_defer_node a (nd_key an) (lc_list s)"
  define nxt where "nxt = (if x = NULL then 0 else node_next (v_heap V) x)"
  have ld: "(if x \<noteq> NULL then pbind (ll_load (lc_list s) x) (\<lambda>nd. ret (nd_next nd)) else ret DOES_NOT_EXIST) = ret nxt"
  proof (cases "x = NULL")
    case False
    then have "x \<in> v_pub V" using T(5) by (simp add: seeks_def)
    then obtain nd where "v_heap V x = Some nd" "ll_heap (lc_list s) x = Some nd" using pub_load [OF inv] by blast
    then show ?thesis using False by (simp add: nxt_def)
  qed (simp add: nxt_def DOES_NOT_EXIST_def)
  have "\<exists>pc V'. find_visit ?l op p x nxt = ret pc \<and> lc_inv K rank (lc_goto t pc ?l s) V'"
    by (rule find_visit_ok [OF inv _ T(1) same_list_defer T(2,3)]) (use pc T(5) in \<open>auto simp: nxt_def split: if_splits\<close>)
  then show ?thesis using pc an ld by (auto simp: access_ok_def Let_def GET_NODE_def)
qed

lemma access_lookup_val:
  assumes inv: "lc_inv K rank s V" and pc: "lc_pcs s t = Lookup_Val op x"
  shows "access_ok K rank s t"
proof -
  note D = lc_invD [OF inv]
  obtain k where T: "unlin V (lc_ids s t)" "held rank V (lc_ids s t) (rank (ll_op_key op)) x" "op = LL_Lookup k"
    using D(15) [of t] pc by auto
  have xp: "x \<in> v_pub V" using T(2) by (simp add: held_def)
  obtain nd where nd: "v_heap V x = Some nd" "ll_heap (lc_list s) x = Some nd" using pub_load [OF inv xp] .
  have "sometime (ll_spec rank) no_bindings (v_hist V) (v_lin V) (lc_ids s t) (\<lambda>m. ll_spec rank op m = (nd_val nd, m))"
    by (rule sometime_mono [OF held_read [OF D(1) T(2)]]) (use nd(1) T(3) in \<open>simp split: if_splits\<close>)
  then have "\<exists>V'. lc_inv K rank (lc_goto t (LC_Return op (nd_val nd)) (lc_list s) s) V'"
    using step_read [OF inv _ T(1) _ same_list_refl] pc by simp
  then show ?thesis using pc nd by (auto simp: access_ok_def DOES_NOT_EXIST_def)
qed

lemma access_cas_alloc:
  assumes inv: "lc_inv K rank s V" and pc: "lc_pcs s t = Cas_Alloc op p x" and pool: "ll_pool (lc_list s) \<noteq> []"
  shows "access_ok K rank s t"
proof -
  note D = lc_invD [OF inv]
  have T: "unlin V (lc_ids s t)" "low rank V (rank (ll_op_key op)) p" "high rank V (rank (ll_op_key op)) x" "inserts op"
    using D(15) [of t] pc by auto
  have op: "pc_op (lc_pcs s t) = Some op" using pc by simp
  obtain a as where a: "ll_pool (lc_list s) = a # as" using pool by (cases "ll_pool (lc_list s)") auto
  have fr: "a \<noteq> NULL" "\<not> HAS_MARK a" "ll_heap (lc_list s) a = None" "pool_fresh (lc_list s)" using D(6) a by (auto simp: pool_ok_def)
  have ap: "a \<notin> v_pub V" using heap_okD(3) [OF view_okD(1) [OF D(1)], of a] fr(3) D(2) by auto
  let ?k = "key_clone (ll_key_type (lc_list s)) (ll_op_key op)"
  define nd where "nd = \<lparr>nd_key = ?k, nd_val = ll_op_val op, nd_next = x\<rparr>"
  define l where "l = (lc_list s)\<lparr>ll_pool := as, ll_heap := (ll_heap (lc_list s))(a \<mapsto> nd)\<rparr>"
  define V' where "V' = V\<lparr>v_heap := (v_heap V)(a := Some nd)\<rparr>"
  have acc: "lc_access (lc_pcs s t) (lc_list s) = ret (Cas_Insert op p x a, l)"
    using pc a fr(2) by (simp add: node_alloc_def Let_def l_def nd_def ll_store_def)
  note O = view_outside [OF D(1) ap V'_def]
  have dm: "doomed V' y = doomed V y" for y using ap by (auto simp: doomed_def V'_def)
  have na: "own_node (lc_pcs s u) \<noteq> Some a" for u using D(12) [of u a] fr(3) D(2) by auto
  have k: "?k \<in> K" "rank ?k = rank (ll_op_key op)" using key_orderD(5,6) [OF D(5)] D(10) [OF op] by (auto simp: ll_op_ok_def)
  have "lc_inv K rank (lc_goto t (Cas_Insert op p x a) l s) V'"
  proof (rule lc_inv_goto [OF inv O(1)])
    show "v_heap V' = ll_heap l" "v_head V' = ll_head l" "ll_key_type l = ll_key_type (lc_list s)" using D(2,3) by (simp_all add: V'_def l_def)
    show "pool_fresh l" using fr(4) a by (auto simp: pool_ok_def l_def)
    show "pc_ok K rank V' (lc_ids s u) (lc_pcs s u)" if "u \<noteq> t" "lc_pcs s u \<noteq> LC_Idle" for u
    proof (rule others_rely [OF inv O(2) _ _ _ _ that])
      show "lc_pcs s t \<noteq> LC_Idle" using pc by simp
      show "v_heap V' b = v_heap V b" if "v_heap V b \<noteq> None" for b using that fr(3) D(2) by (auto simp: V'_def)
      show "emptying V' i c y" if "emptying V i c y" for i c y using that dm ap by (auto simp: emptying_def V'_def doomed_def)
    qed (simp add: V'_def)
    show "b \<notin> v_pub V' \<and> v_heap V' b \<noteq> None" if "own_node (lc_pcs s u) = Some b" for b u using that D(12) by (auto simp: V'_def)
    show "removing (Cas_Insert op p x a) = Some y \<and> lc_ids s t = v_rem V' y \<or> (\<exists>u. u \<noteq> t \<and> removing (lc_pcs s u) = Some y \<and> lc_ids s u = v_rem V' y)" if "doomed V' y" for y
      using doomed_others [OF inv unlin_removing [OF inv T(1)], of y] that dm by (simp add: V'_def)
    show "pc_ok K rank V' (lc_ids s t) (Cas_Insert op p x a)"
      using relyD(8,9,10) [OF O(2)] T k by (simp add: V'_def nd_def)
  qed (use op na ap fr in \<open>auto simp: V'_def\<close>)
  then show ?thesis using acc unfolding access_ok_def by blast
qed

lemma access_cas_insert:
  assumes inv: "lc_inv K rank s V" and pc: "lc_pcs s t = Cas_Insert op p x a"
  shows "access_ok K rank s t"
proof -
  note D = lc_invD [OF inv]
  note hok = view_okD(1) [OF D(1)]
  obtain nn where T: "unlin V (lc_ids s t)" "low rank V (rank (ll_op_key op)) p" "high rank V (rank (ll_op_key op)) x" "inserts op"
    and nn: "v_heap V a = Some nn" "nd_next nn = x" "nd_val nn = ll_op_val op" "nd_key nn \<in> K" "rank (nd_key nn) = rank (ll_op_key op)"
    using D(15) [of t] pc by auto
  have op: "pc_op (lc_pcs s t) = Some op" using pc by simp
  have pp: "p \<in> v_pub V" using T(2) by (simp add: low_def)
  obtain pn where pn: "v_heap V p = Some pn" "ll_heap (lc_list s) p = Some pn" using pub_load [OF inv pp] .
  have a: "a \<notin> v_pub V" "a \<noteq> NULL" "\<not> HAS_MARK a" using D(12) [of t a] pc by auto
  show ?thesis
  proof (cases "nd_next pn = x")
    case False
    then have acc: "lc_access (lc_pcs s t) (lc_list s) = ret (Cas_Free op a, ll_store p pn (lc_list s))"
      using pc pn by (simp add: SYNC_CAS_diff Let_def)
    have l: "same_list (lc_list s) (ll_store p pn (lc_list s))" using pn by simp
    show ?thesis using step_same [OF inv op _ l, of "Cas_Free op a"] acc T(1) pc by (auto simp: access_ok_def)
  next
    case True
    obtain k e v where c: "op = LL_Cas k e v" "e = CAS_EXPECT_DOES_NOT_EXIST \<or> e = CAS_EXPECT_WHATEVER" using T(4) by (auto simp: inserts_def)
    have v: "v \<noteq> 0" using D(10) [OF op] c(1) by (auto simp: ll_op_ok_def)
    have ux: "\<not> HAS_MARK x" using T(3) heap_okD(5) [OF hok, of x] by (auto simp: high_def)
    define V' where "V' = V\<lparr>v_heap := (v_heap V)(p \<mapsto> pn\<lparr>nd_next := a\<rparr>), v_pub := insert a (v_pub V), v_lin := v_lin V @ [(lc_ids s t, LL_Cas k e v, DOES_NOT_EXIST)]\<rparr>"
    have I: "view_ok K rank V'" "i \<noteq> lc_ids s t \<Longrightarrow> rely rank i V V'" for i
      by (rule view_insert [OF D(1) pp pn(1) True ux a(1) nn(1,2) a(3,2) nn(4) _ v _ c(2) _ _ _ _ _ V'_def];
        use nn T c D(4,8,9) op pn in \<open>auto simp: low_def high_def unlin_def\<close>)+
    define l where "l = ll_store p (pn\<lparr>nd_next := a\<rparr>) (lc_list s)"
    have acc: "lc_access (lc_pcs s t) (lc_list s) = ret (LC_Return op DOES_NOT_EXIST, l)"
      using pc pn True by (simp add: Let_def l_def)
    have dm: "doomed V' y = doomed V y" for y using a pn nn(1,2) True ux pp by (auto simp: doomed_def V'_def)
    have "lc_inv K rank (lc_goto t (LC_Return op DOES_NOT_EXIST) l s) V'"
    proof (rule lc_inv_goto [OF inv I(1)])
      show "v_heap V' = ll_heap l" "v_head V' = ll_head l" "ll_key_type l = ll_key_type (lc_list s)" using D(2,3) by (simp_all add: V'_def l_def ll_store_def)
      show "pool_fresh l" using D(2,6) pn by (auto simp: pool_ok_def l_def ll_store_def)
      show "pc_ok K rank V' (lc_ids s u) (lc_pcs s u)" if "u \<noteq> t" "lc_pcs s u \<noteq> LC_Idle" for u
        by (rule others_rely [OF inv I(2) _ _ _ _ that]) (use op pp pn dm in \<open>auto simp: V'_def emptying_def\<close>)
      show "b \<notin> v_pub V' \<and> v_heap V' b \<noteq> None" if "u \<noteq> t" "own_node (lc_pcs s u) = Some b" for b u
        using that D(12) [OF that(2)] D(13) [OF that(2), of t] pc by (auto simp: V'_def)
      show "removing (LC_Return op DOES_NOT_EXIST) = Some y \<and> lc_ids s t = v_rem V' y \<or> (\<exists>u. u \<noteq> t \<and> removing (lc_pcs s u) = Some y \<and> lc_ids s u = v_rem V' y)" if "doomed V' y" for y
        using doomed_others [OF inv unlin_removing [OF inv T(1)], of y] that dm by (simp add: V'_def)
    qed (use op c in \<open>auto simp: V'_def\<close>)
    then show ?thesis using acc unfolding access_ok_def by blast
  qed
qed

lemma access_cas_free:
  assumes inv: "lc_inv K rank s V" and pc: "lc_pcs s t = Cas_Free op a"
  shows "access_ok K rank s t"
proof -
  note D = lc_invD [OF inv]
  have un: "unlin V (lc_ids s t)" using D(15) [of t] pc by simp
  have a: "a \<notin> v_pub V" "v_heap V a \<noteq> None" using D(12) [of t a] pc by auto
  obtain nd where nd: "ll_heap (lc_list s) a = Some nd" using a(2) D(2) by auto
  define l where "l = ll_nbd_free a (ll_free_key (nd_key nd) (lc_list s))"
  define V' where "V' = V\<lparr>v_heap := (v_heap V)(a := None)\<rparr>"
  have l: "ll_heap l = (ll_heap (lc_list s))(a := None)" "ll_head l = ll_head (lc_list s)" "ll_key_type l = ll_key_type (lc_list s)" "ll_pool l = ll_pool (lc_list s)"
    by (simp_all add: l_def ll_nbd_free_def ll_free_key_def)
  note O = view_outside [OF D(1) a(1) V'_def]
  have dm: "doomed V' y = doomed V y" for y using a by (auto simp: doomed_def V'_def)
  have "lc_inv K rank (lc_goto t (Find_Head op) l s) V'"
  proof (rule lc_inv_goto [OF inv O(1)])
    show "v_heap V' = ll_heap l" "v_head V' = ll_head l" "ll_key_type l = ll_key_type (lc_list s)" using D(2,3) by (simp_all add: V'_def l)
    show "pool_fresh l" using D(6) by (auto simp: pool_ok_def l)
    show "pc_ok K rank V' (lc_ids s u) (lc_pcs s u)" if "u \<noteq> t" "lc_pcs s u \<noteq> LC_Idle" for u
      by (rule others_rely [OF inv O(2) _ _ _ _ that]) (use pc a dm in \<open>auto simp: V'_def emptying_def doomed_def\<close>)
    show "b \<notin> v_pub V' \<and> v_heap V' b \<noteq> None" if "u \<noteq> t" "own_node (lc_pcs s u) = Some b" for b u
      using that D(12) [OF that(2)] D(13) [OF that(2), of t] pc by (auto simp: V'_def)
    show "removing (Find_Head op) = Some y \<and> lc_ids s t = v_rem V' y \<or> (\<exists>u. u \<noteq> t \<and> removing (lc_pcs s u) = Some y \<and> lc_ids s u = v_rem V' y)" if "doomed V' y" for y
      using doomed_others [OF inv unlin_removing [OF inv un], of y] that dm by (simp add: V'_def)
    show "pc_ok K rank V' (lc_ids s t) (Find_Head op)" using un by (simp add: unlin_def V'_def)
  qed (use pc in \<open>auto simp: V'_def\<close>)
  then show ?thesis using pc nd by (auto simp: access_ok_def l_def)
qed

text \<open>The test of the value that was read.\<close>

lemma cas_check_ok:
  assumes inv: "lc_inv K rank s V" and op: "pc_op (lc_pcs s t) = Some op" "op = LL_Cas k e w" and un: "unlin V (lc_ids s t)" and l: "same_list (lc_list s) l"
    and h: "held rank V (lc_ids s t) (rank k) x" and v: "v = node_val (v_heap V) x"
  shows "\<exists>V'. lc_inv K rank (lc_goto t (cas_check op x v) l s) V'"
proof -
  note rm = unlin_removing [OF inv un]
  consider "v = 0" | "v \<noteq> 0" "e = CAS_EXPECT_DOES_NOT_EXIST" | "v \<noteq> 0" "e \<noteq> CAS_EXPECT_DOES_NOT_EXIST" by blast
  then show ?thesis
  proof cases
    case 1
    then show ?thesis using step_same [OF inv op(1) _ l, of "Find_Head op"] un rm op(2) by (auto simp: DOES_NOT_EXIST_def)
  next
    case 2
    have "sometime (ll_spec rank) no_bindings (v_hist V) (v_lin V) (lc_ids s t) (\<lambda>m. ll_spec rank op m = (v, m))"
      by (rule sometime_mono [OF held_read [OF lc_invD(1) [OF inv] h]]) (use 2 v op(2) in auto)
    then show ?thesis using step_read [OF inv op(1) un _ l] 2 op(2) by (simp add: DOES_NOT_EXIST_def)
  next
    case 3
    then show ?thesis using step_same [OF inv op(1) _ l, of "Cas_Update op x v"] un rm op(2) h by (auto simp: DOES_NOT_EXIST_def)
  qed
qed

lemma access_cas_val:
  assumes inv: "lc_inv K rank s V" and pc: "lc_pcs s t = Cas_Val op x"
  shows "access_ok K rank s t"
proof -
  note D = lc_invD [OF inv]
  obtain k e w where T: "unlin V (lc_ids s t)" "held rank V (lc_ids s t) (rank (ll_op_key op)) x" "op = LL_Cas k e w"
    using D(15) [of t] pc by auto
  have xp: "x \<in> v_pub V" using T(2) by (simp add: held_def)
  obtain nd where nd: "v_heap V x = Some nd" "ll_heap (lc_list s) x = Some nd" using pub_load [OF inv xp] .
  have "\<exists>V'. lc_inv K rank (lc_goto t (cas_check op x (nd_val nd)) (lc_list s) s) V'"
    by (rule cas_check_ok [OF inv _ T(3,1) same_list_refl]) (use pc T nd in auto)
  then show ?thesis using pc nd by (auto simp: access_ok_def)
qed

lemma access_cas_update:
  assumes inv: "lc_inv K rank s V" and pc: "lc_pcs s t = Cas_Update op x old"
  shows "access_ok K rank s t"
proof -
  note D = lc_invD [OF inv]
  obtain k e v where T: "unlin V (lc_ids s t)" "held rank V (lc_ids s t) (rank k) x" "old \<noteq> 0" "op = LL_Cas k e v" "e \<noteq> CAS_EXPECT_DOES_NOT_EXIST"
    using D(15) [of t] pc by auto
  have op: "pc_op (lc_pcs s t) = Some op" using pc by simp
  have xp: "x \<in> v_pub V" "x \<noteq> v_head V" "rank (node_key (v_heap V) x) = rank k" using T(2) by (auto simp: held_def)
  obtain nd where nd: "v_heap V x = Some nd" "ll_heap (lc_list s) x = Some nd" using pub_load [OF inv xp(1)] .
  have v: "v \<noteq> 0" using D(10) [OF op] T(4) by (auto simp: ll_op_ok_def)
  have j: "Call (lc_ids s t) (LL_Cas k e v) \<in> set (v_hist V)" "pending (v_hist V) (lc_ids s t)" "lc_ids s t \<notin> fst ` set (v_lin V)"
    using D(4,8,9) op T(1,4) by (auto simp: unlin_def)
  show ?thesis
  proof (cases "nd_val nd = old")
    case False
    then have acc: "lc_access (lc_pcs s t) (lc_list s) = ret (cas_check op x (nd_val nd), ll_store x nd (lc_list s))"
      using pc nd by (simp add: SYNC_CAS_diff Let_def)
    have "\<exists>V'. lc_inv K rank (lc_goto t (cas_check op x (nd_val nd)) (ll_store x nd (lc_list s)) s) V'"
      by (rule cas_check_ok [OF inv op T(4,1)]) (use nd T in auto)
    then show ?thesis using acc by (auto simp: access_ok_def)
  next
    case True
    define l where "l = ll_store x (nd\<lparr>nd_val := v\<rparr>) (lc_list s)"
    have acc: "lc_access (lc_pcs s t) (lc_list s) = ret (LC_Return op old, l)" using pc nd True T(4) by (simp add: Let_def l_def)
    have l: "ll_heap l = (v_heap V)(x \<mapsto> nd\<lparr>nd_val := v\<rparr>)" "ll_head l = v_head V" "ll_key_type l = ll_key_type (lc_list s)" "pool_fresh l"
      using D(2,3,6) nd by (auto simp: l_def ll_store_def pool_ok_def)
    have upd: "\<exists>V'. lc_inv K rank (lc_goto t (LC_Return op old) l s) V'"
      if V': "V' = V\<lparr>v_heap := (v_heap V)(x \<mapsto> nd\<lparr>nd_val := v\<rparr>), v_lin := L\<rparr>" and ok: "view_ok K rank V'" and r: "\<And>i. i \<noteq> lc_ids s t \<Longrightarrow> rely rank i V V'"
        and mine: "(lc_ids s t, op, old) \<in> set L" and keep: "\<And>i c w. (doomed V x \<Longrightarrow> i \<noteq> v_rem V x) \<Longrightarrow> (i, c, w) \<in> set (v_lin V) \<Longrightarrow> (i, c, w) \<in> set L"
        and rem: "\<And>c. doomed V x \<Longrightarrow> (v_rem V x, c, old) \<in> set (v_lin V) \<Longrightarrow> (v_rem V x, c, v) \<in> set L" for V' L
    proof -
      have dm: "doomed V' y = doomed V y" for y using nd True T(3) v by (auto simp: doomed_def V')
      have em: "emptying V' i c y" if "emptying V i c y" for i c y
      proof -
        have y: "doomed V y" "v_rem V y = i" "(i, c, node_val (v_heap V) y) \<in> set (v_lin V)" using that by (auto simp: emptying_def)
        show ?thesis
        proof (cases "y = x")
          case True
          then show ?thesis using y dm rem [of c] nd \<open>nd_val nd = old\<close> by (auto simp: emptying_def V')
        next
          case False
          then have "doomed V x \<Longrightarrow> i \<noteq> v_rem V x" using y(1,2) view_okD(6) [OF D(1)] by (auto dest: inj_onD)
          then show ?thesis using y dm keep False by (auto simp: emptying_def V')
        qed
      qed
      have "lc_inv K rank (lc_goto t (LC_Return op old) l s) V'"
      proof (rule lc_inv_goto [OF inv ok])
        show "pc_ok K rank V' (lc_ids s u) (lc_pcs s u)" if "u \<noteq> t" "lc_pcs s u \<noteq> LC_Idle" for u
        proof (rule others_rely [OF inv r _ _ _ _ that])
          show "v_heap V' b = v_heap V b" if "b \<notin> v_pub V" for b using that xp(1) by (auto simp: V')
          show "(i, c, w) \<in> set (v_lin V')" if "\<And>y. doomed V y \<Longrightarrow> v_rem V y \<noteq> i" "(i, c, w) \<in> set (v_lin V)" for i c w
            using keep [of i c w] that by (auto simp: V')
        qed (use pc em in auto)
        show "b \<notin> v_pub V' \<and> v_heap V' b \<noteq> None" if "own_node (lc_pcs s u) = Some b" for b u using that D(12) by (auto simp: V')
        show "removing (LC_Return op old) = Some y \<and> lc_ids s t = v_rem V' y \<or> (\<exists>u. u \<noteq> t \<and> removing (lc_pcs s u) = Some y \<and> lc_ids s u = v_rem V' y)" if "doomed V' y" for y
          using doomed_others [OF inv unlin_removing [OF inv T(1)], of y] that dm by (simp add: V')
      qed (use op l mine in \<open>auto simp: V'\<close>)
      then show ?thesis by blast
    qed
    have "\<exists>V'. lc_inv K rank (lc_goto t (LC_Return op old) l s) V'"
    proof (cases "marked (v_heap V) x")
      case False
      then have lv: "v_live rank V (rank k) x" using xp by (simp add: live_node_def)
      have nd': "\<not> doomed V x" using False by (simp add: doomed_def)
      note U = view_update_live [OF D(1) lv nd(1) T(5) v j refl]
      show ?thesis by (rule upd [OF refl U]) (use T(4) True nd' in auto)
    next
      case m: True
      then have d: "doomed V x" using xp(1) nd True T(3) by (simp add: doomed_def)
      have aw: "awaits (v_hist V) (v_lin V) (v_rem V x) (lc_ids s t)" using T(2) m d by (simp add: held_def)
      have kr: "rank (nd_key nd) = rank k" using xp(3) nd by simp
      obtain L where L: "view_ok K rank (V\<lparr>v_heap := (v_heap V)(x \<mapsto> nd\<lparr>nd_val := v\<rparr>), v_lin := L\<rparr>)"
        "\<And>i. i \<noteq> lc_ids s t \<Longrightarrow> rely rank i V (V\<lparr>v_heap := (v_heap V)(x \<mapsto> nd\<lparr>nd_val := v\<rparr>), v_lin := L\<rparr>)"
        "(lc_ids s t, LL_Cas k e v, nd_val nd) \<in> set L"
        "\<And>i c w. i \<noteq> v_rem V x \<Longrightarrow> (i, c, w) \<in> set (v_lin V) \<Longrightarrow> (i, c, w) \<in> set L"
        "\<And>c. (v_rem V x, c, nd_val nd) \<in> set (v_lin V) \<Longrightarrow> (v_rem V x, c, v) \<in> set L"
        using view_update_doomed [OF D(1) d nd(1) kr T(5) v j aw] unfolding Let_def by blast
      show ?thesis by (rule upd [OF refl L(1,2)]) (use T(4) True L(3,4,5) d in auto)
    qed
    then show ?thesis using acc by (auto simp: access_ok_def)
  qed
qed

lemma access_rem_next:
  assumes inv: "lc_inv K rank s V" and pc: "lc_pcs s t = Rem_Next op p x"
  shows "access_ok K rank s t"
proof -
  note D = lc_invD [OF inv]
  obtain k where T: "unlin V (lc_ids s t)" "p \<in> v_pub V" "held rank V (lc_ids s t) (rank (ll_op_key op)) x" "op = LL_Remove k"
    using D(15) [of t] pc by auto
  have xp: "x \<in> v_pub V" using T(3) by (simp add: held_def)
  obtain nd where nd: "v_heap V x = Some nd" "ll_heap (lc_list s) x = Some nd" using pub_load [OF inv xp] .
  have "pc_ok K rank V (lc_ids s t) (Rem_Mark op p x (nd_next nd))" using T by auto
  then show ?thesis using step_same [OF inv _ _ same_list_refl, of t op "Rem_Mark op p x (nd_next nd)"] pc nd by (auto simp: access_ok_def)
qed

lemma mark_marked: "HAS_MARK n \<Longrightarrow> MARK_NODE (STRIP_MARK n) = n"
  by (auto simp: MARK_NODE_def STRIP_MARK_def STRIP_TAG_def TAG_VALUE_def HAS_MARK_def IS_TAGGED_def bit_eq_iff bit_simps)

lemma access_rem_mark:
  assumes inv: "lc_inv K rank s V" and pc: "lc_pcs s t = Rem_Mark op p x n"
  shows "access_ok K rank s t"
proof -
  note D = lc_invD [OF inv]
  obtain k where T: "unlin V (lc_ids s t)" "p \<in> v_pub V" "held rank V (lc_ids s t) (rank k) x" "op = LL_Remove k"
    using D(15) [of t] pc by auto
  have op: "pc_op (lc_pcs s t) = Some op" using pc by simp
  have xp: "x \<in> v_pub V" "x \<noteq> v_head V" "rank (node_key (v_heap V) x) = rank k" using T(3) by (auto simp: held_def)
  obtain nd where nd: "v_heap V x = Some nd" "ll_heap (lc_list s) x = Some nd" using pub_load [OF inv xp(1)] .
  have same: "same_list (lc_list s) (ll_store x nd (lc_list s))" using nd by simp
  consider "HAS_MARK (nd_next nd)" | "\<not> HAS_MARK (nd_next nd)" "nd_next nd \<noteq> n" | "\<not> HAS_MARK (nd_next nd)" "nd_next nd = n" by blast
  then show ?thesis
  proof cases
    case 1
    then have acc: "lc_access (lc_pcs s t) (lc_list s) = ret (LC_Return op DOES_NOT_EXIST, ll_store x nd (lc_list s))"
      using pc nd mark_marked [of n] by (cases "nd_next nd = n") (auto simp: SYNC_CAS_def Let_def)
    have "misses rank V (lc_ids s t) (rank k)" using T(3) nd 1 by (simp add: held_def)
    then have "sometime (ll_spec rank) no_bindings (v_hist V) (v_lin V) (lc_ids s t) (\<lambda>m. ll_spec rank op m = (0, m))"
      unfolding misses_def by (rule sometime_mono) (use T(4) in \<open>simp add: fun_upd_idem\<close>)
    then show ?thesis using step_read [OF inv op T(1) _ same] acc by (auto simp: access_ok_def DOES_NOT_EXIST_def)
  next
    case 2
    then have acc: "lc_access (lc_pcs s t) (lc_list s) = ret (Rem_Mark op p x (nd_next nd), ll_store x nd (lc_list s))"
      using pc nd by (auto simp: SYNC_CAS_diff Let_def)
    have "pc_ok K rank V (lc_ids s t) (Rem_Mark op p x (nd_next nd))" using T by auto
    then show ?thesis using step_same [OF inv op _ same, of "Rem_Mark op p x (nd_next nd)"] acc pc by (auto simp: access_ok_def)
  next
    case 3
    define l where "l = ll_store x (nd\<lparr>nd_next := MARK_NODE n\<rparr>) (lc_list s)"
    have acc: "lc_access (lc_pcs s t) (lc_list s) = ret (Rem_Assert op p x n, l)" using pc nd 3 by (auto simp: Let_def l_def)
    have lv: "v_live rank V (rank k) x" using xp 3(1) nd by (simp add: live_node_def)
    define V' where "V' = V\<lparr>v_heap := (v_heap V)(x \<mapsto> nd\<lparr>nd_next := MARK_NODE n\<rparr>), v_lin := v_lin V @ [(lc_ids s t, LL_Remove k, nd_val nd)], v_rem := (v_rem V)(x := lc_ids s t)\<rparr>"
    have M: "view_ok K rank V'" "i \<noteq> lc_ids s t \<Longrightarrow> rely rank i V V'" for i
      using view_mark [OF D(1) lv nd(1), of "lc_ids s t" V'] D(4,8,9) op T(1,4) 3(2) by (auto simp: unlin_def V'_def)
    have nd': "\<not> doomed V x" using 3(1) nd by (simp add: doomed_def)
    have v: "nd_val nd \<noteq> 0" using heap_okD(11) [OF view_okD(1) [OF D(1)] xp(1,2)] nd 3(1) by simp
    have dm: "doomed V' y \<longleftrightarrow> doomed V y \<or> y = x" for y using nd xp(1) v 3 by (auto simp: doomed_def V'_def)
    have em: "emptying V' i c y" if "emptying V i c y" for i c y
      using that dm nd' by (cases "y = x") (auto simp: emptying_def V'_def)
    have "lc_inv K rank (lc_goto t (Rem_Assert op p x n) l s) V'"
    proof (rule lc_inv_goto [OF inv M(1)])
      show "v_heap V' = ll_heap l" "v_head V' = ll_head l" "ll_key_type l = ll_key_type (lc_list s)" using D(2,3) by (simp_all add: V'_def l_def ll_store_def)
      show "pool_fresh l" using D(2,6) nd by (auto simp: pool_ok_def l_def ll_store_def)
      show "pc_ok K rank V' (lc_ids s u) (lc_pcs s u)" if "u \<noteq> t" "lc_pcs s u \<noteq> LC_Idle" for u
      proof (rule others_rely [OF inv M(2) _ _ _ _ that])
        show "v_heap V' b = v_heap V b" if "b \<notin> v_pub V" for b using that xp(1) by (auto simp: V'_def)
      qed (use pc em in \<open>auto simp: V'_def\<close>)
      show "b \<notin> v_pub V' \<and> v_heap V' b \<noteq> None" if "own_node (lc_pcs s u) = Some b" for b u using that D(12) by (auto simp: V'_def)
      show "removing (Rem_Assert op p x n) = Some y \<and> lc_ids s t = v_rem V' y \<or> (\<exists>u. u \<noteq> t \<and> removing (lc_pcs s u) = Some y \<and> lc_ids s u = v_rem V' y)" if "doomed V' y" for y
        using doomed_others [OF inv unlin_removing [OF inv T(1)], of y] that dm by (cases "y = x") (auto simp: V'_def)
      show "pc_ok K rank V' (lc_ids s t) (Rem_Assert op p x n)"
        using T(2,4) xp dm [of x] 3 by (auto simp: frozen_def emptying_def V'_def)
    qed (use op in \<open>auto simp: V'_def\<close>)
    then show ?thesis using acc unfolding access_ok_def by blast
  qed
qed

lemma access_rem_assert:
  assumes inv: "lc_inv K rank s V" and pc: "lc_pcs s t = Rem_Assert op p x n"
  shows "access_ok K rank s t"
proof -
  have T: "p \<in> v_pub V" "frozen V x n" "emptying V (lc_ids s t) op x" using lc_invD(15) [OF inv, of t] pc by auto
  have xp: "x \<in> v_pub V" using T(2) by (simp add: frozen_def)
  obtain nd where nd: "v_heap V x = Some nd" "ll_heap (lc_list s) x = Some nd" using pub_load [OF inv xp] .
  have "HAS_MARK (nd_next nd)" using T(2) nd by (auto simp: frozen_def)
  then show ?thesis using step_same [OF inv _ _ same_list_refl, of t op "Rem_Swap op p x n"] T pc nd by (auto simp: access_ok_def)
qed

lemma access_rem_swap:
  assumes inv: "lc_inv K rank s V" and pc: "lc_pcs s t = Rem_Swap op p x n"
  shows "access_ok K rank s t"
proof -
  note D = lc_invD [OF inv]
  have T: "p \<in> v_pub V" "frozen V x n" "emptying V (lc_ids s t) op x" using D(15) [of t] pc by auto
  have xp: "x \<in> v_pub V" using T(2) by (simp add: frozen_def)
  obtain nd where nd: "v_heap V x = Some nd" "ll_heap (lc_list s) x = Some nd" using pub_load [OF inv xp] .
  have m: "HAS_MARK (nd_next nd)" using T(2) nd by (auto simp: frozen_def)
  define l where "l = ll_store x (nd\<lparr>nd_val := 0\<rparr>) (lc_list s)"
  define V' where "V' = V\<lparr>v_heap := (v_heap V)(x \<mapsto> nd\<lparr>nd_val := 0\<rparr>)\<rparr>"
  have acc: "lc_access (lc_pcs s t) (lc_list s) = ret (Rem_Unlink op p x n (nd_val nd), l)"
    using pc nd by (simp add: SYNC_SWAP_def l_def DOES_NOT_EXIST_def)
  note S = view_swap [OF D(1) xp nd(1) m V'_def]
  have dm: "doomed V' y \<longleftrightarrow> doomed V y \<and> y \<noteq> x" for y using nd by (auto simp: doomed_def V'_def)
  have em: "emptying V' i c y" if "emptying V i c y" "i \<noteq> lc_ids s t" for i c y
    using that T(3) dm by (cases "y = x") (auto simp: emptying_def V'_def)
  have "lc_inv K rank (lc_goto t (Rem_Unlink op p x n (nd_val nd)) l s) V'"
  proof (rule lc_inv_goto [OF inv S(1)])
    show "v_heap V' = ll_heap l" "v_head V' = ll_head l" "ll_key_type l = ll_key_type (lc_list s)" using D(2,3) by (simp_all add: V'_def l_def ll_store_def)
    show "pool_fresh l" using D(2,6) nd by (auto simp: pool_ok_def l_def ll_store_def)
    show "pc_ok K rank V' (lc_ids s u) (lc_pcs s u)" if "u \<noteq> t" "lc_pcs s u \<noteq> LC_Idle" for u
    proof (rule others_rely [OF inv S(2) _ _ _ _ that])
      show "v_heap V' b = v_heap V b" if "b \<notin> v_pub V" for b using that xp by (auto simp: V'_def)
    qed (use pc em in \<open>auto simp: V'_def\<close>)
    show "b \<notin> v_pub V' \<and> v_heap V' b \<noteq> None" if "own_node (lc_pcs s u) = Some b" for b u using that D(12) by (auto simp: V'_def)
    show "removing (Rem_Unlink op p x n (nd_val nd)) = Some y \<and> lc_ids s t = v_rem V' y \<or> (\<exists>u. u \<noteq> t \<and> removing (lc_pcs s u) = Some y \<and> lc_ids s u = v_rem V' y)" if "doomed V' y" for y
    proof -
      have y: "doomed V y" "y \<noteq> x" using that dm by auto
      obtain u where u: "removing (lc_pcs s u) = Some y" "lc_ids s u = v_rem V y" using D(14) [OF y(1)] by blast
      have "u \<noteq> t" using u(1) pc y(2) by auto
      then show ?thesis using u by (auto simp: V'_def)
    qed
    show "pc_ok K rank V' (lc_ids s t) (Rem_Unlink op p x n (nd_val nd))"
      using T nd by (auto simp: frozen_def emptying_def V'_def)
  qed (use pc in \<open>auto simp: V'_def\<close>)
  then show ?thesis using acc unfolding access_ok_def by blast
qed

lemma access_rem_unlink:
  assumes inv: "lc_inv K rank s V" and pc: "lc_pcs s t = Rem_Unlink op p x n v"
  shows "access_ok K rank s t"
proof -
  note D = lc_invD [OF inv]
  have T: "p \<in> v_pub V" "frozen V x n" "(lc_ids s t, op, v) \<in> set (v_lin V)" using D(15) [of t] pc by auto
  have op: "pc_op (lc_pcs s t) = Some op" using pc by simp
  have xp: "x \<in> v_pub V" "x \<noteq> v_head V" using T(2) by (auto simp: frozen_def)
  obtain pn where pn: "v_heap V p = Some pn" "ll_heap (lc_list s) p = Some pn" using pub_load [OF inv T(1)] .
  obtain nd where nd: "v_heap V x = Some nd" "ll_heap (lc_list s) x = Some nd" using pub_load [OF inv xp(1)] .
  have m: "HAS_MARK (nd_next nd)" "STRIP_MARK (nd_next nd) = n" using T(2) nd by (auto simp: frozen_def)
  show ?thesis
  proof (cases "nd_next pn = x")
    case True
    have "lc_inv K rank (lc_goto t (Rem_Defer op x v) (ll_store p (pn\<lparr>nd_next := STRIP_MARK (nd_next nd)\<rparr>) (lc_list s)) s)
        (V\<lparr>v_heap := (v_heap V)(p \<mapsto> pn\<lparr>nd_next := STRIP_MARK (nd_next nd)\<rparr>)\<rparr>)"
      by (rule step_unlink [OF inv op _ _ T(1) pn(1) True xp nd(1) m(1) refl]) (use pc xp T(3) in auto)
    then show ?thesis using pc pn True m(2) by (auto simp: access_ok_def Let_def)
  next
    case False
    have l: "same_list (lc_list s) (ll_store p pn (lc_list s))" using pn by simp
    have "lc_access (lc_pcs s t) (lc_list s) = ret (LC_Return op v, ll_store p pn (lc_list s))"
      using pc pn False by (simp add: SYNC_CAS_diff Let_def)
    then show ?thesis using step_same [OF inv op _ l, of "LC_Return op v"] T(3) pc by (auto simp: access_ok_def)
  qed
qed

lemma access_rem_defer:
  assumes inv: "lc_inv K rank s V" and pc: "lc_pcs s t = Rem_Defer op x v"
  shows "access_ok K rank s t"
proof -
  have T: "x \<in> v_pub V" "(lc_ids s t, op, v) \<in> set (v_lin V)" using lc_invD(15) [OF inv, of t] pc by auto
  obtain nd where nd: "v_heap V x = Some nd" "ll_heap (lc_list s) x = Some nd" using pub_load [OF inv T(1)] .
  then show ?thesis using step_same [OF inv _ _ same_list_defer, of t op "LC_Return op v"] T(2) pc by (auto simp: access_ok_def)
qed

lemmas access_oks = access_find_head access_find_next access_find_skip access_find_unlink access_find_defer access_lookup_val
  access_cas_alloc access_cas_insert access_cas_free access_cas_val access_cas_update access_rem_next access_rem_mark
  access_rem_assert access_rem_swap access_rem_unlink access_rem_defer

lemma lc_access_ok:
  assumes "lc_inv K rank s V" and "lc_pcs s t \<noteq> LC_Idle" and "\<And>op v. lc_pcs s t \<noteq> LC_Return op v"
    and "ll_pool (lc_list s) \<noteq> [] \<or> (\<forall>op p x. lc_pcs s t \<noteq> Cas_Alloc op p x)"
  shows "access_ok K rank s t"
  using assms(2-4) access_oks [OF assms(1)] by (cases "lc_pcs s t") auto

section \<open>Reachable states\<close>

lemma lc_inv_return:
  assumes inv: "lc_inv K rank s V" and pc: "lc_pcs s t = LC_Return op v"
  shows "\<exists>V'. lc_inv K rank (s\<lparr>lc_pcs := (lc_pcs s)(t := LC_Idle), lc_hist := lc_hist s @ [Return (lc_ids s t) v]\<rparr>) V'"
proof -
  note D = lc_invD [OF inv]
  let ?i = "lc_ids s t" and ?pc = "\<lambda>u. if u = t then LC_Idle else lc_pcs s u"
  define V' where "V' = V\<lparr>v_hist := v_hist V @ [Return ?i v]\<rparr>"
  define s' where "s' = s\<lparr>lc_pcs := (lc_pcs s)(t := LC_Idle), lc_hist := lc_hist s @ [Return (lc_ids s t) v]\<rparr>"
  have mine: "(?i, op, v) \<in> set (v_lin V)" using D(15) [of t] pc by simp
  have fin: "v_rem V x \<noteq> ?i" if d: "doomed V x" for x
  proof
    assume e: "v_rem V x = ?i"
    obtain u where u: "removing (lc_pcs s u) = Some x" "lc_ids s u = v_rem V x" using D(14) [OF d] by blast
    then have "lc_pcs s u \<noteq> LC_Idle" by auto
    then show False using D(11) [of u t] u e pc by auto
  qed
  note R = view_return [OF D(1) mine fin V'_def]
  have sl: "lc_list s' = lc_list s" "lc_pcs s' = ?pc" "lc_ids s' = lc_ids s" "lc_hist s' = lc_hist s @ [Return ?i v]"
    by (auto simp: s'_def fun_upd_def)
  have vl: "v_heap V' = v_heap V" "v_head V' = v_head V" "v_pub V' = v_pub V" "v_lin V' = v_lin V" "v_rem V' = v_rem V" "v_hist V' = lc_hist s @ [Return ?i v]"
    using D(4) by (auto simp: V'_def)
  have dm: "doomed V' x = doomed V x" for x by (simp add: doomed_def vl)
  have "lc_inv K rank s' V'"
    unfolding lc_inv_def sl vl dm
  proof (intro conjI allI impI)
    show "pc_ok K rank V' (lc_ids s u) (?pc u)" for u
    proof (cases "u = t \<or> lc_pcs s u = LC_Idle")
      case False
      then show ?thesis using others_rely [OF inv R(2), of t u] pc by (simp add: vl dm emptying_def)
    qed auto
    show "\<exists>u. removing (?pc u) = Some x \<and> lc_ids s u = v_rem V x" if "doomed V x" for x
      using doomed_others [OF inv _ that, of t] pc by auto
    fix u c assume c: "pc_op (?pc u) = Some c"
    then have u: "u \<noteq> t" "pc_op (lc_pcs s u) = Some c" by (auto split: if_splits)
    then have "lc_pcs s u \<noteq> LC_Idle" by auto
    then have "lc_ids s u \<noteq> ?i" using D(11) [of u t] u(1) pc by auto
    then show "pending (lc_hist s @ [Return ?i v]) (lc_ids s u)" "Call (lc_ids s u) c \<in> set (lc_hist s @ [Return ?i v])" "ll_op_ok K c"
      using D(8,9,10) [OF u(2)] by auto
  next
    show "u = w" if "?pc u \<noteq> LC_Idle" "?pc w \<noteq> LC_Idle" "lc_ids s u = lc_ids s w" for u w using D(11) [of u w] that by (auto split: if_splits)
    show "u = w" if "own_node (?pc u) = Some a" "own_node (?pc w) = Some a" for u w a using D(13) [of u a w] that by (auto split: if_splits)
    show "i < length (lc_hist s @ [Return ?i v])" if "Call i c \<in> set (lc_hist s @ [Return ?i v])" for i c using D(7) [of i c] that by auto
    fix u a assume "own_node (?pc u) = Some a"
    then show "a \<notin> v_pub V" "v_heap V a \<noteq> None" "a \<noteq> NULL" "\<not> HAS_MARK a" using D(12) [of u a] by (auto split: if_splits)
  qed (use R(1) D(2,3,5,6) in auto)
  then show ?thesis unfolding s'_def by blast
qed

lemma lc_inv_call:
  assumes inv: "lc_inv K rank s V" and pc: "lc_pcs s t = LC_Idle" and op: "ll_op_ok K op"
  shows "\<exists>V'. lc_inv K rank (lc_call t op s) V'"
proof -
  note D = lc_invD [OF inv]
  let ?i = "length (lc_hist s)" and ?pc = "\<lambda>u. if u = t then Find_Head op else lc_pcs s u" and ?id = "\<lambda>u. if u = t then length (lc_hist s) else lc_ids s u"
  define V' where "V' = V\<lparr>v_hist := v_hist V @ [Call ?i op]\<rparr>"
  have new: "Call ?i c \<notin> set (lc_hist s)" for c using D(7) [of ?i c] by auto
  then have new': "Call ?i c \<notin> set (v_hist V)" for c using D(4) by simp
  note C = view_call [OF D(1) new' V'_def]
  have sl: "lc_list (lc_call t op s) = lc_list s" "lc_pcs (lc_call t op s) = ?pc" "lc_ids (lc_call t op s) = ?id" "lc_hist (lc_call t op s) = lc_hist s @ [Call ?i op]"
    by (auto simp: lc_call_def fun_upd_def)
  have vl: "v_heap V' = v_heap V" "v_head V' = v_head V" "v_pub V' = v_pub V" "v_lin V' = v_lin V" "v_rem V' = v_rem V" "v_hist V' = lc_hist s @ [Call ?i op]"
    using D(4) by (auto simp: V'_def)
  have dm: "doomed V' x = doomed V x" for x by (simp add: doomed_def vl)
  have act: "lc_ids s u \<noteq> ?i" if "lc_pcs s u \<noteq> LC_Idle" for u
    using that D(8) [of u] new by (cases "pc_op (lc_pcs s u)") auto
  have un: "?i \<notin> fst ` set (v_lin V)"
  proof
    assume "?i \<in> fst ` set (v_lin V)"
    then obtain c r where "(?i, c, r) \<in> set (v_lin V)" by auto
    then show False using linearizationD(3) [OF view_okD(2) [OF D(1)]] new' by blast
  qed
  have pend: "pending (lc_hist s) ?i"
    unfolding pending_def
  proof (intro allI notI)
    fix v assume "Return ?i v \<in> set (lc_hist s)"
    then obtain c where "(?i, c, v) \<in> set (v_lin V)" using linearizationD(4) [OF view_okD(2) [OF D(1)]] D(4) by auto
    then show False using un by force
  qed
  have "lc_inv K rank (lc_call t op s) V'"
    unfolding lc_inv_def sl vl dm
  proof (intro conjI allI impI)
    show "pc_ok K rank V' (?id u) (?pc u)" for u
    proof (cases "u = t")
      case True
      then show ?thesis using un by (simp add: unlin_def vl)
    next
      case u: False
      show ?thesis
      proof (cases "lc_pcs s u = LC_Idle")
        case False
        then show ?thesis using u pc_ok_rely [OF C(2) [OF act [OF False]] D(15) [of u]] by (simp add: vl dm emptying_def)
      qed (use u in simp)
    qed
    show "\<exists>u. removing (?pc u) = Some x \<and> ?id u = v_rem V x" if "doomed V x" for x
      using doomed_others [OF inv _ that, of t] pc by auto
    fix u c assume c: "pc_op (?pc u) = Some c"
    show "pending (lc_hist s @ [Call ?i op]) (?id u)" "Call (?id u) c \<in> set (lc_hist s @ [Call ?i op])" "ll_op_ok K c"
      using c op pend D(8,9,10) [of u c] by (auto split: if_splits)
  next
    show "u = w" if "?pc u \<noteq> LC_Idle" "?pc w \<noteq> LC_Idle" "?id u = ?id w" for u w
      using D(11) [of u w] act [of u] act [of w] that by (auto split: if_splits)
    show "u = w" if "own_node (?pc u) = Some a" "own_node (?pc w) = Some a" for u w a using D(13) [of u a w] that by (auto split: if_splits)
    show "i < length (lc_hist s @ [Call ?i op])" if "Call i c \<in> set (lc_hist s @ [Call ?i op])" for i c using D(7) [of i c] that by auto
    fix u a assume "own_node (?pc u) = Some a"
    then show "a \<notin> v_pub V" "v_heap V a \<noteq> None" "a \<noteq> NULL" "\<not> HAS_MARK a" using D(12) [of u a] by (auto split: if_splits)
  qed (use C(1) D(2,3,5,6) in auto)
  then show ?thesis by blast
qed

lemma lc_exec_ok:
  assumes inv: "lc_inv K rank s V" and pool: "ll_pool (lc_list s) \<noteq> [] \<or> (\<forall>op p x. lc_pcs s t \<noteq> Cas_Alloc op p x)"
  shows "\<exists>s' V'. lc_exec t s = ret s' \<and> lc_inv K rank s' V'"
proof -
  consider "lc_pcs s t = LC_Idle" | op v where "lc_pcs s t = LC_Return op v" | "lc_pcs s t \<noteq> LC_Idle" "\<And>op v. lc_pcs s t \<noteq> LC_Return op v" by blast
  then show ?thesis
  proof cases
    case 1
    then have "lc_exec t s = ret s" by (simp add: lc_exec_def fun_upd_idem)
    then show ?thesis using inv by blast
  next
    case 2
    then have "lc_exec t s = ret (s\<lparr>lc_pcs := (lc_pcs s)(t := LC_Idle), lc_hist := lc_hist s @ [Return (lc_ids s t) v]\<rparr>)" by (simp add: lc_exec_def)
    then show ?thesis using lc_inv_return [OF inv 2] by blast
  next
    case 3
    obtain p l V' where a: "lc_access (lc_pcs s t) (lc_list s) = ret (p, l)" "lc_inv K rank (lc_goto t p l s) V'"
      using lc_access_ok [OF inv 3 pool] unfolding access_ok_def by blast
    have "(case lc_pcs s t of LC_Return op v \<Rightarrow> lc_hist s @ [Return (lc_ids s t) v] | _ \<Rightarrow> lc_hist s) = lc_hist s"
      using 3(2) by (cases "lc_pcs s t") auto
    then have "lc_exec t s = ret (lc_goto t p l s)" using a(1) by (simp add: lc_exec_def)
    then show ?thesis using a(2) by blast
  qed
qed

lemma lc_exec_no_memory:
  assumes "lc_pcs s t = Cas_Alloc op p x" and "ll_pool (lc_list s) = []"
  shows "lc_exec t s = fail Exit_Failure"
  using assms by (simp add: lc_exec_def node_alloc_def Let_def)

lemma lc_inv_init:
  assumes ord: "key_order kt K rank" and pool: "pool_ok (a # pool) (\<lambda>_. None)" and l: "ll_alloc kt (a # pool) = ret l"
  shows "\<exists>V. lc_inv K rank (lc_init l) V"
proof -
  define nd :: node where "nd = \<lparr>nd_key = 0, nd_val = 0, nd_next = DOES_NOT_EXIST\<rparr>"
  have a: "a \<noteq> NULL" "\<not> HAS_MARK a" "a \<notin> set pool" "distinct pool" "\<And>b. b \<in> set pool \<Longrightarrow> b \<noteq> NULL \<and> \<not> HAS_MARK b"
    using pool by (auto simp: pool_ok_def)
  have l': "l = \<lparr>ll_head = a, ll_key_type = kt, ll_heap = (\<lambda>_. None)(a \<mapsto> nd), ll_pool = pool, ll_deferred = [], ll_freed = []\<rparr>"
    using l a(2) by (simp add: ll_alloc_def node_alloc_def ll_store_def nd_def)
  define V where "V = \<lparr>v_heap = ll_heap l, v_head = a, v_pub = {a}, v_lin = [], v_rem = (\<lambda>_. 0), v_hist = []\<rparr>"
  have ne: "\<not> edge (ll_heap l) a y" for y by (auto simp: edge_def l' nd_def DOES_NOT_EXIST_def)
  have h: "heap_ok K rank (ll_heap l) a {a}" unfolding heap_ok_def using a ne by (auto simp: l' nd_def DOES_NOT_EXIST_def)
  have lv: "\<not> v_live rank V q n" for q n by (simp add: live_node_def V_def)
  have dm: "\<not> doomed V x" for x by (auto simp: doomed_def V_def l' nd_def)
  have "view_ok K rank V"
    unfolding view_ok_def using h lv dm linearization_Nil by (simp add: inj_on_def) (simp add: V_def)
  moreover have "pool_fresh l" using a by (auto simp: pool_ok_def l')
  ultimately have "lc_inv K rank (lc_init l) V"
    unfolding lc_inv_def using ord dm by (simp add: lc_init_def V_def l')
  then show ?thesis by blast
qed

lemma lc_inv_reachable:
  assumes "key_order kt K rank" and "pool_ok (a # pool) (\<lambda>_. None)" and "ll_alloc kt (a # pool) = ret l" and "lc_reachable K l s"
  shows "\<exists>V. lc_inv K rank s V"
  using assms(4)
proof (induction rule: lc_reachable.induct)
  case init
  then show ?case using lc_inv_init [OF assms(1-3)] .
next
  case (step s s')
  then obtain V where inv: "lc_inv K rank s V" by blast
  from step.hyps(2) show ?case
  proof cases
    case (call t op)
    then show ?thesis using lc_inv_call [OF inv] by simp
  next
    case (exec t)
    show ?thesis
    proof (cases "ll_pool (lc_list s) \<noteq> [] \<or> (\<forall>op p x. lc_pcs s t \<noteq> Cas_Alloc op p x)")
      case True
      then show ?thesis using lc_exec_ok [OF inv True] exec by auto
    next
      case False
      then show ?thesis using lc_exec_no_memory exec by fastforce
    qed
  qed
qed

end
