(* ===== verification/Linked_List_Retire.thy ===== *)
theory Linked_List_Retire
  imports Linked_List_Steps
begin

text \<open>
  Which thread hands a node to \<^verbatim>\<open>rcu_defer_free\<close>, and when: the nodes that have been handed over or
  are about to be are off the path from the head.
\<close>

section \<open>Reclamation\<close>

text \<open>The node a thread has unlinked and not handed to \<^verbatim>\<open>rcu_defer_free\<close> yet.\<close>

fun retiring :: "lc_pc \<Rightarrow> addr option" where
  "retiring (Find_Defer op p x a) = Some a" | "retiring (Rem_Defer op x v) = Some x" | "retiring _ = None"

text \<open>A node that has been published: it is neither in the pool nor private to a thread.\<close>

definition known :: "lc_sys \<Rightarrow> addr \<Rightarrow> bool" where
  "known s a \<longleftrightarrow> a \<notin> set (ll_pool (lc_list s)) \<and> (\<forall>t. own_node (lc_pcs s t) \<noteq> Some a)"

abbreviation in_list :: "list_t \<Rightarrow> addr \<Rightarrow> bool" where
  "in_list l a \<equiv> reach (ll_heap l) (ll_head l) a"

lemma known_pub: "lc_inv K rank s V \<Longrightarrow> a \<in> v_pub V \<Longrightarrow> known s a"
  using lc_invD(2,6,12) [of K rank s V] heap_okD(3) [OF view_okD(1) [OF lc_invD(1)], of K rank s V a] by (auto simp: known_def pool_ok_def)

text \<open>Unlinking and linking add no path to a node that was not on one.\<close>

lemma reach_unlink_back:
  assumes "h p = Some pn" and "h x = Some nd" and "nd_next pn = x" and "\<not> HAS_MARK x" and "x \<noteq> NULL" and "x \<noteq> p"
    and "reach (h(p \<mapsto> pn\<lparr>nd_next := STRIP_MARK (nd_next nd)\<rparr>)) a b"
  shows "reach h a b"
  using assms(7)
proof (induction rule: rtranclp_induct)
  case (step y z)
  have "reach h y z"
  proof (cases "y = p")
    case True
    then have "edge h y x" "edge h x z" using step(2) assms(1-6) by (auto simp: edge_def)
    then show ?thesis by (meson r_into_rtranclp rtranclp_trans)
  next
    case False
    then show ?thesis using step(2) by (auto simp: edge_def)
  qed
  then show ?case using step.IH by (meson rtranclp_trans)
qed simp

lemma reach_insert_back:
  assumes ok: "heap_ok K rank h r0 P" and p: "p \<in> P" "h p = Some pn" "\<not> HAS_MARK (nd_next pn)"
    and new: "h new = Some nn" "nd_next nn = nd_next pn" "\<not> HAS_MARK new" "new \<notin> P"
    and "reach (h(p \<mapsto> pn\<lparr>nd_next := new\<rparr>)) r0 b"
  shows "b \<in> insert new P \<and> (b \<in> P \<longrightarrow> reach h r0 b)"
  using assms(9)
proof (induction rule: rtranclp_induct)
  case base
  then show ?case using heap_okD(1) [OF ok] by simp
next
  case (step y z)
  have pr: "reach h r0 p" using heap_okD(10) [OF ok p(1)] p(2,3) by simp
  have np: "new \<noteq> p" using p(1) new(4) by auto
  consider "y = p" "z = new" | "y = new" "edge h p z" | "y \<noteq> p" "y \<noteq> new" "edge h y z"
  proof (cases "y = p"; cases "y = new")
    assume y: "y \<noteq> p" "y = new"
    then have "edge h p z" using step(2) p(2,3) new(1,2) by (auto simp: edge_def)
    then show thesis using that(2) y by blast
  next
    assume y: "y \<noteq> p" "y \<noteq> new"
    then have "edge h y z" using step(2) by (auto simp: edge_def)
    then show thesis using that(3) y by blast
  qed (use step(2) new(3) np that(1) in \<open>auto simp: edge_def\<close>)
  then show ?case
  proof cases
    case 2
    then show ?thesis using pr heap_okD(7) [OF ok p(1)] by (meson insertCI rtranclp.rtrancl_into_rtrancl)
  next
    case 3
    then show ?thesis using step.IH heap_okD(7) [OF ok] by (meson insertCI insertE rtranclp.rtrancl_into_rtrancl)
  qed (use new(4) in simp)
qed

text \<open>Linking a node leaves every other one where it was.\<close>

lemma reach_link:
  assumes ok: "heap_ok K rank h r0 P" and p: "p \<in> P" "h p = Some pn" "\<not> HAS_MARK (nd_next pn)"
    and new: "h new = Some nn" "nd_next nn = nd_next pn" "new \<notin> P" "\<not> HAS_MARK new" "new \<noteq> NULL"
  shows "reach h r0 b \<Longrightarrow> reach (h(p \<mapsto> pn\<lparr>nd_next := new\<rparr>)) r0 b" and "reach (h(p \<mapsto> pn\<lparr>nd_next := new\<rparr>)) r0 new"
proof -
  have np: "new \<noteq> p" using p(1) new(3) by auto
  show r: "reach (h(p \<mapsto> pn\<lparr>nd_next := new\<rparr>)) r0 b" if "reach h r0 b" for b using reach_insert [OF p(2) new(1) _ new(4,5) np that] p(3) new(2) by simp
  have "reach h r0 p" using heap_okD(10) [OF ok p(1)] p(2,3) by simp
  moreover have "edge (h(p \<mapsto> pn\<lparr>nd_next := new\<rparr>)) p new" using new(4,5) by (auto simp: edge_def)
  ultimately show "reach (h(p \<mapsto> pn\<lparr>nd_next := new\<rparr>)) r0 new" using r rtranclp.rtrancl_into_rtrancl by metis
qed

text \<open>A node that has been unlinked is not on the path any more.\<close>

lemma unlinked_not_reach:
  assumes ok: "heap_ok K rank h r0 P" and p: "p \<in> P" "h p = Some pn" "nd_next pn = x"
    and x: "x \<in> P" "x \<noteq> r0" "h x = Some nd" "HAS_MARK (nd_next nd)"
  shows "\<not> reach (h(p \<mapsto> pn\<lparr>nd_next := STRIP_MARK (nd_next nd)\<rparr>)) r0 x"
proof
  let ?h = "h(p \<mapsto> pn\<lparr>nd_next := STRIP_MARK (nd_next nd)\<rparr>)"
  assume r: "reach ?h r0 x"
  note i = heap_okD(4,5) [OF ok x(1)]
  have np: "x \<noteq> p" using p x i by auto
  note ok' = heap_ok_unlink [OF ok p x]
  have pm: "\<not> marked h p" "\<not> marked ?h p" using p(2,3) i by auto
  have pr: "reach ?h r0 p" using heap_okD(10) [OF ok' p(1) pm(2)] .
  have px: "p = r0 \<or> rank (node_key h p) < rank (node_key h x)"
    using heap_okD(9) [OF ok p(1), of x] p(2,3) i by (auto simp: edge_def)
  have k: "node_key ?h y = node_key h y" for y using p(2) by simp
  have "reach ?h p x" using reach_linear [OF pr r] reach_pub(2) [OF ok' _ x(1), of p, unfolded k] px np x(2) by auto
  then obtain c where c: "edge ?h p c" "reach ?h c x" using reach_first np by metis
  then have e: "edge h x c" using x(3) by (auto simp: edge_def)
  then have "rank (node_key h x) < rank (node_key h c)" "c \<in> P" "c \<noteq> r0" using heap_okD(7,8,9) [OF ok x(1)] x(2) by auto
  then show False using reach_pub(2) [OF ok' c(2), unfolded k] by (cases "c = x") auto
qed

text \<open>What an access does to the path from the head and to the node that is being retired. A node in memory is on the
  path, or private to the thread, or the one the thread retires now, or it was off the path before.\<close>

definition none_lost :: "lc_sys \<Rightarrow> nat \<Rightarrow> lc_pc \<Rightarrow> list_t \<Rightarrow> bool" where
  "none_lost s t p l \<longleftrightarrow>
     (\<forall>a. ll_heap l a \<noteq> None \<longrightarrow> in_list l a \<or> own_node p = Some a \<or> retiring p = Some a \<or>
        ll_heap (lc_list s) a \<noteq> None \<and> own_node (lc_pcs s t) \<noteq> Some a \<and> \<not> in_list (lc_list s) a)"

definition retire_ok :: "lc_sys \<Rightarrow> nat \<Rightarrow> lc_pc \<Rightarrow> list_t \<Rightarrow> bool" where
  "retire_ok s t p l \<longleftrightarrow>
     (\<forall>a. known s a \<longrightarrow> in_list l a \<longrightarrow> in_list (lc_list s) a) \<and>
     ll_deferred l = ll_deferred (lc_list s) @ (case retiring (lc_pcs s t) of None \<Rightarrow> [] | Some a \<Rightarrow> [a]) \<and>
     (\<forall>a. retiring p = Some a \<longrightarrow> known s a \<and> in_list (lc_list s) a \<and> \<not> in_list l a) \<and>
     set (ll_pool l) \<subseteq> set (ll_pool (lc_list s)) \<and>
     (\<forall>a. own_node p = Some a \<longrightarrow> own_node (lc_pcs s t) = Some a \<or> a \<in> set (ll_pool (lc_list s))) \<and> none_lost s t p l"

lemma retire_same:
  assumes "same_list (lc_list s) l" and "ll_deferred l = ll_deferred (lc_list s) @ (case retiring (lc_pcs s t) of None \<Rightarrow> [] | Some a \<Rightarrow> [a])"
    and "retiring p = None" and "own_node p = own_node (lc_pcs s t)"
  shows "retire_ok s t p l"
  using assms by (auto simp: retire_ok_def same_list_def none_lost_def)

lemma retire_edges:
  assumes "ll_heap (lc_list s) x = Some nd" and "STRIP_MARK (nd_next nd') = STRIP_MARK (nd_next nd)" and "retiring p = None" and "own_node p = None"
    and "retiring (lc_pcs s t) = None" and "own_node (lc_pcs s t) = None"
  shows "retire_ok s t p (ll_store x nd' (lc_list s))"
proof -
  define l where "l = ll_store x nd' (lc_list s)"
  have "edge (ll_heap l) = edge (ll_heap (lc_list s))" 
    unfolding l_def ll_store_heap by (rule edge_same [of "ll_heap (lc_list s)" x nd nd', OF assms(1,2)])
  moreover have "ll_head l = ll_head (lc_list s)" "ll_deferred l = ll_deferred (lc_list s)" "ll_pool l = ll_pool (lc_list s)"
    by (simp_all add: l_def ll_store_def)
  moreover have "ll_heap l a \<noteq> None \<longleftrightarrow> ll_heap (lc_list s) a \<noteq> None" for a using assms(1) by (auto simp: l_def ll_store_def)
  ultimately show ?thesis using assms(3-6) unfolding l_def [symmetric] by (simp add: retire_ok_def none_lost_def)
qed

lemma retire_unlink:
  assumes inv: "lc_inv K rank s V" and p: "p \<in> v_pub V" "v_heap V p = Some pn" "nd_next pn = x"
    and x: "x \<in> v_pub V" "x \<noteq> v_head V" "v_heap V x = Some nd" "HAS_MARK (nd_next nd)"
    and pc: "retiring pc = Some x" "own_node pc = None" "retiring (lc_pcs s t) = None" "own_node (lc_pcs s t) = None"
  shows "retire_ok s t pc (ll_store p (pn\<lparr>nd_next := STRIP_MARK (nd_next nd)\<rparr>) (lc_list s))"
proof -
  note D = lc_invD [OF inv]
  note hok = view_okD(1) [OF D(1)]
  note i = heap_okD(4,5) [OF hok x(1)]
  have np: "x \<noteq> p" using p x i by auto
  have "reach (v_heap V) (v_head V) p" using heap_okD(10) [OF hok p(1)] p(2,3) i by simp
  moreover have "edge (v_heap V) p x" using p(2,3) i by (auto simp: edge_def)
  ultimately have "reach (v_heap V) (v_head V) x" by (rule rtranclp.rtrancl_into_rtrancl)
  moreover have "reach (v_heap V) (v_head V) a" if "reach ((v_heap V)(p \<mapsto> pn\<lparr>nd_next := STRIP_MARK (nd_next nd)\<rparr>)) (v_head V) a" for a
    using reach_unlink_back [OF p(2) x(3) p(3) i(2,1) np that] .
  moreover note unlinked_not_reach [OF hok p x] known_pub [OF inv x(1)]
  moreover have "ll_heap (ll_store p (pn\<lparr>nd_next := STRIP_MARK (nd_next nd)\<rparr>) (lc_list s)) = (v_heap V)(p \<mapsto> pn\<lparr>nd_next := STRIP_MARK (nd_next nd)\<rparr>)"
    "ll_head (ll_store p (pn\<lparr>nd_next := STRIP_MARK (nd_next nd)\<rparr>) (lc_list s)) = v_head V"
    "ll_deferred (ll_store p (pn\<lparr>nd_next := STRIP_MARK (nd_next nd)\<rparr>) (lc_list s)) = ll_deferred (lc_list s)"
    "ll_pool (ll_store p (pn\<lparr>nd_next := STRIP_MARK (nd_next nd)\<rparr>) (lc_list s)) = ll_pool (lc_list s)"
    using D(2,3) by (simp_all add: ll_store_def)
  moreover have "none_lost s t pc (ll_store p (pn\<lparr>nd_next := STRIP_MARK (nd_next nd)\<rparr>) (lc_list s))"
    using reach_unlink [OF p(2) x(3) p(3) i(2,1) np, of "v_head V"] p(2) pc D(2,3) by (auto simp: none_lost_def ll_store_def)
  ultimately show ?thesis unfolding retire_ok_def using pc D(2,3) by (metis append_Nil2 option.distinct(1) option.inject option.simps(4) subset_refl)
qed

lemma retire_insert:
  assumes inv: "lc_inv K rank s V" and p: "p \<in> v_pub V" "v_heap V p = Some pn" "\<not> HAS_MARK (nd_next pn)"
    and new: "own_node (lc_pcs s t) = Some a" "v_heap V a = Some nn" "nd_next nn = nd_next pn"
    and pc: "retiring pc = None" "own_node pc = None" "retiring (lc_pcs s t) = None"
  shows "retire_ok s t pc (ll_store p (pn\<lparr>nd_next := a\<rparr>) (lc_list s))"
proof -
  note D = lc_invD [OF inv]
  have a: "a \<notin> v_pub V" "\<not> HAS_MARK a" "a \<noteq> NULL" using D(12) [OF new(1)] by auto
  have "reach (v_heap V) (v_head V) b" if "known s b" "reach ((v_heap V)(p \<mapsto> pn\<lparr>nd_next := a\<rparr>)) (v_head V) b" for b
    using reach_insert_back [OF view_okD(1) [OF D(1)] p new(2,3) a(2,1) that(2)] that(1) new(1) by (auto simp: known_def)
  moreover have "ll_heap (ll_store p (pn\<lparr>nd_next := a\<rparr>) (lc_list s)) = (v_heap V)(p \<mapsto> pn\<lparr>nd_next := a\<rparr>)"
    "ll_head (ll_store p (pn\<lparr>nd_next := a\<rparr>) (lc_list s)) = v_head V"
    "ll_deferred (ll_store p (pn\<lparr>nd_next := a\<rparr>) (lc_list s)) = ll_deferred (lc_list s)"
    "ll_pool (ll_store p (pn\<lparr>nd_next := a\<rparr>) (lc_list s)) = ll_pool (lc_list s)"
    using D(2,3) by (simp_all add: ll_store_def)
  moreover have "none_lost s t pc (ll_store p (pn\<lparr>nd_next := a\<rparr>) (lc_list s))"
    using reach_link [OF view_okD(1) [OF D(1)] p new(2,3) a] new(1) p(2) D(2,3) by (auto simp: none_lost_def ll_store_def)
  ultimately show ?thesis unfolding retire_ok_def using pc D(2,3) by (metis append_Nil2 option.distinct(1) option.simps(4) subset_refl)
qed

lemma retire_outside:
  assumes inv: "lc_inv K rank s V" and a: "a \<notin> v_pub V" and l: "ll_heap l = (ll_heap (lc_list s))(a := r)" "ll_head l = ll_head (lc_list s)"
    "ll_deferred l = ll_deferred (lc_list s)" "set (ll_pool l) \<subseteq> set (ll_pool (lc_list s))"
    and pc: "retiring p = None" "retiring (lc_pcs s t) = None" "\<And>b. own_node p = Some b \<Longrightarrow> own_node (lc_pcs s t) = Some b \<or> b \<in> set (ll_pool (lc_list s))"
      "r = None \<or> own_node p = Some a" "own_node (lc_pcs s t) = None \<or> own_node (lc_pcs s t) = Some a"
  shows "retire_ok s t p l"
proof -
  note D = lc_invD [OF inv]
  note hok = view_okD(1) [OF D(1)]
  have "reach (v_heap V) (v_head V) b" if "reach ((v_heap V)(a := r)) (v_head V) b" for b
    using reach_outside [OF heap_ok_outside [OF hok a] a that heap_okD(1) [OF hok], of "v_heap V a"] by simp
  moreover have "none_lost s t p l"
    using reach_outside [OF hok a _ heap_okD(1) [OF hok], of _ r] l(1,2) pc(4,5) D(2,3) by (auto simp: none_lost_def split: if_splits)
  ultimately show ?thesis using l pc D(2,3) unfolding retire_ok_def by simp
qed

lemma find_quiet [simp]:
  "retiring (find_result op f p x) = None" "own_node (find_result op f p x) = None" "retiring (find_loop op p x) = None" "own_node (find_loop op p x) = None"
  "retiring (cas_check op x v) = None" "own_node (cas_check op x v) = None"
  by (cases op; simp add: find_loop_def)+

lemma find_visit_quiet: "find_visit l op p x n = ret pc \<Longrightarrow> retiring pc = None \<and> own_node pc = None"
  by (auto simp: find_visit_def ll_load_def Let_def pbind_eq_ret split: if_splits option.splits)

lemma defer_node_None: "ll_key_type l = None \<Longrightarrow> ll_deferred (ll_defer_node a k l) = ll_deferred l @ [a]"
  by (simp add: ll_defer_node_def ll_defer_def)

lemma ll_load_ret: "ll_load l a = ret nd \<longleftrightarrow> ll_heap l a = Some nd"
  by (auto simp: ll_load_def split: option.splits)

lemma store_deferred [simp]: "ll_deferred (ll_store a nd l) = ll_deferred l"
  by (simp add: ll_store_def)

lemma access_retires:
  assumes inv: "lc_inv K rank s V" and acc: "lc_access (lc_pcs s t) (lc_list s) = ret (p, l)" and kt: "ll_key_type (lc_list s) = None"
  shows "retire_ok s t p l"
proof -
  note D = lc_invD [OF inv]
  note hok = view_okD(1) [OF D(1)]
  have ok: "pc_ok K rank V (lc_ids s t) (lc_pcs s t)" using D(15) .
  show ?thesis
  proof (cases "lc_pcs s t")
    case (Find_Unlink op q x n)
    obtain pn where pn: "ll_heap (lc_list s) q = Some pn" using acc Find_Unlink by (auto simp: pbind_eq_ret ll_load_ret)
    have T: "q \<in> v_pub V" "x \<in> v_pub V" "x \<noteq> v_head V" "HAS_MARK n" "node_next (v_heap V) x = n" using ok Find_Unlink by (auto simp: low_def)
    obtain nd where nd: "v_heap V x = Some nd" using heap_okD(3) [OF hok T(2)] by blast
    show ?thesis
    proof (cases "nd_next pn = x")
      case True
      then have r: "p = Find_Defer op q (STRIP_MARK n) x" "l = ll_store q (pn\<lparr>nd_next := STRIP_MARK (nd_next nd)\<rparr>) (lc_list s)"
        using acc Find_Unlink pn nd T(5) by (auto simp: Let_def)
      show ?thesis unfolding r(2) by (rule retire_unlink [OF inv T(1) _ True T(2,3) nd]) (use r(1) pn D(2) nd T Find_Unlink in auto)
    next
      case False
      then show ?thesis using acc Find_Unlink pn by (intro retire_same) (auto simp: SYNC_CAS_diff Let_def)
    qed
  next
    case (Find_Defer op q x a)
    then obtain nxt an where "ll_heap (lc_list s) a = Some an" "find_visit l op q x nxt = ret p" "l = ll_defer_node a (nd_key an) (lc_list s)"
      using acc by (auto simp: pbind_eq_ret ll_load_ret Let_def GET_NODE_def)
    then show ?thesis using Find_Defer find_visit_quiet by (intro retire_same) (auto simp: defer_node_None [OF kt])
  next
    case (Cas_Alloc op q x)
    obtain a as where a: "ll_pool (lc_list s) = a # as" using acc Cas_Alloc by (cases "ll_pool (lc_list s)") (auto simp: node_alloc_def Let_def)
    have "a \<notin> v_pub V" using D(6) heap_okD(3) [OF hok, of a] D(2) a by (auto simp: pool_ok_def)
    then show ?thesis using acc Cas_Alloc a D(6)
      by (intro retire_outside [OF inv]) (auto simp: node_alloc_def Let_def ll_store_def pool_ok_def)
  next
    case (Cas_Insert op q x a)
    obtain pn where pn: "ll_heap (lc_list s) q = Some pn" using acc Cas_Insert by (auto simp: pbind_eq_ret ll_load_ret)
    obtain nn where T: "q \<in> v_pub V" "v_heap V a = Some nn" "nd_next nn = x" "high rank V (rank (ll_op_key op)) x"
      using ok Cas_Insert by (auto simp: low_def)
    show ?thesis
    proof (cases "nd_next pn = x")
      case True
      then have r: "p = LC_Return op DOES_NOT_EXIST" "l = ll_store q (pn\<lparr>nd_next := a\<rparr>) (lc_list s)"
        using acc Cas_Insert pn by (auto simp: Let_def)
      have "\<not> HAS_MARK x" using T(4) heap_okD(5) [OF hok, of x] by (auto simp: high_def)
      then show ?thesis unfolding r(2) by (intro retire_insert [OF inv T(1)]) (use r(1) pn D(2) T True Cas_Insert in auto)
    next
      case False
      then show ?thesis using acc Cas_Insert pn by (intro retire_same) (auto simp: SYNC_CAS_diff Let_def)
    qed
  next
    case (Cas_Free op a)
    have "a \<notin> v_pub V" using D(12) [of t a] Cas_Free by simp
    then show ?thesis using acc Cas_Free
      by (intro retire_outside [OF inv, of a]) (auto simp: pbind_eq_ret ll_load_ret ll_nbd_free_def ll_free_key_def kt)
  next
    case (Cas_Update op x old)
    obtain nd where nd: "ll_heap (lc_list s) x = Some nd" using acc Cas_Update by (auto simp: pbind_eq_ret ll_load_ret)
    define nd' where "nd' = nd\<lparr>nd_val := if nd_val nd = old then ll_op_val op else nd_val nd\<rparr>"
    have "l = ll_store x nd' (lc_list s)" "retiring p = None" "own_node p = None"
      using acc Cas_Update nd by (auto simp: SYNC_CAS_def Let_def nd'_def split: if_splits)
    then show ?thesis using retire_edges [OF nd, of nd' p t] Cas_Update by (simp add: nd'_def)
  next
    case (Rem_Mark op q x n)
    obtain nd where nd: "ll_heap (lc_list s) x = Some nd" using acc Rem_Mark by (auto simp: pbind_eq_ret ll_load_ret)
    then have "l = ll_store x (nd\<lparr>nd_next := if nd_next nd = n then MARK_NODE (STRIP_MARK n) else nd_next nd\<rparr>) (lc_list s)" "retiring p = None" "own_node p = None"
      using acc Rem_Mark by (auto simp: SYNC_CAS_def Let_def split: if_splits)
    then show ?thesis using retire_edges [OF nd, of "nd\<lparr>nd_next := if nd_next nd = n then MARK_NODE (STRIP_MARK n) else nd_next nd\<rparr>" p t] Rem_Mark by auto
  next
    case (Rem_Swap op q x n)
    obtain nd where nd: "ll_heap (lc_list s) x = Some nd" using acc Rem_Swap by (auto simp: pbind_eq_ret ll_load_ret)
    then have "l = ll_store x (nd\<lparr>nd_val := DOES_NOT_EXIST\<rparr>) (lc_list s)" "retiring p = None" "own_node p = None"
      using acc Rem_Swap by (auto simp: SYNC_SWAP_def)
    then show ?thesis using retire_edges [OF nd, of "nd\<lparr>nd_val := DOES_NOT_EXIST\<rparr>" p t] Rem_Swap by simp
  next
    case (Rem_Unlink op q x n v)
    obtain pn where pn: "ll_heap (lc_list s) q = Some pn" using acc Rem_Unlink by (auto simp: pbind_eq_ret ll_load_ret)
    have T: "q \<in> v_pub V" "x \<in> v_pub V" "x \<noteq> v_head V" "frozen V x n" using ok Rem_Unlink by (auto simp: frozen_def)
    obtain nd where nd: "v_heap V x = Some nd" using heap_okD(3) [OF hok T(2)] by blast
    show ?thesis
    proof (cases "nd_next pn = x")
      case True
      then have r: "p = Rem_Defer op x v" "l = ll_store q (pn\<lparr>nd_next := STRIP_MARK (nd_next nd)\<rparr>) (lc_list s)"
        using acc Rem_Unlink pn nd T(4) by (auto simp: Let_def frozen_def)
      show ?thesis unfolding r(2) by (rule retire_unlink [OF inv T(1) _ True T(2,3) nd]) (use r(1) pn D(2) nd T Rem_Unlink in \<open>auto simp: frozen_def\<close>)
    next
      case False
      then show ?thesis using acc Rem_Unlink pn by (intro retire_same) (auto simp: SYNC_CAS_diff Let_def)
    qed
  next
    case (Rem_Defer op x v)
    then show ?thesis using acc by (intro retire_same) (auto simp: pbind_eq_ret ll_load_ret defer_node_None [OF kt])
  next
    case (Find_Next op q x)
    then show ?thesis using acc find_visit_quiet by (intro retire_same) (auto simp: pbind_eq_ret ll_load_ret)
  qed (use acc in \<open>auto simp: pbind_eq_ret ll_load_ret Let_def intro!: retire_same split: if_splits\<close>)
qed

text \<open>Every node in memory is on the path from the head, private to a thread that has not linked it yet, about to be handed over by the
  thread that unlinked it, or handed over.\<close>

definition accounted :: "lc_sys \<Rightarrow> bool" where
  "accounted s \<longleftrightarrow> (\<forall>a. ll_heap (lc_list s) a \<noteq> None \<longrightarrow> in_list (lc_list s) a \<or> (\<exists>t. own_node (lc_pcs s t) = Some a) \<or>
     (\<exists>t. retiring (lc_pcs s t) = Some a) \<or> a \<in> set (ll_deferred (lc_list s)))"

lemma accounted_goto:
  assumes "accounted s" and "retire_ok s t p l"
  shows "accounted (lc_goto t p l s)"
proof -
  have dl: "ll_deferred l = ll_deferred (lc_list s) @ (case retiring (lc_pcs s t) of None \<Rightarrow> [] | Some a \<Rightarrow> [a])"
    using assms(2) unfolding retire_ok_def by blast
  have d: "a \<in> set (ll_deferred l)" if "a \<in> set (ll_deferred (lc_list s)) \<or> retiring (lc_pcs s t) = Some a" for a
    using that dl by auto
  have n: "none_lost s t p l" using assms(2) unfolding retire_ok_def by blast
  have "in_list l a \<or> (\<exists>u. own_node (if u = t then p else lc_pcs s u) = Some a) \<or> (\<exists>u. retiring (if u = t then p else lc_pcs s u) = Some a) \<or> a \<in> set (ll_deferred l)"
    if h: "ll_heap l a \<noteq> None" for a
  proof -
    consider "in_list l a" | "own_node p = Some a" | "retiring p = Some a" | "ll_heap (lc_list s) a \<noteq> None" "own_node (lc_pcs s t) \<noteq> Some a" "\<not> in_list (lc_list s) a"
      using n h unfolding none_lost_def by blast
    then show ?thesis
    proof cases
      case 4
      then consider (own) u where "own_node (lc_pcs s u) = Some a" | (ret) u where "retiring (lc_pcs s u) = Some a" | (def) "a \<in> set (ll_deferred (lc_list s))"
        using assms(1) unfolding accounted_def by blast
      then show ?thesis
      proof cases
        case own
        then have "u \<noteq> t" using 4(2) by auto
        then have "own_node (if u = t then p else lc_pcs s u) = Some a" using own by simp
        then show ?thesis by blast
      next
        case ret
        then have "u = t \<and> a \<in> set (ll_deferred l) \<or> retiring (if u = t then p else lc_pcs s u) = Some a" using d [of a] by auto
        then show ?thesis by blast
      qed (use d [of a] in simp)
    next
      case 2
      then have "own_node (if t = t then p else lc_pcs s t) = Some a" by simp
      then show ?thesis by blast
    next
      case 3
      then have "retiring (if t = t then p else lc_pcs s t) = Some a" by simp
      then show ?thesis by blast
    qed simp
  qed
  then show ?thesis by (simp add: accounted_def fun_upd_def)
qed

text \<open>The nodes that have been handed over or are about to be are not on the path from the head, and none is handed over twice.\<close>

definition retire_inv :: "lc_sys \<Rightarrow> bool" where
  "retire_inv s \<longleftrightarrow>
     ll_key_type (lc_list s) = None \<and> distinct (ll_deferred (lc_list s)) \<and>
     (\<forall>a \<in> set (ll_deferred (lc_list s)). known s a \<and> \<not> in_list (lc_list s) a) \<and>
     (\<forall>t a. retiring (lc_pcs s t) = Some a \<longrightarrow> known s a \<and> \<not> in_list (lc_list s) a \<and> a \<notin> set (ll_deferred (lc_list s))) \<and>
     (\<forall>t u a. retiring (lc_pcs s t) = Some a \<longrightarrow> retiring (lc_pcs s u) = Some a \<longrightarrow> t = u) \<and> accounted s"

lemma retire_inv_goto:
  assumes inv: "retire_inv s" and ok: "retire_ok s t p l" and kt: "ll_key_type l = None"
  shows "retire_inv (lc_goto t p l s)"
proof -
  let ?pc = "\<lambda>u. if u = t then p else lc_pcs s u" and ?s = "lc_goto t p l s"
  have O: "\<And>a. known s a \<Longrightarrow> in_list l a \<Longrightarrow> in_list (lc_list s) a"
    "ll_deferred l = ll_deferred (lc_list s) @ (case retiring (lc_pcs s t) of None \<Rightarrow> [] | Some a \<Rightarrow> [a])"
    "\<And>a. retiring p = Some a \<Longrightarrow> known s a \<and> in_list (lc_list s) a \<and> \<not> in_list l a"
    "set (ll_pool l) \<subseteq> set (ll_pool (lc_list s))" "\<And>a. own_node p = Some a \<Longrightarrow> own_node (lc_pcs s t) = Some a \<or> a \<in> set (ll_pool (lc_list s))"
    using ok unfolding retire_ok_def by blast+
  have I: "distinct (ll_deferred (lc_list s))" "\<And>a. a \<in> set (ll_deferred (lc_list s)) \<Longrightarrow> known s a \<and> \<not> in_list (lc_list s) a"
    "\<And>u a. retiring (lc_pcs s u) = Some a \<Longrightarrow> known s a \<and> \<not> in_list (lc_list s) a \<and> a \<notin> set (ll_deferred (lc_list s))"
    "\<And>u w a. retiring (lc_pcs s u) = Some a \<Longrightarrow> retiring (lc_pcs s w) = Some a \<Longrightarrow> u = w"
    using inv unfolding retire_inv_def by blast+
  have sl: "lc_list ?s = l" "lc_pcs ?s = ?pc" by (auto simp: fun_upd_def)
  have kn: "known ?s a" if "known s a" for a
    using that O(4) O(5) [of a] unfolding known_def sl by auto
  have mem: "a \<in> set (ll_deferred l) \<longleftrightarrow> a \<in> set (ll_deferred (lc_list s)) \<or> retiring (lc_pcs s t) = Some a" for a
    unfolding O(2) by (auto split: option.splits)
  have old: "known ?s a \<and> \<not> in_list l a" if "a \<in> set (ll_deferred l)" for a
    using that mem I(2) [of a] I(3) [of t a] O(1) [of a] kn by blast
  have new: "known ?s a \<and> \<not> in_list l a \<and> a \<notin> set (ll_deferred l)" if r: "retiring (?pc u) = Some a" for u a
  proof (cases "u = t")
    case True
    then show ?thesis using r O(3) [of a] mem I(2) [of a] I(3) [of t a] kn by auto
  next
    case False
    then show ?thesis using r I(3) [of u a] O(1) [of a] mem I(4) [of u a t] kn by auto
  qed
  have uniq: "u = w" if "retiring (?pc u) = Some a" "retiring (?pc w) = Some a" for u w a
    using that O(3) [of a] I(3) [of u a] I(3) [of w a] I(4) [of u a w] by (auto split: if_splits)
  have "distinct (ll_deferred l)" unfolding O(2) using I(1) I(3) [of t] by (auto split: option.splits)
  moreover have "accounted ?s" using accounted_goto [OF _ ok] inv by (simp only: retire_inv_def)
  ultimately show ?thesis unfolding retire_inv_def sl using kt old new uniq by blast
qed

lemma access_key_type: "lc_access pc l = ret (p, l') \<Longrightarrow> ll_key_type l' = ll_key_type l"
  by (cases pc) (auto simp: pbind_eq_ret ll_load_ret Let_def node_alloc_def ll_store_def ll_nbd_free_def ll_free_key_def
      ll_defer_node_def ll_defer_def passert_def SYNC_CAS_def SYNC_SWAP_def split: if_splits list.splits option.splits)

lemma retire_inv_same:
  assumes "retire_inv s" and "lc_list s' = lc_list s"
    and "\<And>t. retiring (lc_pcs s' t) = retiring (lc_pcs s t)" and "\<And>t. own_node (lc_pcs s' t) = own_node (lc_pcs s t)"
  shows "retire_inv s'"
  using assms by (simp add: retire_inv_def known_def accounted_def)

lemma retire_inv_exec:
  assumes inv: "lc_inv K rank s V" and ret: "retire_inv s" and ex: "lc_exec t s = ret s'"
  shows "retire_inv s'"
proof (cases "\<exists>op v. lc_pcs s t = LC_Return op v")
  case True
  then show ?thesis using ex by (intro retire_inv_same [OF ret]) (auto simp: lc_exec_def)
next
  case False
  obtain p l where a: "lc_access (lc_pcs s t) (lc_list s) = ret (p, l)"
    using ex by (auto simp: lc_exec_def pbind_eq_ret)
  have "(case lc_pcs s t of LC_Return op v \<Rightarrow> lc_hist s @ [Return (lc_ids s t) v] | _ \<Rightarrow> lc_hist s) = lc_hist s"
    using False by (cases "lc_pcs s t") auto
  then have "s' = lc_goto t p l s" using ex a by (simp add: lc_exec_def)
  moreover have kt: "ll_key_type (lc_list s) = None" using ret by (simp add: retire_inv_def)
  ultimately show ?thesis
    using retire_inv_goto [OF ret access_retires [OF inv a kt]] access_key_type [OF a] kt by simp
qed

lemma retire_inv_reachable:
  assumes "key_order None K rank" and "pool_ok (a # pool) (\<lambda>_. None)" and "ll_alloc None (a # pool) = ret l" and "lc_reachable K l s"
  shows "retire_inv s"
  using assms(4)
proof (induction rule: lc_reachable.induct)
  case init
  then show ?case using assms(3)
    by (auto simp: retire_inv_def accounted_def lc_init_def ll_alloc_def node_alloc_def ll_store_def pbind_eq_ret split: if_splits)
next
  case (step s s')
  obtain V where inv: "lc_inv K rank s V" using lc_inv_reachable [OF assms(1-3) step.hyps(1)] by blast
  from step.hyps(2) show ?case
  proof cases
    case (call t op)
    then show ?thesis by (intro retire_inv_same [OF step.IH]) (auto simp: lc_call_def)
  next
    case (exec t)
    then show ?thesis using retire_inv_exec [OF inv step.IH] by simp
  qed
qed

end
