(* ===== verification/Linked_List_Progress.thy ===== *)
theory Linked_List_Progress
  imports Linked_List_Retire
begin

text \<open>
  Threads that run alone return: from any state that the threads can reach together, a thread that takes steps
  of its own only gets through its search, fails at most one compare-and-swap on a link, and returns.
\<close>

lemma lc_reachable_key_type:
  assumes "ll_alloc kt (a # pool) = ret l" and "lc_reachable K l s"
  shows "ll_key_type (lc_list s) = kt"
  using assms(2)
proof (induction rule: lc_reachable.induct)
  case init
  then show ?case using assms(1) by (auto simp: lc_init_def ll_alloc_def node_alloc_def ll_store_def pbind_eq_ret split: if_splits)
next
  case (step s s')
  from step.hyps(2) show ?case
    by cases (use step access_key_type in \<open>auto simp: lc_call_def lc_exec_def pbind_eq_ret\<close>)
qed

section \<open>Threads that run alone\<close>

text \<open>If no other thread takes steps, thread \<open>t\<close> gets to the return of its operation.\<close>

definition finishes :: "nat \<Rightarrow> lc_sys \<Rightarrow> bool" where
  "finishes t s \<longleftrightarrow> (\<exists>n s' op v. lc_run (replicate n (Access t)) s = ret s' \<and> lc_pcs s' t = LC_Return op v \<and> lc_hist s' = lc_hist s \<and> lc_ids s' = lc_ids s)"

lemma finishes_now: "lc_pcs s t = LC_Return op v \<Longrightarrow> finishes t s"
  unfolding finishes_def by (intro exI [of _ 0] exI [of _ s]) simp

lemma solo:
  assumes inv: "lc_inv K rank s V" and act: "lc_pcs s t \<noteq> LC_Idle" "\<And>op v. lc_pcs s t \<noteq> LC_Return op v"
    and pool: "ll_pool (lc_list s) \<noteq> [] \<or> (\<forall>op p x. lc_pcs s t \<noteq> Cas_Alloc op p x)"
    and go: "\<And>p l V'. lc_access (lc_pcs s t) (lc_list s) = ret (p, l) \<Longrightarrow> lc_inv K rank (lc_goto t p l s) V' \<Longrightarrow> finishes t (lc_goto t p l s)"
  shows "finishes t s"
proof -
  obtain p l V' where a: "lc_access (lc_pcs s t) (lc_list s) = ret (p, l)" "lc_inv K rank (lc_goto t p l s) V'"
    using lc_access_ok [OF inv act pool] unfolding access_ok_def by blast
  have "(case lc_pcs s t of LC_Return op v \<Rightarrow> lc_hist s @ [Return (lc_ids s t) v] | _ \<Rightarrow> lc_hist s) = lc_hist s"
    using act(2) by (cases "lc_pcs s t") auto
  then have ex: "lc_exec t s = ret (lc_goto t p l s)" using a(1) by (simp add: lc_exec_def)
  obtain n s' op v where "lc_run (replicate n (Access t)) (lc_goto t p l s) = ret s'" "lc_pcs s' t = LC_Return op v" "lc_hist s' = lc_hist s" "lc_ids s' = lc_ids s"
    using go [OF a] by (auto simp: finishes_def)
  then show ?thesis unfolding finishes_def using ex by (intro exI [of _ "Suc n"] exI [of _ s']) simp
qed

lemmas access_simps = pbind_eq_ret ll_load_ret Let_def SYNC_CAS_def SYNC_SWAP_def

lemma finishes_lookup_val: "lc_inv K rank s V \<Longrightarrow> lc_pcs s t = Lookup_Val op x \<Longrightarrow> finishes t s"
  by (erule solo) (auto simp: access_simps intro: finishes_now)

lemma finishes_rem_defer: "lc_inv K rank s V \<Longrightarrow> lc_pcs s t = Rem_Defer op x v \<Longrightarrow> finishes t s"
  by (erule solo) (auto simp: access_simps intro: finishes_now)

lemma finishes_rem_unlink: "lc_inv K rank s V \<Longrightarrow> lc_pcs s t = Rem_Unlink op p x n v \<Longrightarrow> finishes t s"
  by (erule solo) (auto simp: access_simps intro: finishes_now finishes_rem_defer split: if_splits)

lemma finishes_rem_swap: "lc_inv K rank s V \<Longrightarrow> lc_pcs s t = Rem_Swap op p x n \<Longrightarrow> finishes t s"
  by (erule solo) (auto simp: access_simps intro: finishes_rem_unlink)

lemma finishes_rem_assert: "lc_inv K rank s V \<Longrightarrow> lc_pcs s t = Rem_Assert op p x n \<Longrightarrow> finishes t s"
  by (erule solo) (auto simp: access_simps passert_def intro: finishes_rem_swap split: if_splits)

lemma finishes_rem_mark_now:
  "lc_inv K rank s V \<Longrightarrow> lc_pcs s t = Rem_Mark op p x n \<Longrightarrow> nd_next (the (ll_heap (lc_list s) x)) = n \<Longrightarrow> finishes t s"
  by (erule solo) (auto simp: access_simps intro: finishes_now finishes_rem_assert split: if_splits)

lemma finishes_rem_mark: "lc_inv K rank s V \<Longrightarrow> lc_pcs s t = Rem_Mark op p x n \<Longrightarrow> finishes t s"
  by (erule solo) (auto simp: access_simps ll_store_def intro: finishes_now finishes_rem_assert finishes_rem_mark_now split: if_splits)

lemma finishes_rem_next: "lc_inv K rank s V \<Longrightarrow> lc_pcs s t = Rem_Next op p x \<Longrightarrow> finishes t s"
  by (erule solo) (auto simp: access_simps intro: finishes_rem_mark)

lemma finishes_cas_update_now:
  "lc_inv K rank s V \<Longrightarrow> lc_pcs s t = Cas_Update op x old \<Longrightarrow> nd_val (the (ll_heap (lc_list s) x)) = old \<Longrightarrow> finishes t s"
  by (erule solo) (auto simp: access_simps intro: finishes_now split: if_splits)

lemma finishes_cas_insert_now:
  "lc_inv K rank s V \<Longrightarrow> lc_pcs s t = Cas_Insert op p x a \<Longrightarrow> nd_next (the (ll_heap (lc_list s) p)) = x \<Longrightarrow> finishes t s"
  by (erule solo) (auto simp: access_simps intro: finishes_now split: if_splits)

lemma cas_check_finishes:
  assumes "lc_inv K rank s V" and "lc_pcs s t = cas_check (LL_Cas k e v) x (nd_val (the (ll_heap (lc_list s) x)))"
    and "nd_val (the (ll_heap (lc_list s) x)) \<noteq> DOES_NOT_EXIST"
  shows "finishes t s"
  using assms finishes_cas_update_now [OF assms(1)] by (auto intro: finishes_now split: if_splits)

lemma finishes_cas_val_now:
  assumes inv: "lc_inv K rank s V" and pc: "lc_pcs s t = Cas_Val op x" and v: "nd_val (the (ll_heap (lc_list s) x)) \<noteq> DOES_NOT_EXIST"
  shows "finishes t s"
proof -
  obtain k e w where op: "op = LL_Cas k e w" using lc_invD(15) [OF inv, of t] pc by auto
  show ?thesis by (rule solo [OF inv]) (use pc v op in \<open>auto simp: access_simps simp del: cas_check.simps intro!: cas_check_finishes [of K rank _ _ t k e w x]\<close>)
qed

lemma finishes_cas_alloc_now:
  assumes inv: "lc_inv K rank s V" and pc: "lc_pcs s t = Cas_Alloc op p x" and fresh: "nd_next (the (ll_heap (lc_list s) p)) = x"
    and pool: "ll_pool (lc_list s) \<noteq> []"
  shows "finishes t s"
proof -
  have "p \<in> v_pub V" using lc_invD(15) [OF inv, of t] pc by (simp add: low_def)
  then obtain nd where "ll_heap (lc_list s) p = Some nd" by (rule pub_load [OF inv])
  then have "p \<notin> set (ll_pool (lc_list s))" using lc_invD(6) [OF inv] by (auto simp: pool_ok_def)
  then show ?thesis using pool pc fresh
    by (intro solo [OF inv]) (auto simp: access_simps node_alloc_def ll_store_def intro!: finishes_cas_insert_now split: list.splits)
qed

text \<open>A search that has read the link of \<open>p\<close> to \<open>x\<close> and finds it unchanged.\<close>

definition fresh_at :: "list_t \<Rightarrow> ll_op \<Rightarrow> addr \<Rightarrow> addr \<Rightarrow> bool" where
  "fresh_at l op p x \<longleftrightarrow> help_remove op \<longrightarrow> nd_next (the (ll_heap l p)) = x"

lemma result_finishes:
  assumes inv: "lc_inv K rank s V" and pc: "lc_pcs s t = find_result op f p x" and fr: "fresh_at (lc_list s) op p x"
    and x: "f \<Longrightarrow> \<not> HAS_MARK (nd_next (the (ll_heap (lc_list s) x)))" and pool: "ll_pool (lc_list s) \<noteq> []"
  shows "finishes t s"
proof (cases op)
  case (LL_Lookup k)
  then show ?thesis using pc finishes_lookup_val [OF inv] by (auto intro: finishes_now split: if_splits)
next
  case (LL_Remove k)
  then show ?thesis using pc finishes_rem_next [OF inv] by (auto intro: finishes_now split: if_splits)
next
  case (LL_Cas k e v)
  show ?thesis
  proof (cases f)
    case True
    then have c: "lc_pcs s t = Cas_Val op x" using pc LL_Cas by simp
    then have "x \<in> v_pub V" "x \<noteq> v_head V" using lc_invD(15) [OF inv, of t] by (auto simp: held_def)
    then have "nd_val (the (ll_heap (lc_list s) x)) \<noteq> DOES_NOT_EXIST"
      using heap_okD(11) [OF view_okD(1) [OF lc_invD(1) [OF inv]]] x [OF True] lc_invD(2) [OF inv] by (auto simp: DOES_NOT_EXIST_def)
    then show ?thesis using finishes_cas_val_now [OF inv c] by simp
  next
    case False
    then show ?thesis using pc LL_Cas fr pool finishes_cas_alloc_now [OF inv, of t op p x] by (auto simp: fresh_at_def intro: finishes_now split: if_splits)
  qed
qed

lemma loop_finishes:
  assumes inv: "lc_inv K rank s V" and pc: "lc_pcs s t = find_loop op p x" and fr: "fresh_at (lc_list s) op p x" and pool: "ll_pool (lc_list s) \<noteq> []"
    and rest: "\<And>q V'. x \<noteq> NULL \<Longrightarrow> find_visit (lc_list s) op p x (nd_next (the (ll_heap (lc_list s) x))) = ret q \<Longrightarrow>
      lc_inv K rank (lc_goto t q (lc_list s) s) V' \<Longrightarrow> finishes t (lc_goto t q (lc_list s) s)"
  shows "finishes t s"
proof (cases "x = NULL")
  case True
  then show ?thesis using result_finishes [OF inv _ fr, of t False] pc pool by (simp add: find_loop_def)
next
  case False
  then show ?thesis using pc rest by (intro solo [OF inv]) (auto simp: find_loop_def access_simps)
qed

abbreviation path_length :: "(addr \<Rightarrow> node option) \<Rightarrow> addr \<Rightarrow> nat" where "path_length h x \<equiv> card {y. reach h x y}"

lemma path_length_next:
  assumes ok: "heap_ok K rank h r0 P" and x: "x \<in> P" and e: "edge h x y"
  shows "path_length h y < path_length h x"
proof (rule psubset_card_mono)
  have "x \<noteq> z" if "reach h y z" for z
    using reach_pub(2) [OF ok that] heap_okD(7,8,9) [OF ok x e] by (cases "y = z") auto
  then show "{z. reach h y z} \<subset> {z. reach h x z}" using e by (auto intro: converse_rtranclp_into_rtranclp)
qed simp

lemma path_length_unlink:
  assumes ok: "heap_ok K rank h r0 P" and p: "p \<in> P" "h p = Some pn" "nd_next pn = x" and x: "x \<in> P" "x \<noteq> r0" "h x = Some nd" "HAS_MARK (nd_next nd)"
    and y: "y = STRIP_MARK (nd_next nd)" "y \<noteq> NULL"
  shows "path_length (h(p \<mapsto> pn\<lparr>nd_next := y\<rparr>)) y < path_length h x"
proof -
  note i = heap_okD(4,5) [OF ok x(1)]
  have np: "x \<noteq> p" using p x i by auto
  have e: "edge h x y" using x(3) y by (auto simp: edge_def)
  have "{z. reach (h(p \<mapsto> pn\<lparr>nd_next := y\<rparr>)) y z} \<subseteq> {z. reach h y z}"
    using reach_unlink_back [OF p(2) x(3) p(3) i(2,1) np] y(1) by auto
  then have "path_length (h(p \<mapsto> pn\<lparr>nd_next := y\<rparr>)) y \<le> path_length h y" by (intro card_mono) simp_all
  then show ?thesis using path_length_next [OF ok x(1) e] by simp
qed

lemma visit_finishes:
  assumes "lc_inv K rank s V" and "find_visit (lc_list s) op p x nxt = ret (lc_pcs s t)" and "fresh_at (lc_list s) op p x"
    and "ll_pool (lc_list s) \<noteq> []" and "nxt = (if x = NULL then DOES_NOT_EXIST else nd_next (the (ll_heap (lc_list s) x)))"
  shows "finishes t s"
  using assms
proof (induction "path_length (ll_heap (lc_list s)) x" arbitrary: s V p x nxt rule: less_induct)
  case less
  note inv = less.prems(1) and vis = less.prems(2) and fr = less.prems(3) and pool = less.prems(4) and nxt = less.prems(5)
  note D = lc_invD [OF inv]
  note hok = view_okD(1) [OF D(1)]
  note ok = D(15) [of t]
  have IH: "finishes t s'" if "lc_inv K rank s' V'" "find_visit (lc_list s') op p' y (nd_next (the (ll_heap (lc_list s') y))) = ret (lc_pcs s' t)"
    "fresh_at (lc_list s') op p' y" "ll_pool (lc_list s') \<noteq> []" "y \<noteq> NULL" "path_length (ll_heap (lc_list s')) y < path_length (ll_heap (lc_list s)) x" for s' V' p' y
    using less.hyps [OF that(6) that(1,2,3,4)] that(5) by simp
  consider (skip) "HAS_MARK nxt" "\<not> help_remove op" | (unlink) "HAS_MARK nxt" "help_remove op" | (eol) "\<not> HAS_MARK nxt" "x = NULL"
    | (node) "\<not> HAS_MARK nxt" "x \<noteq> NULL" by blast
  then show ?case
  proof cases
    case skip
    then have pc: "lc_pcs s t = Find_Skip op p x" using vis by (simp add: find_visit_def)
    have x: "x \<in> v_pub V" using ok pc by (simp add: seeks_def)
    show ?thesis
    proof (rule solo [OF inv])
      fix q l V' assume a: "lc_access (lc_pcs s t) (lc_list s) = ret (q, l)" and i: "lc_inv K rank (lc_goto t q l s) V'"
      then obtain nd where nd: "ll_heap (lc_list s) x = Some nd" "q = find_loop op p (STRIP_MARK (nd_next nd))" "l = lc_list s"
        using pc by (auto simp: access_simps find_loop_def)
      have "path_length (ll_heap (lc_list s)) (STRIP_MARK (nd_next nd)) < path_length (ll_heap (lc_list s)) x" if "STRIP_MARK (nd_next nd) \<noteq> NULL"
        using path_length_next [OF hok x] that nd(1) D(2) by (auto simp: edge_def)
      then show "finishes t (lc_goto t q l s)"
        using nd(2,3) pool skip by (intro loop_finishes [OF i, of t op p "STRIP_MARK (nd_next nd)"]) (auto simp: fresh_at_def intro: IH)
    qed (use pc in auto)
  next
    case unlink
    then have pc: "lc_pcs s t = Find_Unlink op p x nxt" using vis by (simp add: find_visit_def)
    have T: "p \<in> v_pub V" "x \<in> v_pub V" "x \<noteq> v_head V" "HAS_MARK nxt" using ok pc by (auto simp: low_def)
    obtain pn where pn: "v_heap V p = Some pn" using heap_okD(3) [OF hok T(1)] by blast
    obtain nd where nd: "v_heap V x = Some nd" using heap_okD(3) [OF hok T(2)] by blast
    define y where "y = STRIP_MARK (nd_next nd)"
    have f: "nd_next pn = x" "nd_next nd = nxt" using fr unlink pn nd D(2) nxt heap_okD(4) [OF hok T(2)] by (auto simp: fresh_at_def)
    have pl: "path_length ((ll_heap (lc_list s))(p \<mapsto> pn\<lparr>nd_next := y\<rparr>)) y < path_length (ll_heap (lc_list s)) x" if "y \<noteq> NULL"
      using path_length_unlink [OF hok T(1) pn f(1) T(2,3) nd _ y_def that] T(4) f(2) D(2) by simp
    show ?thesis
    proof (rule solo [OF inv])
      fix q l V' assume a: "lc_access (lc_pcs s t) (lc_list s) = ret (q, l)" and i: "lc_inv K rank (lc_goto t q l s) V'"
      define l1 where "l1 = ll_store p (pn\<lparr>nd_next := y\<rparr>) (lc_list s)"
      have q: "q = Find_Defer op p y x" "l = l1" using a pc pn f D(2) by (auto simp: access_simps y_def l1_def)
      have l1: "ll_heap l1 = (ll_heap (lc_list s))(p \<mapsto> pn\<lparr>nd_next := y\<rparr>)" "ll_pool l1 \<noteq> []" using pool by (simp_all add: l1_def ll_store_def)
      show "finishes t (lc_goto t q l s)"
      proof (rule solo [OF i])
        fix q' l' V'' assume a': "lc_access (lc_pcs (lc_goto t q l s) t) (lc_list (lc_goto t q l s)) = ret (q', l')"
          and i': "lc_inv K rank (lc_goto t q' l' (lc_goto t q l s)) V''"
        have l': "ll_heap l' = ll_heap l1" "ll_pool l' = ll_pool l1" "find_visit l' op p y (if y = NULL then DOES_NOT_EXIST else nd_next (the (ll_heap l' y))) = ret q'"
          using a' q by (auto simp: access_simps ll_defer_node_def ll_defer_def split: if_splits)
        have fr': "fresh_at l' op p y" using l' l1 by (simp add: fresh_at_def)
        show "finishes t (lc_goto t q' l' (lc_goto t q l s))"
        proof (cases "y = NULL")
          case True
          then show ?thesis using l' l1 fr' by (intro result_finishes [OF i', of t op False p NULL]) (auto simp: find_visit_def DOES_NOT_EXIST_def)
        next
          case False
          then show ?thesis using l' l1 fr' pl by (intro IH [OF i', of p y]) auto
        qed
      qed (use q in auto)
    qed (use pc in auto)
  next
    case eol
    then show ?thesis using vis fr pool by (intro result_finishes [OF inv, of t op False p NULL]) (auto simp: find_visit_def)
  next
    case node
    then obtain nd where nd: "ll_heap (lc_list s) x = Some nd" using vis by (auto simp: find_visit_def access_simps)
    have n: "nd_next nd = nxt" using nxt nd node by simp
    show ?thesis
    proof (cases "key_diff (ll_key_type (lc_list s)) (nd_key nd) (ll_op_key op) \<ge> 0")
      case True
      then show ?thesis using vis fr pool node nd n
        by (intro result_finishes [OF inv, of t op "key_diff (ll_key_type (lc_list s)) (nd_key nd) (ll_op_key op) = 0" p x]) (auto simp: find_visit_def access_simps ll_load_def)
    next
      case False
      then have pc: "lc_pcs s t = find_loop op x nxt" using vis node nd n by (auto simp: find_visit_def access_simps ll_load_def GET_NODE_def)
      have "path_length (ll_heap (lc_list s)) nxt < path_length (ll_heap (lc_list s)) x" if "nxt \<noteq> NULL"
      proof (rule path_length_next [OF hok [unfolded D(2)]])
        show "x \<in> v_pub V" using ok pc that by (simp add: find_loop_def seeks_def)
        show "edge (ll_heap (lc_list s)) x nxt" using nd n node that by (auto simp: edge_def)
      qed
      then show ?thesis using pc pool nd n
        by (intro loop_finishes [OF inv, of t op x nxt]) (auto simp: fresh_at_def intro: IH)
    qed
  qed
qed

lemma fresh_loop_finishes:
  assumes "lc_inv K rank s V" and "lc_pcs s t = find_loop op p x" and "fresh_at (lc_list s) op p x" and "ll_pool (lc_list s) \<noteq> []"
  shows "finishes t s"
  by (rule loop_finishes [OF assms], rule visit_finishes) (use assms(3,4) in auto)

lemma finishes_find_head:
  assumes inv: "lc_inv K rank s V" and pc: "lc_pcs s t = Find_Head op" and pool: "ll_pool (lc_list s) \<noteq> []"
  shows "finishes t s"
proof (rule solo [OF inv])
  fix q l V' assume "lc_access (lc_pcs s t) (lc_list s) = ret (q, l)" and i: "lc_inv K rank (lc_goto t q l s) V'"
  then obtain h where "ll_heap (lc_list s) (ll_head (lc_list s)) = Some h" "q = find_loop op (ll_head (lc_list s)) (nd_next h)" "l = lc_list s"
    using pc by (auto simp: access_simps GET_NODE_def)
  then show "finishes t (lc_goto t q l s)"
    using pool by (intro fresh_loop_finishes [OF i, of t op "ll_head (lc_list s)" "nd_next h"]) (auto simp: fresh_at_def)
qed (use pc in auto)

text \<open>A thread whose reads are out of date fails once and starts over.\<close>

lemma finishes_cas_free: "lc_inv K rank s V \<Longrightarrow> lc_pcs s t = Cas_Free op a \<Longrightarrow> ll_pool (lc_list s) \<noteq> [] \<Longrightarrow> finishes t s"
  by (erule solo) (auto simp: access_simps ll_nbd_free_def ll_free_key_def intro!: finishes_find_head split: if_splits)

lemma finishes_cas_insert: "lc_inv K rank s V \<Longrightarrow> lc_pcs s t = Cas_Insert op p x a \<Longrightarrow> ll_pool (lc_list s) \<noteq> [] \<Longrightarrow> finishes t s"
  by (erule solo) (auto simp: access_simps ll_store_def intro: finishes_now finishes_cas_free split: if_splits)

lemma finishes_cas_alloc: "lc_inv K rank s V \<Longrightarrow> lc_pcs s t = Cas_Alloc op p x \<Longrightarrow> 2 \<le> length (ll_pool (lc_list s)) \<Longrightarrow> finishes t s"
  by (erule solo) (auto simp: access_simps node_alloc_def ll_store_def intro!: finishes_cas_insert split: list.splits)

lemma finishes_cas_check:
  assumes "lc_inv K rank s V" and "lc_pcs s t = cas_check (LL_Cas k e v) x (nd_val (the (ll_heap (lc_list s) x)))" and "ll_pool (lc_list s) \<noteq> []"
  shows "finishes t s"
proof (cases "nd_val (the (ll_heap (lc_list s) x)) = DOES_NOT_EXIST")
  case True
  then show ?thesis using assms(2,3) finishes_find_head [OF assms(1)] by simp
next
  case False
  then show ?thesis using cas_check_finishes [OF assms(1,2)] by simp
qed

lemma finishes_cas_val:
  assumes inv: "lc_inv K rank s V" and pc: "lc_pcs s t = Cas_Val op x" and pool: "ll_pool (lc_list s) \<noteq> []"
  shows "finishes t s"
proof -
  obtain k e w where op: "op = LL_Cas k e w" using lc_invD(15) [OF inv, of t] pc by auto
  show ?thesis by (rule solo [OF inv]) (use pc pool op in \<open>auto simp: access_simps simp del: cas_check.simps intro!: finishes_cas_check [of K rank _ _ t k e w x]\<close>)
qed

lemma finishes_cas_update:
  assumes inv: "lc_inv K rank s V" and pc: "lc_pcs s t = Cas_Update op x old" and pool: "ll_pool (lc_list s) \<noteq> []"
  shows "finishes t s"
proof -
  obtain k e w where op: "op = LL_Cas k e w" using lc_invD(15) [OF inv, of t] pc by auto
  show ?thesis
  proof (cases "nd_val (the (ll_heap (lc_list s) x)) = old")
    case True
    then show ?thesis using finishes_cas_update_now [OF inv pc] by simp
  next
    case False
    then show ?thesis using pc pool op
      by (intro solo [OF inv]) (auto simp: access_simps ll_store_def simp del: cas_check.simps intro!: finishes_cas_check [of K rank _ _ t k e w x])
  qed
qed

lemma finishes_result:
  assumes inv: "lc_inv K rank s V" and pc: "lc_pcs s t = find_result op f p x" and pool: "2 \<le> length (ll_pool (lc_list s))"
  shows "finishes t s"
proof -
  have "ll_pool (lc_list s) \<noteq> []" using pool by auto
  note F = finishes_lookup_val [OF inv, of t] finishes_rem_next [OF inv, of t] finishes_cas_val [OF inv _ this, of t] finishes_cas_alloc [OF inv _ pool, of t] finishes_now [of s t]
  show ?thesis using pc F by (cases op) (auto split: if_splits)
qed

lemma finishes_unlink_failed:
  assumes inv: "lc_inv K rank s V" and pc: "lc_pcs s t = Find_Unlink op p x n" and pool: "ll_pool (lc_list s) \<noteq> []"
    and stale: "nd_next (the (ll_heap (lc_list s) p)) \<noteq> x"
  shows "finishes t s"
proof (rule solo [OF inv])
  fix q l V' assume a: "lc_access (lc_pcs s t) (lc_list s) = ret (q, l)" and i: "lc_inv K rank (lc_goto t q l s) V'"
  obtain pn where pn: "ll_heap (lc_list s) p = Some pn" "q = (if HAS_MARK (nd_next pn) then Find_Head op else find_loop op p (nd_next pn))" "l = ll_store p pn (lc_list s)"
    using a pc stale by (auto simp: access_simps GET_NODE_def)
  have "ll_pool l \<noteq> []" "fresh_at l op p (nd_next pn)" using pool pn by (auto simp: ll_store_def fresh_at_def)
  then show "finishes t (lc_goto t q l s)"
    using pn(2) finishes_find_head [OF i] fresh_loop_finishes [OF i, of t op p "nd_next pn"] by (auto split: if_splits)
qed (use pc in auto)

lemma finishes_visit:
  assumes inv: "lc_inv K rank s V" and vis: "find_visit (lc_list s) op p x nxt = ret (lc_pcs s t)"
    and pool: "2 \<le> length (ll_pool (lc_list s))" and nxt: "nxt = (if x = NULL then DOES_NOT_EXIST else nd_next (the (ll_heap (lc_list s) x)))"
  shows "finishes t s"
proof (cases "fresh_at (lc_list s) op p x")
  case True
  then show ?thesis using visit_finishes [OF inv vis _ _ nxt] pool by fastforce
next
  case False
  then have st: "help_remove op" "nd_next (the (ll_heap (lc_list s) p)) \<noteq> x" by (auto simp: fresh_at_def)
  have ne: "ll_pool (lc_list s) \<noteq> []" using pool by auto
  consider "lc_pcs s t = Find_Unlink op p x nxt" | f y where "lc_pcs s t = find_result op f p y" | "x \<noteq> NULL" "lc_pcs s t = find_loop op x nxt"
    using vis st(1) by (auto simp: find_visit_def access_simps GET_NODE_def dest!: sym [of _ "lc_pcs s t"] split: if_splits)
  then show ?thesis
  proof cases
    case 1
    then show ?thesis using finishes_unlink_failed [OF inv] st ne by blast
  next
    case 2
    then show ?thesis using finishes_result [OF inv] pool by blast
  next
    case 3
    then show ?thesis using fresh_loop_finishes [OF inv 3(2)] nxt ne by (simp add: fresh_at_def)
  qed
qed

lemma finishes_find_next: "lc_inv K rank s V \<Longrightarrow> lc_pcs s t = Find_Next op p x \<Longrightarrow> x \<noteq> NULL \<Longrightarrow> 2 \<le> length (ll_pool (lc_list s)) \<Longrightarrow> finishes t s"
  by (erule solo) (auto simp: access_simps intro!: finishes_visit [of K rank _ _ op p x])

lemma finishes_loop: "lc_inv K rank s V \<Longrightarrow> lc_pcs s t = find_loop op p x \<Longrightarrow> 2 \<le> length (ll_pool (lc_list s)) \<Longrightarrow> finishes t s"
  using finishes_find_next [of K rank s V t op p x] finishes_result [of K rank s V t op False p NULL] by (auto simp: find_loop_def split: if_splits)

lemma finishes_find_skip: "lc_inv K rank s V \<Longrightarrow> lc_pcs s t = Find_Skip op p x \<Longrightarrow> 2 \<le> length (ll_pool (lc_list s)) \<Longrightarrow> finishes t s"
  by (erule solo) (auto simp: access_simps find_loop_def [symmetric] intro: finishes_loop)

lemma finishes_find_defer: "lc_inv K rank s V \<Longrightarrow> lc_pcs s t = Find_Defer op p x a \<Longrightarrow> 2 \<le> length (ll_pool (lc_list s)) \<Longrightarrow> finishes t s"
  by (erule solo) (auto simp: access_simps ll_defer_node_def ll_defer_def intro!: finishes_visit [of K rank _ _ op p x] split: if_splits)

lemma finishes_find_unlink:
  assumes inv: "lc_inv K rank s V" and pc: "lc_pcs s t = Find_Unlink op p x n" and pool: "2 \<le> length (ll_pool (lc_list s))"
  shows "finishes t s"
proof (cases "nd_next (the (ll_heap (lc_list s) p)) = x")
  case True
  then show ?thesis using pool pc by (intro solo [OF inv]) (auto simp: access_simps ll_store_def intro: finishes_find_defer)
next
  case False
  then show ?thesis using finishes_unlink_failed [OF inv pc] pool by fastforce
qed

lemma all_finish:
  assumes inv: "lc_inv K rank s V" and act: "lc_pcs s t \<noteq> LC_Idle" and pool: "2 \<le> length (ll_pool (lc_list s))"
  shows "finishes t s"
proof -
  have ne: "ll_pool (lc_list s) \<noteq> []" using pool by auto
  have x: "x \<noteq> NULL" if "lc_pcs s t = Find_Next op p x" for op p x
    using lc_invD(15) [OF inv, of t] that heap_okD(4) [OF view_okD(1) [OF lc_invD(1) [OF inv]]] by (auto simp: seeks_def)
  note F = finishes_find_head [OF inv _ ne] finishes_find_next [OF inv _ x pool] finishes_find_skip [OF inv _ pool] finishes_find_unlink [OF inv _ pool]
    finishes_find_defer [OF inv _ pool] finishes_lookup_val [OF inv] finishes_cas_alloc [OF inv _ pool] finishes_cas_insert [OF inv _ ne] finishes_cas_free [OF inv _ ne]
    finishes_cas_val [OF inv _ ne] finishes_cas_update [OF inv _ ne] finishes_rem_next [OF inv] finishes_rem_mark [OF inv] finishes_rem_assert [OF inv]
    finishes_rem_swap [OF inv] finishes_rem_unlink [OF inv] finishes_rem_defer [OF inv] finishes_now
  show ?thesis using act F by (cases "lc_pcs s t") blast+
qed

end
