(* ===== verification/Linked_List_Linear.thy ===== *)
theory Linked_List_Linear
  imports Linked_List_Progress
begin

text \<open>
  The theorems on the lock-free list under several threads: linearizability, the list that the nodes form in
  every state, the absence of faults, reclamation and progress.
\<close>

section \<open>The list that the nodes form\<close>

lemma hist_ops_ok: "lc_reachable K l s \<Longrightarrow> Call i c \<in> set (lc_hist s) \<Longrightarrow> ll_op_ok K c"
proof (induction rule: lc_reachable.induct)
  case (step s s')
  from step.hyps(2) show ?case
    by cases (use step in \<open>auto simp: lc_call_def lc_exec_def pbind_eq_ret split: lc_pc.splits\<close>)
qed (simp add: lc_init_def)

lemma replay_Some:
  assumes "replay (ll_spec rank) L m q = Some v"
  shows "m q = Some v \<or> (\<exists>i k e r. (i, LL_Cas k e v, r) \<in> set L)"
  using assms
proof (induction "ll_spec rank" L m rule: replay.induct)
  case (2 i c r es m)
  then show ?case by (cases c) (fastforce split: if_splits)+
qed simp

lemma seg_exists:
  assumes ok: "heap_ok K rank h r0 P" and x: "x = NULL \<or> x \<in> P \<and> x \<noteq> r0"
  shows "\<exists>ns. seg h x ns NULL \<and> (\<forall>n \<in> set ns. ln_addr n \<in> P \<and> ln_addr n \<noteq> r0) \<and>
    sorted_wrt (<) (map (\<lambda>n. rank (ln_key n)) ns) \<and> (\<forall>n \<in> set ns. rank (node_key h x) \<le> rank (ln_key n))"
  using x
proof (induction "path_length h x" arbitrary: x rule: less_induct)
  case less
  show ?case
  proof (cases "x = NULL")
    case True
    then show ?thesis by (intro exI [of _ "[]"]) simp
  next
    case False
    then have x: "x \<in> P" "x \<noteq> r0" using less.prems by auto
    obtain nd where nd: "h x = Some nd" using heap_okD(3) [OF ok x(1)] by blast
    define y where "y = STRIP_MARK (nd_next nd)"
    define n where "n = \<lparr>ln_addr = x, ln_key = nd_key nd, ln_val = nd_val nd, ln_mark = HAS_MARK (nd_next nd)\<rparr>"
    have e: "edge h x y" if "y \<noteq> NULL" using that nd by (simp add: edge_def y_def)
    have y: "y \<in> P \<and> y \<noteq> r0 \<and> rank (nd_key nd) < rank (node_key h y) \<and> path_length h y < path_length h x" if "y \<noteq> NULL"
      using heap_okD(7,8,9) [OF ok x(1) e [OF that]] x(2) nd path_length_next [OF ok x(1) e [OF that]] by simp
    obtain ns where ns: "seg h y ns NULL" "\<forall>n \<in> set ns. ln_addr n \<in> P \<and> ln_addr n \<noteq> r0" "sorted_wrt (<) (map (\<lambda>n. rank (ln_key n)) ns)"
      "\<forall>n \<in> set ns. y \<noteq> NULL \<and> rank (node_key h y) \<le> rank (ln_key n)"
    proof (cases "y = NULL")
      case False
      then show thesis using less.hyps [of y] y that by blast
    qed (use that [of "[]"] in simp)
    have "\<forall>m \<in> set ns. rank (nd_key nd) < rank (ln_key m)" using ns(4) y by fastforce
    then show ?thesis using ns(1-3) nd x heap_okD(4,5) [OF ok x(1)]
      by (intro exI [of _ "n # ns"]) (auto simp: n_def y_def)
  qed
qed

lemma seg_reach: "reach h x y \<Longrightarrow> seg h x ns NULL \<Longrightarrow> x \<noteq> NULL \<Longrightarrow> y \<in> set (addrs ns)"
proof (induction arbitrary: ns rule: converse_rtranclp_induct)
  case base
  then show ?case by (cases ns) auto
next
  case (step x z)
  then show ?case by (cases ns) (auto simp: edge_def)
qed

lemma sorted_ranks_distinct:
  assumes "sorted_wrt (<) (map (\<lambda>n. rank (ln_key n) :: int) ns)" and "seg h p ns q"
  shows "distinct (addrs ns)"
proof -
  have "distinct (map (\<lambda>n. rank (ln_key n)) ns)" using assms(1) strict_sorted_iff by blast
  moreover have "map (\<lambda>n. rank (ln_key n)) ns = map (\<lambda>a. rank (node_key h a)) (addrs ns)" using seg_member [OF assms(2)] by fastforce
  ultimately show ?thesis by (metis distinct_map)
qed

lemma lc_inv_chain:
  assumes inv: "lc_inv K rank s V"
  shows "\<exists>ns. ll_chain (lc_list s) ns \<and> sorted_wrt (<) (map (\<lambda>n. rank (ln_key n)) ns) \<and>
    (\<forall>q n. v_live rank V q (ln_addr n) \<and> n \<in> set ns \<longleftrightarrow> n \<in> set (live ns) \<and> rank (ln_key n) = q) \<and> (\<forall>q a. v_live rank V q a \<longrightarrow> a \<in> set (addrs ns))"
proof -
  note D = lc_invD [OF inv]
  note hok = view_okD(1) [OF D(1)]
  let ?h = "v_heap V" and ?r = "v_head V"
  obtain hd' where hd': "?h ?r = Some hd'" using heap_okD(3) [OF hok heap_okD(1) [OF hok]] by blast
  have um: "\<not> HAS_MARK (nd_next hd')" using heap_okD(2) [OF hok] hd' by simp
  have "nd_next hd' = NULL \<or> nd_next hd' \<in> v_pub V \<and> nd_next hd' \<noteq> ?r"
    using heap_okD(7,8) [OF hok heap_okD(1) [OF hok], of "nd_next hd'"] hd' um by (auto simp: edge_def)
  from seg_exists [OF hok this] obtain ns where ns: "seg ?h (nd_next hd') ns NULL" "\<forall>n \<in> set ns. ln_addr n \<in> v_pub V \<and> ln_addr n \<noteq> ?r"
    "sorted_wrt (<) (map (\<lambda>n. rank (ln_key n)) ns)" by blast
  define hn where "hn = \<lparr>ln_addr = ?r, ln_key = nd_key hd', ln_val = nd_val hd', ln_mark = False\<rparr>"
  have sg: "seg ?h ?r (hn # ns) NULL" using ns(1) hd' um heap_okD(4,5) [OF hok heap_okD(1) [OF hok]] by (simp add: hn_def)
  have "ll_chain (lc_list s) ns" unfolding ll_chain_def
    using sg ns(2) sorted_ranks_distinct [OF ns(3,1)] D(2,3) by (intro exI [of _ hn]) (auto simp: hn_def)
  moreover have "v_live rank V q (ln_addr n) \<and> n \<in> set ns \<longleftrightarrow> n \<in> set (live ns) \<and> rank (ln_key n) = q" for q n
    using seg_member [OF ns(1), of n] ns(2) by (auto simp: live_node_def live_def)
  moreover have "a \<in> set (addrs ns)" if "v_live rank V q a" for q a
  proof -
    have "reach ?h ?r a" "a \<noteq> ?r" using that heap_okD(10) [OF hok] by (auto simp: live_node_def)
    then show ?thesis using seg_reach [OF _ sg] heap_okD(4) [OF hok heap_okD(1) [OF hok]] by (auto simp: hn_def)
  qed
  ultimately show ?thesis using ns(3) by blast
qed

lemma lc_inv_rep:
  assumes inv: "lc_inv K rank s V" and pos: "\<And>q v. replay (ll_spec rank) (v_lin V) no_bindings q = Some v \<Longrightarrow> 0 < sint v"
  shows "\<exists>ns. ll_rep (ll_key_type (lc_list s)) K rank (lc_list s) ns \<and> (\<forall>k. lookup_in rank (live ns) k = replay (ll_spec rank) (v_lin V) no_bindings (rank k))"
proof -
  note D = lc_invD [OF inv]
  note hok = view_okD(1) [OF D(1)]
  obtain ns where ns: "ll_chain (lc_list s) ns" "sorted_wrt (<) (map (\<lambda>n. rank (ln_key n)) ns)"
    "\<And>q n. v_live rank V q (ln_addr n) \<and> n \<in> set ns \<longleftrightarrow> n \<in> set (live ns) \<and> rank (ln_key n) = q" "\<And>q a. v_live rank V q a \<Longrightarrow> a \<in> set (addrs ns)"
    using lc_inv_chain [OF inv] by blast
  obtain hn where sg: "seg (v_heap V) (v_head V) (hn # ns) NULL" using ns(1) D(2,3) by (auto simp: ll_chain_def)
  have nd: "node_key (v_heap V) (ln_addr n) = ln_key n \<and> node_val (v_heap V) (ln_addr n) = ln_val n" if "n \<in> set ns" for n
    using seg_member [OF sg, of n] that by auto
  have lv: "replay (ll_spec rank) (v_lin V) no_bindings q = Some v \<longleftrightarrow> (\<exists>n \<in> set (live ns). rank (ln_key n) = q \<and> ln_val n = v)" (is "_ \<longleftrightarrow> ?R") for q v
  proof
    assume "replay (ll_spec rank) (v_lin V) no_bindings q = Some v"
    then obtain a where a: "v_live rank V q a" "node_val (v_heap V) a = v" using view_okD(3) [OF D(1)] by blast
    then obtain n where "n \<in> set ns" "a = ln_addr n" using ns(4) [OF a(1)] by auto
    then show ?R using ns(3) [of q n] nd a by auto
  next
    assume ?R
    then obtain n where n: "n \<in> set (live ns)" "rank (ln_key n) = q" "ln_val n = v" by blast
    then show "replay (ll_spec rank) (v_lin V) no_bindings q = Some v"
      using ns(3) [of q n] nd [of n] view_okD(3) [OF D(1)] by blast
  qed
  have so: "sorted_wrt (<) (map (\<lambda>n. rank (ln_key n)) (live ns))" using ns(2) by (auto simp: live_def sorted_wrt_map intro: sorted_wrt_filter)
  have K: "ln_key n \<in> K" if "n \<in> set (live ns)" for n
    using ns(3) [of "rank (ln_key n)" n] that nd [of n] heap_okD(6) [OF hok, of "ln_addr n"] by (auto simp: live_node_def)
  have "live_ok K rank (live ns)" unfolding live_ok_def using so K pos lv by blast
  moreover have "pool_ok (ll_pool (lc_list s)) (ll_heap (lc_list s))" using D(6) by (simp add: pool_ok_def)
  ultimately have rep: "ll_rep (ll_key_type (lc_list s)) K rank (lc_list s) ns" using ns(1) by (simp add: ll_rep_def)
  have "distinct (map fst (map (\<lambda>n. (rank (ln_key n), ln_val n)) (live ns)))" using so strict_sorted_iff by (auto simp: comp_def)
  then have "lookup_in rank (live ns) k = Some v \<longleftrightarrow> replay (ll_spec rank) (v_lin V) no_bindings (rank k) = Some v" for k v
    unfolding lookup_in_def lv by (subst map_of_eq_Some_iff) (auto simp: image_iff, metis)
  then have "lookup_in rank (live ns) k = replay (ll_spec rank) (v_lin V) no_bindings (rank k)" for k by (metis option.exhaust)
  then show ?thesis using rep by blast
qed

section \<open>A run of two threads\<close>

text \<open>Thread 0 puts the key 5 into the list and removes it, and is stopped after it has marked and emptied the node; thread 1
  unlinks the marked node, hands it over and inserts the key anew.\<close>

definition lc_sample_events :: "lc_event list" where
  "lc_sample_events =
     Invoke 0 (LL_Cas 5 CAS_EXPECT_WHATEVER 9) # replicate 4 (Access 0) @
     Invoke 0 (LL_Remove 5) # replicate 6 (Access 0) @
     Invoke 1 (LL_Cas 5 CAS_EXPECT_WHATEVER 7) # replicate 7 (Access 1)"

definition lc_sample_start :: list_t where
  "lc_sample_start =
     \<lparr>ll_head = 16, ll_key_type = None, ll_heap = [16 \<mapsto> \<lparr>nd_key = 0, nd_val = 0, nd_next = 0\<rparr>], ll_pool = [32, 48, 64, 80],
      ll_deferred = [], ll_freed = []\<rparr>"

lemma lc_sample_start: "ll_alloc None [16, 32, 48, 64, 80] = ret lc_sample_start" "pool_ok [16, 32, 48, 64, 80] (\<lambda>_. None)"
  by (simp_all add: lc_sample_start_def ll_alloc_def node_alloc_def ll_store_def pool_ok_def DOES_NOT_EXIST_def HAS_MARK_def IS_TAGGED_def)

definition lc_sample_hist :: "(ll_op, map_val_t) lin_event list" where
  "lc_sample_hist =
     [Call 0 (LL_Cas 5 CAS_EXPECT_WHATEVER 9), Return 0 DOES_NOT_EXIST, Call 2 (LL_Remove 5),
      Call 3 (LL_Cas 5 CAS_EXPECT_WHATEVER 7), Return 3 DOES_NOT_EXIST, Return 2 9]"

lemma lc_sample_run:
  "case lc_run lc_sample_events (lc_init lc_sample_start) of
     Some (Inr s) \<Rightarrow> lc_pcs s 0 = Rem_Unlink (LL_Remove 5) 16 32 0 9 \<and> ll_pool (lc_list s) = [64, 80] | _ \<Rightarrow> False"
  "case lc_run (lc_sample_events @ replicate 2 (Access 0)) (lc_init lc_sample_start) of
     Some (Inr s) \<Rightarrow> lc_hist s = lc_sample_hist \<and> ll_deferred (lc_list s) = [32] | _ \<Rightarrow> False"
  by code_simp+

lemma lc_sample_events_ok: "list_all (event_ok small_keys) lc_sample_events"
  by (simp add: lc_sample_events_def ll_op_ok_def small_keys_def list_all_iff)

lemma lc_sample_stalled:
  "\<exists>s. lc_reachable small_keys lc_sample_start s \<and> lc_pcs s 0 = Rem_Unlink (LL_Remove 5) 16 32 0 9 \<and> ll_pool (lc_list s) = [64, 80]"
proof -
  obtain s where "lc_run lc_sample_events (lc_init lc_sample_start) = ret s" "lc_pcs s 0 = Rem_Unlink (LL_Remove 5) 16 32 0 9" "ll_pool (lc_list s) = [64, 80]"
    using lc_sample_run(1) by (auto simp: ret_def split: option.splits sum.splits)
  then show ?thesis using lc_run_reachable [OF lc_reachable.init lc_sample_events_ok] by blast
qed

lemma lc_sample_reachable:
  "\<exists>s. lc_reachable small_keys lc_sample_start s \<and> lc_hist s = lc_sample_hist \<and> ll_deferred (lc_list s) = [32]"
proof -
  obtain s where "lc_run (lc_sample_events @ replicate 2 (Access 0)) (lc_init lc_sample_start) = ret s" "lc_hist s = lc_sample_hist" "ll_deferred (lc_list s) = [32]"
    using lc_sample_run(2) by (auto simp: ret_def split: option.splits sum.splits)
  moreover have "list_all (event_ok small_keys) (lc_sample_events @ replicate 2 (Access 0))"
    using lc_sample_events_ok by (simp add: list_all_iff)
  ultimately show ?thesis using lc_run_reachable [OF lc_reachable.init] by blast
qed

section \<open>Properties\<close>

lemma lc_reachable_rep:
  assumes "key_order kt K rank" and "pool_ok (a # pool) (\<lambda>_. None)" and "ll_alloc kt (a # pool) = ret l" and "lc_reachable K l s"
  obtains L where "linearization (ll_spec rank) (\<lambda>_. None) (lc_hist s) L" "ll_inv kt K rank (lc_list s)"
    "\<And>k. ll_abs rank (lc_list s) k = replay (ll_spec rank) L (\<lambda>_. None) (rank k)"
proof -
  obtain V where inv: "lc_inv K rank s V" using lc_inv_reachable [OF assms] by blast
  have lin: "linearization (ll_spec rank) (\<lambda>_. None) (lc_hist s) (v_lin V)" using view_okD(2) [OF lc_invD(1) [OF inv]] lc_invD(4) [OF inv] by simp
  have pos: "0 < sint v" if "replay (ll_spec rank) (v_lin V) no_bindings q = Some v" for q v
    using replay_Some [OF that] linearizationD(3) [OF lin] hist_ops_ok [OF assms(4)] by (fastforce simp: ll_op_ok_def)
  obtain ns where ns: "ll_rep (ll_key_type (lc_list s)) K rank (lc_list s) ns"
    "\<And>k. lookup_in rank (live ns) k = replay (ll_spec rank) (v_lin V) no_bindings (rank k)" using lc_inv_rep [OF inv] pos by blast
  have "ll_key_type (lc_list s) = kt" using lc_reachable_key_type [OF assms(3,4)] .
  then show thesis using that [OF lin] ns ll_abs_eq [OF ns(1)] by (auto simp: ll_inv_def)
qed

text \<open>C2: The list under any number of threads whose accesses interleave in any order is linearizable: the calls
  and returns are those of a sequential run of the map's operations that keeps the order of operations that do not
  overlap. In every state the nodes linked from the head form a list as the sequential operations expect it, with
  increasing keys and positive values, and its bindings are the map that the sequential run leaves.\<close>

theorem ll_linearizable:
  assumes "key_order kt K rank" and "pool_ok (a # pool) (\<lambda>_. None)" and "ll_alloc kt (a # pool) = ret l" and "lc_reachable K l s"
  shows "ll_inv kt K rank (lc_list s) \<and> (\<exists>L. linearization (ll_spec rank) (\<lambda>_. None) (lc_hist s) L \<and>
    (\<forall>k. ll_abs rank (lc_list s) k = replay (ll_spec rank) L (\<lambda>_. None) (rank k)))"
  using lc_reachable_rep [OF assms] by metis

theorem ll_linearizable_witness:
  "\<exists>s :: lc_sys. lc_hist s = lc_sample_hist \<and> ll_inv None small_keys uint (lc_list s) \<and>
    (\<exists>L. linearization (ll_spec uint) (\<lambda>_. None) lc_sample_hist L \<and> (\<forall>k. ll_abs uint (lc_list s) k = replay (ll_spec uint) L (\<lambda>_. None) (uint k)))"
proof -
  obtain s where s: "lc_reachable small_keys lc_sample_start s" "lc_hist s = lc_sample_hist" using lc_sample_reachable by blast
  show ?thesis using ll_linearizable [OF small_keys_order lc_sample_start(2,1) s(1)] unfolding s(2) using s(2) by blast
qed

text \<open>C17: The accesses to the list never go wrong: whatever the interleaving, the next step of a thread in
  \<^verbatim>\<open>ll_lookup\<close>, \<^verbatim>\<open>ll_cas\<close> or \<^verbatim>\<open>ll_remove\<close> does not read memory that is not allocated and does
  not fail the assertion of \<^verbatim>\<open>ll_remove\<close> that the node it has marked is marked; it can fail only because the
  allocator has no memory for a new node. This is a statement about the code of \<^verbatim>\<open>list.c\<close>:
  \<^verbatim>\<open>rcu_defer_free\<close>, which has an assertion of its own that a full queue fails, is a call that records
  its argument here.\<close>

theorem ll_threads_never_fault:
  assumes "key_order kt K rank" and "pool_ok (a # pool) (\<lambda>_. None)" and "ll_alloc kt (a # pool) = ret l" and "lc_reachable K l s"
  shows "(\<exists>s'. lc_exec t s = ret s') \<or> ll_pool (lc_list s) = [] \<and> lc_exec t s = fail Exit_Failure"
proof -
  obtain V where inv: "lc_inv K rank s V" using lc_inv_reachable [OF assms] by blast
  show ?thesis
  proof (cases "ll_pool (lc_list s) \<noteq> [] \<or> (\<forall>op p x. lc_pcs s t \<noteq> Cas_Alloc op p x)")
    case True
    then show ?thesis using lc_exec_ok [OF inv True] by blast
  next
    case False
    then show ?thesis using lc_exec_no_memory by blast
  qed
qed

theorem ll_threads_never_fault_witness:
  "\<exists>s :: lc_sys. lc_hist s = lc_sample_hist \<and> (\<forall>t. (\<exists>s'. lc_exec t s = ret s') \<or> ll_pool (lc_list s) = [] \<and> lc_exec t s = fail Exit_Failure)"
proof -
  obtain s where s: "lc_reachable small_keys lc_sample_start s" "lc_hist s = lc_sample_hist" using lc_sample_reachable by blast
  show ?thesis using ll_threads_never_fault [OF small_keys_order lc_sample_start(2,1) s(1)] s(2) by blast
qed

text \<open>C16: For a list of integer keys, no unlinked node is lost and none is handed over twice. In every state, a node
  that has been handed to \<^verbatim>\<open>rcu_defer_free\<close> is not on the path from the head, and no node has been handed over
  twice; a node in memory that is not on the path has been handed over, or is private to a thread that has not linked
  it, or is the one that a thread has just unlinked, and then the next step of that thread hands it over. So when no
  operation is in progress, every node in memory is on the path or has been handed over exactly once.\<close>

theorem ll_retired_once:
  assumes "key_order None K rank" and "pool_ok (a # pool) (\<lambda>_. None)" and "ll_alloc None (a # pool) = ret l" and "lc_reachable K l s"
  shows "distinct (ll_deferred (lc_list s)) \<and> (\<forall>x \<in> set (ll_deferred (lc_list s)). \<not> in_list (lc_list s) x) \<and>
    (\<forall>x. ll_heap (lc_list s) x \<noteq> None \<longrightarrow> in_list (lc_list s) x \<or> x \<in> set (ll_deferred (lc_list s)) \<or>
       (\<exists>t. own_node (lc_pcs s t) = Some x) \<or> (\<exists>t. retiring (lc_pcs s t) = Some x)) \<and>
    (\<forall>t x. retiring (lc_pcs s t) = Some x \<longrightarrow> (\<exists>s'. lc_exec t s = ret s' \<and> ll_deferred (lc_list s') = ll_deferred (lc_list s) @ [x])) \<and>
    ((\<forall>t. lc_pcs s t = LC_Idle) \<longrightarrow> (\<forall>x. ll_heap (lc_list s) x \<noteq> None \<longrightarrow> in_list (lc_list s) x \<noteq> (x \<in> set (ll_deferred (lc_list s)))))"
proof -
  have ri: "retire_inv s" by (rule retire_inv_reachable [OF assms])
  have once: "distinct (ll_deferred (lc_list s))" "\<forall>x \<in> set (ll_deferred (lc_list s)). \<not> in_list (lc_list s) x"
    and all: "\<forall>x. ll_heap (lc_list s) x \<noteq> None \<longrightarrow> in_list (lc_list s) x \<or> x \<in> set (ll_deferred (lc_list s)) \<or>
       (\<exists>t. own_node (lc_pcs s t) = Some x) \<or> (\<exists>t. retiring (lc_pcs s t) = Some x)"
    using ri unfolding retire_inv_def accounted_def by blast+
  have "\<exists>s'. lc_exec t s = ret s' \<and> ll_deferred (lc_list s') = ll_deferred (lc_list s) @ [x]" if r: "retiring (lc_pcs s t) = Some x" for t x
  proof -
    obtain V where inv: "lc_inv K rank s V" using lc_inv_reachable [OF assms] by blast
    have "\<forall>op p x. lc_pcs s t \<noteq> Cas_Alloc op p x" using r by auto
    then obtain s' where s': "lc_exec t s = ret s'" using lc_exec_ok [OF inv] by blast
    then obtain p l where a: "lc_access (lc_pcs s t) (lc_list s) = ret (p, l)" "lc_list s' = l" by (auto simp: lc_exec_def pbind_eq_ret)
    have "retire_ok s t p l" using access_retires [OF inv a(1)] ri by (simp add: retire_inv_def)
    then have "ll_deferred l = ll_deferred (lc_list s) @ [x]" using r by (simp add: retire_ok_def)
    then show ?thesis using s' a(2) by blast
  qed
  moreover have "in_list (lc_list s) x \<noteq> (x \<in> set (ll_deferred (lc_list s)))" if "\<forall>t. lc_pcs s t = LC_Idle" "ll_heap (lc_list s) x \<noteq> None" for x
    using once(2) all that by auto
  ultimately show ?thesis using once all by blast
qed

theorem ll_retired_once_witness:
  "\<exists>s :: lc_sys. lc_hist s = lc_sample_hist \<and> ll_deferred (lc_list s) = [32] \<and> \<not> in_list (lc_list s) 32"
proof -
  obtain s where s: "lc_reachable small_keys lc_sample_start s" "lc_hist s = lc_sample_hist" "ll_deferred (lc_list s) = [32]" using lc_sample_reachable by blast
  show ?thesis using ll_retired_once [OF small_keys_order lc_sample_start(2,1) s(1)] s(2,3) by auto
qed

lemma lc_run_append: "lc_run (es @ es') s = pbind (lc_run es s) (lc_run es')"
proof (induction es s rule: lc_run.induct)
  case (3 t es s)
  then show ?case by (simp add: pbind_assoc cong: pbind_cong)
qed simp_all

text \<open>C15: The operations are obstruction free: a thread that is in the middle of an operation, with the other
  threads stopped at whatever point of theirs, returns after finitely many steps of its own.\<close>

theorem ll_obstruction_free:
  assumes "key_order kt K rank" and "pool_ok (a # pool) (\<lambda>_. None)" and "ll_alloc kt (a # pool) = ret l" and "lc_reachable K l s"
    and "lc_pcs s t \<noteq> LC_Idle" and "2 \<le> length (ll_pool (lc_list s))"
  shows "\<exists>n s' v. lc_run (replicate n (Access t)) s = ret s' \<and> lc_pcs s' t = LC_Idle \<and> lc_hist s' = lc_hist s @ [Return (lc_ids s t) v]"
proof -
  obtain V where inv: "lc_inv K rank s V" using lc_inv_reachable [OF assms(1-4)] by blast
  obtain n s' op v where s': "lc_run (replicate n (Access t)) s = ret s'" "lc_pcs s' t = LC_Return op v" "lc_hist s' = lc_hist s" "lc_ids s' = lc_ids s"
    using all_finish [OF inv assms(5,6)] by (auto simp: finishes_def)
  have ex: "lc_exec t s' = ret (s'\<lparr>lc_pcs := (lc_pcs s')(t := LC_Idle), lc_hist := lc_hist s' @ [Return (lc_ids s' t) v]\<rparr>)" using s'(2) by (simp add: lc_exec_def)
  have "lc_run (replicate (Suc n) (Access t)) s = lc_run [Access t] s'"
    using lc_run_append [of "replicate n (Access t)" "[Access t]" s] s'(1) by (simp add: replicate_append_same)
  then show ?thesis using ex s'(3,4) by (intro exI [of _ "Suc n"]) auto
qed

theorem ll_obstruction_free_witness:
  "\<exists>s n s' v. lc_pcs s 0 = Rem_Unlink (LL_Remove 5) 16 32 0 9 \<and> lc_run (replicate n (Access 0)) s = ret s' \<and> lc_pcs s' 0 = LC_Idle \<and>
     lc_hist s' = lc_hist s @ [Return (lc_ids s 0) v]"
proof -
  obtain s where s: "lc_reachable small_keys lc_sample_start s" "lc_pcs s 0 = Rem_Unlink (LL_Remove 5) 16 32 0 9" "ll_pool (lc_list s) = [64, 80]"
    using lc_sample_stalled by blast
  then show ?thesis using ll_obstruction_free [OF small_keys_order lc_sample_start(2,1) s(1), of 0] by auto
qed

end
