(* ===== verification/Linked_List_Reach.thy ===== *)
theory Linked_List_Reach
  imports Linked_List_Linear
begin

text \<open>
  Which nodes a thread can come upon: a node that was off the list when an operation began is not reached by the
  operation. And what an access needs of the memory: nothing but the nodes that the thread holds.
\<close>

section \<open>Nodes that are out of reach\<close>

text \<open>The nodes whose addresses a thread holds.\<close>

fun pc_nodes :: "lc_pc \<Rightarrow> addr set" where
  "pc_nodes (Find_Next op p x) = {p, x}" | "pc_nodes (Find_Skip op p x) = {p, x}" | "pc_nodes (Find_Unlink op p x n) = {p, x, STRIP_MARK n}"
| "pc_nodes (Find_Defer op p x a) = {p, x, a}" | "pc_nodes (Lookup_Val op x) = {x}" | "pc_nodes (Cas_Alloc op p x) = {p, x}"
| "pc_nodes (Cas_Insert op p x a) = {p, x, a}" | "pc_nodes (Cas_Free op a) = {a}" | "pc_nodes (Cas_Val op x) = {x}"
| "pc_nodes (Cas_Update op x v) = {x}" | "pc_nodes (Rem_Next op p x) = {p, x}" | "pc_nodes (Rem_Mark op p x n) = {p, x}"
| "pc_nodes (Rem_Assert op p x n) = {p, x}" | "pc_nodes (Rem_Swap op p x n) = {p, x}" | "pc_nodes (Rem_Unlink op p x n v) = {p, x}"
| "pc_nodes (Rem_Defer op x v) = {x}" | "pc_nodes _ = {}"

text \<open>No link of a published node outside of \<open>D\<close> leads into \<open>D\<close>.\<close>

definition clear_of :: "lc_sys \<Rightarrow> addr set \<Rightarrow> bool" where
  "clear_of s D \<longleftrightarrow> (\<forall>a \<in> D. known s a \<and> \<not> in_list (lc_list s) a) \<and>
     (\<forall>x y. known s x \<longrightarrow> x \<notin> D \<longrightarrow> edge (ll_heap (lc_list s)) x y \<longrightarrow> y \<notin> D)"

lemma clear_ofD:
  assumes "clear_of s D"
  shows "a \<in> D \<Longrightarrow> known s a" and "a \<in> D \<Longrightarrow> \<not> in_list (lc_list s) a"
    and "known s x \<Longrightarrow> x \<notin> D \<Longrightarrow> edge (ll_heap (lc_list s)) x y \<Longrightarrow> y \<notin> D"
  using assms unfolding clear_of_def by blast+

lemma clear_of_unlinked: "clear_of s {a. known s a \<and> \<not> in_list (lc_list s) a}"
  unfolding clear_of_def using rtranclp.rtrancl_into_rtrancl [of "edge (ll_heap (lc_list s))" "ll_head (lc_list s)"] by blast

lemma known_goto:
  assumes "retire_ok s t p l" and "known s a"
  shows "known (lc_goto t p l s) a"
  using assms unfolding retire_ok_def known_def by auto

text \<open>Where the links of a state after an access come from.\<close>

definition edge_from :: "lc_sys \<Rightarrow> nat \<Rightarrow> addr \<Rightarrow> addr \<Rightarrow> bool" where
  "edge_from s t x y \<longleftrightarrow> known s x \<and> edge (ll_heap (lc_list s)) x y \<or> own_node (lc_pcs s t) = Some y \<or>
     (\<exists>z. known s x \<and> known s z \<and> edge (ll_heap (lc_list s)) x z \<and> edge (ll_heap (lc_list s)) z y) \<or>
     own_node (lc_pcs s t) = Some x \<and> in_list (lc_list s) y"

lemma edge_unlink:
  assumes inv: "lc_inv K rank s V" and p: "p \<in> v_pub V" "v_heap V p = Some pn" "nd_next pn = x" and x: "x \<in> v_pub V" "v_heap V x = Some nd"
    and e: "edge ((ll_heap (lc_list s))(p \<mapsto> pn\<lparr>nd_next := STRIP_MARK (nd_next nd)\<rparr>)) a b" "known s a"
  shows "edge_from s t a b"
proof (cases "a = p")
  case True
  have "edge (ll_heap (lc_list s)) p x" using p heap_okD(4,5) [OF view_okD(1) [OF lc_invD(1) [OF inv]] x(1)] lc_invD(2) [OF inv] by (auto simp: edge_def)
  moreover have "edge (ll_heap (lc_list s)) x b" using e True x(2) lc_invD(2) [OF inv] by (auto simp: edge_def)
  ultimately show ?thesis using known_pub [OF inv x(1)] True e(2) by (auto simp: edge_from_def)
next
  case False
  then show ?thesis using e by (auto simp: edge_from_def edge_upd)
qed

lemma edge_access:
  assumes inv: "lc_inv K rank s V" and acc: "lc_access (lc_pcs s t) (lc_list s) = ret (p, l)" and x: "known (lc_goto t p l s) x" and e: "edge (ll_heap l) x y"
  shows "edge_from s t x y"
proof -
  note D = lc_invD [OF inv]
  note hok = view_okD(1) [OF D(1)]
  have ok: "pc_ok K rank V (lc_ids s t) (lc_pcs s t)" using D(15) .
  have xk: "x \<notin> set (ll_pool l)" "\<And>u. own_node (if u = t then p else lc_pcs s u) \<noteq> Some x" using x by (auto simp: known_def)
  have kn: "known s x" if "own_node (lc_pcs s t) \<noteq> Some x" "set (ll_pool (lc_list s)) \<subseteq> set (ll_pool l) \<union> {a. own_node p = Some a}"
  proof -
    have "own_node (lc_pcs s u) \<noteq> Some x" for u using that(1) xk(2) [of u] by (cases "u = t") auto
    moreover have "x \<notin> set (ll_pool (lc_list s))" using that(2) xk(1) xk(2) [of t] by auto
    ultimately show ?thesis by (simp add: known_def)
  qed
  have kn': "own_node (lc_pcs s t) = Some x \<or> known s x" if "set (ll_pool (lc_list s)) \<subseteq> set (ll_pool l)" using kn that by blast
  have same: ?thesis if "same_list (lc_list s) l" "own_node (lc_pcs s t) \<noteq> Some x" using that e kn by (simp add: same_list_def edge_from_def)
  have upd: ?thesis if "own_node (lc_pcs s t) = None" "ll_heap (lc_list s) z = Some nd" "l = ll_store z nd' (lc_list s)" "STRIP_MARK (nd_next nd') = STRIP_MARK (nd_next nd)" for z nd nd'
    using that(1,3) e kn edge_same [of "ll_heap (lc_list s)" z nd nd', OF that(2,4)] by (simp add: edge_from_def ll_store_def)
  show ?thesis
  proof (cases "lc_pcs s t")
    case (Find_Unlink op q z n)
    obtain pn where pn: "ll_heap (lc_list s) q = Some pn" using acc Find_Unlink by (auto simp: pbind_eq_ret ll_load_ret)
    have T: "q \<in> v_pub V" "z \<in> v_pub V" "node_next (v_heap V) z = n" using ok Find_Unlink by (auto simp: low_def)
    obtain nd where nd: "v_heap V z = Some nd" using heap_okD(3) [OF hok T(2)] by blast
    show ?thesis
    proof (cases "nd_next pn = z")
      case True
      then have "ll_heap l = (ll_heap (lc_list s))(q \<mapsto> pn\<lparr>nd_next := STRIP_MARK (nd_next nd)\<rparr>)" using acc Find_Unlink pn nd T(3) by (auto simp: Let_def ll_store_def)
      moreover have "known s x" using acc Find_Unlink by (intro kn) (auto simp: pbind_eq_ret Let_def ll_store_def SYNC_CAS_def)
      ultimately show ?thesis using edge_unlink [OF inv T(1) _ True T(2) nd] e pn D(2) by simp
    next
      case False
      then show ?thesis using acc Find_Unlink pn by (intro same) (auto simp: SYNC_CAS_diff Let_def)
    qed
  next
    case (Cas_Alloc op q z)
    then obtain a as where a: "ll_pool (lc_list s) = a # as" using acc by (cases "ll_pool (lc_list s)") (auto simp: node_alloc_def Let_def)
    then have "own_node p = Some a" "ll_heap l = (ll_heap (lc_list s))(a \<mapsto> \<lparr>nd_key = key_clone (ll_key_type (lc_list s)) (ll_op_key op), nd_val = ll_op_val op, nd_next = z\<rparr>)"
      using acc Cas_Alloc D(6) by (auto simp: node_alloc_def Let_def ll_store_def pool_ok_def)
    moreover have "x \<noteq> a" using x calculation(1) unfolding known_def by (auto dest: spec [of _ t])
    moreover have "set (ll_pool (lc_list s)) \<subseteq> set (ll_pool l) \<union> {a. own_node p = Some a}" using acc Cas_Alloc a by (auto simp: node_alloc_def Let_def ll_store_def pbind_eq_ret)
    ultimately show ?thesis using e kn Cas_Alloc by (auto simp: edge_from_def edge_upd)
  next
    case (Cas_Insert op q z a)
    obtain pn where pn: "ll_heap (lc_list s) q = Some pn" using acc Cas_Insert by (auto simp: pbind_eq_ret ll_load_ret)
    obtain nn where T: "q \<in> v_pub V" "v_heap V a = Some nn" "nd_next nn = z" "high rank V (rank (ll_op_key op)) z"
      using ok Cas_Insert by (auto simp: low_def)
    show ?thesis
    proof (cases "nd_next pn = z")
      case True
      then have l: "ll_heap l = (ll_heap (lc_list s))(q \<mapsto> pn\<lparr>nd_next := a\<rparr>)" using acc Cas_Insert pn by (auto simp: Let_def ll_store_def)
      have um: "\<not> HAS_MARK z" using T(4) heap_okD(5) [OF hok, of z] by (auto simp: high_def)
      then have "reach (v_heap V) (v_head V) q" using heap_okD(10) [OF hok T(1)] pn True D(2) by simp
      moreover have "edge (v_heap V) q z" if "z \<noteq> NULL" using pn True um D(2) that by (auto simp: edge_def)
      ultimately have "in_list (lc_list s) z" if "z \<noteq> NULL" using that D(2,3) by (auto intro: rtranclp.rtrancl_into_rtrancl)
      moreover have "\<not> HAS_MARK a" using D(12) [of t a] Cas_Insert by simp
      moreover have "ll_pool l = ll_pool (lc_list s)" using acc Cas_Insert by (auto simp: pbind_eq_ret Let_def ll_store_def SYNC_CAS_def)
      moreover have "x = a \<or> known s x" using kn' calculation(3) Cas_Insert by auto
      ultimately show ?thesis using e l Cas_Insert T(2,3) um D(2) unfolding edge_from_def by (auto simp: edge_def split: if_splits)
    next
      case False
      then show ?thesis using acc Cas_Insert pn xk(2) [of t] by (intro same) (auto simp: SYNC_CAS_diff Let_def)
    qed
  next
    case (Cas_Free op a)
    then have "ll_heap l = (ll_heap (lc_list s))(a := None)" using acc by (auto simp: pbind_eq_ret ll_nbd_free_def ll_free_key_def split: if_splits)
    moreover have "ll_pool l = ll_pool (lc_list s)" using acc Cas_Free by (auto simp: pbind_eq_ret ll_nbd_free_def ll_free_key_def split: if_splits)
    moreover have "x = a \<or> known s x" using kn' calculation(2) Cas_Free by auto
    ultimately show ?thesis using e by (auto simp: edge_from_def edge_def split: if_splits)
  next
    case (Cas_Update op z old)
    obtain nd where nd: "ll_heap (lc_list s) z = Some nd" using acc Cas_Update by (auto simp: pbind_eq_ret ll_load_ret)
    show ?thesis by (rule upd [OF _ nd, of "nd\<lparr>nd_val := if nd_val nd = old then ll_op_val op else nd_val nd\<rparr>"]) (use acc Cas_Update nd in \<open>auto simp: SYNC_CAS_def Let_def\<close>)
  next
    case (Rem_Mark op q z n)
    obtain nd where nd: "ll_heap (lc_list s) z = Some nd" using acc Rem_Mark by (auto simp: pbind_eq_ret ll_load_ret)
    show ?thesis by (rule upd [OF _ nd, of "nd\<lparr>nd_next := if nd_next nd = n then MARK_NODE (STRIP_MARK n) else nd_next nd\<rparr>"])
      (use acc Rem_Mark nd in \<open>auto simp: SYNC_CAS_def Let_def\<close>)
  next
    case (Rem_Swap op q z n)
    obtain nd where nd: "ll_heap (lc_list s) z = Some nd" using acc Rem_Swap by (auto simp: pbind_eq_ret ll_load_ret)
    show ?thesis by (rule upd [OF _ nd, of "nd\<lparr>nd_val := DOES_NOT_EXIST\<rparr>"]) (use acc Rem_Swap nd in \<open>auto simp: SYNC_SWAP_def\<close>)
  next
    case (Rem_Unlink op q z n v)
    obtain pn where pn: "ll_heap (lc_list s) q = Some pn" using acc Rem_Unlink by (auto simp: pbind_eq_ret ll_load_ret)
    have T: "q \<in> v_pub V" "z \<in> v_pub V" "frozen V z n" using ok Rem_Unlink by (auto simp: frozen_def)
    obtain nd where nd: "v_heap V z = Some nd" using heap_okD(3) [OF hok T(2)] by blast
    show ?thesis
    proof (cases "nd_next pn = z")
      case True
      then have "ll_heap l = (ll_heap (lc_list s))(q \<mapsto> pn\<lparr>nd_next := STRIP_MARK (nd_next nd)\<rparr>)" using acc Rem_Unlink pn nd T(3) by (auto simp: Let_def ll_store_def frozen_def)
      moreover have "known s x" using acc Rem_Unlink by (intro kn) (auto simp: pbind_eq_ret Let_def ll_store_def SYNC_CAS_def)
      ultimately show ?thesis using edge_unlink [OF inv T(1) _ True T(2) nd] e pn D(2) by simp
    next
      case False
      then show ?thesis using acc Rem_Unlink pn by (intro same) (auto simp: SYNC_CAS_diff Let_def)
    qed
  qed (use acc in \<open>auto simp: pbind_eq_ret ll_load_ret Let_def intro!: same split: if_splits\<close>)
qed

lemma clear_of_access:
  assumes inv: "lc_inv K rank s V" and acc: "lc_access (lc_pcs s t) (lc_list s) = ret (p, l)" and kt: "ll_key_type (lc_list s) = None" and clr: "clear_of s D"
  shows "clear_of (lc_goto t p l s) D"
proof -
  note R = access_retires [OF inv acc kt] and C = clear_ofD [OF clr]
  have "known (lc_goto t p l s) a \<and> \<not> in_list l a" if "a \<in> D" for a
    using known_goto [OF R C(1) [OF that]] R C(1,2) [OF that] unfolding retire_ok_def by blast
  moreover have "y \<notin> D" if "known (lc_goto t p l s) x" "x \<notin> D" "edge (ll_heap l) x y" for x y
  proof
    assume y: "y \<in> D"
    have "own_node (lc_pcs s t) \<noteq> Some y" using C(1) [OF y] by (simp add: known_def)
    then show False using edge_access [OF inv acc that(1,3)] C(2) [OF y] C(3) that(2) y unfolding edge_from_def by blast
  qed
  moreover have sl: "lc_list (lc_goto t p l s) = l" by simp
  ultimately show ?thesis unfolding clear_of_def sl by blast
qed

text \<open>Where the addresses that a thread holds come from.\<close>

lemma result_nodes: "pc_nodes (find_result op f p x) \<subseteq> {p, x}" "pc_nodes (find_loop op p x) \<subseteq> {p, x}" "pc_nodes (cas_check op x v) \<subseteq> {x}"
proof -
  show r: "pc_nodes (find_result op f p x) \<subseteq> {p, x}" for f p x by (cases op) auto
  show "pc_nodes (find_loop op p x) \<subseteq> {p, x}" using r [of False p NULL] by (simp add: find_loop_def)
  show "pc_nodes (cas_check op x v) \<subseteq> {x}" by (cases op) auto
qed

lemma visit_nodes:
  assumes v: "find_visit l op p x n = ret pc"
  shows "pc_nodes pc \<subseteq> {p, x, STRIP_MARK n, NULL}"
proof (cases "HAS_MARK n")
  case True
  then have "pc = (if \<not> help_remove op then Find_Skip op p x else Find_Unlink op p x n)" using v by (simp add: find_visit_def)
  then show ?thesis by simp
next
  case um: False
  show ?thesis
  proof (cases "x = NULL")
    case True
    then have "pc = find_result op False p NULL" using v um by (simp add: find_visit_def)
    then show ?thesis using result_nodes(1) [of op False p NULL] by blast
  next
    case False
    then obtain nd :: node where "pc = (if key_diff (ll_key_type l) (nd_key nd) (ll_op_key op) \<ge> 0
        then find_result op (key_diff (ll_key_type l) (nd_key nd) (ll_op_key op) = 0) p x else find_loop op x n)"
      using v um unfolding find_visit_def GET_NODE_def by (auto simp: pbind_eq_ret Let_def)
    then show ?thesis using um result_nodes(1) [of op "key_diff (ll_key_type l) (nd_key nd) (ll_op_key op) = 0" p x] result_nodes(2) [of op x n]
      by (auto split: if_splits)
  qed
qed

lemma nodes_access:
  assumes acc: "lc_access pc l = ret (p, l')" and hd: "\<not> marked (ll_heap l) (ll_head l)" and x: "x \<in> pc_nodes p" "x \<noteq> NULL"
  shows "x \<in> insert (ll_head l) (pc_nodes pc) \<or> own_node pc = None \<and> (\<exists>y \<in> insert (ll_head l) (pc_nodes pc). edge (ll_heap l) y x) \<or> x \<in> set (ll_pool l)"
proof (cases pc)
  case (Find_Head op)
  then obtain h where "ll_heap l (ll_head l) = Some h" "p = find_loop op (ll_head l) (nd_next h)" using acc by (auto simp: access_simps GET_NODE_def)
  then show ?thesis using x hd Find_Head result_nodes(2) [of op "ll_head l" "nd_next h"] by (auto simp: edge_def)
next
  case (Find_Next op q z)
  then obtain nd where "ll_heap l z = Some nd" "find_visit l op q z (nd_next nd) = ret p" using acc by (auto simp: access_simps)
  then show ?thesis using x Find_Next visit_nodes [of l op q z "nd_next nd" p] by (auto simp: edge_def)
next
  case (Find_Skip op q z)
  then obtain nd where "ll_heap l z = Some nd" "p = find_loop op q (STRIP_MARK (nd_next nd))" using acc by (auto simp: access_simps find_loop_def)
  then show ?thesis using x Find_Skip result_nodes(2) [of op q "STRIP_MARK (nd_next nd)"] by (auto simp: edge_def)
next
  case (Find_Unlink op q z n)
  then obtain pn where "ll_heap l q = Some pn"
    "p = (if nd_next pn = z then Find_Defer op q (STRIP_MARK n) z else if HAS_MARK (nd_next pn) then Find_Head op else find_loop op q (nd_next pn))"
    using acc by (auto simp: access_simps GET_NODE_def)
  then show ?thesis using x Find_Unlink result_nodes(2) [of op q "nd_next pn"] by (auto simp: edge_def split: if_splits)
next
  case (Find_Defer op q z a)
  then obtain nxt l1 where v: "find_visit l1 op q z nxt = ret p" "z = NULL \<and> nxt = DOES_NOT_EXIST \<or> (\<exists>nd. ll_heap l z = Some nd \<and> nxt = nd_next nd)"
    using acc by (auto simp: access_simps split: if_splits)
  then show ?thesis using x Find_Defer visit_nodes [OF v(1)] by (auto simp: edge_def DOES_NOT_EXIST_def)
next
  case (Cas_Val op z)
  then show ?thesis using acc x result_nodes(3) by (fastforce simp: access_simps)
next
  case (Cas_Update op z v)
  then show ?thesis using acc x result_nodes(3) by (fastforce simp: access_simps split: if_splits)
qed (use acc x in \<open>auto simp: access_simps node_alloc_def split: if_splits list.splits\<close>)

lemma access_null:
  assumes acc: "lc_access pc l = ret (p, l')" and "ll_heap l NULL = None" and "NULL \<notin> set (ll_pool l)"
  shows "ll_heap l' NULL = None"
  using assms by (cases pc) (auto simp: access_simps node_alloc_def ll_store_def ll_nbd_free_def ll_free_key_def ll_defer_node_def ll_defer_def passert_def
      split: if_splits list.splits)

lemma reachable_null:
  assumes "key_order kt K rank" and "pool_ok (a # pool) (\<lambda>_. None)" and "ll_alloc kt (a # pool) = ret l" and "lc_reachable K l s"
  shows "ll_heap (lc_list s) NULL = None"
  using assms(4)
proof (induction rule: lc_reachable.induct)
  case init
  then show ?case using assms(2,3) by (auto simp: lc_init_def ll_alloc_def node_alloc_def ll_store_def pbind_eq_ret pool_ok_def split: if_splits)
next
  case (step s s')
  obtain V where "lc_inv K rank s V" using lc_inv_reachable [OF assms(1-3) step.hyps(1)] by blast
  then have "NULL \<notin> set (ll_pool (lc_list s))" using lc_invD(6) by (fastforce simp: pool_ok_def)
  note np = this
  from step.hyps(2) show ?case
    by cases (use np step.IH in \<open>auto simp: lc_call_def lc_exec_def pbind_eq_ret intro: access_null\<close>)
qed

lemma held_pub:
  assumes inv: "lc_inv K rank s V" and own: "own_node (lc_pcs s t) = None" and x: "x \<in> pc_nodes (lc_pcs s t)" "x \<noteq> NULL"
  shows "x \<in> v_pub V"
proof (cases "lc_pcs s t")
  case (Find_Unlink op p z n)
  note hok = view_okD(1) [OF lc_invD(1) [OF inv]]
  have T: "p \<in> v_pub V" "z \<in> v_pub V" "node_next (v_heap V) z = n" using lc_invD(15) [OF inv, of t] Find_Unlink by (auto simp: low_def)
  then show ?thesis using x Find_Unlink heap_okD(7) [OF hok T(2) heap_ok_next [OF hok T(2)]] by auto
qed (use own x lc_invD(15) [OF inv, of t] in \<open>auto simp: low_def high_def seeks_def held_def frozen_def split: if_splits\<close>)

text \<open>A thread does not come upon a node that was out of its reach.\<close>

lemma held_clear:
  assumes inv: "lc_inv K rank s V" and acc: "lc_access (lc_pcs s t) (lc_list s) = ret (p, l)" and clr: "clear_of s D"
    and old: "pc_nodes (lc_pcs s t) \<inter> D \<subseteq> {NULL}" and null: "ll_heap (lc_list s) NULL = None"
  shows "pc_nodes p \<inter> D \<subseteq> {NULL}"
proof
  fix x assume x: "x \<in> pc_nodes p \<inter> D"
  note C = clear_ofD [OF clr]
  have hd: "ll_head (lc_list s) \<notin> D" "ll_head (lc_list s) \<in> v_pub V" "\<not> marked (ll_heap (lc_list s)) (ll_head (lc_list s))"
    using C(2) [of "ll_head (lc_list s)"] heap_okD(1,2) [OF view_okD(1) [OF lc_invD(1) [OF inv]]] lc_invD(2,3) [OF inv] by auto
  show "x \<in> {NULL}"
  proof (rule ccontr)
    assume n: "x \<notin> {NULL}"
    then consider "x \<in> insert (ll_head (lc_list s)) (pc_nodes (lc_pcs s t))"
      | y where "own_node (lc_pcs s t) = None" "y \<in> insert (ll_head (lc_list s)) (pc_nodes (lc_pcs s t))" "edge (ll_heap (lc_list s)) y x"
      | "x \<in> set (ll_pool (lc_list s))"
      using nodes_access [OF acc hd(3), of x] x by blast
    then show False
    proof cases
      case 2
      have nn: "y \<noteq> NULL" using 2(3) null by (auto simp: edge_def)
      then have "y \<in> v_pub V" "y \<notin> D" using 2(2) held_pub [OF inv 2(1)] hd(1,2) old by auto
      then show False using C(3) [OF known_pub [OF inv]] 2(3) x by blast
    qed (use x n old hd(1) C(1) in \<open>auto simp: known_def\<close>)
  qed
qed

section \<open>Memory with holes\<close>

text \<open>The list \<open>l\<close> is the list \<open>l0\<close> with the nodes in \<open>F\<close> returned to the allocator.\<close>

definition pruned :: "addr set \<Rightarrow> list_t \<Rightarrow> list_t \<Rightarrow> bool" where
  "pruned F l l0 \<longleftrightarrow> ll_heap l = (\<lambda>a. if a \<in> F then None else ll_heap l0 a) \<and> ll_head l = ll_head l0 \<and> ll_key_type l = ll_key_type l0 \<and>
     ll_pool l = ll_pool l0 \<and> ll_deferred l = ll_deferred l0"

lemma prunedD:
  assumes "pruned F l l0"
  shows "ll_head l = ll_head l0" and "ll_key_type l = ll_key_type l0" and "ll_pool l = ll_pool l0" and "a \<notin> F \<Longrightarrow> ll_load l a = ll_load l0 a"
  using assms by (auto simp: pruned_def ll_load_def)

lemma pruned_steps:
  assumes "pruned F l l0"
  shows "a \<notin> F \<Longrightarrow> pruned F (ll_store a nd l) (ll_store a nd l0)" and "pruned F (ll_defer_node a k l) (ll_defer_node a k l0)"
    and "a \<notin> F \<Longrightarrow> pruned F (ll_nbd_free a (ll_free_key k l)) (ll_nbd_free a (ll_free_key k l0))"
    and "pruned F (l\<lparr>ll_pool := as\<rparr>) (l0\<lparr>ll_pool := as\<rparr>)"
  using assms by (auto simp: pruned_def ll_store_def ll_defer_node_def ll_defer_def ll_nbd_free_def ll_free_key_def fun_eq_iff)

lemma pruned_visit: "pruned F l l0 \<Longrightarrow> x \<notin> F \<Longrightarrow> find_visit l op p x n = find_visit l0 op p x n"
  by (simp add: find_visit_def prunedD)

definition simulates :: "addr set \<Rightarrow> (lc_pc \<times> list_t) prog \<Rightarrow> (lc_pc \<times> list_t) prog \<Rightarrow> bool" where
  "simulates F m m0 \<longleftrightarrow> (\<forall>p l0. m0 = ret (p, l0) \<longrightarrow> (\<exists>l. m = ret (p, l) \<and> pruned F l l0))"

lemma simulates_ret: "pruned F l l0 \<Longrightarrow> simulates F (ret (p, l)) (ret (p, l0))"
  by (simp add: simulates_def)

lemma simulates_bind: "m = m0 \<Longrightarrow> (\<And>x. m0 = ret x \<Longrightarrow> simulates F (f x) (f0 x)) \<Longrightarrow> simulates F (pbind m f) (pbind m0 f0)"
  unfolding simulates_def pbind_eq_ret by metis

lemma simulates_alloc:
  assumes pr: "pruned F l l0" and pool: "set (ll_pool l0) \<inter> F = {}"
  shows "simulates F (lc_access (Cas_Alloc op q x) l) (lc_access (Cas_Alloc op q x) l0)"
proof (cases "ll_pool l0")
  case Nil
  then show ?thesis by (simp add: simulates_def node_alloc_def Let_def)
next
  case (Cons a as)
  then have "a \<notin> F" using pool by auto
  then show ?thesis using Cons prunedD(2,3) [OF pr]
    by (auto simp: node_alloc_def Let_def passert_def simulates_def intro!: pruned_steps(1) pruned_steps(4) [OF pr])
qed

lemma simulates_defer:
  assumes pr: "pruned F l l0" and "x \<notin> F" "a \<notin> F"
  shows "simulates F (lc_access (Find_Defer op q x a) l) (lc_access (Find_Defer op q x a) l0)"
proof -
  have "ll_load l x = ll_load l0 x" "ll_load l a = ll_load l0 a" using assms prunedD(4) by auto
  moreover have "find_visit (ll_defer_node a k l) op q x nxt = find_visit (ll_defer_node a k l0) op q x nxt" for k nxt
    using pruned_visit [OF pruned_steps(2) [OF pr] assms(2)] .
  ultimately show ?thesis using pruned_steps(2) [OF pr] by (auto simp: GET_NODE_def Let_def intro!: simulates_bind simulates_ret)
qed

lemma access_pruned:
  assumes pr: "pruned F l l0" and safe: "pc_nodes pc \<inter> F = {}" "ll_head l0 \<notin> F" "set (ll_pool l0) \<inter> F = {}"
  shows "simulates F (lc_access pc l) (lc_access pc l0)"
proof -
  note P = prunedD [OF pr] pruned_steps [OF pr] pr pruned_visit [OF pr]
  have load: "ll_load l a = ll_load l0 a" if "a \<in> pc_nodes pc" for a using that P(4) safe(1) by blast
  show ?thesis
    by (cases pc) (use safe load P simulates_alloc [OF pr safe(3)] simulates_defer [OF pr] in
      \<open>auto simp: Let_def SYNC_CAS_def SYNC_SWAP_def simp del: find_result.simps intro!: simulates_bind simulates_ret\<close>)
qed

end
