(* ===== verification/Linked_List_Reclaim.thy ===== *)
theory Linked_List_Reclaim
  imports Linked_List_Reach Rcu
begin

text \<open>
  The list of \<^verbatim>\<open>list.c\<close> together with the deferred reclamation of \<^verbatim>\<open>rcu.c\<close>: the memory of
  removed nodes is really freed, and no thread accesses it afterwards. The proof runs the list beside one in which
  nothing is freed.
\<close>

section \<open>The list with reclamation\<close>

text \<open>The list and the deferred reclamation together. A thread that has unlinked a node calls
  \<^verbatim>\<open>rcu_defer_free\<close>. Between operations it may call \<^verbatim>\<open>rcu_update\<close>, which passes the addresses whose
  time has come to \<^verbatim>\<open>nbd_free\<close>: from then on an access to them is a fault.\<close>

record rl_sys =
  rl_lc :: lc_sys
  rl_rcu :: rcu_run

definition rl_exec :: "nat \<Rightarrow> rl_sys \<Rightarrow> rl_sys prog" where
  "rl_exec t s =
     pbind (lc_exec t (rl_lc s)) (\<lambda>c.
     case retiring (lc_pcs (rl_lc s) t) of
       None \<Rightarrow> ret (s\<lparr>rl_lc := c\<rparr>)
     | Some a \<Rightarrow>
         pbind (rcu_defer_free t a (rr_state (rl_rcu s))) (\<lambda>q.
         ret (s\<lparr>rl_lc := c, rl_rcu := (rl_rcu s)\<lparr>rr_state := q, rr_deferred := (rr_deferred (rl_rcu s))(t := rr_deferred (rl_rcu s) t @ [a])\<rparr>\<rparr>)))"

definition rl_update :: "nat \<Rightarrow> rl_sys \<Rightarrow> rl_sys prog" where
  "rl_update t s =
     pbind (rcu_update t (rr_state (rl_rcu s))) (\<lambda>q.
     let freed = drop (length (rcu_freed (rr_state (rl_rcu s)))) (rcu_freed q)
     in ret (s\<lparr>rl_lc := (rl_lc s)\<lparr>lc_list := fold ll_nbd_free freed (lc_list (rl_lc s))\<rparr>, rl_rcu := after_update t q (rl_rcu s)\<rparr>))"

definition rl_init :: "list_t \<Rightarrow> (nat \<Rightarrow> addr) \<Rightarrow> nat \<Rightarrow> rl_sys" where
  "rl_init l junk n = \<lparr>rl_lc = lc_init l, rl_rcu = rr_init junk n\<rparr>"

inductive rl_reachable :: "map_key_t set \<Rightarrow> list_t \<Rightarrow> (nat \<Rightarrow> addr) \<Rightarrow> nat \<Rightarrow> rl_sys \<Rightarrow> bool" for K l junk n where
  init: "rl_reachable K l junk n (rl_init l junk n)"
| call: "rl_reachable K l junk n s \<Longrightarrow> t < n \<Longrightarrow> lc_pcs (rl_lc s) t = LC_Idle \<Longrightarrow> ll_op_ok K op \<Longrightarrow>
    rl_reachable K l junk n (s\<lparr>rl_lc := lc_call t op (rl_lc s)\<rparr>)"
| exec: "rl_reachable K l junk n s \<Longrightarrow> t < n \<Longrightarrow> rl_exec t s = ret s' \<Longrightarrow> rl_reachable K l junk n s'"
| update: "rl_reachable K l junk n s \<Longrightarrow> t < n \<Longrightarrow> lc_pcs (rl_lc s) t = LC_Idle \<Longrightarrow> rl_update t s = ret s' \<Longrightarrow> rl_reachable K l junk n s'"

text \<open>The invariant: the state is that of a run in which nothing is freed, less the nodes that have been
  released; what a thread has seen being deferred before its operation began is out of its reach.\<close>

abbreviation released :: "nat \<Rightarrow> rcu_run \<Rightarrow> addr set" where
  "released n r \<equiv> \<Union>t < n. set (rr_released r t)"

definition rl_inv :: "map_key_t set \<Rightarrow> list_t \<Rightarrow> (nat \<Rightarrow> addr) \<Rightarrow> nat \<Rightarrow> rl_sys \<Rightarrow> lc_sys \<Rightarrow> (nat \<Rightarrow> addr set) \<Rightarrow> bool" where
  "rl_inv K l junk n s s0 D \<longleftrightarrow>
     lc_reachable K l s0 \<and> rcu_reachable junk n (rl_rcu s) \<and>
     lc_pcs (rl_lc s) = lc_pcs s0 \<and> lc_ids (rl_lc s) = lc_ids s0 \<and> lc_hist (rl_lc s) = lc_hist s0 \<and>
     pruned (released n (rl_rcu s)) (lc_list (rl_lc s)) (lc_list s0) \<and>
     (\<forall>t < n. \<forall>a \<in> set (rr_deferred (rl_rcu s) t). a \<in> set (ll_deferred (lc_list s0)) \<and> a \<noteq> NULL) \<and>
     (\<forall>u. lc_pcs s0 u \<noteq> LC_Idle \<longrightarrow> clear_of s0 (D u) \<and> pc_nodes (lc_pcs s0 u) \<inter> D u \<subseteq> {NULL} \<and>
        (\<forall>t < n. \<forall>k < length (rr_deferred (rl_rcu s) t). u \<in> rr_seen (rl_rcu s) t k \<longrightarrow> rr_deferred (rl_rcu s) t ! k \<in> D u))"

lemma rl_invD:
  assumes "rl_inv K l junk n s s0 D"
  shows "lc_reachable K l s0" and "rcu_reachable junk n (rl_rcu s)" and "lc_pcs (rl_lc s) = lc_pcs s0" and "lc_ids (rl_lc s) = lc_ids s0"
    and "lc_hist (rl_lc s) = lc_hist s0" and "pruned (released n (rl_rcu s)) (lc_list (rl_lc s)) (lc_list s0)"
    and "t < n \<Longrightarrow> a \<in> set (rr_deferred (rl_rcu s) t) \<Longrightarrow> a \<in> set (ll_deferred (lc_list s0)) \<and> a \<noteq> NULL"
    and "lc_pcs s0 u \<noteq> LC_Idle \<Longrightarrow> clear_of s0 (D u)" and "lc_pcs s0 u \<noteq> LC_Idle \<Longrightarrow> pc_nodes (lc_pcs s0 u) \<inter> D u \<subseteq> {NULL}"
    and "lc_pcs s0 u \<noteq> LC_Idle \<Longrightarrow> t < n \<Longrightarrow> k < length (rr_deferred (rl_rcu s) t) \<Longrightarrow> u \<in> rr_seen (rl_rcu s) t k \<Longrightarrow> rr_deferred (rl_rcu s) t ! k \<in> D u"
  using assms unfolding rl_inv_def by blast+

text \<open>A list with integer keys that has just been allocated.\<close>

definition ll_started :: "map_key_t set \<Rightarrow> (map_key_t \<Rightarrow> int) \<Rightarrow> list_t \<Rightarrow> bool" where
  "ll_started K rank l \<longleftrightarrow> key_order None K rank \<and> (\<exists>a pool. pool_ok (a # pool) (\<lambda>_. None) \<and> ll_alloc None (a # pool) = ret l)"

lemma ll_startedD:
  assumes "ll_started K rank l" and "lc_reachable K l s"
  shows "\<exists>V. lc_inv K rank s V" and "retire_inv s" and "ll_heap (lc_list s) NULL = None" and "ll_key_type (lc_list s) = None"
  using assms lc_inv_reachable retire_inv_reachable reachable_null lc_reachable_key_type unfolding ll_started_def by metis+

text \<open>What has been released is off the list and out of reach of every thread.\<close>

lemma released_safe:
  assumes start: "ll_started K rank l" and inv: "rl_inv K l junk n s s0 D" and bd: "\<forall>t < n. length (rr_deferred (rl_rcu s) t) < 2 ^ 32" and u: "u < n"
  shows "pc_nodes (lc_pcs s0 u) \<inter> released n (rl_rcu s) = {}" and "ll_head (lc_list s0) \<notin> released n (rl_rcu s)"
    and "set (ll_pool (lc_list s0)) \<inter> released n (rl_rcu s) = {}"
proof -
  note I = rl_invD [OF inv]
  have ri: "retire_inv s0" by (rule ll_startedD(2) [OF start I(1)])
  have def: "x \<in> set (ll_deferred (lc_list s0)) \<and> x \<noteq> NULL \<and> (lc_pcs s0 u \<noteq> LC_Idle \<longrightarrow> x \<in> D u)" if x: "x \<in> released n (rl_rcu s)" for x
  proof -
    obtain t where t: "t < n" "x \<in> set (rr_released (rl_rcu s) t)" using x by blast
    then obtain k where k: "k < length (rr_released (rl_rcu s) t)" "x = rr_released (rl_rcu s) t ! k" by (auto simp: in_set_conv_nth)
    note S = rcu_released_seen [OF I(2) bd t(1) k(1)]
    have "x \<in> set (rr_deferred (rl_rcu s) t)" using S(1,2) k(2) by simp
    then show ?thesis using I(7) [OF t(1)] I(10) [OF _ t(1) S(2) S(3) [OF u]] S(1) k(2) by auto
  qed
  have off: "known s0 x \<and> \<not> in_list (lc_list s0) x" if "x \<in> released n (rl_rcu s)" for x using def [OF that] ri by (simp add: retire_inv_def)
  show "pc_nodes (lc_pcs s0 u) \<inter> released n (rl_rcu s) = {}"
    using def I(9) [of u] by (cases "lc_pcs s0 u = LC_Idle") auto
  show "ll_head (lc_list s0) \<notin> released n (rl_rcu s)" using off by auto
  show "set (ll_pool (lc_list s0)) \<inter> released n (rl_rcu s) = {}" using off by (auto simp: known_def)
qed

text \<open>The steps keep the invariant.\<close>

lemma rl_inv_call:
  assumes start: "ll_started K rank l" and inv: "rl_inv K l junk n s s0 D" and pc: "lc_pcs (rl_lc s) t = LC_Idle" and op: "ll_op_ok K op"
  shows "\<exists>s0' D'. rl_inv K l junk n (s\<lparr>rl_lc := lc_call t op (rl_lc s)\<rparr>) s0' D'"
proof -
  note I = rl_invD [OF inv]
  define s1 where "s1 = lc_call t op s0"
  define D' where "D' = D(t := {a. known s1 a \<and> \<not> in_list (lc_list s1) a})"
  have ri: "retire_inv s0" by (rule ll_startedD(2) [OF start I(1)])
  have "own_node (lc_pcs s1 u) = own_node (lc_pcs s0 u)" for u using pc I(3) by (simp add: s1_def lc_call_def)
  then have kn: "known s1 a = known s0 a" for a by (simp add: known_def s1_def lc_call_def)
  have cl: "clear_of s1 E = clear_of s0 E" for E unfolding clear_of_def kn by (simp add: s1_def lc_call_def)
  have all: "rr_deferred (rl_rcu s) u ! k \<in> D' t" if "u < n" "k < length (rr_deferred (rl_rcu s) u)" for u k
  proof -
    have "rr_deferred (rl_rcu s) u ! k \<in> set (ll_deferred (lc_list s0))" using I(7) [OF that(1)] that(2) by simp
    then show ?thesis using ri kn by (simp add: retire_inv_def D'_def s1_def lc_call_def)
  qed
  have "clear_of s1 (D' u) \<and> pc_nodes (lc_pcs s1 u) \<inter> D' u \<subseteq> {NULL} \<and>
      (\<forall>w < n. \<forall>k < length (rr_deferred (rl_rcu s) w). u \<in> rr_seen (rl_rcu s) w k \<longrightarrow> rr_deferred (rl_rcu s) w ! k \<in> D' u)" if "lc_pcs s1 u \<noteq> LC_Idle" for u
  proof (cases "u = t")
    case True
    then show ?thesis using all clear_of_unlinked [of s1] by (auto simp: D'_def s1_def lc_call_def)
  next
    case False
    then have u: "lc_pcs s0 u \<noteq> LC_Idle" "lc_pcs s1 u = lc_pcs s0 u" "D' u = D u" using that by (auto simp: s1_def lc_call_def D'_def)
    show ?thesis using I(8,9,10) [OF u(1)] unfolding u(2,3) cl by blast
  qed
  moreover have "lc_reachable K l s1" using lc_reachable.step [OF I(1) lc_step.call] pc op I(3) by (simp add: s1_def)
  ultimately have "rl_inv K l junk n (s\<lparr>rl_lc := lc_call t op (rl_lc s)\<rparr>) s1 D'"
    using I(2-7) unfolding rl_inv_def by (simp add: s1_def lc_call_def)
  then show ?thesis by blast
qed

lemma fold_free_heap: "ll_heap (fold ll_nbd_free xs l) = (\<lambda>a. if a \<in> set xs then None else ll_heap l a)"
  "ll_head (fold ll_nbd_free xs l) = ll_head l" "ll_key_type (fold ll_nbd_free xs l) = ll_key_type l"
  "ll_pool (fold ll_nbd_free xs l) = ll_pool l" "ll_deferred (fold ll_nbd_free xs l) = ll_deferred l"
  by (induction xs arbitrary: l) (auto simp: ll_nbd_free_def fun_eq_iff)

lemma rl_inv_update:
  assumes inv: "rl_inv K l junk n s s0 D" and t: "t < n" and pc: "lc_pcs (rl_lc s) t = LC_Idle" and up: "rl_update t s = ret s'"
  shows "rl_inv K l junk n s' s0 D"
proof -
  note I = rl_invD [OF inv]
  obtain q where q: "rcu_update t (rr_state (rl_rcu s)) = ret q" using up by (auto simp: rl_update_def pbind_eq_ret)
  define freed where "freed = drop (length (rcu_freed (rr_state (rl_rcu s)))) (rcu_freed q)"
  have s': "s' = s\<lparr>rl_lc := (rl_lc s)\<lparr>lc_list := fold ll_nbd_free freed (lc_list (rl_lc s))\<rparr>, rl_rcu := after_update t q (rl_rcu s)\<rparr>"
    using up q by (simp add: rl_update_def freed_def Let_def)
  have rel: "released n (after_update t q (rl_rcu s)) = released n (rl_rcu s) \<union> set freed"
    using t by (auto simp: after_update_def freed_def split: if_splits)
  have "pruned (released n (rl_rcu s) \<union> set freed) (fold ll_nbd_free freed (lc_list (rl_lc s))) (lc_list s0)"
    using I(6) unfolding pruned_def fold_free_heap by auto
  moreover have "rcu_reachable junk n (after_update t q (rl_rcu s))"
    using rcu_reachable.step [OF I(2) rcu_step.update [OF t q]] by (simp add: after_update_def)
  moreover have "rr_deferred (after_update t q (rl_rcu s)) = rr_deferred (rl_rcu s)" by (simp add: after_update_def)
  moreover have "u \<in> rr_seen (after_update t q (rl_rcu s)) w k \<longleftrightarrow> u \<in> rr_seen (rl_rcu s) w k" if "lc_pcs s0 u \<noteq> LC_Idle" for u w k
    using that pc I(3) by (auto simp: after_update_def)
  ultimately show ?thesis using I unfolding rl_inv_def s' by (simp add: rel)
qed

text \<open>An access.\<close>

lemma lc_exec_goto:
  assumes "lc_pcs s t \<noteq> LC_Idle" and "\<And>op v. lc_pcs s t \<noteq> LC_Return op v"
  shows "lc_exec t s = pbind (lc_access (lc_pcs s t) (lc_list s)) (\<lambda>(p, l). ret (lc_goto t p l s))"
proof -
  have "(case lc_pcs s t of LC_Return op v \<Rightarrow> lc_hist s @ [Return (lc_ids s t) v] | _ \<Rightarrow> lc_hist s) = lc_hist s"
    using assms(2) by (cases "lc_pcs s t") auto
  then show ?thesis by (simp add: lc_exec_def)
qed

lemma rl_access:
  assumes start: "ll_started K rank l" and inv: "rl_inv K l junk n s s0 D" and bd: "\<forall>t < n. length (rr_deferred (rl_rcu s) t) < 2 ^ 32" and t: "t < n"
    and acc: "lc_access (lc_pcs s0 t) (lc_list s0) = ret (p, l0')"
  shows "\<exists>l'. lc_access (lc_pcs (rl_lc s) t) (lc_list (rl_lc s)) = ret (p, l') \<and> pruned (released n (rl_rcu s)) l' l0'"
proof -
  note I = rl_invD [OF inv]
  show ?thesis using access_pruned [OF I(6) released_safe [OF start inv bd t]] acc unfolding simulates_def I(3) by blast
qed

lemma goto_inv:
  assumes start: "ll_started K rank l" and inv: "rl_inv K l junk n s s0 D" and t: "t < n" and act: "lc_pcs s0 t \<noteq> LC_Idle" "\<And>op v. lc_pcs s0 t \<noteq> LC_Return op v"
    and acc: "lc_access (lc_pcs s0 t) (lc_list s0) = ret (p, l0')" and pr: "pruned (released n (rl_rcu s)) l' l0'"
    and r': "rcu_reachable junk n r'" "rr_released r' = rr_released (rl_rcu s)" "rr_seen r' = rr_seen (rl_rcu s)"
      "rr_deferred r' = (case retiring (lc_pcs s0 t) of None \<Rightarrow> rr_deferred (rl_rcu s) | Some a \<Rightarrow> (rr_deferred (rl_rcu s))(t := rr_deferred (rl_rcu s) t @ [a]))"
      "\<And>a. retiring (lc_pcs s0 t) = Some a \<Longrightarrow> a \<noteq> NULL"
  shows "rl_inv K l junk n (s\<lparr>rl_lc := lc_goto t p l' (rl_lc s), rl_rcu := r'\<rparr>) (lc_goto t p l0' s0) D"
proof -
  note I = rl_invD [OF inv]
  obtain V where V: "lc_inv K rank s0 V" using ll_startedD(1) [OF start I(1)] by blast
  note kt = ll_startedD(4) [OF start I(1)] and null = ll_startedD(3) [OF start I(1)]
  have ro: "retire_ok s0 t p l0'" by (rule access_retires [OF V acc kt])
  have "lc_reachable K l (lc_goto t p l0' s0)"
    using lc_reachable.step [OF I(1) lc_step.exec [of t]] lc_exec_goto [of s0 t, OF act] acc by simp
  moreover have "a \<in> set (ll_deferred l0') \<and> a \<noteq> NULL" if "w < n" "a \<in> set (rr_deferred r' w)" for w a
    using that I(7) [of w a] r'(4,5) ro unfolding retire_ok_def by (auto split: option.splits if_splits)
  moreover have "rr_deferred r' w ! k \<in> D u" if "lc_pcs s0 u \<noteq> LC_Idle" "w < n" "k < length (rr_deferred r' w)" "u \<in> rr_seen r' w k" for u w k
  proof -
    have "k < length (rr_deferred (rl_rcu s) w)" using rcu_seen_bound [OF I(2), of w k] that(4) r'(3) by fastforce
    moreover from this have "rr_deferred r' w ! k = rr_deferred (rl_rcu s) w ! k" using r'(4) by (auto simp: nth_append split: option.splits)
    ultimately show ?thesis using I(10) that r'(3) by simp
  qed
  moreover have "clear_of (lc_goto t p l0' s0) (D u)" if "lc_pcs s0 u \<noteq> LC_Idle" for u by (rule clear_of_access [OF V acc kt I(8) [OF that]])
  moreover have "pc_nodes p \<inter> D t \<subseteq> {NULL}" by (rule held_clear [OF V acc I(8) [OF act(1)] I(9) [OF act(1)] null])
  moreover have "lc_pcs s0 u \<noteq> LC_Idle" if "(if u = t then p else lc_pcs s0 u) \<noteq> LC_Idle" for u using that act by (auto split: if_splits)
  moreover have "released n r' = released n (rl_rcu s)" using r'(2) by simp
  ultimately show ?thesis using I(3-5) I(9) pr r'(1) unfolding rl_inv_def by (simp add: fun_upd_def split: if_splits)
qed

lemma retiring_pub:
  assumes "lc_inv K rank s V" and "retiring (lc_pcs s t) = Some a"
  shows "a \<noteq> NULL"
proof -
  have "a \<in> v_pub V" using assms(2) lc_invD(15) [OF assms(1), of t] by (cases "lc_pcs s t") auto
  then show ?thesis using heap_okD(4) [OF view_okD(1) [OF lc_invD(1) [OF assms(1)]]] by blast
qed

lemma rl_inv_return:
  assumes inv: "rl_inv K l junk n s s0 D" and pc: "lc_pcs s0 t = LC_Return op v"
  shows "\<exists>s0'. rl_exec t s = ret (s\<lparr>rl_lc := (rl_lc s)\<lparr>lc_pcs := (lc_pcs (rl_lc s))(t := LC_Idle), lc_hist := lc_hist (rl_lc s) @ [Return (lc_ids (rl_lc s) t) v]\<rparr>\<rparr>) \<and>
    rl_inv K l junk n (s\<lparr>rl_lc := (rl_lc s)\<lparr>lc_pcs := (lc_pcs (rl_lc s))(t := LC_Idle), lc_hist := lc_hist (rl_lc s) @ [Return (lc_ids (rl_lc s) t) v]\<rparr>\<rparr>) s0' D"
proof -
  note I = rl_invD [OF inv]
  define s1 where "s1 = s0\<lparr>lc_pcs := (lc_pcs s0)(t := LC_Idle), lc_hist := lc_hist s0 @ [Return (lc_ids s0 t) v]\<rparr>"
  have "lc_exec t s0 = ret s1" using pc by (simp add: lc_exec_def s1_def)
  then have "lc_reachable K l s1" using lc_reachable.step [OF I(1) lc_step.exec] by blast
  moreover have "own_node (lc_pcs s1 u) = own_node (lc_pcs s0 u)" for u using pc by (simp add: s1_def)
  then have "known s1 a = known s0 a" for a by (simp add: known_def s1_def)
  then have "clear_of s1 E = clear_of s0 E" for E unfolding clear_of_def by (simp add: s1_def)
  ultimately have "rl_inv K l junk n (s\<lparr>rl_lc := (rl_lc s)\<lparr>lc_pcs := (lc_pcs (rl_lc s))(t := LC_Idle), lc_hist := lc_hist (rl_lc s) @ [Return (lc_ids (rl_lc s) t) v]\<rparr>\<rparr>) s1 D"
    using I unfolding rl_inv_def by (simp add: s1_def split: if_splits)
  moreover have "rl_exec t s = ret (s\<lparr>rl_lc := (rl_lc s)\<lparr>lc_pcs := (lc_pcs (rl_lc s))(t := LC_Idle), lc_hist := lc_hist (rl_lc s) @ [Return (lc_ids (rl_lc s) t) v]\<rparr>\<rparr>)"
    using pc I(3) by (simp add: rl_exec_def lc_exec_def)
  ultimately show ?thesis by blast
qed

text \<open>What a step does: it faults for want of memory or room in the queue only.\<close>

lemma rl_exec_cases:
  assumes start: "ll_started K rank l" and inv: "rl_inv K l junk n s s0 D" and bd: "\<forall>t < n. length (rr_deferred (rl_rcu s) t) < 2 ^ 32 - 1" and t: "t < n"
  shows "ll_pool (lc_list (rl_lc s)) = [] \<and> rl_exec t s = fail Exit_Failure \<or>
    length (rr_deferred (rl_rcu s) t) - length (rr_released (rl_rcu s) t) = 2 ^ 20 - 1 \<and> rl_exec t s = fail Assert_Failed \<or>
    (\<exists>s' s0'. rl_exec t s = ret s' \<and> rl_inv K l junk n s' s0' D)"
proof -
  note I = rl_invD [OF inv]
  have bd': "\<forall>t < n. length (rr_deferred (rl_rcu s) t) < 2 ^ 32" using bd by fastforce
  obtain V where V: "lc_inv K rank s0 V" using ll_startedD(1) [OF start I(1)] by blast
  consider "lc_pcs s0 t = LC_Idle" | op v where "lc_pcs s0 t = LC_Return op v" | op p x where "lc_pcs s0 t = Cas_Alloc op p x" "ll_pool (lc_list s0) = []"
    | "lc_pcs s0 t \<noteq> LC_Idle" "\<And>op v. lc_pcs s0 t \<noteq> LC_Return op v" "ll_pool (lc_list s0) \<noteq> [] \<or> (\<forall>op p x. lc_pcs s0 t \<noteq> Cas_Alloc op p x)" by blast
  then show ?thesis
  proof cases
    case 1
    then have "rl_exec t s = ret s" using I(3) by (simp add: rl_exec_def lc_exec_def fun_upd_idem)
    then show ?thesis using inv by blast
  next
    case 2
    then show ?thesis using rl_inv_return [OF inv] by blast
  next
    case 3
    then show ?thesis using prunedD(3) [OF I(6)] I(3) lc_exec_no_memory [of "rl_lc s" t op p x] by (simp add: rl_exec_def)
  next
    case 4
    obtain p l0' where acc: "lc_access (lc_pcs s0 t) (lc_list s0) = ret (p, l0')" using lc_access_ok [OF V 4] unfolding access_ok_def by blast
    obtain l' where l': "lc_access (lc_pcs (rl_lc s) t) (lc_list (rl_lc s)) = ret (p, l')" "pruned (released n (rl_rcu s)) l' l0'"
      using rl_access [OF start inv bd' t acc] by blast
    have ex: "lc_exec t (rl_lc s) = ret (lc_goto t p l' (rl_lc s))" using lc_exec_goto [of "rl_lc s" t] 4(1,2) l'(1) I(3) by simp
    note go = goto_inv [OF start inv t 4(1,2) acc l'(2)]
    show ?thesis
    proof (cases "retiring (lc_pcs s0 t)")
      case None
      then have "rl_exec t s = ret (s\<lparr>rl_lc := lc_goto t p l' (rl_lc s)\<rparr>)" using ex I(3) by (simp add: rl_exec_def)
      moreover have "rl_inv K l junk n (s\<lparr>rl_lc := lc_goto t p l' (rl_lc s)\<rparr>) (lc_goto t p l0' s0) D" using go [of "rl_rcu s"] I(2) None by simp
      ultimately show ?thesis by blast
    next
      case (Some a)
      have a: "a \<noteq> NULL" by (rule retiring_pub [OF V Some])
      have e: "rl_exec t s = pbind (rcu_defer_free t a (rr_state (rl_rcu s))) (\<lambda>q. ret (s\<lparr>rl_lc := lc_goto t p l' (rl_lc s),
          rl_rcu := (rl_rcu s)\<lparr>rr_state := q, rr_deferred := (rr_deferred (rl_rcu s))(t := rr_deferred (rl_rcu s) t @ [a])\<rparr>\<rparr>))"
        using ex I(3) Some by (simp add: rl_exec_def)
      show ?thesis
      proof (cases "\<exists>q. rcu_defer_free t a (rr_state (rl_rcu s)) = ret q")
        case True
        then obtain q where q: "rcu_defer_free t a (rr_state (rl_rcu s)) = ret q" by blast
        then show ?thesis using e go [OF rcu_reachable.step [OF I(2) rcu_step.defer_free [OF t q]]] Some a by (auto intro!: exI)
      next
        case False
        then show ?thesis using e rcu_defer_free_outcome [OF rcu_inv_reachable [OF I(2) bd'] t a] bd t by (auto split: if_splits)
      qed
    qed
  qed
qed

lemma rl_inv_init: "rl_inv K l junk n (rl_init l junk n) (lc_init l) (\<lambda>_. {})"
  unfolding rl_inv_def by (auto simp: rl_init_def rr_init_def lc_init_def pruned_def intro: lc_reachable.init [unfolded lc_init_def] rcu_reachable.init [unfolded rr_init_def])

lemma rl_exec_deferred:
  assumes "rl_exec t s = ret s'"
  shows "length (rr_deferred (rl_rcu s) u) \<le> length (rr_deferred (rl_rcu s') u)"
  using assms by (auto simp: rl_exec_def pbind_eq_ret split: option.splits)

lemma rl_update_deferred:
  assumes "rl_update t s = ret s'"
  shows "rr_deferred (rl_rcu s') = rr_deferred (rl_rcu s)"
  using assms by (auto simp: rl_update_def pbind_eq_ret Let_def after_update_def)

lemma rl_inv_reachable:
  assumes start: "ll_started K rank l" and "rl_reachable K l junk n s" and "\<forall>t < n. length (rr_deferred (rl_rcu s) t) < 2 ^ 32 - 1"
  shows "\<exists>s0 D. rl_inv K l junk n s s0 D"
  using assms(2,3)
proof (induction rule: rl_reachable.induct)
  case init
  then show ?case using rl_inv_init by blast
next
  case (call s t op)
  then obtain s0 D where "rl_inv K l junk n s s0 D" by auto
  then show ?case using rl_inv_call [OF start _ call.hyps(3,4)] by blast
next
  case (exec s t s')
  have bd: "\<forall>t < n. length (rr_deferred (rl_rcu s) t) < 2 ^ 32 - 1" using exec.prems rl_exec_deferred [OF exec.hyps(3)] by (meson le_less_trans)
  then obtain s0 D where "rl_inv K l junk n s s0 D" using exec.IH by blast
  then show ?case using rl_exec_cases [OF start _ bd exec.hyps(2)] exec.hyps(3) by fastforce
next
  case (update s t s')
  then obtain s0 D where "rl_inv K l junk n s s0 D" using rl_update_deferred by fastforce
  then show ?case using rl_inv_update update.hyps(2-4) by blast
qed

section \<open>Properties\<close>

text \<open>C14: The list, with integer keys, and the deferred reclamation work together. Any number of threads look up, update and
  remove keys, hand the nodes they unlink to \<^verbatim>\<open>rcu_defer_free\<close>, and call \<^verbatim>\<open>rcu_update\<close> between
  operations, which really frees nodes. No thread ever accesses a node that has been freed: a step returns, unless
  there is no memory for a new node or the thread's queue of \<open>2 ^ 20 - 1\<close> addresses is full. The history is
  linearizable. (Fewer than \<open>2 ^ 32 - 1\<close> removals per thread.)\<close>

theorem ll_rcu_no_use_after_free:
  assumes "key_order None K rank" and "pool_ok (a # pool) (\<lambda>_. None)" and "ll_alloc None (a # pool) = ret l"
    and "rl_reachable K l junk n s" and "\<forall>t < n. length (rr_deferred (rl_rcu s) t) < 2 ^ 32 - 1" and "t < n"
  shows "((\<exists>s'. rl_exec t s = ret s') \<or> ll_pool (lc_list (rl_lc s)) = [] \<and> rl_exec t s = fail Exit_Failure \<or>
      length (rr_deferred (rl_rcu s) t) - length (rr_released (rl_rcu s) t) = 2 ^ 20 - 1 \<and> rl_exec t s = fail Assert_Failed) \<and>
    (\<exists>L. linearization (ll_spec rank) (\<lambda>_. None) (lc_hist (rl_lc s)) L)"
proof -
  have start: "ll_started K rank l" using assms(1-3) by (auto simp: ll_started_def)
  obtain s0 D where inv: "rl_inv K l junk n s s0 D" using rl_inv_reachable [OF start assms(4,5)] by blast
  have "\<exists>L. linearization (ll_spec rank) (\<lambda>_. None) (lc_hist (rl_lc s)) L"
    using lc_reachable_rep [OF assms(1-3) rl_invD(1) [OF inv]] rl_invD(5) [OF inv] by metis
  then show ?thesis using rl_exec_cases [OF start inv assms(5,6)] by blast
qed

section \<open>A run with reclamation\<close>

datatype rl_event = RL_Invoke nat ll_op | RL_Access nat | RL_Update nat

fun rl_run :: "rl_event list \<Rightarrow> rl_sys \<Rightarrow> rl_sys prog" where
  "rl_run [] s = ret s"
| "rl_run (RL_Invoke t op # es) s = (if lc_pcs (rl_lc s) t = LC_Idle then rl_run es (s\<lparr>rl_lc := lc_call t op (rl_lc s)\<rparr>) else fail Assert_Failed)"
| "rl_run (RL_Access t # es) s = pbind (rl_exec t s) (rl_run es)"
| "rl_run (RL_Update t # es) s = (if lc_pcs (rl_lc s) t = LC_Idle then pbind (rl_update t s) (rl_run es) else fail Assert_Failed)"

primrec rl_event_ok :: "map_key_t set \<Rightarrow> nat \<Rightarrow> rl_event \<Rightarrow> bool" where
  "rl_event_ok K n (RL_Invoke t op) \<longleftrightarrow> t < n \<and> ll_op_ok K op" | "rl_event_ok K n (RL_Access t) \<longleftrightarrow> t < n" | "rl_event_ok K n (RL_Update t) \<longleftrightarrow> t < n"

lemma rl_run_reachable:
  assumes "rl_reachable K l junk n s" and "list_all (rl_event_ok K n) es" and "rl_run es s = ret s'"
  shows "rl_reachable K l junk n s'"
  using assms by (induction es s rule: rl_run.induct) (auto simp: pbind_eq_ret intro: rl_reachable.intros split: if_splits)

text \<open>Thread 0 inserts and removes a key ten times, after which it posts its queue; two rounds of updates free the
  ten nodes. Then thread 1 begins a lookup.\<close>

definition rl_sample_start :: list_t where
  "rl_sample_start = \<lparr>ll_head = 16, ll_key_type = None, ll_heap = [16 \<mapsto> \<lparr>nd_key = 0, nd_val = 0, nd_next = 0\<rparr>],
     ll_pool = [32, 48, 64, 80, 96, 112, 128, 144, 160, 176, 192], ll_deferred = [], ll_freed = []\<rparr>"

lemma rl_sample_start:
  "ll_alloc None [16, 32, 48, 64, 80, 96, 112, 128, 144, 160, 176, 192] = ret rl_sample_start"
  "pool_ok [16, 32, 48, 64, 80, 96, 112, 128, 144, 160, 176, 192] (\<lambda>_. None)"
  by (simp_all add: rl_sample_start_def ll_alloc_def node_alloc_def ll_store_def pool_ok_def DOES_NOT_EXIST_def HAS_MARK_def IS_TAGGED_def)

definition rl_sample_events :: "rl_event list" where
  "rl_sample_events =
     concat (replicate 10 (RL_Invoke 0 (LL_Cas 5 CAS_EXPECT_WHATEVER 9) # replicate 4 (RL_Access 0) @ RL_Invoke 0 (LL_Remove 5) # replicate 9 (RL_Access 0))) @
     [RL_Update 0, RL_Update 1, RL_Update 0, RL_Invoke 1 (LL_Lookup 5)]"

lemma rl_sample_run:
  "case rl_run rl_sample_events (rl_init rl_sample_start (\<lambda>_. 0) 2) of
     Some (Inr s) \<Rightarrow> rcu_freed (rr_state (rl_rcu s)) = [32, 48, 64, 80, 96, 112, 128, 144, 160, 176] \<and> lc_pcs (rl_lc s) 1 = Find_Head (LL_Lookup 5) \<and>
       ll_pool (lc_list (rl_lc s)) = [192] \<and> rr_deferred (rl_rcu s) 1 = [] \<and> length (rr_deferred (rl_rcu s) 0) = 10 | _ \<Rightarrow> False"
  by code_simp

theorem ll_rcu_no_use_after_free_witness:
  "\<exists>s s'. rcu_freed (rr_state (rl_rcu s)) = [32, 48, 64, 80, 96, 112, 128, 144, 160, 176] \<and> lc_pcs (rl_lc s) 1 = Find_Head (LL_Lookup 5) \<and> rl_exec 1 s = ret s'"
proof -
  obtain s where s: "rl_run rl_sample_events (rl_init rl_sample_start (\<lambda>_. 0) 2) = ret s"
    "rcu_freed (rr_state (rl_rcu s)) = [32, 48, 64, 80, 96, 112, 128, 144, 160, 176]" "lc_pcs (rl_lc s) 1 = Find_Head (LL_Lookup 5)"
    "ll_pool (lc_list (rl_lc s)) = [192]" "rr_deferred (rl_rcu s) 1 = []" "length (rr_deferred (rl_rcu s) 0) = 10"
    using rl_sample_run by (auto simp: ret_def split: option.splits sum.splits)
  have "list_all (rl_event_ok small_keys 2) rl_sample_events"
    by (auto simp: rl_sample_events_def ll_op_ok_def small_keys_def list_all_iff)
  then have r: "rl_reachable small_keys rl_sample_start (\<lambda>_. 0) 2 s" using rl_run_reachable [OF rl_reachable.init _ s(1)] by blast
  have "\<forall>t < 2. length (rr_deferred (rl_rcu s) t) < 2 ^ 32 - 1" using s(5,6) by (auto simp: less_2_cases_iff)
  then show ?thesis using ll_rcu_no_use_after_free [OF small_keys_order rl_sample_start(2,1) r, of 1] s(2-5) by auto
qed

end
