(* ===== verification/Hashtable_Props.thy ===== *)
theory Hashtable_Props
  imports Hashtable_Map
begin

text \<open>
  The properties of the hash table of \<^verbatim>\<open>src/src/map/hashtable.c\<close>: refinement of a map, the generic
  interface, the count, progress of a copy, freeing and iteration.
\<close>

section \<open>Freeing a table\<close>

lemma ht_free_loop_ok:
  assumes "p < length (ht_store s)" and "ht_key_type s = None"
    and "\<And>r. p \<le> r \<Longrightarrow> r < length (ht_store s) \<Longrightarrow> hti_ref_count (ht_store s ! r) = 1 \<and>
      hti_next (ht_store s ! r) = (if Suc r < length (ht_store s) then Some (Suc r) else None) \<and>
      (\<forall>i < tsize (ht_store s ! r). \<not> pending (ht_store s ! r) i)"
  shows "\<exists>s'. ht_free_loop p s = ret s' \<and>
    ht_deferred s' = ht_deferred s @ concat (map (\<lambda>r. [Freed_Table r, Freed_Hti r]) [p..<length (ht_store s)])"
  using assms
proof (induction "length (ht_store s) - p" arbitrary: p s)
  case (Suc n)
  let ?s = "drop_ref p s"
  have p: "hti_ref_count (ht_store s ! p) = 1" "hti_next (ht_store s ! p) = (if Suc p < length (ht_store s) then Some (Suc p) else None)"
    "\<forall>i < tsize (ht_store s ! p). \<not> pending (ht_store s ! p) i"
    using Suc.prems(3) [of p] Suc.prems(1) by simp_all
  have rel: "hti_release p s = ret ?s" using hti_release_ok [of p s] Suc.prems(1,2) p by simp
  have d: "ht_deferred ?s = ht_deferred s @ [Freed_Table p, Freed_Hti p]" using p(1) by (simp add: drop_ref_def)
  have unf: "ht_free_loop p s = (case hti_next (ht_store s ! p) of None \<Rightarrow> ret ?s | Some q \<Rightarrow> ht_free_loop q ?s)"
    using Suc.prems(1) p(1) rel by (subst ht_free_loop.simps) simp
  show ?case
  proof (cases "Suc p < length (ht_store s)")
    case True
    have "\<exists>s'. ht_free_loop (Suc p) ?s = ret s' \<and>
        ht_deferred s' = ht_deferred ?s @ concat (map (\<lambda>r. [Freed_Table r, Freed_Hti r]) [Suc p..<length (ht_store ?s)])"
      by (rule Suc.hyps(1)) (use Suc.hyps(2) Suc.prems True in \<open>auto simp: nth_list_update\<close>)
    then show ?thesis using unf p(2) d True Suc.prems(1) by (auto simp: upt_conv_Cons)
  next
    case False
    then have "[p..<length (ht_store s)] = [p]" using Suc.prems(1) by (simp add: upt_conv_Cons)
    then show ?thesis using unf p(2) d False by simp
  qed
qed simp

section \<open>Iterators\<close>

text \<open>A client that iterates until the end, for at most \<open>n\<close> bindings.\<close>

primrec ht_iter_run :: "nat \<Rightarrow> ht_iter \<Rightarrow> hashtable_t \<Rightarrow> ((map_key_t \<times> map_val_t) list \<times> ht_iter \<times> hashtable_t) prog" where
  "ht_iter_run 0 it s = ret ([], it, s)"
| "ht_iter_run (Suc n) it s =
     pbind (ht_iter_next it s) (\<lambda>(val, key, it, s). case key of
       None \<Rightarrow> ret ([], it, s)
     | Some k \<Rightarrow> pbind (ht_iter_run n it s) (\<lambda>(xs, it, s). ret ((k, val) # xs, it, s)))"

text \<open>The entries from an index on that hold a binding.\<close>

abbreviation entries_from :: "hti \<Rightarrow> nat \<Rightarrow> entry list" where
  "entries_from t i \<equiv> filter (\<lambda>e. live (ent_val e)) (drop i (hti_table t))"

lemma ht_iter_scan_ok:
  assumes "it_hti it < length (ht_store s)" and "t = ht_store s ! it_hti it" and "tab_ok t" and "ht_key_type s = None"
    and "\<forall>i < tsize t. \<not> tagged (tval t i)" and "it_idx it + 1 = int i" and "i \<le> tsize t"
  shows "entries_from t i = [] \<Longrightarrow> ht_iter_scan it s = ret (None, it\<lparr>it_idx := int (tsize t)\<rparr>)"
    and "entries_from t i = e # es \<Longrightarrow> \<exists>j < tsize t. entries_from t (Suc j) = es \<and>
      ht_iter_scan it s = ret (Some (ent_key e, e), it\<lparr>it_idx := int j\<rparr>) \<and> \<not> tagged (ent_val e)"
proof -
  have sz: "int (tsize t) = 2 ^ hti_scale t" using assms(3) by (simp add: tab_ok_def wf_table_def)
  have "(entries_from t i = [] \<longrightarrow> ht_iter_scan it s = ret (None, it\<lparr>it_idx := int (tsize t)\<rparr>)) \<and>
    (\<forall>e es. entries_from t i = e # es \<longrightarrow> (\<exists>j < tsize t. entries_from t (Suc j) = es \<and>
      ht_iter_scan it s = ret (Some (ent_key e, e), it\<lparr>it_idx := int j\<rparr>) \<and> \<not> tagged (ent_val e)))"
    using assms(1,2,6,7)
  proof (induction "tsize t - i" arbitrary: i it)
    case 0
    then have "i = tsize t" by simp
    moreover have "ht_iter_scan it s = ret (None, it\<lparr>it_idx := int (tsize t)\<rparr>)"
      using "0.prems" calculation sz by (subst ht_iter_scan.simps) (simp add: Let_def)
    ultimately show ?case by simp
  next
    case (Suc n)
    then have i: "i < tsize t" by simp
    let ?e = "hti_table t ! i"
    have drop: "drop i (hti_table t) = ?e # drop (Suc i) (hti_table t)" using Cons_nth_drop_Suc [OF i] by simp
    have lv: "live (ent_val ?e) \<longleftrightarrow> ent_val ?e \<noteq> 0 \<and> ent_val ?e \<noteq> TOMBSTONE" "\<not> tagged (ent_val ?e)"
      using assms(5) i live_untagged by auto
    have idx: "it_idx it + 1 \<noteq> 2 ^ hti_scale t" using Suc.prems(3) i sz by linarith
    show ?case
    proof (cases "live (ent_val ?e)")
      case True
      then have "ht_iter_scan it s = ret (Some (ent_key ?e, ?e), it\<lparr>it_idx := int i\<rparr>)"
        using Suc.prems idx i lv tab_ok_live [OF assms(3) i] assms(4)
        by (subst ht_iter_scan.simps) (simp add: Let_def DOES_NOT_EXIST_def)
      then show ?thesis using True i lv(2) by (auto simp: drop)
    next
      case False
      let ?it = "it\<lparr>it_idx := int i\<rparr>"
      have "ht_iter_scan it s = ht_iter_scan ?it s"
        using False Suc.prems idx i lv assms(4)
        by (subst ht_iter_scan.simps) (auto simp: Let_def DOES_NOT_EXIST_def)
      moreover have "n = tsize t - Suc i" using Suc.hyps(2) by simp
      moreover have "entries_from t i = entries_from t (Suc i)" using False by (simp add: drop)
      ultimately show ?thesis using Suc.hyps(1) [of "Suc i" ?it] Suc.prems i by simp
    qed
  qed
  then show "entries_from t i = [] \<Longrightarrow> ht_iter_scan it s = ret (None, it\<lparr>it_idx := int (tsize t)\<rparr>)"
    and "entries_from t i = e # es \<Longrightarrow> \<exists>j < tsize t. entries_from t (Suc j) = es \<and>
      ht_iter_scan it s = ret (Some (ent_key e, e), it\<lparr>it_idx := int j\<rparr>) \<and> \<not> tagged (ent_val e)"
    by auto
qed

lemma ht_iter_run_ok:
  assumes "it_hti it < length (ht_store s)" and "t = ht_store s ! it_hti it" and "tab_ok t" and "ht_key_type s = None"
    and "\<forall>i < tsize t. \<not> tagged (tval t i)" and "it_idx it + 1 = int i" and "i \<le> tsize t" and "length (entries_from t i) < n"
  shows "ht_iter_run n it s = ret (map (\<lambda>e. (ent_key e, plain (ent_val e))) (entries_from t i), it\<lparr>it_idx := int (tsize t)\<rparr>, s)"
  using assms
proof (induction n arbitrary: i it)
  case (Suc n)
  note S = ht_iter_scan_ok [OF Suc.prems(1-7)]
  show ?case
  proof (cases "entries_from t i")
    case Nil
    then have "ht_iter_next it s = ret (0, None, it\<lparr>it_idx := int (tsize t)\<rparr>, s)"
      using S(1) by (subst ht_iter_next.simps) (simp add: DOES_NOT_EXIST_def)
    then show ?thesis using Nil by simp
  next
    case (Cons e es)
    obtain j where j: "j < tsize t" "entries_from t (Suc j) = es" "ht_iter_scan it s = ret (Some (ent_key e, e), it\<lparr>it_idx := int j\<rparr>)"
      "\<not> tagged (ent_val e)"
      using S(2) [OF Cons] by blast
    have "ent_val e \<noteq> COPIED_VALUE" using j(4) by auto
    then have nxt: "ht_iter_next it s = ret (ent_val e, Some (ent_key e), it\<lparr>it_idx := int j\<rparr>, s)"
      using j(3) by (subst ht_iter_next.simps) simp
    have "ht_iter_run n (it\<lparr>it_idx := int j\<rparr>) s =
        ret (map (\<lambda>e. (ent_key e, plain (ent_val e))) (entries_from t (Suc j)), it\<lparr>it_idx := int j, it_idx := int (tsize t)\<rparr>, s)"
      by (rule Suc.IH) (use Suc.prems Cons j in auto)
    then show ?thesis using nxt Cons j(2,4) by (simp add: plain_untagged)
  qed
qed simp

text \<open>The state in which an iterator has been opened: the table has one more reference.\<close>

lemma ht_iter_begin_ok:
  assumes "ht_inv s" and "Suc (ht_hti s) = length (ht_store s)" and "t = ht_store s ! ht_hti s"
  shows "ht_iter_begin s key = ret (\<lparr>it_hti = ht_hti s, it_idx = - 1\<rparr>,
    upd_hti (ht_hti s) (\<lambda>t. t\<lparr>hti_ref_count := hti_ref_count t + 1\<rparr>) s)"
proof -
  have c: "chain_ok (ht_hti s) (ht_store s)" "ht_hti s < length (ht_store s)" "hti_ref_count t \<noteq> 0"
    using assms by (auto simp: ht_inv_def core_def inv_from_def)
  have "hti_next t = None" using chain_okD(2) [OF c(1) order_refl c(2)] assms(2,3) by simp
  then have "ht_last_table (ht_hti s) s = ret (ht_hti s, s)"
    using c(2) assms(3) by (subst ht_last_table.simps) simp
  then show ?thesis using c(2,3) assms(3) by (subst ht_iter_begin.simps) simp
qed

lemma ht_iterate_ok:
  assumes "ht_inv s" and "Suc (ht_hti s) = length (ht_store s)" and "card (dom (ht_abs s)) < n"
  shows "\<exists>it1 s1 xs it2. ht_iter_begin s key = ret (it1, s1) \<and> ht_iter_run n it1 s1 = ret (xs, it2, s1) \<and>
    ht_iter_free it2 s1 = ret s \<and> map_of xs = ht_abs s \<and> distinct (map fst xs)"
proof -
  let ?p = "ht_hti s"
  let ?t = "ht_store s ! ?p"
  let ?s = "upd_hti ?p (\<lambda>t. t\<lparr>hti_ref_count := hti_ref_count t + 1\<rparr>) s"
  let ?u = "?t\<lparr>hti_ref_count := hti_ref_count ?t + 1\<rparr>"
  let ?it = "\<lparr>it_hti = ?p, it_idx = - 1\<rparr>"
  have c: "core ?p s" "chain_ok ?p (ht_store s)" "?p < length (ht_store s)" "ht_key_type s = None" "1 \<le> hti_ref_count ?t"
    using assms(1) by (auto simp: ht_inv_def core_def inv_from_def)
  note P = chain_okD [OF c(2) order_refl c(3)]
  have xs: "ht_abs s = map_of (bindings ?t)" "distinct (map fst (bindings ?t))"
    using distinct_chain [OF c(2)] Cons_nth_drop_Suc [OF c(3)] assms(2) c(3) by (simp_all add: ht_abs_def chain_abs_def flip: Cons_nth_drop_Suc)
  have len: "length (entries_from ?t 0) < n"
    using assms(3) distinct_card [OF xs(2)] by (simp add: xs(1) dom_map_of_conv_image_fst bindings_def image_image)
  have u: "ht_store ?s ! ?p = ?u" "tab_ok ?u" using c(3) P(1) by (auto simp: tab_ok_def wf_table_def slot_def key_visits_def)
  have "ht_iter_run n ?it ?s = ret (map (\<lambda>e. (ent_key e, plain (ent_val e))) (entries_from ?u 0), ?it\<lparr>it_idx := int (tsize ?u)\<rparr>, ?s)"
    by (rule ht_iter_run_ok) (use c u P(3) len assms(2) in auto)
  then have run: "ht_iter_run n ?it ?s = ret (bindings ?t, ?it\<lparr>it_idx := int (tsize ?t)\<rparr>, ?s)"
    by (simp add: bindings_def)
  have "hti_release ?p ?s = ret s" using c(3,5) by (simp add: hti_release_def Let_def upd_hti_fuse upd_hti_same)
  then have "ht_iter_free (?it\<lparr>it_idx := int (tsize ?t)\<rparr>) ?s = ret s" by (simp add: ht_iter_free_def)
  then show ?thesis using ht_iter_begin_ok [OF assms(1,2) refl] run xs by auto
qed

lemma sealed_tombstone: "TAG_VALUE TOMBSTONE TAG1 = - 1" "- 1 \<noteq> TOMBSTONE" "- 1 \<noteq> COPIED_VALUE"
  by (simp_all add: TOMBSTONE_def COPIED_VALUE_def STRIP_TAG_def TAG_VALUE_def TAG1_val DOES_NOT_EXIST_def)

lemma hti_copy_entry_tombstone:
  assumes "p < length (ht_store s)" and "t = ht_store s ! p" and "hti_next t \<noteq> None" and "tsize t = 2 ^ hti_scale t"
    and "i < tsize t" and "tval t i = TOMBSTONE"
  shows "hti_copy_entry p i 0 (hti_next t) s = ret (True, upd_hti p (put_val i (- 1)) s)"
proof -
  have "TOMBSTONE OR TAG_VALUE 0 TAG1 = - 1" using sealed_tombstone(1) by (simp add: or_TAG1)
  then show ?thesis
    using assms sealed_tombstone
    by (subst hti_copy_entry.simps) (simp add: SYNC_FETCH_AND_OR_def DOES_NOT_EXIST_def Let_def)
qed

section \<open>Properties\<close>

text \<open>States for the witnesses: a new table, and one whose copy has begun.\<close>

definition ht_new :: hashtable_t where
  "ht_new = (case ht_alloc None 0 of Some (Inr s) \<Rightarrow> s | _ \<Rightarrow> undefined)"

lemma ht_new_ok: "ht_alloc None 0 = ret ht_new" "ht_inv ht_new" "ht_quiet ht_new" "ht_abs ht_new = Map.empty" "top_scale ht_new = 4"
  "ht_hti ht_new = 0" "length (ht_store ht_new) = 1" "hti_ref_count (ht_store ht_new ! 0) = 1" "ht_deferred ht_new = []"
proof -
  obtain s where s: "ht_alloc None 0 = ret s" "ht_inv s" "ht_quiet s" "ht_abs s = Map.empty" "top_scale s = 4"
    "ht_hti s = 0" "length (ht_store s) = 1" "hti_ref_count (ht_store s ! 0) = 1" "ht_deferred s = []"
    using ht_alloc_ok by blast
  then have "ht_new = s" by (simp add: ht_new_def ret_def)
  then show "ht_alloc None 0 = ret ht_new" "ht_inv ht_new" "ht_quiet ht_new" "ht_abs ht_new = Map.empty" "top_scale ht_new = 4"
    "ht_hti ht_new = 0" "length (ht_store ht_new) = 1" "hti_ref_count (ht_store ht_new ! 0) = 1" "ht_deferred ht_new = []"
    using s by simp_all
qed

lemma ht_new_copying: "\<exists>s. hti_start_copy 0 ht_new = ret s \<and> ht_inv s \<and> ht_hti s = 0 \<and> length (ht_store s) = 2 \<and> top_scale s \<le> 5"
proof -
  have c: "core 0 ht_new" "Suc 0 = length (ht_store ht_new)" using ht_new_ok by (simp_all add: ht_inv_def)
  moreover have "hti_scale (ht_store ht_new ! 0) = 4"
    using ht_new_ok(5,7) by (cases "ht_store ht_new") (auto simp: top_scale_def)
  ultimately obtain s where s: "hti_start_copy 0 ht_new = ret s" "core 0 s" "frame {} ht_new s" "top_scale s \<le> 5"
    "length (ht_store s) = 2"
    using hti_start_copy_ok [of 0 ht_new 0] ht_new_ok(5) by (auto simp del: One_nat_def)
  have "settled (ht_hti ht_new) ht_new s" using frame_settled [OF s(3,2)] ht_new_ok(6) by simp
  then show ?thesis using settled_ht_inv [OF _ ht_new_ok(2)] s ht_new_ok(6) by auto
qed

lemma ht_one_binding: "\<exists>s. ht_cas ht_new 1 CAS_EXPECT_WHATEVER 7 = ret (0, s) \<and> ht_inv s \<and> ht_abs s = [1 \<mapsto> 7]"
  using ht_cas_ok [of ht_new 1 7 CAS_EXPECT_WHATEVER] ht_new_ok
  by (auto simp: tagged_def IS_TAGGED_def TAG1_val cas_expect_defs TOMBSTONE_def STRIP_TAG_def DOES_NOT_EXIST_def cas_applies_def cas_result_def)

text \<open>C1: the hash table implements a map. Keys are integers other than 0 and values those that can be
  stored. On any state that satisfies the invariant, tables that are being copied and entries whose copy is half done included, and while the newest table has at most
  \<open>2 ^ 20\<close> entries: \<^verbatim>\<open>ht_get\<close> returns the binding of the key, finishing the copy of its entry
  where needed, and the map is unchanged; \<^verbatim>\<open>ht_cas\<close> returns the old binding and binds the key
  to the new value exactly when the expectation is met, a specific expected value being compared;
  \<^verbatim>\<open>ht_remove\<close> returns the old binding and removes it. No other key is affected, every call
  returns without a failed assertion, and the invariant holds after it.\<close>

theorem ht_refines_map:
  assumes "ht_inv s" and "k \<noteq> 0" and "v \<in> ht_vals" and "e \<noteq> TOMBSTONE" and "top_scale s \<le> 20"
  shows "(\<exists>s'. ht_get s k = ret (found_val (ht_abs s k), s') \<and> ht_inv s' \<and> ht_abs s' = ht_abs s)
    \<and> (\<exists>s'. ht_cas s k e v = ret (found_val (ht_abs s k), s') \<and> ht_inv s' \<and>
        ht_abs s' = (if cas_applies e (ht_abs s k) then (ht_abs s)(k \<mapsto> v) else ht_abs s))
    \<and> (\<exists>s'. ht_remove s k = ret (found_val (ht_abs s k), s') \<and> ht_inv s' \<and> ht_abs s' = (ht_abs s)(k := None))"
proof -
  have v: "\<not> tagged v" "v \<noteq> 0" "v \<noteq> TOMBSTONE" using assms(3) by (simp_all add: ht_vals_def DOES_NOT_EXIST_def)
  have "(ht_abs s)(k := cas_result e v (ht_abs s k)) = (if cas_applies e (ht_abs s k) then (ht_abs s)(k \<mapsto> v) else ht_abs s)"
    using v(2) by (simp add: cas_result_def)
  moreover have "top_scale s \<le> 29" "top_scale s \<le> 28" using assms(5) by simp_all
  ultimately show ?thesis
    using ht_get_ok [OF assms(1,2)] ht_cas_ok [OF assms(1,2) v assms(4,5)] ht_remove_ok [OF assms(1,2)] by metis
qed

theorem ht_refines_map_witness:
  "\<exists>s'. ht_cas ht_new 1 CAS_EXPECT_WHATEVER 7 = ret (0, s') \<and> ht_inv s' \<and> ht_abs s' = [1 \<mapsto> 7]"
  using ht_refines_map [of ht_new 1 7 CAS_EXPECT_WHATEVER] ht_new_ok
  by (simp add: ht_vals_def tagged_def IS_TAGGED_def TAG1_val cas_expect_defs TOMBSTONE_def STRIP_TAG_def DOES_NOT_EXIST_def
      cas_applies_def)

text \<open>A hash table with integer keys, used through the generic interface: \<^verbatim>\<open>map_set\<close>
  followed by \<^verbatim>\<open>map_get\<close> gives the new value, \<^verbatim>\<open>map_remove\<close> followed by
  \<^verbatim>\<open>map_get\<close> gives \<^verbatim>\<open>DOES_NOT_EXIST\<close>, and \<^verbatim>\<open>map_cas\<close> with an expected
  value that is not one of the special expectations changes the binding if it is that value and
  leaves the table unchanged otherwise; other keys keep their bindings.\<close>

lemma ht_generic_map:
  assumes "ht_inv s" and "ht_quiet s" and "k \<noteq> 0" and "v \<in> ht_vals" and "top_scale s \<le> 20"
  shows "(\<exists>s1 s2. map_set ht_impl s k v = ret (found_val (ht_abs s k), s1) \<and> map_get ht_impl s1 k = ret (v, s2) \<and>
        (\<forall>k'. k' \<noteq> 0 \<longrightarrow> ht_abs s2 k' = (if k' = k then Some v else ht_abs s k')))
    \<and> (\<exists>s1 s2. map_remove ht_impl s k = ret (found_val (ht_abs s k), s1) \<and> map_get ht_impl s1 k = ret (0, s2) \<and>
        (\<forall>k'. k' \<noteq> 0 \<longrightarrow> ht_abs s2 k' = (if k' = k then None else ht_abs s k')))
    \<and> (\<forall>e \<in> ht_vals. \<exists>s1. map_cas ht_impl s k e v = ret (found_val (ht_abs s k), s1) \<and>
        (\<forall>k'. k' \<noteq> 0 \<longrightarrow> ht_abs s1 k' = (if k' = k \<and> ht_abs s k = Some e then Some v else ht_abs s k')))"
proof -
  have st: "ht_stable s" and k: "k \<in> {k. k \<noteq> 0}" and r: "0 < ht_room s" using assms by (simp_all add: ht_room_pos)
  have "\<exists>s1. map_cas ht_impl s k e v = ret (found_val (ht_abs s k), s1) \<and>
        (\<forall>k'. k' \<noteq> 0 \<longrightarrow> ht_abs s1 k' = (if k' = k \<and> ht_abs s k = Some e then Some v else ht_abs s k'))" if e: "e \<in> ht_vals" for e
  proof -
    have "\<not> tagged e" "e \<noteq> 0" using e by (simp_all add: ht_vals_def DOES_NOT_EXIST_def)
    then have "cas_applies e (ht_abs s k) \<longleftrightarrow> ht_abs s k = Some e"
      by (auto simp: cas_applies_def cas_expect_defs tagged_bit split: option.split)
    then show ?thesis
      using htm.cas_total [OF st k assms(4) r, of e] e by (fastforce simp: bind_key_def ht_vals_def)
  qed
  moreover note htm.set_then_get [OF st k assms(4) r] htm.remove_then_get [OF st k r]
  ultimately show ?thesis by (fastforce simp: bind_key_def)
qed

text \<open>C21: in every state that satisfies the invariant, also while tables are being copied and while the copy
  of an entry is half done, \<^verbatim>\<open>ht_count\<close>, which adds up the counters of all the tables of the chain, returns
  the number of keys that are bound.\<close>

theorem ht_count_correct:
  assumes "ht_inv s"
  shows "ht_count s = ret (of_nat (card (dom (ht_abs s))))"
  by (rule ht_count_ok [OF assms])

theorem ht_count_correct_witness:
  "\<exists>s. ht_cas ht_new 1 CAS_EXPECT_WHATEVER 7 = ret (0, s) \<and> ht_abs s = [1 \<mapsto> 7] \<and> ht_count s = ret 1"
proof -
  obtain s where s: "ht_cas ht_new 1 CAS_EXPECT_WHATEVER 7 = ret (0, s)" "ht_inv s" "ht_abs s = [1 \<mapsto> 7]" using ht_one_binding by blast
  then show ?thesis using ht_count_correct [OF s(2)] by auto
qed

text \<open>At most \<open>n\<close> calls of \<^verbatim>\<open>hti_help_copy\<close>, up to the first that reports that the copy is finished.\<close>

primrec hti_help_calls :: "nat \<Rightarrow> nat \<Rightarrow> hashtable_t \<Rightarrow> (bool \<times> hashtable_t) prog" where
  "hti_help_calls 0 p s = ret (False, s)"
| "hti_help_calls (Suc n) p s = pbind (hti_help_copy p s) (\<lambda>(finished, s). if finished then ret (True, s) else hti_help_calls n p s)"

lemma hti_help_step:
  assumes "ht_inv s" and "ht_hti s \<le> p" and "Suc p < length (ht_store s)" and "top_scale s \<le> 22"
  shows "\<exists>s'. hti_help_copy p s = ret (all_sealed (ht_store s' ! p), s') \<and> ht_inv s' \<and> ht_abs s' = ht_abs s \<and> ht_hti s' = ht_hti s \<and>
    length (ht_store s) \<le> length (ht_store s') \<and> tsize (ht_store s' ! p) = tsize (ht_store s ! p) \<and> (all_sealed (ht_store s ! p) \<longrightarrow> all_sealed (ht_store s' ! p)) \<and>
    (\<not> all_sealed (ht_store s ! p) \<longrightarrow> unat (hti_copy_scan (ht_store s ! p)) < 2 * tsize (ht_store s ! p) \<and>
       unat (hti_copy_scan (ht_store s' ! p)) = unat (hti_copy_scan (ht_store s ! p)) + 8)"
proof -
  let ?t = "ht_store s ! p"
  have c: "core (ht_hti s) s" "chain_ok (ht_hti s) (ht_store s)" "prog_ok ?t"
    using assms(1-3) by (auto simp: ht_inv_def core_def inv_from_def)
  have wf: "wf_table ?t" using chain_okD(4) [OF c(2) assms(2)] assms(3) by simp
  obtain s' where s': "hti_help_copy p s = ret (all_sealed (ht_store s' ! p), s')" "helped (ht_hti s) s p s'"
    using hti_help_copy_ok [OF c(1) assms(2,3) c(3) assms(4)] by blast
  then have h: "settled (ht_hti s) s s'" "ht_bound (ht_hti s) s' = ht_bound (ht_hti s) s"
    "\<not> all_sealed ?t \<Longrightarrow> hti_copy_scan (ht_store s' ! p) = hti_copy_scan ?t + 8"
    by (simp_all add: helped_def)
  have "length (ht_store s) \<le> length (ht_store s')" "tsize (ht_store s' ! p) = tsize ?t" "all_sealed ?t \<longrightarrow> all_sealed (ht_store s' ! p)"
    using h(1) assms(3) by (simp_all add: settled_def tab_settled_def all_sealed_def)
  moreover have "unat (hti_copy_scan ?t) < 2 * tsize ?t \<and> unat (hti_copy_scan (ht_store s' ! p)) = unat (hti_copy_scan ?t) + 8"
    if "\<not> all_sealed ?t"
    using prog_ok_chunk(1,3) [OF c(3) wf that refl refl] h(3) [OF that] by simp
  ultimately show ?thesis
    using s'(1) settled_ht_inv [OF h(1) assms(1)] h(2) by (auto simp: ht_abs_def)
qed

lemma hti_help_calls_ok:
  assumes "ht_inv s" and "ht_hti s \<le> p" and "Suc p < length (ht_store s)" and "top_scale s \<le> 22" and "\<not> all_sealed (ht_store s ! p)"
  shows "\<exists>n finished s'. n \<le> tsize (ht_store s ! p) div 4 - unat (hti_copy_scan (ht_store s ! p)) div 8 \<and> hti_help_calls n p s = ret (finished, s') \<and>
    ht_inv s' \<and> ht_abs s' = ht_abs s \<and> (if finished then all_sealed (ht_store s' ! p) else 22 < top_scale s')"
  using assms
proof (induction "2 * tsize (ht_store s ! p) - unat (hti_copy_scan (ht_store s ! p))" arbitrary: s rule: less_induct)
  case less
  let ?t = "ht_store s ! p"
  have t: "prog_ok ?t" "wf_table ?t"
    using less.prems(1-3) chain_okD(4) [of "ht_hti s" "ht_store s" p] by (auto simp: ht_inv_def core_def inv_from_def)
  have sz: "8 dvd tsize ?t" "8 dvd unat (hti_copy_scan ?t)" using wf_size(3) [OF t(2)] t(1) by (simp_all add: prog_ok_def)
  obtain s1 where s1: "hti_help_copy p s = ret (all_sealed (ht_store s1 ! p), s1)" "ht_inv s1" "ht_abs s1 = ht_abs s" "ht_hti s1 = ht_hti s"
    "length (ht_store s) \<le> length (ht_store s1)" "tsize (ht_store s1 ! p) = tsize ?t"
    "unat (hti_copy_scan ?t) < 2 * tsize ?t" "unat (hti_copy_scan (ht_store s1 ! p)) = unat (hti_copy_scan ?t) + 8"
    using hti_help_step [OF less.prems(1-4)] less.prems(5) by blast
  obtain u v where uv: "tsize ?t = 8 * u" "unat (hti_copy_scan ?t) = 8 * v" using sz by (auto elim!: dvdE)
  then have lt: "Suc v \<le> 2 * u" "tsize ?t div 4 = 2 * u" "unat (hti_copy_scan ?t) div 8 = v" "unat (hti_copy_scan (ht_store s1 ! p)) div 8 = Suc v" using s1(7,8) by simp_all
  consider (finished) "all_sealed (ht_store s1 ! p)" | (grown) "\<not> all_sealed (ht_store s1 ! p)" "22 < top_scale s1" | (more) "\<not> all_sealed (ht_store s1 ! p)" "top_scale s1 \<le> 22" by linarith
  then show ?case
  proof cases
    case finished
    then have "hti_help_calls 1 p s = ret (True, s1)" using s1(1) by simp
    then show ?thesis using finished s1(2,3) lt by (intro exI [of _ 1] exI [of _ True] exI [of _ s1]) simp
  next
    case grown
    then have "hti_help_calls 1 p s = ret (False, s1)" using s1(1) by simp
    then show ?thesis using grown s1(2,3) lt by (intro exI [of _ 1] exI [of _ False] exI [of _ s1]) simp
  next
    case more
    have "2 * tsize (ht_store s1 ! p) - unat (hti_copy_scan (ht_store s1 ! p)) < 2 * tsize ?t - unat (hti_copy_scan ?t)" using s1(6-8) by simp
    from less.hyps [OF this s1(2) _ _ more(2,1)] obtain n finished s' where
      n: "n \<le> 2 * u - Suc v" "hti_help_calls n p s1 = ret (finished, s')" "ht_inv s'" "ht_abs s' = ht_abs s1" "if finished then all_sealed (ht_store s' ! p) else 22 < top_scale s'"
      using s1(4-6) less.prems(2,3) lt by auto
    have "hti_help_calls (Suc n) p s = ret (finished, s')" using n(2) s1(1) more(1) by simp
    then show ?thesis using n s1(3) lt by (intro exI [of _ "Suc n"] exI [of _ finished] exI [of _ s']) auto
  qed
qed

text \<open>C20: helping a copy makes progress and finishes. While a table is being copied and the newest table has at most
  \<open>2 ^ 22\<close> entries, \<^verbatim>\<open>hti_help_copy\<close> returns, keeps the map and the invariant, and reports that the copy is
  finished exactly when every entry of the table is sealed. If an entry was not yet sealed, \<^verbatim>\<open>copy_scan\<close> was
  less than twice the size of the table and has advanced by a chunk of eight. Called again and again, it reports that the
  copy is finished after at most a quarter as many calls as the table has entries, unless the calls have made the newest
  table larger than that bound.\<close>

theorem hti_help_copy_progress:
  assumes "ht_inv s" and "ht_hti s \<le> p" and "Suc p < length (ht_store s)" and "top_scale s \<le> 22"
  shows "(\<exists>s'. hti_help_copy p s = ret (all_sealed (ht_store s' ! p), s') \<and> ht_inv s' \<and> ht_abs s' = ht_abs s \<and>
      (\<not> all_sealed (ht_store s ! p) \<longrightarrow> unat (hti_copy_scan (ht_store s ! p)) < 2 * tsize (ht_store s ! p) \<and>
         unat (hti_copy_scan (ht_store s' ! p)) = unat (hti_copy_scan (ht_store s ! p)) + 8)) \<and>
    (\<exists>n finished s'. n \<le> tsize (ht_store s ! p) div 4 \<and> hti_help_calls n p s = ret (finished, s') \<and> ht_inv s' \<and> ht_abs s' = ht_abs s \<and>
      (if finished then all_sealed (ht_store s' ! p) else 22 < top_scale s'))"
proof -
  let ?t = "ht_store s ! p"
  obtain s' where s': "hti_help_copy p s = ret (all_sealed (ht_store s' ! p), s')" "ht_inv s'" "ht_abs s' = ht_abs s"
    "\<not> all_sealed ?t \<longrightarrow> unat (hti_copy_scan ?t) < 2 * tsize ?t \<and> unat (hti_copy_scan (ht_store s' ! p)) = unat (hti_copy_scan ?t) + 8"
    using hti_help_step [OF assms] by blast
  have "\<exists>n finished s'. n \<le> tsize ?t div 4 \<and> hti_help_calls n p s = ret (finished, s') \<and> ht_inv s' \<and> ht_abs s' = ht_abs s \<and>
      (if finished then all_sealed (ht_store s' ! p) else 22 < top_scale s')"
  proof (cases "all_sealed ?t")
    case True
    have c: "core (ht_hti s) s" "prog_ok ?t" "wf_table ?t"
      using assms(1-3) chain_okD(4) [of "ht_hti s" "ht_store s" p] by (auto simp: ht_inv_def core_def inv_from_def)
    obtain s1 where s1: "hti_help_copy p s = ret (True, s1)" "ht_inv s1" "ht_abs s1 = ht_abs s" "all_sealed (ht_store s1 ! p)"
      using hti_help_step [OF assms] True by auto
    then have "hti_help_calls 1 p s = ret (True, s1)" by simp
    moreover have "1 \<le> tsize ?t div 4" using wf_size(1) [OF c(3)] by simp
    ultimately show ?thesis using s1 by (intro exI [of _ 1] exI [of _ True] exI [of _ s1]) simp
  next
    case False
    then show ?thesis using hti_help_calls_ok [OF assms False] by (meson diff_le_self order_trans)
  qed
  then show ?thesis using s' by blast
qed

text \<open>\<^verbatim>\<open>ht_free\<close> on a table that no iterator holds and with no copy half done: no assertion
  fails, and every table of the chain is handed over for reclamation exactly once, before the table
  itself is freed.\<close>

lemma ht_free_correct:
  assumes "ht_inv s" and "ht_quiet s" and "\<forall>t \<in> set (ht_store s). hti_ref_count t = 1" and "ht_deferred s = []"
  shows "\<exists>s'. ht_free s = ret s' \<and>
    ht_deferred s' = concat (map (\<lambda>r. [Freed_Table r, Freed_Hti r]) [ht_hti s..<length (ht_store s)]) @ [Freed_Ht]"
proof -
  have c: "ht_hti s < length (ht_store s)" "ht_key_type s = None" "chain_ok (ht_hti s) (ht_store s)"
    using assms(1) by (simp_all add: ht_inv_def core_def)
  have "\<exists>s'. ht_free_loop (ht_hti s) s = ret s' \<and>
    ht_deferred s' = ht_deferred s @ concat (map (\<lambda>r. [Freed_Table r, Freed_Hti r]) [ht_hti s..<length (ht_store s)])"
    by (rule ht_free_loop_ok) (use c assms chain_okD(2) [OF c(3)] in \<open>auto simp: ht_quiet_def quiet_from_def\<close>)
  then show ?thesis using assms(4) by (auto simp: ht_free_def ht_defer_def)
qed

text \<open>C22: iteration when no copy is in progress. From \<^verbatim>\<open>ht_iter_begin\<close> on, calls of
  \<^verbatim>\<open>ht_iter_next\<close> give each binding of the map exactly once and then the end, and
  \<^verbatim>\<open>ht_iter_free\<close> then restores the table, reference count included.\<close>

theorem ht_iterates_bindings:
  assumes "ht_inv s" and "Suc (ht_hti s) = length (ht_store s)" and "card (dom (ht_abs s)) < n"
  shows "\<exists>it1 s1 xs it2. ht_iter_begin s key = ret (it1, s1) \<and> ht_iter_run n it1 s1 = ret (xs, it2, s1) \<and>
    ht_iter_free it2 s1 = ret s \<and> map_of xs = ht_abs s \<and> distinct (map fst xs)"
  by (rule ht_iterate_ok [OF assms])

theorem ht_iterates_bindings_witness:
  "\<exists>it1 s1 it2. ht_iter_begin ht_new 0 = ret (it1, s1) \<and> ht_iter_run 5 it1 s1 = ret ([], it2, s1) \<and> ht_iter_free it2 s1 = ret ht_new"
  using ht_iterates_bindings [of ht_new 5 0] ht_new_ok by auto

theorem hti_help_copy_progress_witness:
  "\<exists>s s' b. hti_start_copy 0 ht_new = ret s \<and> hti_help_copy 0 s = ret (b, s') \<and> ht_abs s' = ht_abs s"
proof -
  obtain s where s: "hti_start_copy 0 ht_new = ret s" "ht_inv s" "ht_hti s = 0" "length (ht_store s) = 2" "top_scale s \<le> 5"
    using ht_new_copying by blast
  then show ?thesis using hti_help_copy_progress [of s 0] by auto
qed

text \<open>An iterator that is still open when its table is copied returns a value for a removed key.
  \<^verbatim>\<open>hti_copy_entry\<close> seals the entry of a removed key by tagging the tombstone; the loop of
  \<^verbatim>\<open>ht_iter_next\<close> skips the untagged tombstone only, so that the entry is then reported as bound
  to \<open>- 1\<close>, which is not a value that can be stored.\<close>

lemma ht_iter_next_reports_sealed_tombstone:
  assumes "it_hti it < length (ht_store s)" and "t = ht_store s ! it_hti it" and "ht_key_type s = None" and "hti_next t \<noteq> None"
    and "tsize t = 2 ^ hti_scale t" and "it_idx it + 1 = int i" and "i < tsize t" and "tkey t i \<noteq> 0" and "tval t i = TOMBSTONE"
  shows "\<exists>s1. hti_copy_entry (it_hti it) i 0 (hti_next t) s = ret (True, s1) \<and>
    ht_iter_next it s1 = ret (- 1, Some (tkey t i), it\<lparr>it_idx := int i\<rparr>, s1) \<and> - 1 \<notin> ht_vals"
proof -
  let ?p = "it_hti it"
  let ?u = "put_val i (- 1) t"
  let ?s1 = "upd_hti ?p (put_val i (- 1)) s"
  have u: "ht_store ?s1 ! ?p = ?u" "?p < length (ht_store ?s1)" "ht_key_type ?s1 = None" "tsize ?u = tsize t" "tkey ?u i = tkey t i"
    "tval ?u i = - 1" "hti_scale ?u = hti_scale t"
    using assms by simp_all
  have idx: "int i \<noteq> 2 ^ hti_scale t"
  proof
    assume "int i = 2 ^ hti_scale t"
    then have "int i = int (tsize t)" using assms(5) by simp
    then show False using assms(7) by simp
  qed
  have "ht_iter_scan it ?s1 = ret (Some (tkey t i, hti_table ?u ! i), it\<lparr>it_idx := int i\<rparr>)"
    unfolding ht_iter_scan.simps [of it] hti_at_ok [OF u(2)] pbind_ret u(1) Let_def
    using u(3-7) assms(6-8) idx sealed_tombstone(2) by (simp add: DOES_NOT_EXIST_def)
  then have "ht_iter_next it ?s1 = ret (- 1, Some (tkey t i), it\<lparr>it_idx := int i\<rparr>, ?s1)"
    using u(6) sealed_tombstone(3) by (subst ht_iter_next.simps) simp
  then show ?thesis using hti_copy_entry_tombstone [OF assms(1,2,4,5,7,9)] by (simp add: ht_vals_def tagged_bit)
qed

end
