(* ===== verification/Hazard.thy ===== *)
theory Hazard
  imports Common
begin

text \<open>
  Model of \<^verbatim>\<open>src/src/runtime/hazard.c\<close>: hazard pointers. A thread announces the addresses it
  is using in its hazard slots; \<^verbatim>\<open>haz_defer_free\<close> keeps an address on the thread's pending
  list, and when the list is full frees the pending addresses that are in no slot of any thread.

  The file's static array is \<open>hz_local\<close>; the thread id is an argument of the functions. A hazard
  slot is one of the static slots of a thread or a cell of memory a client has registered, whose
  content is \<open>hz_mem\<close>. \<open>hz_freed\<close> records the calls of the clients' free functions. Array elements
  that have not been written are \<^const>\<open>None\<close>. \<^verbatim>\<open>sort_hazards\<close> does nothing.
\<close>

section \<open>Data\<close>

definition STATIC_HAZ_PER_THREAD :: nat where "STATIC_HAZ_PER_THREAD = 2"

type_synonym haz_t = addr

datatype haz_ptr = Null_Haz | Static_Haz nat nat | Dynamic_Haz addr

record pending_t =
  pd_ptr :: addr
  pd_free :: addr

record haz_local_t =
  hl_pending :: "pending_t option list"
  hl_pending_size :: nat
  hl_pending_count :: nat
  hl_static_haz :: "haz_t list"
  hl_dynamic :: "haz_ptr option list"
  hl_dynamic_size :: nat
  hl_dynamic_count :: nat

record haz_state =
  hz_local :: "haz_local_t list"
  hz_mem :: "addr \<Rightarrow> haz_t option"
  hz_freed :: "pending_t list"

definition haz_static_init :: "haz_state" where
  "haz_static_init = \<lparr>hz_local = replicate MAX_NUM_THREADS
     \<lparr>hl_pending = [], hl_pending_size = 0, hl_pending_count = 0, hl_static_haz = replicate STATIC_HAZ_PER_THREAD NULL,
      hl_dynamic = [], hl_dynamic_size = 0, hl_dynamic_count = 0\<rparr>, hz_mem = (\<lambda>_. None), hz_freed = []\<rparr>"

text \<open>\<^verbatim>\<open>haz_local_ + ThreadId\<close>, read and written.\<close>

definition haz_local :: "haz_state \<Rightarrow> nat \<Rightarrow> haz_local_t prog" where
  "haz_local s ThreadId = (if ThreadId < length (hz_local s) then ret (hz_local s ! ThreadId) else fail Out_Of_Bounds)"

definition haz_put :: "nat \<Rightarrow> haz_local_t \<Rightarrow> haz_state \<Rightarrow> haz_state" where
  "haz_put ThreadId l s = s\<lparr>hz_local := (hz_local s)[ThreadId := l]\<rparr>"

text \<open>An element of an array.\<close>

definition cell :: "'a option list \<Rightarrow> nat \<Rightarrow> 'a prog" where
  "cell xs i = (if i < length xs then case xs ! i of None \<Rightarrow> fail Undefined_Behaviour | Some x \<Rightarrow> ret x else fail Out_Of_Bounds)"

definition put_cell :: "'a option list \<Rightarrow> nat \<Rightarrow> 'a \<Rightarrow> 'a option list prog" where
  "put_cell xs i x = (if i < length xs then ret (xs[i := Some x]) else fail Out_Of_Bounds)"

definition haz_deref :: "haz_state \<Rightarrow> haz_ptr \<Rightarrow> haz_t prog" where
  "haz_deref s haz = (case haz of
      Null_Haz \<Rightarrow> fail Null_Deref
    | Static_Haz t i \<Rightarrow> pbind (haz_local s t) (\<lambda>l. if i < length (hl_static_haz l) then ret (hl_static_haz l ! i) else fail Out_Of_Bounds)
    | Dynamic_Haz a \<Rightarrow> (case hz_mem s a of None \<Rightarrow> fail Null_Deref | Some x \<Rightarrow> ret x))"

section \<open>Operations\<close>

definition haz_set :: "haz_ptr \<Rightarrow> addr \<Rightarrow> haz_state \<Rightarrow> haz_state prog" where
  "haz_set haz x s =
     pbind (haz_deref s haz) (\<lambda>_. case haz of
       Null_Haz \<Rightarrow> fail Null_Deref
     | Static_Haz t i \<Rightarrow> ret (haz_put t ((hz_local s ! t)\<lparr>hl_static_haz := (hl_static_haz (hz_local s ! t))[i := x]\<rparr>) s)
     | Dynamic_Haz a \<Rightarrow> ret (s\<lparr>hz_mem := (hz_mem s)(a \<mapsto> x)\<rparr>))"

primrec search_hazards_loop :: "addr \<Rightarrow> haz_t list \<Rightarrow> nat \<Rightarrow> nat \<Rightarrow> bool" where
  "search_hazards_loop p hazards i 0 = False"
| "search_hazards_loop p hazards i (Suc n) = (if hazards ! i = p then True else search_hazards_loop p hazards (i + 1) n)"

definition search_hazards :: "addr \<Rightarrow> haz_t list \<Rightarrow> nat \<Rightarrow> bool" where
  "search_hazards p hazards n = search_hazards_loop p hazards 0 n"

text \<open>\<^verbatim>\<open>memcpy\<close> copies as many bytes as the old array has elements, and an element takes 16 bytes.
  The size is a multiple of 64, so the bytes are those of whole elements.\<close>

definition resize_pending :: "nat \<Rightarrow> haz_state \<Rightarrow> haz_state prog" where
  "resize_pending ThreadId s =
     pbind (haz_local s ThreadId) (\<lambda>l.
     let p = take (hl_pending_size l div 16) (hl_pending l) @ replicate (hl_pending_size l * 2 - hl_pending_size l div 16) None
     in ret (haz_put ThreadId (l\<lparr>hl_pending := p, hl_pending_size := hl_pending_size l * 2\<rparr>) s))"

text \<open>The scan for hazard pointers. The array \<^verbatim>\<open>hazards\<close> has room for \<open>pending_size\<close> addresses;
  the result is \<^const>\<open>None\<close> when it is too small.\<close>

primrec haz_scan_static :: "nat \<Rightarrow> haz_t list \<Rightarrow> haz_t list \<Rightarrow> haz_t list option" where
  "haz_scan_static pending_size [] hazards = Some hazards"
| "haz_scan_static pending_size (x # xs) hazards =
     (if x \<noteq> NULL then
        if length hazards = pending_size then None else haz_scan_static pending_size xs (hazards @ [x])
      else haz_scan_static pending_size xs hazards)"

primrec haz_scan_dynamic :: "nat \<Rightarrow> haz_state \<Rightarrow> haz_ptr option list \<Rightarrow> nat \<Rightarrow> nat \<Rightarrow> haz_t list \<Rightarrow> haz_t list option prog" where
  "haz_scan_dynamic pending_size s dynamic j 0 hazards = ret (Some hazards)"
| "haz_scan_dynamic pending_size s dynamic j (Suc n) hazards =
     pbind (cell dynamic j) (\<lambda>q.
     if q = Null_Haz then haz_scan_dynamic pending_size s dynamic (j + 1) n hazards
     else
       pbind (haz_deref s q) (\<lambda>x.
       if x \<noteq> NULL then
         if length hazards = pending_size then ret None
         else haz_scan_dynamic pending_size s dynamic (j + 1) n (hazards @ [x])
       else haz_scan_dynamic pending_size s dynamic (j + 1) n hazards))"

primrec haz_scan :: "nat \<Rightarrow> haz_state \<Rightarrow> haz_local_t list \<Rightarrow> haz_t list \<Rightarrow> haz_t list option prog" where
  "haz_scan pending_size s [] hazards = ret (Some hazards)"
| "haz_scan pending_size s (h # hs) hazards =
     (case haz_scan_static pending_size (hl_static_haz h) hazards of
        None \<Rightarrow> ret None
      | Some hazards \<Rightarrow>
          pbind (haz_scan_dynamic pending_size s (hl_dynamic h) 0 (hl_dynamic_count h) hazards) (\<lambda>r. case r of
            None \<Rightarrow> ret None
          | Some hazards \<Rightarrow> haz_scan pending_size s hs hazards))"

text \<open>The check for conflicts, over \<open>n\<close> pending elements from \<open>i\<close> on; the result holds the pending array,
  the number of conflicts and the elements freed.\<close>

primrec haz_check :: "haz_t list \<Rightarrow> nat \<Rightarrow> nat \<Rightarrow> nat \<Rightarrow> pending_t option list \<Rightarrow> pending_t list \<Rightarrow>
    (pending_t option list \<times> nat \<times> pending_t list) prog" where
  "haz_check hazards i 0 conflicts_count pending freed = ret (pending, conflicts_count, freed)"
| "haz_check hazards i (Suc n) conflicts_count pending freed =
     pbind (cell pending i) (\<lambda>p.
     if search_hazards (pd_ptr p) hazards (length hazards) then
       pbind (put_cell pending conflicts_count p) (\<lambda>pending. haz_check hazards (i + 1) n (conflicts_count + 1) pending freed)
     else
       pbind (passert (pd_free p \<noteq> NULL)) (\<lambda>_.
       pbind (passert (pd_ptr p \<noteq> NULL)) (\<lambda>_.
       haz_check hazards (i + 1) n conflicts_count pending (freed @ [p]))))"

text \<open>The loop of \<^verbatim>\<open>haz_defer_free\<close>; the result says whether the call has to start over with a
  resized list.\<close>

partial_function (option) haz_reclaim :: "nat \<Rightarrow> haz_state \<Rightarrow> (bool \<times> haz_state) prog" where
  "haz_reclaim ThreadId s =
     pbind (haz_local s ThreadId) (\<lambda>l.
     if hl_pending_count l \<noteq> hl_pending_size l then ret (False, s)
     else if hl_pending_size l = 0 then
       let n = MAX_NUM_THREADS * STATIC_HAZ_PER_THREAD
       in ret (False, haz_put ThreadId (l\<lparr>hl_pending_size := n, hl_pending := replicate n None\<rparr>) s)
     else
       pbind (haz_scan (hl_pending_size l) s (hz_local s) []) (\<lambda>r. case r of
         None \<Rightarrow> pbind (resize_pending ThreadId s) (\<lambda>s. ret (True, s))
       | Some hazards \<Rightarrow>
           pbind (haz_check hazards 0 (hl_pending_count l) 0 (hl_pending l) []) (\<lambda>(pending, conflicts_count, freed).
           haz_reclaim ThreadId
             ((haz_put ThreadId (l\<lparr>hl_pending := pending, hl_pending_count := conflicts_count\<rparr>) s)
               \<lparr>hz_freed := hz_freed s @ freed\<rparr>))))"

partial_function (option) haz_defer_free :: "nat \<Rightarrow> addr \<Rightarrow> addr \<Rightarrow> haz_state \<Rightarrow> haz_state prog" where
  "haz_defer_free ThreadId d f s =
     pbind (passert (d \<noteq> NULL)) (\<lambda>_.
     pbind (passert (f \<noteq> NULL)) (\<lambda>_.
     pbind (haz_reclaim ThreadId s) (\<lambda>(again, s).
     if again then haz_defer_free ThreadId d f s
     else
       pbind (haz_local s ThreadId) (\<lambda>l.
       pbind (passert (hl_pending_size l > hl_pending_count l)) (\<lambda>_.
       pbind (put_cell (hl_pending l) (hl_pending_count l) \<lparr>pd_ptr = d, pd_free = f\<rparr>) (\<lambda>pending.
       ret (haz_put ThreadId (l\<lparr>hl_pending := pending, hl_pending_count := hl_pending_count l + 1\<rparr>) s)))))))"

definition haz_get_static :: "nat \<Rightarrow> nat \<Rightarrow> haz_state \<Rightarrow> haz_ptr prog" where
  "haz_get_static ThreadId i s =
     (if i \<ge> STATIC_HAZ_PER_THREAD then ret Null_Haz
      else pbind (haz_local s ThreadId) (\<lambda>_. ret (Static_Haz ThreadId i)))"

text \<open>\<^verbatim>\<open>memcpy\<close> copies as many bytes as the old array has elements, and an element takes 8 bytes.\<close>

definition haz_register_dynamic :: "nat \<Rightarrow> haz_ptr \<Rightarrow> haz_state \<Rightarrow> haz_state prog" where
  "haz_register_dynamic ThreadId haz s =
     pbind (haz_local s ThreadId) (\<lambda>l.
     let n = MAX_NUM_THREADS * STATIC_HAZ_PER_THREAD;
         l = (if hl_dynamic_size l = 0 then l\<lparr>hl_dynamic := replicate n None, hl_dynamic_size := n\<rparr> else l);
         l = (if hl_dynamic_count l = hl_dynamic_size l
              then l\<lparr>hl_dynamic := take (hl_dynamic_size l div 8) (hl_dynamic l) @
                       replicate (hl_dynamic_size l * 2 - hl_dynamic_size l div 8) None,
                     hl_dynamic_size := hl_dynamic_size l * 2\<rparr>
              else l)
     in pbind (put_cell (hl_dynamic l) (hl_dynamic_count l) haz) (\<lambda>dynamic.
        ret (haz_put ThreadId (l\<lparr>hl_dynamic := dynamic, hl_dynamic_count := hl_dynamic_count l + 1\<rparr>) s)))"

text \<open>The loop of \<^verbatim>\<open>haz_unregister_dynamic\<close>, over \<open>n\<close> elements from \<open>i\<close> on.\<close>

primrec haz_unregister_loop :: "haz_ptr \<Rightarrow> nat \<Rightarrow> nat \<Rightarrow> haz_local_t \<Rightarrow> haz_local_t prog" where
  "haz_unregister_loop haz i 0 l = fail Assert_Failed"
| "haz_unregister_loop haz i (Suc n) l =
     pbind (cell (hl_dynamic l) i) (\<lambda>q.
     if q = haz then
       pbind (if i \<noteq> hl_dynamic_count l - 1
              then pbind (cell (hl_dynamic l) (hl_dynamic_count l - 1)) (\<lambda>x. put_cell (hl_dynamic l) i x)
              else ret (hl_dynamic l)) (\<lambda>dynamic.
       ret (l\<lparr>hl_dynamic := dynamic, hl_dynamic_count := hl_dynamic_count l - 1\<rparr>))
     else haz_unregister_loop haz (i + 1) n l)"

definition haz_unregister_dynamic :: "nat \<Rightarrow> haz_ptr \<Rightarrow> haz_state \<Rightarrow> haz_state prog" where
  "haz_unregister_dynamic ThreadId haz s =
     pbind (haz_local s ThreadId) (\<lambda>l.
     pbind (haz_unregister_loop haz 0 (hl_dynamic_count l) l) (\<lambda>l. ret (haz_put ThreadId l s)))"

lemmas haz_code [code] = haz_reclaim.simps haz_defer_free.simps

section \<open>Hazards and the invariant\<close>

definition slot_val :: "haz_state \<Rightarrow> haz_ptr \<Rightarrow> haz_t" where
  "slot_val s q = (case haz_deref s q of Some (Inr x) \<Rightarrow> x | _ \<Rightarrow> NULL)"

text \<open>The addresses a thread announces, and those all threads announce.\<close>

definition haz_of :: "haz_state \<Rightarrow> haz_local_t \<Rightarrow> haz_t list" where
  "haz_of s l = filter (\<lambda>x. x \<noteq> NULL) (hl_static_haz l) @
     filter (\<lambda>x. x \<noteq> NULL) (map (\<lambda>q. slot_val s (the q)) (take (hl_dynamic_count l) (hl_dynamic l)))"

definition haz_all :: "haz_state \<Rightarrow> haz_t list" where
  "haz_all s = concat (map (haz_of s) (hz_local s))"

definition pend :: "haz_local_t \<Rightarrow> pending_t list" where
  "pend l = map the (take (hl_pending_count l) (hl_pending l))"

definition haz_dyn_ok :: "haz_state \<Rightarrow> haz_local_t \<Rightarrow> bool" where
  "haz_dyn_ok s l \<longleftrightarrow> length (hl_dynamic l) = hl_dynamic_size l \<and> hl_dynamic_count l \<le> hl_dynamic_size l \<and>
     (\<forall>j < hl_dynamic_count l. \<exists>q. hl_dynamic l ! j = Some q \<and> (q = Null_Haz \<or> (\<exists>x. haz_deref s q = ret x)))"

definition haz_pend_ok :: "haz_local_t \<Rightarrow> bool" where
  "haz_pend_ok l \<longleftrightarrow> length (hl_pending l) = hl_pending_size l \<and> hl_pending_count l \<le> hl_pending_size l \<and>
     (\<forall>i < hl_pending_count l. \<exists>p. hl_pending l ! i = Some p \<and> pd_ptr p \<noteq> NULL \<and> pd_free p \<noteq> NULL)"

definition haz_ok :: "haz_state \<Rightarrow> bool" where
  "haz_ok s \<longleftrightarrow> length (hz_local s) = MAX_NUM_THREADS \<and>
     (\<forall>l \<in> set (hz_local s). haz_pend_ok l \<and> haz_dyn_ok s l \<and> length (hl_static_haz l) = STATIC_HAZ_PER_THREAD)"

lemma haz_pend_eq:
  assumes "haz_pend_ok l"
  shows "take (hl_pending_count l) (hl_pending l) = map Some (pend l)" and "length (pend l) = hl_pending_count l"
    and "p \<in> set (pend l) \<Longrightarrow> pd_ptr p \<noteq> NULL \<and> pd_free p \<noteq> NULL"
proof -
  have n: "hl_pending_count l \<le> length (hl_pending l)" using assms by (simp add: haz_pend_ok_def)
  show "length (pend l) = hl_pending_count l" using n by (simp add: pend_def)
  show "take (hl_pending_count l) (hl_pending l) = map Some (pend l)"
    using assms n by (intro nth_equalityI) (auto simp: pend_def haz_pend_ok_def)
  show "pd_ptr p \<noteq> NULL \<and> pd_free p \<noteq> NULL" if "p \<in> set (pend l)"
    using that assms n by (fastforce simp: pend_def haz_pend_ok_def in_set_conv_nth)
qed

text \<open>Calls of \<^verbatim>\<open>haz_defer_free\<close> change the pending lists only.\<close>

definition haz_view :: "haz_local_t \<Rightarrow> haz_local_t" where
  "haz_view l = l\<lparr>hl_pending := [], hl_pending_size := 0, hl_pending_count := 0\<rparr>"

definition haz_same :: "haz_state \<Rightarrow> haz_state \<Rightarrow> bool" where
  "haz_same s s' \<longleftrightarrow> map haz_view (hz_local s') = map haz_view (hz_local s) \<and> hz_mem s' = hz_mem s"

lemma haz_view_fields:
  assumes "haz_view l = haz_view l'"
  shows "hl_static_haz l = hl_static_haz l'" and "hl_dynamic l = hl_dynamic l'" and "hl_dynamic_count l = hl_dynamic_count l'"
    and "hl_dynamic_size l = hl_dynamic_size l'"
  using assms by (cases l; cases l'; simp add: haz_view_def)+

lemma haz_same_nth: "haz_same s s' \<Longrightarrow> t < length (hz_local s) \<Longrightarrow> haz_view (hz_local s' ! t) = haz_view (hz_local s ! t)"
  unfolding haz_same_def by (metis length_map nth_map)

lemma haz_same_length: "haz_same s s' \<Longrightarrow> length (hz_local s') = length (hz_local s)"
  unfolding haz_same_def by (metis length_map)

lemma haz_same_deref: "haz_same s s' \<Longrightarrow> haz_deref s' q = haz_deref s q"
  using haz_view_fields(1) [OF haz_same_nth [of s s']] haz_same_length [of s s']
  by (auto simp: haz_deref_def haz_local_def haz_same_def split: haz_ptr.split)

lemma haz_same_all:
  assumes "haz_same s s'"
  shows "haz_all s' = haz_all s"
proof -
  have sv: "slot_val s' = slot_val s" using haz_same_deref [OF assms] by (simp add: slot_val_def fun_eq_iff)
  have "map (haz_of s') (hz_local s') = map (haz_of s) (hz_local s)"
  proof (rule nth_equalityI)
    show "length (map (haz_of s') (hz_local s')) = length (map (haz_of s) (hz_local s))" using haz_same_length [OF assms] by simp
    show "map (haz_of s') (hz_local s') ! i = map (haz_of s) (hz_local s) ! i" if "i < length (map (haz_of s') (hz_local s'))" for i
    proof -
      have i: "i < length (hz_local s)" using that haz_same_length [OF assms] by simp
      show ?thesis using i that haz_view_fields [OF haz_same_nth [OF assms i]] by (simp add: haz_of_def sv)
    qed
  qed
  then show ?thesis by (simp add: haz_all_def)
qed

lemma haz_same_put:
  assumes "t < length (hz_local s)" and "haz_view l = haz_view (hz_local s ! t)"
  shows "haz_same s ((haz_put t l s)\<lparr>hz_freed := fr\<rparr>)" and "haz_same s (haz_put t l s)"
proof -
  have "map haz_view ((hz_local s)[t := l]) = map haz_view (hz_local s)"
    using assms by (metis list_update_id map_update nth_map)
  then show "haz_same s ((haz_put t l s)\<lparr>hz_freed := fr\<rparr>)" "haz_same s (haz_put t l s)" by (simp_all add: haz_same_def haz_put_def)
qed

lemma haz_same_dyn_ok: "haz_same s s' \<Longrightarrow> haz_view l = haz_view l' \<Longrightarrow> haz_dyn_ok s l \<Longrightarrow> haz_dyn_ok s' l'"
  using haz_same_deref [of s s'] haz_view_fields [of l l'] by (auto simp: haz_dyn_ok_def)

lemma haz_ok_put:
  assumes "haz_ok s" and "t < MAX_NUM_THREADS" and "haz_view l = haz_view (hz_local s ! t)" and "haz_pend_ok l"
  shows "haz_ok ((haz_put t l s)\<lparr>hz_freed := fr\<rparr>)"
proof -
  let ?s = "(haz_put t l s)\<lparr>hz_freed := fr\<rparr>"
  have t: "t < length (hz_local s)" using assms(1,2) by (simp add: haz_ok_def)
  note same = haz_same_put(1) [OF t assms(3), of fr]
  have "haz_pend_ok x \<and> haz_dyn_ok ?s x \<and> length (hl_static_haz x) = STATIC_HAZ_PER_THREAD" if x: "x \<in> set (hz_local ?s)" for x
  proof (cases "x = l")
    case True
    have "hz_local s ! t \<in> set (hz_local s)" using t by simp
    then show ?thesis using True assms(1,3,4) haz_same_dyn_ok [OF same, of "hz_local s ! t" l] haz_view_fields(1) [OF assms(3)]
      by (auto simp: haz_ok_def)
  next
    case False
    then have "x \<in> set (hz_local s)" using x set_update_subset_insert [of "hz_local s" t l] by (auto simp: haz_put_def)
    then show ?thesis using assms(1) haz_same_dyn_ok [OF same refl, of x] by (auto simp: haz_ok_def)
  qed
  then show ?thesis using assms(1) by (simp add: haz_ok_def haz_put_def)
qed

section \<open>The scan\<close>

lemma search_hazards_loop_iff:
  "i + n \<le> length hs \<Longrightarrow> search_hazards_loop p hs i n \<longleftrightarrow> p \<in> set (take n (drop i hs))"
  by (induction n arbitrary: i) (auto simp: take_Suc_conv_app_nth Cons_nth_drop_Suc [symmetric])

lemma search_hazards_iff [simp]: "search_hazards p hs (length hs) \<longleftrightarrow> p \<in> set hs"
  by (simp add: search_hazards_def search_hazards_loop_iff)

text \<open>What a part of the scan adds, if there is room for it.\<close>

definition room :: "nat \<Rightarrow> haz_t list \<Rightarrow> haz_t list option" where
  "room n hs = (if length hs \<le> n then Some hs else None)"

lemma haz_scan_static_eq:
  "length hs \<le> n \<Longrightarrow> haz_scan_static n xs hs = room n (hs @ filter (\<lambda>x. x \<noteq> NULL) xs)"
  by (induction xs arbitrary: hs) (auto simp: room_def)

lemma haz_scan_dynamic_eq:
  assumes "length hs \<le> n" and "j + k \<le> length dyn"
    and "\<And>i. j \<le> i \<Longrightarrow> i < j + k \<Longrightarrow> \<exists>q. dyn ! i = Some q \<and> (q = Null_Haz \<or> (\<exists>x. haz_deref s q = ret x))"
  shows "haz_scan_dynamic n s dyn j k hs =
    ret (room n (hs @ filter (\<lambda>x. x \<noteq> NULL) (map (\<lambda>q. slot_val s (the q)) (take k (drop j dyn)))))"
  using assms
proof (induction k arbitrary: j hs)
  case (Suc k)
  obtain q where q: "dyn ! j = Some q" "q = Null_Haz \<or> (\<exists>x. haz_deref s q = ret x)" using Suc.prems(3) [of j] by auto
  have tk: "take (Suc k) (drop j dyn) = dyn ! j # take k (drop (Suc j) dyn)"
    using Suc.prems(2) by (simp add: Cons_nth_drop_Suc [symmetric])
  have c: "cell dyn j = ret q" using q(1) Suc.prems(2) by (simp add: cell_def)
  have IH: "haz_scan_dynamic n s dyn (Suc j) k hs' =
      ret (room n (hs' @ filter (\<lambda>x. x \<noteq> NULL) (map (\<lambda>q. slot_val s (the q)) (take k (drop (Suc j) dyn)))))" if "length hs' \<le> n" for hs'
    using Suc.IH [OF that, of "Suc j"] Suc.prems by simp
  show ?case
  proof (cases "q = Null_Haz")
    case True
    then have "slot_val s q = NULL" by (simp add: slot_val_def haz_deref_def fail_def)
    then show ?thesis using True c tk q(1) IH [OF Suc.prems(1)] by simp
  next
    case False
    then obtain x where x: "haz_deref s q = ret x" using q(2) by blast
    then have "slot_val s q = x" by (simp add: slot_val_def ret_def)
    then show ?thesis using False c tk q(1) x IH [OF Suc.prems(1)] IH [of "hs @ [x]"] Suc.prems(1) by (simp add: room_def)
  qed
qed (simp add: room_def)

lemma haz_scan_eq:
  assumes "length hs \<le> n" and "\<And>l. l \<in> set ls \<Longrightarrow> haz_dyn_ok s l"
  shows "haz_scan n s ls hs = ret (room n (hs @ concat (map (haz_of s) ls)))"
  using assms
proof (induction ls arbitrary: hs)
  case (Cons l ls)
  let ?a = "hs @ filter (\<lambda>x. x \<noteq> NULL) (hl_static_haz l)"
  have st: "haz_scan_static n (hl_static_haz l) hs = room n ?a" by (rule haz_scan_static_eq [OF Cons.prems(1)])
  have dy: "haz_scan_dynamic n s (hl_dynamic l) 0 (hl_dynamic_count l) ?a = ret (room n (hs @ haz_of s l))" if "length ?a \<le> n"
    using haz_scan_dynamic_eq [OF that, of 0 "hl_dynamic_count l" "hl_dynamic l" s] Cons.prems(2) [of l]
    by (simp add: haz_dyn_ok_def haz_of_def)
  have IH: "haz_scan n s ls (hs @ haz_of s l) = ret (room n ((hs @ haz_of s l) @ concat (map (haz_of s) ls)))"
    if "length (hs @ haz_of s l) \<le> n" by (rule Cons.IH [OF that]) (simp add: Cons.prems(2))
  have "length ?a \<le> length (hs @ haz_of s l)" by (simp add: haz_of_def)
  then show ?case using st dy IH by (auto simp: room_def)
qed (simp add: room_def)

section \<open>Freeing what is in no slot\<close>

lemma haz_check_eq:
  assumes "c \<le> i" and "i + length ps \<le> length pending" and "\<And>k. k < length ps \<Longrightarrow> pending ! (i + k) = Some (ps ! k)"
    and "\<And>p. p \<in> set ps \<Longrightarrow> pd_ptr p \<noteq> NULL \<and> pd_free p \<noteq> NULL"
  shows "\<exists>pending'. haz_check H i (length ps) c pending fr =
      ret (pending', c + length (filter (\<lambda>p. pd_ptr p \<in> set H) ps), fr @ filter (\<lambda>p. pd_ptr p \<notin> set H) ps) \<and>
    length pending' = length pending \<and>
    take (c + length (filter (\<lambda>p. pd_ptr p \<in> set H) ps)) pending' = take c pending @ map Some (filter (\<lambda>p. pd_ptr p \<in> set H) ps)"
  using assms
proof (induction ps arbitrary: i c pending fr)
  case (Cons p ps)
  have i: "i < length pending" and cl: "cell pending i = ret p" using Cons.prems(2) Cons.prems(3) [of 0] by (auto simp: cell_def)
  have nx: "pending ! (Suc i + k) = Some (ps ! k)" if "k < length ps" for k using Cons.prems(3) [of "Suc k"] that by simp
  show ?case
  proof (cases "pd_ptr p \<in> set H")
    case True
    let ?pn = "pending[c := Some p]"
    have "\<exists>pending'. haz_check H (Suc i) (length ps) (Suc c) ?pn fr =
        ret (pending', Suc c + length (filter (\<lambda>p. pd_ptr p \<in> set H) ps), fr @ filter (\<lambda>p. pd_ptr p \<notin> set H) ps) \<and>
      length pending' = length ?pn \<and>
      take (Suc c + length (filter (\<lambda>p. pd_ptr p \<in> set H) ps)) pending' = take (Suc c) ?pn @ map Some (filter (\<lambda>p. pd_ptr p \<in> set H) ps)"
      by (rule Cons.IH) (use Cons.prems nx in \<open>auto simp: nth_list_update\<close>)
    moreover have "put_cell pending c p = ret ?pn" using Cons.prems(1) i by (simp add: put_cell_def)
    moreover have "take (Suc c) ?pn = take c pending @ [Some p]" using Cons.prems(1) i by (simp add: take_Suc_conv_app_nth)
    ultimately show ?thesis using True cl by auto
  next
    case False
    have "\<exists>pending'. haz_check H (Suc i) (length ps) c pending (fr @ [p]) =
        ret (pending', c + length (filter (\<lambda>p. pd_ptr p \<in> set H) ps), (fr @ [p]) @ filter (\<lambda>p. pd_ptr p \<notin> set H) ps) \<and>
      length pending' = length pending \<and>
      take (c + length (filter (\<lambda>p. pd_ptr p \<in> set H) ps)) pending' = take c pending @ map Some (filter (\<lambda>p. pd_ptr p \<in> set H) ps)"
      by (rule Cons.IH) (use Cons.prems nx in auto)
    then show ?thesis using False cl Cons.prems(4) [of p] by auto
  qed
qed simp

text \<open>One pass of the loop over a full list, when the array for the hazards is large enough.\<close>

lemma haz_pass:
  assumes "haz_ok s" and "t < MAX_NUM_THREADS" and "l = hz_local s ! t" and "hl_pending_count l = hl_pending_size l" and "0 < hl_pending_size l"
    and "length (haz_all s) \<le> hl_pending_size l"
  defines "conf \<equiv> filter (\<lambda>p. pd_ptr p \<in> set (haz_all s)) (pend l)"
    and "fr \<equiv> filter (\<lambda>p. pd_ptr p \<notin> set (haz_all s)) (pend l)"
  shows "\<exists>pending. length pending = length (hl_pending l) \<and> take (length conf) pending = map Some conf \<and>
    haz_check (haz_all s) 0 (hl_pending_count l) 0 (hl_pending l) [] = ret (pending, length conf, fr) \<and>
    haz_reclaim t s = haz_reclaim t ((haz_put t (l\<lparr>hl_pending := pending, hl_pending_count := length conf\<rparr>) s)\<lparr>hz_freed := hz_freed s @ fr\<rparr>)"
proof -
  have t: "t < length (hz_local s)" using assms(1,2) by (simp add: haz_ok_def)
  then have l: "haz_local s t = ret l" "haz_pend_ok l" using assms(1,3) by (auto simp: haz_local_def haz_ok_def)
  have sc: "haz_scan (hl_pending_size l) s (hz_local s) [] = ret (Some (haz_all s))"
    using haz_scan_eq [of "[]" "hl_pending_size l" "hz_local s" s] assms(1,6) by (simp add: haz_ok_def haz_all_def room_def)
  note P = haz_pend_eq [OF l(2)]
  have "hl_pending l ! k = Some (pend l ! k)" if "k < length (pend l)" for k
    using that P(1,2) by (metis nth_map nth_take)
  then obtain pending where ck: "haz_check (haz_all s) 0 (length (pend l)) 0 (hl_pending l) [] = ret (pending, length conf, fr)"
    "length pending = length (hl_pending l)" "take (length conf) pending = map Some conf"
    using haz_check_eq [of 0 0 "pend l" "hl_pending l" "haz_all s" "[]"] P(2,3) l(2) by (auto simp: haz_pend_ok_def conf_def fr_def)
  have "haz_reclaim t s = haz_reclaim t ((haz_put t (l\<lparr>hl_pending := pending, hl_pending_count := length conf\<rparr>) s)\<lparr>hz_freed := hz_freed s @ fr\<rparr>)"
    using l(1) sc ck(1) P(2) assms(4,5) by (subst haz_reclaim.simps) simp
  then show ?thesis using ck P(2) by auto
qed

lemma haz_reclaim_ready:
  assumes "haz_local s t = ret l" and "hl_pending_count l \<noteq> hl_pending_size l"
  shows "haz_reclaim t s = ret (False, s)"
  using assms by (subst haz_reclaim.simps) simp

lemma haz_reclaim_ok:
  assumes "haz_ok s" and "t < MAX_NUM_THREADS" and "l = hz_local s ! t"
    and "hl_pending_count l < hl_pending_size l \<or> hl_pending_size l = 0 \<or>
      length (haz_all s) \<le> hl_pending_size l \<and> (\<exists>p \<in> set (pend l). pd_ptr p \<notin> set (haz_all s))"
    and fr_def: "fr = (if hl_pending_count l = hl_pending_size l then filter (\<lambda>p. pd_ptr p \<notin> set (haz_all s)) (pend l) else [])"
  shows "\<exists>s' l'. haz_reclaim t s = ret (False, s') \<and> l' = hz_local s' ! t \<and> haz_ok s' \<and> haz_same s s' \<and>
    hl_pending_count l' < hl_pending_size l' \<and> mset fr + mset (pend l') = mset (pend l) \<and> hz_freed s' = hz_freed s @ fr \<and> (\<forall>u. u \<noteq> t \<longrightarrow> hz_local s' ! u = hz_local s ! u)"
proof -
  have t: "t < length (hz_local s)" using assms(1,2) by (simp add: haz_ok_def)
  then have l: "haz_local s t = ret l" "haz_pend_ok l" using assms(1,3) by (auto simp: haz_local_def haz_ok_def)
  consider (ready) "hl_pending_count l < hl_pending_size l" | (none) "hl_pending_size l = 0"
    | (full) "hl_pending_count l = hl_pending_size l" "0 < hl_pending_size l" "length (haz_all s) \<le> hl_pending_size l"
      "\<exists>p \<in> set (pend l). pd_ptr p \<notin> set (haz_all s)"
    using assms(4) l(2) unfolding haz_pend_ok_def by linarith
  then show ?thesis
  proof cases
    case ready
    then show ?thesis using haz_reclaim_ready [OF l(1)] assms(1,3) by (intro exI [of _ s]) (auto simp: haz_same_def fr_def)
  next
    case none
    define n where "n = MAX_NUM_THREADS * STATIC_HAZ_PER_THREAD"
    define l1 where "l1 = l\<lparr>hl_pending_size := n, hl_pending := replicate n None\<rparr>"
    have n: "0 < n" by (simp add: n_def MAX_NUM_THREADS_def STATIC_HAZ_PER_THREAD_def)
    have z: "hl_pending_count l = 0" using none l(2) by (simp add: haz_pend_ok_def)
    have run: "haz_reclaim t s = ret (False, haz_put t l1 s)"
      using l(1) none z by (subst haz_reclaim.simps) (simp add: l1_def n_def Let_def)
    have v: "haz_view l1 = haz_view (hz_local s ! t)" by (simp add: haz_view_def l1_def assms(3))
    have p1: "haz_pend_ok l1" "pend l1 = pend l" "hl_pending_count l1 < hl_pending_size l1" using z n by (simp_all add: haz_pend_ok_def l1_def pend_def)
    have "haz_ok (haz_put t l1 s)" using haz_ok_put [OF assms(1,2) v p1(1), of "hz_freed s"] by (simp add: haz_put_def)
    then show ?thesis
      using run haz_same_put(2) [OF t v] p1 t z none by (intro exI [of _ "haz_put t l1 s"] exI [of _ l1]) (simp add: haz_put_def fr_def pend_def)
  next
    case full
    define conf where "conf = filter (\<lambda>p. pd_ptr p \<in> set (haz_all s)) (pend l)"
    have fr: "fr = filter (\<lambda>p. pd_ptr p \<notin> set (haz_all s)) (pend l)" using full(1) by (simp add: fr_def)
    obtain pending where pg: "length pending = length (hl_pending l)" "take (length conf) pending = map Some conf"
      "haz_reclaim t s = haz_reclaim t ((haz_put t (l\<lparr>hl_pending := pending, hl_pending_count := length conf\<rparr>) s)\<lparr>hz_freed := hz_freed s @ fr\<rparr>)"
      using haz_pass [OF assms(1-3) full(1,2)] full(3) unfolding conf_def fr by auto
    define l1 where "l1 = l\<lparr>hl_pending := pending, hl_pending_count := length conf\<rparr>"
    define s1 where "s1 = (haz_put t l1 s)\<lparr>hz_freed := hz_freed s @ fr\<rparr>"
    have "length conf < length (pend l)" using full(4) unfolding conf_def by (metis length_filter_less)
    then have lt: "length conf < hl_pending_size l" using haz_pend_eq(2) [OF l(2)] full(1) by simp
    have v: "haz_view l1 = haz_view (hz_local s ! t)" by (simp add: haz_view_def l1_def assms(3))
    have pe: "pend l1 = conf" using pg(2) by (simp add: pend_def l1_def comp_def)
    have "hl_pending l1 ! i = Some (conf ! i)" if "i < length conf" for i
      using arg_cong [OF pg(2), of "\<lambda>xs. xs ! i"] that by (simp add: l1_def)
    then have p1: "haz_pend_ok l1"
      using lt l(2) pg(1) haz_pend_eq(3) [OF l(2)] by (auto simp: haz_pend_ok_def l1_def conf_def dest!: nth_mem)
    have ok: "haz_ok s1" unfolding s1_def by (rule haz_ok_put [OF assms(1,2) v p1])
    have l1: "hz_local s1 ! t = l1" "haz_local s1 t = ret l1" using t by (simp_all add: s1_def haz_put_def haz_local_def)
    have c1: "hl_pending_count l1 < hl_pending_size l1" using lt by (simp add: l1_def)
    have "haz_reclaim t s1 = ret (False, s1)" by (rule haz_reclaim_ready [OF l1(2)]) (use c1 in simp)
    then have run: "haz_reclaim t s = ret (False, s1)" using pg(3) by (simp add: s1_def l1_def)
    have ms: "mset fr + mset conf = mset (pend l)" by (simp add: fr conf_def flip: mset_filter) (simp add: multiset_partition add.commute)
    have "haz_same s s1" unfolding s1_def by (rule haz_same_put(1) [OF t v])
    then show ?thesis
      using run ok l1(1) c1 ms pe
      by (intro exI [of _ s1] exI [of _ l1]) (auto simp: s1_def haz_put_def)
  qed
qed

section \<open>Dynamic hazards\<close>

lemma mset_swap_out:
  assumes "i < length xs"
  shows "mset xs = add_mset (xs ! i) (mset (butlast (xs[i := last xs])))"
proof -
  have ne: "xs \<noteq> []" using assms by auto
  show ?thesis
  proof (cases "i = length xs - 1")
    case True
    then have "xs[i := last xs] = xs" using ne by (metis last_conv_nth list_update_id)
    then show ?thesis using True ne by (metis append_butlast_last_id last_conv_nth mset.simps mset_append union_commute add_mset_add_single)
  next
    case False
    define ys where "ys = butlast xs"
    have xs: "xs = ys @ [last xs]" using ne by (simp add: ys_def)
    have i: "i < length ys" using assms False by (simp add: ys_def)
    have "butlast (xs[i := last xs]) = ys[i := last xs]" using i by (subst xs) (simp add: list_update_append)
    moreover have "xs ! i = ys ! i" using i by (subst xs) (simp add: nth_append)
    moreover have "mset xs = add_mset (last xs) (mset ys)" by (subst xs) simp
    ultimately show ?thesis using i by (simp add: mset_update)
  qed
qed

definition dyns :: "haz_local_t \<Rightarrow> haz_ptr list" where
  "dyns l = map the (take (hl_dynamic_count l) (hl_dynamic l))"

lemma haz_ok_put_dyn:
  assumes "haz_ok s" and "t < MAX_NUM_THREADS" and "haz_pend_ok l" and "hl_static_haz l = hl_static_haz (hz_local s ! t)"
    and "haz_dyn_ok s l"
  shows "haz_ok (haz_put t l s)"
proof -
  have t: "t < length (hz_local s)" using assms(1,2) by (simp add: haz_ok_def)
  have "hl_static_haz ((hz_local s)[t := l] ! u) = hl_static_haz (hz_local s ! u)" for u
    using assms(4) t by (cases "u = t") simp_all
  then have de: "haz_deref (haz_put t l s) q = haz_deref s q" for q
    by (simp add: haz_deref_def haz_local_def haz_put_def split: haz_ptr.split)
  have "haz_pend_ok x \<and> haz_dyn_ok s x \<and> length (hl_static_haz x) = STATIC_HAZ_PER_THREAD" if "x \<in> set (hz_local (haz_put t l s))" for x
  proof (cases "x = l")
    case True
    then show ?thesis using assms(1,3-5) t nth_mem [OF t] by (auto simp: haz_ok_def)
  next
    case False
    then have "x \<in> set (hz_local s)" using that set_update_subset_insert [of "hz_local s" t l] by (auto simp: haz_put_def)
    then show ?thesis using assms(1) by (auto simp: haz_ok_def)
  qed
  then show ?thesis using assms(1) by (simp add: haz_ok_def haz_dyn_ok_def de) (simp add: haz_put_def)
qed

lemma haz_register_ok:
  assumes "haz_ok s" and "t < MAX_NUM_THREADS" and "l = hz_local s ! t" and "haz_deref s haz = ret x"
    and "hl_dynamic_count l < hl_dynamic_size l \<or> hl_dynamic_size l = 0"
  shows "\<exists>s' l'. haz_register_dynamic t haz s = ret s' \<and> haz_ok s' \<and> s' = haz_put t l' s \<and> dyns l' = dyns l @ [haz]"
proof -
  have t: "t < length (hz_local s)" using assms(1,2) by (simp add: haz_ok_def)
  then have l: "haz_local s t = ret l" "haz_pend_ok l" "haz_dyn_ok s l" using assms(1,3) by (auto simp: haz_local_def haz_ok_def)
  define n where "n = MAX_NUM_THREADS * STATIC_HAZ_PER_THREAD"
  have n: "0 < n" by (simp add: n_def MAX_NUM_THREADS_def STATIC_HAZ_PER_THREAD_def)
  define l1 where "l1 = (if hl_dynamic_size l = 0 then l\<lparr>hl_dynamic := replicate n None, hl_dynamic_size := n\<rparr> else l)"
  have l1: "haz_pend_ok l1" "haz_dyn_ok s l1" "dyns l1 = dyns l" "hl_dynamic_count l1 < hl_dynamic_size l1" "hl_static_haz l1 = hl_static_haz l"
    using l assms(5) n by (auto simp: l1_def haz_pend_ok_def haz_dyn_ok_def dyns_def)
  define l2 where "l2 = l1\<lparr>hl_dynamic := (hl_dynamic l1)[hl_dynamic_count l1 := Some haz], hl_dynamic_count := hl_dynamic_count l1 + 1\<rparr>"
  have c: "hl_dynamic_count l1 < length (hl_dynamic l1)" using l1(2,4) by (simp add: haz_dyn_ok_def)
  have run: "haz_register_dynamic t haz s = ret (haz_put t l2 s)"
    unfolding haz_register_dynamic_def l(1) pbind_ret n_def [symmetric] Let_def l1_def [symmetric]
    using l1(4) c by (simp add: put_cell_def l2_def)
  have "dyns l2 = dyns l @ [haz]" unfolding l1(3) [symmetric] using c by (simp add: l2_def dyns_def take_Suc_conv_app_nth)
  moreover have "haz_ok (haz_put t l2 s)"
  proof (rule haz_ok_put_dyn [OF assms(1,2)])
    show "haz_pend_ok l2" using l1(1) by (simp add: haz_pend_ok_def l2_def)
    show "haz_dyn_ok s l2" using l1(2) c assms(4) by (auto simp: haz_dyn_ok_def l2_def nth_list_update less_Suc_eq)
  qed (use l1(5) assms(3) in \<open>simp add: l2_def\<close>)
  ultimately show ?thesis using run by blast
qed

lemma haz_unregister_loop_ok:
  assumes "haz_dyn_ok s l" and "i + n = hl_dynamic_count l" and "haz \<in> set (drop i (dyns l))"
  shows "\<exists>l'. haz_unregister_loop haz i n l = ret l' \<and> haz_dyn_ok s l' \<and> mset (dyns l) = add_mset haz (mset (dyns l')) \<and>
    l' = l\<lparr>hl_dynamic := hl_dynamic l', hl_dynamic_count := hl_dynamic_count l'\<rparr>"
  using assms(2,3)
proof (induction n arbitrary: i)
  case 0
  then show ?case by (simp add: dyns_def)
next
  case (Suc n)
  let ?c = "hl_dynamic_count l"
  note D = assms(1) [unfolded haz_dyn_ok_def]
  have i: "i < ?c" using Suc.prems by simp
  have len: "length (dyns l) = ?c" using D by (simp add: dyns_def)
  have nth: "hl_dynamic l ! k = Some (dyns l ! k)" if "k < ?c" for k using D that by (auto simp: dyns_def)
  have cell: "cell (hl_dynamic l) k = ret (dyns l ! k)" if "k < ?c" for k using nth [OF that] that D by (auto simp: cell_def)
  show ?case
  proof (cases "dyns l ! i = haz")
    case False
    then have "haz \<in> set (drop (Suc i) (dyns l))" using Suc.prems(2) i len by (simp add: Cons_nth_drop_Suc [symmetric])
    then show ?thesis using Suc.IH [of "Suc i"] Suc.prems(1) False cell [OF i] by simp
  next
    case True
    define dy where "dy = (hl_dynamic l)[i := Some (dyns l ! (?c - 1))]"
    define l1 where "l1 = l\<lparr>hl_dynamic := dy, hl_dynamic_count := ?c - 1\<rparr>"
    have "(hl_dynamic l)[?c - 1 := Some (dyns l ! (?c - 1))] = hl_dynamic l" using nth [of "?c - 1"] i by (metis list_update_id diff_less less_nat_zero_code not_gr_zero zero_less_one)
    then have run: "haz_unregister_loop haz i (Suc n) l = ret l1"
      using True cell [OF i] cell [of "?c - 1"] i D by (auto simp: put_cell_def l1_def dy_def)
    have "dyns l1 = butlast ((dyns l)[i := dyns l ! (?c - 1)])"
      using i D by (simp add: dyns_def l1_def dy_def take_update_swap map_update butlast_take butlast_conv_take take_map flip: map_butlast)
    also have "\<dots> = butlast ((dyns l)[i := last (dyns l)])" using len i by (simp add: last_conv_nth flip: length_0_conv)
    finally have d1: "dyns l1 = butlast ((dyns l)[i := last (dyns l)])" .
    have "dyns l \<noteq> []" using len i by auto
    then have "mset (dyns l) = add_mset (dyns l ! i) (mset (butlast ((dyns l)[i := last (dyns l)])))"
      using i len by (intro mset_swap_out) simp
    moreover have "dyns l ! (?c - 1) = Null_Haz \<or> (\<exists>x. haz_deref s (dyns l ! (?c - 1)) = ret x)"
    proof -
      have "?c - 1 < ?c" using i by simp
      then show ?thesis using D nth [of "?c - 1"] by (metis option.inject)
    qed
    then have "haz_dyn_ok s l1"
      using D i by (auto simp: haz_dyn_ok_def l1_def dy_def nth_list_update)
    ultimately show ?thesis using run True d1 by (intro exI [of _ l1]) (simp add: l1_def)
  qed
qed

section \<open>Properties\<close>

text \<open>C30: \<^verbatim>\<open>haz_defer_free\<close> never frees an address that is in a hazard slot, and loses none. Take a state
  whose pending list has room; or has not been allocated; or is full, with no more addresses announced in all the slots
  than the list can hold, and with at least one pending address that is announced in none. Then a call returns. It frees
  nothing if the list had room, and otherwise exactly the pending addresses that are in no slot of any thread, once per
  entry; what was pending, together with the new address, is afterwards pending or freed, each once; no other thread's
  data and no slot changes.\<close>

theorem haz_defer_free_safe:
  assumes "haz_ok s" and "t < MAX_NUM_THREADS" and "l = hz_local s ! t"
    and "hl_pending_count l < hl_pending_size l \<or> hl_pending_size l = 0 \<or>
      length (haz_all s) \<le> hl_pending_size l \<and> (\<exists>p \<in> set (pend l). pd_ptr p \<notin> set (haz_all s))"
    and "d \<noteq> NULL" and "f \<noteq> NULL"
    and "fr = (if hl_pending_count l = hl_pending_size l then filter (\<lambda>p. pd_ptr p \<notin> set (haz_all s)) (pend l) else [])"
  shows "\<exists>s'. haz_defer_free t d f s = ret s' \<and> haz_ok s' \<and> hz_freed s' = hz_freed s @ fr \<and>
    mset fr + mset (pend (hz_local s' ! t)) = add_mset \<lparr>pd_ptr = d, pd_free = f\<rparr> (mset (pend l)) \<and>
    haz_all s' = haz_all s \<and> (\<forall>u. u \<noteq> t \<longrightarrow> hz_local s' ! u = hz_local s ! u)"
proof -
  obtain s1 l1 where R: "haz_reclaim t s = ret (False, s1)" "l1 = hz_local s1 ! t" "haz_ok s1" "haz_same s s1"
    "hl_pending_count l1 < hl_pending_size l1" "mset fr + mset (pend l1) = mset (pend l)" "hz_freed s1 = hz_freed s @ fr"
    "\<forall>u. u \<noteq> t \<longrightarrow> hz_local s1 ! u = hz_local s ! u"
    using haz_reclaim_ok [OF assms(1-4,7)] by blast
  have t: "t < length (hz_local s1)" using R(3) assms(2) by (simp add: haz_ok_def)
  then have l1: "haz_local s1 t = ret l1" "haz_pend_ok l1" using R(2,3) by (auto simp: haz_local_def haz_ok_def)
  let ?p = "\<lparr>pd_ptr = d, pd_free = f\<rparr>"
  define l2 where "l2 = l1\<lparr>hl_pending := (hl_pending l1)[hl_pending_count l1 := Some ?p], hl_pending_count := hl_pending_count l1 + 1\<rparr>"
  define s2 where "s2 = haz_put t l2 s1"
  have c: "hl_pending_count l1 < length (hl_pending l1)" using R(5) l1(2) by (simp add: haz_pend_ok_def)
  have run: "haz_defer_free t d f s = ret s2"
    using R(1,5) l1(1) c assms(5,6) by (subst haz_defer_free.simps) (simp add: put_cell_def s2_def l2_def)
  have v: "haz_view l2 = haz_view (hz_local s1 ! t)" by (simp add: haz_view_def l2_def R(2))
  have "haz_pend_ok l2" using l1(2) c assms(5,6) by (auto simp: haz_pend_ok_def l2_def nth_list_update less_Suc_eq)
  then have ok: "haz_ok s2" using haz_ok_put [OF R(3) assms(2) v, of "hz_freed s1"] by (simp add: s2_def haz_put_def)
  have "pend l2 = pend l1 @ [?p]" using c by (simp add: pend_def l2_def take_Suc_conv_app_nth)
  moreover have "hz_local s2 ! t = l2" using t by (simp add: s2_def haz_put_def)
  moreover have "haz_all s2 = haz_all s" using haz_same_all [OF haz_same_put(2) [OF t v]] haz_same_all [OF R(4)] by (simp add: s2_def)
  moreover have "hz_freed s2 = hz_freed s @ fr" "\<forall>u. u \<noteq> t \<longrightarrow> hz_local s2 ! u = hz_local s ! u"
    using R(7,8) by (simp_all add: s2_def haz_put_def)
  ultimately show ?thesis using run ok R(6) by (intro exI [of _ s2]) simp
qed

text \<open>A call of \<^verbatim>\<open>haz_defer_free\<close> on a full list does not return while every pending address is
  announced in a slot: the loop frees nothing and starts over on the same state.\<close>

lemma haz_defer_free_spins:
  assumes "haz_ok s" and "t < MAX_NUM_THREADS" and "l = hz_local s ! t" and "hl_pending_count l = hl_pending_size l" and "0 < hl_pending_size l"
    and "length (haz_all s) \<le> hl_pending_size l" and "\<forall>p \<in> set (pend l). pd_ptr p \<in> set (haz_all s)" and "d \<noteq> NULL" and "f \<noteq> NULL"
  shows "haz_defer_free t d f s = None"
proof -
  have t: "t < length (hz_local s)" using assms(1,2) by (simp add: haz_ok_def)
  then have l: "haz_local s t = ret l" "haz_pend_ok l" using assms(1,3) by (auto simp: haz_local_def haz_ok_def)
  have sc: "haz_scan (hl_pending_size l) s (hz_local s) [] = ret (Some (haz_all s))"
    using haz_scan_eq [of "[]" "hl_pending_size l" "hz_local s" s] assms(1,6) by (simp add: haz_ok_def haz_all_def room_def)
  have all: "filter (\<lambda>p. pd_ptr p \<in> set (haz_all s)) (pend l) = pend l" "filter (\<lambda>p. pd_ptr p \<notin> set (haz_all s)) (pend l) = []"
    using assms(7) by (simp_all add: filter_empty_conv)
  obtain pending where pg: "length pending = length (hl_pending l)" "take (length (pend l)) pending = map Some (pend l)"
    "haz_check (haz_all s) 0 (hl_pending_count l) 0 (hl_pending l) [] = ret (pending, length (pend l), [])"
    using haz_pass [OF assms(1-6)] unfolding all by blast
  have "hl_pending_count l = length (hl_pending l)" using l(2) assms(4) by (simp add: haz_pend_ok_def)
  then have "pending = hl_pending l" using pg(1,2) haz_pend_eq(1,2) [OF l(2)] by simp
  moreover have "(hz_local s)[t := l] = hz_local s" using assms(3) by simp
  ultimately have st: "(haz_put t (l\<lparr>hl_pending := pending, hl_pending_count := length (pend l)\<rparr>) s)\<lparr>hz_freed := hz_freed s @ []\<rparr> = s"
    using haz_pend_eq(2) [OF l(2)] by (simp add: haz_put_def)
  have "\<not> (t = t \<and> s = s)" if "haz_reclaim t s = Some y" for y
    by (rule haz_reclaim.raw_induct [where P = "\<lambda>t' s' y. \<not> (t' = t \<and> s' = s)", OF _ that])
      (use l(1) sc pg(3) st assms(4,5) in fastforce)
  then have "haz_reclaim t s = None" by (cases "haz_reclaim t s") auto
  then show ?thesis using assms(8,9) by (subst haz_defer_free.simps) simp
qed

text \<open>A thread whose list is full of one address, which its own slot announces, and with \<open>n\<close> dynamic
  hazards that refer to that slot.\<close>

definition haz_full :: "nat \<Rightarrow> haz_local_t" where
  "haz_full n = \<lparr>hl_pending = replicate 64 (Some \<lparr>pd_ptr = 128, pd_free = 8\<rparr>), hl_pending_size = 64, hl_pending_count = 64,
     hl_static_haz = [128, NULL], hl_dynamic = replicate 64 (Some (Static_Haz 1 0)), hl_dynamic_size = 64, hl_dynamic_count = n\<rparr>"

definition haz_idle :: haz_local_t where
  "haz_idle = \<lparr>hl_pending = [], hl_pending_size = 0, hl_pending_count = 0, hl_static_haz = [NULL, NULL],
      hl_dynamic = [], hl_dynamic_size = 0, hl_dynamic_count = 0\<rparr>"

definition haz_sample :: "nat \<Rightarrow> haz_state" where
  "haz_sample n = \<lparr>hz_local = haz_idle # haz_full n # replicate 30 haz_idle, hz_mem = (\<lambda>_. None), hz_freed = []\<rparr>"

lemma haz_sample_sel [simp]: "hz_local (haz_sample n) ! 1 = haz_full n" "hz_local (haz_sample n) ! Suc 0 = haz_full n" "hz_freed (haz_sample n) = []"
  by (simp_all add: haz_sample_def)

lemma haz_sample_ok:
  assumes "n \<le> 64"
  shows "haz_ok (haz_sample n)" and "haz_all (haz_sample n) = replicate (n + 1) 128"
proof -
  have d: "haz_deref (haz_sample n) (Static_Haz 1 0) = ret 128"
    by (simp add: haz_deref_def haz_local_def haz_sample_def haz_full_def)
  have f: "haz_pend_ok (haz_full n)" "haz_dyn_ok (haz_sample n) (haz_full n)"
    using assms d by (simp_all add: haz_pend_ok_def haz_dyn_ok_def haz_full_def del: replicate_numeral_Cons)
  have e: "haz_pend_ok haz_idle" "haz_dyn_ok (haz_sample n) haz_idle" by (simp_all add: haz_pend_ok_def haz_dyn_ok_def haz_idle_def)
  have s: "length (hl_static_haz (haz_full n)) = 2" "length (hl_static_haz haz_idle) = 2" by (simp_all add: haz_full_def haz_idle_def)
  have "set (hz_local (haz_sample n)) = {haz_full n, haz_idle}" "length (hz_local (haz_sample n)) = 32" by (auto simp: haz_sample_def)
  then show "haz_ok (haz_sample n)" using f e s by (simp add: haz_ok_def MAX_NUM_THREADS_def STATIC_HAZ_PER_THREAD_def)
  have "slot_val (haz_sample n) (Static_Haz 1 0) = 128" using d by (simp add: slot_val_def ret_def)
  then have "haz_of (haz_sample n) (haz_full n) = replicate (n + 1) 128" "haz_of (haz_sample n) haz_idle = []"
    using assms by (simp_all add: haz_of_def haz_full_def haz_idle_def min_def del: replicate_numeral_Cons)
  then show "haz_all (haz_sample n) = replicate (n + 1) 128" by (simp add: haz_all_def haz_sample_def)
qed

text \<open>The same thread with another address, which no slot announces, in the first entry of its list.\<close>

definition haz_mixed :: haz_state where
  "haz_mixed = haz_put 1 ((haz_full 5)\<lparr>hl_pending := Some \<lparr>pd_ptr = 256, pd_free = 8\<rparr> # replicate 63 (Some \<lparr>pd_ptr = 128, pd_free = 8\<rparr>)\<rparr>) (haz_sample 5)"

theorem haz_defer_free_safe_witness:
  "\<exists>s'. haz_defer_free 1 192 8 haz_mixed = ret s' \<and> hz_freed s' = [\<lparr>pd_ptr = 256, pd_free = 8\<rparr>] \<and> haz_all s' = replicate 6 128"
proof -
  let ?l = "(haz_full 5)\<lparr>hl_pending := Some \<lparr>pd_ptr = 256, pd_free = 8\<rparr> # replicate 63 (Some \<lparr>pd_ptr = 128, pd_free = 8\<rparr>)\<rparr>"
  have t: "1 < length (hz_local (haz_sample 5))" and v: "haz_view ?l = haz_view (hz_local (haz_sample 5) ! 1)" by (simp_all add: haz_sample_def haz_view_def)
  have po: "haz_pend_ok ?l" unfolding haz_pend_ok_def by (auto simp: haz_full_def nth_Cons' simp del: replicate_numeral_Cons)
  have sel: "hz_local haz_mixed ! 1 = ?l" "hz_freed haz_mixed = []" using t by (simp_all add: haz_mixed_def haz_put_def)
  have ok: "haz_ok haz_mixed" using haz_ok_put [OF haz_sample_ok(1) [of 5] _ v po, of "[]"] by (simp add: haz_mixed_def haz_put_def MAX_NUM_THREADS_def haz_sample_def)
  have all: "haz_all haz_mixed = replicate 6 128" using haz_same_all [OF haz_same_put(2) [OF t v]] haz_sample_ok(2) [of 5] by (simp add: haz_mixed_def)
  have pe: "pend ?l = \<lparr>pd_ptr = 256, pd_free = 8\<rparr> # replicate 63 \<lparr>pd_ptr = 128, pd_free = 8\<rparr>"
    by (simp add: pend_def haz_full_def take_Cons' del: replicate_numeral_Cons)
  have "filter (\<lambda>p. pd_ptr p \<notin> set (haz_all haz_mixed)) (pend ?l) = [\<lparr>pd_ptr = 256, pd_free = 8\<rparr>]"
    unfolding all pe by (simp del: replicate_numeral_Cons)
  moreover have "\<exists>p \<in> set (pend ?l). pd_ptr p \<notin> set (haz_all haz_mixed)" unfolding all pe by (simp del: replicate_numeral_Cons)
  moreover have "hl_pending_count ?l = 64" "hl_pending_size ?l = 64" by (simp_all add: haz_full_def)
  ultimately show ?thesis
    using haz_defer_free_safe [OF ok _ refl _ _ _ refl, of 1 192 8] unfolding sel all by (auto simp: MAX_NUM_THREADS_def simp del: replicate_numeral_Cons)
qed

text \<open>C39: growing the pending list loses entries. When more addresses are announced than a full list can
  hold, \<^verbatim>\<open>haz_defer_free\<close> doubles the list, and of the entries it held only the first sixteenth
  are copied: the others are indeterminate, while the count still includes them.\<close>

theorem haz_resize_loses_pending:
  assumes "haz_ok s" and "t < MAX_NUM_THREADS" and "l = hz_local s ! t" and "hl_pending_count l = hl_pending_size l" and "0 < hl_pending_size l"
    and "hl_pending_size l < length (haz_all s)" and "d \<noteq> NULL" and "f \<noteq> NULL"
  shows "\<exists>s'. haz_defer_free t d f s = ret s' \<and> hz_freed s' = hz_freed s \<and> hl_pending_count (hz_local s' ! t) = hl_pending_size l + 1 \<and>
    (\<forall>i. hl_pending_size l div 16 \<le> i \<and> i < hl_pending_size l \<longrightarrow> hl_pending (hz_local s' ! t) ! i = None)"
proof -
  let ?n = "hl_pending_size l"
  have t: "t < length (hz_local s)" using assms(1,2) by (simp add: haz_ok_def)
  then have l: "haz_local s t = ret l" "haz_pend_ok l" using assms(1,3) by (auto simp: haz_local_def haz_ok_def)
  have sc: "haz_scan ?n s (hz_local s) [] = ret None"
    using haz_scan_eq [of "[]" ?n "hz_local s" s] assms(1,6) by (simp add: haz_ok_def haz_all_def room_def)
  define p where "p = take (?n div 16) (hl_pending l) @ replicate (?n * 2 - ?n div 16) None"
  define l1 where "l1 = l\<lparr>hl_pending := p, hl_pending_size := ?n * 2\<rparr>"
  have r1: "haz_reclaim t s = ret (True, haz_put t l1 s)"
    using l(1) sc assms(4,5) by (subst haz_reclaim.simps) (simp add: resize_pending_def l1_def p_def Let_def)
  have l1: "haz_local (haz_put t l1 s) t = ret l1" using t by (simp add: haz_local_def haz_put_def)
  have r2: "haz_reclaim t (haz_put t l1 s) = ret (False, haz_put t l1 s)"
    by (rule haz_reclaim_ready [OF l1]) (use assms(4,5) in \<open>simp add: l1_def\<close>)
  have len: "length p = ?n * 2" using l(2) by (simp add: p_def haz_pend_ok_def)
  define l2 where "l2 = l1\<lparr>hl_pending := p[?n := Some \<lparr>pd_ptr = d, pd_free = f\<rparr>], hl_pending_count := ?n + 1\<rparr>"
  have "haz_defer_free t d f (haz_put t l1 s) = ret (haz_put t l2 (haz_put t l1 s))"
    using r2 l1 len assms(4,5,7,8) by (subst haz_defer_free.simps) (simp add: put_cell_def l1_def l2_def)
  then have "haz_defer_free t d f s = ret (haz_put t l2 (haz_put t l1 s))"
    using r1 assms(7,8) by (subst haz_defer_free.simps) simp
  moreover have "p ! i = None" if "?n div 16 \<le> i" "i < ?n" for i
    using that l(2) by (simp add: p_def nth_append haz_pend_ok_def)
  ultimately show ?thesis using t by (auto simp: haz_put_def l2_def)
qed

theorem haz_resize_loses_pending_witness:
  "\<exists>s'. haz_defer_free 1 192 8 (haz_sample 64) = ret s' \<and> hl_pending (hz_local s' ! 1) ! 4 = None"
  using haz_resize_loses_pending [OF haz_sample_ok(1) _ refl, of 64 1 192 8]
  by (auto simp: haz_sample_ok(2) haz_full_def MAX_NUM_THREADS_def simp del: replicate_numeral_Cons)

text \<open>Registering a dynamic hazard and unregistering it gives back the registered hazards; in between
  the hazard is among them. It holds while the table of the thread has room.\<close>

lemma haz_register_unregister:
  assumes "haz_ok s" and "t < MAX_NUM_THREADS" and "haz_deref s haz = ret x"
    and "hl_dynamic_count (hz_local s ! t) < hl_dynamic_size (hz_local s ! t) \<or> hl_dynamic_size (hz_local s ! t) = 0"
  shows "\<exists>s1 s2. haz_register_dynamic t haz s = ret s1 \<and> haz_ok s1 \<and> mset (dyns (hz_local s1 ! t)) = add_mset haz (mset (dyns (hz_local s ! t))) \<and>
    haz_unregister_dynamic t haz s1 = ret s2 \<and> haz_ok s2 \<and> mset (dyns (hz_local s2 ! t)) = mset (dyns (hz_local s ! t))"
proof -
  have t: "t < length (hz_local s)" using assms(1,2) by (simp add: haz_ok_def)
  obtain s1 l1 where r: "haz_register_dynamic t haz s = ret s1" "haz_ok s1" "s1 = haz_put t l1 s" "dyns l1 = dyns (hz_local s ! t) @ [haz]"
    using haz_register_ok [OF assms(1,2) refl assms(3,4)] by blast
  have l1: "hz_local s1 ! t = l1" "t < length (hz_local s1)" using t r(3) by (simp_all add: haz_put_def)
  then have d1: "haz_dyn_ok s1 l1" "haz_pend_ok l1" using r(2) by (auto simp: haz_ok_def)
  have "haz \<in> set (drop 0 (dyns l1))" by (simp add: r(4))
  then obtain l2 where u: "haz_unregister_loop haz 0 (hl_dynamic_count l1) l1 = ret l2" "haz_dyn_ok s1 l2"
    "mset (dyns l1) = add_mset haz (mset (dyns l2))" "l2 = l1\<lparr>hl_dynamic := hl_dynamic l2, hl_dynamic_count := hl_dynamic_count l2\<rparr>"
    using haz_unregister_loop_ok [OF d1(1), of 0 "hl_dynamic_count l1"] by auto
  have run: "haz_unregister_dynamic t haz s1 = ret (haz_put t l2 s1)" using u(1) l1 by (simp add: haz_unregister_dynamic_def haz_local_def)
  have "haz_pend_ok l2" "hl_static_haz l2 = hl_static_haz l1" using d1(2) by (subst u(4), simp add: haz_pend_ok_def)+
  then have "haz_ok (haz_put t l2 s1)" using haz_ok_put_dyn [OF r(2) assms(2) _ _ u(2)] l1(1) by simp
  moreover have "hz_local (haz_put t l2 s1) ! t = l2" using l1(2) by (simp add: haz_put_def)
  ultimately show ?thesis using r(1,2,4) run u(3) l1(1) by auto
qed

end
