(* ===== verification/Mem.thy ===== *)
theory Mem
  imports Common Chains
begin

text \<open>
  Model of \<^verbatim>\<open>src/src/runtime/mem.c\<close>, the allocator, in the 64-bit build without
  \<^verbatim>\<open>RECYCLE_PAGES\<close> and with assertions. Memory is mapped in regions of at least a page; a page
  is cut into blocks of one power of two, recorded with the owning thread in the page's header. A
  thread keeps a list of free blocks for each size; a block freed by another thread goes to a queue
  between the two threads, from which the owner takes it when its list is empty.

  The static variables are the record \<open>mem_state\<close>: \<open>m_headers_at\<close> is \<^verbatim>\<open>headers_\<close>, and
  \<open>m_headers\<close> the array it points to. \<open>m_word\<close> is the first word of each block, which
  links free blocks. The results of \<^verbatim>\<open>mmap\<close> are given by \<open>m_mmap\<close>, call by call, and \<open>m_os\<close>
  records the calls. A call of \<^verbatim>\<open>nbd_malloc\<close> or \<^verbatim>\<open>nbd_free\<close> is one step; the thread index is an
  argument.
\<close>

section \<open>Data\<close>

definition MAX_SCALE :: nat where "MAX_SCALE = 36"
definition MEM_MIN_SCALE :: nat where "MEM_MIN_SCALE = 3"
definition MAX_POINTER_BITS :: nat where "MAX_POINTER_BITS = 48"
definition PAGE_SCALE :: nat where "PAGE_SCALE = 21"
definition PAGE_SIZE :: uint64_t where "PAGE_SIZE = push_bit PAGE_SCALE 1"

text \<open>A \<^verbatim>\<open>header_t\<close> takes two bytes.\<close>

definition HEADERS_SIZE :: size_t where "HEADERS_SIZE = push_bit (MAX_POINTER_BITS - PAGE_SCALE) 1 * 2"

record header_t =
  hd_owner :: nat
  hd_scale :: nat

text \<open>What a \<^verbatim>\<open>block_t *\<close> of \<^verbatim>\<open>blocks_to\<close> points to: a block, or the element
  \<^verbatim>\<open>tl_[j].blocks_from[i]\<close> taken for one.\<close>

datatype block_ref = Null_Ref | Block addr | Blocks_From nat nat

record tl_t =
  tl_free_list :: "nat \<Rightarrow> addr"
  tl_blocks_from :: "nat \<Rightarrow> addr"
  tl_blocks_to :: "nat \<Rightarrow> block_ref"

datatype os_event = Mmap addr size_t | Munmap addr size_t

record mem_state =
  m_headers_at :: addr
  m_headers :: "nat \<Rightarrow> header_t"
  m_tl :: "nat \<Rightarrow> tl_t"
  m_word :: "addr \<Rightarrow> addr"
  m_mmap :: "addr list"
  m_os :: "os_event list"

definition mem_static_init :: "addr list \<Rightarrow> mem_state" where
  "mem_static_init results = \<lparr>m_headers_at = NULL, m_headers = (\<lambda>_. \<lparr>hd_owner = 0, hd_scale = 0\<rparr>),
     m_tl = (\<lambda>_. \<lparr>tl_free_list = (\<lambda>_. NULL), tl_blocks_from = (\<lambda>_. NULL), tl_blocks_to = (\<lambda>_. Null_Ref)\<rparr>),
     m_word = (\<lambda>_. 0), m_mmap = results, m_os = []\<rparr>"

definition set_tl :: "nat \<Rightarrow> (tl_t \<Rightarrow> tl_t) \<Rightarrow> mem_state \<Rightarrow> mem_state" where
  "set_tl t f s = s\<lparr>m_tl := (m_tl s)(t := f (m_tl s t))\<rparr>"

definition set_next :: "addr \<Rightarrow> addr \<Rightarrow> mem_state \<Rightarrow> mem_state" where
  "set_next b v s = s\<lparr>m_word := (m_word s)(b := v)\<rparr>"

definition set_free_list :: "nat \<Rightarrow> nat \<Rightarrow> addr \<Rightarrow> mem_state \<Rightarrow> mem_state" where
  "set_free_list t k v s = set_tl t (\<lambda>tl. tl\<lparr>tl_free_list := (tl_free_list tl)(k := v)\<rparr>) s"

definition set_blocks_from :: "nat \<Rightarrow> nat \<Rightarrow> addr \<Rightarrow> mem_state \<Rightarrow> mem_state" where
  "set_blocks_from t p v s = set_tl t (\<lambda>tl. tl\<lparr>tl_blocks_from := (tl_blocks_from tl)(p := v)\<rparr>) s"

definition set_blocks_to :: "nat \<Rightarrow> nat \<Rightarrow> block_ref \<Rightarrow> mem_state \<Rightarrow> mem_state" where
  "set_blocks_to t p v s = set_tl t (\<lambda>tl. tl\<lparr>tl_blocks_to := (tl_blocks_to tl)(p := v)\<rparr>) s"

section \<open>Regions\<close>

text \<open>\<^verbatim>\<open>mmap\<close> and \<^verbatim>\<open>munmap\<close>.\<close>

definition mem_mmap :: "size_t \<Rightarrow> mem_state \<Rightarrow> (addr \<times> mem_state) prog" where
  "mem_mmap n s = (case m_mmap s of
      [] \<Rightarrow> fail Exit_Failure
    | r # rs \<Rightarrow> ret (r, s\<lparr>m_mmap := rs, m_os := m_os s @ (if r = -1 then [] else [Mmap r n])\<rparr>))"

definition mem_munmap :: "addr \<Rightarrow> size_t \<Rightarrow> mem_state \<Rightarrow> mem_state" where
  "mem_munmap r n s = s\<lparr>m_os := m_os s @ [Munmap r n]\<rparr>"

text \<open>\<^verbatim>\<open>get_header\<close> gives the index of a header. The array has an element for each page of the address
  space, which is half the number the assertion compares the index with.\<close>

definition get_header :: "addr \<Rightarrow> mem_state \<Rightarrow> nat prog" where
  "get_header r s =
     pbind (passert (drop_bit PAGE_SCALE r < HEADERS_SIZE)) (\<lambda>_.
     if m_headers_at s = NULL \<or> m_headers_at s = -1 then fail Null_Deref
     else if unat (drop_bit PAGE_SCALE r) < 2 ^ (MAX_POINTER_BITS - PAGE_SCALE) then ret (unat (drop_bit PAGE_SCALE r))
     else fail Out_Of_Bounds)"

text \<open>The part of \<^verbatim>\<open>get_new_region\<close> that maps a region aligned at its size.\<close>

definition map_region :: "size_t \<Rightarrow> mem_state \<Rightarrow> (addr \<times> mem_state) prog" where
  "map_region region_size s =
     pbind (mem_mmap region_size s) (\<lambda>(region, s).
     if region = -1 then fail Exit_Failure
     else if region AND (region_size - 1) \<noteq> 0 then
       let s = mem_munmap region region_size s
       in pbind (mem_mmap (region_size * 2) s) (\<lambda>(region, s).
          if region = -1 then fail Exit_Failure
          else
            let aligned = (region + region_size) AND NOT (region_size - 1);
                extra = aligned - region;
                s = (if extra \<noteq> 0 then mem_munmap region extra s else s);
                extra = (region + region_size) - aligned;
                s = (if extra \<noteq> 0 then mem_munmap (aligned + region_size) extra s else s)
            in ret (aligned, s))
     else ret (region, s))"

definition get_new_region :: "nat \<Rightarrow> nat \<Rightarrow> mem_state \<Rightarrow> (addr \<times> mem_state) prog" where
  "get_new_region thread_index block_scale s =
     (let region_size = push_bit block_scale 1;
          region_size = (if region_size < PAGE_SIZE then PAGE_SIZE else region_size)
      in pbind (map_region region_size s) (\<lambda>(region, s).
         pbind (passert (region \<noteq> NULL)) (\<lambda>_.
         pbind (get_header region s) (\<lambda>h.
         pbind (passert (hd_scale (m_headers s h) = 0)) (\<lambda>_.
         ret (region, s\<lparr>m_headers := (m_headers s)(h := \<lparr>hd_owner = thread_index, hd_scale = block_scale\<rparr>)\<rparr>))))))"

definition mem_init :: "mem_state \<Rightarrow> mem_state prog" where
  "mem_init s =
     pbind (passert (m_headers_at s = NULL)) (\<lambda>_.
     pbind (mem_mmap HEADERS_SIZE s) (\<lambda>(r, s).
     let s = s\<lparr>m_headers_at := r\<rparr>
     in ret (fold (\<lambda>i s. fold (\<lambda>j s. if i \<noteq> j then set_blocks_to i j (Blocks_From j i) s else s) [0..<MAX_NUM_THREADS] s)
          [0..<MAX_NUM_THREADS] s)))"

section \<open>Blocks\<close>

text \<open>The write through \<^verbatim>\<open>tl->blocks_to[b_owner]\<close>.\<close>

definition put_ref :: "block_ref \<Rightarrow> addr \<Rightarrow> mem_state \<Rightarrow> mem_state prog" where
  "put_ref r b s = (case r of
      Null_Ref \<Rightarrow> fail Null_Deref
    | Block a \<Rightarrow> ret (set_next a b s)
    | Blocks_From j i \<Rightarrow> ret (set_blocks_from j i b s))"

text \<open>\<^verbatim>\<open>memset(b, 0xcd, 1ULL << b_scale)\<close>.\<close>

definition bear_trap :: "addr \<Rightarrow> nat \<Rightarrow> mem_state \<Rightarrow> mem_state" where
  "bear_trap b b_scale s = s\<lparr>m_word := (\<lambda>a. if unat (a - b) < 2 ^ b_scale then 0xcdcdcdcdcdcdcdcd else m_word s a)\<rparr>"

definition nbd_free :: "nat \<Rightarrow> addr \<Rightarrow> mem_state \<Rightarrow> mem_state prog" where
  "nbd_free thread_index x s =
     pbind (passert (x \<noteq> NULL)) (\<lambda>_.
     pbind (get_header x s) (\<lambda>h.
     let b_scale = hd_scale (m_headers s h)
     in pbind (passert (b_scale \<noteq> 0 \<and> b_scale \<le> MAX_SCALE)) (\<lambda>_.
        let s = bear_trap x b_scale s;
            tl = m_tl s thread_index;
            b_owner = hd_owner (m_headers s h)
        in if b_owner = thread_index
           then ret (set_free_list thread_index b_scale x (set_next x (tl_free_list tl b_scale) s))
           else pbind (put_ref (tl_blocks_to tl b_owner) x (set_next x NULL s)) (\<lambda>s.
                ret (set_blocks_to thread_index b_owner (Block x) s)))))"

text \<open>The inner loop of \<^verbatim>\<open>process_incoming_blocks\<close>, which moves the blocks of a queue but the last
  to the free lists, and the loop over the queues.\<close>

partial_function (option) incoming_loop :: "nat \<Rightarrow> addr \<Rightarrow> addr \<Rightarrow> mem_state \<Rightarrow> (addr \<times> mem_state) prog" where
  "incoming_loop t b next s =
     (if next = NULL then ret (b, s)
      else pbind (get_header b s) (\<lambda>h.
        let b_scale = hd_scale (m_headers s h);
            s = set_next b (tl_free_list (m_tl s t) b_scale) s;
            s = set_free_list t b_scale b s;
            b = next
        in incoming_loop t b (m_word s b) s))"

primrec process_incoming :: "nat \<Rightarrow> nat list \<Rightarrow> mem_state \<Rightarrow> mem_state prog" where
  "process_incoming t [] s = ret s"
| "process_incoming t (p # ps) s =
     (let b = tl_blocks_from (m_tl s t) p
      in if b = NULL then process_incoming t ps s
         else pbind (incoming_loop t b (m_word s b) s) (\<lambda>(b, s). process_incoming t ps (set_blocks_from t p b s)))"

definition process_incoming_blocks :: "nat \<Rightarrow> mem_state \<Rightarrow> mem_state prog" where
  "process_incoming_blocks t s = process_incoming t [0..<MAX_NUM_THREADS] s"

definition pop_free_list :: "nat \<Rightarrow> nat \<Rightarrow> mem_state \<Rightarrow> (addr \<times> mem_state) prog" where
  "pop_free_list t scale s =
     (let b = tl_free_list (m_tl s t) scale
      in if b = NULL then ret (NULL, s)
         else pbind (get_header b s) (\<lambda>h.
              pbind (passert (hd_scale (m_headers s h) = scale)) (\<lambda>_.
              ret (b, set_free_list t scale (m_word s b) s))))"

text \<open>The loop that breaks a page up, at the offsets that are \<open>n\<close>, ..., 1 times the size of a block.\<close>

primrec carve :: "addr \<Rightarrow> size_t \<Rightarrow> nat \<Rightarrow> addr \<Rightarrow> mem_state \<Rightarrow> addr \<times> mem_state" where
  "carve page block_size 0 head s = (head, s)"
| "carve page block_size (Suc n) head s =
     (let x = page + of_nat (Suc n) * block_size
      in carve page block_size n x (set_next x head s))"

text \<open>\<^verbatim>\<open>__builtin_clzl\<close> is undefined for 0.\<close>

definition builtin_clzl :: "uint64_t \<Rightarrow> nat prog" where
  "builtin_clzl x = (if x = 0 then fail Undefined_Behaviour else ret (length (takeWhile (\<lambda>i. \<not> bit x i) (rev [0..<64]))))"

definition nbd_malloc :: "nat \<Rightarrow> size_t \<Rightarrow> mem_state \<Rightarrow> (addr \<times> mem_state) prog" where
  "nbd_malloc thread_index n s =
     pbind (builtin_clzl (n - 1)) (\<lambda>z.
     let b_scale = 64 - z;
         b_scale = (if b_scale < MEM_MIN_SCALE then MEM_MIN_SCALE else b_scale)
     in if b_scale > MAX_SCALE then ret (NULL, s)
        else
          pbind (pop_free_list thread_index b_scale s) (\<lambda>(b, s).
          if b \<noteq> NULL then ret (b, s)
          else
            pbind (process_incoming_blocks thread_index s) (\<lambda>s.
            pbind (pop_free_list thread_index b_scale s) (\<lambda>(b, s).
            if b \<noteq> NULL then ret (b, s)
            else
              pbind (get_new_region thread_index b_scale s) (\<lambda>(page, s).
              let b = page;
                  s = (if b_scale < PAGE_SCALE then
                         let block_size = push_bit b_scale 1;
                             (head, s) = carve page block_size (unat (PAGE_SIZE - block_size) div unat block_size) NULL s
                         in set_free_list thread_index b_scale head s
                       else s)
              in pbind (passert (b \<noteq> NULL)) (\<lambda>_. ret (b, s)))))))"

lemmas mem_code [code] = incoming_loop.simps

end
