(* ===== verification/Mem_Inv.thy ===== *)
theory Mem_Inv
  imports Mem
begin

text \<open>
  The invariant of the allocator: the blocks of a page are aligned at their size and do not overlap, a
  block in a free list or queue of its owner is in no other, and the blocks handed out are in none.
  The lemmas say how the invariant is kept when a block moves.
\<close>

section \<open>Pages and blocks\<close>

definition page :: "addr \<Rightarrow> nat" where
  "page b = unat b div 2 ^ 21"

definition hscale :: "mem_state \<Rightarrow> addr \<Rightarrow> nat" where
  "hscale s b = hd_scale (m_headers s (page b))"

definition howner :: "mem_state \<Rightarrow> addr \<Rightarrow> nat" where
  "howner s b = hd_owner (m_headers s (page b))"

text \<open>The memory that is mapped.\<close>

primrec map_event :: "os_event \<Rightarrow> nat set \<Rightarrow> nat set" where
  "map_event (Mmap r n) M = M \<union> {unat r..<unat r + unat n}"
| "map_event (Munmap r n) M = M - {unat r..<unat r + unat n}"

definition mapped :: "mem_state \<Rightarrow> nat set" where
  "mapped s = fold map_event (m_os s) {}"

text \<open>The bytes of a block, and what makes an address a block.\<close>

definition blk :: "mem_state \<Rightarrow> addr \<Rightarrow> nat set" where
  "blk s b = {unat b..<unat b + 2 ^ hscale s b}"

definition blk_ok :: "mem_state \<Rightarrow> addr \<Rightarrow> bool" where
  "blk_ok s b \<longleftrightarrow> b \<noteq> NULL \<and> 3 \<le> hscale s b \<and> hscale s b \<le> 36 \<and> howner s b < MAX_NUM_THREADS \<and> 2 ^ hscale s b dvd unat b \<and>
     unat b + 2 ^ hscale s b \<le> 2 ^ 47 \<and> blk s b \<subseteq> mapped s \<and>
     (\<forall>P. page b < P \<and> P * 2 ^ 21 < unat b + 2 ^ hscale s b \<longrightarrow> hd_scale (m_headers s P) = 0)"

lemma dvd_step:
  assumes "d dvd a" and "d dvd b" and "a < b"
  shows "a + d \<le> (b :: nat)"
  using assms by (metis dvd_diff_nat dvd_imp_le le_add_diff_inverse less_imp_le nat_add_left_cancel_le zero_less_diff)

lemma page_end:
  assumes "2 ^ k dvd unat b" and "k \<le> 21"
  shows "unat b + 2 ^ k \<le> (page b + 1) * 2 ^ 21"
proof (rule dvd_step [OF assms(1)])
  have "(2 :: nat) ^ k dvd 2 ^ 21" using assms(2) by (rule le_imp_power_dvd)
  then show "2 ^ k dvd (page b + 1) * 2 ^ 21" by (rule dvd_mult)
  show "unat b < (page b + 1) * 2 ^ 21"
    using div_mult_mod_eq [of "unat b" "2 ^ 21"] mod_less_divisor [of "2 ^ 21" "unat b"] by (simp add: page_def)
qed

lemma page_start: "page b * 2 ^ 21 \<le> unat b"
  by (simp add: page_def)

lemma blk_before:
  assumes "blk_ok s a" and "blk_ok s b" and "unat a < unat b"
  shows "unat a + 2 ^ hscale s a \<le> unat b"
proof (cases "page a = page b")
  case True
  then have "hscale s a = hscale s b" by (simp add: hscale_def)
  then show ?thesis using assms dvd_step [of "2 ^ hscale s a" "unat a" "unat b"] by (simp add: blk_ok_def)
next
  case False
  moreover have "page a \<le> page b" using assms(3) by (simp add: page_def div_le_mono)
  ultimately have p: "page a < page b" by simp
  show ?thesis
  proof (cases "hscale s a \<le> 21")
    case True
    then have "unat a + 2 ^ hscale s a \<le> (page a + 1) * 2 ^ 21" using page_end assms(1) by (simp add: blk_ok_def)
    also have "\<dots> \<le> page b * 2 ^ 21" using p by (intro mult_le_mono1) simp
    also have "\<dots> \<le> unat b" by (rule page_start)
    finally show ?thesis .
  next
    case False
    show ?thesis
    proof (rule ccontr)
      assume "\<not> ?thesis"
      then have "page b * 2 ^ 21 < unat a + 2 ^ hscale s a" using page_start [of b] by simp
      then have "hscale s b = 0" using assms(1) p by (auto simp: blk_ok_def hscale_def)
      then show False using assms(2) by (simp add: blk_ok_def)
    qed
  qed
qed

text \<open>Two blocks do not overlap.\<close>

lemma blk_disjoint:
  assumes "blk_ok s a" and "blk_ok s b" and "a \<noteq> b"
  shows "blk s a \<inter> blk s b = {}"
proof -
  have "unat a < unat b \<or> unat b < unat a" using assms(3) by (meson linorder_neqE_nat unsigned_word_eqI)
  then show ?thesis using blk_before [OF assms(1,2)] blk_before [OF assms(2,1)] by (auto simp: blk_def)
qed

lemma unat_less_self_blk: "unat b \<in> blk s b"
  by (simp add: blk_def)

section \<open>Free lists and queues\<close>

datatype place = Free nat nat | Queue nat nat

primrec place_head :: "mem_state \<Rightarrow> place \<Rightarrow> addr" where
  "place_head s (Free t k) = tl_free_list (m_tl s t) k"
| "place_head s (Queue i j) = tl_blocks_from (m_tl s j) i"

primrec set_head :: "place \<Rightarrow> addr \<Rightarrow> mem_state \<Rightarrow> mem_state" where
  "set_head (Free t k) v s = set_free_list t k v s"
| "set_head (Queue i j) v s = set_blocks_from j i v s"

primrec placed :: "mem_state \<Rightarrow> place \<Rightarrow> addr \<Rightarrow> bool" where
  "placed s (Free t k) b \<longleftrightarrow> hscale s b = k \<and> howner s b = t"
| "placed s (Queue i j) b \<longleftrightarrow> howner s b = j \<and> i \<noteq> j"

definition queue_end :: "addr list \<Rightarrow> nat \<Rightarrow> nat \<Rightarrow> block_ref" where
  "queue_end bs i j = (if bs = [] then Blocks_From j i else Block (last bs))"

text \<open>\<open>L\<close> gives the blocks of every list and queue, \<open>A\<close> is the set of blocks handed out.\<close>

definition mem_rep :: "mem_state \<Rightarrow> (place \<Rightarrow> addr list) \<Rightarrow> addr set \<Rightarrow> bool" where
  "mem_rep s L A \<longleftrightarrow> m_headers_at s \<noteq> NULL \<and> m_headers_at s \<noteq> -1 \<and>
     (\<forall>pl. lseg (m_word s) (place_head s pl) (L pl) NULL \<and> distinct (L pl) \<and> (\<forall>b \<in> set (L pl). blk_ok s b \<and> placed s pl b)) \<and>
     (\<forall>pl pl'. pl \<noteq> pl' \<longrightarrow> set (L pl) \<inter> set (L pl') = {}) \<and>
     (\<forall>a \<in> A. blk_ok s a \<and> (\<forall>pl. a \<notin> set (L pl))) \<and>
     (\<forall>i < MAX_NUM_THREADS. \<forall>j < MAX_NUM_THREADS. i \<noteq> j \<longrightarrow> tl_blocks_to (m_tl s i) j = queue_end (L (Queue i j)) i j) \<and>
     (\<forall>P. hd_scale (m_headers s P) \<noteq> 0 \<longrightarrow> P * 2 ^ 21 \<in> mapped s)"

lemma mem_repD:
  assumes "mem_rep s L A"
  shows "m_headers_at s \<noteq> NULL \<and> m_headers_at s \<noteq> -1" "lseg (m_word s) (place_head s pl) (L pl) NULL" "distinct (L pl)"
    "b \<in> set (L pl) \<Longrightarrow> blk_ok s b" "b \<in> set (L pl) \<Longrightarrow> placed s pl b" "pl \<noteq> pl' \<Longrightarrow> set (L pl) \<inter> set (L pl') = {}"
    "a \<in> A \<Longrightarrow> blk_ok s a" "a \<in> A \<Longrightarrow> a \<notin> set (L pl)"
    "i < MAX_NUM_THREADS \<Longrightarrow> j < MAX_NUM_THREADS \<Longrightarrow> i \<noteq> j \<Longrightarrow> tl_blocks_to (m_tl s i) j = queue_end (L (Queue i j)) i j"
    "hd_scale (m_headers s P) \<noteq> 0 \<Longrightarrow> P * 2 ^ 21 \<in> mapped s"
  using assms unfolding mem_rep_def by blast+

text \<open>Changes that leave pages and headers alone.\<close>

definition same_pages :: "mem_state \<Rightarrow> mem_state \<Rightarrow> bool" where
  "same_pages s s' \<longleftrightarrow> m_headers s' = m_headers s \<and> m_headers_at s' = m_headers_at s \<and> m_os s' = m_os s \<and> m_mmap s' = m_mmap s"

lemma same_pages_refl [simp]: "same_pages s s"
  by (simp add: same_pages_def)

lemma same_pages_trans: "same_pages s s' \<Longrightarrow> same_pages s' s'' \<Longrightarrow> same_pages s s''"
  by (simp add: same_pages_def)

lemma same_pages_eqs:
  assumes "same_pages s s'"
  shows "hscale s' = hscale s" "howner s' = howner s" "mapped s' = mapped s" "blk s' = blk s" "blk_ok s' = blk_ok s" "placed s' = placed s"
proof -
  show h: "hscale s' = hscale s" "howner s' = howner s" "mapped s' = mapped s"
    using assms by (simp_all add: same_pages_def hscale_def howner_def mapped_def fun_eq_iff)
  then show b: "blk s' = blk s" by (simp add: blk_def fun_eq_iff)
  show "blk_ok s' = blk_ok s" using assms h b by (simp add: blk_ok_def fun_eq_iff same_pages_def)
  show "placed s' = placed s"
  proof (intro ext)
    fix pl b
    show "placed s' pl b = placed s pl b" using h by (cases pl) simp_all
  qed
qed

lemma set_pages [simp]: "same_pages s (set_next b v s)" "same_pages s (set_head pl v s)" "same_pages s (set_blocks_to i j r s)"
    "same_pages s (bear_trap b k s)" "same_pages s (set_free_list t k v s)" "same_pages s (set_blocks_from t k v s)"
  by (cases pl; simp add: same_pages_def set_next_def set_blocks_to_def set_blocks_from_def set_free_list_def set_tl_def bear_trap_def)+

lemma set_head_sel [simp]:
  "place_head (set_head pl v s) pl' = (if pl' = pl then v else place_head s pl')"
  "tl_blocks_to (m_tl (set_head pl v s) i) j = tl_blocks_to (m_tl s i) j" "m_word (set_head pl v s) = m_word s"
  by (cases pl; cases pl'; auto simp: set_free_list_def set_blocks_from_def set_tl_def)+

lemma set_next_sel [simp]:
  "place_head (set_next b v s) pl = place_head s pl" "m_tl (set_next b v s) = m_tl s" "m_word (set_next b v s) = (m_word s)(b := v)"
  by (cases pl; simp add: set_next_def)+

lemma set_blocks_to_sel [simp]:
  "place_head (set_blocks_to i j r s) pl = place_head s pl" "m_word (set_blocks_to i j r s) = m_word s"
  "tl_blocks_to (m_tl (set_blocks_to i j r s) i') j' = (if i' = i \<and> j' = j then r else tl_blocks_to (m_tl s i') j')"
  by (cases pl; simp add: set_blocks_to_def set_tl_def)+

lemma get_header_ok:
  assumes "blk_ok s b" and "m_headers_at s \<noteq> NULL \<and> m_headers_at s \<noteq> -1"
  shows "get_header b s = ret (page b)"
proof -
  have "unat b + 2 ^ hscale s b \<le> 2 ^ 47" using assms(1) by (simp add: blk_ok_def)
  moreover have "(0 :: nat) < 2 ^ hscale s b" by simp
  ultimately have "unat b < 2 ^ 47" by linarith
  then have "page b < 2 ^ 26" by (simp add: page_def less_mult_imp_div_less)
  moreover have dp: "unat (drop_bit PAGE_SCALE b) = page b"
    unfolding PAGE_SCALE_def page_def by (rule trans [OF unat_drop_bit_eq drop_bit_eq_div])
  ultimately have d: "unat (drop_bit PAGE_SCALE b) < 2 ^ 26" "unat (drop_bit PAGE_SCALE b) = page b" by simp_all
  have "unat HEADERS_SIZE = 2 ^ 28" by (simp add: HEADERS_SIZE_def MAX_POINTER_BITS_def PAGE_SCALE_def)
  then have "drop_bit PAGE_SCALE b < HEADERS_SIZE" using d(1) by (simp add: word_less_nat_alt)
  then show ?thesis using d assms(2) by (simp add: get_header_def MAX_POINTER_BITS_def PAGE_SCALE_def)
qed

section \<open>Moving blocks\<close>

lemma mem_repI:
  assumes "mem_rep s L A" and "same_pages s s'"
    and "\<And>pl. lseg (m_word s') (place_head s' pl) (L' pl) NULL" and "\<And>pl. distinct (L' pl)"
    and "\<And>pl b. b \<in> set (L' pl) \<Longrightarrow> blk_ok s b \<and> placed s pl b" and "\<And>pl pl'. pl \<noteq> pl' \<Longrightarrow> set (L' pl) \<inter> set (L' pl') = {}"
    and "\<And>a. a \<in> A' \<Longrightarrow> blk_ok s a \<and> (\<forall>pl. a \<notin> set (L' pl))"
    and "\<And>i j. i < MAX_NUM_THREADS \<Longrightarrow> j < MAX_NUM_THREADS \<Longrightarrow> i \<noteq> j \<Longrightarrow> tl_blocks_to (m_tl s' i) j = queue_end (L' (Queue i j)) i j"
  shows "mem_rep s' L' A'"
  unfolding mem_rep_def same_pages_eqs [OF assms(2)] using assms mem_repD(1,10) [OF assms(1)] by (simp add: same_pages_def)

lemma mem_rep_pop:
  assumes "mem_rep s L A" and "L pl = b # bs" and "\<And>i j. pl = Queue i j \<Longrightarrow> bs \<noteq> []"
  shows "mem_rep (set_head pl (m_word s b) s) (L(pl := bs)) (insert b A)"
proof (rule mem_repI [OF assms(1)])
  note R = mem_repD [OF assms(1)]
  show "lseg (m_word (set_head pl (m_word s b) s)) (place_head (set_head pl (m_word s b) s) pl') ((L(pl := bs)) pl') NULL" for pl'
    using R(2) [of pl] R(2) [of pl'] assms(2) by simp
  show "distinct ((L(pl := bs)) pl')" for pl' using R(3) [of pl'] R(3) [of pl] assms(2) by simp
  show "blk_ok s b' \<and> placed s pl' b'" if "b' \<in> set ((L(pl := bs)) pl')" for pl' b'
    using that R(4,5) [of b' pl'] assms(2) by (auto split: if_splits)
  show "set ((L(pl := bs)) p) \<inter> set ((L(pl := bs)) p') = {}" if "p \<noteq> p'" for p p'
    using R(6) [OF that] assms(2) that by auto
  have "b \<notin> set (L pl')" if "pl' \<noteq> pl" for pl' using R(6) [OF that] assms(2) by auto
  then show "blk_ok s a \<and> (\<forall>pl'. a \<notin> set ((L(pl := bs)) pl'))" if "a \<in> insert b A" for a
    using that R(3) [of pl] R(4) [of b pl] R(7) [of a] R(8) [of a pl] R(8) [of a] assms(2) by auto
  show "tl_blocks_to (m_tl (set_head pl (m_word s b) s) i) j = queue_end ((L(pl := bs)) (Queue i j)) i j"
    if "i < MAX_NUM_THREADS" "j < MAX_NUM_THREADS" "i \<noteq> j" for i j
    using R(9) [OF that] assms(2,3) by (auto simp: queue_end_def)
qed simp

lemma mem_rep_push:
  assumes "mem_rep s L A" and "b \<in> A" and "hscale s b = k" and "howner s b = t"
  shows "mem_rep (set_free_list t k b (set_next b (tl_free_list (m_tl s t) k) s)) (L(Free t k := b # L (Free t k))) (A - {b})"
proof -
  note R = mem_repD [OF assms(1)]
  define s' where "s' = set_head (Free t k) b (set_next b (place_head s (Free t k)) s)"
  have nin: "b \<notin> set (L pl)" for pl using R(8) [OF assms(2)] .
  have "mem_rep s' (L(Free t k := b # L (Free t k))) (A - {b})"
  proof (rule mem_repI [OF assms(1)])
    show "same_pages s s'" unfolding s'_def by (rule same_pages_trans [OF set_pages(1) set_pages(2)])
    have fr: "lseg ((m_word s)(b := v)) p (L pl) NULL = lseg (m_word s) p (L pl) NULL" for v p pl
      by (rule lseg_frame) (use nin in auto)
    show "lseg (m_word s') (place_head s' pl) ((L(Free t k := b # L (Free t k))) pl) NULL" for pl
      using R(2) [of pl] R(2) [of "Free t k"] by (simp add: s'_def fr del: place_head.simps set_head.simps)
    show "distinct ((L(Free t k := b # L (Free t k))) pl)" for pl using R(3) nin by simp
    show "blk_ok s b' \<and> placed s pl b'" if "b' \<in> set ((L(Free t k := b # L (Free t k))) pl)" for pl b'
      using that R(4,5) [of b' pl] R(7) [OF assms(2)] assms(3,4) by (auto split: if_splits)
    show "set ((L(Free t k := b # L (Free t k))) p) \<inter> set ((L(Free t k := b # L (Free t k))) p') = {}" if "p \<noteq> p'" for p p'
      using R(6) [OF that] nin that by auto
    show "blk_ok s a \<and> (\<forall>pl. a \<notin> set ((L(Free t k := b # L (Free t k))) pl))" if "a \<in> A - {b}" for a
      using that R(7,8) [of a] by auto
    show "tl_blocks_to (m_tl s' i) j = queue_end ((L(Free t k := b # L (Free t k))) (Queue i j)) i j"
      if "i < MAX_NUM_THREADS" "j < MAX_NUM_THREADS" "i \<noteq> j" for i j
      using R(9) [OF that] by (simp add: s'_def del: set_head.simps)
  qed
  then show ?thesis by (simp add: s'_def)
qed

lemma mem_rep_enqueue:
  assumes "mem_rep s L A" and "b \<in> A" and "howner s b = j" and "i \<noteq> j" and "i < MAX_NUM_THREADS" and "j < MAX_NUM_THREADS"
  shows "\<exists>s1. put_ref (tl_blocks_to (m_tl s i) j) b (set_next b NULL s) = ret s1 \<and> same_pages s s1 \<and>
    mem_rep (set_blocks_to i j (Block b) s1) (L(Queue i j := L (Queue i j) @ [b])) (A - {b})"
proof -
  note R = mem_repD [OF assms(1)]
  let ?q = "L (Queue i j)" and ?L = "L(Queue i j := L (Queue i j) @ [b])"
  have nin: "b \<notin> set (L pl)" for pl using R(8) [OF assms(2)] .
  have fr: "lseg ((m_word s)(b := v)) p (L pl) NULL = lseg (m_word s) p (L pl) NULL" for v p pl
    by (rule lseg_frame) (use nin in auto)
  define s1 where "s1 = (if ?q = [] then set_head (Queue i j) b (set_next b NULL s) else set_next (last ?q) b (set_next b NULL s))"
  have run: "put_ref (tl_blocks_to (m_tl s i) j) b (set_next b NULL s) = ret s1"
    using R(9) [OF assms(5,6,4)] by (simp add: put_ref_def queue_end_def s1_def)
  have sp: "same_pages s s1" unfolding s1_def using same_pages_trans [OF set_pages(1) set_pages(2)] same_pages_trans [OF set_pages(1) set_pages(1)] by (simp del: set_head.simps)
  have "mem_rep (set_blocks_to i j (Block b) s1) ?L (A - {b})"
  proof (rule mem_repI [OF assms(1)])
    show "same_pages s (set_blocks_to i j (Block b) s1)" by (rule same_pages_trans [OF sp set_pages(3)])
    show "lseg (m_word (set_blocks_to i j (Block b) s1)) (place_head (set_blocks_to i j (Block b) s1) pl) (?L pl) NULL" for pl
    proof (cases "?q = []")
      case True
      then show ?thesis using R(2) [of pl] fr by (simp add: s1_def del: place_head.simps set_head.simps)
    next
      case False
      then obtain xs x where q: "?q = xs @ [x]" by (cases ?q rule: rev_exhaust) auto
      have m: "m_word s1 = (m_word s)(b := NULL, x := b)" "place_head s1 p = place_head s p" for p using False q by (simp_all add: s1_def)
      have xb: "x \<noteq> b" using nin [of "Queue i j"] q by auto
      show ?thesis
      proof (cases "pl = Queue i j")
        case True
        have "lseg (m_word s) (place_head s pl) (xs @ [x]) NULL" using R(2) [of "Queue i j"] True q by simp
        then have "lseg (m_word s) (place_head s pl) xs x" by (auto simp: lseg_append)
        moreover have "lseg ((m_word s)(b := NULL, x := b)) p xs x = lseg (m_word s) p xs x" for p
          by (rule lseg_frame) (use nin [of "Queue i j"] R(3) [of "Queue i j"] q in auto)
        ultimately show ?thesis using True xb by (simp add: m q lseg_append del: place_head.simps)
      next
        case False
        have "x \<notin> set (L pl)" using R(6) [OF False] q by auto
        then have "lseg ((m_word s)(b := NULL, x := b)) p (L pl) NULL = lseg (m_word s) p (L pl) NULL" for p
          by (intro lseg_frame) (use nin in auto)
        then show ?thesis using R(2) [of pl] False by (simp add: m)
      qed
    qed
    show "distinct (?L pl)" for pl using R(3) nin by simp
    show "blk_ok s b' \<and> placed s pl b'" if "b' \<in> set (?L pl)" for pl b'
      using that R(4,5) [of b' pl] R(7) [OF assms(2)] assms(3,4) by (auto split: if_splits)
    show "set (?L p) \<inter> set (?L p') = {}" if "p \<noteq> p'" for p p'
      using R(6) [OF that] nin that by auto
    show "blk_ok s a \<and> (\<forall>pl. a \<notin> set (?L pl))" if "a \<in> A - {b}" for a
      using that R(7,8) [of a] by auto
    show "tl_blocks_to (m_tl (set_blocks_to i j (Block b) s1) i') j' = queue_end (?L (Queue i' j')) i' j'"
      if "i' < MAX_NUM_THREADS" "j' < MAX_NUM_THREADS" "i' \<noteq> j'" for i' j'
      using R(9) [OF that] by (simp add: s1_def queue_end_def del: set_head.simps)
  qed
  then show ?thesis using run sp by blast
qed

lemma mem_rep_trap:
  assumes "mem_rep s L A" and "b \<in> A"
  shows "mem_rep (bear_trap b (hscale s b) s) L A"
proof (rule mem_repI [OF assms(1)])
  note R = mem_repD [OF assms(1)]
  let ?s = "bear_trap b (hscale s b) s"
  have ph: "place_head ?s pl = place_head s pl" "tl_blocks_to (m_tl ?s i) j = tl_blocks_to (m_tl s i) j" for pl i j
    by (cases pl; simp add: bear_trap_def)+
  have "m_word ?s a = m_word s a" if a: "a \<in> set (L pl)" for a pl
  proof -
    have ne: "a \<noteq> b" using R(8) [OF assms(2)] a by blast
    have "unat a \<notin> blk s b" using blk_disjoint [OF R(4) [OF a] R(7) [OF assms(2)] ne] unat_less_self_blk by blast
    moreover have "unat (a - b) \<ge> 2 ^ hscale s b" if "unat a < unat b"
    proof -
      have "unat (a - b) = 2 ^ 64 - (unat b - unat a)" using that by (simp add: unat_sub_if')
      moreover have "unat b + 2 ^ hscale s b \<le> 2 ^ 47" using R(7) [OF assms(2)] by (simp add: blk_ok_def)
      ultimately show ?thesis by simp
    qed
    moreover have "unat (a - b) = unat a - unat b" if "unat b \<le> unat a" using that by (simp add: unat_sub_if')
    ultimately show ?thesis by (force simp: bear_trap_def blk_def)
  qed
  then show "lseg (m_word ?s) (place_head ?s pl) (L pl) NULL" for pl
    using R(2) [of pl] lseg_frame [of "L pl" "m_word ?s" "m_word s"] by (simp add: ph)
  show "same_pages s ?s" by simp
  show "tl_blocks_to (m_tl ?s i) j = queue_end (L (Queue i j)) i j" if "i < MAX_NUM_THREADS" "j < MAX_NUM_THREADS" "i \<noteq> j" for i j
    using R(9) [OF that] by (simp add: ph)
qed (use mem_repD [OF assms(1)] in auto)

section \<open>The queues are emptied into the free lists\<close>

lemma incoming_loop_ok:
  assumes "mem_rep (set_blocks_from t p b s) L A" and "L (Queue p t) = b # bs"
  shows "\<exists>b' s' L'. incoming_loop t b (m_word s b) s = ret (b', s') \<and> same_pages s s' \<and> mem_rep (set_blocks_from t p b' s') L' A"
  using assms
proof (induction bs arbitrary: b s L)
  case Nil
  have "m_word s b = NULL"
    using mem_repD(2) [OF Nil.prems(1), of "Queue p t"] Nil.prems(2) by (auto simp: set_blocks_from_def set_tl_def)
  then show ?case using Nil.prems(1) same_pages_refl by (subst incoming_loop.simps) auto
next
  case (Cons c bs)
  let ?s0 = "set_blocks_from t p b s"
  note R = mem_repD [OF Cons.prems(1)]
  have w0: "m_word ?s0 = m_word s" "m_headers ?s0 = m_headers s" "m_headers_at ?s0 = m_headers_at s" by (simp_all add: set_blocks_from_def set_tl_def)
  have "same_pages s ?s0" by simp
  note e0 = same_pages_eqs(5,1,2) [OF this]
  have bq: "b \<in> set (L (Queue p t))" "c \<in> set (L (Queue p t))" using Cons.prems(2) by simp_all
  have "lseg (m_word s) b (b # c # bs) NULL" using R(2) [of "Queue p t"] Cons.prems(2) w0 by auto
  then have nx: "m_word s b = c" by simp
  have c: "c \<noteq> NULL" "b \<noteq> c" using R(4) [OF bq(2)] R(3) [of "Queue p t"] Cons.prems(2) by (auto simp: blk_ok_def)
  have b: "blk_ok s b" "howner s b = t" using R(4,5) [OF bq(1)] e0 by auto
  let ?k = "hscale s b"
  define s1 where "s1 = set_free_list t ?k b (set_next b (tl_free_list (m_tl s t) ?k) s)"
  have gh: "get_header b s = ret (page b)" using get_header_ok [OF b(1)] R(1) w0 by simp
  have w1: "m_word s1 c = m_word s c" using c(2) by (simp add: s1_def set_free_list_def set_tl_def set_next_def)
  have run: "incoming_loop t b (m_word s b) s = incoming_loop t c (m_word s1 c) s1"
    using gh c(1) nx by (subst incoming_loop.simps) (simp add: Let_def s1_def hscale_def)
  define L1 where "L1 = L(Queue p t := c # bs)"
  have r1: "mem_rep (set_head (Queue p t) (m_word ?s0 b) ?s0) L1 (insert b A)"
    unfolding L1_def by (rule mem_rep_pop [OF Cons.prems(1,2)]) simp
  have s0: "set_head (Queue p t) (m_word ?s0 b) ?s0 = set_blocks_from t p c s"
    using nx w0 by (simp add: set_blocks_from_def set_tl_def)
  let ?s2 = "set_blocks_from t p c s"
  have sp2: "same_pages s ?s2" by simp
  have e2: "hscale ?s2 b = ?k" "howner ?s2 b = t" using b(2) same_pages_eqs(1,2) [OF sp2] by simp_all
  have bA: "b \<notin> A" using mem_repD(8) [OF Cons.prems(1)] bq(1) by blast
  have "mem_rep (set_free_list t ?k b (set_next b (tl_free_list (m_tl ?s2 t) ?k) ?s2)) (L1(Free t ?k := b # L1 (Free t ?k))) (insert b A - {b})"
    by (rule mem_rep_push [OF r1 [unfolded s0] _ e2]) simp
  moreover have "set_free_list t ?k b (set_next b (tl_free_list (m_tl ?s2 t) ?k) ?s2) = set_blocks_from t p c s1"
    by (cases "m_tl s t") (simp add: s1_def set_free_list_def set_blocks_from_def set_tl_def set_next_def)
  ultimately have r2: "mem_rep (set_blocks_from t p c s1) (L1(Free t ?k := b # L1 (Free t ?k))) A" using bA by simp
  have "(L1(Free t ?k := b # L1 (Free t ?k))) (Queue p t) = c # bs" by (simp add: L1_def)
  from Cons.IH [OF r2 this] obtain b' s' L' where "incoming_loop t c (m_word s1 c) s1 = ret (b', s')" "same_pages s1 s'"
    "mem_rep (set_blocks_from t p b' s') L' A" by blast
  moreover have "same_pages s s1" unfolding s1_def by (rule same_pages_trans [OF set_pages(1) set_pages(5)])
  ultimately show ?case using run same_pages_trans by auto
qed

lemma process_incoming_ok:
  assumes "mem_rep s L A"
  shows "\<exists>s' L'. process_incoming t ps s = ret s' \<and> same_pages s s' \<and> mem_rep s' L' A"
  using assms
proof (induction ps arbitrary: s L)
  case (Cons p ps)
  let ?b = "tl_blocks_from (m_tl s t) p"
  show ?case
  proof (cases "?b = NULL")
    case True
    then show ?thesis using Cons by simp
  next
    case False
    have "lseg (m_word s) ?b (L (Queue p t)) NULL" using mem_repD(2) [OF Cons.prems, of "Queue p t"] by simp
    then obtain bs where q: "L (Queue p t) = ?b # bs" using False by (cases "L (Queue p t)") auto
    have "set_blocks_from t p ?b s = s" by (simp add: set_blocks_from_def set_tl_def)
    then obtain b' s' L' where l: "incoming_loop t ?b (m_word s ?b) s = ret (b', s')" "same_pages s s'" "mem_rep (set_blocks_from t p b' s') L' A"
      using incoming_loop_ok [of t p ?b s L A bs] q Cons.prems by auto
    obtain s2 L2 where "process_incoming t ps (set_blocks_from t p b' s') = ret s2" "same_pages (set_blocks_from t p b' s') s2" "mem_rep s2 L2 A"
      using Cons.IH [OF l(3)] by blast
    moreover have "same_pages s (set_blocks_from t p b' s')" by (rule same_pages_trans [OF l(2) set_pages(6)])
    ultimately show ?thesis using False l(1) same_pages_trans by (auto simp: Let_def)
  qed
qed (auto intro: same_pages_refl)

lemma pop_free_list_ok:
  assumes "mem_rep s L A"
  shows "(pop_free_list t k s = ret (NULL, s) \<and> L (Free t k) = []) \<or>
    (\<exists>b s' L'. pop_free_list t k s = ret (b, s') \<and> b \<noteq> NULL \<and> b \<notin> A \<and> hscale s b = k \<and> same_pages s s' \<and> mem_rep s' L' (insert b A) \<and>
      b = tl_free_list (m_tl s t) k)"
proof (cases "L (Free t k)")
  case Nil
  then have "tl_free_list (m_tl s t) k = NULL" using mem_repD(2) [OF assms, of "Free t k"] by simp
  then show ?thesis using Nil by (simp add: pop_free_list_def)
next
  case (Cons b bs)
  note R = mem_repD [OF assms]
  have b: "b \<in> set (L (Free t k))" using Cons by simp
  have hd: "tl_free_list (m_tl s t) k = b" using R(2) [of "Free t k"] Cons by simp
  have ok: "blk_ok s b" "hscale s b = k" using R(4,5) [OF b] by auto
  have "pop_free_list t k s = ret (b, set_free_list t k (m_word s b) s)"
    using hd get_header_ok [OF ok(1) R(1)] ok by (simp add: pop_free_list_def blk_ok_def hscale_def)
  moreover have "mem_rep (set_free_list t k (m_word s b) s) (L(Free t k := bs)) (insert b A)"
    using mem_rep_pop [OF assms Cons] by simp
  moreover have "b \<notin> A" using R(8) b by blast
  ultimately show ?thesis using ok hd set_pages(5) by (auto simp: blk_ok_def)
qed

end
