(* ===== verification/Mem_Props.thy ===== *)
theory Mem_Props
  imports Mem_Inv
begin

text \<open>
  Correctness of the allocator. What is assumed of the operating system is that \<^verbatim>\<open>mmap\<close>, when
  it succeeds, returns memory that was not mapped.
\<close>

section \<open>New regions\<close>

definition grant :: "addr \<Rightarrow> nat \<Rightarrow> nat set \<Rightarrow> bool" where
  "grant r n M \<longleftrightarrow> r \<noteq> NULL \<and> r \<noteq> -1 \<and> unat r + n \<le> 2 ^ 47 \<and> {unat r..<unat r + n} \<inter> M = {}"

lemma grant_first: "grant r (2 ^ m) M \<Longrightarrow> unat r \<notin> M"
proof
  assume "grant r (2 ^ m) M" "unat r \<in> M"
  moreover have "unat r \<in> {unat r..<unat r + 2 ^ m}" by simp
  ultimately show False unfolding grant_def by blast
qed

text \<open>The next calls of \<^verbatim>\<open>mmap\<close> succeed: one for \<open>2 ^ m\<close> bytes, and another for twice as many if the
  first region is not aligned.\<close>

definition os_ok :: "nat \<Rightarrow> mem_state \<Rightarrow> bool" where
  "os_ok m s \<longleftrightarrow> (\<exists>r rs. m_mmap s = r # rs \<and> grant r (2 ^ m) (mapped s) \<and>
     (\<not> 2 ^ m dvd unat r \<longrightarrow> (\<exists>r' rs'. rs = r' # rs' \<and> grant r' (2 * 2 ^ m) (mapped s))))"

lemma unat_pow: "m < 64 \<Longrightarrow> unat (push_bit m 1 :: uint64_t) = 2 ^ m"
proof -
  assume "m < 64"
  then have "(2 :: nat) ^ m < 2 ^ 64" by (rule power_strict_increasing) simp
  then show ?thesis by (simp only: unsigned_push_bit_eq) (simp add: take_bit_eq_mod)
qed

lemma and_low_eq_0: "m < 64 \<Longrightarrow> (x :: uint64_t) AND (push_bit m 1 - 1) = 0 \<longleftrightarrow> 2 ^ m dvd unat x"
proof -
  have "x AND (push_bit m 1 - 1) = take_bit m x" by (metis MASK_def and_MASK)
  moreover have "unat (take_bit m x) = unat x mod 2 ^ m" by (metis unsigned_take_bit_eq take_bit_eq_mod)
  ultimately show ?thesis by (metis dvd_eq_mod_eq_0 unat_0 unsigned_word_eqI)
qed

lemma unat_align: "m < 64 \<Longrightarrow> unat ((x :: uint64_t) AND NOT (push_bit m 1 - 1)) = unat x div 2 ^ m * 2 ^ m"
proof -
  have "x AND NOT (push_bit m 1 - 1) = x AND NOT (mask m)" by (metis MASK_def MASK_eq_mask)
  also have "\<dots> = push_bit m (drop_bit m x)" by (rule bit_word_eqI) (auto simp: bit_simps)
  finally have "unat (x AND NOT (push_bit m 1 - 1)) = take_bit 64 (push_bit m (drop_bit m (unat x)))"
    by (simp only: unsigned_push_bit_eq unat_drop_bit_eq) simp
  also have "\<dots> = unat x div 2 ^ m * 2 ^ m"
  proof -
    have "unat x div 2 ^ m * 2 ^ m \<le> unat x" by simp
    moreover have "unat x < 2 ^ 64" using unsigned_less [of x] by simp
    ultimately have "unat x div 2 ^ m * 2 ^ m < 2 ^ 64" by (rule le_less_trans)
    then show ?thesis by (simp add: push_bit_eq_mult drop_bit_eq_div take_bit_eq_mod)
  qed
  finally show ?thesis .
qed

lemma mapped_events:
  "mapped (s\<lparr>m_mmap := rs, m_os := m_os s @ [Mmap r n]\<rparr>) = mapped s \<union> {unat r..<unat r + unat n}"
  "mapped (mem_munmap r n s) = mapped s - {unat r..<unat r + unat n}"
  by (simp_all add: mapped_def mem_munmap_def)

lemma region_size_eq:
  assumes "k \<le> 36"
  shows "(if push_bit k 1 < PAGE_SIZE then PAGE_SIZE else push_bit k 1) = (push_bit (max k 21) 1 :: uint64_t)"
proof -
  have "(2 :: nat) ^ k < 2 ^ 21 \<longleftrightarrow> k < 21" by (rule power_strict_increasing_iff) simp
  then have "push_bit k 1 < PAGE_SIZE \<longleftrightarrow> k < 21"
    using assms unat_pow [of k] unat_pow [of 21] by (simp add: word_less_nat_alt PAGE_SIZE_def PAGE_SCALE_def)
  then show ?thesis by (auto simp: PAGE_SIZE_def PAGE_SCALE_def max_def)
qed

text \<open>Making an unaligned region aligned: what is cut off at the two ends.\<close>

lemma align_region:
  fixes r :: addr
  assumes "m < 47" and "unat r + 2 * 2 ^ m \<le> 2 ^ 47"
  defines "n \<equiv> push_bit m 1" and "al \<equiv> (r + push_bit m 1) AND NOT (push_bit m 1 - 1)"
  shows "2 ^ m dvd unat al" "unat r < unat al" "unat al \<le> unat r + 2 ^ m" "unat (al - r) = unat al - unat r"
    "unat (r + n - al) = unat r + 2 ^ m - unat al" "unat (al + n) = unat al + 2 ^ m" "unat (r + n) = unat r + 2 ^ m"
proof -
  have n: "unat n = 2 ^ m" using unat_pow [of m] assms(1) by (simp add: n_def)
  have lt: "unat r + 2 * 2 ^ m < 2 ^ 64" using assms(2) by simp
  show rn: "unat (r + n) = unat r + 2 ^ m" using n lt by (simp add: unat_word_ariths)
  have al: "unat al = (unat r + 2 ^ m) div 2 ^ m * 2 ^ m" using unat_align [of m "r + n"] assms(1) rn by (simp add: al_def n_def)
  then show "2 ^ m dvd unat al" by simp
  have d: "(unat r + 2 ^ m) div 2 ^ m * 2 ^ m + (unat r + 2 ^ m) mod 2 ^ m = unat r + 2 ^ m" by (rule div_mult_mod_eq)
  show le: "unat al \<le> unat r + 2 ^ m" using al d by linarith
  have "(unat r + 2 ^ m) mod 2 ^ m < 2 ^ m" by simp
  then show gt: "unat r < unat al" using al d by linarith
  show "unat (al - r) = unat al - unat r" using gt by (simp add: unat_sub_if')
  show "unat (r + n - al) = unat r + 2 ^ m - unat al" using le rn by (simp add: unat_sub_if')
  show "unat (al + n) = unat al + 2 ^ m" using le n lt by (simp add: unat_word_ariths)
qed

lemma map_region_ok:
  assumes "os_ok m s" and "m < 47" and "n = push_bit m 1"
  shows "\<exists>r s'. map_region n s = ret (r, s') \<and> grant r (2 ^ m) (mapped s) \<and> 2 ^ m dvd unat r \<and>
    mapped s' = mapped s \<union> {unat r..<unat r + 2 ^ m} \<and> (\<exists>rs os. s' = s\<lparr>m_mmap := rs, m_os := os\<rparr>)"
proof -
  obtain r rs where r: "m_mmap s = r # rs" "grant r (2 ^ m) (mapped s)"
    "\<not> 2 ^ m dvd unat r \<longrightarrow> (\<exists>r' rs'. rs = r' # rs' \<and> grant r' (2 * 2 ^ m) (mapped s))"
    using assms(1) by (auto simp: os_ok_def)
  have n: "unat n = 2 ^ m" using unat_pow [of m] assms(2,3) by simp
  define s1 where "s1 = s\<lparr>m_mmap := rs, m_os := m_os s @ [Mmap r n]\<rparr>"
  have m1: "mem_mmap n s = ret (r, s1)" "mapped s1 = mapped s \<union> {unat r..<unat r + 2 ^ m}"
    using r(1,2) n by (simp_all add: mem_mmap_def s1_def mapped_events grant_def)
  have al: "r AND (n - 1) = 0 \<longleftrightarrow> 2 ^ m dvd unat r" using and_low_eq_0 [of m r] assms(2,3) by simp
  show ?thesis
  proof (cases "2 ^ m dvd unat r")
    case True
    then show ?thesis using m1 al r(2) by (intro exI [of _ r] exI [of _ s1]) (auto simp: map_region_def grant_def s1_def)
  next
    case False
    then obtain r' rs' where r': "rs = r' # rs'" "grant r' (2 * 2 ^ m) (mapped s)" using r(3) by blast
    define s2 where "s2 = mem_munmap r n s1"
    have ms2: "mapped s2 = mapped s" using m1(2) r(2) n by (auto simp: s2_def mapped_events grant_def)
    define s3 where "s3 = s2\<lparr>m_mmap := rs', m_os := m_os s2 @ [Mmap r' (n * 2)]\<rparr>"
    have "(2 :: nat) ^ m \<le> 2 ^ 46" using assms(2) by (intro power_increasing) simp_all
    then have n2: "unat (n * 2) = 2 * 2 ^ m" using n by (simp add: unat_word_ariths)
    have "m_mmap s2 = r' # rs'" by (simp add: s2_def s1_def mem_munmap_def r'(1))
    then have m3: "mem_mmap (n * 2) s2 = ret (r', s3)" "mapped s3 = mapped s \<union> {unat r'..<unat r' + 2 * 2 ^ m}"
      using r'(2) n2 ms2 by (simp_all add: mem_mmap_def s3_def mapped_events grant_def)
    define a where "a = (r' + n) AND NOT (n - 1)"
    have g: "unat r' + 2 * 2 ^ m \<le> 2 ^ 47" using r'(2) by (simp add: grant_def)
    note A = align_region [OF assms(2) g, folded assms(3), folded a_def]
    define s4 where "s4 = (if a - r' \<noteq> 0 then mem_munmap r' (a - r') s3 else s3)"
    define s5 where "s5 = (if r' + n - a \<noteq> 0 then mem_munmap (a + n) (r' + n - a) s4 else s4)"
    have m4: "mapped s4 = mapped s \<union> {unat a..<unat r' + 2 * 2 ^ m}"
    proof -
      have "a - r' \<noteq> 0" using A(2) by auto
      moreover have "{unat r'..<unat a} \<subseteq> {unat r'..<unat r' + 2 * 2 ^ m}" using A(3) by auto
      then have "{unat r'..<unat a} \<inter> mapped s = {}" using r'(2) unfolding grant_def by blast
      ultimately show ?thesis using m3(2) A(2-4) by (auto simp: s4_def mapped_events)
    qed
    have m5: "mapped s5 = mapped s \<union> {unat a..<unat a + 2 ^ m}"
    proof (cases "r' + n - a = 0")
      case True
      then have "unat a = unat r' + 2 ^ m" using A(3,5) by (metis diff_is_0_eq le_antisym unat_0)
      then show ?thesis using True m4 by (simp add: s5_def) (simp add: mult_2 add.assoc)
    next
      case False
      have e: "unat (a + n) + unat (r' + n - a) = unat r' + 2 * 2 ^ m" using A(3,5,6) by simp
      have "mapped s5 = mapped s4 - {unat a + 2 ^ m..<unat r' + 2 * 2 ^ m}" using False by (simp add: s5_def mapped_events e) (simp add: A(6))
      moreover have "{unat a + 2 ^ m..<unat r' + 2 * 2 ^ m} \<subseteq> {unat r'..<unat r' + 2 * 2 ^ m}" using A(2) by auto
      then have "{unat a + 2 ^ m..<unat r' + 2 * 2 ^ m} \<inter> mapped s = {}" using r'(2) unfolding grant_def by blast
      ultimately show ?thesis using m4 A(2,3) by auto
    qed
    have g5: "grant a (2 ^ m) (mapped s)"
    proof -
      have le: "unat a + 2 ^ m \<le> 2 ^ 47" and sub: "{unat a..<unat a + 2 ^ m} \<subseteq> {unat r'..<unat r' + 2 * 2 ^ m}" using A(2,3) g by auto
      have "unat (-1 :: addr) = 2 ^ 64 - 1" by (simp add: unsigned_minus_1_eq_mask mask_eq_exp_minus_1)
      then have "a \<noteq> NULL" "a \<noteq> -1" using A(2) le by auto
      then show ?thesis using r'(2) le sub unfolding grant_def by blast
    qed
    have st: "\<exists>rs os. s5 = s\<lparr>m_mmap := rs, m_os := os\<rparr>"
      by (auto simp: s5_def s4_def s3_def s2_def s1_def mem_munmap_def)
    have "r \<noteq> -1" "r' \<noteq> -1" using r(2) r'(2) by (simp_all add: grant_def)
    then show ?thesis
      using m1(1) m3(1) m5 g5 A(1) st False al
      by (intro exI [of _ a] exI [of _ s5]) (auto simp: map_region_def s2_def [symmetric] a_def [symmetric] Let_def s5_def s4_def)
  qed
qed

lemma page_aligned:
  assumes "2 ^ max k 21 dvd unat r"
  shows "page r * 2 ^ 21 = unat r"
proof -
  have "(2 :: nat) ^ 21 dvd 2 ^ max k 21" by (rule le_imp_power_dvd) simp
  then have "2 ^ 21 dvd unat r" using assms by (rule dvd_trans)
  then show ?thesis unfolding page_def by (rule dvd_div_mult_self)
qed

lemma get_header_region:
  assumes "grant r n M" and "0 < n" and "m_headers_at s \<noteq> NULL \<and> m_headers_at s \<noteq> -1"
  shows "get_header r s = ret (page r)"
proof -
  have "unat r < 2 ^ 47" using assms(1,2) by (simp add: grant_def)
  then have "page r < 2 ^ 26" by (simp add: page_def less_mult_imp_div_less)
  moreover have "unat (drop_bit PAGE_SCALE r) = page r"
    unfolding PAGE_SCALE_def page_def by (rule trans [OF unat_drop_bit_eq drop_bit_eq_div])
  moreover have "unat HEADERS_SIZE = 2 ^ 28" by (simp add: HEADERS_SIZE_def MAX_POINTER_BITS_def PAGE_SCALE_def)
  ultimately show ?thesis using assms(3) by (simp add: get_header_def word_less_nat_alt MAX_POINTER_BITS_def PAGE_SCALE_def)
qed

lemma get_new_region_ok:
  assumes "m_headers_at s \<noteq> NULL \<and> m_headers_at s \<noteq> -1" and "k \<le> 36" and "os_ok (max k 21) s"
    and "\<And>P. hd_scale (m_headers s P) \<noteq> 0 \<Longrightarrow> P * 2 ^ 21 \<in> mapped s"
  shows "\<exists>r s' s1. get_new_region t k s = ret (r, s') \<and> grant r (2 ^ max k 21) (mapped s) \<and> 2 ^ max k 21 dvd unat r \<and>
    mapped s' = mapped s \<union> {unat r..<unat r + 2 ^ max k 21} \<and>
    s' = s1\<lparr>m_headers := (m_headers s)(page r := \<lparr>hd_owner = t, hd_scale = k\<rparr>)\<rparr> \<and> (\<exists>rs os. s1 = s\<lparr>m_mmap := rs, m_os := os\<rparr>)"
proof -
  obtain r s1 where r: "map_region (push_bit (max k 21) 1) s = ret (r, s1)" "grant r (2 ^ max k 21) (mapped s)" "2 ^ max k 21 dvd unat r"
    "mapped s1 = mapped s \<union> {unat r..<unat r + 2 ^ max k 21}" "\<exists>rs os. s1 = s\<lparr>m_mmap := rs, m_os := os\<rparr>"
    using map_region_ok [OF assms(3) _ refl] assms(2) by auto
  have s1: "m_headers s1 = m_headers s" "m_headers_at s1 = m_headers_at s" using r(5) by auto
  have "get_header r s1 = ret (page r)" using get_header_region [OF r(2)] assms(1) s1 by simp
  moreover have "hd_scale (m_headers s (page r)) = 0"
  proof (rule ccontr)
    assume "\<not> ?thesis"
    then have "unat r \<in> mapped s" using assms(4) [of "page r"] page_aligned [OF r(3)] by simp
    then show False using grant_first [OF r(2)] by blast
  qed
  moreover have "r \<noteq> NULL" using r(2) by (simp add: grant_def)
  ultimately have "get_new_region t k s = ret (r, s1\<lparr>m_headers := (m_headers s)(page r := \<lparr>hd_owner = t, hd_scale = k\<rparr>)\<rparr>)"
    unfolding get_new_region_def Let_def region_size_eq [OF assms(2)] r(1) using s1 by simp
  moreover have "mapped (s1\<lparr>m_headers := H\<rparr>) = mapped s1" for H by (simp add: mapped_def)
  ultimately show ?thesis using r by (intro exI [of _ r] exI [of _ "s1\<lparr>m_headers := (m_headers s)(page r := \<lparr>hd_owner = t, hd_scale = k\<rparr>)\<rparr>"] exI [of _ s1]) simp
qed

text \<open>The invariant after the page is mapped: its first block is handed out.\<close>

lemma mem_rep_region:
  assumes "mem_rep s L A" and "3 \<le> k" and "k \<le> 36" and "t < MAX_NUM_THREADS" and "grant r (2 ^ max k 21) (mapped s)" and "2 ^ max k 21 dvd unat r"
    and "mapped s' = mapped s \<union> {unat r..<unat r + 2 ^ max k 21}"
    and "s' = s1\<lparr>m_headers := (m_headers s)(page r := \<lparr>hd_owner = t, hd_scale = k\<rparr>)\<rparr>" and "s1 = s\<lparr>m_mmap := rs, m_os := os\<rparr>"
  shows "mem_rep s' L A" and "\<And>b. unat r \<le> unat b \<Longrightarrow> unat b + 2 ^ k \<le> unat r + 2 ^ max k 21 \<Longrightarrow> 2 ^ k dvd unat b \<Longrightarrow>
      (k \<le> 21 \<or> b = r) \<Longrightarrow> blk_ok s' b \<and> hscale s' b = k \<and> howner s' b = t \<and> b \<notin> A \<and> (\<forall>pl. b \<notin> set (L pl))"
    and "\<And>b. blk_ok s b \<Longrightarrow> hscale s' b = hscale s b"
proof -
  note R = mem_repD [OF assms(1)]
  let ?m = "max k 21"
  have pr: "page r * 2 ^ 21 = unat r" by (rule page_aligned [OF assms(6)])
  have nr: "unat r \<notin> mapped s" "unat r + 2 ^ ?m \<le> 2 ^ 47" "{unat r..<unat r + 2 ^ ?m} \<inter> mapped s = {}" using assms(5) grant_first [OF assms(5)] by (auto simp: grant_def)
  have hd: "m_headers s' P = (if P = page r then \<lparr>hd_owner = t, hd_scale = k\<rparr> else m_headers s P)" for P by (simp add: assms(8))
  have old: "blk_ok s' b \<and> hscale s' b = hscale s b \<and> howner s' b = howner s b" if b: "blk_ok s b" for b
  proof -
    have "page b \<noteq> page r"
    proof
      assume "page b = page r"
      then have "hd_scale (m_headers s (page r)) \<noteq> 0" using b by (auto simp: blk_ok_def hscale_def)
      then show False using R(10) [of "page r"] pr nr(1) by simp
    qed
    then have h: "hscale s' b = hscale s b" "howner s' b = howner s b" by (simp_all add: hscale_def howner_def hd)
    have bl: "blk s' b = blk s b" by (simp add: blk_def h)
    have "hd_scale (m_headers s' P) = 0" if P: "page b < P" "P * 2 ^ 21 < unat b + 2 ^ hscale s b" for P
    proof (cases "P = page r")
      case True
      have "unat b < P * 2 ^ 21" using P(1) by (simp add: page_def div_less_iff_less_mult)
      then have "unat r \<in> blk s b" using P(2) True pr by (simp add: blk_def)
      then show ?thesis using b nr(1) by (auto simp: blk_ok_def)
    next
      case False
      then show ?thesis using b P by (simp add: blk_ok_def hd)
    qed
    then show ?thesis using b h bl assms(7) by (auto simp: blk_ok_def)
  qed
  have ph: "place_head s' pl = place_head s pl" "m_word s' = m_word s" "m_tl s' = m_tl s" "m_headers_at s' = m_headers_at s" for pl
    by (cases pl; simp add: assms(8,9))+
  have "placed s' pl b" if "placed s pl b" "blk_ok s b" for pl b using that old [of b] by (cases pl) auto
  moreover have "P * 2 ^ 21 \<in> mapped s'" if "hd_scale (m_headers s' P) \<noteq> 0" for P
    using that R(10) [of P] pr by (auto simp: assms(7) hd split: if_splits)
  ultimately show "mem_rep s' L A"
    unfolding mem_rep_def ph using R old by simp
  show "hscale s' b = hscale s b" if "blk_ok s b" for b using old [OF that] by simp
  fix b assume b: "unat r \<le> unat b" "unat b + 2 ^ k \<le> unat r + 2 ^ ?m" "2 ^ k dvd unat b" "k \<le> 21 \<or> b = r"
  have pb: "page b = page r"
  proof (cases "k \<le> 21")
    case True
    then have "unat b + 2 ^ k \<le> (page r + 1) * 2 ^ 21" using b(2) pr by (simp add: max_def split: if_splits)
    then have "unat b < (page r + 1) * 2 ^ 21" using zero_less_power [of "2 :: nat" k] by linarith
    moreover have "page r * 2 ^ 21 \<le> unat b" using pr b(1) by simp
    ultimately show ?thesis unfolding page_def [of b] by (intro div_nat_eqI) (simp_all add: mult.commute)
  qed (use b(4) in simp)
  then have h: "hscale s' b = k" "howner s' b = t" by (simp_all add: hscale_def howner_def hd)
  have bl: "blk s' b \<subseteq> {unat r..<unat r + 2 ^ ?m}" using b(1,2) by (auto simp: blk_def h)
  have "hd_scale (m_headers s' P) = 0" if P: "page b < P" "P * 2 ^ 21 < unat b + 2 ^ k" for P
  proof (rule ccontr)
    assume "\<not> ?thesis"
    then have "P * 2 ^ 21 \<in> mapped s" using R(10) [of P] P(1) pb by (auto simp: hd split: if_splits)
    moreover have "unat r \<le> P * 2 ^ 21" using P(1) pb pr by (metis less_imp_le mult_le_mono1)
    moreover have "P * 2 ^ 21 < unat r + 2 ^ ?m" using P(2) b(2) by linarith
    ultimately have "P * 2 ^ 21 \<in> {unat r..<unat r + 2 ^ ?m} \<inter> mapped s" by simp
    then show False using nr(3) by blast
  qed
  moreover have "b \<noteq> NULL" using b(1) assms(5) by (auto simp: grant_def unat_eq_0)
  ultimately have "blk_ok s' b" using h bl b(2,3) assms(2-4,7) nr(2) by (auto simp: blk_ok_def)
  moreover have "\<not> blk_ok s b"
  proof
    assume "blk_ok s b"
    then have "unat b \<in> mapped s" using unat_less_self_blk [of b s] by (auto simp: blk_ok_def)
    moreover have "unat b \<in> {unat r..<unat r + 2 ^ ?m}" using bl unat_less_self_blk [of b s'] by blast
    ultimately show False using nr(3) by blast
  qed
  ultimately show "blk_ok s' b \<and> hscale s' b = k \<and> howner s' b = t \<and> b \<notin> A \<and> (\<forall>pl. b \<notin> set (L pl))" using h R(4,7) by blast
qed

section \<open>Cutting up a page\<close>

definition cuts :: "addr \<Rightarrow> size_t \<Rightarrow> nat \<Rightarrow> addr list" where
  "cuts p block_size n = map (\<lambda>i. p + of_nat (Suc i) * block_size) [0..<n]"

lemma carve_ok:
  assumes "lseg (m_word s) head xs NULL" and "distinct (cuts p n k @ xs)"
  shows "\<exists>h s'. carve p n k head s = (h, s') \<and> lseg (m_word s') h (cuts p n k @ xs) NULL \<and>
    (\<exists>W. s' = s\<lparr>m_word := W\<rparr> \<and> (\<forall>a. a \<notin> set (cuts p n k) \<longrightarrow> W a = m_word s a))"
  using assms
proof (induction k arbitrary: head s xs)
  case 0
  then show ?case by (auto simp: cuts_def intro: exI [of _ "m_word s"])
next
  case (Suc k)
  let ?x = "p + of_nat (Suc k) * n"
  have c: "cuts p n (Suc k) = cuts p n k @ [?x]" by (simp add: cuts_def)
  let ?s = "set_next ?x head s"
  have "?x \<notin> set xs" using Suc.prems(2) by (simp add: c)
  then have "lseg (m_word ?s) head xs NULL = lseg (m_word s) head xs NULL" by (intro lseg_frame) auto
  then have l: "lseg (m_word ?s) ?x (?x # xs) NULL" using Suc.prems(1) by simp
  have d: "distinct (cuts p n k @ ?x # xs)" using Suc.prems(2) by (simp add: c)
  from Suc.IH [OF l d] obtain h s' W where I: "carve p n k ?x ?s = (h, s')" "lseg (m_word s') h (cuts p n k @ ?x # xs) NULL"
    "s' = ?s\<lparr>m_word := W\<rparr>" "\<forall>a. a \<notin> set (cuts p n k) \<longrightarrow> W a = m_word ?s a" by blast
  have "s' = s\<lparr>m_word := W\<rparr>" using I(3) by (simp add: set_next_def)
  then show ?case using I by (intro exI [of _ h] exI [of _ s']) (auto simp: c Let_def)
qed

text \<open>The blocks of a page after its first.\<close>

lemma cuts_unat:
  assumes "3 \<le> k" and "k < 21" and "unat r + 2 ^ 21 \<le> 2 ^ 47" and "i < 2 ^ (21 - k) - 1"
  shows "unat (r + of_nat (Suc i) * push_bit k 1 :: addr) = unat r + Suc i * 2 ^ k"
proof -
  have "Suc i * 2 ^ k \<le> (2 ^ (21 - k) - 1) * 2 ^ k" using assms(4) by (intro mult_le_mono1) simp
  also have "\<dots> < 2 ^ (21 - k) * 2 ^ k" by simp
  also have "\<dots> = 2 ^ 21" using assms(2) by (simp flip: power_add)
  finally have lt: "Suc i * 2 ^ k < 2 ^ 21" .
  have "Suc i < 2 ^ 21" using lt by (metis le_less_trans mult.right_neutral mult_le_mono2 one_le_numeral one_le_power)
  then have "unat (of_nat (Suc i) :: addr) = Suc i" by (subst unsigned_of_nat) (simp add: take_bit_eq_mod)
  moreover have "unat (push_bit k 1 :: addr) = 2 ^ k" using unat_pow [of k] assms(2) by simp
  ultimately have "unat (of_nat (Suc i) * push_bit k 1 :: addr) = Suc i * 2 ^ k" using lt by (simp only: unat_word_ariths) simp
  then show ?thesis using lt assms(3) by (simp only: unat_word_ariths) simp
qed

lemma mem_rep_fill:
  assumes "mem_rep s L A" and "L (Free t k) = []" and "distinct xs"
    and "\<And>b. b \<in> set xs \<Longrightarrow> blk_ok s b \<and> hscale s b = k \<and> howner s b = t \<and> b \<notin> A \<and> (\<forall>pl. b \<notin> set (L pl))"
    and "lseg W h xs NULL" and "\<And>a. a \<notin> set xs \<Longrightarrow> W a = m_word s a"
  shows "mem_rep (set_free_list t k h (s\<lparr>m_word := W\<rparr>)) (L(Free t k := xs)) A"
proof -
  note R = mem_repD [OF assms(1)]
  define s' where "s' = set_head (Free t k) h (s\<lparr>m_word := W\<rparr>)"
  have sel: "m_word s' = W" "place_head s' pl = (if pl = Free t k then h else place_head s pl)" "tl_blocks_to (m_tl s' i) j = tl_blocks_to (m_tl s i) j" for pl i j
    by (cases pl; simp add: s'_def set_free_list_def set_tl_def)+
  have "mem_rep s' (L(Free t k := xs)) A"
  proof (rule mem_repI [OF assms(1)])
    show "same_pages s s'" by (simp add: s'_def same_pages_def set_free_list_def set_tl_def)
    have "lseg W p (L pl) NULL = lseg (m_word s) p (L pl) NULL" for p pl by (rule lseg_frame) (use assms(4,6) in blast)
    then show "lseg (m_word s') (place_head s' pl) ((L(Free t k := xs)) pl) NULL" for pl using assms(5) R(2) [of pl] by (simp add: sel)
    show "distinct ((L(Free t k := xs)) pl)" for pl using R(3) assms(3) by simp
    show "blk_ok s b \<and> placed s pl b" if "b \<in> set ((L(Free t k := xs)) pl)" for pl b
      using that R(4,5) [of b pl] assms(4) [of b] by (auto split: if_splits)
    show "set ((L(Free t k := xs)) p) \<inter> set ((L(Free t k := xs)) p') = {}" if "p \<noteq> p'" for p p'
      using R(6) [OF that] assms(4) that by auto
    show "blk_ok s a \<and> (\<forall>pl. a \<notin> set ((L(Free t k := xs)) pl))" if "a \<in> A" for a
      using that R(7,8) [of a] assms(4) [of a] by auto
    show "tl_blocks_to (m_tl s' i) j = queue_end ((L(Free t k := xs)) (Queue i j)) i j"
      if "i < MAX_NUM_THREADS" "j < MAX_NUM_THREADS" "i \<noteq> j" for i j
      using R(9) [OF that] by (simp add: sel)
  qed
  then show ?thesis by (simp add: s'_def)
qed

section \<open>Allocation and release\<close>

text \<open>The scale of a request: the least power of two that is at least 8 and at least the size.\<close>

definition size_scale :: "size_t \<Rightarrow> nat" where
  "size_scale n = (LEAST k. 3 \<le> k \<and> unat n \<le> 2 ^ k)"

lemma clzl_log:
  assumes "x \<noteq> 0" and "z = length (takeWhile (\<lambda>i. \<not> bit x i) (rev [0..<64]))"
  shows "z < 64" and "2 ^ (63 - z) \<le> unat (x :: uint64_t)" and "unat x < 2 ^ (64 - z)"
proof -
  let ?P = "\<lambda>i. \<not> bit x i" and ?xs = "rev [0..<64]"
  have le: "z \<le> 64" using length_takeWhile_le [of ?P ?xs] by (simp add: assms(2))
  have nth: "?xs ! i = 63 - i" if "i < 64" for i using that by (simp add: rev_nth)
  have low: "\<not> bit x (63 - i)" if "i < z" for i
  proof -
    have "takeWhile ?P ?xs ! i \<in> set (takeWhile ?P ?xs)" using that assms(2) by simp
    then have "?P (takeWhile ?P ?xs ! i)" using set_takeWhileD by fast
    then show ?thesis using that assms(2) le nth [of i] by (simp add: takeWhile_nth)
  qed
  have hi: "\<not> bit x j" if "64 - z \<le> j" for j
  proof (cases "j < 64")
    case True
    then show ?thesis using low [of "63 - j"] that le by auto
  next
    case False
    then show ?thesis using bit_imp_le_length [of x j] by auto
  qed
  show z: "z < 64"
  proof (rule ccontr)
    assume "\<not> z < 64"
    then have "x = 0" using hi by (intro bit_word_eqI) simp
    then show False using assms(1) by simp
  qed
  have "bit x (63 - z)" using nth_length_takeWhile [of ?P ?xs] z nth [OF z] by (simp add: assms(2))
  then have b: "bit (unat x) (63 - z)" by (simp add: bit_unsigned_iff)
  show "2 ^ (63 - z) \<le> unat x"
  proof (rule ccontr)
    assume "\<not> ?thesis"
    then have "unat x div 2 ^ (63 - z) = 0" by simp
    then show False using b by (simp add: bit_iff_odd)
  qed
  have "x = take_bit (64 - z) x" by (rule bit_word_eqI) (metis hi bit_take_bit_iff not_less)
  then have "unat x = take_bit (64 - z) (unat x)" by (metis unsigned_take_bit_eq)
  then show "unat x < 2 ^ (64 - z)" by (metis take_bit_nat_less_exp)
qed

lemma malloc_scale:
  assumes "2 \<le> unat n"
  shows "\<exists>z. builtin_clzl (n - 1) = ret z \<and> (if 64 - z < MEM_MIN_SCALE then MEM_MIN_SCALE else 64 - z) = size_scale n"
proof -
  define x where "x = n - 1"
  have ux: "unat x = unat n - 1" using assms by (simp add: x_def unat_sub_if')
  then have x0: "x \<noteq> 0" using assms by auto
  define z where "z = length (takeWhile (\<lambda>i. \<not> bit x i) (rev [0..<64]))"
  note C = clzl_log [OF x0 z_def]
  have le: "unat n \<le> 2 ^ k \<longleftrightarrow> 64 - z \<le> k" for k
  proof
    assume "unat n \<le> 2 ^ k"
    then have "unat x < 2 ^ k" using ux assms by linarith
    then have "(2 :: nat) ^ (63 - z) < 2 ^ k" using C(2) by linarith
    then have "63 - z < k" by (rule power_less_imp_less_exp [rotated]) simp
    then show "64 - z \<le> k" by simp
  next
    assume "64 - z \<le> k"
    then have "(2 :: nat) ^ (64 - z) \<le> 2 ^ k" by (intro power_increasing) simp_all
    then show "unat n \<le> 2 ^ k" using C(3) ux by linarith
  qed
  have "size_scale n = max 3 (64 - z)" unfolding size_scale_def le by (rule Least_equality) auto
  moreover have "builtin_clzl (n - 1) = ret z" using x0 by (simp add: builtin_clzl_def z_def x_def)
  ultimately show ?thesis by (auto simp: MEM_MIN_SCALE_def max_def)
qed

lemma size_scale_le: "unat n \<le> 2 ^ size_scale n" "3 \<le> size_scale n" "unat n \<le> 2 ^ 36 \<Longrightarrow> size_scale n \<le> 36" "2 ^ 36 < unat n \<Longrightarrow> 36 < size_scale n"
proof -
  have "unat n < 2 ^ 64" using unsigned_less [of n] by simp
  then have "3 \<le> (64 :: nat) \<and> unat n \<le> 2 ^ 64" by simp
  then have S: "3 \<le> size_scale n \<and> unat n \<le> 2 ^ size_scale n" unfolding size_scale_def by (rule LeastI)
  then show "unat n \<le> 2 ^ size_scale n" "3 \<le> size_scale n" by simp_all
  show "size_scale n \<le> 36" if "unat n \<le> 2 ^ 36" unfolding size_scale_def by (rule Least_le) (use that in simp)
  show "36 < size_scale n" if "2 ^ 36 < unat n"
  proof -
    have "(2 :: nat) ^ 36 < 2 ^ size_scale n" using S that by linarith
    then show ?thesis by (rule power_less_imp_less_exp [rotated]) simp
  qed
qed

text \<open>Where \<^verbatim>\<open>nbd_free\<close>, called by thread \<open>t\<close>, puts the block \<open>x\<close>.\<close>

definition put_back :: "nat \<Rightarrow> addr \<Rightarrow> mem_state \<Rightarrow> (place \<Rightarrow> addr list) \<Rightarrow> place \<Rightarrow> addr list" where
  "put_back t x s L =
     (if howner s x = t then L(Free t (hscale s x) := x # L (Free t (hscale s x)))
      else L(Queue t (howner s x) := L (Queue t (howner s x)) @ [x]))"

lemma nbd_free_ok:
  assumes "mem_rep s L A" and "x \<in> A" and "t < MAX_NUM_THREADS"
  shows "\<exists>s'. nbd_free t x s = ret s' \<and> same_pages s s' \<and> mem_rep s' (put_back t x s L) (A - {x}) \<and>
    (howner s x = t \<longrightarrow> tl_free_list (m_tl s' t) (hscale s x) = x)"
proof -
  note R = mem_repD [OF assms(1)]
  let ?k = "hscale s x" and ?j = "howner s x"
  define s1 where "s1 = bear_trap x ?k s"
  have ok: "blk_ok s x" by (rule R(7) [OF assms(2)])
  then have sc: "x \<noteq> NULL" "?k \<noteq> 0" "?k \<le> MAX_SCALE" "?j < MAX_NUM_THREADS" by (auto simp: blk_ok_def MAX_SCALE_def)
  have gh: "get_header x s = ret (page x)" by (rule get_header_ok [OF ok R(1)])
  have r1: "mem_rep s1 L A" unfolding s1_def by (rule mem_rep_trap [OF assms(1,2)])
  have sp: "same_pages s s1" by (simp add: s1_def)
  have e1: "hscale s1 x = ?k" "howner s1 x = ?j" "m_headers s1 = m_headers s" using same_pages_eqs(1,2) [OF sp] sp by (simp_all add: same_pages_def)
  show ?thesis
  proof (cases "?j = t")
    case True
    let ?s2 = "set_free_list t ?k x (set_next x (tl_free_list (m_tl s1 t) ?k) s1)"
    have "nbd_free t x s = ret ?s2"
      using gh sc True e1(3) by (simp add: nbd_free_def Let_def s1_def hscale_def howner_def)
    moreover have "mem_rep ?s2 (L(Free t ?k := x # L (Free t ?k))) (A - {x})"
      by (rule mem_rep_push [OF r1 assms(2)]) (use e1 True in simp_all)
    moreover have "same_pages s ?s2" by (rule same_pages_trans [OF sp same_pages_trans [OF set_pages(1) set_pages(5)]])
    moreover have "tl_free_list (m_tl ?s2 t) ?k = x" by (simp add: set_free_list_def set_tl_def)
    moreover have "put_back t x s L = L(Free t ?k := x # L (Free t ?k))" using True by (simp add: put_back_def)
    ultimately show ?thesis by (intro exI [of _ ?s2]) simp
  next
    case False
    obtain s2 where q: "put_ref (tl_blocks_to (m_tl s1 t) ?j) x (set_next x NULL s1) = ret s2" "same_pages s1 s2"
      "mem_rep (set_blocks_to t ?j (Block x) s2) (L(Queue t ?j := L (Queue t ?j) @ [x])) (A - {x})"
      using mem_rep_enqueue [OF r1 assms(2), of ?j t] e1 False assms(3) sc(4) by auto
    have "nbd_free t x s = ret (set_blocks_to t ?j (Block x) s2)"
      using gh sc False q(1) e1(3) by (simp add: nbd_free_def Let_def s1_def hscale_def howner_def)
    moreover have "same_pages s (set_blocks_to t ?j (Block x) s2)" by (rule same_pages_trans [OF sp same_pages_trans [OF q(2) set_pages(3)]])
    moreover have "put_back t x s L = L(Queue t ?j := L (Queue t ?j) @ [x])" using False by (simp add: put_back_def)
    ultimately show ?thesis using q(3) False by (intro exI [of _ "set_blocks_to t ?j (Block x) s2"]) simp
  qed
qed

text \<open>A new page: the first block is handed out, the others go to the free list.\<close>

lemma new_page_ok:
  assumes "mem_rep s L A" and "L (Free t k) = []" and "t < MAX_NUM_THREADS" and "3 \<le> k" and "k \<le> 36" and "os_ok (max k 21) s"
  shows "\<exists>r s1 s2 L'. get_new_region t k s = ret (r, s1) \<and> r \<noteq> NULL \<and>
    s2 = (if k < PAGE_SCALE then
            let block_size = push_bit k 1;
                (head, s) = carve r block_size (unat (PAGE_SIZE - block_size) div unat block_size) NULL s1
            in set_free_list t k head s
          else s1) \<and>
    r \<notin> A \<and> hscale s2 r = k \<and> mem_rep s2 L' (insert r A) \<and> (\<forall>a \<in> A. hscale s2 a = hscale s a)"
proof -
  note R = mem_repD [OF assms(1)]
  obtain r s1 s0 rs os where g: "get_new_region t k s = ret (r, s1)" "grant r (2 ^ max k 21) (mapped s)" "2 ^ max k 21 dvd unat r"
    "mapped s1 = mapped s \<union> {unat r..<unat r + 2 ^ max k 21}"
    "s1 = s0\<lparr>m_headers := (m_headers s)(page r := \<lparr>hd_owner = t, hd_scale = k\<rparr>)\<rparr>" "s0 = s\<lparr>m_mmap := rs, m_os := os\<rparr>"
    using get_new_region_ok [OF R(1) assms(5,6) R(10), of t] by blast
  note N = mem_rep_region [OF assms(1,4,5,3) g(2-6)]
  have r0: "r \<noteq> NULL" using g(2) by (simp add: grant_def)
  have "(2 :: nat) ^ k dvd 2 ^ max k 21" by (rule le_imp_power_dvd) simp
  then have dv: "2 ^ k dvd unat r" using g(3) by (rule dvd_trans)
  have "(2 :: nat) ^ k \<le> 2 ^ max k 21" by (rule power_increasing) simp_all
  then have ok: "blk_ok s1 r" "hscale s1 r = k" "howner s1 r = t" "r \<notin> A" "\<And>pl. r \<notin> set (L pl)" using N(2) [of r] dv by auto
  have hA: "hscale s1 a = hscale s a" if "a \<in> A" for a using N(3) R(7) [OF that] by blast
  have rA: "mem_rep s1 L (insert r A)" using N(1) ok unfolding mem_rep_def by blast
  show ?thesis
  proof (cases "k < 21")
    case False
    then show ?thesis using g(1) r0 rA ok hA by (intro exI [of _ r] exI [of _ s1] exI [of _ L]) (simp add: PAGE_SCALE_def)
  next
    case True
    let ?n = "push_bit k 1 :: size_t" and ?c = "2 ^ (21 - k) - 1 :: nat"
    have m: "max k 21 = 21" using True by simp
    have un: "unat ?n = 2 ^ k" using unat_pow [of k] True by simp
    have cnt: "unat (PAGE_SIZE - ?n) div unat ?n = ?c"
    proof -
      have le: "(2 :: nat) ^ k \<le> 2 ^ 21" using True by (intro power_increasing) simp_all
      have "unat PAGE_SIZE = 2 ^ 21" by (simp add: PAGE_SIZE_def PAGE_SCALE_def)
      then have "unat (PAGE_SIZE - ?n) = 2 ^ 21 - 2 ^ k" using un le by (simp only: unat_sub_if') simp
      also have "\<dots> = ?c * 2 ^ k" using True by (simp add: diff_mult_distrib flip: power_add)
      finally show ?thesis using un by simp
    qed
    have pg: "unat r + 2 ^ 21 \<le> 2 ^ 47" using g(2) m by (simp add: grant_def)
    note U = cuts_unat [OF assms(4) True pg]
    have cut: "unat r < unat b \<and> unat b + 2 ^ k \<le> unat r + 2 ^ 21 \<and> 2 ^ k dvd unat b" if b: "b \<in> set (cuts r ?n ?c)" for b
    proof -
      obtain i where "i < ?c" "b = r + of_nat (Suc i) * ?n" using b unfolding cuts_def by (auto simp del: of_nat_Suc)
      then have i: "i < ?c" "unat b = unat r + Suc i * 2 ^ k" using U by blast+
      have "(Suc i + 1) * 2 ^ k \<le> 2 ^ (21 - k) * 2 ^ k" using i(1) by (intro mult_le_mono1) simp
      also have "\<dots> = 2 ^ 21" using True by (simp flip: power_add)
      finally show ?thesis using i dv by simp
    qed
    have dis: "distinct (cuts r ?n ?c)"
    proof -
      have "inj_on (\<lambda>i. r + of_nat (Suc i) * ?n) {0..<?c}"
      proof (rule inj_onI)
        fix i j assume ij: "i \<in> {0..<?c}" "j \<in> {0..<?c}" "r + of_nat (Suc i) * ?n = r + of_nat (Suc j) * ?n"
        then have "unat r + Suc i * 2 ^ k = unat r + Suc j * 2 ^ k" using U [of i] U [of j] by (metis atLeastLessThan_iff)
        then show "i = j" by simp
      qed
      then show ?thesis by (simp add: cuts_def distinct_map)
    qed
    have new: "blk_ok s1 b \<and> hscale s1 b = k \<and> howner s1 b = t \<and> b \<notin> insert r A \<and> (\<forall>pl. b \<notin> set (L pl))" if "b \<in> set (cuts r ?n ?c)" for b
      using N(2) [of b] cut [OF that] True m by auto
    obtain h s2 W where c: "carve r ?n ?c NULL s1 = (h, s2)" "lseg (m_word s2) h (cuts r ?n ?c @ []) NULL" "s2 = s1\<lparr>m_word := W\<rparr>"
      "\<forall>a. a \<notin> set (cuts r ?n ?c) \<longrightarrow> W a = m_word s1 a"
      using carve_ok [of s1 NULL "[]" r ?n ?c] dis by auto
    define s3 where "s3 = set_free_list t k h (s1\<lparr>m_word := W\<rparr>)"
    have "lseg W h (cuts r ?n ?c) NULL" using c(2,3) by simp
    then have "mem_rep s3 (L(Free t k := cuts r ?n ?c)) (insert r A)"
      unfolding s3_def using c(4) by (intro mem_rep_fill [OF rA assms(2) dis new]) auto
    moreover have "hscale s3 a = hscale s1 a" for a by (simp add: s3_def hscale_def set_free_list_def set_tl_def)
    then have "hscale s3 r = k" "\<forall>a \<in> A. hscale s3 a = hscale s a" using ok(2) hA by simp_all
    moreover have "s3 = (let block_size = push_bit k 1; (head, s) = carve r block_size (unat (PAGE_SIZE - block_size) div unat block_size) NULL s1
        in set_free_list t k head s)" unfolding Let_def cnt c(1) by (simp add: s3_def c(3))
    ultimately show ?thesis using g(1) r0 ok(4) True by (intro exI [of _ r] exI [of _ s1] exI [of _ s3]) (auto simp: PAGE_SCALE_def)
  qed
qed

definition mem_inv :: "mem_state \<Rightarrow> addr set \<Rightarrow> bool" where
  "mem_inv s A \<longleftrightarrow> (\<exists>L. mem_rep s L A)"

lemma os_ok_same: "same_pages s s' \<Longrightarrow> os_ok m s' = os_ok m s"
  using same_pages_eqs(3) [of s s'] by (simp add: os_ok_def same_pages_def)

lemma nbd_malloc_ok:
  assumes "mem_rep s L A" and "t < MAX_NUM_THREADS" and "2 \<le> unat n" and "unat n \<le> 2 ^ 36" and "os_ok (max (size_scale n) 21) s"
  shows "\<exists>b s' L'. nbd_malloc t n s = ret (b, s') \<and> b \<noteq> NULL \<and> b \<notin> A \<and> hscale s' b = size_scale n \<and> mem_rep s' L' (insert b A) \<and>
    (\<forall>a \<in> A. hscale s' a = hscale s a)"
proof -
  let ?k = "size_scale n"
  obtain z where z: "builtin_clzl (n - 1) = ret z" "(if 64 - z < MEM_MIN_SCALE then MEM_MIN_SCALE else 64 - z) = ?k"
    using malloc_scale [OF assms(3)] by blast
  have k: "3 \<le> ?k" "?k \<le> 36" "\<not> ?k > MAX_SCALE" using size_scale_le(2,3) [of n] assms(4) by (simp_all add: MAX_SCALE_def)
  note D = nbd_malloc_def [of t n s, unfolded z(1) pbind_ret Let_def z(2), unfolded if_not_P [OF k(3)]]
  have hit: ?thesis if "same_pages s s0" "mem_rep s0 L0 A" "b \<noteq> NULL" "b \<notin> A" "hscale s0 b = ?k" "same_pages s0 s'" "mem_rep s' L' (insert b A)"
    "nbd_malloc t n s = ret (b, s')" for s0 L0 b s' L'
    using that same_pages_eqs(1) [OF that(1)] same_pages_eqs(1) [OF that(6)] by (intro exI [of _ b] exI [of _ s'] exI [of _ L']) simp
  from pop_free_list_ok [OF assms(1), of t ?k] show ?thesis
  proof (elim disjE exE conjE)
    fix b s' L' assume "pop_free_list t ?k s = ret (b, s')" "b \<noteq> NULL" "b \<notin> A" "hscale s b = ?k" "same_pages s s'" "mem_rep s' L' (insert b A)"
    then show ?thesis by (intro hit [OF same_pages_refl assms(1)]) (simp_all add: D)
  next
    assume p0: "pop_free_list t ?k s = ret (NULL, s)"
    obtain s1 L1 where s1: "process_incoming_blocks t s = ret s1" "same_pages s s1" "mem_rep s1 L1 A"
      using process_incoming_ok [OF assms(1), of t "[0..<MAX_NUM_THREADS]"] by (auto simp: process_incoming_blocks_def)
    from pop_free_list_ok [OF s1(3), of t ?k] show ?thesis
    proof (elim disjE exE conjE)
      fix b s' L' assume "pop_free_list t ?k s1 = ret (b, s')" "b \<noteq> NULL" "b \<notin> A" "hscale s1 b = ?k" "same_pages s1 s'" "mem_rep s' L' (insert b A)"
      then show ?thesis using p0 s1(1) by (intro hit [OF s1(2,3)]) (simp_all add: D)
    next
      assume p1: "pop_free_list t ?k s1 = ret (NULL, s1)" "L1 (Free t ?k) = []"
      obtain r s2 s3 L3 where N: "get_new_region t ?k s1 = ret (r, s2)" "r \<noteq> NULL"
        "s3 = (if ?k < PAGE_SCALE then
            let block_size = push_bit ?k 1;
                (head, s) = carve r block_size (unat (PAGE_SIZE - block_size) div unat block_size) NULL s2
            in set_free_list t ?k head s
          else s2)" "r \<notin> A" "hscale s3 r = ?k" "mem_rep s3 L3 (insert r A)" "\<forall>a \<in> A. hscale s3 a = hscale s1 a"
        using new_page_ok [OF s1(3) p1(2) assms(2) k(1,2)] assms(5) os_ok_same [OF s1(2)] by blast
      have "nbd_malloc t n s = ret (r, s3)" using p0 s1(1) p1(1) N(1,2) by (simp add: D N(3) Let_def)
      then show ?thesis using N(2,4-7) same_pages_eqs(1) [OF s1(2)] by (intro exI [of _ r] exI [of _ s3] exI [of _ L3]) simp
    qed
  qed
qed

section \<open>Start-up\<close>

text \<open>The loops of \<^verbatim>\<open>mem_init\<close> set the ends of the queues and change nothing else.\<close>

definition queues_set :: "nat set \<Rightarrow> nat set \<Rightarrow> mem_state \<Rightarrow> mem_state \<Rightarrow> bool" where
  "queues_set I J s s' \<longleftrightarrow> same_pages s s' \<and> m_word s' = m_word s \<and> place_head s' = place_head s \<and>
     (\<forall>i j. tl_blocks_to (m_tl s' i) j = (if i \<in> I \<and> j \<in> J \<and> i \<noteq> j then Blocks_From j i else tl_blocks_to (m_tl s i) j))"

lemma queues_set_refl: "I = {} \<or> J = {} \<Longrightarrow> queues_set I J s s"
  by (auto simp: queues_set_def)

lemma queues_set_one: "queues_set {i} {j} s (if i \<noteq> j then set_blocks_to i j (Blocks_From j i) s else s)"
  by (auto simp: queues_set_def fun_eq_iff)

lemma queues_set_trans:
  assumes "queues_set I J s s'" and "queues_set I' J' s' s''" and "(I \<times> J) \<union> (I' \<times> J') = I'' \<times> J''"
  shows "queues_set I'' J'' s s''"
proof -
  have "(i, j) \<in> I'' \<times> J'' \<longleftrightarrow> (i, j) \<in> I \<times> J \<or> (i, j) \<in> I' \<times> J'" for i j by (simp only: assms(3) [symmetric] Un_iff)
  then have "i \<in> I'' \<and> j \<in> J'' \<longleftrightarrow> i \<in> I \<and> j \<in> J \<or> i \<in> I' \<and> j \<in> J'" for i j by simp
  then have "(i \<in> I'' \<and> j \<in> J'' \<and> i \<noteq> j) = ((i \<in> I \<and> j \<in> J \<and> i \<noteq> j) \<or> (i \<in> I' \<and> j \<in> J' \<and> i \<noteq> j))" for i j by blast
  then show ?thesis using assms(1,2) same_pages_trans unfolding queues_set_def by auto
qed

lemma init_queues_inner:
  "queues_set {i} (set js) s (fold (\<lambda>j s. if i \<noteq> j then set_blocks_to i j (Blocks_From j i) s else s) js s)"
proof (induction js arbitrary: s)
  case (Cons j js)
  show ?case using queues_set_trans [OF queues_set_one [of i j s] Cons.IH, of "{i}" "set (j # js)"] by auto
qed (simp add: queues_set_refl)

lemma init_queues:
  "queues_set (set ks) (set js) s
    (fold (\<lambda>i s. fold (\<lambda>j s. if i \<noteq> j then set_blocks_to i j (Blocks_From j i) s else s) js s) ks s)"
proof (induction ks arbitrary: s)
  case (Cons k ks)
  show ?case using queues_set_trans [OF init_queues_inner [of k js s] Cons.IH, of "set (k # ks)" "set js"] by auto
qed (simp add: queues_set_refl)

lemma mem_init_ok:
  assumes "r \<noteq> NULL" and "r \<noteq> -1"
  shows "\<exists>s. mem_init (mem_static_init (r # rs)) = ret s \<and> mem_inv s {} \<and> m_mmap s = rs \<and> mapped s = {unat r..<unat r + 2 ^ 28}"
proof -
  define s0 where "s0 = (mem_static_init (r # rs))\<lparr>m_mmap := rs, m_os := [Mmap r HEADERS_SIZE], m_headers_at := r\<rparr>"
  define s1 where "s1 = fold (\<lambda>i s. fold (\<lambda>j s. if i \<noteq> j then set_blocks_to i j (Blocks_From j i) s else s) [0..<MAX_NUM_THREADS] s) [0..<MAX_NUM_THREADS] s0"
  note Q = init_queues [of "[0..<MAX_NUM_THREADS]" "[0..<MAX_NUM_THREADS]" s0, folded s1_def, unfolded queues_set_def]
  have run: "mem_init (mem_static_init (r # rs)) = ret s1"
    using assms by (simp add: mem_init_def mem_mmap_def mem_static_init_def s1_def s0_def Let_def)
  have sp: "same_pages s0 s1" using Q by blast
  have ph: "place_head s0 pl = NULL" "hd_scale (m_headers s0 P) = 0" for pl P by (cases pl; simp add: s0_def mem_static_init_def)+
  have h: "m_headers s1 = m_headers s0" "m_headers_at s1 = r" "m_mmap s1 = rs" using sp by (simp_all add: same_pages_def s0_def)
  have "mem_rep s1 (\<lambda>_. []) {}" unfolding mem_rep_def using Q ph h assms by (simp add: queue_end_def)
  moreover have "mapped s1 = {unat r..<unat r + 2 ^ 28}"
    using same_pages_eqs(3) [OF sp] by (simp add: s0_def mapped_def HEADERS_SIZE_def MAX_POINTER_BITS_def PAGE_SCALE_def)
  ultimately show ?thesis using run h by (auto simp: mem_inv_def)
qed

section \<open>Properties\<close>

text \<open>C23: \<^verbatim>\<open>nbd_malloc\<close> hands out memory that nobody else has. For a request of 2 bytes to 64 GB,
  while \<^verbatim>\<open>mmap\<close> succeeds, the call returns a block that was not handed out before, aligned at its
  size, which is a power of two no less than the request, mapped, and disjoint from every block handed
  out, whichever threads took them; the invariant holds after it.\<close>

theorem nbd_malloc_safe:
  assumes "mem_inv s A" and "t < MAX_NUM_THREADS" and "2 \<le> unat n" and "unat n \<le> 2 ^ 36" and "os_ok (max (size_scale n) 21) s"
  shows "\<exists>b s'. nbd_malloc t n s = ret (b, s') \<and> b \<noteq> NULL \<and> b \<notin> A \<and> mem_inv s' (insert b A) \<and>
    unat n \<le> 2 ^ hscale s' b \<and> 2 ^ hscale s' b dvd unat b \<and> blk s' b \<subseteq> mapped s' \<and> (\<forall>a \<in> A. blk s a \<inter> blk s' b = {})"
proof -
  obtain L where "mem_rep s L A" using assms(1) by (auto simp: mem_inv_def)
  from nbd_malloc_ok [OF this assms(2-5)] obtain b s' L' where b: "nbd_malloc t n s = ret (b, s')" "b \<noteq> NULL" "b \<notin> A"
    "hscale s' b = size_scale n" "mem_rep s' L' (insert b A)" "\<forall>a \<in> A. hscale s' a = hscale s a" by blast
  have ok: "blk_ok s' b" using mem_repD(7) [OF b(5)] by simp
  have "blk s a \<inter> blk s' b = {}" if a: "a \<in> A" for a
  proof -
    have "blk_ok s' a" "a \<noteq> b" using mem_repD(7) [OF b(5)] a b(3) by auto
    moreover have "blk s' a = blk s a" using b(6) a by (simp add: blk_def)
    ultimately show ?thesis using blk_disjoint [OF _ ok] by metis
  qed
  then show ?thesis using b ok size_scale_le(1) [of n] by (auto simp: mem_inv_def blk_ok_def)
qed

text \<open>The sample used by the witnesses: the headers are mapped at 2 GB, the first page at 4 GB.\<close>

definition mem_sample :: mem_state where
  "mem_sample = (case mem_init (mem_static_init [0x80000000, 0x100000000]) of Some (Inr s) \<Rightarrow> s | _ \<Rightarrow> undefined)"

lemma mem_sample_ok: "mem_inv mem_sample {}" "m_mmap mem_sample = [0x100000000]" "mapped mem_sample = {2 ^ 31..<2 ^ 31 + 2 ^ 28}"
proof -
  obtain s where "mem_init (mem_static_init [0x80000000, 0x100000000]) = ret s" "mem_inv s {}" "m_mmap s = [0x100000000]"
    "mapped s = {unat (0x80000000 :: addr)..<unat (0x80000000 :: addr) + 2 ^ 28}"
    using mem_init_ok [of "0x80000000" "[0x100000000]"] by auto
  then show "mem_inv mem_sample {}" "m_mmap mem_sample = [0x100000000]" "mapped mem_sample = {2 ^ 31..<2 ^ 31 + 2 ^ 28}"
    by (simp_all add: mem_sample_def ret_def)
qed

lemma os_ok_sample: "k \<le> 21 \<Longrightarrow> os_ok (max k 21) mem_sample" for k :: nat
  by (simp add: os_ok_def mem_sample_ok grant_def)

lemma size_scale_8: "size_scale 8 = 3"
  unfolding size_scale_def by (rule Least_equality) simp_all

theorem nbd_malloc_safe_witness:
  "\<exists>b s'. nbd_malloc 0 8 mem_sample = ret (b, s') \<and> b \<noteq> NULL \<and> mem_inv s' {b}"
  using nbd_malloc_safe [OF mem_sample_ok(1), where t = 0 and n = 8] os_ok_sample [where k = 3] by (auto simp: MAX_NUM_THREADS_def size_scale_8)

text \<open>C24: \<^verbatim>\<open>nbd_free\<close> takes back any block that is handed out, from whichever thread calls it. When the
  thread that owns the page of the block calls it, the block becomes the first of that thread's free list for its
  size; when another thread does, it becomes the last of the queue from that thread to the owner. Every other free list
  and queue is as before, so that the block is in exactly one of them; the other blocks that are handed out stay so; no
  header changes and the operating system is not called.\<close>

theorem nbd_free_safe:
  assumes "mem_rep s L A" and "x \<in> A" and "t < MAX_NUM_THREADS"
  shows "\<exists>s'. nbd_free t x s = ret s' \<and> m_headers s' = m_headers s \<and> m_os s' = m_os s \<and>
    mem_rep s' (if howner s x = t then L(Free t (hscale s x) := x # L (Free t (hscale s x)))
      else L(Queue t (howner s x) := L (Queue t (howner s x)) @ [x])) (A - {x})"
  using nbd_free_ok [OF assms] unfolding put_back_def same_pages_def by blast

text \<open>C26: a block that its owner frees is the next one the owner is given for a request of its size class,
  without a call of the operating system.\<close>

theorem nbd_free_malloc_reuses:
  assumes "mem_inv s A" and "x \<in> A" and "t < MAX_NUM_THREADS" and "howner s x = t" and "2 \<le> unat n" and "size_scale n = hscale s x"
  shows "\<exists>s1 s2. nbd_free t x s = ret s1 \<and> nbd_malloc t n s1 = ret (x, s2) \<and> mem_inv s2 A \<and> m_os s2 = m_os s"
proof -
  obtain L where r: "mem_rep s L A" using assms(1) by (auto simp: mem_inv_def)
  from nbd_free_ok [OF r assms(2,3)] obtain s1 where s1: "nbd_free t x s = ret s1" "same_pages s s1" "mem_rep s1 (put_back t x s L) (A - {x})"
    "tl_free_list (m_tl s1 t) (hscale s x) = x" using assms(4) by blast
  have ok: "blk_ok s x" by (rule mem_repD(7) [OF r assms(2)])
  then have x0: "x \<noteq> NULL" "size_scale n \<le> 36" using assms(6) by (auto simp: blk_ok_def)
  obtain z where z: "builtin_clzl (n - 1) = ret z" "(if 64 - z < MEM_MIN_SCALE then MEM_MIN_SCALE else 64 - z) = size_scale n"
    using malloc_scale [OF assms(5)] by blast
  have "\<not> size_scale n > MAX_SCALE" using x0(2) by (simp add: MAX_SCALE_def)
  note D = nbd_malloc_def [of t n s1, unfolded z(1) pbind_ret Let_def z(2), unfolded if_not_P [OF this]]
  obtain s2 L2 where s2: "pop_free_list t (size_scale n) s1 = ret (x, s2)" "same_pages s1 s2" "mem_rep s2 L2 (insert x (A - {x}))"
    using pop_free_list_ok [OF s1(3), of t "size_scale n"] s1(4) x0(1) assms(6)
      mem_repD(2) [OF s1(3), of "Free t (hscale s x)"] by auto
  have "nbd_malloc t n s1 = ret (x, s2)" using s2(1) x0(1) by (simp add: D)
  moreover have "insert x (A - {x}) = A" using assms(2) by blast
  ultimately show ?thesis using s1(1,2) s2(2,3) by (auto simp: mem_inv_def same_pages_def)
qed

text \<open>The limits of \<^verbatim>\<open>nbd_malloc\<close>: a request of 0 bytes and one of more than 64 GB return NULL and
  change nothing; for a request of 1 byte the call of \<^verbatim>\<open>__builtin_clzl\<close> is undefined.\<close>

lemma nbd_malloc_limits:
  "nbd_malloc t 0 s = ret (NULL, s) \<and> nbd_malloc t 1 s = fail Undefined_Behaviour \<and>
   (2 ^ 36 < unat n \<longrightarrow> nbd_malloc t n s = ret (NULL, s))"
proof (intro conjI impI)
  have "rev [0..<64] = 63 # rev [0..<63]" by (simp add: upt_rec)
  then show "nbd_malloc t 0 s = ret (NULL, s)"
    by (simp add: nbd_malloc_def builtin_clzl_def Let_def MAX_SCALE_def MEM_MIN_SCALE_def del: upt_rec_numeral)
  show "nbd_malloc t 1 s = fail Undefined_Behaviour" by (simp add: nbd_malloc_def builtin_clzl_def)
  assume n: "2 ^ 36 < unat n"
  then obtain z where z: "builtin_clzl (n - 1) = ret z" "(if 64 - z < MEM_MIN_SCALE then MEM_MIN_SCALE else 64 - z) = size_scale n"
    using malloc_scale [of n] by auto
  have "size_scale n > MAX_SCALE" using size_scale_le(4) [OF n] by (simp add: MAX_SCALE_def)
  then show "nbd_malloc t n s = ret (NULL, s)" unfolding nbd_malloc_def z(1) pbind_ret Let_def z(2) by simp
qed

text \<open>C25: \<^verbatim>\<open>get_new_region\<close> maps exactly one region, aligned at its size, whatever alignment
  \<^verbatim>\<open>mmap\<close> gives: the excess at both ends is unmapped, everything mapped before stays mapped, and
  the header of the region records the thread and the scale.\<close>

theorem get_new_region_aligned:
  assumes "mem_inv s A" and "k \<le> 36" and "os_ok (max k 21) s"
  shows "\<exists>r s'. get_new_region t k s = ret (r, s') \<and> 2 ^ max k 21 dvd unat r \<and> {unat r..<unat r + 2 ^ max k 21} \<inter> mapped s = {} \<and>
    mapped s' = mapped s \<union> {unat r..<unat r + 2 ^ max k 21} \<and> hscale s' r = k \<and> howner s' r = t"
proof -
  obtain L where "mem_rep s L A" using assms(1) by (auto simp: mem_inv_def)
  note R = mem_repD(1,10) [OF this]
  obtain r s' s1 where g: "get_new_region t k s = ret (r, s')" "grant r (2 ^ max k 21) (mapped s)" "2 ^ max k 21 dvd unat r"
    "mapped s' = mapped s \<union> {unat r..<unat r + 2 ^ max k 21}"
    "s' = s1\<lparr>m_headers := (m_headers s)(page r := \<lparr>hd_owner = t, hd_scale = k\<rparr>)\<rparr>"
    using get_new_region_ok [OF R(1) assms(2,3) R(2), of t] by blast
  have "hscale s' r = k" "howner s' r = t" by (simp_all add: g(5) hscale_def howner_def)
  moreover have "{unat r..<unat r + 2 ^ max k 21} \<inter> mapped s = {}" using g(2) by (simp add: grant_def)
  ultimately show ?thesis using g(1,3,4) by blast
qed

theorem get_new_region_aligned_witness:
  "\<exists>r s'. get_new_region 0 3 mem_sample = ret (r, s') \<and> 2 ^ 21 dvd unat r"
  using get_new_region_aligned [OF mem_sample_ok(1), of 3 0] os_ok_sample [of 3] by auto

text \<open>A block handed out to thread 0.\<close>

lemma mem_sample_block: "\<exists>b s'. mem_inv s' {b} \<and> howner s' b = 0 \<and> hscale s' b = 3 \<and> b \<noteq> NULL"
proof -
  have "mem_rep mem_sample L {} \<Longrightarrow> ?thesis" for L
  proof -
    assume r: "mem_rep mem_sample L {}"
    note R = mem_repD(1,10) [OF r]
    obtain x s' s1 rs os where g: "grant x (2 ^ max 3 21) (mapped mem_sample)" "2 ^ max 3 21 dvd unat x"
      "mapped s' = mapped mem_sample \<union> {unat x..<unat x + 2 ^ max 3 21}"
      "s' = s1\<lparr>m_headers := (m_headers mem_sample)(page x := \<lparr>hd_owner = 0, hd_scale = 3\<rparr>)\<rparr>" "s1 = mem_sample\<lparr>m_mmap := rs, m_os := os\<rparr>"
      using get_new_region_ok [OF R(1) _ os_ok_sample R(2), of 3 0] by auto
    have z: "(0 :: nat) < MAX_NUM_THREADS" by (simp add: MAX_NUM_THREADS_def)
    note N = mem_rep_region [OF r _ _ z g]
    have "(2 :: nat) ^ 3 dvd 2 ^ max 3 21" by (rule le_imp_power_dvd) simp
    then have "2 ^ 3 dvd unat x" using g(2) by (rule dvd_trans)
    then have "blk_ok s' x" "hscale s' x = 3" "howner s' x = 0" "\<forall>pl. x \<notin> set (L pl)" using N(2) [of x] by auto
    moreover have "mem_rep s' L {}" using N(1) by simp
    ultimately have "mem_rep s' L {x}" unfolding mem_rep_def by blast
    then show ?thesis using \<open>blk_ok s' x\<close> \<open>hscale s' x = 3\<close> \<open>howner s' x = 0\<close> by (auto simp: mem_inv_def blk_ok_def)
  qed
  then show ?thesis using mem_sample_ok(1) by (auto simp: mem_inv_def)
qed

theorem nbd_free_safe_witness:
  "\<exists>b s L s'. mem_rep s L {b} \<and> howner s b = 0 \<and> nbd_free 1 b s = ret s' \<and> mem_rep s' (L(Queue 1 0 := L (Queue 1 0) @ [b])) {}"
proof -
  obtain b s L where b: "mem_rep s L {b}" "howner s b = 0" using mem_sample_block by (auto simp: mem_inv_def)
  then have "\<exists>s'. nbd_free 1 b s = ret s' \<and> mem_rep s' (L(Queue 1 0 := L (Queue 1 0) @ [b])) {}"
    using nbd_free_safe [OF b(1), of b 1] by (auto simp: MAX_NUM_THREADS_def)
  then show ?thesis using b by blast
qed

theorem nbd_free_malloc_reuses_witness:
  "\<exists>b s s1 s2. nbd_free 0 b s = ret s1 \<and> nbd_malloc 0 8 s1 = ret (b, s2)"
proof -
  obtain b s where "mem_inv s {b}" "howner s b = 0" "hscale s b = 3" using mem_sample_block by blast
  then show ?thesis using nbd_free_malloc_reuses [of s "{b}" b 0 8] by (auto simp: MAX_NUM_THREADS_def size_scale_8)
qed

end
