(* ===== verification/Txn.thy ===== *)
theory Txn
  imports Skiplist Map_Interface
begin

text \<open>
  Model of \<^verbatim>\<open>src/src/txn/txn.c\<close>: transactions over a map. The value of a key is a chain of update
  records, the newest first; a record's version is the transaction that made it until it commits, then
  the version number of the commit. A transaction reads the newest record committed no later than its
  read version, or its own, and fails to commit if a key it has written was committed since. The
  reference counts of the read versions in use are kept in a skip list, \<^verbatim>\<open>active_\<close>.

  The static variables and the memory are the record \<open>txn_sys\<close>; the map is any implementation of the
  map interface, and a transaction names the one it works on. \<open>x_pool\<close> are the addresses that
  \<^verbatim>\<open>nbd_malloc\<close> returns, \<open>x_freed\<close> and \<open>x_deferred\<close> record the calls of \<^verbatim>\<open>nbd_free\<close> and
  \<^verbatim>\<open>rcu_defer_free\<close>. A call is one step.
\<close>

section \<open>Data\<close>

type_synonym version_t = map_key_t

datatype txn_state_e = TXN_RUNNING | TXN_VALIDATING | TXN_VALIDATED | TXN_ABORTED

definition UNDETERMINED_VERSION :: version_t where "UNDETERMINED_VERSION = 0"
definition ABORTED_VERSION :: version_t where "ABORTED_VERSION = TAG_VALUE 0 TAG1"
definition INITIAL_WRITES_SIZE :: nat where "INITIAL_WRITES_SIZE = 4"

definition PTR_TO_VAL :: "addr \<Rightarrow> map_val_t" where "PTR_TO_VAL x = drop_bit 2 x"
definition VAL_TO_PTR :: "map_val_t \<Rightarrow> addr" where "VAL_TO_PTR x = push_bit 2 x"

record update_rec =
  u_version :: version_t
  u_value :: map_val_t
  u_next :: map_val_t

record write_rec =
  w_key :: map_key_t
  w_rec :: addr

text \<open>\<open>tx_writes\<close> is the array of the first \<^verbatim>\<open>writes_count\<close> elements, at the address \<open>tx_writes_at\<close>. The
  field \<^verbatim>\<open>validate_scan\<close> is not used.\<close>

record txn_rec =
  tx_rv :: version_t
  tx_wv :: version_t
  tx_map :: nat
  tx_writes_at :: addr
  tx_writes :: "write_rec list"
  tx_writes_size :: nat
  tx_state :: txn_state_e

record 's txn_sys =
  x_recs :: "addr \<Rightarrow> update_rec option"
  x_txns :: "addr \<Rightarrow> txn_rec option"
  x_maps :: "nat \<Rightarrow> 's"
  x_active :: "skiplist_t option"
  x_version :: version_t
  x_pool :: "addr list"
  x_sl_pool :: "addr list" \<comment> \<open>the memory of the skip list of active versions\<close>
  x_sl_rnd :: rnd_state
  x_freed :: "addr list"
  x_deferred :: "addr list"

definition x_malloc :: "'s txn_sys \<Rightarrow> (addr \<times> 's txn_sys) prog" where
  "x_malloc s = (case x_pool s of [] \<Rightarrow> fail Exit_Failure | a # pool \<Rightarrow> ret (a, s\<lparr>x_pool := pool\<rparr>))"

definition x_free_rec :: "addr \<Rightarrow> 's txn_sys \<Rightarrow> 's txn_sys" where
  "x_free_rec a s = s\<lparr>x_recs := (x_recs s)(a := None), x_freed := x_freed s @ [a]\<rparr>"

definition x_defer :: "addr \<Rightarrow> 's txn_sys \<Rightarrow> 's txn_sys" where
  "x_defer a s = s\<lparr>x_deferred := x_deferred s @ [a]\<rparr>"

definition get_txn :: "'s txn_sys \<Rightarrow> addr \<Rightarrow> txn_rec prog" where
  "get_txn s t = (case x_txns s t of None \<Rightarrow> fail Null_Deref | Some x \<Rightarrow> ret x)"

definition put_txn :: "addr \<Rightarrow> txn_rec \<Rightarrow> 's txn_sys \<Rightarrow> 's txn_sys" where
  "put_txn t x s = s\<lparr>x_txns := (x_txns s)(t \<mapsto> x)\<rparr>"

definition get_rec :: "'s txn_sys \<Rightarrow> addr \<Rightarrow> update_rec prog" where
  "get_rec s a = (case x_recs s a of None \<Rightarrow> fail Null_Deref | Some u \<Rightarrow> ret u)"

definition put_rec :: "addr \<Rightarrow> update_rec \<Rightarrow> 's txn_sys \<Rightarrow> 's txn_sys" where
  "put_rec a u s = s\<lparr>x_recs := (x_recs s)(a \<mapsto> u)\<rparr>"

definition txn_get_map :: "'s map_impl \<Rightarrow> nat \<Rightarrow> map_key_t \<Rightarrow> 's txn_sys \<Rightarrow> (map_val_t \<times> 's txn_sys) prog" where
  "txn_get_map impl m key s = pbind (map_get impl (x_maps s m) key) (\<lambda>(v, ms). ret (v, s\<lparr>x_maps := (x_maps s)(m := ms)\<rparr>))"

definition txn_cas_map :: "'s map_impl \<Rightarrow> nat \<Rightarrow> map_key_t \<Rightarrow> map_val_t \<Rightarrow> map_val_t \<Rightarrow> 's txn_sys \<Rightarrow> (map_val_t \<times> 's txn_sys) prog" where
  "txn_cas_map impl m key e v s = pbind (map_cas impl (x_maps s m) key e v) (\<lambda>(r, ms). ret (r, s\<lparr>x_maps := (x_maps s)(m := ms)\<rparr>))"

text \<open>Calls on the skip list of active versions; \<open>junk\<close> is what the arrays on its stack hold.\<close>

definition active_cas :: "addr list \<Rightarrow> version_t \<Rightarrow> uint32_t \<Rightarrow> uint32_t \<Rightarrow> 's txn_sys \<Rightarrow> (uint32_t \<times> 's txn_sys) prog" where
  "active_cas junk rv e v s = (case x_active s of
      None \<Rightarrow> fail Null_Deref
    | Some sl \<Rightarrow> pbind (sl_cas junk sl rv (ucast e) (ucast v)) (\<lambda>(r, sl). ret (ucast r, s\<lparr>x_active := Some sl\<rparr>)))"

definition active_remove :: "addr list \<Rightarrow> version_t \<Rightarrow> 's txn_sys \<Rightarrow> 's txn_sys prog" where
  "active_remove junk rv s = (case x_active s of
      None \<Rightarrow> fail Null_Deref
    | Some sl \<Rightarrow> pbind (sl_remove junk sl rv) (\<lambda>(_, sl). ret (s\<lparr>x_active := Some sl\<rparr>)))"

definition active_min :: "'s txn_sys \<Rightarrow> version_t prog" where
  "active_min s = (case x_active s of None \<Rightarrow> fail Null_Deref | Some sl \<Rightarrow> sl_min_key sl)"

section \<open>Validation\<close>

text \<open>\<^verbatim>\<open>validate_key\<close> and \<^verbatim>\<open>txn_validate\<close> call each other, to help a transaction that is validating.
  They are one function of the call: \<open>Call_Txn\<close> is \<^verbatim>\<open>txn_validate\<close>, \<open>Call_Writes\<close> its loop from the
  \<open>i\<close>-th write on, \<open>Call_Key\<close> is \<^verbatim>\<open>validate_key\<close> and \<open>Call_Chain\<close> its loop from the update \<open>val\<close> on.\<close>

datatype validate_call =
    Call_Txn addr
  | Call_Writes addr nat
  | Call_Key addr map_key_t
  | Call_Chain addr map_val_t

partial_function (option) validate :: "'s map_impl \<Rightarrow> validate_call \<Rightarrow> 's txn_sys \<Rightarrow> (txn_state_e \<times> 's txn_sys) prog" where
  "validate impl call s = (case call of
     Call_Txn txn \<Rightarrow>
       pbind (get_txn s txn) (\<lambda>x.
       pbind (passert (tx_state x \<noteq> TXN_RUNNING)) (\<lambda>_.
       if tx_state x = TXN_VALIDATING then
         let s = (if tx_wv x = UNDETERMINED_VERSION then
                    case SYNC_ADD (x_version s) 1 of (wv, version) \<Rightarrow>
                    case SYNC_CAS (tx_wv x) UNDETERMINED_VERSION wv of (_, wv) \<Rightarrow>
                    put_txn txn (x\<lparr>tx_wv := wv\<rparr>) (s\<lparr>x_version := version\<rparr>)
                  else s)
         in pbind (validate impl (Call_Writes txn 0) s) (\<lambda>(_, s).
            pbind (get_txn s txn) (\<lambda>x.
            let x = (if tx_state x = TXN_VALIDATING then x\<lparr>tx_state := TXN_VALIDATED\<rparr> else x)
            in ret (tx_state x, put_txn txn x s)))
       else ret (tx_state x, s)))
   | Call_Writes txn i \<Rightarrow>
       pbind (get_txn s txn) (\<lambda>x.
       if i < length (tx_writes x) then
         pbind (validate impl (Call_Key txn (w_key (tx_writes x ! i))) s) (\<lambda>(r, s).
         if r = TXN_ABORTED then pbind (get_txn s txn) (\<lambda>x. ret (r, put_txn txn (x\<lparr>tx_state := TXN_ABORTED\<rparr>) s))
         else pbind (passert (r = TXN_VALIDATED)) (\<lambda>_. validate impl (Call_Writes txn (i + 1)) s))
       else ret (TXN_VALIDATED, s))
   | Call_Key txn key \<Rightarrow>
       pbind (get_txn s txn) (\<lambda>x.
       pbind (passert (tx_state x \<noteq> TXN_RUNNING)) (\<lambda>_.
       pbind (txn_get_map impl (tx_map x) key s) (\<lambda>(val, s).
       validate impl (Call_Chain txn val) s)))
   | Call_Chain txn val \<Rightarrow>
       pbind (get_txn s txn) (\<lambda>x.
       if val = DOES_NOT_EXIST then ret (TXN_VALIDATED, s)
       else if IS_TAGGED val TAG2 = 0 then ret (TXN_VALIDATED, s)
       else
         pbind (get_rec s (VAL_TO_PTR val)) (\<lambda>u.
         if IS_TAGGED (u_version u) TAG1 = 0 then
           ret (if u_version u \<le> tx_rv x then TXN_VALIDATED else TXN_ABORTED, s)
         else if u_version u = ABORTED_VERSION then validate impl (Call_Chain txn (u_next u)) s
         else
           let writer = VAL_TO_PTR (u_version u)
           in if writer = txn then validate impl (Call_Chain txn (u_next u)) s
              else
                pbind (get_txn s writer) (\<lambda>w.
                if tx_state w = TXN_RUNNING then validate impl (Call_Chain txn (u_next u)) s
                else if tx_state w = TXN_VALIDATING \<and> tx_wv w > tx_wv x then validate impl (Call_Chain txn (u_next u)) s
                else
                  pbind (if tx_state w = TXN_VALIDATING then validate impl (Call_Txn writer) s else ret (tx_state w, s)) (\<lambda>(writer_state, s).
                  if writer_state = TXN_ABORTED then
                    pbind (get_rec s (VAL_TO_PTR val)) (\<lambda>u. validate impl (Call_Chain txn (u_next u)) s)
                  else
                    pbind (passert (writer_state = TXN_VALIDATED)) (\<lambda>_.
                    pbind (get_txn s writer) (\<lambda>w.
                    pbind (get_txn s txn) (\<lambda>x.
                    ret (if tx_wv w \<le> tx_rv x then TXN_VALIDATED else TXN_ABORTED, s)))))))))"

definition validate_key :: "'s map_impl \<Rightarrow> addr \<Rightarrow> map_key_t \<Rightarrow> 's txn_sys \<Rightarrow> (txn_state_e \<times> 's txn_sys) prog" where
  "validate_key impl txn key s = validate impl (Call_Key txn key) s"

definition txn_validate :: "'s map_impl \<Rightarrow> addr \<Rightarrow> 's txn_sys \<Rightarrow> (txn_state_e \<times> 's txn_sys) prog" where
  "txn_validate impl txn s = validate impl (Call_Txn txn) s"

section \<open>Beginning and ending a transaction\<close>

definition alloc_update_rec :: "version_t \<Rightarrow> map_val_t \<Rightarrow> 's txn_sys \<Rightarrow> (addr \<times> 's txn_sys) prog" where
  "alloc_update_rec ver val s =
     pbind (x_malloc s) (\<lambda>(u, s). ret (u, put_rec u \<lparr>u_version = ver, u_value = val, u_next = DOES_NOT_EXIST\<rparr> s))"

text \<open>The two inner loops of \<^verbatim>\<open>txn_begin\<close>, entered with the expected count.\<close>

partial_function (option) txn_raise :: "addr list \<Rightarrow> version_t \<Rightarrow> uint32_t \<Rightarrow> 's txn_sys \<Rightarrow> 's txn_sys prog" where
  "txn_raise junk rv temp s =
     (let old_count = temp
      in pbind (active_cas junk rv old_count (old_count + 1) s) (\<lambda>(temp, s).
         if temp \<noteq> old_count then txn_raise junk rv temp s else ret s))"

partial_function (option) txn_unraise :: "addr list \<Rightarrow> version_t \<Rightarrow> uint32_t \<Rightarrow> 's txn_sys \<Rightarrow> 's txn_sys prog" where
  "txn_unraise junk rv temp s =
     (let old_count = temp
      in pbind (active_cas junk rv old_count (old_count - 1) s) (\<lambda>(temp, s).
         if temp \<noteq> old_count then txn_unraise junk rv temp s else ret s))"

partial_function (option) txn_acquire :: "addr list \<Rightarrow> addr \<Rightarrow> 's txn_sys \<Rightarrow> 's txn_sys prog" where
  "txn_acquire junk txn s =
     pbind (get_txn s txn) (\<lambda>x.
     let rv = x_version s;
         s = put_txn txn (x\<lparr>tx_rv := rv\<rparr>) s
     in pbind (txn_raise junk rv 0 s) (\<lambda>s.
        if rv = x_version s then ret s
        else pbind (txn_unraise junk rv 1 s) (\<lambda>s. txn_acquire junk txn s)))"

definition txn_begin :: "addr list \<Rightarrow> nat \<Rightarrow> 's txn_sys \<Rightarrow> (addr \<times> 's txn_sys) prog" where
  "txn_begin junk m s =
     pbind (x_malloc s) (\<lambda>(txn, s).
     pbind (x_malloc s) (\<lambda>(w, s).
     let s = put_txn txn \<lparr>tx_rv = 0, tx_wv = UNDETERMINED_VERSION, tx_map = m, tx_writes_at = w, tx_writes = [],
               tx_writes_size = INITIAL_WRITES_SIZE, tx_state = TXN_RUNNING\<rparr> s
     in pbind (if x_active s = None then
                 pbind (sl_alloc None (x_sl_pool s) (x_sl_rnd s)) (\<lambda>a.
                 case SYNC_CAS (x_active s) None (Some a) of (old, active) \<Rightarrow>
                 (let s = s\<lparr>x_active := active\<rparr>
                  in if old \<noteq> None then pbind (sl_free a) (\<lambda>_. ret s) else ret s))
               else ret s) (\<lambda>s.
        pbind (txn_acquire junk txn s) (\<lambda>s. ret (txn, s)))))"

text \<open>The loop over the writes of a transaction that gives its updates a version.\<close>

primrec txn_detach :: "version_t \<Rightarrow> write_rec list \<Rightarrow> 's txn_sys \<Rightarrow> 's txn_sys prog" where
  "txn_detach wv [] s = ret s"
| "txn_detach wv (w # ws) s =
     pbind (get_rec s (w_rec w)) (\<lambda>u. txn_detach wv ws (put_rec (w_rec w) (u\<lparr>u_version := wv\<rparr>) s))"

definition txn_abort :: "addr \<Rightarrow> 's txn_sys \<Rightarrow> 's txn_sys prog" where
  "txn_abort txn s =
     pbind (get_txn s txn) (\<lambda>x.
     if tx_state x \<noteq> TXN_RUNNING then ret s
     else pbind (txn_detach ABORTED_VERSION (tx_writes x) s) (\<lambda>s. ret (x_defer txn (x_defer (tx_writes_at x) s))))"

text \<open>The loop of \<^verbatim>\<open>txn_commit\<close> that lowers the reference count of the read version.\<close>

partial_function (option) txn_lower :: "addr list \<Rightarrow> version_t \<Rightarrow> uint32_t \<Rightarrow> 's txn_sys \<Rightarrow> 's txn_sys prog" where
  "txn_lower junk rv temp s =
     (let old_count = temp
      in pbind (active_cas junk rv old_count (old_count - 1) s) (\<lambda>(temp, s).
         if temp = 1 \<and> rv \<noteq> x_version s then active_remove junk rv s
         else if old_count \<noteq> temp then txn_lower junk rv temp s
         else ret s))"

definition txn_commit :: "'s map_impl \<Rightarrow> addr list \<Rightarrow> addr \<Rightarrow> 's txn_sys \<Rightarrow> (txn_state_e \<times> 's txn_sys) prog" where
  "txn_commit impl junk txn s =
     pbind (get_txn s txn) (\<lambda>x.
     if tx_state x \<noteq> TXN_RUNNING then ret (tx_state x, s)
     else
       pbind (txn_validate impl txn (put_txn txn (x\<lparr>tx_state := TXN_VALIDATING\<rparr>) s)) (\<lambda>(state, s).
       pbind (get_txn s txn) (\<lambda>x.
       let wv = (if tx_state x = TXN_ABORTED then ABORTED_VERSION else tx_wv x)
       in pbind (txn_detach wv (tx_writes x) s) (\<lambda>s.
          pbind (txn_lower junk (tx_rv x) 2 s) (\<lambda>s.
          ret (state, x_defer txn (x_defer (tx_writes_at x) s)))))))"

section \<open>Reading\<close>

text \<open>What the search for the visible update finds: a value of the map itself, an update record, or the
  end of the chain.\<close>

datatype find_result = Found_Literal map_val_t | Found_Update map_val_t | Not_Found

partial_function (option) txn_find :: "'s map_impl \<Rightarrow> addr \<Rightarrow> map_val_t \<Rightarrow> 's txn_sys \<Rightarrow> (find_result \<times> 's txn_sys) prog" where
  "txn_find impl txn val s =
     (let update = VAL_TO_PTR val
      in if update = NULL then ret (Not_Found, s)
         else if IS_TAGGED val TAG2 = 0 then ret (Found_Literal val, s)
         else
           pbind (get_txn s txn) (\<lambda>x.
           pbind (get_rec s update) (\<lambda>u.
           if IS_TAGGED (u_version u) TAG1 = 0 then
             if u_version u \<le> tx_rv x then ret (Found_Update val, s) else txn_find impl txn (u_next u) s
           else if u_version u = ABORTED_VERSION then txn_find impl txn (u_next u) s
           else
             let writer = VAL_TO_PTR (u_version u)
             in if writer = txn then ret (Found_Update val, s)
                else
                  pbind (get_txn s writer) (\<lambda>w.
                  if tx_state w = TXN_RUNNING then txn_find impl txn (u_next u) s
                  else if tx_state w = TXN_VALIDATING \<and> tx_wv w > tx_rv x then txn_find impl txn (u_next u) s
                  else
                    pbind (if tx_state w = TXN_VALIDATING then txn_validate impl writer s else ret (tx_state w, s)) (\<lambda>(writer_state, s).
                    pbind (get_rec s update) (\<lambda>u.
                    if writer_state = TXN_ABORTED then txn_find impl txn (u_next u) s
                    else
                      pbind (passert (writer_state = TXN_VALIDATED)) (\<lambda>_.
                      pbind (get_txn s writer) (\<lambda>w.
                      if tx_wv w > tx_rv x then txn_find impl txn (u_next u) s
                      else ret (Found_Update val, s)))))))))"

text \<open>Garbage collection: the loop over aborted updates, with the result that the collection is given up;
  and the loop that frees an update and those after it.\<close>

partial_function (option) txn_gc_aborted :: "version_t \<Rightarrow> addr \<Rightarrow> 's txn_sys \<Rightarrow> bool prog" where
  "txn_gc_aborted min_active_version temp s =
     pbind (get_rec s temp) (\<lambda>u.
     if u_version u = ABORTED_VERSION then
       pbind (passert (IS_TAGGED (u_version u) TAG1 = 0)) (\<lambda>_.
       let next = u_next u
       in if IS_TAGGED next TAG2 = 0 then ret False
          else
            pbind (get_rec s (VAL_TO_PTR next)) (\<lambda>n.
            if u_version n \<ge> min_active_version then ret True
            else txn_gc_aborted min_active_version (VAL_TO_PTR next) s))
     else ret False)"

partial_function (option) txn_gc_free :: "addr \<Rightarrow> 's txn_sys \<Rightarrow> 's txn_sys prog" where
  "txn_gc_free temp s =
     pbind (get_rec s temp) (\<lambda>u.
     case SYNC_SWAP (u_next u) DOES_NOT_EXIST of (next, nx) \<Rightarrow>
     (let s = put_rec temp (u\<lparr>u_next := nx\<rparr>) s
      in if next = DOES_NOT_EXIST then ret s
         else
           let s = x_free_rec temp s
           in if IS_TAGGED next TAG2 \<noteq> 0 then txn_gc_free (VAL_TO_PTR next) s else ret s))"

text \<open>What \<^verbatim>\<open>txn_map_get\<close> does between finding the update \<open>u\<close>, referred to by \<open>val\<close>, and returning its value.\<close>

definition txn_collect :: "'s map_impl \<Rightarrow> nat \<Rightarrow> map_key_t \<Rightarrow> map_val_t \<Rightarrow> map_val_t \<Rightarrow> update_rec \<Rightarrow> 's txn_sys \<Rightarrow> 's txn_sys prog" where
  "txn_collect impl m key newest_val val u s =
     (if IS_TAGGED (u_next u) TAG2 \<noteq> 0 then
        let next_update = VAL_TO_PTR (u_next u)
        in pbind (active_min s) (\<lambda>min_active_version.
           pbind (get_rec s next_update) (\<lambda>n.
           if u_version n < min_active_version then
             pbind (txn_gc_aborted min_active_version next_update s) (\<lambda>bail.
             if bail then ret s else txn_gc_free next_update s)
           else ret s))
      else if val = newest_val then
        pbind (active_min s) (\<lambda>min_active_version.
        if u_version u \<le> min_active_version then
          pbind (txn_cas_map impl m key (TAG_VALUE val TAG2) (u_value u) s) (\<lambda>(r, s).
          ret (if r = TAG_VALUE val TAG2 then x_defer (VAL_TO_PTR val) s else s))
        else ret s)
      else ret s)"

definition txn_map_get :: "'s map_impl \<Rightarrow> addr \<Rightarrow> map_key_t \<Rightarrow> 's txn_sys \<Rightarrow> (map_val_t \<times> 's txn_sys) prog" where
  "txn_map_get impl txn key s =
     pbind (get_txn s txn) (\<lambda>x.
     if tx_state x \<noteq> TXN_RUNNING then ret (ERROR_TXN_NOT_RUNNING, s)
     else
       pbind (txn_get_map impl (tx_map x) key s) (\<lambda>(newest_val, s).
       pbind (txn_find impl txn newest_val s) (\<lambda>(r, s). case r of
         Found_Literal v \<Rightarrow> ret (v, s)
       | Not_Found \<Rightarrow> ret (DOES_NOT_EXIST, s)
       | Found_Update val \<Rightarrow>
           pbind (get_rec s (VAL_TO_PTR val)) (\<lambda>u.
           pbind (txn_collect impl (tx_map x) key newest_val val u s) (\<lambda>s. ret (u_value u, s))))))"

section \<open>Writing\<close>

partial_function (option) txn_push :: "'s map_impl \<Rightarrow> nat \<Rightarrow> map_key_t \<Rightarrow> addr \<Rightarrow> map_val_t \<Rightarrow> 's txn_sys \<Rightarrow> 's txn_sys prog" where
  "txn_push impl m key update old_update s =
     pbind (get_rec s update) (\<lambda>u.
     let s = put_rec update (u\<lparr>u_next := old_update\<rparr>) s
     in pbind (txn_cas_map impl m key old_update (TAG_VALUE (PTR_TO_VAL update) TAG2) s) (\<lambda>(temp, s).
        if temp = old_update then ret s else txn_push impl m key update temp s))"

definition txn_map_set :: "'s map_impl \<Rightarrow> addr \<Rightarrow> map_key_t \<Rightarrow> map_val_t \<Rightarrow> 's txn_sys \<Rightarrow> 's txn_sys prog" where
  "txn_map_set impl txn key value s =
     pbind (passert (IS_TAGGED value TAG1 = 0 \<and> IS_TAGGED value TAG2 = 0)) (\<lambda>_.
     pbind (get_txn s txn) (\<lambda>x.
     if tx_state x \<noteq> TXN_RUNNING then ret s
     else
       let ver = TAG_VALUE (PTR_TO_VAL txn) TAG1
       in pbind (alloc_update_rec ver value s) (\<lambda>(update, s).
          pbind (txn_get_map impl (tx_map x) key s) (\<lambda>(old_update, s).
          pbind (txn_push impl (tx_map x) key update old_update s) (\<lambda>s.
          pbind (get_txn s txn) (\<lambda>x.
          pbind (if length (tx_writes x) = tx_writes_size x then
                   pbind (x_malloc s) (\<lambda>(w, s).
                   ret (x\<lparr>tx_writes_at := w, tx_writes_size := tx_writes_size x * 2\<rparr>, s\<lparr>x_freed := x_freed s @ [tx_writes_at x]\<rparr>))
                 else ret (x, s)) (\<lambda>(x, s).
          ret (put_txn txn (x\<lparr>tx_writes := tx_writes x @ [\<lparr>w_key = key, w_rec = update\<rparr>]\<rparr>) s))))))))"

lemmas txn_code [code] = validate.simps txn_raise.simps txn_unraise.simps txn_acquire.simps txn_lower.simps txn_find.simps
  txn_gc_aborted.simps txn_gc_free.simps txn_push.simps

end
