(* ===== verification/Txn_Chain.thy ===== *)
theory Txn_Chain
  imports Txn Skiplist_Map Hashtable_Map
begin

text \<open>
  Lemmas on the parts of \<^verbatim>\<open>src/src/txn/txn.c\<close>: the encoding of update records in values and of
  transactions in versions, the chain of updates of a key, what a transaction sees of it, the search of
  \<^verbatim>\<open>txn_map_get\<close> and the loop that frees updates, and the reference counts of the read versions in
  the skip list \<^verbatim>\<open>active_\<close>.
\<close>

section \<open>References\<close>

definition heap_addr :: "addr \<Rightarrow> bool" where
  "heap_addr a \<longleftrightarrow> a \<noteq> NULL \<and> a AND 3 = 0 \<and> a < 0x1000000000000"

definition user_val :: "map_val_t \<Rightarrow> bool" where
  "user_val v \<longleftrightarrow> 0 < v \<and> v < 0x4000000000000000"

definition upd_ref :: "addr \<Rightarrow> map_val_t" where "upd_ref a = TAG_VALUE (PTR_TO_VAL a) TAG2"
definition txn_ref :: "addr \<Rightarrow> version_t" where "txn_ref t = TAG_VALUE (PTR_TO_VAL t) TAG1"
definition committed :: "version_t \<Rightarrow> bool" where "committed v \<longleftrightarrow> IS_TAGGED v TAG1 = 0"

lemma back_and_forth: "a AND 3 = 0 \<Longrightarrow> push_bit 2 (drop_bit 2 a) = (a :: addr)"
proof -
  assume "a AND 3 = 0"
  moreover have "(3 :: addr) = mask 2" by (simp add: mask_eq_exp_minus_1)
  ultimately have "take_bit 2 a = 0" by (simp add: take_bit_eq_mask)
  then show ?thesis using bits_ident [of 2 a] by simp
qed

lemma tags_shift_out: "push_bit 2 TAG1 = 0" "push_bit 2 TAG2 = 0" "TAG1 AND TAG2 = 0" "TAG2 AND TAG1 = 0"
  by code_simp+

lemma VAL_TO_PTR_tag: "VAL_TO_PTR (TAG_VALUE x t) = VAL_TO_PTR x" if "t = TAG1 \<or> t = TAG2"
  using that by (auto simp: VAL_TO_PTR_def TAG_VALUE_def tags_shift_out)

lemma VAL_TO_PTR_ref: "a AND 3 = 0 \<Longrightarrow> VAL_TO_PTR (upd_ref a) = a" "a AND 3 = 0 \<Longrightarrow> VAL_TO_PTR (txn_ref a) = a"
  by (simp_all add: upd_ref_def txn_ref_def VAL_TO_PTR_tag) (simp_all add: VAL_TO_PTR_def PTR_TO_VAL_def back_and_forth)

lemma drop_and_tag1: "drop_bit 2 (a :: addr) AND TAG1 = 0"
proof -
  have "drop_bit 2 a AND TAG1 = drop_bit 2 (a AND push_bit 2 TAG1)"
    by (rule bit_word_eqI) (auto simp: bit_simps bit_TAG1 dest: bit_imp_le_length)
  then show ?thesis by (simp add: tags_shift_out)
qed

lemma upd_ref_tags [simp]: "IS_TAGGED (upd_ref a) TAG2 \<noteq> 0" "IS_TAGGED (upd_ref a) TAG1 = 0" "upd_ref a \<noteq> 0" "TAG_VALUE (upd_ref a) TAG2 = upd_ref a"
proof -
  show t: "IS_TAGGED (upd_ref a) TAG2 \<noteq> 0" by (simp add: upd_ref_def TAG2_val)
  then show "upd_ref a \<noteq> 0" by auto
  show "IS_TAGGED (upd_ref a) TAG1 = 0"
    by (simp add: upd_ref_def IS_TAGGED_def TAG_VALUE_def PTR_TO_VAL_def bit.conj_disj_distrib2 drop_and_tag1 tags_shift_out)
  show "TAG_VALUE (upd_ref a) TAG2 = upd_ref a" by (simp add: upd_ref_def)
qed

lemma txn_ref_tags [simp]: "IS_TAGGED (txn_ref a) TAG1 \<noteq> 0" "\<not> committed (txn_ref a)" "\<not> committed ABORTED_VERSION"
  by (simp_all add: txn_ref_def committed_def ABORTED_VERSION_def TAG1_val)

lemma heap_addrD: "heap_addr a \<Longrightarrow> a \<noteq> 0" "heap_addr a \<Longrightarrow> a AND 3 = 0"
  by (simp_all add: heap_addr_def)

lemma ref_ptr [simp]: "heap_addr a \<Longrightarrow> VAL_TO_PTR (upd_ref a) = a" "heap_addr a \<Longrightarrow> VAL_TO_PTR (txn_ref a) = a"
  by (simp_all add: VAL_TO_PTR_ref heap_addrD)

lemma txn_ref_inj: "heap_addr a \<Longrightarrow> heap_addr b \<Longrightarrow> txn_ref a = txn_ref b \<longleftrightarrow> a = b"
  by (metis ref_ptr(2))

lemma upd_ref_inj: "heap_addr a \<Longrightarrow> heap_addr b \<Longrightarrow> upd_ref a = upd_ref b \<longleftrightarrow> a = b"
  by (metis ref_ptr(1))

lemma txn_ref_not_aborted [simp]: "heap_addr a \<Longrightarrow> txn_ref a \<noteq> ABORTED_VERSION" "heap_addr a \<Longrightarrow> ABORTED_VERSION \<noteq> txn_ref a"
proof -
  assume "heap_addr a"
  moreover have "VAL_TO_PTR ABORTED_VERSION = 0" by (simp add: ABORTED_VERSION_def VAL_TO_PTR_tag) (simp add: VAL_TO_PTR_def)
  ultimately show "txn_ref a \<noteq> ABORTED_VERSION" "ABORTED_VERSION \<noteq> txn_ref a" by (metis ref_ptr(2) heap_addrD(1))+
qed

lemma below_power: "n < 64 \<Longrightarrow> (v :: addr) < 2 ^ n \<longleftrightarrow> (\<forall>m \<ge> n. \<not> bit v m)"
proof -
  assume n: "n < 64"
  have "v < 2 ^ n \<longleftrightarrow> unat v < 2 ^ n" 
  proof -
    have "unat (2 ^ n :: addr) = 2 ^ n" 
      using power_strict_increasing [OF n, of "2 :: nat"] unat_of_nat_small [of "2 ^ n", where ?'a = 64] by simp
    then show ?thesis by (simp add: word_less_nat_alt)
  qed
  also have "\<dots> \<longleftrightarrow> take_bit n (unat v) = unat v" by (simp add: take_bit_nat_eq_self_iff)
  also have "\<dots> \<longleftrightarrow> take_bit n v = v" by (metis unsigned_take_bit_eq unsigned_word_eqI)
  also have "\<dots> \<longleftrightarrow> (\<forall>m \<ge> n. \<not> bit v m)"
  proof
    assume t: "take_bit n v = v"
    show "\<forall>m \<ge> n. \<not> bit v m" using arg_cong [OF t, of "\<lambda>w. bit w m" for m] by (metis bit_take_bit_iff not_le t)
  next
    assume "\<forall>m \<ge> n. \<not> bit v m"
    then show "take_bit n v = v" by (intro bit_word_eqI) (auto simp: bit_take_bit_iff not_le)
  qed
  finally show ?thesis .
qed

lemma committed_less: "committed v \<longleftrightarrow> v < 0x8000000000000000"
proof -
  have "v < 2 ^ 63 \<longleftrightarrow> \<not> bit v 63"
  proof
    assume "\<not> bit v 63"
    then have "\<not> bit v m" if "63 \<le> m" for m using bit_imp_le_length [of v m] that by (cases "m = 63") auto
    then show "v < 2 ^ 63" by (subst below_power) simp_all
  qed (simp add: below_power [of 63 v, simplified])
  moreover have "TAG1 \<noteq> 0" by (simp add: TAG1_val)
  ultimately show ?thesis by (simp add: committed_def IS_TAGGED_TAG1)
qed

lemma user_valD: "user_val v \<Longrightarrow> IS_TAGGED v TAG2 = 0" "user_val v \<Longrightarrow> IS_TAGGED v TAG1 = 0" "user_val v \<Longrightarrow> v \<noteq> 0" "user_val v \<Longrightarrow> VAL_TO_PTR v \<noteq> 0"
proof -
  assume u: "user_val v"
  then have b: "\<not> bit v m" if "62 \<le> m" for m using below_power [of 62 v] that by (simp add: user_val_def)
  show "v \<noteq> 0" using u by (auto simp: user_val_def)
  then obtain n where n: "bit v n" by (auto simp: bit_eq_iff)
  then have "n < 62" using b not_le_imp_less by blast
  then have "bit (VAL_TO_PTR v) (n + 2)" using n by (simp add: VAL_TO_PTR_def bit_simps)
  then show "VAL_TO_PTR v \<noteq> 0" by auto
  show "IS_TAGGED v TAG1 = 0" using b [of 63] by (simp add: IS_TAGGED_TAG1)
  have "bit TAG2 m \<longleftrightarrow> m = 62" for m unfolding TAG2_def bit_push_bit_iff by (auto simp: bit_1_iff)
  then show "IS_TAGGED v TAG2 = 0" using b [of 62] by (intro bit_word_eqI) (auto simp: IS_TAGGED_def bit_and_iff)
qed

section \<open>Chains of updates\<close>

primrec chain :: "(addr \<Rightarrow> update_rec option) \<Rightarrow> map_val_t \<Rightarrow> addr list \<Rightarrow> map_val_t \<Rightarrow> bool" where
  "chain R v [] e \<longleftrightarrow> v = e"
| "chain R v (a # as) e \<longleftrightarrow> v = upd_ref a \<and> heap_addr a \<and> R a \<noteq> None \<and> chain R (u_next (the (R a))) as e"

definition u_ver :: "(addr \<Rightarrow> update_rec option) \<Rightarrow> addr \<Rightarrow> version_t" where "u_ver R a = u_version (the (R a))"
definition u_val :: "(addr \<Rightarrow> update_rec option) \<Rightarrow> addr \<Rightarrow> map_val_t" where "u_val R a = u_value (the (R a))"

lemma chain_cong: "(\<And>a. a \<in> set as \<Longrightarrow> (R' a = None) = (R a = None) \<and> u_next (the (R' a)) = u_next (the (R a))) \<Longrightarrow> chain R' v as e = chain R v as e"
  by (induction as arbitrary: v) auto

lemma chain_unique: "chain R v as e \<Longrightarrow> chain R v bs e' \<Longrightarrow> IS_TAGGED e TAG2 = 0 \<Longrightarrow> IS_TAGGED e' TAG2 = 0 \<Longrightarrow> as = bs \<and> e = e'"
proof (induction as arbitrary: v bs)
  case Nil
  then show ?case by (cases bs) auto
next
  case (Cons a as)
  then show ?case by (cases bs) (auto simp: upd_ref_inj)
qed

lemma chain_all: "chain R v as e \<Longrightarrow> a \<in> set as \<Longrightarrow> heap_addr a \<and> R a \<noteq> None"
  by (induction as arbitrary: v) auto

definition chain_end :: "map_val_t \<Rightarrow> bool" where
  "chain_end e \<longleftrightarrow> e = DOES_NOT_EXIST \<or> user_val e"

lemma chain_endD: "chain_end e \<Longrightarrow> IS_TAGGED e TAG2 = 0" "chain_end e \<Longrightarrow> VAL_TO_PTR e = 0 \<longleftrightarrow> e = 0"
  by (auto simp: chain_end_def user_valD DOES_NOT_EXIST_def VAL_TO_PTR_def [of 0] user_val_def [of 0])

text \<open>The updates a transaction sees: its own and those committed at its read version.\<close>

definition sees :: "(addr \<Rightarrow> update_rec option) \<Rightarrow> addr \<Rightarrow> version_t \<Rightarrow> addr \<Rightarrow> bool" where
  "sees R t rv a \<longleftrightarrow> u_ver R a = txn_ref t \<or> committed (u_ver R a) \<and> u_ver R a \<le> rv"

definition visible :: "(addr \<Rightarrow> update_rec option) \<Rightarrow> addr \<Rightarrow> version_t \<Rightarrow> addr list \<Rightarrow> addr list" where
  "visible R t rv as = dropWhile (\<lambda>a. \<not> sees R t rv a) as"

definition snapshot :: "(addr \<Rightarrow> update_rec option) \<Rightarrow> addr \<Rightarrow> version_t \<Rightarrow> addr list \<Rightarrow> map_val_t \<Rightarrow> map_val_t" where
  "snapshot R t rv as e = (case visible R t rv as of [] \<Rightarrow> e | a # _ \<Rightarrow> u_val R a)"

text \<open>What validation compares with the read version.\<close>

definition no_conflict :: "(addr \<Rightarrow> update_rec option) \<Rightarrow> version_t \<Rightarrow> addr list \<Rightarrow> bool" where
  "no_conflict R rv as = (case dropWhile (\<lambda>a. \<not> committed (u_ver R a)) as of [] \<Rightarrow> True | a # _ \<Rightarrow> u_ver R a \<le> rv)"

text \<open>A version as it is while no other transaction is being committed.\<close>

definition settled_ver :: "(addr \<Rightarrow> txn_rec option) \<Rightarrow> addr \<Rightarrow> version_t \<Rightarrow> bool" where
  "settled_ver X t v \<longleftrightarrow> committed v \<or> v = ABORTED_VERSION \<or> v = txn_ref t \<or>
     (\<exists>w x. heap_addr w \<and> w \<noteq> t \<and> v = txn_ref w \<and> X w = Some x \<and> tx_state x = TXN_RUNNING)"

lemma get_simps: "x_recs s a = Some u \<Longrightarrow> get_rec s a = ret u" "x_recs s a = None \<Longrightarrow> get_rec s a = fail Null_Deref"
  "x_txns s t = Some x \<Longrightarrow> get_txn s t = ret x"
  by (simp_all add: get_rec_def get_txn_def)

lemma put_simps [simp]: "x_recs (put_rec a u s) = (x_recs s)(a \<mapsto> u)" "x_txns (put_rec a u s) = x_txns s" "x_maps (put_rec a u s) = x_maps s"
  "x_active (put_rec a u s) = x_active s" "x_version (put_rec a u s) = x_version s" "x_pool (put_rec a u s) = x_pool s"
  "x_recs (put_txn t x s) = x_recs s" "x_txns (put_txn t x s) = (x_txns s)(t \<mapsto> x)" "x_maps (put_txn t x s) = x_maps s"
  "x_active (put_txn t x s) = x_active s" "x_version (put_txn t x s) = x_version s" "x_pool (put_txn t x s) = x_pool s"
  "x_recs (x_defer a s) = x_recs s" "x_txns (x_defer a s) = x_txns s" "x_maps (x_defer a s) = x_maps s"
  "x_active (x_defer a s) = x_active s" "x_version (x_defer a s) = x_version s" "x_pool (x_defer a s) = x_pool s"
  "x_freed (put_rec a u s) = x_freed s" "x_freed (put_txn t x s) = x_freed s" "x_freed (x_defer a s) = x_freed s"
  "x_deferred (put_rec a u s) = x_deferred s" "x_deferred (put_txn t x s) = x_deferred s" "x_deferred (x_defer a s) = x_deferred s @ [a]"
  by (simp_all add: put_rec_def put_txn_def x_defer_def)

lemma txn_find_step:
  assumes u: "x_recs s a = Some u" and a: "heap_addr a" and t: "heap_addr t" "x_txns s t = Some x" and "settled_ver (x_txns s) t (u_version u)"
  shows "txn_find impl t (upd_ref a) s = (if sees (x_recs s) t (tx_rv x) a then ret (Found_Update (upd_ref a), s) else txn_find impl t (u_next u) s)"
proof -
  have se: "sees (x_recs s) t (tx_rv x) a \<longleftrightarrow> u_version u = txn_ref t \<or> committed (u_version u) \<and> u_version u \<le> tx_rv x"
    by (simp add: sees_def u_ver_def u)
  show ?thesis
    using assms(5) unfolding settled_ver_def
  proof (elim disjE exE conjE)
    assume c: "committed (u_version u)"
    then have "u_version u \<noteq> txn_ref t" by auto
    then show ?thesis using c u a t heap_addrD(1) [OF a] unfolding se
      by (subst (1) txn_find.simps) (auto simp: get_simps Let_def committed_def)
  next
    assume w: "u_version u = ABORTED_VERSION"
    then show ?thesis using u a t heap_addrD(1) [OF a] txn_ref_tags(3) unfolding se
      by (subst (1) txn_find.simps) (auto simp: get_simps Let_def committed_def)
  next
    assume "u_version u = txn_ref t"
    then show ?thesis using u a t heap_addrD(1) [OF a] unfolding se
      by (subst (1) txn_find.simps) (auto simp: get_simps Let_def)
  next
    fix w y assume w: "heap_addr w" "w \<noteq> t" "u_version u = txn_ref w" "x_txns s w = Some y" "tx_state y = TXN_RUNNING"
    then show ?thesis using u a t heap_addrD(1) [OF a] txn_ref_inj [OF w(1) t(1)] unfolding se
      by (subst (1) txn_find.simps) (auto simp: get_simps Let_def)
  qed
qed

text \<open>The search passes over the updates it does not see.\<close>

lemma txn_find_prefix:
  assumes "chain (x_recs s) v bs e" and t: "heap_addr t" "x_txns s t = Some x"
    and "\<And>a. a \<in> set bs \<Longrightarrow> settled_ver (x_txns s) t (u_ver (x_recs s) a) \<and> \<not> sees (x_recs s) t (tx_rv x) a"
  shows "txn_find impl t v s = txn_find impl t e s"
  using assms(1,4)
proof (induction bs arbitrary: v)
  case (Cons a bs)
  then obtain u where u: "x_recs s a = Some u" by auto
  then have "txn_find impl t v s = txn_find impl t (u_next u) s"
    using txn_find_step [OF u _ t] Cons.prems(1) Cons.prems(2) [of a] by (simp add: u_ver_def)
  then show ?case using Cons u by simp
qed simp

lemma chain_append: "chain R v (bs @ cs) e \<longleftrightarrow> (\<exists>v'. chain R v bs v' \<and> chain R v' cs e)"
  by (induction bs arbitrary: v) auto

lemma visible_split:
  obtains bs where "as = bs @ visible R t rv as" and "\<And>a. a \<in> set bs \<Longrightarrow> \<not> sees R t rv a"
    and "\<And>a cs. visible R t rv as = a # cs \<Longrightarrow> sees R t rv a"
proof (rule that)
  show "as = takeWhile (\<lambda>a. \<not> sees R t rv a) as @ visible R t rv as" by (simp add: visible_def)
  show "\<not> sees R t rv a" if "a \<in> set (takeWhile (\<lambda>a. \<not> sees R t rv a) as)" for a using that by (blast dest: set_takeWhileD)
  show "sees R t rv a" if "visible R t rv as = a # cs" for a cs using that unfolding visible_def by (metis dropWhile_eq_Cons_conv)
qed

lemma txn_find_ok:
  assumes "chain (x_recs s) v as e" and "chain_end e" and t: "heap_addr t" "x_txns s t = Some x"
    and "\<And>a. a \<in> set as \<Longrightarrow> settled_ver (x_txns s) t (u_ver (x_recs s) a)"
  shows "txn_find impl t v s = ret (case visible (x_recs s) t (tx_rv x) as of
    [] \<Rightarrow> if e = 0 then Not_Found else Found_Literal e | a # _ \<Rightarrow> Found_Update (upd_ref a), s)"
proof -
  obtain bs where bs: "as = bs @ visible (x_recs s) t (tx_rv x) as" "\<And>a. a \<in> set bs \<Longrightarrow> \<not> sees (x_recs s) t (tx_rv x) a"
    "\<And>a cs. visible (x_recs s) t (tx_rv x) as = a # cs \<Longrightarrow> sees (x_recs s) t (tx_rv x) a"
    using visible_split by metis
  obtain v' where v': "chain (x_recs s) v bs v'" "chain (x_recs s) v' (visible (x_recs s) t (tx_rv x) as) e"
    using assms(1) bs(1) chain_append by metis
  have "txn_find impl t v s = txn_find impl t v' s"
    by (rule txn_find_prefix [OF v'(1) t]) (use assms(5) bs(1,2) in \<open>metis Un_iff set_append\<close>)
  also have "\<dots> = ret (case visible (x_recs s) t (tx_rv x) as of
    [] \<Rightarrow> if e = 0 then Not_Found else Found_Literal e | a # _ \<Rightarrow> Found_Update (upd_ref a), s)"
  proof (cases "visible (x_recs s) t (tx_rv x) as")
    case Nil
    then show ?thesis using v'(2) chain_endD [OF assms(2)] by (subst txn_find.simps) auto
  next
    case (Cons a cs)
    then obtain u where u: "x_recs s a = Some u" "v' = upd_ref a" "heap_addr a" using v'(2) by auto
    have "settled_ver (x_txns s) t (u_ver (x_recs s) a)" using assms(5) bs(1) Cons by (metis in_set_conv_decomp)
    then show ?thesis using txn_find_step [OF u(1,3) t] bs(3) Cons u by (simp add: u_ver_def)
  qed
  finally show ?thesis .
qed

lemma txn_gc_free_ok:
  assumes "chain (x_recs s) (upd_ref n) (n # ns) e" and "chain_end e" and "distinct (n # ns)"
  shows "txn_gc_free n s = (let fr = (if e = 0 then butlast (n # ns) else n # ns)
    in ret (s\<lparr>x_recs := x_recs s |` (- set fr), x_freed := x_freed s @ fr\<rparr>))"
  using assms(1,3)
proof (induction ns arbitrary: n s)
  case Nil
  then obtain u where u: "x_recs s n = Some u" "u_next u = e" by auto
  have "(x_recs s)(n \<mapsto> u\<lparr>u_next := 0\<rparr>) = x_recs s" if "e = 0" using u that by (auto simp: fun_eq_iff)
  moreover have "(x_recs s)(n := None) = x_recs s |` (- {n})" by (auto simp: fun_eq_iff restrict_map_def)
  moreover have "x_recs s |` UNIV = x_recs s" by (simp add: restrict_map_def)
  ultimately show ?case
    using u chain_endD(1) [OF assms(2)]
    by (subst txn_gc_free.simps) (auto simp: get_simps SYNC_SWAP_def DOES_NOT_EXIST_def put_rec_def x_free_rec_def Let_def)
next
  case (Cons n' ns)
  then obtain u where u: "x_recs s n = Some u" "u_next u = upd_ref n'" by auto
  define s1 where "s1 = x_free_rec n (put_rec n (u\<lparr>u_next := 0\<rparr>) s)"
  have R: "x_recs s1 = (x_recs s)(n := None)" by (simp add: s1_def x_free_rec_def)
  have "chain (x_recs s1) (upd_ref n') (n' # ns) e = chain (x_recs s) (upd_ref n') (n' # ns) e"
    by (rule chain_cong) (use Cons.prems(2) in \<open>auto simp: R\<close>)
  then have c: "chain (x_recs s1) (upd_ref n') (n' # ns) e" using Cons.prems(1) u by simp
  have h: "heap_addr n'" using Cons.prems(1) by simp
  have "txn_gc_free n s = txn_gc_free n' s1"
    using u h by (subst txn_gc_free.simps) (simp add: get_simps SYNC_SWAP_def DOES_NOT_EXIST_def Let_def s1_def)
  also have "\<dots> = (let fr = (if e = 0 then butlast (n' # ns) else n' # ns)
    in ret (s1\<lparr>x_recs := x_recs s1 |` (- set fr), x_freed := x_freed s1 @ fr\<rparr>))"
    by (rule Cons.IH [OF c]) (use Cons.prems(2) in simp)
  finally have eq: "txn_gc_free n s = (let fr = (if e = 0 then butlast (n' # ns) else n' # ns)
      in ret (s1\<lparr>x_recs := x_recs s1 |` (- set fr), x_freed := x_freed s1 @ fr\<rparr>))" .
  define fr where "fr = (if e = 0 then butlast (n' # ns) else n' # ns)"
  have "(if e = 0 then butlast (n # n' # ns) else n # n' # ns) = n # fr" by (simp add: fr_def)
  moreover have "x_recs s1 |` (- set fr) = x_recs s |` (- set (n # fr))" by (auto simp: R fun_eq_iff restrict_map_def)
  moreover have "x_freed s1 = x_freed s @ [n]" by (simp add: s1_def x_free_rec_def)
  ultimately show ?case unfolding eq fr_def [symmetric] Let_def by (simp add: s1_def x_free_rec_def put_rec_def)
qed

section \<open>The active read versions\<close>

definition active_ok :: "'s txn_sys \<Rightarrow> bool" where
  "active_ok s = (case x_active s of
      None \<Rightarrow> x_sl_pool s \<noteq> [] \<and> sl_pool_ok (x_sl_pool s) (\<lambda>_. None)
    | Some sl \<Rightarrow> sl_inv None small_keys uint sl)"

definition active_count :: "'s txn_sys \<Rightarrow> version_t \<Rightarrow> map_val_t option" where
  "active_count s rv = (case x_active s of None \<Rightarrow> None | Some sl \<Rightarrow> sl_abs uint sl rv)"

definition active_room :: "'s txn_sys \<Rightarrow> nat" where
  "active_room s = (case x_active s of None \<Rightarrow> rand_room (length (x_sl_pool s) - 1) (x_sl_rnd s) | Some sl \<Rightarrow> sl_room sl)"

text \<open>A step that touches the active versions only.\<close>

definition act_step :: "'s txn_sys \<Rightarrow> 's txn_sys \<Rightarrow> bool" where
  "act_step s s' \<longleftrightarrow> active_ok s' \<and> (\<exists>sl. s' = s\<lparr>x_active := Some sl\<rparr>)"

lemma act_step_sel:
  assumes "act_step s s'"
  shows "x_recs s' = x_recs s" "x_txns s' = x_txns s" "x_maps s' = x_maps s" "x_version s' = x_version s" "x_pool s' = x_pool s"
    "x_freed s' = x_freed s" "x_deferred s' = x_deferred s" "active_ok s'" "x_active s' \<noteq> None"
  using assms by (auto simp: act_step_def)

lemma act_step_trans: "act_step s s' \<Longrightarrow> act_step s' s'' \<Longrightarrow> act_step s s''"
  by (auto simp: act_step_def)

lemma active_cas_ok:
  assumes "active_ok s" and "x_active s \<noteq> None" and "rv \<in> small_keys" and "v \<noteq> 0" and "0 < active_room s" and "24 \<le> length junk"
  shows "\<exists>s'. active_cas junk rv e v s = ret (ucast (found_val (active_count s rv)), s') \<and> act_step s s' \<and> active_room s \<le> active_room s' + 1 \<and>
    active_count s' = (if sl_cas_writes (ucast e) (active_count s rv) then (active_count s)(rv \<mapsto> ucast v) else active_count s)"
proof -
  obtain sl where sl: "x_active s = Some sl" using assms(2) by blast
  then obtain as where rep: "sl_rep None small_keys uint sl as" using assms(1) by (auto simp: active_ok_def sl_inv_def)
  have "sl_pool sl \<noteq> []" "rand_ok (sl_rnd sl)" using assms(5) sl sl_roomD [of sl] by (simp_all add: active_room_def)
  moreover have "0 < sint (ucast v :: 64 word)"
  proof -
    have u: "0 \<le> uint v" "uint v < 2 ^ 32" using unsigned_less [of v, where ?'a = int] by simp_all
    have "sint (ucast v :: 64 word) = signed_take_bit 63 (uint v)" using u by (simp add: sint_uint unsigned_ucast_eq take_bit_int_eq_self)
    also have "\<dots> = uint v" 
      by (intro signed_take_bit_int_eq_self order_trans [OF _ u(1)] less_trans [OF u(2)]) simp_all
    finally have "sint (ucast v :: 64 word) = uint v" .
    moreover have "uint v \<noteq> 0" using assms(4) by (simp add: unsigned_eq_0_iff)
    ultimately show ?thesis using uint_ge_0 [of v] by linarith
  qed
  ultimately obtain sl' where sl': "sl_cas junk sl rv (ucast e) (ucast v) = ret (found_val (sl_abs uint sl rv), sl')" "sl_inv None small_keys uint sl'"
    "length (sl_pool sl) \<le> length (sl_pool sl') + 1" "sl_rnd sl' = snd (nbd_rand (sl_rnd sl))"
    "\<forall>k'. sl_abs uint sl' k' = (if sl_cas_writes (ucast e) (sl_abs uint sl rv) \<and> uint rv = uint k' then Some (ucast v) else sl_abs uint sl k')"
    using sl_cas_ok [OF small_keys_order rep assms(3) _ _ _ assms(6), of "ucast v" "ucast e"] by blast
  define s' where "s' = s\<lparr>x_active := Some sl'\<rparr>"
  have "active_cas junk rv e v s = ret (ucast (found_val (active_count s rv)), s')"
    using sl sl'(1) by (simp add: active_cas_def s'_def active_count_def)
  moreover have "act_step s s'" using sl'(2) by (auto simp: act_step_def active_ok_def s'_def)
  moreover have "active_room s \<le> active_room s' + 1" using sl_room_step [OF sl'(3,4)] sl by (simp add: active_room_def s'_def)
  moreover have "active_count s' = (if sl_cas_writes (ucast e) (active_count s rv) then (active_count s)(rv \<mapsto> ucast v) else active_count s)"
    using sl'(5) sl by (auto simp: active_count_def s'_def fun_eq_iff word_uint_eq_iff)
  ultimately show ?thesis by blast
qed

lemma active_remove_ok:
  assumes "active_ok s" and "x_active s \<noteq> None" and "rv \<in> small_keys" and "24 \<le> length junk"
  shows "\<exists>s'. active_remove junk rv s = ret s' \<and> act_step s s' \<and> active_room s \<le> active_room s' \<and> active_count s' = (active_count s)(rv := None)"
proof -
  obtain sl where sl: "x_active s = Some sl" using assms(2) by blast
  then obtain as where rep: "sl_rep None small_keys uint sl as" using assms(1) by (auto simp: active_ok_def sl_inv_def)
  obtain sl' where sl': "sl_remove junk sl rv = ret (found_val (sl_abs uint sl rv), sl')" "sl_inv None small_keys uint sl'"
    "sl_pool sl' = sl_pool sl" "sl_rnd sl' = sl_rnd sl" "\<forall>k'. sl_abs uint sl' k' = (if uint rv = uint k' then None else sl_abs uint sl k')"
    using sl_remove_ok [OF small_keys_order rep assms(3,4)] by blast
  define s' where "s' = s\<lparr>x_active := Some sl'\<rparr>"
  have "active_remove junk rv s = ret s'" using sl sl'(1) by (simp add: active_remove_def s'_def)
  moreover have "act_step s s'" using sl'(2) by (auto simp: act_step_def active_ok_def s'_def)
  moreover have "active_room s \<le> active_room s'" using sl' sl by (simp add: active_room_def s'_def sl_room_def)
  moreover have "active_count s' = (active_count s)(rv := None)"
    using sl'(5) sl by (auto simp: active_count_def s'_def fun_eq_iff word_uint_eq_iff)
  ultimately show ?thesis by blast
qed

lemma active_min_ok:
  assumes "active_ok s" and "x_active s \<noteq> None"
  shows "\<exists>m. active_min s = ret m \<and> m \<in> small_keys \<and> (\<forall>k c. active_count s k = Some c \<longrightarrow> m \<le> k) \<and>
    (if active_count s = (\<lambda>_. None) then m = 0 else active_count s m \<noteq> None)"
proof -
  obtain sl where sl: "x_active s = Some sl" using assms(2) by blast
  then obtain as where rep: "sl_rep None small_keys uint sl as" using assms(1) by (auto simp: active_ok_def sl_inv_def)
  have co: "active_count s k = Some c \<longleftrightarrow> (\<exists>a \<in> set as. keyof (sl_heap sl) a = k \<and> valof (sl_heap sl) a = c)" for k c
    using sl sl_abs_eq [OF rep] sl_assoc_Some [OF sl_repD(7) [OF rep]] by (simp add: active_count_def word_uint_eq_iff)
  have min: "active_min s = ret (case as of [] \<Rightarrow> 0 | a # _ \<Rightarrow> keyof (sl_heap sl) a)"
    using sl sl_min_key_ok [OF rep] by (simp add: active_min_def)
  show ?thesis
  proof (cases as)
    case Nil
    then have "active_count s = (\<lambda>_. None)" using co by (auto simp: fun_eq_iff) (metis not_None_eq)
    then show ?thesis using Nil min by (simp add: small_keys_def)
  next
    case (Cons a bs)
    have "keyof (sl_heap sl) a \<in> small_keys" using sl_repD(6) [OF rep, of a] Cons by (simp add: sl_node_ok_def)
    moreover have ca: "active_count s (keyof (sl_heap sl) a) = Some (valof (sl_heap sl) a)" using co Cons by auto
    moreover have "active_count s \<noteq> (\<lambda>_. None)" using ca by (metis option.distinct(1))
    moreover have "keyof (sl_heap sl) a \<le> keyof (sl_heap sl) b" if "b \<in> set as" for b
      using sl_repD(7) [OF rep] that Cons by (auto simp: word_le_def)
    ultimately show ?thesis using min Cons co by auto
  qed
qed

text \<open>What \<^verbatim>\<open>txn_commit\<close> makes of a reference count.\<close>

definition lowered :: "map_val_t option \<Rightarrow> map_val_t option" where
  "lowered r = (case r of None \<Rightarrow> Some 0xFFFFFFFF | Some c \<Rightarrow> if (ucast c :: uint32_t) = 2 then Some 1 else None)"

lemma ucast_all_ones: "ucast (- 1 :: uint32_t) = (0xFFFFFFFF :: map_val_t)"
  by code_simp

lemma txn_lower_ok:
  assumes "active_ok s" and "x_active s \<noteq> None" and "rv \<in> small_keys" and "2 \<le> active_room s" and "24 \<le> length junk" and "rv \<noteq> x_version s"
  shows "\<exists>s'. txn_lower junk rv 2 s = ret s' \<and> act_step s s' \<and> active_room s \<le> active_room s' + 2 \<and>
    active_count s' = (active_count s)(rv := lowered (active_count s rv))"
proof -
  obtain s1 where s1: "active_cas junk rv 2 1 s = ret (ucast (found_val (active_count s rv)), s1)" "act_step s s1" "active_room s \<le> active_room s1 + 1"
    "active_count s1 = (if active_count s rv = None then active_count s else (active_count s)(rv \<mapsto> 1))"
    using active_cas_ok [OF assms(1-3) _ _ assms(5), of 1 2] assms(4)
    by (auto simp: sl_cas_writes_def cas_expect_defs split: option.splits)
  note a1 = act_step_sel [OF s1(2)]
  define r where "r = (ucast (found_val (active_count s rv)) :: uint32_t)"
  have step: "txn_lower junk rv 2 s = (if r = 1 then active_remove junk rv s1 else if r \<noteq> 2 then txn_lower junk rv r s1 else ret s1)"
    using s1(1) a1(4) assms(6) by (subst txn_lower.simps) (simp add: Let_def r_def)
  show ?thesis
  proof (cases "active_count s rv")
    case None
    then have r: "r = 0" by (simp add: r_def)
    obtain s2 where s2: "active_cas junk rv 0 (- 1) s1 = ret (0, s2)" "act_step s1 s2" "active_room s1 \<le> active_room s2 + 1"
      "active_count s2 = (active_count s1)(rv \<mapsto> 0xFFFFFFFF)"
      using active_cas_ok [OF a1(8,9) assms(3) _ _ assms(5), of "- 1" 0] assms(4) s1(3,4) None ucast_all_ones
      by (auto simp: sl_cas_writes_def cas_expect_defs)
    have "txn_lower junk rv 0 s1 = ret s2" using s2(1) by (subst txn_lower.simps) (simp add: Let_def)
    then show ?thesis using step r s1 s2 None act_step_trans [OF s1(2) s2(2)] by (intro exI [of _ s2]) (auto simp: lowered_def)
  next
    case (Some c)
    then have c1: "active_count s1 = (active_count s)(rv \<mapsto> 1)" "r = ucast c" using s1(4) by (simp_all add: r_def)
    show ?thesis
    proof (cases "r = 2")
      case True
      then show ?thesis using step s1 c1 Some by (intro exI [of _ s1]) (auto simp: lowered_def)
    next
      case False
      have "\<exists>s2. txn_lower junk rv 2 s = active_remove junk rv s2 \<and> act_step s s2 \<and> active_room s \<le> active_room s2 + 2 \<and>
          (active_count s2)(rv := None) = (active_count s)(rv := None)"
      proof (cases "r = 1")
        case True
        then show ?thesis using step s1 c1 by (intro exI [of _ s1]) auto
      next
        case r1: False
        then have "r - 1 \<noteq> 0" by simp
        then obtain s2 where s2: "active_cas junk rv r (r - 1) s1 = ret (1, s2)" "act_step s1 s2" "active_room s1 \<le> active_room s2 + 1"
          "(active_count s2)(rv := None) = (active_count s1)(rv := None)"
          using active_cas_ok [OF a1(8,9) assms(3) _ _ assms(5), of "r - 1" r] assms(4) s1(3) c1(1)
          by (auto simp: sl_cas_writes_def cas_expect_defs)
        have "txn_lower junk rv r s1 = active_remove junk rv s2"
          using s2(1) act_step_sel(4) [OF s2(2)] a1(4) assms(6) by (subst txn_lower.simps) (simp add: Let_def)
        then show ?thesis using step False r1 s1(3) s2 c1(1) act_step_trans [OF s1(2) s2(2)] by (intro exI [of _ s2]) auto
      qed
      then obtain s2 where s2: "txn_lower junk rv 2 s = active_remove junk rv s2" "act_step s s2" "active_room s \<le> active_room s2 + 2"
        "(active_count s2)(rv := None) = (active_count s)(rv := None)" by blast
      obtain s3 where s3: "active_remove junk rv s2 = ret s3" "act_step s2 s3" "active_room s2 \<le> active_room s3" "active_count s3 = (active_count s2)(rv := None)"
        using active_remove_ok [OF act_step_sel(8,9) [OF s2(2)] assms(3,5)] by blast
      then show ?thesis using s2 False c1(2) Some act_step_trans [OF s2(2) s3(2)] by (intro exI [of _ s3]) (auto simp: lowered_def)
    qed
  qed
qed

lemma txn_raise_ok:
  assumes "active_ok s" and "x_active s \<noteq> None" and "rv \<in> small_keys" and "2 \<le> active_room s" and "24 \<le> length junk"
    and "\<And>c. active_count s rv = Some c \<Longrightarrow> 0 < c \<and> c < 0xFFFFFFFF"
  shows "\<exists>s'. txn_raise junk rv 0 s = ret s' \<and> act_step s s' \<and> active_room s \<le> active_room s' + 2 \<and>
    active_count s' = (active_count s)(rv \<mapsto> found_val (active_count s rv) + 1)"
proof -
  obtain s1 where s1: "active_cas junk rv 0 1 s = ret (ucast (found_val (active_count s rv)), s1)" "act_step s s1" "active_room s \<le> active_room s1 + 1"
    "active_count s1 = (if active_count s rv = None then (active_count s)(rv \<mapsto> 1) else active_count s)"
    using active_cas_ok [OF assms(1-3) _ _ assms(5), of 1 0] assms(4)
    by (auto simp: sl_cas_writes_def cas_expect_defs split: option.splits)
  note a1 = act_step_sel [OF s1(2)]
  show ?thesis
  proof (cases "active_count s rv")
    case None
    then show ?thesis using s1 by (intro exI [of _ s1]) (subst txn_raise.simps, auto simp: Let_def)
  next
    case (Some c)
    define r where "r = (ucast c :: uint32_t)"
    have c: "unat c < 2 ^ 32 - 1" "c \<noteq> 0" using assms(6) [OF Some] by (auto simp: word_less_nat_alt)
    then have "unat r = unat c" unfolding r_def by (subst unsigned_ucast_eq) (simp add: take_bit_nat_eq_self)
    then have uc: "ucast r = c" "ucast (r + 1) = c + 1" "r \<noteq> 0" "r + 1 \<noteq> 0"
      using c by (auto simp: word_unat_eq_iff unat_word_ariths unsigned_ucast_eq take_bit_eq_mod)
    obtain s2 where s2: "active_cas junk rv r (r + 1) s1 = ret (r, s2)" "act_step s1 s2" "active_room s1 \<le> active_room s2 + 1"
      "active_count s2 = (active_count s1)(rv \<mapsto> c + 1)"
      using active_cas_ok [OF a1(8,9) assms(3) uc(4) _ assms(5), of r] assms(4) s1(3,4) Some uc c(2)
      by (auto simp: sl_cas_writes_def cas_expect_defs r_def)
    have "txn_raise junk rv 0 s = txn_raise junk rv r s1"
      using s1(1) Some uc(3) by (subst txn_raise.simps) (simp add: Let_def r_def)
    also have "\<dots> = ret s2" using s2(1) by (subst txn_raise.simps) (simp add: Let_def)
    finally show ?thesis using s1 s2 Some act_step_trans [OF s1(2) s2(2)] by (intro exI [of _ s2]) auto
  qed
qed

end
