(* ===== verification/Txn_Inv.thy ===== *)
theory Txn_Inv
  imports Txn_Chain
begin

text \<open>
  The operations of \<^verbatim>\<open>src/src/txn/txn.c\<close> over any map that compares what \<^verbatim>\<open>map_cas\<close> expects
  (the locale \<open>txn_store\<close>): validation, the invariant \<open>txn_inv\<close> of the chains of updates, the transactions
  and the memory, and that \<^verbatim>\<open>txn_begin\<close>, \<^verbatim>\<open>txn_map_set\<close>, \<^verbatim>\<open>txn_commit\<close> and
  \<^verbatim>\<open>txn_abort\<close> keep it. \<^verbatim>\<open>txn_map_get\<close> keeps it when it frees nothing.
\<close>

section \<open>Validation of a key\<close>

lemma validate_chain_ok:
  assumes "chain (x_recs s) v as e" and "chain_end e" and "heap_addr t" and "x_txns s t = Some x"
    and "\<And>a. a \<in> set as \<Longrightarrow> settled_ver (x_txns s) t (u_ver (x_recs s) a)"
  shows "validate impl (Call_Chain t v) s = ret (if no_conflict (x_recs s) (tx_rv x) as then TXN_VALIDATED else TXN_ABORTED, s)"
  using assms(1,5)
proof (induction as arbitrary: v)
  case Nil
  then show ?case using chain_endD [OF assms(2)] assms(4) by (subst validate.simps) (auto simp: no_conflict_def get_simps)
next
  case (Cons a as)
  then obtain u where u: "x_recs s a = Some u" "u_ver (x_recs s) a = u_version u" by (auto simp: u_ver_def)
  have a: "v = upd_ref a" "heap_addr a" "chain (x_recs s) (u_next u) as e" using Cons.prems(1) u by auto
  have IH: "validate impl (Call_Chain t (u_next u)) s = ret (if no_conflict (x_recs s) (tx_rv x) as then TXN_VALIDATED else TXN_ABORTED, s)"
    using Cons.IH [OF a(3)] Cons.prems(2) by simp
  have nc: "no_conflict (x_recs s) (tx_rv x) (a # as) = (if committed (u_version u) then u_version u \<le> tx_rv x else no_conflict (x_recs s) (tx_rv x) as)"
    by (simp add: no_conflict_def u(2))
  have "settled_ver (x_txns s) t (u_version u)" using Cons.prems(2) [of a] u by simp
  then show ?case
    unfolding settled_ver_def
  proof (elim disjE exE conjE)
    assume "committed (u_version u)"
    then show ?case using nc a u assms(4) by (subst validate.simps) (auto simp: get_simps DOES_NOT_EXIST_def committed_def)
  next
    assume w: "u_version u = ABORTED_VERSION"
    then show ?case using IH nc a u assms(4) txn_ref_tags(3)
      by (subst validate.simps) (auto simp: get_simps DOES_NOT_EXIST_def committed_def)
  next
    assume "u_version u = txn_ref t"
    then show ?case using IH nc a u assms(3,4) by (subst validate.simps) (auto simp: get_simps DOES_NOT_EXIST_def Let_def)
  next
    fix w y assume w: "heap_addr w" "w \<noteq> t" "u_version u = txn_ref w" "x_txns s w = Some y" "tx_state y = TXN_RUNNING"
    then show ?case using IH nc a u assms(4) by (subst validate.simps) (auto simp: get_simps DOES_NOT_EXIST_def Let_def)
  qed
qed

text \<open>Updates that are given a version.\<close>

definition stamp :: "version_t \<Rightarrow> addr set \<Rightarrow> (addr \<Rightarrow> update_rec option) \<Rightarrow> addr \<Rightarrow> update_rec option" where
  "stamp v A R a = (if a \<in> A then map_option (\<lambda>u. u\<lparr>u_version := v\<rparr>) (R a) else R a)"

lemma stamp_simps [simp]: "stamp v A R a = None \<longleftrightarrow> R a = None" "stamp v {} R = R"
  "R a \<noteq> None \<Longrightarrow> u_next (the (stamp v A R a)) = u_next (the (R a))"
  "R a \<noteq> None \<Longrightarrow> u_val (stamp v A R) a = u_val R a"
  "R a \<noteq> None \<Longrightarrow> u_ver (stamp v A R) a = (if a \<in> A then v else u_ver R a)"
  by (auto simp: stamp_def u_val_def u_ver_def fun_eq_iff)

lemma txn_detach_ok:
  assumes "\<And>w. w \<in> set ws \<Longrightarrow> x_recs s (w_rec w) \<noteq> None"
  shows "txn_detach v ws s = ret (s\<lparr>x_recs := stamp v (w_rec ` set ws) (x_recs s)\<rparr>)"
  using assms
proof (induction ws arbitrary: s)
  case (Cons w ws)
  obtain u where u: "x_recs s (w_rec w) = Some u" using Cons.prems [of w] by auto
  define s1 where "s1 = put_rec (w_rec w) (u\<lparr>u_version := v\<rparr>) s"
  have "txn_detach v ws s1 = ret (s1\<lparr>x_recs := stamp v (w_rec ` set ws) (x_recs s1)\<rparr>)"
    by (rule Cons.IH) (use Cons.prems in \<open>auto simp: s1_def\<close>)
  moreover have "stamp v (w_rec ` set ws) (x_recs s1) = stamp v (w_rec ` set (w # ws)) (x_recs s)"
    using u by (auto simp: fun_eq_iff stamp_def s1_def)
  ultimately show ?case using u by (simp add: get_simps s1_def put_rec_def)
qed simp

section \<open>Maps that hold transactional values\<close>

lemma active_frame:
  assumes "x_active s' = x_active s" and "x_sl_pool s' = x_sl_pool s" and "x_sl_rnd s' = x_sl_rnd s"
  shows "active_ok s' = active_ok s" "active_count s' = active_count s" "active_room s' = active_room s"
  unfolding active_ok_def active_count_def active_room_def fun_eq_iff assms by simp_all

text \<open>Steps that leave everything but the representation of a map as it is.\<close>

definition reads :: "('s \<Rightarrow> bool) \<Rightarrow> ('s \<Rightarrow> map_key_t \<Rightarrow> map_val_t option) \<Rightarrow> ('s \<Rightarrow> nat) \<Rightarrow> map_key_t set \<Rightarrow> nat \<Rightarrow> 's txn_sys \<Rightarrow> 's txn_sys \<Rightarrow> bool" where
  "reads mi ma room keys m s s' \<longleftrightarrow> (\<exists>mp. s' = s\<lparr>x_maps := mp\<rparr>) \<and> mi (x_maps s' m) \<and>
     (\<forall>k \<in> keys. ma (x_maps s' m) k = ma (x_maps s m) k) \<and> room (x_maps s m) \<le> room (x_maps s' m)"

lemma reads_sel:
  assumes "reads mi ma room keys m s s'"
  shows "x_recs s' = x_recs s" "x_txns s' = x_txns s" "x_version s' = x_version s" "x_pool s' = x_pool s" "x_active s' = x_active s"
    "x_freed s' = x_freed s" "x_deferred s' = x_deferred s" "mi (x_maps s' m)" "k \<in> keys \<Longrightarrow> ma (x_maps s' m) k = ma (x_maps s m) k"
    "room (x_maps s m) \<le> room (x_maps s' m)" "active_ok s' = active_ok s" "active_count s' = active_count s" "active_room s' = active_room s"
proof -
  obtain mp where s': "s' = s\<lparr>x_maps := mp\<rparr>" using assms by (auto simp: reads_def)
  then show "x_recs s' = x_recs s" "x_txns s' = x_txns s" "x_version s' = x_version s" "x_pool s' = x_pool s" "x_active s' = x_active s"
    "x_freed s' = x_freed s" "x_deferred s' = x_deferred s" by simp_all
  show "active_ok s' = active_ok s" "active_count s' = active_count s" "active_room s' = active_room s"
    by (rule active_frame; simp add: s')+
qed (use assms in \<open>auto simp: reads_def\<close>)

lemma reads_trans: "reads mi ma room keys m s s' \<Longrightarrow> reads mi ma room keys m s' s'' \<Longrightarrow> reads mi ma room keys m s s''"
  by (auto simp: reads_def)

locale txn_store = comparing_map impl inv abs room keys vals exps same
  for impl :: "'s map_impl" and inv abs room keys vals exps same +
  assumes same_eq: "same = (=)"
    and ref_ok: "heap_addr a \<Longrightarrow> upd_ref a \<in> vals \<and> upd_ref a \<in> exps"
    and lit_ok: "user_val v \<Longrightarrow> v \<in> vals \<and> v \<in> exps"
begin

lemma txn_get_map_ok:
  assumes "inv (x_maps s m)" and "k \<in> keys"
  shows "\<exists>s'. txn_get_map impl m k s = ret (found_val (abs (x_maps s m) k), s') \<and> reads inv abs room keys m s s'"
proof -
  obtain ms where "impl_get impl (x_maps s m) k = ret (found_val (abs (x_maps s m) k), ms)" "inv ms"
    "\<forall>k' \<in> keys. abs ms k' = abs (x_maps s m) k'" "room (x_maps s m) \<le> room ms"
    using get_law [OF assms] by blast
  then show ?thesis
    by (intro exI [of _ "s\<lparr>x_maps := (x_maps s)(m := ms)\<rparr>"]) (auto simp: txn_get_map_def map_get_def reads_def)
qed

lemma txn_cas_map_ok:
  assumes "inv (x_maps s m)" and "k \<in> keys" and "v \<in> vals" and "0 < room (x_maps s m)" and "e \<in> exps" and "cas_applies e (abs (x_maps s m) k)"
  shows "\<exists>ms. txn_cas_map impl m k e v s = ret (found_val (abs (x_maps s m) k), s\<lparr>x_maps := (x_maps s)(m := ms)\<rparr>) \<and> inv ms \<and>
    room (x_maps s m) \<le> room ms + 1 \<and> (\<forall>k' \<in> keys. abs ms k' = ((abs (x_maps s m))(k \<mapsto> v)) k')"
proof -
  obtain ms where "map_cas impl (x_maps s m) k e v = ret (found_val (abs (x_maps s m) k), ms)" "inv ms" "room (x_maps s m) \<le> room ms + 1"
    "\<forall>k' \<in> keys. abs ms k' = bind_key same k (Some v) (abs (x_maps s m)) k'"
    using cas_total [OF assms(1-5)] assms(6) by auto
  then show ?thesis by (intro exI [of _ ms]) (auto simp: txn_cas_map_def bind_key_def same_eq)
qed

lemma validate_writes_ok:
  assumes "inv (x_maps s m)" and "heap_addr t" and "x_txns s t = Some x" and "tx_state x = TXN_VALIDATING" and "tx_map x = m"
    and "\<And>w. w \<in> set (tx_writes x) \<Longrightarrow> w_key w \<in> keys \<and> chain (x_recs s) (found_val (abs (x_maps s m) (w_key w))) (ch (w_key w)) (en (w_key w)) \<and>
      chain_end (en (w_key w)) \<and> (\<forall>a \<in> set (ch (w_key w)). settled_ver (x_txns s) t (u_ver (x_recs s) a))"
  shows "\<exists>s1 r. reads inv abs room keys m s s1 \<and> r = (if \<forall>w \<in> set (drop i (tx_writes x)). no_conflict (x_recs s) (tx_rv x) (ch (w_key w)) then TXN_VALIDATED else TXN_ABORTED) \<and>
    validate impl (Call_Writes t i) s = ret (r, if r = TXN_VALIDATED then s1 else put_txn t (x\<lparr>tx_state := TXN_ABORTED\<rparr>) s1)"
  using assms(1,3,6)
proof (induction "length (tx_writes x) - i" arbitrary: i s)
  case 0
  then have "validate impl (Call_Writes t i) s = ret (TXN_VALIDATED, s)" by (subst validate.simps) (simp add: get_simps)
  moreover have "drop i (tx_writes x) = []" using 0(1) by simp
  moreover have "reads inv abs room keys m s s" using 0(2) by (auto simp: reads_def intro: exI [of _ "x_maps s"])
  ultimately show ?case by (intro exI [of _ s] exI [of _ TXN_VALIDATED]) simp
next
  case (Suc n)
  define w where "w = tx_writes x ! i"
  have i: "i < length (tx_writes x)" "w \<in> set (tx_writes x)" "drop i (tx_writes x) = w # drop (Suc i) (tx_writes x)"
    using Suc(2) by (auto simp: w_def Cons_nth_drop_Suc)
  note W = Suc.prems(3) [OF i(2)]
  obtain s1 where s1: "txn_get_map impl m (w_key w) s = ret (found_val (abs (x_maps s m) (w_key w)), s1)" "reads inv abs room keys m s s1"
    using txn_get_map_ok [OF Suc.prems(1)] W by blast
  note R = reads_sel [OF s1(2)]
  define ok where "ok = no_conflict (x_recs s) (tx_rv x) (ch (w_key w))"
  have "validate impl (Call_Chain t (found_val (abs (x_maps s m) (w_key w)))) s1 = ret (if ok then TXN_VALIDATED else TXN_ABORTED, s1)"
    using validate_chain_ok [of s1 "found_val (abs (x_maps s m) (w_key w))" "ch (w_key w)" "en (w_key w)" t x impl] W Suc.prems(2) assms(2) R(1,2)
    by (simp add: ok_def)
  then have k: "validate impl (Call_Key t (w_key w)) s = ret (if ok then TXN_VALIDATED else TXN_ABORTED, s1)"
    using s1(1) assms(4,5) Suc.prems(2) by (subst validate.simps) (simp add: get_simps)
  show ?case
  proof (cases ok)
    case False
    then have "validate impl (Call_Writes t i) s = ret (TXN_ABORTED, put_txn t (x\<lparr>tx_state := TXN_ABORTED\<rparr>) s1)"
      using k i(1) Suc.prems(2) R(2) by (subst validate.simps) (simp add: get_simps w_def)
    then show ?thesis using s1(2) i(3) False by (intro exI [of _ s1] exI [of _ TXN_ABORTED]) (auto simp: ok_def)
  next
    case True
    then have "validate impl (Call_Writes t i) s = validate impl (Call_Writes t (i + 1)) s1"
      using k i(1) Suc.prems(2) by (subst validate.simps) (simp add: get_simps w_def)
    moreover obtain s2 r where s2: "reads inv abs room keys m s1 s2"
        "r = (if \<forall>w \<in> set (drop (i + 1) (tx_writes x)). no_conflict (x_recs s1) (tx_rv x) (ch (w_key w)) then TXN_VALIDATED else TXN_ABORTED)"
        "validate impl (Call_Writes t (i + 1)) s1 = ret (r, if r = TXN_VALIDATED then s2 else put_txn t (x\<lparr>tx_state := TXN_ABORTED\<rparr>) s2)"
    proof (rule exE [OF Suc.hyps(1) [of "i + 1" s1]])
      show "n = length (tx_writes x) - (i + 1)" using Suc(2) by simp
      show "inv (x_maps s1 m)" "x_txns s1 t = Some x" using R(2,8) Suc.prems(2) by simp_all
      show "w_key w \<in> keys \<and> chain (x_recs s1) (found_val (abs (x_maps s1 m) (w_key w))) (ch (w_key w)) (en (w_key w)) \<and>
        chain_end (en (w_key w)) \<and> (\<forall>a \<in> set (ch (w_key w)). settled_ver (x_txns s1) t (u_ver (x_recs s1) a))" if "w \<in> set (tx_writes x)" for w
        using Suc.prems(3) [OF that] R(1,2) R(9) [of "w_key w"] by simp
    qed blast
    moreover have "r = (if \<forall>w \<in> set (drop i (tx_writes x)). no_conflict (x_recs s) (tx_rv x) (ch (w_key w)) then TXN_VALIDATED else TXN_ABORTED)"
      using s2(2) R(1) True i(3) by (simp add: ok_def)
    ultimately show ?thesis using reads_trans [OF s1(2) s2(1)] by (intro exI [of _ s2] exI [of _ r]) simp
  qed
qed

end

section \<open>Invariant\<close>

definition running :: "(addr \<Rightarrow> txn_rec option) \<Rightarrow> addr \<Rightarrow> txn_rec \<Rightarrow> bool" where
  "running X t x \<longleftrightarrow> X t = Some x \<and> tx_state x = TXN_RUNNING"

definition chains_ok :: "(map_key_t \<Rightarrow> map_val_t option) \<Rightarrow> (addr \<Rightarrow> update_rec option) \<Rightarrow> map_key_t set \<Rightarrow>
    (map_key_t \<Rightarrow> addr list) \<Rightarrow> (map_key_t \<Rightarrow> map_val_t) \<Rightarrow> bool" where
  "chains_ok M R keys ch en \<longleftrightarrow> (\<forall>k \<in> keys. M k \<noteq> Some 0 \<and> chain R (found_val (M k)) (ch k) (en k) \<and> chain_end (en k) \<and>
     distinct (ch k) \<and> (\<forall>a \<in> set (ch k). user_val (u_val R a)) \<and> (\<forall>k' \<in> keys. k \<noteq> k' \<longrightarrow> set (ch k) \<inter> set (ch k') = {}))"

definition version_ok :: "(addr \<Rightarrow> txn_rec option) \<Rightarrow> version_t \<Rightarrow> map_key_t \<Rightarrow> addr \<Rightarrow> version_t \<Rightarrow> bool" where
  "version_ok X now k a v \<longleftrightarrow> committed v \<and> v \<le> now \<or> v = ABORTED_VERSION \<or>
     (\<exists>t x. v = txn_ref t \<and> running X t x \<and> (\<exists>w \<in> set (tx_writes x). w_rec w = a \<and> w_key w = k))"

definition txns_ok :: "(addr \<Rightarrow> update_rec option) \<Rightarrow> (addr \<Rightarrow> txn_rec option) \<Rightarrow> version_t \<Rightarrow> nat \<Rightarrow> map_key_t set \<Rightarrow> (map_key_t \<Rightarrow> addr list) \<Rightarrow> bool" where
  "txns_ok R X now m keys ch \<longleftrightarrow> (\<forall>t x. running X t x \<longrightarrow> heap_addr t \<and> tx_map x = m \<and> tx_wv x = UNDETERMINED_VERSION \<and> tx_rv x \<le> now \<and>
     (\<forall>w \<in> set (tx_writes x). w_key w \<in> keys \<and> w_rec w \<in> set (ch (w_key w)) \<and> u_ver R (w_rec w) = txn_ref t))"

text \<open>The order along a chain: a committed update is no older than the committed ones after it, and newer
  than the read version of a transaction whose update it has been put in front of.\<close>

definition newer :: "(addr \<Rightarrow> update_rec option) \<Rightarrow> (addr \<Rightarrow> txn_rec option) \<Rightarrow> addr \<Rightarrow> addr \<Rightarrow> bool" where
  "newer R X a b \<longleftrightarrow> (committed (u_ver R a) \<longrightarrow> (committed (u_ver R b) \<longrightarrow> u_ver R b \<le> u_ver R a) \<and>
     (\<forall>t x. running X t x \<longrightarrow> u_ver R b = txn_ref t \<longrightarrow> tx_rv x < u_ver R a))"

definition txn_inv :: "('s \<Rightarrow> bool) \<Rightarrow> ('s \<Rightarrow> map_key_t \<Rightarrow> map_val_t option) \<Rightarrow> map_key_t set \<Rightarrow> nat \<Rightarrow>
    (map_key_t \<Rightarrow> addr list) \<Rightarrow> (map_key_t \<Rightarrow> map_val_t) \<Rightarrow> 's txn_sys \<Rightarrow> bool" where
  "txn_inv mi ma keys m ch en s \<longleftrightarrow> mi (x_maps s m) \<and> active_ok s \<and> (x_txns s \<noteq> (\<lambda>_. None) \<longrightarrow> x_active s \<noteq> None) \<and> x_version s \<in> small_keys \<and>
     chains_ok (ma (x_maps s m)) (x_recs s) keys ch en \<and>
     (\<forall>k \<in> keys. (\<forall>a \<in> set (ch k). version_ok (x_txns s) (x_version s) k a (u_ver (x_recs s) a)) \<and> sorted_wrt (newer (x_recs s) (x_txns s)) (ch k)) \<and>
     txns_ok (x_recs s) (x_txns s) (x_version s) m keys ch \<and>
     distinct (x_pool s) \<and> (\<forall>a \<in> set (x_pool s). heap_addr a \<and> x_recs s a = None \<and> x_txns s a = None)"

lemma txn_invD:
  assumes "txn_inv mi ma keys m ch en s"
  shows "mi (x_maps s m)" "active_ok s" "x_txns s t \<noteq> None \<Longrightarrow> x_active s \<noteq> None" "x_version s \<in> small_keys"
    "chains_ok (ma (x_maps s m)) (x_recs s) keys ch en"
    "\<And>k a. k \<in> keys \<Longrightarrow> a \<in> set (ch k) \<Longrightarrow> version_ok (x_txns s) (x_version s) k a (u_ver (x_recs s) a)"
    "\<And>k. k \<in> keys \<Longrightarrow> sorted_wrt (newer (x_recs s) (x_txns s)) (ch k)"
    "txns_ok (x_recs s) (x_txns s) (x_version s) m keys ch" "distinct (x_pool s)"
    "\<And>a. a \<in> set (x_pool s) \<Longrightarrow> heap_addr a \<and> x_recs s a = None \<and> x_txns s a = None"
  using assms by (auto simp: txn_inv_def)

lemma chains_okD:
  assumes "chains_ok M R keys ch en" and "k \<in> keys"
  shows "M k \<noteq> Some 0" "chain R (found_val (M k)) (ch k) (en k)" "chain_end (en k)" "distinct (ch k)"
    "\<And>a. a \<in> set (ch k) \<Longrightarrow> user_val (u_val R a) \<and> heap_addr a \<and> R a \<noteq> None"
    "\<And>k' a. k' \<in> keys \<Longrightarrow> a \<in> set (ch k) \<Longrightarrow> a \<in> set (ch k') \<Longrightarrow> k = k'"
  using assms chain_all by (auto simp: chains_ok_def)

lemma chains_ok_cong:
  assumes "chains_ok M R keys ch en" and "\<And>k. k \<in> keys \<Longrightarrow> M' k = M k"
    and "\<And>k a. k \<in> keys \<Longrightarrow> a \<in> set (ch k) \<Longrightarrow> R' a \<noteq> None \<and> u_next (the (R' a)) = u_next (the (R a)) \<and> u_val R' a = u_val R a"
  shows "chains_ok M' R' keys ch en"
proof -
  have "chain R' v (ch k) e = chain R v (ch k) e" if "k \<in> keys" for k v e
    by (rule chain_cong) (use assms(3) [OF that] chains_okD(5) [OF assms(1) that] in fastforce)
  then show ?thesis using assms by (simp add: chains_ok_def)
qed

lemma settled_version:
  assumes "txns_ok R X now m keys ch" and "version_ok X now k a v"
  shows "settled_ver X t v"
  using assms unfolding version_ok_def settled_ver_def txns_ok_def running_def by blast

lemma no_conflict_all:
  assumes "no_conflict R rv as" and "sorted_wrt (newer R X) as" and "a \<in> set as" and "committed (u_ver R a)"
  shows "u_ver R a \<le> rv"
  using assms
proof (induction as)
  case (Cons b as)
  show ?case
  proof (cases "committed (u_ver R b)")
    case True
    then have "u_ver R b \<le> rv" using Cons.prems(1) by (simp add: no_conflict_def)
    moreover have "u_ver R a \<le> u_ver R b" using Cons.prems(2-4) True by (auto simp: newer_def)
    ultimately show ?thesis by simp
  next
    case False
    then show ?thesis using Cons by (auto simp: no_conflict_def)
  qed
qed simp

lemma small_next: "x \<in> small_keys \<Longrightarrow> y \<le> x \<Longrightarrow> y < x + 1" "x \<in> small_keys \<Longrightarrow> x + 1 \<noteq> 0"
proof -
  assume "x \<in> small_keys"
  then have u: "unat (x + 1) = unat x + 1" by (simp add: small_keys_def unat_word_ariths)
  then show "x + 1 \<noteq> 0" by auto
  show "y < x + 1" if "y \<le> x" using u that by (simp add: word_less_nat_alt word_le_nat_alt)
qed

lemma small_committed: "x \<in> small_keys \<Longrightarrow> committed x" "x \<in> small_keys \<Longrightarrow> committed (x + 1)"
  by (simp_all add: small_keys_def committed_less word_less_nat_alt unat_word_ariths)

lemma running_ref:
  assumes "txns_ok R X now m keys ch" and "running X t x" and "running X t' x'" and "txn_ref t = txn_ref t'"
  shows "t = t' \<and> x = x'"
proof -
  have "heap_addr t" "heap_addr t'" using assms(1-3) by (auto simp: txns_ok_def)
  then have "t = t'" using assms(4) txn_ref_inj by blast
  then show ?thesis using assms(2,3) by (simp add: running_def)
qed

text \<open>The updates of a running transaction are those in its write set.\<close>

lemma own_update:
  assumes inv: "txn_inv mi ma keys m ch en s" and run: "running (x_txns s) t x" and k: "k \<in> keys" "a \<in> set (ch k)"
  shows "u_ver (x_recs s) a = txn_ref t \<longleftrightarrow> (\<exists>w \<in> set (tx_writes x). w_rec w = a \<and> w_key w = k)"
    and "a \<in> w_rec ` set (tx_writes x) \<longleftrightarrow> u_ver (x_recs s) a = txn_ref t"
proof -
  note I = txn_invD [OF inv]
  have h: "heap_addr t" "\<And>w. w \<in> set (tx_writes x) \<Longrightarrow> u_ver (x_recs s) (w_rec w) = txn_ref t" using I(8) run by (auto simp: txns_ok_def)
  show "u_ver (x_recs s) a = txn_ref t \<longleftrightarrow> (\<exists>w \<in> set (tx_writes x). w_rec w = a \<and> w_key w = k)"
    using I(6) [OF k] running_ref [OF I(8) run] h unfolding version_ok_def by fastforce
  then show "a \<in> w_rec ` set (tx_writes x) \<longleftrightarrow> u_ver (x_recs s) a = txn_ref t" using h(2) by auto
qed

text \<open>The end of a transaction: its updates get the version \<open>v\<close>.\<close>

definition end_version :: "version_t \<Rightarrow> txn_rec \<Rightarrow> (map_key_t \<Rightarrow> addr list) \<Rightarrow> 's txn_sys \<Rightarrow> bool" where
  "end_version v x ch s \<longleftrightarrow> v = ABORTED_VERSION \<or>
     v = x_version s + 1 \<and> (\<forall>w \<in> set (tx_writes x). no_conflict (x_recs s) (tx_rv x) (ch (w_key w)))"

lemma end_order:
  assumes inv: "txn_inv mi ma keys m ch en s" and run: "running (x_txns s) t x" and v: "end_version v x ch s" and k: "k \<in> keys"
    and u_ver': "\<And>a. a \<in> set (ch k) \<Longrightarrow> u_ver R' a = (if a \<in> w_rec ` set (tx_writes x) then v else u_ver (x_recs s) a)"
    and run': "\<And>t' x'. running X' t' x' \<longleftrightarrow> t' \<noteq> t \<and> running (x_txns s) t' x'"
  shows "sorted_wrt (newer R' X') (ch k)"
proof (rule sorted_wrt_mono_rel [OF _ txn_invD(7) [OF inv k]])
  let ?A = "w_rec ` set (tx_writes x)" and ?R = "x_recs s" and ?X = "x_txns s" and ?now = "x_version s"
  note I = txn_invD [OF inv]
  fix a b assume ab: "a \<in> set (ch k)" "b \<in> set (ch k)" "newer ?R ?X a b"
  note V = u_ver' [OF ab(1)] u_ver' [OF ab(2)]
  have vc: "v = ?now + 1" if "committed v" using v that by (auto simp: end_version_def)
  have vref: "v \<noteq> txn_ref t'" if "running ?X t' x'" for t' x'
    using v small_committed(2) [OF I(4)] I(8) that txn_ref_tags(2) txn_ref_not_aborted(2) unfolding txns_ok_def end_version_def by metis
  have below: "u_ver ?R b \<le> ?now" if "committed (u_ver ?R b)" using I(6) [OF k ab(2)] that by (auto simp: version_ok_def)
  have rvs: "tx_rv x' < ?now + 1" if "running ?X t' x'" for t' x' using I(8) that small_next(1) [OF I(4)] by (auto simp: txns_ok_def)
  show "newer R' X' a b"
  proof (cases "a \<in> ?A")
    case True
    then show ?thesis using V vc below rvs small_next(1) [OF I(4), of "u_ver ?R b"] run' unfolding newer_def by (auto intro: less_imp_le)
  next
    case False
    have "\<not> committed (u_ver ?R a)" if b: "b \<in> ?A" "committed v"
    proof
      assume c: "committed (u_ver ?R a)"
      have o: "u_ver ?R b = txn_ref t" using own_update(2) [OF inv run k ab(2)] b(1) by simp
      then have "no_conflict ?R (tx_rv x) (ch k)" using own_update(1) [OF inv run k ab(2)] v b(2) by (auto simp: end_version_def)
      then have "u_ver ?R a \<le> tx_rv x" using no_conflict_all [OF _ I(7) [OF k] ab(1) c] by blast
      moreover have "tx_rv x < u_ver ?R a" using ab(3) c run o by (auto simp: newer_def)
      ultimately show False by simp
    qed
    then show ?thesis using False V ab(3) run' vref unfolding newer_def by (auto split: if_splits)
  qed
qed

lemma txn_inv_end:
  assumes inv: "txn_inv mi ma keys m ch en s" and run: "running (x_txns s) t x" and v: "end_version v x ch s"
    and R': "x_recs s' = stamp v (w_rec ` set (tx_writes x)) (x_recs s)"
    and X': "x_txns s' t = None \<or> (\<exists>x'. x_txns s' t = Some x' \<and> tx_state x' \<noteq> TXN_RUNNING)" "\<And>t'. t' \<noteq> t \<Longrightarrow> x_txns s' t' = x_txns s t'"
    and now: "x_version s' \<in> small_keys" "x_version s \<le> x_version s'" "v = x_version s + 1 \<longrightarrow> x_version s' = x_version s + 1"
    and mp: "mi (x_maps s' m)" "\<And>k. k \<in> keys \<Longrightarrow> ma (x_maps s' m) k = ma (x_maps s m) k"
    and act: "active_ok s'" "x_active s' \<noteq> None" and pool: "x_pool s' = x_pool s"
  shows "txn_inv mi ma keys m ch en s'"
proof -
  let ?A = "w_rec ` set (tx_writes x)" and ?R = "x_recs s" and ?X = "x_txns s"
  note I = txn_invD [OF inv]
  have t: "heap_addr t" using I(8) run by (auto simp: txns_ok_def)
  have u_ver': "u_ver (x_recs s') a = (if a \<in> ?A then v else u_ver ?R a)" if "k \<in> keys" "a \<in> set (ch k)" for k a
    using chains_okD(5) [OF I(5) that] R' by simp
  have run': "running (x_txns s') t' x' \<longleftrightarrow> t' \<noteq> t \<and> running ?X t' x'" for t' x'
    using X' by (cases "t' = t") (auto simp: running_def)
  have "chains_ok (ma (x_maps s' m)) (x_recs s') keys ch en"
    by (rule chains_ok_cong [OF I(5) mp(2)]) (use chains_okD(5) [OF I(5)] R' in auto)
  moreover have "version_ok (x_txns s') (x_version s') k a (u_ver (x_recs s') a)" if k: "k \<in> keys" "a \<in> set (ch k)" for k a
  proof (cases "a \<in> ?A")
    case True
    then show ?thesis using v now(3) u_ver' [OF k] small_committed(2) [OF I(4)] by (auto simp: version_ok_def end_version_def)
  next
    case False
    then show ?thesis
      using I(6) [OF k] own_update(2) [OF inv run k] u_ver' [OF k] run' order_trans [OF _ now(2)] unfolding version_ok_def by (metis (no_types))
  qed
  moreover have "sorted_wrt (newer (x_recs s') (x_txns s')) (ch k)" if "k \<in> keys" for k
    by (rule end_order [OF inv run v that u_ver' [OF that] run'])
  moreover have "txns_ok (x_recs s') (x_txns s') (x_version s') m keys ch"
    unfolding txns_ok_def
  proof (intro allI impI)
    fix t' x' assume "running (x_txns s') t' x'"
    then have r: "t' \<noteq> t" "running ?X t' x'" using run' by auto
    have o: "heap_addr t'" "tx_map x' = m" "tx_wv x' = UNDETERMINED_VERSION" "tx_rv x' \<le> x_version s"
      "\<And>w. w \<in> set (tx_writes x') \<Longrightarrow> w_key w \<in> keys \<and> w_rec w \<in> set (ch (w_key w)) \<and> u_ver ?R (w_rec w) = txn_ref t'"
      using I(8) r(2) by (auto simp: txns_ok_def)
    have "u_ver (x_recs s') (w_rec w) = txn_ref t'" if "w \<in> set (tx_writes x')" for w
      using o(5) [OF that] u_ver' own_update(2) [OF inv run] txn_ref_inj [OF o(1) t] r(1) by metis
    then show "heap_addr t' \<and> tx_map x' = m \<and> tx_wv x' = UNDETERMINED_VERSION \<and> tx_rv x' \<le> x_version s' \<and>
      (\<forall>w \<in> set (tx_writes x'). w_key w \<in> keys \<and> w_rec w \<in> set (ch (w_key w)) \<and> u_ver (x_recs s') (w_rec w) = txn_ref t')"
      using o now(2) by auto
  qed
  moreover have "heap_addr a \<and> x_recs s' a = None \<and> x_txns s' a = None" if "a \<in> set (x_pool s')" for a
    using that pool I(10) [of a] run R' X'(2) [of a] by (cases "a = t") (auto simp: running_def)
  ultimately show ?thesis using mp(1) act now(1) I(9) pool by (simp add: txn_inv_def)
qed

context txn_store
begin

lemma txn_validate_ok:
  assumes "txn_inv inv abs keys m ch en s" and "running (x_txns s) t x" and "s0 = put_txn t (x\<lparr>tx_state := TXN_VALIDATING\<rparr>) s"
  shows "\<exists>s1 r. reads inv abs room keys m (s0\<lparr>x_version := x_version s + 1\<rparr>) s1 \<and>
    r = (if \<forall>w \<in> set (tx_writes x). no_conflict (x_recs s) (tx_rv x) (ch (w_key w)) then TXN_VALIDATED else TXN_ABORTED) \<and>
    txn_validate impl t s0 = ret (r, put_txn t (x\<lparr>tx_wv := x_version s + 1, tx_state := r\<rparr>) s1)"
proof -
  note I = txn_invD [OF assms(1)]
  have x: "heap_addr t" "x_txns s t = Some x" "tx_map x = m" "tx_wv x = UNDETERMINED_VERSION"
    "\<And>w. w \<in> set (tx_writes x) \<Longrightarrow> w_key w \<in> keys \<and> w_rec w \<in> set (ch (w_key w)) \<and> u_ver (x_recs s) (w_rec w) = txn_ref t"
    using assms(2) I(8) by (auto simp: txns_ok_def running_def)
  define y where "y = x\<lparr>tx_state := TXN_VALIDATING, tx_wv := x_version s + 1\<rparr>"
  define s2 where "s2 = put_txn t y (s0\<lparr>x_version := x_version s + 1\<rparr>)"
  have s2: "x_txns s2 = (x_txns s)(t \<mapsto> y)" "x_recs s2 = x_recs s" "x_maps s2 = x_maps s" by (simp_all add: s2_def assms(3) put_txn_def)
  have settled: "settled_ver (x_txns s2) t v" if "settled_ver (x_txns s) t v" for v
    using that s2(1) unfolding settled_ver_def by auto
  have "\<exists>s3 r. reads inv abs room keys m s2 s3 \<and> r = (if \<forall>w \<in> set (drop 0 (tx_writes y)). no_conflict (x_recs s2) (tx_rv y) (ch (w_key w)) then TXN_VALIDATED else TXN_ABORTED) \<and>
    validate impl (Call_Writes t 0) s2 = ret (r, if r = TXN_VALIDATED then s3 else put_txn t (y\<lparr>tx_state := TXN_ABORTED\<rparr>) s3)"
  proof (rule validate_writes_ok)
    show "w_key w \<in> keys \<and> chain (x_recs s2) (found_val (abs (x_maps s2 m) (w_key w))) (ch (w_key w)) (en (w_key w)) \<and>
      chain_end (en (w_key w)) \<and> (\<forall>a \<in> set (ch (w_key w)). settled_ver (x_txns s2) t (u_ver (x_recs s2) a))" if "w \<in> set (tx_writes y)" for w
    proof -
      have k: "w_key w \<in> keys" using x(5) that by (simp add: y_def)
      then show ?thesis
        using chains_okD(2,3) [OF I(5) k] settled [OF settled_version [OF I(8) I(6)]] s2(2,3) by simp
    qed
  qed (use x s2 I(1) in \<open>auto simp: y_def\<close>)
  then obtain s3 r where s3: "reads inv abs room keys m s2 s3"
    "r = (if \<forall>w \<in> set (tx_writes x). no_conflict (x_recs s) (tx_rv x) (ch (w_key w)) then TXN_VALIDATED else TXN_ABORTED)"
    "validate impl (Call_Writes t 0) s2 = ret (r, if r = TXN_VALIDATED then s3 else put_txn t (y\<lparr>tx_state := TXN_ABORTED\<rparr>) s3)"
    using s2(2) by (auto simp: y_def)
  define s1 where "s1 = s3\<lparr>x_txns := x_txns s0\<rparr>"
  have run: "txn_validate impl t s0 = ret (r, put_txn t (x\<lparr>tx_wv := x_version s + 1, tx_state := r\<rparr>) s1)"
  proof -
    obtain mp where mp: "s3 = s2\<lparr>x_maps := mp\<rparr>" using s3(1) by (auto simp: reads_def)
    have st: "txn_validate impl t s0 = pbind (validate impl (Call_Writes t 0) s2) (\<lambda>(_, s).
        pbind (get_txn s t) (\<lambda>x. let x = (if tx_state x = TXN_VALIDATING then x\<lparr>tx_state := TXN_VALIDATED\<rparr> else x)
          in ret (tx_state x, put_txn t x s)))"
      unfolding txn_validate_def
      by (subst validate.simps) (simp add: assms(3) get_simps x(4) SYNC_ADD_def SYNC_CAS_def s2_def y_def put_txn_def)
    have "r = TXN_VALIDATED \<or> r = TXN_ABORTED" using s3(2) by auto
    then show ?thesis
      unfolding st s3(3) using mp by (auto simp: get_simps y_def s1_def s2_def put_txn_def assms(3))
  qed
  have "reads inv abs room keys m (s0\<lparr>x_version := x_version s + 1\<rparr>) s1"
  proof -
    obtain mp where "s3 = s2\<lparr>x_maps := mp\<rparr>" using s3(1) by (auto simp: reads_def)
    then have "s1 = s0\<lparr>x_version := x_version s + 1, x_maps := mp\<rparr>" by (simp add: s1_def s2_def put_txn_def)
    then show ?thesis using s3(1) \<open>s3 = s2\<lparr>x_maps := mp\<rparr>\<close> by (auto simp: reads_def s2_def put_txn_def)
  qed
  then show ?thesis using s3(2) run by blast
qed

lemma txn_commit_ok:
  assumes "txn_inv inv abs keys m ch en s" and "running (x_txns s) t x" and "x_version s + 1 \<in> small_keys" and "2 \<le> active_room s" and "24 \<le> length junk"
  shows "\<exists>s' r. txn_commit impl junk t s = ret (r, s') \<and>
    r = (if \<forall>w \<in> set (tx_writes x). no_conflict (x_recs s) (tx_rv x) (ch (w_key w)) then TXN_VALIDATED else TXN_ABORTED) \<and>
    txn_inv inv abs keys m ch en s' \<and>
    x_recs s' = stamp (if r = TXN_VALIDATED then x_version s + 1 else ABORTED_VERSION) (w_rec ` set (tx_writes x)) (x_recs s) \<and>
    x_txns s' = (x_txns s)(t \<mapsto> x\<lparr>tx_wv := x_version s + 1, tx_state := r\<rparr>) \<and> x_version s' = x_version s + 1 \<and>
    (\<forall>k \<in> keys. abs (x_maps s' m) k = abs (x_maps s m) k) \<and> room (x_maps s m) \<le> room (x_maps s' m) \<and>
    active_count s' = (active_count s)(tx_rv x := lowered (active_count s (tx_rv x))) \<and> active_room s \<le> active_room s' + 2 \<and>
    x_deferred s' = x_deferred s @ [tx_writes_at x, t] \<and> x_freed s' = x_freed s \<and> x_pool s' = x_pool s"
proof -
  note I = txn_invD [OF assms(1)]
  have x: "heap_addr t" "x_txns s t = Some x" "tx_state x = TXN_RUNNING" "tx_rv x \<le> x_version s"
    "\<And>w. w \<in> set (tx_writes x) \<Longrightarrow> w_key w \<in> keys \<and> w_rec w \<in> set (ch (w_key w)) \<and> u_ver (x_recs s) (w_rec w) = txn_ref t"
    using assms(2) I(8) by (auto simp: txns_ok_def running_def)
  define s0 where "s0 = put_txn t (x\<lparr>tx_state := TXN_VALIDATING\<rparr>) s"
  obtain s1 r where s1: "reads inv abs room keys m (s0\<lparr>x_version := x_version s + 1\<rparr>) s1"
    "r = (if \<forall>w \<in> set (tx_writes x). no_conflict (x_recs s) (tx_rv x) (ch (w_key w)) then TXN_VALIDATED else TXN_ABORTED)"
    "txn_validate impl t s0 = ret (r, put_txn t (x\<lparr>tx_wv := x_version s + 1, tx_state := r\<rparr>) s1)"
    using txn_validate_ok [OF assms(1,2) s0_def] by blast
  note R = reads_sel [OF s1(1)]
  define v where "v = (if r = TXN_VALIDATED then x_version s + 1 else ABORTED_VERSION)"
  define y where "y = x\<lparr>tx_wv := x_version s + 1, tx_state := r\<rparr>"
  define s2 where "s2 = put_txn t y s1"
  define s3 where "s3 = s2\<lparr>x_recs := stamp v (w_rec ` set (tx_writes x)) (x_recs s)\<rparr>"
  have det: "txn_detach v (tx_writes x) s2 = ret s3"
  proof -
    have "x_recs s2 = x_recs s" using R(1) by (simp add: s2_def s0_def)
    moreover have "x_recs s (w_rec w) \<noteq> None" if "w \<in> set (tx_writes x)" for w using chains_okD(5) [OF I(5)] x(5) [OF that] by blast
    ultimately show ?thesis using txn_detach_ok [of "tx_writes x" s2 v] by (simp add: s3_def)
  qed
  have act3: "active_ok s3 = active_ok s" "active_count s3 = active_count s" "active_room s3 = active_room s" "x_active s3 = x_active s" "x_version s3 = x_version s + 1"
    using R(3,5,11-13) active_frame [of s3 s1] active_frame [of "s0\<lparr>x_version := x_version s + 1\<rparr>" s]
    by (simp_all add: s3_def s2_def s0_def put_txn_def)
  have rv: "tx_rv x \<in> small_keys" "tx_rv x \<noteq> x_version s + 1"
    using x(4) I(4) small_next(1) [OF I(4) x(4)] by (auto simp: small_keys_def word_le_nat_alt)
  obtain s4 where s4: "txn_lower junk (tx_rv x) 2 s3 = ret s4" "act_step s3 s4" "active_room s3 \<le> active_room s4 + 2"
    "active_count s4 = (active_count s3)(tx_rv x := lowered (active_count s3 (tx_rv x)))"
    using txn_lower_ok [of s3 "tx_rv x" junk] act3 I(2,3) x(2) rv assms(4,5) by auto
  note A = act_step_sel [OF s4(2)]
  define s5 where "s5 = x_defer t (x_defer (tx_writes_at x) s4)"
  have rr: "r = TXN_VALIDATED \<or> r = TXN_ABORTED" using s1(2) by auto
  then have w: "(if tx_state y = TXN_ABORTED then ABORTED_VERSION else tx_wv y) = v" by (auto simp: y_def v_def)
  have g: "txn_validate impl t s0 = ret (r, s2)" "get_txn s2 t = ret y" "tx_writes y = tx_writes x" "tx_rv y = tx_rv x" "tx_writes_at y = tx_writes_at x"
    using s1(3) by (simp_all add: s2_def y_def get_simps)
  have run: "txn_commit impl junk t s = ret (r, s5)"
    unfolding txn_commit_def get_simps(3) [OF x(2)] pbind_ret s0_def [symmetric] g(1)
    by (simp add: x(3) g w det s4(1) s5_def Let_def)
  have sel: "x_recs s5 = stamp v (w_rec ` set (tx_writes x)) (x_recs s)" "x_txns s5 = (x_txns s)(t \<mapsto> y)" "x_version s5 = x_version s + 1"
    "x_maps s5 = x_maps s1" "x_pool s5 = x_pool s" "x_freed s5 = x_freed s" "x_deferred s5 = x_deferred s @ [tx_writes_at x, t]"
    "active_ok s5" "x_active s5 \<noteq> None" "active_count s5 = active_count s4" "active_room s5 = active_room s4"
    using A R active_frame [of s5 s4] by (simp_all add: s5_def s3_def s2_def s0_def x_defer_def put_txn_def)
  have mp: "inv (x_maps s5 m)" "abs (x_maps s5 m) k = abs (x_maps s m) k" if "k \<in> keys" for k
    using R(8) R(9) [OF that] sel(4) by (simp_all add: s0_def)
  have "txn_inv inv abs keys m ch en s5"
    by (rule txn_inv_end [OF assms(1,2) _ sel(1)])
      (use sel mp rr s1(2) assms(3) small_next(1) [OF I(4) order_refl] R(8) in \<open>auto simp: v_def y_def end_version_def split: if_splits\<close>)
  then show ?thesis
    using run s1(2) sel s4(3,4) act3 mp R(10) by (intro exI [of _ s5] exI [of _ r]) (auto simp: v_def y_def s0_def)
qed

lemma txn_abort_ok:
  assumes "txn_inv inv abs keys m ch en s" and "running (x_txns s) t x"
  shows "\<exists>s'. txn_abort t s = ret s' \<and> txn_inv inv abs keys m ch en (s'\<lparr>x_txns := (x_txns s)(t := None)\<rparr>) \<and>
    s' = s\<lparr>x_recs := stamp ABORTED_VERSION (w_rec ` set (tx_writes x)) (x_recs s), x_deferred := x_deferred s @ [tx_writes_at x, t]\<rparr>"
proof -
  note I = txn_invD [OF assms(1)]
  have x: "x_txns s t = Some x" "tx_state x = TXN_RUNNING"
    "\<And>w. w \<in> set (tx_writes x) \<Longrightarrow> w_key w \<in> keys \<and> w_rec w \<in> set (ch (w_key w))"
    using assms(2) I(8) by (auto simp: txns_ok_def running_def)
  define s' where "s' = s\<lparr>x_recs := stamp ABORTED_VERSION (w_rec ` set (tx_writes x)) (x_recs s), x_deferred := x_deferred s @ [tx_writes_at x, t]\<rparr>"
  have "x_recs s (w_rec w) \<noteq> None" if "w \<in> set (tx_writes x)" for w using chains_okD(5) [OF I(5)] x(3) [OF that] by blast
  then have "txn_abort t s = ret s'"
    using txn_detach_ok [of "tx_writes x" s ABORTED_VERSION] x(1,2)
    by (simp add: txn_abort_def get_simps s'_def x_defer_def)
  moreover have "txn_inv inv abs keys m ch en (s'\<lparr>x_txns := (x_txns s)(t := None)\<rparr>)"
    by (rule txn_inv_end [OF assms, of ABORTED_VERSION])
      (use I(1-4) x active_frame [of "s'\<lparr>x_txns := (x_txns s)(t := None)\<rparr>" s] small_committed(2) [OF I(4)] txn_ref_tags(3) in \<open>auto simp: s'_def end_version_def simp del: txn_ref_tags(3)\<close>)
  ultimately show ?thesis by (simp add: s'_def)
qed

end

text \<open>A new update at the front of a chain.\<close>

lemma push_chains:
  assumes C: "chains_ok M R keys ch en" and k: "k \<in> keys" and v: "user_val (u_value u)" and a: "heap_addr a" "R a = None"
    and u: "u_next u = found_val (M k)" and M': "\<And>k'. k' \<in> keys \<Longrightarrow> M' k' = (if k' = k then Some (upd_ref a) else M k')"
  shows "chains_ok M' (R(a \<mapsto> u)) keys (ch(k := a # ch k)) en"
  unfolding chains_ok_def
proof (intro ballI)
  let ?R = "R(a \<mapsto> u)" and ?ch = "ch(k := a # ch k)"
  fix k' assume k': "k' \<in> keys"
  note D = chains_okD [OF C k']
  have notin: "b \<noteq> a" if "k'' \<in> keys" "b \<in> set (ch k'')" for k'' b using chains_okD(5) [OF C that] a(2) by auto
  have ct: "chain ?R w (ch k') e = chain R w (ch k') e" for w e
    by (rule chain_cong) (use notin [OF k'] in auto)
  have "set (?ch k') \<inter> set (?ch k'') = {}" if "k'' \<in> keys" "k' \<noteq> k''" for k''
    using D(6) [OF that(1)] that notin k k' by (auto simp: fun_upd_def)
  moreover have "chain ?R (found_val (M' k')) (?ch k') (en k')"
    using D(2) ct M' [OF k'] a u by (cases "k' = k") auto
  moreover have "\<forall>b \<in> set (?ch k'). user_val (u_val ?R b)" using D(5) v notin [OF k'] by (auto simp: u_val_def)
  moreover have "distinct (?ch k')" using D(4) notin [OF k'] by auto
  moreover have "M' k' \<noteq> Some 0" using D(1) M' [OF k'] by simp
  ultimately show "M' k' \<noteq> Some 0 \<and> chain ?R (found_val (M' k')) (?ch k') (en k') \<and> chain_end (en k') \<and>
    distinct (?ch k') \<and> (\<forall>a \<in> set (?ch k'). user_val (u_val ?R a)) \<and> (\<forall>k'' \<in> keys. k' \<noteq> k'' \<longrightarrow> set (?ch k') \<inter> set (?ch k'') = {})"
    using D(3) by blast
qed

lemma txn_inv_push:
  assumes inv: "txn_inv mi ma keys m ch en s" and run: "running (x_txns s) t x" and k: "k \<in> keys" and v: "user_val v" and a: "a \<in> set (x_pool s)"
    and R': "x_recs s' = (x_recs s)(a \<mapsto> \<lparr>u_version = txn_ref t, u_value = v, u_next = found_val (ma (x_maps s m) k)\<rparr>)"
    and X': "x_txns s' = (x_txns s)(t \<mapsto> x')" "tx_writes x' = tx_writes x @ [\<lparr>w_key = k, w_rec = a\<rparr>]"
      "tx_rv x' = tx_rv x" "tx_wv x' = tx_wv x" "tx_map x' = tx_map x" "tx_state x' = tx_state x"
    and now: "x_version s' = x_version s"
    and mp: "mi (x_maps s' m)" "\<And>k'. k' \<in> keys \<Longrightarrow> ma (x_maps s' m) k' = (if k' = k then Some (upd_ref a) else ma (x_maps s m) k')"
    and act: "active_ok s'" "x_active s' = x_active s" and pool: "distinct (x_pool s')" "set (x_pool s') \<subseteq> set (x_pool s) - {a}"
  shows "txn_inv mi ma keys m (ch(k := a # ch k)) en s'"
proof -
  let ?ch = "ch(k := a # ch k)"
  note I = txn_invD [OF inv]
  have fresh: "heap_addr a" "x_recs s a = None" "x_txns s a = None" using I(10) [OF a] by simp_all
  have notin: "b \<noteq> a" if "k' \<in> keys" "b \<in> set (ch k')" for k' b using chains_okD(5) [OF I(5) that] fresh(2) by auto
  have old: "u_ver (x_recs s') b = u_ver (x_recs s) b" if "b \<noteq> a" for b using that R' by (simp add: u_ver_def)
  have new: "u_ver (x_recs s') a = txn_ref t" using R' by (simp add: u_ver_def)
  have run': "running (x_txns s') t' y \<longleftrightarrow> (if t' = t then y = x' else running (x_txns s) t' y)" for t' y
    using run X' by (auto simp: running_def)
  have rvs: "\<exists>z. running (x_txns s) t' z \<and> tx_rv z = tx_rv y \<and> set (tx_writes z) \<subseteq> set (tx_writes y)" if "running (x_txns s') t' y" for t' y
    using that run' run X'(2,3) by (cases "t' = t") auto
  have old_run: "\<exists>y. running (x_txns s') t' y \<and> set (tx_writes z) \<subseteq> set (tx_writes y)" if "running (x_txns s) t' z" for t' z
    using that run' run X'(2) by (cases "t' = t") (auto simp: running_def)
  have "chains_ok (ma (x_maps s' m)) (x_recs s') keys ?ch en"
    unfolding R' by (rule push_chains [OF I(5) k _ fresh(1,2) _ mp(2)]) (simp_all add: v)
  moreover have "version_ok (x_txns s') (x_version s') k' b (u_ver (x_recs s') b)" if k': "k' \<in> keys" "b \<in> set (?ch k')" for k' b
  proof (cases "b = a")
    case True
    then have "k' = k" using notin [OF k'(1)] k'(2) by (auto split: if_splits)
    then show ?thesis using True new run' X'(2) unfolding version_ok_def by (auto intro!: exI [of _ t] exI [of _ x'])
  next
    case False
    then have "b \<in> set (ch k')" using k'(2) by (auto split: if_splits)
    then show ?thesis using I(6) [OF k'(1)] old [OF False] now old_run unfolding version_ok_def by (metis subset_iff)
  qed
  moreover have "sorted_wrt (newer (x_recs s') (x_txns s')) (?ch k')" if k': "k' \<in> keys" for k'
  proof -
    have "sorted_wrt (newer (x_recs s') (x_txns s')) (ch k')"
    proof (rule sorted_wrt_mono_rel [OF _ I(7) [OF k']])
      fix b c assume bc: "b \<in> set (ch k')" "c \<in> set (ch k')" "newer (x_recs s) (x_txns s) b c"
      show "newer (x_recs s') (x_txns s') b c"
        using bc(3) rvs unfolding newer_def old [OF notin [OF k' bc(1)]] old [OF notin [OF k' bc(2)]] by metis
    qed
    moreover have "newer (x_recs s') (x_txns s') a b" for b by (simp add: newer_def new)
    ultimately show ?thesis by (cases "k' = k") auto
  qed
  moreover have "txns_ok (x_recs s') (x_txns s') (x_version s') m keys ?ch"
    unfolding txns_ok_def
  proof (intro allI impI)
    fix t' y assume r: "running (x_txns s') t' y"
    define z where "z = (if t' = t then x else y)"
    have z: "running (x_txns s) t' z" using r run' run by (auto simp: z_def)
    have o: "heap_addr t'" "tx_map z = m" "tx_wv z = UNDETERMINED_VERSION" "tx_rv z \<le> x_version s"
      "\<And>w. w \<in> set (tx_writes z) \<Longrightarrow> w_key w \<in> keys \<and> w_rec w \<in> set (ch (w_key w)) \<and> u_ver (x_recs s) (w_rec w) = txn_ref t'"
      using I(8) z by (auto simp: txns_ok_def)
    have y: "tx_map y = tx_map z" "tx_wv y = tx_wv z" "tx_rv y = tx_rv z" using r run' X' by (auto simp: z_def)
    have "w_key w \<in> keys \<and> w_rec w \<in> set (?ch (w_key w)) \<and> u_ver (x_recs s') (w_rec w) = txn_ref t'" if w: "w \<in> set (tx_writes y)" for w
    proof (cases "w \<in> set (tx_writes z)")
      case True
      then show ?thesis using o(5) [OF True] notin old by (metis fun_upd_apply list.set_intros(2))
    next
      case False
      then have "t' = t" "w = \<lparr>w_key = k, w_rec = a\<rparr>" using w r run' X'(2) by (auto simp: z_def split: if_splits)
      then show ?thesis using k new by simp
    qed
    then show "heap_addr t' \<and> tx_map y = m \<and> tx_wv y = UNDETERMINED_VERSION \<and> tx_rv y \<le> x_version s' \<and>
      (\<forall>w \<in> set (tx_writes y). w_key w \<in> keys \<and> w_rec w \<in> set (?ch (w_key w)) \<and> u_ver (x_recs s') (w_rec w) = txn_ref t')"
      using o y now by simp
  qed
  moreover have "heap_addr b \<and> x_recs s' b = None \<and> x_txns s' b = None" if "b \<in> set (x_pool s')" for b
  proof -
    have b: "b \<in> set (x_pool s)" "b \<noteq> a" using that pool(2) by auto
    then have "b \<noteq> t" using I(10) [OF b(1)] run by (auto simp: running_def)
    then show ?thesis using I(10) [OF b(1)] b(2) R' X'(1) by simp
  qed
  moreover have "x_active s \<noteq> None" using I(3) [of t] run by (simp add: running_def)
  ultimately show ?thesis using mp(1) act now I(4) pool(1) by (simp add: txn_inv_def)
qed

context txn_store
begin

lemma txn_push_ok:
  assumes "inv (x_maps s m)" and "k \<in> keys" and "0 < room (x_maps s m)" and "heap_addr a" and "x_recs s a = Some u"
    and "abs (x_maps s m) k \<noteq> Some 0" and "chain R (found_val (abs (x_maps s m) k)) as e" and "chain_end e" and "old = found_val (abs (x_maps s m) k)"
  shows "\<exists>ms. txn_push impl m k a old s = ret (s\<lparr>x_recs := (x_recs s)(a \<mapsto> u\<lparr>u_next := old\<rparr>), x_maps := (x_maps s)(m := ms)\<rparr>) \<and> inv ms \<and>
    room (x_maps s m) \<le> room ms + 1 \<and> (\<forall>k' \<in> keys. abs ms k' = (if k' = k then Some (upd_ref a) else abs (x_maps s m) k'))"
proof -
  define s1 where "s1 = put_rec a (u\<lparr>u_next := old\<rparr>) s"
  have s1: "x_maps s1 = x_maps s" by (simp add: s1_def)
  have app: "cas_applies old (abs (x_maps s m) k)" using assms(6,9) by (cases "abs (x_maps s m) k") (auto simp: cas_applies_def cas_expect_defs)
  have "old = 0 \<or> user_val old \<or> (\<exists>b. heap_addr b \<and> old = upd_ref b)"
    using assms(7-9) by (cases as) (auto simp: chain_end_def DOES_NOT_EXIST_def)
  then have "old \<in> exps" using ref_ok lit_ok exps_law by (auto simp: cas_expect_defs)
  with app obtain ms where ms: "txn_cas_map impl m k old (upd_ref a) s1 = ret (old, s1\<lparr>x_maps := (x_maps s)(m := ms)\<rparr>)" "inv ms"
    "room (x_maps s m) \<le> room ms + 1" "\<forall>k' \<in> keys. abs ms k' = ((abs (x_maps s m))(k \<mapsto> upd_ref a)) k'"
    using txn_cas_map_ok [of s1 m k "upd_ref a" old] assms(1-3,9) ref_ok [OF assms(4)] unfolding s1 by auto
  have "txn_push impl m k a old s = ret (s1\<lparr>x_maps := (x_maps s)(m := ms)\<rparr>)"
    using ms(1) assms(5) by (subst txn_push.simps) (simp add: get_simps s1_def upd_ref_def Let_def)
  then show ?thesis using ms(2-4) by (intro exI [of _ ms]) (auto simp: s1_def put_rec_def)
qed

lemma txn_map_set_ok:
  assumes "txn_inv inv abs keys m ch en s" and "running (x_txns s) t x" and "k \<in> keys" and "user_val v" and "0 < room (x_maps s m)"
    and "(if length (tx_writes x) = tx_writes_size x then 2 else 1) \<le> length (x_pool s)"
  shows "\<exists>s' a x'. txn_map_set impl t k v s = ret s' \<and> a \<in> set (x_pool s) \<and> txn_inv inv abs keys m (ch(k := a # ch k)) en s' \<and>
    x_recs s' = (x_recs s)(a \<mapsto> \<lparr>u_version = txn_ref t, u_value = v, u_next = found_val (abs (x_maps s m) k)\<rparr>) \<and>
    x_txns s' = (x_txns s)(t \<mapsto> x') \<and> tx_writes x' = tx_writes x @ [\<lparr>w_key = k, w_rec = a\<rparr>] \<and> tx_rv x' = tx_rv x \<and> tx_state x' = TXN_RUNNING \<and>
    x_version s' = x_version s \<and> room (x_maps s m) \<le> room (x_maps s' m) + 1 \<and> active_count s' = active_count s \<and> active_room s' = active_room s \<and>
    length (x_pool s) = length (x_pool s') + (if length (tx_writes x) = tx_writes_size x then 2 else 1)"
proof -
  note I = txn_invD [OF assms(1)]
  have x: "x_txns s t = Some x" "tx_state x = TXN_RUNNING" "tx_map x = m" using assms(2) I(8) by (auto simp: txns_ok_def running_def)
  obtain a p where p: "x_pool s = a # p" using assms(6) by (cases "x_pool s") (auto split: if_splits)
  have fresh: "heap_addr a" "x_recs s a = None" using I(10) [of a] p by simp_all
  let ?M = "abs (x_maps s m)"
  define old where "old = found_val (?M k)"
  define s1 where "s1 = put_rec a \<lparr>u_version = txn_ref t, u_value = v, u_next = 0\<rparr> (s\<lparr>x_pool := p\<rparr>)"
  have al: "alloc_update_rec (TAG_VALUE (PTR_TO_VAL t) TAG1) v s = ret (a, s1)"
    by (simp add: alloc_update_rec_def x_malloc_def p s1_def DOES_NOT_EXIST_def txn_ref_def)
  have "inv (x_maps s1 m)" using I(1) by (simp add: s1_def)
  then obtain s2 where s2: "txn_get_map impl m k s1 = ret (old, s2)" "reads inv abs room keys m s1 s2"
    using txn_get_map_ok [OF _ assms(3), of s1 m] by (auto simp: s1_def old_def)
  note R = reads_sel [OF s2(2)]
  define u where "u = \<lparr>u_version = txn_ref t, u_value = v, u_next = old\<rparr>"
  have ab: "abs (x_maps s2 m) k' = ?M k'" if "k' \<in> keys" for k' using R(9) [OF that] by (simp add: s1_def)
  have "0 < room (x_maps s2 m)" "x_recs s2 a = Some \<lparr>u_version = txn_ref t, u_value = v, u_next = 0\<rparr>" using R(1,10) assms(5) by (simp_all add: s1_def)
  from txn_push_ok [OF R(8) assms(3) this(1) fresh(1) this(2), unfolded ab [OF assms(3)], OF chains_okD(1-3) [OF I(5) assms(3)] old_def] obtain ms where
    ms: "txn_push impl m k a old s2 = ret (s2\<lparr>x_recs := (x_recs s2)(a \<mapsto> u), x_maps := (x_maps s2)(m := ms)\<rparr>)" "inv ms"
    "room (x_maps s2 m) \<le> room ms + 1" "\<forall>k' \<in> keys. abs ms k' = (if k' = k then Some (upd_ref a) else abs (x_maps s2 m) k')"
    by (auto simp: u_def)
  define s4 where "s4 = s2\<lparr>x_recs := (x_recs s2)(a \<mapsto> u), x_maps := (x_maps s2)(m := ms)\<rparr>"
  note push = ms(1) [folded s4_def]
  have s4: "x_txns s4 = x_txns s" "x_pool s4 = p" "x_recs s4 = (x_recs s)(a \<mapsto> u)" "x_version s4 = x_version s" "x_active s4 = x_active s"
    "active_count s4 = active_count s" "active_room s4 = active_room s" "active_ok s4 = active_ok s"
    using R active_frame [of s4 s2] active_frame [of s1 s] by (simp_all add: s4_def s1_def put_rec_def)
  define wr where "wr = tx_writes x @ [\<lparr>w_key = k, w_rec = a\<rparr>]"
  define x' where "x' = (if length (tx_writes x) = tx_writes_size x
    then x\<lparr>tx_writes_at := hd p, tx_writes_size := tx_writes_size x * 2, tx_writes := wr\<rparr> else x\<lparr>tx_writes := wr\<rparr>)"
  define s5 where "s5 = (if length (tx_writes x) = tx_writes_size x
    then put_txn t x' (s4\<lparr>x_pool := List.tl p, x_freed := x_freed s4 @ [tx_writes_at x]\<rparr>) else put_txn t x' s4)"
  have "length (tx_writes x) = tx_writes_size x \<longrightarrow> p \<noteq> []" using assms(6) p by auto
  then have grow: "txn_map_set impl t k v s = ret s5"
    using al s2(1) push s4(1,2) x user_valD(1,2) [OF assms(4)]
    by (cases p) (auto simp: txn_map_set_def get_simps Let_def x_malloc_def x'_def s5_def wr_def)
  have "set (List.tl p) \<subseteq> set p" by (cases p) auto
  then have sel: "x_txns s5 = (x_txns s)(t \<mapsto> x')" "x_recs s5 = (x_recs s)(a \<mapsto> u)" "x_version s5 = x_version s" "x_maps s5 = x_maps s4" "x_active s5 = x_active s"
    "active_count s5 = active_count s" "active_room s5 = active_room s" "active_ok s5 = active_ok s" "set (x_pool s5) \<subseteq> set p" "distinct (x_pool s5)"
    using s4 I(9) p active_frame [of s5 s4] by (auto simp: s5_def put_txn_def distinct_tl)
  have xs: "tx_writes x' = wr" "tx_rv x' = tx_rv x" "tx_state x' = TXN_RUNNING" "tx_wv x' = tx_wv x" "tx_map x' = tx_map x" "tx_state x' = tx_state x"
    using x(2) by (simp_all add: x'_def)
  have "txn_inv inv abs keys m (ch(k := a # ch k)) en s5"
    by (rule txn_inv_push [where a = a and x' = x', OF assms(1-4)])
      (use p sel xs I ms(2,4) ab in \<open>auto simp: u_def old_def wr_def s4_def\<close>)
  moreover have "length (x_pool s) = length (x_pool s5) + (if length (tx_writes x) = tx_writes_size x then 2 else 1)"
    using assms(6) p s4(2) by (auto simp: s5_def)
  moreover have "room (x_maps s m) \<le> room (x_maps s5 m) + 1"
    using ms(3) R(10) sel(4) by (simp add: s4_def s1_def)
  ultimately show ?thesis
    using grow p sel xs by (intro exI [of _ s5] exI [of _ a] exI [of _ x']) (auto simp: u_def old_def wr_def)
qed

end

text \<open>What a read collects, given the oldest active version: the updates behind the one it returns, or
  that one itself, whose value then takes the place of the chain.\<close>

definition collected :: "(addr \<Rightarrow> update_rec option) \<Rightarrow> version_t \<Rightarrow> map_val_t \<Rightarrow> addr list \<Rightarrow> addr list" where
  "collected R oldest e vis = (case vis of
      a # n # ns \<Rightarrow> if u_ver R n < oldest then (if e = 0 then butlast (n # ns) else n # ns) else []
    | _ \<Rightarrow> [])"

definition merges :: "(addr \<Rightarrow> update_rec option) \<Rightarrow> version_t \<Rightarrow> addr list \<Rightarrow> addr list \<Rightarrow> bool" where
  "merges R oldest as vis = (case vis of [a] \<Rightarrow> as = [a] \<and> u_ver R a \<le> oldest | _ \<Rightarrow> False)"

lemma chain_split: "chain R v (bs @ a # cs) e \<Longrightarrow> chain R (upd_ref a) (a # cs) e"
  by (induction bs arbitrary: v) auto

lemma small_below_aborted: "v \<in> small_keys \<Longrightarrow> ABORTED_VERSION < v \<longleftrightarrow> False"
  by (simp add: small_keys_def ABORTED_VERSION_def TAG_VALUE_def TAG1_val word_less_nat_alt)

context txn_store
begin

lemma txn_collect_ok:
  assumes "inv (x_maps s m)" and "k \<in> keys" and "0 < room (x_maps s m)" and "active_min s = ret oldest" and "oldest \<in> small_keys"
    and "chain (x_recs s) (found_val (abs (x_maps s m) k)) as e" and "chain_end e" and "distinct as" and "as = bs @ a # cs"
    and "user_val (u_val (x_recs s) a)" and "x_recs s a = Some u"
  shows "\<exists>s' ms. txn_collect impl m k (found_val (abs (x_maps s m) k)) (upd_ref a) u s = ret s' \<and>
    s' = s\<lparr>x_recs := x_recs s |` (- set (collected (x_recs s) oldest e (a # cs))), x_freed := x_freed s @ collected (x_recs s) oldest e (a # cs),
      x_deferred := x_deferred s @ (if merges (x_recs s) oldest as (a # cs) then [a] else []), x_maps := (x_maps s)(m := ms)\<rparr> \<and>
    inv ms \<and> room (x_maps s m) \<le> room ms + (if merges (x_recs s) oldest as (a # cs) then 1 else 0) \<and>
    (\<forall>k' \<in> keys. abs ms k' = (if merges (x_recs s) oldest as (a # cs) \<and> k' = k then Some (u_val (x_recs s) a) else abs (x_maps s m) k'))"
proof -
  have c: "chain (x_recs s) (upd_ref a) (a # cs) e" "bs = [] \<longleftrightarrow> found_val (abs (x_maps s m) k) = upd_ref a"
    using chain_split [of "x_recs s" "found_val (abs (x_maps s m) k)" bs a cs e] assms(6,8,9) by (cases bs; auto simp: upd_ref_inj)+
  have a: "heap_addr a" "u_val (x_recs s) a = u_value u" "u_ver (x_recs s) a = u_version u" using c(1) assms(11) by (simp_all add: u_val_def u_ver_def)
  have id: "x_recs s |` UNIV = x_recs s" by (simp add: restrict_map_def)
  show ?thesis
  proof (cases cs)
    case (Cons n ns)
    then have n: "u_next u = upd_ref n" "heap_addr n" "chain (x_recs s) (upd_ref n) (n # ns) e" "distinct (n # ns)"
      using c(1) assms(8,9,11) by auto
    obtain un where un: "x_recs s n = Some un" using n(3) by auto
    have vn: "u_ver (x_recs s) n = u_version un" using un by (simp add: u_ver_def)
    have m: "\<not> merges (x_recs s) oldest as (a # cs)" using Cons by (simp add: merges_def)
    define fr where "fr = collected (x_recs s) oldest e (a # cs)"
    define s' where "s' = s\<lparr>x_recs := x_recs s |` (- set fr), x_freed := x_freed s @ fr\<rparr>"
    have "txn_collect impl m k (found_val (abs (x_maps s m) k)) (upd_ref a) u s = ret s'"
    proof (cases "u_version un < oldest")
      case True
      then have "u_version un \<noteq> ABORTED_VERSION" using small_below_aborted [OF assms(5)] by auto
      then have "txn_gc_aborted oldest n s = ret False" by (subst txn_gc_aborted.simps) (simp add: get_simps un)
      moreover have "txn_gc_free n s = ret s'"
        using txn_gc_free_ok [OF n(3) assms(7) n(4)] True Cons by (simp add: s'_def fr_def collected_def vn Let_def)
      ultimately show ?thesis using True n(1,2) un assms(4) by (simp add: txn_collect_def get_simps Let_def)
    next
      case False
      then have "fr = []" using Cons vn by (simp add: fr_def collected_def)
      then show ?thesis using False n(1,2) un assms(4) by (simp add: txn_collect_def get_simps Let_def s'_def id)
    qed
    then show ?thesis using m assms(1) by (intro exI [of _ s'] exI [of _ "x_maps s m"]) (auto simp: s'_def fr_def)
  next
    case Nil
    then have n: "u_next u = e" using c(1) assms(11) by simp
    have fr: "collected (x_recs s) oldest e (a # cs) = []" using Nil by (simp add: collected_def)
    have mg: "merges (x_recs s) oldest as (a # cs) \<longleftrightarrow> bs = [] \<and> u_version u \<le> oldest" using Nil assms(9) a(3) by (simp add: merges_def)
    show ?thesis
    proof (cases "merges (x_recs s) oldest as (a # cs)")
      case True
      then have t: "found_val (abs (x_maps s m) k) = upd_ref a" "u_version u \<le> oldest" using mg c(2) by auto
      then have "abs (x_maps s m) k = Some (upd_ref a)" by (cases "abs (x_maps s m) k") auto
      then have "cas_applies (upd_ref a) (abs (x_maps s m) k)" by (simp add: cas_applies_def cas_expect_defs)
      then obtain ms where ms: "txn_cas_map impl m k (upd_ref a) (u_value u) s = ret (upd_ref a, s\<lparr>x_maps := (x_maps s)(m := ms)\<rparr>)" "inv ms"
        "room (x_maps s m) \<le> room ms + 1" "\<forall>k' \<in> keys. abs ms k' = ((abs (x_maps s m))(k \<mapsto> u_value u)) k'"
        using txn_cas_map_ok [OF assms(1,2) _ assms(3), of "u_value u" "upd_ref a"] assms(10) a ref_ok [OF a(1)] lit_ok t(1) by auto
      have "txn_collect impl m k (found_val (abs (x_maps s m) k)) (upd_ref a) u s = ret (x_defer a (s\<lparr>x_maps := (x_maps s)(m := ms)\<rparr>))"
        using t n chain_endD(1) [OF assms(7)] assms(4) ms(1) a(1) by (simp add: txn_collect_def)
      then show ?thesis using True fr ms a by (intro exI [of _ "x_defer a (s\<lparr>x_maps := (x_maps s)(m := ms)\<rparr>)"] exI [of _ ms]) (auto simp: x_defer_def id)
    next
      case False
      then have "txn_collect impl m k (found_val (abs (x_maps s m) k)) (upd_ref a) u s = ret s"
        using mg c(2) n chain_endD(1) [OF assms(7)] assms(4) by (auto simp: txn_collect_def)
      then show ?thesis using False fr assms(1) by (intro exI [of _ s] exI [of _ "x_maps s m"]) (auto simp: id)
    qed
  qed
qed

lemma txn_map_get_ok:
  assumes "txn_inv inv abs keys m ch en s" and "running (x_txns s) t x" and "k \<in> keys" and "0 < room (x_maps s m)"
    and "vis = visible (x_recs s) t (tx_rv x) (ch k)"
  shows "\<exists>s' oldest. txn_map_get impl t k s = ret (snapshot (x_recs s) t (tx_rv x) (ch k) (en k), s') \<and> active_min s = ret oldest \<and>
    x_recs s' = x_recs s |` (- set (collected (x_recs s) oldest (en k) vis)) \<and> x_freed s' = x_freed s @ collected (x_recs s) oldest (en k) vis \<and>
    x_deferred s' = x_deferred s @ (if merges (x_recs s) oldest (ch k) vis then ch k else []) \<and>
    x_txns s' = x_txns s \<and> x_version s' = x_version s \<and> x_pool s' = x_pool s \<and> x_active s' = x_active s \<and> active_ok s' \<and>
    inv (x_maps s' m) \<and> room (x_maps s m) \<le> room (x_maps s' m) + (if merges (x_recs s) oldest (ch k) vis then 1 else 0) \<and>
    (\<forall>k' \<in> keys. abs (x_maps s' m) k' = (if merges (x_recs s) oldest (ch k) vis \<and> k' = k
      then Some (snapshot (x_recs s) t (tx_rv x) (ch k) (en k)) else abs (x_maps s m) k'))"
proof -
  note I = txn_invD [OF assms(1)]
  note C = chains_okD [OF I(5) assms(3)]
  have x: "x_txns s t = Some x" "tx_state x = TXN_RUNNING" "tx_map x = m" "heap_addr t" using assms(2) I(8) by (auto simp: txns_ok_def running_def)
  have "x_active s \<noteq> None" using I(3) [of t] x(1) by simp
  then obtain oldest where oldest: "active_min s = ret oldest" "oldest \<in> small_keys" using active_min_ok [OF I(2)] by blast
  obtain s1 where s1: "txn_get_map impl m k s = ret (found_val (abs (x_maps s m) k), s1)" "reads inv abs room keys m s s1"
    using txn_get_map_ok [OF I(1) assms(3)] by blast
  note R = reads_sel [OF s1(2)]
  have fnd: "txn_find impl t (found_val (abs (x_maps s m) k)) s1 = ret (case vis of
    [] \<Rightarrow> if en k = 0 then Not_Found else Found_Literal (en k) | a # _ \<Rightarrow> Found_Update (upd_ref a), s1)"
    using txn_find_ok [of s1 "found_val (abs (x_maps s m) k)" "ch k" "en k" t x impl] C(2,3) x R(1,2) settled_version [OF I(8) I(6) [OF assms(3)]] assms(5) by simp
  have id: "x_recs s |` UNIV = x_recs s" by (simp add: restrict_map_def)
  show ?thesis
  proof (cases vis)
    case Nil
    then have "txn_map_get impl t k s = ret (snapshot (x_recs s) t (tx_rv x) (ch k) (en k), s1)"
      using s1(1) fnd x assms(5) by (auto simp: txn_map_get_def get_simps snapshot_def DOES_NOT_EXIST_def)
    then show ?thesis using Nil R oldest(1) I(2) by (intro exI [of _ s1] exI [of _ oldest]) (auto simp: collected_def merges_def id)
  next
    case (Cons a cs)
    obtain bs where bs: "ch k = bs @ a # cs" using visible_split [of "ch k" "x_recs s" t "tx_rv x"] assms(5) Cons by metis
    then have ca: "user_val (u_val (x_recs s) a)" "heap_addr a" "x_recs s a \<noteq> None" using C(5) [of a] by auto
    then obtain u where u: "x_recs s a = Some u" "u_val (x_recs s) a = u_value u" by (auto simp: u_val_def)
    have sn: "snapshot (x_recs s) t (tx_rv x) (ch k) (en k) = u_value u" using Cons assms(5) u(2) by (simp add: snapshot_def)
    have same: "found_val (abs (x_maps s1 m) k) = found_val (abs (x_maps s m) k)" using R(9) [OF assms(3)] by simp
    have "active_min s1 = ret oldest" using oldest(1) R(5) by (simp add: active_min_def)
    then obtain s' ms where s': "txn_collect impl m k (found_val (abs (x_maps s m) k)) (upd_ref a) u s1 = ret s'"
      "s' = s1\<lparr>x_recs := x_recs s |` (- set (collected (x_recs s) oldest (en k) vis)), x_freed := x_freed s1 @ collected (x_recs s) oldest (en k) vis,
        x_deferred := x_deferred s1 @ (if merges (x_recs s) oldest (ch k) vis then [a] else []), x_maps := (x_maps s1)(m := ms)\<rparr>"
      "inv ms" "room (x_maps s1 m) \<le> room ms + (if merges (x_recs s) oldest (ch k) vis then 1 else 0)"
      "\<forall>k' \<in> keys. abs ms k' = (if merges (x_recs s) oldest (ch k) vis \<and> k' = k then Some (u_val (x_recs s) a) else abs (x_maps s1 m) k')"
      using txn_collect_ok [of s1 m k oldest "ch k" "en k" bs a cs u] R(1,8,10) assms(3,4) oldest(2) C(2-4) bs ca u Cons
      unfolding same by auto
    have "txn_map_get impl t k s = ret (u_value u, s')"
      using s1(1) fnd x s'(1) Cons ca(2) u(1) R(1) by (simp add: txn_map_get_def get_simps)
    moreover have "ch k = [a]" if "merges (x_recs s) oldest (ch k) vis" using that Cons by (simp add: merges_def split: list.splits)
    moreover have "active_ok s' = active_ok s1" by (rule active_frame) (simp_all add: s'(2))
    ultimately show ?thesis
      using R s' oldest(1) I(2) sn u(2) by (intro exI [of _ s'] exI [of _ oldest]) (auto split: if_splits)
  qed
qed

end

text \<open>A new transaction.\<close>

lemma txn_inv_new:
  assumes inv: "txn_inv mi ma keys m ch en s" and t: "t \<in> set (x_pool s)"
    and x: "tx_state x = TXN_RUNNING" "tx_map x = m" "tx_wv x = UNDETERMINED_VERSION" "tx_rv x \<le> x_version s" "tx_writes x = []"
    and s': "x_recs s' = x_recs s" "x_txns s' = (x_txns s)(t \<mapsto> x)" "x_version s' = x_version s" "x_maps s' = x_maps s"
      "active_ok s'" "x_active s' \<noteq> None" "distinct (x_pool s')" "set (x_pool s') \<subseteq> set (x_pool s) - {t}"
  shows "txn_inv mi ma keys m ch en s'"
proof -
  note I = txn_invD [OF inv]
  have fresh: "heap_addr t" "x_txns s t = None" using I(10) [OF t] by simp_all
  have run': "running (x_txns s') t' y \<longleftrightarrow> (if t' = t then y = x else running (x_txns s) t' y)" for t' y
    using x(1) s'(2) by (auto simp: running_def)
  have keep: "running (x_txns s') t' y" if "running (x_txns s) t' y" for t' y using that fresh(2) s'(2) by (auto simp: running_def)
  have other: "u_ver (x_recs s) a \<noteq> txn_ref t" if ka: "k \<in> keys" "a \<in> set (ch k)" for k a
  proof
    assume v: "u_ver (x_recs s) a = txn_ref t"
    then obtain t' y where y: "txn_ref t = txn_ref t'" "running (x_txns s) t' y"
      using I(6) [OF ka] fresh(1) by (auto simp: version_ok_def)
    then have "heap_addr t'" using I(8) by (auto simp: txns_ok_def)
    then show False using y txn_ref_inj [OF fresh(1)] fresh(2) by (auto simp: running_def)
  qed
  have "version_ok (x_txns s') (x_version s') k a (u_ver (x_recs s') a)" if "k \<in> keys" "a \<in> set (ch k)" for k a
    using I(6) [OF that] keep s'(1,3) unfolding version_ok_def by metis
  moreover have "sorted_wrt (newer (x_recs s') (x_txns s')) (ch k)" if k: "k \<in> keys" for k
    by (rule sorted_wrt_mono_rel [OF _ I(7) [OF k]]) (use other [OF k] run' s'(1) in \<open>auto simp: newer_def split: if_splits\<close>)
  moreover have "txns_ok (x_recs s') (x_txns s') (x_version s') m keys ch"
    unfolding txns_ok_def
  proof (intro allI impI)
    fix t' y assume "running (x_txns s') t' y"
    then show "heap_addr t' \<and> tx_map y = m \<and> tx_wv y = UNDETERMINED_VERSION \<and> tx_rv y \<le> x_version s' \<and>
      (\<forall>w \<in> set (tx_writes y). w_key w \<in> keys \<and> w_rec w \<in> set (ch (w_key w)) \<and> u_ver (x_recs s') (w_rec w) = txn_ref t')"
      using I(8) run' x fresh(1) s'(1,3) by (cases "t' = t") (auto simp: txns_ok_def)
  qed
  moreover have "heap_addr b \<and> x_recs s' b = None \<and> x_txns s' b = None" if "b \<in> set (x_pool s')" for b
    using that s'(1,2,8) I(10) by auto
  ultimately show ?thesis using I(1,4,5) s' by (simp add: txn_inv_def)
qed

lemma txn_begin_ok:
  assumes inv: "txn_inv mi ma keys m ch en s" and pool: "x_pool s = t # w # p" and room: "2 \<le> active_room s" and junk: "24 \<le> length junk"
    and cnt: "\<And>c. active_count s (x_version s) = Some c \<Longrightarrow> 0 < c \<and> c < 0xFFFFFFFF"
    and x: "x = \<lparr>tx_rv = x_version s, tx_wv = UNDETERMINED_VERSION, tx_map = m, tx_writes_at = w, tx_writes = [],
      tx_writes_size = INITIAL_WRITES_SIZE, tx_state = TXN_RUNNING\<rparr>"
  shows "\<exists>s'. txn_begin junk m s = ret (t, s') \<and> txn_inv mi ma keys m ch en s' \<and> x_txns s' = (x_txns s)(t \<mapsto> x) \<and> x_recs s' = x_recs s \<and>
    x_version s' = x_version s \<and> x_maps s' = x_maps s \<and> x_pool s' = p \<and> active_room s \<le> active_room s' + 2 \<and>
    active_count s' = (active_count s)(x_version s \<mapsto> found_val (active_count s (x_version s)) + 1)"
proof -
  note I = txn_invD [OF inv]
  define s1 where "s1 = put_txn t (x\<lparr>tx_rv := 0\<rparr>) (s\<lparr>x_pool := p\<rparr>)"
  have s1: "x_active s1 = x_active s" "active_ok s1" "active_count s1 = active_count s" "active_room s1 = active_room s" "x_sl_pool s1 = x_sl_pool s" "x_sl_rnd s1 = x_sl_rnd s"
    using active_frame [of s1 s] I(2) by (simp_all add: s1_def put_txn_def)
  obtain s2 where s2: "(if x_active s1 = None then
                 pbind (sl_alloc None (x_sl_pool s1) (x_sl_rnd s1)) (\<lambda>a.
                 case SYNC_CAS (x_active s1) None (Some a) of (old, active) \<Rightarrow>
                 (let s = s1\<lparr>x_active := active\<rparr>
                  in if old \<noteq> None then pbind (sl_free a) (\<lambda>_. ret s) else ret s))
               else ret s1) = ret s2" "act_step s1 s2" "active_count s2 = active_count s" "active_room s2 = active_room s"
  proof (cases "x_active s1")
    case (Some sl)
    then have "s1 = s1\<lparr>x_active := Some sl\<rparr>" by simp
    then have "act_step s1 s1" using s1(2) unfolding act_step_def by blast
    then show ?thesis using that [of s1] s1(3,4) Some by simp
  next
    case None
    then obtain hd pl where pl: "x_sl_pool s = hd # pl" "sl_pool_ok (hd # pl) (\<lambda>_. None)"
      using s1 by (cases "x_sl_pool s") (auto simp: active_ok_def)
    obtain a where a: "sl_alloc None (hd # pl) (x_sl_rnd s) = ret a" "sl_rep None small_keys uint a []" "sl_pool a = pl" "sl_rnd a = x_sl_rnd s"
      using sl_alloc_seq_ok [OF pl(2)] sl_alloc_eq_seq by metis
    define s2 where "s2 = s1\<lparr>x_active := Some a\<rparr>"
    have "active_count s2 = active_count s" using None s1 sl_abs_empty [OF a(2)] by (simp add: active_count_def s2_def fun_eq_iff)
    moreover have "active_room s2 = active_room s" using None s1(1) a(3,4) pl(1) by (simp add: active_room_def s2_def sl_room_def)
    moreover have "act_step s1 s2" using a(2) by (auto simp: act_step_def active_ok_def s2_def sl_inv_def)
    ultimately show ?thesis using that [of s2] None a(1) pl(1) s1(5,6) by (simp add: s2_def)
  qed
  note A = act_step_sel [OF s2(2)]
  define s3 where "s3 = put_txn t x s2"
  have s3: "active_ok s3" "x_active s3 = x_active s2" "active_count s3 = active_count s" "active_room s3 = active_room s" "x_version s3 = x_version s"
    using active_frame [of s3 s2] A s2(3,4) by (simp_all add: s3_def put_txn_def s1_def)
  obtain s4 where s4: "txn_raise junk (x_version s) 0 s3 = ret s4" "act_step s3 s4" "active_room s3 \<le> active_room s4 + 2"
    "active_count s4 = (active_count s3)(x_version s \<mapsto> found_val (active_count s3 (x_version s)) + 1)"
    using txn_raise_ok [of s3 "x_version s" junk] s3 A(9) I(4) room junk cnt by auto
  note B = act_step_sel [OF s4(2)]
  have g: "get_txn s2 t = ret (x\<lparr>tx_rv := 0\<rparr>)" "put_txn t (x\<lparr>tx_rv := 0, tx_rv := x_version s\<rparr>) s2 = s3" "x_version s2 = x_version s"
    using A(2,4) by (simp_all add: get_simps s1_def s3_def x)
  have acq: "txn_acquire junk t s2 = ret s4"
    using g B(4) s3(5) s4(1) by (subst txn_acquire.simps) (simp add: Let_def)
  have ml: "x_malloc s = ret (t, s\<lparr>x_pool := w # p\<rparr>)" "x_malloc (s\<lparr>x_pool := w # p\<rparr>) = ret (w, s\<lparr>x_pool := p\<rparr>)"
    "put_txn t \<lparr>tx_rv = 0, tx_wv = UNDETERMINED_VERSION, tx_map = m, tx_writes_at = w, tx_writes = [],
      tx_writes_size = INITIAL_WRITES_SIZE, tx_state = TXN_RUNNING\<rparr> (s\<lparr>x_pool := p\<rparr>) = s1"
    by (simp_all add: x_malloc_def pool s1_def x)
  have "txn_begin junk m s = ret (t, s4)"
    unfolding txn_begin_def ml pbind_ret prod.case Let_def s2(1) [unfolded Let_def] acq ..
  moreover have "txn_inv mi ma keys m ch en s4"
    by (rule txn_inv_new [OF inv, of t x]) (use pool I(9) A B in \<open>auto simp: x s3_def s1_def\<close>)
  ultimately show ?thesis using A B s4 s3 by (intro exI [of _ s4]) (auto simp: s3_def s1_def)
qed

text \<open>A read that frees nothing.\<close>

lemma txn_inv_read:
  assumes inv: "txn_inv mi ma keys m ch en s" and k: "k \<in> keys"
    and s': "x_recs s' = x_recs s" "x_txns s' = x_txns s" "x_version s' = x_version s" "x_pool s' = x_pool s" "x_active s' = x_active s" "active_ok s'" "mi (x_maps s' m)"
    and mp: "\<And>k'. k' \<in> keys \<Longrightarrow> ma (x_maps s' m) k' = ma (x_maps s m) k'"
  shows "txn_inv mi ma keys m ch en s'"
proof -
  note I = txn_invD [OF inv]
  have "chains_ok (ma (x_maps s' m)) (x_recs s') keys ch en"
    by (rule chains_ok_cong [OF I(5) mp]) (use chains_okD(5) [OF I(5)] s' in auto)
  then show ?thesis using inv s' by (simp add: txn_inv_def)
qed

text \<open>A read that moves the value of the only update of a key into the map.\<close>

lemma txn_inv_merge:
  assumes inv: "txn_inv mi ma keys m ch en s" and k: "k \<in> keys" "ch k = [b]" "committed (u_ver (x_recs s) b)" and v: "user_val v"
    and s': "x_recs s' = x_recs s" "x_txns s' = x_txns s" "x_version s' = x_version s" "x_pool s' = x_pool s" "x_active s' = x_active s" "active_ok s'" "mi (x_maps s' m)"
    and mp: "\<And>k'. k' \<in> keys \<Longrightarrow> ma (x_maps s' m) k' = (if k' = k then Some v else ma (x_maps s m) k')"
  shows "txn_inv mi ma keys m (ch(k := [])) (en(k := v)) s'"
proof -
  note I = txn_invD [OF inv]
  have "chains_ok (ma (x_maps s' m)) (x_recs s') keys (ch(k := [])) (en(k := v))"
    using I(5) mp s'(1) v user_valD(3) [OF v] by (auto simp: chains_ok_def chain_end_def)
  moreover have "txns_ok (x_recs s') (x_txns s') (x_version s') m keys (ch(k := []))"
    unfolding txns_ok_def
  proof (intro allI impI)
    fix t x assume r: "running (x_txns s') t x"
    then have o: "heap_addr t" "tx_map x = m" "tx_wv x = UNDETERMINED_VERSION" "tx_rv x \<le> x_version s"
      "\<And>w. w \<in> set (tx_writes x) \<Longrightarrow> w_key w \<in> keys \<and> w_rec w \<in> set (ch (w_key w)) \<and> u_ver (x_recs s) (w_rec w) = txn_ref t"
      using I(8) s'(2) by (auto simp: txns_ok_def)
    have "w_key w \<noteq> k" if "w \<in> set (tx_writes x)" for w using o(5) [OF that] k(2,3) by auto
    then show "heap_addr t \<and> tx_map x = m \<and> tx_wv x = UNDETERMINED_VERSION \<and> tx_rv x \<le> x_version s' \<and>
      (\<forall>w \<in> set (tx_writes x). w_key w \<in> keys \<and> w_rec w \<in> set ((ch(k := [])) (w_key w)) \<and> u_ver (x_recs s') (w_rec w) = txn_ref t)"
      using o s'(1,3) by simp
  qed
  ultimately show ?thesis using inv s' by (simp add: txn_inv_def)
qed

end
