(* ===== verification/Txn_Props.thy ===== *)
theory Txn_Props
  imports Txn_Inv Hashtable_Props
begin

text \<open>
  What the transactions of \<^verbatim>\<open>src/src/txn/txn.c\<close> guarantee, proved for any map that keeps the contract
  and stated over the hash table: reads of a snapshot, commits in which the first writer wins, isolation
  and publication; and the two ways in which the code loses an update record or a read version that is
  still in use.
\<close>

section \<open>Reads\<close>

lemma snapshot_cong:
  assumes "\<And>b. b \<in> set as \<Longrightarrow> sees R' t' rv' b = sees R t rv b \<and> u_val R' b = u_val R b"
  shows "snapshot R' t' rv' as e = snapshot R t rv as e"
proof -
  have v: "visible R' t' rv' as = visible R t rv as" unfolding visible_def using assms by (intro dropWhile_cong) auto
  obtain bs where bs: "as = bs @ visible R t rv as" using visible_split by metis
  have "u_val R' b = u_val R b" if "visible R t rv as = b # cs" for b cs using assms [of b] bs that by (metis in_set_conv_decomp)
  then show ?thesis unfolding snapshot_def v by (auto split: list.split)
qed

context txn_store
begin

lemma read_ok:
  assumes "txn_inv inv abs keys m ch en s" and "running (x_txns s) t x" and "k \<in> keys" and "0 < room (x_maps s m)"
  shows "\<exists>s'. txn_map_get impl t k s = ret (snapshot (x_recs s) t (tx_rv x) (ch k) (en k), s')"
  using txn_map_get_ok [OF assms refl] by blast

text \<open>A read that frees nothing keeps the invariant, and what it has returned is what it returns again.\<close>

lemma read_keeps:
  assumes "txn_inv inv abs keys m ch en s" and "running (x_txns s) t x" and "k \<in> keys" and "0 < room (x_maps s m)"
    and "txn_map_get impl t k s = ret (v, s')" and "x_freed s' = x_freed s"
  shows "\<exists>ch' en'. txn_inv inv abs keys m ch' en' s' \<and> (ch' = ch \<and> en' = en \<and> room (x_maps s m) \<le> room (x_maps s' m) \<or> ch' = ch(k := []) \<and> en' = en(k := v)) \<and>
    snapshot (x_recs s') t (tx_rv x) (ch' k) (en' k) = v \<and> x_txns s' = x_txns s \<and> x_version s' = x_version s \<and> x_pool s' = x_pool s \<and>
    active_room s' = active_room s \<and> active_count s' = active_count s"
proof -
  let ?vis = "visible (x_recs s) t (tx_rv x) (ch k)"
  note I = txn_invD [OF assms(1)]
  obtain oldest where g: "v = snapshot (x_recs s) t (tx_rv x) (ch k) (en k)" "active_min s = ret oldest"
    "x_recs s' = x_recs s" "x_txns s' = x_txns s" "x_version s' = x_version s" "x_pool s' = x_pool s" "x_active s' = x_active s" "active_ok s'" "inv (x_maps s' m)"
    "\<forall>k' \<in> keys. abs (x_maps s' m) k' = (if merges (x_recs s) oldest (ch k) ?vis \<and> k' = k then Some v else abs (x_maps s m) k')"
    "room (x_maps s m) \<le> room (x_maps s' m) + (if merges (x_recs s) oldest (ch k) ?vis then 1 else 0)"
    using txn_map_get_ok [OF assms(1-4) refl] assms(5,6) by (auto simp: restrict_map_def)
  have "x_active s \<noteq> None" using I(3) [of t] assms(2) by (simp add: running_def)
  then have a: "active_room s' = active_room s" "active_count s' = active_count s" using g(7) by (auto simp: active_room_def active_count_def fun_eq_iff)
  show ?thesis
  proof (cases "merges (x_recs s) oldest (ch k) ?vis")
    case False
    then have "txn_inv inv abs keys m ch en s'" using g by (intro txn_inv_read [OF assms(1,3)]) simp_all
    then show ?thesis using g a False by (intro exI [of _ ch] exI [of _ en]) simp
  next
    case True
    then obtain b where b: "ch k = [b]" "?vis = [b]" by (auto simp: merges_def split: list.splits)
    have v: "v = u_val (x_recs s) b" "user_val v" using g(1) b chains_okD(5) [OF I(5) assms(3)] by (auto simp: snapshot_def)
    obtain ol where "active_min s = ret ol" "ol \<in> small_keys" using active_min_ok [OF I(2) \<open>x_active s \<noteq> None\<close>] by blast
    then have "committed (u_ver (x_recs s) b)" if "u_ver (x_recs s) b \<le> ol" using that small_committed(1) [of ol] order_le_less_trans by (auto simp: committed_less)
    then have c: "committed (u_ver (x_recs s) b)" using True b g(2) \<open>active_min s = ret ol\<close> by (simp add: merges_def)
    have "txn_inv inv abs keys m (ch(k := [])) (en(k := v)) s'"
      by (rule txn_inv_merge [OF assms(1,3) b(1) c v(2)]) (use g True in simp_all)
    then show ?thesis using g a by (intro exI [of _ "ch(k := [])"] exI [of _ "en(k := v)"]) (simp add: snapshot_def visible_def)
  qed
qed

lemma read_own_write:
  assumes "txn_inv inv abs keys m ch en s" and "running (x_txns s) t x" and "k \<in> keys" and "user_val v" and "2 \<le> room (x_maps s m)"
    and "(if length (tx_writes x) = tx_writes_size x then 2 else 1) \<le> length (x_pool s)"
  shows "\<exists>s1 s2. txn_map_set impl t k v s = ret s1 \<and> txn_map_get impl t k s1 = ret (v, s2)"
proof -
  have "0 < room (x_maps s m)" using assms(5) by simp
  from txn_map_set_ok [OF assms(1-4) this assms(6)] obtain s1 a x' where
    s1: "txn_map_set impl t k v s = ret s1" "txn_inv inv abs keys m (ch(k := a # ch k)) en s1"
      "x_recs s1 = (x_recs s)(a \<mapsto> \<lparr>u_version = txn_ref t, u_value = v, u_next = found_val (abs (x_maps s m) k)\<rparr>)"
      "x_txns s1 = (x_txns s)(t \<mapsto> x')" "tx_state x' = TXN_RUNNING" "room (x_maps s m) \<le> room (x_maps s1 m) + 1"
    by blast
  have run: "running (x_txns s1) t x'" using s1(4,5) by (simp add: running_def)
  have "sees (x_recs s1) t (tx_rv x') a" "u_val (x_recs s1) a = v" using s1(3) by (simp_all add: sees_def u_ver_def u_val_def)
  then have "snapshot (x_recs s1) t (tx_rv x') ((ch(k := a # ch k)) k) (en k) = v" by (simp add: snapshot_def visible_def)
  then show ?thesis using read_ok [OF s1(2) run assms(3)] s1(1,6) assms(5) by fastforce
qed

text \<open>Another transaction's write and commit are not seen.\<close>

lemma isolated:
  assumes "txn_inv inv abs keys m ch en s" and "running (x_txns s) t x" and "running (x_txns s) t' x'" and "t \<noteq> t'"
    and "k \<in> keys" and "k' \<in> keys" and "user_val v" and "2 \<le> room (x_maps s m)"
    and "(if length (tx_writes x') = tx_writes_size x' then 2 else 1) \<le> length (x_pool s)"
    and "x_version s + 1 \<in> small_keys" and "2 \<le> active_room s" and "24 \<le> length junk"
  shows "\<exists>v0 s0 s1 r s2 s3. txn_map_get impl t k s = ret (v0, s0) \<and>
    txn_map_set impl t' k' v s = ret s1 \<and> txn_commit impl junk t' s1 = ret (r, s2) \<and> txn_map_get impl t k s2 = ret (v0, s3)"
proof -
  have room: "0 < room (x_maps s m)" using assms(8) by simp
  note I = txn_invD [OF assms(1)]
  have h: "heap_addr t" "heap_addr t'" "tx_rv x \<le> x_version s" using I(8) assms(2,3) by (auto simp: txns_ok_def)
  from txn_map_set_ok [OF assms(1,3,6,7) room assms(9)] obtain s1 a y where
    s1: "txn_map_set impl t' k' v s = ret s1" "a \<in> set (x_pool s)" "txn_inv inv abs keys m (ch(k' := a # ch k')) en s1"
      "x_recs s1 = (x_recs s)(a \<mapsto> \<lparr>u_version = txn_ref t', u_value = v, u_next = found_val (abs (x_maps s m) k')\<rparr>)"
      "x_txns s1 = (x_txns s)(t' \<mapsto> y)" "tx_state y = TXN_RUNNING" "x_version s1 = x_version s"
      "room (x_maps s m) \<le> room (x_maps s1 m) + 1" "active_room s1 = active_room s"
    by blast
  let ?ch = "ch(k' := a # ch k')"
  have run1: "running (x_txns s1) t' y" "running (x_txns s1) t x" using s1(5,6) assms(2,4) by (auto simp: running_def)
  obtain s2 r where s2: "txn_commit impl junk t' s1 = ret (r, s2)" "txn_inv inv abs keys m ?ch en s2"
    "x_recs s2 = stamp (if r = TXN_VALIDATED then x_version s + 1 else ABORTED_VERSION) (w_rec ` set (tx_writes y)) (x_recs s1)"
    "x_txns s2 = (x_txns s1)(t' \<mapsto> y\<lparr>tx_wv := x_version s + 1, tx_state := r\<rparr>)" "room (x_maps s1 m) \<le> room (x_maps s2 m)"
    using txn_commit_ok [OF s1(3) run1(1) _ _ assms(12)] assms(10,11) s1(7,9) by auto
  have run2: "running (x_txns s2) t x" using run1(2) s2(4) assms(4) by (simp add: running_def)
  note J = txn_invD [OF s1(3)]
  have other: "u_ver (x_recs s1) (w_rec w) = txn_ref t'" if "w \<in> set (tx_writes y)" for w
    using J(8) run1(1) that by (auto simp: txns_ok_def)
  have tr: "txn_ref t' \<noteq> txn_ref t" using txn_ref_inj h assms(4) by blast
  have nv: "\<not> (x_version s + 1 \<le> tx_rv x)" using small_next(1) [OF I(4) h(3)] by simp
  have pres: "x_recs s1 b \<noteq> None" if "b \<in> set (?ch k)" for b using chains_okD(5) [OF J(5) assms(5) that] by simp
  have sees2: "sees (x_recs s2) t (tx_rv x) b = sees (x_recs s1) t (tx_rv x) b \<and> u_val (x_recs s2) b = u_val (x_recs s1) b" if "b \<in> set (?ch k)" for b
    using other pres [OF that] tr nv h(1) small_committed(1) [OF assms(10)]
    by (auto simp: sees_def s2(3))
  have fresh: "b \<noteq> a" if "b \<in> set (ch k)" for b using chains_okD(5) [OF I(5) assms(5) that] I(10) [OF s1(2)] by auto
  have "snapshot (x_recs s2) t (tx_rv x) (?ch k) (en k) = snapshot (x_recs s1) t (tx_rv x) (?ch k) (en k)"
    by (rule snapshot_cong) (rule sees2)
  also have "\<dots> = snapshot (x_recs s1) t (tx_rv x) (ch k) (en k)"
    using tr by (auto simp: snapshot_def visible_def sees_def u_ver_def s1(4))
  also have "\<dots> = snapshot (x_recs s) t (tx_rv x) (ch k) (en k)"
    by (rule snapshot_cong) (use fresh s1(4) in \<open>auto simp: sees_def u_ver_def u_val_def\<close>)
  finally show ?thesis
    using read_ok [OF assms(1,2,5) room] s1(1,8) s2(1,5) read_ok [OF s2(2) run2 assms(5)] assms(8) by fastforce
qed

text \<open>A transaction that begins after a commit reads what the committed one wrote.\<close>

lemma published:
  assumes "txn_inv inv abs keys m ch en s" and "running (x_txns s) t x" and "w \<in> set (tx_writes x)" and "0 < room (x_maps s m)"
    and "x_version s + 1 \<in> small_keys" and "4 \<le> active_room s" and "active_count s (x_version s + 1) = None" and "2 \<le> length (x_pool s)" and "24 \<le> length junk"
  shows "\<exists>v0 s0 r s1. txn_map_get impl t (w_key w) s = ret (v0, s0) \<and> txn_commit impl junk t s = ret (r, s1) \<and>
    (r = TXN_VALIDATED \<longrightarrow> (\<exists>t2 s2 s3. txn_begin junk m s1 = ret (t2, s2) \<and> txn_map_get impl t2 (w_key w) s2 = ret (v0, s3)))"
proof -
  note I = txn_invD [OF assms(1)]
  let ?k = "w_key w" and ?A = "w_rec ` set (tx_writes x)"
  have x: "heap_addr t" "?k \<in> keys" "tx_rv x \<le> x_version s" "\<And>w. w \<in> set (tx_writes x) \<Longrightarrow> u_ver (x_recs s) (w_rec w) = txn_ref t"
    using I(8) assms(2,3) by (auto simp: txns_ok_def)
  obtain s1 r where s1: "txn_commit impl junk t s = ret (r, s1)"
    "r = (if \<forall>w \<in> set (tx_writes x). no_conflict (x_recs s) (tx_rv x) (ch (w_key w)) then TXN_VALIDATED else TXN_ABORTED)"
    "txn_inv inv abs keys m ch en s1"
    "x_recs s1 = stamp (if r = TXN_VALIDATED then x_version s + 1 else ABORTED_VERSION) ?A (x_recs s)"
    "x_txns s1 = (x_txns s)(t \<mapsto> x\<lparr>tx_wv := x_version s + 1, tx_state := r\<rparr>)" "x_version s1 = x_version s + 1"
    "room (x_maps s m) \<le> room (x_maps s1 m)" "active_count s1 = (active_count s)(tx_rv x := lowered (active_count s (tx_rv x)))"
    "active_room s \<le> active_room s1 + 2" "x_pool s1 = x_pool s"
    using txn_commit_ok [OF assms(1,2,5) _ assms(9)] assms(6) by auto
  obtain s0 where get0: "txn_map_get impl t ?k s = ret (snapshot (x_recs s) t (tx_rv x) (ch ?k) (en ?k), s0)"
    using read_ok [OF assms(1,2) x(2) assms(4)] by blast
  have "\<exists>t2 s2 s3. txn_begin junk m s1 = ret (t2, s2) \<and> txn_map_get impl t2 ?k s2 = ret (snapshot (x_recs s) t (tx_rv x) (ch ?k) (en ?k), s3)"
    if ok: "r = TXN_VALIDATED"
  proof -
    obtain t2 w2 p where p: "x_pool s1 = t2 # w2 # p" using assms(8) s1(10) by (metis Suc_le_length_iff numeral_2_eq_2)
    have "active_count s1 (x_version s1) = None" using s1(6,8) assms(7) small_next(1) [OF I(4) x(3)] by auto
    then obtain s2 y where s2: "txn_begin junk m s1 = ret (t2, s2)" "txn_inv inv abs keys m ch en s2" "running (x_txns s2) t2 y" "tx_rv y = x_version s1"
      "x_recs s2 = x_recs s1" "x_maps s2 = x_maps s1"
      using txn_begin_ok [OF s1(3) p _ assms(9) _ refl] s1(9) assms(6) by (force simp: running_def)
    have "sees (x_recs s2) t2 (tx_rv y) b = sees (x_recs s) t (tx_rv x) b \<and> u_val (x_recs s2) b = u_val (x_recs s) b" if b: "b \<in> set (ch ?k)" for b
    proof -
      have pr: "x_recs s b \<noteq> None" using chains_okD(5) [OF I(5) x(2) b] by simp
      have V: "u_ver (x_recs s2) b = (if b \<in> ?A then x_version s + 1 else u_ver (x_recs s) b)" "u_val (x_recs s2) b = u_val (x_recs s) b"
        using pr ok s1(4) s2(5) by simp_all
      have old: "u_ver (x_recs s) b \<le> tx_rv x \<and> u_ver (x_recs s) b \<le> x_version s + 1" if "committed (u_ver (x_recs s) b)"
      proof -
        have "u_ver (x_recs s) b \<le> tx_rv x"
          using no_conflict_all [OF _ I(7) [OF x(2)] b that] s1(2) ok assms(3) by (auto split: if_splits)
        then show ?thesis using x(3) small_next(1) [OF I(4) order_refl] by auto
      qed
      note mine = own_update(2) [OF assms(1,2) x(2) b]
      have t2: "u_ver (x_recs s2) b \<noteq> txn_ref t2"
      proof
        assume v: "u_ver (x_recs s2) b = txn_ref t2"
        have "version_ok (x_txns s1) (x_version s1) ?k b (txn_ref t2)" using txn_invD(6) [OF s1(3) x(2) b] v s2(5) by simp
        moreover have "heap_addr t2" "x_txns s1 t2 = None" using txn_invD(10) [OF s1(3), of t2] p by simp_all
        ultimately show False using txn_invD(8) [OF s1(3)] txn_ref_inj by (auto simp: version_ok_def txns_ok_def running_def)
      qed
      then show ?thesis
        using V old mine small_committed(1) [OF assms(5)] s2(4) s1(6) unfolding sees_def by auto
    qed
    then have "snapshot (x_recs s2) t2 (tx_rv y) (ch ?k) (en ?k) = snapshot (x_recs s) t (tx_rv x) (ch ?k) (en ?k)" by (rule snapshot_cong)
    then show ?thesis using s2(1) read_ok [OF s2(2,3) x(2)] s2(6) s1(7) assms(4) by fastforce
  qed
  then show ?thesis using get0 s1(1) by blast
qed

lemma read_isolated:
  assumes "txn_inv inv abs keys m ch en s" and "running (x_txns s) t x" and "running (x_txns s) t' x'" and "t \<noteq> t'"
    and "k \<in> keys" and "k' \<in> keys" and "user_val v" and "0 < room (x_maps s m)"
    and "(if length (tx_writes x') = tx_writes_size x' then 2 else 1) \<le> length (x_pool s)"
    and "x_version s + 1 \<in> small_keys" and "2 \<le> active_room s" and "24 \<le> length junk"
  shows "\<exists>v0 s0. txn_map_get impl t k s = ret (v0, s0) \<and> (x_freed s0 = x_freed s \<and> 2 \<le> room (x_maps s0 m) \<longrightarrow>
    (\<exists>s1 r s2 s3. txn_map_set impl t' k' v s0 = ret s1 \<and> txn_commit impl junk t' s1 = ret (r, s2) \<and> txn_map_get impl t k s2 = ret (v0, s3)))"
proof -
  obtain v0 s0 where g: "txn_map_get impl t k s = ret (v0, s0)" using read_ok [OF assms(1,2,5,8)] by blast
  have "\<exists>s1 r s2 s3. txn_map_set impl t' k' v s0 = ret s1 \<and> txn_commit impl junk t' s1 = ret (r, s2) \<and> txn_map_get impl t k s2 = ret (v0, s3)"
    if f: "x_freed s0 = x_freed s" "2 \<le> room (x_maps s0 m)"
  proof -
    obtain ch' en' where r: "txn_inv inv abs keys m ch' en' s0" "snapshot (x_recs s0) t (tx_rv x) (ch' k) (en' k) = v0" "x_txns s0 = x_txns s"
      "x_version s0 = x_version s" "x_pool s0 = x_pool s" "active_room s0 = active_room s"
      using read_keeps [OF assms(1,2,5,8) g f(1)] by blast
    have run: "running (x_txns s0) t x" "running (x_txns s0) t' x'" using assms(2,3) r(3) by simp_all
    have room: "0 < room (x_maps s0 m)" using f(2) by simp
    obtain s4 where "txn_map_get impl t k s0 = ret (v0, s4)" using read_ok [OF r(1) run(1) assms(5) room] r(2) by auto
    then show ?thesis using isolated [OF r(1) run assms(4-7) f(2), of junk] assms(9-12) r(4-6) by auto
  qed
  then show ?thesis using g by blast
qed

text \<open>The last write of a transaction, its commit, and a read by the next transaction.\<close>

lemma write_published:
  assumes "txn_inv inv abs keys m ch en s" and "running (x_txns s) t x" and "k \<in> keys" and "user_val v" and "2 \<le> room (x_maps s m)"
    and "x_version s + 1 \<in> small_keys" and "4 \<le> active_room s" and "active_count s (x_version s + 1) = None" and "4 \<le> length (x_pool s)" and "24 \<le> length junk"
  shows "\<exists>s1 r s2. txn_map_set impl t k v s = ret s1 \<and> txn_commit impl junk t s1 = ret (r, s2) \<and>
    (r = TXN_VALIDATED \<longrightarrow> (\<exists>t2 s3. txn_begin junk m s2 = ret (t2, s3) \<and> (\<exists>s4. txn_map_get impl t2 k s3 = ret (v, s4)) \<and>
      (\<forall>w \<in> set (tx_writes x). \<exists>v0 s0 s4. txn_map_get impl t (w_key w) s1 = ret (v0, s0) \<and> txn_map_get impl t2 (w_key w) s3 = ret (v0, s4))))"
proof -
  have room: "0 < room (x_maps s m)" and p: "(if length (tx_writes x) = tx_writes_size x then 2 else 1) \<le> length (x_pool s)" using assms(5,9) by auto
  from txn_map_set_ok [OF assms(1-4) room p] obtain s1 a y where
    s1: "txn_map_set impl t k v s = ret s1" "txn_inv inv abs keys m (ch(k := a # ch k)) en s1"
    "x_recs s1 = (x_recs s)(a \<mapsto> \<lparr>u_version = txn_ref t, u_value = v, u_next = found_val (abs (x_maps s m) k)\<rparr>)"
    "x_txns s1 = (x_txns s)(t \<mapsto> y)" "tx_writes y = tx_writes x @ [\<lparr>w_key = k, w_rec = a\<rparr>]" "tx_state y = TXN_RUNNING"
    "x_version s1 = x_version s" "room (x_maps s m) \<le> room (x_maps s1 m) + 1" "active_count s1 = active_count s" "active_room s1 = active_room s"
    "length (x_pool s) \<le> length (x_pool s1) + 2"
    by (auto split: if_splits)
  have run: "running (x_txns s1) t y" using s1(4,6) by (simp add: running_def)
  have g: "0 < room (x_maps s1 m)" "x_version s1 + 1 \<in> small_keys" "4 \<le> active_room s1" "active_count s1 (x_version s1 + 1) = None" "2 \<le> length (x_pool s1)"
    using assms(5-9) s1(7-11) by simp_all
  have pub: "\<exists>v0 s0 r s2. txn_map_get impl t (w_key w) s1 = ret (v0, s0) \<and> txn_commit impl junk t s1 = ret (r, s2) \<and>
    (r = TXN_VALIDATED \<longrightarrow> (\<exists>t2 s3 s4. txn_begin junk m s2 = ret (t2, s3) \<and> txn_map_get impl t2 (w_key w) s3 = ret (v0, s4)))" if "w \<in> set (tx_writes y)" for w
    using published [OF s1(2) run that g assms(10)] by blast
  obtain s0 where own: "txn_map_get impl t k s1 = ret (v, s0)"
    using read_ok [OF s1(2) run assms(3) g(1)] s1(3) by (auto simp: snapshot_def visible_def sees_def u_ver_def u_val_def)
  have last: "\<lparr>w_key = k, w_rec = a\<rparr> \<in> set (tx_writes y)" using s1(5) by simp
  obtain r s2 where c: "txn_commit impl junk t s1 = ret (r, s2)" using pub [OF last] by blast
  have "\<exists>t2 s3. txn_begin junk m s2 = ret (t2, s3) \<and> (\<exists>s4. txn_map_get impl t2 k s3 = ret (v, s4)) \<and>
      (\<forall>w \<in> set (tx_writes x). \<exists>v0 s0 s4. txn_map_get impl t (w_key w) s1 = ret (v0, s0) \<and> txn_map_get impl t2 (w_key w) s3 = ret (v0, s4))"
    if ok: "r = TXN_VALIDATED"
  proof -
    obtain t2 s3 s4 where b: "txn_begin junk m s2 = ret (t2, s3)" "txn_map_get impl t2 k s3 = ret (v, s4)" using pub [OF last] c ok own by auto
    have "\<exists>v0 s0 s4. txn_map_get impl t (w_key w) s1 = ret (v0, s0) \<and> txn_map_get impl t2 (w_key w) s3 = ret (v0, s4)" if "w \<in> set (tx_writes x)" for w
      using pub [of w] that s1(5) c ok b(1) by auto
    then show ?thesis using b by blast
  qed
  then show ?thesis using s1(1) c by blast
qed

end

context txn_store
begin

text \<open>A read that frees updates leaves a reference to the first of them behind.\<close>

lemma freed_again:
  assumes "txn_inv inv abs keys m ch en s" and "running (x_txns s) t x" and "k \<in> keys" and "0 < room (x_maps s m)"
    and "visible (x_recs s) t (tx_rv x) (ch k) = a # n # ns" and "active_min s = ret oldest" and "u_ver (x_recs s) n < oldest" and "en k \<noteq> 0 \<or> ns \<noteq> []"
  shows "\<exists>s1. txn_map_get impl t k s = ret (u_val (x_recs s) a, s1) \<and> n \<in> set (x_freed s1) \<and> txn_map_get impl t k s1 = fail Null_Deref"
proof -
  note I = txn_invD [OF assms(1)]
  note C = chains_okD [OF I(5) assms(3)]
  have x: "x_txns s t = Some x" "tx_state x = TXN_RUNNING" "tx_map x = m" "heap_addr t" using assms(2) I(8) by (auto simp: txns_ok_def running_def)
  define fr where "fr = collected (x_recs s) oldest (en k) (a # n # ns)"
  have fr: "n \<in> set fr" "set fr \<subseteq> set (n # ns)" using assms(7,8) by (auto simp: fr_def collected_def dest: in_set_butlastD)
  obtain s1 where s1: "txn_map_get impl t k s = ret (u_val (x_recs s) a, s1)" "x_recs s1 = x_recs s |` (- set fr)" "x_freed s1 = x_freed s @ fr"
    "x_txns s1 = x_txns s" "x_active s1 = x_active s" "inv (x_maps s1 m)" "\<forall>k' \<in> keys. abs (x_maps s1 m) k' = abs (x_maps s m) k'"
    using txn_map_get_ok [OF assms(1-4) assms(5) [symmetric]] assms(5,6) by (auto simp: snapshot_def fr_def merges_def)
  obtain bs where bs: "ch k = bs @ a # n # ns" "\<And>b. b \<in> set bs \<Longrightarrow> \<not> sees (x_recs s) t (tx_rv x) b" "sees (x_recs s) t (tx_rv x) a"
    using visible_split [of "ch k" "x_recs s" t "tx_rv x"] assms(5) by metis
  have keep: "x_recs s1 b = x_recs s b" if "b \<in> set (bs @ [a])" for b
    using that C(4) fr(2) bs(1) by (auto simp: s1(2) restrict_map_def)
  obtain u where u: "x_recs s a = Some u" "heap_addr a" using C(5) [of a] bs(1) by auto
  have c: "chain (x_recs s) (found_val (abs (x_maps s m) k)) bs (upd_ref a)" "u_next u = upd_ref n" "heap_addr n"
    using C(2) u(1) by (auto simp: bs(1) chain_append)
  obtain s2 where s2: "txn_get_map impl m k s1 = ret (found_val (abs (x_maps s m) k), s2)" "reads inv abs room keys m s1 s2"
    using txn_get_map_ok [OF s1(6) assms(3)] s1(7) assms(3) by auto
  note R = reads_sel [OF s2(2)]
  have sv: "settled_ver (x_txns s2) t (u_ver (x_recs s2) b) \<and> sees (x_recs s2) t (tx_rv x) b = sees (x_recs s) t (tx_rv x) b" if b: "b \<in> set (bs @ [a])" for b
    using settled_version [OF I(8) I(6) [OF assms(3), of b]] b bs(1) keep [OF b] R(1,2) s1(4) by (auto simp: u_ver_def sees_def)
  have "txn_find impl t (found_val (abs (x_maps s m) k)) s2 = txn_find impl t (upd_ref a) s2"
  proof (rule txn_find_prefix [OF _ x(4)])
    show "chain (x_recs s2) (found_val (abs (x_maps s m) k)) bs (upd_ref a)"
      using c(1) keep chain_cong [of bs "x_recs s2" "x_recs s"] R(1) by simp
  qed (use sv bs(2) R(2) s1(4) x(1) in auto)
  also have "\<dots> = ret (Found_Update (upd_ref a), s2)"
    using txn_find_step [of s2 a u t x impl] u keep [of a] R(1,2) s1(4) x sv [of a] bs(3) by (auto simp: u_ver_def)
  finally have f: "txn_find impl t (found_val (abs (x_maps s m) k)) s2 = ret (Found_Update (upd_ref a), s2)" .
  have "active_min s2 = ret oldest" using assms(6) R(5) s1(5) by (simp add: active_min_def)
  moreover have "x_recs s2 n = None" using fr(1) R(1) s1(2) by (simp add: restrict_map_def)
  ultimately have "txn_collect impl m k (found_val (abs (x_maps s m) k)) (upd_ref a) u s2 = fail Null_Deref"
    using c(2,3) by (simp add: txn_collect_def get_simps Let_def)
  then have "txn_map_get impl t k s1 = fail Null_Deref"
    using s1(4) x s2(1) f u keep [of a] R(1) by (simp add: txn_map_get_def get_simps)
  then show ?thesis using s1(1,3) fr(1) by auto
qed

end

text \<open>Three transactions that begin at the same version.\<close>

lemma three_begin:
  assumes "txn_inv mi ma keys m ch en s" and "6 \<le> length (x_pool s)" and "6 \<le> active_room s" and "active_count s = (\<lambda>_. None)" and "24 \<le> length junk"
  shows "\<exists>t1 t2 t3 s1 s2 s3 x1 x2. txn_begin junk m s = ret (t1, s1) \<and> txn_begin junk m s1 = ret (t2, s2) \<and> txn_begin junk m s2 = ret (t3, s3) \<and>
    t1 \<noteq> t2 \<and> t1 \<noteq> t3 \<and> t2 \<noteq> t3 \<and> txn_inv mi ma keys m ch en s3 \<and> running (x_txns s3) t1 x1 \<and> running (x_txns s3) t2 x2 \<and>
    tx_rv x1 = x_version s \<and> tx_writes x1 = [] \<and> tx_writes_size x1 = 4 \<and> tx_rv x2 = x_version s \<and>
    x_version s3 = x_version s \<and> x_recs s3 = x_recs s \<and> x_maps s3 = x_maps s \<and> length (x_pool s) = length (x_pool s3) + 6 \<and>
    active_room s \<le> active_room s3 + 6 \<and> active_count s3 = [x_version s \<mapsto> 3]"
proof -
  obtain t1 w1 t2 w2 t3 w3 p where p: "x_pool s = t1 # w1 # t2 # w2 # t3 # w3 # p"
    using assms(2) by (auto simp: numeral_eq_Suc Suc_le_length_iff)
  have d: "t1 \<noteq> t2" "t1 \<noteq> t3" "t2 \<noteq> t3" using txn_invD(9) [OF assms(1)] p by auto
  obtain s1 x1 where s1: "txn_begin junk m s = ret (t1, s1)" "txn_inv mi ma keys m ch en s1" "x_txns s1 = (x_txns s)(t1 \<mapsto> x1)" "tx_state x1 = TXN_RUNNING"
    "tx_rv x1 = x_version s" "tx_writes x1 = []" "tx_writes_size x1 = 4" "x_version s1 = x_version s" "x_recs s1 = x_recs s" "x_maps s1 = x_maps s"
    "x_pool s1 = t2 # w2 # t3 # w3 # p" "active_room s \<le> active_room s1 + 2" "active_count s1 = [x_version s \<mapsto> 1]"
    using txn_begin_ok [OF assms(1) p _ assms(5) _ refl] assms(3,4) by (force simp: running_def INITIAL_WRITES_SIZE_def)
  obtain s2 x2 where s2: "txn_begin junk m s1 = ret (t2, s2)" "txn_inv mi ma keys m ch en s2" "x_txns s2 = (x_txns s1)(t2 \<mapsto> x2)" "tx_state x2 = TXN_RUNNING"
    "tx_rv x2 = x_version s" "x_version s2 = x_version s" "x_recs s2 = x_recs s" "x_maps s2 = x_maps s"
    "x_pool s2 = t3 # w3 # p" "active_room s1 \<le> active_room s2 + 2" "active_count s2 = [x_version s \<mapsto> 2]"
    using txn_begin_ok [OF s1(2,11) _ assms(5) _ refl] assms(3) s1(8-10,12,13) by (force simp: running_def)
  obtain s3 x3 where s3: "txn_begin junk m s2 = ret (t3, s3)" "txn_inv mi ma keys m ch en s3" "x_txns s3 = (x_txns s2)(t3 \<mapsto> x3)"
    "x_version s3 = x_version s" "x_recs s3 = x_recs s" "x_maps s3 = x_maps s" "x_pool s3 = p" "active_room s2 \<le> active_room s3 + 2" "active_count s3 = [x_version s \<mapsto> 3]"
    using txn_begin_ok [OF s2(2,9) _ assms(5) _ refl] assms(3) s1(12) s2(6-8,10,11) by (force simp: running_def)
  have "running (x_txns s3) t1 x1" "running (x_txns s3) t2 x2" using s1(3,4) s2(3,4) s3(3) d by (simp_all add: running_def)
  moreover have "length (x_pool s) = length (x_pool s3) + 6" "active_room s \<le> active_room s3 + 6" using p s1(12) s2(10) s3(7,8) by simp_all
  ultimately show ?thesis using s1(1,5-7) s2(1,5) s3(1,2,4-6,9) d by blast
qed

context txn_store
begin

lemma read_literal:
  assumes "inv (x_maps s m)" and "k \<in> keys" and "running (x_txns s) t x" and "tx_map x = m" and "abs (x_maps s m) k = Some v" and "user_val v"
  shows "\<exists>s'. txn_map_get impl t k s = ret (v, s')"
proof -
  obtain s1 where s1: "txn_get_map impl m k s = ret (v, s1)" using txn_get_map_ok [OF assms(1,2)] assms(5) by auto
  have "txn_find impl t v s1 = ret (Found_Literal v, s1)" using user_valD(1,4) [OF assms(6)] by (subst txn_find.simps) simp
  then show ?thesis using s1 assms(3,4) by (simp add: txn_map_get_def get_simps running_def)
qed

text \<open>A transaction that begins when no other is counted as active, and reads a key whose only update was
  committed last, puts the value into the map.\<close>

lemma begin_and_merge:
  assumes "txn_inv inv abs keys m ch en s" and "k \<in> keys" and "ch k = [a]" and "u_ver (x_recs s) a = x_version s" and "active_count s = (\<lambda>_. None)"
    and "2 \<le> length (x_pool s)" and "2 \<le> active_room s" and "0 < room (x_maps s m)" and "24 \<le> length junk"
  shows "\<exists>t' s1 s2. txn_begin junk m s = ret (t', s1) \<and> txn_map_get impl t' k s1 = ret (u_val (x_recs s) a, s2) \<and> inv (x_maps s2 m) \<and>
    abs (x_maps s2 m) k = Some (u_val (x_recs s) a) \<and> (\<forall>t x. running (x_txns s) t x \<longrightarrow> running (x_txns s2) t x)"
proof -
  note I = txn_invD [OF assms(1)]
  obtain t' w p where p: "x_pool s = t' # w # p" using assms(6) by (metis Suc_le_length_iff numeral_2_eq_2)
  from txn_begin_ok [OF assms(1) p assms(7,9) _ refl] assms(5) obtain s1 z where
    s1: "txn_begin junk m s = ret (t', s1)" "txn_inv inv abs keys m ch en s1" "x_txns s1 = (x_txns s)(t' \<mapsto> z)" "tx_state z = TXN_RUNNING" "tx_rv z = x_version s"
    "x_recs s1 = x_recs s" "x_maps s1 = x_maps s" "active_count s1 = [x_version s \<mapsto> 1]"
    by force
  have run: "running (x_txns s1) t' z" using s1(3,4) by (simp add: running_def)
  have vis: "visible (x_recs s1) t' (tx_rv z) (ch k) = [a]"
    using assms(3,4) s1(5,6) small_committed(1) [OF I(4)] by (simp add: visible_def sees_def)
  have sn: "snapshot (x_recs s1) t' (tx_rv z) (ch k) (en k) = u_val (x_recs s) a" using vis s1(6) by (simp add: snapshot_def)
  have "0 < room (x_maps s1 m)" using s1(7) assms(8) by simp
  from txn_map_get_ok [OF s1(2) run assms(2) this vis [symmetric]] obtain s2 oldest where
    s2: "txn_map_get impl t' k s1 = ret (u_val (x_recs s) a, s2)" "active_min s1 = ret oldest" "x_txns s2 = x_txns s1" "inv (x_maps s2 m)"
    "\<forall>k' \<in> keys. abs (x_maps s2 m) k' = (if merges (x_recs s1) oldest (ch k) [a] \<and> k' = k then Some (u_val (x_recs s) a) else abs (x_maps s1 m) k')"
    unfolding sn by blast
  have "oldest = x_version s"
    using active_min_ok [OF txn_invD(2) [OF s1(2)]] txn_invD(3) [OF s1(2), of t'] run s1(8) s2(2)
    by (auto simp: running_def fun_eq_iff split: if_splits)
  then have "abs (x_maps s2 m) k = Some (u_val (x_recs s) a)" using s2(5) assms(2-4) s1(6) by (simp add: merges_def)
  moreover have "running (x_txns s2) t x" if "running (x_txns s) t x" for t x
    using that s1(3) s2(3) I(10) [of t'] p by (auto simp: running_def)
  ultimately show ?thesis using s1(1) s2(1,4) by blast
qed

text \<open>The first of three transactions that began at one version writes a key that was unbound and commits;
  a later one reads the key.\<close>

lemma snapshot_lost:
  assumes "txn_inv inv abs keys m ch en s" and "9 \<le> length (x_pool s)" and "10 \<le> active_room s" and "active_count s = (\<lambda>_. None)"
    and "x_version s + 1 \<in> small_keys" and "24 \<le> length junk" and "k \<in> keys" and "ch k = []" and "en k = 0" and "user_val v" and "2 \<le> room (x_maps s m)"
  shows "\<exists>t1 t2 t3 t4 s1 s2 s3 s4 s5 s6 s7 s8. txn_begin junk m s = ret (t1, s1) \<and> txn_begin junk m s1 = ret (t2, s2) \<and> txn_begin junk m s2 = ret (t3, s3) \<and>
    (\<exists>s'. txn_map_get impl t2 k s3 = ret (DOES_NOT_EXIST, s')) \<and>
    txn_map_set impl t1 k v s3 = ret s4 \<and> txn_commit impl junk t1 s4 = ret (TXN_VALIDATED, s5) \<and> active_count s5 = (\<lambda>_. None) \<and>
    txn_begin junk m s5 = ret (t4, s6) \<and> txn_map_get impl t4 k s6 = ret (v, s7) \<and> txn_map_get impl t2 k s7 = ret (v, s8)"
proof -
  let ?now = "x_version s"
  have "6 \<le> length (x_pool s)" "6 \<le> active_room s" using assms(2,3) by simp_all
  from three_begin [OF assms(1) this assms(4,6)] obtain t1 t2 t3 s1 s2 s3 x1 x2 where
    b: "txn_begin junk m s = ret (t1, s1)" "txn_begin junk m s1 = ret (t2, s2)" "txn_begin junk m s2 = ret (t3, s3)"
    "t1 \<noteq> t2" "txn_inv inv abs keys m ch en s3" "running (x_txns s3) t1 x1" "running (x_txns s3) t2 x2" "tx_rv x1 = ?now" "tx_writes x1 = []" "tx_writes_size x1 = 4"
    "x_version s3 = ?now" "x_maps s3 = x_maps s" "length (x_pool s) = length (x_pool s3) + 6" "active_room s \<le> active_room s3 + 6" "active_count s3 = [?now \<mapsto> 3]"
    by blast
  note I3 = txn_invD [OF b(5)]
  have x2: "tx_map x2 = m" using I3(8) b(7) by (auto simp: txns_ok_def)
  have g2: "\<exists>s'. txn_map_get impl t2 k s3 = ret (DOES_NOT_EXIST, s')"
    using read_ok [OF b(5,7) assms(7)] assms(8,9,11) b(12) by (simp add: snapshot_def visible_def DOES_NOT_EXIST_def)
  have "0 < room (x_maps s3 m)" "(if length (tx_writes x1) = tx_writes_size x1 then 2 else 1) \<le> length (x_pool s3)" using assms(2,11) b(9,10,12,13) by auto
  from txn_map_set_ok [OF b(5,6) assms(7,10) this] obtain s4 a y where
    s4: "txn_map_set impl t1 k v s3 = ret s4" "a \<in> set (x_pool s3)" "txn_inv inv abs keys m (ch(k := a # ch k)) en s4"
    "x_recs s4 = (x_recs s3)(a \<mapsto> \<lparr>u_version = txn_ref t1, u_value = v, u_next = found_val (abs (x_maps s3 m) k)\<rparr>)"
    "x_txns s4 = (x_txns s3)(t1 \<mapsto> y)" "tx_writes y = tx_writes x1 @ [\<lparr>w_key = k, w_rec = a\<rparr>]" "tx_rv y = tx_rv x1" "tx_state y = TXN_RUNNING" "x_version s4 = x_version s3"
    "room (x_maps s3 m) \<le> room (x_maps s4 m) + 1" "active_count s4 = active_count s3" "active_room s4 = active_room s3"
    "length (x_pool s3) = length (x_pool s4) + (if length (tx_writes x1) = tx_writes_size x1 then 2 else 1)"
    by blast
  let ?ch = "ch(k := a # ch k)"
  have r4: "running (x_txns s4) t1 y" using s4(5,8) by (simp add: running_def)
  have nc: "no_conflict (x_recs s4) (tx_rv y) (?ch k)" using s4(4) assms(8) by (simp add: no_conflict_def u_ver_def)
  have "x_version s4 + 1 \<in> small_keys" "2 \<le> active_room s4" using assms(3,5) b(11,14) s4(9,12) by simp_all
  from txn_commit_ok [OF s4(3) r4 this assms(6)] obtain s5 where
    s5: "txn_commit impl junk t1 s4 = ret (TXN_VALIDATED, s5)" "txn_inv inv abs keys m ?ch en s5"
    "x_recs s5 = stamp (?now + 1) {a} (x_recs s4)" "x_txns s5 = (x_txns s4)(t1 \<mapsto> y\<lparr>tx_wv := ?now + 1, tx_state := TXN_VALIDATED\<rparr>)"
    "x_version s5 = ?now + 1" "room (x_maps s4 m) \<le> room (x_maps s5 m)" "active_count s5 = (active_count s4)(tx_rv y := lowered (active_count s4 (tx_rv y)))"
    "active_room s4 \<le> active_room s5 + 2" "x_pool s5 = x_pool s4"
    using nc s4(6,9) b(9,11) by auto
  have c5: "active_count s5 = (\<lambda>_. None)" using s5(7) s4(7,11) b(8,15) by (simp add: lowered_def)
  have "2 \<le> length (x_pool s5)" "2 \<le> active_room s5" "0 < room (x_maps s5 m)"
    using s5(6,8,9) s4(10,12,13) b(9,10,12-14) assms(2,3,11) by simp_all
  moreover have "u_ver (x_recs s5) a = x_version s5" "u_val (x_recs s5) a = v" "?ch k = [a]"
    using s5(3,5) s4(4) assms(8) by (simp_all add: u_ver_def u_val_def stamp_def)
  ultimately obtain t4 s6 s7 where s6: "txn_begin junk m s5 = ret (t4, s6)" "txn_map_get impl t4 k s6 = ret (v, s7)" "inv (x_maps s7 m)"
    "abs (x_maps s7 m) k = Some v" "\<And>t x. running (x_txns s5) t x \<Longrightarrow> running (x_txns s7) t x"
    using begin_and_merge [OF s5(2) assms(7) _ _ c5 _ _ _ assms(6)] by metis
  have "running (x_txns s5) t2 x2" using s5(4) s4(5) b(4,7) by (simp add: running_def)
  then have "\<exists>s9. txn_map_get impl t2 k s7 = ret (v, s9)"
    using read_literal [OF s6(3) assms(7) s6(5) x2 s6(4) assms(10)] by blast
  then show ?thesis using b(1-3) g2 s4(1) s5(1) c5 s6(1,2) by blast
qed

end

section \<open>Transactions over a hash table\<close>

lemma ht_vals_small: "0 < v \<Longrightarrow> v < 0x7FFFFFFFFFFFFFFF \<Longrightarrow> v \<in> ht_vals \<and> v \<noteq> TOMBSTONE"
proof -
  assume v: "0 < v" "v < 0x7FFFFFFFFFFFFFFF"
  have "v < 0x8000000000000000" by (rule less_trans [OF v(2)]) simp
  then have "committed v" by (simp add: committed_less)
  moreover have "TOMBSTONE = 0x7FFFFFFFFFFFFFFF" by (simp add: TOMBSTONE_def STRIP_TAG_def TAG1_val)
  ultimately show ?thesis using v by (auto simp: ht_vals_def tagged_def committed_def DOES_NOT_EXIST_def)
qed

lemma upd_ref_small: "heap_addr a \<Longrightarrow> upd_ref a < 0x7FFFFFFFFFFFFFFF"
proof -
  assume a: "heap_addr a"
  have "committed (upd_ref a)" by (simp add: committed_def)
  then have "upd_ref a \<le> 0x7FFFFFFFFFFFFFFF" unfolding committed_less word_less_nat_alt word_le_nat_alt by simp
  moreover have "VAL_TO_PTR 0x7FFFFFFFFFFFFFFF = 0xFFFFFFFFFFFFFFFC" by code_simp
  then have "a = 0xFFFFFFFFFFFFFFFC" if "upd_ref a = 0x7FFFFFFFFFFFFFFF" using ref_ptr(1) [OF a] that by simp
  then have "upd_ref a \<noteq> 0x7FFFFFFFFFFFFFFF" using a by (auto simp: heap_addr_def)
  ultimately show ?thesis by simp
qed

interpretation hts: txn_store ht_impl ht_stable ht_abs ht_room "{k. k \<noteq> 0}" ht_vals "{e. e \<noteq> TOMBSTONE}" "(=)"
proof unfold_locales
  fix a assume "heap_addr a"
  moreover have "0 < upd_ref a" by (simp add: word_neq_0_conv [symmetric])
  ultimately show "upd_ref a \<in> ht_vals \<and> upd_ref a \<in> {e. e \<noteq> TOMBSTONE}" using ht_vals_small [OF _ upd_ref_small] by simp
next
  fix v assume "user_val v"
  then have "0 < v" "v < 0x4000000000000000" by (simp_all add: user_val_def)
  moreover from this(2) have "v < 0x7FFFFFFFFFFFFFFF" by (rule less_trans) simp
  ultimately show "v \<in> ht_vals \<and> v \<in> {e. e \<noteq> TOMBSTONE}" using ht_vals_small [of v] by simp
qed simp

abbreviation ht_txn_inv :: "nat \<Rightarrow> (map_key_t \<Rightarrow> addr list) \<Rightarrow> (map_key_t \<Rightarrow> map_val_t) \<Rightarrow> hashtable_t txn_sys \<Rightarrow> bool" where
  "ht_txn_inv m ch en s \<equiv> txn_inv ht_stable ht_abs {k. k \<noteq> 0} m ch en s"

text \<open>States for the witnesses: no transaction has begun; and a key with three committed updates.\<close>

definition txn_start :: "hashtable_t txn_sys" where
  "txn_start = \<lparr>x_recs = (\<lambda>_. None), x_txns = (\<lambda>_. None), x_maps = (\<lambda>_. ht_new), x_active = None, x_version = 1,
    x_pool = [64, 80, 96, 112, 128, 144, 160, 176, 192], x_sl_pool = [16, 32, 48, 64, 80, 96, 112, 128, 144, 160, 176],
    x_sl_rnd = \<lparr>rnd_x = 1, rnd_y = 0, rnd_z = 0, rnd_c = 0\<rparr>, x_freed = [], x_deferred = []\<rparr>"

lemma rand_room_plain: "rand_room (Suc n) \<lparr>rnd_x = x, rnd_y = 0, rnd_z = 0, rnd_c = 0\<rparr> =
    (if 69069 * x + 12345 = 0 then 0 else Suc (rand_room n \<lparr>rnd_x = 69069 * x + 12345, rnd_y = 0, rnd_z = 0, rnd_c = 0\<rparr>))"
proof -
  have "ucast (ucast w :: uint64_t) = w" for w :: uint32_t by (intro bit_word_eqI) (simp add: bit_simps)
  then show ?thesis by (simp add: rand_ok_def nbd_rand_def Let_def)
qed

lemma rand_room_10: "rand_room 10 \<lparr>rnd_x = 1, rnd_y = 0, rnd_z = 0, rnd_c = 0\<rparr> = 10"
proof -
  have "rand_room (Suc (Suc (Suc (Suc (Suc (Suc (Suc (Suc (Suc (Suc 0)))))))))) \<lparr>rnd_x = 1, rnd_y = 0, rnd_z = 0, rnd_c = 0\<rparr> = 10"
    unfolding rand_room_plain by simp
  then show ?thesis by (simp only: eval_nat_numeral BitM.simps One_nat_def)
qed

lemma txn_start_ok: "ht_txn_inv m (\<lambda>_. []) (\<lambda>_. 0) txn_start" "active_count txn_start = (\<lambda>_. None)" "active_room txn_start = 10"
  "ht_room (x_maps txn_start m) = 2" "x_version txn_start = 1" "x_version txn_start + 1 \<in> small_keys"
proof -
  show "active_count txn_start = (\<lambda>_. None)" by (simp add: txn_start_def active_count_def fun_eq_iff)
  have "x_active txn_start = None" "length (x_sl_pool txn_start) - 1 = 10" "x_sl_rnd txn_start = \<lparr>rnd_x = 1, rnd_y = 0, rnd_z = 0, rnd_c = 0\<rparr>" by (simp_all add: txn_start_def)
  then show "active_room txn_start = 10" using rand_room_10 by (simp only: active_room_def option.case)
  show "ht_room (x_maps txn_start m) = 2" using ht_new_ok(5) by (simp add: txn_start_def ht_room_def)
  show "x_version txn_start = 1" "x_version txn_start + 1 \<in> small_keys" by (simp_all add: txn_start_def small_keys_def)
  have "active_ok txn_start"
    by (simp add: active_ok_def txn_start_def sl_pool_ok_def HAS_MARK_def IS_TAGGED_def)
  moreover have "chains_ok (ht_abs ht_new) (\<lambda>_. None) {k. k \<noteq> 0} (\<lambda>_. []) (\<lambda>_. 0)"
    using ht_new_ok(4) by (simp add: chains_ok_def chain_end_def DOES_NOT_EXIST_def)
  moreover have "\<forall>a \<in> set (x_pool txn_start). heap_addr a" by (simp add: txn_start_def heap_addr_def)
  ultimately show "ht_txn_inv m (\<lambda>_. []) (\<lambda>_. 0) txn_start"
    using ht_new_ok(2,3) by (simp add: txn_inv_def txn_start_def txns_ok_def running_def small_keys_def)
qed

definition stack_junk :: "addr list" where "stack_junk = replicate 24 0"

definition txn_one :: "hashtable_t txn_sys" where
  "txn_one = (case txn_begin stack_junk 0 txn_start of Some (Inr (_, s)) \<Rightarrow> s | _ \<Rightarrow> undefined)"

definition txn_64 :: txn_rec where
  "txn_64 = \<lparr>tx_rv = 1, tx_wv = UNDETERMINED_VERSION, tx_map = 0, tx_writes_at = 80, tx_writes = [], tx_writes_size = 4, tx_state = TXN_RUNNING\<rparr>"

lemma stack_junk_size: "24 \<le> length stack_junk"
  by (simp add: stack_junk_def)

lemma txn_one_ok: "txn_begin stack_junk 0 txn_start = ret (64, txn_one)" "ht_txn_inv 0 (\<lambda>_. []) (\<lambda>_. 0) txn_one" "running (x_txns txn_one) 64 txn_64"
  "x_version txn_one = 1" "x_pool txn_one = [96, 112, 128, 144, 160, 176, 192]" "8 \<le> active_room txn_one" "active_count txn_one = [1 \<mapsto> 1]"
  "ht_room (x_maps txn_one 0) = 2" "x_version txn_one + 1 \<in> small_keys" "x_txns txn_one = [64 \<mapsto> txn_64]"
proof -
  have "x_pool txn_start = 64 # 80 # [96, 112, 128, 144, 160, 176, 192]" "2 \<le> active_room txn_start" using txn_start_ok(3) by (simp_all add: txn_start_def)
  from txn_begin_ok [OF txn_start_ok(1) this stack_junk_size _ refl, of 0] obtain s where
    s: "txn_begin stack_junk 0 txn_start = ret (64, s)" "ht_txn_inv 0 (\<lambda>_. []) (\<lambda>_. 0) s" "x_txns s = (x_txns txn_start)(64 \<mapsto> txn_64)"
    "x_version s = 1" "x_maps s = x_maps txn_start" "x_pool s = [96, 112, 128, 144, 160, 176, 192]" "active_room txn_start \<le> active_room s + 2" "active_count s = [1 \<mapsto> 1]"
    using txn_start_ok(2,5) by (auto simp: txn_64_def INITIAL_WRITES_SIZE_def)
  then have one: "txn_one = s" by (simp add: txn_one_def ret_def)
  have x: "x_txns s = [64 \<mapsto> txn_64]" using s(3) by (simp add: txn_start_def)
  show "txn_begin stack_junk 0 txn_start = ret (64, txn_one)" "ht_txn_inv 0 (\<lambda>_. []) (\<lambda>_. 0) txn_one" "x_version txn_one = 1"
    "x_pool txn_one = [96, 112, 128, 144, 160, 176, 192]" "active_count txn_one = [1 \<mapsto> 1]"
    using s one by simp_all
  show "8 \<le> active_room txn_one" "ht_room (x_maps txn_one 0) = 2" using s(5,7) txn_start_ok(3,4) one by simp_all
  show "running (x_txns txn_one) 64 txn_64" "x_txns txn_one = [64 \<mapsto> txn_64]" using x one by (simp_all add: running_def txn_64_def)
  show "x_version txn_one + 1 \<in> small_keys" using s(4) one by (simp add: small_keys_def)
qed

definition updates_three :: "addr \<Rightarrow> update_rec option" where
  "updates_three = [208 \<mapsto> \<lparr>u_version = 3, u_value = 7, u_next = upd_ref 224\<rparr>, 224 \<mapsto> \<lparr>u_version = 2, u_value = 6, u_next = upd_ref 240\<rparr>,
    240 \<mapsto> \<lparr>u_version = 1, u_value = 5, u_next = 0\<rparr>]"

lemma updates_three_ok:
  assumes "M 1 = Some (upd_ref 208)" and "\<And>k. k \<noteq> 0 \<Longrightarrow> k \<noteq> 1 \<Longrightarrow> M k = None"
  shows "chains_ok M updates_three {k. k \<noteq> 0} ((\<lambda>_. [])(1 := [208, 224, 240])) (\<lambda>_. 0)"
  unfolding chains_ok_def
proof (intro ballI)
  fix k :: map_key_t assume "k \<in> {k. k \<noteq> 0}"
  then show "M k \<noteq> Some 0 \<and> chain updates_three (found_val (M k)) (((\<lambda>_. [])(1 := [208, 224, 240])) k) 0 \<and> chain_end 0 \<and>
    distinct (((\<lambda>_. [])(1 := [208, 224, 240 :: addr])) k) \<and> (\<forall>a \<in> set (((\<lambda>_. [])(1 := [208, 224, 240])) k). user_val (u_val updates_three a)) \<and>
    (\<forall>k' \<in> {k. k \<noteq> 0}. k \<noteq> k' \<longrightarrow> set (((\<lambda>_. [])(1 := [208, 224, 240 :: addr])) k) \<inter> set (((\<lambda>_. [])(1 := [208, 224, 240])) k') = {})"
    using assms by (cases "k = 1") (auto simp: updates_three_def heap_addr_def chain_end_def DOES_NOT_EXIST_def u_val_def user_val_def)
qed

lemma txn_three_updates:
  "\<exists>s. ht_txn_inv 0 ((\<lambda>_. [])(1 := [208, 224, 240])) (\<lambda>_. 0) s \<and> 0 < ht_room (x_maps s 0) \<and> x_recs s = updates_three \<and> x_version s = 3 \<and>
    x_pool s = x_pool txn_start \<and> active_count s = (\<lambda>_. None) \<and> active_room s = 10"
proof -
  have hn: "ht_stable ht_new" "(1 :: map_key_t) \<noteq> 0" "0 < ht_room ht_new" "upd_ref 208 \<in> ht_vals" "CAS_EXPECT_WHATEVER \<noteq> TOMBSTONE"
    using ht_new_ok(2,3,5) hts.ref_ok [of 208] by (simp_all add: ht_room_def heap_addr_def cas_expect_defs TOMBSTONE_def STRIP_TAG_def TAG1_val)
  from ht_cas_contract [OF hn(1,2,4,3,5), of "{k. k \<noteq> 0}"] obtain H where
    H: "ht_stable H" "ht_room ht_new \<le> ht_room H + 1" "\<forall>k \<in> {k. k \<noteq> 0}. ht_abs H k = bind_key (=) 1 (Some (upd_ref 208)) (ht_abs ht_new) k"
    using ht_new_ok(4) by (auto simp: cas_applies_def)
  define s where "s = txn_start\<lparr>x_maps := (\<lambda>_. H), x_version := 3, x_recs := updates_three\<rparr>"
  have act: "active_ok s = active_ok txn_start" "active_count s = active_count txn_start" "active_room s = active_room txn_start"
    by (rule active_frame; simp add: s_def)+
  have "chains_ok (ht_abs H) updates_three {k. k \<noteq> 0} ((\<lambda>_. [])(1 := [208, 224, 240])) (\<lambda>_. 0)"
    by (rule updates_three_ok) (use H(3) ht_new_ok(4) in \<open>auto simp: bind_key_def\<close>)
  moreover have "active_ok s" using act(1) txn_invD(2) [OF txn_start_ok(1) [of 0]] by simp
  moreover have "version_ok (\<lambda>_. None) 3 k a (u_ver updates_three a)" if "a \<in> {208, 224, 240}" for k a
    using that small_committed(1) [of 3] small_committed(1) [of 2] small_committed(1) [of 1]
    by (auto simp: version_ok_def u_ver_def updates_three_def small_keys_def)
  moreover have "sorted_wrt (newer updates_three (\<lambda>_. None)) [208, 224, 240]"
    by (simp add: newer_def u_ver_def updates_three_def running_def)
  moreover have "\<forall>a \<in> set (x_pool s). heap_addr a \<and> updates_three a = None" by (simp add: s_def txn_start_def heap_addr_def updates_three_def)
  ultimately have "ht_txn_inv 0 ((\<lambda>_. [])(1 := [208, 224, 240])) (\<lambda>_. 0) s"
    using H(1) by (auto simp: txn_inv_def s_def txn_start_def txns_ok_def running_def small_keys_def split: if_splits)
  then show ?thesis
    using H(2) ht_new_ok(5) act txn_start_ok(2,3) by (intro exI [of _ s]) (auto simp: s_def ht_room_def)
qed

text \<open>The transaction of \<open>txn_one\<close> has written a key.\<close>

lemma txn_one_set:
  "\<exists>s a x. txn_map_set ht_impl 64 1 5 txn_one = ret s \<and> ht_txn_inv 0 ((\<lambda>_. [])(1 := [a])) (\<lambda>_. 0) s \<and> running (x_txns s) 64 x \<and>
    tx_writes x = [\<lparr>w_key = 1, w_rec = a\<rparr>] \<and> u_ver (x_recs s) a = txn_ref 64 \<and> x_version s = 1 \<and> 2 \<le> active_room s"
proof -
  have h: "(1 :: map_key_t) \<in> {k. k \<noteq> 0}" "user_val 5" "0 < ht_room (x_maps txn_one 0)"
    "(if length (tx_writes txn_64) = tx_writes_size txn_64 then 2 else 1) \<le> length (x_pool txn_one)"
    using txn_one_ok(5,8) by (simp_all add: user_val_def txn_64_def)
  from hts.txn_map_set_ok [OF txn_one_ok(2,3) h] obtain s a x where
    s: "txn_map_set ht_impl 64 1 5 txn_one = ret s" "ht_txn_inv 0 ((\<lambda>_. [])(1 := [a])) (\<lambda>_. 0) s"
    "x_recs s = (x_recs txn_one)(a \<mapsto> \<lparr>u_version = txn_ref 64, u_value = 5, u_next = found_val (ht_abs (x_maps txn_one 0) 1)\<rparr>)"
    "x_txns s = (x_txns txn_one)(64 \<mapsto> x)" "tx_writes x = [\<lparr>w_key = 1, w_rec = a\<rparr>]" "tx_state x = TXN_RUNNING" "x_version s = 1"
    "ht_room (x_maps txn_one 0) \<le> ht_room (x_maps s 0) + 1" "active_count s = [1 \<mapsto> 1]" "8 \<le> active_room s" "length (x_pool txn_one) = length (x_pool s) + 1"
    using txn_one_ok(4,6,7) by (auto simp: txn_64_def)
  then have "running (x_txns s) 64 x" "u_ver (x_recs s) a = txn_ref 64" "2 \<le> active_room s" by (simp_all add: running_def u_ver_def)
  then show ?thesis using s(1,2,5,7) by blast
qed

lemma txn_three_reader:
  "\<exists>s x. ht_txn_inv 0 ((\<lambda>_. [])(1 := [208, 224, 240])) (\<lambda>_. 0) s \<and> running (x_txns s) 64 x \<and> tx_rv x = 3 \<and> x_recs s = updates_three \<and>
    0 < ht_room (x_maps s 0) \<and> x_version s = 3 \<and> active_min s = ret 3"
proof -
  obtain s0 where s0: "ht_txn_inv 0 ((\<lambda>_. [])(1 := [208, 224, 240])) (\<lambda>_. 0) s0" "0 < ht_room (x_maps s0 0)" "x_recs s0 = updates_three" "x_version s0 = 3"
    "x_pool s0 = x_pool txn_start" "active_count s0 = (\<lambda>_. None)" "active_room s0 = 10"
    using txn_three_updates by blast
  have "x_pool s0 = 64 # 80 # [96, 112, 128, 144, 160, 176, 192]" "2 \<le> active_room s0" using s0(5,7) by (simp_all add: txn_start_def)
  from txn_begin_ok [OF s0(1) this stack_junk_size _ refl] obtain s x where
    s: "ht_txn_inv 0 ((\<lambda>_. [])(1 := [208, 224, 240])) (\<lambda>_. 0) s" "x_txns s = (x_txns s0)(64 \<mapsto> x)" "tx_state x = TXN_RUNNING" "tx_rv x = 3"
    "x_recs s = updates_three" "x_maps s = x_maps s0" "active_count s = [3 \<mapsto> 1]" "x_version s = 3"
    using s0(3,4,6) by auto
  have run: "running (x_txns s) 64 x" using s(2,3) by (simp add: running_def)
  have "x_active s \<noteq> None" using txn_invD(3) [OF s(1), of 64] run by (simp add: running_def)
  then have "active_min s = ret 3"
    using active_min_ok [OF txn_invD(2) [OF s(1)]] s(7) by (auto simp: fun_eq_iff split: if_splits)
  then show ?thesis using s(1,4-6,8) run s0(2) by (intro exI [of _ s] exI [of _ x]) simp
qed

section \<open>Properties\<close>

text \<open>C10: the operations that write keep the well-formedness of the transactional state: every key has a
  finite chain of update records in memory, no record in two chains; a record's version is that of a
  commit not after the present version, or the mark of an abort, or a running transaction that has the
  record in its write set; committed versions descend along a chain, and those in front of the update of
  a running transaction are newer than its read version. From such a state, while memory lasts, the
  version number is below its bound and fewer than 2^32 - 1 transactions are counted at it,
  \<^verbatim>\<open>txn_begin\<close>, \<^verbatim>\<open>txn_map_set\<close>, \<^verbatim>\<open>txn_commit\<close> and \<^verbatim>\<open>txn_abort\<close> return and leave such a
  state; an aborted transaction is left out of it, as its memory has been given up.\<close>

theorem txn_ops_keep_invariant:
  assumes "ht_txn_inv m ch en s" and "running (x_txns s) t x" and "k \<noteq> 0" and "user_val v" and "0 < ht_room (x_maps s m)"
    and "2 \<le> length (x_pool s)" and "x_version s + 1 \<in> small_keys" and "2 \<le> active_room s" and "24 \<le> length junk"
    and "\<And>c. active_count s (x_version s) = Some c \<Longrightarrow> 0 < c \<and> c < 0xFFFFFFFF"
  shows "(\<exists>t' s'. txn_begin junk m s = ret (t', s') \<and> ht_txn_inv m ch en s')
    \<and> (\<exists>a s'. txn_map_set ht_impl t k v s = ret s' \<and> ht_txn_inv m (ch(k := a # ch k)) en s')
    \<and> (\<exists>r s'. txn_commit ht_impl junk t s = ret (r, s') \<and> ht_txn_inv m ch en s')
    \<and> (\<exists>s'. txn_abort t s = ret s' \<and> ht_txn_inv m ch en (s'\<lparr>x_txns := (x_txns s)(t := None)\<rparr>))"
proof -
  obtain t' w p where p: "x_pool s = t' # w # p" using assms(6) by (metis Suc_le_length_iff numeral_2_eq_2)
  have k: "k \<in> {k. k \<noteq> 0}" and l: "(if length (tx_writes x) = tx_writes_size x then 2 else 1) \<le> length (x_pool s)" using assms(3,6) by auto
  show ?thesis
    using txn_begin_ok [OF assms(1) p assms(8-10) refl] hts.txn_map_set_ok [OF assms(1,2) k assms(4,5) l]
      hts.txn_commit_ok [OF assms(1,2,7-9)] hts.txn_abort_ok [OF assms(1,2)] by blast
qed

theorem txn_ops_keep_invariant_witness:
  "\<exists>r s'. txn_commit ht_impl stack_junk 64 txn_one = ret (r, s') \<and> ht_txn_inv 0 (\<lambda>_. []) (\<lambda>_. 0) s'"
proof -
  have "0 < c \<and> c < 0xFFFFFFFF" if "active_count txn_one (x_version txn_one) = Some c" for c using that txn_one_ok(4,7) by auto
  moreover have "user_val 5" "(1 :: map_key_t) \<noteq> 0" by (simp_all add: user_val_def)
  ultimately show ?thesis
    using txn_ops_keep_invariant [OF txn_one_ok(2,3) _ _ _ _ txn_one_ok(9) _ stack_junk_size, of 1 5] txn_one_ok(5,6,8) by simp
qed

text \<open>C11: a transaction reads its snapshot. In a well-formed state (\<open>ht_txn_inv\<close>: every key has a chain of update
  records in memory, ordered by commit), while the table can grow, \<^verbatim>\<open>txn_map_get\<close> of a running transaction
  returns the value of the first update in the chain of the key that the transaction made itself or that was
  committed no later than its read version, the value in the map below the chain if there is none, and
  \<^verbatim>\<open>DOES_NOT_EXIST\<close> for an unbound key. It changes no transaction and no version number; records it
  removes from memory are behind the one it returns, and no other key is affected. If it frees no record, the
  state is well formed again, with the same chains, or with the only update of the key moved into the map. If it
  frees one, the state need not be well formed, and the next read of the key can
  follow a freed record.\<close>

theorem txn_map_get_snapshot:
  assumes "ht_txn_inv m ch en s" and "running (x_txns s) t x" and "k \<noteq> 0" and "0 < ht_room (x_maps s m)"
    and "vis = dropWhile (\<lambda>a. \<not> (u_ver (x_recs s) a = txn_ref t \<or> committed (u_ver (x_recs s) a) \<and> u_ver (x_recs s) a \<le> tx_rv x)) (ch k)"
    and "v = (case vis of [] \<Rightarrow> en k | a # _ \<Rightarrow> u_val (x_recs s) a)"
  shows "\<exists>s'. txn_map_get ht_impl t k s = ret (v, s') \<and>
    x_txns s' = x_txns s \<and> x_version s' = x_version s \<and> x_active s' = x_active s \<and>
    (\<forall>a. a \<notin> set (drop 1 vis) \<longrightarrow> x_recs s' a = x_recs s a) \<and> (\<forall>k'. k' \<noteq> 0 \<and> k' \<noteq> k \<longrightarrow> ht_abs (x_maps s' m) k' = ht_abs (x_maps s m) k') \<and>
    (x_freed s' = x_freed s \<longrightarrow> (\<exists>ch' en'. ht_txn_inv m ch' en' s' \<and> (ch' = ch \<and> en' = en \<or> ch' = ch(k := []) \<and> en' = en(k := v))))"
proof -
  have vi: "vis = visible (x_recs s) t (tx_rv x) (ch k)" by (simp add: assms(5) visible_def sees_def)
  have k: "k \<in> {k. k \<noteq> 0}" using assms(3) by simp
  have sn: "snapshot (x_recs s) t (tx_rv x) (ch k) (en k) = v" by (simp add: snapshot_def vi assms(6))
  have "set (collected (x_recs s) oldest (en k) vis) \<subseteq> set (drop 1 vis)" for oldest
    by (auto simp: collected_def split: list.splits if_splits dest: in_set_butlastD)
  then obtain s' where s': "txn_map_get ht_impl t k s = ret (v, s')" "x_txns s' = x_txns s" "x_version s' = x_version s" "x_active s' = x_active s"
    "\<forall>a. a \<notin> set (drop 1 vis) \<longrightarrow> x_recs s' a = x_recs s a" "\<forall>k'. k' \<noteq> 0 \<and> k' \<noteq> k \<longrightarrow> ht_abs (x_maps s' m) k' = ht_abs (x_maps s m) k'"
    using hts.txn_map_get_ok [OF assms(1,2) k assms(4) vi] unfolding sn by (fastforce simp: restrict_map_def subset_iff)
  then show ?thesis using hts.read_keeps [OF assms(1,2) k assms(4) s'(1)] by blast
qed

theorem txn_map_get_snapshot_witness: "\<exists>s s'. x_recs s = updates_three \<and> txn_map_get ht_impl 64 1 s = ret (7, s') \<and> x_version s' = 3"
proof -
  obtain s x where s: "ht_txn_inv 0 ((\<lambda>_. [])(1 := [208, 224, 240])) (\<lambda>_. 0) s" "running (x_txns s) 64 x" "tx_rv x = 3" "x_recs s = updates_three"
    "0 < ht_room (x_maps s 0)" "x_version s = 3"
    using txn_three_reader by blast
  have "dropWhile (\<lambda>a. \<not> (u_ver (x_recs s) a = txn_ref 64 \<or> committed (u_ver (x_recs s) a) \<and> u_ver (x_recs s) a \<le> tx_rv x)) [208, 224, 240] = [208, 224, 240]"
    using s(3,4) small_committed(1) [of 3] by (simp add: u_ver_def updates_three_def small_keys_def)
  moreover have "u_val (x_recs s) 208 = 7" using s(4) by (simp add: u_val_def updates_three_def)
  ultimately show ?thesis using txn_map_get_snapshot [OF s(1,2) _ s(5) refl refl, of 1] s(4,6) by auto
qed

text \<open>C9: the first committer wins. In a well-formed state (\<open>ht_txn_inv\<close>), \<^verbatim>\<open>txn_commit\<close> of a running transaction returns
  \<^verbatim>\<open>TXN_VALIDATED\<close> if for every key it wrote the newest committed update is not newer than its read
  version, and \<^verbatim>\<open>TXN_ABORTED\<close> otherwise; it takes the next version number, and all its updates get that
  version, or the mark of an abort, at once; other updates, the other transactions and the map are as
  before, and the transaction and its write set are given up for freeing.\<close>

theorem txn_commit_first_wins:
  assumes "ht_txn_inv m ch en s" and "running (x_txns s) t x" and "x_version s + 1 \<in> small_keys" and "2 \<le> active_room s" and "24 \<le> length junk"
    and "ok \<longleftrightarrow> (\<forall>w \<in> set (tx_writes x). case filter (\<lambda>a. committed (u_ver (x_recs s) a)) (ch (w_key w)) of [] \<Rightarrow> True | a # _ \<Rightarrow> u_ver (x_recs s) a \<le> tx_rv x)"
  shows "\<exists>s' r. txn_commit ht_impl junk t s = ret (r, s') \<and> r = (if ok then TXN_VALIDATED else TXN_ABORTED) \<and> x_version s' = x_version s + 1 \<and>
    (\<forall>w \<in> set (tx_writes x). u_ver (x_recs s') (w_rec w) = (if ok then x_version s + 1 else ABORTED_VERSION)) \<and>
    (\<forall>a. a \<notin> w_rec ` set (tx_writes x) \<longrightarrow> x_recs s' a = x_recs s a) \<and> (\<forall>t'. t' \<noteq> t \<longrightarrow> x_txns s' t' = x_txns s t') \<and>
    (\<forall>k. k \<noteq> 0 \<longrightarrow> ht_abs (x_maps s' m) k = ht_abs (x_maps s m) k) \<and> x_deferred s' = x_deferred s @ [tx_writes_at x, t]"
proof -
  have dw: "(case dropWhile (\<lambda>a. \<not> P a) as of [] \<Rightarrow> True | a # _ \<Rightarrow> Q a) = (case filter P as of [] \<Rightarrow> True | a # _ \<Rightarrow> Q a)" for P Q and as :: "addr list"
    by (induction as) auto
  have ok: "ok \<longleftrightarrow> (\<forall>w \<in> set (tx_writes x). no_conflict (x_recs s) (tx_rv x) (ch (w_key w)))" by (simp add: assms(6) no_conflict_def dw)
  have w: "x_recs s (w_rec w) \<noteq> None" if "w \<in> set (tx_writes x)" for w
    using txn_invD(5,8) [OF assms(1)] assms(2) chains_okD(5) that unfolding txns_ok_def by blast
  show ?thesis
    using hts.txn_commit_ok [OF assms(1-5)] w unfolding ok [symmetric] by (auto simp: stamp_def [of _ _ _ a for a])
qed

theorem txn_commit_first_wins_witness:
  "\<exists>s a s'. txn_map_set ht_impl 64 1 5 txn_one = ret s \<and> txn_commit ht_impl stack_junk 64 s = ret (TXN_VALIDATED, s') \<and> x_version s' = 2 \<and>
    u_ver (x_recs s) a = txn_ref 64 \<and> u_ver (x_recs s') a = 2"
proof -
  obtain s a x where s: "txn_map_set ht_impl 64 1 5 txn_one = ret s" "ht_txn_inv 0 ((\<lambda>_. [])(1 := [a])) (\<lambda>_. 0) s" "running (x_txns s) 64 x"
    "tx_writes x = [\<lparr>w_key = 1, w_rec = a\<rparr>]" "u_ver (x_recs s) a = txn_ref 64" "x_version s = 1" "2 \<le> active_room s"
    using txn_one_set by blast
  have "x_version s + 1 \<in> small_keys" using s(6) by (simp add: small_keys_def)
  from txn_commit_first_wins [OF s(2,3) this s(7) stack_junk_size refl] show ?thesis using s by auto
qed

text \<open>C8: reads repeat across another transaction's commit. In a well-formed state (\<open>ht_txn_inv\<close>), a running
  transaction reads a key; then another running transaction writes a value, to the same key or to another, and
  commits. If the first read has freed no update record and the table can still grow, the write and the commit
  return, and the first transaction reads the same value again, whether that commit succeeded or failed. This
  holds while there is memory and the version number is below its bound; a first read that frees records,
  and reads of a third transaction in between, are not covered: the last two properties of this theory show what
  goes wrong there.\<close>

theorem txn_snapshot_isolated:
  assumes "ht_txn_inv m ch en s" and "running (x_txns s) t x" and "running (x_txns s) t' x'" and "t \<noteq> t'"
    and "k \<noteq> 0" and "k' \<noteq> 0" and "user_val v" and "0 < ht_room (x_maps s m)"
    and "(if length (tx_writes x') = tx_writes_size x' then 2 else 1) \<le> length (x_pool s)"
    and "x_version s + 1 \<in> small_keys" and "2 \<le> active_room s" and "24 \<le> length junk"
  shows "\<exists>v0 s0. txn_map_get ht_impl t k s = ret (v0, s0) \<and> (x_freed s0 = x_freed s \<and> 2 \<le> ht_room (x_maps s0 m) \<longrightarrow>
    (\<exists>s1 r s2 s3. txn_map_set ht_impl t' k' v s0 = ret s1 \<and> txn_commit ht_impl junk t' s1 = ret (r, s2) \<and> txn_map_get ht_impl t k s2 = ret (v0, s3)))"
  by (rule hts.read_isolated [OF assms(1-4) _ _ assms(7-12)]) (use assms(5,6) in simp_all)

theorem txn_snapshot_isolated_witness:
  "\<exists>s s0 s1 r s2 s3. txn_begin stack_junk 0 txn_one = ret (96, s) \<and> txn_map_get ht_impl 64 1 s = ret (0, s0) \<and> txn_map_set ht_impl 96 1 5 s0 = ret s1 \<and>
    txn_commit ht_impl stack_junk 96 s1 = ret (r, s2) \<and> txn_map_get ht_impl 64 1 s2 = ret (0, s3)"
proof -
  have "2 \<le> active_room txn_one" "x_pool txn_one = 96 # 112 # [128, 144, 160, 176, 192]" using txn_one_ok(5,6) by simp_all
  from txn_begin_ok [OF txn_one_ok(2) this(2,1) stack_junk_size _ refl] obtain s x' where
    s: "txn_begin stack_junk 0 txn_one = ret (96, s)" "ht_txn_inv 0 (\<lambda>_. []) (\<lambda>_. 0) s" "x_txns s = (x_txns txn_one)(96 \<mapsto> x')" "tx_state x' = TXN_RUNNING"
    "tx_writes x' = []" "tx_writes_size x' = 4" "x_version s = 1" "x_maps s = x_maps txn_one" "length (x_pool s) = 5" "active_room txn_one \<le> active_room s + 2"
    using txn_one_ok(4,7) by (auto simp: INITIAL_WRITES_SIZE_def)
  have run: "running (x_txns s) 64 txn_64" "running (x_txns s) 96 x'" using s(3,4) txn_one_ok(3) by (simp_all add: running_def)
  have v: "user_val 5" "(64 :: addr) \<noteq> 96" "(1 :: map_key_t) \<noteq> 0" by (simp_all add: user_val_def)
  have r: "2 \<le> ht_room (x_maps s 0)" "(if length (tx_writes x') = tx_writes_size x' then 2 else 1) \<le> length (x_pool s)" "x_version s + 1 \<in> small_keys" "2 \<le> active_room s"
    using s txn_one_ok(6,8) by (simp_all add: small_keys_def)
  have "0 < ht_room (x_maps s 0)" using r(1) by simp
  note run_ok = hts.txn_map_get_ok [OF s(2) run(1) _ this refl, of 1]
  obtain s0 where g: "txn_map_get ht_impl 64 1 s = ret (0, s0)" "x_freed s0 = x_freed s" "2 \<le> ht_room (x_maps s0 0)"
    using run_ok r(1) by (auto simp: snapshot_def visible_def collected_def merges_def)
  from txn_snapshot_isolated [OF s(2) run v(2,3,3,1) \<open>0 < ht_room (x_maps s 0)\<close> r(2-4) stack_junk_size] obtain s1 r s2 s3 where
    "txn_map_set ht_impl 96 1 5 s0 = ret s1" "txn_commit ht_impl stack_junk 96 s1 = ret (r, s2)" "txn_map_get ht_impl 64 1 s2 = ret (0, s3)"
    using g by auto
  then show ?thesis using s(1) g(1) by blast
qed

text \<open>C12: a successful commit is published. In a well-formed state (\<open>ht_txn_inv\<close>) with memory left and no
  transaction counted at the version number that the commit will take, a running transaction writes a value to a
  key with \<^verbatim>\<open>txn_map_set\<close> and then calls \<^verbatim>\<open>txn_commit\<close>. Both return, and if the result is
  \<^verbatim>\<open>TXN_VALIDATED\<close>, a transaction that begins right after the commit reads that value of the key; and of
  every other key the committed transaction has written, it reads what that transaction would have read just
  before it committed.\<close>

theorem txn_commit_published:
  assumes "ht_txn_inv m ch en s" and "running (x_txns s) t x" and "k \<noteq> 0" and "user_val v" and "2 \<le> ht_room (x_maps s m)"
    and "x_version s + 1 \<in> small_keys" and "4 \<le> active_room s" and "active_count s (x_version s + 1) = None" and "4 \<le> length (x_pool s)" and "24 \<le> length junk"
  shows "\<exists>s1 r s2. txn_map_set ht_impl t k v s = ret s1 \<and> txn_commit ht_impl junk t s1 = ret (r, s2) \<and>
    (r = TXN_VALIDATED \<longrightarrow> (\<exists>t2 s3. txn_begin junk m s2 = ret (t2, s3) \<and> (\<exists>s4. txn_map_get ht_impl t2 k s3 = ret (v, s4)) \<and>
      (\<forall>w \<in> set (tx_writes x). \<exists>v0 s0 s4. txn_map_get ht_impl t (w_key w) s1 = ret (v0, s0) \<and> txn_map_get ht_impl t2 (w_key w) s3 = ret (v0, s4))))"
  by (rule hts.write_published [OF assms(1,2) _ assms(4-10)]) (use assms(3) in simp)

theorem txn_commit_published_witness:
  "\<exists>s r s1 t2 s2 s3. txn_map_set ht_impl 64 1 5 txn_one = ret s \<and> txn_commit ht_impl stack_junk 64 s = ret (TXN_VALIDATED, s1) \<and>
    txn_begin stack_junk 0 s1 = ret (t2, s2) \<and> txn_map_get ht_impl t2 1 s2 = ret (5, s3)"
proof -
  have h: "user_val 5" by (simp add: user_val_def)
  obtain s a x where s: "txn_map_set ht_impl 64 1 5 txn_one = ret s" "ht_txn_inv 0 ((\<lambda>_. [])(1 := [a])) (\<lambda>_. 0) s" "running (x_txns s) 64 x"
    "tx_writes x = [\<lparr>w_key = 1, w_rec = a\<rparr>]" "u_ver (x_recs s) a = txn_ref 64" "x_version s = 1" "2 \<le> active_room s"
    using txn_one_set by blast
  have c: "\<exists>s1. txn_commit ht_impl stack_junk 64 s = ret (TXN_VALIDATED, s1)"
    using hts.txn_commit_ok [OF s(2,3) _ s(7) stack_junk_size] s(4-6) by (auto simp: no_conflict_def small_keys_def)
  have g: "2 \<le> ht_room (x_maps txn_one 0)" "4 \<le> active_room txn_one" "active_count txn_one (x_version txn_one + 1) = None" "4 \<le> length (x_pool txn_one)"
    using txn_one_ok(4-8) by simp_all
  show ?thesis using txn_commit_published [OF txn_one_ok(2,3) _ h g(1) txn_one_ok(9) g(2-4) stack_junk_size, of 1] c s(1) by auto
qed

text \<open>C38: reading frees memory that is still in use. When the update a transaction sees is followed by one
  older than every active version, and that one is not the last of the chain, \<^verbatim>\<open>txn_map_get\<close> frees the
  updates that follow and leaves the reference to the first of them in the update it returns: the next
  read of the same key by the same transaction follows it.\<close>

theorem txn_map_get_use_after_free:
  assumes "ht_txn_inv m ch en s" and "running (x_txns s) t x" and "k \<noteq> 0" and "0 < ht_room (x_maps s m)"
    and "visible (x_recs s) t (tx_rv x) (ch k) = a # n # ns" and "active_min s = ret oldest" and "u_ver (x_recs s) n < oldest" and "en k \<noteq> 0 \<or> ns \<noteq> []"
  shows "\<exists>s1. txn_map_get ht_impl t k s = ret (u_val (x_recs s) a, s1) \<and> n \<in> set (x_freed s1) \<and> txn_map_get ht_impl t k s1 = fail Null_Deref"
  by (rule hts.freed_again [OF assms(1,2) _ assms(4-8)]) (use assms(3) in simp)

theorem txn_map_get_use_after_free_witness:
  "\<exists>s s1. txn_map_get ht_impl 64 1 s = ret (7, s1) \<and> txn_map_get ht_impl 64 1 s1 = fail Null_Deref"
proof -
  obtain s x where s: "ht_txn_inv 0 ((\<lambda>_. [])(1 := [208, 224, 240])) (\<lambda>_. 0) s" "running (x_txns s) 64 x" "tx_rv x = 3" "x_recs s = updates_three"
    "0 < ht_room (x_maps s 0)" "active_min s = ret 3"
    using txn_three_reader by blast
  have vis: "visible (x_recs s) 64 (tx_rv x) (((\<lambda>_. [])(1 := [208, 224, 240])) 1) = 208 # 224 # [240]"
    using s(3,4) small_committed(1) [of 3] by (simp add: visible_def sees_def u_ver_def updates_three_def small_keys_def)
  have "u_ver (x_recs s) 224 < 3" "u_val (x_recs s) 208 = 7" using s(4) by (simp_all add: u_ver_def u_val_def updates_three_def)
  then show ?thesis using txn_map_get_use_after_free [OF s(1,2) _ s(5) vis s(6)] by auto
qed

text \<open>C37: isolation fails with three transactions. Three transactions begin at one version; the second reads a
  key that is unbound; the first writes the key and commits, which removes the version from the skip list
  of active versions although the other two are running; a fourth transaction begins and reads the key,
  which moves the new value into the map as visible to all; and the second transaction now reads it.\<close>

theorem txn_snapshot_lost:
  assumes "ht_txn_inv m ch en s" and "9 \<le> length (x_pool s)" and "10 \<le> active_room s" and "active_count s = (\<lambda>_. None)"
    and "x_version s + 1 \<in> small_keys" and "24 \<le> length junk" and "k \<noteq> 0" and "ch k = []" and "en k = 0" and "user_val v" and "2 \<le> ht_room (x_maps s m)"
  shows "\<exists>t1 t2 t3 t4 s1 s2 s3 s4 s5 s6 s7 s8. txn_begin junk m s = ret (t1, s1) \<and> txn_begin junk m s1 = ret (t2, s2) \<and> txn_begin junk m s2 = ret (t3, s3) \<and>
    (\<exists>s'. txn_map_get ht_impl t2 k s3 = ret (DOES_NOT_EXIST, s')) \<and>
    txn_map_set ht_impl t1 k v s3 = ret s4 \<and> txn_commit ht_impl junk t1 s4 = ret (TXN_VALIDATED, s5) \<and> active_count s5 = (\<lambda>_. None) \<and>
    txn_begin junk m s5 = ret (t4, s6) \<and> txn_map_get ht_impl t4 k s6 = ret (v, s7) \<and> txn_map_get ht_impl t2 k s7 = ret (v, s8)"
  by (rule hts.snapshot_lost [OF assms(1-6) _ assms(8-11)]) (use assms(7) in simp)

theorem txn_snapshot_lost_witness:
  "\<exists>t1 t2 t3 s1 s2 s3 s4 s5. txn_begin stack_junk 0 txn_start = ret (t1, s1) \<and> txn_begin stack_junk 0 s1 = ret (t2, s2) \<and> txn_begin stack_junk 0 s2 = ret (t3, s3) \<and>
    txn_map_set ht_impl t1 1 5 s3 = ret s4 \<and> txn_commit ht_impl stack_junk t1 s4 = ret (TXN_VALIDATED, s5) \<and> active_count s5 = (\<lambda>_. None)"
proof -
  have "9 \<le> length (x_pool txn_start)" "10 \<le> active_room txn_start" "2 \<le> ht_room (x_maps txn_start 0)" "(1 :: map_key_t) \<noteq> 0" "user_val 5"
    using txn_start_ok(3,4) by (simp_all add: txn_start_def user_val_def)
  from txn_snapshot_lost [OF txn_start_ok(1) this(1,2) txn_start_ok(2,6) stack_junk_size this(4) _ _ this(5,3)] show ?thesis by blast
qed

end
