(* ===== verification/Nstring.thy ===== *)
theory Nstring
  imports Murmur
begin

text \<open>
  Model of \<^verbatim>\<open>src/src/datatype/nstring.c\<close> and \<^verbatim>\<open>nstring.h\<close>: length-prefixed
  byte strings used as map keys. A string is its \<^verbatim>\<open>len\<close> field and the bytes of its
  storage; the storage may be longer than \<^verbatim>\<open>len\<close>, since callers lower \<^verbatim>\<open>len\<close>
  after \<^verbatim>\<open>ns_alloc\<close>.
\<close>

record nstring =
  ns_len :: uint32_t
  ns_data :: "uint8_t list"

definition nstring_wf :: "nstring \<Rightarrow> bool" where
  "nstring_wf ns \<longleftrightarrow> unat (ns_len ns) \<le> length (ns_data ns)"

definition ns_bytes :: "nstring \<Rightarrow> uint8_t list" where
  "ns_bytes ns = take (unat (ns_len ns)) (ns_data ns)"

text \<open>The C library's \<^verbatim>\<open>memcmp\<close>: the difference of the first bytes that differ.\<close>

fun bytes_cmp :: "uint8_t list \<Rightarrow> uint8_t list \<Rightarrow> int" where
  "bytes_cmp (x # xs) (y # ys) = (if x = y then bytes_cmp xs ys else uint x - uint y)"
| "bytes_cmp _ _ = 0"

definition memcmp :: "uint8_t list \<Rightarrow> uint8_t list \<Rightarrow> nat \<Rightarrow> int prog" where
  "memcmp a b n =
     (if n \<le> length a \<and> n \<le> length b then ret (bytes_cmp (take n a) (take n b))
      else fail Out_Of_Bounds)"

text \<open>Storage of \<^verbatim>\<open>malloc\<close> is not initialised: \<open>junk\<close> is what it holds.\<close>

definition ns_alloc :: "uint8_t list \<Rightarrow> uint32_t \<Rightarrow> nstring" where
  "ns_alloc junk l = \<lparr>ns_len = l, ns_data = take (unat l) (junk @ replicate (unat l) 0)\<rparr>"

definition ns_cmp :: "nstring \<Rightarrow> nstring \<Rightarrow> int prog" where
  "ns_cmp ns1 ns2 =
     pbind (memcmp (ns_data ns1) (ns_data ns2)
        (if ns_len ns1 < ns_len ns2 then unat (ns_len ns1) else unat (ns_len ns1)))
       (\<lambda>d. ret (if d = 0 then as_int (ns_len ns1 - ns_len ns2) else d))"

definition ns_hash :: "nstring \<Rightarrow> uint32_t prog" where
  "ns_hash ns =
     (if unat (ns_len ns) \<le> length (ns_data ns) then ret (murmur32 (take (unat (ns_len ns)) (ns_data ns)))
      else fail Out_Of_Bounds)"

definition ns_dup :: "uint8_t list \<Rightarrow> nstring \<Rightarrow> nstring prog" where
  "ns_dup junk ns1 =
     (let ns2 = ns_alloc junk (ns_len ns1)
      in if unat (ns_len ns1) \<le> length (ns_data ns1)
         then ret (ns2\<lparr>ns_data := take (unat (ns_len ns1)) (ns_data ns1) @ drop (unat (ns_len ns1)) (ns_data ns2)\<rparr>)
         else fail Out_Of_Bounds)"

section \<open>Comparison\<close>

lemma bytes_cmp_eq_0:
  "length xs = length ys \<Longrightarrow> bytes_cmp xs ys = 0 \<longleftrightarrow> xs = ys"
  by (induction xs ys rule: list_induct2) (auto simp: word_uint_eq_iff)

lemma bytes_cmp_antisym:
  "length xs = length ys \<Longrightarrow> bytes_cmp xs ys = - bytes_cmp ys xs"
  by (induction xs ys rule: list_induct2) auto

lemma length_ns_alloc [simp]: "length (ns_data (ns_alloc junk l)) = unat l"
  by (simp add: ns_alloc_def)

lemma as_int_eq_0 [simp]: "as_int w = 0 \<longleftrightarrow> w = 0"
  by (simp add: as_int_def signed_eq_0_iff)

lemma ns_cmp_in_bounds:
  assumes "nstring_wf ns1" and "unat (ns_len ns1) \<le> length (ns_data ns2)"
  shows "ns_cmp ns1 ns2 =
    ret (let d = bytes_cmp (ns_bytes ns1) (take (unat (ns_len ns1)) (ns_data ns2))
         in if d = 0 then as_int (ns_len ns1 - ns_len ns2) else d)"
  using assms by (simp add: ns_cmp_def memcmp_def nstring_wf_def ns_bytes_def)

lemma ns_cmp_eq_0_iff:
  assumes "nstring_wf ns1" and "nstring_wf ns2" and "unat (ns_len ns1) \<le> length (ns_data ns2)"
  shows "ns_cmp ns1 ns2 = ret 0 \<longleftrightarrow> ns_bytes ns1 = ns_bytes ns2"
proof
  assume "ns_cmp ns1 ns2 = ret 0"
  then have "bytes_cmp (ns_bytes ns1) (take (unat (ns_len ns1)) (ns_data ns2)) = 0" and "ns_len ns1 = ns_len ns2"
    by (auto simp: ns_cmp_in_bounds [OF assms(1,3)] Let_def split: if_splits)
  with assms show "ns_bytes ns1 = ns_bytes ns2"
    by (simp add: ns_bytes_def nstring_wf_def bytes_cmp_eq_0)
next
  assume eq: "ns_bytes ns1 = ns_bytes ns2"
  then have "length (ns_bytes ns1) = length (ns_bytes ns2)" by simp
  with assms(1,2) have "ns_len ns1 = ns_len ns2"
    by (simp add: ns_bytes_def nstring_wf_def word_unat_eq_iff)
  with eq assms show "ns_cmp ns1 ns2 = ret 0"
    by (simp add: ns_cmp_in_bounds [OF assms(1,3)] ns_bytes_def bytes_cmp_eq_0)
qed

section \<open>Properties\<close>

text \<open>\<^verbatim>\<open>ns_cmp\<close> finds two strings equal exactly when they have the same bytes, as
  long as the first is no longer than the storage of the second; when it is longer, the comparison
  reads past that storage, because \<^verbatim>\<open>memcmp\<close> is given the length of the first string in
  both branches.\<close>

lemma ns_cmp_correct:
  assumes "nstring_wf ns1" and "nstring_wf ns2"
  shows "if unat (ns_len ns1) \<le> length (ns_data ns2)
    then ns_cmp ns1 ns2 = ret 0 \<longleftrightarrow> ns_bytes ns1 = ns_bytes ns2
    else ns_cmp ns1 ns2 = fail Out_Of_Bounds"
  using assms ns_cmp_eq_0_iff [OF assms] by (simp add: ns_cmp_def memcmp_def)

text \<open>\<^verbatim>\<open>ns_dup\<close> makes a well-formed copy with the same bytes and the same hash, which
  \<^verbatim>\<open>ns_cmp\<close> finds equal to the original, whatever the fresh storage held before.\<close>

lemma ns_dup_correct:
  assumes "nstring_wf ns"
  shows "\<exists>ns'. ns_dup junk ns = ret ns' \<and> ns_bytes ns' = ns_bytes ns \<and> nstring_wf ns' \<and>
    ns_cmp ns ns' = ret 0 \<and> ns_hash ns' = ns_hash ns"
proof -
  let ?ns' = "\<lparr>ns_len = ns_len ns, ns_data = take (unat (ns_len ns)) (ns_data ns)\<rparr>"
  have dup: "ns_dup junk ns = ret ?ns'"
    using assms by (simp add: ns_dup_def nstring_wf_def Let_def ns_alloc_def)
  have bytes: "ns_bytes ?ns' = ns_bytes ns" by (simp add: ns_bytes_def)
  have wf: "nstring_wf ?ns'" using assms by (simp add: nstring_wf_def)
  have "ns_cmp ns ?ns' = ret 0"
    using ns_cmp_eq_0_iff [OF assms wf] assms bytes by (simp add: nstring_wf_def)
  moreover have "ns_hash ?ns' = ns_hash ns"
    using assms by (simp add: ns_hash_def nstring_wf_def)
  ultimately show ?thesis using dup bytes wf by blast
qed

end
