(* ===== verification/Spec2Isabelle.thy ===== *)
theory Spec2Isabelle
  imports Gcc_Sync Map_Table Lwt Cfifo_Concurrent Clifo_Concurrent Cmpool Linked_List_Reclaim Skiplist_Map Hashtable_Props Rcu Hazard Mem_Props Txn_Props Murmur Nstring Kiss_Random
begin

text \<open>
  Verification of the concurrent data-structure library in \<^verbatim>\<open>src/\<close>.

  \<^bold>\<open>The program.\<close> The library has two generations of code. The newer one consists of a bounded queue
  (\<^verbatim>\<open>fifo/cfifo.c\<close>), a bounded stack (\<^verbatim>\<open>lifo/clifo.c\<close>) and a pool of equal blocks
  (\<^verbatim>\<open>manager/cmpool.c\<close>), written with the atomic macros of \<^verbatim>\<open>common/catomic.h\<close>. The
  older one consists of maps and what they need: a sorted list (\<^verbatim>\<open>map/list.c\<close>), a lock-free and a
  sequential skip list (\<^verbatim>\<open>map/skiplist.c\<close>, \<^verbatim>\<open>map/unsafe_skiplist.c\<close>) and a hash
  table (\<^verbatim>\<open>map/hashtable.c\<close>) behind the table of functions of \<^verbatim>\<open>map/map.c\<close>;
  transactions over any of these maps (\<^verbatim>\<open>txn/txn.c\<close>), which keep the read versions in use in a skip
  list; and a run-time system with an allocator (\<^verbatim>\<open>runtime/mem.c\<close>), deferred freeing
  (\<^verbatim>\<open>runtime/rcu.c\<close>) and hazard pointers (\<^verbatim>\<open>runtime/hazard.c\<close>), per-thread random
  numbers (\<^verbatim>\<open>runtime/random.c\<close>), which give the skip lists the levels of their nodes, tracing
  (\<^verbatim>\<open>runtime/lwt.c\<close>) and the start-up of a thread (\<^verbatim>\<open>runtime/runtime.c\<close>). Keys that
  are not integers go through \<^verbatim>\<open>datatype/\<close>: strings (\<^verbatim>\<open>nstring.c\<close>) and their hash
  (\<^verbatim>\<open>murmur.h\<close>). All paths are below \<^verbatim>\<open>src/src/\<close>.

  \<^bold>\<open>How it is modelled.\<close> Structures are records, enumerations datatypes, integers words of their width, which
  wrap around as in C. A definition has the name of its C function; where two files have functions of the
  same name, those of \<^verbatim>\<open>unsafe_skiplist.c\<close> carry the suffix \<open>_seq\<close>, and those of \<^verbatim>\<open>skiplist.c\<close>
  that list.c also has the prefix \<open>sl_\<close>. A loop is a definition of its own. Static variables and the part of
  memory a component owns are a record that its operations take and return; nodes are kept in a heap indexed
  by addresses, or, for hash tables, in a store in the order of their allocation. A run that may fault or not
  return is a value of \<open>'a prog\<close> (\<open>Prelude\<close>): NULL dereferences, accesses out of bounds, failed assertions,
  undefined behaviour and \<^verbatim>\<open>exit\<close> are values of \<open>c_error\<close>, not returning is \<open>None\<close>. A theorem
  that says an operation equals \<open>ret x\<close> says that it returns and without a fault. Loops over linked structures
  are \<^theory_text>\<open>partial_function (option)\<close>, so there is no fuel.

  Concurrency is modelled at three grains. \<open>Cfifo_Concurrent\<close>, \<open>Clifo_Concurrent\<close> and \<open>Linked_List_Concurrent\<close>
  interleave the single accesses of any number of threads. \<open>Rcu\<close> and the transactions interleave whole calls.
  \<open>Gcc_Sync\<close> gives an operation the interference of the other threads as an argument. The definitions of all maps
  also say what one thread does, on states that others may have left half-way: marked nodes that are still
  linked, tables that are half copied; the branches a thread takes when it loses a race are part of them.

  \<^bold>\<open>The theories.\<close>

  \<^item> \<open>Prelude\<close>: integer types, the result type and its rules, lemmas on words and lists. \<open>Common\<close>
    (\<^verbatim>\<open>runtime/common.h\<close>): tags, masks, atomic operations. \<open>Atomic_Var\<close> (\<^verbatim>\<open>common/catomic.h\<close>) and
    \<open>Gcc_Sync\<close> (\<^verbatim>\<open>common/catomic_gcc_sync.h\<close>): the atomics. The emulated exchange returns and is atomic
    whatever the other threads do. \<open>Chains\<close>: segments of linked lists. \<open>Marks\<close>: links with a mark bit, and the locale
    \<open>ordered_keys\<close> of a set of keys that the comparison orders.

  \<^item> \<open>Buffer_Spec\<close>: the contract of a bounded container, the locale \<open>bounded_buffer\<close>, interpreted by \<open>Cfifo\<close> (as a
    queue) and \<open>Clifo\<close> (as a stack of \<open>size - 1\<close> values). \<open>Cfifo_Concurrent\<close>: with one consumer the values leave in the
    order of the successful pushes and none is lost; with two consumers this fails, by an execution.
    \<open>Clifo_Concurrent\<close>: the values taken out are among those put in, none twice, and a slot is never blocked for
    ever. \<open>Cmpool\<close>: allocation and release of blocks of the pool.

  \<^item> \<open>Map_Interface\<close> (\<^verbatim>\<open>map/map.c\<close>): the table of functions, and the contract of a map as the locale
    \<open>map_contract\<close>, with \<open>comparing_map\<close> for the maps that compare what \<^verbatim>\<open>map_cas\<close> expects. Sequences of calls
    and their results are proved in the locale. \<open>Linked_List\<close>, \<open>Skiplist_Map\<close>, \<open>Unsafe_Skiplist\<close> and \<open>Hashtable_Map\<close>
    interpret it. \<open>Map_Table\<close> has the tables \<^verbatim>\<open>MAP_IMPL_LL\<close>, \<^verbatim>\<open>MAP_IMPL_SL\<close> and
    \<^verbatim>\<open>MAP_IMPL_HT\<close>, and allocation, release and iteration through them. \<open>Linked_List\<close> contains model and proofs of \<^verbatim>\<open>list.c\<close> for one thread. \<open>Skiplist_Data\<close> and \<open>Skiplist_Shape\<close>
    are what the skip lists share, \<open>Skiplist\<close> is the model of \<^verbatim>\<open>skiplist.c\<close> with its proofs in
    \<open>Skiplist_Map\<close>, and \<open>Unsafe_Skiplist\<close> both of \<^verbatim>\<open>unsafe_skiplist.c\<close>. \<open>Hashtable\<close> is the model of
    \<^verbatim>\<open>hashtable.c\<close>; \<open>Hashtable_Table\<close>, \<open>Hashtable_Chain\<close>, \<open>Hashtable_Ops\<close>, \<open>Hashtable_Update\<close>,
    \<open>Hashtable_Map\<close> and \<open>Hashtable_Props\<close> prove it from one table up to the map: refinement, counting, iteration, and
    that a copy makes progress and is over after a bounded number of calls (\<open>hti_help_calls\<close>). This theory shows that the three ordered maps return the same values.

  \<^item> \<open>Linearizability\<close>: histories of calls and returns and their linearizations. \<open>Linked_List_Concurrent\<close>: the
    lookups, updates and removals of \<^verbatim>\<open>list.c\<close> as steps of one access each, by threads whose program counters
    hold their local variables. \<open>Linked_List_Views\<close> and \<open>Linked_List_Steps\<close> have the invariant and that every step keeps
    it: a removal takes effect when it marks the node, an insertion when it links one, an update when it swaps
    the value, and a lookup at a moment between its call and its return that may lie in the past.
    \<open>Linked_List_Retire\<close> follows the nodes that are handed to the deferred reclamation, \<open>Linked_List_Progress\<close> a thread
    that runs alone. \<open>Linked_List_Linear\<close> has the theorems: every execution is linearizable, the nodes form a sorted list
    with the bindings of the linearization at every moment, no access faults, no node is handed over twice or
    while it is linked, none that was unlinked is forgotten, and a thread that runs alone returns. \<open>Linked_List_Reach\<close> shows that an operation never comes
    upon a node that was off the list when it began, and \<open>Linked_List_Reclaim\<close> puts the list and \<open>Rcu\<close> together: threads
    call \<^verbatim>\<open>rcu_update\<close> between operations, nodes are really freed, and no freed node is accessed.

  \<^item> \<open>Rcu\<close>: no address is freed before every thread has passed an update since it was handed over, every call
    returns, and a round of updates frees what was pending. \<open>Hazard\<close>: no address that is announced in a slot is
    freed. \<open>Mem\<close>, \<open>Mem_Inv\<close>, \<open>Mem_Props\<close>: the allocator hands out aligned blocks that overlap no block in use,
    a freed block goes back to its owner, to the list or the queue that \<open>put_back\<close> describes, and is used again.

  \<^item> \<open>Txn\<close> is the model of \<^verbatim>\<open>txn.c\<close>, over any map; \<open>Txn_Chain\<close> has the lemmas on chains of updates,
    \<open>Txn_Inv\<close> the invariant, proved in the locale \<open>txn_store\<close>, which extends \<open>comparing_map\<close>; \<open>Txn_Props\<close> interprets
    the locale on the hash table. Reads see a snapshot, the first of two conflicting writers commits, and what
    is committed is seen by later transactions. Two theorems exhibit executions in which the code does not keep
    this: a version that is in use is given up, and an update record is used after it is freed.

  \<^item> \<open>Murmur\<close>, \<open>Nstring\<close>, \<open>Kiss_Random\<close>: hash, strings and random numbers. \<open>Lwt\<close>: tracing and the start-up of a thread.

  \<^bold>\<open>Parameters and bounds.\<close> What is not in the sources is an argument: the addresses that \<^verbatim>\<open>nbd_malloc\<close> will
  return to a map (\<open>ll_pool\<close>, \<open>sl_pool\<close>, \<open>x_pool\<close>), the results of \<^verbatim>\<open>mmap\<close> (\<open>m_mmap\<close>), the bytes of
  \<^verbatim>\<open>/dev/urandom\<close>, the time stamp counter, and what newly allocated memory holds (\<open>junk\<close>). The theorems
  about maps hold while memory lasts: \<open>length (ll_pool s)\<close> nodes for the list, \<open>sl_room\<close> for the skip lists, which
  also ends where a random number makes \<^verbatim>\<open>__builtin_ctz\<close> undefined, and \<open>ht_room\<close> for the hash table,
  whose counters and scales have a width. Integer keys of the ordered maps are below \<open>2 ^ 31\<close> (\<open>small_keys\<close>), since
  the code stores a 64-bit difference in an \<^verbatim>\<open>int\<close>. The counters of the queue may wrap around;
  \<open>cfifo_budget\<close> says after how many pushes an index computed modulo the capacity would jump. The theorems of \<open>Rcu\<close> and \<open>Linked_List_Reclaim\<close> are about
  runs in which no thread hands over \<open>2 ^ 32\<close> addresses or more, the width of the counters of a queue. The traces of
  \<open>Lwt\<close> have fewer than \<open>2 ^ 32\<close> records, the width of \<^verbatim>\<open>head\<close>.

  \<^bold>\<open>Calls between components.\<close> \<open>Linked_List_Reclaim\<close> runs the list with the model of \<^verbatim>\<open>rcu.c\<close>. In the
  other models of the maps and in that of \<^verbatim>\<open>txn.c\<close> a call of \<^verbatim>\<open>rcu_defer_free\<close>
  (in \<open>ll_remove\<close>, \<open>find_pred\<close>, \<open>lc_access\<close>, \<open>sl_remove\<close>, \<open>hti_defer_free\<close> and \<open>txn_commit\<close>) appends the address to
  a list of the state and returns. The assertion at \<^verbatim>\<open>rcu.c:82\<close>, which fails when the caller's queue is
  full, is thus no part of what those theorems say: it is a branch of \<open>rcu_defer_free\<close> in \<open>Rcu\<close> and of \<open>rl_exec\<close>. The
  memory \<^verbatim>\<open>hti_alloc\<close> gets is there and aligned to a cache line, as \<^verbatim>\<open>nbd_malloc\<close> aligns a block
  of that size; the assertion at \<^verbatim>\<open>hashtable.c:174\<close> is about this alignment. \<^verbatim>\<open>map_t\<close> and
  \<^verbatim>\<open>map_iter_t\<close> are values.

  \<^bold>\<open>Not modelled.\<close> \<^verbatim>\<open>runtime/mem2.c\<close> is unfinished and not part of the build;
  \<^verbatim>\<open>runtime/mem_class_calc.c\<close> is a program that prints a table. \<^verbatim>\<open>catomic_gcc_atomic.h\<close>,
  \<^verbatim>\<open>catomic_clang_c11.h\<close>, \<^verbatim>\<open>catomic_msvc.h\<close> and \<^verbatim>\<open>cthread.h\<close> wrap builtins of
  compilers and threads of the platform one by one. \<^verbatim>\<open>manager/ctpool.c\<close> is empty. The functions that print
  a map, the formatting of trace lines, the test drivers and the SHA-1 demonstration are left out, as are the
  alternatives in \<^verbatim>\<open>clifo.c\<close> that are disabled, and the builds of \<^verbatim>\<open>list.c\<close> with hazard pointers
  and of \<^verbatim>\<open>mem.c\<close> with recycled pages. The memory order of the atomic accesses is taken to be sequentially
  consistent. Runs of the skip list and of the hash table by several threads at once, access by access, are not
  covered by the theorems. In those of the list the allocator does not hand out the address of a freed node
  again.
\<close>

context level_keys
begin

text \<open>The same operations on a list and on two skip lists that hold the same bindings.\<close>

lemma ordered_runs:
  assumes "ll_inv kt K rank l" and "sl_inv kt K rank q" and "sl_inv kt K rank f"
    and "\<And>k. k \<in> K \<Longrightarrow> ll_abs rank l k = m k \<and> sl_abs rank q k = m k \<and> sl_abs rank f k = m k"
    and "ops_ok K positive_vals ops" and "length ops \<le> length (ll_pool l)" and "length ops \<le> sl_room q" and "length ops \<le> sl_room f"
  shows "\<exists>l' q' f' vs. vs = map_results (\<lambda>k k'. rank k = rank k') ops m \<and> map_run ll_impl ops l = ret (vs, l') \<and>
    map_run (sl_impl_seq junk) ops q = ret (vs, q') \<and> map_run (sl_impl junk) ops f = ret (vs, f')"
proof -
  have "map_results (\<lambda>k k'. rank k = rank k') ops (ll_abs rank l) = map_results (\<lambda>k k'. rank k = rank k') ops m"
    "map_results (\<lambda>k k'. rank k = rank k') ops (sl_abs rank q) = map_results (\<lambda>k k'. rank k = rank k') ops m"
    "map_results (\<lambda>k k'. rank k = rank k') ops (sl_abs rank f) = map_results (\<lambda>k k'. rank k = rank k') ops m"
    using assms(4) by (auto intro!: map_results_cong [OF assms(5)])
  then show ?thesis
    using ll.run_spec [OF assms(1,5,6)] slq.run_spec [OF assms(2,5,7)] slf.run_spec [OF assms(3,5,8)] by auto
qed

end

text \<open>C5: the ordered maps are interchangeable behind the interface of \<^verbatim>\<open>map.c\<close>. Take a list, a
  sequential skip list and a lock-free skip list, each freshly allocated, and apply the same sequence of
  \<^verbatim>\<open>map_get\<close>, \<^verbatim>\<open>map_set\<close>, \<^verbatim>\<open>map_add\<close>, \<^verbatim>\<open>map_replace\<close> and
  \<^verbatim>\<open>map_remove\<close> to the three. While memory lasts every call returns, whatever levels the random
  numbers give the nodes, and the three return the same values, which are those of an abstract map.\<close>

theorem ordered_maps_agree:
  assumes "key_order kt K rank" and "24 \<le> length junk" and "sl_pool_ok (a # pool) (\<lambda>_. None)"
    and "ops_ok K positive_vals ops" and "length ops \<le> rand_room (length pool) rnd"
  shows "\<exists>l l' q q' f f' vs. vs = map_results (\<lambda>k k'. rank k = rank k') ops (\<lambda>_. None) \<and>
    ll_alloc kt (a # pool) = ret l \<and> map_run ll_impl ops l = ret (vs, l') \<and>
    sl_alloc_seq kt (a # pool) rnd = ret q \<and> map_run (sl_impl_seq junk) ops q = ret (vs, q') \<and>
    sl_alloc kt (a # pool) rnd = ret f \<and> map_run (sl_impl junk) ops f = ret (vs, f')"
proof -
  have L: "level_keys kt K rank junk" using assms(1,2) by unfold_locales
  obtain l where l: "ll_alloc kt (a # pool) = ret l" "ll_rep kt K rank l []" "ll_pool l = pool"
    using ll_alloc_spec [of a pool kt K rank] assms(3) by (auto simp: pool_ok_def sl_pool_ok_def)
  obtain q where q: "sl_alloc_seq kt (a # pool) rnd = ret q" "sl_rep kt K rank q []" "sl_pool q = pool" "sl_rnd q = rnd"
    using sl_alloc_seq_ok [OF assms(3)] by blast
  have inv: "ll_inv kt K rank l" "sl_inv kt K rank q" using l(2) q(2) by (auto simp: ll_inv_def sl_inv_def)
  have ab: "ll_abs rank l k = None" "sl_abs rank q k = None" for k
    using ll_abs_eq [OF l(2)] sl_abs_empty [OF q(2)] by (auto simp: lookup_in_def live_def)
  have room: "length ops \<le> sl_room q" "length ops \<le> length (ll_pool l)"
    using assms(5) q l(3) rand_room_le [of "length pool" rnd] by (simp_all add: sl_room_def)
  have "sl_alloc kt (a # pool) rnd = ret q" using q(1) sl_alloc_eq_seq by simp
  moreover obtain l' q' f' vs where "vs = map_results (\<lambda>k k'. rank k = rank k') ops (\<lambda>_. None)" "map_run ll_impl ops l = ret (vs, l')"
    "map_run (sl_impl_seq junk) ops q = ret (vs, q')" "map_run (sl_impl junk) ops q = ret (vs, f')"
    using level_keys.ordered_runs [OF L inv(1,2,2) _ assms(4) room(2,1,1), of "\<lambda>_. None"] ab by auto
  ultimately show ?thesis using l(1) q(1) by auto
qed

theorem ordered_maps_agree_witness:
  "\<exists>l q f l' q' f'. map_run ll_impl [Op_Set 5 9, Op_Get 5] l = ret ([0, 9], l') \<and>
     map_run (sl_impl_seq (replicate 24 0)) [Op_Set 5 9, Op_Get 5] q = ret ([0, 9], q') \<and>
     map_run (sl_impl (replicate 24 0)) [Op_Set 5 9, Op_Get 5] f = ret ([0, 9], f')"
proof -
  have p: "sl_pool_ok [16, 32, 48] (\<lambda>_. None)" by (simp add: sl_pool_ok_def HAS_MARK_def IS_TAGGED_def)
  have o: "ops_ok small_keys positive_vals [Op_Set 5 9, Op_Get 5]" by (simp add: ops_ok_def small_keys_def positive_vals_def)
  have r: "length [Op_Set 5 9, Op_Get 5] \<le> rand_room (length [32 :: addr, 48]) rnd_sample"
    using rand_room_sample by (simp add: numeral_2_eq_2 del: rand_room.simps)
  have j: "24 \<le> length (replicate 24 (0 :: addr))" by simp
  have "map_results (\<lambda>k k'. uint k = uint k') [Op_Set 5 9, Op_Get 5] (\<lambda>_. None) = [0, 9]" by simp
  then show ?thesis using ordered_maps_agree [OF small_keys_order j p o r] by metis
qed

end
